(* ===== verification/Prelude.thy ===== *)
theory Prelude
  imports Main "HOL-Library.Word" "HOL-Library.List_Lexorder"
begin

text \<open>
  Shared vocabulary of the development: the error type of \<^verbatim>\<open>error.rs\<close>, the result and
  state-passing types every operation is written in, byte strings with the little- and big-endian
  integer encodings of the Rust standard library, bounds-checked slices (an index out of range is
  a panic, never an unspecified value), and the generic lemmas the component theories use.
\<close>

named_theorems result_simps \<open>rewriting the result and state-passing operators\<close>
named_theorems byte_simps \<open>lengths and round trips of the integer encodings\<close>

section \<open>Errors and results\<close>

text \<open>
  The variants of \<^verbatim>\<open>Error\<close> without their message strings (the messages are text for people,
  no code branches on them). A Rust panic and a loop that exceeds the fuel given to its model are
  not values of \<^verbatim>\<open>Error\<close>; they are the two other ways an operation can fail to return.
\<close>

datatype error = Io | Corruption | Parse | Exec | TooLarge | Exhausted | Protocol | Conflict
  | Serialization

datatype failure = Fail error | Panicked | OutOfFuel

type_synonym 'a result = "failure + 'a"

definition rbind :: "'a result \<Rightarrow> ('a \<Rightarrow> 'b result) \<Rightarrow> 'b result" where
  "rbind r f = (case r of Inl e \<Rightarrow> Inl e | Inr x \<Rightarrow> f x)"

lemma rbind_simps [simp, result_simps]:
  "rbind (Inl e) f = Inl e"
  "rbind (Inr x) f = f x"
  by (simp_all add: rbind_def)

lemma rbind_Inr_iff: "rbind r f = Inr y \<longleftrightarrow> (\<exists>x. r = Inr x \<and> f x = Inr y)"
  by (cases r) auto

lemma rbind_cong [fundef_cong]:
  "r = r' \<Longrightarrow> (\<And>x. r' = Inr x \<Longrightarrow> f x = f' x) \<Longrightarrow> rbind r f = rbind r' f'"
  by (cases r') auto

text \<open>The iterator chain \<^verbatim>\<open>.map(..).collect::<Result<Vec<_>>>()\<close>.\<close>

fun rmap :: "('a \<Rightarrow> 'b result) \<Rightarrow> 'a list \<Rightarrow> 'b list result" where
  "rmap f [] = Inr []"
| "rmap f (x # xs) = rbind (f x) (\<lambda>y. rbind (rmap f xs) (\<lambda>ys. Inr (y # ys)))"

lemma rmap_Inr: "(\<And>x. x \<in> set xs \<Longrightarrow> f x = Inr (g x)) \<Longrightarrow> rmap f xs = Inr (map g xs)"
  by (induction xs) auto

section \<open>State passing\<close>

text \<open>
  An operation on a mutable receiver: the state is returned on the error path too, because the
  code's mutations before a \<^verbatim>\<open>?\<close> stay in place.
\<close>

type_synonym ('s, 'a) op = "'s \<Rightarrow> 'a result \<times> 's"

definition sret :: "'a \<Rightarrow> ('s, 'a) op" where
  "sret x s = (Inr x, s)"

definition slift :: "'a result \<Rightarrow> ('s, 'a) op" where
  "slift r s = (r, s)"

definition sbind :: "('s, 'a) op \<Rightarrow> ('a \<Rightarrow> ('s, 'b) op) \<Rightarrow> ('s, 'b) op" where
  "sbind m f s = (case m s of (Inl e, s') \<Rightarrow> (Inl e, s') | (Inr x, s') \<Rightarrow> f x s')"

lemma sret_apply [simp, result_simps]: "sret x s = (Inr x, s)"
  by (simp add: sret_def)

lemma slift_apply [simp, result_simps]: "slift r s = (r, s)"
  by (simp add: slift_def)

lemma sbind_Inr [result_simps]: "m s = (Inr x, s') \<Longrightarrow> sbind m f s = f x s'"
  by (simp add: sbind_def)

lemma sbind_Inl [result_simps]: "m s = (Inl e, s') \<Longrightarrow> sbind m f s = (Inl e, s')"
  by (simp add: sbind_def)

lemma sbind_sret [simp, result_simps]: "sbind (sret x) f s = f x s"
  by (simp add: sbind_def)

lemma sbind_slift_Inr [simp, result_simps]: "sbind (slift (Inr x)) f s = f x s"
  by (simp add: sbind_def)

lemma sbind_slift_Inl [simp, result_simps]: "sbind (slift (Inl e)) f s = (Inl e, s)"
  by (simp add: sbind_def)

lemma sbind_cong [fundef_cong]:
  "m s = m' s \<Longrightarrow> s = s' \<Longrightarrow> (\<And>x t. m' s' = (Inr x, t) \<Longrightarrow> f x t = f' x t) \<Longrightarrow>
   sbind m f s = sbind m' f' s'"
  by (auto simp: sbind_def split: prod.splits sum.splits)

text \<open>An operation that leaves a component of the state as it was, whatever its result.\<close>

definition keeps :: "('s \<Rightarrow> 'v) \<Rightarrow> ('s, 'a) op \<Rightarrow> bool" where
  "keeps g m \<longleftrightarrow> (\<forall>s. g (snd (m s)) = g s)"

lemma keepsD: "keeps g m \<Longrightarrow> m s = (r, s') \<Longrightarrow> g s' = g s"
  unfolding keeps_def by (metis snd_conv)

lemma keeps_sret [intro]: "keeps g (sret x)"
  by (simp add: keeps_def)

lemma keeps_slift [intro]: "keeps g (slift r)"
  by (simp add: keeps_def)

lemma keeps_sbind [intro]: "keeps g m \<Longrightarrow> (\<And>x. keeps g (f x)) \<Longrightarrow> keeps g (sbind m f)"
  by (auto simp: keeps_def sbind_def split: prod.splits sum.splits) (metis snd_conv)+

text \<open>A successful sequence, taken apart.\<close>

lemma sbind_InrE:
  assumes "sbind m f s = (Inr y, s')"
  obtains x t where "m s = (Inr x, t)" "f x t = (Inr y, s')"
  using assms by (auto simp: sbind_def split: prod.splits sum.splits)

section \<open>Bytes and integer encodings\<close>

type_synonym byte = "8 word"
type_synonym bytes = "8 word list"
type_synonym u16 = "16 word"
type_synonym u32 = "32 word"
type_synonym u64 = "64 word"

text \<open>\<^verbatim>\<open>to_le_bytes\<close> and \<^verbatim>\<open>from_le_bytes\<close> over the unsigned value; big-endian is the reverse.\<close>

fun nat_to_le :: "nat \<Rightarrow> nat \<Rightarrow> bytes" where
  "nat_to_le 0 v = []"
| "nat_to_le (Suc n) v = of_nat (v mod 256) # nat_to_le n (v div 256)"

fun le_to_nat :: "bytes \<Rightarrow> nat" where
  "le_to_nat [] = 0"
| "le_to_nat (b # bs) = unat b + 256 * le_to_nat bs"

definition u16_le :: "u16 \<Rightarrow> bytes" where "u16_le w = nat_to_le 2 (unat w)"
definition u32_le :: "u32 \<Rightarrow> bytes" where "u32_le w = nat_to_le 4 (unat w)"
definition u64_le :: "u64 \<Rightarrow> bytes" where "u64_le w = nat_to_le 8 (unat w)"

definition u16_of_le :: "bytes \<Rightarrow> u16" where "u16_of_le bs = of_nat (le_to_nat bs)"
definition u32_of_le :: "bytes \<Rightarrow> u32" where "u32_of_le bs = of_nat (le_to_nat bs)"
definition u64_of_le :: "bytes \<Rightarrow> u64" where "u64_of_le bs = of_nat (le_to_nat bs)"

definition u16_be :: "u16 \<Rightarrow> bytes" where "u16_be w = rev (u16_le w)"
definition u32_be :: "u32 \<Rightarrow> bytes" where "u32_be w = rev (u32_le w)"
definition u64_be :: "u64 \<Rightarrow> bytes" where "u64_be w = rev (u64_le w)"

definition u16_of_be :: "bytes \<Rightarrow> u16" where "u16_of_be bs = u16_of_le (rev bs)"
definition u32_of_be :: "bytes \<Rightarrow> u32" where "u32_of_be bs = u32_of_le (rev bs)"
definition u64_of_be :: "bytes \<Rightarrow> u64" where "u64_of_be bs = u64_of_le (rev bs)"

lemma unat_bound: "unat (w :: 'a::len word) < 2 ^ LENGTH('a)"
  by (rule unsigned_less)

lemma length_nat_to_le [simp, byte_simps]: "length (nat_to_le n v) = n"
  by (induction n arbitrary: v) auto

lemma unat_byte_mod [simp]: "unat (of_nat (v mod 256) :: byte) = v mod 256"
  by (simp add: unat_of_nat)

lemma le_to_nat_to_le: "le_to_nat (nat_to_le n v) = v mod 256 ^ n"
proof (induction n arbitrary: v)
  case 0
  then show ?case by simp
next
  case (Suc n)
  have "le_to_nat (nat_to_le (Suc n) v) = v mod 256 + 256 * (v div 256 mod 256 ^ n)"
    by (simp add: Suc.IH)
  also have "\<dots> = v mod (256 * 256 ^ n)"
    by (simp add: mod_mult2_eq add.commute)
  finally show ?case by simp
qed

lemma le_to_nat_less: "le_to_nat bs < 256 ^ length bs"
proof (induction bs)
  case Nil
  then show ?case by simp
next
  case (Cons b bs)
  have "unat b < 256"
    using unat_bound [of b] by simp
  with Cons.IH show ?case by (simp; linarith)
qed

lemma nat_to_le_of_le: "length bs = n \<Longrightarrow> nat_to_le n (le_to_nat bs) = bs"
proof (induction bs arbitrary: n)
  case Nil
  then show ?case by simp
next
  case (Cons b bs)
  have b: "unat b < 256"
    using unat_bound [of b] by simp
  from Cons.prems obtain m where m: "n = Suc m" "length bs = m" by (cases n) auto
  have "(unat b + 256 * le_to_nat bs) mod 256 = unat b"
    using b by simp
  moreover have "(unat b + 256 * le_to_nat bs) div 256 = le_to_nat bs"
    using b by simp
  ultimately show ?case
    using m Cons.IH [of m] by simp
qed

lemma length_int_le [simp, byte_simps]:
  "length (u16_le a) = 2" "length (u32_le b) = 4" "length (u64_le c) = 8"
  "length (u16_be a) = 2" "length (u32_be b) = 4" "length (u64_be c) = 8"
  by (simp_all add: u16_le_def u32_le_def u64_le_def u16_be_def u32_be_def u64_be_def)

lemma u16_of_le_le [simp, byte_simps]: "u16_of_le (u16_le w) = w"
  using unat_bound [of w]
  by (simp add: u16_of_le_def u16_le_def le_to_nat_to_le del: nat_to_le.simps)

lemma u32_of_le_le [simp, byte_simps]: "u32_of_le (u32_le w) = w"
  using unat_bound [of w]
  by (simp add: u32_of_le_def u32_le_def le_to_nat_to_le del: nat_to_le.simps)

lemma u64_of_le_le [simp, byte_simps]: "u64_of_le (u64_le w) = w"
  using unat_bound [of w]
  by (simp add: u64_of_le_def u64_le_def le_to_nat_to_le del: nat_to_le.simps)

lemma int_of_be_be [simp, byte_simps]:
  "u16_of_be (u16_be a) = a" "u32_of_be (u32_be b) = b" "u64_of_be (u64_be c) = c"
  by (simp_all add: u16_of_be_def u16_be_def u32_of_be_def u32_be_def u64_of_be_def u64_be_def)

lemma u32_le_of_le: "length bs = 4 \<Longrightarrow> u32_le (u32_of_le bs) = bs"
  using le_to_nat_less [of bs]
  by (simp add: u32_le_def u32_of_le_def unat_of_nat nat_to_le_of_le del: nat_to_le.simps)

lemma u64_le_of_le: "length bs = 8 \<Longrightarrow> u64_le (u64_of_le bs) = bs"
  using le_to_nat_less [of bs]
  by (simp add: u64_le_def u64_of_le_def unat_of_nat nat_to_le_of_le del: nat_to_le.simps)

lemma unat_of_nat_u16: "n < 65536 \<Longrightarrow> unat (of_nat n :: u16) = n"
  by (simp add: unat_of_nat)

lemma unat_of_nat_u32: "n < 4294967296 \<Longrightarrow> unat (of_nat n :: u32) = n"
  by (simp add: unat_of_nat)

lemma unat_of_nat_u64: "n < 18446744073709551616 \<Longrightarrow> unat (of_nat n :: u64) = n"
  by (simp add: unat_of_nat)

section \<open>Bounds-checked slices\<close>

text \<open>\<^verbatim>\<open>&b[a..e]\<close> and \<^verbatim>\<open>b[a..a + s.len()].copy_from_slice(s)\<close>; both panic out of range.\<close>

definition slice :: "'a list \<Rightarrow> nat \<Rightarrow> nat \<Rightarrow> 'a list result" where
  "slice b a e = (if a \<le> e \<and> e \<le> length b then Inr (take (e - a) (drop a b)) else Inl Panicked)"

definition put_slice :: "'a list \<Rightarrow> nat \<Rightarrow> 'a list \<Rightarrow> 'a list result" where
  "put_slice b a s =
     (if a + length s \<le> length b then Inr (take a b @ s @ drop (a + length s) b)
      else Inl Panicked)"

definition index :: "'a list \<Rightarrow> nat \<Rightarrow> 'a result" where
  "index xs i = (if i < length xs then Inr (xs ! i) else Inl Panicked)"

lemma slice_Inr: "a \<le> e \<Longrightarrow> e \<le> length b \<Longrightarrow> slice b a e = Inr (take (e - a) (drop a b))"
  by (simp add: slice_def)

lemma slice_append_mid:
  "length xs = a \<Longrightarrow> e = a + length ys \<Longrightarrow> slice (xs @ ys @ zs) a e = Inr ys"
  by (simp add: slice_def)

lemma index_Inr [simp]: "i < length xs \<Longrightarrow> index xs i = Inr (xs ! i)"
  by (simp add: index_def)

lemma put_slice_length: "put_slice b a s = Inr b' \<Longrightarrow> length b' = length b"
  by (auto simp: put_slice_def split: if_splits)

lemma take_drop_eq_mono:
  "take n (drop a b) = take n (drop a c) \<Longrightarrow> m \<le> n \<Longrightarrow> take m (drop a b) = take m (drop a c)"
  by (metis min.absorb1 take_take)

lemma put_slice_same:
  assumes "put_slice b a s = Inr b'"
  shows "take (length s) (drop a b') = s"
  using assms by (auto simp: put_slice_def split: if_splits)

lemma put_slice_other:
  assumes "put_slice b a s = Inr b'" and "c + n \<le> a \<or> a + length s \<le> c"
  shows "take n (drop c b') = take n (drop c b)"
proof -
  from assms(1) have r: "a + length s \<le> length b" and b': "b' = take a b @ s @ drop (a + length s) b"
    by (auto simp: put_slice_def split: if_splits)
  have "length b' = length b"
    using r by (simp add: b')
  moreover have "b' ! (c + i) = b ! (c + i)" if "i < n" "c + i < length b" for i
    using assms(2) that r by (auto simp: b' nth_append)
  ultimately show ?thesis
    by (intro nth_equalityI) auto
qed

section \<open>Binary search\<close>

text \<open>
  \<^verbatim>\<open>Result<usize, usize>\<close> of a search: where the key is, or where it would go. The standard
  library's \<^verbatim>\<open>binary_search_by\<close> promises this outcome on a sorted slice; where the keys are
  strictly ascending the outcome is unique (\<open>search_spec_unique\<close>), so any conforming
  implementation returns what \<open>binary_search\<close> returns.
\<close>

datatype search = Found nat | Missing nat

function binary_search_loop :: "'a::linorder list \<Rightarrow> 'a \<Rightarrow> nat \<Rightarrow> nat \<Rightarrow> search" where
  "binary_search_loop ks key lo hi =
     (if lo < hi then
        let mid = (lo + hi) div 2 in
        if ks ! mid < key then binary_search_loop ks key (mid + 1) hi
        else if key < ks ! mid then binary_search_loop ks key lo mid
        else Found mid
      else Missing lo)"
  by pat_completeness auto
termination
  by (relation "measure (\<lambda>(ks, key, lo, hi). hi - lo)") auto

declare binary_search_loop.simps [simp del]

definition binary_search :: "'a::linorder list \<Rightarrow> 'a \<Rightarrow> search" where
  "binary_search ks key = binary_search_loop ks key 0 (length ks)"

definition search_spec :: "'a::linorder list \<Rightarrow> 'a \<Rightarrow> search \<Rightarrow> bool" where
  "search_spec ks key r =
     (case r of
        Found i \<Rightarrow> i < length ks \<and> ks ! i = key
      | Missing i \<Rightarrow> i \<le> length ks \<and> (\<forall>j < i. ks ! j < key) \<and> (\<forall>j < length ks. i \<le> j \<longrightarrow> key < ks ! j))"

lemma sorted_wrt_less_nth: "sorted_wrt (<) ks \<Longrightarrow> i < j \<Longrightarrow> j < length ks \<Longrightarrow> ks ! i < ks ! j"
  for ks :: "'a::linorder list"
  by (simp add: sorted_wrt_iff_nth_less)

lemma binary_search_loop_spec:
  assumes "sorted_wrt (<) ks" "hi \<le> length ks" "lo \<le> hi"
    and "\<forall>j < lo. ks ! j < key" "\<forall>j < length ks. hi \<le> j \<longrightarrow> key < ks ! j"
  shows "search_spec ks key (binary_search_loop ks key lo hi)"
  using assms
proof (induction ks key lo hi rule: binary_search_loop.induct)
  case (1 ks key lo hi)
  show ?case
  proof (cases "lo < hi")
    case False
    with "1.prems" show ?thesis
      by (subst binary_search_loop.simps) (auto simp: search_spec_def)
  next
    case True
    define mid where "mid = (lo + hi) div 2"
    have mid: "lo \<le> mid" "mid < hi" "mid < length ks"
      using True "1.prems"(2) by (auto simp: mid_def)
    consider "ks ! mid < key" | "key < ks ! mid" | "ks ! mid = key" by (meson linorder_less_linear)
    then show ?thesis
    proof cases
      case 1
      then have "\<forall>j < mid + 1. ks ! j < key"
        using sorted_wrt_less_nth [OF "1.prems"(1)] mid(3) by (metis less_Suc_eq less_trans Suc_eq_plus1)
      then show ?thesis
        using "1.IH"(1) [OF True mid_def 1] "1.prems" mid True 1
        by (subst binary_search_loop.simps) (simp add: Let_def mid_def)
    next
      case 2
      then have "\<forall>j < length ks. mid \<le> j \<longrightarrow> key < ks ! j"
        using sorted_wrt_less_nth [OF "1.prems"(1)] by (metis le_neq_implies_less less_trans)
      then show ?thesis
        using "1.IH"(2) [OF True mid_def _ 2] "1.prems" mid True 2 less_not_sym [OF 2]
        by (subst binary_search_loop.simps) (simp add: Let_def mid_def)
    next
      case 3
      then show ?thesis
        using True mid by (subst binary_search_loop.simps) (simp add: Let_def mid_def search_spec_def)
    qed
  qed
qed

lemma binary_search_spec: "sorted_wrt (<) ks \<Longrightarrow> search_spec ks key (binary_search ks key)"
  unfolding binary_search_def by (rule binary_search_loop_spec) auto

lemma search_spec_unique:
  assumes "sorted_wrt (<) ks" "search_spec ks key r" "search_spec ks key r'"
  shows "r = r'"
proof -
  have eq: "i = j" if "i < length ks" "j < length ks" "ks ! i = ks ! j" for i j
    using that sorted_wrt_less_nth [OF assms(1), of i j] sorted_wrt_less_nth [OF assms(1), of j i]
    by (cases i j rule: linorder_cases) auto
  have le: "i \<le> j" if "search_spec ks key (Missing i)" "search_spec ks key (Missing j)" for i j
  proof (rule ccontr)
    assume "\<not> i \<le> j"
    with that have "ks ! j < key" "key < ks ! j" by (auto simp: search_spec_def)
    then show False by simp
  qed
  have no: "\<not> search_spec ks key (Missing j)" if "search_spec ks key (Found i)" for i j
    using that by (cases "i < j") (auto simp: search_spec_def)
  show ?thesis
  proof (cases r)
    case (Found i)
    with no assms(2,3) obtain j where "r' = Found j" by (cases r') auto
    with Found assms(2,3) show ?thesis using eq by (auto simp: search_spec_def)
  next
    case (Missing i)
    with no assms(2,3) obtain j where "r' = Missing j" by (cases r') auto
    with Missing assms(2,3) show ?thesis using le by (simp add: order_antisym)
  qed
qed

lemma binary_search_Found:
  "sorted_wrt (<) ks \<Longrightarrow> binary_search ks key = Found i \<Longrightarrow> i < length ks \<and> ks ! i = key"
  using binary_search_spec [of ks key] by (simp add: search_spec_def)

lemma binary_search_Missing:
  "sorted_wrt (<) ks \<Longrightarrow> binary_search ks key = Missing i \<Longrightarrow>
   i \<le> length ks \<and> (\<forall>j < i. ks ! j < key) \<and> (\<forall>j < length ks. i \<le> j \<longrightarrow> key < ks ! j)"
  using binary_search_spec [of ks key] by (simp add: search_spec_def)

end
