(* ===== verification/Value_Schema.thy ===== *)
theory Value_Schema
  imports Prelude
begin

unbundle bit_operations_syntax

text \<open>
  The value model of \<^verbatim>\<open>engine/value.rs\<close> and the table descriptions of \<^verbatim>\<open>engine/schema.rs\<close>.
  An \<^verbatim>\<open>i64\<close> is a 64-bit word read with \<open>sint\<close>; an \<^verbatim>\<open>f64\<close> is the word of its IEEE-754 bits
  (\<^verbatim>\<open>to_bits\<close> and \<^verbatim>\<open>from_bits\<close> are then the identity); a \<^verbatim>\<open>String\<close> is its UTF-8 bytes,
  and \<open>utf8_valid\<close> is the test that \<^verbatim>\<open>String::from_utf8\<close> performs.
\<close>

section \<open>Values\<close>

datatype type_tag = TInt | TReal | TText | TBool

datatype sql_value = VNull | VInt u64 | VReal u64 | VText bytes | VBool bool

definition is_null :: "sql_value \<Rightarrow> bool" where
  "is_null v \<longleftrightarrow> v = VNull"

text \<open>
  The cast \<^verbatim>\<open>n as f64\<close>: round to nearest, ties to even. The exponent is the position of the
  magnitude's top bit; the rounded 53-bit significand is added to the shifted exponent so that a
  carry out of the significand increments the exponent.
\<close>

fun bit_len :: "int \<Rightarrow> nat" where
  "bit_len n = (if n \<le> 0 then 0 else Suc (bit_len (n div 2)))"

declare bit_len.simps [simp del]

definition round_even :: "int \<Rightarrow> nat \<Rightarrow> int" where
  "round_even m s =
     (let q = m div 2 ^ s; r = m mod 2 ^ s; h = 2 ^ (s - 1) in
      if s = 0 then m else if h < r \<or> r = h \<and> odd q then q + 1 else q)"

definition i64_as_f64 :: "u64 \<Rightarrow> u64" where
  "i64_as_f64 w =
     (let n = sint w; m = \<bar>n\<bar>; e = bit_len m - 1;
          sig = (if e \<le> 52 then m * 2 ^ (52 - e) else round_even m (e - 52));
          bits = (int e + 1023) * 2 ^ 52 + sig - 2 ^ 52 in
      if m = 0 then 0 else of_int (bits + (if n < 0 then 2 ^ 63 else 0)))"

text \<open>Adapt a value to a column type: \<open>VNull\<close> fits anywhere and an integer widens to a real.\<close>

fun coerce :: "sql_value \<Rightarrow> type_tag \<Rightarrow> sql_value result" where
  "coerce VNull t = Inr VNull"
| "coerce (VInt n) TInt = Inr (VInt n)"
| "coerce (VInt n) TReal = Inr (VReal (i64_as_f64 n))"
| "coerce (VReal r) TReal = Inr (VReal r)"
| "coerce (VText s) TText = Inr (VText s)"
| "coerce (VBool b) TBool = Inr (VBool b)"
| "coerce v t = Inl (Fail Exec)"

text \<open>The type a value inhabits; \<open>VNull\<close> inhabits every type.\<close>

fun has_type :: "sql_value \<Rightarrow> type_tag \<Rightarrow> bool" where
  "has_type VNull t = True"
| "has_type (VInt _) t = (t = TInt)"
| "has_type (VReal _) t = (t = TReal)"
| "has_type (VText _) t = (t = TText)"
| "has_type (VBool _) t = (t = TBool)"

section \<open>UTF-8\<close>

definition utf8_cont :: "byte \<Rightarrow> bool" where
  "utf8_cont b \<longleftrightarrow> 128 \<le> unat b \<and> unat b \<le> 191"

text \<open>The second byte's range depends on the lead byte (no overlong forms, no surrogates).\<close>

definition utf8_second :: "nat \<Rightarrow> byte \<Rightarrow> bool" where
  "utf8_second lead b \<longleftrightarrow>
     (if lead = 224 then 160 \<le> unat b \<and> unat b \<le> 191
      else if lead = 237 then 128 \<le> unat b \<and> unat b \<le> 159
      else if lead = 240 then 144 \<le> unat b \<and> unat b \<le> 191
      else if lead = 244 then 128 \<le> unat b \<and> unat b \<le> 143
      else utf8_cont b)"

fun utf8_valid :: "bytes \<Rightarrow> bool" where
  "utf8_valid [] = True"
| "utf8_valid (b # r) =
     (if unat b < 128 then utf8_valid r
      else if 194 \<le> unat b \<and> unat b \<le> 223 then
        (case r of b1 # r1 \<Rightarrow> utf8_cont b1 \<and> utf8_valid r1 | _ \<Rightarrow> False)
      else if 224 \<le> unat b \<and> unat b \<le> 239 then
        (case r of b1 # b2 # r2 \<Rightarrow> utf8_second (unat b) b1 \<and> utf8_cont b2 \<and> utf8_valid r2 | _ \<Rightarrow> False)
      else if 240 \<le> unat b \<and> unat b \<le> 244 then
        (case r of b1 # b2 # b3 # r3 \<Rightarrow>
           utf8_second (unat b) b1 \<and> utf8_cont b2 \<and> utf8_cont b3 \<and> utf8_valid r3 | _ \<Rightarrow> False)
      else False)"

lemma utf8_valid_ascii: "\<forall>b \<in> set bs. unat b < 128 \<Longrightarrow> utf8_valid bs"
  by (induction bs) auto

section \<open>Schemas\<close>

datatype fk_action = Restrict | Cascade | SetNull

record foreign_key_target =
  fk_table :: bytes
  fk_column :: bytes
  on_delete :: fk_action

record histogram_bucket =
  bucket_lower :: sql_value
  bucket_upper :: sql_value
  bucket_count :: u64

record column_stats =
  n_distinct :: u64
  null_count :: u64
  total_rows :: u64
  histogram :: "histogram_bucket list"

record column =
  col_name :: bytes
  col_ty :: type_tag
  not_null :: bool
  foreign_key :: "foreign_key_target option"
  col_stats :: "column_stats option"

record index_def =
  idx_name :: bytes
  idx_columns :: "nat list"
  idx_root :: u32
  idx_unique :: bool
  is_building :: bool

record schema =
  sch_name :: bytes
  sch_columns :: "column list"
  sch_root :: u32
  next_rowid :: u64
  row_count :: u64
  sch_indexes :: "index_def list"
  primary_key_column :: "nat option"
  mutations_since_analyze :: u64

definition column_index :: "schema \<Rightarrow> bytes \<Rightarrow> nat option" where
  "column_index s name = find (\<lambda>i. col_name (sch_columns s ! i) = name) [0..<length (sch_columns s)]"

definition column_names :: "schema \<Rightarrow> bytes list" where
  "column_names s = map col_name (sch_columns s)"

section \<open>Coercion\<close>

lemma coerce_has_type: "coerce v t = Inr v' \<Longrightarrow> has_type v' t"
  by (cases "(v, t)" rule: coerce.cases) auto

lemma coerce_id: "has_type v t \<Longrightarrow> coerce v t = Inr v"
  by (cases "(v, t)" rule: coerce.cases) auto

lemma coerce_fails_iff:
  "coerce v t = Inl (Fail Exec) \<longleftrightarrow> \<not> has_type v t \<and> (\<forall>n. (v, t) \<noteq> (VInt n, TReal))"
  by (cases "(v, t)" rule: coerce.cases) auto

lemma column_index_Some:
  assumes "column_index s name = Some i"
  shows "i < length (sch_columns s)" "col_name (sch_columns s ! i) = name"
    "\<forall>j < i. col_name (sch_columns s ! j) \<noteq> name"
proof -
  from assms obtain k where k: "k < length [0..<length (sch_columns s)]"
    "col_name (sch_columns s ! ([0..<length (sch_columns s)] ! k)) = name"
    "i = [0..<length (sch_columns s)] ! k"
    "\<forall>j < k. col_name (sch_columns s ! ([0..<length (sch_columns s)] ! j)) \<noteq> name"
    unfolding column_index_def find_Some_iff by blast
  then show "i < length (sch_columns s)" "col_name (sch_columns s ! i) = name"
    "\<forall>j < i. col_name (sch_columns s ! j) \<noteq> name"
    by auto
qed

end
