(* ===== verification/Codec.thy ===== *)
theory Codec
  imports Value_Schema
begin

text \<open>
  Rows and schemas as bytes: \<^verbatim>\<open>engine/codec.rs\<close> up to its index keys. A \<^verbatim>\<open>Reader\<close> is the bytes it
  has not consumed yet; reading past the end is a corruption error that leaves them unread. The
  locale \<open>wire_codec\<close> is the contract between an encoder and its decoder (decoding what was encoded
  gives the value back and consumes exactly its bytes); values, names, histogram buckets, columns,
  indexes and, in the protocol theory, the messages are its interpretations.
\<close>

section \<open>The reader\<close>

type_synonym 'a reader = "(bytes, 'a) op"

definition rd_take :: "error \<Rightarrow> nat \<Rightarrow> bytes reader" where
  "rd_take e n bs = (if n \<le> length bs then (Inr (take n bs), drop n bs) else (Inl (Fail e), bs))"

definition rd_u8 :: "error \<Rightarrow> byte reader" where
  "rd_u8 e = sbind (rd_take e 1) (\<lambda>r. sret (hd r))"

definition rd_u16 :: "error \<Rightarrow> u16 reader" where
  "rd_u16 e = sbind (rd_take e 2) (\<lambda>r. sret (u16_of_le r))"

definition rd_u32 :: "error \<Rightarrow> u32 reader" where
  "rd_u32 e = sbind (rd_take e 4) (\<lambda>r. sret (u32_of_le r))"

definition rd_u64 :: "error \<Rightarrow> u64 reader" where
  "rd_u64 e = sbind (rd_take e 8) (\<lambda>r. sret (u64_of_le r))"

text \<open>A loop \<^verbatim>\<open>for _ in 0..n\<close> that reads one item per turn.\<close>

primrec rd_times :: "nat \<Rightarrow> 'a reader \<Rightarrow> 'a list reader" where
  "rd_times 0 f = sret []"
| "rd_times (Suc n) f = sbind f (\<lambda>x. sbind (rd_times n f) (\<lambda>xs. sret (x # xs)))"

text \<open>\<^verbatim>\<open>String::from_utf8\<close>.\<close>

definition rd_utf8 :: "error \<Rightarrow> bytes \<Rightarrow> bytes reader" where
  "rd_utf8 e raw = (if utf8_valid raw then sret raw else slift (Inl (Fail e)))"

lemma rd_take_append: "length xs = n \<Longrightarrow> rd_take e n (xs @ rest) = (Inr xs, rest)"
  by (simp add: rd_take_def)

lemma rd_u8_Cons [simp]: "rd_u8 e (b # rest) = (Inr b, rest)"
  by (simp add: rd_u8_def sbind_def rd_take_def)

lemma rd_u16_append [simp]: "rd_u16 e (u16_le w @ rest) = (Inr w, rest)"
  by (simp add: rd_u16_def sbind_def rd_take_append)

lemma rd_u32_append [simp]: "rd_u32 e (u32_le w @ rest) = (Inr w, rest)"
  by (simp add: rd_u32_def sbind_def rd_take_append)

lemma rd_u64_append [simp]: "rd_u64 e (u64_le w @ rest) = (Inr w, rest)"
  by (simp add: rd_u64_def sbind_def rd_take_append)

section \<open>The codec contract\<close>

locale wire_codec =
  fixes enc :: "'a \<Rightarrow> bytes" and dec :: "'a reader" and ok :: "'a \<Rightarrow> bool"
  assumes dec_enc: "ok x \<Longrightarrow> dec (enc x @ rest) = (Inr x, rest)"
begin

lemma dec_exact: "ok x \<Longrightarrow> dec (enc x) = (Inr x, [])"
  using dec_enc [of x "[]"] by simp

lemma prefix_free: "ok x \<Longrightarrow> ok y \<Longrightarrow> enc x @ r = enc y @ s \<Longrightarrow> x = y \<and> r = s"
  by (metis dec_enc prod.inject sum.inject(2))

lemma rd_times_enc:
  "list_all ok xs \<Longrightarrow> rd_times (length xs) dec (concat (map enc xs) @ rest) = (Inr xs, rest)"
  by (induction xs) (simp_all add: sbind_def dec_enc)

lemma rd_times_short:
  assumes "list_all ok xs" "n < length xs"
  shows "rd_times n dec (concat (map enc xs)) = (Inr (take n xs), concat (map enc (drop n xs)))"
proof -
  have "list_all ok (take n xs)"
    using assms(1) by (auto simp: list_all_iff dest: in_set_takeD)
  from rd_times_enc [OF this, of "concat (map enc (drop n xs))"] assms(2)
  show ?thesis
    by (simp flip: concat_append map_append)
qed

lemma enc_list_inj:
  assumes "list_all ok xs" "list_all ok ys" "length xs = length ys"
    and "concat (map enc xs) @ r = concat (map enc ys) @ s"
  shows "xs = ys \<and> r = s"
  by (metis assms rd_times_enc prod.inject sum.inject(2))

end

section \<open>Values and rows\<close>

definition u8_of_bool :: "bool \<Rightarrow> byte" where
  "u8_of_bool b = (if b then 1 else 0)"

lemma u8_of_bool_neq_0 [simp]: "(u8_of_bool b \<noteq> 0) = b" "(u8_of_bool b = 0) = (\<not> b)"
  by (simp_all add: u8_of_bool_def)

fun encode_value :: "sql_value \<Rightarrow> bytes" where
  "encode_value VNull = [0]"
| "encode_value (VInt n) = 1 # u64_le n"
| "encode_value (VReal r) = 2 # u64_le r"
| "encode_value (VText s) = 3 # u32_le (of_nat (length s)) @ s"
| "encode_value (VBool b) = [4, u8_of_bool b]"

definition decode_value :: "sql_value reader" where
  "decode_value = sbind (rd_u8 Corruption) (\<lambda>tag.
     if tag = 0 then sret VNull
     else if tag = 1 then sbind (rd_u64 Corruption) (\<lambda>n. sret (VInt n))
     else if tag = 2 then sbind (rd_u64 Corruption) (\<lambda>r. sret (VReal r))
     else if tag = 3 then
       sbind (rd_u32 Corruption) (\<lambda>len.
       sbind (rd_take Corruption (unat len)) (\<lambda>raw.
       sbind (rd_utf8 Corruption raw) (\<lambda>s. sret (VText s))))
     else if tag = 4 then sbind (rd_u8 Corruption) (\<lambda>b. sret (VBool (b \<noteq> 0)))
     else slift (Inl (Fail Corruption)))"

definition encode_values :: "sql_value list \<Rightarrow> bytes" where
  "encode_values vs = concat (map encode_value vs)"

text \<open>The check that a reader is exhausted, at the end of \<^verbatim>\<open>decode_values\<close> and \<^verbatim>\<open>decode_row\<close>.\<close>

definition rd_done :: "error \<Rightarrow> unit reader" where
  "rd_done e bs = (if bs = [] then (Inr (), bs) else (Inl (Fail e), bs))"

definition decode_values :: "bytes \<Rightarrow> nat \<Rightarrow> sql_value list result" where
  "decode_values bs column_count =
     fst (sbind (rd_times column_count decode_value) (\<lambda>vs.
          sbind (rd_done Corruption) (\<lambda>_. sret vs)) bs)"

record row_record =
  tx_min :: u64
  tx_max :: u64
  row_values :: "sql_value list"

definition encode_row :: "u64 \<Rightarrow> u64 \<Rightarrow> sql_value list \<Rightarrow> bytes" where
  "encode_row t_min t_max vs = u64_le t_min @ u64_le t_max @ concat (map encode_value vs)"

definition decode_row :: "bytes \<Rightarrow> nat \<Rightarrow> row_record result" where
  "decode_row bs column_count =
     fst (sbind (rd_u64 Corruption) (\<lambda>t_min.
          sbind (rd_u64 Corruption) (\<lambda>t_max.
          sbind (rd_times column_count decode_value) (\<lambda>vs.
          sbind (rd_done Corruption) (\<lambda>_.
          sret \<lparr>tx_min = t_min, tx_max = t_max, row_values = vs\<rparr>)))) bs)"

text \<open>What every \<^verbatim>\<open>Value\<close> of the program satisfies: text is UTF-8 and its length fits the prefix.\<close>

fun ok_value :: "sql_value \<Rightarrow> bool" where
  "ok_value (VText s) = (length s < 4294967296 \<and> utf8_valid s)"
| "ok_value _ = True"

lemma decode_value_encode: "ok_value v \<Longrightarrow> decode_value (encode_value v @ rest) = (Inr v, rest)"
  by (cases v) (simp_all add: decode_value_def sbind_def rd_take_append rd_utf8_def unat_of_nat_u32)

interpretation value_codec: wire_codec encode_value decode_value ok_value
  by unfold_locales (rule decode_value_encode)

lemma decode_value_Nil: "decode_value [] = (Inl (Fail Corruption), [])"
  by (simp add: decode_value_def sbind_def rd_u8_def rd_take_def)

lemma encode_value_nonempty [simp]: "encode_value v \<noteq> []"
  by (cases v) auto

lemma decode_values_encode: "list_all ok_value vs \<Longrightarrow> decode_values (encode_values vs) (length vs) = Inr vs"
  using value_codec.rd_times_enc [of vs "[]"]
  by (simp add: decode_values_def encode_values_def sbind_def rd_done_def)

lemma encode_values_one: "encode_values [v] = encode_value v"
  by (simp add: encode_values_def)

lemma rd_times_long:
  assumes "list_all ok_value vs" "length vs < n"
  shows "\<exists>r. rd_times n decode_value (concat (map encode_value vs)) = (Inl (Fail Corruption), r)"
  using assms
proof (induction vs arbitrary: n)
  case Nil
  then obtain m where "n = Suc m" by (cases n) auto
  then show ?case by (simp add: sbind_def decode_value_Nil)
next
  case (Cons v vs)
  then obtain m where m: "n = Suc m" "length vs < m" by (cases n) auto
  with Cons.IH [of m] Cons.prems(1) show ?case
    by (auto simp: sbind_def decode_value_encode)
qed

section \<open>Schemas\<close>

fun type_to_tag :: "type_tag \<Rightarrow> byte" where
  "type_to_tag TInt = 1" | "type_to_tag TReal = 2" | "type_to_tag TText = 3" | "type_to_tag TBool = 4"

definition type_from_tag :: "byte \<Rightarrow> type_tag result" where
  "type_from_tag t =
     (if t = 1 then Inr TInt else if t = 2 then Inr TReal else if t = 3 then Inr TText
      else if t = 4 then Inr TBool else Inl (Fail Corruption))"

fun fk_action_tag :: "fk_action \<Rightarrow> byte" where
  "fk_action_tag Restrict = 1" | "fk_action_tag Cascade = 2" | "fk_action_tag SetNull = 3"

definition fk_action_from_tag :: "byte \<Rightarrow> fk_action result" where
  "fk_action_from_tag t =
     (if t = 1 then Inr Restrict else if t = 2 then Inr Cascade else if t = 3 then Inr SetNull
      else Inl (Fail Corruption))"

definition write_str :: "bytes \<Rightarrow> bytes" where
  "write_str s = u16_le (of_nat (length s)) @ s"

definition read_str :: "bytes reader" where
  "read_str = sbind (rd_u16 Corruption) (\<lambda>len.
     sbind (rd_take Corruption (unat len)) (\<lambda>raw. rd_utf8 Corruption raw))"

definition encode_fk :: "foreign_key_target option \<Rightarrow> bytes" where
  "encode_fk fk = (case fk of None \<Rightarrow> [0]
     | Some t \<Rightarrow> 1 # write_str (fk_table t) @ write_str (fk_column t) @ [fk_action_tag (on_delete t)])"

definition decode_fk :: "foreign_key_target option reader" where
  "decode_fk = sbind (rd_u8 Corruption) (\<lambda>tag.
     if tag = 0 then sret None
     else if tag = 1 then
       sbind read_str (\<lambda>table. sbind read_str (\<lambda>col.
       sbind (rd_u8 Corruption) (\<lambda>a. sbind (slift (fk_action_from_tag a)) (\<lambda>act.
       sret (Some \<lparr>fk_table = table, fk_column = col, on_delete = act\<rparr>)))))
     else slift (Inl (Fail Corruption)))"

text \<open>A length-prefixed single value, the form of a histogram bucket's two bounds.\<close>

definition encode_bound :: "sql_value \<Rightarrow> bytes" where
  "encode_bound v = u32_le (of_nat (length (encode_values [v]))) @ encode_values [v]"

definition decode_bound :: "sql_value reader" where
  "decode_bound = sbind (rd_u32 Corruption) (\<lambda>len.
     sbind (rd_take Corruption (unat len)) (\<lambda>raw.
     sbind (slift (decode_values raw 1)) (\<lambda>vs.
     case vs of [] \<Rightarrow> slift (Inl Panicked) | v # _ \<Rightarrow> sret v)))"

definition encode_bucket :: "histogram_bucket \<Rightarrow> bytes" where
  "encode_bucket b = encode_bound (bucket_lower b) @ encode_bound (bucket_upper b) @ u64_le (bucket_count b)"

definition decode_bucket :: "histogram_bucket reader" where
  "decode_bucket = sbind decode_bound (\<lambda>lo. sbind decode_bound (\<lambda>hi. sbind (rd_u64 Corruption) (\<lambda>n.
     sret \<lparr>bucket_lower = lo, bucket_upper = hi, bucket_count = n\<rparr>)))"

definition encode_stats :: "column_stats option \<Rightarrow> bytes" where
  "encode_stats st = (case st of None \<Rightarrow> [0]
     | Some s \<Rightarrow> 1 # u64_le (n_distinct s) @ u64_le (null_count s) @ u64_le (total_rows s)
         @ u32_le (of_nat (length (histogram s))) @ concat (map encode_bucket (histogram s)))"

definition decode_stats :: "column_stats option reader" where
  "decode_stats = sbind (rd_u8 Corruption) (\<lambda>tag.
     if tag = 0 then sret None
     else if tag = 1 then
       sbind (rd_u64 Corruption) (\<lambda>d. sbind (rd_u64 Corruption) (\<lambda>nulls. sbind (rd_u64 Corruption) (\<lambda>rows.
       sbind (rd_u32 Corruption) (\<lambda>n. sbind (rd_times (unat n) decode_bucket) (\<lambda>h.
       sret (Some \<lparr>n_distinct = d, null_count = nulls, total_rows = rows, histogram = h\<rparr>))))))
     else slift (Inl (Fail Corruption)))"

definition encode_column :: "column \<Rightarrow> bytes" where
  "encode_column c = type_to_tag (col_ty c) # write_str (col_name c) @ [u8_of_bool (not_null c)]
     @ encode_fk (foreign_key c) @ encode_stats (col_stats c)"

definition decode_column :: "column reader" where
  "decode_column = sbind (rd_u8 Corruption) (\<lambda>t. sbind (slift (type_from_tag t)) (\<lambda>ty.
     sbind read_str (\<lambda>name. sbind (rd_u8 Corruption) (\<lambda>nn.
     sbind decode_fk (\<lambda>fk. sbind decode_stats (\<lambda>st.
     sret \<lparr>col_name = name, col_ty = ty, not_null = (nn \<noteq> 0), foreign_key = fk, col_stats = st\<rparr>))))))"

definition encode_index :: "index_def \<Rightarrow> bytes" where
  "encode_index i = u32_le (idx_root i) @ u16_le (of_nat (length (idx_columns i)))
     @ concat (map (\<lambda>c. u16_le (of_nat c)) (idx_columns i)) @ write_str (idx_name i)
     @ [u8_of_bool (idx_unique i), u8_of_bool (is_building i)]"

definition rd_column_no :: "nat reader" where
  "rd_column_no = sbind (rd_u16 Corruption) (\<lambda>c. sret (unat c))"

definition decode_index :: "index_def reader" where
  "decode_index = sbind (rd_u32 Corruption) (\<lambda>root. sbind (rd_u16 Corruption) (\<lambda>n.
     sbind (rd_times (unat n) rd_column_no) (\<lambda>cols. sbind read_str (\<lambda>name.
     sbind (rd_u8 Corruption) (\<lambda>u. sbind (rd_u8 Corruption) (\<lambda>b.
     sret \<lparr>idx_name = name, idx_columns = cols, idx_root = root, idx_unique = (u \<noteq> 0),
           is_building = (b \<noteq> 0)\<rparr>))))))"

definition pk_tag :: "nat option \<Rightarrow> u16" where
  "pk_tag pk = (case pk of None \<Rightarrow> 65535 | Some i \<Rightarrow> of_nat i)"

definition encode_schema :: "schema \<Rightarrow> bytes" where
  "encode_schema s = u32_le (sch_root s) @ u64_le (next_rowid s) @ write_str (sch_name s)
     @ u16_le (of_nat (length (sch_columns s))) @ concat (map encode_column (sch_columns s))
     @ u16_le (of_nat (length (sch_indexes s))) @ concat (map encode_index (sch_indexes s))
     @ u64_le (row_count s) @ u16_le (pk_tag (primary_key_column s)) @ u64_le (mutations_since_analyze s)"

definition decode_schema :: "bytes \<Rightarrow> schema result" where
  "decode_schema bs = fst
    (sbind (rd_u32 Corruption) (\<lambda>root. sbind (rd_u64 Corruption) (\<lambda>next.
     sbind read_str (\<lambda>name. sbind (rd_u16 Corruption) (\<lambda>ncols.
     sbind (rd_times (unat ncols) decode_column) (\<lambda>cols. sbind (rd_u16 Corruption) (\<lambda>nidx.
     sbind (rd_times (unat nidx) decode_index) (\<lambda>idxs. sbind (rd_u64 Corruption) (\<lambda>rows.
     sbind (rd_u16 Corruption) (\<lambda>pk. sbind (rd_u64 Corruption) (\<lambda>muts.
     sret \<lparr>sch_name = name, sch_columns = cols, sch_root = root, next_rowid = next, row_count = rows,
           sch_indexes = idxs, primary_key_column = (if pk = 65535 then None else Some (unat pk)),
           mutations_since_analyze = muts\<rparr>)))))))))) bs)"

subsection \<open>Round trips\<close>

definition ok_name :: "bytes \<Rightarrow> bool" where
  "ok_name s \<longleftrightarrow> length s < 65536 \<and> utf8_valid s"

definition ok_bound :: "sql_value \<Rightarrow> bool" where
  "ok_bound v \<longleftrightarrow> ok_value v \<and> length (encode_value v) < 4294967296"

definition ok_bucket :: "histogram_bucket \<Rightarrow> bool" where
  "ok_bucket b \<longleftrightarrow> ok_bound (bucket_lower b) \<and> ok_bound (bucket_upper b)"

definition ok_column :: "column \<Rightarrow> bool" where
  "ok_column c \<longleftrightarrow> ok_name (col_name c)
     \<and> (case foreign_key c of None \<Rightarrow> True | Some t \<Rightarrow> ok_name (fk_table t) \<and> ok_name (fk_column t))
     \<and> (case col_stats c of None \<Rightarrow> True
        | Some s \<Rightarrow> length (histogram s) < 4294967296 \<and> list_all ok_bucket (histogram s))"

definition ok_index :: "index_def \<Rightarrow> bool" where
  "ok_index i \<longleftrightarrow> ok_name (idx_name i) \<and> length (idx_columns i) < 65536
     \<and> list_all (\<lambda>c. c < 65536) (idx_columns i)"

definition ok_schema :: "schema \<Rightarrow> bool" where
  "ok_schema s \<longleftrightarrow> ok_name (sch_name s) \<and> length (sch_columns s) < 65536 \<and> list_all ok_column (sch_columns s)
     \<and> length (sch_indexes s) < 65536 \<and> list_all ok_index (sch_indexes s)
     \<and> (case primary_key_column s of None \<Rightarrow> True | Some i \<Rightarrow> i < 65535)"

interpretation name_codec: wire_codec write_str read_str ok_name
  by unfold_locales
    (simp add: write_str_def read_str_def sbind_def ok_name_def unat_of_nat_u16 rd_take_append rd_utf8_def)

interpretation bound_codec: wire_codec encode_bound decode_bound ok_bound
proof unfold_locales
  fix v rest
  assume ok: "ok_bound v"
  then have "decode_values (encode_value v) 1 = Inr [v]"
    using decode_values_encode [of "[v]"] by (simp add: ok_bound_def encode_values_one)
  with ok show "decode_bound (encode_bound v @ rest) = (Inr v, rest)"
    by (simp add: encode_bound_def decode_bound_def sbind_def encode_values_one ok_bound_def
        unat_of_nat_u32 rd_take_append)
qed

interpretation bucket_codec: wire_codec encode_bucket decode_bucket ok_bucket
  by unfold_locales (simp add: encode_bucket_def decode_bucket_def ok_bucket_def sbind_def bound_codec.dec_enc)

interpretation column_no_codec: wire_codec "\<lambda>c. u16_le (of_nat c)" rd_column_no "\<lambda>c. c < 65536"
  by unfold_locales (simp add: rd_column_no_def sbind_def unat_of_nat_u16)

lemma fk_action_from_to [simp]: "fk_action_from_tag (fk_action_tag a) = Inr a"
  by (cases a) (simp_all add: fk_action_from_tag_def)

lemma type_from_to [simp]: "type_from_tag (type_to_tag t) = Inr t"
  by (cases t) (simp_all add: type_from_tag_def)

lemma decode_fk_encode:
  "(case fk of None \<Rightarrow> True | Some t \<Rightarrow> ok_name (fk_table t) \<and> ok_name (fk_column t)) \<Longrightarrow>
   decode_fk (encode_fk fk @ rest) = (Inr fk, rest)"
  by (cases fk) (simp_all add: decode_fk_def encode_fk_def sbind_def name_codec.dec_enc)

lemma decode_stats_encode:
  "(case st of None \<Rightarrow> True
    | Some s \<Rightarrow> length (histogram s) < 4294967296 \<and> list_all ok_bucket (histogram s)) \<Longrightarrow>
   decode_stats (encode_stats st @ rest) = (Inr st, rest)"
  by (cases st)
    (simp_all add: decode_stats_def encode_stats_def sbind_def unat_of_nat_u32 bucket_codec.rd_times_enc)

interpretation column_codec: wire_codec encode_column decode_column ok_column
  by unfold_locales
    (simp add: encode_column_def decode_column_def ok_column_def sbind_def name_codec.dec_enc
      decode_fk_encode decode_stats_encode)

interpretation index_codec: wire_codec encode_index decode_index ok_index
  by unfold_locales
    (simp add: encode_index_def decode_index_def ok_index_def sbind_def name_codec.dec_enc
      unat_of_nat_u16 column_no_codec.rd_times_enc)

lemma unat_u16_max: "unat (65535 :: u16) = 65535"
  by simp

lemma pk_tag_round_trip:
  "(case pk of None \<Rightarrow> True | Some i \<Rightarrow> i < 65535) \<Longrightarrow>
   (if pk_tag pk = 65535 then None else Some (unat (pk_tag pk))) = pk"
proof (cases pk)
  case (Some i)
  assume "case pk of None \<Rightarrow> True | Some i \<Rightarrow> i < 65535"
  with Some have i: "i < 65535" by simp
  then have u: "unat (of_nat i :: u16) = i" by (simp add: unat_of_nat_u16)
  with i have "(of_nat i :: u16) \<noteq> 65535"
    by (metis less_irrefl unat_u16_max)
  with u Some show ?thesis by (simp add: pk_tag_def)
qed (simp add: pk_tag_def)

subsection \<open>Corrupt input\<close>

text \<open>A reader that, whatever it is given, returns a value or reports corruption: it never panics.\<close>

definition total_reader :: "error \<Rightarrow> 'a reader \<Rightarrow> bool" where
  "total_reader e m \<longleftrightarrow> (\<forall>bs. case fst (m bs) of Inl f \<Rightarrow> f = Fail e | Inr _ \<Rightarrow> True)"

named_theorems total_intros \<open>readers that return a value or report corruption\<close>

lemma total_sret [total_intros]: "total_reader e (sret x)"
  by (simp add: total_reader_def)

lemma total_fail [total_intros]: "total_reader e (slift (Inl (Fail e)))"
  by (simp add: total_reader_def)

lemma total_slift [total_intros]:
  "(case r of Inl f \<Rightarrow> f = Fail e | Inr _ \<Rightarrow> True) \<Longrightarrow> total_reader e (slift r)"
  by (simp add: total_reader_def)

lemma total_sbind [total_intros]:
  assumes "total_reader e m" "\<And>x. total_reader e (f x)"
  shows "total_reader e (sbind m f)"
proof -
  have "case fst (sbind m f bs) of Inl f \<Rightarrow> f = Fail e | Inr _ \<Rightarrow> True" for bs
  proof (cases "m bs")
    case (Pair r s)
    then show ?thesis
      using assms(1) assms(2) unfolding total_reader_def sbind_def
      by (cases r) (auto dest!: spec [of _ bs])
  qed
  then show ?thesis by (simp add: total_reader_def)
qed

lemma total_if [total_intros]:
  "total_reader e m \<Longrightarrow> total_reader e m' \<Longrightarrow> total_reader e (if b then m else m')"
  by simp

lemma total_take [total_intros]: "total_reader e (rd_take e n)"
  by (simp add: total_reader_def rd_take_def)

lemma total_ints [total_intros]:
  "total_reader e (rd_u8 e)" "total_reader e (rd_u16 e)" "total_reader e (rd_u32 e)" "total_reader e (rd_u64 e)"
  unfolding rd_u8_def rd_u16_def rd_u32_def rd_u64_def by (intro total_intros)+

lemma total_times [total_intros]: "total_reader e m \<Longrightarrow> total_reader e (rd_times n m)"
  by (induction n) (auto intro!: total_intros)

lemma total_utf8 [total_intros]: "total_reader e (rd_utf8 e raw)"
  unfolding rd_utf8_def by (intro total_intros)

lemma total_done [total_intros]: "total_reader e (rd_done e)"
  by (simp add: total_reader_def rd_done_def)

lemma total_value [total_intros]: "total_reader Corruption decode_value"
  unfolding decode_value_def by (intro total_intros)

lemma total_readerD: "total_reader e m \<Longrightarrow> fst (m bs) = Inl (Fail e) \<or> (\<exists>x. fst (m bs) = Inr x)"
  unfolding total_reader_def by (cases "fst (m bs)") (auto dest!: spec [of _ bs])

lemma rd_times_length: "rd_times n m bs = (Inr xs, r) \<Longrightarrow> length xs = n"
  by (induction n arbitrary: bs xs r) (auto simp: sbind_def split: prod.splits sum.splits)

lemma decode_values_length: "decode_values bs n = Inr vs \<Longrightarrow> length vs = n"
  unfolding decode_values_def sbind_def rd_done_def
  by (auto split: prod.splits sum.splits if_splits dest: rd_times_length)

lemma decode_values_total: "decode_values bs n = Inl (Fail Corruption) \<or> (\<exists>vs. decode_values bs n = Inr vs)"
  unfolding decode_values_def by (rule total_readerD) (intro total_intros)

text \<open>The \<^verbatim>\<open>unwrap\<close> on a decoded bound never fires: one value was asked for and one came back.\<close>

lemma decode_values_total_case:
  "case decode_values raw n of Inl f \<Rightarrow> f = Fail Corruption | Inr _ \<Rightarrow> True"
  using decode_values_total [of raw n] by auto

lemma total_one:
  "total_reader Corruption (sbind (slift (decode_values raw 1))
     (\<lambda>vs. case vs of [] \<Rightarrow> slift (Inl Panicked) | v # _ \<Rightarrow> sret v))"
proof (cases "decode_values raw 1")
  case (Inl f)
  then show ?thesis
    using decode_values_total [of raw 1] by (simp add: total_reader_def sbind_def)
next
  case (Inr vs)
  with decode_values_length [OF Inr] show ?thesis
    by (cases vs) (simp_all add: total_reader_def sbind_def)
qed

lemma total_bound [total_intros]: "total_reader Corruption decode_bound"
  unfolding decode_bound_def by (intro total_intros total_one)

lemma total_str [total_intros]: "total_reader Corruption read_str"
  unfolding read_str_def by (intro total_intros)

lemma total_tags [total_intros]:
  "total_reader Corruption (slift (type_from_tag t))" "total_reader Corruption (slift (fk_action_from_tag t))"
  by (simp_all add: total_reader_def type_from_tag_def fk_action_from_tag_def)

lemma total_parts [total_intros]:
  "total_reader Corruption decode_fk" "total_reader Corruption decode_stats"
  "total_reader Corruption decode_index"
  unfolding decode_fk_def decode_stats_def decode_bucket_def decode_index_def rd_column_no_def
  by (intro total_intros)+

lemma total_column [total_intros]: "total_reader Corruption decode_column"
  unfolding decode_column_def by (intro total_intros)

section \<open>Properties\<close>

lemma decode_encode_row:
  "list_all ok_value vs \<Longrightarrow>
   decode_row (encode_row t_min t_max vs) (length vs) = Inr \<lparr>tx_min = t_min, tx_max = t_max, row_values = vs\<rparr>"
  using value_codec.rd_times_enc [of vs "[]"]
  by (simp add: decode_row_def encode_row_def sbind_def rd_done_def)

text \<open>C33: A stored row decodes to the transaction stamps and values it was written with, and a row
  read with the wrong column count is reported as corrupt, whether too few columns are asked for
  (bytes are left over) or too many (the bytes run out).\<close>

theorem row_round_trip:
  assumes "list_all ok_value vs"
  shows "decode_row (encode_row t_min t_max vs) n =
    (if n = length vs then Inr \<lparr>tx_min = t_min, tx_max = t_max, row_values = vs\<rparr>
     else Inl (Fail Corruption))"
proof (cases n "length vs" rule: linorder_cases)
  case less
  then have "drop n vs \<noteq> []" by simp
  then have "concat (map encode_value (drop n vs)) \<noteq> []" by (cases "drop n vs") simp_all
  with less show ?thesis
    by (simp add: decode_row_def encode_row_def sbind_def rd_done_def
        value_codec.rd_times_short [OF assms less])
next
  case equal
  then show ?thesis by (simp add: decode_encode_row [OF assms])
next
  case greater
  with rd_times_long [OF assms greater] show ?thesis
    by (auto simp: decode_row_def encode_row_def sbind_def)
qed

theorem row_round_trip_witness:
  "decode_row (encode_row 7 0 [VInt 5, VText [104, 105], VNull]) 3 =
     Inr \<lparr>tx_min = 7, tx_max = 0, row_values = [VInt 5, VText [104, 105], VNull]\<rparr>
   \<and> decode_row (encode_row 7 0 [VInt 5, VText [104, 105], VNull]) 2 = Inl (Fail Corruption)"
  using row_round_trip [of "[VInt 5, VText [104, 105], VNull]" 7 0 3]
    row_round_trip [of "[VInt 5, VText [104, 105], VNull]" 7 0 2]
  by simp

lemma decode_encode_schema:
  assumes "ok_schema s"
  shows "decode_schema (encode_schema s @ rest) = Inr s"
proof -
  have "rd_times (length (sch_columns s)) decode_column (concat (map encode_column (sch_columns s)) @ r)
      = (Inr (sch_columns s), r)" for r
    using assms by (simp add: ok_schema_def column_codec.rd_times_enc)
  moreover have "rd_times (length (sch_indexes s)) decode_index (concat (map encode_index (sch_indexes s)) @ r)
      = (Inr (sch_indexes s), r)" for r
    using assms by (simp add: ok_schema_def index_codec.rd_times_enc)
  moreover have "(if pk_tag (primary_key_column s) = 65535 then None
      else Some (unat (pk_tag (primary_key_column s)))) = primary_key_column s"
    using assms by (intro pk_tag_round_trip) (simp add: ok_schema_def)
  moreover have "read_str (write_str (sch_name s) @ r) = (Inr (sch_name s), r)" for r
    using assms by (simp add: ok_schema_def name_codec.dec_enc)
  ultimately show ?thesis
    using assms by (simp add: decode_schema_def encode_schema_def sbind_def ok_schema_def unat_of_nat_u16)
qed

text \<open>The catalog entry of a table decodes to the schema that was written, with its columns,
  constraints, statistics, indexes, row counters and primary key; bytes after it are ignored.\<close>

theorem schema_round_trip:
  assumes "ok_schema s"
  shows "decode_schema (encode_schema s @ rest) = Inr s"
  by (rule decode_encode_schema [OF assms])

theorem schema_round_trip_witness:
  "decode_schema (encode_schema
     \<lparr>sch_name = [116], sch_columns = [\<lparr>col_name = [99], col_ty = TInt, not_null = True,
        foreign_key = Some \<lparr>fk_table = [112], fk_column = [105], on_delete = Cascade\<rparr>,
        col_stats = Some \<lparr>n_distinct = 2, null_count = 0, total_rows = 2,
          histogram = [\<lparr>bucket_lower = VInt 1, bucket_upper = VInt 9, bucket_count = 2\<rparr>]\<rparr>\<rparr>],
      sch_root = 4, next_rowid = 3, row_count = 2,
      sch_indexes = [\<lparr>idx_name = [105], idx_columns = [0], idx_root = 5, idx_unique = True,
        is_building = False\<rparr>],
      primary_key_column = Some 0, mutations_since_analyze = 1\<rparr> @ []) = Inr
     \<lparr>sch_name = [116], sch_columns = [\<lparr>col_name = [99], col_ty = TInt, not_null = True,
        foreign_key = Some \<lparr>fk_table = [112], fk_column = [105], on_delete = Cascade\<rparr>,
        col_stats = Some \<lparr>n_distinct = 2, null_count = 0, total_rows = 2,
          histogram = [\<lparr>bucket_lower = VInt 1, bucket_upper = VInt 9, bucket_count = 2\<rparr>]\<rparr>\<rparr>],
      sch_root = 4, next_rowid = 3, row_count = 2,
      sch_indexes = [\<lparr>idx_name = [105], idx_columns = [0], idx_root = 5, idx_unique = True,
        is_building = False\<rparr>],
      primary_key_column = Some 0, mutations_since_analyze = 1\<rparr>"
  by (rule schema_round_trip)
    (simp add: ok_schema_def ok_name_def ok_column_def ok_index_def ok_bucket_def ok_bound_def)

text \<open>Whatever bytes a page returns, decoding them as a row or as a schema ends in a value or in a
  corruption error; no input panics, and the \<^verbatim>\<open>unwrap\<close> calls on decoded histogram bounds are safe.\<close>

theorem decoders_never_panic:
  "(decode_row bs n = Inl (Fail Corruption) \<or> (\<exists>r. decode_row bs n = Inr r))
   \<and> (decode_schema bs = Inl (Fail Corruption) \<or> (\<exists>s. decode_schema bs = Inr s))"
  unfolding decode_row_def decode_schema_def
  by (rule conjI; rule total_readerD; intro total_intros)

end
