(* ===== verification/Index_Key.thy ===== *)
theory Index_Key
  imports Codec "HOL-Library.Product_Lexorder" "HOL-Library.Sublist"
begin

unbundle bit_operations_syntax

text \<open>
  The order-preserving key encoding of \<^verbatim>\<open>engine/codec.rs\<close> (secondary-index keys, rowid keys and
  the upper bound of a prefix scan). The order the B+tree compares keys by is the lexicographic order
  of bytes, which is the order \<open>List_Lexorder\<close> gives to \<open>byte list\<close>; the order of the values is
  the \<open>linorder\<close> instance of \<open>sql_value\<close> below: type rank first, then numeric order of integers,
  IEEE total order of reals and byte order of text.
\<close>

section \<open>Definitions\<close>

definition rowid_key :: "u64 \<Rightarrow> bytes" where
  "rowid_key rowid = u64_be rowid"

text \<open>\<^verbatim>\<open>1 << 63\<close>, and the two remappings that turn value order into unsigned order.\<close>

definition top_bit :: u64 where
  "top_bit = push_bit 63 1"

definition int_key :: "u64 \<Rightarrow> u64" where
  "int_key n = n XOR top_bit"

definition real_key :: "u64 \<Rightarrow> u64" where
  "real_key b = (if b AND top_bit \<noteq> 0 then NOT b else b OR top_bit)"

primrec escape_text :: "bytes \<Rightarrow> bytes" where
  "escape_text [] = []"
| "escape_text (b # s) = (if b = 0 then b # 1 # escape_text s else b # escape_text s)"

fun encode_index_value :: "sql_value \<Rightarrow> bytes" where
  "encode_index_value VNull = [0]"
| "encode_index_value (VBool b) = [1, u8_of_bool b]"
| "encode_index_value (VInt n) = 2 # u64_be (int_key n)"
| "encode_index_value (VReal r) = 3 # u64_be (real_key r)"
| "encode_index_value (VText s) = 4 # escape_text s @ [0, 0]"

text \<open>A column number out of range panics, as \<^verbatim>\<open>values[column]\<close> does.\<close>

primrec encode_index_columns :: "sql_value list \<Rightarrow> nat list \<Rightarrow> bytes result" where
  "encode_index_columns vs [] = Inr []"
| "encode_index_columns vs (c # cs) =
     rbind (index vs c) (\<lambda>v. rbind (encode_index_columns vs cs) (\<lambda>key. Inr (encode_index_value v @ key)))"

definition encode_index_key :: "sql_value list \<Rightarrow> nat list \<Rightarrow> bytes \<Rightarrow> bytes result" where
  "encode_index_key vs columns rk = rbind (encode_index_columns vs columns) (\<lambda>key. Inr (key @ rk))"

text \<open>The loop pops from the end, so it recurses over the reversed prefix.\<close>

primrec prefix_upper_bound_loop :: "bytes \<Rightarrow> bytes option" where
  "prefix_upper_bound_loop [] = None"
| "prefix_upper_bound_loop (b # bound) =
     (if b \<noteq> 255 then Some (rev bound @ [b + 1]) else prefix_upper_bound_loop bound)"

definition prefix_upper_bound :: "bytes \<Rightarrow> bytes option" where
  "prefix_upper_bound p = prefix_upper_bound_loop (rev p)"

section \<open>The value order\<close>

definition real_order :: "u64 \<Rightarrow> int" where
  "real_order b = (if bit b 63 then - (uint b - 2 ^ 63) - 1 else uint b)"

fun index_rank :: "sql_value \<Rightarrow> int \<times> int \<times> bytes" where
  "index_rank VNull = (0, 0, [])"
| "index_rank (VBool b) = (1, of_bool b, [])"
| "index_rank (VInt n) = (2, sint n, [])"
| "index_rank (VReal r) = (3, real_order r, [])"
| "index_rank (VText s) = (4, 0, s)"

lemma bit_top_bit: "bit top_bit n \<longleftrightarrow> n = 63"
proof -
  have "bit top_bit n \<longleftrightarrow> bit (push_bit 63 (1 :: u64)) n"
    by (simp only: top_bit_def)
  also have "\<dots> \<longleftrightarrow> n = 63"
    by (simp only: bit_push_bit_iff possible_bit_word bit_1_iff) auto
  finally show ?thesis .
qed

lemma uint_top_bit: "uint top_bit = 2 ^ 63"
  by (simp add: top_bit_def)

lemma bit_63_iff: "bit (b :: u64) 63 \<longleftrightarrow> 2 ^ 63 \<le> uint b"
proof -
  have "bit b 63 \<longleftrightarrow> bit (uint b) 63"
    by (simp add: bit_uint_iff)
  then have "bit b 63 \<longleftrightarrow> odd (uint b div 2 ^ 63)"
    by (simp only: bit_iff_odd)
  moreover have "uint b div 2 ^ 63 = (if 2 ^ 63 \<le> uint b then 1 else 0)"
    using uint_lt2p [of b] uint_ge_0 [of b] by (simp add: div_eq_dividend_iff) linarith
  ultimately show ?thesis by simp
qed

lemma and_top_bit: "b AND top_bit \<noteq> 0 \<longleftrightarrow> bit b 63"
proof
  assume "b AND top_bit \<noteq> 0"
  then obtain n where "bit (b AND top_bit) n" by (metis bit_eqI bit_0_eq bot_apply bot_bool_def)
  then show "bit b 63" by (auto simp: bit_and_iff bit_top_bit)
next
  assume "bit b 63"
  then have "bit (b AND top_bit) 63" by (simp only: bit_and_iff bit_top_bit)
  then show "b AND top_bit \<noteq> 0" by (metis bit_0_eq bot_apply bot_bool_def)
qed

lemma and_top_bit_clear: "\<not> bit b 63 \<Longrightarrow> b AND top_bit = 0"
  using and_top_bit by blast

lemma xor_top_bit: "b XOR top_bit = b + top_bit"
proof (cases "bit b 63")
  case True
  have "\<not> bit (b XOR top_bit) 63"
    using True by (simp add: bit_xor_iff bit_top_bit)
  from disjunctive_add_eq_xor [OF and_top_bit_clear [OF this]]
  have "b = (b XOR top_bit) + top_bit" by (simp add: xor.assoc)
  then have "b XOR top_bit = b - top_bit" by (metis add_diff_cancel_right')
  also have "\<dots> = b + top_bit" by (simp add: top_bit_def)
  finally show ?thesis .
qed (simp add: disjunctive_add_eq_xor and_top_bit_clear)

lemma or_top_bit: "\<not> bit b 63 \<Longrightarrow> b OR top_bit = b + top_bit"
  by (simp add: disjunctive_add_eq_or and_top_bit_clear)

lemma uint_add_top_bit:
  "uint (b + top_bit) = (if bit b 63 then uint b - 2 ^ 63 else uint b + 2 ^ 63)"
proof -
  have "uint b < 2 ^ 64" "0 \<le> uint b" using uint_lt2p [of b] by simp_all
  then show ?thesis
    by (simp add: uint_word_ariths uint_top_bit bit_63_iff not_le mod_pos_pos_trivial)
      (smt (verit) mod_add_self2 minus_mod_self2 mod_pos_pos_trivial)
qed

lemma sint_eq_uint_split: "sint (b :: u64) = (if bit b 63 then uint b - 2 ^ 64 else uint b)"
proof -
  have "uint b mod 2 ^ 64 = uint b" using uint_lt2p [of b] by simp
  then show ?thesis
    by (simp add: sint_uint signed_take_bit_eq_take_bit_minus bit_uint_iff take_bit_eq_mod)
qed

lemma uint_not: "uint (NOT b :: u64) = 2 ^ 64 - 1 - uint b"
proof -
  have "NOT b = -1 - b" by (simp add: not_eq_complement)
  moreover have "uint b \<le> uint (-1 :: u64)"
    using uint_lt2p [of b] by (simp add: uint_word_ariths)
  ultimately show ?thesis
    using uint_sub_lem [of b "-1"] by (simp add: uint_word_ariths)
qed

lemma uint_real_key: "uint (real_key b) = real_order b + 2 ^ 63"
  by (simp add: real_key_def real_order_def and_top_bit uint_not or_top_bit uint_add_top_bit)

lemma uint_int_key: "uint (int_key n) = sint n + 2 ^ 63"
  by (simp add: int_key_def xor_top_bit uint_add_top_bit sint_eq_uint_split)

lemma real_order_inj: "real_order a = real_order b \<Longrightarrow> a = b"
proof -
  assume eq: "real_order a = real_order b"
  have "uint a = uint b"
    using eq uint_ge_0 [of a] uint_ge_0 [of b] by (smt (verit) real_order_def bit_63_iff)
  then show "a = b" by (simp add: word_uint_eq_iff)
qed

lemma index_rank_inj: "index_rank a = index_rank b \<Longrightarrow> a = b"
  by (cases a; cases b) (auto dest: real_order_inj signed_word_eqI split: if_splits)

instantiation sql_value :: linorder
begin

definition less_eq_sql_value :: "sql_value \<Rightarrow> sql_value \<Rightarrow> bool" where
  "less_eq_sql_value a b \<longleftrightarrow> index_rank a \<le> index_rank b"

definition less_sql_value :: "sql_value \<Rightarrow> sql_value \<Rightarrow> bool" where
  "less_sql_value a b \<longleftrightarrow> index_rank a < index_rank b"

instance
  by standard (auto simp: less_eq_sql_value_def less_sql_value_def intro: index_rank_inj)

end

section \<open>Byte order\<close>

lemma list_less_append_eq_length:
  fixes xs ys us vs :: "'a::linorder list"
  shows "length xs = length ys \<Longrightarrow> xs @ us < ys @ vs \<longleftrightarrow> xs < ys \<or> xs = ys \<and> us < vs"
  by (induction xs ys rule: list_induct2) auto

lemma less_div_mod_iff: "a < b \<longleftrightarrow> a div m < b div m \<or> a div m = b div m \<and> a mod m < b mod m"
  for a b m :: nat
proof (cases "a div m" "b div m" rule: linorder_cases)
  case less
  then have "a < b" using div_le_mono [of b a m] by (auto simp: not_le [symmetric])
  with less show ?thesis by simp
next
  case equal
  then have "m * (a div m) + a mod m < m * (b div m) + b mod m \<longleftrightarrow> a mod m < b mod m"
    by (simp only: nat_add_left_cancel_less)
  then have "a < b \<longleftrightarrow> a mod m < b mod m" by (simp only: mult_div_mod_eq)
  with equal show ?thesis by simp
next
  case greater
  then have "\<not> a < b" using div_le_mono [of a b m] by (metis less_imp_le_nat not_le)
  with greater show ?thesis by simp
qed

lemma nat_to_le_less:
  "a < 256 ^ n \<Longrightarrow> b < 256 ^ n \<Longrightarrow> rev (nat_to_le n a) < rev (nat_to_le n b) \<longleftrightarrow> a < b"
proof (induction n arbitrary: a b)
  case 0
  then show ?case by simp
next
  case (Suc n)
  have div: "a div 256 < 256 ^ n" "b div 256 < 256 ^ n"
    using Suc.prems by (simp_all add: less_mult_imp_div_less mult.commute)
  have eq: "nat_to_le n (a div 256) = nat_to_le n (b div 256) \<longleftrightarrow> a div 256 = b div 256"
    using div by (metis le_to_nat_to_le mod_less)
  have lt: "(of_nat (a mod 256) :: byte) < of_nat (b mod 256) \<longleftrightarrow> a mod 256 < b mod 256"
    by (simp add: word_less_nat_alt)
  have "rev (nat_to_le (Suc n) a) < rev (nat_to_le (Suc n) b) \<longleftrightarrow>
      a div 256 < b div 256 \<or> a div 256 = b div 256 \<and> a mod 256 < b mod 256"
    using Suc.IH [OF div] by (simp add: list_less_append_eq_length eq lt)
  also have "\<dots> \<longleftrightarrow> a < b"
    by (rule less_div_mod_iff [symmetric])
  finally show ?case .
qed

lemma u64_be_less: "u64_be a < u64_be b \<longleftrightarrow> a < b"
proof -
  have "unat a < 256 ^ 8" "unat b < 256 ^ 8"
    using unat_bound [of a] unat_bound [of b] by simp_all
  then show ?thesis
    by (simp only: u64_be_def u64_le_def nat_to_le_less word_less_nat_alt)
qed

lemma u64_be_append_less: "a < b \<Longrightarrow> u64_be a @ x < u64_be b @ y"
  by (simp add: list_less_append_eq_length u64_be_less)

lemma escape_text_less: "s < t \<Longrightarrow> escape_text s @ 0 # 0 # x < escape_text t @ 0 # 0 # y"
proof (induction s arbitrary: t)
  case Nil
  then obtain c t' where "t = c # t'" by (cases t) auto
  then show ?case by (auto simp: word_neq_0_conv)
next
  case (Cons a s)
  then obtain c t' where t: "t = c # t'" by (cases t) auto
  with Cons.prems Cons.IH [of t'] show ?case by (auto simp: word_neq_0_conv)
qed

lemma encode_index_value_less:
  "a < b \<Longrightarrow> encode_index_value a @ x < encode_index_value b @ y"
proof -
  assume "a < b"
  then have "index_rank a < index_rank b" by (simp add: less_sql_value_def)
  moreover have "u64_be (int_key m) @ x < u64_be (int_key n) @ y" if "sint m < sint n" for m n
    using that by (intro u64_be_append_less) (simp add: word_less_def uint_int_key)
  moreover have "u64_be (real_key m) @ x < u64_be (real_key n) @ y" if "real_order m < real_order n" for m n
    using that by (intro u64_be_append_less) (simp add: word_less_def uint_real_key)
  ultimately show ?thesis
    by (cases a; cases b) (auto simp: escape_text_less u8_of_bool_def)
qed

text \<open>Strict monotonicity with anything appended makes the encoding of a column tuple order preserving.\<close>

lemma encode_tuple_less:
  assumes "length vs = length ws" "vs < ws"
  shows "concat (map encode_index_value vs) @ x < concat (map encode_index_value ws) @ y"
  using assms
  by (induction vs ws rule: list_induct2) (auto simp: list_less_append_eq_length intro: encode_index_value_less)

lemma encode_index_columns_eq:
  "encode_index_columns vs cs =
     (if \<forall>c \<in> set cs. c < length vs then Inr (concat (map (\<lambda>c. encode_index_value (vs ! c)) cs))
      else Inl Panicked)"
  by (induction cs) (auto simp: index_def)

lemma encode_index_key_eq:
  "list_all (\<lambda>c. c < length vs) cs \<Longrightarrow>
   encode_index_key vs cs rk = Inr (concat (map encode_index_value (map ((!) vs) cs)) @ rk)"
  by (simp add: encode_index_key_def encode_index_columns_eq list_all_iff comp_def)

section \<open>Prefix scans\<close>

lemma prefix_le: "prefix p s \<Longrightarrow> p \<le> s"
  for p s :: "'a::linorder list"
proof (elim prefixE)
  show "s = p @ t \<Longrightarrow> p \<le> s" for t
    by (induction p arbitrary: s) auto
qed

text \<open>Between \<open>p @ [b]\<close> and \<open>p @ [b + 1]\<close> lie exactly the extensions of \<open>p @ [b]\<close>.\<close>

lemma byte_succ_le: "b \<noteq> 255 \<Longrightarrow> c < b + 1 \<longleftrightarrow> c \<le> b" for b c :: byte
proof -
  assume "b \<noteq> 255"
  then have "unat b \<noteq> unat (255 :: byte)" by (simp only: word_unat_eq_iff not_False_eq_True)
  then have "unat b \<noteq> 255" by simp
  then have "unat (b + 1) = unat b + 1"
    using unat_bound [of b] by (simp add: unat_plus_if_size word_size)
  then show ?thesis by (simp add: word_less_nat_alt word_le_nat_alt less_Suc_eq_le)
qed

lemma between_succ:
  fixes b :: byte
  assumes "b \<noteq> 255"
  shows "p @ [b] \<le> s \<and> s < p @ [b + 1] \<longleftrightarrow> prefix (p @ [b]) s"
proof (induction p arbitrary: s)
  case Nil
  show ?case
  proof (cases s)
    case (Cons c s')
    have "c < b + 1 \<longleftrightarrow> c \<le> b" "\<not> b + 1 \<le> b"
      using byte_succ_le [OF assms, of c] byte_succ_le [OF assms, of b] by simp_all
    then show ?thesis unfolding Cons by auto
  qed simp
next
  case (Cons a p)
  show ?case
  proof (cases s)
    case (Cons c s')
    show ?thesis
      using Cons.IH [of s'] unfolding Cons by (auto dest: less_asym)
  qed simp
qed

lemma prefix_upper_bound_snoc:
  "prefix_upper_bound (p @ [b]) = (if b \<noteq> 255 then Some (p @ [b + 1]) else prefix_upper_bound p)"
  by (simp add: prefix_upper_bound_def)

lemma le_byte_max: "(c :: byte) \<le> 255"
  using unat_bound [of c] by (simp add: word_le_nat_alt)

lemma ge_max_prefix: "p @ [255 :: byte] \<le> s \<Longrightarrow> prefix p s \<Longrightarrow> prefix (p @ [255]) s"
proof (induction p arbitrary: s)
  case Nil
  then show ?case using le_byte_max by (cases s) (auto intro: order.antisym)
next
  case (Cons a p)
  then show ?case by (cases s) auto
qed

lemma le_snoc: "p @ [b] \<le> s \<Longrightarrow> p \<le> s"
  for p s :: "'a::linorder list"
  using prefix_le [of p "p @ [b]"] by (simp add: order.trans)

lemma between_prefix_bound:
  "p \<le> s \<and> (case prefix_upper_bound p of None \<Rightarrow> True | Some u \<Rightarrow> s < u) \<longleftrightarrow> prefix p s"
proof (induction p rule: rev_induct)
  case Nil
  then show ?case by (simp add: prefix_upper_bound_def)
next
  case (snoc b p)
  show ?case
  proof (cases "b = 255")
    case True
    have "p @ [255] \<le> s \<Longrightarrow> p \<le> s" "prefix (p @ [255]) s \<Longrightarrow> prefix p s" "prefix (p @ [255]) s \<Longrightarrow> p @ [255] \<le> s"
      using le_snoc prefix_le by (auto dest: append_prefixD)
    with snoc.IH True ge_max_prefix [of p s] show ?thesis
      by (auto simp: prefix_upper_bound_snoc)
  next
    case False
    then show ?thesis by (simp add: prefix_upper_bound_snoc between_succ)
  qed
qed

section \<open>Properties\<close>

text \<open>C34: Index keys sort the way their rows do: for two rows of one table, the keys of an index
  compare as the tuples of indexed values do, and by rowid where the tuples are equal.\<close>

theorem index_key_order:
  assumes "list_all (\<lambda>c. c < length vs) cs" "list_all (\<lambda>c. c < length ws) cs"
    and "encode_index_key vs cs (rowid_key r) = Inr k" "encode_index_key ws cs (rowid_key q) = Inr l"
  shows "k < l \<longleftrightarrow> map ((!) vs) cs < map ((!) ws) cs \<or> map ((!) vs) cs = map ((!) ws) cs \<and> r < q"
proof -
  define vt wt where "vt = map ((!) vs) cs" "wt = map ((!) ws) cs"
  have len: "length vt = length wt" by (simp add: vt_wt_def)
  have k: "k = concat (map encode_index_value vt) @ u64_be r"
    and l: "l = concat (map encode_index_value wt) @ u64_be q"
    using assms by (simp_all add: encode_index_key_eq rowid_key_def vt_wt_def)
  consider "vt < wt" | "vt = wt" | "wt < vt" by fastforce
  then have "k < l \<longleftrightarrow> vt < wt \<or> vt = wt \<and> r < q"
  proof cases
    case 1
    then show ?thesis using encode_tuple_less [OF len 1] by (simp add: k l)
  next
    case 2
    then show ?thesis by (simp add: k l list_less_append_eq_length u64_be_less)
  next
    case 3
    then show ?thesis using encode_tuple_less [OF len [symmetric] 3] by (auto simp: k l dest: less_asym)
  qed
  then show ?thesis by (simp add: vt_wt_def)
qed

theorem index_key_order_witness:
  "\<exists>k l. encode_index_key [VInt (-1), VText [0]] [1, 0] (rowid_key 1) = Inr k
     \<and> encode_index_key [VInt 1, VText [0]] [1, 0] (rowid_key 0) = Inr l \<and> k < l"
proof -
  obtain k where k: "encode_index_key [VInt (-1), VText [0]] [1, 0] (rowid_key 1) = Inr k"
    by (simp add: encode_index_key_eq)
  obtain l where l: "encode_index_key [VInt 1, VText [0]] [1, 0] (rowid_key 0) = Inr l"
    by (simp add: encode_index_key_eq)
  have "VInt (-1) < VInt 1" by (simp add: less_sql_value_def)
  then have "k < l"
    using index_key_order [OF _ _ k l] by simp
  with k l show ?thesis by blast
qed

text \<open>The bound of an equality scan is exact: the keys from the prefix up to
  \<^verbatim>\<open>prefix_upper_bound\<close> (to the end when there is none) are those that start with the prefix.\<close>

theorem prefix_upper_bound_exact:
  "p \<le> s \<and> (case prefix_upper_bound p of None \<Rightarrow> True | Some u \<Rightarrow> s < u) \<longleftrightarrow> prefix p s"
  by (rule between_prefix_bound)

end
