(* ===== verification/Page_Layout.thy ===== *)
theory Page_Layout
  imports Prelude
begin

text \<open>
  Slotted pages, \<^verbatim>\<open>storage/page.rs\<close>: the byte layout of leaf and interior pages, the
  accessors, the two binary searches and the two page builders. A page is its 4096-byte buffer;
  the \<^verbatim>\<open>Owned\<close>/\<^verbatim>\<open>Shared\<close> distinction of \<^verbatim>\<open>PageBuf\<close> only avoids a copy and has no
  counterpart here. The lemmas show that a page built from entries reads back exactly those
  entries, that the builders never panic (they either build or report that the entries do not
  fit), and what the binary searches return on sorted pages.
\<close>

section \<open>Constants\<close>

definition PAGE_SIZE :: nat where "PAGE_SIZE = 4096"
definition HEADER_SIZE :: nat where "HEADER_SIZE = 16"
definition USABLE :: nat where "USABLE = PAGE_SIZE - HEADER_SIZE"
definition MAX_CELL :: nat where "MAX_CELL = USABLE div 2 - 2"
definition OFF_CELL_COUNT :: nat where "OFF_CELL_COUNT = 2"
definition OFF_FREE_END :: nat where "OFF_FREE_END = 4"
definition OFF_RIGHT_LINK :: nat where "OFF_RIGHT_LINK = 8"
definition LEAF_CELL_OVERHEAD :: nat where "LEAF_CELL_OVERHEAD = 6"
definition INTERNAL_CELL_HEADER :: nat where "INTERNAL_CELL_HEADER = 6"
definition SLOT_SIZE :: nat where "SLOT_SIZE = 2"
definition PAGE_INTERNAL :: byte where "PAGE_INTERNAL = 1"
definition PAGE_LEAF :: byte where "PAGE_LEAF = 2"

lemmas page_consts = PAGE_SIZE_def HEADER_SIZE_def USABLE_def MAX_CELL_def OFF_CELL_COUNT_def
  OFF_FREE_END_def OFF_RIGHT_LINK_def LEAF_CELL_OVERHEAD_def INTERNAL_CELL_HEADER_def
  SLOT_SIZE_def PAGE_INTERNAL_def PAGE_LEAF_def

section \<open>Fields\<close>

definition get_u16 :: "bytes \<Rightarrow> nat \<Rightarrow> u16 result" where
  "get_u16 b p = rbind (slice b p (p + 2)) (\<lambda>s. Inr (u16_of_le s))"

definition get_u32 :: "bytes \<Rightarrow> nat \<Rightarrow> u32 result" where
  "get_u32 b p = rbind (slice b p (p + 4)) (\<lambda>s. Inr (u32_of_le s))"

definition put_u16 :: "bytes \<Rightarrow> nat \<Rightarrow> u16 \<Rightarrow> bytes result" where
  "put_u16 b p v = put_slice b p (u16_le v)"

definition put_u32 :: "bytes \<Rightarrow> nat \<Rightarrow> u32 \<Rightarrow> bytes result" where
  "put_u32 b p v = put_slice b p (u32_le v)"

text \<open>A page buffer is an array of 4096 bytes, so it is never empty; the first byte is the type.\<close>

definition page_type :: "bytes \<Rightarrow> byte" where
  "page_type p = (case p of [] \<Rightarrow> 0 | b # _ \<Rightarrow> b)"

definition is_leaf :: "bytes \<Rightarrow> bool" where
  "is_leaf p \<longleftrightarrow> page_type p = PAGE_LEAF"

definition is_internal :: "bytes \<Rightarrow> bool" where
  "is_internal p \<longleftrightarrow> page_type p = PAGE_INTERNAL"

definition zero_page :: bytes where
  "zero_page = replicate PAGE_SIZE 0"

definition new_page :: "byte \<Rightarrow> bytes result" where
  "new_page ty = put_u16 (zero_page[0 := ty]) OFF_FREE_END (of_nat PAGE_SIZE)"

definition new_leaf :: "bytes result" where "new_leaf = new_page PAGE_LEAF"

definition new_internal :: "bytes result" where "new_internal = new_page PAGE_INTERNAL"

definition cell_count :: "bytes \<Rightarrow> nat result" where
  "cell_count p = rbind (get_u16 p OFF_CELL_COUNT) (\<lambda>n. Inr (unat n))"

definition right_link :: "bytes \<Rightarrow> u32 result" where
  "right_link p = get_u32 p OFF_RIGHT_LINK"

definition set_right_link :: "bytes \<Rightarrow> u32 \<Rightarrow> bytes result" where
  "set_right_link p l = put_u32 p OFF_RIGHT_LINK l"

definition slot :: "bytes \<Rightarrow> nat \<Rightarrow> nat result" where
  "slot p i = rbind (get_u16 p (HEADER_SIZE + i * SLOT_SIZE)) (\<lambda>x. Inr (unat x))"

section \<open>Cells\<close>

definition leaf_key :: "bytes \<Rightarrow> nat \<Rightarrow> bytes result" where
  "leaf_key p i =
     rbind (slot p i) (\<lambda>q.
     rbind (get_u16 p q) (\<lambda>klen.
     slice p (q + LEAF_CELL_OVERHEAD) (q + LEAF_CELL_OVERHEAD + unat klen)))"

definition leaf_value :: "bytes \<Rightarrow> nat \<Rightarrow> bytes result" where
  "leaf_value p i =
     rbind (slot p i) (\<lambda>q.
     rbind (get_u16 p q) (\<lambda>klen.
     rbind (get_u32 p (q + 2)) (\<lambda>vlen.
     let start = q + LEAF_CELL_OVERHEAD + unat klen in slice p start (start + unat vlen))))"

definition internal_key :: "bytes \<Rightarrow> nat \<Rightarrow> bytes result" where
  "internal_key p i =
     rbind (slot p i) (\<lambda>q.
     rbind (get_u16 p (q + 4)) (\<lambda>klen.
     slice p (q + INTERNAL_CELL_HEADER) (q + INTERNAL_CELL_HEADER + unat klen)))"

definition internal_child :: "bytes \<Rightarrow> nat \<Rightarrow> u32 result" where
  "internal_child p i = rbind (slot p i) (\<lambda>q. get_u32 p q)"

definition leaf_entries :: "bytes \<Rightarrow> (bytes \<times> bytes) list result" where
  "leaf_entries p =
     rbind (cell_count p) (\<lambda>n.
     rmap (\<lambda>i. rbind (leaf_key p i) (\<lambda>k. rbind (leaf_value p i) (\<lambda>v. Inr (k, v)))) [0..<n])"

definition internal_entries :: "bytes \<Rightarrow> (bytes \<times> u32) list result" where
  "internal_entries p =
     rbind (cell_count p) (\<lambda>n.
     rmap (\<lambda>i. rbind (internal_key p i) (\<lambda>k. rbind (internal_child p i) (\<lambda>c. Inr (k, c))))
       [0..<n])"

section \<open>Binary searches\<close>

function find_leaf_slot_loop :: "bytes \<Rightarrow> bytes \<Rightarrow> nat \<Rightarrow> nat \<Rightarrow> search result" where
  "find_leaf_slot_loop p key lo hi =
     (if lo < hi then
        let mid = (lo + hi) div 2 in
        rbind (leaf_key p mid) (\<lambda>k.
          if k < key then find_leaf_slot_loop p key (mid + 1) hi
          else if key < k then find_leaf_slot_loop p key lo mid
          else Inr (Found mid))
      else Inr (Missing lo))"
  by pat_completeness auto
termination
  by (relation "measure (\<lambda>(p, key, lo, hi). hi - lo)") auto

definition find_leaf_slot :: "bytes \<Rightarrow> bytes \<Rightarrow> search result" where
  "find_leaf_slot p key = rbind (cell_count p) (\<lambda>n. find_leaf_slot_loop p key 0 n)"

function find_child_loop :: "bytes \<Rightarrow> bytes \<Rightarrow> nat \<Rightarrow> nat \<Rightarrow> nat result" where
  "find_child_loop p key lo hi =
     (if lo < hi then
        let mid = (lo + hi) div 2 in
        rbind (internal_key p mid) (\<lambda>k.
          if k \<le> key then find_child_loop p key (mid + 1) hi
          else find_child_loop p key lo mid)
      else Inr lo)"
  by pat_completeness auto
termination
  by (relation "measure (\<lambda>(p, key, lo, hi). hi - lo)") auto

text \<open>The final \<^verbatim>\<open>lo.saturating_sub(1)\<close> is subtraction on the naturals.\<close>

definition find_child :: "bytes \<Rightarrow> bytes \<Rightarrow> nat result" where
  "find_child p key =
     rbind (cell_count p) (\<lambda>n. rbind (find_child_loop p key 0 n) (\<lambda>lo. Inr (lo - 1)))"

declare find_leaf_slot_loop.simps [simp del] find_child_loop.simps [simp del]

section \<open>Builders\<close>

definition leaf_footprint :: "bytes \<Rightarrow> bytes \<Rightarrow> nat" where
  "leaf_footprint key value = SLOT_SIZE + LEAF_CELL_OVERHEAD + length key + length value"

definition internal_footprint :: "bytes \<Rightarrow> nat" where
  "internal_footprint key = SLOT_SIZE + INTERNAL_CELL_HEADER + length key"

text \<open>
  The loop of \<^verbatim>\<open>build_leaf\<close> over the entries from index \<open>i\<close>: \<open>cursor -= cell_len\<close> (an underflow
  panics), then the cell header, key, value and slot.
\<close>

primrec build_leaf_loop :: "nat \<Rightarrow> (bytes \<times> bytes) list \<Rightarrow> bytes \<Rightarrow> nat \<Rightarrow> (bytes \<times> nat) result" where
  "build_leaf_loop i [] buf cursor = Inr (buf, cursor)"
| "build_leaf_loop i (e # es) buf cursor =
     (let k = fst e; v = snd e; cell_len = LEAF_CELL_OVERHEAD + length k + length v in
      if cursor < cell_len then Inl Panicked
      else
        let cursor = cursor - cell_len; kstart = cursor + LEAF_CELL_OVERHEAD;
            vstart = kstart + length k in
        rbind (put_u16 buf cursor (of_nat (length k))) (\<lambda>buf.
        rbind (put_u32 buf (cursor + 2) (of_nat (length v))) (\<lambda>buf.
        rbind (put_slice buf kstart k) (\<lambda>buf.
        rbind (put_slice buf vstart v) (\<lambda>buf.
        rbind (put_u16 buf (HEADER_SIZE + i * SLOT_SIZE) (of_nat cursor)) (\<lambda>buf.
        build_leaf_loop (i + 1) es buf cursor))))))"

definition finish_page :: "nat \<Rightarrow> bytes \<times> nat \<Rightarrow> bytes result" where
  "finish_page n bc =
     rbind (put_u16 (fst bc) OFF_CELL_COUNT (of_nat n)) (\<lambda>buf.
     put_u16 buf OFF_FREE_END (of_nat (snd bc)))"

definition build_leaf :: "(bytes \<times> bytes) list \<Rightarrow> u32 \<Rightarrow> bytes result" where
  "build_leaf entries right =
     (let body = sum_list (map (\<lambda>(k, v). SLOT_SIZE + LEAF_CELL_OVERHEAD + length k + length v) entries) in
      if USABLE < body then Inl (Fail Corruption)
      else
        rbind new_leaf (\<lambda>page.
        rbind (set_right_link page right) (\<lambda>buf.
        rbind (build_leaf_loop 0 entries buf PAGE_SIZE) (\<lambda>bc.
        finish_page (length entries) bc))))"

primrec build_internal_loop :: "nat \<Rightarrow> (bytes \<times> u32) list \<Rightarrow> bytes \<Rightarrow> nat \<Rightarrow> (bytes \<times> nat) result" where
  "build_internal_loop i [] buf cursor = Inr (buf, cursor)"
| "build_internal_loop i (e # es) buf cursor =
     (let k = fst e; child = snd e; cell_len = INTERNAL_CELL_HEADER + length k in
      if cursor < cell_len then Inl Panicked
      else
        let cursor = cursor - cell_len; kstart = cursor + INTERNAL_CELL_HEADER in
        rbind (put_u32 buf cursor child) (\<lambda>buf.
        rbind (put_u16 buf (cursor + 4) (of_nat (length k))) (\<lambda>buf.
        rbind (put_slice buf kstart k) (\<lambda>buf.
        rbind (put_u16 buf (HEADER_SIZE + i * SLOT_SIZE) (of_nat cursor)) (\<lambda>buf.
        build_internal_loop (i + 1) es buf cursor)))))"

definition build_internal :: "(bytes \<times> u32) list \<Rightarrow> bytes result" where
  "build_internal entries =
     (let body = sum_list (map (\<lambda>(k, _). SLOT_SIZE + INTERNAL_CELL_HEADER + length k) entries) in
      if USABLE < body then Inl (Fail Corruption)
      else
        rbind new_internal (\<lambda>buf.
        rbind (build_internal_loop 0 entries buf PAGE_SIZE) (\<lambda>bc.
        finish_page (length entries) bc)))"

section \<open>Bytes standing at an offset\<close>

definition bytes_at :: "bytes \<Rightarrow> nat \<Rightarrow> bytes \<Rightarrow> bool" where
  "bytes_at b a s \<longleftrightarrow> a + length s \<le> length b \<and> take (length s) (drop a b) = s"

lemma bytes_at_append:
  "bytes_at b a (s @ t) \<longleftrightarrow> bytes_at b a s \<and> bytes_at b (a + length s) t"
  by (auto simp: bytes_at_def take_add add.commute)

lemma slice_bytes_at: "bytes_at b a s \<Longrightarrow> e = a + length s \<Longrightarrow> slice b a e = Inr s"
  by (auto simp: bytes_at_def slice_def)

lemma put_slice_bytes_at:
  assumes "put_slice b a s = Inr b'"
  shows "bytes_at b' a s"
  using assms put_slice_same [OF assms] by (auto simp: bytes_at_def put_slice_def split: if_splits)

lemma put_slice_keeps:
  assumes "put_slice b a s = Inr b'" "bytes_at b c t" "c + length t \<le> a \<or> a + length s \<le> c"
  shows "bytes_at b' c t"
  using put_slice_other [OF assms(1,3)] put_slice_length [OF assms(1)] assms(2)
  by (auto simp: bytes_at_def)

lemma put_slice_ok: "a + length s \<le> length b \<Longrightarrow> \<exists>b'. put_slice b a s = Inr b'"
  by (simp add: put_slice_def)

lemma put_slice_append:
  assumes "a' = a + length s"
  shows "rbind (put_slice b a s) (\<lambda>b. rbind (put_slice b a' t) f) = rbind (put_slice b a (s @ t)) f"
  using assms by (auto simp: put_slice_def ac_simps)

lemma get_u16_at: "bytes_at b a (u16_le w) \<Longrightarrow> get_u16 b a = Inr w"
  using slice_bytes_at [of b a "u16_le w" "a + 2"] by (simp add: get_u16_def)

lemma get_u32_at: "bytes_at b a (u32_le w) \<Longrightarrow> get_u32 b a = Inr w"
  using slice_bytes_at [of b a "u32_le w" "a + 4"] by (simp add: get_u32_def)

lemma page_type_at: "bytes_at b 0 [ty] \<Longrightarrow> page_type b = ty"
  by (cases b) (auto simp: bytes_at_def page_type_def)

section \<open>The generic cell writer\<close>

text \<open>Both builder loops write one contiguous cell and one slot per entry.\<close>

primrec write_cells :: "nat \<Rightarrow> bytes list \<Rightarrow> bytes \<Rightarrow> nat \<Rightarrow> (bytes \<times> nat) result" where
  "write_cells i [] buf cursor = Inr (buf, cursor)"
| "write_cells i (c # cs) buf cursor =
     (if cursor < length c then Inl Panicked
      else
        rbind (put_slice buf (cursor - length c) c) (\<lambda>buf.
        rbind (put_slice buf (HEADER_SIZE + i * SLOT_SIZE) (u16_le (of_nat (cursor - length c)))) (\<lambda>buf.
        write_cells (i + 1) cs buf (cursor - length c))))"

definition leaf_cell :: "bytes \<times> bytes \<Rightarrow> bytes" where
  "leaf_cell e = u16_le (of_nat (length (fst e))) @ u32_le (of_nat (length (snd e))) @ fst e @ snd e"

definition internal_cell :: "bytes \<times> u32 \<Rightarrow> bytes" where
  "internal_cell e = u32_le (snd e) @ u16_le (of_nat (length (fst e))) @ fst e"

lemma length_leaf_cell: "length (leaf_cell e) = LEAF_CELL_OVERHEAD + length (fst e) + length (snd e)"
  by (simp add: leaf_cell_def page_consts)

lemma length_internal_cell: "length (internal_cell e) = INTERNAL_CELL_HEADER + length (fst e)"
  by (simp add: internal_cell_def page_consts)

lemma build_leaf_loop_cells:
  "build_leaf_loop i es buf cursor = write_cells i (map leaf_cell es) buf cursor"
proof (induction es arbitrary: i buf cursor)
  case Nil
  then show ?case by simp
next
  case (Cons e es)
  show ?case
    by (simp add: Let_def Cons.IH length_leaf_cell put_u16_def put_u32_def put_slice_append
        leaf_cell_def LEAF_CELL_OVERHEAD_def add.assoc)
qed

lemma build_internal_loop_cells:
  "build_internal_loop i es buf cursor = write_cells i (map internal_cell es) buf cursor"
proof (induction es arbitrary: i buf cursor)
  case Nil
  then show ?case by simp
next
  case (Cons e es)
  show ?case
    by (simp add: Let_def Cons.IH length_internal_cell put_u16_def put_u32_def put_slice_append
        internal_cell_def INTERNAL_CELL_HEADER_def)
qed

text \<open>The cell of index \<open>j\<close> is where slot \<open>j\<close> says it is.\<close>

definition cell_at :: "bytes \<Rightarrow> nat \<Rightarrow> bytes \<Rightarrow> bool" where
  "cell_at p j c \<longleftrightarrow>
     (\<exists>q < 65536. HEADER_SIZE \<le> q \<and> bytes_at p (HEADER_SIZE + j * SLOT_SIZE) (u16_le (of_nat q)) \<and>
       bytes_at p q c)"

lemma slot_cell_at:
  assumes "cell_at p j c"
  obtains q where "slot p j = Inr q" "bytes_at p q c"
  using assms by (auto simp: cell_at_def slot_def get_u16_at unat_of_nat_u16)

lemma write_cells_spec:
  assumes "HEADER_SIZE + (i + length cs) * SLOT_SIZE + sum_list (map length cs) \<le> cursor"
    and "cursor \<le> length buf" "length buf = PAGE_SIZE"
  shows "\<exists>buf'. write_cells i cs buf cursor = Inr (buf', cursor - sum_list (map length cs)) \<and>
    length buf' = PAGE_SIZE \<and> (\<forall>j < length cs. cell_at buf' (i + j) (cs ! j)) \<and>
    (\<forall>a s. bytes_at buf a s \<longrightarrow> a + length s \<le> HEADER_SIZE + i * SLOT_SIZE \<or> cursor \<le> a \<longrightarrow>
       bytes_at buf' a s)"
  using assms
proof (induction cs arbitrary: i buf cursor)
  case Nil
  then show ?case by simp
next
  case (Cons c cs)
  define q where "q = cursor - length c"
  have q: "length c \<le> cursor" "q + length c = cursor" "q < 65536"
    "HEADER_SIZE + (Suc i + length cs) * SLOT_SIZE + sum_list (map length cs) \<le> q"
    using Cons.prems by (simp_all add: q_def page_consts)
  obtain b1 where b1: "put_slice buf q c = Inr b1"
    using put_slice_ok [of q c buf] q(2) Cons.prems(2) by auto
  obtain b2 where b2: "put_slice b1 (HEADER_SIZE + i * SLOT_SIZE) (u16_le (of_nat q)) = Inr b2"
    using put_slice_ok [of "HEADER_SIZE + i * SLOT_SIZE" "u16_le (of_nat q)" b1] q(4)
      put_slice_length [OF b1] Cons.prems(2) q(2) by (auto simp: page_consts)
  have len: "length b2 = PAGE_SIZE"
    using put_slice_length [OF b1] put_slice_length [OF b2] Cons.prems(3) by simp
  obtain b3 where b3: "write_cells (Suc i) cs b2 q = Inr (b3, q - sum_list (map length cs))"
    "length b3 = PAGE_SIZE" "\<forall>j < length cs. cell_at b3 (Suc i + j) (cs ! j)"
    "\<And>a s. bytes_at b2 a s \<Longrightarrow> a + length s \<le> HEADER_SIZE + Suc i * SLOT_SIZE \<or> q \<le> a \<Longrightarrow>
       bytes_at b3 a s"
    using Cons.IH [of "Suc i" q b2] q len Cons.prems(2,3) by auto
  have "bytes_at b3 (HEADER_SIZE + i * SLOT_SIZE) (u16_le (of_nat q))"
    by (rule b3(4) [OF put_slice_bytes_at [OF b2]]) (simp add: page_consts)
  moreover have "bytes_at b3 q c"
    using put_slice_keeps [OF b2 put_slice_bytes_at [OF b1]] q(4)
    by (intro b3(4)) (auto simp: page_consts)
  ultimately have "cell_at b3 i c"
    using q(3,4) by (auto simp: cell_at_def)
  then have cells: "cell_at b3 (i + j) ((c # cs) ! j)" if "j < length (c # cs)" for j
    using b3(3) that by (cases j) auto
  have keep: "bytes_at b3 a s"
    if "bytes_at buf a s" "a + length s \<le> HEADER_SIZE + i * SLOT_SIZE \<or> cursor \<le> a" for a s
  proof -
    have "bytes_at b1 a s"
      using that q(2,4) by (intro put_slice_keeps [OF b1]) (auto simp: page_consts)
    then have "bytes_at b2 a s"
      using that q(2,4) by (intro put_slice_keeps [OF b2]) (auto simp: page_consts)
    then show ?thesis
      using that q(2) by (intro b3(4)) (auto simp: page_consts)
  qed
  have "write_cells i (c # cs) buf cursor = Inr (b3, cursor - sum_list (map length (c # cs)))"
    using b1 b2 b3(1) q(1) by (simp add: q_def)
  then show ?case
    using b3(2) cells keep by blast
qed

section \<open>Built pages read back\<close>

text \<open>
  What a reader sees of a page: its kind, its entries in order and, for a leaf, the link to the
  next leaf. The B+tree lemmas use pages through these two predicates only.
\<close>

definition leaf_page :: "bytes \<Rightarrow> (bytes \<times> bytes) list \<Rightarrow> u32 \<Rightarrow> bool" where
  "leaf_page p es r \<longleftrightarrow> length p = PAGE_SIZE \<and> page_type p = PAGE_LEAF \<and>
     cell_count p = Inr (length es) \<and> right_link p = Inr r \<and>
     (\<forall>i < length es. leaf_key p i = Inr (fst (es ! i)) \<and> leaf_value p i = Inr (snd (es ! i)))"

definition internal_page :: "bytes \<Rightarrow> (bytes \<times> u32) list \<Rightarrow> bool" where
  "internal_page p es \<longleftrightarrow> length p = PAGE_SIZE \<and> page_type p = PAGE_INTERNAL \<and>
     cell_count p = Inr (length es) \<and>
     (\<forall>i < length es. internal_key p i = Inr (fst (es ! i)) \<and> internal_child p i = Inr (snd (es ! i)))"

lemma leaf_page_entries:
  assumes "leaf_page p es r"
  shows "leaf_entries p = Inr es"
proof -
  have "leaf_entries p = rmap (\<lambda>i. rbind (leaf_key p i) (\<lambda>k. rbind (leaf_value p i) (\<lambda>v. Inr (k, v))))
      [0..<length es]"
    using assms by (simp add: leaf_entries_def leaf_page_def)
  also have "\<dots> = Inr (map (\<lambda>i. es ! i) [0..<length es])"
    using assms by (intro rmap_Inr) (simp add: leaf_page_def)
  finally show ?thesis by (simp add: map_nth)
qed

lemma internal_page_entries:
  assumes "internal_page p es"
  shows "internal_entries p = Inr es"
proof -
  have "internal_entries p =
      rmap (\<lambda>i. rbind (internal_key p i) (\<lambda>k. rbind (internal_child p i) (\<lambda>c. Inr (k, c)))) [0..<length es]"
    using assms by (simp add: internal_entries_def internal_page_def)
  also have "\<dots> = Inr (map (\<lambda>i. es ! i) [0..<length es])"
    using assms by (intro rmap_Inr) (simp add: internal_page_def)
  finally show ?thesis by (simp add: map_nth)
qed

lemma leaf_cell_read:
  assumes "cell_at p j (leaf_cell e)" "length (fst e) < 65536" "length (snd e) < 4294967296"
  shows "leaf_key p j = Inr (fst e)" "leaf_value p j = Inr (snd e)"
proof -
  obtain q where q: "slot p j = Inr q" "bytes_at p q (leaf_cell e)"
    using assms(1) by (rule slot_cell_at)
  then have at: "bytes_at p q (u16_le (of_nat (length (fst e))))"
    "bytes_at p (q + 2) (u32_le (of_nat (length (snd e))))"
    "bytes_at p (q + 6) (fst e)" "bytes_at p (q + 6 + length (fst e)) (snd e)"
    by (simp_all add: leaf_cell_def bytes_at_append ac_simps)
  show "leaf_key p j = Inr (fst e)"
    using at assms(2) by (simp add: leaf_key_def q get_u16_at unat_of_nat_u16 slice_bytes_at page_consts)
  show "leaf_value p j = Inr (snd e)"
    using at assms(2,3)
    by (simp add: leaf_value_def q get_u16_at get_u32_at unat_of_nat_u16 unat_of_nat_u32
        slice_bytes_at page_consts)
qed

lemma internal_cell_read:
  assumes "cell_at p j (internal_cell e)" "length (fst e) < 65536"
  shows "internal_key p j = Inr (fst e)" "internal_child p j = Inr (snd e)"
proof -
  obtain q where q: "slot p j = Inr q" "bytes_at p q (internal_cell e)"
    using assms(1) by (rule slot_cell_at)
  then have at: "bytes_at p q (u32_le (snd e))" "bytes_at p (q + 4) (u16_le (of_nat (length (fst e))))"
    "bytes_at p (q + 6) (fst e)"
    by (simp_all add: internal_cell_def bytes_at_append ac_simps)
  show "internal_key p j = Inr (fst e)"
    using at assms(2)
    by (simp add: internal_key_def q get_u16_at unat_of_nat_u16 slice_bytes_at page_consts)
  show "internal_child p j = Inr (snd e)"
    using at by (simp add: internal_child_def q get_u32_at)
qed

lemma new_page_spec:
  "\<exists>p. new_page ty = Inr p \<and> length p = PAGE_SIZE \<and> bytes_at p 0 [ty]"
proof -
  have len: "length (zero_page[0 := ty]) = PAGE_SIZE"
    by (simp add: zero_page_def)
  have "bytes_at (zero_page[0 := ty]) 0 [ty]"
    by (simp add: bytes_at_def zero_page_def PAGE_SIZE_def take_Suc_conv_app_nth)
  moreover obtain p where p: "put_slice (zero_page[0 := ty]) OFF_FREE_END (u16_le (of_nat PAGE_SIZE)) = Inr p"
    using put_slice_ok [of OFF_FREE_END "u16_le (of_nat PAGE_SIZE)" "zero_page[0 := ty]"] len
    by (auto simp: page_consts)
  ultimately have "bytes_at p 0 [ty]"
    by (intro put_slice_keeps [OF p]) (auto simp: page_consts)
  then show ?thesis
    using p put_slice_length [OF p] len by (simp add: new_page_def put_u16_def)
qed

lemma finish_page_spec:
  assumes "length b = PAGE_SIZE" "n < 65536"
  shows "\<exists>p. finish_page n (b, c) = Inr p \<and> length p = PAGE_SIZE \<and> cell_count p = Inr n \<and>
    (\<forall>a s. bytes_at b a s \<longrightarrow> a + length s \<le> 2 \<or> 6 \<le> a \<longrightarrow> bytes_at p a s)"
proof -
  obtain b1 where b1: "put_slice b OFF_CELL_COUNT (u16_le (of_nat n)) = Inr b1"
    using put_slice_ok [of OFF_CELL_COUNT "u16_le (of_nat n)" b] assms(1) by (auto simp: page_consts)
  obtain p where p: "put_slice b1 OFF_FREE_END (u16_le (of_nat c)) = Inr p"
    using put_slice_ok [of OFF_FREE_END "u16_le (of_nat c)" b1] assms(1) put_slice_length [OF b1]
    by (auto simp: page_consts)
  have "bytes_at p OFF_CELL_COUNT (u16_le (of_nat n))"
    by (rule put_slice_keeps [OF p put_slice_bytes_at [OF b1]]) (simp add: page_consts)
  then have "cell_count p = Inr n"
    using assms(2) by (simp add: cell_count_def get_u16_at unat_of_nat_u16)
  moreover have "bytes_at p a s" if "bytes_at b a s" "a + length s \<le> 2 \<or> 6 \<le> a" for a s
    using that by (intro put_slice_keeps [OF p] put_slice_keeps [OF b1]) (auto simp: page_consts)
  ultimately show ?thesis
    using b1 p put_slice_length [OF b1] put_slice_length [OF p] assms(1)
    by (simp add: finish_page_def put_u16_def)
qed

lemma cell_at_keep:
  assumes "cell_at b j c" "\<forall>a s. bytes_at b a s \<longrightarrow> a + length s \<le> 2 \<or> 6 \<le> a \<longrightarrow> bytes_at p a s"
  shows "cell_at p j c"
proof -
  from assms(1) obtain q where "q < 65536" "HEADER_SIZE \<le> q"
    "bytes_at b (HEADER_SIZE + j * SLOT_SIZE) (u16_le (of_nat q))" "bytes_at b q c"
    by (auto simp: cell_at_def)
  moreover from this assms(2) have "bytes_at p (HEADER_SIZE + j * SLOT_SIZE) (u16_le (of_nat q))"
    "bytes_at p q c"
    by (auto simp: page_consts)
  ultimately show ?thesis by (auto simp: cell_at_def)
qed

text \<open>The part both builders share, from the freshly initialised page on.\<close>

lemma build_cells_spec:
  assumes "length b = PAGE_SIZE" "length cs * SLOT_SIZE + sum_list (map length cs) \<le> USABLE"
  shows "\<exists>p. rbind (write_cells 0 cs b PAGE_SIZE) (finish_page (length cs)) = Inr p \<and>
    length p = PAGE_SIZE \<and> cell_count p = Inr (length cs) \<and> (\<forall>j < length cs. cell_at p j (cs ! j)) \<and>
    (\<forall>a s. bytes_at b a s \<longrightarrow> a + length s \<le> 2 \<or> 6 \<le> a \<and> a + length s \<le> HEADER_SIZE \<longrightarrow>
      bytes_at p a s)"
proof -
  obtain b1 c where b1: "write_cells 0 cs b PAGE_SIZE = Inr (b1, c)" "length b1 = PAGE_SIZE"
    "\<forall>j < length cs. cell_at b1 j (cs ! j)"
    "\<forall>a s. bytes_at b a s \<longrightarrow> a + length s \<le> HEADER_SIZE \<or> PAGE_SIZE \<le> a \<longrightarrow> bytes_at b1 a s"
    using write_cells_spec [of 0 cs PAGE_SIZE b] assms by (auto simp: page_consts)
  have "length cs < 65536"
    using assms(2) by (simp add: page_consts)
  then obtain p where p: "finish_page (length cs) (b1, c) = Inr p" "length p = PAGE_SIZE"
    "cell_count p = Inr (length cs)"
    "\<forall>a s. bytes_at b1 a s \<longrightarrow> a + length s \<le> 2 \<or> 6 \<le> a \<longrightarrow> bytes_at p a s"
    using finish_page_spec [OF b1(2)] by blast
  have "\<forall>j < length cs. cell_at p j (cs ! j)"
    using b1(3) cell_at_keep [OF _ p(4)] by blast
  moreover have "bytes_at p a s"
    if "bytes_at b a s" "a + length s \<le> 2 \<or> 6 \<le> a \<and> a + length s \<le> HEADER_SIZE" for a s
    using that b1(4) p(4) by (auto simp: page_consts)
  ultimately show ?thesis
    using b1(1) p by auto
qed

lemma sum_list_member_le: "x \<in> set xs \<Longrightarrow> f x \<le> sum_list (map f xs)" for f :: "'a \<Rightarrow> nat"
  by (induction xs) auto

lemma leaf_body:
  "sum_list (map (\<lambda>(k, v). SLOT_SIZE + LEAF_CELL_OVERHEAD + length k + length v) es) =
   length es * SLOT_SIZE + sum_list (map length (map leaf_cell es))"
  by (induction es) (auto simp: length_leaf_cell)

lemma internal_body:
  "sum_list (map (\<lambda>(k, _). SLOT_SIZE + INTERNAL_CELL_HEADER + length k) es) =
   length es * SLOT_SIZE + sum_list (map length (map internal_cell es))"
  by (induction es) (auto simp: length_internal_cell)

lemma sum_leaf_footprint:
  "sum_list (map (\<lambda>(k, v). leaf_footprint k v) es) =
   sum_list (map (\<lambda>(k, v). SLOT_SIZE + LEAF_CELL_OVERHEAD + length k + length v) es)"
  by (simp add: leaf_footprint_def)

lemma build_leaf_ok:
  assumes "sum_list (map (\<lambda>(k, v). leaf_footprint k v) es) \<le> USABLE"
  shows "\<exists>p. build_leaf es r = Inr p \<and> leaf_page p es r"
proof -
  let ?cs = "map leaf_cell es"
  obtain b0 where b0: "new_page PAGE_LEAF = Inr b0" "length b0 = PAGE_SIZE" "bytes_at b0 0 [PAGE_LEAF]"
    using new_page_spec by blast
  obtain b where b: "put_slice b0 OFF_RIGHT_LINK (u32_le r) = Inr b"
    using put_slice_ok [of OFF_RIGHT_LINK "u32_le r" b0] b0(2) by (auto simp: page_consts)
  have b': "length b = PAGE_SIZE" "bytes_at b 0 [PAGE_LEAF]" "bytes_at b OFF_RIGHT_LINK (u32_le r)"
    using put_slice_length [OF b] b0(2) put_slice_keeps [OF b b0(3)] put_slice_bytes_at [OF b]
    by (auto simp: page_consts)
  have body: "length ?cs * SLOT_SIZE + sum_list (map length ?cs) \<le> USABLE"
    using assms by (simp add: sum_leaf_footprint leaf_body)
  obtain p where p: "rbind (write_cells 0 ?cs b PAGE_SIZE) (finish_page (length es)) = Inr p"
    "length p = PAGE_SIZE" "cell_count p = Inr (length es)" "\<forall>j < length es. cell_at p j (?cs ! j)"
    "\<forall>a s. bytes_at b a s \<longrightarrow> a + length s \<le> 2 \<or> 6 \<le> a \<and> a + length s \<le> HEADER_SIZE \<longrightarrow> bytes_at p a s"
    using build_cells_spec [OF b'(1) body] by auto
  have "bytes_at p 0 [PAGE_LEAF]" "bytes_at p OFF_RIGHT_LINK (u32_le r)"
    using p(5) b'(2,3) by (auto simp: page_consts)
  then have hdr: "page_type p = PAGE_LEAF" "right_link p = Inr r"
    by (simp_all add: page_type_at right_link_def get_u32_at)
  have "leaf_key p j = Inr (fst (es ! j)) \<and> leaf_value p j = Inr (snd (es ! j))" if "j < length es" for j
  proof -
    have "length (leaf_cell (es ! j)) \<le> sum_list (map length ?cs)"
      using that sum_list_member_le [of "leaf_cell (es ! j)" ?cs length] by auto
    then have "length (fst (es ! j)) < 65536" "length (snd (es ! j)) < 4294967296"
      using body by (auto simp: length_leaf_cell page_consts)
    then show ?thesis
      using leaf_cell_read [of p j "es ! j"] p(4) that by simp
  qed
  then have "leaf_page p es r"
    using p(2,3) hdr by (simp add: leaf_page_def)
  moreover have "build_leaf es r = Inr p"
    using assms b0(1) b p(1)
    by (simp add: build_leaf_def Let_def sum_leaf_footprint new_leaf_def set_right_link_def put_u32_def
        build_leaf_loop_cells)
  ultimately show ?thesis by blast
qed

lemma build_leaf_too_big:
  "USABLE < sum_list (map (\<lambda>(k, v). leaf_footprint k v) es) \<Longrightarrow> build_leaf es r = Inl (Fail Corruption)"
  by (simp add: build_leaf_def sum_leaf_footprint)

lemma sum_internal_footprint:
  "sum_list (map (\<lambda>(k, _). internal_footprint k) es) =
   sum_list (map (\<lambda>(k, _). SLOT_SIZE + INTERNAL_CELL_HEADER + length k) es)"
  by (simp add: internal_footprint_def)

lemma build_internal_ok:
  assumes "sum_list (map (\<lambda>(k, _). internal_footprint k) es) \<le> USABLE"
  shows "\<exists>p. build_internal es = Inr p \<and> internal_page p es"
proof -
  let ?cs = "map internal_cell es"
  obtain b where b: "new_page PAGE_INTERNAL = Inr b" "length b = PAGE_SIZE" "bytes_at b 0 [PAGE_INTERNAL]"
    using new_page_spec by blast
  have body: "length ?cs * SLOT_SIZE + sum_list (map length ?cs) \<le> USABLE"
    using assms by (simp add: sum_internal_footprint internal_body)
  obtain p where p: "rbind (write_cells 0 ?cs b PAGE_SIZE) (finish_page (length es)) = Inr p"
    "length p = PAGE_SIZE" "cell_count p = Inr (length es)" "\<forall>j < length es. cell_at p j (?cs ! j)"
    "\<forall>a s. bytes_at b a s \<longrightarrow> a + length s \<le> 2 \<or> 6 \<le> a \<and> a + length s \<le> HEADER_SIZE \<longrightarrow> bytes_at p a s"
    using build_cells_spec [OF b(2) body] by auto
  have "page_type p = PAGE_INTERNAL"
    using p(5) b(3) by (simp add: page_type_at)
  moreover have "internal_key p j = Inr (fst (es ! j)) \<and> internal_child p j = Inr (snd (es ! j))"
    if "j < length es" for j
  proof -
    have "length (internal_cell (es ! j)) \<le> sum_list (map length ?cs)"
      using that sum_list_member_le [of "internal_cell (es ! j)" ?cs length] by auto
    then have "length (fst (es ! j)) < 65536"
      using body by (auto simp: length_internal_cell page_consts)
    then show ?thesis
      using internal_cell_read [of p j "es ! j"] p(4) that by simp
  qed
  ultimately have "internal_page p es"
    using p(2,3) by (simp add: internal_page_def)
  moreover have "build_internal es = Inr p"
    using assms b(1) p(1)
    by (simp add: build_internal_def Let_def sum_internal_footprint new_internal_def
        build_internal_loop_cells)
  ultimately show ?thesis by blast
qed

section \<open>The searches on a well-formed page\<close>

lemma find_leaf_slot_loop_eq:
  assumes "leaf_page p es r" "hi \<le> length es"
  shows "find_leaf_slot_loop p key lo hi = Inr (binary_search_loop (map fst es) key lo hi)"
  using assms(2)
proof (induction "map fst es" key lo hi rule: binary_search_loop.induct)
  case (1 key lo hi)
  let ?mid = "(lo + hi) div 2"
  show ?case
  proof (cases "lo < hi")
    case False
    then show ?thesis
      by (subst find_leaf_slot_loop.simps, subst binary_search_loop.simps) simp
  next
    case True
    then have mid: "?mid < length es" "leaf_key p ?mid = Inr (map fst es ! ?mid)"
      using assms(1) "1.prems" by (auto simp: leaf_page_def)
    show ?thesis
      using 1 True mid
      by (subst find_leaf_slot_loop.simps, subst binary_search_loop.simps) (simp add: Let_def)
  qed
qed

lemma find_leaf_slot_eq:
  assumes "leaf_page p es r"
  shows "find_leaf_slot p key = Inr (binary_search (map fst es) key)"
  using assms find_leaf_slot_loop_eq [OF assms order_refl]
  by (simp add: find_leaf_slot_def binary_search_def leaf_page_def)

text \<open>
  \<open>child_spec ks key i\<close>: cell \<open>i\<close> is the one to follow. The separator of cell 0 plays no part:
  cell 0 also receives every key below the first separator.
\<close>

definition child_spec :: "bytes list \<Rightarrow> bytes \<Rightarrow> nat \<Rightarrow> bool" where
  "child_spec ks key i \<longleftrightarrow> i < length ks \<and> (0 < i \<longrightarrow> ks ! i \<le> key) \<and>
     (\<forall>j < length ks. i < j \<longrightarrow> key < ks ! j)"

lemma find_child_loop_spec:
  assumes "internal_page p es" "sorted_wrt (<) (tl (map fst es))" "hi \<le> length es" "lo \<le> hi"
    and "lo \<le> 1 \<or> fst (es ! (lo - 1)) \<le> key"
    and "\<forall>j < length es. hi \<le> j \<longrightarrow> 0 < j \<longrightarrow> key < fst (es ! j)"
  shows "\<exists>l. find_child_loop p key lo hi = Inr l \<and> l \<le> length es \<and> (l \<le> 1 \<or> fst (es ! (l - 1)) \<le> key) \<and>
    (\<forall>j < length es. l \<le> j \<longrightarrow> 0 < j \<longrightarrow> key < fst (es ! j))"
  using assms
proof (induction p key lo hi rule: find_child_loop.induct)
  case (1 p key lo hi)
  let ?mid = "(lo + hi) div 2"
  show ?case
  proof (cases "lo < hi")
    case False
    then have "find_child_loop p key lo hi = Inr lo"
      by (subst find_child_loop.simps) simp
    with False "1.prems" show ?thesis by auto
  next
    case True
    then have mid: "?mid < length es" "internal_key p ?mid = Inr (fst (es ! ?mid))"
      using "1.prems"(1,3) by (auto simp: internal_page_def)
    show ?thesis
    proof (cases "fst (es ! ?mid) \<le> key")
      case le: True
      have "find_child_loop p key lo hi = find_child_loop p key (?mid + 1) hi"
        using True mid(2) le by (subst find_child_loop.simps) (simp add: Let_def)
      then show ?thesis
        using "1.IH"(1) [OF True refl mid(2) le "1.prems"(1,2,3)] True le "1.prems"(6) by simp
    next
      case gt: False
      have later: "key < fst (es ! j)" if j: "j < length es" "?mid \<le> j" "0 < j" for j
      proof (cases "?mid = 0 \<or> j = ?mid")
        case True
        with gt "1.prems"(6) j \<open>lo < hi\<close> show ?thesis
          by (cases "j = ?mid") auto
      next
        case False
        then have "tl (map fst es) ! (?mid - 1) < tl (map fst es) ! (j - 1)"
          using j mid(1) by (intro sorted_wrt_less_nth [OF "1.prems"(2)]) auto
        then have "fst (es ! ?mid) < fst (es ! j)"
          using False j mid(1) by (simp add: nth_tl)
        with gt show ?thesis by simp
      qed
      have "find_child_loop p key lo hi = find_child_loop p key lo ?mid"
        using True mid(2) gt by (subst find_child_loop.simps) (simp add: Let_def)
      then show ?thesis
        using "1.IH"(2) [OF True refl mid(2) gt "1.prems"(1,2)] True "1.prems"(5) later mid(1) by simp
    qed
  qed
qed

lemma find_child_spec:
  assumes "internal_page p es" "es \<noteq> []" "sorted_wrt (<) (tl (map fst es))"
  shows "\<exists>i. find_child p key = Inr i \<and> child_spec (map fst es) key i"
proof -
  obtain l where l: "find_child_loop p key 0 (length es) = Inr l" "l \<le> length es"
    "l \<le> 1 \<or> fst (es ! (l - 1)) \<le> key" "\<forall>j < length es. l \<le> j \<longrightarrow> 0 < j \<longrightarrow> key < fst (es ! j)"
    using find_child_loop_spec [OF assms(1,3), of "length es" 0 key] by auto
  then have "child_spec (map fst es) key (l - 1)"
    using assms(2) by (cases es) (auto simp: child_spec_def)
  moreover have "find_child p key = Inr (l - 1)"
    using assms(1) l(1) by (simp add: find_child_def internal_page_def)
  ultimately show ?thesis by blast
qed

lemma child_spec_unique: "child_spec ks key i \<Longrightarrow> child_spec ks key j \<Longrightarrow> i = j"
  unfolding child_spec_def by (metis linorder_neqE_nat linorder_not_less zero_less_iff_neq_zero)

section \<open>Properties\<close>

text \<open>Building a leaf page either reports that the entries exceed the page, exactly when their
  footprints exceed the usable bytes, or produces a page that reads back those entries and that right
  link; building an interior page likewise. Neither builder ever panics.\<close>

theorem page_build_round_trip:
  "(if sum_list (map (\<lambda>(k, v). leaf_footprint k v) es) \<le> USABLE
    then \<exists>p. build_leaf es r = Inr p \<and> length p = PAGE_SIZE \<and> is_leaf p \<and> leaf_entries p = Inr es \<and> right_link p = Inr r
    else build_leaf es r = Inl (Fail Corruption))
   \<and> (if sum_list (map (\<lambda>(k, _). internal_footprint k) cs) \<le> USABLE
    then \<exists>p. build_internal cs = Inr p \<and> length p = PAGE_SIZE \<and> is_internal p \<and> internal_entries p = Inr cs
    else build_internal cs = Inl (Fail Corruption))"
proof (intro conjI)
  show "if sum_list (map (\<lambda>(k, v). leaf_footprint k v) es) \<le> USABLE
    then \<exists>p. build_leaf es r = Inr p \<and> length p = PAGE_SIZE \<and> is_leaf p \<and> leaf_entries p = Inr es \<and> right_link p = Inr r
    else build_leaf es r = Inl (Fail Corruption)"
  proof (cases "sum_list (map (\<lambda>(k, v). leaf_footprint k v) es) \<le> USABLE")
    case True
    then obtain p where "build_leaf es r = Inr p" "leaf_page p es r" using build_leaf_ok by blast
    moreover from this(2) have "leaf_entries p = Inr es" by (rule leaf_page_entries)
    ultimately show ?thesis using True by (simp add: is_leaf_def leaf_page_def)
  qed (simp add: build_leaf_too_big)
  show "if sum_list (map (\<lambda>(k, _). internal_footprint k) cs) \<le> USABLE
    then \<exists>p. build_internal cs = Inr p \<and> length p = PAGE_SIZE \<and> is_internal p \<and> internal_entries p = Inr cs
    else build_internal cs = Inl (Fail Corruption)"
  proof (cases "sum_list (map (\<lambda>(k, _). internal_footprint k) cs) \<le> USABLE")
    case True
    then obtain p where "build_internal cs = Inr p" "internal_page p cs" using build_internal_ok by blast
    moreover from this(2) have "internal_entries p = Inr cs" by (rule internal_page_entries)
    ultimately show ?thesis using True by (simp add: is_internal_def internal_page_def)
  qed (simp add: build_internal_def sum_internal_footprint)
qed

text \<open>On a page built from ascending entries, the leaf search finds the key's cell or the place it
  belongs, and the interior search picks the one child whose separator range holds the key, with
  every key below the first separator going to cell 0.\<close>

theorem page_search:
  assumes "build_leaf es r = Inr p" "sorted_wrt (<) (map fst es)"
    and "build_internal cs = Inr q" "cs \<noteq> []" "sorted_wrt (<) (map fst cs)"
  shows "(\<exists>out. find_leaf_slot p key = Inr out \<and> search_spec (map fst es) key out)
    \<and> (\<exists>i. find_child q key = Inr i \<and> child_spec (map fst cs) key i)"
proof
  have "leaf_page p es r"
    using assms(1) build_leaf_ok [of es r] build_leaf_too_big [of es r] by (metis leI Inl_Inr_False sum.inject(2))
  then show "\<exists>out. find_leaf_slot p key = Inr out \<and> search_spec (map fst es) key out"
    using find_leaf_slot_eq binary_search_spec [OF assms(2)] by blast
  have "internal_page q cs"
    using assms(3) build_internal_ok [of cs] by (auto simp: build_internal_def sum_internal_footprint split: if_splits)
  then show "\<exists>i. find_child q key = Inr i \<and> child_spec (map fst cs) key i"
    using assms(4,5) find_child_spec [of q cs key] by (cases cs) auto
qed

theorem page_search_witness:
  "\<exists>p q. build_leaf [([1], [7]), ([3], [9])] 0 = Inr p \<and> build_internal [([], 5), ([4], 6)] = Inr q
     \<and> (\<exists>out. find_leaf_slot p [3] = Inr out \<and> search_spec [[1], [3]] [3 :: byte] out)
     \<and> (\<exists>i. find_child q [3] = Inr i \<and> child_spec [[], [4]] [3] i)"
proof -
  obtain p where p: "build_leaf [([1], [7]), ([3], [9])] 0 = Inr p"
    using build_leaf_ok [of "[([1], [7]), ([3], [9])]" 0] by (auto simp: leaf_footprint_def page_consts)
  obtain q where q: "build_internal [([], 5), ([4], 6)] = Inr q"
    using build_internal_ok [of "[([], 5), ([4], 6)]"] by (auto simp: internal_footprint_def page_consts)
  show ?thesis
    using page_search [OF p _ q, of "[3]"] p q by auto
qed

end
