(* ===== verification/Wal_Log.thy ===== *)
theory Wal_Log
  imports Page_Layout
begin

unbundle bit_operations_syntax

text \<open>
  The write-ahead log, \<^verbatim>\<open>storage/wal.rs\<close>. The files are their bytes; the operating system is a
  schedule of I/O outcomes: every write, read, truncation or sync consumes one entry, a failing write
  may leave a prefix of its bytes behind, and an exhausted schedule means that the call succeeds. A
  crash is a failure after which no further code runs, so the state an operation leaves behind under
  every schedule is the state of every crash point, torn writes included. Writes reach the file in
  the order they are issued.
\<close>

section \<open>Files\<close>

datatype io_outcome = IoOk | IoErr nat

record disk =
  log_file :: bytes
  db_file :: bytes
  faults :: "io_outcome list"

definition next_io :: "io_outcome list \<Rightarrow> io_outcome \<times> io_outcome list" where
  "next_io fs = (case fs of [] \<Rightarrow> (IoOk, []) | f # r \<Rightarrow> (f, r))"

text \<open>Write at an offset; a gap past the end reads as zeros.\<close>

definition write_at :: "bytes \<Rightarrow> nat \<Rightarrow> bytes \<Rightarrow> bytes" where
  "write_at f off d = take off f @ replicate (off - length f) 0 @ d @ drop (off + length d) f"

text \<open>A call that can only succeed or fail: \<^verbatim>\<open>sync_all\<close>, \<^verbatim>\<open>read_exact\<close>, \<^verbatim>\<open>set_len\<close>.\<close>

definition io :: "('a disk_scheme, unit) op" where
  "io s = (case next_io (faults s) of
       (IoOk, r) \<Rightarrow> (Inr (), s\<lparr>faults := r\<rparr>)
     | (IoErr _, r) \<Rightarrow> (Inl (Fail Io), s\<lparr>faults := r\<rparr>))"

definition write_log :: "nat \<Rightarrow> bytes \<Rightarrow> ('a disk_scheme, unit) op" where
  "write_log off d s = (case next_io (faults s) of
       (IoOk, r) \<Rightarrow> (Inr (), s\<lparr>log_file := write_at (log_file s) off d, faults := r\<rparr>)
     | (IoErr k, r) \<Rightarrow>
         (Inl (Fail Io), s\<lparr>log_file := write_at (log_file s) off (take k d), faults := r\<rparr>))"

definition write_db :: "nat \<Rightarrow> bytes \<Rightarrow> ('a disk_scheme, unit) op" where
  "write_db off d s = (case next_io (faults s) of
       (IoOk, r) \<Rightarrow> (Inr (), s\<lparr>db_file := write_at (db_file s) off d, faults := r\<rparr>)
     | (IoErr k, r) \<Rightarrow>
         (Inl (Fail Io), s\<lparr>db_file := write_at (db_file s) off (take k d), faults := r\<rparr>))"

section \<open>CRC-32\<close>

definition crc_step :: "u32 \<Rightarrow> u32" where
  "crc_step crc = (let mask = - (crc AND 1) in drop_bit 1 crc XOR (0xEDB88320 AND mask))"

definition crc_byte :: "u32 \<Rightarrow> byte \<Rightarrow> u32" where
  "crc_byte crc b = (crc_step ^^ 8) (crc XOR ucast b)"

definition crc32 :: "bytes list \<Rightarrow> u32" where
  "crc32 parts = NOT (fold (\<lambda>part crc. fold (\<lambda>b c. crc_byte c b) part crc) parts 0xFFFFFFFF)"

section \<open>The log\<close>

record wal = disk +
  cursor :: nat
  records :: u32

definition REC_PAGE :: byte where "REC_PAGE = 1"
definition REC_COMMIT :: byte where "REC_COMMIT = 2"
definition PAGE_RECORD_LEN :: nat where "PAGE_RECORD_LEN = 1 + 4 + PAGE_SIZE + 4"
definition COMMIT_RECORD_LEN :: nat where "COMMIT_RECORD_LEN = 1 + 4 + 4"

lemmas wal_consts = REC_PAGE_def REC_COMMIT_def PAGE_RECORD_LEN_def COMMIT_RECORD_LEN_def PAGE_SIZE_def

definition page_record :: "u32 \<Rightarrow> bytes \<Rightarrow> bytes" where
  "page_record no img = REC_PAGE # u32_le no @ img @ u32_le (crc32 [u32_le no, img])"

definition append_page :: "u32 \<Rightarrow> bytes \<Rightarrow> ('a wal_scheme, nat) op" where
  "append_page no img s =
     sbind (write_log (cursor s) (page_record no img)) (\<lambda>_ s.
       (Inr (cursor s + 1 + 4),
        s\<lparr>cursor := cursor s + PAGE_RECORD_LEN, records := records s + 1\<rparr>)) s"

definition commit_record :: "u32 \<Rightarrow> bytes" where
  "commit_record n = REC_COMMIT # u32_le n @ u32_le (crc32 [u32_le n])"

definition seal :: "('a wal_scheme, unit) op" where
  "seal s =
     sbind (write_log (cursor s) (commit_record (records s))) (\<lambda>_.
     sbind io (\<lambda>_ s. (Inr (), s\<lparr>cursor := cursor s + COMMIT_RECORD_LEN\<rparr>))) s"

definition read_page_at :: "nat \<Rightarrow> ('a wal_scheme, bytes) op" where
  "read_page_at off =
     sbind io (\<lambda>_ s.
       if off + PAGE_SIZE \<le> length (log_file s) then (Inr (take PAGE_SIZE (drop off (log_file s))), s)
       else (Inl (Fail Io), s))"

function scan :: "u32 \<Rightarrow> bytes \<Rightarrow> bool" where
  "scan n bs = (case bs of [] \<Rightarrow> False
     | tag # r \<Rightarrow>
         if tag = REC_PAGE then
           if length r < PAGE_RECORD_LEN - 1 then False
           else
             let stored = u32_of_le (take 4 (drop (4 + PAGE_SIZE) r)) in
             if crc32 [take 4 r, take PAGE_SIZE (drop 4 r)] \<noteq> stored then False
             else scan (n + 1) (drop (PAGE_RECORD_LEN - 1) r)
         else if tag = REC_COMMIT then
           if length r < COMMIT_RECORD_LEN - 1 then False
           else
             let count = u32_of_le (take 4 r); stored = u32_of_le (take 4 (drop 4 r)) in
             crc32 [take 4 r] = stored \<and> count = n
         else False)"
  by pat_completeness auto
termination
  by (relation "measure (\<lambda>(n, bs). length bs)") auto

declare scan.simps [simp del]

function apply_loop :: "bytes \<Rightarrow> ('a wal_scheme, unit) op" where
  "apply_loop bs s = (case bs of [] \<Rightarrow> (Inr (), s)
     | tag # r \<Rightarrow>
         if tag \<noteq> REC_PAGE \<or> length r < PAGE_RECORD_LEN - 1 then (Inr (), s)
         else (case write_db (unat (u32_of_le (take 4 r)) * PAGE_SIZE) (take PAGE_SIZE (drop 4 r)) s of
             (Inl e, s') \<Rightarrow> (Inl e, s')
           | (Inr _, s') \<Rightarrow> apply_loop (drop (PAGE_RECORD_LEN - 1) r) s'))"
  by pat_completeness auto
termination
  by (relation "measure (\<lambda>(bs, s). length bs)") auto

declare apply_loop.simps [simp del]

definition apply_log :: "('a wal_scheme, unit) op" where
  "apply_log = sbind io (\<lambda>_. sbind (\<lambda>s. apply_loop (log_file s) s) (\<lambda>_. io))"

definition reset :: "('a wal_scheme, unit) op" where
  "reset =
     sbind io (\<lambda>_. sbind (\<lambda>s. (Inr (), s\<lparr>log_file := []\<rparr>)) (\<lambda>_.
     sbind io (\<lambda>_ s. (Inr (), s\<lparr>cursor := 0, records := 0\<rparr>))))"

definition recover :: "('a wal_scheme, bool) op" where
  "recover =
     sbind io (\<lambda>_ s. let committed = scan 0 (log_file s) in
       sbind (if committed then apply_log else sret ()) (\<lambda>_. sbind reset (\<lambda>_. sret committed)) s)"

definition discard :: "'a wal_scheme \<Rightarrow> 'a wal_scheme" where
  "discard s = s\<lparr>cursor := 0, records := 0\<rparr>"

section \<open>File contents\<close>

text \<open>Bytes past the end read as zero, which is what \<^verbatim>\<open>read_full_or_zero\<close> delivers.\<close>

definition byte_at :: "bytes \<Rightarrow> nat \<Rightarrow> byte" where
  "byte_at f i = (if i < length f then f ! i else 0)"

definition page_at :: "bytes \<Rightarrow> nat \<Rightarrow> bytes" where
  "page_at f no = map (byte_at f) [no * PAGE_SIZE ..< no * PAGE_SIZE + PAGE_SIZE]"

lemma length_page_at [simp]: "length (page_at f no) = PAGE_SIZE"
  by (simp add: page_at_def)

lemma length_write_at: "length (write_at f off d) = max (max (length f) off) (off + length d)"
  by (simp add: write_at_def)

lemma byte_at_write:
  "byte_at (write_at f off d) i = (if off \<le> i \<and> i < off + length d then d ! (i - off) else byte_at f i)"
  by (cases "off \<le> length f") (auto simp: byte_at_def write_at_def nth_append)

lemma page_at_eq_iff:
  "page_at f no = page_at g no \<longleftrightarrow> (\<forall>i. i div PAGE_SIZE = no \<longrightarrow> byte_at f i = byte_at g i)"
proof -
  have "i div PAGE_SIZE = no \<longleftrightarrow> no * PAGE_SIZE \<le> i \<and> i < no * PAGE_SIZE + PAGE_SIZE" for i
    by (auto simp: PAGE_SIZE_def)
  then show ?thesis
    by (auto simp: page_at_def list_eq_iff_nth_eq) (metis add.commute add_less_cancel_left le_add_diff_inverse)
qed

lemma page_at_write_same:
  "length img = PAGE_SIZE \<Longrightarrow> page_at (write_at f (no * PAGE_SIZE) img) no = img"
  by (rule nth_equalityI) (simp_all add: page_at_def byte_at_write)

lemma page_at_write_other:
  assumes "length d \<le> PAGE_SIZE" "m \<noteq> no"
  shows "page_at (write_at f (no * PAGE_SIZE) d) m = page_at f m"
proof -
  have "byte_at (write_at f (no * PAGE_SIZE) d) i = byte_at f i" if "i div PAGE_SIZE = m" for i
  proof -
    have "\<not> (no * PAGE_SIZE \<le> i \<and> i < no * PAGE_SIZE + length d)"
      using assms that by (auto simp: PAGE_SIZE_def)
    then show ?thesis by (auto simp: byte_at_write)
  qed
  then show ?thesis by (simp add: page_at_eq_iff)
qed

lemma page_at_write:
  "length img = PAGE_SIZE \<Longrightarrow>
   page_at (write_at f (no * PAGE_SIZE) img) m = (if m = no then img else page_at f m)"
  by (simp add: page_at_write_same page_at_write_other)

section \<open>Operations under a schedule\<close>

lemma io_cases:
  obtains r where "io s = (Inr (), s\<lparr>faults := r\<rparr>)" | r where "io s = (Inl (Fail Io), s\<lparr>faults := r\<rparr>)"
  unfolding io_def by (cases "next_io (faults s)"; cases "fst (next_io (faults s))") auto

lemma io_healthy [simp]: "faults s = [] \<Longrightarrow> io s = (Inr (), s)"
  by (simp add: io_def next_io_def)

lemma write_log_cases:
  obtains r where "write_log off d s = (Inr (), s\<lparr>log_file := write_at (log_file s) off d, faults := r\<rparr>)"
  | r k where "write_log off d s = (Inl (Fail Io), s\<lparr>log_file := write_at (log_file s) off (take k d), faults := r\<rparr>)"
  unfolding write_log_def by (cases "next_io (faults s)"; cases "fst (next_io (faults s))") auto

lemma write_log_healthy [simp]:
  "faults s = [] \<Longrightarrow> write_log off d s = (Inr (), s\<lparr>log_file := write_at (log_file s) off d\<rparr>)"
  by (simp add: write_log_def next_io_def)

lemma write_db_cases:
  obtains r where "write_db off d s = (Inr (), s\<lparr>db_file := write_at (db_file s) off d, faults := r\<rparr>)"
  | r k where "write_db off d s = (Inl (Fail Io), s\<lparr>db_file := write_at (db_file s) off (take k d), faults := r\<rparr>)"
  unfolding write_db_def by (cases "next_io (faults s)"; cases "fst (next_io (faults s))") auto

lemma write_db_healthy [simp]:
  "faults s = [] \<Longrightarrow> write_db off d s = (Inr (), s\<lparr>db_file := write_at (db_file s) off d\<rparr>)"
  by (simp add: write_db_def next_io_def)

section \<open>Scanning\<close>

type_synonym page_image = "u32 \<times> bytes"

definition recs :: "page_image list \<Rightarrow> bytes" where
  "recs rs = concat (map (\<lambda>(no, img). page_record no img) rs)"

definition whole_pages :: "page_image list \<Rightarrow> bool" where
  "whole_pages rs \<longleftrightarrow> list_all (\<lambda>(no, img). length img = PAGE_SIZE) rs"

text \<open>No record position holds a commit tag: what \<^verbatim>\<open>discard\<close> relies on.\<close>

definition unsealed :: "bytes \<Rightarrow> bool" where
  "unsealed f \<longleftrightarrow> (\<forall>k. k * PAGE_RECORD_LEN < length f \<longrightarrow> f ! (k * PAGE_RECORD_LEN) \<noteq> REC_COMMIT)"

lemma length_page_record: "length img = PAGE_SIZE \<Longrightarrow> length (page_record no img) = PAGE_RECORD_LEN"
  by (simp add: page_record_def wal_consts)

lemma length_commit_record [simp]: "length (commit_record n) = COMMIT_RECORD_LEN"
  by (simp add: commit_record_def wal_consts)

lemma length_recs: "whole_pages rs \<Longrightarrow> length (recs rs) = length rs * PAGE_RECORD_LEN"
  by (induction rs) (auto simp: recs_def whole_pages_def length_page_record)

lemma recs_simps [simp]:
  "recs [] = []" "recs ((no, img) # rs) = page_record no img @ recs rs" "recs (rs @ qs) = recs rs @ recs qs"
  by (simp_all add: recs_def)

lemma scan_page_record:
  assumes "length img = PAGE_SIZE"
  shows "scan n (page_record no img @ t) = scan (n + 1) t"
  using assms by (subst scan.simps) (simp add: page_record_def Let_def wal_consts)

lemma scan_recs: "whole_pages rs \<Longrightarrow> scan n (recs rs @ t) = scan (n + of_nat (length rs)) t"
  by (induction rs arbitrary: n) (auto simp: whole_pages_def scan_page_record ac_simps)

lemma scan_commit_record: "scan n (commit_record n @ t)"
  by (subst scan.simps) (simp add: commit_record_def Let_def wal_consts)

lemma scan_marker_exact:
  assumes "scan n (REC_COMMIT # r)"
  shows "take COMMIT_RECORD_LEN (REC_COMMIT # r) = commit_record n"
proof -
  from assms have len: "COMMIT_RECORD_LEN - 1 \<le> length r"
    and crc: "crc32 [take 4 r] = u32_of_le (take 4 (drop 4 r))" and n: "u32_of_le (take 4 r) = n"
    by (subst (asm) scan.simps; simp add: Let_def wal_consts split: if_splits)+
  have "take 4 r = u32_le n"
    using n len u32_le_of_le [of "take 4 r"] by (simp add: wal_consts)
  moreover from this have "take 4 (drop 4 r) = u32_le (crc32 [u32_le n])"
    using crc len u32_le_of_le [of "take 4 (drop 4 r)"] by (simp add: wal_consts)
  moreover have "take 8 r = take 4 r @ take 4 (drop 4 r)"
    using take_add [of 4 4 r] by simp
  ultimately show ?thesis
    by (simp add: commit_record_def COMMIT_RECORD_LEN_def)
qed

lemma unsealed_drop:
  assumes "unsealed f"
  shows "unsealed (drop PAGE_RECORD_LEN f)"
  unfolding unsealed_def
proof (intro allI impI)
  fix k
  assume "k * PAGE_RECORD_LEN < length (drop PAGE_RECORD_LEN f)"
  then have "Suc k * PAGE_RECORD_LEN < length f" by simp
  with assms have "f ! (Suc k * PAGE_RECORD_LEN) \<noteq> REC_COMMIT" unfolding unsealed_def by blast
  then show "drop PAGE_RECORD_LEN f ! (k * PAGE_RECORD_LEN) \<noteq> REC_COMMIT"
    using \<open>Suc k * PAGE_RECORD_LEN < length f\<close> by simp
qed

lemma unsealed_scan: "unsealed f \<Longrightarrow> \<not> scan n f"
proof (induction n f rule: scan.induct)
  case (1 n bs)
  show ?case
  proof (cases bs)
    case (Cons tag r)
    have "tag \<noteq> REC_COMMIT"
      using "1.prems" Cons by (auto simp: unsealed_def dest: spec [of _ 0])
    moreover have "unsealed (drop (PAGE_RECORD_LEN - 1) r)"
      using unsealed_drop [OF "1.prems"] Cons by (simp add: wal_consts)
    ultimately show ?thesis
      using "1.IH" Cons by (subst scan.simps) (auto simp: Let_def)
  qed (simp add: scan.simps)
qed

section \<open>Appending and sealing\<close>

text \<open>The log of an open transaction holds the images \<open>rs\<close>, with nothing sealed behind them.\<close>

definition log_inv :: "page_image list \<Rightarrow> 'a wal_scheme \<Rightarrow> bool" where
  "log_inv rs s \<longleftrightarrow> whole_pages rs \<and> cursor s = length rs * PAGE_RECORD_LEN \<and> records s = of_nat (length rs)
     \<and> (\<exists>t. log_file s = recs rs @ t) \<and> unsealed (log_file s)"

lemma log_inv_Nil: "cursor s = 0 \<Longrightarrow> records s = 0 \<Longrightarrow> unsealed (log_file s) \<Longrightarrow> log_inv [] s"
  by (simp add: log_inv_def whole_pages_def)

lemma write_at_end: "length f = off \<Longrightarrow> write_at (f @ t) off d = f @ d @ drop (length d) t"
  by (simp add: write_at_def)

lemma unsealed_write:
  assumes "unsealed f" "length d \<le> PAGE_RECORD_LEN" "n * PAGE_RECORD_LEN \<le> length f"
    and "d = [] \<or> hd d \<noteq> REC_COMMIT"
  shows "unsealed (write_at f (n * PAGE_RECORD_LEN) d)"
  unfolding unsealed_def
proof (intro allI impI)
  fix k
  let ?p = "k * PAGE_RECORD_LEN" and ?f = "write_at f (n * PAGE_RECORD_LEN) d"
  assume p: "?p < length ?f"
  show "?f ! ?p \<noteq> REC_COMMIT"
  proof (cases "k = n \<and> d \<noteq> []")
    case True
    then have "?f ! ?p = hd d"
      using assms(3) by (simp add: write_at_def nth_append hd_conv_nth)
    with True assms(4) show ?thesis by simp
  next
    case False
    have out: "\<not> (n * PAGE_RECORD_LEN \<le> ?p \<and> ?p < n * PAGE_RECORD_LEN + length d)"
      using False assms(2) by (cases k n rule: linorder_cases) (auto simp: wal_consts)
    then have "?p < length f"
      using p assms(3) by (simp only: length_write_at less_max_iff_disj) linarith
    moreover have "byte_at ?f ?p = byte_at f ?p"
      using out by (auto simp: byte_at_write)
    ultimately show ?thesis
      using assms(1) p by (auto simp: byte_at_def unsealed_def)
  qed
qed

lemma log_inv_length: "log_inv rs s \<Longrightarrow> length rs * PAGE_RECORD_LEN \<le> length (log_file s)"
  by (auto simp: log_inv_def length_recs)

lemma log_inv_unsealed_write:
  assumes "log_inv rs s" "length img = PAGE_SIZE"
  shows "unsealed (write_at (log_file s) (cursor s) (take k (page_record no img)))"
  using assms log_inv_length [OF assms(1)] length_page_record [OF assms(2), of no]
  by (auto simp: log_inv_def hd_take intro!: unsealed_write) (auto simp: page_record_def wal_consts hd_take)

lemma append_page_ok:
  assumes "log_inv rs s" "length img = PAGE_SIZE" "append_page no img s = (Inr off, s')"
  shows "log_inv (rs @ [(no, img)]) s'" "off = cursor s + 5" "db_file s' = db_file s"
proof -
  from assms(3) obtain r where s': "s' = s\<lparr>log_file := write_at (log_file s) (cursor s) (page_record no img),
      faults := r, cursor := cursor s + PAGE_RECORD_LEN, records := records s + 1\<rparr>" and off: "off = cursor s + 5"
    unfolding append_page_def sbind_def
    by (cases rule: write_log_cases [of "cursor s" "page_record no img" s]) auto
  from assms(1) obtain t where t: "log_file s = recs rs @ t" by (auto simp: log_inv_def)
  have "write_at (log_file s) (cursor s) (page_record no img)
      = recs (rs @ [(no, img)]) @ drop (length (page_record no img)) t"
    using assms(1) t by (simp add: log_inv_def length_recs write_at_end)
  moreover have "unsealed (write_at (log_file s) (cursor s) (page_record no img))"
    using log_inv_unsealed_write [OF assms(1,2), of "length (page_record no img)" no] by simp
  ultimately show "log_inv (rs @ [(no, img)]) s'"
    using assms(1,2) by (simp add: log_inv_def s' whole_pages_def)
  show "off = cursor s + 5" by (rule off)
  show "db_file s' = db_file s" by (simp add: s')
qed

lemma append_page_err:
  assumes "log_inv rs s" "length img = PAGE_SIZE" "append_page no img s = (Inl e, s')"
  shows "unsealed (log_file s')" "db_file s' = db_file s"
proof -
  from assms(3) obtain r k where s': "s' = s\<lparr>log_file := write_at (log_file s) (cursor s) (take k (page_record no img)),
      faults := r\<rparr>"
    unfolding append_page_def sbind_def
    by (cases rule: write_log_cases [of "cursor s" "page_record no img" s]) auto
  show "unsealed (log_file s')" "db_file s' = db_file s"
    using log_inv_unsealed_write [OF assms(1,2)] by (simp_all add: s')
qed

lemma append_page_healthy:
  "faults s = [] \<Longrightarrow> append_page no img s = (Inr (cursor s + 5),
     s\<lparr>log_file := write_at (log_file s) (cursor s) (page_record no img),
       cursor := cursor s + PAGE_RECORD_LEN, records := records s + 1\<rparr>)"
  by (simp add: append_page_def sbind_def)

text \<open>A log that ends in the marker for its records.\<close>

definition sealed_log :: "page_image list \<Rightarrow> bytes \<Rightarrow> bool" where
  "sealed_log rs f \<longleftrightarrow> whole_pages rs \<and> (\<exists>t. f = recs rs @ commit_record (of_nat (length rs)) @ t)"

lemma sealed_scan: "sealed_log rs f \<Longrightarrow> scan 0 f"
  by (auto simp: sealed_log_def scan_recs scan_commit_record)

text \<open>A torn marker scans as a commit only when all of its bytes happen to be in place.\<close>

lemma torn_marker:
  assumes "log_inv rs s" and f: "f = write_at (log_file s) (cursor s) (take k (commit_record (records s)))"
  shows "sealed_log rs f \<or> \<not> scan 0 f"
proof (cases "scan 0 f")
  case True
  from assms(1) obtain t where t: "log_file s = recs rs @ t" and wp: "whole_pages rs"
    and c: "cursor s = length rs * PAGE_RECORD_LEN" and n: "records s = of_nat (length rs)"
    by (auto simp: log_inv_def)
  define m where "m = take k (commit_record (records s)) @ drop (length (take k (commit_record (records s)))) t"
  have f': "f = recs rs @ m"
    using c wp by (simp add: f t m_def write_at_end length_recs)
  have sc: "scan (of_nat (length rs)) m"
    using True scan_recs [OF wp, of 0 m] by (simp add: f')
  have k: "0 < k"
  proof (rule ccontr)
    assume "\<not> 0 < k"
    then have "f = log_file s" by (simp add: f' m_def t)
    then show False using True unsealed_scan assms(1) by (auto simp: log_inv_def)
  qed
  then obtain r where r: "m = REC_COMMIT # r"
    by (cases k) (auto simp: m_def commit_record_def)
  have "take COMMIT_RECORD_LEN m = commit_record (of_nat (length rs))"
    using sc scan_marker_exact by (simp add: r)
  then have "m = commit_record (of_nat (length rs)) @ drop COMMIT_RECORD_LEN m"
    by (metis append_take_drop_id)
  then show ?thesis
    using wp f' unfolding sealed_log_def by metis
qed simp

lemma seal_ok:
  assumes "log_inv rs s" "seal s = (Inr (), s')"
  shows "sealed_log rs (log_file s')" "db_file s' = db_file s"
proof -
  from assms(2) obtain r where s': "s' = s\<lparr>log_file := write_at (log_file s) (cursor s) (commit_record (records s)),
      faults := r, cursor := cursor s + COMMIT_RECORD_LEN\<rparr>"
    unfolding seal_def sbind_def
    by (cases rule: write_log_cases [of "cursor s" "commit_record (records s)" s];
        cases rule: io_cases [of "snd (write_log (cursor s) (commit_record (records s)) s)"]) auto
  from assms(1) obtain t where "log_file s = recs rs @ t" by (auto simp: log_inv_def)
  then show "sealed_log rs (log_file s')"
    using assms(1) by (auto simp: s' log_inv_def sealed_log_def length_recs write_at_end)
  show "db_file s' = db_file s" by (simp add: s')
qed

lemma seal_err:
  assumes "log_inv rs s" "seal s = (Inl e, s')"
  shows "sealed_log rs (log_file s') \<or> \<not> scan 0 (log_file s')" "db_file s' = db_file s"
proof -
  from assms(2) obtain k r where s': "s' = s\<lparr>log_file := write_at (log_file s) (cursor s) (take k (commit_record (records s))),
      faults := r\<rparr>"
    unfolding seal_def sbind_def
    by (cases rule: write_log_cases [of "cursor s" "commit_record (records s)" s];
        cases rule: io_cases [of "snd (write_log (cursor s) (commit_record (records s)) s)"])
      (auto intro: that [where k = COMMIT_RECORD_LEN])
  show "sealed_log rs (log_file s') \<or> \<not> scan 0 (log_file s')"
    using torn_marker [OF assms(1)] by (simp add: s')
  show "db_file s' = db_file s" by (simp add: s')
qed

lemma seal_healthy:
  "faults s = [] \<Longrightarrow> seal s = (Inr (), s\<lparr>log_file := write_at (log_file s) (cursor s) (commit_record (records s)),
     cursor := cursor s + COMMIT_RECORD_LEN\<rparr>)"
  by (simp add: seal_def sbind_def)

section \<open>Replay\<close>

definition replay :: "page_image list \<Rightarrow> bytes \<Rightarrow> bytes" where
  "replay rs f = fold (\<lambda>(no, img) f. write_at f (unat no * PAGE_SIZE) img) rs f"

definition touches :: "page_image list \<Rightarrow> nat \<Rightarrow> bool" where
  "touches rs i \<longleftrightarrow> (\<exists>r \<in> set rs. unat (fst r) = i div PAGE_SIZE)"

lemma replay_simps [simp]:
  "replay [] f = f" "replay ((no, img) # rs) f = replay rs (write_at f (unat no * PAGE_SIZE) img)"
  by (simp_all add: replay_def)

lemma in_page_iff: "no * PAGE_SIZE \<le> i \<and> i < no * PAGE_SIZE + PAGE_SIZE \<longleftrightarrow> i div PAGE_SIZE = no"
  by (auto simp: PAGE_SIZE_def)

text \<open>Whatever a torn earlier replay left in the touched pages is overwritten.\<close>

lemma replay_absorbs:
  assumes "whole_pages rs" "\<forall>i. \<not> touches rs i \<longrightarrow> byte_at f i = byte_at g i"
  shows "byte_at (replay rs f) i = byte_at (replay rs g) i"
  using assms
proof (induction rs arbitrary: f g)
  case Nil
  then show ?case by (simp add: touches_def)
next
  case (Cons r rs)
  obtain no img where r: "r = (no, img)" by (cases r)
  have len: "length img = PAGE_SIZE" using Cons.prems(1) by (simp add: whole_pages_def r)
  have "byte_at (write_at f (unat no * PAGE_SIZE) img) j = byte_at (write_at g (unat no * PAGE_SIZE) img) j"
    if "\<not> touches rs j" for j
    using Cons.prems(2) that in_page_iff [of "unat no" j] by (auto simp: byte_at_write len touches_def r)
  then show ?case
    using Cons.IH Cons.prems(1) by (simp add: r whole_pages_def)
qed

lemma replay_absorbs_page:
  "whole_pages rs \<Longrightarrow> \<forall>i. \<not> touches rs i \<longrightarrow> byte_at f i = byte_at g i \<Longrightarrow>
   page_at (replay rs f) no = page_at (replay rs g) no"
  using replay_absorbs [of rs f g] by (simp add: page_at_eq_iff)

lemma replay_untouched:
  "whole_pages rs \<Longrightarrow> \<not> touches rs i \<Longrightarrow> byte_at (replay rs f) i = byte_at f i"
proof (induction rs arbitrary: f)
  case (Cons r rs)
  obtain no img where r: "r = (no, img)" by (cases r)
  have "byte_at (write_at f (unat no * PAGE_SIZE) img) i = byte_at f i"
    using Cons.prems in_page_iff [of "unat no" i] by (auto simp: byte_at_write touches_def r whole_pages_def)
  then show ?case
    using Cons by (simp add: r whole_pages_def touches_def)
qed simp

text \<open>A page reads back as its last image in the log, or as before.\<close>

lemma page_at_replay:
  "whole_pages rs \<Longrightarrow> page_at (replay rs f) (unat no) =
     (case map_of (rev rs) no of Some img \<Rightarrow> img | None \<Rightarrow> page_at f (unat no))"
  by (induction rs arbitrary: f)
    (auto simp: whole_pages_def map_add_def page_at_write word_unat_eq_iff split: option.splits)

lemma apply_loop_step:
  assumes "length img = PAGE_SIZE"
  shows "apply_loop (page_record no img @ t) s =
    (case write_db (unat no * PAGE_SIZE) img s of (Inl e, s') \<Rightarrow> (Inl e, s') | (Inr _, s') \<Rightarrow> apply_loop t s')"
proof -
  have "drop (PAGE_RECORD_LEN - 1) (u32_le no @ img @ u32_le (crc32 [u32_le no, img]) @ t) = t"
    using assms by (simp add: wal_consts)
  with assms show ?thesis
    by (subst apply_loop.simps)
      (auto simp: page_record_def PAGE_RECORD_LEN_def REC_PAGE_def split: prod.splits sum.splits)
qed

lemma apply_loop_stop: "apply_loop (commit_record n @ t) s = (Inr (), s)"
  by (subst apply_loop.simps) (simp add: commit_record_def wal_consts)

lemma apply_loop_healthy:
  "whole_pages rs \<Longrightarrow> faults s = [] \<Longrightarrow>
   apply_loop (recs rs @ commit_record n @ t) s = (Inr (), s\<lparr>db_file := replay rs (db_file s)\<rparr>)"
  by (induction rs arbitrary: s) (auto simp: apply_loop_stop apply_loop_step whole_pages_def)

lemma apply_loop_frame:
  assumes "whole_pages rs" "apply_loop (recs rs @ commit_record n @ t) s = (r, s')"
  shows "log_file s' = log_file s \<and> (\<forall>i. \<not> touches rs i \<longrightarrow> byte_at (db_file s') i = byte_at (db_file s) i)"
  using assms
proof (induction rs arbitrary: s)
  case Nil
  then show ?case by (simp add: apply_loop_stop)
next
  case (Cons q rs)
  obtain no img where q: "q = (no, img)" by (cases q)
  have len: "length img = PAGE_SIZE" using Cons.prems(1) by (simp add: whole_pages_def q)
  have out: "byte_at (write_at f (unat no * PAGE_SIZE) (take k img)) i = byte_at f i"
    if "\<not> touches (q # rs) i" for f k i
    using that in_page_iff [of "unat no" i] by (auto simp: byte_at_write len touches_def q)
  have out': "byte_at (write_at f (unat no * PAGE_SIZE) img) i = byte_at f i" if "\<not> touches (q # rs) i" for f i
    using out [OF that, of f PAGE_SIZE] len by simp
  have sub: "\<not> touches (q # rs) i \<Longrightarrow> \<not> touches rs i" for i by (simp add: touches_def)
  have run: "apply_loop (recs (q # rs) @ commit_record n @ t) s =
     (case write_db (unat no * PAGE_SIZE) img s of (Inl e, s') \<Rightarrow> (Inl e, s')
      | (Inr _, s') \<Rightarrow> apply_loop (recs rs @ commit_record n @ t) s')"
    by (simp add: q apply_loop_step [OF len])
  show ?case
  proof (cases rule: write_db_cases [of "unat no * PAGE_SIZE" img s])
    case (1 f)
    then have "apply_loop (recs rs @ commit_record n @ t)
        (s\<lparr>db_file := write_at (db_file s) (unat no * PAGE_SIZE) img, faults := f\<rparr>) = (r, s')"
      using Cons.prems(2) run by simp
    from Cons.IH [OF _ this] Cons.prems(1) show ?thesis
      using out' sub by (simp add: whole_pages_def)
  next
    case (2 f k)
    then show ?thesis
      using Cons.prems(2) run out by auto
  qed
qed

lemma apply_loop_success:
  "whole_pages rs \<Longrightarrow> apply_loop (recs rs @ commit_record n @ t) s = (Inr u, s') \<Longrightarrow>
   db_file s' = replay rs (db_file s)"
proof (induction rs arbitrary: s)
  case Nil
  then show ?case by (simp add: apply_loop_stop)
next
  case (Cons q rs)
  obtain no img where q: "q = (no, img)" by (cases q)
  have "length img = PAGE_SIZE" using Cons.prems(1) by (simp add: whole_pages_def q)
  then show ?case
    using Cons.prems Cons.IH
    by (cases rule: write_db_cases [of "unat no * PAGE_SIZE" img s])
      (fastforce simp: q apply_loop_step whole_pages_def)+
qed

lemma reset_healthy:
  "faults s = [] \<Longrightarrow> reset s = (Inr (), s\<lparr>log_file := [], cursor := 0, records := 0\<rparr>)"
  by (simp add: reset_def sbind_def)

lemma apply_log_healthy:
  "sealed_log rs (log_file s) \<Longrightarrow> faults s = [] \<Longrightarrow>
   apply_log s = (Inr (), s\<lparr>db_file := replay rs (db_file s)\<rparr>)"
  by (auto simp: apply_log_def sbind_def sealed_log_def apply_loop_healthy)

lemma recover_sealed:
  "sealed_log rs (log_file s) \<Longrightarrow> faults s = [] \<Longrightarrow>
   recover s = (Inr True, s\<lparr>db_file := replay rs (db_file s), log_file := [], cursor := 0, records := 0\<rparr>)"
  by (simp add: recover_def sbind_def sealed_scan apply_log_healthy reset_healthy)

lemma recover_unsealed:
  "\<not> scan 0 (log_file s) \<Longrightarrow> faults s = [] \<Longrightarrow>
   recover s = (Inr False, s\<lparr>log_file := [], cursor := 0, records := 0\<rparr>)"
  by (simp add: recover_def sbind_def reset_healthy)

lemma apply_log_frame:
  assumes "sealed_log rs (log_file s)" "apply_log s = (r, s')"
  shows "log_file s' = log_file s \<and> (\<forall>i. \<not> touches rs i \<longrightarrow> byte_at (db_file s') i = byte_at (db_file s) i)"
proof (cases rule: io_cases [of s])
  case (1 f)
  obtain q s1 where a: "apply_loop (log_file s) (s\<lparr>faults := f\<rparr>) = (q, s1)" by fastforce
  from assms(1) obtain t where t: "log_file s = recs rs @ commit_record (of_nat (length rs)) @ t" "whole_pages rs"
    by (auto simp: sealed_log_def)
  have fr: "log_file s1 = log_file s" "\<forall>i. \<not> touches rs i \<longrightarrow> byte_at (db_file s1) i = byte_at (db_file s) i"
    using apply_loop_frame [OF t(2) a [unfolded t(1)]] by simp_all
  have "s' = s1 \<or> (\<exists>g. s' = s1\<lparr>faults := g\<rparr>)"
    using assms(2) 1 a unfolding apply_log_def sbind_def
    by (cases q; cases rule: io_cases [of s1]) auto
  with fr show ?thesis by auto
next
  case (2 f)
  then show ?thesis using assms(2) by (auto simp: apply_log_def sbind_def)
qed

lemma apply_log_success:
  assumes "sealed_log rs (log_file s)" "apply_log s = (Inr u, s')"
  shows "db_file s' = replay rs (db_file s)"
proof (cases rule: io_cases [of s])
  case (1 f)
  obtain q s1 where a: "apply_loop (log_file s) (s\<lparr>faults := f\<rparr>) = (q, s1)" by fastforce
  from assms(1) obtain t where t: "log_file s = recs rs @ commit_record (of_nat (length rs)) @ t" "whole_pages rs"
    by (auto simp: sealed_log_def)
  have "\<exists>v. q = Inr v" "db_file s' = db_file s1"
    using assms(2) 1 a unfolding apply_log_def sbind_def
    by (cases q; cases rule: io_cases [of s1]; auto)+
  with apply_loop_success [OF t(2), of _ _ "s\<lparr>faults := f\<rparr>"] a t(1) show ?thesis by auto
next
  case (2 f)
  then show ?thesis using assms(2) by (auto simp: apply_log_def sbind_def)
qed

lemma reset_any:
  assumes "reset s = (r, s')"
  shows "db_file s' = db_file s \<and> (log_file s' = log_file s \<or> log_file s' = [])"
  using assms unfolding reset_def sbind_def
  by (cases rule: io_cases [of s]; cases rule: io_cases [of "(snd (io s))\<lparr>log_file := []\<rparr>"]) auto

lemma not_scan_Nil: "\<not> scan n []"
  by (simp add: scan.simps)

section \<open>Transactions through the log\<close>

primrec append_pages :: "page_image list \<Rightarrow> ('a wal_scheme, unit) op" where
  "append_pages [] = sret ()"
| "append_pages (r # rs) = sbind (append_page (fst r) (snd r)) (\<lambda>_. append_pages rs)"

lemma append_pages_ok:
  assumes "log_inv qs s" "whole_pages rs" "append_pages rs s = (Inr (), s')"
  shows "log_inv (qs @ rs) s' \<and> db_file s' = db_file s"
  using assms
proof (induction rs arbitrary: qs s)
  case (Cons r rs)
  obtain off s1 where a: "append_page (fst r) (snd r) s = (Inr off, s1)" and b: "append_pages rs s1 = (Inr (), s')"
    using Cons.prems(3) by (auto simp: sbind_def split: prod.splits sum.splits)
  have len: "length (snd r) = PAGE_SIZE" "whole_pages rs"
    using Cons.prems(2) by (auto simp: whole_pages_def split: prod.splits)
  from append_page_ok [OF Cons.prems(1) len(1) a] Cons.IH [OF append_page_ok(1) [OF Cons.prems(1) len(1) a] len(2) b]
  show ?case by simp
qed simp

lemma append_pages_err:
  assumes "log_inv qs s" "whole_pages rs" "append_pages rs s = (Inl e, s')"
  shows "unsealed (log_file s') \<and> db_file s' = db_file s"
  using assms
proof (induction rs arbitrary: qs s)
  case (Cons r rs)
  have len: "length (snd r) = PAGE_SIZE" "whole_pages rs"
    using Cons.prems(2) by (auto simp: whole_pages_def split: prod.splits)
  show ?case
  proof (cases "append_page (fst r) (snd r) s")
    case (Pair q s1)
    show ?thesis
    proof (cases q)
      case (Inl f)
      then show ?thesis
        using Cons.prems(3) Pair append_page_err [OF Cons.prems(1) len(1), of "fst r" f s1] by (simp add: sbind_def)
    next
      case (Inr off)
      with Cons.prems(3) Pair have "append_pages rs s1 = (Inl e, s')" by (simp add: sbind_def)
      from Cons.IH [OF append_page_ok(1) [OF Cons.prems(1) len(1)] len(2) this] Pair Inr
        append_page_ok(3) [OF Cons.prems(1) len(1)] show ?thesis by simp
    qed
  qed
qed simp

text \<open>The writes of one commit, in the order \<^verbatim>\<open>Pager::commit\<close> issues them.\<close>

definition log_transaction :: "page_image list \<Rightarrow> ('a wal_scheme, unit) op" where
  "log_transaction rs = sbind (append_pages rs) (\<lambda>_. sbind seal (\<lambda>_. apply_log))"

lemma log_transaction_cases:
  assumes "log_inv qs s" "whole_pages rs" "log_transaction rs s = (r, s')"
  shows "\<not> scan 0 (log_file s') \<and> db_file s' = db_file s \<and> (\<exists>e. r = Inl e)
    \<or> sealed_log (qs @ rs) (log_file s')
      \<and> (\<forall>i. \<not> touches (qs @ rs) i \<longrightarrow> byte_at (db_file s') i = byte_at (db_file s) i)"
proof (cases "append_pages rs s")
  case (Pair a s1)
  show ?thesis
  proof (cases a)
    case (Inl e)
    then show ?thesis
      using assms(3) Pair append_pages_err [OF assms(1,2), of e s1] unsealed_scan
      by (auto simp: log_transaction_def sbind_def)
  next
    case (Inr u)
    then have li: "log_inv (qs @ rs) s1" "db_file s1 = db_file s"
      using append_pages_ok [OF assms(1,2), of s1] Pair by simp_all
    obtain b s2 where b: "seal s1 = (b, s2)" by fastforce
    show ?thesis
    proof (cases b)
      case (Inl e)
      then have "s' = s2" "\<exists>e. r = Inl e"
        using assms(3) Pair Inr b by (auto simp: log_transaction_def sbind_def)
      then show ?thesis
        using seal_err [OF li(1), of e s2] b Inl li(2) by auto
    next
      case (Inr v)
      have run: "apply_log s2 = (r, s')"
        using assms(3) Pair \<open>a = Inr u\<close> b Inr by (simp add: log_transaction_def sbind_def)
      have "sealed_log (qs @ rs) (log_file s2)" "db_file s2 = db_file s"
        using seal_ok [OF li(1), of s2] b Inr li(2) by simp_all
      with apply_log_frame [OF this(1) run] show ?thesis by auto
    qed
  qed
qed

section \<open>Error detection\<close>

lemma crc32_split: "crc32 parts = crc32 [concat parts]"
proof -
  have "fold (\<lambda>part crc. fold (\<lambda>b c. crc_byte c b) part crc) parts c = fold (\<lambda>b c. crc_byte c b) (concat parts) c" for c
    by (induction parts arbitrary: c) simp_all
  then show ?thesis by (simp add: crc32_def)
qed

lemma crc_step_bit:
  "i < 32 \<Longrightarrow> bit (crc_step c) i \<longleftrightarrow> bit c (Suc i) \<noteq> (bit (0xEDB88320 :: u32) i \<and> odd c)"
proof -
  assume "i < 32"
  moreover have "c AND 1 = of_bool (odd c)" by (simp add: and_one_eq mod_2_eq_odd)
  ultimately show ?thesis
    by (auto simp: crc_step_def Let_def bit_simps)
qed

text \<open>The polynomial's top bit is set, so a step can be undone: the register never loses information.\<close>

lemma crc_step_inj: "crc_step a = crc_step b \<Longrightarrow> a = b"
proof -
  assume eq: "crc_step a = crc_step b"
  have top: "bit (crc_step c) 31 \<longleftrightarrow> odd c" for c
    using bit_imp_le_length [of c 32] by (auto simp: crc_step_bit)
  have odd: "odd a \<longleftrightarrow> odd b" using eq top by metis
  have "bit a (Suc i) \<longleftrightarrow> bit b (Suc i)" if "Suc i < 32" for i
    using eq crc_step_bit [of i a] crc_step_bit [of i b] odd that by auto
  then have "bit a n \<longleftrightarrow> bit b n" if "n < 32" for n
    using odd that by (cases n) (auto simp: bit_0)
  then show "a = b"
    by (intro bit_word_eqI) simp
qed

lemma crc_steps_inj: "(crc_step ^^ n) a = (crc_step ^^ n) b \<Longrightarrow> a = b"
  by (induction n) (auto dest: crc_step_inj)

lemma xor_left_cancel: "(a :: u32) XOR x = a XOR y \<longleftrightarrow> x = y"
  by (metis xor.assoc xor.commute xor_self_eq xor.right_neutral)

lemma crc_byte_inj_crc: "crc_byte a b = crc_byte c b \<Longrightarrow> a = c"
  unfolding crc_byte_def using crc_steps_inj xor_left_cancel by (metis xor.commute)

lemma crc_byte_inj_byte: "crc_byte a b = crc_byte a c \<Longrightarrow> b = c"
proof -
  assume "crc_byte a b = crc_byte a c"
  then have "(ucast b :: u32) = ucast c"
    unfolding crc_byte_def using crc_steps_inj xor_left_cancel by metis
  then have "unat (ucast b :: u32) = unat (ucast c :: u32)" by simp
  then show "b = c"
    using unat_bound [of b] unat_bound [of c]
    by (simp add: unsigned_ucast_eq take_bit_nat_eq_self word_unat_eq_iff)
qed

lemma crc_fold_inj: "fold (\<lambda>b c. crc_byte c b) bs a = fold (\<lambda>b c. crc_byte c b) bs c \<Longrightarrow> a = c"
  by (induction bs arbitrary: a c) (auto dest: crc_byte_inj_crc)

lemma crc32_detects_byte: "b \<noteq> c \<Longrightarrow> crc32 [xs @ b # ys] \<noteq> crc32 [xs @ c # ys]"
  by (auto simp: crc32_def dest!: crc_fold_inj crc_byte_inj_byte)

lemma scan_bad_crc:
  assumes "length r = PAGE_RECORD_LEN - 1" "crc32 [take (4 + PAGE_SIZE) r] \<noteq> u32_of_le (drop (4 + PAGE_SIZE) r)"
  shows "\<not> scan n (REC_PAGE # r @ t)"
proof -
  have "take 4 r @ take PAGE_SIZE (drop 4 r) = take (4 + PAGE_SIZE) r"
    by (simp add: take_add)
  then have "crc32 [take 4 r, take PAGE_SIZE (drop 4 r)] = crc32 [take (4 + PAGE_SIZE) r]"
    using crc32_split [of "[take 4 r, take PAGE_SIZE (drop 4 r)]"] by simp
  with assms show ?thesis
    by (subst scan.simps) (simp add: Let_def wal_consts)
qed

section \<open>Properties\<close>

text \<open>C28: Crash atomicity of the log. Whatever I/O call of a commit fails or is cut short by a crash
  (while appending images, while sealing, while copying into the database file), recovery on the
  next open either leaves every page as it was or gives every page the last image the transaction
  logged for it; it is the latter whenever the commit had returned success; and the log ends empty.\<close>

theorem wal_crash_atomic:
  assumes "log_inv qs s" "whole_pages rs" "log_transaction rs s = (r, s')"
  shows "\<exists>done t. recover (s'\<lparr>faults := []\<rparr>) = (Inr done, t) \<and> log_file t = [] \<and> (done \<or> (\<exists>e. r = Inl e)) \<and>
    (\<forall>no. page_at (db_file t) (unat no) =
       (case if done then map_of (rev (qs @ rs)) no else None of
          Some img \<Rightarrow> img | None \<Rightarrow> page_at (db_file s) (unat no)))"
proof -
  have wp: "whole_pages (qs @ rs)" using assms(1,2) by (simp add: log_inv_def whole_pages_def)
  consider "\<not> scan 0 (log_file s')" "db_file s' = db_file s" "\<exists>e. r = Inl e"
    | "sealed_log (qs @ rs) (log_file s')"
      "\<forall>i. \<not> touches (qs @ rs) i \<longrightarrow> byte_at (db_file s') i = byte_at (db_file s) i"
    using log_transaction_cases [OF assms] by blast
  then show ?thesis
  proof cases
    case 1
    then show ?thesis
      using recover_unsealed [of "s'\<lparr>faults := []\<rparr>"] by (intro exI [of _ False] exI) auto
  next
    case 2
    have "page_at (replay (qs @ rs) (db_file s')) (unat no) =
        (case map_of (rev (qs @ rs)) no of Some img \<Rightarrow> img | None \<Rightarrow> page_at (db_file s) (unat no))" for no
      using replay_absorbs_page [OF wp 2(2)] page_at_replay [OF wp, of "db_file s" no] by simp
    then show ?thesis
      using recover_sealed [of "qs @ rs" "s'\<lparr>faults := []\<rparr>"] 2(1)
      by (intro exI [of _ True] exI conjI) (assumption | simp)+
  qed
qed

definition sample_wal :: wal where
  "sample_wal = \<lparr>log_file = [], db_file = [], faults = [IoOk, IoErr 5], cursor = 0, records = 0\<rparr>"

theorem wal_crash_atomic_witness:
  "\<exists>r s' done t. log_transaction [(1, zero_page)] sample_wal = (r, s')
     \<and> recover (s'\<lparr>faults := []\<rparr>) = (Inr done, t) \<and> log_file t = [] \<and> (done \<or> (\<exists>e. r = Inl e))"
proof -
  have inv: "log_inv [] sample_wal"
    by (rule log_inv_Nil) (simp_all add: sample_wal_def unsealed_def)
  have wp: "whole_pages [(1, zero_page)]"
    by (simp add: whole_pages_def zero_page_def)
  obtain r s' where run: "log_transaction [(1, zero_page)] sample_wal = (r, s')" by fastforce
  from wal_crash_atomic [OF inv wp run] run show ?thesis by blast
qed

text \<open>Recovery itself may crash: after a recovery of a sealed log that was cut short anywhere, a
  second recovery still delivers every image the log held.\<close>

theorem wal_recovery_restartable:
  assumes "sealed_log rs (log_file s)" "recover s = (r, s')"
  shows "\<exists>done t. recover (s'\<lparr>faults := []\<rparr>) = (Inr done, t) \<and>
    (\<forall>no. page_at (db_file t) no = page_at (replay rs (db_file s)) no)"
proof -
  have wp: "whole_pages rs" using assms(1) by (simp add: sealed_log_def)
  have "sealed_log rs (log_file s') \<and> (\<forall>i. \<not> touches rs i \<longrightarrow> byte_at (db_file s') i = byte_at (db_file s) i)
      \<or> log_file s' = [] \<and> db_file s' = replay rs (db_file s)"
  proof (cases rule: io_cases [of s])
    case (1 f)
    let ?s = "s\<lparr>faults := f\<rparr>"
    obtain a s1 where a: "apply_log ?s = (a, s1)" by fastforce
    have fr: "log_file s1 = log_file s" "\<forall>i. \<not> touches rs i \<longrightarrow> byte_at (db_file s1) i = byte_at (db_file s) i"
      using apply_log_frame [OF _ a] assms(1) by auto
    show ?thesis
    proof (cases a)
      case (Inl e)
      then have "s' = s1" using assms 1 a by (simp add: recover_def sbind_def sealed_scan)
      with fr assms(1) show ?thesis by simp
    next
      case (Inr u)
      then have db: "db_file s1 = replay rs (db_file s)"
        using apply_log_success [of rs ?s u s1] assms(1) a by simp
      obtain b s2 where b: "reset s1 = (b, s2)" by fastforce
      have "s' = s2"
        using assms 1 a Inr b by (cases b) (simp_all add: recover_def sbind_def sealed_scan)
      with reset_any [OF b] fr db assms(1) show ?thesis by auto
    qed
  next
    case (2 f)
    then show ?thesis using assms by (auto simp: recover_def sbind_def)
  qed
  then show ?thesis
  proof
    assume l: "sealed_log rs (log_file s') \<and> (\<forall>i. \<not> touches rs i \<longrightarrow> byte_at (db_file s') i = byte_at (db_file s) i)"
    then show ?thesis
      using recover_sealed [of rs "s'\<lparr>faults := []\<rparr>"] replay_absorbs_page [OF wp] by auto
  next
    assume "log_file s' = [] \<and> db_file s' = replay rs (db_file s)"
    then show ?thesis
      using recover_unsealed [of "s'\<lparr>faults := []\<rparr>"] not_scan_Nil by auto
  qed
qed

theorem wal_recovery_restartable_witness:
  "\<exists>r s' done t. recover (sample_wal\<lparr>log_file := recs [(1, zero_page)] @ commit_record 1\<rparr>) = (r, s')
     \<and> recover (s'\<lparr>faults := []\<rparr>) = (Inr done, t)
     \<and> page_at (db_file t) 1 = page_at (replay [(1, zero_page)] []) 1"
proof -
  have "sealed_log [(1, zero_page)] (log_file (sample_wal\<lparr>log_file := recs [(1, zero_page)] @ commit_record 1\<rparr>))"
    by (simp add: sealed_log_def whole_pages_def zero_page_def)
  moreover obtain r s' where
    "recover (sample_wal\<lparr>log_file := recs [(1, zero_page)] @ commit_record 1\<rparr>) = (r, s')" by fastforce
  moreover have "db_file (sample_wal\<lparr>log_file := recs [(1, zero_page)] @ commit_record 1\<rparr>) = []"
    by (simp add: sample_wal_def)
  ultimately show ?thesis
    using wal_recovery_restartable by metis
qed

text \<open>C29: A log in which one byte of a logged page number or page image has changed is not replayed:
  the CRC detects every single-byte corruption, wherever it is.\<close>

theorem wal_detects_corruption:
  assumes "length img = PAGE_SIZE" "i < 4 + PAGE_SIZE" "b \<noteq> (u32_le no @ img) ! i" "whole_pages rs"
  shows "\<not> scan 0 (recs rs @ REC_PAGE # (u32_le no @ img)[i := b] @ u32_le (crc32 [u32_le no, img]) @ t)"
proof -
  define p where "p = u32_le no @ img"
  have len: "length p = 4 + PAGE_SIZE" by (simp add: p_def assms(1))
  have split: "p = take i p @ p ! i # drop (Suc i) p" "p[i := b] = take i p @ b # drop (Suc i) p"
    using assms(2) len by (simp_all add: id_take_nth_drop upd_conv_take_nth_drop)
  have "crc32 [p[i := b]] \<noteq> crc32 [p]"
    using crc32_detects_byte [of b "p ! i" "take i p" "drop (Suc i) p"] assms(3) split by (simp add: p_def)
  moreover have "crc32 [u32_le no, img] = crc32 [p]"
    using crc32_split [of "[u32_le no, img]"] by (simp add: p_def)
  ultimately have "\<not> scan n (REC_PAGE # (p[i := b] @ u32_le (crc32 [u32_le no, img])) @ t)" for n
    using len by (intro scan_bad_crc) (simp_all add: wal_consts)
  then show ?thesis
    using assms(4) by (simp add: scan_recs p_def)
qed

theorem wal_detects_corruption_witness:
  "\<not> scan 0 (recs [] @ REC_PAGE # (u32_le 3 @ zero_page)[9 := 255] @ u32_le (crc32 [u32_le 3, zero_page]) @ commit_record 1)"
  by (rule wal_detects_corruption)
    (simp_all add: zero_page_def PAGE_SIZE_def whole_pages_def nth_append)

end
