(* ===== verification/Buffer_Pool.thy ===== *)
theory Buffer_Pool
  imports Page_Layout
begin

text \<open>
  The page cache of \<^verbatim>\<open>storage/pager.rs\<close>: \<^verbatim>\<open>BufferPool\<close>, a bounded CLOCK cache, and
  \<^verbatim>\<open>SharedPool\<close>, which routes a page to one of its shards. A \<^verbatim>\<open>PageRef\<close> pins its frame by
  holding a second reference to it; which pages are pinned while a victim is sought is the argument
  \<open>pinned\<close>. The locale \<open>page_cache\<close> is what the pager relies on: a cache is a partial map from page
  numbers to images with a dirty bit, and an eviction forgets clean pages only and hands dirty ones
  back. The sharded CLOCK cache is its interpretation.
\<close>

section \<open>The CLOCK cache\<close>

record frame =
  frame_no :: u32
  frame_page :: bytes

record pool_slot =
  slot_frame :: frame
  slot_dirty :: bool
  referenced :: bool

record buffer_pool =
  capacity :: nat
  slots :: "pool_slot list"
  pool_index :: "u32 \<Rightarrow> nat option"
  hand :: nat

definition bp_new :: "nat \<Rightarrow> buffer_pool" where
  "bp_new cap = \<lparr>capacity = cap, slots = [], pool_index = Map.empty, hand = 0\<rparr>"

definition bp_lookup :: "u32 \<Rightarrow> buffer_pool \<Rightarrow> frame option \<times> buffer_pool" where
  "bp_lookup no p = (case pool_index p no of
       None \<Rightarrow> (None, p)
     | Some idx \<Rightarrow> (Some (slot_frame (slots p ! idx)),
                    p\<lparr>slots := (slots p)[idx := (slots p ! idx)\<lparr>referenced := True\<rparr>]\<rparr>))"

primrec victim_loop :: "(u32 \<Rightarrow> bool) \<Rightarrow> nat \<Rightarrow> buffer_pool \<Rightarrow> nat option \<times> buffer_pool" where
  "victim_loop pinned 0 p = (None, p)"
| "victim_loop pinned (Suc k) p =
     (let h = (hand p + 1) mod length (slots p); p = p\<lparr>hand := h\<rparr>; sl = slots p ! h in
      if pinned (frame_no (slot_frame sl)) then victim_loop pinned k p
      else if referenced sl then
        victim_loop pinned k (p\<lparr>slots := (slots p)[h := sl\<lparr>referenced := False\<rparr>]\<rparr>)
      else (Some h, p))"

definition victim_slot :: "(u32 \<Rightarrow> bool) \<Rightarrow> buffer_pool \<Rightarrow> nat option \<times> buffer_pool" where
  "victim_slot pinned p = victim_loop pinned (2 * length (slots p)) p"

definition bp_put :: "(u32 \<Rightarrow> bool) \<Rightarrow> frame \<Rightarrow> bool \<Rightarrow> (buffer_pool, frame option) op" where
  "bp_put pinned f dirty p =
     (case pool_index p (frame_no f) of
        Some idx \<Rightarrow>
          (Inr None, p\<lparr>slots := (slots p)[idx := \<lparr>slot_frame = f,
             slot_dirty = slot_dirty (slots p ! idx) \<or> dirty, referenced = True\<rparr>]\<rparr>)
      | None \<Rightarrow>
          let new = \<lparr>slot_frame = f, slot_dirty = dirty, referenced = True\<rparr> in
          if length (slots p) < capacity p then
            (Inr None, p\<lparr>pool_index := (pool_index p)(frame_no f \<mapsto> length (slots p)),
                         slots := slots p @ [new]\<rparr>)
          else (case victim_slot pinned p of
              (None, p) \<Rightarrow> (Inl (Fail Exhausted), p)
            | (Some v, p) \<Rightarrow>
                let evicted = slots p ! v in
                (Inr (if slot_dirty evicted then Some (slot_frame evicted) else None),
                 p\<lparr>slots := (slots p)[v := new],
                   pool_index := ((pool_index p)(frame_no (slot_frame evicted) := None))(frame_no f \<mapsto> v)\<rparr>)))"

definition bp_clear :: "buffer_pool \<Rightarrow> buffer_pool" where
  "bp_clear p = p\<lparr>slots := [], pool_index := Map.empty, hand := 0\<rparr>"

definition bp_mark_clean :: "u32 \<Rightarrow> buffer_pool \<Rightarrow> buffer_pool" where
  "bp_mark_clean no p = (case pool_index p no of None \<Rightarrow> p
     | Some idx \<Rightarrow> p\<lparr>slots := (slots p)[idx := (slots p ! idx)\<lparr>slot_dirty := False\<rparr>]\<rparr>)"

text \<open>\<^verbatim>\<open>swap_remove\<close> moves the last slot into the hole, so that slot is reindexed.\<close>

definition swap_remove :: "nat \<Rightarrow> 'a list \<Rightarrow> 'a list" where
  "swap_remove i xs = butlast (xs[i := last xs])"

definition bp_drop_page :: "u32 \<Rightarrow> buffer_pool \<Rightarrow> buffer_pool" where
  "bp_drop_page no p = (case pool_index p no of None \<Rightarrow> p
     | Some idx \<Rightarrow>
         let last = length (slots p) - 1;
             p = p\<lparr>slots := swap_remove idx (slots p), pool_index := (pool_index p)(no := None)\<rparr>;
             p = (if idx \<noteq> last
                  then p\<lparr>pool_index := (pool_index p)(frame_no (slot_frame (slots p ! idx)) \<mapsto> idx)\<rparr>
                  else p) in
         if length (slots p) \<le> hand p \<and> slots p \<noteq> [] then p\<lparr>hand := 0\<rparr> else p)"

section \<open>The shared pool\<close>

definition POOL_CAPACITY :: nat where "POOL_CAPACITY = 1024"
definition POOL_SHARDS :: nat where "POOL_SHARDS = 16"

type_synonym shared_pool = "buffer_pool list"

definition with_capacity :: "nat \<Rightarrow> shared_pool" where
  "with_capacity cap =
     (let cap = max cap 1; shard_count = min cap POOL_SHARDS;
          per_shard = cap div shard_count; remainder = cap mod shard_count in
      map (\<lambda>i. bp_new (per_shard + (if i < remainder then 1 else 0))) [0..<shard_count])"

definition sp_new :: shared_pool where
  "sp_new = with_capacity POOL_CAPACITY"

definition shard_of :: "shared_pool \<Rightarrow> u32 \<Rightarrow> nat" where
  "shard_of sh no = unat no mod length sh"

definition sp_get :: "u32 \<Rightarrow> shared_pool \<Rightarrow> frame option \<times> shared_pool" where
  "sp_get no sh = (let i = shard_of sh no; (r, p) = bp_lookup no (sh ! i) in (r, sh[i := p]))"

definition sp_put :: "(u32 \<Rightarrow> bool) \<Rightarrow> frame \<Rightarrow> bool \<Rightarrow> (shared_pool, frame option) op" where
  "sp_put pinned f dirty sh =
     (let i = shard_of sh (frame_no f); (r, p) = bp_put pinned f dirty (sh ! i) in (r, sh[i := p]))"

definition sp_mark_clean :: "u32 list \<Rightarrow> shared_pool \<Rightarrow> shared_pool" where
  "sp_mark_clean pages sh =
     fold (\<lambda>no sh. let i = shard_of sh no in sh[i := bp_mark_clean no (sh ! i)]) pages sh"

definition sp_drop_pages :: "u32 list \<Rightarrow> shared_pool \<Rightarrow> shared_pool" where
  "sp_drop_pages pages sh =
     fold (\<lambda>no sh. let i = shard_of sh no in sh[i := bp_drop_page no (sh ! i)]) pages sh"

definition sp_clear :: "shared_pool \<Rightarrow> shared_pool" where
  "sp_clear sh = map bp_clear sh"

section \<open>Well-formedness\<close>

text \<open>The index and the slots describe the same partial map, and the pool is within its capacity.\<close>

definition bp_inv :: "buffer_pool \<Rightarrow> bool" where
  "bp_inv p \<longleftrightarrow> 0 < capacity p \<and> length (slots p) \<le> capacity p
     \<and> (\<forall>no i. pool_index p no = Some i \<longleftrightarrow> i < length (slots p) \<and> frame_no (slot_frame (slots p ! i)) = no)"

definition bp_contents :: "buffer_pool \<Rightarrow> u32 \<Rightarrow> (bytes \<times> bool) option" where
  "bp_contents p no = (case pool_index p no of None \<Rightarrow> None
     | Some i \<Rightarrow> Some (frame_page (slot_frame (slots p ! i)), slot_dirty (slots p ! i)))"

lemma bp_inv_index: "bp_inv p \<Longrightarrow> pool_index p no = Some i \<Longrightarrow> i < length (slots p) \<and> frame_no (slot_frame (slots p ! i)) = no"
  by (simp add: bp_inv_def)

lemma bp_inv_inj:
  "bp_inv p \<Longrightarrow> i < length (slots p) \<Longrightarrow> j < length (slots p) \<Longrightarrow>
   frame_no (slot_frame (slots p ! i)) = frame_no (slot_frame (slots p ! j)) \<Longrightarrow> i = j"
  unfolding bp_inv_def by (metis option.inject)

text \<open>Changes that keep page numbers in place: reference bits, dirty bits, images.\<close>

lemma bp_update_slot:
  assumes "bp_inv p" "i < length (slots p)" "frame_no (slot_frame sl) = frame_no (slot_frame (slots p ! i))"
  defines "q \<equiv> p\<lparr>slots := (slots p)[i := sl]\<rparr>"
  shows "bp_inv q"
    and "bp_contents q = (bp_contents p)(frame_no (slot_frame sl) \<mapsto> (frame_page (slot_frame sl), slot_dirty sl))"
proof -
  have no: "frame_no (slot_frame (slots q ! j)) = frame_no (slot_frame (slots p ! j))" if "j < length (slots p)" for j
    using assms(3) that by (cases "j = i") (simp_all add: q_def)
  then show "bp_inv q"
    using assms(1) by (auto simp: bp_inv_def q_def)
  have idx: "pool_index p (frame_no (slot_frame sl)) = Some i"
    using assms(1,2,3) by (simp add: bp_inv_def)
  show "bp_contents q = (bp_contents p)(frame_no (slot_frame sl) \<mapsto> (frame_page (slot_frame sl), slot_dirty sl))"
  proof (rule ext)
    fix no
    show "bp_contents q no = ((bp_contents p)(frame_no (slot_frame sl) \<mapsto> (frame_page (slot_frame sl), slot_dirty sl))) no"
      using idx assms(2) bp_inv_index [OF assms(1), of no] assms(3)
      by (cases "pool_index p no") (auto simp: bp_contents_def q_def nth_list_update)
  qed
qed

lemma bp_contents_slot:
  "bp_inv p \<Longrightarrow> i < length (slots p) \<Longrightarrow>
   bp_contents p (frame_no (slot_frame (slots p ! i))) =
     Some (frame_page (slot_frame (slots p ! i)), slot_dirty (slots p ! i))"
proof -
  assume "bp_inv p" "i < length (slots p)"
  then have "pool_index p (frame_no (slot_frame (slots p ! i))) = Some i" by (simp add: bp_inv_def)
  then show ?thesis by (simp add: bp_contents_def)
qed

lemma bp_lookup_spec:
  assumes "bp_inv p" "bp_lookup no p = (r, q)"
  shows "bp_inv q" "bp_contents q = bp_contents p" "capacity q = capacity p"
    "map_option frame_page r = map_option fst (bp_contents p no)"
proof -
  have *: "bp_inv q \<and> bp_contents q = bp_contents p \<and> capacity q = capacity p
      \<and> map_option frame_page r = map_option fst (bp_contents p no)"
  proof (cases "pool_index p no")
    case None
    then show ?thesis using assms by (auto simp: bp_lookup_def bp_contents_def)
  next
    case (Some i)
    have i: "i < length (slots p)" "frame_no (slot_frame (slots p ! i)) = no"
      using bp_inv_index [OF assms(1) Some] by auto
    have q: "q = p\<lparr>slots := (slots p)[i := (slots p ! i)\<lparr>referenced := True\<rparr>]\<rparr>" "r = Some (slot_frame (slots p ! i))"
      using assms(2) Some by (auto simp: bp_lookup_def)
    have "bp_inv q" "bp_contents q = bp_contents p"
      using bp_update_slot [OF assms(1) i(1), of "(slots p ! i)\<lparr>referenced := True\<rparr>"] bp_contents_slot [OF assms(1) i(1)]
      by (auto simp: q)
    with i bp_contents_slot [OF assms(1) i(1)] show ?thesis by (auto simp: q)
  qed
  then show "bp_inv q" "bp_contents q = bp_contents p" "capacity q = capacity p"
    "map_option frame_page r = map_option fst (bp_contents p no)" by simp_all
qed

section \<open>Eviction\<close>

lemma bp_hand [simp]: "bp_contents (p\<lparr>hand := h\<rparr>) = bp_contents p" "bp_inv (p\<lparr>hand := h\<rparr>) = bp_inv p"
  by (simp_all add: bp_contents_def bp_inv_def fun_eq_iff cong: option.case_cong)

lemma victim_loop_spec:
  assumes "bp_inv p" "slots p \<noteq> []" "victim_loop pinned k p = (r, q)"
  shows "bp_inv q \<and> bp_contents q = bp_contents p \<and> capacity q = capacity p \<and> length (slots q) = length (slots p)
    \<and> (case r of None \<Rightarrow> True | Some v \<Rightarrow> v < length (slots q) \<and> \<not> pinned (frame_no (slot_frame (slots q ! v))))"
  using assms
proof (induction k arbitrary: p)
  case 0
  then show ?case by auto
next
  case (Suc k)
  define h where "h = (hand p + 1) mod length (slots p)"
  define p1 where "p1 = p\<lparr>hand := h\<rparr>"
  have h: "h < length (slots p1)" "slots p1 = slots p" "bp_inv p1" "bp_contents p1 = bp_contents p"
    using Suc.prems(1,2) by (simp_all add: h_def p1_def)
  let ?sl = "slots p ! h"
  let ?p2 = "p1\<lparr>slots := (slots p1)[h := ?sl\<lparr>referenced := False\<rparr>]\<rparr>"
  have p2: "bp_inv ?p2" "bp_contents ?p2 = bp_contents p"
    using bp_update_slot [OF h(3,1), of "?sl\<lparr>referenced := False\<rparr>"] bp_contents_slot [OF h(3,1)] h(2,4)
    by auto
  show ?case
  proof (cases "pinned (frame_no (slot_frame ?sl))")
    case True
    then have "victim_loop pinned k p1 = (r, q)"
      using Suc.prems(3) by (simp add: h_def p1_def Let_def)
    from Suc.IH [OF h(3) _ this] Suc.prems(2) h show ?thesis by (simp add: p1_def)
  next
    case np: False
    show ?thesis
    proof (cases "referenced ?sl")
      case True
      then have "victim_loop pinned k ?p2 = (r, q)"
        using Suc.prems(3) np by (simp add: h_def p1_def Let_def)
      from Suc.IH [OF p2(1) _ this] Suc.prems(2) h p2 show ?thesis by (simp add: p1_def)
    next
      case False
      then have "r = Some h" "q = p1"
        using Suc.prems(3) np by (auto simp: h_def p1_def Let_def)
      with h np show ?thesis by (simp add: p1_def)
    qed
  qed
qed

text \<open>How many slots the hand passes before it reaches slot \<open>i\<close>.\<close>

definition clock_gap :: "buffer_pool \<Rightarrow> nat \<Rightarrow> nat" where
  "clock_gap p i = (let n = length (slots p); h = (hand p + 1) mod n in if h \<le> i then i - h else i + n - h)"

lemma clock_gap_less: "i < length (slots p) \<Longrightarrow> clock_gap p i < length (slots p)"
  using mod_less_divisor [of "length (slots p)" "hand p + 1"] by (auto simp: clock_gap_def Let_def)

lemma mod_Suc_cases: "h < n \<Longrightarrow> (h + 1) mod n = (if h + 1 = n then 0 else h + 1)" for h n :: nat
  by auto

lemma clock_gap_step:
  assumes "i < length (slots p)" "h = (hand p + 1) mod length (slots p)" "h \<noteq> i"
    "hand q = h" "length (slots q) = length (slots p)"
  shows "Suc (clock_gap q i) = clock_gap p i"
proof -
  have "0 < length (slots p)" using assms(1) by linarith
  then have "h < length (slots p)" by (simp only: assms(2) mod_less_divisor)
  moreover have "clock_gap p i = (if h \<le> i then i - h else i + length (slots p) - h)"
    by (simp add: clock_gap_def Let_def assms(2))
  moreover have "clock_gap q i = (let h' = (h + 1) mod length (slots p) in if h' \<le> i then i - h' else i + length (slots p) - h')"
    by (simp only: clock_gap_def assms(4,5) Let_def)
  ultimately show ?thesis
    using assms(1,3) by (simp only: mod_Suc_cases Let_def) auto
qed

text \<open>An unpinned slot is found: at the latest on the second pass, the first having cleared its bit.\<close>

lemma victim_loop_finds:
  assumes "i < length (slots p)" "\<not> pinned (frame_no (slot_frame (slots p ! i)))"
    and "clock_gap p i + (if referenced (slots p ! i) then length (slots p) else 0) < k"
  shows "\<exists>v q. victim_loop pinned k p = (Some v, q)"
  using assms
proof (induction k arbitrary: p)
  case 0
  then show ?case by simp
next
  case (Suc k)
  define h where "h = (hand p + 1) mod length (slots p)"
  define p1 where "p1 = p\<lparr>hand := h\<rparr>"
  let ?sl = "slots p ! h"
  define p2 where "p2 = p1\<lparr>slots := (slots p1)[h := ?sl\<lparr>referenced := False\<rparr>]\<rparr>"
  have "0 < length (slots p)" using Suc.prems(1) by linarith
  then have h: "h < length (slots p)" by (simp only: h_def mod_less_divisor)
  have run: "victim_loop pinned (Suc k) p =
     (if pinned (frame_no (slot_frame ?sl)) then victim_loop pinned k p1
      else if referenced ?sl then victim_loop pinned k p2 else (Some h, p1))"
    by (simp add: h_def p1_def p2_def Let_def)
  have sl: "slots p1 = slots p" "length (slots p2) = length (slots p)" "hand p1 = h" "hand p2 = h"
    by (simp_all add: p1_def p2_def)
  show ?case
  proof (cases "h = i")
    case True
    have gap: "clock_gap p2 i < length (slots p)"
      using clock_gap_less [of i p2] Suc.prems(1) sl by simp
    show ?thesis
    proof (cases "referenced ?sl")
      case ref: True
      have "\<exists>v q. victim_loop pinned k p2 = (Some v, q)"
        using Suc.prems True ref gap h by (intro Suc.IH) (auto simp: p2_def p1_def)
      with True ref Suc.prems(2) run show ?thesis by simp
    qed (use True Suc.prems(2) run in simp)
  next
    case False
    have g1: "Suc (clock_gap p1 i) = clock_gap p i" "Suc (clock_gap p2 i) = clock_gap p i"
      using clock_gap_step [OF Suc.prems(1) h_def False] sl by simp_all
    have "\<exists>v q. victim_loop pinned k p1 = (Some v, q)"
      using Suc.prems g1(1) by (intro Suc.IH) (auto simp: p1_def)
    moreover have "\<exists>v q. victim_loop pinned k p2 = (Some v, q)"
      using Suc.prems g1(2) False by (intro Suc.IH) (auto simp: p2_def p1_def)
    ultimately show ?thesis using run by simp
  qed
qed

lemma victim_slot_finds:
  assumes "i < length (slots p)" "\<not> pinned (frame_no (slot_frame (slots p ! i)))"
  shows "\<exists>v q. victim_slot pinned p = (Some v, q)"
  unfolding victim_slot_def using assms clock_gap_less [OF assms(1)]
  by (intro victim_loop_finds [of i]) auto

section \<open>Admission\<close>

lemma bp_put_spec:
  assumes "bp_inv p" "bp_put pinned f dirty p = (r, q)"
  shows "bp_inv q \<and> capacity q = capacity p \<and>
   (case r of
      Inl e \<Rightarrow> e = Fail Exhausted \<and> bp_contents q = bp_contents p \<and> (\<forall>i < length (slots p). pinned (frame_no (slot_frame (slots p ! i))))
    | Inr ev \<Rightarrow> \<exists>forgotten. \<comment> \<open>at most one other page leaves, clean or handed back\<close>
        bp_contents q = (\<lambda>n. if n = frame_no f then
             Some (frame_page f, dirty \<or> (\<exists>img. bp_contents p (frame_no f) = Some (img, True)))
           else if forgotten = Some n then None else bp_contents p n)
        \<and> forgotten \<noteq> Some (frame_no f) \<and> (\<forall>n. forgotten = Some n \<longrightarrow> \<not> pinned n)
        \<and> (case ev of
             None \<Rightarrow> (case forgotten of None \<Rightarrow> True | Some n \<Rightarrow> (\<exists>img. bp_contents p n = Some (img, False)))
           | Some g \<Rightarrow> forgotten = Some (frame_no g) \<and> bp_contents p (frame_no g) = Some (frame_page g, True)))"
proof (cases "pool_index p (frame_no f)")
  case (Some i)
  have i: "i < length (slots p)" "frame_no (slot_frame (slots p ! i)) = frame_no f"
    using bp_inv_index [OF assms(1) Some] by auto
  let ?sl = "\<lparr>slot_frame = f, slot_dirty = slot_dirty (slots p ! i) \<or> dirty, referenced = True\<rparr>"
  have q: "q = p\<lparr>slots := (slots p)[i := ?sl]\<rparr>" "r = Inr None"
    using assms(2) Some by (auto simp: bp_put_def)
  have "bp_inv q" "bp_contents q = (bp_contents p)(frame_no f \<mapsto> (frame_page f, slot_dirty (slots p ! i) \<or> dirty))"
    using bp_update_slot [OF assms(1) i(1), of ?sl] i(2) q by auto
  moreover have "bp_contents p (frame_no f) = Some (frame_page (slot_frame (slots p ! i)), slot_dirty (slots p ! i))"
    using Some by (simp add: bp_contents_def)
  ultimately show ?thesis
    by (auto simp: q fun_eq_iff intro!: exI [of _ None])
next
  case None
  then have nc: "bp_contents p (frame_no f) = None" by (simp add: bp_contents_def)
  let ?new = "\<lparr>slot_frame = f, slot_dirty = dirty, referenced = True\<rparr>"
  show ?thesis
  proof (cases "length (slots p) < capacity p")
    case True
    then have q: "q = p\<lparr>pool_index := (pool_index p)(frame_no f \<mapsto> length (slots p)), slots := slots p @ [?new]\<rparr>" "r = Inr None"
      using assms(2) None by (auto simp: bp_put_def Let_def)
    have fresh: "frame_no (slot_frame (slots p ! j)) \<noteq> frame_no f" if "j < length (slots p)" for j
      using None that assms(1) unfolding bp_inv_def by (metis option.distinct(1))
    have "bp_inv q"
      using assms(1) True fresh by (auto simp: q bp_inv_def nth_append less_Suc_eq)
    moreover have "bp_contents q = (bp_contents p)(frame_no f \<mapsto> (frame_page f, dirty))"
      using bp_inv_index [OF assms(1)]
      by (auto simp: q bp_contents_def fun_eq_iff nth_append split: option.splits)
    ultimately show ?thesis
      using nc by (auto simp: q fun_eq_iff intro!: exI [of _ None])
  next
    case False
    obtain v p1 where v: "victim_slot pinned p = (v, p1)" by fastforce
    have ne: "slots p \<noteq> []" using False assms(1) by (auto simp: bp_inv_def)
    have p1: "bp_inv p1" "bp_contents p1 = bp_contents p" "capacity p1 = capacity p" "length (slots p1) = length (slots p)"
      using victim_loop_spec [OF assms(1) ne v [unfolded victim_slot_def]] by simp_all
    show ?thesis
    proof (cases v)
      case none: None
      then have "q = p1" "r = Inl (Fail Exhausted)"
        using assms(2) None False v by (auto simp: bp_put_def Let_def)
      then show ?thesis
        using p1 victim_slot_finds [of _ p pinned] v none by fastforce
    next
      case (Some j)
      have j: "j < length (slots p1)" and np: "\<not> pinned (frame_no (slot_frame (slots p1 ! j)))"
        using victim_loop_spec [OF assms(1) ne v [unfolded victim_slot_def]] Some by simp_all
      let ?ev = "slots p1 ! j"
      have q: "q = p1\<lparr>slots := (slots p1)[j := ?new],
          pool_index := ((pool_index p1)(frame_no (slot_frame ?ev) := None))(frame_no f \<mapsto> j)\<rparr>"
        "r = Inr (if slot_dirty ?ev then Some (slot_frame ?ev) else None)"
        using assms(2) None False v Some by (auto simp: bp_put_def Let_def)
      have cev: "bp_contents p (frame_no (slot_frame ?ev)) = Some (frame_page (slot_frame ?ev), slot_dirty ?ev)"
        using bp_contents_slot [OF p1(1) j] p1(2) by simp
      have nf: "frame_no (slot_frame ?ev) \<noteq> frame_no f"
        using cev nc by auto
      have fresh: "frame_no (slot_frame (slots p1 ! k)) \<noteq> frame_no f" if "k < length (slots p1)" for k
        using bp_contents_slot [OF p1(1) that] p1(2) nc by auto
      have only: "k = j" if "k < length (slots p1)" "frame_no (slot_frame (slots p1 ! k)) = frame_no (slot_frame ?ev)" for k
        using bp_inv_inj [OF p1(1) that(1) j that(2)] .
      have "bp_inv q"
        using p1(1) j fresh only nf nf [symmetric] by (auto simp: q bp_inv_def nth_list_update)
      moreover have "bp_contents q = (\<lambda>n. if n = frame_no f then Some (frame_page f, dirty)
          else if Some (frame_no (slot_frame ?ev)) = Some n then None else bp_contents p n)"
        using j only bp_inv_index [OF p1(1)] unfolding p1(2) [symmetric]
        by (fastforce simp: q bp_contents_def fun_eq_iff nth_list_update split: option.splits)
      ultimately show ?thesis
        using nc nf cev np p1(3) by (auto simp: q(2) q(1) fun_eq_iff intro!: exI [of _ "Some (frame_no (slot_frame ?ev))"])
    qed
  qed
qed

lemma bp_mark_clean_spec:
  assumes "bp_inv p"
  shows "bp_inv (bp_mark_clean no p)" "capacity (bp_mark_clean no p) = capacity p"
    "bp_contents (bp_mark_clean no p) =
       (\<lambda>n. if n = no then map_option (\<lambda>(img, _). (img, False)) (bp_contents p n) else bp_contents p n)"
proof -
  have "bp_inv (bp_mark_clean no p) \<and> capacity (bp_mark_clean no p) = capacity p \<and> bp_contents (bp_mark_clean no p) =
       (\<lambda>n. if n = no then map_option (\<lambda>(img, _). (img, False)) (bp_contents p n) else bp_contents p n)"
  proof (cases "pool_index p no")
    case None
    then show ?thesis using assms by (auto simp: bp_mark_clean_def bp_contents_def fun_eq_iff)
  next
    case (Some i)
    have i: "i < length (slots p)" "frame_no (slot_frame (slots p ! i)) = no"
      using bp_inv_index [OF assms Some] by auto
    then show ?thesis
      using bp_update_slot [OF assms i(1), of "(slots p ! i)\<lparr>slot_dirty := False\<rparr>"] bp_contents_slot [OF assms i(1)] Some
      by (auto simp: bp_mark_clean_def fun_eq_iff)
  qed
  then show "bp_inv (bp_mark_clean no p)" "capacity (bp_mark_clean no p) = capacity p"
    "bp_contents (bp_mark_clean no p) =
       (\<lambda>n. if n = no then map_option (\<lambda>(img, _). (img, False)) (bp_contents p n) else bp_contents p n)" by simp_all
qed

lemma length_swap_remove [simp]: "length (swap_remove i xs) = length xs - 1"
  by (simp add: swap_remove_def)

lemma nth_swap_remove:
  "i < length xs \<Longrightarrow> k < length xs - 1 \<Longrightarrow> swap_remove i xs ! k = (if k = i then xs ! (length xs - 1) else xs ! k)"
  by (cases "xs = []") (auto simp: swap_remove_def nth_butlast last_conv_nth nth_list_update)

lemma bp_drop_page_spec:
  assumes "bp_inv p"
  shows "bp_inv (bp_drop_page no p) \<and> bp_contents (bp_drop_page no p) = (bp_contents p)(no := None)
    \<and> capacity (bp_drop_page no p) = capacity p"
proof (cases "pool_index p no")
  case None
  then show ?thesis using assms by (auto simp: bp_drop_page_def bp_contents_def fun_eq_iff)
next
  case (Some i)
  define n where "n = length (slots p)"
  have i: "i < n" "frame_no (slot_frame (slots p ! i)) = no"
    using bp_inv_index [OF assms Some] by (auto simp: n_def)
  define mv where "mv = frame_no (slot_frame (slots p ! (n - 1)))"
  define q where "q = p\<lparr>slots := swap_remove i (slots p),
    pool_index := (if i \<noteq> n - 1 then ((pool_index p)(no := None))(mv \<mapsto> i) else (pool_index p)(no := None))\<rparr>"
  have h: "bp_drop_page no p = q\<lparr>hand := (if length (slots q) \<le> hand p \<and> slots q \<noteq> [] then 0 else hand p)\<rparr>"
    using Some i
    by (cases "i = n - 1") (auto simp: bp_drop_page_def q_def Let_def mv_def n_def nth_swap_remove)
  have inj: "j = k" if "j < n" "k < n" "frame_no (slot_frame (slots p ! j)) = frame_no (slot_frame (slots p ! k))" for j k
    using bp_inv_inj [OF assms] that by (simp add: n_def)
  have idx: "pool_index p m = Some k \<longleftrightarrow> k < n \<and> frame_no (slot_frame (slots p ! k)) = m" for m k
    using assms by (simp add: bp_inv_def n_def)
  have nth: "slots q ! k = (if k = i then slots p ! (n - 1) else slots p ! k)" if "k < n - 1" for k
    using that i(1) by (simp add: q_def n_def nth_swap_remove)
  have qi: "pool_index q m = Some k \<longleftrightarrow> k < n - 1 \<and> frame_no (slot_frame (slots q ! k)) = m" for m k
  proof (cases "k < n - 1")
    case True
    have ln: "n - 1 < n" "k < n" using i(1) True by simp_all
    show ?thesis
    proof (cases "k = i")
      case True
      then have "i \<noteq> n - 1" using \<open>k < n - 1\<close> by simp
      moreover have "mv \<noteq> no" using inj [of "n - 1" i] ln i \<open>i \<noteq> n - 1\<close> by (auto simp: mv_def)
      moreover have "pool_index p m = Some i \<longleftrightarrow> m = no" using idx [of m i] i by auto
      ultimately have "pool_index q m = Some i \<longleftrightarrow> m = mv" by (simp add: q_def)
      then show ?thesis
        using True nth [OF \<open>k < n - 1\<close>] \<open>k < n - 1\<close> by (auto simp: mv_def)
    next
      case False
      have "frame_no (slot_frame (slots p ! k)) \<noteq> no" using inj [of k i] ln i False by auto
      moreover have "frame_no (slot_frame (slots p ! k)) \<noteq> mv" using inj [of k "n - 1"] ln True by (auto simp: mv_def)
      ultimately show ?thesis
        using False True nth [OF True] idx [of m k] ln by (auto simp: q_def)
    qed
  next
    case False
    have "pool_index q m \<noteq> Some k"
    proof
      assume "pool_index q m = Some k"
      then consider "k = i" "i \<noteq> n - 1" | "m \<noteq> no" "pool_index p m = Some k" "i = n - 1 \<or> m \<noteq> mv"
        by (auto simp: q_def split: if_splits)
      then show False
      proof cases
        case 1
        with False i(1) show False by simp
      next
        case 2
        then have "k < n" "frame_no (slot_frame (slots p ! k)) = m" using idx by auto
        with False have "k = n - 1" by simp
        with 2 i(2) \<open>frame_no (slot_frame (slots p ! k)) = m\<close> show False by (auto simp: mv_def)
      qed
    qed
    with False show ?thesis by simp
  qed
  have inv: "bp_inv q"
    using assms qi i(1) by (auto simp: bp_inv_def q_def n_def)
  moreover have "bp_contents q m = ((bp_contents p)(no := None)) m" for m
  proof (cases "\<exists>k < n - 1. frame_no (slot_frame (slots q ! k)) = m")
    case True
    then obtain k where k: "k < n - 1" "frame_no (slot_frame (slots q ! k)) = m" by blast
    define k' where "k' = (if k = i then n - 1 else k)"
    have k': "k' < n" "slots q ! k = slots p ! k'" "k' \<noteq> i" using k(1) i(1) nth [OF k(1)] by (auto simp: k'_def)
    have "pool_index q m = Some k" using k qi by simp
    moreover have "pool_index p m = Some k'" using k k' idx by simp
    moreover have "m \<noteq> no" using inj [of k' i] k k' i by auto
    ultimately show ?thesis using k' by (simp add: bp_contents_def)
  next
    case False
    then have "pool_index q m = None" using qi by (metis not_Some_eq)
    moreover have "pool_index p m = None \<or> m = no"
    proof (rule ccontr)
      assume "\<not> (pool_index p m = None \<or> m = no)"
      then obtain k where k: "pool_index p m = Some k" "m \<noteq> no" by auto
      then have k2: "k < n" "frame_no (slot_frame (slots p ! k)) = m" "k \<noteq> i" using idx i by auto
      show False
      proof (cases "k = n - 1")
        case True
        then have "i < n - 1" using i(1) k2 by simp
        with False nth [OF this] k2 True show False by auto
      next
        case False2: False
        then have "k < n - 1" using k2 by simp
        with False nth [OF this] k2 show False by auto
      qed
    qed
    ultimately show ?thesis by (auto simp: bp_contents_def)
  qed
  ultimately show ?thesis
    by (auto simp: h fun_eq_iff) (auto simp: q_def)
qed

section \<open>The cache contract\<close>

locale page_cache =
  fixes get :: "u32 \<Rightarrow> 'c \<Rightarrow> frame option \<times> 'c"
    and put :: "(u32 \<Rightarrow> bool) \<Rightarrow> frame \<Rightarrow> bool \<Rightarrow> ('c, frame option) op"
    and mark_clean drop_pages :: "u32 list \<Rightarrow> 'c \<Rightarrow> 'c"
    and clear :: "'c \<Rightarrow> 'c"
    and inv :: "'c \<Rightarrow> bool"
    and contents :: "'c \<Rightarrow> u32 \<Rightarrow> (bytes \<times> bool) option"
  assumes get_law: "inv c \<Longrightarrow> get no c = (r, c') \<Longrightarrow>
      inv c' \<and> contents c' = contents c \<and> map_option frame_page r = map_option fst (contents c no)"
    and put_err: "inv c \<Longrightarrow> put pinned f d c = (Inl e, c') \<Longrightarrow> inv c' \<and> contents c' = contents c \<and> e = Fail Exhausted"
    and put_ok: "inv c \<Longrightarrow> put pinned f d c = (Inr ev, c') \<Longrightarrow> inv c' \<and> (\<exists>forgotten.
        contents c' = (\<lambda>n. if n = frame_no f then
             Some (frame_page f, d \<or> (\<exists>img. contents c (frame_no f) = Some (img, True)))
           else if forgotten = Some n then None else contents c n)
        \<and> forgotten \<noteq> Some (frame_no f)
        \<and> (case ev of
             None \<Rightarrow> (case forgotten of None \<Rightarrow> True | Some n \<Rightarrow> (\<exists>img. contents c n = Some (img, False)))
           | Some g \<Rightarrow> forgotten = Some (frame_no g) \<and> contents c (frame_no g) = Some (frame_page g, True)))"
    and put_unpinned: "inv c \<Longrightarrow> (\<And>n. \<not> pinned n) \<Longrightarrow> \<exists>ev c'. put pinned f d c = (Inr ev, c')"
    and mark_clean_law: "inv c \<Longrightarrow> inv (mark_clean ns c) \<and> contents (mark_clean ns c) =
        (\<lambda>n. if n \<in> set ns then map_option (\<lambda>(img, _). (img, False)) (contents c n) else contents c n)"
    and drop_law: "inv c \<Longrightarrow> inv (drop_pages ns c) \<and> contents (drop_pages ns c) =
        (\<lambda>n. if n \<in> set ns then None else contents c n)"
    and clear_law: "inv c \<Longrightarrow> inv (clear c) \<and> contents (clear c) = Map.empty"
begin

text \<open>
  Through a cache over a backing store \<open>u\<close> a page reads as its cached image, or from the store. The
  cache is coherent when its clean pages agree with the store, so forgetting one loses nothing.
\<close>

definition through :: "'c \<Rightarrow> (u32 \<Rightarrow> bytes) \<Rightarrow> u32 \<Rightarrow> bytes" where
  "through c u no = (case contents c no of Some (img, _) \<Rightarrow> img | None \<Rightarrow> u no)"

definition coherent :: "'c \<Rightarrow> (u32 \<Rightarrow> bytes) \<Rightarrow> bool" where
  "coherent c u \<longleftrightarrow> (\<forall>no img. contents c no = Some (img, False) \<longrightarrow> u no = img)"

text \<open>The store after an eviction has the page that was handed back.\<close>

definition spill :: "frame option \<Rightarrow> (u32 \<Rightarrow> bytes) \<Rightarrow> u32 \<Rightarrow> bytes" where
  "spill ev u = (case ev of None \<Rightarrow> u | Some g \<Rightarrow> u(frame_no g := frame_page g))"

lemma get_hit_or_miss:
  assumes "inv c" "get no c = (r, c')"
  shows "case r of Some f \<Rightarrow> frame_page f = through c u no | None \<Rightarrow> contents c no = None"
  using get_law [OF assms] by (cases r; cases "contents c no") (auto simp: through_def)

lemma put_through:
  assumes "inv c" "put pinned f d c = (Inr ev, c')" "coherent c u"
  shows "through c' (spill ev u) = (through c u)(frame_no f := frame_page f)"
proof -
  from put_ok [OF assms(1,2)] obtain fg where fg:
    "contents c' = (\<lambda>n. if n = frame_no f then
             Some (frame_page f, d \<or> (\<exists>img. contents c (frame_no f) = Some (img, True)))
           else if fg = Some n then None else contents c n)"
    "case ev of None \<Rightarrow> (case fg of None \<Rightarrow> True | Some n \<Rightarrow> (\<exists>img. contents c n = Some (img, False)))
     | Some g \<Rightarrow> fg = Some (frame_no g) \<and> contents c (frame_no g) = Some (frame_page g, True)"
    by blast
  show ?thesis
  proof (rule ext)
    fix n
    show "through c' (spill ev u) n = ((through c u)(frame_no f := frame_page f)) n"
      using fg(2) assms(3)
      by (cases ev; cases fg) (auto simp: through_def spill_def fg(1) coherent_def split: option.splits)
  qed
qed

lemma put_coherent:
  assumes "inv c" "put pinned f d c = (Inr ev, c')" "coherent c u" "d \<or> u (frame_no f) = frame_page f"
  shows "coherent c' (spill ev u)"
proof -
  from put_ok [OF assms(1,2)] obtain fg where fg:
    "contents c' = (\<lambda>n. if n = frame_no f then
             Some (frame_page f, d \<or> (\<exists>img. contents c (frame_no f) = Some (img, True)))
           else if fg = Some n then None else contents c n)" "fg \<noteq> Some (frame_no f)"
    "case ev of None \<Rightarrow> (case fg of None \<Rightarrow> True | Some n \<Rightarrow> (\<exists>img. contents c n = Some (img, False)))
     | Some g \<Rightarrow> fg = Some (frame_no g) \<and> contents c (frame_no g) = Some (frame_page g, True)"
    by blast
  show ?thesis
    using fg(2,3) assms(3,4)
    by (cases ev) (auto simp: coherent_def spill_def fg(1) split: if_splits)
qed

end

section \<open>The sharded pool implements the contract\<close>

definition sp_inv :: "shared_pool \<Rightarrow> bool" where
  "sp_inv sh \<longleftrightarrow> sh \<noteq> [] \<and> (\<forall>i < length sh. bp_inv (sh ! i) \<and>
     (\<forall>no. bp_contents (sh ! i) no \<noteq> None \<longrightarrow> shard_of sh no = i))"

definition sp_contents :: "shared_pool \<Rightarrow> u32 \<Rightarrow> (bytes \<times> bool) option" where
  "sp_contents sh no = bp_contents (sh ! shard_of sh no) no"

lemma shard_of_less: "sp_inv sh \<Longrightarrow> shard_of sh no < length sh"
  by (simp add: sp_inv_def shard_of_def)

lemma shard_of_update [simp]: "shard_of (sh[i := p]) no = shard_of sh no"
  by (simp add: shard_of_def)

text \<open>An operation on one shard that only adds a page the shard owns keeps the routing.\<close>

lemma sp_update:
  assumes "sp_inv sh" "i < length sh" "bp_inv p"
    and "\<And>no. bp_contents p no \<noteq> None \<Longrightarrow> bp_contents (sh ! i) no \<noteq> None \<or> shard_of sh no = i"
  shows "sp_inv (sh[i := p])"
    and "sp_contents (sh[i := p]) = (\<lambda>no. if shard_of sh no = i then bp_contents p no else sp_contents sh no)"
proof -
  show "sp_inv (sh[i := p])"
    using assms(1,2,3) assms(4) unfolding sp_inv_def
    by (simp add: nth_list_update) (metis not_None_eq)
  show "sp_contents (sh[i := p]) = (\<lambda>no. if shard_of sh no = i then bp_contents p no else sp_contents sh no)"
    using assms(2) by (auto simp: sp_contents_def fun_eq_iff nth_list_update)
qed

lemma sp_inv_shard: "sp_inv sh \<Longrightarrow> bp_inv (sh ! shard_of sh no)"
  using shard_of_less by (simp add: sp_inv_def)

lemma sp_inv_route: "sp_inv sh \<Longrightarrow> i < length sh \<Longrightarrow> bp_contents (sh ! i) n \<noteq> None \<Longrightarrow> shard_of sh n = i"
  by (simp add: sp_inv_def)

lemma sp_get_spec:
  assumes "sp_inv sh" "sp_get no sh = (r, sh')"
  shows "sp_inv sh' \<and> sp_contents sh' = sp_contents sh \<and> map_option frame_page r = map_option fst (sp_contents sh no)"
proof -
  let ?i = "shard_of sh no"
  obtain p where p: "bp_lookup no (sh ! ?i) = (r, p)" "sh' = sh[?i := p]"
    using assms(2) by (auto simp: sp_get_def Let_def split: prod.splits)
  note l = bp_lookup_spec [OF sp_inv_shard [OF assms(1)] p(1)]
  show ?thesis
    using sp_update [OF assms(1) shard_of_less [OF assms(1)] l(1)] l(2,4)
    by (auto simp: p(2) sp_contents_def fun_eq_iff)
qed

lemma sp_put_spec:
  assumes "sp_inv sh" "sp_put pinned f d sh = (r, sh')"
  shows "sp_inv sh' \<and>
   (case r of
      Inl e \<Rightarrow> e = Fail Exhausted \<and> sp_contents sh' = sp_contents sh \<and> (\<exists>n. pinned n)
    | Inr ev \<Rightarrow> \<exists>forgotten.
        sp_contents sh' = (\<lambda>n. if n = frame_no f then
             Some (frame_page f, d \<or> (\<exists>img. sp_contents sh (frame_no f) = Some (img, True)))
           else if forgotten = Some n then None else sp_contents sh n)
        \<and> forgotten \<noteq> Some (frame_no f) \<and> (\<forall>n. forgotten = Some n \<longrightarrow> \<not> pinned n)
        \<and> (case ev of
             None \<Rightarrow> (case forgotten of None \<Rightarrow> True | Some n \<Rightarrow> (\<exists>img. sp_contents sh n = Some (img, False)))
           | Some g \<Rightarrow> forgotten = Some (frame_no g) \<and> sp_contents sh (frame_no g) = Some (frame_page g, True)))"
proof -
  let ?i = "shard_of sh (frame_no f)"
  obtain p where p: "bp_put pinned f d (sh ! ?i) = (r, p)" "sh' = sh[?i := p]"
    using assms(2) by (auto simp: sp_put_def Let_def split: prod.splits)
  note ii = sp_inv_shard [OF assms(1), of "frame_no f"] and il = shard_of_less [OF assms(1), of "frame_no f"]
  note route = sp_inv_route [OF assms(1) il]
  note l = bp_put_spec [OF ii p(1)]
  show ?thesis
  proof (cases r)
    case (Inl e)
    then have c: "bp_contents p = bp_contents (sh ! ?i)" "e = Fail Exhausted"
      "\<forall>k < length (slots (sh ! ?i)). pinned (frame_no (slot_frame (slots (sh ! ?i) ! k)))" and pi: "bp_inv p"
      using l by simp_all
    have "slots (sh ! ?i) \<noteq> []"
      using p(1) Inl ii by (auto simp: bp_put_def Let_def bp_inv_def split: option.splits if_splits prod.splits)
    then have "\<exists>n. pinned n" using c(3) by auto
    moreover have "sp_inv sh'" "sp_contents sh' = sp_contents sh"
      using sp_update [OF assms(1) il pi] c(1) by (auto simp: p(2) sp_contents_def fun_eq_iff)
    ultimately show ?thesis using Inl c(2) by simp
  next
    case (Inr ev)
    then obtain fg where fg: "bp_contents p = (\<lambda>n. if n = frame_no f then
             Some (frame_page f, d \<or> (\<exists>img. bp_contents (sh ! ?i) (frame_no f) = Some (img, True)))
           else if fg = Some n then None else bp_contents (sh ! ?i) n)"
       "fg \<noteq> Some (frame_no f) \<and> (\<forall>n. fg = Some n \<longrightarrow> \<not> pinned n)"
       "case ev of None \<Rightarrow> (case fg of None \<Rightarrow> True | Some n \<Rightarrow> (\<exists>img. bp_contents (sh ! ?i) n = Some (img, False)))
           | Some g \<Rightarrow> fg = Some (frame_no g) \<and> bp_contents (sh ! ?i) (frame_no g) = Some (frame_page g, True)"
      and pi: "bp_inv p"
      using l by auto
    have fr: "shard_of sh n = ?i" if "fg = Some n" for n
      using fg(3) route [of n] that by (cases ev) auto
    have own: "bp_contents (sh ! ?i) n = sp_contents sh n" if "fg = Some n" for n
      using fr [OF that] by (simp add: sp_contents_def)
    have keep: "bp_contents p m \<noteq> None \<Longrightarrow> bp_contents (sh ! ?i) m \<noteq> None \<or> shard_of sh m = ?i" for m
      by (auto simp: fg(1) split: if_splits)
    have "sp_inv sh'" and "sp_contents sh' = (\<lambda>no. if shard_of sh no = ?i then bp_contents p no else sp_contents sh no)"
      using sp_update [OF assms(1) il pi keep, folded p(2)] by blast+
    moreover from this(2) have "sp_contents sh' = (\<lambda>n. if n = frame_no f then
             Some (frame_page f, d \<or> (\<exists>img. sp_contents sh (frame_no f) = Some (img, True)))
           else if fg = Some n then None else sp_contents sh n)"
      using fr by (auto simp: fg(1) fun_eq_iff sp_contents_def)
    ultimately show ?thesis
      using Inr fg(2,3) own by (auto simp: intro!: exI [of _ fg] split: option.splits)
  qed
qed

lemma sp_mark_clean_spec:
  assumes "sp_inv sh"
  shows "sp_inv (sp_mark_clean ns sh) \<and> sp_contents (sp_mark_clean ns sh) =
    (\<lambda>n. if n \<in> set ns then map_option (\<lambda>(img, _). (img, False)) (sp_contents sh n) else sp_contents sh n)"
  using assms
proof (induction ns arbitrary: sh)
  case Nil
  then show ?case by (simp add: sp_mark_clean_def)
next
  case (Cons no ns)
  define sh1 where "sh1 = sh[shard_of sh no := bp_mark_clean no (sh ! shard_of sh no)]"
  note mc = bp_mark_clean_spec [OF sp_inv_shard [OF Cons.prems, of no], of no]
  have keep: "bp_contents (bp_mark_clean no (sh ! shard_of sh no)) m \<noteq> None \<Longrightarrow>
      bp_contents (sh ! shard_of sh no) m \<noteq> None \<or> shard_of sh m = shard_of sh no" for m
    by (auto simp: mc(3) split: if_splits)
  note u = sp_update [OF Cons.prems shard_of_less [OF Cons.prems] mc(1) keep, folded sh1_def]
  have "sp_inv sh1" by (rule u(1))
  moreover have "sp_contents sh1 = (\<lambda>n. if n = no then map_option (\<lambda>(img, _). (img, False)) (sp_contents sh n) else sp_contents sh n)"
    using u(2) by (auto simp: mc(3) fun_eq_iff sp_contents_def split: if_splits)
  moreover have "sp_mark_clean (no # ns) sh = sp_mark_clean ns sh1"
    by (simp add: sp_mark_clean_def sh1_def Let_def)
  ultimately show ?case
    using Cons.IH [of sh1] by (cases "sp_contents sh no") (auto simp: fun_eq_iff)
qed

lemma sp_drop_pages_spec:
  assumes "sp_inv sh"
  shows "sp_inv (sp_drop_pages ns sh) \<and> sp_contents (sp_drop_pages ns sh) =
    (\<lambda>n. if n \<in> set ns then None else sp_contents sh n)"
  using assms
proof (induction ns arbitrary: sh)
  case Nil
  then show ?case by (simp add: sp_drop_pages_def)
next
  case (Cons no ns)
  define sh1 where "sh1 = sh[shard_of sh no := bp_drop_page no (sh ! shard_of sh no)]"
  have mc: "bp_inv (bp_drop_page no (sh ! shard_of sh no))"
    "bp_contents (bp_drop_page no (sh ! shard_of sh no)) = (bp_contents (sh ! shard_of sh no))(no := None)"
    using bp_drop_page_spec [OF sp_inv_shard [OF Cons.prems, of no], of no] by simp_all
  have keep: "bp_contents (bp_drop_page no (sh ! shard_of sh no)) m \<noteq> None \<Longrightarrow>
      bp_contents (sh ! shard_of sh no) m \<noteq> None \<or> shard_of sh m = shard_of sh no" for m
    by (auto simp: mc(2) split: if_splits)
  note u = sp_update [OF Cons.prems shard_of_less [OF Cons.prems] mc(1) keep, folded sh1_def]
  have "sp_inv sh1" by (rule u(1))
  moreover have "sp_contents sh1 = (\<lambda>n. if n = no then None else sp_contents sh n)"
    using u(2) by (auto simp: mc(2) fun_eq_iff sp_contents_def split: if_splits)
  moreover have "sp_drop_pages (no # ns) sh = sp_drop_pages ns sh1"
    by (simp add: sp_drop_pages_def sh1_def Let_def)
  ultimately show ?case
    using Cons.IH [of sh1] by (auto simp: fun_eq_iff)
qed

lemma sp_put_error:
  "sp_inv c \<Longrightarrow> sp_put pinned f d c = (Inl e, c') \<Longrightarrow> sp_inv c' \<and> sp_contents c' = sp_contents c \<and> e = Fail Exhausted"
  using sp_put_spec [of c pinned f d "Inl e" c'] by simp

lemma sp_put_success:
  "sp_inv c \<Longrightarrow> (\<And>n. \<not> pinned n) \<Longrightarrow> \<exists>ev c'. sp_put pinned f d c = (Inr ev, c')"
proof (cases "sp_put pinned f d c")
  case (Pair r c')
  assume "sp_inv c" "\<And>n. \<not> pinned n"
  with sp_put_spec [OF this(1) Pair] Pair show ?thesis by (cases r) auto
qed

lemma sp_clear_spec: "sp_inv c \<Longrightarrow> sp_inv (sp_clear c) \<and> sp_contents (sp_clear c) = Map.empty"
  using shard_of_less [of c]
  by (auto simp: sp_inv_def sp_clear_def bp_clear_def bp_inv_def sp_contents_def bp_contents_def shard_of_def fun_eq_iff)

interpretation shared_pool: page_cache sp_get sp_put sp_mark_clean sp_drop_pages sp_clear sp_inv sp_contents
  apply unfold_locales
  subgoal by (rule sp_get_spec)
  subgoal by (rule sp_put_error)
  subgoal for c pinned f d ev c' using sp_put_spec [of c pinned f d "Inr ev" c'] by (simp only: sum.case) blast
  subgoal by (rule sp_put_success)
  subgoal by (rule sp_mark_clean_spec)
  subgoal by (rule sp_drop_pages_spec)
  subgoal by (rule sp_clear_spec)
  done

section \<open>Properties\<close>

lemma sum_list_split: "sum_list (map (\<lambda>i. q + (if i < r then 1 else 0)) [0..<n]) = n * q + min r n" for q r n :: nat
  by (induction n) (auto simp: min_def)

text \<open>A pool of a given size is split into at most sixteen shards whose capacities add up to
  exactly that size (at least one), each shard has room for at least one page, and it starts empty.\<close>

theorem pool_capacity_split:
  "sum_list (map capacity (with_capacity n)) = max n 1 \<and> length (with_capacity n) \<le> POOL_SHARDS
   \<and> list_all (\<lambda>p. 0 < capacity p) (with_capacity n) \<and> sp_inv (with_capacity n)
   \<and> sp_contents (with_capacity n) = Map.empty"
proof -
  define c k where "c = max n 1" "k = min c POOL_SHARDS"
  have k: "0 < k" "k \<le> c" by (auto simp: c_k_def POOL_SHARDS_def)
  have w: "with_capacity n = map (\<lambda>i. bp_new (c div k + (if i < c mod k then 1 else 0))) [0..<k]"
    by (simp add: with_capacity_def c_k_def Let_def)
  have pos: "0 < c div k" using k by (simp add: div_greater_zero_iff)
  have "map capacity (with_capacity n) = map (\<lambda>i. c div k + (if i < c mod k then 1 else 0)) [0..<k]"
    by (simp add: w bp_new_def)
  moreover have "min (c mod k) k = c mod k" using k by (simp add: min_def less_imp_le)
  ultimately have "sum_list (map capacity (with_capacity n)) = c"
    by (simp only: sum_list_split) simp
  moreover have "sp_inv (with_capacity n)"
    using k pos by (auto simp: w sp_inv_def bp_inv_def bp_new_def bp_contents_def)
  moreover have "shard_of (with_capacity n) no < k" for no using k by (simp add: shard_of_def w)
  then have "sp_contents (with_capacity n) = Map.empty"
    by (auto simp: w sp_contents_def bp_contents_def bp_new_def fun_eq_iff)
  moreover have "length (with_capacity n) \<le> POOL_SHARDS" by (simp add: w c_k_def)
  moreover have "list_all (\<lambda>p. 0 < capacity p) (with_capacity n)"
    using pos by (auto simp: w bp_new_def list_all_iff)
  ultimately show ?thesis
    by (simp add: c_k_def(1))
qed

text \<open>Admitting a page to the pool makes it resident with the given image, keeps every pinned page,
  and lets at most one other page go: a clean page silently, a dirty page only by handing it to the
  caller to spill. It fails only for want of an unpinned frame, and then the pool's pages are intact.\<close>

theorem pool_put_contract:
  assumes "sp_inv sh" "sp_put pinned f d sh = (r, sh')"
  shows "sp_inv sh' \<and> (case r of
      Inl e \<Rightarrow> e = Fail Exhausted \<and> (\<exists>n. pinned n) \<and> sp_contents sh' = sp_contents sh
    | Inr ev \<Rightarrow> (\<exists>dirty. sp_contents sh' (frame_no f) = Some (frame_page f, dirty))
        \<and> (\<forall>n. n \<noteq> frame_no f \<longrightarrow> sp_contents sh' n = sp_contents sh n
             \<or> \<not> pinned n \<and> (\<exists>img. sp_contents sh n = Some (img, ev \<noteq> None)
                 \<and> (ev \<noteq> None \<longrightarrow> ev = Some \<lparr>frame_no = n, frame_page = img\<rparr>))))"
proof (cases r)
  case (Inl e)
  with sp_put_spec [OF assms] show ?thesis by simp
next
  case (Inr ev)
  with sp_put_spec [OF assms] show ?thesis by (cases ev) (auto split: option.splits if_splits)
qed

theorem pool_put_contract_witness:
  "sp_inv (with_capacity 4) \<and> (\<exists>r sh'. sp_put (\<lambda>_. False) \<lparr>frame_no = 7, frame_page = zero_page\<rparr> True (with_capacity 4) = (r, sh') \<and> sp_inv sh')"
proof -
  have i: "sp_inv (with_capacity 4)"
    by (auto simp: with_capacity_def Let_def POOL_SHARDS_def sp_inv_def bp_inv_def bp_new_def bp_contents_def)
  obtain r sh' where r: "sp_put (\<lambda>_. False) \<lparr>frame_no = 7, frame_page = zero_page\<rparr> True (with_capacity 4) = (r, sh')"
    by fastforce
  from pool_put_contract [OF i r] i r show ?thesis by blast
qed

text \<open>C36: The CLOCK sweep always ends and succeeds when it can: if any frame is unpinned, at most two
  turns of the hand find an unpinned victim, and the sweep changes nothing but reference bits.\<close>

theorem clock_finds_victim:
  assumes "bp_inv p" "i < length (slots p)" "\<not> pinned (frame_no (slot_frame (slots p ! i)))"
  shows "\<exists>v q. victim_slot pinned p = (Some v, q) \<and> v < length (slots q)
     \<and> \<not> pinned (frame_no (slot_frame (slots q ! v))) \<and> bp_inv q \<and> bp_contents q = bp_contents p"
proof -
  obtain v q where v: "victim_slot pinned p = (Some v, q)"
    using victim_slot_finds [of i p pinned, OF assms(2,3)] by blast
  have "slots p \<noteq> []" using assms(2) by auto
  from victim_loop_spec [OF assms(1) this v [unfolded victim_slot_def]] v show ?thesis by auto
qed

theorem clock_finds_victim_witness:
  "\<exists>v q. victim_slot (\<lambda>n. n = 1) \<lparr>capacity = 2,
      slots = [\<lparr>slot_frame = \<lparr>frame_no = 1, frame_page = []\<rparr>, slot_dirty = False, referenced = True\<rparr>,
               \<lparr>slot_frame = \<lparr>frame_no = 2, frame_page = []\<rparr>, slot_dirty = True, referenced = True\<rparr>],
      pool_index = [1 \<mapsto> 0, 2 \<mapsto> 1], hand = 0\<rparr> = (Some v, q)"
proof -
  let ?p = "\<lparr>capacity = 2,
      slots = [\<lparr>slot_frame = \<lparr>frame_no = 1, frame_page = []\<rparr>, slot_dirty = False, referenced = True\<rparr>,
               \<lparr>slot_frame = \<lparr>frame_no = 2, frame_page = []\<rparr>, slot_dirty = True, referenced = True\<rparr>],
      pool_index = [1 \<mapsto> 0, 2 \<mapsto> 1], hand = 0\<rparr> :: buffer_pool"
  have inv: "bp_inv ?p" by (auto simp: bp_inv_def less_Suc_eq nth_Cons split: nat.splits)
  show ?thesis
    using clock_finds_victim [OF inv, of 1 "\<lambda>n. n = 1"] by auto
qed

end
