(* ===== verification/Pager.thy ===== *)
theory Pager
  imports Wal_Log Buffer_Pool
begin

text \<open>
  The pager, \<^verbatim>\<open>storage/pager.rs\<close>: the database header, page reads and writes through the shared
  pool, allocation and the free list, commit, rollback and opening a file. One pager's private state
  (its log, the pages it dirtied, spilled and allocated) and the state it shares with its peers (the
  header and the pool) form one record; a peer opened on the same file starts from the shared part.
  Hash sets are lists without repetitions, in an iteration order the theorems do not depend on.
  \<open>pins\<close> is the schedule of the pages pinned by live \<^verbatim>\<open>PageRef\<close>s at each admission (none when it is
  exhausted). Mutexes and page latches are not modelled: each operation runs as one step.
\<close>

section \<open>State\<close>

record meta =
  page_count :: u32
  freelist_head :: u32
  catalog_root :: u32
  next_tx_id :: u64

record pager = wal +
  meta :: meta
  next_wal_id :: u32
  schema_version :: u64
  pool :: shared_pool
  pins :: "u32 list list"
  wal_index :: "(u32 \<times> nat) list"
  dirty_pages :: "u32 list"
  allocated_pages :: "u32 list"
  pending_freelist :: "u32 list"

section \<open>The header page\<close>

definition MAGIC :: bytes where
  "MAGIC = [80, 82, 69, 72, 78, 68, 66, 12]"

definition HDR_PAGE_SIZE :: nat where "HDR_PAGE_SIZE = 8"
definition HDR_PAGE_COUNT :: nat where "HDR_PAGE_COUNT = 12"
definition HDR_FREELIST :: nat where "HDR_FREELIST = 16"
definition HDR_CATALOG :: nat where "HDR_CATALOG = 20"
definition HDR_NEXT_TX :: nat where "HDR_NEXT_TX = 24"

lemmas header_consts = HDR_PAGE_SIZE_def HDR_PAGE_COUNT_def HDR_FREELIST_def HDR_CATALOG_def HDR_NEXT_TX_def

text \<open>The fields tile the first 32 bytes, so writing them in turn is writing their concatenation.\<close>

definition encode_header :: "meta \<Rightarrow> bytes" where
  "encode_header m = MAGIC @ u32_le (of_nat PAGE_SIZE) @ u32_le (page_count m) @ u32_le (freelist_head m)
     @ u32_le (catalog_root m) @ u64_le (next_tx_id m) @ replicate (PAGE_SIZE - 32) 0"

definition decode_header :: "bytes \<Rightarrow> meta result" where
  "decode_header buf =
     (if take 8 buf \<noteq> MAGIC then Inl (Fail Corruption)
      else if unat (u32_of_le (take 4 (drop HDR_PAGE_SIZE buf))) \<noteq> PAGE_SIZE then Inl (Fail Corruption)
      else Inr \<lparr>page_count = u32_of_le (take 4 (drop HDR_PAGE_COUNT buf)),
                freelist_head = u32_of_le (take 4 (drop HDR_FREELIST buf)),
                catalog_root = u32_of_le (take 4 (drop HDR_CATALOG buf)),
                next_tx_id = u64_of_le (take 8 (drop HDR_NEXT_TX buf))\<rparr>)"

section \<open>The shared header\<close>

definition set_catalog_root :: "u32 \<Rightarrow> pager \<Rightarrow> pager" where
  "set_catalog_root r s = s\<lparr>meta := (meta s)\<lparr>catalog_root := r\<rparr>\<rparr>"

definition bump_next_tx_id_to :: "u64 \<Rightarrow> pager \<Rightarrow> pager" where
  "bump_next_tx_id_to t s = (if next_tx_id (meta s) < t then s\<lparr>meta := (meta s)\<lparr>next_tx_id := t\<rparr>\<rparr> else s)"

definition bump_schema_version :: "pager \<Rightarrow> u64 \<times> pager" where
  "bump_schema_version s = (schema_version s + 1, s\<lparr>schema_version := schema_version s + 1\<rparr>)"

definition install_meta :: "meta \<Rightarrow> pager \<Rightarrow> pager" where
  "install_meta m s = s\<lparr>meta := m\<rparr>"

definition mint_wal_id :: "pager \<Rightarrow> u32 \<times> pager" where
  "mint_wal_id s = (next_wal_id s, s\<lparr>next_wal_id := next_wal_id s + 1\<rparr>)"

section \<open>Pages\<close>

definition hs_insert :: "'a \<Rightarrow> 'a list \<Rightarrow> 'a list" where
  "hs_insert x xs = (if x \<in> set xs then xs else xs @ [x])"

definition wi_insert :: "u32 \<Rightarrow> nat \<Rightarrow> (u32 \<times> nat) list \<Rightarrow> (u32 \<times> nat) list" where
  "wi_insert no off wi = (no, off) # filter (\<lambda>e. fst e \<noteq> no) wi"

definition pool_get :: "u32 \<Rightarrow> pager \<Rightarrow> bytes option \<times> pager" where
  "pool_get no s = (let (r, p) = sp_get no (pool s) in (map_option frame_page r, s\<lparr>pool := p\<rparr>))"

definition pool_put :: "u32 \<Rightarrow> bytes \<Rightarrow> bool \<Rightarrow> (pager, frame option) op" where
  "pool_put no page dirty s =
     (let pinned = (case pins s of [] \<Rightarrow> [] | ps # _ \<Rightarrow> ps);
          (r, p) = sp_put (\<lambda>n. n \<in> set pinned) \<lparr>frame_no = no, frame_page = page\<rparr> dirty (pool s) in
      (r, s\<lparr>pool := p, pins := tl (pins s)\<rparr>))"

definition admit :: "u32 \<Rightarrow> bytes \<Rightarrow> bool \<Rightarrow> (pager, bytes) op" where
  "admit no page dirty =
     sbind (pool_put no page dirty) (\<lambda>ev.
       case ev of
         None \<Rightarrow> sret page
       | Some g \<Rightarrow> sbind (append_page (frame_no g) (frame_page g)) (\<lambda>off s.
           (Inr page, s\<lparr>wal_index := wi_insert (frame_no g) off (wal_index s)\<rparr>)))"

definition read_page :: "u32 \<Rightarrow> (pager, bytes) op" where
  "read_page no s =
     (case pool_get no s of
        (Some page, s) \<Rightarrow> (Inr page, s)
      | (None, s) \<Rightarrow>
          (case map_of (wal_index s) no of
             Some off \<Rightarrow> sbind (read_page_at off) (\<lambda>page. admit no page True) s
           | None \<Rightarrow>
               if page_count (meta s) \<le> no then (Inl (Fail Corruption), s)
               else sbind io (\<lambda>_ s. admit no (page_at (db_file s) (unat no)) False s) s))"

definition write_page :: "u32 \<Rightarrow> bytes \<Rightarrow> (pager, unit) op" where
  "write_page no buf =
     sbind (admit no buf True) (\<lambda>_ s. (Inr (), s\<lparr>dirty_pages := hs_insert no (dirty_pages s)\<rparr>))"

definition stage_alloc :: "u32 \<Rightarrow> (pager, u32) op" where
  "stage_alloc no =
     sbind (write_page no zero_page) (\<lambda>_ s.
       (Inr no, s\<lparr>allocated_pages := hs_insert no (allocated_pages s)\<rparr>))"

definition alloc_page :: "(pager, u32) op" where
  "alloc_page s =
     (if pending_freelist s \<noteq> [] then
        stage_alloc (last (pending_freelist s)) (s\<lparr>pending_freelist := butlast (pending_freelist s)\<rparr>)
      else if freelist_head (meta s) \<noteq> 0 then
        let head = freelist_head (meta s) in
        sbind (read_page head) (\<lambda>page s.
          stage_alloc head (s\<lparr>meta := (meta s)\<lparr>freelist_head := u32_of_le (take 4 page)\<rparr>\<rparr>)) s
      else
        let n = page_count (meta s) in
        stage_alloc n (s\<lparr>meta := (meta s)\<lparr>page_count := n + 1\<rparr>\<rparr>))"

definition free_page :: "u32 \<Rightarrow> (pager, unit) op" where
  "free_page no s =
     sbind (write_page no (u32_le (freelist_head (meta s)) @ replicate (PAGE_SIZE - 4) 0)) (\<lambda>_ s.
       (Inr (), s\<lparr>meta := (meta s)\<lparr>freelist_head := no\<rparr>\<rparr>)) s"

section \<open>Transactions\<close>

primrec flush_dirty :: "u32 list \<Rightarrow> (pager, unit) op" where
  "flush_dirty [] s = (Inr (), s)"
| "flush_dirty (no # rest) s =
     (if map_of (wal_index s) no \<noteq> None then flush_dirty rest s
      else (case pool_get no s of
          (None, s) \<Rightarrow> (Inl (Fail Corruption), s)
        | (Some page, s) \<Rightarrow> sbind (append_page no page) (\<lambda>_. flush_dirty rest) s))"

definition commit_apply :: "(pager, unit) op" where
  "commit_apply =
     sbind (\<lambda>s. flush_dirty (dirty_pages s) s) (\<lambda>_.
     sbind seal (\<lambda>_.
     sbind apply_log (\<lambda>_.
     sbind (\<lambda>s. write_db 0 (encode_header (meta s)) s) (\<lambda>_. io))))"

definition commit :: "(pager, unit) op" where
  "commit s =
     (if dirty_pages s = [] \<and> wal_index s = [] then (Inr (), s)
      else
        sbind commit_apply (\<lambda>_.
        sbind reset (\<lambda>_ s.
          (Inr (), s\<lparr>pool := sp_mark_clean (dirty_pages s) (pool s), dirty_pages := [],
                     allocated_pages := [], wal_index := []\<rparr>)))
        (s\<lparr>dirty_pages := filter (\<lambda>n. n \<noteq> 0) (dirty_pages s)\<rparr>))"

definition rollback :: "pager \<Rightarrow> pager" where
  "rollback s = discard (s\<lparr>pool := sp_drop_pages (dirty_pages s) (pool s),
     pending_freelist := pending_freelist s @ allocated_pages s, allocated_pages := [],
     dirty_pages := [], wal_index := []\<rparr>)"

text \<open>The loop of \<^verbatim>\<open>replace_with\<close>: every page of the source file goes through the log.\<close>

primrec replace_loop :: "nat \<Rightarrow> nat \<Rightarrow> bytes \<Rightarrow> meta \<Rightarrow> (pager, meta) op" where
  "replace_loop 0 no src m = sret m"
| "replace_loop (Suc k) no src m =
     sbind (slift (if no = 0 then decode_header (take PAGE_SIZE src) else Inr m)) (\<lambda>m.
     sbind (append_page (of_nat no) (take PAGE_SIZE src)) (\<lambda>_.
     replace_loop k (no + 1) (drop PAGE_SIZE src) m))"

definition replace_with :: "bytes \<Rightarrow> (pager, unit) op" where
  "replace_with src s =
     (let n = length src div PAGE_SIZE;
          s = discard (s\<lparr>pool := sp_clear (pool s), wal_index := []\<rparr>) in
      sbind io (\<lambda>_.
      sbind (\<lambda>s. replace_loop n 0 src (meta s) s) (\<lambda>new_meta.
      sbind seal (\<lambda>_. sbind apply_log (\<lambda>_. sbind reset (\<lambda>_.
      sbind (\<lambda>s. (Inr (), install_meta new_meta (s\<lparr>allocated_pages := [], dirty_pages := [], pending_freelist := []\<rparr>))) (\<lambda>_.
      sbind io (\<lambda>_.
      sbind (\<lambda>s. (Inr (), s\<lparr>db_file := take (n * PAGE_SIZE) (db_file s)
               @ replicate (n * PAGE_SIZE - length (db_file s)) 0\<rparr>)) (\<lambda>_. io)))))))) s)"

section \<open>Opening\<close>

primrec recover_logs :: "bytes list \<Rightarrow> (wal, unit) op" where
  "recover_logs [] = sret ()"
| "recover_logs (l # ls) =
     sbind (\<lambda>s. recover (s\<lparr>log_file := l, cursor := 0, records := 0\<rparr>)) (\<lambda>_. recover_logs ls)"

definition fresh_meta :: meta where
  "fresh_meta = \<lparr>page_count = 1, freelist_head = 0, catalog_root = 0, next_tx_id = 1\<rparr>"

definition new_pager :: "bytes \<Rightarrow> io_outcome list \<Rightarrow> meta \<Rightarrow> shared_pool \<Rightarrow> pager" where
  "new_pager db fs m p = \<lparr>log_file = [], db_file = db, faults = fs, cursor = 0, records = 0, meta = m,
     next_wal_id = 1, schema_version = 1, pool = p, pins = [], wal_index = [], dirty_pages = [],
     allocated_pages = [], pending_freelist = []\<rparr>"

text \<open>
  \<^verbatim>\<open>open_with_pool\<close>: \<open>logs\<close> are the leftover logs beside the file (the legacy one first). The logs
  are replayed and deleted before the header is read; an empty file gets its header at once.
\<close>

definition open_with_pool :: "bytes \<Rightarrow> bytes list \<Rightarrow> io_outcome list \<Rightarrow> shared_pool \<Rightarrow> pager result" where
  "open_with_pool db logs fs p =
     (case recover_logs logs \<lparr>log_file = [], db_file = db, faults = fs, cursor = 0, records = 0\<rparr> of
        (Inl e, _) \<Rightarrow> Inl e
      | (Inr _, w) \<Rightarrow>
          if db_file w = [] then
            fst (sbind (write_page 0 (encode_header fresh_meta)) (\<lambda>_. sbind commit (\<lambda>_ s. (Inr s, s)))
              (new_pager [] (faults w) fresh_meta p))
          else
            (case io w of
               (Inl e, _) \<Rightarrow> Inl e
             | (Inr _, w) \<Rightarrow>
                 if length (db_file w) < PAGE_SIZE then Inl (Fail Io)
                 else rbind (decode_header (take PAGE_SIZE (db_file w))) (\<lambda>m.
                   Inr (new_pager (db_file w) (faults w) m p))))"

text \<open>\<^verbatim>\<open>open_shared_with_meta\<close>: a peer on the same file, with a log of its own.\<close>

definition open_shared :: "pager \<Rightarrow> pager" where
  "open_shared s = (snd (mint_wal_id s))\<lparr>log_file := [], cursor := 0, records := 0, wal_index := [],
     dirty_pages := [], allocated_pages := [], pending_freelist := []\<rparr>"

end
