(* ===== verification/Pager_Spec.thy ===== *)
theory Pager_Spec
  imports Pager
begin

text \<open>
  What the pager promises. The locale \<open>page_store\<close> is the contract of page storage that the B+tree
  relies on: a store represents a partial map from page numbers to images, reads return it, writes
  update it, allocation adds a fresh page and freeing removes one. The pager is its interpretation
  while I/O succeeds and no frame stays pinned. The properties show that commit makes every page
  durable, what survives a crash, and what rollback restores.
\<close>

section \<open>What a pager represents\<close>

definition underlying :: "pager \<Rightarrow> u32 \<Rightarrow> bytes" where
  "underlying s no = (case map_of (wal_index s) no of
       Some off \<Rightarrow> take PAGE_SIZE (drop off (log_file s))
     | None \<Rightarrow> page_at (db_file s) (unat no))"

definition page_view :: "pager \<Rightarrow> u32 \<Rightarrow> bytes" where
  "page_view s = shared_pool.through (pool s) (underlying s)"

definition healthy :: "pager \<Rightarrow> bool" where
  "healthy s \<longleftrightarrow> faults s = [] \<and> pins s = []"

text \<open>The last image logged for a page is the spilled one the index points at.\<close>

definition spilled_in :: "pager \<Rightarrow> page_image list \<Rightarrow> bool" where
  "spilled_in s rs \<longleftrightarrow> (\<forall>no. case map_of (wal_index s) no of
       None \<Rightarrow> map_of (rev rs) no = None
     | Some off \<Rightarrow> off + PAGE_SIZE \<le> cursor s \<and> map_of (rev rs) no = Some (take PAGE_SIZE (drop off (log_file s))))"

text \<open>
  \<open>D\<close> is the set of pages written since the last commit: each is resident and dirty, or spilled. The
  header page is set apart: once written it stays dirty in the pool, because commit takes it out of
  the pages it marks clean and writes it to the file itself.
\<close>

definition frame_ok :: "u32 set \<Rightarrow> u32 \<Rightarrow> bytes \<Rightarrow> bool \<Rightarrow> bool" where
  "frame_ok D no img d \<longleftrightarrow> length img = PAGE_SIZE \<and> (if no = 0 then d else d \<longrightarrow> no \<in> D)"

definition pager_core :: "u32 set \<Rightarrow> pager \<Rightarrow> bool" where
  "pager_core D s \<longleftrightarrow> healthy s \<and> sp_inv (pool s) \<and> shared_pool.coherent (pool s) (underlying s)
     \<and> (\<forall>no img d. sp_contents (pool s) no = Some (img, d) \<longrightarrow> frame_ok D no img d)
     \<and> (\<forall>no. map_of (wal_index s) no \<noteq> None \<longrightarrow> no \<in> D \<or> no = 0)
     \<and> (\<forall>no \<in> D. (\<exists>img. sp_contents (pool s) no = Some (img, True)) \<or> map_of (wal_index s) no \<noteq> None)
     \<and> (\<exists>rs. log_inv rs s \<and> spilled_in s rs)"

lemma pager_coreD:
  assumes "pager_core D s"
  shows "healthy s" "sp_inv (pool s)" "shared_pool.coherent (pool s) (underlying s)"
    "\<And>no img d. sp_contents (pool s) no = Some (img, d) \<Longrightarrow> length img = PAGE_SIZE"
    "\<And>no img. sp_contents (pool s) no = Some (img, True) \<Longrightarrow> no \<in> D \<or> no = 0"
    "\<And>no. map_of (wal_index s) no \<noteq> None \<Longrightarrow> no \<in> D \<or> no = 0"
    "\<And>no. no \<in> D \<Longrightarrow> (\<exists>img. sp_contents (pool s) no = Some (img, True)) \<or> map_of (wal_index s) no \<noteq> None"
    "\<exists>rs. log_inv rs s \<and> spilled_in s rs" "\<And>img. sp_contents (pool s) 0 \<noteq> Some (img, False)"
  using assms unfolding pager_core_def frame_ok_def by (blast | metis)+

text \<open>Which parts of the state the predicates read.\<close>

lemma log_inv_fields [simp]:
  "log_inv rs (s\<lparr>pool := p\<rparr>) = log_inv rs s"
  "log_inv rs (s\<lparr>meta := m\<rparr>) = log_inv rs s"
  "log_inv rs (s\<lparr>dirty_pages := ds\<rparr>) = log_inv rs s"
  "log_inv rs (s\<lparr>allocated_pages := al\<rparr>) = log_inv rs s"
  "log_inv rs (s\<lparr>pending_freelist := pf\<rparr>) = log_inv rs s"
  "log_inv rs (s\<lparr>pins := ps\<rparr>) = log_inv rs s"
  "log_inv rs (s\<lparr>wal_index := wi\<rparr>) = log_inv rs s"
  by (simp_all add: log_inv_def)

lemma spilled_in_fields [simp]:
  "spilled_in (s\<lparr>pool := p\<rparr>) rs = spilled_in s rs"
  "spilled_in (s\<lparr>meta := m\<rparr>) rs = spilled_in s rs"
  "spilled_in (s\<lparr>dirty_pages := ds\<rparr>) rs = spilled_in s rs"
  "spilled_in (s\<lparr>allocated_pages := al\<rparr>) rs = spilled_in s rs"
  "spilled_in (s\<lparr>pending_freelist := pf\<rparr>) rs = spilled_in s rs"
  "spilled_in (s\<lparr>pins := ps\<rparr>) rs = spilled_in s rs"
  by (simp_all add: spilled_in_def cong: option.case_cong)

lemma underlying_fields [simp]:
  "underlying (s\<lparr>pool := p\<rparr>) = underlying s"
  "underlying (s\<lparr>meta := m\<rparr>) = underlying s"
  "underlying (s\<lparr>dirty_pages := ds\<rparr>) = underlying s"
  "underlying (s\<lparr>allocated_pages := al\<rparr>) = underlying s"
  "underlying (s\<lparr>pending_freelist := pf\<rparr>) = underlying s"
  "underlying (s\<lparr>pins := ps\<rparr>) = underlying s"
  by (simp_all add: underlying_def [abs_def] cong: option.case_cong)

lemma core_fields [simp]:
  "pager_core D (s\<lparr>meta := m\<rparr>) = pager_core D s" "page_view (s\<lparr>meta := m\<rparr>) = page_view s"
  "pager_core D (s\<lparr>dirty_pages := ds\<rparr>) = pager_core D s" "page_view (s\<lparr>dirty_pages := ds\<rparr>) = page_view s"
  "pager_core D (s\<lparr>allocated_pages := al\<rparr>) = pager_core D s" "page_view (s\<lparr>allocated_pages := al\<rparr>) = page_view s"
  "pager_core D (s\<lparr>pending_freelist := pf\<rparr>) = pager_core D s" "page_view (s\<lparr>pending_freelist := pf\<rparr>) = page_view s"
  by (simp_all add: pager_core_def page_view_def healthy_def)

lemma map_of_wi_insert: "map_of (wi_insert no off wi) = (map_of wi)(no \<mapsto> off)"
proof (rule ext)
  fix n
  have "map_of (filter (\<lambda>e. fst e \<noteq> no) wi) n = (if n = no then None else map_of wi n)"
    by (induction wi) auto
  then show "map_of (wi_insert no off wi) n = ((map_of wi)(no \<mapsto> off)) n"
    by (simp add: wi_insert_def)
qed

lemma set_hs_insert [simp]: "set (hs_insert x xs) = insert x (set xs)"
  by (auto simp: hs_insert_def)

lemma distinct_hs_insert [simp]: "distinct xs \<Longrightarrow> distinct (hs_insert x xs)"
  by (auto simp: hs_insert_def)

lemma length_underlying:
  "pager_core D s \<Longrightarrow> length (underlying s no) = PAGE_SIZE"
proof -
  assume c: "pager_core D s"
  then obtain rs where rs: "log_inv rs s" "spilled_in s rs" using pager_coreD(8) by blast
  show ?thesis
  proof (cases "map_of (wal_index s) no")
    case (Some off)
    then have "off + PAGE_SIZE \<le> cursor s"
      using rs(2) by (auto simp: spilled_in_def dest: spec [of _ no])
    moreover have "cursor s \<le> length (log_file s)"
      using log_inv_length [OF rs(1)] rs(1) by (simp add: log_inv_def)
    ultimately show ?thesis using Some by (simp add: underlying_def)
  qed (simp add: underlying_def)
qed

lemma length_page_view: "pager_core D s \<Longrightarrow> length (page_view s no) = PAGE_SIZE"
  using length_underlying pager_coreD(4)
  by (auto simp: page_view_def shared_pool.through_def split: option.splits)

section \<open>Admission\<close>

lemma take_drop_write_at:
  "off + n \<le> c \<Longrightarrow> c \<le> length f \<Longrightarrow> take n (drop off (write_at f c d)) = take n (drop off f)"
  by (simp add: write_at_def) (simp add: drop_take min_absorb1)

lemma append_page_core:
  assumes "log_inv rs s" "spilled_in s rs" "length img = PAGE_SIZE" "faults s = []"
  obtains s' where "append_page no img s = (Inr (cursor s + 5), s')" "log_inv (rs @ [(no, img)]) s'"
    "s' = s\<lparr>log_file := log_file s', cursor := cursor s', records := records s'\<rparr>"
    "cursor s + 5 + PAGE_SIZE \<le> cursor s'" "take PAGE_SIZE (drop (cursor s + 5) (log_file s')) = img"
    "\<And>off. off + PAGE_SIZE \<le> cursor s \<Longrightarrow> take PAGE_SIZE (drop off (log_file s')) = take PAGE_SIZE (drop off (log_file s))"
proof
  let ?s' = "s\<lparr>log_file := write_at (log_file s) (cursor s) (page_record no img),
       cursor := cursor s + PAGE_RECORD_LEN, records := records s + 1\<rparr>"
  show run: "append_page no img s = (Inr (cursor s + 5), ?s')"
    by (rule append_page_healthy [OF assms(4)])
  show "log_inv (rs @ [(no, img)]) ?s'"
    by (rule append_page_ok(1) [OF assms(1,3) run])
  have c: "cursor s \<le> length (log_file s)"
    using log_inv_length [OF assms(1)] assms(1) by (simp add: log_inv_def)
  show "take PAGE_SIZE (drop off (log_file ?s')) = take PAGE_SIZE (drop off (log_file s))"
    if "off + PAGE_SIZE \<le> cursor s" for off
    using take_drop_write_at [OF that c] by simp
  show "take PAGE_SIZE (drop (cursor s + 5) (log_file ?s')) = img"
    using c assms(3) by (simp add: write_at_def page_record_def)
qed (simp_all add: wal_consts)

text \<open>The fields an admission leaves alone.\<close>

definition same_control :: "pager \<Rightarrow> pager \<Rightarrow> bool" where
  "same_control s s' \<longleftrightarrow> db_file s' = db_file s \<and> meta s' = meta s \<and> dirty_pages s' = dirty_pages s
     \<and> allocated_pages s' = allocated_pages s \<and> pending_freelist s' = pending_freelist s"

lemma same_control_refl [simp]: "same_control s s"
  by (simp add: same_control_def)

lemma pool_put_healthy:
  assumes "healthy s" "sp_inv (pool s)"
  obtains ev p where "pool_put no page d s = (Inr ev, s\<lparr>pool := p\<rparr>)"
    "sp_put (\<lambda>_. False) \<lparr>frame_no = no, frame_page = page\<rparr> d (pool s) = (Inr ev, p)"
proof -
  obtain ev p where "sp_put (\<lambda>_. False) \<lparr>frame_no = no, frame_page = page\<rparr> d (pool s) = (Inr ev, p)"
    using shared_pool.put_unpinned [OF assms(2), of "\<lambda>_. False"] by blast
  with that show thesis
    using assms(1) by (simp add: pool_put_def healthy_def)
qed

lemma admit_core:
  assumes core: "pager_core D s" and len: "length page = PAGE_SIZE" and clean: "d \<or> no \<notin> D \<and> no \<noteq> 0 \<and> underlying s no = page"
  obtains s' where "admit no page d s = (Inr page, s')" "pager_core (if d then insert no D else D) s'"
    "page_view s' = (page_view s)(no := page)" "same_control s s'"
proof -
  let ?D = "if d then insert no D else D"
  let ?f = "\<lparr>frame_no = no, frame_page = page\<rparr>"
  obtain rs where rs: "log_inv rs s" "spilled_in s rs" using pager_coreD(8) [OF core] by blast
  have h: "faults s = []" "pins s = []" using pager_coreD(1) [OF core] by (simp_all add: healthy_def)
  obtain ev p where put: "pool_put no page d s = (Inr ev, s\<lparr>pool := p\<rparr>)"
    "sp_put (\<lambda>_. False) ?f d (pool s) = (Inr ev, p)"
    using pool_put_healthy [OF pager_coreD(1,2) [OF core]] by blast
  note inv = pager_coreD(2) [OF core] and coh = pager_coreD(3) [OF core]
  from shared_pool.put_ok [OF inv put(2), unfolded frame.simps] obtain fg where
    c: "sp_inv p" "sp_contents p = (\<lambda>n. if n = no then
             Some (page, d \<or> (\<exists>img. sp_contents (pool s) no = Some (img, True)))
           else if fg = Some n then None else sp_contents (pool s) n)" "fg \<noteq> Some no"
    "case ev of None \<Rightarrow> (case fg of None \<Rightarrow> True | Some n \<Rightarrow> (\<exists>img. sp_contents (pool s) n = Some (img, False)))
           | Some g \<Rightarrow> fg = Some (frame_no g) \<and> sp_contents (pool s) (frame_no g) = Some (frame_page g, True)"
    by blast
  have thr: "shared_pool.through p (shared_pool.spill ev (underlying s)) = (page_view s)(no := page)"
    using shared_pool.put_through [OF inv put(2) coh] by (simp add: page_view_def)
  have coh': "shared_pool.coherent p (shared_pool.spill ev (underlying s))"
    using shared_pool.put_coherent [OF inv put(2) coh] clean by auto
  have imgs: "frame_ok ?D n img b" if "sp_contents p n = Some (img, b)" for n img b
  proof (cases "n = no")
    case True
    have "img = page" "b \<longleftrightarrow> d \<or> (\<exists>img. sp_contents (pool s) no = Some (img, True))"
      using that True unfolding c(2) by auto
    with True len clean pager_coreD(5) [OF core, of no] show ?thesis by (auto simp: frame_ok_def)
  next
    case False
    then have "sp_contents (pool s) n = Some (img, b)" using that unfolding c(2) by (auto split: if_splits)
    then have "frame_ok D n img b"
      using core unfolding pager_core_def by blast
    then show ?thesis by (auto simp: frame_ok_def)
  qed
  show thesis
  proof (cases ev)
    case None
    have res: "(\<exists>img. sp_contents p n = Some (img, True)) \<or> map_of (wal_index s) n \<noteq> None" if "n \<in> ?D" for n
      using that pager_coreD(7) [OF core, of n] c(4) None unfolding c(2) by (auto split: option.splits if_splits)
    have "pager_core ?D (s\<lparr>pool := p\<rparr>)"
      unfolding pager_core_def
    proof (intro conjI)
      show "\<exists>rs. log_inv rs (s\<lparr>pool := p\<rparr>) \<and> spilled_in (s\<lparr>pool := p\<rparr>) rs"
        using rs by auto
      show "shared_pool.coherent (pool (s\<lparr>pool := p\<rparr>)) (underlying (s\<lparr>pool := p\<rparr>))"
        using coh' by (simp add: None shared_pool.spill_def)
    qed (use c(1) h imgs res pager_coreD(6) [OF core] in \<open>auto simp: healthy_def\<close>)
    moreover have "page_view (s\<lparr>pool := p\<rparr>) = (page_view s)(no := page)"
      using thr by (simp add: None shared_pool.spill_def page_view_def)
    ultimately show thesis
      using that put(1) None by (simp add: admit_def sbind_def same_control_def)
  next
    case (Some g)
    let ?s1 = "s\<lparr>pool := p\<rparr>"
    have g: "sp_contents (pool s) (frame_no g) = Some (frame_page g, True)" "frame_no g \<noteq> no" "fg = Some (frame_no g)"
      using c(3,4) Some by auto
    have gl: "length (frame_page g) = PAGE_SIZE" "frame_no g \<in> D \<or> frame_no g = 0"
      using pager_coreD(4,5) [OF core] g(1) by blast+
    have rs1: "log_inv rs ?s1" "spilled_in ?s1 rs" "faults ?s1 = []"
      using rs h by auto
    obtain s2 where s2: "append_page (frame_no g) (frame_page g) ?s1 = (Inr (cursor s + 5), s2)"
      "log_inv (rs @ [(frame_no g, frame_page g)]) s2"
      "s2 = ?s1\<lparr>log_file := log_file s2, cursor := cursor s2, records := records s2\<rparr>"
      "cursor s + 5 + PAGE_SIZE \<le> cursor s2" "take PAGE_SIZE (drop (cursor s + 5) (log_file s2)) = frame_page g"
      "\<And>off. off + PAGE_SIZE \<le> cursor s \<Longrightarrow> take PAGE_SIZE (drop off (log_file s2)) = take PAGE_SIZE (drop off (log_file s))"
      using append_page_core [OF rs1(1,2) gl(1) rs1(3)] by auto
    define s' where "s' = s2\<lparr>wal_index := wi_insert (frame_no g) (cursor s + 5) (wal_index s2)\<rparr>"
    have fields: "wal_index s2 = wal_index s" "pool s2 = p" "db_file s2 = db_file s" "meta s2 = meta s"
      "dirty_pages s2 = dirty_pages s" "allocated_pages s2 = allocated_pages s" "pending_freelist s2 = pending_freelist s"
      "faults s2 = []" "pins s2 = []"
      by (subst s2(3); simp add: h)+
    have lf: "log_file s' = log_file s2" "db_file s' = db_file s" "cursor s' = cursor s2" "pool s' = p"
      by (simp_all add: s'_def fields)
    have wi: "map_of (wal_index s') = (map_of (wal_index s))(frame_no g \<mapsto> cursor s + 5)"
      by (simp add: s'_def fields map_of_wi_insert)
    have offs: "off + PAGE_SIZE \<le> cursor s" if "map_of (wal_index s) n = Some off" for n off
      using rs(2) that by (auto simp: spilled_in_def dest: spec [of _ n])
    have und: "underlying s' = (underlying s)(frame_no g := frame_page g)"
    proof
      fix n
      show "underlying s' n = ((underlying s)(frame_no g := frame_page g)) n"
        using s2(5,6) offs
        by (cases "map_of (wal_index s) n") (auto simp: underlying_def wi lf)
    qed
    have sp: "spilled_in s' (rs @ [(frame_no g, frame_page g)])"
      unfolding spilled_in_def
    proof
      fix n
      show "case map_of (wal_index s') n of None \<Rightarrow> map_of (rev (rs @ [(frame_no g, frame_page g)])) n = None
        | Some off \<Rightarrow> off + PAGE_SIZE \<le> cursor s' \<and>
            map_of (rev (rs @ [(frame_no g, frame_page g)])) n = Some (take PAGE_SIZE (drop off (log_file s')))"
        using rs(2) s2(4,5,6) offs [of n]
        by (cases "map_of (wal_index s) n") (auto simp: wi spilled_in_def lf dest: spec [of _ n])
    qed
    have res: "(\<exists>img. sp_contents p n = Some (img, True)) \<or> map_of (wal_index s') n \<noteq> None" if "n \<in> ?D" for n
      using that pager_coreD(7) [OF core, of n] g unfolding c(2) wi by (auto split: if_splits)
    have "pager_core ?D s'"
      unfolding pager_core_def
    proof (intro conjI)
      show "\<exists>rs. log_inv rs s' \<and> spilled_in s' rs"
        using s2(2) sp by (auto simp: s'_def)
      show "shared_pool.coherent (pool s') (underlying s')"
        using coh' by (simp add: Some shared_pool.spill_def und lf)
      show "\<forall>n. map_of (wal_index s') n \<noteq> None \<longrightarrow> n \<in> ?D \<or> n = 0"
        using pager_coreD(6) [OF core] gl(2) by (auto simp: wi)
    qed (use c(1) imgs res in \<open>auto simp: healthy_def s'_def fields\<close>)
    moreover have "page_view s' = (page_view s)(no := page)"
      using thr by (simp add: Some shared_pool.spill_def page_view_def und lf)
    moreover have "admit no page d s = (Inr page, s')"
      using put(1) s2(1) Some by (simp add: admit_def sbind_def s'_def)
    ultimately show thesis
      using that by (simp add: same_control_def s'_def fields)
  qed
qed

section \<open>Reads and writes\<close>

lemma pager_core_pool:
  "sp_inv p \<Longrightarrow> sp_contents p = sp_contents (pool s) \<Longrightarrow> pager_core D s \<Longrightarrow> pager_core D (s\<lparr>pool := p\<rparr>)"
  unfolding pager_core_def shared_pool.coherent_def
  by (simp only: healthy_def underlying_fields log_inv_fields spilled_in_fields) simp

lemma pool_get_core:
  assumes "pager_core D s" "pool_get no s = (r, s')"
  shows "pager_core D s'" "page_view s' = page_view s" "same_control s s'"
    "r = map_option fst (sp_contents (pool s) no)" "wal_index s' = wal_index s" "log_file s' = log_file s"
    "cursor s' = cursor s" "sp_contents (pool s') = sp_contents (pool s)" "records s' = records s" "faults s' = faults s"
proof -
  obtain q p where g: "sp_get no (pool s) = (q, p)" by fastforce
  then have s': "s' = s\<lparr>pool := p\<rparr>" "r = map_option frame_page q"
    using assms(2) by (simp_all add: pool_get_def)
  note l = shared_pool.get_law [OF pager_coreD(2) [OF assms(1)] g]
  show "pager_core D s'"
    using pager_core_pool [of p s D] l assms(1) by (simp add: s')
  show "page_view s' = page_view s" "same_control s s'"
    "r = map_option fst (sp_contents (pool s) no)" "wal_index s' = wal_index s" "log_file s' = log_file s"
    "cursor s' = cursor s" "sp_contents (pool s') = sp_contents (pool s)" "records s' = records s" "faults s' = faults s"
    using l assms(1)
    by (simp_all add: s' page_view_def shared_pool.through_def [abs_def] same_control_def)
qed

lemma read_page_core:
  assumes core: "pager_core D s" and no: "no < page_count (meta s)" "no \<noteq> 0"
  obtains s' where "read_page no s = (Inr (page_view s no), s')" "pager_core D s'" "page_view s' = page_view s"
    "same_control s s'"
proof -
  obtain r s1 where g: "pool_get no s = (r, s1)" by fastforce
  note g' = pool_get_core [OF core g]
  show thesis
  proof (cases r)
    case (Some page)
    then have "page_view s no = page"
      using g'(4) by (auto simp: page_view_def shared_pool.through_def split: option.splits)
    with that [OF _ g'(1,2,3)] show thesis
      using g Some by (simp add: read_page_def)
  next
    case None
    then have miss: "sp_contents (pool s1) no = None" using g'(4,8) by simp
    then have pv: "page_view s1 no = underlying s1 no" by (simp add: page_view_def shared_pool.through_def)
    have h: "faults s1 = []" using pager_coreD(1) [OF g'(1)] by (simp add: healthy_def)
    have len: "length (underlying s1 no) = PAGE_SIZE" by (rule length_underlying [OF g'(1)])
    have same: "(page_view s1)(no := underlying s1 no) = page_view s" using pv g'(2) by auto
    show thesis
    proof (cases "map_of (wal_index s1) no")
      case (Some off)
      then have "no \<in> D" using pager_coreD(6) [OF g'(1), of no] no(2) by simp
      then have D: "insert no D = D" by auto
      obtain s2 where s2: "admit no (underlying s1 no) True s1 = (Inr (underlying s1 no), s2)"
        "pager_core (if True then insert no D else D) s2" "page_view s2 = (page_view s1)(no := underlying s1 no)" "same_control s1 s2"
        using admit_core [OF g'(1) len, of True no] by blast
      have "read_page_at off s1 = (Inr (underlying s1 no), s1)"
        using len Some h by (auto simp: read_page_at_def sbind_def underlying_def PAGE_SIZE_def)
      then have "read_page no s = (Inr (page_view s no), s2)"
        using g None Some s2(1) pv g'(2) by (simp add: read_page_def sbind_def)
      then show thesis
        using that s2 same D g'(3) by (simp add: same_control_def)
    next
      case no_wal: None
      then have und: "underlying s1 no = page_at (db_file s1) (unat no)" by (simp add: underlying_def)
      have "no \<notin> D" using pager_coreD(7) [OF g'(1), of no] miss no_wal by auto
      with no(2) obtain s2 where s2: "admit no (underlying s1 no) False s1 = (Inr (underlying s1 no), s2)"
        "pager_core (if False then insert no D else D) s2" "page_view s2 = (page_view s1)(no := underlying s1 no)" "same_control s1 s2"
        using admit_core [OF g'(1) len, of False no] by blast
      have "\<not> page_count (meta s1) \<le> no" using no g'(3) by (simp add: same_control_def)
      then have "read_page no s = (Inr (page_view s no), s2)"
        using g None no_wal s2(1) pv g'(2) h und by (simp add: read_page_def sbind_def)
      then show thesis
        using that s2 same g'(3) by (simp add: same_control_def)
    qed
  qed
qed

lemma write_page_core:
  assumes core: "pager_core (set (dirty_pages s)) s" and len: "length buf = PAGE_SIZE"
  obtains s' where "write_page no buf s = (Inr (), s')" "pager_core (set (dirty_pages s')) s'"
    "page_view s' = (page_view s)(no := buf)" "db_file s' = db_file s" "meta s' = meta s"
    "dirty_pages s' = hs_insert no (dirty_pages s)" "allocated_pages s' = allocated_pages s"
    "pending_freelist s' = pending_freelist s"
proof -
  obtain s1 where s1: "admit no buf True s = (Inr buf, s1)" "pager_core (if True then insert no (set (dirty_pages s)) else set (dirty_pages s)) s1"
    "page_view s1 = (page_view s)(no := buf)" "same_control s s1"
    using admit_core [OF core len, of True no] by blast
  show thesis
    by (rule that [of "s1\<lparr>dirty_pages := hs_insert no (dirty_pages s1)\<rparr>"])
      (use s1 in \<open>simp_all add: write_page_def sbind_def same_control_def\<close>)
qed

section \<open>The free list\<close>

primrec free_chain :: "(u32 \<Rightarrow> bytes) \<Rightarrow> u32 \<Rightarrow> u32 list \<Rightarrow> bool" where
  "free_chain V h [] \<longleftrightarrow> h = 0"
| "free_chain V h (x # xs) \<longleftrightarrow> h = x \<and> x \<noteq> 0 \<and> free_chain V (u32_of_le (take 4 (V x))) xs"

lemma free_chain_cong: "(\<And>x. x \<in> set fl \<Longrightarrow> V x = W x) \<Longrightarrow> free_chain V h fl = free_chain W h fl"
  by (induction fl arbitrary: h) auto

definition store_inv :: "u32 list \<Rightarrow> pager \<Rightarrow> bool" where
  "store_inv fl s \<longleftrightarrow> pager_core (set (dirty_pages s)) s \<and> distinct (dirty_pages s)
     \<and> free_chain (page_view s) (freelist_head (meta s)) fl \<and> distinct (fl @ pending_freelist s)
     \<and> (\<forall>x \<in> set (fl @ pending_freelist s). x \<noteq> 0 \<and> x < page_count (meta s)) \<and> 0 < page_count (meta s)"

definition live_page :: "u32 list \<Rightarrow> pager \<Rightarrow> u32 \<Rightarrow> bool" where
  "live_page fl s no \<longleftrightarrow> no \<noteq> 0 \<and> no < page_count (meta s) \<and> no \<notin> set fl \<and> no \<notin> set (pending_freelist s)"

definition live_view :: "u32 list \<Rightarrow> pager \<Rightarrow> u32 \<Rightarrow> bytes option" where
  "live_view fl s no = (if live_page fl s no then Some (page_view s no) else None)"

text \<open>\<open>r\<close> more pages can be allocated before the 32-bit page counter runs out.\<close>

definition represents :: "pager \<Rightarrow> (u32 \<Rightarrow> bytes option) \<Rightarrow> nat \<Rightarrow> bool" where
  "represents s V r \<longleftrightarrow> (\<exists>fl. store_inv fl s \<and> V = live_view fl s) \<and> unat (page_count (meta s)) + r < 2 ^ 32"

lemma representsE:
  assumes "represents s V r"
  obtains fl where "store_inv fl s" "V = live_view fl s" "unat (page_count (meta s)) + r < 2 ^ 32"
  using assms unfolding represents_def by blast

text \<open>A step that keeps the header and the free pages and changes the view at one live page only.\<close>

lemma store_inv_step:
  assumes "store_inv fl s" "pager_core (set (dirty_pages s')) s'" "distinct (dirty_pages s')" "meta s' = meta s"
    "pending_freelist s' = pending_freelist s" "\<And>x. x \<in> set fl \<Longrightarrow> page_view s' x = page_view s x"
  shows "store_inv fl s'"
  using assms free_chain_cong [of fl "page_view s'" "page_view s"] by (auto simp: store_inv_def)

lemma read_page_represents:
  assumes "represents s V r" "V no = Some p"
  shows "\<exists>s'. read_page no s = (Inr p, s') \<and> represents s' V r"
proof -
  obtain fl where fl: "store_inv fl s" "V = live_view fl s" "unat (page_count (meta s)) + r < 2 ^ 32"
    using representsE [OF assms(1)] .
  have core: "pager_core (set (dirty_pages s)) s" using fl(1) by (simp add: store_inv_def)
  have no: "no < page_count (meta s)" "page_view s no = p" "no \<noteq> 0"
    using assms(2) fl(2) by (auto simp: live_view_def live_page_def split: if_splits)
  obtain s' where s': "read_page no s = (Inr p, s')" "pager_core (set (dirty_pages s)) s'"
    "page_view s' = page_view s" "same_control s s'"
    using read_page_core [OF core no(1,3)] no(2) by metis
  have "store_inv fl s'"
    by (rule store_inv_step [OF fl(1)]) (use s' fl(1) in \<open>auto simp: same_control_def store_inv_def\<close>)
  moreover have "live_view fl s' = live_view fl s"
    using s' by (auto simp: live_view_def live_page_def same_control_def)
  ultimately show ?thesis
    using s' fl by (auto simp: represents_def same_control_def)
qed

lemma write_page_represents:
  assumes "represents s V r" "V no \<noteq> None" "length buf = PAGE_SIZE"
  shows "\<exists>s'. write_page no buf s = (Inr (), s') \<and> represents s' (V(no \<mapsto> buf)) r"
proof -
  obtain fl where fl: "store_inv fl s" "V = live_view fl s" "unat (page_count (meta s)) + r < 2 ^ 32"
    using representsE [OF assms(1)] .
  have core: "pager_core (set (dirty_pages s)) s" using fl(1) by (simp add: store_inv_def)
  have live: "live_page fl s no" using assms(2) fl(2) by (auto simp: live_view_def split: if_splits)
  obtain s' where s': "write_page no buf s = (Inr (), s')" "pager_core (set (dirty_pages s')) s'"
    "page_view s' = (page_view s)(no := buf)" "meta s' = meta s"
    "dirty_pages s' = hs_insert no (dirty_pages s)" "pending_freelist s' = pending_freelist s"
    using write_page_core [OF core assms(3), of no] by metis
  have "store_inv fl s'"
    by (rule store_inv_step [OF fl(1) s'(2)]) (use s' fl(1) live in \<open>auto simp: store_inv_def live_page_def\<close>)
  moreover have "live_view fl s' = V(no \<mapsto> buf)"
    using s' live by (auto simp: fl(2) live_view_def live_page_def)
  ultimately show ?thesis
    using s' fl by (auto simp: represents_def)
qed

lemma stage_alloc_core:
  assumes core: "pager_core (set (dirty_pages s)) s"
  obtains s' where "stage_alloc no s = (Inr no, s')" "pager_core (set (dirty_pages s')) s'"
    "page_view s' = (page_view s)(no := zero_page)" "db_file s' = db_file s" "meta s' = meta s"
    "dirty_pages s' = hs_insert no (dirty_pages s)" "pending_freelist s' = pending_freelist s"
proof -
  have "length zero_page = PAGE_SIZE" by (simp add: zero_page_def)
  from write_page_core [OF core this, of no] obtain s1 where s1: "write_page no zero_page s = (Inr (), s1)"
    "pager_core (set (dirty_pages s1)) s1" "page_view s1 = (page_view s)(no := zero_page)" "db_file s1 = db_file s"
    "meta s1 = meta s" "dirty_pages s1 = hs_insert no (dirty_pages s)" "pending_freelist s1 = pending_freelist s"
    by metis
  show thesis
    by (rule that [of "s1\<lparr>allocated_pages := hs_insert no (allocated_pages s1)\<rparr>"])
      (use s1 in \<open>simp_all add: stage_alloc_def sbind_def\<close>)
qed

lemma stage_alloc_represents:
  assumes "store_inv fl s" "live_page fl s no" "unat (page_count (meta s)) + r < 2 ^ 32"
  shows "\<exists>s'. stage_alloc no s = (Inr no, s') \<and> represents s' ((live_view fl s)(no \<mapsto> zero_page)) r"
proof -
  have core: "pager_core (set (dirty_pages s)) s" using assms(1) by (simp add: store_inv_def)
  obtain s' where s': "stage_alloc no s = (Inr no, s')" "pager_core (set (dirty_pages s')) s'"
    "page_view s' = (page_view s)(no := zero_page)" "meta s' = meta s"
    "dirty_pages s' = hs_insert no (dirty_pages s)" "pending_freelist s' = pending_freelist s"
    using stage_alloc_core [OF core, of no] by metis
  have "store_inv fl s'"
    by (rule store_inv_step [OF assms(1) s'(2)]) (use s' assms(1,2) in \<open>auto simp: store_inv_def live_page_def\<close>)
  moreover have "live_view fl s' = (live_view fl s)(no \<mapsto> zero_page)"
    using s' assms(2) by (auto simp: live_view_def live_page_def)
  ultimately show ?thesis
    using s' assms(3) by (auto simp: represents_def)
qed

lemma unat_Suc_u32: "unat (n :: u32) + Suc r < 2 ^ 32 \<Longrightarrow> unat (n + 1) = unat n + 1"
  by (simp add: unat_plus_if_size word_size)

text \<open>The three sources of a page: a rolled-back allocation, the free list, the end of the file.\<close>

lemma alloc_page_represents:
  assumes "represents s V (Suc r)"
  shows "\<exists>no s'. alloc_page s = (Inr no, s') \<and> no \<noteq> 0 \<and> V no = None \<and> represents s' (V(no \<mapsto> zero_page)) r"
proof -
  obtain fl where fl: "store_inv fl s" "V = live_view fl s" and room: "unat (page_count (meta s)) + Suc r < 2 ^ 32"
    using representsE [OF assms] .
  have core: "pager_core (set (dirty_pages s)) s" and chain: "free_chain (page_view s) (freelist_head (meta s)) fl"
    using fl(1) by (simp_all add: store_inv_def)
  have finish: ?thesis if "alloc_page s = stage_alloc no t" "store_inv fl' t" "live_page fl' t no" "\<not> live_page fl s no"
    "live_view fl' t = V(no \<mapsto> page_view t no)" "unat (page_count (meta t)) + r < 2 ^ 32" for no t fl'
    using stage_alloc_represents [OF that(2,3,6)] that(1,3,4,5) by (auto simp: live_page_def fl(2) live_view_def)
  consider (pend) "pending_freelist s \<noteq> []" | (free) "pending_freelist s = []" "freelist_head (meta s) \<noteq> 0"
    | (grow) "pending_freelist s = []" "freelist_head (meta s) = 0" by blast
  then show ?thesis
  proof cases
    case pend
    define no pf where "no = last (pending_freelist s)" "pf = butlast (pending_freelist s)"
    have eq: "pending_freelist s = pf @ [no]" using pend by (simp add: no_pf_def)
    show ?thesis
    proof (rule finish [of no "s\<lparr>pending_freelist := pf\<rparr>" fl])
      show "alloc_page s = stage_alloc no (s\<lparr>pending_freelist := pf\<rparr>)"
        using pend by (simp add: alloc_page_def no_pf_def)
    qed (use fl(1) eq room in \<open>auto simp: store_inv_def live_page_def live_view_def fl(2)\<close>)
  next
    case free
    then obtain no fl' where eq: "fl = no # fl'" "freelist_head (meta s) = no" using chain by (cases fl) auto
    have "no < page_count (meta s)" "no \<noteq> 0" using fl(1) eq(1) by (simp_all add: store_inv_def)
    then obtain s1 where s1: "read_page no s = (Inr (page_view s no), s1)" "pager_core (set (dirty_pages s)) s1"
      "page_view s1 = page_view s" "same_control s s1"
      using read_page_core [OF core] by metis
    let ?t = "s1\<lparr>meta := (meta s1)\<lparr>freelist_head := u32_of_le (take 4 (page_view s no))\<rparr>\<rparr>"
    show ?thesis
    proof (rule finish [of no ?t fl'])
      show "alloc_page s = stage_alloc no ?t"
        using free eq s1(1) by (simp add: alloc_page_def sbind_def)
    qed (use fl(1) eq room s1 free(1) in \<open>auto simp: store_inv_def live_page_def live_view_def fl(2) same_control_def\<close>)
  next
    case grow
    then have nil: "fl = []" using chain by (cases fl) auto
    define n where "n = page_count (meta s)"
    have n: "unat (n + 1) = unat n + 1" using unat_Suc_u32 room by (simp add: n_def)
    then have less: "x < n + 1 \<longleftrightarrow> x \<le> n" for x by (simp add: word_less_nat_alt word_le_nat_alt less_Suc_eq_le)
    show ?thesis
    proof (rule finish [of n "s\<lparr>meta := (meta s)\<lparr>page_count := n + 1\<rparr>\<rparr>" "[]"])
      show "alloc_page s = stage_alloc n (s\<lparr>meta := (meta s)\<lparr>page_count := n + 1\<rparr>\<rparr>)"
        using grow by (simp add: alloc_page_def n_def Let_def)
      show "live_view [] (s\<lparr>meta := (meta s)\<lparr>page_count := n + 1\<rparr>\<rparr>) =
          V(n \<mapsto> page_view (s\<lparr>meta := (meta s)\<lparr>page_count := n + 1\<rparr>\<rparr>) n)"
        using fl(1) grow(1)
        by (auto simp: live_view_def live_page_def fl(2) nil n_def [symmetric] less fun_eq_iff order.order_iff_strict store_inv_def)
    qed (use fl(1) grow room n nil less in \<open>auto simp: store_inv_def live_page_def n_def [symmetric]\<close>)
  qed
qed

lemma free_page_represents:
  assumes "represents s V r" "V no \<noteq> None"
  shows "\<exists>s'. free_page no s = (Inr (), s') \<and> represents s' (V(no := None)) r"
proof -
  obtain fl where fl: "store_inv fl s" "V = live_view fl s" "unat (page_count (meta s)) + r < 2 ^ 32"
    using representsE [OF assms(1)] .
  have core: "pager_core (set (dirty_pages s)) s" using fl(1) by (simp add: store_inv_def)
  have live: "live_page fl s no" using assms(2) fl(2) by (auto simp: live_view_def split: if_splits)
  let ?buf = "u32_le (freelist_head (meta s)) @ replicate (PAGE_SIZE - 4) 0"
  have "length ?buf = PAGE_SIZE" by (simp add: PAGE_SIZE_def)
  from write_page_core [OF core this, of no] obtain s1 where s1: "write_page no ?buf s = (Inr (), s1)"
    "pager_core (set (dirty_pages s1)) s1" "page_view s1 = (page_view s)(no := ?buf)" "meta s1 = meta s"
    "dirty_pages s1 = hs_insert no (dirty_pages s)" "pending_freelist s1 = pending_freelist s"
    by metis
  define s' where "s' = s1\<lparr>meta := (meta s1)\<lparr>freelist_head := no\<rparr>\<rparr>"
  have chain: "free_chain (page_view s1) (freelist_head (meta s)) fl"
    using fl(1) live by (subst free_chain_cong [of fl "page_view s1" "page_view s"])
      (auto simp: store_inv_def s1(3) live_page_def)
  have "store_inv (no # fl) s'"
    using fl(1) live s1(2,4,5,6) chain by (simp add: store_inv_def s'_def live_page_def s1(3))
  moreover have "live_view (no # fl) s' = V(no := None)"
    using s1 live by (auto simp: fl(2) live_view_def live_page_def s'_def)
  moreover have "free_page no s = (Inr (), s')"
    using s1(1) by (simp add: free_page_def sbind_def s'_def)
  ultimately show ?thesis
    using fl(3) s1(4) by (auto simp: represents_def s'_def)
qed

section \<open>The page-store contract\<close>

record 's store_ops =
  st_read :: "u32 \<Rightarrow> ('s, bytes) op"
  st_write :: "u32 \<Rightarrow> bytes \<Rightarrow> ('s, unit) op"
  st_alloc :: "('s, u32) op"
  st_free :: "u32 \<Rightarrow> ('s, unit) op"

locale page_store =
  fixes ops :: "'s store_ops" and rep :: "'s \<Rightarrow> (u32 \<Rightarrow> bytes option) \<Rightarrow> nat \<Rightarrow> bool"
  assumes read_law: "rep s V r \<Longrightarrow> V no = Some p \<Longrightarrow> \<exists>s'. st_read ops no s = (Inr p, s') \<and> rep s' V r"
    and write_law: "rep s V r \<Longrightarrow> V no \<noteq> None \<Longrightarrow> length buf = PAGE_SIZE \<Longrightarrow>
      \<exists>s'. st_write ops no buf s = (Inr (), s') \<and> rep s' (V(no \<mapsto> buf)) r"
    and alloc_law: "rep s V (Suc r) \<Longrightarrow>
      \<exists>no s'. st_alloc ops s = (Inr no, s') \<and> no \<noteq> 0 \<and> V no = None \<and> rep s' (V(no \<mapsto> zero_page)) r"
    and free_law: "rep s V r \<Longrightarrow> V no \<noteq> None \<Longrightarrow> \<exists>s'. st_free ops no s = (Inr (), s') \<and> rep s' (V(no := None)) r"
    and room_law: "rep s V r \<Longrightarrow> q \<le> r \<Longrightarrow> rep s V q"
    and page_law: "rep s V r \<Longrightarrow> V no = Some p \<Longrightarrow> length p = PAGE_SIZE \<and> no \<noteq> 0"
begin

lemma read_bind: "rep s V r \<Longrightarrow> V no = Some p \<Longrightarrow> \<exists>s'. sbind (st_read ops no) f s = f p s' \<and> rep s' V r"
  using read_law [of s V r no p] by (auto simp: sbind_def)

lemma write_bind: "rep s V r \<Longrightarrow> V no \<noteq> None \<Longrightarrow> length buf = PAGE_SIZE \<Longrightarrow>
    \<exists>s'. sbind (st_write ops no buf) f s = f () s' \<and> rep s' (V(no \<mapsto> buf)) r"
  using write_law [of s V r no buf] by (auto simp: sbind_def)

lemma alloc_bind: "rep s V (Suc r) \<Longrightarrow>
    \<exists>no s'. sbind (st_alloc ops) f s = f no s' \<and> no \<noteq> 0 \<and> V no = None \<and> rep s' (V(no \<mapsto> zero_page)) r"
  using alloc_law [of s V r] by (fastforce simp: sbind_def)

lemma free_bind: "rep s V r \<Longrightarrow> V no \<noteq> None \<Longrightarrow> \<exists>s'. sbind (st_free ops no) f s = f () s' \<and> rep s' (V(no := None)) r"
  using free_law [of s V r no] by (auto simp: sbind_def)

end

definition pager_ops :: "pager store_ops" where
  "pager_ops = \<lparr>st_read = read_page, st_write = write_page, st_alloc = alloc_page, st_free = free_page\<rparr>"

interpretation pager_store: page_store pager_ops represents
proof unfold_locales
  show "represents s V r \<Longrightarrow> V no = Some p \<Longrightarrow> \<exists>s'. st_read pager_ops no s = (Inr p, s') \<and> represents s' V r" for s V r no p
    using read_page_represents by (simp add: pager_ops_def)
  show "represents s V r \<Longrightarrow> V no \<noteq> None \<Longrightarrow> length buf = PAGE_SIZE \<Longrightarrow>
      \<exists>s'. st_write pager_ops no buf s = (Inr (), s') \<and> represents s' (V(no \<mapsto> buf)) r" for s V r no buf
    using write_page_represents by (simp add: pager_ops_def)
  show "represents s V (Suc r) \<Longrightarrow>
      \<exists>no s'. st_alloc pager_ops s = (Inr no, s') \<and> no \<noteq> 0 \<and> V no = None \<and> represents s' (V(no \<mapsto> zero_page)) r" for s V r
    using alloc_page_represents by (simp add: pager_ops_def)
  show "represents s V r \<Longrightarrow> V no \<noteq> None \<Longrightarrow> \<exists>s'. st_free pager_ops no s = (Inr (), s') \<and> represents s' (V(no := None)) r" for s V r no
    using free_page_represents by (simp add: pager_ops_def)
  show "represents s V r \<Longrightarrow> q \<le> r \<Longrightarrow> represents s V q" for s V r q
    by (auto simp: represents_def)
  show "represents s V r \<Longrightarrow> V no = Some p \<Longrightarrow> length p = PAGE_SIZE \<and> no \<noteq> 0" for s V r no p
    by (auto simp: represents_def store_inv_def live_view_def live_page_def split: if_splits intro: length_page_view)
qed

section \<open>Commit\<close>

text \<open>
  The image of a page that a commit makes durable. A page that was spilled is taken from the log as
  it was spilled; this is its current image unless it was brought back and rewritten since.
\<close>

definition committed_image :: "pager \<Rightarrow> u32 \<Rightarrow> bytes" where
  "committed_image s no = (if map_of (wal_index s) no = None then page_view s no else underlying s no)"

definition spills_current :: "pager \<Rightarrow> bool" where
  "spills_current s \<longleftrightarrow> (\<forall>no. map_of (wal_index s) no \<noteq> None \<longrightarrow> page_view s no = underlying s no)"

lemma committed_image_current: "spills_current s \<Longrightarrow> committed_image s no = page_view s no"
  by (auto simp: committed_image_def spills_current_def)

lemma flush_dirty_spec:
  assumes "sp_inv (pool s)" "faults s = []" "log_inv rs s"
    and "\<forall>no \<in> set ds. map_of (wal_index s) no = None \<longrightarrow> (\<exists>img d. sp_contents (pool s) no = Some (img, d) \<and> length img = PAGE_SIZE)"
  shows "\<exists>s' rs'. flush_dirty ds s = (Inr (), s') \<and> log_inv (rs @ rs') s' \<and> faults s' = [] \<and> pins s' = pins s
     \<and> same_control s s' \<and> wal_index s' = wal_index s \<and> sp_inv (pool s') \<and> sp_contents (pool s') = sp_contents (pool s)
     \<and> (\<forall>no. map_of (rev rs') no =
          (if no \<in> set ds \<and> map_of (wal_index s) no = None then map_option fst (sp_contents (pool s) no) else None))"
  using assms
proof (induction ds arbitrary: s rs)
  case Nil
  then show ?case by (intro exI [of _ s] exI [of _ "[]"]) simp
next
  case (Cons no ds)
  show ?case
  proof (cases "map_of (wal_index s) no")
    case (Some off)
    with Cons.IH [OF Cons.prems(1-3)] Cons.prems(4) obtain s' rs' where
      "flush_dirty ds s = (Inr (), s') \<and> log_inv (rs @ rs') s' \<and> faults s' = [] \<and> pins s' = pins s
       \<and> same_control s s' \<and> wal_index s' = wal_index s \<and> sp_inv (pool s') \<and> sp_contents (pool s') = sp_contents (pool s)
       \<and> (\<forall>no. map_of (rev rs') no =
          (if no \<in> set ds \<and> map_of (wal_index s) no = None then map_option fst (sp_contents (pool s) no) else None))"
      by auto
    with Some show ?thesis by (intro exI [of _ s'] exI [of _ rs']) auto
  next
    case None
    then obtain img d where img: "sp_contents (pool s) no = Some (img, d)" "length img = PAGE_SIZE"
      using Cons.prems(4) by auto
    obtain q p where g: "sp_get no (pool s) = (q, p)" by fastforce
    note gl = shared_pool.get_law [OF Cons.prems(1) g]
    let ?s1 = "s\<lparr>pool := p\<rparr>"
    have get: "pool_get no s = (Some img, ?s1)"
      using gl img(1) g by (auto simp: pool_get_def)
    obtain s2 where s2: "append_page no img ?s1 = (Inr (cursor ?s1 + 5), s2)"
      "s2 = ?s1\<lparr>log_file := write_at (log_file ?s1) (cursor ?s1) (page_record no img),
       cursor := cursor ?s1 + PAGE_RECORD_LEN, records := records ?s1 + 1\<rparr>"
      using append_page_healthy [of ?s1 no img] Cons.prems(2) by simp
    have li: "log_inv (rs @ [(no, img)]) s2"
      by (rule append_page_ok(1) [OF _ img(2) s2(1)]) (simp add: Cons.prems(3))
    have "\<exists>s' rs'. flush_dirty ds s2 = (Inr (), s') \<and> log_inv ((rs @ [(no, img)]) @ rs') s' \<and> faults s' = [] \<and> pins s' = pins s2
     \<and> same_control s2 s' \<and> wal_index s' = wal_index s2 \<and> sp_inv (pool s') \<and> sp_contents (pool s') = sp_contents (pool s2)
     \<and> (\<forall>no. map_of (rev rs') no =
          (if no \<in> set ds \<and> map_of (wal_index s2) no = None then map_option fst (sp_contents (pool s2) no) else None))"
      by (rule Cons.IH [OF _ _ li]) (use gl Cons.prems s2(2) in auto)
    then obtain s' rs' where ih: "flush_dirty ds s2 = (Inr (), s')" "log_inv ((rs @ [(no, img)]) @ rs') s'" "faults s' = []"
      "pins s' = pins s2" "same_control s2 s'" "wal_index s' = wal_index s2" "sp_inv (pool s')"
      "sp_contents (pool s') = sp_contents (pool s2)" "\<forall>no. map_of (rev rs') no =
          (if no \<in> set ds \<and> map_of (wal_index s2) no = None then map_option fst (sp_contents (pool s2) no) else None)"
      by blast
    have "flush_dirty (no # ds) s = (Inr (), s')"
      using None get s2(1) ih(1) by (simp add: sbind_def)
    with ih show ?thesis
      by (intro exI [of _ s'] exI [of _ "(no, img) # rs'"])
        (use gl img None in \<open>auto simp: s2(2) same_control_def map_add_def split: option.splits\<close>)
  qed
qed

lemma length_encode_header [simp]: "length (encode_header m) = PAGE_SIZE"
  by (simp add: encode_header_def MAGIC_def PAGE_SIZE_def)

lemma decode_encode_header: "decode_header (encode_header m) = Inr m"
  by (simp add: decode_header_def encode_header_def MAGIC_def header_consts PAGE_SIZE_def)

lemma page_at_header:
  "page_at (write_at f 0 (encode_header m)) n = (if n = 0 then encode_header m else page_at f n)"
  using page_at_write [of "encode_header m" f 0 n] by simp

text \<open>Of the pages not written since the last commit the file has the current image.\<close>

lemma page_view_clean:
  assumes "pager_core D s" "no \<notin> D" "no \<noteq> 0"
  shows "page_view s no = page_at (db_file s) (unat no)"
proof -
  have "map_of (wal_index s) no = None" using pager_coreD(6) [OF assms(1), of no] assms(2,3) by blast
  then have und: "underlying s no = page_at (db_file s) (unat no)" by (simp add: underlying_def)
  show ?thesis
  proof (cases "sp_contents (pool s) no")
    case (Some e)
    then obtain img d where e: "sp_contents (pool s) no = Some (img, d)" by (cases e) auto
    then have "\<not> d" using pager_coreD(5) [OF assms(1), of no] assms(2,3) by (cases d) auto
    then have "underlying s no = img" using e pager_coreD(3) [OF assms(1)] by (auto simp: shared_pool.coherent_def)
    with e und show ?thesis by (simp add: page_view_def shared_pool.through_def)
  qed (simp add: page_view_def shared_pool.through_def und)
qed

lemma logged_page_view:
  assumes core: "pager_core D s" and rs: "spilled_in s rs" and no: "no \<noteq> 0"
    and im: "\<And>n. map_of (rev qs) n = (if n \<in> D - {0} \<and> map_of (wal_index s) n = None then Some (page_view s n) else None)"
  shows "(case map_of (rev (rs @ qs)) no of Some img \<Rightarrow> img | None \<Rightarrow> page_at (db_file s) (unat no)) = committed_image s no"
proof (cases "map_of (wal_index s) no")
  case (Some off)
  then have "map_of (rev rs) no = Some (underlying s no)"
    using rs by (auto simp: spilled_in_def underlying_def dest: spec [of _ no])
  then show ?thesis using im [of no] Some by (simp add: map_add_def committed_image_def)
next
  case None
  then have "map_of (rev rs) no = None" using rs by (auto simp: spilled_in_def dest: spec [of _ no])
  then show ?thesis
    using im [of no] None no page_view_clean [OF core _ no] by (simp add: map_add_def committed_image_def)
qed

lemma commit_core:
  assumes core: "pager_core (set (dirty_pages s)) s" and work: "dirty_pages s \<noteq> [] \<or> wal_index s \<noteq> []"
  shows "\<exists>s'. commit s = (Inr (), s') \<and> log_file s' = [] \<and> meta s' = meta s \<and> dirty_pages s' = [] \<and> wal_index s' = []
    \<and> faults s' = [] \<and> pins s' = [] \<and> pending_freelist s' = pending_freelist s \<and> allocated_pages s' = []
    \<and> PAGE_SIZE \<le> length (db_file s') \<and> page_at (db_file s') 0 = encode_header (meta s)
    \<and> (\<forall>no. no \<noteq> 0 \<longrightarrow> page_at (db_file s') (unat no) = committed_image s no) \<and> sp_inv (pool s')
    \<and> sp_contents (pool s') = (\<lambda>n. if n \<in> set (dirty_pages s) - {0}
         then map_option (\<lambda>(img, _). (img, False)) (sp_contents (pool s) n) else sp_contents (pool s) n)
    \<and> cursor s' = 0 \<and> records s' = 0"
proof -
  define ds where "ds = filter (\<lambda>n. n \<noteq> 0) (dirty_pages s)"
  define s0 where "s0 = s\<lparr>dirty_pages := ds\<rparr>"
  obtain rs where rs: "log_inv rs s" "spilled_in s rs" using pager_coreD(8) [OF core] by blast
  have h: "faults s = []" "pins s = []" using pager_coreD(1) [OF core] by (simp_all add: healthy_def)
  have "\<forall>no \<in> set ds. map_of (wal_index s0) no = None \<longrightarrow> (\<exists>img d. sp_contents (pool s0) no = Some (img, d) \<and> length img = PAGE_SIZE)"
    using pager_coreD(4,7) [OF core] by (fastforce simp: ds_def s0_def)
  then obtain s1 qs where s1: "flush_dirty ds s0 = (Inr (), s1)" "log_inv (rs @ qs) s1" "faults s1 = []" "pins s1 = []"
    "same_control s0 s1" "wal_index s1 = wal_index s" "sp_inv (pool s1)" "sp_contents (pool s1) = sp_contents (pool s)"
    "\<And>no. map_of (rev qs) no = (if no \<in> set ds \<and> map_of (wal_index s) no = None then map_option fst (sp_contents (pool s) no) else None)"
    using flush_dirty_spec [of s0 rs ds] rs(1) h pager_coreD(2) [OF core] by (auto simp: s0_def)
  have im: "map_of (rev qs) n = (if n \<in> set (dirty_pages s) - {0} \<and> map_of (wal_index s) n = None then Some (page_view s n) else None)" for n
  proof (cases "n \<in> set ds \<and> map_of (wal_index s) n = None")
    case True
    then obtain img where "sp_contents (pool s) n = Some (img, True)"
      using pager_coreD(7) [OF core, of n] by (auto simp: ds_def)
    with True s1(9) [of n] show ?thesis by (simp add: ds_def page_view_def shared_pool.through_def)
  qed (use s1(9) [of n] in \<open>auto simp: ds_def\<close>)
  obtain s2 where s2: "seal s1 = (Inr (), s2)" "s2 = s1\<lparr>log_file := write_at (log_file s1) (cursor s1) (commit_record (records s1)),
     cursor := cursor s1 + COMMIT_RECORD_LEN\<rparr>"
    using seal_healthy [OF s1(3)] by blast
  have sl: "sealed_log (rs @ qs) (log_file s2)" by (rule seal_ok(1) [OF s1(2) s2(1)])
  let ?db = "replay (rs @ qs) (db_file s)"
  have ap: "apply_log s2 = (Inr (), s2\<lparr>db_file := ?db\<rparr>)"
    using apply_log_healthy [OF sl] s1(3,5) by (simp add: s2(2) same_control_def s0_def)
  let ?s4 = "s2\<lparr>db_file := write_at ?db 0 (encode_header (meta s))\<rparr>"
  have ca: "commit_apply s0 = (Inr (), ?s4)"
    using s1(1,3,5) s2(1) ap by (simp add: commit_apply_def sbind_def s0_def s2(2) same_control_def)
  have wp: "whole_pages (rs @ qs)" using sl by (simp add: sealed_log_def)
  have pages: "page_at (write_at ?db 0 (encode_header (meta s))) (unat no) = committed_image s no" if "no \<noteq> 0" for no
    using logged_page_view [OF core rs(2) that im] page_at_replay [OF wp, of "db_file s" no] that
    by (simp add: page_at_header unat_eq_0)
  define s' where "s' = (?s4\<lparr>log_file := [], cursor := 0, records := 0\<rparr>)
     \<lparr>pool := sp_mark_clean ds (pool s1), dirty_pages := [], allocated_pages := [], wal_index := []\<rparr>"
  have "commit s = (Inr (), s')"
    using ca work s1(3,5) reset_healthy [of ?s4]
    by (simp add: commit_def sbind_def ds_def [symmetric] s0_def [symmetric] s2(2) same_control_def s'_def)
      (auto simp: s0_def)
  moreover have "sp_inv (sp_mark_clean ds (pool s1))" "sp_contents (sp_mark_clean ds (pool s1)) = (\<lambda>n. if n \<in> set (dirty_pages s) - {0}
         then map_option (\<lambda>(img, _). (img, False)) (sp_contents (pool s) n) else sp_contents (pool s) n)"
    using shared_pool.mark_clean_law [OF s1(7), of ds] s1(8) by (auto simp: ds_def fun_eq_iff)
  ultimately show ?thesis
    using pages s1(3,4,5) page_at_header [of ?db "meta s" 0]
    by (intro exI [of _ s']) (simp add: s'_def s2(2) same_control_def s0_def length_write_at)
qed

section \<open>Opening\<close>

lemma new_pager_core:
  assumes "sp_inv p" "sp_contents p = Map.empty"
  shows "pager_core {} (new_pager db [] m p)" "page_view (new_pager db [] m p) no = page_at db (unat no)"
  using assms
  by (auto simp: pager_core_def new_pager_def healthy_def shared_pool.coherent_def log_inv_def spilled_in_def
      unsealed_def whole_pages_def page_view_def shared_pool.through_def underlying_def intro!: exI [of _ "[]"])

lemma recover_empty_log: "faults w = [] \<Longrightarrow> recover (w\<lparr>log_file := [], cursor := 0, records := 0\<rparr>) =
    (Inr False, w\<lparr>log_file := [], cursor := 0, records := 0\<rparr>)"
  using recover_unsealed [of "w\<lparr>log_file := [], cursor := 0, records := 0\<rparr>"] by (simp add: not_scan_Nil)

lemma page_at_take: "PAGE_SIZE \<le> length f \<Longrightarrow> page_at f 0 = take PAGE_SIZE f"
  by (rule nth_equalityI) (auto simp: page_at_def byte_at_def)

lemma open_existing:
  assumes "PAGE_SIZE \<le> length db" "page_at db 0 = encode_header m"
  shows "open_with_pool db [[]] [] p = Inr (new_pager db [] m p)"
proof -
  have ne: "db \<noteq> []" using assms(1) by (auto simp: PAGE_SIZE_def)
  have hd: "decode_header (take PAGE_SIZE db) = Inr m"
    using assms page_at_take [of db] decode_encode_header [of m] by simp
  have "recover_logs [[]] \<lparr>log_file = [], db_file = db, faults = [], cursor = 0, records = 0\<rparr> =
      (Inr (), \<lparr>log_file = [], db_file = db, faults = [], cursor = 0, records = 0\<rparr>)"
    using recover_empty_log [of "\<lparr>log_file = [], db_file = db, faults = [], cursor = 0, records = 0\<rparr>"]
    by (simp add: sbind_def)
  with ne hd assms(1) show ?thesis
    by (simp add: open_with_pool_def)
qed

section \<open>Properties\<close>

text \<open>C24: Page storage behaves as a map. While I/O succeeds and frames can be evicted, a pager that
  represents the live pages \<open>V\<close> reads any of them back, a write replaces exactly that page, allocation
  returns a page number that is not in use (from the rolled-back pages, the free list or the end of
  the file) holding zeros, and freeing removes exactly that page; all of it across evictions, spills
  to the log and read-backs.\<close>

theorem pager_is_page_map:
  assumes "represents s V (Suc r)" "V no = Some page" "length buf = PAGE_SIZE"
  shows "(\<exists>s'. read_page no s = (Inr page, s') \<and> represents s' V (Suc r))
    \<and> (\<exists>s'. write_page no buf s = (Inr (), s') \<and> represents s' (V(no \<mapsto> buf)) (Suc r))
    \<and> (\<exists>n s'. alloc_page s = (Inr n, s') \<and> n \<noteq> 0 \<and> V n = None \<and> represents s' (V(n \<mapsto> zero_page)) r)
    \<and> (\<exists>s'. free_page no s = (Inr (), s') \<and> represents s' (V(no := None)) (Suc r))"
  using pager_store.read_law [OF assms(1,2)] pager_store.write_law [OF assms(1) _ assms(3), of no]
    pager_store.alloc_law [OF assms(1)] pager_store.free_law [OF assms(1), of no] assms(2)
  by (simp add: pager_ops_def)

definition sample_pager :: pager where
  "sample_pager = new_pager [] [] \<lparr>page_count = 2, freelist_head = 0, catalog_root = 1, next_tx_id = 1\<rparr> sp_new"

lemma sp_new_ok: "sp_inv sp_new" "sp_contents sp_new = Map.empty"
  by (auto simp: sp_new_def with_capacity_def POOL_CAPACITY_def POOL_SHARDS_def Let_def sp_inv_def bp_inv_def
      bp_new_def bp_contents_def sp_contents_def shard_of_def fun_eq_iff)

lemma sample_pager_represents:
  "represents sample_pager [1 \<mapsto> page_at [] 1] 3"
proof -
  note c = new_pager_core [OF sp_new_ok, of "[]" "\<lparr>page_count = 2, freelist_head = 0, catalog_root = 1, next_tx_id = 1\<rparr>"]
  have two: "x < (2 :: u32) \<longleftrightarrow> x = 0 \<or> x = 1" for x
    by (auto simp: word_less_nat_alt word_unat_eq_iff)
  have "store_inv [] sample_pager"
    using c(1) by (simp add: store_inv_def sample_pager_def) (simp add: new_pager_def)
  moreover have "[1 \<mapsto> page_at [] 1] = live_view [] sample_pager"
    by (auto simp: live_view_def live_page_def sample_pager_def c(2) fun_eq_iff) (simp_all add: new_pager_def two)
  ultimately show ?thesis
    by (auto simp: represents_def) (simp add: sample_pager_def new_pager_def)
qed

theorem pager_is_page_map_witness:
  "\<exists>s'. read_page 1 sample_pager = (Inr (page_at [] 1), s') \<and> represents s' [1 \<mapsto> page_at [] 1] (Suc 2)"
proof -
  have "represents sample_pager [1 \<mapsto> page_at [] 1] (Suc 2)"
    using sample_pager_represents by (simp add: eval_nat_numeral)
  from pager_is_page_map [OF this, of 1 "page_at [] 1" zero_page] show ?thesis
    by (simp add: zero_page_def)
qed

lemma read_page_result:
  assumes "pager_core D s" "no < page_count (meta s)" "no \<noteq> 0"
  shows "fst (read_page no s) = Inr (page_view s no)"
  using read_page_core [OF assms] by (metis fst_conv)

text \<open>Commit is durable. After a commit, a fresh process that opens the file with an empty cache and
  finds the emptied log reads the committed header and, for every page, the image the transaction
  had; the committing pager goes on reading the same images. (Hypothesis: no page was spilled to the
  log, brought back and rewritten within the transaction.)\<close>

theorem commit_durable:
  assumes "pager_core (set (dirty_pages s)) s" "spills_current s" "dirty_pages s \<noteq> []"
    and "sp_inv p" "sp_contents p = Map.empty"
  shows "\<exists>s' t. commit s = (Inr (), s') \<and> open_with_pool (db_file s') [log_file s'] [] p = Inr t \<and> meta t = meta s
    \<and> (\<forall>no. no \<noteq> 0 \<longrightarrow> no < page_count (meta s) \<longrightarrow> fst (read_page no t) = fst (read_page no s))"
proof -
  obtain s' where s': "commit s = (Inr (), s')" "log_file s' = []" "PAGE_SIZE \<le> length (db_file s')"
    "page_at (db_file s') 0 = encode_header (meta s)"
    "\<And>no. no \<noteq> 0 \<Longrightarrow> page_at (db_file s') (unat no) = committed_image s no"
    using commit_core [OF assms(1)] assms(3) by blast
  let ?t = "new_pager (db_file s') [] (meta s) p"
  have "fst (read_page no ?t) = fst (read_page no s)" if "no \<noteq> 0" "no < page_count (meta s)" for no
    using read_page_result [OF new_pager_core(1) [OF assms(4,5)], of no "db_file s'" "meta s"]
      read_page_result [OF assms(1) that(2,1)] new_pager_core(2) [OF assms(4,5), of "db_file s'" "meta s" no]
      s'(5) [OF that(1)] committed_image_current [OF assms(2)] that
    by (simp add: new_pager_def)
  moreover have "meta ?t = meta s" by (simp add: new_pager_def)
  ultimately show ?thesis
    using s'(1,2) open_existing [OF s'(3,4), of p] by auto
qed

section \<open>Rollback\<close>

lemma rollback_core:
  assumes "pager_core (set (dirty_pages s)) s"
  shows "pager_core {} (rollback s)" "no \<noteq> 0 \<Longrightarrow> page_view (rollback s) no = page_at (db_file s) (unat no)"
proof -
  note dr = shared_pool.drop_law [OF pager_coreD(2) [OF assms], of "dirty_pages s"]
  let ?t = "rollback s"
  have f: "wal_index ?t = []" "db_file ?t = db_file s" "log_file ?t = log_file s" "cursor ?t = 0" "records ?t = 0"
    "faults ?t = faults s" "pins ?t = pins s" "pool ?t = sp_drop_pages (dirty_pages s) (pool s)"
    by (simp_all add: rollback_def discard_def)
  have c: "sp_contents (pool ?t) = (\<lambda>n. if n \<in> set (dirty_pages s) then None else sp_contents (pool s) n)" "sp_inv (pool ?t)"
    using dr f(8) by simp_all
  have und: "underlying ?t n = page_at (db_file s) (unat n)" for n by (simp add: underlying_def f)
  have old: "underlying s n = page_at (db_file s) (unat n)" if "n \<notin> set (dirty_pages s)" "n \<noteq> 0" for n
    using pager_coreD(6) [OF assms, of n] that by (cases "map_of (wal_index s) n") (auto simp: underlying_def)
  have clean: "underlying ?t n = img" if "sp_contents (pool ?t) n = Some (img, False)" for n img
  proof -
    have n: "sp_contents (pool s) n = Some (img, False)" "n \<notin> set (dirty_pages s)" using that c(1) by (auto split: if_splits)
    then have "n \<noteq> 0" using pager_coreD(9) [OF assms] by auto
    moreover have "underlying s n = img" using pager_coreD(3) [OF assms] n(1) by (simp add: shared_pool.coherent_def)
    ultimately show ?thesis using old [OF n(2)] und [of n] by simp
  qed
  have fo: "frame_ok {} n img d" if "sp_contents (pool ?t) n = Some (img, d)" for n img d
  proof -
    have n: "sp_contents (pool s) n = Some (img, d)" "n \<notin> set (dirty_pages s)" using that c(1) by (auto split: if_splits)
    then have "frame_ok (set (dirty_pages s)) n img d" using assms unfolding pager_core_def by blast
    with n(2) show ?thesis by (auto simp: frame_ok_def)
  qed
  obtain rs where "log_inv rs s" using pager_coreD(8) [OF assms] by blast
  then have "unsealed (log_file ?t)" by (simp add: log_inv_def f)
  then have "log_inv [] ?t \<and> spilled_in ?t []" using log_inv_Nil [of ?t] by (simp add: f spilled_in_def)
  then show core: "pager_core {} ?t"
    unfolding pager_core_def using c(2) fo clean pager_coreD(1) [OF assms]
    by (auto simp: healthy_def f shared_pool.coherent_def)
  show "no \<noteq> 0 \<Longrightarrow> page_view ?t no = page_at (db_file s) (unat no)"
    using page_view_clean [OF core, of no] f(2) by simp
qed

text \<open>Rollback restores the pages: after it every page reads as the file has it, whatever the
  transaction wrote, spilled or allocated; no later commit can make the discarded images durable.\<close>

theorem rollback_restores_pages:
  assumes "pager_core (set (dirty_pages s)) s" "no \<noteq> 0" "no < page_count (meta s)"
  shows "fst (read_page no (rollback s)) = Inr (page_at (db_file s) (unat no)) \<and> commit (rollback s) = (Inr (), rollback s)"
proof -
  have "meta (rollback s) = meta s" by (simp add: rollback_def discard_def)
  then show ?thesis
    using read_page_result [OF rollback_core(1) [OF assms(1)], of no] rollback_core(2) [OF assms(1,2)] assms(2,3)
    by (simp add: commit_def) (simp add: rollback_def discard_def)
qed

text \<open>A transaction that has written page 1, for the examples below.\<close>

lemma sample_written:
  "\<exists>s. write_page 1 zero_page sample_pager = (Inr (), s) \<and> pager_core (set (dirty_pages s)) s \<and> dirty_pages s = [1]
     \<and> wal_index s = [] \<and> meta s = meta sample_pager"
proof -
  have c: "pager_core (set (dirty_pages sample_pager)) sample_pager" "dirty_pages sample_pager = []"
    using new_pager_core(1) [OF sp_new_ok] by (simp_all add: sample_pager_def) (simp_all add: new_pager_def)
  have z: "length zero_page = PAGE_SIZE" by (simp add: zero_page_def)
  obtain s where s: "write_page 1 zero_page sample_pager = (Inr (), s)" "pager_core (set (dirty_pages s)) s"
    "dirty_pages s = hs_insert 1 []" "meta s = meta sample_pager"
    using write_page_core [OF c(1) z, of 1] c(2) by metis
  have "wal_index (snd (write_page 1 zero_page sample_pager)) = []"
    by (simp add: write_page_def admit_def sbind_def pool_put_def sample_pager_def new_pager_def sp_put_def sp_new_def
        with_capacity_def POOL_CAPACITY_def POOL_SHARDS_def shard_of_def bp_put_def bp_new_def upt_rec Let_def)
  with s show ?thesis by (auto simp: hs_insert_def)
qed

theorem commit_durable_witness:
  "\<exists>s s' t. write_page 1 zero_page sample_pager = (Inr (), s) \<and> commit s = (Inr (), s')
     \<and> open_with_pool (db_file s') [log_file s'] [] sp_new = Inr t \<and> fst (read_page 1 t) = fst (read_page 1 s)"
proof -
  obtain s where s: "write_page 1 zero_page sample_pager = (Inr (), s)" "pager_core (set (dirty_pages s)) s"
    "dirty_pages s = [1]" "wal_index s = []" "meta s = meta sample_pager" using sample_written by blast
  have "spills_current s" by (simp add: spills_current_def s(4))
  moreover have "dirty_pages s \<noteq> []" by (simp add: s(3))
  moreover have "(1 :: u32) < page_count (meta s)" by (simp add: s(5) sample_pager_def new_pager_def)
  ultimately show ?thesis
    using commit_durable [OF s(2) _ _ sp_new_ok] s(1) by fastforce
qed

theorem rollback_restores_pages_witness:
  "\<exists>s. write_page 1 zero_page sample_pager = (Inr (), s) \<and> fst (read_page 1 (rollback s)) = Inr (page_at (db_file s) 1)"
proof -
  obtain s where s: "write_page 1 zero_page sample_pager = (Inr (), s)" "pager_core (set (dirty_pages s)) s"
    "meta s = meta sample_pager" using sample_written by blast
  have "(1 :: u32) < page_count (meta s)" by (simp add: s(3) sample_pager_def new_pager_def)
  with rollback_restores_pages [OF s(2), of 1] s(1) show ?thesis by auto
qed

text \<open>Rollback does not take back a freed page. The free list lives in the shared header, which
  rollback leaves alone: a live page that the rolled-back transaction had freed is live again with
  its old contents, and is also the page the next allocation hands out.\<close>

theorem rollback_leaves_freed_page_on_free_list:
  assumes "represents s V (Suc r)" "V no = Some page" "dirty_pages s = []" "pending_freelist s = []" "allocated_pages s = []"
  shows "\<exists>s1 s2. free_page no s = (Inr (), s1) \<and> fst (read_page no (rollback s1)) = Inr page
     \<and> alloc_page (rollback s1) = (Inr no, s2)"
proof -
  obtain fl where fl: "store_inv fl s" "V = live_view fl s" using representsE [OF assms(1)] by metis
  have core: "pager_core {} s" using fl(1) assms(3) by (simp add: store_inv_def)
  have live: "live_page fl s no" "page_view s no = page" using assms(2) fl(2) by (auto simp: live_view_def split: if_splits)
  then have no: "no \<noteq> 0" "no < page_count (meta s)" by (auto simp: live_page_def)
  let ?buf = "u32_le (freelist_head (meta s)) @ replicate (PAGE_SIZE - 4) 0"
  have "length ?buf = PAGE_SIZE" by (simp add: PAGE_SIZE_def)
  moreover have "pager_core (set (dirty_pages s)) s" using core assms(3) by simp
  ultimately obtain s1 where s1: "write_page no ?buf s = (Inr (), s1)" "pager_core (set (dirty_pages s1)) s1"
    "db_file s1 = db_file s" "meta s1 = meta s" "allocated_pages s1 = []" "pending_freelist s1 = []"
    using write_page_core [of s ?buf no] assms(4,5) by metis
  define t where "t = s1\<lparr>meta := (meta s1)\<lparr>freelist_head := no\<rparr>\<rparr>"
  have free: "free_page no s = (Inr (), t)" using s1(1) by (simp add: free_page_def sbind_def t_def)
  have tc: "pager_core (set (dirty_pages t)) t" using s1(2) by (simp add: t_def)
  have rb: "meta (rollback t) = (meta s)\<lparr>freelist_head := no\<rparr>" "pending_freelist (rollback t) = []"
    by (simp_all add: rollback_def discard_def t_def s1(4,5,6))
  note rc = rollback_core [OF tc]
  have pv: "page_view (rollback t) no = page"
    using rc(2) [OF no(1)] page_view_clean [OF core _ no(1)] live(2) s1(3) by (simp add: t_def)
  have read: "fst (read_page no (rollback t)) = Inr page"
    using read_page_result [OF rc(1), of no] no pv rb(1) by simp
  have "no < page_count (meta (rollback t))" using no(2) rb(1) by simp
  from read_page_core [OF rc(1) this no(1)]
  obtain u where u: "read_page no (rollback t) = (Inr page, u)" "pager_core {} u" "same_control (rollback t) u"
    unfolding pv by blast
  have "dirty_pages u = []" using u(3) by (simp add: same_control_def rollback_def discard_def)
  then have "pager_core (set (dirty_pages (u\<lparr>meta := m\<rparr>))) (u\<lparr>meta := m\<rparr>)" for m using u(2) by simp
  then obtain v where "stage_alloc no (u\<lparr>meta := (meta u)\<lparr>freelist_head := u32_of_le (take 4 page)\<rparr>\<rparr>) = (Inr no, v)"
    using stage_alloc_core by metis
  then have "alloc_page (rollback t) = (Inr no, v)"
    using rb no(1) u(1) by (simp add: alloc_page_def sbind_def)
  with free read show ?thesis by blast
qed

theorem rollback_leaves_freed_page_on_free_list_witness:
  "\<exists>s1 s2. free_page 1 sample_pager = (Inr (), s1) \<and> fst (read_page 1 (rollback s1)) = Inr (page_at [] 1)
     \<and> alloc_page (rollback s1) = (Inr 1, s2)"
proof -
  have "represents sample_pager [1 \<mapsto> page_at [] 1] (Suc 2)"
    using sample_pager_represents by (simp add: eval_nat_numeral)
  from rollback_leaves_freed_page_on_free_list [OF this, of 1 "page_at [] 1"] show ?thesis
    by (simp add: sample_pager_def new_pager_def)
qed

end
