(* ===== verification/Pager_Crash.thy ===== *)
theory Pager_Crash
  imports Pager_Spec
begin

text \<open>
  Crashes inside \<^verbatim>\<open>Pager::commit\<close>. Seen from the files, a commit is the log transaction of
  \<open>Wal_Log\<close> over the images of its dirty pages, followed by the header write and the truncation of
  the log; the lemmas relate the pager's run, under any schedule of I/O failures, to that of the log
  alone, and carry the log's crash atomicity over to the pager.
\<close>

section \<open>The log's part of the pager\<close>

abbreviation wal_part :: "pager \<Rightarrow> wal" where
  "wal_part s \<equiv> wal.truncate s"

lemma wal_part_sel [simp]:
  "log_file (wal_part s) = log_file s" "db_file (wal_part s) = db_file s" "faults (wal_part s) = faults s"
  "cursor (wal_part s) = cursor s" "records (wal_part s) = records s"
  by (simp_all add: wal.defs)

lemma wal_part_upd [simp]:
  "wal_part (s\<lparr>pool := p\<rparr>) = wal_part s" "wal_part (s\<lparr>dirty_pages := d\<rparr>) = wal_part s"
  by (simp_all add: wal.defs)

text \<open>An operation of the log runs on the pager as it runs on the pager's log part.\<close>

definition lifts :: "(wal, 'a) op \<Rightarrow> (pager, 'a) op \<Rightarrow> bool" where
  "lifts m' m \<longleftrightarrow> (\<forall>s. m' (wal_part s) = apsnd wal.truncate (m s))"

lemma lifts_sbind: "lifts m' m \<Longrightarrow> (\<And>x. lifts (f' x) (f x)) \<Longrightarrow> lifts (sbind m' f') (sbind m f)"
  unfolding lifts_def sbind_def by (auto split: prod.splits sum.splits)

lemma lifts_io: "lifts io io"
  unfolding lifts_def
proof
  fix s :: pager
  show "io (wal_part s) = apsnd wal.truncate (io s)"
    by (cases "next_io (faults s)"; cases "fst (next_io (faults s))") (auto simp: io_def wal.defs)
qed

lemma lifts_write:
  "write_log off d (wal_part s) = apsnd wal.truncate (write_log off d s)"
  "write_db off d (wal_part s) = apsnd wal.truncate (write_db off d s)"
  by (cases "next_io (faults s)"; cases "fst (next_io (faults s))"; auto simp: write_log_def write_db_def wal.defs)+

lemma lifts_append: "lifts (append_page no img) (append_page no img)"
  unfolding lifts_def append_page_def sbind_def
  using lifts_write(1) by (auto split: prod.splits sum.splits simp: wal.defs)

lemma lifts_seal: "lifts seal seal"
  unfolding lifts_def
proof
  fix s :: pager
  obtain r s1 where w: "write_log (cursor s) (commit_record (records s)) s = (r, s1)" by fastforce
  have w': "write_log (cursor s) (commit_record (records s)) (wal_part s) = (r, wal_part s1)"
    using lifts_write(1) [of "cursor s" "commit_record (records s)" s] w by simp
  have i: "io (wal_part s1) = apsnd wal.truncate (io s1)" using lifts_io by (simp add: lifts_def)
  show "seal (wal_part s) = apsnd wal.truncate (seal s)"
  proof (cases r)
    case Inl
    then show ?thesis using w w' by (simp add: seal_def sbind_def)
  next
    case Inr
    then show ?thesis
      using w w' i by (cases rule: io_cases [of s1]) (simp_all add: seal_def sbind_def wal.defs)
  qed
qed

lemma apply_loop_lifts: "apply_loop bs (wal_part s) = apsnd wal.truncate (apply_loop bs s)"
proof (induction bs s rule: apply_loop.induct)
  case (1 bs s)
  show ?case
  proof (cases bs)
    case (Cons tag r)
    let ?no = "unat (u32_of_le (take 4 r)) * PAGE_SIZE" and ?d = "take PAGE_SIZE (drop 4 r)"
    obtain q s1 where w: "write_db ?no ?d s = (q, s1)" by fastforce
    have w': "write_db ?no ?d (wal_part s) = (q, wal_part s1)"
      using lifts_write(2) [of ?no ?d s] w by simp
    show ?thesis
    proof (cases "tag \<noteq> REC_PAGE \<or> length r < PAGE_RECORD_LEN - 1")
      case True
      then show ?thesis using Cons by (simp add: apply_loop.simps)
    next
      case False
      have ih: "q = Inr x \<Longrightarrow> apply_loop (drop (PAGE_RECORD_LEN - 1) r) (wal_part s1) =
          apsnd wal.truncate (apply_loop (drop (PAGE_RECORD_LEN - 1) r) s1)" for x
        using "1.IH" [OF Cons False w [symmetric]] by simp
      show ?thesis
        using False w w' ih by (subst (1 2) apply_loop.simps) (cases q; simp add: Cons)
    qed
  qed (simp add: apply_loop.simps)
qed

lemma lifts_apply: "lifts apply_log apply_log"
  unfolding apply_log_def
  by (intro lifts_sbind lifts_io) (simp add: lifts_def apply_loop_lifts)

section \<open>A commit is a log transaction\<close>

text \<open>The images a commit logs: those of the dirty pages that were not spilled.\<close>

definition flush_images :: "u32 list \<Rightarrow> pager \<Rightarrow> page_image list" where
  "flush_images ds s = map (\<lambda>no. (no, fst (the (sp_contents (pool s) no)))) (filter (\<lambda>no. map_of (wal_index s) no = None) ds)"

lemma map_of_rev_map: "map_of (rev (map (\<lambda>x. (x, f x)) xs)) k = (if k \<in> set xs then Some (f k) else None)"
  by (induction xs) (auto simp: map_add_def split: option.splits)

definition resident :: "u32 list \<Rightarrow> pager \<Rightarrow> bool" where
  "resident ds s \<longleftrightarrow> sp_inv (pool s) \<and> (\<forall>no \<in> set ds. map_of (wal_index s) no = None \<longrightarrow> sp_contents (pool s) no \<noteq> None)"

lemma append_page_frame:
  "append_page no img s = (r, s') \<Longrightarrow> pool s' = pool s \<and> wal_index s' = wal_index s \<and> meta s' = meta s \<and> dirty_pages s' = dirty_pages s"
  unfolding append_page_def sbind_def
  by (cases rule: write_log_cases [of "cursor s" "page_record no img" s]) auto

lemma flush_dirty_lifts:
  assumes "resident ds s"
  shows "append_pages (flush_images ds s) (wal_part s) = apsnd wal.truncate (flush_dirty ds s)
    \<and> meta (snd (flush_dirty ds s)) = meta s \<and> dirty_pages (snd (flush_dirty ds s)) = dirty_pages s"
  using assms
proof (induction ds arbitrary: s)
  case Nil
  then show ?case by (simp add: flush_images_def)
next
  case (Cons no ds)
  show ?case
  proof (cases "map_of (wal_index s) no")
    case (Some off)
    then show ?thesis using Cons.IH [of s] Cons.prems by (simp add: flush_images_def resident_def)
  next
    case None
    then obtain img d where c: "sp_contents (pool s) no = Some (img, d)"
      using Cons.prems by (auto simp: resident_def)
    obtain q p where g: "sp_get no (pool s) = (q, p)" by fastforce
    have inv: "sp_inv (pool s)" using Cons.prems by (simp add: resident_def)
    note gl = shared_pool.get_law [OF inv g]
    let ?s1 = "s\<lparr>pool := p\<rparr>"
    have get: "pool_get no s = (Some img, ?s1)" using gl c g by (auto simp: pool_get_def)
    obtain r s2 where a: "append_page no img ?s1 = (r, s2)" by fastforce
    have a': "append_page no img (wal_part s) = (r, wal_part s2)"
      using lifts_append [of no img] a by (simp add: lifts_def) (metis apsnd_conv wal_part_upd(1))
    note fr = append_page_frame [OF a]
    have im: "flush_images (no # ds) s = (no, img) # flush_images ds s2"
      using None c gl fr by (simp add: flush_images_def)
    have res: "resident ds s2" using Cons.prems gl fr by (simp add: resident_def)
    show ?thesis
      using Cons.IH [OF res] None get a a' fr by (cases r) (simp_all add: im sbind_def)
  qed
qed

lemma commit_body_lifts:
  assumes "resident ds s"
    and run: "sbind (flush_dirty ds) (\<lambda>_. sbind seal (\<lambda>_. apply_log)) s = (r, s')"
  shows "log_transaction (flush_images ds s) (wal_part s) = (r, wal_part s')"
proof -
  obtain q s1 where f: "flush_dirty ds s = (q, s1)" by fastforce
  have f': "append_pages (flush_images ds s) (wal_part s) = (q, wal_part s1)"
    using flush_dirty_lifts [OF assms(1)] f by simp
  have rest: "lifts (sbind seal (\<lambda>_. apply_log)) (sbind seal (\<lambda>_. apply_log))"
    by (intro lifts_sbind lifts_seal lifts_apply)
  show ?thesis
  proof (cases q)
    case (Inl e)
    then show ?thesis using f f' run by (auto simp: log_transaction_def sbind_def)
  next
    case (Inr u)
    then have "sbind seal (\<lambda>_. apply_log) s1 = (r, s')" using f run by (simp add: sbind_def)
    then have "sbind seal (\<lambda>_. apply_log) (wal_part s1) = (r, wal_part s')"
      using rest by (simp add: lifts_def)
    then show ?thesis using f' Inr unfolding log_transaction_def by (simp add: sbind_def)
  qed
qed

lemma log_transaction_ok:
  assumes "log_inv qs s" "whole_pages rs" "log_transaction rs s = (Inr u, s')"
  shows "db_file s' = replay (qs @ rs) (db_file s)" "sealed_log (qs @ rs) (log_file s')"
proof -
  from assms(3) obtain s1 s2 where a: "append_pages rs s = (Inr (), s1)" and b: "seal s1 = (Inr (), s2)"
    and c: "apply_log s2 = (Inr u, s')"
    by (auto simp: log_transaction_def sbind_def split: prod.splits sum.splits)
  have l: "log_inv (qs @ rs) s1" "db_file s1 = db_file s" using append_pages_ok [OF assms(1,2) a] by simp_all
  note sl = seal_ok [OF l(1) b]
  show "db_file s' = replay (qs @ rs) (db_file s)" using apply_log_success [OF sl(1) c] sl(2) l(2) by simp
  show "sealed_log (qs @ rs) (log_file s')" using apply_log_frame [OF sl(1) c] sl(1) by simp
qed

text \<open>The tail of a commit: the header goes to page 0 and the log is emptied, or either is cut short.\<close>

lemma commit_tail:
  assumes "sbind (sbind (\<lambda>s. write_db 0 (encode_header (meta s)) s) (\<lambda>_. io)) (\<lambda>_. sbind reset k) s = (r, s')"
    and k: "\<And>u t. db_file (snd (k u t)) = db_file t \<and> log_file (snd (k u t)) = log_file t"
  shows "(log_file s' = log_file s \<or> log_file s' = []) \<and>
    (\<forall>no. no \<noteq> 0 \<longrightarrow> page_at (db_file s') (unat no) = page_at (db_file s) (unat (no :: u32)))"
proof -
  let ?h = "encode_header (meta s)"
  have pg: "page_at (write_at f 0 (take j ?h)) (unat no) = page_at f (unat no)" if "no \<noteq> 0" for f j and no :: u32
    using page_at_write_other [of "take j ?h" "unat no" 0 f] that by (simp add: unat_eq_0)
  have pg': "page_at (write_at f 0 ?h) (unat no) = page_at f (unat no)" if "no \<noteq> 0" for f and no :: u32
    using pg [OF that, of f PAGE_SIZE] by simp
  show ?thesis
  proof (cases rule: write_db_cases [of 0 ?h s])
    case (2 f j)
    then show ?thesis using assms(1) pg by (auto simp: sbind_def)
  next
    case (1 f)
    let ?s1 = "s\<lparr>db_file := write_at (db_file s) 0 ?h, faults := f\<rparr>"
    show ?thesis
    proof (cases rule: io_cases [of ?s1])
      case (2 g)
      then show ?thesis using assms(1) 1 pg' by (auto simp: sbind_def)
    next
      case io: (1 g)
      obtain b s3 where b: "reset (?s1\<lparr>faults := g\<rparr>) = (b, s3)" by fastforce
      have s3: "db_file s3 = db_file ?s1" "log_file s3 = log_file s \<or> log_file s3 = []"
        using reset_any [OF b] by simp_all
      have "db_file s' = db_file s3 \<and> log_file s' = log_file s3"
      proof (cases b)
        case (Inl e)
        then show ?thesis using assms(1) 1 io b by (simp add: sbind_def)
      next
        case (Inr u)
        then have "k u s3 = (r, s')" using assms(1) 1 io b by (simp add: sbind_def)
        then show ?thesis using k [of u s3] by simp
      qed
      then show ?thesis using s3 pg' by auto
    qed
  qed
qed

lemma sbind_assoc: "sbind (sbind m f) g = sbind m (\<lambda>x. sbind (f x) g)"
  by (rule ext) (auto simp: sbind_def split: prod.splits sum.splits)

lemma sbind_first: "m s = m' s \<Longrightarrow> sbind m f s = sbind m' f s"
  by (simp add: sbind_def)

section \<open>Properties\<close>



text \<open>Evaluation of small runs, on a pool of one frame.\<close>

lemmas run_simps = write_page_def admit_def sbind_def pool_put_def new_pager_def sp_put_def with_capacity_def
  POOL_CAPACITY_def POOL_SHARDS_def shard_of_def bp_put_def bp_new_def victim_slot_def Let_def hs_insert_def
  wi_insert_def append_page_healthy

definition tiny_pager :: pager where
  "tiny_pager = new_pager [] [] \<lparr>page_count = 3, freelist_head = 0, catalog_root = 0, next_tx_id = 1\<rparr> (with_capacity 1)"

lemma tiny_pool_ok: "sp_inv (with_capacity 1)" "sp_contents (with_capacity 1) = Map.empty"
  by (auto simp: with_capacity_def POOL_SHARDS_def Let_def sp_inv_def bp_inv_def bp_new_def bp_contents_def sp_contents_def shard_of_def fun_eq_iff)

lemma tiny_writes:
  "sbind (write_page 1 A) (\<lambda>_. sbind (write_page 2 B) (\<lambda>_. write_page 1 C)) tiny_pager = (Inr (), s) \<Longrightarrow>
   wal_index s = [(2, PAGE_RECORD_LEN + 5), (1, 5)] \<and> log_file s = write_at (write_at [] 0 (page_record 1 A)) PAGE_RECORD_LEN (page_record 2 B)
   \<and> dirty_pages s = [1, 2] \<and> meta s = meta tiny_pager"
  by (auto simp: run_simps tiny_pager_def upt_rec numeral_2_eq_2)


lemma tiny_writes_run:
  assumes "length A = PAGE_SIZE" "length B = PAGE_SIZE" "length C = PAGE_SIZE"
  obtains s where "sbind (write_page 1 A) (\<lambda>_. sbind (write_page 2 B) (\<lambda>_. write_page 1 C)) tiny_pager = (Inr (), s)"
    "pager_core (set (dirty_pages s)) s" "page_view s 1 = C"
proof -
  have c0: "pager_core (set (dirty_pages tiny_pager)) tiny_pager"
    using new_pager_core(1) [OF tiny_pool_ok] by (simp add: tiny_pager_def) (simp add: new_pager_def)
  obtain s1 where s1: "write_page 1 A tiny_pager = (Inr (), s1)" "pager_core (set (dirty_pages s1)) s1"
    using write_page_core [OF c0 assms(1)] by metis
  obtain s2 where s2: "write_page 2 B s1 = (Inr (), s2)" "pager_core (set (dirty_pages s2)) s2"
    using write_page_core [OF s1(2) assms(2)] by metis
  obtain s3 where s3: "write_page 1 C s2 = (Inr (), s3)" "pager_core (set (dirty_pages s3)) s3" "page_view s3 = (page_view s2)(1 := C)"
    using write_page_core [OF s2(2) assms(3), of 1] by metis
  show thesis by (rule that [of s3]) (use s1 s2 s3 in \<open>simp_all add: sbind_def\<close>)
qed

text \<open>C39: A page that is spilled to the log, rewritten and still in the pool at commit loses the rewrite:
  commit skips it as already spilled, and the file ends up with the older image, although the
  transaction itself was reading the newer one.\<close>

theorem rewritten_spill_lost_at_commit:
  assumes "length A = PAGE_SIZE" "length B = PAGE_SIZE" "length C = PAGE_SIZE"
  shows "\<exists>s s'. sbind (write_page 1 A) (\<lambda>_. sbind (write_page 2 B) (\<lambda>_. write_page 1 C)) tiny_pager = (Inr (), s)
    \<and> fst (read_page 1 s) = Inr C \<and> commit s = (Inr (), s') \<and> page_at (db_file s') 1 = A"
proof -
  obtain s where s: "sbind (write_page 1 A) (\<lambda>_. sbind (write_page 2 B) (\<lambda>_. write_page 1 C)) tiny_pager = (Inr (), s)"
    "pager_core (set (dirty_pages s)) s" "page_view s 1 = C"
    using tiny_writes_run [OF assms] .
  note w = tiny_writes [OF s(1)]
  obtain s' where s': "commit s = (Inr (), s')" "\<And>no. no \<noteq> 0 \<Longrightarrow> page_at (db_file s') (unat no) = committed_image s no"
    using commit_core [OF s(2)] w by auto
  have l: "length (page_record 1 A) = PAGE_RECORD_LEN" by (rule length_page_record [OF assms(1)])
  have "take PAGE_SIZE (drop 5 (log_file s)) = A"
    using w assms(1) l by (simp add: write_at_def) (simp add: page_record_def wal_consts)
  then have "committed_image s 1 = A" using w by (simp add: committed_image_def underlying_def)
  then have "page_at (db_file s') 1 = A" using s'(2) [of 1] by simp
  moreover have "fst (read_page 1 s) = Inr C"
    using read_page_result [OF s(2), of 1] s(3) w by (simp add: tiny_pager_def new_pager_def)
  ultimately show ?thesis using s(1) s'(1) by blast
qed

theorem rewritten_spill_lost_at_commit_witness:
  "\<exists>s s'. sbind (write_page 1 zero_page) (\<lambda>_. sbind (write_page 2 zero_page) (\<lambda>_. write_page 1 (replicate PAGE_SIZE 7))) tiny_pager = (Inr (), s)
    \<and> fst (read_page 1 s) = Inr (replicate PAGE_SIZE 7) \<and> commit s = (Inr (), s') \<and> page_at (db_file s') 1 = zero_page"
  by (rule rewritten_spill_lost_at_commit) (simp_all add: zero_page_def)

definition small_db :: "bytes" where
  "small_db = encode_header fresh_meta"

definition grow_and_write :: "bytes \<Rightarrow> (pager, unit) op" where
  "grow_and_write img = sbind alloc_page (\<lambda>no. write_page no img)"

lemma grow_and_write_run:
  "grow_and_write img (new_pager small_db [] fresh_meta (with_capacity 1)) = (Inr (), (new_pager small_db [] (fresh_meta\<lparr>page_count := 2\<rparr>)
     [\<lparr>capacity = 1, slots = [\<lparr>slot_frame = \<lparr>frame_no = 1, frame_page = img\<rparr>, slot_dirty = True, referenced = True\<rparr>],
       pool_index = [1 \<mapsto> 0], hand = 0\<rparr>])\<lparr>dirty_pages := [1], allocated_pages := [1]\<rparr>)"
  by (simp add: grow_and_write_def alloc_page_def stage_alloc_def run_simps upt_rec fresh_meta_def)

lemma write_at_nothing: "write_at f 0 [] = f"
  by (simp add: write_at_def)

lemma write_at_append: "length f = n \<Longrightarrow> write_at f n d = f @ d"
  by (simp add: write_at_def)

text \<open>The header is not part of the log. A crash after the log is sealed and copied but before page 0
  is rewritten loses the header update: recovery replays the new page, but the reopened database
  still has the old page count and refuses to read the page it has just recovered.\<close>

theorem header_outside_the_log:
  assumes "length img = PAGE_SIZE"
  shows "\<exists>s s' t. grow_and_write img (new_pager small_db [] fresh_meta (with_capacity 1)) = (Inr (), s)
    \<and> commit (s\<lparr>faults := replicate 6 IoOk @ [IoErr 0]\<rparr>) = (Inl (Fail Io), s')
    \<and> open_with_pool (db_file s') [log_file s'] [] (with_capacity 1) = Inr t
    \<and> page_at (db_file t) 1 = img \<and> fst (read_page 1 t) = Inl (Fail Corruption)"
proof -
  define s where "s = (new_pager small_db [] (fresh_meta\<lparr>page_count := 2\<rparr>)
     [\<lparr>capacity = 1, slots = [\<lparr>slot_frame = \<lparr>frame_no = 1, frame_page = img\<rparr>, slot_dirty = True, referenced = True\<rparr>],
       pool_index = [1 \<mapsto> 0], hand = 0\<rparr>])\<lparr>dirty_pages := [1], allocated_pages := [1]\<rparr>"
  define f where "f = recs [(1, img)] @ commit_record 1"
  have wp: "whole_pages [(1, img)]" using assms by (simp add: whole_pages_def)
  have sl: "sealed_log [(1, img)] f" using wp by (simp add: sealed_log_def f_def)
  have lf: "write_at (write_at [] 0 (page_record 1 img)) PAGE_RECORD_LEN (commit_record 1) = f"
    using length_page_record [OF assms, of 1] by (simp add: write_at_append f_def)
  have al: "apply_loop f t = (case write_db PAGE_SIZE img t of (Inl e, s') \<Rightarrow> (Inl e, s') | (Inr _, s') \<Rightarrow> (Inr (), s'))" for t :: pager
    using apply_loop_stop [of 1 "[]"]
    by (auto simp: f_def apply_loop_step [OF assms] split: prod.splits sum.splits)
  obtain s' where s': "commit (s\<lparr>faults := replicate 6 IoOk @ [IoErr 0]\<rparr>) = (Inl (Fail Io), s')"
    "log_file s' = f" "db_file s' = write_at small_db PAGE_SIZE img"
    using lf al
    by (simp add: commit_def commit_apply_def s_def new_pager_def sbind_def pool_get_def sp_get_def bp_lookup_def shard_of_def
      append_page_def write_log_def next_io_def seal_def io_def apply_log_def write_db_def eval_nat_numeral write_at_nothing)
  let ?db = "write_at (write_at small_db PAGE_SIZE img) PAGE_SIZE img"
  have hdr: "page_at ?db 0 = encode_header fresh_meta" "page_at ?db 1 = img" "PAGE_SIZE \<le> length ?db"
    using page_at_write_other [of img 0 1] page_at_write_same [of img _ 1] assms page_at_take [of small_db]
    by (simp_all add: small_db_def length_write_at)
  let ?w = "\<lparr>log_file = f, db_file = write_at small_db PAGE_SIZE img, faults = [], cursor = 0, records = 0\<rparr> :: wal"
  have rec: "recover ?w = (Inr True, ?w\<lparr>db_file := ?db, log_file := []\<rparr>)"
    using recover_sealed [of "[(1, img)]" ?w] sl by simp
  have dec: "decode_header (take PAGE_SIZE ?db) = Inr fresh_meta"
    using hdr(1,3) page_at_take [of ?db] decode_encode_header by simp
  have ne: "?db \<noteq> []" using hdr(3) by (auto simp: PAGE_SIZE_def)
  let ?t = "new_pager ?db [] fresh_meta (with_capacity 1)"
  have "open_with_pool (db_file s') [log_file s'] [] (with_capacity 1) = Inr ?t"
    using rec dec ne hdr(3) s'(2,3) by (simp add: open_with_pool_def sbind_def)
  moreover have "fst (read_page 1 ?t) = Inl (Fail Corruption)"
    by (simp add: read_page_def pool_get_def sp_get_def bp_lookup_def new_pager_def fresh_meta_def with_capacity_def Let_def
        POOL_SHARDS_def shard_of_def bp_new_def)
  moreover have "page_at (db_file ?t) 1 = img" using hdr(2) by (simp add: new_pager_def)
  ultimately show ?thesis
    using grow_and_write_run [of img, folded s_def] s'(1) by blast
qed
theorem header_outside_the_log_witness:
  "\<exists>s s' t. grow_and_write zero_page (new_pager small_db [] fresh_meta (with_capacity 1)) = (Inr (), s)
    \<and> commit (s\<lparr>faults := replicate 6 IoOk @ [IoErr 0]\<rparr>) = (Inl (Fail Io), s')
    \<and> open_with_pool (db_file s') [log_file s'] [] (with_capacity 1) = Inr t
    \<and> page_at (db_file t) 1 = zero_page \<and> fst (read_page 1 t) = Inl (Fail Corruption)"
  by (rule header_outside_the_log) (simp add: zero_page_def)

end
