(* ===== verification/Clog.thy ===== *)
theory Clog
  imports Wal_Log
begin

text \<open>
  The commit log of \<^verbatim>\<open>engine/clog.rs\<close>: the file format (a sixteen byte header, then nine byte
  records), \<^verbatim>\<open>open\<close>, \<^verbatim>\<open>status\<close>, appending a record, group commit by several writers as a step
  relation whose steps are the critical sections of the code, and truncation. Every call on a file
  takes its outcome from the fault schedule of \<open>Wal_Log\<close>. Log sequence numbers are natural
  numbers: they start at zero when the file is opened and count appends.
\<close>

section \<open>File format\<close>

datatype status = Committed | RolledBack

definition RECORD_SIZE :: nat where "RECORD_SIZE = 9"
definition STATUS_COMMITTED :: byte where "STATUS_COMMITTED = 1"
definition STATUS_ROLLED_BACK :: byte where "STATUS_ROLLED_BACK = 2"
definition CLOG_MAGIC :: bytes where "CLOG_MAGIC = [0x50, 0x52, 0x45, 0x48, 0x43, 0x4C, 0x47, 0x31]"
definition CLOG_HEADER_SIZE :: nat where "CLOG_HEADER_SIZE = 16"

lemmas clog_consts = RECORD_SIZE_def STATUS_COMMITTED_def STATUS_ROLLED_BACK_def CLOG_MAGIC_def
  CLOG_HEADER_SIZE_def

definition status_tag :: "status \<Rightarrow> byte" where
  "status_tag st = (case st of Committed \<Rightarrow> STATUS_COMMITTED | RolledBack \<Rightarrow> STATUS_ROLLED_BACK)"

definition status_from_tag :: "byte \<Rightarrow> status result" where
  "status_from_tag b =
     (if b = STATUS_COMMITTED then Inr Committed
      else if b = STATUS_ROLLED_BACK then Inr RolledBack
      else Inl (Fail Corruption))"

type_synonym clog_record = "u64 \<times> status"

definition encode_record :: "clog_record \<Rightarrow> bytes" where
  "encode_record r = u64_le (fst r) @ [status_tag (snd r)]"

definition encode_batch :: "clog_record list \<Rightarrow> bytes" where
  "encode_batch rs = concat (map encode_record rs)"

definition clog_header :: "u64 \<Rightarrow> bytes" where
  "clog_header floor = CLOG_MAGIC @ u64_le floor"

definition read_header :: "bytes \<Rightarrow> u64 result" where
  "read_header f =
     (if length f < CLOG_HEADER_SIZE then Inl (Fail Corruption)
      else if take 8 f \<noteq> CLOG_MAGIC then Inl (Fail Corruption)
      else Inr (u64_of_le (take 8 (drop 8 f))))"

function read_records :: "(u64 \<rightharpoonup> status) \<Rightarrow> bytes \<Rightarrow> (u64 \<rightharpoonup> status) result" where
  "read_records m bs =
     (if length bs < RECORD_SIZE then Inr m
      else rbind (status_from_tag (bs ! 8)) (\<lambda>st.
        read_records (m(u64_of_le (take 8 bs) \<mapsto> st)) (drop RECORD_SIZE bs)))"
  by pat_completeness auto
termination
  by (relation "measure (\<lambda>(m, bs). length bs)") (auto simp: RECORD_SIZE_def)

declare read_records.simps [simp del]

section \<open>State\<close>

text \<open>The files and the outcomes of the coming calls on them; then the fields of \<^verbatim>\<open>ClogState\<close>, and
  whether the handle \<^verbatim>\<open>file: Option<File>\<close> is present. The file position is the end of the file.\<close>

record clog_disk =
  clog_file :: bytes
  tmp_file :: "bytes option"
  clog_faults :: "io_outcome list"

record clog = clog_disk +
  outcomes :: "u64 \<rightharpoonup> status"
  pending :: "clog_record list"
  next_lsn :: nat
  durable_lsn :: nat
  flushing :: bool
  min_tx_id :: u64
  handle :: bool

definition cio :: "('a clog_scheme, unit) op" where
  "cio s = (case next_io (clog_faults s) of
       (IoOk, r) \<Rightarrow> (Inr (), s\<lparr>clog_faults := r\<rparr>)
     | (IoErr _, r) \<Rightarrow> (Inl (Fail Io), s\<lparr>clog_faults := r\<rparr>))"

definition clog_write :: "bytes \<Rightarrow> ('a clog_scheme, unit) op" where
  "clog_write d s = (case next_io (clog_faults s) of
       (IoOk, r) \<Rightarrow> (Inr (), s\<lparr>clog_file := clog_file s @ d, clog_faults := r\<rparr>)
     | (IoErr k, r) \<Rightarrow> (Inl (Fail Io), s\<lparr>clog_file := clog_file s @ take k d, clog_faults := r\<rparr>))"

definition tmp_write :: "bytes \<Rightarrow> ('a clog_scheme, unit) op" where
  "tmp_write d s = (case next_io (clog_faults s) of
       (IoOk, r) \<Rightarrow> (Inr (), s\<lparr>tmp_file := map_option (\<lambda>f. f @ d) (tmp_file s), clog_faults := r\<rparr>)
     | (IoErr k, r) \<Rightarrow>
         (Inl (Fail Io), s\<lparr>tmp_file := map_option (\<lambda>f. f @ take k d) (tmp_file s), clog_faults := r\<rparr>))"

section \<open>Opening and lookups\<close>

definition clog_open :: "('a clog_scheme, unit) op" where
  "clog_open s =
     sbind cio (\<lambda>_. sbind cio (\<lambda>_.
     sbind (\<lambda>s. if clog_file s = [] then
                  sbind (clog_write (clog_header 0)) (\<lambda>_. sbind cio (\<lambda>_. sret 0)) s
                else sbind cio (\<lambda>_. slift (read_header (clog_file s))) s) (\<lambda>floor.
     sbind cio (\<lambda>_.
     sbind (\<lambda>s. slift (read_records Map.empty (drop CLOG_HEADER_SIZE (clog_file s))) s) (\<lambda>m.
     sbind cio (\<lambda>_ s. (Inr (), s\<lparr>outcomes := m, pending := [], next_lsn := 0, durable_lsn := 0,
       flushing := False, min_tx_id := floor, handle := True\<rparr>))))))) (s\<lparr>tmp_file := None\<rparr>)"

definition tx_status :: "'a clog_scheme \<Rightarrow> u64 \<Rightarrow> status option" where
  "tx_status s tx = (if tx < min_tx_id s then Some Committed else outcomes s tx)"

definition status_or_rolled_back :: "'a clog_scheme \<Rightarrow> u64 \<Rightarrow> u64 \<Rightarrow> status option" where
  "status_or_rolled_back s tx oldest_active =
     (if tx < min_tx_id s then Some Committed
      else case outcomes s tx of
        Some st \<Rightarrow> Some st
      | None \<Rightarrow> if tx < oldest_active then Some RolledBack else None)"

definition is_committed :: "'a clog_scheme \<Rightarrow> u64 \<Rightarrow> bool" where
  "is_committed s tx \<longleftrightarrow> tx_status s tx = Some Committed"

definition is_rolled_back :: "'a clog_scheme \<Rightarrow> u64 \<Rightarrow> bool" where
  "is_rolled_back s tx \<longleftrightarrow> tx_status s tx = Some RolledBack"

section \<open>Appending a record\<close>

text \<open>The critical sections of \<^verbatim>\<open>append\<close> and \<^verbatim>\<open>flush_until\<close>, one definition each.\<close>

definition enqueue :: "clog_record \<Rightarrow> 'a clog_scheme \<Rightarrow> nat \<times> 'a clog_scheme" where
  "enqueue r s = (next_lsn s + 1, s\<lparr>next_lsn := next_lsn s + 1, pending := pending s @ [r]\<rparr>)"

definition take_batch :: "'a clog_scheme \<Rightarrow> 'a clog_scheme" where
  "take_batch s = s\<lparr>flushing := True, pending := []\<rparr>"

definition write_and_fsync :: "clog_record list \<Rightarrow> ('a clog_scheme, unit) op" where
  "write_and_fsync batch s =
     (if batch = [] then (Inr (), s)
      else if \<not> handle s then (Inl Panicked, s)
      else sbind (clog_write (encode_batch batch)) (\<lambda>_. cio) s)"

definition publish :: "clog_record list \<Rightarrow> nat \<Rightarrow> unit result \<Rightarrow> 'a clog_scheme \<Rightarrow> 'a clog_scheme" where
  "publish batch lsn r s =
     (let s = (case r of
                 Inr _ \<Rightarrow> s\<lparr>outcomes := fold (\<lambda>(tx, st) m. m(tx \<mapsto> st)) batch (outcomes s), durable_lsn := lsn\<rparr>
               | Inl _ \<Rightarrow> s)
      in s\<lparr>flushing := False\<rparr>)"

text \<open>The same with no other thread running: a parked thread is never woken.\<close>

definition flush_until :: "nat \<Rightarrow> ('a clog_scheme, unit) op" where
  "flush_until target s =
     (if target \<le> durable_lsn s then (Inr (), s)
      else if flushing s then (Inl OutOfFuel, s)
      else let batch = pending s; lsn = next_lsn s in
        case write_and_fsync batch (take_batch s) of (r, s') \<Rightarrow> (r, publish batch lsn r s'))"

definition clog_append :: "u64 \<Rightarrow> status \<Rightarrow> ('a clog_scheme, unit) op" where
  "clog_append tx st s = (case enqueue (tx, st) s of (lsn, s') \<Rightarrow> flush_until lsn s')"

definition record_commit :: "u64 \<Rightarrow> ('a clog_scheme, unit) op" where
  "record_commit tx = clog_append tx Committed"

definition record_rollback :: "u64 \<Rightarrow> ('a clog_scheme, unit) op" where
  "record_rollback tx = clog_append tx RolledBack"

section \<open>Truncation\<close>

text \<open>\<open>iter\<close> is the iteration order of the hash map, which the standard library leaves open.\<close>

type_synonym map_iter = "(u64 \<rightharpoonup> status) \<Rightarrow> clog_record list"

definition write_tmp :: "u64 \<Rightarrow> clog_record list \<Rightarrow> ('a clog_scheme, unit) op" where
  "write_tmp floor kept =
     sbind cio (\<lambda>_. sbind (\<lambda>s. (Inr (), s\<lparr>tmp_file := Some []\<rparr>)) (\<lambda>_.
     sbind (tmp_write (clog_header floor)) (\<lambda>_.
     sbind (tmp_write (encode_batch kept)) (\<lambda>_. cio))))"

definition swap_files :: "('a clog_scheme, unit) op" where
  "swap_files s =
     sbind cio (\<lambda>_. sbind (\<lambda>s. (Inr (), s\<lparr>clog_file := the (tmp_file s), tmp_file := None\<rparr>)) (\<lambda>_.
     sbind cio (\<lambda>_. sbind cio (\<lambda>_ s. (Inr (), s\<lparr>handle := True\<rparr>))))) (s\<lparr>handle := False\<rparr>)"

definition reopen_after_failure :: "'a clog_scheme \<Rightarrow> 'a clog_scheme" where
  "reopen_after_failure s =
     (case cio s of
        (Inl _, s') \<Rightarrow> s'
      | (Inr _, s') \<Rightarrow> (snd (cio s'))\<lparr>handle := True\<rparr>)"

definition truncate_below :: "map_iter \<Rightarrow> u64 \<Rightarrow> ('a clog_scheme, unit) op" where
  "truncate_below iter floor s =
     (if floor = 0 then (Inr (), s)
      else if flushing s then (Inl OutOfFuel, s)
      else if floor \<le> min_tx_id s then (Inr (), s)
      else let kept = filter (\<lambda>(tx, _). floor \<le> tx) (iter (outcomes s)) in
        case write_tmp floor kept (s\<lparr>flushing := True, tmp_file := None\<rparr>) of
          (Inl e, s) \<Rightarrow> (Inl e, s\<lparr>tmp_file := None, flushing := False\<rparr>)
        | (Inr _, s) \<Rightarrow>
            (case swap_files s of
               (Inl e, s) \<Rightarrow> (Inl e, (reopen_after_failure s)\<lparr>flushing := False\<rparr>)
             | (Inr _, s) \<Rightarrow>
                 (Inr (), s\<lparr>outcomes := outcomes s |` {tx. floor \<le> tx}, min_tx_id := floor,
                             flushing := False\<rparr>)))"

section \<open>Group commit\<close>

text \<open>
  Several threads in \<^verbatim>\<open>append\<close>. A program counter says which critical section a thread runs next;
  a thread in \<open>Waiting\<close> while another one holds the flush slot is parked on the condition variable.
  The last component is the history of the enqueued records.
\<close>

datatype clog_pc = Idle
  | Waiting clog_record nat
  | Writing clog_record "clog_record list" nat
  | Publishing clog_record "clog_record list" nat "unit result"
  | Returned clog_record "unit result"

type_synonym clog_threads = "nat \<Rightarrow> clog_pc"

inductive group_commit :: "clog \<Rightarrow> clog \<Rightarrow> clog_threads \<Rightarrow> clog_record list \<Rightarrow> bool" for c0 where
  gc_init: "group_commit c0 c0 (\<lambda>_. Idle) []"
| gc_enqueue: "group_commit c0 s p h \<Longrightarrow> p t = Idle \<Longrightarrow> enqueue r s = (lsn, s') \<Longrightarrow>
    group_commit c0 s' (p(t := Waiting r lsn)) (h @ [r])"
| gc_covered: "group_commit c0 s p h \<Longrightarrow> p t = Waiting r lsn \<Longrightarrow> lsn \<le> durable_lsn s \<Longrightarrow>
    group_commit c0 s (p(t := Returned r (Inr ()))) h"
| gc_lead: "group_commit c0 s p h \<Longrightarrow> p t = Waiting r lsn \<Longrightarrow> \<not> lsn \<le> durable_lsn s \<Longrightarrow> \<not> flushing s \<Longrightarrow>
    group_commit c0 (take_batch s) (p(t := Writing r (pending s) (next_lsn s))) h"
| gc_write: "group_commit c0 s p h \<Longrightarrow> p t = Writing r batch lsn \<Longrightarrow> write_and_fsync batch s = (res, s') \<Longrightarrow>
    group_commit c0 s' (p(t := Publishing r batch lsn res)) h"
| gc_publish: "group_commit c0 s p h \<Longrightarrow> p t = Publishing r batch lsn res \<Longrightarrow>
    group_commit c0 (publish batch lsn res s) (p(t := Returned r res)) h"
| gc_next: "group_commit c0 s p h \<Longrightarrow> p t = Returned r res \<Longrightarrow> group_commit c0 s (p(t := Idle)) h"

text \<open>What a crash can leave in the file: the writes so far, and any part of a batch being written.\<close>

definition crash_image :: "clog \<Rightarrow> clog_threads \<Rightarrow> bytes \<Rightarrow> bool" where
  "crash_image s p f \<longleftrightarrow> f = clog_file s
     \<or> (\<exists>t r batch lsn k. p t = Writing r batch lsn \<and> f = clog_file s @ take k (encode_batch batch))"

section \<open>Reading back what was written\<close>

definition apply_records :: "(u64 \<rightharpoonup> status) \<Rightarrow> clog_record list \<Rightarrow> (u64 \<rightharpoonup> status)" where
  "apply_records m rs = fold (\<lambda>(tx, st) m. m(tx \<mapsto> st)) rs m"

lemma apply_records_simps [simp]:
  "apply_records m [] = m"
  "apply_records m ((tx, st) # rs) = apply_records (m(tx \<mapsto> st)) rs"
  "apply_records m (rs @ qs) = apply_records (apply_records m rs) qs"
  by (simp_all add: apply_records_def)

lemma apply_records_notin: "tx \<notin> fst ` set rs \<Longrightarrow> apply_records m rs tx = m tx"
  by (induction rs arbitrary: m) auto

lemma apply_records_in:
  "(tx, st) \<in> set rs \<Longrightarrow> distinct (map fst rs) \<Longrightarrow> apply_records m rs tx = Some st"
  by (induction rs arbitrary: m) (auto simp: apply_records_notin)

lemma apply_records_map_of: "distinct (map fst rs) \<Longrightarrow> apply_records Map.empty rs = map_of rs"
proof -
  have "apply_records m rs = m ++ map_of rs" if "distinct (map fst rs)" for m
    using that by (induction rs arbitrary: m) (auto simp: map_add_upd_left dom_map_of_conv_image_fst)
  then show "distinct (map fst rs) \<Longrightarrow> ?thesis" by simp
qed

lemma length_encode_record [simp]: "length (encode_record r) = RECORD_SIZE"
  by (simp add: encode_record_def RECORD_SIZE_def)

lemma encode_batch_simps [simp]:
  "encode_batch [] = []" "encode_batch (r # rs) = encode_record r @ encode_batch rs"
  "encode_batch (rs @ qs) = encode_batch rs @ encode_batch qs"
  by (simp_all add: encode_batch_def)

lemma status_from_tag_tag [simp]: "status_from_tag (status_tag st) = Inr st"
  by (cases st) (simp_all add: status_from_tag_def status_tag_def clog_consts)

lemma length_clog_header [simp]: "length (clog_header floor) = CLOG_HEADER_SIZE"
  by (simp add: clog_header_def clog_consts)

lemma clog_header_not_Nil [simp]: "clog_header floor \<noteq> []"
  by (simp add: clog_header_def CLOG_MAGIC_def)

lemma read_header_header [simp]: "read_header (clog_header floor @ t) = Inr floor"
  by (simp add: read_header_def clog_header_def clog_consts)

lemma read_records_short: "length bs < RECORD_SIZE \<Longrightarrow> read_records m bs = Inr m"
  by (subst read_records.simps) simp

lemma read_records_record:
  "read_records m (encode_record (tx, st) @ t) = read_records (m(tx \<mapsto> st)) t"
  by (subst read_records.simps) (simp add: encode_record_def RECORD_SIZE_def nth_append)

lemma read_records_batch: "read_records m (encode_batch rs @ t) = read_records (apply_records m rs) t"
  by (induction rs arbitrary: m) (auto simp: read_records_record)

lemma read_records_torn:
  "length t < RECORD_SIZE \<Longrightarrow> read_records m (encode_batch rs @ t) = Inr (apply_records m rs)"
  by (simp add: read_records_batch read_records_short)

lemma take_encode_batch:
  "\<exists>j t. take k (encode_batch rs) = encode_batch (take j rs) @ t \<and> length t < RECORD_SIZE"
proof (induction rs arbitrary: k)
  case Nil
  show ?case by (simp add: RECORD_SIZE_def)
next
  case (Cons r rs)
  show ?case
  proof (cases "k < RECORD_SIZE")
    case True
    then have "take k (encode_batch (r # rs)) = encode_batch (take 0 (r # rs)) @ take k (encode_record r)"
      by simp
    moreover have "length (take k (encode_record r)) < RECORD_SIZE" using True by simp
    ultimately show ?thesis by blast
  next
    case False
    obtain j t where "take (k - RECORD_SIZE) (encode_batch rs) = encode_batch (take j rs) @ t"
      "length t < RECORD_SIZE" using Cons.IH by blast
    then have "take k (encode_batch (r # rs)) = encode_batch (take (Suc j) (r # rs)) @ t"
      using False by simp
    with \<open>length t < RECORD_SIZE\<close> show ?thesis by blast
  qed
qed

section \<open>Operations without I/O faults\<close>

lemma next_io_Nil [simp]: "next_io [] = (IoOk, [])"
  by (simp add: next_io_def)

lemma cio_ok: "clog_faults s = [] \<Longrightarrow> cio s = (Inr (), s)"
  by (cases s) (simp add: cio_def)

lemma clog_write_ok: "clog_faults s = [] \<Longrightarrow> clog_write d s = (Inr (), s\<lparr>clog_file := clog_file s @ d\<rparr>)"
  by (cases s) (simp add: clog_write_def)

lemma tmp_write_ok:
  "clog_faults s = [] \<Longrightarrow> tmp_write d s = (Inr (), s\<lparr>tmp_file := map_option (\<lambda>f. f @ d) (tmp_file s)\<rparr>)"
  by (cases s) (simp add: tmp_write_def)

lemmas clog_io_ok = cio_ok clog_write_ok tmp_write_ok sbind_Inr

lemma write_and_fsync_ok:
  "clog_faults s = [] \<Longrightarrow> handle s \<Longrightarrow>
   write_and_fsync batch s = (Inr (), s\<lparr>clog_file := clog_file s @ encode_batch batch\<rparr>)"
  by (simp add: write_and_fsync_def clog_io_ok)

definition opened_clog :: "u64 \<Rightarrow> (u64 \<rightharpoonup> status) \<Rightarrow> 'a clog_scheme \<Rightarrow> 'a clog_scheme" where
  "opened_clog floor m s = s\<lparr>tmp_file := None, outcomes := m, pending := [], next_lsn := 0, durable_lsn := 0,
     flushing := False, min_tx_id := floor, handle := True\<rparr>"

lemma clog_open_torn:
  assumes "clog_faults s = []" "clog_file s = clog_header floor @ encode_batch rs @ t"
    and "length t < RECORD_SIZE"
  shows "clog_open s = (Inr (), opened_clog floor (apply_records Map.empty rs) s)"
  using assms by (simp add: clog_open_def clog_io_ok opened_clog_def read_records_torn)

section \<open>Invariant of group commit\<close>

definition log_image :: "u64 \<Rightarrow> clog_record list \<Rightarrow> bytes" where
  "log_image floor rs = clog_header floor @ encode_batch rs"

definition opened :: "clog_record list \<Rightarrow> 'a clog_scheme \<Rightarrow> bool" where
  "opened rs c \<longleftrightarrow> clog_file c = log_image (min_tx_id c) rs \<and> outcomes c = apply_records Map.empty rs
     \<and> pending c = [] \<and> next_lsn c = 0 \<and> durable_lsn c = 0 \<and> \<not> flushing c \<and> handle c \<and> clog_faults c = []"

definition off_slot :: "clog_pc \<Rightarrow> bool" where
  "off_slot pc = (case pc of Writing _ _ _ \<Rightarrow> False | Publishing _ _ _ _ \<Rightarrow> False | _ \<Rightarrow> True)"

definition slot_free :: "clog_record list \<Rightarrow> clog \<Rightarrow> clog_threads \<Rightarrow> clog_record list \<Rightarrow> bool" where
  "slot_free rs s p h \<longleftrightarrow> (\<forall>t. off_slot (p t)) \<and> pending s = drop (durable_lsn s) h
     \<and> clog_file s = log_image (min_tx_id s) (rs @ take (durable_lsn s) h)"

definition slot_held :: "clog_record list \<Rightarrow> clog \<Rightarrow> clog_threads \<Rightarrow> clog_record list \<Rightarrow> nat \<Rightarrow> bool" where
  "slot_held rs s p h t \<longleftrightarrow> (\<exists>r b l. (\<forall>u. u \<noteq> t \<longrightarrow> off_slot (p u)) \<and> durable_lsn s \<le> l \<and> l \<le> length h
     \<and> take l h = take (durable_lsn s) h @ b \<and> pending s = drop l h \<and> r \<in> set (take l h)
     \<and> (p t = Writing r b l \<and> clog_file s = log_image (min_tx_id s) (rs @ take (durable_lsn s) h)
        \<or> p t = Publishing r b l (Inr ()) \<and> clog_file s = log_image (min_tx_id s) (rs @ take l h)))"

definition waiters_ok :: "clog_threads \<Rightarrow> clog_record list \<Rightarrow> bool" where
  "waiters_ok p h \<longleftrightarrow> (\<forall>t r l. p t = Waiting r l \<longrightarrow> 0 < l \<and> l \<le> length h \<and> h ! (l - 1) = r)"

definition returned_ok :: "clog_threads \<Rightarrow> clog_record list \<Rightarrow> bool" where
  "returned_ok p h \<longleftrightarrow> (\<forall>t r. p t = Returned r (Inr ()) \<longrightarrow> r \<in> set h)"

definition gc_inv :: "clog_record list \<Rightarrow> u64 \<Rightarrow> clog \<Rightarrow> clog_threads \<Rightarrow> clog_record list \<Rightarrow> bool" where
  "gc_inv rs floor s p h \<longleftrightarrow> clog_faults s = [] \<and> handle s \<and> min_tx_id s = floor \<and> next_lsn s = length h
     \<and> durable_lsn s \<le> length h
     \<and> outcomes s = apply_records Map.empty (rs @ take (durable_lsn s) h)
     \<and> waiters_ok p h \<and> returned_ok p (take (durable_lsn s) h)
     \<and> (if flushing s then \<exists>t. slot_held rs s p h t else slot_free rs s p h)"

lemmas slot_defs = slot_free_def slot_held_def

lemma gc_inv_init: "opened rs c0 \<Longrightarrow> gc_inv rs (min_tx_id c0) c0 (\<lambda>_. Idle) []"
  by (simp add: opened_def gc_inv_def waiters_ok_def returned_ok_def slot_free_def off_slot_def)

lemma waiters_ok_append: "waiters_ok p h \<Longrightarrow> waiters_ok (p(t := Waiting r (Suc (length h)))) (h @ [r])"
  by (fastforce simp: waiters_ok_def nth_append)

lemma slot_free_enqueue:
  "slot_free rs s p h \<Longrightarrow> durable_lsn s \<le> length h \<Longrightarrow> enqueue r s = (lsn, s') \<Longrightarrow>
   slot_free rs s' (p(t := Waiting r lsn)) (h @ [r])"
  by (auto simp: slot_free_def enqueue_def off_slot_def)

lemma slot_held_enqueue:
  assumes "slot_held rs s p h u" "p t = Idle" "enqueue r s = (lsn, s')"
  shows "slot_held rs s' (p(t := Waiting r lsn)) (h @ [r]) u"
proof -
  have "u \<noteq> t" using assms(1,2) by (auto simp: slot_held_def)
  moreover have "off_slot (Waiting r lsn)" by (simp add: off_slot_def)
  moreover obtain q b l where "\<forall>v. v \<noteq> u \<longrightarrow> off_slot (p v)" "durable_lsn s \<le> l" "l \<le> length h"
      "take l h = take (durable_lsn s) h @ b" "pending s = drop l h" "q \<in> set (take l h)"
    and pc: "p u = Writing q b l \<and> clog_file s = log_image (min_tx_id s) (rs @ take (durable_lsn s) h)
        \<or> p u = Publishing q b l (Inr ()) \<and> clog_file s = log_image (min_tx_id s) (rs @ take l h)"
    using assms(1) unfolding slot_held_def by blast
  ultimately show ?thesis
    using assms(3) unfolding slot_held_def
    by (intro exI [of _ q] exI [of _ b] exI [of _ l]) (auto simp: enqueue_def)
qed

lemma gc_inv_enqueue:
  assumes "gc_inv rs fl s p h" "p t = Idle" "enqueue r s = (lsn, s')"
  shows "gc_inv rs fl s' (p(t := Waiting r lsn)) (h @ [r])"
proof -
  have f: "durable_lsn s' = durable_lsn s" "flushing s' = flushing s" "lsn = Suc (next_lsn s)"
    using assms(3) by (auto simp: enqueue_def)
  have "if flushing s' then \<exists>u. slot_held rs s' (p(t := Waiting r lsn)) (h @ [r]) u
        else slot_free rs s' (p(t := Waiting r lsn)) (h @ [r])"
    using assms slot_held_enqueue [of rs s p h _ t r lsn s'] slot_free_enqueue [of rs s p h r lsn s' t] f
    by (auto simp: gc_inv_def split: if_splits)
  moreover have "waiters_ok (p(t := Waiting r lsn)) (h @ [r])"
    using assms(1) f(3) waiters_ok_append by (simp add: gc_inv_def)
  ultimately show ?thesis
    using assms by (auto simp: gc_inv_def enqueue_def returned_ok_def)
qed

text \<open>Steps that only move a thread between program counters off the slot.\<close>

lemma slot_held_off:
  assumes "slot_held rs s p h u" "off_slot (p t)" "off_slot pc"
  shows "slot_held rs s (p(t := pc)) h u"
proof -
  have "u \<noteq> t" using assms(1,2) by (auto simp: slot_held_def off_slot_def)
  then show ?thesis using assms unfolding slot_held_def by auto
qed

lemma slot_free_off: "slot_free rs s p h \<Longrightarrow> off_slot pc \<Longrightarrow> slot_free rs s (p(t := pc)) h"
  by (simp add: slot_free_def)

lemma gc_inv_off:
  assumes "gc_inv rs fl s p h" "off_slot (p t)" "off_slot pc" "\<forall>r l. pc \<noteq> Waiting r l"
    and "\<forall>r. pc = Returned r (Inr ()) \<longrightarrow> r \<in> set (take (durable_lsn s) h)"
  shows "gc_inv rs fl s (p(t := pc)) h"
proof -
  have "if flushing s then \<exists>u. slot_held rs s (p(t := pc)) h u else slot_free rs s (p(t := pc)) h"
    using assms(1-3) slot_held_off slot_free_off unfolding gc_inv_def by metis
  then show ?thesis
    using assms unfolding gc_inv_def waiters_ok_def returned_ok_def by (simp only: fun_upd_apply) auto
qed

lemma waiter_in_history:
  "waiters_ok p h \<Longrightarrow> p t = Waiting r l \<Longrightarrow> l \<le> d \<Longrightarrow> d \<le> length h \<Longrightarrow> r \<in> set (take d h)"
  unfolding waiters_ok_def in_set_conv_nth
  by (metis Suc_pred' diff_less length_take less_le_trans min.absorb2 nth_take zero_less_one Suc_le_eq)

lemma gc_inv_covered:
  assumes "gc_inv rs fl s p h" "p t = Waiting r l" "l \<le> durable_lsn s"
  shows "gc_inv rs fl s (p(t := Returned r (Inr ()))) h"
proof (rule gc_inv_off)
  show "\<forall>q. Returned r (Inr ()) = Returned q (Inr ()) \<longrightarrow> q \<in> set (take (durable_lsn s) h)"
    using assms waiter_in_history [of p h t r l] by (auto simp: gc_inv_def)
qed (use assms in \<open>auto simp: off_slot_def\<close>)

lemma gc_inv_lead:
  assumes "gc_inv rs fl s p h" "p t = Waiting r l" "\<not> flushing s"
  shows "gc_inv rs fl (take_batch s) (p(t := Writing r (pending s) (next_lsn s))) h"
proof -
  have r: "r \<in> set (take (length h) h)"
    using assms waiter_in_history [of p h t r l "length h"] unfolding gc_inv_def waiters_ok_def by blast
  have "slot_held rs (take_batch s) (p(t := Writing r (pending s) (next_lsn s))) h t"
    unfolding slot_held_def
    using assms r by (intro exI [of _ r] exI [of _ "pending s"] exI [of _ "length h"])
      (auto simp: gc_inv_def slot_free_def take_batch_def)
  then show ?thesis
    using assms by (auto simp: gc_inv_def take_batch_def waiters_ok_def returned_ok_def)
qed

lemma slot_owner:
  assumes "gc_inv rs fl s p h" "\<not> off_slot (p t)"
  shows "flushing s \<and> slot_held rs s p h t"
proof -
  have "flushing s" using assms by (auto simp: gc_inv_def slot_free_def split: if_splits)
  then obtain u where u: "slot_held rs s p h u" using assms(1) by (auto simp: gc_inv_def)
  then have "u = t" using assms(2) by (auto simp: slot_held_def)
  with u \<open>flushing s\<close> show ?thesis by simp
qed

lemma gc_inv_write:
  assumes "gc_inv rs fl s p h" "p t = Writing r b l" "write_and_fsync b s = (res, s')"
  shows "gc_inv rs fl s' (p(t := Publishing r b l res)) h"
proof -
  have "slot_held rs s p h t" using slot_owner [OF assms(1)] assms(2) by (simp add: off_slot_def)
  moreover have s': "res = Inr ()" "s' = s\<lparr>clog_file := clog_file s @ encode_batch b\<rparr>"
    using assms(1,3) by (auto simp: gc_inv_def write_and_fsync_ok)
  ultimately have "slot_held rs s' (p(t := Publishing r b l res)) h t"
    using assms(2) unfolding slot_held_def
    by (intro exI [of _ r] exI [of _ b] exI [of _ l]) (auto simp: log_image_def)
  moreover have "flushing s'" using slot_owner [OF assms(1), of t] assms(2) s' by (simp add: off_slot_def)
  ultimately show ?thesis
    using assms(1) s' by (auto simp: gc_inv_def waiters_ok_def returned_ok_def)
qed

lemma gc_inv_publish:
  assumes "gc_inv rs fl s p h" "p t = Publishing r b l res"
  shows "gc_inv rs fl (publish b l res s) (p(t := Returned r res)) h"
proof -
  have held: "slot_held rs s p h t" using slot_owner [OF assms(1)] assms(2) by (simp add: off_slot_def)
  then have res: "res = Inr ()" and l: "durable_lsn s \<le> l" "l \<le> length h" "r \<in> set (take l h)"
    and b: "take l h = take (durable_lsn s) h @ b" using assms(2) by (auto simp: slot_held_def)
  have "slot_free rs (publish b l res s) (p(t := Returned r res)) h"
    using held assms(2) by (auto simp: slot_defs publish_def off_slot_def)
  moreover have "outcomes (publish b l res s) = apply_records Map.empty (rs @ take l h)"
    using assms(1) b by (simp add: res publish_def gc_inv_def apply_records_def)
  moreover have "set (take (durable_lsn s) h) \<subseteq> set (take l h)" using b by simp
  ultimately show ?thesis
    using assms(1) l by (auto simp: gc_inv_def res publish_def waiters_ok_def returned_ok_def)
qed

lemma group_commit_inv:
  assumes "group_commit c0 s p h" "opened rs c0"
  shows "gc_inv rs (min_tx_id c0) s p h"
  using assms
proof (induction rule: group_commit.induct)
  case gc_init
  then show ?case by (rule gc_inv_init)
next
  case (gc_next s p h t r res)
  then show ?case by (intro gc_inv_off) (auto simp: off_slot_def)
qed (blast intro: gc_inv_enqueue gc_inv_covered gc_inv_lead gc_inv_write gc_inv_publish)+

section \<open>A single appender\<close>

text \<open>Between appends nobody holds the slot and nothing is queued.\<close>

definition quiet :: "'a clog_scheme \<Rightarrow> bool" where
  "quiet s \<longleftrightarrow> \<not> flushing s \<and> pending s = [] \<and> durable_lsn s \<le> next_lsn s \<and> handle s"

lemma write_and_fsync_frame:
  "write_and_fsync b s = (r, s') \<Longrightarrow>
   outcomes s' = outcomes s \<and> pending s' = pending s \<and> next_lsn s' = next_lsn s
   \<and> durable_lsn s' = durable_lsn s \<and> min_tx_id s' = min_tx_id s \<and> handle s' = handle s"
  by (auto simp: write_and_fsync_def sbind_def clog_write_def cio_def
      split: if_splits prod.splits io_outcome.splits sum.splits)

lemma clog_append_cases:
  assumes "quiet s" "clog_append tx st s = (r, s')"
  shows "quiet s' \<and> min_tx_id s' = min_tx_id s
     \<and> outcomes s' = (case r of Inr _ \<Rightarrow> (outcomes s)(tx \<mapsto> st) | Inl _ \<Rightarrow> outcomes s)"
proof -
  obtain q where w: "write_and_fsync [(tx, st)] (take_batch (snd (enqueue (tx, st) s))) = (r, q)"
    and s': "s' = publish [(tx, st)] (next_lsn s + 1) r q"
    using assms by (auto simp: clog_append_def flush_until_def enqueue_def quiet_def Let_def split: prod.splits)
  show ?thesis
    using write_and_fsync_frame [OF w] assms(1) s'
    by (auto simp: publish_def quiet_def enqueue_def take_batch_def split: sum.splits)
qed

lemma clog_append_ok: "quiet s \<Longrightarrow> clog_faults s = [] \<Longrightarrow>
  \<exists>s'. clog_append tx st s = (Inr (), s') \<and> clog_faults s' = [] \<and> clog_file s' = clog_file s @ encode_record (tx, st)"
  by (auto simp: clog_append_def flush_until_def enqueue_def quiet_def take_batch_def write_and_fsync_ok
      publish_def Let_def)

text \<open>The contract the transaction coordinator relies on.\<close>

locale commit_log =
  fixes status_of :: "'s \<Rightarrow> u64 \<Rightarrow> status option"
    and record_outcome :: "u64 \<Rightarrow> status \<Rightarrow> ('s, unit) op"
    and log_ok :: "'s \<Rightarrow> bool"
    and log_floor :: "'s \<Rightarrow> u64"
  assumes record_ok: "log_ok s \<Longrightarrow> log_floor s \<le> tx \<Longrightarrow> record_outcome tx st s = (Inr (), s') \<Longrightarrow>
      log_ok s' \<and> log_floor s' = log_floor s \<and> status_of s' = (status_of s)(tx \<mapsto> st)"
    and record_err: "log_ok s \<Longrightarrow> record_outcome tx st s = (Inl e, s') \<Longrightarrow>
      log_ok s' \<and> log_floor s' = log_floor s \<and> status_of s' = status_of s"
begin

lemma record_keeps:
  assumes "log_ok s" "log_floor s \<le> tx" "record_outcome tx st s = (r, s')"
  shows "log_ok s' \<and> log_floor s' = log_floor s \<and> (\<forall>x. x \<noteq> tx \<longrightarrow> status_of s' x = status_of s x)"
proof (cases r)
  case (Inl e)
  show ?thesis using record_err [OF assms(1) assms(3) [unfolded Inl]] by simp
next
  case (Inr u)
  then have u: "r = Inr ()" by simp
  show ?thesis using record_ok [OF assms(1,2) assms(3) [unfolded u]] by simp
qed

lemma record_decides:
  assumes "log_ok s" "log_floor s \<le> tx" "record_outcome tx st s = (r, s')"
  shows "status_of s' tx = (case r of Inr _ \<Rightarrow> Some st | Inl _ \<Rightarrow> status_of s tx)"
proof (cases r)
  case (Inl e)
  show ?thesis using record_err [OF assms(1) assms(3) [unfolded Inl]] Inl by simp
next
  case (Inr u)
  then have u: "r = Inr ()" by simp
  show ?thesis using record_ok [OF assms(1,2) assms(3) [unfolded u]] Inr by simp
qed

end

interpretation clog_log: commit_log tx_status clog_append quiet min_tx_id
proof
  fix s s' :: "'a clog_scheme" and tx st e
  assume q: "quiet s"
  show "quiet s' \<and> min_tx_id s' = min_tx_id s \<and> tx_status s' = (tx_status s)(tx \<mapsto> st)"
    if "min_tx_id s \<le> tx" "clog_append tx st s = (Inr (), s')"
    using clog_append_cases [OF q that(2)] that(1) by (auto simp: tx_status_def fun_eq_iff)
  show "quiet s' \<and> min_tx_id s' = min_tx_id s \<and> tx_status s' = tx_status s"
    if "clog_append tx st s = (Inl e, s')"
    using clog_append_cases [OF q that] by (simp add: tx_status_def fun_eq_iff)
qed

text \<open>A thread on its own in the step relation does what \<open>clog_append\<close> does.\<close>

lemma clog_append_group_commit:
  assumes "quiet s" "clog_append tx st s = (r, s')"
  shows "group_commit s s' ((\<lambda>_. Idle)(t := Returned (tx, st) r)) [(tx, st)]"
proof -
  define q where "q = snd (enqueue (tx, st) s)"
  define lsn where "lsn = next_lsn s + 1"
  let ?p = "\<lambda>pc. (\<lambda>_. Idle)(t := pc)"
  have q: "enqueue (tx, st) s = (lsn, q)" "pending q = [(tx, st)]" "next_lsn q = lsn"
    "\<not> lsn \<le> durable_lsn q" "\<not> flushing q"
    using assms(1) by (auto simp: q_def lsn_def enqueue_def quiet_def)
  obtain v where w: "write_and_fsync [(tx, st)] (take_batch q) = (r, v)"
    and s': "s' = publish [(tx, st)] lsn r v"
    using assms(2) q by (auto simp: clog_append_def flush_until_def Let_def split: prod.splits)
  have "group_commit s q (?p (Waiting (tx, st) lsn)) ([] @ [(tx, st)])"
    by (rule gc_enqueue [OF gc_init]) (simp_all add: q)
  then have "group_commit s (take_batch q) (?p (Writing (tx, st) [(tx, st)] lsn)) ([] @ [(tx, st)])"
    using gc_lead [of s q "?p (Waiting (tx, st) lsn)" _ t "(tx, st)" lsn] q by simp
  then have "group_commit s v (?p (Publishing (tx, st) [(tx, st)] lsn r)) ([] @ [(tx, st)])"
    using gc_write [of s _ "?p (Writing (tx, st) [(tx, st)] lsn)" _ t] w by simp
  then show ?thesis
    using gc_publish [of s v "?p (Publishing (tx, st) [(tx, st)] lsn r)" _ t] s' by simp
qed

section \<open>Truncation\<close>

definition iter_ok :: "map_iter \<Rightarrow> bool" where
  "iter_ok iter \<longleftrightarrow> (\<forall>m. finite (dom m) \<longrightarrow> distinct (map fst (iter m)) \<and> map_of (iter m) = m)"

lemma map_of_filter_key: "map_of (filter (\<lambda>(k, _). P k) xs) = map_of xs |` {k. P k}"
  by (induction xs) (auto simp: restrict_map_def fun_eq_iff)

lemma filter_iter:
  assumes "iter_ok iter" "finite (dom m)"
  shows "apply_records Map.empty (filter (\<lambda>(tx, _). floor \<le> tx) (iter m)) = m |` {tx. floor \<le> tx}"
proof -
  have d: "distinct (map fst (iter m))" "map_of (iter m) = m" using assms unfolding iter_ok_def by blast+
  have "distinct (map fst (filter (\<lambda>(tx, _). floor \<le> tx) (iter m)))"
    using d(1) distinct_map_filter by blast
  then show ?thesis by (simp only: apply_records_map_of map_of_filter_key d(2))
qed

text \<open>The slot, the map and the floor are untouched while the files are exchanged.\<close>

abbreviation memory :: "'a clog_scheme \<Rightarrow> (u64 \<rightharpoonup> status) \<times> u64" where
  "memory s \<equiv> (outcomes s, min_tx_id s)"

lemma keeps_cio: "keeps (\<lambda>s. (memory s, clog_file s, tmp_file s)) cio"
  by (auto simp: keeps_def cio_def split: prod.splits io_outcome.splits)

lemma keeps_tmp_write: "keeps (\<lambda>s. (memory s, clog_file s)) (tmp_write d)"
  by (auto simp: keeps_def tmp_write_def split: prod.splits io_outcome.splits)

lemma cio_frame: "cio s = (r, s') \<Longrightarrow> memory s' = memory s \<and> clog_file s' = clog_file s \<and> tmp_file s' = tmp_file s"
  using keepsD [OF keeps_cio, of s r s'] by simp

lemma tmp_write_Inr:
  "tmp_write d s = (Inr u, s') \<Longrightarrow> tmp_file s' = map_option (\<lambda>f. f @ d) (tmp_file s)"
  by (auto simp: tmp_write_def split: prod.splits io_outcome.splits)

lemma keeps_write_tmp: "keeps (\<lambda>s. (memory s, clog_file s)) (write_tmp floor kept)"
proof -
  have "keeps (\<lambda>s. (memory s, clog_file s)) cio" using keeps_cio by (auto simp: keeps_def)
  moreover have "keeps (\<lambda>s. (memory s, clog_file s)) (\<lambda>s. (Inr (), s\<lparr>tmp_file := Some []\<rparr>))"
    by (simp add: keeps_def)
  ultimately show ?thesis unfolding write_tmp_def by (intro keeps_sbind keeps_tmp_write)
qed

lemma write_tmp_ok:
  "write_tmp floor kept s = (Inr u, s') \<Longrightarrow> tmp_file s' = Some (log_image floor kept)"
  unfolding write_tmp_def
  by (elim sbind_InrE) (auto dest!: tmp_write_Inr cio_frame simp: log_image_def)

lemma swap_files_cases:
  assumes "swap_files s = (r, s')"
  shows "memory s' = memory s \<and> (clog_file s' = clog_file s \<or> clog_file s' = the (tmp_file s))
    \<and> (\<forall>u. r = Inr u \<longrightarrow> clog_file s' = the (tmp_file s))"
proof -
  obtain r1 s1 where 1: "cio (s\<lparr>handle := False\<rparr>) = (r1, s1)" by (metis surj_pair)
  obtain r2 s2 where 2: "cio (s1\<lparr>clog_file := the (tmp_file s1), tmp_file := None\<rparr>) = (r2, s2)"
    by (metis surj_pair)
  obtain r3 s3 where 3: "cio s2 = (r3, s3)" by (metis surj_pair)
  show ?thesis
    using assms 1 2 3 cio_frame [OF 1] cio_frame [OF 2] cio_frame [OF 3]
    by (cases r1; cases r2; cases r3) (auto simp: swap_files_def sbind_def)
qed

lemma reopen_after_failure_frame:
  "memory (reopen_after_failure s) = memory s \<and> clog_file (reopen_after_failure s) = clog_file s"
proof -
  obtain r1 s1 where 1: "cio s = (r1, s1)" by (metis surj_pair)
  obtain r2 s2 where 2: "cio s1 = (r2, s2)" by (metis surj_pair)
  show ?thesis
    using cio_frame [OF 1] cio_frame [OF 2] 1 2 by (cases r1) (auto simp: reopen_after_failure_def)
qed

definition kept_records :: "map_iter \<Rightarrow> u64 \<Rightarrow> (u64 \<rightharpoonup> status) \<Rightarrow> clog_record list" where
  "kept_records iter floor m = filter (\<lambda>(tx, _). floor \<le> tx) (iter m)"

lemma truncate_below_cases:
  assumes "truncate_below iter floor s = (r, s')" "min_tx_id s < floor" "\<not> flushing s"
  shows "(clog_file s' = clog_file s \<or> clog_file s' = log_image floor (kept_records iter floor (outcomes s)))
   \<and> (case r of
       Inr _ \<Rightarrow> clog_file s' = log_image floor (kept_records iter floor (outcomes s))
         \<and> outcomes s' = outcomes s |` {tx. floor \<le> tx} \<and> min_tx_id s' = floor
     | Inl _ \<Rightarrow> memory s' = memory s)"
proof -
  define kept where "kept = kept_records iter floor (outcomes s)"
  have pos: "floor \<noteq> 0" "\<not> floor \<le> min_tx_id s" using assms(2) by auto
  obtain rw v where w: "write_tmp floor kept (s\<lparr>flushing := True, tmp_file := None\<rparr>) = (rw, v)"
    by (metis surj_pair)
  have wf: "memory v = memory s" "clog_file v = clog_file s" using keepsD [OF keeps_write_tmp w] by auto
  obtain rs x where sw: "swap_files v = (rs, x)" by (metis surj_pair)
  note frame = swap_files_cases [OF sw] reopen_after_failure_frame [of x]
  have t: "truncate_below iter floor s = (case (rw, v) of
          (Inl e, s) \<Rightarrow> (Inl e, s\<lparr>tmp_file := None, flushing := False\<rparr>)
        | (Inr _, s) \<Rightarrow>
            (case swap_files s of
               (Inl e, s) \<Rightarrow> (Inl e, (reopen_after_failure s)\<lparr>flushing := False\<rparr>)
             | (Inr _, s) \<Rightarrow>
                 (Inr (), s\<lparr>outcomes := outcomes s |` {tx. floor \<le> tx}, min_tx_id := floor,
                             flushing := False\<rparr>)))"
    using assms(3) pos by (simp add: truncate_below_def w [symmetric] kept_def kept_records_def)
  show ?thesis
  proof (cases rw)
    case (Inl e)
    with assms(1) wf show ?thesis by (auto simp: t)
  next
    case (Inr u)
    then have "the (tmp_file v) = log_image floor kept" using write_tmp_ok w by fastforce
    with Inr assms(1) wf frame show ?thesis
      by (cases rs) (auto simp: t sw kept_def [symmetric])
  qed
qed

section \<open>Properties\<close>

text \<open>C25: Group commit is durable. Any number of writers append records to a freshly opened commit
  log in any interleaving of the critical sections, with no I/O fault; then the process crashes, at
  any moment, also with any part of a leader's batch written. Reopening the file succeeds, it
  recovers the records from before and the first j records of the enqueue order, and every record
  whose append has returned is among them.\<close>

theorem group_commit_durable:
  assumes "opened rs c0" "group_commit c0 s p h" "crash_image s p f"
  shows "\<exists>j c. clog_open (s\<lparr>clog_file := f\<rparr>) = (Inr (), c)
      \<and> outcomes c = apply_records Map.empty (rs @ take j h) \<and> min_tx_id c = min_tx_id c0
      \<and> (\<forall>t r. p t = Returned r (Inr ()) \<longrightarrow> r \<in> set (take j h))"
proof -
  have inv: "gc_inv rs (min_tx_id c0) s p h" by (rule group_commit_inv [OF assms(2,1)])
  define d where "d = durable_lsn s"
  have base: "clog_faults s = []" "min_tx_id s = min_tx_id c0" "returned_ok p (take d h)" "d \<le> length h"
    using inv by (auto simp: gc_inv_def d_def)
  have ret: "\<forall>t r. p t = Returned r (Inr ()) \<longrightarrow> r \<in> set (take j h)" if "d \<le> j" for j
    using base(3) set_take_subset_set_take [OF that, of h] by (auto simp: returned_ok_def)
  have "\<exists>j tl. d \<le> j \<and> f = log_image (min_tx_id s) (rs @ take j h) @ tl \<and> length tl < RECORD_SIZE"
  proof -
    consider "f = clog_file s" "slot_free rs s p h"
      | (pub) l where "f = clog_file s" "d \<le> l" "clog_file s = log_image (min_tx_id s) (rs @ take l h)"
      | (torn) t r b l k where "p t = Writing r b l" "f = clog_file s @ take k (encode_batch b)"
          "take l h = take d h @ b" "d \<le> l" "clog_file s = log_image (min_tx_id s) (rs @ take d h)"
    proof (cases "\<exists>t r b l k. p t = Writing r b l \<and> f = clog_file s @ take k (encode_batch b)")
      case True
      then obtain t r b l k where t: "p t = Writing r b l" "f = clog_file s @ take k (encode_batch b)"
        by blast
      then have "slot_held rs s p h t" using slot_owner [OF inv, of t] by (simp add: off_slot_def)
      with t show ?thesis by (intro that(3) [of t r b l k]) (auto simp: slot_held_def d_def)
    next
      case False
      then have f: "f = clog_file s" using assms(3) unfolding crash_image_def by blast
      show ?thesis
      proof (cases "flushing s")
        case True
        then obtain t where "slot_held rs s p h t" using inv by (auto simp: gc_inv_def)
        with f that(2) show ?thesis by (auto simp: slot_held_def d_def)
      next
        case False
        with f that(1) inv show ?thesis by (auto simp: gc_inv_def)
      qed
    qed
    then show ?thesis
    proof cases
      case 1
      then show ?thesis by (intro exI [of _ d] exI [of _ "[]"]) (simp add: slot_free_def d_def RECORD_SIZE_def)
    next
      case pub
      then show ?thesis by (intro exI [of _ l] exI [of _ "[]"]) (simp add: RECORD_SIZE_def)
    next
      case torn
      obtain i tl where i: "take k (encode_batch b) = encode_batch (take i b) @ tl" "length tl < RECORD_SIZE"
        using take_encode_batch by blast
      have "take d h @ take i b = take (d + i) (take l h)" using base(4) by (simp add: torn(3))
      also have "\<dots> = take (min (d + i) l) h" by (simp add: min.commute)
      finally show ?thesis
        using torn i by (intro exI [of _ "min (d + i) l"] exI [of _ tl])
          (metis append.assoc encode_batch_simps(3) le_add1 log_image_def min.bounded_iff)
    qed
  qed
  then obtain j tl where j: "d \<le> j" "f = log_image (min_tx_id s) (rs @ take j h) @ tl" "length tl < RECORD_SIZE"
    by blast
  have "clog_open (s\<lparr>clog_file := f\<rparr>)
      = (Inr (), opened_clog (min_tx_id s) (apply_records Map.empty (rs @ take j h)) (s\<lparr>clog_file := f\<rparr>))"
    by (rule clog_open_torn [of _ _ _ tl]) (use j base(1) in \<open>auto simp: log_image_def\<close>)
  then show ?thesis
    using ret [OF j(1)] base(2) by (auto simp: opened_clog_def)
qed

definition fresh_clog :: "io_outcome list \<Rightarrow> clog" where
  "fresh_clog fs = \<lparr>clog_file = log_image 0 [], tmp_file = None, clog_faults = fs, outcomes = Map.empty,
     pending = [], next_lsn = 0, durable_lsn = 0, flushing = False, min_tx_id = 0, handle = True\<rparr>"

theorem group_commit_durable_witness:
  "\<exists>s p j c. group_commit (fresh_clog []) s p [(7 :: u64, Committed)] \<and> p 0 = Returned (7 :: u64, Committed) (Inr ())
     \<and> clog_open s = (Inr (), c) \<and> outcomes c = apply_records Map.empty (take j [(7 :: u64, Committed)])
     \<and> (7 :: u64, Committed) \<in> set (take j [(7 :: u64, Committed)])"
proof -
  have o: "opened [] (fresh_clog [])" by (simp add: opened_def fresh_clog_def)
  have "quiet (fresh_clog [])" "clog_faults (fresh_clog []) = []" by (simp_all add: quiet_def fresh_clog_def)
  then obtain s where a: "clog_append 7 Committed (fresh_clog []) = (Inr (), s)" "quiet (fresh_clog [])"
    using clog_append_ok by blast
  let ?p = "(\<lambda>_. Idle)(0 := Returned (7 :: u64, Committed) (Inr ()))"
  have g: "group_commit (fresh_clog []) s ?p [(7 :: u64, Committed)]"
    by (rule clog_append_group_commit [OF a(2,1)])
  have "crash_image s ?p (clog_file s)" by (simp add: crash_image_def)
  from group_commit_durable [OF o g this] obtain j c where
    c: "clog_open s = (Inr (), c)" "outcomes c = apply_records Map.empty (take j [(7 :: u64, Committed)])"
    and ret: "\<forall>t r. ?p t = Returned r (Inr ()) \<longrightarrow> r \<in> set (take j [(7 :: u64, Committed)])"
    by auto
  have "(7 :: u64, Committed) \<in> set (take j [(7 :: u64, Committed)])" using ret by (metis fun_upd_same)
  with g c show ?thesis by (metis fun_upd_same)
qed

text \<open>Truncation is atomic and keeps the outcomes above the floor. Under any fault schedule the
  file is afterwards the old one or the complete new image, so a reopened log answers every query at
  or above the floor as before; the open log does too; and on success everything below the floor
  reads as committed.\<close>

theorem truncate_below_atomic:
  assumes "iter_ok iter" "finite (dom (outcomes s))" "\<not> flushing s" "min_tx_id s < floor"
    and "clog_file s = log_image (min_tx_id s) rs" "outcomes s = apply_records Map.empty rs"
    and "truncate_below iter floor s = (r, s')" "floor \<le> tx"
  shows "tx_status s' tx = tx_status s tx
    \<and> (\<exists>c. clog_open (s'\<lparr>clog_faults := []\<rparr>) = (Inr (), c) \<and> tx_status c tx = tx_status s tx)
    \<and> (r = Inr () \<and> old < floor \<longrightarrow> tx_status s' old = Some Committed)"
proof -
  define kept where "kept = kept_records iter floor (outcomes s)"
  have c: "clog_file s' = clog_file s \<or> clog_file s' = log_image floor kept"
    "case r of Inr _ \<Rightarrow> outcomes s' = outcomes s |` {tx. floor \<le> tx} \<and> min_tx_id s' = floor
       | Inl _ \<Rightarrow> memory s' = memory s"
    using truncate_below_cases [OF assms(7,4,3)] by (auto simp: kept_def split: sum.splits)
  have lt: "\<not> tx < floor" "\<not> tx < min_tx_id s" using assms(4,8) by auto
  have 1: "tx_status s' tx = tx_status s tx"
    using c(2) lt assms(8) by (auto simp: tx_status_def split: sum.splits)
  have 2: "r = Inr () \<and> old < floor \<longrightarrow> tx_status s' old = Some Committed"
    using c(2) by (auto simp: tx_status_def)
  have reopen: "\<exists>c. clog_open (s'\<lparr>clog_faults := []\<rparr>) = (Inr (), c) \<and> outcomes c = apply_records Map.empty qs
      \<and> min_tx_id c = fl" if "clog_file s' = log_image fl qs" for fl qs
    using clog_open_torn [of "s'\<lparr>clog_faults := []\<rparr>" fl qs "[]"] that
    by (simp add: log_image_def RECORD_SIZE_def opened_clog_def)
  from c(1) have 3: "\<exists>c. clog_open (s'\<lparr>clog_faults := []\<rparr>) = (Inr (), c) \<and> tx_status c tx = tx_status s tx"
  proof
    assume "clog_file s' = clog_file s"
    with assms(5) have "clog_file s' = log_image (min_tx_id s) rs" by simp
    from reopen [OF this] obtain c where "clog_open (s'\<lparr>clog_faults := []\<rparr>) = (Inr (), c)"
      "outcomes c = outcomes s" "min_tx_id c = min_tx_id s" using assms(6) by auto
    then show ?thesis by (intro exI [of _ c]) (simp add: tx_status_def)
  next
    assume "clog_file s' = log_image floor kept"
    from reopen [OF this] filter_iter [OF assms(1,2), of floor] obtain c where
      "clog_open (s'\<lparr>clog_faults := []\<rparr>) = (Inr (), c)" "outcomes c = outcomes s |` {tx. floor \<le> tx}"
      "min_tx_id c = floor" by (auto simp: kept_def kept_records_def)
    then show ?thesis using lt assms(8) by (intro exI [of _ c]) (simp add: tx_status_def)
  qed
  from 1 2 3 show ?thesis by blast
qed

definition key_order :: map_iter where
  "key_order m = map (\<lambda>k. (k, the (m k))) (sorted_list_of_set (dom m))"

lemma key_order_ok: "iter_ok key_order"
proof -
  have "map_of (map (\<lambda>k. (k, the (m k))) xs) = m |` set xs" if "set xs \<subseteq> dom m" for m :: "u64 \<rightharpoonup> status" and xs
    using that by (induction xs) (auto simp: restrict_map_def fun_eq_iff)
  then show ?thesis by (simp add: iter_ok_def key_order_def comp_def restrict_map_def dom_def fun_eq_iff)
qed

definition two_outcomes :: clog where
  "two_outcomes = (fresh_clog [IoOk, IoOk, IoErr 4])\<lparr>clog_file := log_image 0 [(3, RolledBack), (9, Committed)],
     outcomes := [3 \<mapsto> RolledBack, 9 \<mapsto> Committed]\<rparr>"

theorem truncate_below_atomic_witness:
  "\<exists>r s'. truncate_below key_order 5 two_outcomes = (r, s') \<and> tx_status s' 9 = Some Committed
    \<and> (\<exists>c. clog_open (s'\<lparr>clog_faults := []\<rparr>) = (Inr (), c) \<and> tx_status c 9 = Some Committed)"
proof -
  obtain r s' where t: "truncate_below key_order 5 two_outcomes = (r, s')" by (metis surj_pair)
  have "tx_status two_outcomes 9 = Some Committed" by (simp add: tx_status_def two_outcomes_def fresh_clog_def)
  with truncate_below_atomic [OF key_order_ok _ _ _ _ _ t, of "[(3, RolledBack), (9, Committed)]" 9] t
  show ?thesis by (simp add: two_outcomes_def fresh_clog_def)
qed

text \<open>A follower can be told that its commit is durable when it is not. Two writers enqueue
  their records, the first one leads with both in its batch, the write fails and the leader reports
  the error; the second writer then finds the slot free and its record gone from the queue, leads
  with an empty batch, which trivially succeeds, and returns success. Its record is in no file.\<close>

theorem follower_reports_lost_commit:
  "\<exists>s p. group_commit (fresh_clog [IoErr 0]) s p [(1, Committed), (2, Committed)]
     \<and> p 1 = Returned (2, Committed) (Inr ())
     \<and> clog_file s = log_image 0 [] \<and> tx_status s 2 = None"
proof -
  define A B :: clog_record where "A = (1, Committed)" and "B = (2, Committed)"
  let ?c = "fresh_clog [IoErr 0]"
  let ?p = "\<lambda>a b. (\<lambda>_. Idle)(0 := a, 1 := b)"
  let ?s0 = "fresh_clog []"
  note simps = fresh_clog_def enqueue_def take_batch_def publish_def write_and_fsync_def clog_write_def
    sbind_def next_io_def log_image_def numeral_2_eq_2
  have 1: "group_commit ?c (?c\<lparr>next_lsn := 1, pending := [A]\<rparr>) (?p (Waiting A 1) Idle) [A]"
    using gc_enqueue [OF gc_init [of ?c], where t = 0 and r = A] by (simp add: simps fun_upd_idem)
  have 2: "group_commit ?c (?c\<lparr>next_lsn := 2, pending := [A, B]\<rparr>) (?p (Waiting A 1) (Waiting B 2)) [A, B]"
    using gc_enqueue [OF 1, where t = 1 and r = B] by (simp add: simps)
  have 3: "group_commit ?c (?c\<lparr>next_lsn := 2, pending := [], flushing := True\<rparr>)
      (?p (Writing A [A, B] 2) (Waiting B 2)) [A, B]"
    using gc_lead [OF 2, where t = 0] by (simp add: simps fun_upd_twist)
  have 4: "group_commit ?c (?s0\<lparr>next_lsn := 2, flushing := True\<rparr>)
      (?p (Publishing A [A, B] 2 (Inl (Fail Io))) (Waiting B 2)) [A, B]"
    using gc_write [OF 3, where t = 0] by (simp add: simps fun_upd_twist)
  have 5: "group_commit ?c (?s0\<lparr>next_lsn := 2\<rparr>) (?p (Returned A (Inl (Fail Io))) (Waiting B 2)) [A, B]"
    using gc_publish [OF 4, where t = 0] by (simp add: simps fun_upd_twist)
  have 6: "group_commit ?c (?s0\<lparr>next_lsn := 2, flushing := True\<rparr>)
      (?p (Returned A (Inl (Fail Io))) (Writing B [] 2)) [A, B]"
    using gc_lead [OF 5, where t = 1] by (simp add: simps fun_upd_twist)
  have 7: "group_commit ?c (?s0\<lparr>next_lsn := 2, flushing := True\<rparr>)
      (?p (Returned A (Inl (Fail Io))) (Publishing B [] 2 (Inr ()))) [A, B]"
    using gc_write [OF 6, where t = 1] by (simp add: simps fun_upd_twist)
  have 8: "group_commit ?c (?s0\<lparr>next_lsn := 2, durable_lsn := 2\<rparr>)
      (?p (Returned A (Inl (Fail Io))) (Returned B (Inr ()))) [A, B]"
    using gc_publish [OF 7, where t = 1] by (simp add: simps fun_upd_twist)
  show ?thesis
    by (rule exI, rule exI, rule conjI, rule 8 [unfolded A_def B_def])
      (simp add: simps tx_status_def)
qed

text \<open>A torn record poisons the commit log. A crash left four bytes of a record at the end of the
  file; opening accepts that and appends behind it, out of step with the record grid. The commit of
  transaction 2 is reported durable, but the next open reads the records shifted by four bytes, meets
  a status byte that is none, and fails as corrupt: the database cannot be opened any more.\<close>

theorem torn_tail_corrupts_clog:
  "\<exists>c c' c''. clog_open ((fresh_clog [])\<lparr>clog_file := log_image 0 [] @ [1, 0, 0, 0]\<rparr>) = (Inr (), c)
     \<and> record_commit 2 c = (Inr (), c') \<and> tx_status c' 2 = Some Committed
     \<and> clog_open c' = (Inl (Fail Corruption), c'')"
proof -
  let ?f = "log_image 0 [] @ [1, 0, 0, 0]"
  define c where "c = opened_clog 0 Map.empty ((fresh_clog [])\<lparr>clog_file := ?f\<rparr>)"
  have 1: "clog_open ((fresh_clog [])\<lparr>clog_file := ?f\<rparr>) = (Inr (), c)"
    using clog_open_torn [of "(fresh_clog [])\<lparr>clog_file := ?f\<rparr>" 0 "[]" "[1, 0, 0, 0]"]
    by (simp add: fresh_clog_def log_image_def RECORD_SIZE_def c_def)
  have f: "clog_faults c = []" "quiet c" by (simp_all add: c_def opened_clog_def fresh_clog_def quiet_def)
  then obtain c' where 2: "clog_append 2 Committed c = (Inr (), c')" "clog_faults c' = []"
    "clog_file c' = clog_header 0 @ [1, 0, 0, 0, 2, 0, 0, 0, 0, 0, 0, 0, 1]"
  proof -
    have "u64_le 2 = [2, 0, 0, 0, 0, 0, 0, 0]" by code_simp
    then have "encode_record (2, Committed) = [2, 0, 0, 0, 0, 0, 0, 0, 1]"
      by (simp add: encode_record_def status_tag_def STATUS_COMMITTED_def)
    moreover have "clog_file c = clog_header 0 @ [1, 0, 0, 0]"
      by (simp add: c_def opened_clog_def fresh_clog_def log_image_def)
    ultimately show ?thesis using clog_append_ok [OF f(2,1), of 2 Committed] that by auto
  qed
  have "read_records Map.empty [1, 0, 0, 0, 2, 0, 0, 0, 0, 0, 0, 0, 1] = Inl (Fail Corruption)"
    by (subst read_records.simps) (simp add: RECORD_SIZE_def status_from_tag_def clog_consts)
  then have "\<exists>c''. clog_open c' = (Inl (Fail Corruption), c'')"
    using 2(2,3) by (simp add: clog_open_def clog_io_ok sbind_Inl)
  moreover have "tx_status c' 2 = Some Committed"
    using clog_log.record_decides [OF f(2) _ 2(1)] by (simp add: c_def opened_clog_def)
  ultimately show ?thesis using 1 2(1) unfolding record_commit_def by blast
qed

end
