(* ===== verification/Transaction.thy ===== *)
theory Transaction
  imports Clog
begin

text \<open>
  The transaction coordinator of \<^verbatim>\<open>engine/transaction.rs\<close>: transaction ids, the set of in-flight
  writers, snapshots and row visibility, the conflict flags of serializable snapshot isolation, the
  rowid counters and the reclaim watermark. The hash maps are association lists without repeated
  keys; the handles a snapshot shares with the coordinator (commit log, conflict map, counters) are
  the coordinator's own fields, passed explicitly.
\<close>

section \<open>Data\<close>

datatype read_lock = Tuple u32 bytes | Relation u32 | IndexRange u32 bytes "bytes option"

record ssi_tx =
  read_set :: "read_lock set"
  out_conflict :: bool
  in_conflict :: bool

type_synonym ssi_map = "(u64 \<times> ssi_tx) list"

record snapshot =
  snap_next_tx :: u64
  snap_in_flight :: "u64 set"
  own_tx :: "u64 option"

record tx_state =
  next_tx_id :: u64
  in_flight :: "u64 set"
  tx_clog :: clog
  ssi :: ssi_map
  rowid_counters :: "(bytes \<times> u64) list"

section \<open>Association lists\<close>

definition al_insert :: "'k \<Rightarrow> 'v \<Rightarrow> ('k \<times> 'v) list \<Rightarrow> ('k \<times> 'v) list" where
  "al_insert k v m = (k, v) # filter (\<lambda>(k', _). k' \<noteq> k) m"

definition al_remove :: "'k \<Rightarrow> ('k \<times> 'v) list \<Rightarrow> ('k \<times> 'v) list" where
  "al_remove k m = filter (\<lambda>(k', _). k' \<noteq> k) m"

definition al_modify :: "'k \<Rightarrow> ('v \<Rightarrow> 'v) \<Rightarrow> ('k \<times> 'v) list \<Rightarrow> ('k \<times> 'v) list" where
  "al_modify k f m = map (\<lambda>(k', v). (k', if k' = k then f v else v)) m"

section \<open>Visibility\<close>

definition visible :: "'a clog_scheme \<Rightarrow> snapshot \<Rightarrow> u64 \<Rightarrow> u64 \<Rightarrow> bool" where
  "visible c snap tx_min tx_max =
     (let created =
        (if Some tx_min = own_tx snap then True
         else if tx_min = 0 then True
         else if \<not> is_committed c tx_min then False
         else tx_min < snap_next_tx snap \<and> tx_min \<notin> snap_in_flight snap)
      in if \<not> created then False
         else if tx_max = 0 then True
         else if Some tx_max = own_tx snap then False
         else if \<not> is_committed c tx_max then True
         else snap_next_tx snap \<le> tx_max \<or> tx_max \<in> snap_in_flight snap)"

section \<open>Conflict tracking\<close>

definition add_read_lock :: "u64 \<Rightarrow> read_lock \<Rightarrow> ssi_map \<Rightarrow> ssi_map" where
  "add_read_lock tx l m = al_modify tx (\<lambda>e. e\<lparr>read_set := insert l (read_set e)\<rparr>) m"

definition set_out :: "u64 \<Rightarrow> ssi_map \<Rightarrow> ssi_map" where
  "set_out tx m = al_modify tx (\<lambda>e. e\<lparr>out_conflict := True\<rparr>) m"

definition set_in :: "u64 \<Rightarrow> ssi_map \<Rightarrow> ssi_map" where
  "set_in tx m = al_modify tx (\<lambda>e. e\<lparr>in_conflict := True\<rparr>) m"

definition record_read :: "snapshot \<Rightarrow> u32 \<Rightarrow> bytes \<Rightarrow> u64 option \<Rightarrow> ssi_map \<Rightarrow> ssi_map" where
  "record_read snap table_root rowid_key tombstone_by m =
     (case own_tx snap of
        None \<Rightarrow> m
      | Some tx \<Rightarrow>
          (let m = add_read_lock tx (Tuple table_root rowid_key) m in
           case tombstone_by of
             None \<Rightarrow> m
           | Some peer \<Rightarrow>
               if peer \<noteq> tx \<and> map_of m peer \<noteq> None then set_in peer (set_out tx m) else m))"

definition record_relation_read :: "snapshot \<Rightarrow> u32 \<Rightarrow> ssi_map \<Rightarrow> ssi_map" where
  "record_relation_read snap table_root m =
     (case own_tx snap of None \<Rightarrow> m | Some tx \<Rightarrow> add_read_lock tx (Relation table_root) m)"

definition record_index_range_read :: "snapshot \<Rightarrow> u32 \<Rightarrow> bytes \<Rightarrow> bytes option \<Rightarrow> ssi_map \<Rightarrow> ssi_map" where
  "record_index_range_read snap index_root lower upper m =
     (case own_tx snap of None \<Rightarrow> m | Some tx \<Rightarrow> add_read_lock tx (IndexRange index_root lower upper) m)"

text \<open>The readers a write collides with, and the marking of the edges from them to the writer.\<close>

definition readers :: "u64 \<Rightarrow> (ssi_tx \<Rightarrow> bool) \<Rightarrow> ssi_map \<Rightarrow> u64 list" where
  "readers writer hit m = map fst (filter (\<lambda>(t, e). t \<noteq> writer \<and> hit e) m)"

definition mark_edges :: "u64 \<Rightarrow> u64 list \<Rightarrow> ssi_map \<Rightarrow> ssi_map" where
  "mark_edges writer rs m = (if rs = [] then m else fold set_out rs (set_in writer m))"

definition record_write :: "snapshot \<Rightarrow> u32 \<Rightarrow> bytes \<Rightarrow> ssi_map \<Rightarrow> ssi_map" where
  "record_write snap table_root rowid_key m =
     (case own_tx snap of
        None \<Rightarrow> m
      | Some writer \<Rightarrow>
          mark_edges writer
            (readers writer (\<lambda>e. Tuple table_root rowid_key \<in> read_set e \<or> Relation table_root \<in> read_set e) m) m)"

definition record_insert :: "snapshot \<Rightarrow> u32 \<Rightarrow> ssi_map \<Rightarrow> ssi_map" where
  "record_insert snap table_root m =
     (case own_tx snap of
        None \<Rightarrow> m
      | Some writer \<Rightarrow> mark_edges writer (readers writer (\<lambda>e. Relation table_root \<in> read_set e) m) m)"

definition range_hit :: "u32 \<Rightarrow> bytes \<Rightarrow> read_lock \<Rightarrow> bool" where
  "range_hit index_root key l =
     (case l of
        IndexRange r lower upper \<Rightarrow>
          r = index_root \<and> lower \<le> key \<and> (case upper of Some u \<Rightarrow> key < u | None \<Rightarrow> True)
      | _ \<Rightarrow> False)"

definition record_index_write :: "snapshot \<Rightarrow> u32 \<Rightarrow> bytes \<Rightarrow> ssi_map \<Rightarrow> ssi_map" where
  "record_index_write snap index_root key m =
     (case own_tx snap of
        None \<Rightarrow> m
      | Some writer \<Rightarrow>
          mark_edges writer (readers writer (\<lambda>e. \<exists>l \<in> read_set e. range_hit index_root key l) m) m)"

section \<open>The coordinator\<close>

definition tx_state_new :: "u64 \<Rightarrow> clog \<Rightarrow> tx_state" where
  "tx_state_new persisted_next_tx_id c =
     \<lparr>next_tx_id = max persisted_next_tx_id 1, in_flight = {}, tx_clog = c, ssi = [], rowid_counters = []\<rparr>"

definition take_snapshot :: "u64 option \<Rightarrow> tx_state \<Rightarrow> snapshot" where
  "take_snapshot own s = \<lparr>snap_next_tx = next_tx_id s, snap_in_flight = in_flight s, own_tx = own\<rparr>"

definition fresh_ssi :: ssi_tx where
  "fresh_ssi = \<lparr>read_set = {}, out_conflict = False, in_conflict = False\<rparr>"

definition begin_write :: "tx_state \<Rightarrow> u64 \<times> tx_state" where
  "begin_write s =
     (let id = next_tx_id s in
      (id, s\<lparr>next_tx_id := id + 1, in_flight := insert id (in_flight s),
             ssi := al_insert id fresh_ssi (ssi s)\<rparr>))"

definition log_outcome :: "status \<Rightarrow> u64 \<Rightarrow> (tx_state, unit) op" where
  "log_outcome st tx s = (case clog_append tx st (tx_clog s) of (r, c) \<Rightarrow> (r, s\<lparr>tx_clog := c\<rparr>))"

definition end_tx :: "u64 \<Rightarrow> tx_state \<Rightarrow> tx_state" where
  "end_tx tx s = s\<lparr>in_flight := in_flight s - {tx}, ssi := al_remove tx (ssi s)\<rparr>"

definition commit_write :: "u64 \<Rightarrow> (tx_state, unit) op" where
  "commit_write tx = sbind (log_outcome Committed tx) (\<lambda>_ s. (Inr (), end_tx tx s))"

definition rollback_write :: "u64 \<Rightarrow> (tx_state, unit) op" where
  "rollback_write tx = sbind (log_outcome RolledBack tx) (\<lambda>_ s. (Inr (), end_tx tx s))"

definition ssi_check_commit :: "u64 \<Rightarrow> ssi_map \<Rightarrow> unit result" where
  "ssi_check_commit tx m =
     (case map_of m tx of
        Some e \<Rightarrow> if in_conflict e \<and> out_conflict e then Inl (Fail Serialization) else Inr ()
      | None \<Rightarrow> Inr ())"

definition oldest_active_tx_id :: "tx_state \<Rightarrow> u64" where
  "oldest_active_tx_id s = (if in_flight s = {} then next_tx_id s else Min (in_flight s))"

definition reserve_rowid :: "bytes \<Rightarrow> u64 \<Rightarrow> tx_state \<Rightarrow> u64 \<times> tx_state" where
  "reserve_rowid table schema_next_rowid s =
     (let cur = (case map_of (rowid_counters s) table of None \<Rightarrow> schema_next_rowid | Some n \<Rightarrow> n);
          cur = max cur schema_next_rowid
      in (cur, s\<lparr>rowid_counters := al_insert table (cur + 1) (rowid_counters s)\<rparr>))"

definition current_next_rowid :: "bytes \<Rightarrow> u64 \<Rightarrow> tx_state \<Rightarrow> u64 \<times> tx_state" where
  "current_next_rowid table schema_next_rowid s =
     (let cur = (case map_of (rowid_counters s) table of None \<Rightarrow> schema_next_rowid | Some n \<Rightarrow> n);
          cur = max cur schema_next_rowid
      in (cur, s\<lparr>rowid_counters := al_insert table cur (rowid_counters s)\<rparr>))"

text \<open>The test of the reclaimer in \<^verbatim>\<open>Database::reclaim_dead_rows\<close>: what counts as a dead row.\<close>

definition dead_row :: "tx_state \<Rightarrow> u64 \<Rightarrow> u64 \<Rightarrow> bool" where
  "dead_row s tx_min tx_max =
     (let oldest_active = oldest_active_tx_id s;
          committed_tombstone = (tx_max \<noteq> 0 \<and> tx_max < oldest_active \<and> is_committed (tx_clog s) tx_max);
          rolled_back_insert = (tx_min \<noteq> 0 \<and> tx_min < oldest_active \<and> is_rolled_back (tx_clog s) tx_min)
      in committed_tombstone \<or> rolled_back_insert)"

text \<open>
  Interleavings of the writers. A transaction ends in two critical sections, the record in the
  commit log and the removal from the in-flight set, and other threads run in between. Transaction
  ids are 64 bit; the guard of \<open>ts_begin\<close> leaves out the wrap-around after all of them are used.
\<close>

inductive tx_steps :: "tx_state \<Rightarrow> tx_state \<Rightarrow> bool" for s0 where
  ts_init: "tx_steps s0 s0"
| ts_begin: "tx_steps s0 s \<Longrightarrow> next_tx_id s \<noteq> - 1 \<Longrightarrow> begin_write s = (tx, s') \<Longrightarrow> tx_steps s0 s'"
| ts_log: "tx_steps s0 s \<Longrightarrow> tx \<in> in_flight s \<Longrightarrow> tx_status (tx_clog s) tx = None \<Longrightarrow>
    log_outcome st tx s = (r, s') \<Longrightarrow> tx_steps s0 s'"
| ts_end: "tx_steps s0 s \<Longrightarrow> tx \<in> in_flight s \<Longrightarrow> tx_status (tx_clog s) tx \<noteq> None \<Longrightarrow>
    tx_steps s0 (end_tx tx s)"
| ts_ssi: "tx_steps s0 s \<Longrightarrow> tx_steps s0 (s\<lparr>ssi := m\<rparr>)"
| ts_rowid: "tx_steps s0 s \<Longrightarrow> tx_steps s0 (s\<lparr>rowid_counters := m'\<rparr>)"

section \<open>Association list lemmas\<close>

lemma map_of_al_insert [simp]: "map_of (al_insert k v m) = (map_of m)(k \<mapsto> v)"
  by (auto simp: al_insert_def map_of_filter_key [where P = "\<lambda>k'. k' \<noteq> k"] restrict_map_def fun_eq_iff)

lemma map_of_al_remove [simp]: "map_of (al_remove k m) = (map_of m)(k := None)"
  by (auto simp: al_remove_def map_of_filter_key [where P = "\<lambda>k'. k' \<noteq> k"] restrict_map_def fun_eq_iff)

lemma map_of_al_modify [simp]:
  "map_of (al_modify k f m) k' = (if k' = k then map_option f (map_of m k') else map_of m k')"
  by (induction m) (auto simp: al_modify_def)

section \<open>Visibility as an abstract rule\<close>

text \<open>A transaction the snapshot has seen commit.\<close>

definition seen :: "'a clog_scheme \<Rightarrow> snapshot \<Rightarrow> u64 \<Rightarrow> bool" where
  "seen c snap x \<longleftrightarrow> is_committed c x \<and> x < snap_next_tx snap \<and> x \<notin> snap_in_flight snap"

lemma visible_iff:
  "visible c snap a b \<longleftrightarrow>
     (a = 0 \<or> Some a = own_tx snap \<or> seen c snap a) \<and> (b = 0 \<or> Some b \<noteq> own_tx snap \<and> \<not> seen c snap b)"
  by (auto simp: visible_def seen_def Let_def)

section \<open>Invariant of the coordinator\<close>

definition tx_inv :: "tx_state \<Rightarrow> bool" where
  "tx_inv s \<longleftrightarrow> quiet (tx_clog s) \<and> 0 < next_tx_id s
     \<and> (\<forall>x \<in> in_flight s. x < next_tx_id s \<and> min_tx_id (tx_clog s) \<le> x \<and> x \<noteq> 0)
     \<and> min_tx_id (tx_clog s) \<le> next_tx_id s
     \<and> (\<forall>x. next_tx_id s \<le> x \<longrightarrow> outcomes (tx_clog s) x = None)"

lemma less_next: "n \<noteq> - 1 \<Longrightarrow> x < n + 1 \<longleftrightarrow> x \<le> n" for n x :: u64
proof -
  assume "n \<noteq> - 1"
  then have "1 + n \<noteq> 0" by (metis add.commute add_eq_0_iff)
  then have "unat (n + 1) = Suc (unat n)" by (metis add.commute unatSuc)
  then show "x < n + 1 \<longleftrightarrow> x \<le> n" by (simp add: word_less_nat_alt word_le_nat_alt less_Suc_eq_le)
qed

lemma tx_inv_new:
  assumes "quiet c" "min_tx_id c \<le> max n 1" "\<forall>x. max n 1 \<le> x \<longrightarrow> outcomes c x = None"
  shows "tx_inv (tx_state_new n c)"
  using assms by (auto simp: tx_inv_def tx_state_new_def word_gt_0 max_def split: if_splits)

lemma log_outcome_clog:
  "log_outcome st tx s = (r, s') \<Longrightarrow> \<exists>c. clog_append tx st (tx_clog s) = (r, c) \<and> s' = s\<lparr>tx_clog := c\<rparr>"
  by (auto simp: log_outcome_def split: prod.splits)

lemma outcomes_status: "min_tx_id c \<le> x \<Longrightarrow> outcomes c x = tx_status c x"
  by (auto simp: tx_status_def)

lemma tx_inv_begin:
  assumes "tx_inv s" "next_tx_id s \<noteq> - 1" "begin_write s = (tx, s')"
  shows "tx_inv s'"
proof -
  have lt: "x < next_tx_id s + 1 \<longleftrightarrow> x \<le> next_tx_id s" for x by (rule less_next [OF assms(2)])
  then have le: "next_tx_id s + 1 \<le> x \<longleftrightarrow> next_tx_id s < x" for x by (metis not_le)
  show ?thesis
    using assms(1,3) by (auto simp: tx_inv_def begin_write_def Let_def lt le less_imp_le)
qed

lemma tx_inv_log:
  assumes "tx_inv s" "tx \<in> in_flight s" "log_outcome st tx s = (r, s')"
  shows "tx_inv s' \<and> (\<forall>x. x \<noteq> tx \<longrightarrow> tx_status (tx_clog s') x = tx_status (tx_clog s) x)"
proof -
  obtain c where c: "clog_append tx st (tx_clog s) = (r, c)" "s' = s\<lparr>tx_clog := c\<rparr>"
    using log_outcome_clog [OF assms(3)] by blast
  have q: "quiet (tx_clog s)" "min_tx_id (tx_clog s) \<le> tx" "tx < next_tx_id s"
    using assms(1,2) by (auto simp: tx_inv_def)
  note k = clog_log.record_keeps [OF q(1,2) c(1)]
  have "outcomes c x = None" if x: "next_tx_id s \<le> x" for x
  proof -
    have "x \<noteq> tx" "min_tx_id (tx_clog s) \<le> x" using q(3) x assms(1) by (auto simp: tx_inv_def)
    then show ?thesis
      using k x assms(1) outcomes_status [of c x] outcomes_status [of "tx_clog s" x] by (auto simp: tx_inv_def)
  qed
  then show ?thesis using k assms(1) c(2) by (auto simp: tx_inv_def)
qed

lemma tx_inv_end: "tx_inv s \<Longrightarrow> tx_inv (end_tx tx s)"
  by (simp add: tx_inv_def end_tx_def)

lemma tx_steps_inv: "tx_steps s0 s \<Longrightarrow> tx_inv s0 \<Longrightarrow> tx_inv s"
proof (induction rule: tx_steps.induct)
  case (ts_ssi s m)
  then show ?case by (simp add: tx_inv_def)
next
  case (ts_rowid s m)
  then show ?case by (simp add: tx_inv_def)
qed (auto intro: tx_inv_begin tx_inv_end dest: tx_inv_log)

text \<open>What a snapshot may rely on: a transaction that was over when it was taken stays decided.\<close>

definition over :: "tx_state \<Rightarrow> u64 \<Rightarrow> bool" where
  "over s x \<longleftrightarrow> x < next_tx_id s \<and> x \<notin> in_flight s"

lemma over_stable:
  "tx_steps s0 s \<Longrightarrow> tx_inv s0 \<Longrightarrow> over s0 x \<Longrightarrow>
   over s x \<and> tx_status (tx_clog s) x = tx_status (tx_clog s0) x"
proof (induction rule: tx_steps.induct)
  case (ts_begin s tx s')
  have "x < next_tx_id s + 1" if "x < next_tx_id s" using that less_next [OF ts_begin.hyps(2)] by simp
  with ts_begin show ?case by (auto simp: over_def begin_write_def Let_def)
next
  case (ts_log s tx st r s')
  then have "tx_inv s" using tx_steps_inv by blast
  from tx_inv_log [OF this ts_log.hyps(2,4)] ts_log log_outcome_clog [OF ts_log.hyps(4)]
  show ?case by (auto simp: over_def)
qed (auto simp: over_def end_tx_def)

lemma seen_stable:
  assumes "tx_steps s0 s" "tx_inv s0"
  shows "seen (tx_clog s) (take_snapshot own s0) x = seen (tx_clog s0) (take_snapshot own s0) x"
  using over_stable [OF assms, of x] by (auto simp: seen_def take_snapshot_def over_def is_committed_def)

lemma committed_below_next: "tx_inv s \<Longrightarrow> is_committed (tx_clog s) x \<Longrightarrow> x < next_tx_id s"
  unfolding tx_inv_def is_committed_def tx_status_def
  by (metis leI option.distinct(1) order_less_le_trans)

lemma below_watermark_over:
  assumes "tx_inv s" "x < oldest_active_tx_id s"
  shows "over s x"
proof -
  have "x \<notin> in_flight s" using assms(2) by (auto simp: oldest_active_tx_id_def split: if_splits)
  moreover have "oldest_active_tx_id s \<le> next_tx_id s"
  proof (cases "in_flight s = {}")
    case False
    then have "Min (in_flight s) \<in> in_flight s" by (rule Min_in [OF finite])
    then have "Min (in_flight s) < next_tx_id s" using assms(1) unfolding tx_inv_def by blast
    then show ?thesis using False by (simp add: oldest_active_tx_id_def less_imp_le)
  qed (simp add: oldest_active_tx_id_def)
  ultimately show ?thesis using assms(2) by (auto simp: over_def)
qed

section \<open>Conflict flags\<close>

text \<open>One call on the shared conflict map; a transaction enters it when it begins and leaves it when
  it commits or rolls back.\<close>

datatype ssi_event = EvBegin u64 | EvEnd u64
  | EvRead u64 u32 bytes "u64 option" | EvScan u64 u32 | EvRange u64 u32 bytes "bytes option"
  | EvWrite u64 u32 bytes | EvInsert u64 u32 | EvIndexWrite u64 u32 bytes

definition as_tx :: "u64 \<Rightarrow> snapshot" where
  "as_tx tx = \<lparr>snap_next_tx = 0, snap_in_flight = {}, own_tx = Some tx\<rparr>"

primrec ssi_step :: "ssi_event \<Rightarrow> ssi_map \<Rightarrow> ssi_map" where
  "ssi_step (EvBegin tx) m = al_insert tx fresh_ssi m"
| "ssi_step (EvEnd tx) m = al_remove tx m"
| "ssi_step (EvRead tx root key peer) m = record_read (as_tx tx) root key peer m"
| "ssi_step (EvScan tx root) m = record_relation_read (as_tx tx) root m"
| "ssi_step (EvRange tx root lower upper) m = record_index_range_read (as_tx tx) root lower upper m"
| "ssi_step (EvWrite tx root key) m = record_write (as_tx tx) root key m"
| "ssi_step (EvInsert tx root) m = record_insert (as_tx tx) root m"
| "ssi_step (EvIndexWrite tx root key) m = record_index_write (as_tx tx) root key m"

definition ssi_run :: "ssi_event list \<Rightarrow> ssi_map \<Rightarrow> ssi_map" where
  "ssi_run es m = fold ssi_step es m"

text \<open>The writer of an event, and the read locks its write collides with.\<close>

fun writer_of :: "ssi_event \<Rightarrow> u64 option" where
  "writer_of (EvWrite tx _ _) = Some tx"
| "writer_of (EvInsert tx _) = Some tx"
| "writer_of (EvIndexWrite tx _ _) = Some tx"
| "writer_of _ = None"

fun collides :: "ssi_event \<Rightarrow> read_lock \<Rightarrow> bool" where
  "collides (EvWrite _ root key) l \<longleftrightarrow> l = Tuple root key \<or> l = Relation root"
| "collides (EvInsert _ root) l \<longleftrightarrow> l = Relation root"
| "collides (EvIndexWrite _ root key) l \<longleftrightarrow> range_hit root key l"
| "collides _ l \<longleftrightarrow> False"

lemma own_tx_as_tx [simp]: "own_tx (as_tx tx) = Some tx"
  by (simp add: as_tx_def)

definition holds_flags :: "ssi_map \<Rightarrow> u64 \<Rightarrow> bool \<Rightarrow> bool \<Rightarrow> bool" where
  "holds_flags m t i out \<longleftrightarrow> (\<exists>e. map_of m t = Some e \<and> (i \<longrightarrow> in_conflict e) \<and> (out \<longrightarrow> out_conflict e))"

lemma holds_flags_set [simp]:
  "holds_flags m t i out \<Longrightarrow> holds_flags (set_out p m) t i (out \<or> t = p)"
  "holds_flags m t i out \<Longrightarrow> holds_flags (set_in p m) t (i \<or> t = p) out"
  "holds_flags m t i out \<Longrightarrow> holds_flags (add_read_lock p l m) t i out"
  by (auto simp: holds_flags_def set_out_def set_in_def add_read_lock_def)

lemma holds_flags_weaken: "holds_flags m t i out \<Longrightarrow> (i' \<longrightarrow> i) \<Longrightarrow> (out' \<longrightarrow> out) \<Longrightarrow> holds_flags m t i' out'"
  by (auto simp: holds_flags_def)

lemma holds_flags_fold:
  "holds_flags m t i out \<Longrightarrow> holds_flags (fold set_out rs m) t i (out \<or> t \<in> set rs)"
proof (induction rs arbitrary: m out)
  case (Cons r rs)
  have "(out \<or> t \<in> set (r # rs)) = ((out \<or> t = r) \<or> t \<in> set rs)" by auto
  then show ?case using Cons.IH [OF holds_flags_set(1) [OF Cons.prems, of r]] by simp
qed simp

lemma holds_flags_mark:
  assumes "holds_flags m t i out"
  shows "holds_flags (mark_edges w rs m) t (i \<or> t = w \<and> rs \<noteq> []) (out \<or> t \<in> set rs)"
proof (cases "rs = []")
  case False
  then show ?thesis
    using holds_flags_fold [OF holds_flags_set(2) [OF assms, of w], of rs] by (simp add: mark_edges_def)
qed (use assms in \<open>simp add: mark_edges_def\<close>)

lemma readersI: "map_of m t = Some e \<Longrightarrow> t \<noteq> w \<Longrightarrow> hit e \<Longrightarrow> t \<in> set (readers w hit m)"
  by (force simp: readers_def dest: map_of_SomeD)

text \<open>Every event keeps the flags of the transactions that stay; a colliding write sets them.\<close>

lemma ssi_step_flags:
  assumes "holds_flags m t i out" "ev \<noteq> EvBegin t" "ev \<noteq> EvEnd t"
  shows "holds_flags (ssi_step ev m) t i out"
proof -
  have mark: "holds_flags (mark_edges w rs m) t i out" for w rs
    using holds_flags_mark [OF assms(1)] by (rule holds_flags_weaken) auto
  have set: "holds_flags (set_in p (set_out q m')) t i out" if "holds_flags m' t i out" for p q m'
    using that by (auto intro!: holds_flags_weaken [OF holds_flags_set(2) [OF holds_flags_set(1)]])
  show ?thesis
  proof (cases ev)
    case (EvBegin tx)
    with assms show ?thesis by (auto simp: holds_flags_def)
  next
    case (EvEnd tx)
    with assms show ?thesis by (auto simp: holds_flags_def)
  next
    case (EvRead tx root key peer)
    with assms show ?thesis
      by (auto simp: record_read_def Let_def set split: option.splits)
  qed (use assms mark in \<open>simp_all add: record_relation_read_def record_index_range_read_def
      record_write_def record_insert_def record_index_write_def\<close>)
qed

lemma ssi_run_flags:
  "holds_flags m t i out \<Longrightarrow> EvBegin t \<notin> set es \<Longrightarrow> EvEnd t \<notin> set es \<Longrightarrow> holds_flags (ssi_run es m) t i out"
  by (induction es arbitrary: m) (auto simp: ssi_run_def ssi_step_flags)

lemma ssi_step_write:
  assumes "writer_of ev = Some w" "map_of m r = Some e" "r \<noteq> w" "\<exists>l \<in> read_set e. collides ev l"
  shows "\<exists>rs. ssi_step ev m = mark_edges w rs m \<and> r \<in> set rs"
  using assms
  by (cases ev) (auto simp: record_write_def record_insert_def record_index_write_def
      intro!: exI [of _ "readers _ _ m"] readersI)

section \<open>Properties\<close>

text \<open>C23: A snapshot is stable. However many transactions begin, commit and roll back after it was
  taken, in any interleaving of their critical sections, the set of row versions it shows does not
  change.\<close>

theorem snapshot_stable:
  assumes "tx_inv s" "tx_steps s s'"
  shows "visible (tx_clog s') (take_snapshot own s) tx_min tx_max
    \<longleftrightarrow> visible (tx_clog s) (take_snapshot own s) tx_min tx_max"
  by (simp only: visible_iff seen_stable [OF assms(2,1)])

definition start_state :: tx_state where
  "start_state = tx_state_new 1 (fresh_clog [])"

lemma start_state_inv: "tx_inv start_state"
  unfolding start_state_def by (rule tx_inv_new) (auto simp: fresh_clog_def quiet_def)

definition after_begin :: tx_state where
  "after_begin = snd (begin_write start_state)"

lemma after_begin_steps: "tx_steps start_state after_begin"
  unfolding after_begin_def
  by (rule ts_begin [OF ts_init, where tx = "fst (begin_write start_state)"])
    (simp_all add: start_state_def tx_state_new_def)

theorem snapshot_stable_witness:
  "\<not> visible (tx_clog (snd (commit_write 1 after_begin))) (take_snapshot None after_begin) 1 0"
proof -
  obtain c where c: "clog_append 1 Committed (tx_clog after_begin) = (Inr (), c)"
    using clog_append_ok [of "tx_clog after_begin" 1 Committed]
    by (auto simp: after_begin_def start_state_def tx_state_new_def begin_write_def fresh_clog_def quiet_def)
  then have l: "log_outcome Committed 1 after_begin = (Inr (), after_begin\<lparr>tx_clog := c\<rparr>)"
    by (simp add: log_outcome_def)
  have i: "1 \<in> in_flight after_begin" "tx_status (tx_clog after_begin) 1 = None"
    by (simp_all add: after_begin_def start_state_def tx_state_new_def begin_write_def fresh_clog_def tx_status_def)
  have "tx_status c 1 = Some Committed"
    using clog_log.record_decides [OF _ _ c]
    by (simp add: after_begin_def start_state_def tx_state_new_def begin_write_def fresh_clog_def quiet_def)
  then have "tx_steps after_begin (end_tx 1 (after_begin\<lparr>tx_clog := c\<rparr>))"
    using ts_end [OF ts_log [OF ts_init i l], of 1] i by simp
  moreover have "snd (commit_write 1 after_begin) = end_tx 1 (after_begin\<lparr>tx_clog := c\<rparr>)"
    by (simp add: commit_write_def sbind_def l)
  ultimately have "tx_steps after_begin (snd (commit_write 1 after_begin))" by simp
  from snapshot_stable [OF tx_steps_inv [OF after_begin_steps start_state_inv] this, of None 1 0] i(2)
  show ?thesis by (simp add: visible_iff seen_def is_committed_def take_snapshot_def)
qed

text \<open>What a fresh snapshot shows follows the commit log: the rows of another transaction are
  visible exactly when it has committed and left the in-flight set, so uncommitted, rolled back and
  crashed transactions leave nothing visible; the versions it deleted are hidden in the same case.\<close>

theorem visible_follows_outcome:
  assumes "tx_inv s" "tx \<noteq> 0" "own \<noteq> Some tx"
  shows "(visible (tx_clog s) (take_snapshot own s) tx 0
      \<longleftrightarrow> tx_status (tx_clog s) tx = Some Committed \<and> tx \<notin> in_flight s)
    \<and> (\<not> visible (tx_clog s) (take_snapshot own s) 0 tx
      \<longleftrightarrow> tx_status (tx_clog s) tx = Some Committed \<and> tx \<notin> in_flight s)"
  using assms committed_below_next [OF assms(1), of tx]
  by (auto simp: visible_iff seen_def take_snapshot_def is_committed_def)

theorem visible_follows_outcome_witness:
  "\<not> visible (tx_clog after_begin) (take_snapshot None after_begin) 1 0"
  using visible_follows_outcome [OF tx_steps_inv [OF after_begin_steps start_state_inv], of 1 None]
  by (simp add: after_begin_def begin_write_def Let_def start_state_def tx_state_new_def)

text \<open>The reclaimer is safe for every snapshot taken from the moment of its pass on: a row version
  it counts as dead is invisible to the snapshots of all later states, of readers and of the
  transactions in flight there.\<close>

theorem dead_rows_stay_invisible:
  assumes "tx_inv s" "dead_row s tx_min tx_max" "tx_steps s s'" "own = None \<or> own \<in> Some ` in_flight s'"
  shows "\<not> visible (tx_clog s') (take_snapshot own s') tx_min tx_max"
proof -
  have inv: "tx_inv s'" by (rule tx_steps_inv [OF assms(3,1)])
  have ended: "tx_status (tx_clog s') x = tx_status (tx_clog s) x \<and> over s' x \<and> own \<noteq> Some x"
    if "x < oldest_active_tx_id s" for x
    using over_stable [OF assms(3,1) below_watermark_over [OF assms(1) that]] assms(4) by (auto simp: over_def)
  consider "tx_max \<noteq> 0" "tx_max < oldest_active_tx_id s" "is_committed (tx_clog s) tx_max"
    | "tx_min \<noteq> 0" "tx_min < oldest_active_tx_id s" "is_rolled_back (tx_clog s) tx_min"
    using assms(2) by (auto simp: dead_row_def Let_def)
  then show ?thesis
  proof cases
    case 1
    with ended [of tx_max] show ?thesis
      by (auto simp: visible_iff seen_def take_snapshot_def is_committed_def over_def)
  next
    case 2
    with ended [of tx_min] show ?thesis
      by (auto simp: visible_iff seen_def take_snapshot_def is_committed_def is_rolled_back_def)
  qed
qed

text \<open>The watermark forgets the snapshots that are already open. Transaction 1 deletes a row
  while transaction 2 holds its snapshot; once 1 has committed, the reclaimer counts the row as dead
  although 2 is still in flight and its pinned snapshot shows the row.\<close>

theorem reclaimer_takes_visible_row:
  "\<exists>s s'. tx_steps start_state s \<and> 2 \<in> in_flight s \<and> tx_steps s s' \<and> 2 \<in> in_flight s'
     \<and> visible (tx_clog s') (take_snapshot (Some 2) s) 0 1 \<and> dead_row s' 0 1"
proof -
  define s where "s = snd (begin_write after_begin)"
  have b: "tx_steps start_state s"
    unfolding s_def by (rule ts_begin [OF after_begin_steps, where tx = "fst (begin_write after_begin)"])
      (simp_all add: after_begin_def begin_write_def Let_def start_state_def tx_state_new_def)
  have s: "in_flight s = {1, 2}" "tx_clog s = fresh_clog []" "next_tx_id s = 3"
    by (auto simp: s_def after_begin_def begin_write_def Let_def start_state_def tx_state_new_def)
  then have q: "quiet (tx_clog s)" "clog_faults (tx_clog s) = []" "min_tx_id (tx_clog s) \<le> 1"
    by (simp_all add: fresh_clog_def quiet_def)
  obtain c where c: "clog_append 1 Committed (tx_clog s) = (Inr (), c)" using clog_append_ok [OF q(1,2)] by blast
  have st: "tx_status c 1 = Some Committed" using clog_log.record_decides [OF q(1,3) c] by simp
  define s' where "s' = end_tx 1 (s\<lparr>tx_clog := c\<rparr>)"
  have l: "log_outcome Committed 1 s = (Inr (), s\<lparr>tx_clog := c\<rparr>)" using c by (simp add: log_outcome_def)
  have "tx_status (tx_clog s) 1 = None" by (simp add: s fresh_clog_def tx_status_def)
  then have "tx_steps s s'"
    unfolding s'_def using ts_log [OF ts_init _ _ l] st by (intro ts_end) (simp_all add: s)
  moreover have "in_flight s' = {2}" by (auto simp: s'_def end_tx_def s)
  moreover have "dead_row s' 0 1"
    using st \<open>in_flight s' = {2}\<close> by (simp add: dead_row_def oldest_active_tx_id_def is_committed_def s'_def end_tx_def)
  moreover have "visible (tx_clog s') (take_snapshot (Some 2) s) 0 1"
    by (simp add: visible_iff seen_def take_snapshot_def s)
  ultimately show ?thesis using b s(1) by blast
qed

theorem dead_rows_stay_invisible_witness:
  "dead_row (tx_state_new 3 ((fresh_clog [])\<lparr>outcomes := [1 \<mapsto> Committed, 2 \<mapsto> Committed]\<rparr>)) 1 2
   \<and> \<not> visible ((fresh_clog [])\<lparr>outcomes := [1 \<mapsto> Committed, 2 \<mapsto> Committed]\<rparr>)
       (take_snapshot None (tx_state_new 3 ((fresh_clog [])\<lparr>outcomes := [1 \<mapsto> Committed, 2 \<mapsto> Committed]\<rparr>))) 1 2"
proof -
  define s where "s = tx_state_new 3 ((fresh_clog [])\<lparr>outcomes := [1 \<mapsto> Committed, 2 \<mapsto> Committed]\<rparr>)"
  have "max (3 :: u64) 1 = 3" "\<not> (3 :: u64) \<le> 1" "\<not> (3 :: u64) \<le> 2"
    by (simp_all add: max_def word_le_nat_alt)
  then have i: "tx_inv s" unfolding s_def by (intro tx_inv_new) (auto simp: fresh_clog_def quiet_def)
  have d: "dead_row s 1 2"
    by (simp add: s_def dead_row_def tx_state_new_def oldest_active_tx_id_def is_committed_def tx_status_def fresh_clog_def)
  from dead_rows_stay_invisible [OF i d ts_init, of None] d show ?thesis
    by (simp add: s_def tx_state_new_def)
qed

text \<open>C30: A dangerous structure is caught while its members overlap. If, at any two moments between
  its begin and its commit, transaction p writes what another running transaction r has read, and
  another transaction q writes what p has read, then the commit check of p fails with a
  serialization error, whatever else happened before, between and after.\<close>

theorem dangerous_structure_detected:
  assumes "map_of m p = Some e0" "EvBegin p \<notin> set es" "EvEnd p \<notin> set es"
    and "es = as @ w1 # bs" "writer_of w1 = Some p"
    and "map_of (ssi_run as m) r = Some er" "r \<noteq> p" "\<exists>l \<in> read_set er. collides w1 l"
    and "es = cs @ w2 # ds" "writer_of w2 = Some q" "q \<noteq> p"
    and "map_of (ssi_run cs m) p = Some ep" "\<exists>l \<in> read_set ep. collides w2 l"
  shows "ssi_check_commit p (ssi_run es m) = Inl (Fail Serialization)"
proof -
  have run: "ssi_run (xs @ w # ys) m = ssi_run ys (ssi_step w (ssi_run xs m))" for xs w ys
    by (simp add: ssi_run_def)
  have live: "holds_flags (ssi_run xs m) p False False" if "es = xs @ ys" for xs ys
    using assms(1-3) that by (intro ssi_run_flags) (auto simp: holds_flags_def)
  obtain rs where rs: "ssi_step w1 (ssi_run as m) = mark_edges p rs (ssi_run as m)" "r \<in> set rs"
    using ssi_step_write [OF assms(5,6,7,8)] by blast
  have "holds_flags (ssi_step w1 (ssi_run as m)) p True False"
    unfolding rs(1) using rs(2) by (intro holds_flags_weaken [OF holds_flags_mark [OF live [OF assms(4)]]]) auto
  then have i: "holds_flags (ssi_run es m) p True False"
    unfolding assms(4) run by (rule ssi_run_flags) (use assms(2-4) in auto)
  obtain qs where qs: "ssi_step w2 (ssi_run cs m) = mark_edges q qs (ssi_run cs m)" "p \<in> set qs"
    using ssi_step_write [OF assms(10,12) _ assms(13)] assms(11) by blast
  have "holds_flags (ssi_step w2 (ssi_run cs m)) p False True"
    unfolding qs(1) using qs(2) by (intro holds_flags_weaken [OF holds_flags_mark [OF live [OF assms(9)]]]) auto
  then have o: "holds_flags (ssi_run es m) p False True"
    unfolding assms(9) run by (rule ssi_run_flags) (use assms(2,3,9) in auto)
  from i o show ?thesis by (auto simp: holds_flags_def ssi_check_commit_def)
qed

definition pivot_run :: "ssi_event list" where
  "pivot_run = [EvScan 1 7, EvRead 2 9 [1] None, EvInsert 2 7, EvWrite 3 9 [1]]"

theorem dangerous_structure_detected_witness:
  "ssi_check_commit 2 (ssi_run pivot_run [(1, fresh_ssi), (2, fresh_ssi), (3, fresh_ssi)]) = Inl (Fail Serialization)"
proof -
  let ?m = "[(1, fresh_ssi), (2, fresh_ssi), (3, fresh_ssi)] :: ssi_map"
  note simps = ssi_run_def record_relation_read_def record_read_def add_read_lock_def al_modify_def
    fresh_ssi_def record_insert_def readers_def mark_edges_def set_in_def set_out_def
  have "map_of (ssi_run [EvScan 1 7, EvRead 2 9 [1] None] ?m) 1 = Some (fresh_ssi\<lparr>read_set := {Relation 7}\<rparr>)"
    by (simp add: simps)
  moreover have "map_of (ssi_run [EvScan 1 7, EvRead 2 9 [1] None, EvInsert 2 7] ?m) 2
      = Some (fresh_ssi\<lparr>read_set := {Tuple 9 [1]}, in_conflict := True\<rparr>)"
    by (simp add: simps)
  ultimately show ?thesis
    by (intro dangerous_structure_detected [of ?m 2 fresh_ssi pivot_run
          "[EvScan 1 7, EvRead 2 9 [1] None]" "EvInsert 2 7" "[EvWrite 3 9 [1]]" 1 _
          "[EvScan 1 7, EvRead 2 9 [1] None, EvInsert 2 7]" "EvWrite 3 9 [1]" "[]" 3])
      (simp_all add: pivot_run_def, simp_all add: fresh_ssi_def)
qed

text \<open>Write skew gets through when one of the two transactions commits first. Transactions 1 and 2
  overlap, 1 reads x and writes y, 2 reads y and writes x; 1 passes its check and commits, which
  drops its read locks, so the later write of x by 2 meets no reader and 2 passes its check too.\<close>

theorem write_skew_not_detected:
  "let m1 = ssi_run [EvBegin 1, EvBegin 2, EvRead 1 7 x None, EvRead 2 7 y None, EvWrite 1 7 y] [];
       m2 = ssi_run [EvEnd 1, EvWrite 2 7 x] m1
   in ssi_check_commit 1 m1 = Inr () \<and> ssi_check_commit 2 m2 = Inr ()"
  by (simp add: ssi_run_def al_insert_def al_remove_def record_read_def add_read_lock_def al_modify_def
      fresh_ssi_def record_write_def readers_def mark_edges_def set_in_def set_out_def
      ssi_check_commit_def Let_def)

text \<open>Reservations by any number of writers, in the order their atomic increments happen.\<close>

primrec reserve_all :: "(bytes \<times> u64) list \<Rightarrow> tx_state \<Rightarrow> (bytes \<times> u64) list \<times> tx_state" where
  "reserve_all [] s = ([], s)"
| "reserve_all (q # qs) s =
     (case reserve_rowid (fst q) (snd q) s of (n, s') \<Rightarrow>
        case reserve_all qs s' of (ns, s'') \<Rightarrow> ((fst q, n) # ns, s''))"

definition ids_of :: "bytes \<Rightarrow> (bytes \<times> u64) list \<Rightarrow> u64 list" where
  "ids_of table ns = map snd (filter (\<lambda>(t, _). t = table) ns)"

lemma reserve_rowid_counter:
  "reserve_rowid t floor s = (i, s') \<Longrightarrow> map_of (rowid_counters s') t = Some (i + 1)
     \<and> (\<forall>n. map_of (rowid_counters s) t = Some n \<longrightarrow> n \<le> i)
     \<and> (\<forall>u. u \<noteq> t \<longrightarrow> map_of (rowid_counters s') u = map_of (rowid_counters s) u)"
  by (auto simp: reserve_rowid_def Let_def)

lemma reserve_all_above:
  assumes "reserve_all qs s = (ns, s')" "- 1 \<notin> set (ids_of table ns)"
  shows "sorted_wrt (<) (ids_of table ns)
    \<and> (\<forall>n. map_of (rowid_counters s) table = Some n \<longrightarrow> (\<forall>i \<in> set (ids_of table ns). n \<le> i))"
  using assms
proof (induction qs arbitrary: s ns s')
  case Nil
  then show ?case by (auto simp: ids_of_def)
next
  case (Cons q qs)
  obtain i s1 where r: "reserve_rowid (fst q) (snd q) s = (i, s1)" by (metis surj_pair)
  obtain ns1 s2 where a: "reserve_all qs s1 = (ns1, s2)" by (metis surj_pair)
  have ns: "ns = (fst q, i) # ns1" using Cons.prems(1) r a by simp
  note c = reserve_rowid_counter [OF r]
  show ?case
  proof (cases "fst q = table")
    case True
    have "i \<noteq> - 1" "- 1 \<notin> set (ids_of table ns1)" using Cons.prems(2) True by (auto simp: ns ids_of_def)
    with Cons.IH [OF a] c True have "sorted_wrt (<) (ids_of table ns1)" "\<forall>k \<in> set (ids_of table ns1). i < k"
      using less_next [of i] by (auto simp: not_less [symmetric])
    with c True show ?thesis by (fastforce simp: ns ids_of_def)
  next
    case False
    then have "ids_of table ns = ids_of table ns1" by (simp add: ns ids_of_def)
    with Cons.IH [OF a] Cons.prems(2) c False show ?thesis by simp
  qed
qed

text \<open>Rowids are handed out once. Whatever the mix of tables and of (possibly stale) schema floors,
  the ids reserved for one table are strictly increasing, up to the exhaustion of 64 bits.\<close>

theorem rowids_unique:
  assumes "reserve_all qs s = (ns, s')" "- 1 \<notin> set (ids_of table ns)"
  shows "sorted_wrt (<) (ids_of table ns)"
  using reserve_all_above [OF assms] by blast

theorem rowids_unique_witness:
  "sorted_wrt (<) (ids_of [116] (fst (reserve_all [([116], 4), ([117], 9), ([116], 4)] start_state)))"
  by (rule rowids_unique [of "[([116], 4), ([117], 9), ([116], 4)]" start_state _
        "snd (reserve_all [([116], 4), ([117], 9), ([116], 4)] start_state)"])
    (simp_all add: reserve_rowid_def Let_def start_state_def tx_state_new_def ids_of_def)

end
