(* ===== verification/Btree.thy ===== *)
theory Btree
  imports Pager_Spec
begin

text \<open>
  The B+tree of \<^verbatim>\<open>storage/btree.rs\<close>, over the operations of a page store (the pager, through
  \<open>store_ops\<close>). Page latches exclude other threads and carry no data; the operations here are the
  code between them, run by one thread. Every loop that follows page numbers takes fuel, because on
  a damaged file it may not end; the lemmas of \<open>Btree_Spec\<close> show how much fuel a well-formed tree
  needs.
\<close>

section \<open>Constants and data\<close>

definition TAG_INLINE :: byte where "TAG_INLINE = 0"
definition TAG_OVERFLOW :: byte where "TAG_OVERFLOW = 1"
definition OVERFLOW_HEADER :: nat where "OVERFLOW_HEADER = 8"

datatype op_outcome = Done | Restart

record bt_cursor =
  cells :: "(bytes \<times> bytes) list"
  cur_slot :: nat
  next_leaf :: u32
  upper :: "bytes option"

section \<open>Overflow chains\<close>

definition chunk_capacity :: nat where
  "chunk_capacity = PAGE_SIZE - OVERFLOW_HEADER"

function chunks :: "bytes \<Rightarrow> bytes list" where
  "chunks v = (if v = [] then [] else take chunk_capacity v # chunks (drop chunk_capacity v))"
  by pat_completeness auto
termination
  by (relation "measure length") (auto simp: chunk_capacity_def PAGE_SIZE_def OVERFLOW_HEADER_def)

declare chunks.simps [simp del]

definition overflow_page :: "u32 \<Rightarrow> bytes \<Rightarrow> bytes result" where
  "overflow_page next_no chunk =
     rbind (put_slice zero_page 0 (u32_le next_no)) (\<lambda>buf.
     rbind (put_slice buf 4 (u32_le (of_nat (length chunk)))) (\<lambda>buf.
     put_slice buf OVERFLOW_HEADER chunk))"

primrec write_chunks :: "'s store_ops \<Rightarrow> u32 \<Rightarrow> bytes list \<Rightarrow> ('s, u32) op" where
  "write_chunks st next_no [] = sret next_no"
| "write_chunks st next_no (c # cs) =
     sbind (st_alloc st) (\<lambda>no.
     sbind (slift (overflow_page next_no c)) (\<lambda>buf.
     sbind (st_write st no buf) (\<lambda>_.
     write_chunks st no cs)))"

definition write_overflow :: "'s store_ops \<Rightarrow> bytes \<Rightarrow> ('s, u32) op" where
  "write_overflow st v = write_chunks st 0 (rev (chunks v))"

primrec read_overflow :: "nat \<Rightarrow> 's store_ops \<Rightarrow> u32 \<Rightarrow> ('s, bytes) op" where
  "read_overflow 0 st no = slift (Inl OutOfFuel)"
| "read_overflow (Suc fuel) st no =
     (if no = 0 then sret []
      else sbind (st_read st no) (\<lambda>buf.
        sbind (slift (get_u32 buf 0)) (\<lambda>next_no.
        sbind (slift (get_u32 buf 4)) (\<lambda>chunk_len.
        if PAGE_SIZE < OVERFLOW_HEADER + unat chunk_len then slift (Inl (Fail Corruption))
        else sbind (slift (slice buf OVERFLOW_HEADER (OVERFLOW_HEADER + unat chunk_len))) (\<lambda>chunk.
          sbind (read_overflow fuel st next_no) (\<lambda>rest. sret (chunk @ rest)))))))"

primrec free_overflow :: "nat \<Rightarrow> 's store_ops \<Rightarrow> u32 \<Rightarrow> ('s, unit) op" where
  "free_overflow 0 st no = slift (Inl OutOfFuel)"
| "free_overflow (Suc fuel) st no =
     (if no = 0 then sret ()
      else sbind (st_read st no) (\<lambda>buf.
        sbind (slift (get_u32 buf 0)) (\<lambda>next_no.
        sbind (st_free st no) (\<lambda>_.
        free_overflow fuel st next_no))))"

definition overflow_stub :: "bytes \<Rightarrow> u32 result" where
  "overflow_stub stub = (if length stub = 4 then Inr (u32_of_le stub) else Inl (Fail Corruption))"

definition unwrap_value :: "nat \<Rightarrow> 's store_ops \<Rightarrow> bytes \<Rightarrow> ('s, bytes) op" where
  "unwrap_value fuel st stored =
     (case stored of
        [] \<Rightarrow> slift (Inl (Fail Corruption))
      | tag # rest \<Rightarrow>
          if tag = TAG_INLINE then sret rest
          else if tag = TAG_OVERFLOW then sbind (slift (overflow_stub rest)) (read_overflow fuel st)
          else slift (Inl (Fail Corruption)))"

definition free_if_overflow :: "nat \<Rightarrow> 's store_ops \<Rightarrow> bytes \<Rightarrow> ('s, unit) op" where
  "free_if_overflow fuel st stored =
     (case stored of
        [] \<Rightarrow> sret ()
      | tag # rest \<Rightarrow>
          if tag = TAG_OVERFLOW then sbind (slift (overflow_stub rest)) (free_overflow fuel st)
          else sret ())"

section \<open>Choosing a split\<close>

text \<open>The first loop: the balanced cut, if its two sides fit.\<close>

primrec balanced_cut :: "nat \<Rightarrow> nat \<Rightarrow> nat \<Rightarrow> nat \<Rightarrow> nat list \<Rightarrow> nat option" where
  "balanced_cut tot n i acc [] = None"
| "balanced_cut tot n i acc (fp # fps) =
     (let acc = acc + fp in
      if tot \<le> acc * 2 then
        if i + 1 < n \<and> acc \<le> USABLE \<and> tot - acc \<le> USABLE then Some (i + 1) else None
      else balanced_cut tot n (i + 1) acc fps)"

primrec largest_prefix :: "nat \<Rightarrow> nat \<Rightarrow> nat \<Rightarrow> nat list \<Rightarrow> nat" where
  "largest_prefix i acc s [] = s"
| "largest_prefix i acc s (fp # fps) =
     (if USABLE < acc + fp then s else largest_prefix (i + 1) (acc + fp) (i + 1) fps)"

definition split_index :: "nat list \<Rightarrow> nat" where
  "split_index fps =
     (let tot = sum_list fps; n = length fps in
      case balanced_cut tot n 0 0 fps of
        Some s \<Rightarrow> s
      | None \<Rightarrow> max 1 (min (n - 1) (largest_prefix 0 0 0 fps)))"

section \<open>Lookup\<close>

definition bt_create :: "'s store_ops \<Rightarrow> ('s, u32) op" where
  "bt_create st =
     sbind (st_alloc st) (\<lambda>root. sbind (slift new_leaf) (\<lambda>p. sbind (st_write st root p) (\<lambda>_. sret root)))"

definition follow_child :: "bytes \<Rightarrow> bytes \<Rightarrow> u32 result" where
  "follow_child p key = rbind (find_child p key) (internal_child p)"

primrec search_from :: "nat \<Rightarrow> nat \<Rightarrow> 's store_ops \<Rightarrow> bytes \<Rightarrow> u32 \<Rightarrow> ('s, bytes option) op" where
  "search_from 0 fuel st key no = slift (Inl OutOfFuel)"
| "search_from (Suc depth) fuel st key no =
     sbind (st_read st no) (\<lambda>p.
       if is_leaf p then
         sbind (slift (find_leaf_slot p key)) (\<lambda>r.
           case r of
             Found i \<Rightarrow> sbind (slift (leaf_value p i)) (\<lambda>stored.
               sbind (unwrap_value fuel st stored) (\<lambda>v. sret (Some v)))
           | Missing _ \<Rightarrow> sret None)
       else sbind (slift (follow_child p key)) (search_from depth fuel st key))"

definition bt_search :: "nat \<Rightarrow> 's store_ops \<Rightarrow> u32 \<Rightarrow> bytes \<Rightarrow> ('s, bytes option) op" where
  "bt_search fuel st root key = search_from fuel fuel st key root"

section \<open>Insertion\<close>

definition write_leaf :: "'s store_ops \<Rightarrow> u32 \<Rightarrow> (bytes \<times> bytes) list \<Rightarrow> u32 \<Rightarrow> ('s, unit) op" where
  "write_leaf st no entries right = sbind (slift (build_leaf entries right)) (st_write st no)"

definition write_internal :: "'s store_ops \<Rightarrow> u32 \<Rightarrow> (bytes \<times> u32) list \<Rightarrow> ('s, unit) op" where
  "write_internal st no entries = sbind (slift (build_internal entries)) (st_write st no)"

definition leaf_sizes :: "(bytes \<times> bytes) list \<Rightarrow> nat list" where
  "leaf_sizes entries = map (\<lambda>(k, v). leaf_footprint k v) entries"

definition internal_sizes :: "(bytes \<times> u32) list \<Rightarrow> nat list" where
  "internal_sizes entries = map (\<lambda>(k, _). internal_footprint k) entries"

definition insert_at :: "nat \<Rightarrow> 'a \<Rightarrow> 'a list \<Rightarrow> 'a list" where
  "insert_at i x xs = take i xs @ x # drop i xs"

definition remove_at :: "nat \<Rightarrow> 'a list \<Rightarrow> 'a list" where
  "remove_at i xs = take i xs @ drop (Suc i) xs"

primrec descend :: "nat \<Rightarrow> 's store_ops \<Rightarrow> bytes \<Rightarrow> u32 \<Rightarrow> ('s, u32) op" where
  "descend 0 st key no = slift (Inl OutOfFuel)"
| "descend (Suc depth) st key no =
     sbind (st_read st no) (\<lambda>p.
       if is_leaf p then sret no else sbind (slift (follow_child p key)) (descend depth st key))"

definition beyond_leaf :: "bytes \<Rightarrow> (bytes \<times> bytes) list \<Rightarrow> u32 \<Rightarrow> bool" where
  "beyond_leaf key entries right \<longleftrightarrow> right \<noteq> 0 \<and> entries \<noteq> [] \<and> fst (last entries) < key"

definition try_insert_optimistic :: "nat \<Rightarrow> 's store_ops \<Rightarrow> u32 \<Rightarrow> bytes \<Rightarrow> bytes \<Rightarrow> ('s, op_outcome) op" where
  "try_insert_optimistic fuel st root key stored =
     sbind (descend fuel st key root) (\<lambda>leaf_no.
     sbind (st_read st leaf_no) (\<lambda>p.
       if \<not> is_leaf p then sret Restart
       else sbind (slift (leaf_entries p)) (\<lambda>entries.
         sbind (slift (right_link p)) (\<lambda>right.
         if beyond_leaf key entries right then sret Restart
         else case binary_search (map fst entries) key of
           Found i \<Rightarrow>
             (let new = entries[i := (fst (entries ! i), stored)] in
              if USABLE < sum_list (leaf_sizes new) then sret Restart
              else sbind (free_if_overflow fuel st (snd (entries ! i))) (\<lambda>_.
                sbind (write_leaf st leaf_no new right) (\<lambda>_. sret Done)))
         | Missing i \<Rightarrow>
             (let new = insert_at i (key, stored) entries in
              if USABLE < sum_list (leaf_sizes new) then sret Restart
              else sbind (write_leaf st leaf_no new right) (\<lambda>_. sret Done))))))"

definition put_leaf :: "nat \<Rightarrow> 's store_ops \<Rightarrow> bytes \<Rightarrow> bytes \<Rightarrow> (bytes \<times> bytes) list \<Rightarrow> ('s, (bytes \<times> bytes) list) op" where
  "put_leaf fuel st key v entries =
     (case binary_search (map fst entries) key of
        Found i \<Rightarrow> sbind (free_if_overflow fuel st (snd (entries ! i))) (\<lambda>_.
          sret (entries[i := (fst (entries ! i), v)]))
      | Missing i \<Rightarrow> sret (insert_at i (key, v) entries))"

primrec insert_into :: "nat \<Rightarrow> nat \<Rightarrow> 's store_ops \<Rightarrow> bytes \<Rightarrow> bytes \<Rightarrow> u32 \<Rightarrow> ('s, (bytes \<times> u32) option) op" where
  "insert_into 0 fuel st key v no = slift (Inl OutOfFuel)"
| "insert_into (Suc depth) fuel st key v no =
     sbind (st_read st no) (\<lambda>p.
       if is_leaf p then
         sbind (slift (leaf_entries p)) (\<lambda>entries.
         sbind (put_leaf fuel st key v entries) (\<lambda>entries.
         sbind (slift (right_link p)) (\<lambda>right.
         if sum_list (leaf_sizes entries) \<le> USABLE then
           sbind (write_leaf st no entries right) (\<lambda>_. sret None)
         else
           let s = split_index (leaf_sizes entries) in
           sbind (st_alloc st) (\<lambda>new_no.
           sbind (slift (index entries s)) (\<lambda>e.
           sbind (slift (build_leaf (take s entries) new_no)) (\<lambda>left.
           sbind (slift (build_leaf (drop s entries) right)) (\<lambda>rgt.
           sbind (st_write st no left) (\<lambda>_.
           sbind (st_write st new_no rgt) (\<lambda>_. sret (Some (fst e, new_no))))))))))) 
       else
         sbind (slift (internal_entries p)) (\<lambda>entries.
         sbind (slift (find_child p key)) (\<lambda>idx.
         sbind (slift (index entries idx)) (\<lambda>child.
         sbind (insert_into depth fuel st key v (snd child)) (\<lambda>res.
           case res of
             None \<Rightarrow> sret None
           | Some new_cell \<Rightarrow>
               (let entries = insert_at (idx + 1) new_cell entries in
                if sum_list (internal_sizes entries) \<le> USABLE then
                  sbind (write_internal st no entries) (\<lambda>_. sret None)
                else
                  let s = split_index (internal_sizes entries) in
                  sbind (st_alloc st) (\<lambda>new_no.
                  sbind (slift (index entries s)) (\<lambda>e.
                  sbind (slift (build_internal (take s entries))) (\<lambda>left.
                  sbind (slift (build_internal (drop s entries))) (\<lambda>rgt.
                  sbind (st_write st no left) (\<lambda>_.
                  sbind (st_write st new_no rgt) (\<lambda>_. sret (Some (fst e, new_no))))))))))))))"

definition first_key :: "bytes \<Rightarrow> bytes result" where
  "first_key p = (if is_leaf p then leaf_key p 0 else internal_key p 0)"

definition grow_root :: "'s store_ops \<Rightarrow> u32 \<Rightarrow> bytes \<times> u32 \<Rightarrow> ('s, unit) op" where
  "grow_root st root new_cell =
     sbind (st_alloc st) (\<lambda>left_no.
     sbind (st_read st root) (\<lambda>left_buf.
     sbind (st_write st left_no left_buf) (\<lambda>_.
     sbind (st_read st root) (\<lambda>old_root.
     sbind (slift (first_key old_root)) (\<lambda>low.
     write_internal st root [(low, left_no), new_cell])))))"

definition stored_form :: "'s store_ops \<Rightarrow> bytes \<Rightarrow> bytes \<Rightarrow> ('s, bytes) op" where
  "stored_form st key v =
     (if LEAF_CELL_OVERHEAD + length key + 1 + length v \<le> MAX_CELL then sret (TAG_INLINE # v)
      else sbind (write_overflow st v) (\<lambda>first. sret (TAG_OVERFLOW # u32_le first)))"

definition bt_insert :: "nat \<Rightarrow> 's store_ops \<Rightarrow> u32 \<Rightarrow> bytes \<Rightarrow> bytes \<Rightarrow> ('s, unit) op" where
  "bt_insert fuel st root key v =
     (if MAX_CELL < LEAF_CELL_OVERHEAD + length key + 1 + 4 then slift (Inl (Fail TooLarge))
      else sbind (stored_form st key v) (\<lambda>stored.
        sbind (try_insert_optimistic fuel st root key stored) (\<lambda>r.
          case r of
            Done \<Rightarrow> sret ()
          | Restart \<Rightarrow>
              sbind (insert_into fuel fuel st key stored root) (\<lambda>res.
                case res of None \<Rightarrow> sret () | Some new_cell \<Rightarrow> grow_root st root new_cell))))"

definition insert_if_absent :: "nat \<Rightarrow> 's store_ops \<Rightarrow> u32 \<Rightarrow> bytes \<Rightarrow> bytes \<Rightarrow> ('s, bool) op" where
  "insert_if_absent fuel st root key v =
     sbind (bt_search fuel st root key) (\<lambda>r.
       case r of
         Some _ \<Rightarrow> sret False
       | None \<Rightarrow> sbind (bt_insert fuel st root key v) (\<lambda>_. sret True))"

section \<open>Deletion\<close>

definition try_delete_optimistic :: "nat \<Rightarrow> 's store_ops \<Rightarrow> u32 \<Rightarrow> bytes \<Rightarrow> ('s, bool option) op" where
  "try_delete_optimistic fuel st root key =
     sbind (descend fuel st key root) (\<lambda>leaf_no.
     sbind (st_read st leaf_no) (\<lambda>p.
       if \<not> is_leaf p then sret None
       else sbind (slift (leaf_entries p)) (\<lambda>entries.
         sbind (slift (right_link p)) (\<lambda>right.
         if beyond_leaf key entries right then sret None
         else case binary_search (map fst entries) key of
           Missing _ \<Rightarrow> sret (Some False)
         | Found i \<Rightarrow>
             if length entries = 1 \<and> (right \<noteq> 0 \<or> leaf_no \<noteq> root) then sret None
             else sbind (free_if_overflow fuel st (snd (entries ! i))) (\<lambda>_.
               sbind (write_leaf st leaf_no (remove_at i entries) right) (\<lambda>_. sret (Some True)))))))"

text \<open>The two branches of \<^verbatim>\<open>merge_child\<close>: whether the cells of both pages went into the left one.\<close>

definition merge_pages :: "'s store_ops \<Rightarrow> bytes \<Rightarrow> bytes \<Rightarrow> u32 \<Rightarrow> ('s, bool) op" where
  "merge_pages st left rgt left_no =
     (if is_leaf left then
        sbind (slift (leaf_entries left)) (\<lambda>a.
        sbind (slift (leaf_entries rgt)) (\<lambda>b.
        if USABLE < sum_list (leaf_sizes (a @ b)) then sret False
        else sbind (slift (right_link rgt)) (\<lambda>link.
          sbind (write_leaf st left_no (a @ b) link) (\<lambda>_. sret True))))
      else
        sbind (slift (internal_entries left)) (\<lambda>a.
        sbind (slift (internal_entries rgt)) (\<lambda>b.
        if USABLE < sum_list (internal_sizes (a @ b)) then sret False
        else sbind (write_internal st left_no (a @ b)) (\<lambda>_. sret True))))"

definition merge_child :: "'s store_ops \<Rightarrow> u32 \<Rightarrow> nat \<Rightarrow> ('s, unit) op" where
  "merge_child st parent_no child_idx =
     sbind (st_read st parent_no) (\<lambda>pp.
     sbind (slift (internal_entries pp)) (\<lambda>parent_entries.
       if child_idx + 1 < length parent_entries \<or> 0 < child_idx then
         let left_idx = (if child_idx + 1 < length parent_entries then child_idx else child_idx - 1);
             right_idx = left_idx + 1 in
         sbind (slift (index parent_entries left_idx)) (\<lambda>l.
         sbind (slift (index parent_entries right_idx)) (\<lambda>r.
         sbind (st_read st (snd l)) (\<lambda>left.
         sbind (st_read st (snd r)) (\<lambda>rgt.
         sbind (merge_pages st left rgt (snd l))
           (\<lambda>merged.
             if \<not> merged then sret ()
             else sbind (st_free st (snd r)) (\<lambda>_.
               write_internal st parent_no (remove_at right_idx parent_entries)))))))
       else sret ()))"

primrec delete_from :: "nat \<Rightarrow> nat \<Rightarrow> 's store_ops \<Rightarrow> bytes \<Rightarrow> u32 \<Rightarrow> ('s, bool) op" where
  "delete_from 0 fuel st key no = slift (Inl OutOfFuel)"
| "delete_from (Suc depth) fuel st key no =
     sbind (st_read st no) (\<lambda>p.
       if is_leaf p then
         sbind (slift (leaf_entries p)) (\<lambda>entries.
           case binary_search (map fst entries) key of
             Found i \<Rightarrow>
               sbind (free_if_overflow fuel st (snd (entries ! i))) (\<lambda>_.
               sbind (slift (right_link p)) (\<lambda>right.
               sbind (write_leaf st no (remove_at i entries) right) (\<lambda>_. sret True)))
           | Missing _ \<Rightarrow> sret False)
       else
         sbind (slift (find_child p key)) (\<lambda>child_idx.
         sbind (slift (internal_child p child_idx)) (\<lambda>child.
         sbind (delete_from depth fuel st key child) (\<lambda>found.
           if found then sbind (merge_child st no child_idx) (\<lambda>_. sret found) else sret found))))"

primrec collapse_root :: "nat \<Rightarrow> 's store_ops \<Rightarrow> u32 \<Rightarrow> ('s, unit) op" where
  "collapse_root 0 st root = slift (Inl OutOfFuel)"
| "collapse_root (Suc fuel) st root =
     sbind (st_read st root) (\<lambda>p.
     sbind (slift (cell_count p)) (\<lambda>n.
       if \<not> is_internal p \<or> n \<noteq> 1 then sret ()
       else sbind (slift (internal_child p 0)) (\<lambda>only_child.
         sbind (st_read st only_child) (\<lambda>child.
         sbind (st_write st root child) (\<lambda>_.
         sbind (st_free st only_child) (\<lambda>_.
         collapse_root fuel st root))))))"

definition bt_delete :: "nat \<Rightarrow> 's store_ops \<Rightarrow> u32 \<Rightarrow> bytes \<Rightarrow> ('s, bool) op" where
  "bt_delete fuel st root key =
     sbind (try_delete_optimistic fuel st root key) (\<lambda>r.
       case r of
         Some found \<Rightarrow> sret found
       | None \<Rightarrow>
           sbind (delete_from fuel fuel st key root) (\<lambda>found.
           sbind (collapse_root fuel st root) (\<lambda>_. sret found)))"

section \<open>Cursors and scans\<close>

primrec cursor_from :: "nat \<Rightarrow> 's store_ops \<Rightarrow> bytes option \<Rightarrow> bytes option \<Rightarrow> u32 \<Rightarrow> ('s, bt_cursor) op" where
  "cursor_from 0 st start end_key no = slift (Inl OutOfFuel)"
| "cursor_from (Suc depth) st start end_key no =
     sbind (st_read st no) (\<lambda>p.
       if is_leaf p then
         sbind (case start of
                  Some key \<Rightarrow> sbind (slift (find_leaf_slot p key)) (\<lambda>r. sret (case r of Found i \<Rightarrow> i | Missing i \<Rightarrow> i))
                | None \<Rightarrow> sret 0) (\<lambda>i.
         sbind (slift (leaf_entries p)) (\<lambda>entries.
         sbind (slift (right_link p)) (\<lambda>right.
         sret \<lparr>cells = entries, cur_slot = i, next_leaf = right, upper = end_key\<rparr>)))
       else
         sbind (slift (case start of Some key \<Rightarrow> follow_child p key | None \<Rightarrow> internal_child p 0))
           (cursor_from depth st start end_key))"

definition cursor_at :: "nat \<Rightarrow> 's store_ops \<Rightarrow> u32 \<Rightarrow> bytes option \<Rightarrow> bytes option \<Rightarrow> ('s, bt_cursor) op" where
  "cursor_at fuel st root start end_key = cursor_from fuel st start end_key root"

primrec cursor_next :: "nat \<Rightarrow> nat \<Rightarrow> 's store_ops \<Rightarrow> bt_cursor \<Rightarrow> ('s, (bytes \<times> bytes) option \<times> bt_cursor) op" where
  "cursor_next 0 fuel st c = slift (Inl OutOfFuel)"
| "cursor_next (Suc steps) fuel st c =
     (if cur_slot c < length (cells c) then
        let e = cells c ! cur_slot c in
        if (case upper c of Some u \<Rightarrow> u \<le> fst e | None \<Rightarrow> False)
        then sret (None, c\<lparr>next_leaf := 0, cells := []\<rparr>)
        else sbind (unwrap_value fuel st (snd e)) (\<lambda>v.
          sret (Some (fst e, v), c\<lparr>cur_slot := cur_slot c + 1\<rparr>))
      else if next_leaf c = 0 then sret (None, c)
      else sbind (st_read st (next_leaf c)) (\<lambda>leaf.
        if \<not> is_leaf leaf then slift (Inl (Fail Corruption))
        else sbind (slift (leaf_entries leaf)) (\<lambda>entries.
          sbind (slift (right_link leaf)) (\<lambda>right.
          cursor_next steps fuel st (c\<lparr>cells := entries, cur_slot := 0, next_leaf := right\<rparr>)))))"

primrec collect :: "nat \<Rightarrow> nat \<Rightarrow> 's store_ops \<Rightarrow> bt_cursor \<Rightarrow> ('s, (bytes \<times> bytes) list) op" where
  "collect 0 fuel st c = slift (Inl OutOfFuel)"
| "collect (Suc n) fuel st c =
     sbind (cursor_next fuel fuel st c) (\<lambda>r.
       case r of
         (None, _) \<Rightarrow> sret []
       | (Some e, c) \<Rightarrow> sbind (collect n fuel st c) (\<lambda>es. sret (e # es)))"

definition bt_scan :: "nat \<Rightarrow> 's store_ops \<Rightarrow> u32 \<Rightarrow> ('s, (bytes \<times> bytes) list) op" where
  "bt_scan fuel st root = sbind (cursor_at fuel st root None None) (collect fuel fuel st)"

definition scan_range :: "nat \<Rightarrow> 's store_ops \<Rightarrow> u32 \<Rightarrow> bytes \<Rightarrow> bytes option \<Rightarrow> ('s, (bytes \<times> bytes) list) op" where
  "scan_range fuel st root start end_key =
     sbind (cursor_at fuel st root (Some start) end_key) (collect fuel fuel st)"

definition leaf_first_key :: "'s store_ops \<Rightarrow> u32 \<Rightarrow> ('s, bytes option) op" where
  "leaf_first_key st leaf_no =
     sbind (st_read st leaf_no) (\<lambda>p.
       if \<not> is_leaf p then slift (Inl (Fail Corruption))
       else sbind (slift (leaf_entries p)) (\<lambda>entries.
         sret (case entries of [] \<Rightarrow> None | e # _ \<Rightarrow> Some (fst e))))"

primrec leftmost_leaf :: "nat \<Rightarrow> 's store_ops \<Rightarrow> u32 \<Rightarrow> ('s, u32) op" where
  "leftmost_leaf 0 st no = slift (Inl OutOfFuel)"
| "leftmost_leaf (Suc depth) st no =
     sbind (st_read st no) (\<lambda>p.
       if is_leaf p then sret no else sbind (slift (internal_child p 0)) (leftmost_leaf depth st))"

primrec walk_leaves :: "nat \<Rightarrow> 's store_ops \<Rightarrow> u32 \<Rightarrow> ('s, u32 list) op" where
  "walk_leaves 0 st no = slift (Inl OutOfFuel)"
| "walk_leaves (Suc fuel) st no =
     (if no = 0 then sret []
      else sbind (st_read st no) (\<lambda>p.
        if \<not> is_leaf p then slift (Inl (Fail Corruption))
        else sbind (slift (right_link p)) (\<lambda>right.
          sbind (walk_leaves fuel st right) (\<lambda>rest. sret (no # rest)))))"

definition leaf_pages :: "nat \<Rightarrow> 's store_ops \<Rightarrow> u32 \<Rightarrow> ('s, u32 list) op" where
  "leaf_pages fuel st root = sbind (leftmost_leaf fuel st root) (walk_leaves fuel st)"

section \<open>Dropping a tree\<close>

primrec sfor :: "('a \<Rightarrow> ('s, unit) op) \<Rightarrow> 'a list \<Rightarrow> ('s, unit) op" where
  "sfor f [] = sret ()"
| "sfor f (x # xs) = sbind (f x) (\<lambda>_. sfor f xs)"

primrec free_subtree :: "nat \<Rightarrow> nat \<Rightarrow> 's store_ops \<Rightarrow> u32 \<Rightarrow> ('s, unit) op" where
  "free_subtree 0 fuel st no = slift (Inl OutOfFuel)"
| "free_subtree (Suc depth) fuel st no =
     sbind (st_read st no) (\<lambda>p.
     sbind (slift (cell_count p)) (\<lambda>n.
     sbind (if is_internal p then
              sbind (slift (rmap (internal_child p) [0..<n])) (sfor (free_subtree depth fuel st))
            else
              sfor (\<lambda>i. sbind (slift (leaf_value p i)) (free_if_overflow fuel st)) [0..<n]) (\<lambda>_.
     st_free st no)))"

definition free_all :: "nat \<Rightarrow> 's store_ops \<Rightarrow> u32 \<Rightarrow> ('s, unit) op" where
  "free_all fuel st root = free_subtree fuel fuel st root"

end
