(* ===== verification/Btree_Spec.thy ===== *)
theory Btree_Spec
  imports Btree
begin

text \<open>
  What the B+tree of \<open>Btree\<close> promises, for any page store that keeps the laws of \<open>page_store\<close>. The
  pages of a tree are described by a tree value: its nodes with their page numbers, the separators,
  and the cells of the leaves with the overflow chain of each. \<open>bt_wf\<close> says that the pages hold this
  tree, that it is balanced, ordered between bounds, and that the leaves are linked; its height and
  its page list bound the fuel the operations need.
\<close>

section \<open>Splits\<close>

lemma balanced_cut_Some:
  "balanced_cut tot n i acc fps = Some s \<Longrightarrow> i + length fps = n \<Longrightarrow>
   i < s \<and> s < n \<and> acc + sum_list (take (s - i) fps) \<le> USABLE \<and> tot - (acc + sum_list (take (s - i) fps)) \<le> USABLE"
proof (induction fps arbitrary: i acc)
  case (Cons fp fps)
  show ?case
  proof (cases "tot \<le> (acc + fp) * 2")
    case True
    with Cons.prems show ?thesis by (auto simp: Let_def split: if_splits)
  next
    case False
    with Cons.prems have "balanced_cut tot n (i + 1) (acc + fp) fps = Some s" "(i + 1) + length fps = n"
      by (auto simp: Let_def)
    note ih = Cons.IH [OF this]
    then have "s - i = Suc (s - (i + 1))" by arith
    with ih show ?thesis by (auto simp: add.assoc)
  qed
qed simp

lemma largest_prefix_spec:
  "acc \<le> USABLE \<Longrightarrow> acc + sum_list fps > USABLE \<Longrightarrow> \<exists>j < length fps. largest_prefix i acc i fps = i + j
     \<and> acc + sum_list (take j fps) \<le> USABLE \<and> USABLE < acc + sum_list (take j fps) + fps ! j"
proof (induction fps arbitrary: i acc)
  case (Cons fp fps)
  show ?case
  proof (cases "USABLE < acc + fp")
    case True
    with Cons.prems show ?thesis by (intro exI [of _ 0]) simp
  next
    case False
    with Cons.IH [of "acc + fp" "i + 1"] Cons.prems obtain j where "j < length fps"
      "largest_prefix (i + 1) (acc + fp) (i + 1) fps = i + 1 + j"
      "acc + fp + sum_list (take j fps) \<le> USABLE" "USABLE < acc + fp + sum_list (take j fps) + fps ! j"
      by (auto simp: add.assoc)
    with False show ?thesis by (intro exI [of _ "Suc j"]) (auto simp: add.assoc)
  qed
qed simp

lemma sum_list_drop: "sum_list (drop s xs) = sum_list xs - sum_list (take s xs)" for xs :: "nat list"
  by (metis add_diff_cancel_left' append_take_drop_id sum_list_append)

text \<open>An overflowing node of cells no larger than half a page is cut into two non-empty pages that fit.\<close>

lemma split_index_spec:
  assumes "\<forall>fp \<in> set fps. fp \<le> USABLE div 2" "USABLE < sum_list fps" "sum_list fps \<le> USABLE + USABLE div 2"
  shows "0 < split_index fps \<and> split_index fps < length fps
    \<and> sum_list (take (split_index fps) fps) \<le> USABLE \<and> sum_list (drop (split_index fps) fps) \<le> USABLE"
proof (cases "balanced_cut (sum_list fps) (length fps) 0 0 fps")
  case (Some s)
  then show ?thesis
    using balanced_cut_Some [OF Some] by (simp add: split_index_def Let_def sum_list_drop)
next
  case None
  obtain j where j: "j < length fps" "largest_prefix 0 0 0 fps = j" "sum_list (take j fps) \<le> USABLE"
    "USABLE < sum_list (take j fps) + fps ! j"
    using largest_prefix_spec [of 0 fps 0] assms(2) by auto
  have "fps ! j \<le> USABLE div 2" using assms(1) j(1) by auto
  with j(4) have "0 < j" by (cases j) (auto simp: page_consts)
  moreover have "sum_list fps - sum_list (take j fps) \<le> USABLE"
    using j(4) \<open>fps ! j \<le> USABLE div 2\<close> assms(3) by (simp add: page_consts)
  moreover have "split_index fps = j"
    using None j(1,2) \<open>0 < j\<close> by (simp add: split_index_def Let_def)
  ultimately show ?thesis using j by (simp add: sum_list_drop)
qed

section \<open>Overflow chains\<close>

type_synonym page_map = "u32 \<Rightarrow> bytes option"

definition head_no :: "u32 list \<Rightarrow> u32" where
  "head_no ps = (case ps of [] \<Rightarrow> 0 | no # _ \<Rightarrow> no)"

definition chunk_page :: "bytes \<Rightarrow> u32 \<Rightarrow> bytes \<Rightarrow> bool" where
  "chunk_page p next_no c \<longleftrightarrow> length c \<le> chunk_capacity \<and> get_u32 p 0 = Inr next_no
     \<and> get_u32 p 4 = Inr (of_nat (length c)) \<and> slice p OVERFLOW_HEADER (OVERFLOW_HEADER + length c) = Inr c"

primrec chain_in :: "page_map \<Rightarrow> u32 list \<Rightarrow> bytes \<Rightarrow> bool" where
  "chain_in V [] v \<longleftrightarrow> v = []"
| "chain_in V (no # ps) v \<longleftrightarrow>
     (\<exists>p c rest. V no = Some p \<and> v = c @ rest \<and> chunk_page p (head_no ps) c \<and> chain_in V ps rest)"

definition without :: "page_map \<Rightarrow> u32 list \<Rightarrow> page_map" where
  "without V ps = (\<lambda>no. if no \<in> set ps then None else V no)"

lemma without_simps [simp]:
  "without V [] = V" "without (V(no := None)) ps = without V (no # ps)"
  by (auto simp: without_def fun_eq_iff)

lemma without_append: "without (without V xs) ys = without V (xs @ ys)"
  by (auto simp: without_def fun_eq_iff)

lemma chain_in_cong: "(\<And>no. no \<in> set ps \<Longrightarrow> V' no = V no) \<Longrightarrow> chain_in V' ps v = chain_in V ps v"
  by (induction ps arbitrary: v) auto

lemma chain_in_upd: "no \<notin> set ps \<Longrightarrow> chain_in (V(no := x)) ps v = chain_in V ps v"
  by (rule chain_in_cong) auto

lemma chain_in_ConsI:
  "V no = Some p \<Longrightarrow> chunk_page p (head_no ps) c \<Longrightarrow> chain_in V ps v \<Longrightarrow> chain_in V (no # ps) (c @ v)"
  by auto

lemma overflow_page_ok:
  assumes "length c \<le> chunk_capacity"
  shows "\<exists>p. overflow_page next_no c = Inr p \<and> length p = PAGE_SIZE \<and> chunk_page p next_no c"
proof -
  obtain a where a: "put_slice zero_page 0 (u32_le next_no) = Inr a"
    using put_slice_ok [of 0 "u32_le next_no" zero_page] by (auto simp: zero_page_def PAGE_SIZE_def)
  then have la: "length a = PAGE_SIZE" using put_slice_length [OF a] by (simp add: zero_page_def)
  obtain b where b: "put_slice a 4 (u32_le (of_nat (length c))) = Inr b"
    using put_slice_ok [of 4 _ a] la by (force simp: PAGE_SIZE_def)
  then have lb: "length b = PAGE_SIZE" using put_slice_length [OF b] la by simp
  obtain p where p: "put_slice b OVERFLOW_HEADER c = Inr p"
    using put_slice_ok [of OVERFLOW_HEADER c b] lb assms by (auto simp: chunk_capacity_def OVERFLOW_HEADER_def PAGE_SIZE_def)
  have "bytes_at p 0 (u32_le next_no)" "bytes_at p 4 (u32_le (of_nat (length c)))" "bytes_at p OVERFLOW_HEADER c"
    using put_slice_bytes_at [OF a] put_slice_bytes_at [OF b] put_slice_bytes_at [OF p]
    by (auto intro!: put_slice_keeps [OF p] put_slice_keeps [OF b] simp: OVERFLOW_HEADER_def)
  then have "chunk_page p next_no c"
    using assms by (simp add: chunk_page_def get_u32_at slice_bytes_at)
  then show ?thesis
    using a b p put_slice_length [OF p] lb by (simp add: overflow_page_def)
qed

lemma concat_chunks: "concat (chunks v) = v"
  by (induction v rule: chunks.induct) (subst chunks.simps, simp)

lemma chunks_short: "c \<in> set (chunks v) \<Longrightarrow> length c \<le> chunk_capacity"
  by (induction v rule: chunks.induct) (subst (asm) (2) chunks.simps, auto split: if_splits)

context page_store
begin

lemma write_chunks_spec:
  assumes "rep s V (r + length cs)" "chain_in V ps v" "0 \<notin> set ps" "\<forall>c \<in> set cs. length c \<le> chunk_capacity"
    "distinct ps" "\<forall>no \<in> set ps. V no \<noteq> None"
  shows "\<exists>qs s' V'. write_chunks ops (head_no ps) cs s = (Inr (head_no (qs @ ps)), s') \<and> rep s' V' r
    \<and> chain_in V' (qs @ ps) (concat (rev cs) @ v) \<and> distinct (qs @ ps) \<and> length qs = length cs
    \<and> (\<forall>no \<in> set qs. V no = None \<and> no \<noteq> 0 \<and> V' no \<noteq> None) \<and> (\<forall>no. no \<notin> set qs \<longrightarrow> V' no = V no)"
  using assms
proof (induction cs arbitrary: s V ps v)
  case Nil
  then show ?case by (intro exI [of _ "[]"] exI [of _ s] exI [of _ V]) simp
next
  case (Cons c cs)
  obtain no s1 where a: "st_alloc ops s = (Inr no, s1)" "no \<noteq> 0" "V no = None"
    "rep s1 (V(no \<mapsto> zero_page)) (r + length cs)"
    using alloc_law [of s V "r + length cs"] Cons.prems(1) by auto
  obtain p where p: "overflow_page (head_no ps) c = Inr p" "length p = PAGE_SIZE" "chunk_page p (head_no ps) c"
    using overflow_page_ok [of c "head_no ps"] Cons.prems(4) by auto
  obtain s2 where w: "st_write ops no p s1 = (Inr (), s2)" "rep s2 (V(no \<mapsto> p)) (r + length cs)"
    using write_law [OF a(4) _ p(2), of no] by auto
  have fresh: "no \<notin> set ps" using a(3) Cons.prems(6) by auto
  have ch: "chain_in (V(no \<mapsto> p)) (no # ps) (c @ v)"
    by (rule chain_in_ConsI [OF _ p(3)]) (use Cons.prems(2) fresh in \<open>simp_all add: chain_in_upd\<close>)
  have nz: "0 \<notin> set (no # ps)" "\<forall>c \<in> set cs. length c \<le> chunk_capacity" "distinct (no # ps)"
    using a(2) fresh Cons.prems(3-5) by auto
  have live: "\<forall>n \<in> set (no # ps). (V(no \<mapsto> p)) n \<noteq> None" using Cons.prems(6) by simp
  obtain qs s' V' where
    "write_chunks ops (head_no (no # ps)) cs s2 = (Inr (head_no (qs @ no # ps)), s')" "rep s' V' r"
    "chain_in V' (qs @ no # ps) (concat (rev cs) @ c @ v)" "distinct (qs @ no # ps)" "length qs = length cs"
    "\<forall>n \<in> set qs. (V(no \<mapsto> p)) n = None \<and> n \<noteq> 0 \<and> V' n \<noteq> None" "\<forall>n. n \<notin> set qs \<longrightarrow> V' n = (V(no \<mapsto> p)) n"
    using Cons.IH [OF w(2) ch nz live] by blast
  then show ?case
    using a p(1) w(1)
    by (intro exI [of _ "qs @ [no]"] exI [of _ s'] exI [of _ V'])
      (auto simp: sbind_def head_no_def split: if_splits)
qed

lemma write_overflow_spec:
  assumes "rep s V (r + length (chunks v))"
  shows "\<exists>qs s' V'. write_overflow ops v s = (Inr (head_no qs), s') \<and> rep s' V' r
    \<and> chain_in V' qs v \<and> distinct qs \<and> length qs = length (chunks v)
    \<and> (\<forall>no \<in> set qs. V no = None \<and> V' no \<noteq> None) \<and> (\<forall>no. no \<notin> set qs \<longrightarrow> V' no = V no)"
proof -
  have "\<forall>c \<in> set (rev (chunks v)). length c \<le> chunk_capacity" using chunks_short by auto
  from write_chunks_spec [of s V r "rev (chunks v)" "[]" "[]", OF _ _ _ this] assms obtain qs s' V' where
    "write_chunks ops 0 (rev (chunks v)) s = (Inr (head_no qs), s')" "rep s' V' r"
    "chain_in V' qs (concat (chunks v))" "distinct qs" "length qs = length (chunks v)"
    "\<forall>no \<in> set qs. V no = None \<and> no \<noteq> 0 \<and> V' no \<noteq> None" "\<forall>no. no \<notin> set qs \<longrightarrow> V' no = V no"
    by (auto simp: head_no_def)
  then show ?thesis
    by (intro exI [of _ qs] exI [of _ s'] exI [of _ V']) (simp add: write_overflow_def concat_chunks)
qed

lemma read_overflow_spec:
  assumes "rep s V r" "chain_in V ps v" "length ps < fuel"
  shows "\<exists>s'. read_overflow fuel ops (head_no ps) s = (Inr v, s') \<and> rep s' V r"
  using assms
proof (induction ps arbitrary: s v fuel)
  case Nil
  then show ?case by (cases fuel) (auto simp: head_no_def)
next
  case (Cons no ps)
  from Cons.prems(2) obtain p c rest where p: "V no = Some p" "v = c @ rest" "chunk_page p (head_no ps) c"
    "chain_in V ps rest" by auto
  obtain f where f: "fuel = Suc f" "length ps < f" using Cons.prems(3) by (cases fuel) auto
  have no: "no \<noteq> 0" using page_law [OF Cons.prems(1) p(1)] by simp
  obtain s1 where s1: "st_read ops no s = (Inr p, s1)" "rep s1 V r" using read_law [OF Cons.prems(1) p(1)] by blast
  obtain s2 where s2: "read_overflow f ops (head_no ps) s1 = (Inr rest, s2)" "rep s2 V r"
    using Cons.IH [OF s1(2) p(4) f(2)] by blast
  have "unat (of_nat (length c) :: u32) = length c"
    using p(3) by (intro unat_of_nat_u32) (auto simp: chunk_page_def chunk_capacity_def PAGE_SIZE_def)
  then show ?case
    using p s1 s2 no f(1) by (auto simp: head_no_def sbind_def chunk_page_def chunk_capacity_def PAGE_SIZE_def OVERFLOW_HEADER_def)
qed

lemma free_overflow_spec:
  assumes "rep s V r" "chain_in V ps v" "length ps < fuel" "distinct ps"
  shows "\<exists>s'. free_overflow fuel ops (head_no ps) s = (Inr (), s') \<and> rep s' (without V ps) r"
  using assms
proof (induction ps arbitrary: s V v fuel)
  case Nil
  then show ?case by (cases fuel) (auto simp: head_no_def)
next
  case (Cons no ps)
  from Cons.prems(2) obtain p c rest where p: "V no = Some p" "v = c @ rest" "chunk_page p (head_no ps) c"
    "chain_in V ps rest" by auto
  obtain f where f: "fuel = Suc f" "length ps < f" using Cons.prems(3) by (cases fuel) auto
  have no: "no \<noteq> 0" using page_law [OF Cons.prems(1) p(1)] by simp
  obtain s1 where s1: "st_read ops no s = (Inr p, s1)" "rep s1 V r" using read_law [OF Cons.prems(1) p(1)] by blast
  obtain s2 where s2: "st_free ops no s1 = (Inr (), s2)" "rep s2 (V(no := None)) r"
    using free_law [OF s1(2), of no] p(1) by auto
  have "chain_in (V(no := None)) ps rest" "distinct ps"
    using p(4) Cons.prems(4) by (simp_all add: chain_in_upd)
  from Cons.IH [OF s2(2) this(1) f(2) this(2)] obtain s3 where
    "free_overflow f ops (head_no ps) s2 = (Inr (), s3)" "rep s3 (without V (no # ps)) r"
    unfolding without_simps(2) by blast
  then show ?case
    using p(1,3) s1(1) s2(1) no f(1)
    by (intro exI [of _ s3]) (simp add: head_no_def [of "no # ps"] sbind_def chunk_page_def)
qed

end

section \<open>Trees\<close>

datatype cell = Inline bytes | Spilled "u32 list" bytes

primrec stored_of :: "cell \<Rightarrow> bytes" where
  "stored_of (Inline v) = TAG_INLINE # v"
| "stored_of (Spilled ps v) = TAG_OVERFLOW # u32_le (head_no ps)"

primrec value_of :: "cell \<Rightarrow> bytes" where
  "value_of (Inline v) = v"
| "value_of (Spilled ps v) = v"

primrec cell_pages :: "cell \<Rightarrow> u32 list" where
  "cell_pages (Inline v) = []"
| "cell_pages (Spilled ps v) = ps"

primrec cell_in :: "page_map \<Rightarrow> cell \<Rightarrow> bool" where
  "cell_in V (Inline v) \<longleftrightarrow> True"
| "cell_in V (Spilled ps v) \<longleftrightarrow> chain_in V ps v"

datatype bt = BLeaf u32 "(bytes \<times> cell) list" u32 | BNode u32 "(bytes \<times> bt) list"

primrec root_no :: "bt \<Rightarrow> u32" where
  "root_no (BLeaf no _ _) = no"
| "root_no (BNode no _) = no"

primrec kids :: "bt \<Rightarrow> (bytes \<times> bt) list" where
  "kids (BLeaf _ _ _) = []"
| "kids (BNode _ cs) = cs"

primrec leaf_cells :: "bt \<Rightarrow> (bytes \<times> cell) list" where
  "leaf_cells (BLeaf _ es _) = es"
| "leaf_cells (BNode _ _) = []"

text \<open>Functions of a tree of height \<open>h\<close>: its pages, its entries in key order, its first leaf.\<close>

definition cells_pages :: "(bytes \<times> cell) list \<Rightarrow> u32 list" where
  "cells_pages es = concat (map (\<lambda>e. cell_pages (snd e)) es)"

definition cells_entries :: "(bytes \<times> cell) list \<Rightarrow> (bytes \<times> bytes) list" where
  "cells_entries es = map (\<lambda>e. (fst e, value_of (snd e))) es"

definition stored_entries :: "(bytes \<times> cell) list \<Rightarrow> (bytes \<times> bytes) list" where
  "stored_entries es = map (\<lambda>e. (fst e, stored_of (snd e))) es"

primrec tree_pages :: "nat \<Rightarrow> bt \<Rightarrow> u32 list" where
  "tree_pages 0 t = root_no t # cells_pages (leaf_cells t)"
| "tree_pages (Suc h) t = root_no t # concat (map (\<lambda>c. tree_pages h (snd c)) (kids t))"

primrec entries :: "nat \<Rightarrow> bt \<Rightarrow> (bytes \<times> bytes) list" where
  "entries 0 t = cells_entries (leaf_cells t)"
| "entries (Suc h) t = concat (map (\<lambda>c. entries h (snd c)) (kids t))"

primrec first_leaf :: "nat \<Rightarrow> bt \<Rightarrow> u32" where
  "first_leaf 0 t = root_no t"
| "first_leaf (Suc h) t = first_leaf h (snd (hd (kids t)))"

abbreviation forest_pages :: "nat \<Rightarrow> (bytes \<times> bt) list \<Rightarrow> u32 list" where
  "forest_pages h cs \<equiv> concat (map (\<lambda>c. tree_pages h (snd c)) cs)"

abbreviation forest_entries :: "nat \<Rightarrow> (bytes \<times> bt) list \<Rightarrow> (bytes \<times> bytes) list" where
  "forest_entries h cs \<equiv> concat (map (\<lambda>c. entries h (snd c)) cs)"

definition child_cells :: "(bytes \<times> bt) list \<Rightarrow> (bytes \<times> u32) list" where
  "child_cells cs = map (\<lambda>c. (fst c, root_no (snd c))) cs"

text \<open>Bounds: the lower one is inclusive, the upper one exclusive, an absent one is no bound.\<close>

definition above :: "bytes option \<Rightarrow> bytes \<Rightarrow> bool" where
  "above lo k = (case lo of None \<Rightarrow> True | Some a \<Rightarrow> a \<le> k)"

definition past :: "bytes option \<Rightarrow> bytes \<Rightarrow> bool" where
  "past lo k = (case lo of None \<Rightarrow> True | Some a \<Rightarrow> a < k)"

definition below :: "bytes option \<Rightarrow> bytes \<Rightarrow> bool" where
  "below hi k = (case hi of None \<Rightarrow> True | Some b \<Rightarrow> k < b)"

lemmas bound_defs = above_def past_def below_def

lemma bound_simps [simp]:
  "above None k" "past None k" "below None k"
  "above (Some a) k = (a \<le> k)" "past (Some a) k = (a < k)" "below (Some b) k = (k < b)"
  by (simp_all add: bound_defs)

lemma past_above: "past lo k \<Longrightarrow> above lo k"
  by (cases lo) auto

lemma above_trans: "above lo k \<Longrightarrow> k \<le> k' \<Longrightarrow> above lo k'"
  by (cases lo) auto

lemma past_trans: "above lo k \<Longrightarrow> k < k' \<Longrightarrow> past lo k'"
  by (cases lo) auto

lemma below_trans: "below hi k \<Longrightarrow> k' \<le> k \<Longrightarrow> below hi k'"
  by (cases hi) auto

text \<open>The children of a node, each between its separator and the next one, each leaf linked to the next.\<close>

type_synonym tree_pred = "bytes option \<Rightarrow> bytes option \<Rightarrow> u32 \<Rightarrow> bt \<Rightarrow> bool"

fun chain_ok :: "(bt \<Rightarrow> u32) \<Rightarrow> tree_pred \<Rightarrow> bytes option \<Rightarrow> bytes option \<Rightarrow> u32 \<Rightarrow> (bytes \<times> bt) list \<Rightarrow> bool" where
  "chain_ok fl P lo hi nxt [] \<longleftrightarrow> False"
| "chain_ok fl P lo hi nxt [c] \<longleftrightarrow> P lo hi nxt (snd c)"
| "chain_ok fl P lo hi nxt (c # d # cs) \<longleftrightarrow> P lo (Some (fst d)) (fl (snd d)) (snd c)
     \<and> past lo (fst d) \<and> below hi (fst d) \<and> chain_ok fl P (Some (fst d)) hi nxt (d # cs)"

definition key_fits :: "bytes \<Rightarrow> bool" where
  "key_fits k \<longleftrightarrow> LEAF_CELL_OVERHEAD + length k + 5 \<le> MAX_CELL"

definition cell_ok :: "page_map \<Rightarrow> bytes option \<Rightarrow> bytes option \<Rightarrow> bytes \<times> cell \<Rightarrow> bool" where
  "cell_ok V lo hi e \<longleftrightarrow> above lo (fst e) \<and> below hi (fst e) \<and> cell_in V (snd e) \<and> key_fits (fst e)
     \<and> LEAF_CELL_OVERHEAD + length (fst e) + length (stored_of (snd e)) \<le> MAX_CELL"

definition leaf_ok :: "page_map \<Rightarrow> bytes option \<Rightarrow> bytes option \<Rightarrow> u32 \<Rightarrow> bt \<Rightarrow> bool" where
  "leaf_ok V lo hi nxt t \<longleftrightarrow> (\<exists>no es p. t = BLeaf no es nxt \<and> V no = Some p \<and> leaf_page p (stored_entries es) nxt
     \<and> sum_list (leaf_sizes (stored_entries es)) \<le> USABLE
     \<and> sorted_wrt (<) (map fst es)
     \<and> (\<forall>e \<in> set es. cell_ok V lo hi e))"

definition node_ok :: "page_map \<Rightarrow> bytes option \<Rightarrow> bt \<Rightarrow> bool" where
  "node_ok V lo t \<longleftrightarrow> (\<exists>no cs p. t = BNode no cs \<and> V no = Some p \<and> internal_page p (child_cells cs)
     \<and> sum_list (internal_sizes (child_cells cs)) \<le> USABLE
     \<and> (\<forall>a. lo = Some a \<longrightarrow> fst (hd cs) = a)
     \<and> (\<forall>c \<in> set cs. key_fits (fst c)))"

primrec bt_wf :: "page_map \<Rightarrow> nat \<Rightarrow> tree_pred" where
  "bt_wf V 0 = leaf_ok V"
| "bt_wf V (Suc h) = (\<lambda>lo hi nxt t. node_ok V lo t \<and> chain_ok (first_leaf h) (bt_wf V h) lo hi nxt (kids t))"

abbreviation forest_ok :: "page_map \<Rightarrow> nat \<Rightarrow> bytes option \<Rightarrow> bytes option \<Rightarrow> u32 \<Rightarrow> (bytes \<times> bt) list \<Rightarrow> bool" where
  "forest_ok V h \<equiv> chain_ok (first_leaf h) (bt_wf V h)"

lemma chain_ok_nonempty: "chain_ok fl P lo hi nxt cs \<Longrightarrow> cs \<noteq> []"
  by (cases cs) auto

lemma chain_ok_append:
  assumes "xs \<noteq> []" "ys \<noteq> []"
  shows "chain_ok fl P lo hi nxt (xs @ ys) \<longleftrightarrow>
    chain_ok fl P lo (Some (fst (hd ys))) (fl (snd (hd ys))) xs \<and> past lo (fst (hd ys)) \<and> below hi (fst (hd ys))
    \<and> chain_ok fl P (Some (fst (hd ys))) hi nxt ys"
  using assms(1)
proof (induction xs arbitrary: lo rule: induct_list012)
  case (2 x)
  obtain y ys' where "ys = y # ys'" using assms(2) by (cases ys) auto
  then show ?case by auto
next
  case (3 x y zs)
  have "past lo (fst y) \<Longrightarrow> fst y < k \<Longrightarrow> past lo k" for k
    using past_trans past_above by blast
  moreover have "below hi (fst (hd ys)) \<Longrightarrow> fst y < fst (hd ys) \<Longrightarrow> below hi (fst y)"
    using below_trans less_imp_le by blast
  ultimately show ?case using "3.IH"(2) [of "Some (fst y)"] by auto
qed simp

lemma chain_ok_mono:
  "chain_ok fl P lo hi nxt cs \<Longrightarrow> (\<And>lo hi nxt c. c \<in> set cs \<Longrightarrow> P lo hi nxt (snd c) \<Longrightarrow> Q lo hi nxt (snd c)) \<Longrightarrow>
   chain_ok fl Q lo hi nxt cs"
  by (induction fl P lo hi nxt cs rule: chain_ok.induct) auto

lemma chain_ok_member: "chain_ok fl P lo hi nxt cs \<Longrightarrow> c \<in> set cs \<Longrightarrow> \<exists>lo hi nxt. P lo hi nxt (snd c)"
  by (induction fl P lo hi nxt cs rule: chain_ok.induct) auto

text \<open>One child taken out of the middle, and put back as several.\<close>

lemma chain_ok_middle:
  assumes "new \<noteq> []"
  shows "chain_ok fl P lo hi nxt (pre @ new @ post) \<longleftrightarrow>
    (pre \<noteq> [] \<longrightarrow> chain_ok fl P lo (Some (fst (hd new))) (fl (snd (hd new))) pre
       \<and> past lo (fst (hd new)) \<and> below hi (fst (hd new)))
    \<and> (post \<noteq> [] \<longrightarrow> chain_ok fl P (Some (fst (hd post))) hi nxt post \<and> below hi (fst (hd post))
       \<and> past (if pre = [] then lo else Some (fst (hd new))) (fst (hd post)))
    \<and> chain_ok fl P (if pre = [] then lo else Some (fst (hd new))) (if post = [] then hi else Some (fst (hd post)))
       (if post = [] then nxt else fl (snd (hd post))) new"
  using assms by (cases "pre = []"; cases "post = []") (auto simp: chain_ok_append)

lemmas chain_ok_focus = chain_ok_middle [of "[c]" for c, simplified]

lemma chain_ok_bounds:
  assumes "chain_ok fl P lo hi nxt cs" "c \<in> set cs" "e \<in> E (snd c)"
    and "\<And>lo hi nxt t e. P lo hi nxt t \<Longrightarrow> e \<in> E t \<Longrightarrow> above lo (k e) \<and> below hi (k e)"
  shows "above lo (k e) \<and> below hi (k e)"
  using assms(1,2)
proof (induction cs arbitrary: lo rule: induct_list012)
  case (2 x)
  then show ?case using assms(3,4) by auto
next
  case (3 x y zs)
  show ?case
  proof (cases "c = x")
    case True
    then have "above lo (k e)" "k e < fst y" using "3.prems"(1) assms(3,4) by fastforce+
    moreover have "below hi (fst y)" using "3.prems"(1) by simp
    ultimately show ?thesis using below_trans less_imp_le by blast
  next
    case False
    then have "fst y \<le> k e" "below hi (k e)" using "3.IH"(2) [of "Some (fst y)"] "3.prems" by auto
    moreover have "past lo (fst y)" using "3.prems"(1) by simp
    ultimately show ?thesis using above_trans past_above by blast
  qed
qed simp

lemma wf_bounds: "bt_wf V h lo hi nxt t \<Longrightarrow> e \<in> set (entries h t) \<Longrightarrow> above lo (fst e) \<and> below hi (fst e)"
proof (induction h arbitrary: lo hi nxt t e)
  case 0
  then show ?case by (fastforce simp: leaf_ok_def cells_entries_def cell_ok_def)
next
  case (Suc h)
  then obtain c where c: "c \<in> set (kids t)" "e \<in> set (entries h (snd c))" by auto
  have "forest_ok V h lo hi nxt (kids t)" using Suc.prems(1) by simp
  from chain_ok_bounds [where E = "\<lambda>t. set (entries h t)" and k = fst, OF this c] Suc.IH show ?case by blast
qed

lemma forest_bounds:
  "forest_ok V h lo hi nxt cs \<Longrightarrow> e \<in> set (forest_entries h cs) \<Longrightarrow> above lo (fst e) \<and> below hi (fst e)"
  using chain_ok_bounds [of _ "bt_wf V h" lo hi nxt cs _ e "\<lambda>t. set (entries h t)" fst] wf_bounds by fastforce

lemma wf_sorted: "bt_wf V h lo hi nxt t \<Longrightarrow> sorted_wrt (<) (map fst (entries h t))"
proof (induction h arbitrary: lo hi nxt t)
  case 0
  then show ?case by (auto simp: leaf_ok_def cells_entries_def comp_def)
next
  case (Suc h)
  have "forest_ok V h lo hi nxt cs \<Longrightarrow> sorted_wrt (<) (map fst (forest_entries h cs))" for cs lo
  proof (induction cs arbitrary: lo rule: induct_list012)
    case (3 x y zs)
    have "fst a < fst b" if "a \<in> set (entries h (snd x))" "b \<in> set (forest_entries h (y # zs))" for a b
      using that "3.prems" wf_bounds [of V h lo "Some (fst y)" _ "snd x" a]
        forest_bounds [of h V "Some (fst y)" hi nxt "y # zs" b] by fastforce
    moreover have "sorted_wrt (<) (map fst (forest_entries h (y # zs)))" using "3.IH"(2) "3.prems" by auto
    moreover have "sorted_wrt (<) (map fst (entries h (snd x)))" using "3.prems" Suc.IH by auto
    ultimately have "sorted_wrt (<) (map fst (entries h (snd x)) @ map fst (forest_entries h (y # zs)))"
      unfolding sorted_wrt_append by force
    then show ?case by simp
  qed (use Suc.IH in auto)
  with Suc.prems show ?case by auto
qed

lemma chain_ok_separators: "chain_ok fl P lo hi nxt cs \<Longrightarrow> sorted_wrt (<) (tl (map fst cs)) \<and> (\<forall>c \<in> set (tl cs). past lo (fst c))"
proof (induction cs arbitrary: lo rule: induct_list012)
  case (3 x y zs)
  have "chain_ok fl P (Some (fst y)) hi nxt (y # zs)" using "3.prems" by simp
  from "3.IH"(2) [OF this] have "sorted_wrt (<) (map fst zs)" "\<forall>c \<in> set zs. fst y < fst c" by auto
  moreover have "past lo (fst y)" using "3.prems" by simp
  moreover have "past lo k" if "fst y < k" for k
    using past_trans [OF past_above [OF \<open>past lo (fst y)\<close>] that] .
  ultimately show ?case by simp
qed auto

text \<open>The child that the interior search picks is the only one that can hold the key.\<close>

lemma forest_lookup:
  assumes "forest_ok V h lo hi nxt (pre @ c # post)" "pre \<noteq> [] \<longrightarrow> fst c \<le> key" "post \<noteq> [] \<longrightarrow> key < fst (hd post)"
  shows "e \<in> set (forest_entries h pre) \<Longrightarrow> fst e < key" "e \<in> set (forest_entries h post) \<Longrightarrow> key < fst e"
proof -
  note f = assms(1) [unfolded chain_ok_focus]
  show "fst e < key" if "e \<in> set (forest_entries h pre)"
    using that f assms(2) forest_bounds [of h V lo "Some (fst c)" _ pre e] by (cases "pre = []") fastforce+
  show "key < fst e" if "e \<in> set (forest_entries h post)"
    using that f assms(3) forest_bounds [of h V "Some (fst (hd post))" hi nxt post e] by (cases "post = []") fastforce+
qed

lemma child_spec_split:
  assumes "child_spec (map fst cs) key i"
  obtains pre c post where "cs = pre @ c # post" "length pre = i" "pre \<noteq> [] \<longrightarrow> fst c \<le> key"
    "post \<noteq> [] \<longrightarrow> key < fst (hd post)"
proof
  have i: "i < length cs" using assms by (simp add: child_spec_def)
  show "cs = take i cs @ cs ! i # drop (Suc i) cs" using i by (rule id_take_nth_drop)
  show "length (take i cs) = i" using i by simp
  show "take i cs \<noteq> [] \<longrightarrow> fst (cs ! i) \<le> key" using assms i by (auto simp: child_spec_def)
  show "drop (Suc i) cs \<noteq> [] \<longrightarrow> key < fst (hd (drop (Suc i) cs))"
    using assms i by (auto simp: child_spec_def hd_drop_conv_nth)
qed

lemma map_of_middle:
  assumes "\<And>e. e \<in> set xs \<Longrightarrow> fst e \<noteq> k" "\<And>e. e \<in> set zs \<Longrightarrow> fst e \<noteq> k"
  shows "map_of (xs @ ys @ zs) k = map_of ys k"
proof -
  have "map_of xs k = None" "map_of zs k = None" using assms by (auto simp: map_of_eq_None_iff)
  then show ?thesis by (simp add: map_add_def split: option.splits)
qed

section \<open>Search\<close>

lemma internal_child_at: "internal_page p (child_cells cs) \<Longrightarrow> i < length cs \<Longrightarrow> internal_child p i = Inr (root_no (snd (cs ! i)))"
  by (simp add: internal_page_def child_cells_def)

lemma fst_child_cells [simp]: "map fst (child_cells cs) = map fst cs"
  by (simp add: child_cells_def comp_def)

lemma length_child_cells [simp]: "length (child_cells cs) = length cs"
  by (simp add: child_cells_def)

lemma node_step:
  assumes "bt_wf V (Suc h) lo hi nxt t"
  obtains no pre c post p where "t = BNode no (pre @ c # post)" "V no = Some p" "\<not> is_leaf p" "is_internal p"
    "internal_page p (child_cells (pre @ c # post))"
    "find_child p key = Inr (length pre)" "follow_child p key = Inr (root_no (snd c))"
    "forest_ok V h lo hi nxt (pre @ c # post)"
    "pre \<noteq> [] \<longrightarrow> fst c \<le> key" "post \<noteq> [] \<longrightarrow> key < fst (hd post)"
proof -
  obtain no cs p where t: "t = BNode no cs" "V no = Some p" "internal_page p (child_cells cs)"
    "forest_ok V h lo hi nxt cs"
    using assms by (auto simp: node_ok_def)
  have "sorted_wrt (<) (tl (map fst (child_cells cs)))" using chain_ok_separators [OF t(4)] by simp
  moreover have "child_cells cs \<noteq> []" using chain_ok_nonempty [OF t(4)] by (simp add: child_cells_def)
  ultimately obtain i where i: "find_child p key = Inr i" "child_spec (map fst cs) key i"
    using find_child_spec [OF t(3), of key] by auto
  obtain pre c post where cs: "cs = pre @ c # post" "length pre = i" "pre \<noteq> [] \<longrightarrow> fst c \<le> key"
    "post \<noteq> [] \<longrightarrow> key < fst (hd post)" using child_spec_split [OF i(2)] by blast
  have "internal_child p i = Inr (root_no (snd c))" using internal_child_at [OF t(3), of i] cs by (simp add: nth_append)
  then show ?thesis
    using t cs i(1) by (intro that [of no pre c post p])
      (auto simp: internal_page_def is_leaf_def is_internal_def page_consts follow_child_def)
qed

lemma leaf_step:
  assumes "bt_wf V 0 lo hi nxt t"
  obtains no es p where "t = BLeaf no es nxt" "V no = Some p" "is_leaf p" "leaf_page p (stored_entries es) nxt"
    "sorted_wrt (<) (map fst es)" "find_leaf_slot p key = Inr (binary_search (map fst es) key)"
    "leaf_entries p = Inr (stored_entries es)" "right_link p = Inr nxt"
proof -
  obtain no es p where t: "t = BLeaf no es nxt" "V no = Some p" "leaf_page p (stored_entries es) nxt" "sorted_wrt (<) (map fst es)"
    using assms by (auto simp: leaf_ok_def)
  moreover have "map fst (stored_entries es) = map fst es" by (simp add: stored_entries_def comp_def)
  ultimately show ?thesis
    using find_leaf_slot_eq [OF t(3), of key] leaf_page_entries [OF t(3)]
    by (intro that [of no es p]) (auto simp: leaf_page_def is_leaf_def)
qed

lemma binary_search_notin:
  assumes "sorted_wrt (<) ks" "binary_search ks key = Missing i"
  shows "key \<notin> set ks"
proof
  assume "key \<in> set ks"
  then obtain j where "j < length ks" "ks ! j = key" by (auto simp: in_set_conv_nth)
  with binary_search_Missing [OF assms] show False by (cases "j < i") auto
qed

lemma map_of_cells:
  assumes "sorted_wrt (<) (map fst es)"
  shows "map_of (cells_entries es) key
    = (case binary_search (map fst es) key of Found i \<Rightarrow> Some (value_of (snd (es ! i))) | Missing _ \<Rightarrow> None)"
proof (cases "binary_search (map fst es) key")
  case (Found i)
  then have i: "i < length es" "fst (es ! i) = key" using binary_search_Found [OF assms Found] by auto
  have "distinct (map fst (cells_entries es))"
    using assms strict_sorted_iff by (auto simp: cells_entries_def comp_def)
  moreover have "(key, value_of (snd (es ! i))) \<in> set (cells_entries es)"
    using i by (force simp: cells_entries_def)
  ultimately show ?thesis using Found by (simp add: map_of_is_SomeI)
next
  case (Missing i)
  have "key \<notin> set (map fst es)" by (rule binary_search_notin [OF assms Missing])
  moreover have "fst ` set (cells_entries es) = set (map fst es)" by (force simp: cells_entries_def)
  ultimately show ?thesis using Missing by (simp add: map_of_eq_None_iff)
qed

lemma overflow_stub_le [simp]: "overflow_stub (u32_le w) = Inr w"
  by (simp add: overflow_stub_def)

lemma cell_pages_le: "e \<in> set es \<Longrightarrow> length (cell_pages (snd e)) \<le> length (cells_pages es)"
  by (induction es) (auto simp: cells_pages_def)

lemma forest_pages_le: "c \<in> set cs \<Longrightarrow> length (tree_pages h (snd c)) \<le> length (forest_pages h cs)"
  by (induction cs) auto

context page_store
begin

lemma unwrap_spec:
  assumes "rep s V r" "cell_in V c" "length (cell_pages c) < fuel"
  shows "\<exists>s'. unwrap_value fuel ops (stored_of c) s = (Inr (value_of c), s') \<and> rep s' V r"
proof (cases c)
  case (Inline v)
  then show ?thesis using assms by (auto simp: unwrap_value_def TAG_INLINE_def)
next
  case (Spilled ps v)
  then show ?thesis
    using read_overflow_spec [of s V r ps v fuel] assms
    by (auto simp: unwrap_value_def TAG_INLINE_def TAG_OVERFLOW_def)
qed

lemma free_cell_spec:
  assumes "rep s V r" "cell_in V c" "length (cell_pages c) < fuel" "distinct (cell_pages c)"
  shows "\<exists>s'. free_if_overflow fuel ops (stored_of c) s = (Inr (), s') \<and> rep s' (without V (cell_pages c)) r"
proof (cases c)
  case (Inline v)
  then show ?thesis using assms by (auto simp: free_if_overflow_def TAG_INLINE_def TAG_OVERFLOW_def)
next
  case (Spilled ps v)
  then show ?thesis
    using free_overflow_spec [of s V r ps v fuel] assms by (auto simp: free_if_overflow_def)
qed

lemma search_from_spec:
  assumes "rep s V r" "bt_wf V h lo hi nxt t" "h < depth" "length (tree_pages h t) \<le> fuel"
  shows "\<exists>s'. search_from depth fuel ops key (root_no t) s = (Inr (map_of (entries h t) key), s') \<and> rep s' V r"
  using assms
proof (induction h arbitrary: depth s lo hi nxt t)
  case 0
  obtain d where d: "depth = Suc d" using "0.prems"(3) by (cases depth) auto
  obtain no es p where t: "t = BLeaf no es nxt" "V no = Some p" "is_leaf p" "leaf_page p (stored_entries es) nxt"
    "sorted_wrt (<) (map fst es)" "find_leaf_slot p key = Inr (binary_search (map fst es) key)"
    "leaf_entries p = Inr (stored_entries es)" "right_link p = Inr nxt"
    by (rule leaf_step [OF "0.prems"(2)])
  obtain s1 where s1: "st_read ops no s = (Inr p, s1)" "rep s1 V r" using read_law [OF "0.prems"(1) t(2)] by blast
  note m = map_of_cells [OF t(5), of key]
  show ?case
  proof (cases "binary_search (map fst es) key")
    case (Found i)
    then have i: "i < length es" using binary_search_Found [OF t(5) Found] by simp
    then have v: "leaf_value p i = Inr (stored_of (snd (es ! i)))"
      using t(4) by (simp add: leaf_page_def stored_entries_def)
    have "cell_in V (snd (es ! i))" using "0.prems"(2) t(1) i by (auto simp: leaf_ok_def cell_ok_def)
    moreover have "length (cell_pages (snd (es ! i))) < fuel"
      using cell_pages_le [of "es ! i" es] i "0.prems"(4) t(1) by simp
    ultimately obtain s2 where "unwrap_value fuel ops (stored_of (snd (es ! i))) s1 = (Inr (value_of (snd (es ! i))), s2)"
      "rep s2 V r" using unwrap_spec [OF s1(2)] by blast
    then show ?thesis using t s1 d Found v m by (simp add: sbind_def)
  next
    case (Missing i)
    then show ?thesis using t s1 d m by (simp add: sbind_def)
  qed
next
  case (Suc h)
  obtain d where d: "depth = Suc d" "h < d" using Suc.prems(3) by (cases depth) auto
  obtain no pre c post p where t: "t = BNode no (pre @ c # post)" "V no = Some p" "\<not> is_leaf p" "is_internal p"
    "internal_page p (child_cells (pre @ c # post))"
    "find_child p key = Inr (length pre)" "follow_child p key = Inr (root_no (snd c))"
    "forest_ok V h lo hi nxt (pre @ c # post)"
    "pre \<noteq> [] \<longrightarrow> fst c \<le> key" "post \<noteq> [] \<longrightarrow> key < fst (hd post)"
    by (rule node_step [OF Suc.prems(2)])
  obtain s1 where s1: "st_read ops no s = (Inr p, s1)" "rep s1 V r" using read_law [OF Suc.prems(1) t(2)] by blast
  obtain lo' hi' nxt' where c: "bt_wf V h lo' hi' nxt' (snd c)" using chain_ok_member [OF t(8), of c] by auto
  have "length (tree_pages h (snd c)) \<le> fuel" using Suc.prems(4) t(1) by simp
  from Suc.IH [OF s1(2) c d(2) this] obtain s2 where
    s2: "search_from d fuel ops key (root_no (snd c)) s1 = (Inr (map_of (entries h (snd c)) key), s2)" "rep s2 V r" by blast
  have "map_of (entries (Suc h) t) key = map_of (entries h (snd c)) key"
    using forest_lookup [OF t(8-10)] map_of_middle [of "forest_entries h pre" key "forest_entries h post" "entries h (snd c)"]
    by (force simp: t(1))
  then show ?case using t s1 s2 d(1) by (simp add: sbind_def)
qed

end

section \<open>Scans\<close>

text \<open>A run of linked leaves, as a cursor meets them.\<close>

type_synonym leaf_list = "(u32 \<times> (bytes \<times> cell) list) list"

primrec leaf_run :: "page_map \<Rightarrow> leaf_list \<Rightarrow> u32 \<Rightarrow> u32 \<Rightarrow> bool" where
  "leaf_run V [] nxt no \<longleftrightarrow> no = nxt"
| "leaf_run V (l # ls) nxt no \<longleftrightarrow> no = fst l \<and> (\<exists>p link. V no = Some p \<and> leaf_page p (stored_entries (snd l)) link
     \<and> (\<forall>e \<in> set (snd l). cell_in V (snd e)) \<and> leaf_run V ls nxt link)"

primrec tree_leaves :: "nat \<Rightarrow> bt \<Rightarrow> leaf_list" where
  "tree_leaves 0 t = [(root_no t, leaf_cells t)]"
| "tree_leaves (Suc h) t = concat (map (\<lambda>c. tree_leaves h (snd c)) (kids t))"

definition run_entries :: "leaf_list \<Rightarrow> (bytes \<times> bytes) list" where
  "run_entries ls = concat (map (\<lambda>l. cells_entries (snd l)) ls)"

definition run_pages :: "leaf_list \<Rightarrow> nat" where
  "run_pages ls = sum_list (map (\<lambda>l. Suc (length (cells_pages (snd l)))) ls)"

lemma run_simps [simp]:
  "run_entries [] = []" "run_entries (l # ls) = cells_entries (snd l) @ run_entries ls"
  "run_entries (ls @ ms) = run_entries ls @ run_entries ms"
  "run_pages [] = 0" "run_pages (l # ls) = Suc (length (cells_pages (snd l))) + run_pages ls"
  "run_pages (ls @ ms) = run_pages ls + run_pages ms"
  by (simp_all add: run_entries_def run_pages_def)

lemma leaf_run_append: "leaf_run V (ls @ ms) nxt no \<longleftrightarrow> (\<exists>mid. leaf_run V ls mid no \<and> leaf_run V ms nxt mid)"
  by (induction ls arbitrary: no) auto

lemma tree_leaves_entries: "run_entries (tree_leaves h t) = entries h t"
proof (induction h arbitrary: t)
  case (Suc h)
  have "run_entries (concat (map (\<lambda>c. tree_leaves h (snd c)) cs)) = forest_entries h cs" for cs :: "(bytes \<times> bt) list"
    by (induction cs) (simp_all add: Suc.IH)
  then show ?case by simp
qed simp

lemma tree_leaves_pages: "run_pages (tree_leaves h t) \<le> length (tree_pages h t)"
proof (induction h arbitrary: t)
  case (Suc h)
  have "run_pages (concat (map (\<lambda>c. tree_leaves h (snd c)) cs)) \<le> length (forest_pages h cs)" for cs :: "(bytes \<times> bt) list"
    by (induction cs) (simp_all add: Suc.IH add_mono)
  then show ?case by (simp add: le_SucI)
qed simp

lemma forest_run:
  assumes "forest_ok V h lo hi nxt cs"
    and "\<And>lo hi nxt t. bt_wf V h lo hi nxt t \<Longrightarrow> leaf_run V (tree_leaves h t) nxt (first_leaf h t)"
  shows "leaf_run V (concat (map (\<lambda>c. tree_leaves h (snd c)) cs)) nxt (first_leaf h (snd (hd cs)))"
  using assms(1)
proof (induction cs arbitrary: lo rule: induct_list012)
  case (3 x y zs)
  then have "leaf_run V (tree_leaves h (snd x)) (first_leaf h (snd y)) (first_leaf h (snd x))"
    using assms(2) by auto
  moreover have "leaf_run V (concat (map (\<lambda>c. tree_leaves h (snd c)) (y # zs))) nxt (first_leaf h (snd y))"
    using 3 by auto
  ultimately show ?case by (auto simp: leaf_run_append)
qed (use assms(2) in auto)

lemma wf_run: "bt_wf V h lo hi nxt t \<Longrightarrow> leaf_run V (tree_leaves h t) nxt (first_leaf h t)"
proof (induction h arbitrary: lo hi nxt t)
  case 0
  then show ?case by (auto simp: leaf_ok_def cell_ok_def)
next
  case (Suc h)
  then have "forest_ok V h lo hi nxt (kids t)" by simp
  from forest_run [OF this Suc.IH] show ?case by simp
qed

lemma leaf_page_reads: "leaf_page p es link \<Longrightarrow> is_leaf p \<and> leaf_entries p = Inr es \<and> right_link p = Inr link"
  by (simp add: leaf_page_entries leaf_page_def is_leaf_def)

lemma filter_from:
  fixes es :: "('a::linorder \<times> 'b) list"
  assumes "i \<le> length es" "\<forall>j < i. fst (es ! j) < key" "\<forall>j < length es. i \<le> j \<longrightarrow> key \<le> fst (es ! j)"
  shows "filter (\<lambda>e. key \<le> fst e) es = drop i es"
proof -
  have "fst e < key" if "e \<in> set (take i es)" for e
  proof -
    from that obtain j where "j < i" "e = es ! j" using assms(1) by (auto simp: in_set_conv_nth)
    then show ?thesis using assms(2) by blast
  qed
  then have "filter (\<lambda>e. key \<le> fst e) (take i es) = []" by (simp add: filter_empty_conv not_le)
  moreover have "key \<le> fst e" if "e \<in> set (drop i es)" for e
  proof -
    from that obtain j where "j < length es - i" "e = es ! (i + j)"
      using assms(1) by (auto simp: in_set_conv_nth)
    then show ?thesis using assms(3) [rule_format, of "i + j"] by simp
  qed
  then have "filter (\<lambda>e. key \<le> fst e) (drop i es) = drop i es" by (simp add: filter_id_conv)
  ultimately show ?thesis by (metis append_take_drop_id append_Nil filter_append)
qed

definition slot_of :: "search \<Rightarrow> nat" where
  "slot_of r = (case r of Found i \<Rightarrow> i | Missing i \<Rightarrow> i)"

lemma binary_search_filter:
  assumes "sorted_wrt (<) (map fst es)"
  shows "filter (\<lambda>e. key \<le> fst e) es = drop (slot_of (binary_search (map fst es) key)) es"
proof (cases "binary_search (map fst es) key")
  case (Found i)
  then have i: "i < length es" "fst (es ! i) = key" using binary_search_Found [OF assms Found] by auto
  have "fst (es ! j) < key" if "j < i" for j
    using sorted_wrt_less_nth [OF assms that] i that by auto
  moreover have "key \<le> fst (es ! j)" if "j < length es" "i \<le> j" for j
    using sorted_wrt_less_nth [OF assms, of i j] i that by (cases "i = j") auto
  ultimately show ?thesis using i Found by (intro filter_from) (auto simp: slot_of_def)
next
  case (Missing i)
  then show ?thesis
    using binary_search_Missing [OF assms Missing] by (intro filter_from) (auto simp: slot_of_def intro: less_imp_le)
qed

text \<open>Where a cursor stands: what is left of its leaf, and the leaves to come.\<close>

definition cursor_on :: "page_map \<Rightarrow> (bytes \<times> cell) list \<Rightarrow> leaf_list \<Rightarrow> bt_cursor \<Rightarrow> bool" where
  "cursor_on V es ls c \<longleftrightarrow> drop (cur_slot c) (cells c) = stored_entries es \<and> (\<forall>e \<in> set es. cell_in V (snd e))
     \<and> leaf_run V ls 0 (next_leaf c)"

definition cursor_entries :: "(bytes \<times> cell) list \<Rightarrow> leaf_list \<Rightarrow> (bytes \<times> bytes) list" where
  "cursor_entries es ls = cells_entries es @ run_entries ls"

definition cursor_pages :: "(bytes \<times> cell) list \<Rightarrow> leaf_list \<Rightarrow> nat" where
  "cursor_pages es ls = length (cells_pages es) + run_pages ls"

lemma cursor_on_Cons:
  assumes "cursor_on V (e # es) ls c"
  shows "cur_slot c < length (cells c)" "cells c ! cur_slot c = (fst e, stored_of (snd e))"
    "cursor_on V es ls (c\<lparr>cur_slot := cur_slot c + 1\<rparr>)"
proof -
  have d: "drop (cur_slot c) (cells c) = (fst e, stored_of (snd e)) # stored_entries es"
    using assms by (simp add: cursor_on_def stored_entries_def)
  show lt: "cur_slot c < length (cells c)" using d by (metis drop_eq_Nil leI list.distinct(1))
  show "cells c ! cur_slot c = (fst e, stored_of (snd e))" using d lt by (simp add: Cons_nth_drop_Suc [symmetric])
  show "cursor_on V es ls (c\<lparr>cur_slot := cur_slot c + 1\<rparr>)"
    using assms d [folded Cons_nth_drop_Suc [OF lt]] by (simp add: cursor_on_def)
qed

context page_store
begin

lemma cursor_next_cell:
  assumes "rep s V r" "cursor_on V (e # es) ls c" "cursor_pages (e # es) ls < fuel"
  shows "\<exists>s' c'. cursor_next (Suc n) fuel ops c s
      = (Inr (if below (upper c) (fst e) then (Some (fst e, value_of (snd e)), c\<lparr>cur_slot := cur_slot c + 1\<rparr>)
              else (None, c')), s') \<and> rep s' V r"
proof -
  note k = cursor_on_Cons [OF assms(2)]
  have "cell_in V (snd e)" "length (cell_pages (snd e)) < fuel"
    using assms(2,3) by (auto simp: cursor_on_def cursor_pages_def cells_pages_def)
  then obtain s1 where "unwrap_value fuel ops (stored_of (snd e)) s = (Inr (value_of (snd e)), s1)" "rep s1 V r"
    using unwrap_spec [OF assms(1)] by blast
  then show ?thesis
    using k(1,2) assms(1) by (cases "upper c") (auto simp: sbind_def Let_def not_le)
qed

lemma cursor_next_advance:
  assumes "rep s V r" "cursor_on V [] (l # ls) c"
  shows "\<exists>s' c'. cursor_next (Suc n) fuel ops c s = cursor_next n fuel ops c' s' \<and> rep s' V r
    \<and> cursor_on V (snd l) ls c' \<and> upper c' = upper c"
proof -
  obtain p link where p: "next_leaf c = fst l" "V (fst l) = Some p" "leaf_page p (stored_entries (snd l)) link"
    "\<forall>e \<in> set (snd l). cell_in V (snd e)" "leaf_run V ls 0 link" "\<not> cur_slot c < length (cells c)"
    using assms(2) by (auto simp: cursor_on_def stored_entries_def)
  obtain s1 where s1: "st_read ops (fst l) s = (Inr p, s1)" "rep s1 V r" using read_law [OF assms(1) p(2)] by blast
  have "fst l \<noteq> 0" using page_law [OF assms(1) p(2)] by simp
  then show ?thesis
    using p s1 leaf_page_reads [OF p(3)]
    by (intro exI [of _ s1] exI [of _ "c\<lparr>cells := stored_entries (snd l), cur_slot := 0, next_leaf := link\<rparr>"])
      (simp add: sbind_def cursor_on_def)
qed

lemma cursor_next_spec:
  assumes "rep s V r" "cursor_on V es ls c" "length ls < steps" "cursor_pages es ls < fuel"
  shows "\<exists>s' c' es' ls'. cursor_next steps fuel ops c s
      = (Inr (case cursor_entries es ls of
           [] \<Rightarrow> (None, c')
         | e # _ \<Rightarrow> if below (upper c) (fst e) then (Some e, c') else (None, c')), s') \<and> rep s' V r
    \<and> (cursor_entries es ls \<noteq> [] \<longrightarrow> below (upper c) (fst (hd (cursor_entries es ls))) \<longrightarrow>
         cursor_on V es' ls' c' \<and> cursor_entries es' ls' = tl (cursor_entries es ls) \<and> upper c' = upper c
         \<and> length ls' \<le> length ls \<and> cursor_pages es' ls' \<le> cursor_pages es ls)"
  using assms
proof (induction ls arbitrary: es c s steps)
  case Nil
  obtain n where n: "steps = Suc n" using Nil.prems(3) by (cases steps) auto
  show ?case
  proof (cases es)
    case Nil
    then have "\<not> cur_slot c < length (cells c)" "next_leaf c = 0"
      using \<open>cursor_on V es [] c\<close> by (auto simp: cursor_on_def stored_entries_def)
    then show ?thesis using n Nil \<open>rep s V r\<close> by (simp add: cursor_entries_def cells_entries_def)
  next
    case (Cons e es')
    show ?thesis
      using cursor_next_cell [OF Nil.prems(1) Nil.prems(2) [unfolded Cons] Nil.prems(4) [unfolded Cons], of n]
        cursor_on_Cons(3) [OF Nil.prems(2) [unfolded Cons]] n
      by (fastforce simp: Cons cursor_entries_def cells_entries_def cursor_pages_def cells_pages_def)
  qed
next
  case (Cons l ls)
  obtain n where n: "steps = Suc n" "length ls < n" using Cons.prems(3) by (cases steps) auto
  show ?case
  proof (cases es)
    case Nil
    obtain s1 c1 where 1: "cursor_next (Suc n) fuel ops c s = cursor_next n fuel ops c1 s1" "rep s1 V r"
      "cursor_on V (snd l) ls c1" "upper c1 = upper c"
      using cursor_next_advance [OF Cons.prems(1) Cons.prems(2) [unfolded Nil], of n fuel] by blast
    have e: "cursor_entries (snd l) ls = cursor_entries es (l # ls)" "cursor_pages (snd l) ls < cursor_pages es (l # ls)"
      by (simp_all add: Nil cursor_entries_def cells_entries_def cursor_pages_def)
    have "cursor_pages (snd l) ls < fuel" using e(2) Cons.prems(4) by simp
    from Cons.IH [OF 1(2,3) n(2) this, unfolded e(1) 1(4)] obtain s' c' es' ls' where
      r: "cursor_next n fuel ops c1 s1 = (Inr (case cursor_entries es (l # ls) of [] \<Rightarrow> (None, c')
           | e # _ \<Rightarrow> if below (upper c) (fst e) then (Some e, c') else (None, c')), s')" "rep s' V r"
        "cursor_entries es (l # ls) \<noteq> [] \<longrightarrow> below (upper c) (fst (hd (cursor_entries es (l # ls)))) \<longrightarrow>
         cursor_on V es' ls' c' \<and> cursor_entries es' ls' = tl (cursor_entries es (l # ls)) \<and> upper c' = upper c
         \<and> length ls' \<le> length ls \<and> cursor_pages es' ls' \<le> cursor_pages (snd l) ls" by blast
    show ?thesis
      unfolding n(1) 1(1) using r e(2)
      by (intro exI [of _ s'] exI [of _ c'] exI [of _ es'] exI [of _ ls']) auto
  next
    case c: (Cons e es')
    show ?thesis
      using cursor_next_cell [OF Cons.prems(1) Cons.prems(2) [unfolded c] Cons.prems(4) [unfolded c], of n]
        cursor_on_Cons(3) [OF Cons.prems(2) [unfolded c]] n
      by (fastforce simp: c cursor_entries_def cells_entries_def cursor_pages_def cells_pages_def)
  qed
qed

lemma collect_spec:
  assumes "rep s V r" "cursor_on V es ls c" "length ls < fuel" "cursor_pages es ls < fuel"
    and "length (cursor_entries es ls) < n"
  shows "\<exists>s'. collect n fuel ops c s = (Inr (takeWhile (\<lambda>e. below (upper c) (fst e)) (cursor_entries es ls)), s')
    \<and> rep s' V r"
  using assms
proof (induction n arbitrary: s es ls c)
  case (Suc n)
  obtain s' c' es' ls' where
    r: "cursor_next fuel fuel ops c s = (Inr (case cursor_entries es ls of [] \<Rightarrow> (None, c')
           | e # _ \<Rightarrow> if below (upper c) (fst e) then (Some e, c') else (None, c')), s')" "rep s' V r"
      "cursor_entries es ls \<noteq> [] \<longrightarrow> below (upper c) (fst (hd (cursor_entries es ls))) \<longrightarrow>
         cursor_on V es' ls' c' \<and> cursor_entries es' ls' = tl (cursor_entries es ls) \<and> upper c' = upper c
         \<and> length ls' \<le> length ls \<and> cursor_pages es' ls' \<le> cursor_pages es ls"
    using cursor_next_spec [OF Suc.prems(1-4)] by blast
  show ?case
  proof (cases "cursor_entries es ls")
    case Nil
    with r show ?thesis by (simp add: sbind_def)
  next
    case (Cons e rest)
    show ?thesis
    proof (cases "below (upper c) (fst e)")
      case True
      with r(3) Cons have c': "cursor_on V es' ls' c'" "cursor_entries es' ls' = rest" "upper c' = upper c"
        "length ls' < fuel" "cursor_pages es' ls' < fuel" "length (cursor_entries es' ls') < n"
        using Suc.prems(3-5) by auto
      from Suc.IH [OF r(2) c'(1,4,5,6)] c'(2,3) r(1) Cons True show ?thesis by (auto simp: sbind_def)
    qed (use r Cons in \<open>simp add: sbind_def\<close>)
  qed
qed simp

lemma cursor_from_spec:
  assumes "rep s V r" "bt_wf V h lo hi nxt t" "h < depth"
  shows "\<exists>s' c es ls. cursor_from depth ops start stop (root_no t) s = (Inr c, s') \<and> rep s' V r \<and> upper c = stop
    \<and> drop (cur_slot c) (cells c) = stored_entries es \<and> (\<forall>e \<in> set es. cell_in V (snd e)) \<and> leaf_run V ls nxt (next_leaf c)
    \<and> cells_entries es @ run_entries ls = filter (\<lambda>e. above start (fst e)) (entries h t)
    \<and> length (cells_pages es) + run_pages ls \<le> length (tree_pages h t)"
  using assms
proof (induction h arbitrary: depth s lo hi nxt t)
  case 0
  obtain d where d: "depth = Suc d" using "0.prems"(3) by (cases depth) auto
  define key where "key = the start"
  obtain no es p where t: "t = BLeaf no es nxt" "V no = Some p" "is_leaf p" "leaf_page p (stored_entries es) nxt"
    "sorted_wrt (<) (map fst es)" "find_leaf_slot p key = Inr (binary_search (map fst es) key)"
    "leaf_entries p = Inr (stored_entries es)" "right_link p = Inr nxt"
    by (rule leaf_step [OF "0.prems"(2)])
  obtain s1 where s1: "st_read ops no s = (Inr p, s1)" "rep s1 V r" using read_law [OF "0.prems"(1) t(2)] by blast
  define i where "i = (if start = None then 0 else slot_of (binary_search (map fst es) key))"
  define c where "c = \<lparr>cells = stored_entries es, cur_slot = i, next_leaf = nxt, upper = stop\<rparr>"
  have "cursor_from depth ops start stop (root_no t) s = (Inr c, s1)"
    using t s1 d by (cases start) (simp_all add: sbind_def c_def i_def key_def slot_of_def)
  moreover have "drop i (cells_entries es) = filter (\<lambda>e. above start (fst e)) (cells_entries es)"
  proof (cases start)
    case (Some k)
    have m: "map fst (cells_entries es) = map fst es" by (simp add: cells_entries_def comp_def)
    show ?thesis
      using binary_search_filter [of "cells_entries es" key] t(5) Some unfolding m by (simp add: i_def key_def)
  qed (simp add: i_def)
  moreover have "\<forall>e \<in> set (drop i es). cell_in V (snd e)"
    using "0.prems"(2) t(1) by (auto simp: leaf_ok_def cell_ok_def dest: in_set_dropD)
  moreover have "length (cells_pages (drop i es)) \<le> length (cells_pages es)"
    by (metis (no_types, lifting) append_take_drop_id cells_pages_def concat_append le_add2 length_append map_append)
  ultimately show ?case
    using s1(2) t(1)
    by (intro exI [of _ s1] exI [of _ c] exI [of _ "drop i es"] exI [of _ "[]"])
      (simp add: c_def stored_entries_def cells_entries_def drop_map le_SucI)
next
  case (Suc h)
  obtain d where d: "depth = Suc d" "h < d" using Suc.prems(3) by (cases depth) auto
  obtain no pre c post p where t: "t = BNode no (pre @ c # post)" "V no = Some p" "\<not> is_leaf p"
    "forest_ok V h lo hi nxt (pre @ c # post)"
    "(case start of Some key \<Rightarrow> follow_child p key | None \<Rightarrow> internal_child p 0) = Inr (root_no (snd c))"
    "\<forall>e \<in> set (forest_entries h pre). \<not> above start (fst e)" "\<forall>e \<in> set (forest_entries h post). above start (fst e)"
  proof (cases start)
    case None
    obtain no cs p where n: "t = BNode no cs" "V no = Some p" "internal_page p (child_cells cs)" "forest_ok V h lo hi nxt cs"
      using Suc.prems(2) by (auto simp: node_ok_def)
    obtain c post where cs: "cs = [] @ c # post" using chain_ok_nonempty [OF n(4)] by (cases cs) auto
    have "internal_child p 0 = Inr (root_no (snd c))" using internal_child_at [OF n(3), of 0] by (simp add: cs)
    moreover have "\<not> is_leaf p" using n(3) by (simp add: internal_page_def is_leaf_def page_consts)
    ultimately show ?thesis using n cs None by (intro that [of no "[]" c post p]) auto
  next
    case (Some key)
    obtain no pre c post p where n: "t = BNode no (pre @ c # post)" "V no = Some p" "\<not> is_leaf p" "is_internal p"
      "internal_page p (child_cells (pre @ c # post))"
      "find_child p key = Inr (length pre)" "follow_child p key = Inr (root_no (snd c))"
      "forest_ok V h lo hi nxt (pre @ c # post)"
      "pre \<noteq> [] \<longrightarrow> fst c \<le> key" "post \<noteq> [] \<longrightarrow> key < fst (hd post)"
      by (rule node_step [OF Suc.prems(2)])
    have "\<forall>e \<in> set (forest_entries h pre). \<not> above start (fst e)" "\<forall>e \<in> set (forest_entries h post). above start (fst e)"
      using forest_lookup [OF n(8-10)] by (fastforce simp: Some not_le)+
    then show ?thesis using n Some by (intro that [of no pre c post p]) auto
  qed
  obtain s1 where s1: "st_read ops no s = (Inr p, s1)" "rep s1 V r" using read_law [OF Suc.prems(1) t(2)] by blast
  define nxt' where "nxt' = (if post = [] then nxt else first_leaf h (snd (hd post)))"
  obtain lo' hi' where c: "bt_wf V h lo' hi' nxt' (snd c)"
    using t(4) unfolding chain_ok_focus nxt'_def by blast
  obtain s2 cu es ls where s2: "cursor_from d ops start stop (root_no (snd c)) s1 = (Inr cu, s2)" "rep s2 V r" "upper cu = stop"
    "drop (cur_slot cu) (cells cu) = stored_entries es" "\<forall>e \<in> set es. cell_in V (snd e)" "leaf_run V ls nxt' (next_leaf cu)"
    "cells_entries es @ run_entries ls = filter (\<lambda>e. above start (fst e)) (entries h (snd c))"
    "length (cells_pages es) + run_pages ls \<le> length (tree_pages h (snd c))"
    using Suc.IH [OF s1(2) c d(2)] by blast
  define post_leaves where "post_leaves = concat (map (\<lambda>c. tree_leaves h (snd c)) post)"
  have "leaf_run V post_leaves nxt nxt'"
    using t(4) forest_run [OF _ wf_run, of h V "Some (fst (hd post))" hi nxt post]
    unfolding chain_ok_focus nxt'_def post_leaves_def by (cases "post = []") auto
  then have "leaf_run V (ls @ post_leaves) nxt (next_leaf cu)" using s2(6) by (auto simp: leaf_run_append)
  moreover have "run_entries post_leaves = forest_entries h post"
    unfolding post_leaves_def by (induction post) (simp_all add: tree_leaves_entries)
  moreover have "filter (\<lambda>e. above start (fst e)) (forest_entries h pre) = []"
      "filter (\<lambda>e. above start (fst e)) (forest_entries h post) = forest_entries h post"
    using t(6,7) by (auto simp: filter_empty_conv filter_id_conv)
  moreover have "run_pages post_leaves \<le> length (forest_pages h post)"
    unfolding post_leaves_def by (induction post) (simp_all add: tree_leaves_pages add_mono)
  ultimately show ?case
    using s1 s2 t d(1)
    by (intro exI [of _ s2] exI [of _ cu] exI [of _ es] exI [of _ "ls @ post_leaves"]) (simp add: sbind_def)
qed

lemma takeWhile_below:
  fixes xs :: "(bytes \<times> bytes) list"
  assumes "sorted_wrt (<) (map fst xs)"
  shows "takeWhile (\<lambda>e. below stop (fst e)) xs = filter (\<lambda>e. below stop (fst e)) xs"
  using assms
proof (induction xs)
  case (Cons x xs)
  have "\<not> below stop (fst e)" if "\<not> below stop (fst x)" "e \<in> set xs" for e
    using that Cons.prems below_trans [of stop "fst e" "fst x"] by (fastforce simp: less_imp_le)
  then show ?case using Cons by (auto simp: filter_empty_conv)
qed simp

text \<open>A cursor opens on the entries from the start key on, and will stop at the end key.\<close>

lemma cursor_opens:
  assumes "rep s V r" "bt_wf V h None None 0 t" "length (tree_pages h t) + length (entries h t) < fuel" "h < fuel"
  shows "\<exists>s' c es ls. cursor_at fuel ops (root_no t) start stop s = (Inr c, s') \<and> rep s' V r \<and> upper c = stop
    \<and> cursor_on V es ls c \<and> length ls < fuel \<and> cursor_pages es ls < fuel \<and> length (cursor_entries es ls) < fuel
    \<and> takeWhile (\<lambda>e. below stop (fst e)) (cursor_entries es ls)
      = filter (\<lambda>e. above start (fst e) \<and> below stop (fst e)) (entries h t)"
proof -
  obtain s1 c es ls where c: "cursor_from fuel ops start stop (root_no t) s = (Inr c, s1)" "rep s1 V r" "upper c = stop"
    "drop (cur_slot c) (cells c) = stored_entries es" "\<forall>e \<in> set es. cell_in V (snd e)" "leaf_run V ls 0 (next_leaf c)"
    "cells_entries es @ run_entries ls = filter (\<lambda>e. above start (fst e)) (entries h t)"
    "length (cells_pages es) + run_pages ls \<le> length (tree_pages h t)"
    using cursor_from_spec [OF assms(1,2,4)] by blast
  have "length ls \<le> run_pages ls" by (induction ls) auto
  then have ls: "length ls < fuel" "cursor_pages es ls < fuel" using c(8) assms(3) by (auto simp: cursor_pages_def)
  have ce: "cursor_entries es ls = filter (\<lambda>e. above start (fst e)) (entries h t)"
    using c(7) by (simp add: cursor_entries_def)
  then have n: "length (cursor_entries es ls) < fuel" using assms(3) by (simp add: le_less_trans [OF length_filter_le])
  have "sorted_wrt (<) (map fst (filter (\<lambda>e. above start (fst e)) (entries h t)))"
    using wf_sorted [OF assms(2)] by (induction "entries h t") (auto simp: sorted_wrt_map sorted_wrt_filter)
  from takeWhile_below [OF this, of stop] show ?thesis using c ls n
    by (intro exI [of _ s1] exI [of _ c] exI [of _ es] exI [of _ ls])
      (simp add: cursor_at_def cursor_on_def ce filter_filter conj_commute)
qed

lemma scan_spec:
  assumes "rep s V r" "bt_wf V h None None 0 t" "length (tree_pages h t) + length (entries h t) < fuel" "h < fuel"
  shows "\<exists>s'. sbind (cursor_at fuel ops (root_no t) start stop) (collect fuel fuel ops) s
      = (Inr (filter (\<lambda>e. above start (fst e) \<and> below stop (fst e)) (entries h t)), s') \<and> rep s' V r"
  using cursor_opens [OF assms, of start stop] collect_spec by (fastforce simp: sbind_def)

end

end
