(* ===== verification/Btree_Update.thy ===== *)
theory Btree_Update
  imports Btree_Spec
begin

text \<open>
  Insertion and deletion in the B+tree: the pages after the operation hold a tree of the same form
  whose entries are the old ones with the key set or removed, the root keeps its page number, pages
  of others are untouched and no page is leaked.
\<close>

section \<open>Frames\<close>

definition same_on :: "page_map \<Rightarrow> page_map \<Rightarrow> u32 set \<Rightarrow> bool" where
  "same_on V' V S \<longleftrightarrow> (\<forall>no \<in> S. V' no = V no)"

lemma same_on_simps [simp]:
  "same_on V' V {}" "same_on V' V (insert no S) \<longleftrightarrow> V' no = V no \<and> same_on V' V S"
  "same_on V' V (S \<union> T) \<longleftrightarrow> same_on V' V S \<and> same_on V' V T"
  "same_on V' V (\<Union>x\<in>A. F x) \<longleftrightarrow> (\<forall>x \<in> A. same_on V' V (F x))"
  by (auto simp: same_on_def)

lemma same_on_subset: "same_on V' V T \<Longrightarrow> S \<subseteq> T \<Longrightarrow> same_on V' V S"
  by (auto simp: same_on_def)

lemma cell_in_cong: "same_on V' V (set (cell_pages c)) \<Longrightarrow> cell_in V' c = cell_in V c"
  by (cases c) (auto simp: same_on_def intro: chain_in_cong chain_in_cong [THEN iffD1] chain_in_cong [THEN iffD2])

lemma set_cells_pages: "set (cells_pages es) = (\<Union>e\<in>set es. set (cell_pages (snd e)))"
  by (simp add: cells_pages_def)

lemma cell_ok_cong: "same_on V' V (set (cell_pages (snd e))) \<Longrightarrow> cell_ok V' lo hi e = cell_ok V lo hi e"
  by (simp add: cell_ok_def cell_in_cong)

lemma leaf_ok_cong:
  assumes "leaf_ok V lo hi nxt t" "same_on V' V (set (tree_pages 0 t))"
  shows "leaf_ok V' lo hi nxt t"
proof -
  obtain no es p where t: "t = BLeaf no es nxt" "V no = Some p" "\<forall>e \<in> set es. cell_ok V lo hi e"
    and rest: "leaf_page p (stored_entries es) nxt" "sum_list (leaf_sizes (stored_entries es)) \<le> USABLE"
      "sorted_wrt (<) (map fst es)"
    using assms(1) unfolding leaf_ok_def by blast
  have "\<forall>e \<in> set es. cell_ok V' lo hi e"
  proof
    fix e assume e: "e \<in> set es"
    then have "same_on V' V (set (cell_pages (snd e)))" using assms(2) by (simp add: t(1) set_cells_pages)
    from cell_ok_cong [OF this] t(3) e show "cell_ok V' lo hi e" by blast
  qed
  then show ?thesis using t rest assms(2) unfolding leaf_ok_def by (intro exI [of _ no] exI [of _ es] exI [of _ p]) simp
qed

lemma node_ok_cong: "node_ok V lo t \<Longrightarrow> V' (root_no t) = V (root_no t) \<Longrightarrow> node_ok V' lo t"
  by (auto simp: node_ok_def)

lemma wf_cong: "bt_wf V h lo hi nxt t \<Longrightarrow> same_on V' V (set (tree_pages h t)) \<Longrightarrow> bt_wf V' h lo hi nxt t"
proof (induction h arbitrary: lo hi nxt t)
  case 0
  then show ?case using leaf_ok_cong [of V lo hi nxt t V'] by simp
next
  case (Suc h)
  have "forest_ok V' h lo hi nxt (kids t)"
  proof (rule chain_ok_mono)
    show "forest_ok V h lo hi nxt (kids t)" using Suc.prems(1) by simp
    show "bt_wf V' h lo hi nxt (snd c)" if "c \<in> set (kids t)" "bt_wf V h lo hi nxt (snd c)" for lo hi nxt c
      using Suc.IH [OF that(2)] Suc.prems(2) that(1) by simp
  qed
  moreover have "node_ok V' lo t" by (rule node_ok_cong) (use Suc.prems in simp_all)
  ultimately show ?case by simp
qed

lemma forest_cong:
  assumes "forest_ok V h lo hi nxt cs" "same_on V' V (set (forest_pages h cs))"
  shows "forest_ok V' h lo hi nxt cs"
proof (rule chain_ok_mono [OF assms(1)])
  show "bt_wf V' h lo hi nxt (snd c)" if "c \<in> set cs" "bt_wf V h lo hi nxt (snd c)" for lo hi nxt c
    using wf_cong [OF that(2)] assms(2) that(1) by simp
qed

lemma chain_in_live: "chain_in V ps v \<Longrightarrow> no \<in> set ps \<Longrightarrow> V no \<noteq> None"
  by (induction ps arbitrary: v) auto

lemma cell_in_live: "cell_in V c \<Longrightarrow> no \<in> set (cell_pages c) \<Longrightarrow> V no \<noteq> None"
  using chain_in_live by (cases c) auto

lemma wf_live: "bt_wf V h lo hi nxt t \<Longrightarrow> no \<in> set (tree_pages h t) \<Longrightarrow> V no \<noteq> None"
proof (induction h arbitrary: lo hi nxt t)
  case 0
  then obtain rno es p where "t = BLeaf rno es nxt" "V rno = Some p" "\<forall>e \<in> set es. cell_in V (snd e)"
    by (auto simp: leaf_ok_def cell_ok_def)
  with "0.prems"(2) show ?case using cell_in_live [of V _ no] by (auto simp: set_cells_pages)
next
  case (Suc h)
  have "V (root_no t) \<noteq> None" using Suc.prems(1) by (auto simp: node_ok_def)
  moreover have "V no \<noteq> None" if "c \<in> set (kids t)" "no \<in> set (tree_pages h (snd c))" for c
  proof -
    have "forest_ok V h lo hi nxt (kids t)" using Suc.prems(1) by simp
    from chain_ok_member [OF this that(1)] Suc.IH that(2) show ?thesis by blast
  qed
  ultimately show ?case using Suc.prems(2) by auto
qed

lemma forest_live:
  assumes "forest_ok V h lo hi nxt cs" "no \<in> set (forest_pages h cs)"
  shows "V no \<noteq> None"
proof -
  obtain c where c: "c \<in> set cs" "no \<in> set (tree_pages h (snd c))" using assms(2) by auto
  from chain_ok_member [OF assms(1) c(1)] wf_live c(2) show ?thesis by blast
qed

section \<open>The leaf of a key\<close>

text \<open>
  The leaf on the path of a key, and what a change to that leaf alone makes of the tree.
\<close>

definition replaceable :: "page_map \<Rightarrow> nat \<Rightarrow> bytes option \<Rightarrow> bytes option \<Rightarrow> u32 \<Rightarrow> bt \<Rightarrow> u32 \<Rightarrow> u32 \<Rightarrow> bytes option \<Rightarrow>
    bytes option \<Rightarrow> u32 list \<Rightarrow> u32 list \<Rightarrow> (bytes \<times> bytes) list \<Rightarrow> (bytes \<times> bytes) list \<Rightarrow> bool" where
  "replaceable V h lo hi nxt t no link lo' hi' P Q A B \<longleftrightarrow>
     (\<forall>V' es'. bt_wf V' 0 lo' hi' link (BLeaf no es' link) \<longrightarrow> same_on V' V (set P \<union> set Q) \<longrightarrow>
        (\<exists>t'. bt_wf V' h lo hi nxt t' \<and> root_no t' = root_no t \<and> first_leaf h t' = first_leaf h t
           \<and> tree_pages h t' = P @ (no # cells_pages es') @ Q \<and> entries h t' = A @ cells_entries es' @ B))"

definition leaf_focus :: "page_map \<Rightarrow> nat \<Rightarrow> bytes option \<Rightarrow> bytes option \<Rightarrow> u32 \<Rightarrow> bt \<Rightarrow> bytes \<Rightarrow>
    u32 \<Rightarrow> (bytes \<times> cell) list \<Rightarrow> u32 \<Rightarrow> bytes option \<Rightarrow> bytes option \<Rightarrow> bool" where
  "leaf_focus V h lo hi nxt t key no es link lo' hi' \<longleftrightarrow> bt_wf V 0 lo' hi' link (BLeaf no es link)
     \<and> above lo' key \<and> below hi' key
     \<and> (\<exists>P Q A B. tree_pages h t = P @ (no # cells_pages es) @ Q \<and> entries h t = A @ cells_entries es @ B
         \<and> (\<forall>e \<in> set A. fst e < key) \<and> (\<forall>e \<in> set B. key < fst e)
         \<and> replaceable V h lo hi nxt t no link lo' hi' P Q A B)"

lemma replaceableD:
  "replaceable V h lo hi nxt t no link lo' hi' P Q A B \<Longrightarrow> bt_wf V' 0 lo' hi' link (BLeaf no es' link) \<Longrightarrow>
   same_on V' V (set P \<union> set Q) \<Longrightarrow> \<exists>t'. bt_wf V' h lo hi nxt t' \<and> root_no t' = root_no t \<and> first_leaf h t' = first_leaf h t
     \<and> tree_pages h t' = P @ (no # cells_pages es') @ Q \<and> entries h t' = A @ cells_entries es' @ B"
  unfolding replaceable_def by blast

lemma first_leaf_hd: "first_leaf (Suc h) (BNode no (pre @ c # post)) = (if pre = [] then first_leaf h (snd c) else first_leaf h (snd (hd pre)))"
  by (cases pre) auto

lemma leaf_focus_up:
  assumes f: "leaf_focus V h (if pre = [] then lo else Some (fst c)) (if post = [] then hi else Some (fst (hd post)))
      (if post = [] then nxt else first_leaf h (snd (hd post))) (snd c) key no es link lo' hi'"
    and t: "t = BNode rno (pre @ c # post)" "node_ok V lo t" "forest_ok V h lo hi nxt (pre @ c # post)"
    and side: "pre \<noteq> [] \<longrightarrow> fst c \<le> key" "post \<noteq> [] \<longrightarrow> key < fst (hd post)"
  shows "leaf_focus V (Suc h) lo hi nxt t key no es link lo' hi'"
proof -
  obtain P Q A B where d: "tree_pages h (snd c) = P @ (no # cells_pages es) @ Q" "entries h (snd c) = A @ cells_entries es @ B"
    "\<forall>e \<in> set A. fst e < key" "\<forall>e \<in> set B. key < fst e"
    and repl: "replaceable V h (if pre = [] then lo else Some (fst c)) (if post = [] then hi else Some (fst (hd post)))
          (if post = [] then nxt else first_leaf h (snd (hd post))) (snd c) no link lo' hi' P Q A B"
    using f unfolding leaf_focus_def by blast
  let ?P = "rno # forest_pages h pre @ P" and ?Q = "Q @ forest_pages h post"
  let ?A = "forest_entries h pre @ A" and ?B = "B @ forest_entries h post"
  have pages: "tree_pages (Suc h) t = ?P @ (no # cells_pages es) @ ?Q" "entries (Suc h) t = ?A @ cells_entries es @ ?B"
    by (simp_all add: t(1) d)
  have keys: "\<forall>e \<in> set ?A. fst e < key" "\<forall>e \<in> set ?B. key < fst e"
    unfolding set_append using d(3,4) forest_lookup [OF t(3) side] by blast+
  have "\<exists>t'. bt_wf V' (Suc h) lo hi nxt t' \<and> root_no t' = root_no t \<and> first_leaf (Suc h) t' = first_leaf (Suc h) t
      \<and> tree_pages (Suc h) t' = ?P @ (no # cells_pages es') @ ?Q \<and> entries (Suc h) t' = ?A @ cells_entries es' @ ?B"
    if w: "bt_wf V' 0 lo' hi' link (BLeaf no es' link)" and same: "same_on V' V (set ?P \<union> set ?Q)" for V' es'
  proof -
    have "same_on V' V (set P \<union> set Q)" using same by simp
    then obtain t' where t': "bt_wf V' h (if pre = [] then lo else Some (fst c)) (if post = [] then hi else Some (fst (hd post)))
          (if post = [] then nxt else first_leaf h (snd (hd post))) t'"
        "root_no t' = root_no (snd c)" "first_leaf h t' = first_leaf h (snd c)"
        "tree_pages h t' = P @ (no # cells_pages es') @ Q" "entries h t' = A @ cells_entries es' @ B"
      using replaceableD [OF repl w] by blast
    let ?c = "(fst c, t')" and ?t = "BNode rno (pre @ (fst c, t') # post)"
    have "forest_ok V' h lo hi nxt (pre @ ?c # post)"
      using t(3) t'(1,3) same forest_cong [of h V lo "Some (fst c)" "first_leaf h (snd c)" pre V']
        forest_cong [of h V "Some (fst (hd post))" hi nxt post V']
      unfolding chain_ok_focus by auto
    moreover have "node_ok V' lo ?t"
      using t(2) same by (auto simp: t(1) node_ok_def child_cells_def t'(2) hd_append)
    ultimately have "bt_wf V' (Suc h) lo hi nxt ?t" by simp
    moreover have "first_leaf (Suc h) ?t = first_leaf (Suc h) t" using t'(3) by (simp only: t(1) first_leaf_hd snd_conv)
    ultimately show ?thesis using t' by (intro exI [of _ ?t]) (simp add: t(1))
  qed
  then have "replaceable V (Suc h) lo hi nxt t no link lo' hi' ?P ?Q ?A ?B" unfolding replaceable_def by blast
  then show ?thesis
    unfolding leaf_focus_def using f pages keys unfolding leaf_focus_def by blast
qed


section \<open>Setting one key\<close>

text \<open>
  An update of the entries at a key, and the pages an operation moves between: it takes over the
  pages \<open>S\<close>, leaves the pages \<open>S'\<close>, frees the difference and touches nothing else.
\<close>

definition set_key :: "bytes \<Rightarrow> 'a \<Rightarrow> (bytes \<times> 'a) list \<Rightarrow> (bytes \<times> 'a) list" where
  "set_key key v xs = filter (\<lambda>e. fst e < key) xs @ (key, v) # filter (\<lambda>e. key < fst e) xs"

definition drop_key :: "bytes \<Rightarrow> (bytes \<times> 'a) list \<Rightarrow> (bytes \<times> 'a) list" where
  "drop_key key xs = filter (\<lambda>e. fst e < key) xs @ filter (\<lambda>e. key < fst e) xs"

definition at_key :: "bytes \<Rightarrow> (bytes \<times> 'a) list \<Rightarrow> (bytes \<times> 'a) list" where
  "at_key key xs = filter (\<lambda>e. fst e = key) xs"

definition moves :: "page_map \<Rightarrow> page_map \<Rightarrow> u32 set \<Rightarrow> u32 set \<Rightarrow> bool" where
  "moves V V' S S' \<longleftrightarrow> (\<forall>no. no \<notin> S \<union> S' \<longrightarrow> V' no = V no) \<and> (\<forall>no \<in> S - S'. V' no = None)
     \<and> (\<forall>no \<in> S' - S. V no = None)"

lemma moves_refl: "moves V V S S"
  by (simp add: moves_def)

lemma moves_other:
  assumes "moves V V' S S'" "R \<inter> S = {}" "\<And>no. no \<in> R \<Longrightarrow> V no \<noteq> None"
  shows "R \<inter> S' = {}" "same_on V' V R"
proof -
  show d: "R \<inter> S' = {}" using assms unfolding moves_def by blast
  show "same_on V' V R" using assms(1,2) d unfolding moves_def same_on_def by blast
qed

lemma filter_none: "(\<And>e. e \<in> set xs \<Longrightarrow> \<not> P e) \<Longrightarrow> filter P xs = []"
  by (simp add: filter_empty_conv)

lemma filter_all: "(\<And>e. e \<in> set xs \<Longrightarrow> P e) \<Longrightarrow> filter P xs = xs"
  by (simp add: filter_id_conv)

lemma key_split_middle:
  assumes "\<forall>e \<in> set A. fst e < key" "\<forall>e \<in> set B. key < fst e"
  shows "set_key key v (A @ xs @ B) = A @ set_key key v xs @ B" "drop_key key (A @ xs @ B) = A @ drop_key key xs @ B"
    "at_key key (A @ xs @ B) = at_key key xs"
proof -
  have "filter (\<lambda>e. fst e < key) A = A" "filter (\<lambda>e. key < fst e) B = B"
    using assms by (auto simp: filter_id_conv)
  moreover have "filter (\<lambda>e. key < fst e) A = []" "filter (\<lambda>e. fst e < key) B = []"
    "filter (\<lambda>e. fst e = key) A = []" "filter (\<lambda>e. fst e = key) B = []"
    using assms by (auto simp: filter_empty_conv)
  ultimately show "set_key key v (A @ xs @ B) = A @ set_key key v xs @ B" "drop_key key (A @ xs @ B) = A @ drop_key key xs @ B"
    "at_key key (A @ xs @ B) = at_key key xs"
    by (simp_all add: set_key_def drop_key_def at_key_def)
qed

lemma map_of_filter_bound:
  "map_of (filter (\<lambda>e. fst e < c) xs) k = (if k < c then map_of xs k else None)"
  "map_of (filter (\<lambda>e. c < fst e) xs) k = (if c < k then map_of xs k else None)"
  by (induction xs) auto

lemma map_of_set_key: "map_of (set_key key v xs) = (map_of xs)(key \<mapsto> v)"
proof
  show "map_of (set_key key v xs) k = ((map_of xs)(key \<mapsto> v)) k" for k
    by (cases key k rule: linorder_cases)
      (simp_all add: set_key_def map_add_def map_of_filter_bound less_not_sym less_imp_neq split: option.splits)
qed

lemma map_of_drop_key: "map_of (drop_key key xs) = (map_of xs)(key := None)"
proof
  show "map_of (drop_key key xs) k = ((map_of xs)(key := None)) k" for k
    by (cases key k rule: linorder_cases)
      (simp_all add: drop_key_def map_add_def map_of_filter_bound less_not_sym less_imp_neq split: option.splits)
qed

lemma sorted_set_key:
  assumes "sorted_wrt (<) (map fst xs)"
  shows "sorted_wrt (<) (map fst (set_key key v xs))" "sorted_wrt (<) (map fst (drop_key key xs))"
  using assms
  by (auto simp: set_key_def drop_key_def sorted_wrt_append sorted_wrt_map sorted_wrt_filter)

text \<open>What the searches of the code find in a sorted list.\<close>

lemma take_all: "(\<And>j. j < i \<Longrightarrow> j < length xs \<Longrightarrow> P (xs ! j)) \<Longrightarrow> \<forall>x \<in> set (take i xs). P x"
  by (metis in_set_conv_nth length_take min_less_iff_conj nth_take)

lemma drop_all: "(\<And>j. i \<le> j \<Longrightarrow> j < length xs \<Longrightarrow> P (xs ! j)) \<Longrightarrow> \<forall>x \<in> set (drop i xs). P x"
proof
  fix x assume all: "\<And>j. i \<le> j \<Longrightarrow> j < length xs \<Longrightarrow> P (xs ! j)" and "x \<in> set (drop i xs)"
  then obtain j where "j < length xs - i" "x = drop i xs ! j" by (metis in_set_conv_nth length_drop)
  then show "P x" using all [of "i + j"] by simp
qed

lemma filter_less_take:
  fixes es :: "('a::linorder \<times> 'b) list"
  assumes "i \<le> length es" "\<forall>j < i. fst (es ! j) < key" "\<forall>j < length es. i \<le> j \<longrightarrow> key \<le> fst (es ! j)"
  shows "filter (\<lambda>e. fst e < key) es = take i es"
proof -
  have d: "filter (\<lambda>e. key \<le> fst e) es = drop i es" by (rule filter_from [OF assms])
  have "filter (\<lambda>e. fst e < key) (drop i es) = []"
    unfolding d [symmetric] by (auto simp: filter_empty_conv)
  moreover have "filter (\<lambda>e. fst e < key) (take i es) = take i es"
    unfolding filter_id_conv by (rule take_all) (use assms(2) in blast)
  ultimately show ?thesis by (metis append_take_drop_id append_Nil2 filter_append)
qed

lemma found_split:
  assumes "sorted_wrt (<) (map fst es)" "binary_search (map fst es) key = Found i"
  shows "i < length es" "fst (es ! i) = key" "filter (\<lambda>e. fst e < key) es = take i es"
    "filter (\<lambda>e. key < fst e) es = drop (Suc i) es" "at_key key es = [es ! i]"
proof -
  show i: "i < length es" "fst (es ! i) = key" using binary_search_Found [OF assms] by auto
  have lt: "fst (es ! j) < key" if "j < i" for j
    using sorted_wrt_less_nth [OF assms(1) that] i that by auto
  have gt: "key < fst (es ! j)" if "j < length es" "i < j" for j
    using sorted_wrt_less_nth [OF assms(1), of i j] i that by simp
  show t: "filter (\<lambda>e. fst e < key) es = take i es"
    using i lt gt by (intro filter_less_take) (auto simp: le_less intro: less_imp_le)
  have es: "es = take i es @ es ! i # drop (Suc i) es" by (rule id_take_nth_drop [OF i(1)])
  have A: "\<forall>e \<in> set (take i es). fst e < key" by (rule take_all) (rule lt)
  have B: "\<forall>e \<in> set (drop (Suc i) es). key < fst e" by (rule drop_all) (simp add: gt)
  have "filter (\<lambda>e. key < fst e) (take i es) = []" "filter (\<lambda>e. key < fst e) (drop (Suc i) es) = drop (Suc i) es"
    using A B by (auto simp: filter_empty_conv filter_id_conv)
  then show "filter (\<lambda>e. key < fst e) es = drop (Suc i) es"
    using i(2) by (subst es) simp
  show "at_key key es = [es ! i]"
    using key_split_middle(3) [OF A B, of "[es ! i]"] i(2) es by (simp add: at_key_def)
qed

lemma missing_split:
  assumes "sorted_wrt (<) (map fst es)" "binary_search (map fst es) key = Missing i"
  shows "i \<le> length es" "filter (\<lambda>e. fst e < key) es = take i es"
    "filter (\<lambda>e. key < fst e) es = drop i es" "at_key key es = []"
proof -
  note m = binary_search_Missing [OF assms]
  show "i \<le> length es" using m by simp
  show "filter (\<lambda>e. fst e < key) es = take i es"
    using m by (intro filter_less_take) (auto intro: less_imp_le)
  have n: "key \<notin> fst ` set es" using binary_search_notin [OF assms] by simp
  then show "at_key key es = []" by (auto simp: at_key_def filter_empty_conv)
  have "filter (\<lambda>e. key < fst e) es = filter (\<lambda>e. key \<le> fst e) es"
    by (rule filter_cong) (use n in force)+
  also have "\<dots> = drop i es" using m by (intro filter_from) (auto intro: less_imp_le)
  finally show "filter (\<lambda>e. key < fst e) es = drop i es" .
qed

lemma sorted_parts:
  assumes "sorted_wrt (<) (map fst es)"
  shows "es = filter (\<lambda>e. fst e < key) es @ at_key key es @ filter (\<lambda>e. key < fst e) es"
proof (cases "binary_search (map fst es) key")
  case (Found i)
  note f = found_split [OF assms Found]
  show ?thesis unfolding f(3-5) using id_take_nth_drop [OF f(1)] by simp
next
  case (Missing i)
  note m = missing_split [OF assms Missing]
  show ?thesis unfolding m(2-4) by simp
qed

section \<open>Setting a key in a leaf\<close>

lemma cells_simps [simp]:
  "cells_pages [] = []" "cells_pages (e # es) = cell_pages (snd e) @ cells_pages es"
  "cells_pages (es @ fs) = cells_pages es @ cells_pages fs"
  "cells_entries [] = []" "cells_entries (e # es) = (fst e, value_of (snd e)) # cells_entries es"
  "cells_entries (es @ fs) = cells_entries es @ cells_entries fs"
  "stored_entries [] = []" "stored_entries (e # es) = (fst e, stored_of (snd e)) # stored_entries es"
  "stored_entries (es @ fs) = stored_entries es @ stored_entries fs"
  "map fst (stored_entries es) = map fst es" "length (stored_entries es) = length es"
  "take i (stored_entries es) = stored_entries (take i es)" "drop i (stored_entries es) = stored_entries (drop i es)"
  "stored_entries es = [] \<longleftrightarrow> es = []"
  by (simp_all add: cells_pages_def cells_entries_def stored_entries_def comp_def take_map drop_map)

lemma stored_nth [simp]: "i < length es \<Longrightarrow> stored_entries es ! i = (fst (es ! i), stored_of (snd (es ! i)))"
  by (simp add: stored_entries_def)

lemma cells_entries_keys: "cells_entries (set_key key c es) = set_key key (value_of c) (cells_entries es)"
  "cells_entries (drop_key key es) = drop_key key (cells_entries es)"
  by (simp_all add: set_key_def drop_key_def cells_entries_def filter_map comp_def)

lemma stored_found:
  assumes "sorted_wrt (<) (map fst es)" "binary_search (map fst es) key = Found i"
  shows "(stored_entries es)[i := (key, stored_of c)] = stored_entries (set_key key c es)"
    "remove_at i (stored_entries es) = stored_entries (drop_key key es)"
  using found_split [OF assms] by (simp_all add: upd_conv_take_nth_drop set_key_def drop_key_def remove_at_def)

lemma stored_missing:
  assumes "sorted_wrt (<) (map fst es)" "binary_search (map fst es) key = Missing i"
  shows "insert_at i (key, stored_of c) (stored_entries es) = stored_entries (set_key key c es)"
  using missing_split [OF assms] by (simp add: set_key_def insert_at_def)

lemma key_pages:
  assumes "sorted_wrt (<) (map fst es)" "distinct (cells_pages es)"
  shows "set (cells_pages (drop_key key es)) = set (cells_pages es) - set (cells_pages (at_key key es))"
    "set (cells_pages (set_key key c es)) = (set (cells_pages es) - set (cells_pages (at_key key es))) \<union> set (cell_pages c)"
    "distinct (cells_pages (drop_key key es))" "distinct (cells_pages (at_key key es))"
    "set (cells_pages (at_key key es)) \<subseteq> set (cells_pages es)"
    "set (cells_pages es) \<inter> set (cell_pages c) = {} \<Longrightarrow> distinct (cell_pages c) \<Longrightarrow> distinct (cells_pages (set_key key c es))"
proof -
  define A B M where "A = cells_pages (filter (\<lambda>e. fst e < key) es)" "B = cells_pages (filter (\<lambda>e. key < fst e) es)"
    "M = cells_pages (at_key key es)"
  have p: "cells_pages es = A @ M @ B" using arg_cong [OF sorted_parts [OF assms(1)], of cells_pages] by (simp add: A_B_M_def)
  have d: "cells_pages (drop_key key es) = A @ B" "cells_pages (set_key key c es) = A @ cell_pages c @ B"
    by (simp_all add: drop_key_def set_key_def A_B_M_def)
  have dis: "distinct (A @ M @ B)" using assms(2) p by simp
  show "set (cells_pages (drop_key key es)) = set (cells_pages es) - set (cells_pages (at_key key es))"
    unfolding d p A_B_M_def(3) [symmetric] using dis by auto
  show "set (cells_pages (set_key key c es)) = (set (cells_pages es) - set (cells_pages (at_key key es))) \<union> set (cell_pages c)"
    unfolding d p A_B_M_def(3) [symmetric] using dis by auto
  show "distinct (cells_pages (drop_key key es))" unfolding d using dis by auto
  show "distinct (cells_pages (at_key key es))" "set (cells_pages (at_key key es)) \<subseteq> set (cells_pages es)"
    unfolding p A_B_M_def(3) [symmetric] using dis by auto
  show "set (cells_pages es) \<inter> set (cell_pages c) = {} \<Longrightarrow> distinct (cell_pages c) \<Longrightarrow> distinct (cells_pages (set_key key c es))"
    unfolding d p using dis by auto
qed

lemma cells_ok_cong:
  assumes "\<forall>e \<in> set es. cell_ok V lo hi e" "same_on V' V (set (cells_pages es))"
  shows "\<forall>e \<in> set es. cell_ok V' lo hi e"
proof
  fix e assume e: "e \<in> set es"
  then have "same_on V' V (set (cell_pages (snd e)))" using assms(2) by (simp add: set_cells_pages)
  from cell_ok_cong [OF this] assms(1) e show "cell_ok V' lo hi e" by blast
qed

lemma leaf_okI:
  assumes "V no = Some p" "leaf_page p (stored_entries es) nxt" "sum_list (leaf_sizes (stored_entries es)) \<le> USABLE"
    "sorted_wrt (<) (map fst es)" "\<forall>e \<in> set es. cell_ok V lo hi e"
  shows "leaf_ok V lo hi nxt (BLeaf no es nxt)"
  using assms unfolding leaf_ok_def by blast

lemma leaf_okE:
  assumes "leaf_ok V lo hi nxt t"
  obtains no es p where "t = BLeaf no es nxt" "V no = Some p" "leaf_page p (stored_entries es) nxt"
    "sum_list (leaf_sizes (stored_entries es)) \<le> USABLE" "sorted_wrt (<) (map fst es)" "\<forall>e \<in> set es. cell_ok V lo hi e"
  using assms unfolding leaf_ok_def by blast

lemma set_key_cells:
  assumes "\<forall>e \<in> set es. cell_ok V lo hi e" "cell_ok V lo hi (key, c)"
  shows "\<forall>e \<in> set (set_key key c es). cell_ok V lo hi e"
  using assms unfolding set_key_def by auto

lemma drop_key_cells:
  assumes "\<forall>e \<in> set es. cell_ok V lo hi e"
  shows "\<forall>e \<in> set (drop_key key es). cell_ok V lo hi e"
  using assms unfolding drop_key_def by auto

lemma cell_footprint: "cell_ok V lo hi e \<Longrightarrow> leaf_footprint (fst e) (stored_of (snd e)) \<le> USABLE div 2"
  by (simp add: cell_ok_def leaf_footprint_def page_consts)

lemma leaf_sizes_simps [simp]:
  "leaf_sizes (xs @ ys) = leaf_sizes xs @ leaf_sizes ys" "leaf_sizes (e # ys) = leaf_footprint (fst e) (snd e) # leaf_sizes ys"
  "leaf_sizes [] = []" "length (leaf_sizes xs) = length xs" "take i (leaf_sizes xs) = leaf_sizes (take i xs)"
  "drop i (leaf_sizes xs) = leaf_sizes (drop i xs)"
  by (simp_all add: leaf_sizes_def split_beta take_map drop_map)

lemma leaf_split:
  assumes "\<forall>e \<in> set es. cell_ok V lo hi e" "cell_ok V lo hi (key, c)" "sorted_wrt (<) (map fst es)"
    "sum_list (leaf_sizes (stored_entries es)) \<le> USABLE" "USABLE < sum_list (leaf_sizes (stored_entries (set_key key c es)))"
  defines "es' \<equiv> set_key key c es" and "s \<equiv> split_index (leaf_sizes (stored_entries (set_key key c es)))"
  shows "0 < s" "s < length es'" "sum_list (leaf_sizes (stored_entries (take s es'))) \<le> USABLE"
    "sum_list (leaf_sizes (stored_entries (drop s es'))) \<le> USABLE"
proof -
  have ok: "\<forall>e \<in> set es'. cell_ok V lo hi e" unfolding es'_def by (rule set_key_cells [OF assms(1,2)])
  have small: "\<forall>fp \<in> set (leaf_sizes (stored_entries es')). fp \<le> USABLE div 2"
    using ok cell_footprint by (fastforce simp: leaf_sizes_def stored_entries_def)
  have "sum_list (leaf_sizes (stored_entries es))
      = sum_list (leaf_sizes (stored_entries (drop_key key es))) + sum_list (leaf_sizes (stored_entries (at_key key es)))"
    using arg_cong [OF sorted_parts [OF assms(3)], of "\<lambda>es. sum_list (leaf_sizes (stored_entries es))" key]
    by (simp add: drop_key_def)
  moreover have "sum_list (leaf_sizes (stored_entries es'))
      = sum_list (leaf_sizes (stored_entries (drop_key key es))) + leaf_footprint key (stored_of c)"
    by (simp add: es'_def drop_key_def set_key_def)
  ultimately have "sum_list (leaf_sizes (stored_entries es')) \<le> USABLE + USABLE div 2"
    using cell_footprint [OF assms(2)] assms(4) by simp
  from split_index_spec [OF small assms(5) [folded es'_def] this]
  show "0 < s" "s < length es'" "sum_list (leaf_sizes (stored_entries (take s es'))) \<le> USABLE"
    "sum_list (leaf_sizes (stored_entries (drop s es'))) \<le> USABLE"
    by (simp_all add: s_def es'_def)
qed

context page_store
begin

lemma put_leaf_spec:
  assumes "rep s V r" "sorted_wrt (<) (map fst es)" "\<forall>e \<in> set es. cell_in V (snd e)" "distinct (cells_pages es)"
    "length (cells_pages es) < fuel"
  shows "\<exists>s'. put_leaf fuel ops key (stored_of c) (stored_entries es) s = (Inr (stored_entries (set_key key c es)), s')
    \<and> rep s' (without V (cells_pages (at_key key es))) r"
proof (cases "binary_search (map fst es) key")
  case (Found i)
  note f = found_split [OF assms(2) Found]
  have e: "es ! i \<in> set es" using f(1) by simp
  have "distinct (cell_pages (snd (es ! i)))" using key_pages(4) [OF assms(2,4), of key] by (simp add: f(5))
  moreover have "length (cell_pages (snd (es ! i))) < fuel" using cell_pages_le [OF e] assms(5) by simp
  moreover have "cell_in V (snd (es ! i))" using assms(3) e by blast
  ultimately obtain s' where "free_if_overflow fuel ops (stored_of (snd (es ! i))) s = (Inr (), s')"
    "rep s' (without V (cell_pages (snd (es ! i)))) r" using free_cell_spec [OF assms(1)] by blast
  then show ?thesis
    using Found f by (simp add: put_leaf_def sbind_def stored_found [OF assms(2) Found])
next
  case (Missing i)
  then show ?thesis
    using assms(1) missing_split [OF assms(2) Missing] by (simp add: put_leaf_def stored_missing [OF assms(2) Missing])
qed

lemma write_leaf_spec:
  assumes "rep s V r" "V no \<noteq> None" "sum_list (leaf_sizes es) \<le> USABLE"
  shows "\<exists>s' p. write_leaf ops no es nxt s = (Inr (), s') \<and> rep s' (V(no \<mapsto> p)) r \<and> leaf_page p es nxt"
proof -
  obtain p where p: "build_leaf es nxt = Inr p" "leaf_page p es nxt" using build_leaf_ok assms(3) by (auto simp: leaf_sizes_def)
  then have "length p = PAGE_SIZE" by (simp add: leaf_page_def)
  from write_law [OF assms(1,2) this] p show ?thesis by (auto simp: write_leaf_def sbind_def)
qed

end

section \<open>Insertion below a node\<close>

text \<open>
  What \<open>insert_into\<close> makes of a subtree: one tree, or two with the separator and page number it
  returns; the root keeps its page, the entries are the old ones with the key set.
\<close>

definition halves :: "nat \<Rightarrow> bt \<Rightarrow> bytes \<Rightarrow> (bytes \<times> u32) option \<Rightarrow> (bytes \<times> bt) list \<Rightarrow> bool" where
  "halves h t k res ts \<longleftrightarrow> (\<exists>t1. root_no t1 = root_no t \<and> first_leaf h t1 = first_leaf h t
     \<and> (case res of
          None \<Rightarrow> ts = [(k, t1)]
        | Some sep \<Rightarrow> \<exists>t2. ts = [(k, t1), (fst sep, t2)] \<and> root_no t2 = snd sep \<and> key_fits (fst sep)
            \<and> (h = 0 \<longrightarrow> leaf_cells t1 \<noteq> [])))"

definition grown :: "page_map \<Rightarrow> page_map \<Rightarrow> nat \<Rightarrow> bytes option \<Rightarrow> bytes option \<Rightarrow> u32 \<Rightarrow> bt \<Rightarrow> bytes \<Rightarrow> cell \<Rightarrow>
    (bytes \<times> bt) list \<Rightarrow> bool" where
  "grown V V' h lo hi nxt t key c ts \<longleftrightarrow> forest_ok V' h lo hi nxt ts \<and> distinct (forest_pages h ts)
     \<and> forest_entries h ts = set_key key (value_of c) (entries h t)
     \<and> moves V V' (set (tree_pages h t) \<union> set (cell_pages c)) (set (forest_pages h ts))"

lemma leaf_moves:
  assumes "V' = (without V M)(no \<mapsto> p)" "no \<in> S" "S' = S - set M" "set M \<subseteq> S" "no \<notin> set M"
  shows "moves V V' S S'"
  using assms by (auto simp: moves_def without_def)

lemma sorted_take_drop_sep:
  assumes "sorted_wrt (<) (map fst es)" "0 < s" "s < length es" "\<forall>e \<in> set es. cell_ok V lo hi e"
  defines "sep \<equiv> fst (es ! s)"
  shows "\<forall>e \<in> set (take s es). cell_ok V lo (Some sep) e" "\<forall>e \<in> set (drop s es). cell_ok V (Some sep) hi e"
    "past lo sep" "below hi sep" "key_fits sep"
proof -
  have lt: "fst (es ! j) < sep" if "j < s" for j
    using sorted_wrt_less_nth [OF assms(1) that] that assms(3) by (simp add: sep_def)
  have ge: "sep \<le> fst (es ! j)" if "s \<le> j" "j < length es" for j
    using sorted_wrt_less_nth [OF assms(1), of s j] that by (cases "s = j") (auto simp: sep_def)
  have ok: "cell_ok V lo hi (es ! j)" if "j < length es" for j using assms(4) that by simp
  show "\<forall>e \<in> set (take s es). cell_ok V lo (Some sep) e"
    by (rule take_all) (use lt ok in \<open>simp add: cell_ok_def\<close>)
  show "\<forall>e \<in> set (drop s es). cell_ok V (Some sep) hi e"
    by (rule drop_all) (use ge ok in \<open>simp add: cell_ok_def\<close>)
  have "above lo (fst (es ! 0))" using ok [OF less_trans [OF assms(2,3)]] by (simp add: cell_ok_def)
  then show "past lo sep" using past_trans lt [OF assms(2)] by blast
  show "below hi sep" "key_fits sep" using ok [OF assms(3)] by (simp_all add: cell_ok_def sep_def)
qed

lemma moves_frame: "moves V V' S S' \<Longrightarrow> moves V V' (R \<union> S) (R \<union> S')"
  by (auto simp: moves_def)

lemma moves_write: "moves V V' S S' \<Longrightarrow> no \<in> S \<Longrightarrow> no \<in> S' \<Longrightarrow> moves V (V'(no \<mapsto> p)) S S'"
  by (auto simp: moves_def)

lemma moves_alloc:
  assumes "moves V V' S S'" "V' new = None"
  shows "moves V (V'(new \<mapsto> p)) S (insert new S')"
proof -
  have "V new = None" if "new \<notin> S" using assms that unfolding moves_def by (cases "new \<in> S'") auto
  then show ?thesis using assms(1) unfolding moves_def by auto
qed

text \<open>A leaf with the key set: the cells that leave it, and the page that holds what is left.\<close>

lemma put_leaf_ok:
  assumes l: "bt_wf V 0 lo hi nxt (BLeaf no es nxt)" and c: "cell_ok V lo hi (key, c)"
    and dis: "distinct (no # cells_pages es @ cell_pages c)"
  defines "M \<equiv> cells_pages (at_key key es)" and "es' \<equiv> set_key key c es"
  shows "sorted_wrt (<) (map fst es')" "\<forall>e \<in> set es'. cell_ok V lo hi e" "distinct (no # cells_pages es')"
    "\<And>x. x \<in> set (cells_pages es') \<Longrightarrow> without V M x = V x \<and> V x \<noteq> None" "without V M no = V no"
    "moves V ((without V M)(no \<mapsto> q)) (insert no (set (cells_pages es) \<union> set (cell_pages c))) (insert no (set (cells_pages es')))"
proof -
  have es: "sorted_wrt (<) (map fst es)" "\<forall>e \<in> set es. cell_ok V lo hi e" using l by (auto simp: leaf_ok_def)
  have dp: "distinct (cells_pages es)" "set (cells_pages es) \<inter> set (cell_pages c) = {}" "distinct (cell_pages c)"
    "no \<notin> set (cells_pages es)" "no \<notin> set (cell_pages c)" using dis by auto
  note kp = key_pages [OF es(1) dp(1)]
  have M: "set M \<subseteq> set (cells_pages es)" "no \<notin> set M" "set M \<inter> set (cell_pages c) = {}"
    using kp(5) [of key] dp(2,4) by (auto simp: M_def)
  have pages: "set (cells_pages es') = (set (cells_pages es) - set M) \<union> set (cell_pages c)"
    unfolding es'_def M_def by (rule kp(2))
  show "sorted_wrt (<) (map fst es')" unfolding es'_def by (rule sorted_set_key(1) [OF es(1)])
  show ok: "\<forall>e \<in> set es'. cell_ok V lo hi e" unfolding es'_def by (rule set_key_cells [OF es(2) c])
  show "distinct (no # cells_pages es')" using kp(6) [OF dp(2,3), of key] pages dp(4,5) by (simp add: es'_def)
  show "without V M x = V x \<and> V x \<noteq> None" if "x \<in> set (cells_pages es')" for x
  proof -
    have "x \<notin> set M" using that M(3) unfolding pages by blast
    moreover have "V x \<noteq> None" using that ok cell_in_live [of V _ x] by (fastforce simp: set_cells_pages cell_ok_def)
    ultimately show ?thesis by (simp add: without_def)
  qed
  show "without V M no = V no" using M(2) by (simp add: without_def)
  show "moves V ((without V M)(no \<mapsto> q)) (insert no (set (cells_pages es) \<union> set (cell_pages c))) (insert no (set (cells_pages es')))"
    by (rule leaf_moves [OF refl]) (use M pages in auto)
qed

lemma leaf_replaced:
  assumes "leaf_page q (stored_entries es) nxt" "sum_list (leaf_sizes (stored_entries es)) \<le> USABLE"
    "sorted_wrt (<) (map fst es)" "\<forall>e \<in> set es. cell_ok V lo hi e" "V' no = Some q" "same_on V' V (set (cells_pages es))"
  shows "bt_wf V' 0 lo hi nxt (BLeaf no es nxt)"
  using leaf_okI [of V', OF assms(5,1-3) cells_ok_cong [OF assms(4,6)]] by simp

lemma cells_cut: "cells_pages es = cells_pages (take i es) @ cells_pages (drop i es)"
    "cells_entries es = cells_entries (take i es) @ cells_entries (drop i es)"
  by (metis append_take_drop_id cells_simps(3)) (metis append_take_drop_id cells_simps(6))

lemma cells_cut_pages:
  assumes "distinct (no # cells_pages es)" "new \<notin> set (no # cells_pages es)"
  shows "distinct (no # cells_pages (take i es) @ new # cells_pages (drop i es))"
    "set (no # cells_pages (take i es) @ new # cells_pages (drop i es)) = insert new (insert no (set (cells_pages es)))"
proof -
  note e = cells_cut(1) [of es i]
  show "distinct (no # cells_pages (take i es) @ new # cells_pages (drop i es))" using assms unfolding e by auto
  show "set (no # cells_pages (take i es) @ new # cells_pages (drop i es)) = insert new (insert no (set (cells_pages es)))"
    unfolding e by auto
qed

context page_store
begin

lemma put_fits_spec:
  assumes rep: "rep s (without V (cells_pages (at_key key es))) r"
    and l: "bt_wf V 0 lo hi nxt (BLeaf no es nxt)" and c: "cell_ok V lo hi (key, c)"
    and dis: "distinct (no # cells_pages es @ cell_pages c)"
    and fits: "sum_list (leaf_sizes (stored_entries (set_key key c es))) \<le> USABLE"
  shows "\<exists>s' V'. write_leaf ops no (stored_entries (set_key key c es)) nxt s = (Inr (), s') \<and> rep s' V' r
    \<and> bt_wf V' 0 lo hi nxt (BLeaf no (set_key key c es) nxt)
    \<and> moves V V' (insert no (set (cells_pages es) \<union> set (cell_pages c))) (insert no (set (cells_pages (set_key key c es))))"
proof -
  note po = put_leaf_ok [OF l c dis]
  have "V no \<noteq> None" using l by (auto simp: leaf_ok_def)
  then have "without V (cells_pages (at_key key es)) no \<noteq> None" using po(5) by simp
  from write_leaf_spec [OF rep this fits, of nxt] obtain s' q where
    w: "write_leaf ops no (stored_entries (set_key key c es)) nxt s = (Inr (), s')"
      "rep s' ((without V (cells_pages (at_key key es)))(no \<mapsto> q)) r" "leaf_page q (stored_entries (set_key key c es)) nxt" by blast
  let ?V = "(without V (cells_pages (at_key key es)))(no \<mapsto> q)"
  have "same_on ?V V (set (cells_pages (set_key key c es)))"
    using po(3,4) by (auto simp: same_on_def)
  from leaf_replaced [OF w(3) fits po(1,2) _ this, of no] po(6) [of q] w(1,2) show ?thesis by auto
qed

lemma put_split_spec:
  assumes rep: "rep s (without V (cells_pages (at_key key es))) (Suc r)"
    and l: "bt_wf V 0 lo hi nxt (BLeaf no es nxt)" and c: "cell_ok V lo hi (key, c)"
    and dis: "distinct (no # cells_pages es @ cell_pages c)"
    and big: "USABLE < sum_list (leaf_sizes (stored_entries (set_key key c es)))"
  defines "es' \<equiv> set_key key c es" and "i \<equiv> split_index (leaf_sizes (stored_entries (set_key key c es)))"
  shows "\<exists>new s' V'. sbind (st_alloc ops) (\<lambda>new_no.
         sbind (slift (index (stored_entries es') i)) (\<lambda>e.
         sbind (slift (build_leaf (take i (stored_entries es')) new_no)) (\<lambda>left.
         sbind (slift (build_leaf (drop i (stored_entries es')) nxt)) (\<lambda>rgt.
         sbind (st_write ops no left) (\<lambda>_.
         sbind (st_write ops new_no rgt) (\<lambda>_. sret (Some (fst e, new_no)))))))) s = (Inr (Some (fst (es' ! i), new)), s')
    \<and> rep s' V' r \<and> 0 < i \<and> i < length es' \<and> key_fits (fst (es' ! i)) \<and> new \<notin> set (no # cells_pages es')
    \<and> forest_ok V' 0 lo hi nxt [(k, BLeaf no (take i es') new), (fst (es' ! i), BLeaf new (drop i es') nxt)]
    \<and> moves V V' (insert no (set (cells_pages es) \<union> set (cell_pages c))) (insert new (insert no (set (cells_pages es'))))"
proof -
  let ?V = "without V (cells_pages (at_key key es))"
  have es: "sorted_wrt (<) (map fst es)" "\<forall>e \<in> set es. cell_ok V lo hi e" "sum_list (leaf_sizes (stored_entries es)) \<le> USABLE"
    "V no \<noteq> None" using l by (auto simp: leaf_ok_def)
  note po = put_leaf_ok [OF l c dis, folded es'_def] and ls = leaf_split [OF es(2) c es(1,3) big, folded es'_def i_def]
  note sd = sorted_take_drop_sep [OF po(1) ls(1,2) po(2)]
  obtain new s1 where a: "st_alloc ops s = (Inr new, s1)" "?V new = None" "rep s1 (?V(new \<mapsto> zero_page)) r"
    using alloc_law [OF rep] by blast
  have new: "new \<noteq> no" "new \<notin> set (cells_pages es')" using a(2) po(4) [of new] po(5) es(4) by auto
  obtain p where p: "build_leaf (stored_entries (take i es')) new = Inr p" "leaf_page p (stored_entries (take i es')) new"
    using build_leaf_ok ls(3) unfolding leaf_sizes_def by blast
  obtain q where q: "build_leaf (stored_entries (drop i es')) nxt = Inr q" "leaf_page q (stored_entries (drop i es')) nxt"
    using build_leaf_ok ls(4) unfolding leaf_sizes_def by blast
  obtain s2 where s2: "st_write ops no p s1 = (Inr (), s2)" "rep s2 (?V(new \<mapsto> zero_page, no \<mapsto> p)) r"
    using write_law [OF a(3), of no p] es(4) po(5) new p(2) by (auto simp: leaf_page_def)
  obtain s3 where s3: "st_write ops new q s2 = (Inr (), s3)" "rep s3 (?V(new \<mapsto> zero_page, no \<mapsto> p, new \<mapsto> q)) r"
    using write_law [OF s2(2), of new q] new q(2) by (auto simp: leaf_page_def)
  define V' where "V' = ?V(no \<mapsto> p, new \<mapsto> q)"
  have rep': "rep s3 V' r" using s3(2) new by (simp add: V'_def fun_upd_twist)
  have "same_on V' V (set (cells_pages es'))" using po(3,4) new by (auto simp: same_on_def V'_def)
  then have same: "same_on V' V (set (cells_pages (take i es')))" "same_on V' V (set (cells_pages (drop i es')))"
    by (subst (asm) cells_cut(1) [of _ i], simp)+
  have sorted: "sorted_wrt (<) (map fst (take i es'))" "sorted_wrt (<) (map fst (drop i es'))"
    using po(1) by (simp_all add: take_map [symmetric] drop_map [symmetric] sorted_wrt_take sorted_wrt_drop)
  have "V' no = Some p" "V' new = Some q" using new by (simp_all add: V'_def)
  then have "bt_wf V' 0 lo (Some (fst (es' ! i))) new (BLeaf no (take i es') new)"
    "bt_wf V' 0 (Some (fst (es' ! i))) hi nxt (BLeaf new (drop i es') nxt)"
    using leaf_replaced [OF p(2) ls(3) sorted(1) sd(1) _ same(1)] leaf_replaced [OF q(2) ls(4) sorted(2) sd(2) _ same(2)] by blast+
  then have "forest_ok V' 0 lo hi nxt [(k, BLeaf no (take i es') new), (fst (es' ! i), BLeaf new (drop i es') nxt)]"
    using sd(3,4) by simp
  moreover have "moves V V' (insert no (set (cells_pages es) \<union> set (cell_pages c))) (insert new (insert no (set (cells_pages es'))))"
    unfolding V'_def by (rule moves_alloc [OF po(6)]) (use a(2) new in simp)
  ultimately show ?thesis
    using a(1) p(1) q(1) s2(1) s3(1) ls(1,2) rep' sd(5) new
    by (intro exI [of _ new] exI [of _ s3] exI [of _ V']) (simp add: sbind_def del: chain_ok.simps bt_wf.simps)
qed

lemma insert_leaf_spec:
  assumes rep: "rep s V (Suc r)" and t: "bt_wf V 0 lo hi nxt t" and fuel: "length (tree_pages 0 t) \<le> fuel"
    and dis: "distinct (tree_pages 0 t @ cell_pages c)" and c: "cell_ok V lo hi (key, c)"
  shows "\<exists>s' V' res ts. insert_into (Suc d) fuel ops key (stored_of c) (root_no t) s = (Inr res, s') \<and> rep s' V' r
    \<and> halves 0 t k res ts \<and> grown V V' 0 lo hi nxt t key c ts"
proof -
  obtain no es p where l: "t = BLeaf no es nxt" "V no = Some p" "is_leaf p" "leaf_page p (stored_entries es) nxt"
    "sorted_wrt (<) (map fst es)" "find_leaf_slot p key = Inr (binary_search (map fst es) key)"
    "leaf_entries p = Inr (stored_entries es)" "right_link p = Inr nxt" by (rule leaf_step [OF t])
  obtain s1 where s1: "st_read ops no s = (Inr p, s1)" "rep s1 V (Suc r)" using read_law [OF rep l(2)] by blast
  let ?es = "set_key key c es"
  have "\<forall>e \<in> set es. cell_in V (snd e)" using t by (auto simp: l(1) leaf_ok_def cell_ok_def)
  then obtain s2 where s2: "put_leaf fuel ops key (stored_of c) (stored_entries es) s1 = (Inr (stored_entries ?es), s2)"
    "rep s2 (without V (cells_pages (at_key key es))) (Suc r)"
    using put_leaf_spec [OF s1(2) l(5), of fuel key c] dis fuel by (auto simp: l(1))
  have dis': "distinct (no # cells_pages es @ cell_pages c)" using dis by (simp add: l(1))
  note wf = t [unfolded l(1)]
  note po = put_leaf_ok [OF wf c dis'] and run = s1(1) s2(1) l(3,7,8)
  have ents: "cells_entries ?es = set_key key (value_of c) (entries 0 t)" by (simp add: l(1) cells_entries_keys)
  show ?thesis
  proof (cases "sum_list (leaf_sizes (stored_entries ?es)) \<le> USABLE")
    case True
    obtain s3 V' where w: "write_leaf ops no (stored_entries ?es) nxt s2 = (Inr (), s3)" "rep s3 V' (Suc r)"
      "bt_wf V' 0 lo hi nxt (BLeaf no ?es nxt)"
      "moves V V' (insert no (set (cells_pages es) \<union> set (cell_pages c))) (insert no (set (cells_pages ?es)))"
      using put_fits_spec [OF s2(2) wf c dis' True] by blast
    then have "grown V V' 0 lo hi nxt t key c [(k, BLeaf no ?es nxt)]"
      using po(3) ents by (simp add: grown_def l(1))
    moreover have "halves 0 t k None [(k, BLeaf no ?es nxt)]" by (simp add: halves_def l(1))
    moreover have "insert_into (Suc d) fuel ops key (stored_of c) (root_no t) s = (Inr None, s3)"
      using run w(1) True by (simp add: l(1) sbind_def)
    ultimately show ?thesis using room_law [OF w(2), of r] by auto
  next
    case False
    let ?i = "split_index (leaf_sizes (stored_entries ?es))"
    have big: "USABLE < sum_list (leaf_sizes (stored_entries ?es))" using False by simp
    from put_split_spec [OF s2(2) wf c dis' big, of k] obtain new s3 V' where w:
        "sbind (st_alloc ops) (\<lambda>new_no.
         sbind (slift (index (stored_entries ?es) ?i)) (\<lambda>e.
         sbind (slift (build_leaf (take ?i (stored_entries ?es)) new_no)) (\<lambda>left.
         sbind (slift (build_leaf (drop ?i (stored_entries ?es)) nxt)) (\<lambda>rgt.
         sbind (st_write ops no left) (\<lambda>_.
         sbind (st_write ops new_no rgt) (\<lambda>_. sret (Some (fst e, new_no)))))))) s2 = (Inr (Some (fst (?es ! ?i), new)), s3)"
        "rep s3 V' r" "0 < ?i" "?i < length ?es" "key_fits (fst (?es ! ?i))" "new \<notin> set (no # cells_pages ?es)"
        "forest_ok V' 0 lo hi nxt [(k, BLeaf no (take ?i ?es) new), (fst (?es ! ?i), BLeaf new (drop ?i ?es) nxt)]"
        "moves V V' (insert no (set (cells_pages es) \<union> set (cell_pages c))) (insert new (insert no (set (cells_pages ?es))))"
      by blast
    let ?ts = "[(k, BLeaf no (take ?i ?es) new), (fst (?es ! ?i), BLeaf new (drop ?i ?es) nxt)]"
    have pages: "forest_pages 0 ?ts = no # cells_pages (take ?i ?es) @ new # cells_pages (drop ?i ?es)"
      "forest_entries 0 ?ts = cells_entries ?es" by (simp_all add: cells_cut(2) [of ?es ?i, symmetric])
    have "distinct (forest_pages 0 ?ts)" "set (forest_pages 0 ?ts) = insert new (insert no (set (cells_pages ?es)))"
      unfolding pages(1) by (rule cells_cut_pages [OF po(3) w(6)])+
    then have "grown V V' 0 lo hi nxt t key c ?ts"
      using w(7,8) ents pages(2) unfolding grown_def by (simp add: l(1) del: chain_ok.simps bt_wf.simps)
    moreover have "halves 0 t k (Some (fst (?es ! ?i), new)) ?ts" using w(3-5) by (auto simp: halves_def l(1))
    moreover have "insert_into (Suc d) fuel ops key (stored_of c) (root_no t) s = (Inr (Some (fst (?es ! ?i), new)), s3)"
      using run w(1) False by (simp add: l(1) sbind_def Let_def)
    ultimately show ?thesis using w(2) by blast
  qed
qed

end

lemma internal_sizes_simps [simp]:
  "internal_sizes (xs @ ys) = internal_sizes xs @ internal_sizes ys"
  "internal_sizes (e # ys) = internal_footprint (fst e) # internal_sizes ys"
  "internal_sizes [] = []" "length (internal_sizes xs) = length xs" "take i (internal_sizes xs) = internal_sizes (take i xs)"
  "drop i (internal_sizes xs) = internal_sizes (drop i xs)"
  by (simp_all add: internal_sizes_def split_beta take_map drop_map)

lemma child_cells_simps [simp]:
  "child_cells (cs @ ds) = child_cells cs @ child_cells ds" "child_cells (c # cs) = (fst c, root_no (snd c)) # child_cells cs"
  "child_cells [] = []" "take i (child_cells cs) = child_cells (take i cs)" "drop i (child_cells cs) = child_cells (drop i cs)"
  by (simp_all add: child_cells_def take_map drop_map)

lemma child_cells_nth [simp]: "i < length cs \<Longrightarrow> child_cells cs ! i = (fst (cs ! i), root_no (snd (cs ! i)))"
  by (simp add: child_cells_def)

text \<open>The forms in which a node page and its children make a tree.\<close>

definition labels_ok :: "bytes option \<Rightarrow> (bytes \<times> bt) list \<Rightarrow> bool" where
  "labels_ok lo cs \<longleftrightarrow> (\<forall>a. lo = Some a \<longrightarrow> fst (hd cs) = a) \<and> (\<forall>c \<in> set cs. key_fits (fst c))"

lemma node_okI:
  "V no = Some p \<Longrightarrow> internal_page p (child_cells cs) \<Longrightarrow> sum_list (internal_sizes (child_cells cs)) \<le> USABLE \<Longrightarrow>
   labels_ok lo cs \<Longrightarrow> forest_ok V h lo hi nxt cs \<Longrightarrow> bt_wf V (Suc h) lo hi nxt (BNode no cs)"
  by (simp add: node_ok_def labels_ok_def)

lemma node_okE:
  assumes "bt_wf V (Suc h) lo hi nxt t"
  obtains no cs p where "t = BNode no cs" "V no = Some p" "internal_page p (child_cells cs)"
    "sum_list (internal_sizes (child_cells cs)) \<le> USABLE" "labels_ok lo cs" "forest_ok V h lo hi nxt cs"
  using assms unfolding bt_wf.simps node_ok_def labels_ok_def by (elim conjE exE) (simp add: that)

lemma key_footprint: "key_fits k \<Longrightarrow> internal_footprint k \<le> USABLE div 2"
  by (simp add: key_fits_def internal_footprint_def page_consts)

lemma labels_split:
  assumes "labels_ok lo cs" "0 < i" "i < length cs"
  shows "labels_ok lo (take i cs)" "labels_ok (Some (fst (cs ! i))) (drop i cs)" "key_fits (fst (cs ! i))"
  using assms by (auto simp: labels_ok_def hd_drop_conv_nth dest: in_set_takeD in_set_dropD)

lemma forest_cut:
  assumes "forest_ok V h lo hi nxt cs" "0 < i" "i < length cs"
  shows "forest_ok V h lo (Some (fst (cs ! i))) (first_leaf h (snd (cs ! i))) (take i cs)"
    "forest_ok V h (Some (fst (cs ! i))) hi nxt (drop i cs)" "past lo (fst (cs ! i))" "below hi (fst (cs ! i))"
proof -
  have "take i cs \<noteq> []" "drop i cs \<noteq> []" using assms(2,3) by auto
  from chain_ok_append [OF this, of "first_leaf h" "bt_wf V h" lo hi nxt] assms(1)
  show "forest_ok V h lo (Some (fst (cs ! i))) (first_leaf h (snd (cs ! i))) (take i cs)"
    "forest_ok V h (Some (fst (cs ! i))) hi nxt (drop i cs)" "past lo (fst (cs ! i))" "below hi (fst (cs ! i))"
    using hd_drop_conv_nth [OF assms(3)] by auto
qed

lemma forest_replace:
  assumes "forest_ok V h lo hi nxt (pre @ old @ post)" "old \<noteq> []"
    and "forest_ok V' h (if pre = [] then lo else Some (fst (hd old))) (if post = [] then hi else Some (fst (hd post)))
      (if post = [] then nxt else first_leaf h (snd (hd post))) ts"
    and "fst (hd ts) = fst (hd old)" "first_leaf h (snd (hd ts)) = first_leaf h (snd (hd old))"
    and "same_on V' V (set (forest_pages h pre) \<union> set (forest_pages h post))"
  shows "forest_ok V' h lo hi nxt (pre @ ts @ post)"
proof -
  note f = assms(1) [unfolded chain_ok_middle [OF assms(2)]]
  have same: "same_on V' V (set (forest_pages h pre))" "same_on V' V (set (forest_pages h post))"
    using assms(6) unfolding same_on_simps(3) by blast+
  have "forest_ok V' h lo (Some (fst (hd old))) (first_leaf h (snd (hd old))) pre" if "pre \<noteq> []"
    using f that forest_cong [OF _ same(1)] by blast
  moreover have "forest_ok V' h (Some (fst (hd post))) hi nxt post" if "post \<noteq> []"
    using f that forest_cong [OF _ same(2)] by blast
  ultimately show ?thesis
    unfolding chain_ok_middle [OF chain_ok_nonempty [OF assms(3)]] assms(4,5) using f assms(3) by blast
qed

text \<open>Some children of a node replaced by others, as far as pages go.\<close>

lemma replace_context:
  assumes f: "forest_ok V h lo hi nxt (pre @ old @ post)" "old \<noteq> []" and live: "V no \<noteq> None"
    and dis: "distinct (no # forest_pages h (pre @ old @ post) @ C)"
    and ts: "forest_ok V' h (if pre = [] then lo else Some (fst (hd old))) (if post = [] then hi else Some (fst (hd post)))
      (if post = [] then nxt else first_leaf h (snd (hd post))) ts"
    and hd: "fst (hd ts) = fst (hd old)" "first_leaf h (snd (hd ts)) = first_leaf h (snd (hd old))"
    and m: "distinct (forest_pages h ts)" "moves V V' (set (forest_pages h old) \<union> set C) (set (forest_pages h ts))"
  defines "cs \<equiv> pre @ ts @ post"
  shows "forest_ok V' h lo hi nxt cs" "distinct (no # forest_pages h cs)" "V' no = V no"
    "moves V V' (insert no (set (forest_pages h (pre @ old @ post))) \<union> set C) (insert no (set (forest_pages h cs)))"
    "first_leaf h (snd (hd cs)) = first_leaf h (snd (hd (pre @ old @ post)))"
proof -
  let ?R = "insert no (set (forest_pages h pre) \<union> set (forest_pages h post))"
  let ?S = "set (forest_pages h old) \<union> set C" and ?S' = "set (forest_pages h ts)"
  have "?R \<inter> ?S = {}" using dis by auto
  moreover have "V x \<noteq> None" if "x \<in> ?R" for x using that live forest_live [OF f(1), of x] by auto
  ultimately have o: "?R \<inter> ?S' = {}" "same_on V' V ?R" using moves_other [OF m(2), of ?R] by blast+
  have "same_on V' V (set (forest_pages h pre) \<union> set (forest_pages h post))" by (rule same_on_subset [OF o(2)]) blast
  from forest_replace [OF f ts hd this] show "forest_ok V' h lo hi nxt cs" unfolding cs_def .
  show "distinct (no # forest_pages h cs)" using dis o(1) m unfolding cs_def by auto
  show "V' no = V no" using o(2) by simp
  have "moves V V' (?R \<union> ?S) (?R \<union> ?S')" using m moves_frame by blast
  then show "moves V V' (insert no (set (forest_pages h (pre @ old @ post))) \<union> set C) (insert no (set (forest_pages h cs)))"
    unfolding cs_def by (simp add: Un_ac insert_commute Un_left_commute)
  show "first_leaf h (snd (hd cs)) = first_leaf h (snd (hd (pre @ old @ post)))"
    using hd chain_ok_nonempty [OF ts] f(2) by (cases pre) (simp_all add: cs_def hd_append)
qed

context page_store
begin

lemma write_internal_spec:
  assumes "rep s V r" "V no \<noteq> None" "sum_list (internal_sizes es) \<le> USABLE"
  shows "\<exists>s' p. write_internal ops no es s = (Inr (), s') \<and> rep s' (V(no \<mapsto> p)) r \<and> internal_page p es"
proof -
  obtain p where p: "build_internal es = Inr p" "internal_page p es"
    using build_internal_ok assms(3) by (auto simp: internal_sizes_def)
  then have "length p = PAGE_SIZE" by (simp add: internal_page_def)
  from write_law [OF assms(1,2) this] p show ?thesis by (auto simp: write_internal_def sbind_def)
qed

lemma node_write_spec:
  assumes "rep s V r" "V no \<noteq> None" "sum_list (internal_sizes (child_cells cs)) \<le> USABLE"
    "labels_ok lo cs" "forest_ok V h lo hi nxt cs" "no \<notin> set (forest_pages h cs)"
  shows "\<exists>s' p. write_internal ops no (child_cells cs) s = (Inr (), s') \<and> rep s' (V(no \<mapsto> p)) r
    \<and> bt_wf (V(no \<mapsto> p)) (Suc h) lo hi nxt (BNode no cs)"
proof -
  obtain s' p where w: "write_internal ops no (child_cells cs) s = (Inr (), s')" "rep s' (V(no \<mapsto> p)) r"
    "internal_page p (child_cells cs)" using write_internal_spec [OF assms(1-3)] by blast
  have "same_on (V(no \<mapsto> p)) V (set (forest_pages h cs))" using assms(6) unfolding same_on_def by auto
  from node_okI [OF _ w(3) assms(3,4) forest_cong [OF assms(5) this], of no] w(1,2) show ?thesis by auto
qed

lemma node_split_spec:
  assumes rep: "rep s V (Suc r)" and live: "V no \<noteq> None"
    and big: "USABLE < sum_list (internal_sizes (child_cells cs))" "sum_list (internal_sizes (child_cells cs)) \<le> USABLE + USABLE div 2"
    and cs: "labels_ok lo cs" "forest_ok V h lo hi nxt cs" "no \<notin> set (forest_pages h cs)"
  defines "i \<equiv> split_index (internal_sizes (child_cells cs))"
  shows "\<exists>new s' p q.
      sbind (st_alloc ops) (\<lambda>new_no.
      sbind (slift (index (child_cells cs) i)) (\<lambda>e.
      sbind (slift (build_internal (take i (child_cells cs)))) (\<lambda>left.
      sbind (slift (build_internal (drop i (child_cells cs)))) (\<lambda>rgt.
      sbind (st_write ops no left) (\<lambda>_.
      sbind (st_write ops new_no rgt) (\<lambda>_. sret (Some (fst e, new_no)))))))) s
        = (Inr (Some (fst (cs ! i), new)), s')
    \<and> V new = None \<and> rep s' (V(new \<mapsto> q, no \<mapsto> p)) r \<and> 0 < i \<and> i < length cs \<and> key_fits (fst (cs ! i))
    \<and> forest_ok (V(new \<mapsto> q, no \<mapsto> p)) (Suc h) lo hi nxt [(k, BNode no (take i cs)), (fst (cs ! i), BNode new (drop i cs))]"
proof -
  have "\<forall>fp \<in> set (internal_sizes (child_cells cs)). fp \<le> USABLE div 2"
    using cs(1) key_footprint by (auto simp: internal_sizes_def child_cells_def labels_ok_def)
  from split_index_spec [OF this big] have i: "0 < i" "i < length cs"
    "sum_list (internal_sizes (child_cells (take i cs))) \<le> USABLE" "sum_list (internal_sizes (child_cells (drop i cs))) \<le> USABLE"
    by (simp_all add: i_def)
  obtain new s1 where a: "st_alloc ops s = (Inr new, s1)" "V new = None" "rep s1 (V(new \<mapsto> zero_page)) r"
    using alloc_law [OF rep] by blast
  have new: "new \<noteq> no" "new \<notin> set (forest_pages h cs)" using a(2) live forest_live [OF cs(2), of new] by auto
  obtain p where p: "build_internal (child_cells (take i cs)) = Inr p" "internal_page p (child_cells (take i cs))"
    using build_internal_ok i(3) unfolding internal_sizes_def by blast
  obtain q where q: "build_internal (child_cells (drop i cs)) = Inr q" "internal_page q (child_cells (drop i cs))"
    using build_internal_ok i(4) unfolding internal_sizes_def by blast
  obtain s2 where s2: "st_write ops no p s1 = (Inr (), s2)" "rep s2 (V(new \<mapsto> zero_page, no \<mapsto> p)) r"
    using write_law [OF a(3), of no p] live new p(2) by (auto simp: internal_page_def)
  obtain s3 where s3: "st_write ops new q s2 = (Inr (), s3)" "rep s3 (V(new \<mapsto> zero_page, no \<mapsto> p, new \<mapsto> q)) r"
    using write_law [OF s2(2), of new q] new q(2) by (auto simp: internal_page_def)
  let ?V = "V(new \<mapsto> q, no \<mapsto> p)"
  have eq: "V(new \<mapsto> zero_page, no \<mapsto> p, new \<mapsto> q) = ?V" using new(1) by (simp add: fun_upd_twist)
  note fc = forest_cut [OF cs(2) i(1,2)] and lc = labels_split [OF cs(1) i(1,2)]
  have same: "same_on ?V V (set (forest_pages h cs))" using new cs(3) unfolding same_on_def by auto
  have sub: "set (forest_pages h (take i cs)) \<subseteq> set (forest_pages h cs)" "set (forest_pages h (drop i cs)) \<subseteq> set (forest_pages h cs)"
    by (auto dest: in_set_takeD in_set_dropD)
  have "bt_wf ?V (Suc h) lo (Some (fst (cs ! i))) (first_leaf h (snd (cs ! i))) (BNode no (take i cs))"
    by (rule node_okI [OF _ p(2) i(3) lc(1) forest_cong [OF fc(1) same_on_subset [OF same sub(1)]]]) simp
  moreover have "bt_wf ?V (Suc h) (Some (fst (cs ! i))) hi nxt (BNode new (drop i cs))"
    by (rule node_okI [OF _ q(2) i(4) lc(2) forest_cong [OF fc(2) same_on_subset [OF same sub(2)]]]) (use new in simp)
  ultimately have "forest_ok ?V (Suc h) lo hi nxt [(k, BNode no (take i cs)), (fst (cs ! i), BNode new (drop i cs))]"
    using fc(3,4) by (simp add: hd_drop_conv_nth [OF i(2)] del: bt_wf.simps)
  then show ?thesis
    using a p(1) q(1) s2(1) s3 i(1,2) lc(3) eq
    by (intro exI [of _ new] exI [of _ s3] exI [of _ p] exI [of _ q]) (simp add: sbind_def del: chain_ok.simps bt_wf.simps)
qed

end

lemma halves_hd: "halves h t k res ts \<Longrightarrow> ts \<noteq> [] \<and> fst (hd ts) = k \<and> first_leaf h (snd (hd ts)) = first_leaf h t"
  by (auto simp: halves_def split: option.splits)

lemma halves_cells:
  assumes "halves h t k res ts"
  shows "child_cells ts = (k, root_no t) # (case res of None \<Rightarrow> [] | Some sep \<Rightarrow> [sep])"
    "key_fits k \<Longrightarrow> \<forall>c \<in> set ts. key_fits (fst c)"
  using assms by (auto simp: halves_def split: option.splits)

lemma cell_ok_child:
  assumes "cell_ok V lo hi (key, c)" "pre \<noteq> [] \<longrightarrow> fst d \<le> key" "post \<noteq> [] \<longrightarrow> key < fst (hd post)"
  shows "cell_ok V (if pre = [] then lo else Some (fst d)) (if post = [] then hi else Some (fst (hd post))) (key, c)"
  using assms by (simp add: cell_ok_def)

text \<open>A subtree replaced inside its parent, as far as pages and entries go.\<close>

lemma grown_context:
  assumes t: "t = BNode no (pre @ d # post)" "forest_ok V h lo hi nxt (pre @ d # post)" "V no \<noteq> None"
    and dis: "distinct (tree_pages (Suc h) t @ cell_pages c)"
    and side: "pre \<noteq> [] \<longrightarrow> fst d \<le> key" "post \<noteq> [] \<longrightarrow> key < fst (hd post)"
    and g: "grown V V' h (if pre = [] then lo else Some (fst d)) (if post = [] then hi else Some (fst (hd post)))
      (if post = [] then nxt else first_leaf h (snd (hd post))) (snd d) key c ts"
    and ts: "halves h (snd d) (fst d) res ts"
  defines "cs \<equiv> pre @ ts @ post"
  shows "forest_ok V' h lo hi nxt cs" "distinct (no # forest_pages h cs)" "V' no = V no"
    "forest_entries h cs = set_key key (value_of c) (entries (Suc h) t)"
    "moves V V' (set (tree_pages (Suc h) t) \<union> set (cell_pages c)) (insert no (set (forest_pages h cs)))"
    "first_leaf h (snd (hd cs)) = first_leaf (Suc h) t"
proof -
  note m = g [unfolded grown_def] and hd = halves_hd [OF ts]
  have f: "forest_ok V h lo hi nxt (pre @ [d] @ post)" "[d] \<noteq> []" using t(2) by simp_all
  have dis': "distinct (no # forest_pages h (pre @ [d] @ post) @ cell_pages c)" using dis by (simp add: t(1))
  have m': "moves V V' (set (forest_pages h [d]) \<union> set (cell_pages c)) (set (forest_pages h ts))" "distinct (forest_pages h ts)"
    "fst (hd ts) = fst (hd [d])" "first_leaf h (snd (hd ts)) = first_leaf h (snd (hd [d]))"
    "forest_ok V' h (if pre = [] then lo else Some (fst (hd [d]))) (if post = [] then hi else Some (fst (hd post)))
      (if post = [] then nxt else first_leaf h (snd (hd post))) ts"
    unfolding list.sel using m hd by simp_all
  note rc = replace_context [OF f t(3) dis' m'(5,3,4,2,1), folded cs_def]
  show "forest_ok V' h lo hi nxt cs" "distinct (no # forest_pages h cs)" "V' no = V no" by (rule rc(1-3))+
  show "moves V V' (set (tree_pages (Suc h) t) \<union> set (cell_pages c)) (insert no (set (forest_pages h cs)))"
    "first_leaf h (snd (hd cs)) = first_leaf (Suc h) t"
    using rc(4,5) by (simp_all add: t(1))
  have "forest_entries h cs = forest_entries h pre @ set_key key (value_of c) (entries h (snd d)) @ forest_entries h post"
    using m by (simp add: cs_def)
  also have "\<dots> = set_key key (value_of c) (entries (Suc h) t)"
    using key_split_middle(1) [of "forest_entries h pre" key "forest_entries h post" "value_of c" "entries h (snd d)"]
      forest_lookup [OF t(2) side] unfolding t(1) by simp
  finally show "forest_entries h cs = set_key key (value_of c) (entries (Suc h) t)" .
qed

lemma labels_replace:
  assumes "labels_ok lo (pre @ d # post)" "halves h t (fst d) res ts"
  shows "labels_ok lo (pre @ ts @ post)"
  using assms(1) halves_hd [OF assms(2)] halves_cells(2) [OF assms(2)] by (cases pre) (auto simp: labels_ok_def)

context page_store
begin

lemma insert_node_spec:
  assumes t: "t = BNode no (pre @ d # post)" "V no = Some p" "internal_page p (child_cells (pre @ d # post))" "labels_ok lo (pre @ d # post)"
      "sum_list (internal_sizes (child_cells (pre @ d # post))) \<le> USABLE" "forest_ok V h lo hi nxt (pre @ d # post)"
    and dis: "distinct (tree_pages (Suc h) t @ cell_pages c)"
    and side: "pre \<noteq> [] \<longrightarrow> fst d \<le> key" "post \<noteq> [] \<longrightarrow> key < fst (hd post)"
    and g: "grown V V1 h (if pre = [] then lo else Some (fst d)) (if post = [] then hi else Some (fst (hd post)))
      (if post = [] then nxt else first_leaf h (snd (hd post))) (snd d) key c ts"
    and ts: "halves h (snd d) (fst d) (Some sep) ts"
    and rep: "rep s V1 (Suc r)"
  defines "entries' \<equiv> insert_at (length pre + 1) sep (child_cells (pre @ d # post))"
  shows "\<exists>s' V' res ts. (if sum_list (internal_sizes entries') \<le> USABLE then
                  sbind (write_internal ops no entries') (\<lambda>_. sret None)
                else
                  let s = split_index (internal_sizes entries') in
                  sbind (st_alloc ops) (\<lambda>new_no.
                  sbind (slift (index entries' s)) (\<lambda>e.
                  sbind (slift (build_internal (take s entries'))) (\<lambda>left.
                  sbind (slift (build_internal (drop s entries'))) (\<lambda>rgt.
                  sbind (st_write ops no left) (\<lambda>_.
                  sbind (st_write ops new_no rgt) (\<lambda>_. sret (Some (fst e, new_no))))))))) s = (Inr res, s')
    \<and> rep s' V' r \<and> halves (Suc h) t k res ts \<and> grown V V' (Suc h) lo hi nxt t key c ts"
proof -
  define cs where "cs = pre @ ts @ post"
  have live: "V no \<noteq> None" using t(2) by simp
  note gc = grown_context [OF t(1,6) live dis side g ts, folded cs_def]
  have e: "entries' = child_cells cs"
    unfolding entries'_def cs_def child_cells_simps(1) halves_cells(1) [OF ts] by (simp add: insert_at_def)
  have labels: "labels_ok lo cs" unfolding cs_def by (rule labels_replace [OF t(4) ts])
  have V1: "V1 no \<noteq> None" "no \<notin> set (forest_pages h cs)" "distinct (forest_pages h cs)" using gc(2,3) live by auto
  let ?S = "set (tree_pages (Suc h) t) \<union> set (cell_pages c)" and ?S' = "insert no (set (forest_pages h cs))"
  have no: "no \<in> ?S" "no \<in> ?S'" by (simp_all add: t(1))
  show ?thesis
  proof (cases "sum_list (internal_sizes (child_cells cs)) \<le> USABLE")
    case True
    obtain s' q where w: "write_internal ops no (child_cells cs) s = (Inr (), s')" "rep s' (V1(no \<mapsto> q)) (Suc r)"
      "bt_wf (V1(no \<mapsto> q)) (Suc h) lo hi nxt (BNode no cs)"
      using node_write_spec [OF rep V1(1) True labels gc(1) V1(2)] by blast
    have "grown V (V1(no \<mapsto> q)) (Suc h) lo hi nxt t key c [(k, BNode no cs)]"
      using w(3) V1 gc(4) moves_write [OF gc(5) no] by (simp add: grown_def del: bt_wf.simps)
    moreover have "halves (Suc h) t k None [(k, BNode no cs)]" using gc(6) by (simp add: halves_def t(1))
    ultimately show ?thesis
      using w(1) room_law [OF w(2), of r] True unfolding e by (auto simp: sbind_def)
  next
    case False
    let ?i = "split_index (internal_sizes (child_cells cs))"
    have "internal_footprint (fst sep) \<le> USABLE div 2"
      using ts key_footprint by (auto simp: halves_def)
    then have "sum_list (internal_sizes (child_cells cs)) \<le> USABLE + USABLE div 2"
      using t(5) unfolding e [symmetric] entries'_def insert_at_def by (simp add: sum_list_append [symmetric])
    from node_split_spec [OF rep V1(1) _ this labels gc(1) V1(2), of k] False obtain new s' q q' where
      w: "sbind (st_alloc ops) (\<lambda>new_no.
          sbind (slift (index (child_cells cs) ?i)) (\<lambda>e.
          sbind (slift (build_internal (take ?i (child_cells cs)))) (\<lambda>left.
          sbind (slift (build_internal (drop ?i (child_cells cs)))) (\<lambda>rgt.
          sbind (st_write ops no left) (\<lambda>_.
          sbind (st_write ops new_no rgt) (\<lambda>_. sret (Some (fst e, new_no)))))))) s = (Inr (Some (fst (cs ! ?i), new)), s')"
        "V1 new = None" "rep s' (V1(new \<mapsto> q', no \<mapsto> q)) r" "0 < ?i" "?i < length cs" "key_fits (fst (cs ! ?i))"
        "forest_ok (V1(new \<mapsto> q', no \<mapsto> q)) (Suc h) lo hi nxt [(k, BNode no (take ?i cs)), (fst (cs ! ?i), BNode new (drop ?i cs))]"
      by (auto simp del: chain_ok.simps bt_wf.simps)
    let ?ts = "[(k, BNode no (take ?i cs)), (fst (cs ! ?i), BNode new (drop ?i cs))]"
    have two: "forest_pages h cs = forest_pages h (take ?i cs) @ forest_pages h (drop ?i cs)"
      "forest_entries h cs = forest_entries h (take ?i cs) @ forest_entries h (drop ?i cs)"
      by (metis append_take_drop_id concat_append map_append)+
    have new: "new \<noteq> no" "new \<notin> set (forest_pages h cs)" using w(2) V1(1) forest_live [OF gc(1), of new] by auto
    have "moves V (V1(new \<mapsto> q', no \<mapsto> q)) ?S (insert new ?S')"
      by (rule moves_write [OF moves_alloc [OF gc(5) w(2)]]) (use no in auto)
    then have "grown V (V1(new \<mapsto> q', no \<mapsto> q)) (Suc h) lo hi nxt t key c ?ts"
      using w(7) new V1 gc(4) unfolding two
      by (simp add: grown_def insert_commute del: chain_ok.simps bt_wf.simps)
    moreover have "halves (Suc h) t k (Some (fst (cs ! ?i), new)) ?ts"
      using gc(6) w(4-6) by (simp add: halves_def t(1))
    ultimately show ?thesis using w(1,3) False unfolding e Let_def by auto
  qed
qed

end

context page_store
begin

lemma insert_into_spec:
  assumes "rep s V (r + Suc h)" "bt_wf V h lo hi nxt t" "h < depth" "length (tree_pages h t) \<le> fuel"
    "distinct (tree_pages h t @ cell_pages c)" "cell_ok V lo hi (key, c)"
  shows "\<exists>s' V' res ts. insert_into depth fuel ops key (stored_of c) (root_no t) s = (Inr res, s') \<and> rep s' V' r
    \<and> halves h t k res ts \<and> grown V V' h lo hi nxt t key c ts"
  using assms
proof (induction h arbitrary: depth s r lo hi nxt t k)
  case 0
  obtain d where "depth = Suc d" using "0.prems"(3) by (cases depth) auto
  with insert_leaf_spec [OF _ "0.prems"(2,4-6)] "0.prems"(1) show ?case by simp
next
  case (Suc h)
  obtain dep where d: "depth = Suc dep" "h < dep" using Suc.prems(3) by (cases depth) auto
  obtain no pre d post p where n: "t = BNode no (pre @ d # post)" "V no = Some p" "\<not> is_leaf p" "is_internal p"
    "internal_page p (child_cells (pre @ d # post))"
    "find_child p key = Inr (length pre)" "follow_child p key = Inr (root_no (snd d))"
    "forest_ok V h lo hi nxt (pre @ d # post)"
    "pre \<noteq> [] \<longrightarrow> fst d \<le> key" "post \<noteq> [] \<longrightarrow> key < fst (hd post)"
    by (rule node_step [OF Suc.prems(2)])
  have labels: "labels_ok lo (pre @ d # post)" "sum_list (internal_sizes (child_cells (pre @ d # post))) \<le> USABLE"
    using node_okE [OF Suc.prems(2)] n(1) by (metis bt.inject(2))+
  obtain s1 where s1: "st_read ops no s = (Inr p, s1)" "rep s1 V (Suc r + Suc h)"
    using read_law [OF Suc.prems(1) n(2)] by auto
  let ?lo = "if pre = [] then lo else Some (fst d)" and ?hi = "if post = [] then hi else Some (fst (hd post))"
    and ?nxt = "if post = [] then nxt else first_leaf h (snd (hd post))"
  have wf: "bt_wf V h ?lo ?hi ?nxt (snd d)" using n(8) unfolding chain_ok_focus list.sel by blast
  have pg: "length (tree_pages h (snd d)) \<le> fuel" "distinct (tree_pages h (snd d) @ cell_pages c)"
    using Suc.prems(4,5) unfolding n(1) by auto
  obtain s2 V1 res ts where ih: "insert_into dep fuel ops key (stored_of c) (root_no (snd d)) s1 = (Inr res, s2)"
    "rep s2 V1 (Suc r)" "halves h (snd d) (fst d) res ts" "grown V V1 h ?lo ?hi ?nxt (snd d) key c ts"
    using Suc.IH [OF s1(2) wf d(2) pg cell_ok_child [OF Suc.prems(6) n(9,10)]] by blast
  have live: "V no \<noteq> None" using n(2) by simp
  note gc = grown_context [OF n(1,8) live Suc.prems(5) n(9,10) ih(4,3)]
  have idx: "index (child_cells (pre @ d # post)) (length pre) = Inr (fst d, root_no (snd d))"
    by (simp add: index_def nth_append)
  note run = s1(1) n(3,6) internal_page_entries [OF n(5)] idx ih(1)
  show ?case
  proof (cases res)
    case None
    have "child_cells (pre @ ts @ post) = child_cells (pre @ d # post)"
      using halves_cells(1) [OF ih(3)] None by simp
    then have "bt_wf V1 (Suc h) lo hi nxt (BNode no (pre @ ts @ post))"
      using n(2,5) gc(1,3) labels labels_replace [OF labels(1) ih(3)] node_okI [of V1 no p] by simp
    then have "grown V V1 (Suc h) lo hi nxt t key c [(k, BNode no (pre @ ts @ post))]"
      using gc(2,4,5) unfolding grown_def by (simp del: bt_wf.simps)
    moreover have "halves (Suc h) t k None [(k, BNode no (pre @ ts @ post))]" using gc(6) by (simp add: halves_def n(1))
    moreover have "insert_into depth fuel ops key (stored_of c) (root_no t) s = (Inr None, s2)"
      using run None by (simp add: d(1) n(1) sbind_def)
    ultimately show ?thesis using room_law [OF ih(2), of r] by auto
  next
    case (Some sep)
    have "insert_into depth fuel ops key (stored_of c) (root_no t) s =
      (let entries' = insert_at (length pre + 1) sep (child_cells (pre @ d # post)) in
        (if sum_list (internal_sizes entries') \<le> USABLE then
                  sbind (write_internal ops no entries') (\<lambda>_. sret None)
                else
                  let s = split_index (internal_sizes entries') in
                  sbind (st_alloc ops) (\<lambda>new_no.
                  sbind (slift (index entries' s)) (\<lambda>e.
                  sbind (slift (build_internal (take s entries'))) (\<lambda>left.
                  sbind (slift (build_internal (drop s entries'))) (\<lambda>rgt.
                  sbind (st_write ops no left) (\<lambda>_.
                  sbind (st_write ops new_no rgt) (\<lambda>_. sret (Some (fst e, new_no)))))))))) s2"
      using run Some by (simp add: d(1) n(1) sbind_def Let_def)
    with insert_node_spec [OF n(1,2,5) labels n(8) Suc.prems(5) n(9,10) ih(4) ih(3) [unfolded Some] ih(2), of k] show ?thesis
      unfolding Let_def by presburger
  qed
qed

end

section \<open>Growing the root\<close>

primrec set_root :: "u32 \<Rightarrow> bt \<Rightarrow> bt" where
  "set_root no (BLeaf _ es link) = BLeaf no es link"
| "set_root no (BNode _ cs) = BNode no cs"

lemma set_root_simps [simp]:
  "root_no (set_root no t) = no" "kids (set_root no t) = kids t" "leaf_cells (set_root no t) = leaf_cells t"
  by (cases t; simp)+

lemma set_root_pages: "tree_pages h (set_root no t) = no # tl (tree_pages h t)" "entries h (set_root no t) = entries h t"
  by (cases h; simp)+

lemma set_root_wf: "bt_wf V h lo hi nxt t \<Longrightarrow> V no = V (root_no t) \<Longrightarrow> bt_wf V h lo hi nxt (set_root no t)"
  by (cases h; cases t) (auto simp: leaf_ok_def node_ok_def)

lemma root_first: "hd (tree_pages h t) = root_no t" "tree_pages h t = root_no t # tl (tree_pages h t)"
  by (cases h; simp)+

lemma first_key_ok:
  assumes "bt_wf V h lo hi nxt t" "V (root_no t) = Some p" "h = 0 \<longrightarrow> leaf_cells t \<noteq> []"
  shows "\<exists>k. first_key p = Inr k \<and> key_fits k"
proof (cases h)
  case 0
  then obtain no es where l: "t = BLeaf no es nxt" "leaf_page p (stored_entries es) nxt" "\<forall>e \<in> set es. cell_ok V lo hi e"
    using assms(1,2) by (auto simp: leaf_ok_def)
  then have "first_key p = Inr (fst (es ! 0))" "cell_ok V lo hi (es ! 0)" using assms(3) 0 by (auto simp: first_key_def leaf_page_def is_leaf_def)
  then show ?thesis by (simp add: cell_ok_def)
next
  case (Suc n)
  obtain no cs where l: "t = BNode no cs" "internal_page p (child_cells cs)" "labels_ok lo cs" "forest_ok V n lo hi nxt cs"
    using node_okE [OF assms(1) [unfolded Suc]] assms(2) by (metis option.inject root_no.simps(2))
  then have "first_key p = Inr (fst (cs ! 0))" "cs ! 0 \<in> set cs" using chain_ok_nonempty [OF l(4)]
    by (auto simp: first_key_def internal_page_def is_leaf_def page_consts)
  then show ?thesis using l(3) by (auto simp: labels_ok_def)
qed

lemma forest_pages_two: "forest_pages h [(k, t1), (k', t2)] = tree_pages h t1 @ tree_pages h t2"
  by simp

context page_store
begin

lemma grow_root_spec:
  assumes rep: "rep s V (Suc r)" and f: "forest_ok V h None None 0 [(k, t1), (sep, t2)]"
    and dis: "distinct (forest_pages h [(k, t1), (sep, t2)])" and fit: "key_fits sep" "h = 0 \<longrightarrow> leaf_cells t1 \<noteq> []"
  shows "\<exists>s' low left p q. grow_root ops (root_no t1) (sep, root_no t2) s = (Inr (), s') \<and> V left = None
    \<and> rep s' (V(left \<mapsto> p, root_no t1 \<mapsto> q)) r
    \<and> bt_wf (V(left \<mapsto> p, root_no t1 \<mapsto> q)) (Suc h) None None 0 (BNode (root_no t1) [(low, set_root left t1), (sep, t2)])"
proof -
  have w: "bt_wf V h None (Some sep) (first_leaf h t2) t1" "bt_wf V h (Some sep) None 0 t2" using f by auto
  have in1: "root_no t1 \<in> set (tree_pages h t1)" by (subst root_first(2)) simp
  obtain p where p: "V (root_no t1) = Some p" using wf_live [OF w(1) in1] by blast
  obtain low where low: "first_key p = Inr low" "key_fits low" using first_key_ok [OF w(1) p fit(2)] by blast
  obtain left s1 where a: "st_alloc ops s = (Inr left, s1)" "V left = None" "rep s1 (V(left \<mapsto> zero_page)) r"
    using alloc_law [OF rep] by blast
  have new: "left \<noteq> root_no t1" "left \<notin> set (tree_pages h t1)" "left \<notin> set (tree_pages h t2)"
    using a(2) p wf_live [OF w(1), of left] wf_live [OF w(2), of left] by auto
  obtain s2 where s2: "st_read ops (root_no t1) s1 = (Inr p, s2)" "rep s2 (V(left \<mapsto> zero_page)) r"
    using read_law [OF a(3), of "root_no t1" p] p new by auto
  obtain s3 where s3: "st_write ops left p s2 = (Inr (), s3)" "rep s3 (V(left \<mapsto> p)) r"
    using write_law [OF s2(2), of left p] page_law [OF rep p] by auto
  obtain s4 where s4: "st_read ops (root_no t1) s3 = (Inr p, s4)" "rep s4 (V(left \<mapsto> p)) r"
    using read_law [OF s3(2), of "root_no t1" p] p new by auto
  let ?V = "V(left \<mapsto> p)" and ?cs = "[(low, set_root left t1), (sep, t2)]"
  have same: "same_on ?V V (set (tree_pages h t1) \<union> set (tree_pages h t2))" using new unfolding same_on_def by auto
  then have "bt_wf ?V h None (Some sep) (first_leaf h t2) (set_root left t1)" "bt_wf ?V h (Some sep) None 0 t2"
    using set_root_wf [OF wf_cong [OF w(1)], of ?V left] wf_cong [OF w(2)] p new(1) unfolding same_on_simps(3) by auto
  then have forest: "forest_ok ?V h None None 0 ?cs" by simp
  have "root_no t1 \<notin> set (forest_pages h ?cs)"
    using dis new(1) unfolding forest_pages_two set_root_pages by (subst (asm) root_first(2)) auto
  moreover have "sum_list (internal_sizes (child_cells ?cs)) \<le> USABLE"
    using key_footprint [OF fit(1)] key_footprint [OF low(2)] by simp
  moreover have "labels_ok None ?cs" using fit(1) low(2) by (simp add: labels_ok_def)
  moreover have "?V (root_no t1) \<noteq> None" using p by simp
  ultimately obtain s5 q where s5: "write_internal ops (root_no t1) (child_cells ?cs) s4 = (Inr (), s5)"
    "rep s5 (?V(root_no t1 \<mapsto> q)) r" "bt_wf (?V(root_no t1 \<mapsto> q)) (Suc h) None None 0 (BNode (root_no t1) ?cs)"
    using node_write_spec [OF s4(2) _ _ _ forest, of "root_no t1"] by blast
  have "grow_root ops (root_no t1) (sep, root_no t2) s = (Inr (), s5)"
    using a(1) s2(1) s3(1) s4(1) s5(1) low(1) by (simp add: grow_root_def sbind_def)
  then show ?thesis using a(2) s5(2,3) by blast
qed

end

end
