(* ===== verification/Btree_Insert.thy ===== *)
theory Btree_Insert
  imports Btree_Update
begin

text \<open>
  Insertion as a whole: the optimistic attempt on the leaf of the key, the pessimistic descent when
  the leaf would overflow, the growth of the root, and the overflow chain of a large value. The
  lemmas in \<open>page_store\<close> hold for any page store; the properties at the end are their instances for
  the pager.
\<close>

definition tree_at :: "page_map \<Rightarrow> u32 \<Rightarrow> nat \<Rightarrow> bt \<Rightarrow> bool" where
  "tree_at V root h t \<longleftrightarrow> bt_wf V h None None 0 t \<and> root_no t = root \<and> distinct (tree_pages h t)"

definition cost :: "nat \<Rightarrow> bt \<Rightarrow> nat" where
  "cost h t = length (tree_pages h t) + length (entries h t) + h"

lemma leaf_focus_leaf:
  assumes "bt_wf V 0 lo hi nxt t" "above lo key" "below hi key"
  shows "leaf_focus V 0 lo hi nxt t key (root_no t) (leaf_cells t) nxt lo hi"
proof -
  obtain no es where "t = BLeaf no es nxt" using assms(1) by (auto simp: leaf_ok_def)
  then show ?thesis
    using assms unfolding leaf_focus_def
    by (intro conjI exI [of _ "[]"]) (simp_all add: replaceable_def del: bt_wf.simps, fastforce)
qed

text \<open>A change of the leaf alone, seen from the root.\<close>

lemma focus_moves:
  assumes f: "leaf_focus V h lo hi nxt t key no es link lo' hi'" and t: "bt_wf V h lo hi nxt t"
    and dis: "distinct (tree_pages h t)" "set (tree_pages h t) \<inter> C = {}" "\<And>x. x \<in> C \<Longrightarrow> V x \<noteq> None"
    and w: "bt_wf V' 0 lo' hi' link (BLeaf no es' link)" "distinct (no # cells_pages es')"
    and m: "moves V V' (insert no (set (cells_pages es) \<union> C)) (insert no (set (cells_pages es')))"
    and e: "\<And>A B. \<forall>e \<in> set A. fst e < key \<Longrightarrow> \<forall>e \<in> set B. key < fst e \<Longrightarrow>
      entries h t = A @ cells_entries es @ B \<Longrightarrow> A @ cells_entries es' @ B = ents"
  shows "\<exists>t'. bt_wf V' h lo hi nxt t' \<and> root_no t' = root_no t \<and> distinct (tree_pages h t') \<and> entries h t' = ents
    \<and> moves V V' (set (tree_pages h t) \<union> C) (set (tree_pages h t'))"
proof -
  obtain P Q A B where d: "tree_pages h t = P @ (no # cells_pages es) @ Q" "entries h t = A @ cells_entries es @ B"
    "\<forall>e \<in> set A. fst e < key" "\<forall>e \<in> set B. key < fst e"
    "replaceable V h lo hi nxt t no link lo' hi' P Q A B"
    using f unfolding leaf_focus_def by blast
  let ?R = "set P \<union> set Q" and ?S = "insert no (set (cells_pages es) \<union> C)" and ?S' = "insert no (set (cells_pages es'))"
  have "?R \<inter> ?S = {}" using dis(1,2) unfolding d(1) by auto
  moreover have "V x \<noteq> None" if "x \<in> ?R" for x using wf_live [OF t, of x] that unfolding d(1) by auto
  ultimately have o: "?R \<inter> ?S' = {}" "same_on V' V ?R" using moves_other [OF m, of ?R] by blast+
  obtain t' where t': "bt_wf V' h lo hi nxt t'" "root_no t' = root_no t"
    "tree_pages h t' = P @ (no # cells_pages es') @ Q" "entries h t' = A @ cells_entries es' @ B"
    using replaceableD [OF d(5) w(1) o(2)] by blast
  have "distinct (tree_pages h t')" using dis(1) w(2) o(1) unfolding d(1) t'(3) by auto
  moreover have "moves V V' (set (tree_pages h t) \<union> C) (set (tree_pages h t'))"
    using moves_frame [OF m, of ?R] unfolding d(1) t'(3) by (simp add: Un_ac Un_left_commute insert_commute)
  moreover have "entries h t' = ents" unfolding t'(4) by (rule e [OF d(3,4,2)])
  ultimately show ?thesis using t'(1,2) by blast
qed

context page_store
begin

lemma descend_spec:
  assumes "rep s V r" "bt_wf V h lo hi nxt t" "h < depth" "above lo key" "below hi key"
  shows "\<exists>s' no es link lo' hi'. descend depth ops key (root_no t) s = (Inr no, s') \<and> rep s' V r
    \<and> leaf_focus V h lo hi nxt t key no es link lo' hi'"
  using assms
proof (induction h arbitrary: depth s lo hi nxt t)
  case 0
  obtain d where d: "depth = Suc d" using "0.prems"(3) by (cases depth) auto
  obtain no es p where t: "t = BLeaf no es nxt" "V no = Some p" "is_leaf p" "leaf_page p (stored_entries es) nxt"
    "sorted_wrt (<) (map fst es)" "find_leaf_slot p key = Inr (binary_search (map fst es) key)"
    "leaf_entries p = Inr (stored_entries es)" "right_link p = Inr nxt" by (rule leaf_step [OF "0.prems"(2)])
  obtain s1 where s1: "st_read ops no s = (Inr p, s1)" "rep s1 V r" using read_law [OF "0.prems"(1) t(2)] by blast
  have "descend depth ops key (root_no t) s = (Inr (root_no t), s1)" using d t(1,3) s1(1) by (simp add: sbind_def)
  then show ?case using leaf_focus_leaf [OF "0.prems"(2,4,5)] s1(2) by blast
next
  case (Suc h)
  obtain dep where d: "depth = Suc dep" "h < dep" using Suc.prems(3) by (cases depth) auto
  obtain no pre c post p where t: "t = BNode no (pre @ c # post)" "V no = Some p" "\<not> is_leaf p" "is_internal p"
    "internal_page p (child_cells (pre @ c # post))"
    "find_child p key = Inr (length pre)" "follow_child p key = Inr (root_no (snd c))"
    "forest_ok V h lo hi nxt (pre @ c # post)"
    "pre \<noteq> [] \<longrightarrow> fst c \<le> key" "post \<noteq> [] \<longrightarrow> key < fst (hd post)"
    by (rule node_step [OF Suc.prems(2)])
  obtain s1 where s1: "st_read ops no s = (Inr p, s1)" "rep s1 V r" using read_law [OF Suc.prems(1) t(2)] by blast
  let ?lo = "if pre = [] then lo else Some (fst c)" and ?hi = "if post = [] then hi else Some (fst (hd post))"
    and ?nxt = "if post = [] then nxt else first_leaf h (snd (hd post))"
  have wf: "bt_wf V h ?lo ?hi ?nxt (snd c)" using t(8) unfolding chain_ok_focus list.sel by blast
  have "above ?lo key" "below ?hi key" using Suc.prems(4,5) t(9,10) by auto
  from Suc.IH [OF s1(2) wf d(2) this] obtain s2 lno es link lo' hi' where
    ih: "descend dep ops key (root_no (snd c)) s1 = (Inr lno, s2)" "rep s2 V r"
      "leaf_focus V h ?lo ?hi ?nxt (snd c) key lno es link lo' hi'" by blast
  have "node_ok V lo t" using Suc.prems(2) by simp
  from leaf_focus_up [OF ih(3) t(1) this t(8-10)]
  have "leaf_focus V (Suc h) lo hi nxt t key lno es link lo' hi'" .
  moreover have "descend depth ops key (root_no t) s = (Inr lno, s2)" using d(1) t(1,3,7) s1(1) ih(1) by (simp add: sbind_def)
  ultimately show ?case using ih(2) by blast
qed

end

context page_store
begin

lemma try_insert_optimistic_spec:
  assumes rep: "rep s V r" and t: "bt_wf V h None None 0 t" and fuel: "h < fuel" "length (tree_pages h t) \<le> fuel"
    and dis: "distinct (tree_pages h t @ cell_pages c)" and c: "cell_ok V None None (key, c)"
  shows "\<exists>s' V' out. try_insert_optimistic fuel ops (root_no t) key (stored_of c) s = (Inr out, s') \<and> rep s' V' r
    \<and> (case out of Restart \<Rightarrow> V' = V
       | Done \<Rightarrow> \<exists>t'. bt_wf V' h None None 0 t' \<and> root_no t' = root_no t \<and> distinct (tree_pages h t')
           \<and> entries h t' = set_key key (value_of c) (entries h t)
           \<and> moves V V' (set (tree_pages h t) \<union> set (cell_pages c)) (set (tree_pages h t')))"
proof -
  obtain s1 no es link lo hi where f: "descend fuel ops key (root_no t) s = (Inr no, s1)" "rep s1 V r"
    "leaf_focus V h None None 0 t key no es link lo hi"
    using descend_spec [OF rep t fuel(1) bound_simps(1,3), of key] by blast
  have l: "bt_wf V 0 lo hi link (BLeaf no es link)" and b: "above lo key" "below hi key"
    using f(3) unfolding leaf_focus_def by blast+
  obtain P Q where pages: "tree_pages h t = P @ (no # cells_pages es) @ Q" using f(3) unfolding leaf_focus_def by blast
  have dl: "distinct (no # cells_pages es @ cell_pages c)" "length (cells_pages es) < fuel" using dis fuel(2) unfolding pages by auto
  have cl: "cell_ok V lo hi (key, c)" using c b by (simp add: cell_ok_def)
  obtain p where p: "V no = Some p" "leaf_page p (stored_entries es) link" "sorted_wrt (<) (map fst es)" "\<forall>e \<in> set es. cell_in V (snd e)"
    using l by (auto simp: leaf_ok_def cell_ok_def)
  obtain s2 where s2: "st_read ops no s1 = (Inr p, s2)" "rep s2 V r" using read_law [OF f(2) p(1)] by blast
  note lr = leaf_page_reads [OF p(2)]
  let ?es = "set_key key c es"
  let ?rest = "sbind (put_leaf fuel ops key (stored_of c) (stored_entries es)) (\<lambda>new.
      sbind (write_leaf ops no new link) (\<lambda>_. sret Done))"
  have run: "try_insert_optimistic fuel ops (root_no t) key (stored_of c) s =
      (if beyond_leaf key (stored_entries es) link \<or> USABLE < sum_list (leaf_sizes (stored_entries ?es)) then sret Restart
       else ?rest) s2"
    using f(1) s2(1) lr stored_found(1) [OF p(3)] stored_missing [OF p(3)] found_split(1,2) [OF p(3)]
    by (simp add: try_insert_optimistic_def put_leaf_def sbind_def Let_def split: search.splits prod.splits sum.splits)
  show ?thesis
  proof (cases "beyond_leaf key (stored_entries es) link \<or> USABLE < sum_list (leaf_sizes (stored_entries ?es))")
    case True
    then show ?thesis using run s2(2) by (intro exI [of _ s2] exI [of _ V] exI [of _ Restart]) simp
  next
    case False
    have "distinct (cells_pages es)" using dl(1) by simp
    from put_leaf_spec [OF s2(2) p(3,4) this dl(2), of key c] obtain s3 where
      s3: "put_leaf fuel ops key (stored_of c) (stored_entries es) s2 = (Inr (stored_entries ?es), s3)"
        "rep s3 (without V (cells_pages (at_key key es))) r" by blast
    obtain s4 V' where w: "write_leaf ops no (stored_entries ?es) link s3 = (Inr (), s4)" "rep s4 V' r"
      "bt_wf V' 0 lo hi link (BLeaf no ?es link)"
      "moves V V' (insert no (set (cells_pages es) \<union> set (cell_pages c))) (insert no (set (cells_pages ?es)))"
      using put_fits_spec [OF s3(2) l cl dl(1)] False by auto
    have live: "V x \<noteq> None" if "x \<in> set (cell_pages c)" for x
      using that c cell_in_live [of V c x] by (auto simp: cell_ok_def)
    have ents: "A @ cells_entries ?es @ B = set_key key (value_of c) (entries h t)"
      if "\<forall>e \<in> set A. fst e < key" "\<forall>e \<in> set B. key < fst e" "entries h t = A @ cells_entries es @ B" for A B
      unfolding that(3) cells_entries_keys key_split_middle(1) [OF that(1,2)] ..
    have "\<exists>t'. bt_wf V' h None None 0 t' \<and> root_no t' = root_no t \<and> distinct (tree_pages h t')
        \<and> entries h t' = set_key key (value_of c) (entries h t)
        \<and> moves V V' (set (tree_pages h t) \<union> set (cell_pages c)) (set (tree_pages h t'))"
      by (rule focus_moves [OF f(3) t _ _ live w(3) put_leaf_ok(3) [OF l cl dl(1)] w(4) ents]) (use dis in auto)
    moreover have "try_insert_optimistic fuel ops (root_no t) key (stored_of c) s = (Inr Done, s4)"
      unfolding run using False s3(1) w(1) by (simp add: sbind_def)
    ultimately show ?thesis using w(2) by (intro exI [of _ s4] exI [of _ V'] exI [of _ Done]) simp
  qed
qed

text \<open>The value as the leaf stores it: inline, or a chain of fresh pages.\<close>

lemma stored_form_spec:
  assumes "rep s V (r + length (chunks v))" "key_fits key"
  shows "\<exists>s' V' c. stored_form ops key v s = (Inr (stored_of c), s') \<and> rep s' V' r \<and> value_of c = v
    \<and> cell_ok V' None None (key, c) \<and> distinct (cell_pages c) \<and> moves V V' {} (set (cell_pages c))"
proof (cases "LEAF_CELL_OVERHEAD + length key + 1 + length v \<le> MAX_CELL")
  case True
  then show ?thesis
    using assms room_law [OF assms(1), of r]
    by (intro exI [of _ s] exI [of _ V] exI [of _ "Inline v"]) (simp add: stored_form_def cell_ok_def moves_def)
next
  case False
  obtain qs s' V' where w: "write_overflow ops v s = (Inr (head_no qs), s')" "rep s' V' r" "chain_in V' qs v" "distinct qs"
    "\<forall>no \<in> set qs. V no = None \<and> V' no \<noteq> None" "\<forall>no. no \<notin> set qs \<longrightarrow> V' no = V no"
    using write_overflow_spec [OF assms(1)] by blast
  have "moves V V' {} (set qs)" using w(5,6) unfolding moves_def by blast
  then show ?thesis
    using False w assms(2)
    by (intro exI [of _ s'] exI [of _ V'] exI [of _ "Spilled qs v"])
      (simp add: stored_form_def sbind_def cell_ok_def key_fits_def)
qed

end

lemma moves_trans_fresh: "moves V V1 {} C \<Longrightarrow> moves V1 V' (S \<union> C) S' \<Longrightarrow> S \<inter> C = {} \<Longrightarrow> moves V V' S S'"
  unfolding moves_def by (intro conjI allI ballI impI) (metis Diff_iff Un_iff empty_iff)+

lemma cost_bounds: "cost h t < fuel \<Longrightarrow> h < fuel" "cost h t < fuel \<Longrightarrow> length (tree_pages h t) \<le> fuel"
  by (simp_all add: cost_def)

context page_store
begin

lemma insert_root_spec:
  assumes rep: "rep s V (Suc r + Suc h)" and wf: "bt_wf V h None None 0 t" and f: "h < fuel" "length (tree_pages h t) \<le> fuel"
    and dis: "distinct (tree_pages h t @ cell_pages c)" and c: "cell_ok V None None (key, c)"
  shows "\<exists>s' V' h' t'. sbind (insert_into fuel fuel ops key (stored_of c) (root_no t)) (\<lambda>res.
      case res of None \<Rightarrow> sret () | Some new_cell \<Rightarrow> grow_root ops (root_no t) new_cell) s = (Inr (), s') \<and> rep s' V' r
    \<and> tree_at V' (root_no t) h' t' \<and> entries h' t' = set_key key (value_of c) (entries h t)
    \<and> moves V V' (set (tree_pages h t) \<union> set (cell_pages c)) (set (tree_pages h' t')) \<and> h' \<le> Suc h"
proof -
  obtain s1 V1 res ts where i: "insert_into fuel fuel ops key (stored_of c) (root_no t) s = (Inr res, s1)" "rep s1 V1 (Suc r)"
    "halves h t [] res ts" "grown V V1 h None None 0 t key c ts"
    using insert_into_spec [OF rep wf f dis c] by blast
  note g = i(4) [unfolded grown_def]
  obtain t1 where t1: "root_no t1 = root_no t" "res = None \<longrightarrow> ts = [([], t1)]"
    "\<forall>sep. res = Some sep \<longrightarrow> (\<exists>t2. ts = [([], t1), (fst sep, t2)] \<and> root_no t2 = snd sep \<and> key_fits (fst sep)
          \<and> (h = 0 \<longrightarrow> leaf_cells t1 \<noteq> []))"
    using i(3) unfolding halves_def by (auto split: option.splits)
  show ?thesis
  proof (cases res)
    case None
    then have ts: "ts = [([], t1)]" using t1(2) by simp
    have "tree_at V1 (root_no t) h t1" "entries h t1 = set_key key (value_of c) (entries h t)"
      "moves V V1 (set (tree_pages h t) \<union> set (cell_pages c)) (set (tree_pages h t1))"
      using g unfolding ts by (simp_all add: tree_at_def t1(1))
    then show ?thesis using i(1) None room_law [OF i(2), of r]
      by (intro exI [of _ s1] exI [of _ V1] exI [of _ h] exI [of _ t1]) (simp add: sbind_def)
  next
    case (Some sep)
    obtain t2 where ts: "ts = [([], t1), (fst sep, t2)]" and t2: "root_no t2 = snd sep" "key_fits (fst sep)"
      "h = 0 \<longrightarrow> leaf_cells t1 \<noteq> []" using t1(3) Some by blast
    have fo: "forest_ok V1 h None None 0 [([], t1), (fst sep, t2)]" "distinct (forest_pages h [([], t1), (fst sep, t2)])"
      using g unfolding ts by blast+
    obtain s2 low left p q where gr: "grow_root ops (root_no t) sep s1 = (Inr (), s2)" "V1 left = None"
      "rep s2 (V1(left \<mapsto> p, root_no t \<mapsto> q)) r"
      "bt_wf (V1(left \<mapsto> p, root_no t \<mapsto> q)) (Suc h) None None 0 (BNode (root_no t) [(low, set_root left t1), (fst sep, t2)])"
      using grow_root_spec [OF i(2) fo t2(2,3), unfolded t1(1) t2(1) prod.collapse] by blast
    let ?t = "BNode (root_no t) [(low, set_root left t1), (fst sep, t2)]"
    obtain us where us: "tree_pages h t1 = root_no t # us" using root_first(2) [of h t1] t1(1) by simp
    have pg: "tree_pages (Suc h) ?t = root_no t # left # us @ tree_pages h t2" "forest_pages h ts = root_no t # us @ tree_pages h t2"
      by (simp_all add: set_root_pages ts us)
    have new: "left \<notin> set (forest_pages h ts)" using forest_live [of h V1 None None 0 ts left] g gr(2) by blast
    have "distinct (forest_pages h ts)" using g by blast
    then have "tree_at (V1(left \<mapsto> p, root_no t \<mapsto> q)) (root_no t) (Suc h) ?t"
      using gr(4) new unfolding tree_at_def pg by auto
    moreover have "root_no t \<in> set (tree_pages h t)" by (subst root_first(2)) simp
    then have "moves V (V1(left \<mapsto> p, root_no t \<mapsto> q)) (set (tree_pages h t) \<union> set (cell_pages c)) (insert left (set (forest_pages h ts)))"
      using g gr(2) unfolding pg(2) by (intro moves_write moves_alloc) simp_all
    moreover have "insert left (set (forest_pages h ts)) = set (tree_pages (Suc h) ?t)" unfolding pg by auto
    moreover have "entries (Suc h) ?t = set_key key (value_of c) (entries h t)" using g by (simp add: ts set_root_pages)
    moreover have "sbind (insert_into fuel fuel ops key (stored_of c) (root_no t)) (\<lambda>res.
      case res of None \<Rightarrow> sret () | Some new_cell \<Rightarrow> grow_root ops (root_no t) new_cell) s = (Inr (), s2)"
      using i(1) Some gr(1) by (simp add: sbind_def)
    ultimately show ?thesis using gr(3) order_refl by metis
  qed
qed

lemma bt_insert_spec:
  assumes rep: "rep s V (r + Suc (Suc h) + length (chunks v))" and t: "tree_at V root h t" and fuel: "cost h t < fuel"
    and key: "key_fits key"
  shows "\<exists>s' V' h' t'. bt_insert fuel ops root key v s = (Inr (), s') \<and> rep s' V' r \<and> tree_at V' root h' t'
    \<and> entries h' t' = set_key key v (entries h t) \<and> moves V V' (set (tree_pages h t)) (set (tree_pages h' t')) \<and> h' \<le> Suc h"
proof -
  have wf: "bt_wf V h None None 0 t" and root: "root_no t = root" and dis: "distinct (tree_pages h t)"
    using t by (simp_all add: tree_at_def)
  note f = cost_bounds [OF fuel]
  obtain s1 V1 c where c: "stored_form ops key v s = (Inr (stored_of c), s1)" "rep s1 V1 (r + Suc (Suc h))" "value_of c = v"
    "cell_ok V1 None None (key, c)" "distinct (cell_pages c)" "moves V V1 {} (set (cell_pages c))"
    using stored_form_spec [OF rep key] by blast
  have live: "V x \<noteq> None" if "x \<in> set (tree_pages h t)" for x using wf_live [OF wf that] .
  note o = moves_other [OF c(6) _ live, of "set (tree_pages h t)", simplified]
  have wf1: "bt_wf V1 h None None 0 t" by (rule wf_cong [OF wf o(2)])
  have dis1: "distinct (tree_pages h t @ cell_pages c)" using dis c(5) o(1) by simp
  obtain s2 V2 out where opt: "try_insert_optimistic fuel ops root key (stored_of c) s1 = (Inr out, s2)" "rep s2 V2 (r + Suc (Suc h))"
    "case out of Restart \<Rightarrow> V2 = V1
       | Done \<Rightarrow> \<exists>t'. bt_wf V2 h None None 0 t' \<and> root_no t' = root_no t \<and> distinct (tree_pages h t')
           \<and> entries h t' = set_key key (value_of c) (entries h t)
           \<and> moves V1 V2 (set (tree_pages h t) \<union> set (cell_pages c)) (set (tree_pages h t'))"
    using try_insert_optimistic_spec [OF c(2) wf1 f dis1 c(4)] root by blast
  have big: "\<not> MAX_CELL < LEAF_CELL_OVERHEAD + length key + 1 + 4" using key by (simp add: key_fits_def)
  note trans = moves_trans_fresh [OF c(6) _ o(1)]
  show ?thesis
  proof (cases out)
    case Done
    then obtain t' where t': "bt_wf V2 h None None 0 t'" "root_no t' = root" "distinct (tree_pages h t')"
      "entries h t' = set_key key v (entries h t)" "moves V1 V2 (set (tree_pages h t) \<union> set (cell_pages c)) (set (tree_pages h t'))"
      using opt(3) c(3) root by auto
    have "bt_insert fuel ops root key v s = (Inr (), s2)" using big c(1) opt(1) Done by (simp add: bt_insert_def sbind_def)
    then show ?thesis using room_law [OF opt(2), of r] t' trans [OF t'(5)]
      by (intro exI [of _ s2] exI [of _ V2] exI [of _ h] exI [of _ t']) (simp add: tree_at_def)
  next
    case Restart
    have rep2: "rep s2 V1 (Suc r + Suc h)" using opt(2,3) Restart by simp
    obtain s3 V' h' t' where i: "sbind (insert_into fuel fuel ops key (stored_of c) root) (\<lambda>res.
        case res of None \<Rightarrow> sret () | Some new_cell \<Rightarrow> grow_root ops root new_cell) s2 = (Inr (), s3)" "rep s3 V' r"
      "tree_at V' root h' t'" "entries h' t' = set_key key v (entries h t)"
      "moves V1 V' (set (tree_pages h t) \<union> set (cell_pages c)) (set (tree_pages h' t'))" "h' \<le> Suc h"
      using insert_root_spec [OF rep2 wf1 f dis1 c(4)] root c(3) by blast
    have "bt_insert fuel ops root key v s = (Inr (), s3)"
      using big c(1) opt(1) Restart i(1) by (simp add: bt_insert_def sbind_def)
    then show ?thesis using i(2-4,6) trans [OF i(5)] by blast
  qed
qed

end

end
