(* ===== verification/Btree_Delete.thy ===== *)
theory Btree_Delete
  imports Btree_Insert
begin

text \<open>
  Deletion: the optimistic attempt on the leaf, the descent that merges a child with a sibling when
  both fit in one page, and the collapse of a root with a single child. The entries lose exactly the
  key, the root keeps its page, and every page that leaves the tree is freed.
\<close>

definition shrunk :: "page_map \<Rightarrow> page_map \<Rightarrow> nat \<Rightarrow> bytes option \<Rightarrow> bytes option \<Rightarrow> u32 \<Rightarrow> bt \<Rightarrow> bytes \<Rightarrow> bt \<Rightarrow> bool" where
  "shrunk V V' h lo hi nxt t key t' \<longleftrightarrow> bt_wf V' h lo hi nxt t' \<and> root_no t' = root_no t \<and> first_leaf h t' = first_leaf h t
     \<and> distinct (tree_pages h t') \<and> entries h t' = drop_key key (entries h t)
     \<and> moves V V' (set (tree_pages h t)) (set (tree_pages h t'))"

lemma drop_key_absent:
  assumes "map_of xs key = None" "sorted_wrt (<) (map fst xs)"
  shows "drop_key key xs = xs"
proof -
  have "at_key key xs = []" using assms(1) by (auto simp: at_key_def map_of_eq_None_iff filter_empty_conv)
  with sorted_parts [OF assms(2), of key] show ?thesis by (simp add: drop_key_def)
qed

section \<open>Removing a key from a leaf\<close>

lemma cut_leaf_ok:
  fixes key :: bytes
  assumes l: "bt_wf V 0 lo hi nxt (BLeaf no es nxt)" and dis: "distinct (no # cells_pages es)"
  defines "M \<equiv> cells_pages (at_key key es)" and "es' \<equiv> drop_key key es"
  shows "sorted_wrt (<) (map fst es')" "\<forall>e \<in> set es'. cell_ok V lo hi e" "distinct (no # cells_pages es')"
    "\<And>x. x \<in> set (cells_pages es') \<Longrightarrow> without V M x = V x" "without V M no = V no"
    "moves V ((without V M)(no \<mapsto> q)) (insert no (set (cells_pages es))) (insert no (set (cells_pages es')))"
    "sum_list (leaf_sizes (stored_entries es')) \<le> USABLE"
proof -
  have es: "sorted_wrt (<) (map fst es)" "\<forall>e \<in> set es. cell_ok V lo hi e" "sum_list (leaf_sizes (stored_entries es)) \<le> USABLE"
    using l by (auto simp: leaf_ok_def)
  have dp: "distinct (cells_pages es)" "no \<notin> set (cells_pages es)" using dis by auto
  note kp = key_pages [OF es(1) dp(1)]
  have M: "set M \<subseteq> set (cells_pages es)" "no \<notin> set M" using kp(5) [of key] dp(2) by (auto simp: M_def)
  have pages: "set (cells_pages es') = set (cells_pages es) - set M" unfolding es'_def M_def by (rule kp(1))
  show "sorted_wrt (<) (map fst es')" unfolding es'_def by (rule sorted_set_key(2) [OF es(1)])
  show "\<forall>e \<in> set es'. cell_ok V lo hi e" unfolding es'_def by (rule drop_key_cells [OF es(2)])
  show "distinct (no # cells_pages es')" using kp(3) [of key] pages dp(2) by (simp add: es'_def)
  show "without V M x = V x" if "x \<in> set (cells_pages es')" for x using that unfolding pages without_def by auto
  show "without V M no = V no" using M(2) by (simp add: without_def)
  show "moves V ((without V M)(no \<mapsto> q)) (insert no (set (cells_pages es))) (insert no (set (cells_pages es')))"
    by (rule leaf_moves [OF refl]) (use M pages in auto)
  have "sum_list (leaf_sizes (stored_entries es)) = sum_list (leaf_sizes (stored_entries es')) + sum_list (leaf_sizes (stored_entries (at_key key es)))"
    using arg_cong [OF sorted_parts [OF es(1)], of "\<lambda>es. sum_list (leaf_sizes (stored_entries es))" key]
    by (simp add: es'_def drop_key_def)
  then show "sum_list (leaf_sizes (stored_entries es')) \<le> USABLE" using es(3) by simp
qed

context page_store
begin

lemma cut_leaf_spec:
  assumes rep: "rep s V r" and l: "bt_wf V 0 lo hi nxt (BLeaf no es nxt)" and dis: "distinct (no # cells_pages es)"
    and fuel: "length (cells_pages es) < fuel" and found: "binary_search (map fst es) key = Found i"
  shows "\<exists>s' V'. sbind (free_if_overflow fuel ops (snd (stored_entries es ! i))) (\<lambda>_.
      sbind (write_leaf ops no (remove_at i (stored_entries es)) nxt) (\<lambda>_. sret x)) s = (Inr x, s')
    \<and> rep s' V' r \<and> bt_wf V' 0 lo hi nxt (BLeaf no (drop_key key es) nxt)
    \<and> moves V V' (insert no (set (cells_pages es))) (insert no (set (cells_pages (drop_key key es))))"
proof -
  have es: "sorted_wrt (<) (map fst es)" "\<forall>e \<in> set es. cell_ok V lo hi e" "V no \<noteq> None"
    using l by (auto simp: leaf_ok_def)
  note f = found_split [OF es(1) found] and co = cut_leaf_ok [OF l dis, where key = key]
  have e: "es ! i \<in> set es" using f(1) by simp
  have "cell_ok V lo hi (es ! i)" using es(2) e by blast
  moreover have "distinct (cells_pages es)" using dis by simp
  then have "distinct (cell_pages (snd (es ! i)))" using key_pages(4) [OF es(1), of key] by (simp add: f(5))
  moreover have "length (cell_pages (snd (es ! i))) < fuel" using cell_pages_le [OF e] fuel by simp
  ultimately obtain s1 where s1: "free_if_overflow fuel ops (stored_of (snd (es ! i))) s = (Inr (), s1)"
    "rep s1 (without V (cells_pages (at_key key es))) r"
    using free_cell_spec [OF rep, of "snd (es ! i)" fuel] by (auto simp: cell_ok_def f(5))
  have "without V (cells_pages (at_key key es)) no \<noteq> None" using co(5) es(3) by simp
  from write_leaf_spec [OF s1(2) this co(7), of nxt] obtain s' q where
    w: "write_leaf ops no (stored_entries (drop_key key es)) nxt s1 = (Inr (), s')"
      "rep s' ((without V (cells_pages (at_key key es)))(no \<mapsto> q)) r" "leaf_page q (stored_entries (drop_key key es)) nxt" by blast
  let ?V = "(without V (cells_pages (at_key key es)))(no \<mapsto> q)"
  have "same_on ?V V (set (cells_pages (drop_key key es)))" using co(3,4) by (auto simp: same_on_def)
  from leaf_replaced [OF w(3) co(7,1,2) _ this, of no] co(6) [of q] w(1,2) s1(1) f(1) stored_found(2) [OF es(1) found]
  show ?thesis by (auto simp: sbind_def)
qed

lemma try_delete_optimistic_spec:
  assumes rep: "rep s V r" and t: "bt_wf V h None None 0 t" and fuel: "h < fuel" "length (tree_pages h t) \<le> fuel"
    and dis: "distinct (tree_pages h t)"
  shows "\<exists>s' V' out. try_delete_optimistic fuel ops (root_no t) key s = (Inr out, s') \<and> rep s' V' r
    \<and> (case out of None \<Rightarrow> V' = V
       | Some found \<Rightarrow> found = (map_of (entries h t) key \<noteq> None) \<and>
          (\<exists>t'. bt_wf V' h None None 0 t' \<and> root_no t' = root_no t \<and> distinct (tree_pages h t')
           \<and> entries h t' = drop_key key (entries h t)
           \<and> moves V V' (set (tree_pages h t)) (set (tree_pages h t'))))"
proof -
  obtain s1 no es link lo hi where f: "descend fuel ops key (root_no t) s = (Inr no, s1)" "rep s1 V r"
    "leaf_focus V h None None 0 t key no es link lo hi"
    using descend_spec [OF rep t fuel(1) bound_simps(1,3), of key] by blast
  have l: "bt_wf V 0 lo hi link (BLeaf no es link)" using f(3) unfolding leaf_focus_def by blast
  obtain P Q A B where pages: "tree_pages h t = P @ (no # cells_pages es) @ Q" and ents: "entries h t = A @ cells_entries es @ B"
    and AB: "\<forall>e \<in> set A. fst e < key" "\<forall>e \<in> set B. key < fst e"
    using f(3) unfolding leaf_focus_def by blast
  have dl: "distinct (no # cells_pages es)" "length (cells_pages es) < fuel" using dis fuel(2) unfolding pages by auto
  obtain p where p: "V no = Some p" "leaf_page p (stored_entries es) link" "sorted_wrt (<) (map fst es)"
    using l by (auto simp: leaf_ok_def)
  obtain s2 where s2: "st_read ops no s1 = (Inr p, s2)" "rep s2 V r" using read_law [OF f(2) p(1)] by blast
  note lr = leaf_page_reads [OF p(2)]
  have dom: "map_of (entries h t) key = map_of (cells_entries es) key"
    unfolding ents by (rule map_of_middle) (use AB in auto)
  show ?thesis
  proof (cases "beyond_leaf key (stored_entries es) link")
    case True
    then have "try_delete_optimistic fuel ops (root_no t) key s = (Inr None, s2)"
      using f(1) s2(1) lr by (simp add: try_delete_optimistic_def sbind_def)
    then show ?thesis using s2(2) by (intro exI [of _ s2] exI [of _ V] exI [of _ None]) simp
  next
    case within: False
    show ?thesis
    proof (cases "binary_search (map fst es) key")
      case (Missing i)
      then have "try_delete_optimistic fuel ops (root_no t) key s = (Inr (Some False), s2)"
        using f(1) s2(1) lr within by (simp add: try_delete_optimistic_def sbind_def)
      moreover have none: "map_of (entries h t) key = None" using map_of_cells [OF p(3), of key] Missing dom by simp
      ultimately show ?thesis
        using s2(2) t dis moves_refl drop_key_absent [OF none wf_sorted [OF t]]
        by (intro exI [of _ s2] exI [of _ V] exI [of _ "Some False"]) auto
    next
      case (Found i)
      show ?thesis
      proof (cases "length es = 1 \<and> (link \<noteq> 0 \<or> no \<noteq> root_no t)")
        case True
        then have "try_delete_optimistic fuel ops (root_no t) key s = (Inr None, s2)"
          using f(1) s2(1) lr within Found by (simp add: try_delete_optimistic_def sbind_def)
        then show ?thesis using s2(2) by (intro exI [of _ s2] exI [of _ V] exI [of _ None]) simp
      next
        case False
        obtain s3 V' where w: "sbind (free_if_overflow fuel ops (snd (stored_entries es ! i))) (\<lambda>_.
            sbind (write_leaf ops no (remove_at i (stored_entries es)) link) (\<lambda>_. sret (Some True))) s2 = (Inr (Some True), s3)"
          "rep s3 V' r" "bt_wf V' 0 lo hi link (BLeaf no (drop_key key es) link)"
          "moves V V' (insert no (set (cells_pages es))) (insert no (set (cells_pages (drop_key key es))))"
          using cut_leaf_spec [OF s2(2) l dl Found, of "Some True"] by blast
        have "try_delete_optimistic fuel ops (root_no t) key s = (Inr (Some True), s3)"
          using f(1) s2(1) lr within Found False w(1)
          by (simp only: try_delete_optimistic_def) (simp add: sbind_def)
        moreover have "map_of (entries h t) key \<noteq> None" using map_of_cells [OF p(3), of key] Found dom by simp
        moreover have "\<exists>t'. bt_wf V' h None None 0 t' \<and> root_no t' = root_no t \<and> distinct (tree_pages h t')
            \<and> entries h t' = drop_key key (entries h t) \<and> moves V V' (set (tree_pages h t) \<union> {}) (set (tree_pages h t'))"
        proof (rule focus_moves [OF f(3) t dis _ _ w(3) cut_leaf_ok(3) [OF l dl(1)]])
          show "A @ cells_entries (drop_key key es) @ B = drop_key key (entries h t)"
            if "\<forall>e \<in> set A. fst e < key" "\<forall>e \<in> set B. key < fst e" "entries h t = A @ cells_entries es @ B" for A B
            unfolding that(3) cells_entries_keys key_split_middle(2) [OF that(1,2)] ..
        qed (use w(4) in simp_all)
        ultimately show ?thesis using w(2) by (intro exI [of _ s3] exI [of _ V'] exI [of _ "Some True"]) simp
      qed
    qed
  qed
qed

end

section \<open>Merging two siblings\<close>

fun join :: "bt \<Rightarrow> bt \<Rightarrow> bt" where
  "join (BLeaf no es _) (BLeaf _ fs link) = BLeaf no (es @ fs) link"
| "join (BNode no cs) (BNode _ ds) = BNode no (cs @ ds)"
| "join a _ = a"

lemma join_leaf:
  assumes "bt_wf V 0 lo (Some k) link a" "bt_wf V 0 (Some k) hi nxt b"
  obtains no es no' fs where "a = BLeaf no es link" "b = BLeaf no' fs nxt" "join a b = BLeaf no (es @ fs) nxt"
    "sorted_wrt (<) (map fst (es @ fs))" "\<forall>e \<in> set (es @ fs). cell_ok V lo hi e \<or> \<not> past lo k \<or> \<not> below hi k"
proof -
  obtain no es where a: "a = BLeaf no es link" "sorted_wrt (<) (map fst es)" "\<forall>e \<in> set es. cell_ok V lo (Some k) e"
    using assms(1) by (auto simp: leaf_ok_def)
  obtain no' fs where b: "b = BLeaf no' fs nxt" "sorted_wrt (<) (map fst fs)" "\<forall>e \<in> set fs. cell_ok V (Some k) hi e"
    using assms(2) by (auto simp: leaf_ok_def)
  have "fst x < fst y" if "x \<in> set es" "y \<in> set fs" for x y
  proof -
    have "fst x < k" "k \<le> fst y" using a(3) b(3) that unfolding cell_ok_def by auto
    then show ?thesis by simp
  qed
  then have "sorted_wrt (<) (map fst (es @ fs))" using a(2) b(2) by (auto simp: sorted_wrt_append)
  moreover have "cell_ok V lo hi e" if "e \<in> set (es @ fs)" "past lo k" "below hi k" for e
  proof -
    have "cell_ok V lo (Some k) e \<or> cell_ok V (Some k) hi e" using that(1) a(3) b(3) by auto
    then show ?thesis
      using past_above [OF that(2)] below_trans [OF that(3) less_imp_le, of "fst e"] above_trans [of lo k "fst e"]
      by (auto simp: cell_ok_def)
  qed
  ultimately show ?thesis using a(1) b(1) by (intro that [of no es no' fs]) auto
qed

text \<open>
  The two pages of adjacent siblings, the left one rewritten with the cells of both: the joined tree
  stands under the left label.
\<close>

lemma join_shape:
  assumes "bt_wf V h lo (Some k) link a" "bt_wf V h (Some k) hi nxt b"
  shows "entries h (join a b) = entries h a @ entries h b" "root_no (join a b) = root_no a"
    "tree_pages h (join a b) = tree_pages h a @ tl (tree_pages h b)" "first_leaf h (join a b) = first_leaf h a"
proof -
  have "entries h (join a b) = entries h a @ entries h b \<and> root_no (join a b) = root_no a
    \<and> tree_pages h (join a b) = tree_pages h a @ tl (tree_pages h b) \<and> first_leaf h (join a b) = first_leaf h a"
  proof (cases h)
    case 0
    then show ?thesis using assms by (auto simp: leaf_ok_def)
  next
    case (Suc n)
    obtain no cs where "a = BNode no cs" "forest_ok V n lo (Some k) link cs"
      using assms(1) unfolding Suc by (metis node_okE)
    moreover obtain no' ds where "b = BNode no' ds" using assms(2) unfolding Suc by (metis node_okE)
    ultimately show ?thesis using Suc chain_ok_nonempty [of _ _ lo "Some k" link cs] by (auto simp: hd_append)
  qed
  then show "entries h (join a b) = entries h a @ entries h b" "root_no (join a b) = root_no a"
    "tree_pages h (join a b) = tree_pages h a @ tl (tree_pages h b)" "first_leaf h (join a b) = first_leaf h a" by blast+
qed

lemma join_leaf_wf:
  assumes ab: "bt_wf V 0 lo (Some k) link a" "bt_wf V 0 (Some k) hi nxt b" "past lo k" "below hi k"
    and p: "leaf_page p (stored_entries (leaf_cells a @ leaf_cells b)) nxt" "V' (root_no a) = Some p"
      "sum_list (leaf_sizes (stored_entries (leaf_cells a @ leaf_cells b))) \<le> USABLE"
    and same: "same_on V' V (set (cells_pages (leaf_cells a)) \<union> set (cells_pages (leaf_cells b)))"
  shows "bt_wf V' 0 lo hi nxt (join a b)"
proof -
  obtain no es no' fs where j: "a = BLeaf no es link" "b = BLeaf no' fs nxt" "join a b = BLeaf no (es @ fs) nxt"
    "sorted_wrt (<) (map fst (es @ fs))" "\<forall>e \<in> set (es @ fs). cell_ok V lo hi e \<or> \<not> past lo k \<or> \<not> below hi k"
    by (rule join_leaf [OF ab(1,2)])
  have "\<forall>e \<in> set (es @ fs). cell_ok V lo hi e" using j(5) ab(3,4) by blast
  moreover have "leaf_page p (stored_entries (es @ fs)) nxt" "sum_list (leaf_sizes (stored_entries (es @ fs))) \<le> USABLE"
    "V' no = Some p" "same_on V' V (set (cells_pages (es @ fs)))"
    using p same by (simp_all add: j(1,2))
  ultimately show ?thesis unfolding j(3) using leaf_replaced [OF _ _ j(4)] by blast
qed

lemma join_node_wf:
  assumes ab: "bt_wf V (Suc h) lo (Some k) (first_leaf (Suc h) b) a" "bt_wf V (Suc h) (Some k) hi nxt b" "past lo k" "below hi k"
    and p: "internal_page p (child_cells (kids a @ kids b))" "V' (root_no a) = Some p"
      "sum_list (internal_sizes (child_cells (kids a @ kids b))) \<le> USABLE"
    and same: "same_on V' V (set (forest_pages h (kids a)) \<union> set (forest_pages h (kids b)))"
  shows "bt_wf V' (Suc h) lo hi nxt (join a b)"
proof -
  obtain no cs pa where a: "a = BNode no cs" "V no = Some pa" "internal_page pa (child_cells cs)"
    "sum_list (internal_sizes (child_cells cs)) \<le> USABLE" "labels_ok lo cs" "forest_ok V h lo (Some k) (first_leaf (Suc h) b) cs"
    by (rule node_okE [OF ab(1)])
  obtain no' ds pb where b: "b = BNode no' ds" "V no' = Some pb" "internal_page pb (child_cells ds)"
    "sum_list (internal_sizes (child_cells ds)) \<le> USABLE" "labels_ok (Some k) ds" "forest_ok V h (Some k) hi nxt ds"
    by (rule node_okE [OF ab(2)])
  have ne: "cs \<noteq> []" "ds \<noteq> []" using chain_ok_nonempty a(6) b(6) by blast+
  have k: "fst (hd ds) = k" using b(5) by (simp add: labels_ok_def)
  have "forest_ok V h lo hi nxt (cs @ ds)"
    unfolding chain_ok_append [OF ne] k using a(6) b(1,6) ab(3,4) by simp
  moreover have "same_on V' V (set (forest_pages h (cs @ ds)))" using same by (simp add: a(1) b(1))
  ultimately have "forest_ok V' h lo hi nxt (cs @ ds)" by (rule forest_cong)
  moreover have "labels_ok lo (cs @ ds)" using a(5) b(5) ne by (auto simp: labels_ok_def)
  ultimately show ?thesis using p node_okI [of V' no p "cs @ ds" lo h hi nxt] by (simp add: a(1) b(1) del: bt_wf.simps)
qed

context page_store
begin

lemma merge_pages_spec:
  assumes rep: "rep s V r" and ab: "bt_wf V h lo (Some k) (first_leaf h b) a" "bt_wf V h (Some k) hi nxt b" "past lo k" "below hi k"
    and dis: "distinct (tree_pages h a @ tree_pages h b)" and pg: "V (root_no a) = Some pa" "V (root_no b) = Some pb"
  shows "\<exists>s' merged. merge_pages ops pa pb (root_no a) s = (Inr merged, s') \<and> (\<not> merged \<longrightarrow> rep s' V r)
    \<and> (merged \<longrightarrow> (\<exists>p. rep s' (V(root_no a \<mapsto> p)) r \<and> bt_wf (V(root_no a \<mapsto> p, root_no b := None)) h lo hi nxt (join a b)))"
proof -
  obtain us ws where us: "tree_pages h a = root_no a # us" "tree_pages h b = root_no b # ws" using root_first(2) by blast
  have new: "root_no a \<noteq> root_no b" "root_no a \<notin> set us \<union> set ws" "root_no b \<notin> set us \<union> set ws" using dis unfolding us by auto
  have same: "same_on (V(root_no a \<mapsto> p, root_no b := None)) V (set us \<union> set ws)" for p
    using new(2,3) unfolding same_on_def by auto
  show ?thesis
  proof (cases h)
    case 0
    have la: "leaf_page pa (stored_entries (leaf_cells a)) (first_leaf h b)" "leaf_page pb (stored_entries (leaf_cells b)) nxt"
      using ab pg 0 by (auto simp: leaf_ok_def)
    note lr = leaf_page_reads [OF la(1)] leaf_page_reads [OF la(2)]
    let ?es = "stored_entries (leaf_cells a @ leaf_cells b)"
    show ?thesis
    proof (cases "sum_list (leaf_sizes ?es) \<le> USABLE")
      case True
      obtain s' p where w: "write_leaf ops (root_no a) ?es nxt s = (Inr (), s')" "rep s' (V(root_no a \<mapsto> p)) r" "leaf_page p ?es nxt"
        using write_leaf_spec [OF rep _ True, of "root_no a" nxt] pg(1) by auto
      have "bt_wf (V(root_no a \<mapsto> p, root_no b := None)) 0 lo hi nxt (join a b)"
        by (rule join_leaf_wf [OF ab [unfolded 0] w(3)]) (use True new same [of p] us 0 in auto)
      then show ?thesis using w(1,2) lr True 0 by (auto simp: merge_pages_def sbind_def)
    qed (use lr rep in \<open>auto simp: merge_pages_def\<close>)
  next
    case (Suc n)
    have ia: "internal_page pa (child_cells (kids a))" "internal_page pb (child_cells (kids b))"
      using ab pg Suc by (auto simp: node_ok_def)
    have "\<not> is_leaf pa" using ia(1) by (simp add: internal_page_def is_leaf_def page_consts)
    note lr = this internal_page_entries [OF ia(1)] internal_page_entries [OF ia(2)]
    let ?es = "child_cells (kids a @ kids b)"
    show ?thesis
    proof (cases "sum_list (internal_sizes ?es) \<le> USABLE")
      case True
      obtain s' p where w: "write_internal ops (root_no a) ?es s = (Inr (), s')" "rep s' (V(root_no a \<mapsto> p)) r" "internal_page p ?es"
        using write_internal_spec [OF rep _ True, of "root_no a"] pg(1) by auto
      have "bt_wf (V(root_no a \<mapsto> p, root_no b := None)) (Suc n) lo hi nxt (join a b)"
        by (rule join_node_wf [OF ab [unfolded Suc] w(3)]) (use True new same [of p] us Suc in \<open>auto simp del: same_on_simps(4)\<close>)
      then show ?thesis using w(1,2) lr True Suc by (auto simp: merge_pages_def sbind_def simp del: bt_wf.simps)
    qed (use lr rep in \<open>auto simp: merge_pages_def\<close>)
  qed
qed

end

lemma sum_remove_at: "i < length xs \<Longrightarrow> sum_list (internal_sizes (remove_at i xs)) \<le> sum_list (internal_sizes xs)"
  by (subst (2) id_take_nth_drop, assumption) (simp add: remove_at_def del: append_take_drop_id)

text \<open>A child and the sibling that \<open>merge_child\<close> picks for it.\<close>

lemma pick_siblings:
  assumes "i < length cs" "i + 1 < length cs \<or> 0 < i"
  defines "l \<equiv> (if i + 1 < length cs then i else i - 1)"
  obtains pre a b post where "cs = pre @ a # b # post" "length pre = l"
proof -
  have "l + 1 < length cs" using assms by (auto simp: l_def)
  then have "cs = take l cs @ cs ! l # cs ! (l + 1) # drop (l + 2) cs" "length (take l cs) = l"
    by (simp_all add: Cons_nth_drop_Suc)
  then show thesis using that by blast
qed

lemma forest_pair:
  assumes "forest_ok V h lo hi nxt (pre @ [a, b] @ post)"
  defines "lo' \<equiv> (if pre = [] then lo else Some (fst a))" and "hi' \<equiv> (if post = [] then hi else Some (fst (hd post)))"
    and "nxt' \<equiv> (if post = [] then nxt else first_leaf h (snd (hd post)))"
  shows "bt_wf V h lo' (Some (fst b)) (first_leaf h (snd b)) (snd a)" "bt_wf V h (Some (fst b)) hi' nxt' (snd b)"
    "past lo' (fst b)" "below hi' (fst b)"
proof -
  have "[a, b] \<noteq> []" by simp
  note f = assms(1) [unfolded chain_ok_middle [OF this] list.sel, folded lo'_def hi'_def nxt'_def]
  show "bt_wf V h lo' (Some (fst b)) (first_leaf h (snd b)) (snd a)" "bt_wf V h (Some (fst b)) hi' nxt' (snd b)"
    "past lo' (fst b)" "below hi' (fst b)"
    using f by simp_all
qed

text \<open>What is asked of a step that keeps the entries: the tree changes its pages only.\<close>

definition reshaped :: "page_map \<Rightarrow> page_map \<Rightarrow> nat \<Rightarrow> bytes option \<Rightarrow> bytes option \<Rightarrow> u32 \<Rightarrow> bt \<Rightarrow> bt \<Rightarrow> bool" where
  "reshaped V V' h lo hi nxt t t' \<longleftrightarrow> bt_wf V' h lo hi nxt t' \<and> root_no t' = root_no t \<and> first_leaf h t' = first_leaf h t
     \<and> distinct (tree_pages h t') \<and> entries h t' = entries h t \<and> moves V V' (set (tree_pages h t)) (set (tree_pages h t'))"

lemma reshaped_refl: "bt_wf V h lo hi nxt t \<Longrightarrow> distinct (tree_pages h t) \<Longrightarrow> reshaped V V h lo hi nxt t t"
  by (simp add: reshaped_def moves_refl)

lemma moves_drop: "moves V V' S S' \<Longrightarrow> no \<in> S \<Longrightarrow> moves V (V'(no := None)) S (S' - {no})"
  by (auto simp: moves_def) (metis DiffI option.distinct(1))

lemma moves_trans: "moves V V1 S S1 \<Longrightarrow> moves V1 V' S1 S' \<Longrightarrow> moves V V' S S'"
  unfolding moves_def by (intro conjI allI ballI impI) (metis Diff_iff Un_iff)+

lemma shrunk_reshaped: "shrunk V V1 h lo hi nxt t key t1 \<Longrightarrow> reshaped V1 V' h lo hi nxt t1 t' \<Longrightarrow> shrunk V V' h lo hi nxt t key t'"
  using moves_trans unfolding shrunk_def reshaped_def by metis

context page_store
begin

lemma merge_pair_spec:
  assumes rep: "rep s V r" and t: "bt_wf V (Suc h) lo hi nxt (BNode no (pre @ [a, b] @ post))"
    and dis: "distinct (tree_pages (Suc h) (BNode no (pre @ [a, b] @ post)))"
    and pg: "V (root_no (snd a)) = Some pa" "V (root_no (snd b)) = Some pb"
  shows "\<exists>s' V' cs'. sbind (merge_pages ops pa pb (root_no (snd a))) (\<lambda>merged.
             if \<not> merged then sret ()
             else sbind (st_free ops (root_no (snd b))) (\<lambda>_.
               write_internal ops no (remove_at (length pre + 1) (child_cells (pre @ [a, b] @ post))))) s = (Inr (), s')
    \<and> rep s' V' r \<and> reshaped V V' (Suc h) lo hi nxt (BNode no (pre @ [a, b] @ post)) (BNode no cs')"
proof -
  let ?cs = "pre @ [a, b] @ post" and ?a = "snd a" and ?b = "snd b"
  let ?lo = "if pre = [] then lo else Some (fst a)" and ?hi = "if post = [] then hi else Some (fst (hd post))"
    and ?nxt = "if post = [] then nxt else first_leaf h (snd (hd post))"
  have n: "V no \<noteq> None" "labels_ok lo ?cs" "sum_list (internal_sizes (child_cells ?cs)) \<le> USABLE" "forest_ok V h lo hi nxt ?cs"
    using node_okE [OF t] by (metis bt.inject(2) option.distinct(1))+
  note fp = forest_pair [OF n(4)]
  have dis2: "distinct (tree_pages h ?a @ tree_pages h ?b)" using dis by auto
  obtain s1 merged where m: "merge_pages ops pa pb (root_no ?a) s = (Inr merged, s1)" "\<not> merged \<longrightarrow> rep s1 V r"
    "merged \<longrightarrow> (\<exists>p. rep s1 (V(root_no ?a \<mapsto> p)) r \<and> bt_wf (V(root_no ?a \<mapsto> p, root_no ?b := None)) h ?lo ?hi ?nxt (join ?a ?b))"
    using merge_pages_spec [OF rep fp dis2 pg] by blast
  show ?thesis
  proof (cases merged)
    case False
    then show ?thesis using m reshaped_refl [OF t dis] by (auto simp: sbind_def simp del: bt_wf.simps tree_pages.simps)
  next
    case True
    then obtain p where p: "rep s1 (V(root_no ?a \<mapsto> p)) r" "bt_wf (V(root_no ?a \<mapsto> p, root_no ?b := None)) h ?lo ?hi ?nxt (join ?a ?b)"
      using m(3) by blast
    let ?V = "V(root_no ?a \<mapsto> p, root_no ?b := None)" and ?ts = "[(fst a, join ?a ?b)]"
    obtain s2 where s2: "st_free ops (root_no ?b) s1 = (Inr (), s2)" "rep s2 ?V r"
    proof -
      have "(V(root_no ?a \<mapsto> p)) (root_no ?b) \<noteq> None" using pg(2) by simp
      from free_law [OF p(1) this] that show thesis by blast
    qed
    note js = join_shape [OF fp(1,2)]
    obtain ws where ws: "tree_pages h ?b = root_no ?b # ws" using root_first(2) by blast
    have pages: "forest_pages h ?ts = tree_pages h ?a @ ws" using js(3) by (simp add: ws)
    have "root_no ?a \<in> set (forest_pages h [a, b])" using root_first(2) [of h ?a] by (metis UnI1 concat.simps(2) list.map(2) list.set_intros(1) set_append)
    then have "moves V ?V (set (forest_pages h [a, b])) (set (forest_pages h [a, b]) - {root_no ?b})"
      by (intro moves_drop moves_write moves_refl) (simp_all add: ws)
    moreover have "set (forest_pages h [a, b]) - {root_no ?b} = set (forest_pages h ?ts)"
      using dis2 unfolding pages ws by (auto simp: ws)
    ultimately have mv: "moves V ?V (set (forest_pages h [a, b]) \<union> set []) (set (forest_pages h ?ts))" by simp
    have dp: "distinct (forest_pages h ?ts)" using dis2 unfolding pages ws by auto
    have ne: "[a, b] \<noteq> []" "distinct (no # forest_pages h ?cs @ [])" using dis by simp_all
    have ft: "forest_ok ?V h (if pre = [] then lo else Some (fst (hd [a, b]))) ?hi ?nxt ?ts"
      unfolding list.sel chain_ok.simps snd_conv by (rule p(2))
    have hd: "fst (hd ?ts) = fst (hd [a, b])" "first_leaf h (snd (hd ?ts)) = first_leaf h (snd (hd [a, b]))" using js(4) by simp_all
    note rc = replace_context [OF n(4) ne(1) n(1) ne(2) ft hd dp mv]
    let ?cs' = "pre @ ?ts @ post"
    have ce: "remove_at (length pre + 1) (child_cells ?cs) = child_cells ?cs'" using js(2) by (simp add: remove_at_def)
    have sum: "sum_list (internal_sizes (child_cells ?cs')) \<le> USABLE"
      using sum_remove_at [of "length pre + 1" "child_cells ?cs"] n(3) unfolding ce by simp
    have lab: "labels_ok lo ?cs'" using n(2) by (cases pre) (auto simp: labels_ok_def)
    have no: "?V no \<noteq> None" "no \<notin> set (forest_pages h ?cs')" "distinct (forest_pages h ?cs')" using rc(2,3) n(1) by simp_all
    obtain s3 q where w: "write_internal ops no (child_cells ?cs') s2 = (Inr (), s3)" "rep s3 (?V(no \<mapsto> q)) r"
      "bt_wf (?V(no \<mapsto> q)) (Suc h) lo hi nxt (BNode no ?cs')"
      using node_write_spec [OF s2(2) no(1) sum lab rc(1) no(2)] by blast
    have "moves V (?V(no \<mapsto> q)) (insert no (set (forest_pages h ?cs)) \<union> set []) (insert no (set (forest_pages h ?cs')))"
      by (rule moves_write [OF rc(4)]) simp_all
    then have "reshaped V (?V(no \<mapsto> q)) (Suc h) lo hi nxt (BNode no ?cs) (BNode no ?cs')"
      using w(3) rc(5) no(2,3) js(1) unfolding reshaped_def by (simp del: bt_wf.simps)
    moreover have "sbind (merge_pages ops pa pb (root_no ?a)) (\<lambda>merged.
             if \<not> merged then sret ()
             else sbind (st_free ops (root_no ?b)) (\<lambda>_.
               write_internal ops no (remove_at (length pre + 1) (child_cells ?cs)))) s = (Inr (), s3)"
      using m(1) True s2(1) w(1) unfolding ce by (simp add: sbind_def)
    ultimately show ?thesis using w(2) by blast
  qed
qed

lemma merge_child_spec:
  assumes rep: "rep s V r" and t: "bt_wf V (Suc h) lo hi nxt (BNode no cs)" and dis: "distinct (tree_pages (Suc h) (BNode no cs))"
    and i: "i < length cs"
  shows "\<exists>s' V' cs'. merge_child ops no i s = (Inr (), s') \<and> rep s' V' r
    \<and> reshaped V V' (Suc h) lo hi nxt (BNode no cs) (BNode no cs')"
proof -
  obtain p where p: "V no = Some p" "internal_page p (child_cells cs)" "forest_ok V h lo hi nxt cs"
    using node_okE [OF t] by (metis bt.inject(2))
  obtain s1 where s1: "st_read ops no s = (Inr p, s1)" "rep s1 V r" using read_law [OF rep p(1)] by blast
  note run = s1(1) internal_page_entries [OF p(2)]
  show ?thesis
  proof (cases "i + 1 < length cs \<or> 0 < i")
    case False
    then have "merge_child ops no i s = (Inr (), s1)" using run by (simp add: merge_child_def sbind_def)
    then show ?thesis using s1(2) reshaped_refl [OF t dis] by blast
  next
    case True
    define l where "l = (if i + 1 < length cs then i else i - 1)"
    obtain pre a b post where cs: "cs = pre @ a # b # post" "length pre = l"
      unfolding l_def by (rule pick_siblings [OF i True])
    then have cs': "cs = pre @ [a, b] @ post" by simp
    note fp = forest_pair [OF p(3) [unfolded cs']]
    obtain pa where pa: "V (root_no (snd a)) = Some pa" using wf_live [OF fp(1), of "root_no (snd a)"] root_first(2) by (metis list.set_intros(1) not_Some_eq)
    obtain pb where pb: "V (root_no (snd b)) = Some pb" using wf_live [OF fp(2), of "root_no (snd b)"] root_first(2) by (metis list.set_intros(1) not_Some_eq)
    obtain s2 where s2: "st_read ops (root_no (snd a)) s1 = (Inr pa, s2)" "rep s2 V r" using read_law [OF s1(2) pa] by blast
    obtain s3 where s3: "st_read ops (root_no (snd b)) s2 = (Inr pb, s3)" "rep s3 V r" using read_law [OF s2(2) pb] by blast
    have idx: "index (child_cells cs) l = Inr (fst a, root_no (snd a))" "index (child_cells cs) (l + 1) = Inr (fst b, root_no (snd b))"
      unfolding cs(2) [symmetric] by (simp_all add: cs(1) index_def nth_append)
    have "merge_child ops no i s = sbind (merge_pages ops pa pb (root_no (snd a))) (\<lambda>merged.
             if \<not> merged then sret ()
             else sbind (st_free ops (root_no (snd b))) (\<lambda>_.
               write_internal ops no (remove_at (l + 1) (child_cells cs)))) s3"
      using run True idx s2(1) s3(1) unfolding l_def
      by (cases "i + 1 < length cs") (simp_all add: merge_child_def sbind_def split: prod.splits sum.splits)
    with merge_pair_spec [OF s3(2) t [unfolded cs'] dis [unfolded cs'] pa pb] show ?thesis
      unfolding cs(2) cs' [symmetric] by presburger
  qed
qed

end

section \<open>Deletion below a node\<close>

lemma shrunk_context:
  assumes t: "bt_wf V (Suc h) lo hi nxt t" "t = BNode no (pre @ d # post)" and dis: "distinct (tree_pages (Suc h) t)"
    and side: "pre \<noteq> [] \<longrightarrow> fst d \<le> key" "post \<noteq> [] \<longrightarrow> key < fst (hd post)"
    and g: "shrunk V V' h (if pre = [] then lo else Some (fst d)) (if post = [] then hi else Some (fst (hd post)))
      (if post = [] then nxt else first_leaf h (snd (hd post))) (snd d) key d'"
  shows "shrunk V V' (Suc h) lo hi nxt t key (BNode no (pre @ [(fst d, d')] @ post))"
proof -
  let ?ts = "[(fst d, d')]" let ?cs = "pre @ ?ts @ post"
  obtain p where n: "V no = Some p" "internal_page p (child_cells (pre @ [d] @ post))" "labels_ok lo (pre @ [d] @ post)"
    "sum_list (internal_sizes (child_cells (pre @ [d] @ post))) \<le> USABLE" "forest_ok V h lo hi nxt (pre @ [d] @ post)"
    using node_okE [OF t(1)] t(2) by (metis append_Cons append_Nil bt.inject(2))
  note m = g [unfolded shrunk_def]
  have m': "moves V V' (set (forest_pages h [d]) \<union> set []) (set (forest_pages h ?ts))" "distinct (forest_pages h ?ts)"
    "fst (hd ?ts) = fst (hd [d])" "first_leaf h (snd (hd ?ts)) = first_leaf h (snd (hd [d]))"
    "forest_ok V' h (if pre = [] then lo else Some (fst (hd [d]))) (if post = [] then hi else Some (fst (hd post)))
      (if post = [] then nxt else first_leaf h (snd (hd post))) ?ts"
    unfolding list.sel chain_ok.simps using m by simp_all
  have o: "V no \<noteq> None" "distinct (no # forest_pages h (pre @ [d] @ post) @ [])" "[d] \<noteq> []" using n(1) dis by (simp_all add: t(2))
  note rc = replace_context [OF n(5) o(3,1,2) m'(5,3,4,2,1)]
  have cc: "child_cells ?cs = child_cells (pre @ [d] @ post)" using m by simp
  have "labels_ok lo ?cs" using n(3) by (cases pre) (auto simp: labels_ok_def)
  then have "bt_wf V' (Suc h) lo hi nxt (BNode no ?cs)"
    using node_okI [of V' no p ?cs] n(1,2,4) rc(1,3) unfolding cc by simp
  moreover have "entries (Suc h) (BNode no ?cs) = drop_key key (entries (Suc h) t)"
  proof -
    have "forest_entries h ?cs = forest_entries h pre @ drop_key key (entries h (snd d)) @ forest_entries h post" using m by simp
    also have "\<dots> = drop_key key (entries (Suc h) t)"
    proof -
      have f: "forest_ok V h lo hi nxt (pre @ d # post)" using n(5) by simp
      have "\<forall>e \<in> set (forest_entries h pre). fst e < key" "\<forall>e \<in> set (forest_entries h post). key < fst e"
        using forest_lookup [OF f side] by blast+
      from key_split_middle(2) [OF this] show ?thesis by (simp add: t(2))
    qed
    finally show ?thesis by simp
  qed
  moreover have "moves V V' (set (tree_pages (Suc h) t)) (set (tree_pages (Suc h) (BNode no ?cs)))" using rc(4) by (simp add: t(2))
  ultimately show ?thesis using rc(2,5) unfolding shrunk_def by (simp add: t(2) del: bt_wf.simps)
qed

lemma entries_child:
  assumes "forest_ok V h lo hi nxt (pre @ d # post)" "pre \<noteq> [] \<longrightarrow> fst d \<le> key" "post \<noteq> [] \<longrightarrow> key < fst (hd post)"
  shows "map_of (entries (Suc h) (BNode no (pre @ d # post))) key = map_of (entries h (snd d)) key"
  using forest_lookup [OF assms] map_of_middle [of "forest_entries h pre" key "forest_entries h post" "entries h (snd d)"]
  by force

context page_store
begin

lemma delete_leaf_spec:
  assumes rep: "rep s V r" and t: "bt_wf V 0 lo hi nxt t" and fuel: "length (tree_pages 0 t) \<le> fuel"
    and dis: "distinct (tree_pages 0 t)"
  shows "\<exists>s' V' t'. delete_from (Suc d) fuel ops key (root_no t) s = (Inr (map_of (entries 0 t) key \<noteq> None), s') \<and> rep s' V' r
    \<and> shrunk V V' 0 lo hi nxt t key t'"
proof -
  obtain no es p where l: "t = BLeaf no es nxt" "V no = Some p" "is_leaf p" "leaf_page p (stored_entries es) nxt"
    "sorted_wrt (<) (map fst es)" "find_leaf_slot p key = Inr (binary_search (map fst es) key)"
    "leaf_entries p = Inr (stored_entries es)" "right_link p = Inr nxt" by (rule leaf_step [OF t])
  obtain s1 where s1: "st_read ops no s = (Inr p, s1)" "rep s1 V r" using read_law [OF rep l(2)] by blast
  have dl: "distinct (no # cells_pages es)" "length (cells_pages es) < fuel" using dis fuel by (simp_all add: l(1))
  note mc = map_of_cells [OF l(5), of key] and run = s1(1) l(3,7,8)
  show ?thesis
  proof (cases "binary_search (map fst es) key")
    case (Missing i)
    then have none: "map_of (entries 0 t) key = None" using mc by (simp add: l(1))
    then have "shrunk V V 0 lo hi nxt t key t"
      using t dis drop_key_absent [OF none wf_sorted [OF t]] moves_refl by (simp add: shrunk_def)
    moreover have "delete_from (Suc d) fuel ops key (root_no t) s = (Inr False, s1)" using run Missing by (simp add: l(1) sbind_def)
    ultimately show ?thesis using s1(2) none by auto
  next
    case (Found i)
    obtain s2 V' where w: "sbind (free_if_overflow fuel ops (snd (stored_entries es ! i))) (\<lambda>_.
        sbind (write_leaf ops no (remove_at i (stored_entries es)) nxt) (\<lambda>_. sret True)) s1 = (Inr True, s2)" "rep s2 V' r"
      "bt_wf V' 0 lo hi nxt (BLeaf no (drop_key key es) nxt)"
      "moves V V' (insert no (set (cells_pages es))) (insert no (set (cells_pages (drop_key key es))))"
      using cut_leaf_spec [OF s1(2) t [unfolded l(1)] dl Found, of True] by blast
    have "shrunk V V' 0 lo hi nxt t key (BLeaf no (drop_key key es) nxt)"
      using w(3,4) cut_leaf_ok(3) [OF t [unfolded l(1)] dl(1), where key = key] unfolding shrunk_def by (simp add: l(1) cells_entries_keys)
    moreover have "delete_from (Suc d) fuel ops key (root_no t) s = (Inr True, s2)"
      using run w(1) Found by (simp add: l(1) sbind_def split: prod.splits sum.splits)
    moreover have "map_of (entries 0 t) key \<noteq> None" using mc Found by (simp add: l(1))
    ultimately show ?thesis using w(2) by auto
  qed
qed

lemma delete_from_spec:
  assumes "rep s V r" "bt_wf V h lo hi nxt t" "h < depth" "length (tree_pages h t) \<le> fuel" "distinct (tree_pages h t)"
  shows "\<exists>s' V' t'. delete_from depth fuel ops key (root_no t) s = (Inr (map_of (entries h t) key \<noteq> None), s') \<and> rep s' V' r
    \<and> shrunk V V' h lo hi nxt t key t'"
  using assms
proof (induction h arbitrary: depth s lo hi nxt t)
  case 0
  obtain d where "depth = Suc d" using "0.prems"(3) by (cases depth) auto
  with delete_leaf_spec [OF "0.prems"(1,2,4,5)] show ?case by blast
next
  case (Suc h)
  obtain dep where d: "depth = Suc dep" "h < dep" using Suc.prems(3) by (cases depth) auto
  obtain no pre c post p where n: "t = BNode no (pre @ c # post)" "V no = Some p" "\<not> is_leaf p" "is_internal p"
    "internal_page p (child_cells (pre @ c # post))"
    "find_child p key = Inr (length pre)" "follow_child p key = Inr (root_no (snd c))"
    "forest_ok V h lo hi nxt (pre @ c # post)"
    "pre \<noteq> [] \<longrightarrow> fst c \<le> key" "post \<noteq> [] \<longrightarrow> key < fst (hd post)"
    by (rule node_step [OF Suc.prems(2)])
  obtain s1 where s1: "st_read ops no s = (Inr p, s1)" "rep s1 V r" using read_law [OF Suc.prems(1) n(2)] by blast
  have wf: "bt_wf V h (if pre = [] then lo else Some (fst c)) (if post = [] then hi else Some (fst (hd post)))
      (if post = [] then nxt else first_leaf h (snd (hd post))) (snd c)" using n(8) unfolding chain_ok_focus list.sel by blast
  have pg: "length (tree_pages h (snd c)) \<le> fuel" "distinct (tree_pages h (snd c))" using Suc.prems(4,5) unfolding n(1) by auto
  let ?found = "map_of (entries h (snd c)) key \<noteq> None"
  obtain s2 V1 c' where ih: "delete_from dep fuel ops key (root_no (snd c)) s1 = (Inr ?found, s2)" "rep s2 V1 r"
    "shrunk V V1 h (if pre = [] then lo else Some (fst c)) (if post = [] then hi else Some (fst (hd post)))
      (if post = [] then nxt else first_leaf h (snd (hd post))) (snd c) key c'"
    using Suc.IH [OF s1(2) wf d(2) pg] by blast
  let ?t = "BNode no (pre @ [(fst c, c')] @ post)"
  note sh = shrunk_context [OF Suc.prems(2) n(1) Suc.prems(5) n(9,10) ih(3)]
  have dom: "map_of (entries (Suc h) t) key = map_of (entries h (snd c)) key" unfolding n(1) by (rule entries_child [OF n(8-10)])
  have ch: "internal_child p (length pre) = Inr (root_no (snd c))" using internal_child_at [OF n(5), of "length pre"] by simp
  note run = s1(1) n(3,6) ch ih(1)
  show ?case
  proof (cases ?found)
    case False
    then have "delete_from depth fuel ops key (root_no t) s = (Inr False, s2)" using run by (simp add: d(1) n(1) sbind_def)
    then show ?thesis using ih(2) sh dom False by auto
  next
    case True
    have "bt_wf V1 (Suc h) lo hi nxt ?t" "distinct (tree_pages (Suc h) ?t)" using sh unfolding shrunk_def by blast+
    from merge_child_spec [OF ih(2) this, of "length pre"] obtain s3 V' cs' where
      m: "merge_child ops no (length pre) s2 = (Inr (), s3)" "rep s3 V' r" "reshaped V1 V' (Suc h) lo hi nxt ?t (BNode no cs')"
      by auto
    have "delete_from depth fuel ops key (root_no t) s = (Inr True, s3)" using run m(1) True by (simp add: d(1) n(1) sbind_def)
    then show ?thesis using m(2) shrunk_reshaped [OF sh m(3)] dom True by auto
  qed
qed

lemma collapse_root_spec:
  assumes "rep s V r" "tree_at V root h t" "h < fuel"
  shows "\<exists>s' V' h' t'. collapse_root fuel ops root s = (Inr (), s') \<and> rep s' V' r \<and> tree_at V' root h' t'
    \<and> entries h' t' = entries h t \<and> moves V V' (set (tree_pages h t)) (set (tree_pages h' t'))"
  using assms
proof (induction h arbitrary: s V t fuel)
  case 0
  obtain f where f: "fuel = Suc f" using "0.prems"(3) by (cases fuel) auto
  have wf: "bt_wf V 0 None None 0 t" and root: "root_no t = root" using "0.prems"(2) by (simp_all add: tree_at_def)
  obtain es p where l: "V root = Some p" "leaf_page p es 0" using wf root by (auto simp: leaf_ok_def)
  obtain s1 where s1: "st_read ops root s = (Inr p, s1)" "rep s1 V r" using read_law [OF "0.prems"(1) l(1)] by blast
  have "collapse_root fuel ops root s = (Inr (), s1)"
    using s1(1) l(2) by (simp add: f sbind_def leaf_page_def is_internal_def page_consts)
  then show ?case using s1(2) "0.prems"(2) moves_refl by blast
next
  case (Suc h)
  obtain f where f: "fuel = Suc f" "h < f" using Suc.prems(3) by (cases fuel) auto
  have wf: "bt_wf V (Suc h) None None 0 t" and root: "root_no t = root" and dis: "distinct (tree_pages (Suc h) t)"
    using Suc.prems(2) unfolding tree_at_def by blast+
  obtain no cs p where n: "t = BNode no cs" "V no = Some p" "internal_page p (child_cells cs)"
    "sum_list (internal_sizes (child_cells cs)) \<le> USABLE" "labels_ok None cs" "forest_ok V h None None 0 cs"
    by (rule node_okE [OF wf])
  have no: "no = root" using root n(1) by simp
  obtain s1 where s1: "st_read ops root s = (Inr p, s1)" "rep s1 V r" using read_law [OF Suc.prems(1), of root p] n(2) no by blast
  have p: "is_internal p" "cell_count p = Inr (length cs)" using n(3) by (auto simp: internal_page_def is_internal_def page_consts)
  show ?case
  proof (cases "length cs = 1")
    case False
    then have "collapse_root fuel ops root s = (Inr (), s1)" using s1(1) p by (simp add: f(1) sbind_def)
    then show ?thesis using s1(2) Suc.prems(2) moves_refl by blast
  next
    case True
    then obtain k c where cs: "cs = [(k, c)]" by (cases cs) auto
    have wc: "bt_wf V h None None 0 c" using n(6) by (simp add: cs)
    obtain us where us: "tree_pages h c = root_no c # us" using root_first(2) by blast
    have d: "distinct (root # root_no c # us)" using dis by (simp add: n(1) no cs us)
    obtain q where q: "V (root_no c) = Some q" using wf_live [OF wc, of "root_no c"] us by auto
    obtain s2 where s2: "st_read ops (root_no c) s1 = (Inr q, s2)" "rep s2 V r" using read_law [OF s1(2) q] by blast
    obtain s3 where s3: "st_write ops root q s2 = (Inr (), s3)" "rep s3 (V(root \<mapsto> q)) r"
      using write_law [OF s2(2), of root q] n(2) no page_law [OF s2(2) q] by auto
    obtain s4 where s4: "st_free ops (root_no c) s3 = (Inr (), s4)" "rep s4 (V(root \<mapsto> q, root_no c := None)) r"
      using free_law [OF s3(2), of "root_no c"] q d by auto
    let ?V = "V(root \<mapsto> q, root_no c := None)" and ?t = "set_root root c"
    have same: "same_on (V(root \<mapsto> q)) V (set (tree_pages h c))" using d unfolding us same_on_def by auto
    have "(V(root \<mapsto> q)) root = (V(root \<mapsto> q)) (root_no c)" using q d by simp
    from set_root_wf [OF wf_cong [OF wc same] this] have "bt_wf (V(root \<mapsto> q)) h None None 0 ?t" .
    moreover have pt: "tree_pages h ?t = root # us" by (simp add: set_root_pages us)
    moreover have "same_on ?V (V(root \<mapsto> q)) (set (tree_pages h ?t))" using d unfolding pt same_on_def by auto
    ultimately have "tree_at ?V root h ?t" using wf_cong [of "V(root \<mapsto> q)" h None None 0 ?t ?V] d unfolding tree_at_def by auto
    from Suc.IH [OF s4(2) this f(2)] obtain s' V' h' t' where
      ih: "collapse_root f ops root s4 = (Inr (), s')" "rep s' V' r" "tree_at V' root h' t'" "entries h' t' = entries h ?t"
        "moves ?V V' (set (tree_pages h ?t)) (set (tree_pages h' t'))" by blast
    have "moves V ?V (set (tree_pages (Suc h) t)) (set (tree_pages h ?t))"
      using d unfolding pt n(1) cs no by (auto simp: us moves_def)
    then have "moves V V' (set (tree_pages (Suc h) t)) (set (tree_pages h' t'))" using moves_trans ih(5) by blast
    moreover have "collapse_root fuel ops root s = (Inr (), s')"
      using s1(1) p internal_child_at [OF n(3), of 0] cs s2(1) s3(1) s4(1) ih(1) by (simp add: f(1) sbind_def)
    moreover have "entries h' t' = entries (Suc h) t" using ih(4) by (simp add: set_root_pages n(1) cs)
    ultimately show ?thesis using ih(2,3) by blast
  qed
qed

lemma bt_delete_spec:
  assumes rep: "rep s V r" and t: "tree_at V root h t" and fuel: "cost h t < fuel"
  shows "\<exists>s' V' h' t'. bt_delete fuel ops root key s = (Inr (map_of (entries h t) key \<noteq> None), s') \<and> rep s' V' r
    \<and> tree_at V' root h' t' \<and> entries h' t' = drop_key key (entries h t)
    \<and> moves V V' (set (tree_pages h t)) (set (tree_pages h' t'))"
proof -
  have wf: "bt_wf V h None None 0 t" and root: "root_no t = root" and dis: "distinct (tree_pages h t)"
    using t by (simp_all add: tree_at_def)
  note f = cost_bounds [OF fuel]
  obtain s1 V1 out where o: "try_delete_optimistic fuel ops root key s = (Inr out, s1)" "rep s1 V1 r"
    "case out of None \<Rightarrow> V1 = V
       | Some found \<Rightarrow> found = (map_of (entries h t) key \<noteq> None) \<and>
          (\<exists>t'. bt_wf V1 h None None 0 t' \<and> root_no t' = root_no t \<and> distinct (tree_pages h t')
           \<and> entries h t' = drop_key key (entries h t) \<and> moves V V1 (set (tree_pages h t)) (set (tree_pages h t')))"
    using try_delete_optimistic_spec [OF rep wf f dis] root by blast
  show ?thesis
  proof (cases out)
    case (Some found)
    then have "bt_delete fuel ops root key s = (Inr (map_of (entries h t) key \<noteq> None), s1)"
      using o(1,3) by (simp add: bt_delete_def sbind_def)
    moreover have "\<exists>t'. tree_at V1 root h t' \<and> entries h t' = drop_key key (entries h t)
        \<and> moves V V1 (set (tree_pages h t)) (set (tree_pages h t'))"
      using o(3) Some root unfolding tree_at_def by auto
    ultimately show ?thesis using o(2) by blast
  next
    case None
    then have V1: "rep s1 V r" using o(2,3) by simp
    obtain s2 V2 t2 where d: "delete_from fuel fuel ops key root s1 = (Inr (map_of (entries h t) key \<noteq> None), s2)" "rep s2 V2 r"
      "shrunk V V2 h None None 0 t key t2"
      using delete_from_spec [OF V1 wf f dis] root by blast
    have t2: "tree_at V2 root h t2" using d(3) root by (simp add: shrunk_def tree_at_def)
    obtain s3 V3 h' t' where c: "collapse_root fuel ops root s2 = (Inr (), s3)" "rep s3 V3 r" "tree_at V3 root h' t'"
      "entries h' t' = entries h t2" "moves V2 V3 (set (tree_pages h t2)) (set (tree_pages h' t'))"
      using collapse_root_spec [OF d(2) t2 f(1)] by blast
    have "bt_delete fuel ops root key s = (Inr (map_of (entries h t) key \<noteq> None), s3)"
      using o(1) None d(1) c(1) by (simp add: bt_delete_def sbind_def)
    moreover have "entries h' t' = drop_key key (entries h t)" using c(4) d(3) by (simp add: shrunk_def)
    moreover have "moves V V3 (set (tree_pages h t)) (set (tree_pages h' t'))"
      using moves_trans [OF _ c(5)] d(3) by (simp add: shrunk_def)
    ultimately show ?thesis using c(2,3) by blast
  qed
qed

end

end
