(* ===== verification/Btree_Map.thy ===== *)
theory Btree_Map
  imports Btree_Delete
begin

text \<open>
  The B+tree as an ordered map over the pager: creation, conditional insertion, the list of leaf
  pages and the release of a whole tree, and the properties of every operation for the pager's own
  page store. A tree is described by \<open>tree_at\<close>; \<open>cost\<close> bounds the fuel its operations need.
\<close>

section \<open>Creating, dropping and walking a tree\<close>

lemma without_cong: "set ps = set qs \<Longrightarrow> without V ps = without V qs"
  by (auto simp: without_def)

lemma without_same_on: "S \<inter> set ps = {} \<Longrightarrow> same_on (without V ps) V S"
  by (auto simp: same_on_def without_def)

lemma le_zero: "u16_le 0 = replicate 2 0" "u32_le 0 = replicate 4 0"
  by code_simp+

lemma new_leaf_page: "\<exists>p. new_leaf = Inr p \<and> leaf_page p [] 0 \<and> length p = PAGE_SIZE"
proof -
  let ?z = "zero_page[0 := PAGE_LEAF]"
  have z: "?z = PAGE_LEAF # replicate (PAGE_SIZE - 1) 0"
    using replicate_Suc [of "PAGE_SIZE - 1" "0 :: byte"] by (simp add: zero_page_def PAGE_SIZE_def)
  have zeros: "bytes_at ?z 2 (u16_le 0)" "bytes_at ?z 8 (u32_le 0)" "bytes_at ?z 0 [PAGE_LEAF]"
    by (simp_all add: z bytes_at_def PAGE_SIZE_def le_zero drop_Cons')
  obtain p where p: "put_slice ?z OFF_FREE_END (u16_le (of_nat PAGE_SIZE)) = Inr p"
    using put_slice_ok [of OFF_FREE_END "u16_le (of_nat PAGE_SIZE)" ?z] by (auto simp: zero_page_def page_consts)
  have "bytes_at p 2 (u16_le 0)" "bytes_at p 8 (u32_le 0)" "bytes_at p 0 [PAGE_LEAF]" "length p = PAGE_SIZE"
    using put_slice_keeps [OF p zeros(1)] put_slice_keeps [OF p zeros(2)] put_slice_keeps [OF p zeros(3)] put_slice_length [OF p]
    by (simp_all add: page_consts zero_page_def)
  then have "leaf_page p [] 0"
    by (simp add: leaf_page_def page_type_at cell_count_def right_link_def get_u16_at get_u32_at page_consts)
  then show ?thesis using p \<open>length p = PAGE_SIZE\<close> by (simp add: new_leaf_def new_page_def put_u16_def)
qed

context page_store
begin

lemma bt_create_spec:
  assumes "rep s V (Suc r)"
  shows "\<exists>root s' p. bt_create ops s = (Inr root, s') \<and> V root = None \<and> rep s' (V(root \<mapsto> p)) r
    \<and> tree_at (V(root \<mapsto> p)) root 0 (BLeaf root [] 0)"
proof -
  obtain root s1 where a: "st_alloc ops s = (Inr root, s1)" "root \<noteq> 0" "V root = None" "rep s1 (V(root \<mapsto> zero_page)) r"
    using alloc_law [OF assms] by blast
  obtain p where p: "new_leaf = Inr p" "leaf_page p [] 0" "length p = PAGE_SIZE"
    using new_leaf_page by blast
  obtain s2 where s2: "st_write ops root p s1 = (Inr (), s2)" "rep s2 (V(root \<mapsto> p)) r"
    using write_law [OF a(4) _ p(3), of root] by auto
  have "leaf_ok (V(root \<mapsto> p)) None None 0 (BLeaf root [] 0)" by (rule leaf_okI [of _ _ p]) (use p(2) in simp_all)
  moreover have "bt_create ops s = (Inr root, s2)" unfolding bt_create_def p(1) using a(1) s2(1) by (simp add: sbind_def)
  ultimately show ?thesis using a(3) s2(2) by (auto simp: tree_at_def)
qed

lemma free_cells_spec:
  assumes "rep s V r" "\<forall>e \<in> set es. cell_in V (snd e)" "distinct (cells_pages es)" "length (cells_pages es) < fuel"
    "\<forall>j < length es. leaf_value p (k + j) = Inr (stored_of (snd (es ! j)))"
  shows "\<exists>s'. sfor (\<lambda>i. sbind (slift (leaf_value p i)) (free_if_overflow fuel ops)) [k..<k + length es] s = (Inr (), s')
    \<and> rep s' (without V (cells_pages es)) r"
  using assms
proof (induction es arbitrary: s V k)
  case (Cons e es)
  have v: "leaf_value p k = Inr (stored_of (snd e))" using Cons.prems(5) [rule_format, of 0] by simp
  have "cell_in V (snd e)" "length (cell_pages (snd e)) < fuel" "distinct (cell_pages (snd e))" using Cons.prems(2-4) by simp_all
  then obtain s1 where s1: "free_if_overflow fuel ops (stored_of (snd e)) s = (Inr (), s1)" "rep s1 (without V (cell_pages (snd e))) r"
    using free_cell_spec [OF Cons.prems(1)] by blast
  have "\<forall>x \<in> set es. cell_in (without V (cell_pages (snd e))) (snd x)"
  proof
    fix x assume x: "x \<in> set es"
    then have "set (cell_pages (snd x)) \<inter> set (cell_pages (snd e)) = {}"
      using Cons.prems(3) by (auto simp: set_cells_pages)
    from cell_in_cong [OF without_same_on [OF this]] Cons.prems(2) x show "cell_in (without V (cell_pages (snd e))) (snd x)" by simp
  qed
  moreover have "\<forall>j < length es. leaf_value p (Suc k + j) = Inr (stored_of (snd (es ! j)))" using Cons.prems(5) by fastforce
  moreover have "distinct (cells_pages es)" "length (cells_pages es) < fuel" using Cons.prems(3,4) by simp_all
  ultimately obtain s2 where "sfor (\<lambda>i. sbind (slift (leaf_value p i)) (free_if_overflow fuel ops)) [Suc k..<Suc k + length es] s1 = (Inr (), s2)"
    "rep s2 (without (without V (cell_pages (snd e))) (cells_pages es)) r" using Cons.IH [OF s1(2), of "Suc k"] by blast
  moreover have "[k..<k + length (e # es)] = k # [Suc k..<Suc k + length es]" by (simp add: upt_rec)
  ultimately show ?case using v s1(1) unfolding cells_simps without_append [symmetric]
    by (intro exI [of _ s2]) (simp only: sfor.simps, simp add: sbind_Inr)
qed simp

lemma free_forest_spec:
  assumes "rep s V r" "\<forall>c \<in> set cs. \<exists>lo hi nxt. bt_wf V h lo hi nxt (snd c)" "distinct (forest_pages h cs)"
    and step: "\<And>s V c. rep s V r \<Longrightarrow> c \<in> set cs \<Longrightarrow> \<exists>lo hi nxt. bt_wf V h lo hi nxt (snd c) \<Longrightarrow>
      \<exists>s'. f (root_no (snd c)) s = (Inr (), s') \<and> rep s' (without V (tree_pages h (snd c))) r"
  shows "\<exists>s'. sfor f (map (\<lambda>c. root_no (snd c)) cs) s = (Inr (), s') \<and> rep s' (without V (forest_pages h cs)) r"
  using assms
proof (induction cs arbitrary: s V)
  case (Cons c cs)
  obtain s1 where s1: "f (root_no (snd c)) s = (Inr (), s1)" "rep s1 (without V (tree_pages h (snd c))) r"
    using Cons.prems(4) [OF Cons.prems(1), of c] Cons.prems(2) by auto
  have "\<forall>d \<in> set cs. \<exists>lo hi nxt. bt_wf (without V (tree_pages h (snd c))) h lo hi nxt (snd d)"
  proof
    fix d assume d: "d \<in> set cs"
    then have "set (tree_pages h (snd d)) \<inter> set (tree_pages h (snd c)) = {}" using Cons.prems(3) by auto
    from wf_cong [OF _ without_same_on [OF this]] Cons.prems(2) d
    show "\<exists>lo hi nxt. bt_wf (without V (tree_pages h (snd c))) h lo hi nxt (snd d)" by (metis list.set_intros(2))
  qed
  moreover have "distinct (forest_pages h cs)" using Cons.prems(3) by simp
  ultimately obtain s2 where "sfor f (map (\<lambda>c. root_no (snd c)) cs) s1 = (Inr (), s2)"
    "rep s2 (without (without V (tree_pages h (snd c))) (forest_pages h cs)) r"
    using Cons.IH [OF s1(2) _ _ Cons.prems(4)] by auto
  then show ?case using s1(1) by (auto simp: sbind_def without_append)
qed simp

lemma free_subtree_spec:
  assumes "rep s V r" "\<exists>lo hi nxt. bt_wf V h lo hi nxt t" "h < depth" "length (tree_pages h t) \<le> fuel" "distinct (tree_pages h t)"
  shows "\<exists>s'. free_subtree depth fuel ops (root_no t) s = (Inr (), s') \<and> rep s' (without V (tree_pages h t)) r"
  using assms
proof (induction h arbitrary: depth s V t)
  case 0
  obtain d where d: "depth = Suc d" using "0.prems"(3) by (cases depth) auto
  obtain lo hi nxt where "bt_wf V 0 lo hi nxt t" using "0.prems"(2) by blast
  then obtain no es p where l: "t = BLeaf no es nxt" "V no = Some p" "leaf_page p (stored_entries es) nxt" "\<forall>e \<in> set es. cell_in V (snd e)"
    by (auto simp: leaf_ok_def cell_ok_def)
  obtain s1 where s1: "st_read ops no s = (Inr p, s1)" "rep s1 V r" using read_law [OF "0.prems"(1) l(2)] by blast
  have p: "\<not> is_internal p" "cell_count p = Inr (length es)" "\<forall>j < length es. leaf_value p (0 + j) = Inr (stored_of (snd (es ! j)))"
    using l(3) by (auto simp: leaf_page_def is_internal_def page_consts)
  have d': "distinct (cells_pages es)" "length (cells_pages es) < fuel" "no \<notin> set (cells_pages es)" using "0.prems"(4,5) by (auto simp: l(1))
  obtain s2 where s2: "sfor (\<lambda>i. sbind (slift (leaf_value p i)) (free_if_overflow fuel ops)) [0..<length es] s1 = (Inr (), s2)"
    "rep s2 (without V (cells_pages es)) r" using free_cells_spec [OF s1(2) l(4) d'(1,2) p(3)] by auto
  have "without V (cells_pages es) no \<noteq> None" using l(2) d'(3) by (simp add: without_def)
  from free_law [OF s2(2) this] obtain s3 where s3: "st_free ops no s2 = (Inr (), s3)"
    "rep s3 ((without V (cells_pages es))(no := None)) r" by blast
  moreover have "(without V (cells_pages es))(no := None) = without V (tree_pages 0 t)" by (auto simp: without_def l(1))
  ultimately show ?case using s1(1) p s2(1) by (simp add: d l(1) sbind_def)
next
  case (Suc h)
  obtain dep where d: "depth = Suc dep" "h < dep" using Suc.prems(3) by (cases depth) auto
  obtain lo hi nxt where wf: "bt_wf V (Suc h) lo hi nxt t" using Suc.prems(2) by blast
  obtain no cs p where n: "t = BNode no cs" "V no = Some p" "internal_page p (child_cells cs)"
    "sum_list (internal_sizes (child_cells cs)) \<le> USABLE" "labels_ok lo cs" "forest_ok V h lo hi nxt cs"
    by (rule node_okE [OF wf])
  obtain s1 where s1: "st_read ops no s = (Inr p, s1)" "rep s1 V r" using read_law [OF Suc.prems(1) n(2)] by blast
  have p: "is_internal p" "cell_count p = Inr (length cs)" using n(3) by (auto simp: internal_page_def is_internal_def page_consts)
  have "rmap (internal_child p) [0..<length cs] = Inr (map (\<lambda>i. root_no (snd (cs ! i))) [0..<length cs])"
    by (rule rmap_Inr) (use internal_child_at [OF n(3)] in simp)
  also have "map (\<lambda>i. root_no (snd (cs ! i))) [0..<length cs] = map (\<lambda>c. root_no (snd c)) cs"
    by (intro nth_equalityI) simp_all
  finally have kids: "rmap (internal_child p) [0..<length cs] = Inr (map (\<lambda>c. root_no (snd c)) cs)" .
  have small: "length (tree_pages h (snd c)) \<le> fuel" "distinct (tree_pages h (snd c))" if "c \<in> set cs" for c
    using Suc.prems(4,5) forest_pages_le [OF that, of h] that by (auto simp: n(1) distinct_concat_iff)
  have wfs: "\<forall>c \<in> set cs. \<exists>lo hi nxt. bt_wf V h lo hi nxt (snd c)" using chain_ok_member [OF n(6)] by blast
  have dis: "distinct (forest_pages h cs)" "no \<notin> set (forest_pages h cs)" using Suc.prems(5) by (simp_all add: n(1))
  have step: "\<exists>s'. free_subtree dep fuel ops (root_no (snd c)) s = (Inr (), s') \<and> rep s' (without V (tree_pages h (snd c))) r"
    if "rep s V r" "c \<in> set cs" "\<exists>lo hi nxt. bt_wf V h lo hi nxt (snd c)" for s V c
    using Suc.IH [OF that(1,3) d(2) small [OF that(2)]] .
  obtain s2 where s2: "sfor (free_subtree dep fuel ops) (map (\<lambda>c. root_no (snd c)) cs) s1 = (Inr (), s2)"
    "rep s2 (without V (forest_pages h cs)) r" using free_forest_spec [of s1 V r cs h "free_subtree dep fuel ops", OF s1(2) wfs dis(1) step] by blast
  have "without V (forest_pages h cs) no \<noteq> None" using n(2) dis(2) by (simp add: without_def)
  from free_law [OF s2(2) this] obtain s3 where s3: "st_free ops no s2 = (Inr (), s3)"
    "rep s3 ((without V (forest_pages h cs))(no := None)) r" by blast
  moreover have "(without V (forest_pages h cs))(no := None) = without V (tree_pages (Suc h) t)" by (auto simp: without_def n(1))
  ultimately show ?case using s1(1) p s2(1) kids by (simp add: d(1) n(1) sbind_def)
qed

lemma leftmost_leaf_spec:
  assumes "rep s V r" "bt_wf V h lo hi nxt t" "h < depth"
  shows "\<exists>s'. leftmost_leaf depth ops (root_no t) s = (Inr (first_leaf h t), s') \<and> rep s' V r"
  using assms
proof (induction h arbitrary: depth s lo hi nxt t)
  case 0
  obtain d where d: "depth = Suc d" using "0.prems"(3) by (cases depth) auto
  obtain no es p where l: "t = BLeaf no es nxt" "V no = Some p" "leaf_page p (stored_entries es) nxt"
    using "0.prems"(2) by (auto simp: leaf_ok_def)
  obtain s1 where "st_read ops no s = (Inr p, s1)" "rep s1 V r" using read_law [OF "0.prems"(1) l(2)] by blast
  then show ?case using leaf_page_reads [OF l(3)] by (simp add: d l(1) sbind_def)
next
  case (Suc h)
  obtain dep where d: "depth = Suc dep" "h < dep" using Suc.prems(3) by (cases depth) auto
  obtain no cs p where n: "t = BNode no cs" "V no = Some p" "internal_page p (child_cells cs)"
    "sum_list (internal_sizes (child_cells cs)) \<le> USABLE" "labels_ok lo cs" "forest_ok V h lo hi nxt cs"
    by (rule node_okE [OF Suc.prems(2)])
  obtain c post where cs: "cs = c # post" using chain_ok_nonempty [OF n(6)] by (cases cs) auto
  obtain lo' hi' nxt' where c: "bt_wf V h lo' hi' nxt' (snd c)" using chain_ok_member [OF n(6), of c] cs by auto
  obtain s1 where s1: "st_read ops no s = (Inr p, s1)" "rep s1 V r" using read_law [OF Suc.prems(1) n(2)] by blast
  have "\<not> is_leaf p" "internal_child p 0 = Inr (root_no (snd c))"
    using n(3) internal_child_at [OF n(3), of 0] cs by (auto simp: internal_page_def is_leaf_def page_consts)
  with Suc.IH [OF s1(2) c d(2)] s1(1) show ?case by (auto simp: d(1) n(1) cs sbind_def)
qed

lemma walk_leaves_spec:
  assumes "rep s V r" "leaf_run V ls 0 no" "length ls < fuel"
  shows "\<exists>s'. walk_leaves fuel ops no s = (Inr (map fst ls), s') \<and> rep s' V r"
  using assms
proof (induction ls arbitrary: s no fuel)
  case Nil
  then show ?case by (cases fuel) auto
next
  case (Cons l ls)
  obtain f where f: "fuel = Suc f" "length ls < f" using Cons.prems(3) by (cases fuel) auto
  obtain p link where p: "no = fst l" "V no = Some p" "leaf_page p (stored_entries (snd l)) link" "leaf_run V ls 0 link"
    using Cons.prems(2) by auto
  obtain s1 where s1: "st_read ops no s = (Inr p, s1)" "rep s1 V r" using read_law [OF Cons.prems(1) p(2)] by blast
  obtain s2 where s2: "walk_leaves f ops link s1 = (Inr (map fst ls), s2)" "rep s2 V r" using Cons.IH [OF s1(2) p(4) f(2)] by blast
  have "no \<noteq> 0" using page_law [OF Cons.prems(1) p(2)] by simp
  then show ?case using s1(1) s2 leaf_page_reads [OF p(3)] p(1) by (simp add: f(1) sbind_def)
qed

end

section \<open>Properties over the pager\<close>

definition untouched :: "page_map \<Rightarrow> page_map \<Rightarrow> nat \<Rightarrow> bt \<Rightarrow> nat \<Rightarrow> bt \<Rightarrow> bool" where
  "untouched V V' h t h' t' \<longleftrightarrow>
     (\<forall>no. no \<notin> set (tree_pages h t) \<longrightarrow> V no \<noteq> None \<longrightarrow> V' no = V no)
     \<and> (\<forall>no. V' no \<noteq> None \<longrightarrow> V no = None \<or> no \<in> set (tree_pages h t) \<longrightarrow> no \<in> set (tree_pages h' t'))"

text \<open>Live pages outside the tree stay as they were, and a page that is new or was the tree's is the tree's or free.\<close>

lemma moves_untouched:
  assumes "moves V V' (set (tree_pages h t)) (set (tree_pages h' t'))"
  shows "untouched V V' h t h' t'"
  using assms unfolding moves_def untouched_def by (metis DiffI Un_iff)

lemma sample_room: "represents sample_pager [1 \<mapsto> page_at [] 1] 9"
  using sample_pager_represents by (auto simp: represents_def) (simp add: sample_pager_def new_pager_def)

lemma sample_tree:
  "\<exists>root s p. bt_create pager_ops sample_pager = (Inr root, s) \<and> represents s ([1 \<mapsto> page_at [] 1, root \<mapsto> p]) 8
     \<and> tree_at [1 \<mapsto> page_at [] 1, root \<mapsto> p] root 0 (BLeaf root [] 0)"
  using pager_store.bt_create_spec [of sample_pager "[1 \<mapsto> page_at [] 1]" 8] sample_room by (auto simp: eval_nat_numeral)

lemma sample_cost: "cost 0 (BLeaf root [] 0) < 2"
  by (simp add: cost_def)

text \<open>A search in the B+tree returns the value stored under the key, unwrapped from its overflow
  chain, or nothing when the key is absent, and leaves every page as it was; it needs no more fuel than
  the size of the tree.\<close>

theorem bt_search_correct:
  assumes "represents s V r" "tree_at V root h t" "cost h t < fuel"
  shows "\<exists>s'. bt_search fuel pager_ops root key s = (Inr (map_of (entries h t) key), s') \<and> represents s' V r"
  using pager_store.search_from_spec [OF assms(1), of h None None 0 t fuel fuel key] assms(2) cost_bounds [OF assms(3)]
  by (auto simp: bt_search_def tree_at_def)

text \<open>C2: Insertion refines the update of a map. On a well-formed tree with room for a page per level, one
  for a new root and the chunks of the value, \<open>bt_insert\<close> succeeds, the root keeps its page number,
  the tree is well-formed again (balanced, ordered, leaves linked), its entries are the old ones with
  the key set, live pages of others keep their contents, and no page of the tree is lost.\<close>

theorem bt_insert_correct:
  assumes "represents s V (r + Suc (Suc h) + length (chunks v))" "tree_at V root h t" "cost h t < fuel" "key_fits key"
  shows "\<exists>s' V' h' t'. bt_insert fuel pager_ops root key v s = (Inr (), s') \<and> represents s' V' r \<and> tree_at V' root h' t'
    \<and> map_of (entries h' t') = (map_of (entries h t))(key \<mapsto> v) \<and> untouched V V' h t h' t'"
  using pager_store.bt_insert_spec [OF assms] moves_untouched map_of_set_key by metis

text \<open>C3: Deletion refines the removal from a map. It reports whether the key was present, leaves a
  well-formed tree at the same root whose entries are the old ones without the key, whatever siblings
  it merged and however far the root collapsed, and frees every page that leaves the tree.\<close>

theorem bt_delete_correct:
  assumes "represents s V r" "tree_at V root h t" "cost h t < fuel"
  shows "\<exists>s' V' h' t'. bt_delete fuel pager_ops root key s = (Inr (map_of (entries h t) key \<noteq> None), s')
    \<and> represents s' V' r \<and> tree_at V' root h' t'
    \<and> map_of (entries h' t') = (map_of (entries h t))(key := None) \<and> untouched V V' h t h' t'"
  using pager_store.bt_delete_spec [OF assms] moves_untouched map_of_drop_key by metis

text \<open>C27: A range scan returns exactly the entries from the start key up to the end key, in ascending key
  order without repetition, by walking the leaf links.\<close>

theorem scan_range_correct:
  assumes "represents s V r" "tree_at V root h t" "cost h t < fuel"
  shows "\<exists>es s'. scan_range fuel pager_ops root start stop s = (Inr es, s') \<and> represents s' V r
    \<and> sorted_wrt (<) (map fst es)
    \<and> (\<forall>k v. (k, v) \<in> set es \<longleftrightarrow> map_of (entries h t) k = Some v \<and> start \<le> k \<and> below stop k)"
proof -
  have wf: "bt_wf V h None None 0 t" "root_no t = root" using assms(2) by (simp_all add: tree_at_def)
  let ?es = "filter (\<lambda>e. above (Some start) (fst e) \<and> below stop (fst e)) (entries h t)"
  obtain s' where "scan_range fuel pager_ops root start stop s = (Inr ?es, s')" "represents s' V r"
    using pager_store.scan_spec [OF assms(1) wf(1), of fuel "Some start" stop] assms(3) wf(2)
    by (auto simp: scan_range_def cost_def)
  moreover have sorted: "sorted_wrt (<) (map fst (entries h t))" by (rule wf_sorted [OF wf(1)])
  then have "sorted_wrt (<) (map fst ?es)" by (simp add: sorted_wrt_map sorted_wrt_filter)
  moreover have "distinct (map fst (entries h t))" using sorted strict_sorted_iff by blast
  then have "(k, v) \<in> set ?es \<longleftrightarrow> map_of (entries h t) k = Some v \<and> start \<le> k \<and> below stop k" for k v
    by (auto simp: map_of_eq_Some_iff)
  ultimately show ?thesis by blast
qed

text \<open>Dropping a tree returns every one of its pages, overflow chains included, to the free list and
  touches no other page.\<close>

theorem free_all_releases_tree:
  assumes "represents s V r" "tree_at V root h t" "cost h t < fuel"
  shows "\<exists>s'. free_all fuel pager_ops root s = (Inr (), s')
    \<and> represents s' (\<lambda>no. if no \<in> set (tree_pages h t) then None else V no) r"
  using pager_store.free_subtree_spec [OF assms(1), of h t fuel fuel] assms(2) cost_bounds [OF assms(3)]
  by (auto simp: free_all_def tree_at_def without_def)

text \<open>A key too long for a cell is refused before anything is read or written, whatever the state of
  the store.\<close>

theorem bt_insert_too_large:
  assumes "\<not> key_fits key"
  shows "bt_insert fuel st root key v s = (Inl (Fail TooLarge), s)"
  using assms by (simp add: bt_insert_def key_fits_def)

text \<open>An overflowing node, of cells no larger than half a page of which one was just added, is cut
  into two non-empty halves that each fit in a page.\<close>

theorem split_index_fits:
  assumes "\<forall>fp \<in> set fps. fp \<le> USABLE div 2" "USABLE < sum_list fps" "sum_list fps \<le> USABLE + USABLE div 2"
  shows "0 < split_index fps \<and> split_index fps < length fps
    \<and> sum_list (take (split_index fps) fps) \<le> USABLE \<and> sum_list (drop (split_index fps) fps) \<le> USABLE"
  by (rule split_index_spec [OF assms])

text \<open>Insertion that must not overwrite keeps the old value of a present key and reports that it did;
  an absent key is inserted.\<close>

theorem insert_if_absent_keeps:
  assumes "represents s V (r + Suc (Suc h) + length (chunks v))" "tree_at V root h t" "cost h t < fuel" "key_fits key"
  shows "\<exists>s' V' h' t'. insert_if_absent fuel pager_ops root key v s = (Inr (map_of (entries h t) key = None), s')
    \<and> represents s' V' r \<and> tree_at V' root h' t'
    \<and> map_of (entries h' t') = (if map_of (entries h t) key = None then (map_of (entries h t))(key \<mapsto> v) else map_of (entries h t))"
proof -
  obtain s1 where s1: "bt_search fuel pager_ops root key s = (Inr (map_of (entries h t) key), s1)"
    "represents s1 V (r + Suc (Suc h) + length (chunks v))"
    using pager_store.search_from_spec [OF assms(1), of h None None 0 t fuel fuel key] assms(2) cost_bounds [OF assms(3)]
    by (auto simp: bt_search_def tree_at_def)
  show ?thesis
  proof (cases "map_of (entries h t) key")
    case None
    obtain s2 V' h' t' where "bt_insert fuel pager_ops root key v s1 = (Inr (), s2)" "represents s2 V' r" "tree_at V' root h' t'"
      "entries h' t' = set_key key v (entries h t)"
      using pager_store.bt_insert_spec [OF s1(2) assms(2-4)] by blast
    then show ?thesis using s1(1) None
      by (intro exI [of _ s2] exI [of _ V'] exI [of _ h'] exI [of _ t']) (simp add: insert_if_absent_def sbind_def map_of_set_key)
  next
    case (Some w)
    have "represents s1 V r" using pager_store.room_law [OF s1(2), of r] by simp
    then show ?thesis using s1(1) Some assms(2)
      by (intro exI [of _ s1] exI [of _ V] exI [of _ h] exI [of _ t]) (simp add: insert_if_absent_def sbind_def)
  qed
qed

section \<open>Witnesses\<close>

lemma sample_key: "key_fits [7]" "length (chunks [9]) = 1"
  by (simp add: key_fits_def page_consts)
    (subst chunks.simps, subst chunks.simps, simp add: chunk_capacity_def OVERFLOW_HEADER_def PAGE_SIZE_def)

theorem bt_search_correct_witness:
  "\<exists>root s s'. bt_create pager_ops sample_pager = (Inr root, s) \<and> bt_search 2 pager_ops root [7] s = (Inr None, s')"
  using sample_tree bt_search_correct [OF _ _ sample_cost, where key = "[7]"] by fastforce

theorem bt_insert_correct_witness:
  "\<exists>root s s'. bt_create pager_ops sample_pager = (Inr root, s) \<and> bt_insert 2 pager_ops root [7] [9] s = (Inr (), s')"
proof -
  obtain root s p where r: "bt_create pager_ops sample_pager = (Inr root, s)" "represents s ([1 \<mapsto> page_at [] 1, root \<mapsto> p]) 8"
    "tree_at [1 \<mapsto> page_at [] 1, root \<mapsto> p] root 0 (BLeaf root [] 0)" using sample_tree by blast
  have "represents s ([1 \<mapsto> page_at [] 1, root \<mapsto> p]) (5 + Suc (Suc 0) + length (chunks [9]))" using r(2) by (simp add: sample_key)
  from bt_insert_correct [OF this r(3) sample_cost sample_key(1)] r(1) show ?thesis by blast
qed

theorem bt_delete_correct_witness:
  "\<exists>root s s'. bt_create pager_ops sample_pager = (Inr root, s) \<and> bt_delete 2 pager_ops root [7] s = (Inr False, s')"
  using sample_tree bt_delete_correct [OF _ _ sample_cost, where key = "[7]"] by fastforce

theorem scan_range_correct_witness:
  "\<exists>root s s' es. bt_create pager_ops sample_pager = (Inr root, s) \<and> scan_range 2 pager_ops root [7] None s = (Inr es, s')
     \<and> sorted_wrt (<) (map fst es)"
  using sample_tree scan_range_correct [OF _ _ sample_cost, where start = "[7]" and stop = None] by blast

theorem free_all_releases_tree_witness:
  "\<exists>root s s'. bt_create pager_ops sample_pager = (Inr root, s) \<and> free_all 2 pager_ops root s = (Inr (), s')"
  using sample_tree free_all_releases_tree [OF _ _ sample_cost] by blast

theorem bt_insert_too_large_witness:
  "bt_insert 2 pager_ops 1 (replicate 4096 0) [9] sample_pager = (Inl (Fail TooLarge), sample_pager)"
  by (rule bt_insert_too_large) (simp add: key_fits_def page_consts)

theorem split_index_fits_witness:
  "0 < split_index [2000, 2000, 500] \<and> split_index [2000, 2000, 500] < 3"
  using split_index_fits [of "[2000, 2000, 500]"] by (simp add: page_consts)

theorem insert_if_absent_keeps_witness:
  "\<exists>root s s'. bt_create pager_ops sample_pager = (Inr root, s) \<and> insert_if_absent 2 pager_ops root [7] [9] s = (Inr True, s')"
proof -
  obtain root s p where r: "bt_create pager_ops sample_pager = (Inr root, s)" "represents s ([1 \<mapsto> page_at [] 1, root \<mapsto> p]) 8"
    "tree_at [1 \<mapsto> page_at [] 1, root \<mapsto> p] root 0 (BLeaf root [] 0)" using sample_tree by blast
  have "represents s ([1 \<mapsto> page_at [] 1, root \<mapsto> p]) (5 + Suc (Suc 0) + length (chunks [9]))" using r(2) by (simp add: sample_key)
  from insert_if_absent_keeps [OF this r(3) sample_cost sample_key(1)] r(1) show ?thesis by auto
qed

end
