(* ===== verification/Wire_Protocol.thy ===== *)
theory Wire_Protocol
  imports Codec
begin

text \<open>
  The wire protocol of \<^verbatim>\<open>protocol.rs\<close>: requests and responses as length-prefixed frames. The peer's
  side of a connection is the sequence of outcomes that \<^verbatim>\<open>Read::read\<close> will give, so that short reads,
  interruptions, errors and the end of the stream are all inputs of the model; the sending side is a
  sink that may break after some number of bytes.
\<close>

section \<open>Constants and messages\<close>

definition TAG_QUERY :: byte where "TAG_QUERY = 1"
definition TAG_PREPARE :: byte where "TAG_PREPARE = 2"
definition TAG_EXECUTE :: byte where "TAG_EXECUTE = 3"
definition TAG_DEALLOCATE :: byte where "TAG_DEALLOCATE = 4"
definition TAG_ACK :: byte where "TAG_ACK = 16"
definition TAG_ROWS_BEGIN :: byte where "TAG_ROWS_BEGIN = 17"
definition TAG_ERROR :: byte where "TAG_ERROR = 18"
definition TAG_ROW :: byte where "TAG_ROW = 19"
definition TAG_ROWS_END :: byte where "TAG_ROWS_END = 20"
definition TAG_PREPARED :: byte where "TAG_PREPARED = 21"

definition VAL_NULL :: byte where "VAL_NULL = 0"
definition VAL_INT :: byte where "VAL_INT = 1"
definition VAL_REAL :: byte where "VAL_REAL = 2"
definition VAL_TEXT :: byte where "VAL_TEXT = 3"
definition VAL_BOOL :: byte where "VAL_BOOL = 4"

definition MAX_FRAME :: nat where "MAX_FRAME = 64 * 1024 * 1024"

lemmas wire_tags = TAG_QUERY_def TAG_PREPARE_def TAG_EXECUTE_def TAG_DEALLOCATE_def TAG_ACK_def TAG_ROWS_BEGIN_def
  TAG_ERROR_def TAG_ROW_def TAG_ROWS_END_def TAG_PREPARED_def
lemmas value_tags = VAL_NULL_def VAL_INT_def VAL_REAL_def VAL_TEXT_def VAL_BOOL_def

datatype request = Query bytes | Prepare bytes | Execute u64 "sql_value list" | Deallocate u64

datatype response = Ack bytes | ErrorMsg bytes | RowsBegin "bytes list" | Row "sql_value list" | RowsEnd | Prepared u64

section \<open>The frame reader\<close>

definition fr_take :: "nat \<Rightarrow> bytes reader" where
  "fr_take n = rd_take Protocol n"

definition fr_u8 :: "byte reader" where
  "fr_u8 = sbind (fr_take 1) (\<lambda>r. sret (hd r))"

definition fr_u16 :: "u16 reader" where
  "fr_u16 = sbind (fr_take 2) (\<lambda>r. sret (u16_of_be r))"

definition fr_u32 :: "u32 reader" where
  "fr_u32 = sbind (fr_take 4) (\<lambda>r. sret (u32_of_be r))"

definition fr_u64 :: "u64 reader" where
  "fr_u64 = sbind (fr_take 8) (\<lambda>r. sret (u64_of_be r))"

definition utf8 :: "bytes \<Rightarrow> bytes result" where
  "utf8 bs = (if utf8_valid bs then Inr bs else Inl (Fail Protocol))"

section \<open>Values and payloads\<close>

fun wire_encode_value :: "sql_value \<Rightarrow> bytes" where
  "wire_encode_value VNull = [VAL_NULL]"
| "wire_encode_value (VInt n) = VAL_INT # u64_be n"
| "wire_encode_value (VReal r) = VAL_REAL # u64_be r"
| "wire_encode_value (VText s) = VAL_TEXT # u32_be (of_nat (length s)) @ s"
| "wire_encode_value (VBool b) = [VAL_BOOL, u8_of_bool b]"

definition wire_decode_value :: "sql_value reader" where
  "wire_decode_value = sbind fr_u8 (\<lambda>tag.
     if tag = VAL_NULL then sret VNull
     else if tag = VAL_INT then sbind fr_u64 (\<lambda>n. sret (VInt n))
     else if tag = VAL_REAL then sbind fr_u64 (\<lambda>r. sret (VReal r))
     else if tag = VAL_TEXT then
       sbind fr_u32 (\<lambda>len.
       sbind (fr_take (unat len)) (\<lambda>raw.
       sbind (slift (utf8 raw)) (\<lambda>s. sret (VText s))))
     else if tag = VAL_BOOL then sbind fr_u8 (\<lambda>b. sret (VBool (b \<noteq> 0)))
     else slift (Inl (Fail Protocol)))"

definition encode_name :: "bytes \<Rightarrow> bytes" where
  "encode_name name = u16_be (of_nat (length name)) @ name"

definition decode_name :: "bytes reader" where
  "decode_name = sbind fr_u16 (\<lambda>len. sbind (fr_take (unat len)) (\<lambda>raw. slift (utf8 raw)))"

definition encode_columns :: "bytes list \<Rightarrow> bytes" where
  "encode_columns columns = u16_be (of_nat (length columns)) @ concat (map encode_name columns)"

definition decode_rows_begin :: "bytes \<Rightarrow> response result" where
  "decode_rows_begin payload =
     fst (sbind fr_u16 (\<lambda>count. sbind (rd_times (unat count) decode_name) (\<lambda>columns. sret (RowsBegin columns))) payload)"

definition wire_encode_row :: "sql_value list \<Rightarrow> bytes" where
  "wire_encode_row vs = u16_be (of_nat (length vs)) @ concat (map wire_encode_value vs)"

definition wire_decode_row :: "bytes \<Rightarrow> response result" where
  "wire_decode_row payload =
     fst (sbind fr_u16 (\<lambda>count. sbind (rd_times (unat count) wire_decode_value) (\<lambda>vs. sret (Row vs))) payload)"

definition encode_execute :: "u64 \<Rightarrow> sql_value list \<Rightarrow> bytes" where
  "encode_execute handle params =
     u64_be handle @ u16_be (of_nat (length params)) @ concat (map wire_encode_value params)"

definition decode_execute :: "bytes \<Rightarrow> request result" where
  "decode_execute payload =
     fst (sbind fr_u64 (\<lambda>handle.
          sbind fr_u16 (\<lambda>count.
          sbind (rd_times (unat count) wire_decode_value) (\<lambda>params. sret (Execute handle params)))) payload)"

definition decode_deallocate :: "bytes \<Rightarrow> request result" where
  "decode_deallocate payload = fst (sbind fr_u64 (\<lambda>h. sret (Deallocate h)) payload)"

definition decode_prepared :: "bytes \<Rightarrow> response result" where
  "decode_prepared payload = fst (sbind fr_u64 (\<lambda>h. sret (Prepared h)) payload)"

section \<open>Frames\<close>

record sink =
  sent :: bytes
  breaks_after :: "nat option"

definition write_all :: "bytes \<Rightarrow> (sink, unit) op" where
  "write_all bs k =
     (case breaks_after k of
        None \<Rightarrow> (Inr (), k\<lparr>sent := sent k @ bs\<rparr>)
      | Some n \<Rightarrow>
          if length bs \<le> n then (Inr (), k\<lparr>sent := sent k @ bs, breaks_after := Some (n - length bs)\<rparr>)
          else (Inl (Fail Io), k\<lparr>sent := sent k @ take n bs, breaks_after := Some 0\<rparr>))"

definition write_frame :: "byte \<Rightarrow> bytes \<Rightarrow> (sink, unit) op" where
  "write_frame tag payload =
     (if MAX_FRAME < length payload then slift (Inl (Fail Protocol))
      else sbind (write_all (tag # u32_be (of_nat (length payload)))) (\<lambda>_. write_all payload))"

datatype read_event = Chunk bytes | Interrupted | ReadError

type_synonym stream = "read_event list"

text \<open>
  \<^verbatim>\<open>fill\<close>: read until \<open>need\<close> bytes are there. \<open>None\<close> is the end of the stream before any byte. A
  chunk larger than the space left is read in part; an empty one is the end of the stream.
\<close>

fun fill :: "nat \<Rightarrow> bytes \<Rightarrow> stream \<Rightarrow> bytes option result \<times> stream" where
  "fill need filled s =
     (if need \<le> length filled then (Inr (Some filled), s)
      else case s of
        [] \<Rightarrow> (if filled = [] then Inr None else Inl (Fail Protocol), [])
      | Chunk bs # rest \<Rightarrow>
          if bs = [] then (if filled = [] then Inr None else Inl (Fail Protocol), rest)
          else if length bs \<le> need - length filled then fill need (filled @ bs) rest
          else (Inr (Some (filled @ take (need - length filled) bs)), Chunk (drop (need - length filled) bs) # rest)
      | Interrupted # rest \<Rightarrow> fill need filled rest
      | ReadError # rest \<Rightarrow> (Inl (Fail Io), rest))"

declare fill.simps [simp del]

definition read_frame :: "(stream, (byte \<times> bytes) option) op" where
  "read_frame =
     sbind (fill 5 []) (\<lambda>h.
       case h of
         None \<Rightarrow> sret None
       | Some header \<Rightarrow>
           let len = unat (u32_of_be (tl header)) in
           if MAX_FRAME < len then slift (Inl (Fail Protocol))
           else if len = 0 then sret (Some (hd header, []))
           else sbind (fill len []) (\<lambda>p.
             case p of
               None \<Rightarrow> slift (Inl (Fail Protocol))
             | Some payload \<Rightarrow> sret (Some (hd header, payload))))"

definition request_frame :: "request \<Rightarrow> byte \<times> bytes" where
  "request_frame r =
     (case r of
        Query sql \<Rightarrow> (TAG_QUERY, sql)
      | Prepare sql \<Rightarrow> (TAG_PREPARE, sql)
      | Execute handle params \<Rightarrow> (TAG_EXECUTE, encode_execute handle params)
      | Deallocate handle \<Rightarrow> (TAG_DEALLOCATE, u64_be handle))"

definition write_request :: "request \<Rightarrow> (sink, unit) op" where
  "write_request r = write_frame (fst (request_frame r)) (snd (request_frame r))"

definition parse_request :: "byte \<Rightarrow> bytes \<Rightarrow> request result" where
  "parse_request tag payload =
     (if tag = TAG_QUERY then rbind (utf8 payload) (\<lambda>s. Inr (Query s))
      else if tag = TAG_PREPARE then rbind (utf8 payload) (\<lambda>s. Inr (Prepare s))
      else if tag = TAG_EXECUTE then decode_execute payload
      else if tag = TAG_DEALLOCATE then decode_deallocate payload
      else Inl (Fail Protocol))"

definition read_request :: "(stream, request option) op" where
  "read_request =
     sbind read_frame (\<lambda>f.
       case f of
         None \<Rightarrow> sret None
       | Some (tag, payload) \<Rightarrow> sbind (slift (parse_request tag payload)) (\<lambda>r. sret (Some r)))"

definition response_frame :: "response \<Rightarrow> byte \<times> bytes" where
  "response_frame r =
     (case r of
        Ack m \<Rightarrow> (TAG_ACK, m)
      | ErrorMsg m \<Rightarrow> (TAG_ERROR, m)
      | RowsBegin columns \<Rightarrow> (TAG_ROWS_BEGIN, encode_columns columns)
      | Row vs \<Rightarrow> (TAG_ROW, wire_encode_row vs)
      | RowsEnd \<Rightarrow> (TAG_ROWS_END, [])
      | Prepared handle \<Rightarrow> (TAG_PREPARED, u64_be handle))"

definition write_response :: "response \<Rightarrow> (sink, unit) op" where
  "write_response r = write_frame (fst (response_frame r)) (snd (response_frame r))"

definition parse_response :: "byte \<Rightarrow> bytes \<Rightarrow> response result" where
  "parse_response tag payload =
     (if tag = TAG_ACK then rbind (utf8 payload) (\<lambda>m. Inr (Ack m))
      else if tag = TAG_ERROR then rbind (utf8 payload) (\<lambda>m. Inr (ErrorMsg m))
      else if tag = TAG_ROWS_BEGIN then decode_rows_begin payload
      else if tag = TAG_ROW then wire_decode_row payload
      else if tag = TAG_ROWS_END then Inr RowsEnd
      else if tag = TAG_PREPARED then decode_prepared payload
      else Inl (Fail Protocol))"

definition read_response :: "(stream, response) op" where
  "read_response =
     sbind read_frame (\<lambda>f.
       case f of
         None \<Rightarrow> slift (Inl (Fail Protocol))
       | Some (tag, payload) \<Rightarrow> slift (parse_response tag payload))"

section \<open>Payload round trips\<close>

lemma fr_append [simp]:
  "fr_u16 (u16_be w @ rest) = (Inr w, rest)" "fr_u32 (u32_be x @ rest) = (Inr x, rest)"
  "fr_u64 (u64_be y @ rest) = (Inr y, rest)" "fr_u8 (b # rest) = (Inr b, rest)"
  by (simp_all add: fr_u16_def fr_u32_def fr_u64_def fr_u8_def fr_take_def sbind_def rd_take_append rd_take_def [of _ "Suc 0"])

fun wire_value_ok :: "sql_value \<Rightarrow> bool" where
  "wire_value_ok (VText s) \<longleftrightarrow> utf8_valid s \<and> length s < 2 ^ 32"
| "wire_value_ok _ \<longleftrightarrow> True"

definition wire_name_ok :: "bytes \<Rightarrow> bool" where
  "wire_name_ok s \<longleftrightarrow> utf8_valid s \<and> length s < 2 ^ 16"

interpretation wire_values: wire_codec wire_encode_value wire_decode_value wire_value_ok
proof
  show "wire_decode_value (wire_encode_value v @ rest) = (Inr v, rest)" if "wire_value_ok v" for v rest
    using that
    by (cases v) (auto simp: wire_decode_value_def sbind_def value_tags utf8_def fr_take_def rd_take_def unat_of_nat_u32)
qed

interpretation wire_names: wire_codec encode_name decode_name wire_name_ok
proof
  show "decode_name (encode_name s @ rest) = (Inr s, rest)" if "wire_name_ok s" for s rest
    using that
    by (simp add: decode_name_def encode_name_def wire_name_ok_def sbind_def utf8_def fr_take_def rd_take_def unat_of_nat_u16)
qed

fun request_ok :: "request \<Rightarrow> bool" where
  "request_ok (Query sql) \<longleftrightarrow> utf8_valid sql"
| "request_ok (Prepare sql) \<longleftrightarrow> utf8_valid sql"
| "request_ok (Execute h params) \<longleftrightarrow> list_all wire_value_ok params \<and> length params < 2 ^ 16"
| "request_ok (Deallocate h) \<longleftrightarrow> True"

fun response_ok :: "response \<Rightarrow> bool" where
  "response_ok (Ack m) \<longleftrightarrow> utf8_valid m"
| "response_ok (ErrorMsg m) \<longleftrightarrow> utf8_valid m"
| "response_ok (RowsBegin columns) \<longleftrightarrow> list_all wire_name_ok columns \<and> length columns < 2 ^ 16"
| "response_ok (Row vs) \<longleftrightarrow> list_all wire_value_ok vs \<and> length vs < 2 ^ 16"
| "response_ok RowsEnd \<longleftrightarrow> True"
| "response_ok (Prepared h) \<longleftrightarrow> True"

lemma fr_u64_exact: "fr_u64 (u64_be y) = (Inr y, [])"
  using fr_append(3) [of y "[]"] by simp

lemma parse_request_frame: "request_ok r \<Longrightarrow> parse_request (fst (request_frame r)) (snd (request_frame r)) = Inr r"
  using wire_values.rd_times_enc [where rest = "[]"]
  by (cases r) (simp_all add: request_frame_def parse_request_def wire_tags utf8_def decode_execute_def encode_execute_def
      decode_deallocate_def sbind_def unat_of_nat_u16 fr_u64_exact)

lemma parse_response_frame: "response_ok r \<Longrightarrow> parse_response (fst (response_frame r)) (snd (response_frame r)) = Inr r"
  using wire_values.rd_times_enc [where rest = "[]"] wire_names.rd_times_enc [where rest = "[]"]
  by (cases r) (simp_all add: response_frame_def parse_response_def wire_tags utf8_def decode_rows_begin_def encode_columns_def
      wire_decode_row_def wire_encode_row_def decode_prepared_def sbind_def unat_of_nat_u16 fr_u64_exact)

section \<open>Streams\<close>

text \<open>A stream without faults, cut into chunks and interrupted in any way, and the bytes it carries.\<close>

fun event_bytes :: "read_event \<Rightarrow> bytes" where
  "event_bytes (Chunk bs) = bs"
| "event_bytes _ = []"

fun event_clean :: "read_event \<Rightarrow> bool" where
  "event_clean (Chunk bs) \<longleftrightarrow> bs \<noteq> []"
| "event_clean Interrupted \<longleftrightarrow> True"
| "event_clean ReadError \<longleftrightarrow> False"

definition carries :: "stream \<Rightarrow> bytes \<Rightarrow> bool" where
  "carries s bs \<longleftrightarrow> list_all event_clean s \<and> concat (map event_bytes s) = bs"

lemma carries_Nil [simp]: "carries [] bs \<longleftrightarrow> bs = []"
  by (auto simp: carries_def)

lemma carries_ConsE:
  assumes "carries (e # s) bs"
  obtains "e = Interrupted" "carries s bs"
  | cs ds where "e = Chunk cs" "cs \<noteq> []" "bs = cs @ ds" "carries s ds"
  using assms by (cases e) (auto simp: carries_def)

lemma carries_Chunk: "cs \<noteq> [] \<Longrightarrow> carries s ds \<Longrightarrow> carries (Chunk cs # s) (cs @ ds)"
  by (simp add: carries_def)

lemma fill_enough:
  assumes "carries s (xs @ rest)" "need = length filled + length xs"
  shows "\<exists>s'. fill need filled s = (Inr (Some (filled @ xs)), s') \<and> carries s' rest"
  using assms
proof (induction s arbitrary: filled xs)
  case Nil
  then show ?case by (simp add: fill.simps)
next
  case (Cons e s)
  show ?case
  proof (cases "xs = []")
    case True
    then show ?thesis using Cons.prems by (simp add: fill.simps)
  next
    case ne: False
    then have lt: "\<not> need \<le> length filled" using Cons.prems(2) by (cases xs) auto
    from Cons.prems(1) show ?thesis
    proof (cases rule: carries_ConsE)
      case 1
      with Cons.IH [OF 1(2) Cons.prems(2)] lt show ?thesis by (subst fill.simps) simp
    next
      case (2 cs ds)
      show ?thesis
      proof (cases "length cs \<le> length xs")
        case True
        with 2(3) have xs: "xs = cs @ drop (length cs) xs" "ds = drop (length cs) xs @ rest"
          by (metis append_eq_append_conv_if append_take_drop_id)+
        have "need = length (filled @ cs) + length (drop (length cs) xs)" using Cons.prems(2) True by simp
        from Cons.IH [OF 2(4) [unfolded xs(2)] this] obtain s' where
          "fill need (filled @ cs) s = (Inr (Some (filled @ cs @ drop (length cs) xs)), s')" "carries s' rest" by auto
        then show ?thesis using 2(1,2) lt True Cons.prems(2) xs(1) by (subst fill.simps) auto
      next
        case False
        with 2(3) have cs: "take (length xs) cs = xs" "rest = drop (length xs) cs @ ds"
          by (metis append_eq_append_conv_if nle_le)+
        have "carries (Chunk (drop (length xs) cs) # s) rest" using carries_Chunk [OF _ 2(4)] False cs(2) by simp
        then show ?thesis using 2(1,2) lt False Cons.prems(2) cs(1) by (subst fill.simps) simp
      qed
    qed
  qed
qed

lemma fill_short:
  assumes "carries s bs" "length filled + length bs < need"
  shows "\<exists>s'. fill need filled s = (if filled @ bs = [] then Inr None else Inl (Fail Protocol), s') \<and> carries s' []"
  using assms
proof (induction s arbitrary: filled bs)
  case Nil
  then show ?case by (subst fill.simps) simp
next
  case (Cons e s)
  have lt: "\<not> need \<le> length filled" using Cons.prems(2) by simp
  from Cons.prems(1) show ?case
  proof (cases rule: carries_ConsE)
    case 1
    with Cons.IH [OF 1(2) Cons.prems(2)] lt show ?thesis by (subst fill.simps) simp
  next
    case (2 cs ds)
    have "length (filled @ cs) + length ds < need" using Cons.prems(2) 2(3) by simp
    from Cons.IH [OF 2(4) this] show ?thesis using 2 lt Cons.prems(2) by (subst fill.simps) auto
  qed
qed

definition frame_bytes :: "byte \<times> bytes \<Rightarrow> bytes" where
  "frame_bytes f = fst f # u32_be (of_nat (length (snd f))) @ snd f"

lemma frame_header:
  assumes "length (snd f) \<le> MAX_FRAME"
  shows "unat (u32_of_be (tl (fst f # u32_be (of_nat (length (snd f)))))) = length (snd f)"
  using assms by (simp add: unat_of_nat_u32 MAX_FRAME_def)

lemma read_frame_whole:
  assumes "carries s (frame_bytes f @ rest)" "length (snd f) \<le> MAX_FRAME"
  shows "\<exists>s'. read_frame s = (Inr (Some f), s') \<and> carries s' rest"
proof -
  let ?h = "fst f # u32_be (of_nat (length (snd f)))"
  obtain s1 where h: "fill 5 [] s = (Inr (Some ?h), s1)" "carries s1 (snd f @ rest)"
    using fill_enough [of s ?h "snd f @ rest" 5 "[]"] assms(1) by (auto simp: frame_bytes_def)
  obtain s2 where p: "fill (length (snd f)) [] s1 = (Inr (Some (snd f)), s2)" "carries s2 rest"
    using fill_enough [OF h(2), of _ "[]"] by auto
  show ?thesis
  proof (cases "snd f = []")
    case True
    then show ?thesis using h frame_header [OF assms(2)] assms(2)
      by (intro exI [of _ s1]) (cases f, simp add: read_frame_def sbind_def)
  next
    case False
    then show ?thesis using h(1) p frame_header [OF assms(2)] assms(2)
      by (intro exI [of _ s2]) (cases f, simp add: read_frame_def sbind_def)
  qed
qed

lemma read_frame_cut:
  assumes "carries s (take n (frame_bytes f))" "n < length (frame_bytes f)" "length (snd f) \<le> MAX_FRAME"
  shows "\<exists>s'. read_frame s = (if n = 0 then Inr None else Inl (Fail Protocol), s')"
proof (cases "n < 5")
  case True
  have "length (take n (frame_bytes f)) < 5" "take n (frame_bytes f) = [] \<longleftrightarrow> n = 0" using True assms(2) by (auto simp: frame_bytes_def)
  with fill_short [OF assms(1), of "[]" 5] show ?thesis by (auto simp: read_frame_def sbind_def)
next
  case False
  let ?h = "fst f # u32_be (of_nat (length (snd f)))"
  have cut: "take n (frame_bytes f) = ?h @ take (n - 5) (snd f)"
    using False by (simp add: frame_bytes_def take_Cons' numeral_eq_Suc)
  obtain s1 where h: "fill 5 [] s = (Inr (Some ?h), s1)" "carries s1 (take (n - 5) (snd f))"
    using fill_enough [OF assms(1) [unfolded cut], of 5 "[]"] by auto
  have short: "length [] + length (take (n - 5) (snd f)) < length (snd f)" using False assms(2) by (auto simp: frame_bytes_def)
  from fill_short [OF h(2) short] h(1) frame_header [OF assms(3)] assms(2,3) False short show ?thesis
    by (auto simp: read_frame_def sbind_def split: if_splits)
qed

lemma read_frame_end: "carries s [] \<Longrightarrow> \<exists>s'. read_frame s = (Inr None, s')"
  using fill_short [of s "[]" "[]" 5] by (auto simp: read_frame_def sbind_def)

section \<open>Connections\<close>

primrec send_all :: "('m \<Rightarrow> (sink, unit) op) \<Rightarrow> 'm list \<Rightarrow> (sink, unit) op" where
  "send_all w [] = sret ()"
| "send_all w (m # ms) = sbind (w m) (\<lambda>_. send_all w ms)"

primrec receive :: "nat \<Rightarrow> (stream, 'm) op \<Rightarrow> (stream, 'm list) op" where
  "receive 0 rd = sret []"
| "receive (Suc n) rd = sbind rd (\<lambda>m. sbind (receive n rd) (\<lambda>ms. sret (m # ms)))"

lemma write_all_append: "sbind (write_all a) (\<lambda>_. write_all b) k = write_all (a @ b) k"
  by (cases "breaks_after k") (auto simp: write_all_def sbind_def)

lemma write_frame_bytes:
  "write_frame (fst f) (snd f) k = (if MAX_FRAME < length (snd f) then (Inl (Fail Protocol), k) else write_all (frame_bytes f) k)"
  using write_all_append by (simp add: write_frame_def frame_bytes_def)

text \<open>
  What reaches the peer when messages are sent until one fails: whole frames, then perhaps the
  beginning of one more.
\<close>

lemma send_all_sent:
  assumes "send_all (\<lambda>m. write_frame (fst (fr m)) (snd (fr m))) ms k = (r, k')"
  shows "\<exists>n \<le> length ms. (\<forall>m \<in> set (take n ms). length (snd (fr m)) \<le> MAX_FRAME) \<and> (r = Inr () \<longrightarrow> n = length ms)
    \<and> (sent k' = sent k @ concat (map (\<lambda>m. frame_bytes (fr m)) (take n ms))
      \<or> n < length ms \<and> length (snd (fr (ms ! n))) \<le> MAX_FRAME
         \<and> (\<exists>j < length (frame_bytes (fr (ms ! n))).
            sent k' = sent k @ concat (map (\<lambda>m. frame_bytes (fr m)) (take n ms)) @ take j (frame_bytes (fr (ms ! n)))))"
  using assms
proof (induction ms arbitrary: k)
  case Nil
  then show ?case by simp
next
  case (Cons m ms)
  let ?f = "fr m"
  consider (big) "MAX_FRAME < length (snd ?f)" | (ok) "length (snd ?f) \<le> MAX_FRAME" "case breaks_after k of None \<Rightarrow> True | Some j \<Rightarrow> length (frame_bytes ?f) \<le> j"
    | (cut) j where "length (snd ?f) \<le> MAX_FRAME" "breaks_after k = Some j" "j < length (frame_bytes ?f)"
    by (cases "breaks_after k") (simp_all, meson not_le, meson not_le_imp_less)
  then show ?case
  proof cases
    case big
    then have "r = Inl (Fail Protocol)" "k' = k" using Cons.prems by (auto simp: write_frame_bytes sbind_def)
    then show ?thesis by (intro exI [of _ 0]) simp
  next
    case ok
    define k1 where "k1 = snd (write_all (frame_bytes ?f) k)"
    have k1: "write_all (frame_bytes ?f) k = (Inr (), k1)" "sent k1 = sent k @ frame_bytes ?f"
      using ok(2) by (auto simp: k1_def write_all_def split: option.splits)
    have "write_frame (fst ?f) (snd ?f) k = (Inr (), k1)" using k1(1) ok(1) by (simp add: write_frame_bytes)
    then have "send_all (\<lambda>m. write_frame (fst (fr m)) (snd (fr m))) ms k1 = (r, k')" using Cons.prems by (simp add: sbind_def)
    from Cons.IH [OF this] obtain n where "n \<le> length ms" "\<forall>m \<in> set (take n ms). length (snd (fr m)) \<le> MAX_FRAME" "r = Inr () \<longrightarrow> n = length ms"
      "sent k' = sent k1 @ concat (map (\<lambda>m. frame_bytes (fr m)) (take n ms))
      \<or> n < length ms \<and> length (snd (fr (ms ! n))) \<le> MAX_FRAME
         \<and> (\<exists>j < length (frame_bytes (fr (ms ! n))).
            sent k' = sent k1 @ concat (map (\<lambda>m. frame_bytes (fr m)) (take n ms)) @ take j (frame_bytes (fr (ms ! n))))" by blast
    then show ?thesis using ok(1) k1(2) by (intro exI [of _ "Suc n"]) auto
  next
    case cut
    then have "r = Inl (Fail Io)" "sent k' = sent k @ take j (frame_bytes ?f)"
      using Cons.prems by (auto simp: write_frame_bytes sbind_def write_all_def)
    then show ?thesis using cut by (intro exI [of _ 0]) auto
  qed
qed

text \<open>The contract of a kind of message: its frame parses back to it.\<close>

locale message_codec =
  fixes fr :: "'m \<Rightarrow> byte \<times> bytes" and parse :: "byte \<Rightarrow> bytes \<Rightarrow> 'm result" and ok :: "'m \<Rightarrow> bool"
  assumes parse_frame: "ok m \<Longrightarrow> parse (fst (fr m)) (snd (fr m)) = Inr m"
begin

lemma receive_whole:
  assumes "carries s (concat (map (\<lambda>m. frame_bytes (fr m)) ms) @ rest)" "list_all ok ms"
    and "\<forall>m \<in> set ms. length (snd (fr m)) \<le> MAX_FRAME"
    and "\<And>s f s'. read_frame s = (Inr (Some f), s') \<Longrightarrow> rd s = (case parse (fst f) (snd f) of Inl e \<Rightarrow> Inl e | Inr m \<Rightarrow> Inr (wrap m), s')"
  shows "\<exists>s'. receive (length ms) rd s = (Inr (map wrap ms), s') \<and> carries s' rest"
  using assms(1-3)
proof (induction ms arbitrary: s)
  case (Cons m ms)
  obtain s1 where s1: "read_frame s = (Inr (Some (fr m)), s1)" "carries s1 (concat (map (\<lambda>m. frame_bytes (fr m)) ms) @ rest)"
    using read_frame_whole [of s "fr m" "concat (map (\<lambda>m. frame_bytes (fr m)) ms) @ rest"] Cons.prems by auto
  have "rd s = (Inr (wrap m), s1)" using assms(4) [OF s1(1)] parse_frame [of m] Cons.prems(2) by simp
  moreover obtain s' where "receive (length ms) rd s1 = (Inr (map wrap ms), s')" "carries s' rest"
    using Cons.IH [OF s1(2)] Cons.prems(2,3) by auto
  ultimately show ?case by (auto simp: sbind_def)
qed simp

lemma receive_sent:
  assumes "send_all (\<lambda>m. write_frame (fst (fr m)) (snd (fr m))) ms \<lparr>sent = [], breaks_after = b\<rparr> = (r, k)" "list_all ok ms" "carries s (sent k)"
    and "\<And>s f s'. read_frame s = (Inr (Some f), s') \<Longrightarrow> rd s = (case parse (fst f) (snd f) of Inl e \<Rightarrow> Inl e | Inr m \<Rightarrow> Inr (wrap m), s')"
  shows "\<exists>n s'. n \<le> length ms \<and> (r = Inr () \<longrightarrow> n = length ms) \<and> receive n rd s = (Inr (map wrap (take n ms)), s')
    \<and> fst (read_frame s') \<in> {Inr None, Inl (Fail Protocol)} \<and> (r = Inr () \<longrightarrow> fst (read_frame s') = Inr None)"
proof -
  from send_all_sent [OF assms(1)] obtain n where n: "n \<le> length ms" "\<forall>m \<in> set (take n ms). length (snd (fr m)) \<le> MAX_FRAME" "r = Inr () \<longrightarrow> n = length ms"
    "sent k = concat (map (\<lambda>m. frame_bytes (fr m)) (take n ms))
      \<or> n < length ms \<and> length (snd (fr (ms ! n))) \<le> MAX_FRAME
         \<and> (\<exists>j < length (frame_bytes (fr (ms ! n))).
            sent k = concat (map (\<lambda>m. frame_bytes (fr m)) (take n ms)) @ take j (frame_bytes (fr (ms ! n))))" by auto
  have ok: "list_all ok (take n ms)" using assms(2) by (auto simp: list_all_iff dest: in_set_takeD)
  from n(4) obtain rest where rest: "sent k = concat (map (\<lambda>m. frame_bytes (fr m)) (take n ms)) @ rest"
    "rest = [] \<or> n < length ms \<and> length (snd (fr (ms ! n))) \<le> MAX_FRAME \<and> (\<exists>j < length (frame_bytes (fr (ms ! n))). rest = take j (frame_bytes (fr (ms ! n))))"
    by auto
  obtain s' where s': "receive n rd s = (Inr (map wrap (take n ms)), s')" "carries s' rest"
    using receive_whole [of s "take n ms" rest rd wrap, OF _ ok n(2) assms(4)] assms(3) rest(1) n(1) by auto
  have "fst (read_frame s') \<in> {Inr None, Inl (Fail Protocol)}" "rest = [] \<longrightarrow> fst (read_frame s') = Inr None"
  proof -
    show "rest = [] \<longrightarrow> fst (read_frame s') = Inr None" using read_frame_end [of s'] s'(2) by auto
    show "fst (read_frame s') \<in> {Inr None, Inl (Fail Protocol)}"
    proof (cases "rest = []")
      case False
      then obtain j where j: "length (snd (fr (ms ! n))) \<le> MAX_FRAME" "j < length (frame_bytes (fr (ms ! n)))"
        "rest = take j (frame_bytes (fr (ms ! n)))" using rest(2) by blast
      from read_frame_cut [OF s'(2) [unfolded j(3)] j(2,1)] show ?thesis by (cases "j = 0") auto
    qed (use read_frame_end [of s'] s'(2) in auto)
  qed
  moreover have "r = Inr () \<longrightarrow> rest = []" using n(3) rest(2) by auto
  ultimately show ?thesis using n(1,3) s'(1) by blast
qed

end

interpretation requests: message_codec request_frame parse_request request_ok
  by unfold_locales (rule parse_request_frame)

interpretation responses: message_codec response_frame parse_response response_ok
  by unfold_locales (rule parse_response_frame)

lemma read_request_some: "read_frame s = (Inr (Some f), s') \<Longrightarrow>
    read_request s = (case parse_request (fst f) (snd f) of Inl e \<Rightarrow> Inl e | Inr m \<Rightarrow> Inr (Some m), s')"
  by (cases f) (auto simp: read_request_def sbind_def split: sum.splits)

lemma read_response_some: "read_frame s = (Inr (Some f), s') \<Longrightarrow>
    read_response s = (case parse_response (fst f) (snd f) of Inl e \<Rightarrow> Inl e | Inr m \<Rightarrow> Inr m, s')"
  by (cases f) (auto simp: read_response_def sbind_def split: sum.splits)


text \<open>Responses arrive as they were sent: what the server wrote for a statement, streamed row by row,
  is what the client reads, for every cutting of the stream into reads.\<close>

theorem responses_arrive:
  assumes "send_all write_response rs \<lparr>sent = [], breaks_after = None\<rparr> = (Inr (), k)" "list_all response_ok rs" "carries s (sent k)"
  shows "\<exists>s'. receive (length rs) read_response s = (Inr rs, s') \<and> fst (read_response s') = Inl (Fail Protocol)"
proof -
  have w: "write_response = (\<lambda>m. write_frame (fst (response_frame m)) (snd (response_frame m)))" by (simp add: write_response_def fun_eq_iff)
  have last: "fst (read_frame s) = Inr None \<Longrightarrow> fst (read_response s) = Inl (Fail Protocol)" for s
    by (auto simp: read_response_def sbind_def split: prod.splits sum.splits)
  from responses.receive_sent [OF assms(1) [unfolded w] assms(2,3), of read_response "\<lambda>m. m"] read_response_some last show ?thesis
    by (auto simp: list.map_ident)
qed

text \<open>A column name of 65536 bytes or more does not survive the wire: its length is cut to 16 bits,
  so the client reads a different name, or a broken frame, from a response the server sent without error.\<close>

theorem long_column_name_lost:
  assumes "length name = 65536" "utf8_valid name"
  shows "fst (send_all write_response [RowsBegin [name]] \<lparr>sent = [], breaks_after = None\<rparr>) = Inr ()
    \<and> parse_response TAG_ROWS_BEGIN (snd (response_frame (RowsBegin [name]))) = Inr (RowsBegin [[]])"
proof -
  let ?p = "encode_columns [name]"
  have len: "length ?p \<le> MAX_FRAME" using assms(1) by (simp add: encode_columns_def encode_name_def MAX_FRAME_def)
  have "fst (send_all write_response [RowsBegin [name]] \<lparr>sent = [], breaks_after = None\<rparr>) = Inr ()"
    using len by (simp add: write_response_def response_frame_def write_frame_def write_all_def sbind_def)
  moreover have "(of_nat (length name) :: u16) = 0" using assms(1) by simp
  then have p: "?p = u16_be 1 @ u16_be 0 @ name" by (simp add: encode_columns_def encode_name_def)
  have "utf8_valid []" by simp
  then have "decode_rows_begin ?p = Inr (RowsBegin [[]])"
    unfolding p by (simp add: decode_rows_begin_def decode_name_def sbind_def fr_take_def rd_take_def utf8_def)
  ultimately show ?thesis by (simp add: parse_response_def response_frame_def wire_tags)
qed

lemmas sample_send = write_request_def request_frame_def write_response_def response_frame_def write_frame_def write_all_def
  sbind_def MAX_FRAME_def

lemma small_lengths: "u32_be 1 = [0, 0, 0, 1]" "u32_be 3 = [0, 0, 0, 3]" "u32_be 0 = [0, 0, 0, 0]" "u16_be 1 = [0, 1]"
  by code_simp+


theorem responses_arrive_witness:
  "\<exists>s'. receive 2 read_response [Chunk [19, 0, 0, 0, 3, 0, 1], Interrupted, Chunk [0, 20, 0, 0, 0, 0]] = (Inr [Row [VNull], RowsEnd], s')"
proof -
  have "send_all write_response [Row [VNull], RowsEnd] \<lparr>sent = [], breaks_after = None\<rparr>
      = (Inr (), \<lparr>sent = [19, 0, 0, 0, 3, 0, 1, 0, 20, 0, 0, 0, 0], breaks_after = None\<rparr>)"
    by (simp add: sample_send small_lengths wire_tags value_tags wire_encode_row_def)
  moreover have "carries [Chunk [19, 0, 0, 0, 3, 0, 1], Interrupted, Chunk [0, 20, 0, 0, 0, 0]]
      (sent \<lparr>sent = [19, 0, 0, 0, 3, 0, 1, 0, 20, 0, 0, 0, 0], breaks_after = None :: nat option\<rparr>)"
    by (simp add: carries_def)
  moreover have "list_all response_ok [Row [VNull], RowsEnd]" by simp
  ultimately have "\<exists>s'. receive (length [Row [VNull], RowsEnd]) read_response [Chunk [19, 0, 0, 0, 3, 0, 1], Interrupted, Chunk [0, 20, 0, 0, 0, 0]]
      = (Inr [Row [VNull], RowsEnd], s')" using responses_arrive by blast
  moreover have "length [Row [VNull], RowsEnd] = 2" by simp
  ultimately show ?thesis by metis
qed

theorem long_column_name_lost_witness:
  "parse_response TAG_ROWS_BEGIN (snd (response_frame (RowsBegin [replicate 65536 97]))) = Inr (RowsBegin [[]])"
  using long_column_name_lost [of "replicate 65536 97"] utf8_valid_ascii [of "replicate 65536 97"] by simp

end
