(* ===== verification/Sql_Ast.thy ===== *)
theory Sql_Ast
  imports Value_Schema
begin

text \<open>
  The abstract syntax of \<^verbatim>\<open>sql/ast.rs\<close>. Expressions and statements are mutually recursive
  (a subquery is a statement inside an expression, a filter is an expression inside a statement), so
  the structs between them are datatypes with selectors. A \<^verbatim>\<open>Box\<close> is the value itself, a
  \<^verbatim>\<open>String\<close> its UTF-8 bytes, an \<^verbatim>\<open>i64\<close> or \<^verbatim>\<open>f64\<close> a 64-bit word as in \<^verbatim>\<open>engine/value.rs\<close>.
\<close>

section \<open>Leaves\<close>

record table_ref =
  tr_name :: bytes
  tr_alias :: "bytes option"

definition qualifier :: "table_ref \<Rightarrow> bytes" where
  "qualifier t = (case tr_alias t of Some a \<Rightarrow> a | None \<Rightarrow> tr_name t)"

record column_ref =
  cr_table :: "bytes option"
  cr_name :: bytes

definition bare :: "bytes \<Rightarrow> column_ref" where
  "bare n = \<lparr>cr_table = None, cr_name = n\<rparr>"

datatype join_kind = Inner | LeftJoin | Cross | Semi | Anti

datatype referential_action = ActRestrict | ActCascade | ActSetNull

datatype type_name = TyInt | TyText | TyReal | TyBool

datatype column_constraint = PrimaryKey | NotNull | Unique
  | References bytes bytes referential_action

record column_def =
  cd_name :: bytes
  cd_ty :: type_name
  cd_constraints :: "column_constraint list"

datatype aggregate_func = Count | Sum | Avg | Min | Max

datatype aggregate_arg = Star | AggColumn column_ref

record aggregate =
  agg_func :: aggregate_func
  agg_arg :: aggregate_arg

record order_key =
  ord_column :: column_ref
  ord_descending :: bool

datatype unary_op = Neg | Not

datatype binary_op = Add | Sub | Mul | Div | Eq | NotEq | Lt | LtEq | Gt | GtEq | And | Or

section \<open>Expressions and statements\<close>

datatype expr =
    ENull
  | EInteger u64
  | EReal u64
  | EStr bytes
  | EBool bool
  | EPlaceholder nat
  | EColumn column_ref
  | EAggregate aggregate
  | EUnary unary_op expr
  | EBinary binary_op expr expr
  | EIsNull expr bool
  | EInSubquery expr statement bool
  | EExists statement
  | EScalarSubquery statement
  | EInList expr "expr list" bool bool
  | ECorrelatedExists statement
  | ECorrelatedScalarSubquery statement
  | ECorrelatedInSubquery expr statement bool
and select_item =
    SelColumn column_ref
  | SelAggregate aggregate
  | SelExpr expr
and projection =
    ProjAll
  | ProjItems "select_item list"
and join =
    Join (j_kind: join_kind) (j_table: table_ref) (j_on: "expr option")
and from_clause =
    FromClause (fc_table: table_ref) (fc_joins: "join list")
and statement =
    CreateTable bytes "column_def list"
  | DropTable bytes
  | CreateIndex bytes bytes "bytes list"
  | DropIndex bytes
  | Insert bytes "bytes list option" "expr list list"
  | Select from_clause projection "expr option" "column_ref list" "expr option" "order_key list"
      "u64 option" "u64 option"
  | Update bytes "(bytes \<times> expr) list" "expr option"
  | Delete bytes "expr option"
  | Vacuum
  | Analyze bytes
  | Explain statement bool
  | Begin
  | Commit
  | Rollback

end
