(* ===== verification/Float64.thy ===== *)
theory Float64
  imports Value_Schema
begin

text \<open>
  The \<^verbatim>\<open>f64\<close> arithmetic the engine uses, on IEEE-754 bit patterns: addition, subtraction,
  multiplication and division round the exact result to the nearest representable value, ties to
  even; comparison is the partial order of \<^verbatim>\<open>partial_cmp\<close>. The payload of a NaN result is unspecified by
  the language; the model takes the quiet NaN without sign.
\<close>

definition f64_sign :: "u64 \<Rightarrow> bool" where
  "f64_sign w \<longleftrightarrow> 2 ^ 63 \<le> uint w"

definition f64_exponent :: "u64 \<Rightarrow> int" where
  "f64_exponent w = uint w div 2 ^ 52 mod 2 ^ 11"

definition f64_fraction :: "u64 \<Rightarrow> int" where
  "f64_fraction w = uint w mod 2 ^ 52"

definition f64_nan :: u64 where "f64_nan = 0x7FF8000000000000"

definition f64_is_nan :: "u64 \<Rightarrow> bool" where
  "f64_is_nan w \<longleftrightarrow> f64_exponent w = 2047 \<and> f64_fraction w \<noteq> 0"

definition f64_is_inf :: "u64 \<Rightarrow> bool" where
  "f64_is_inf w \<longleftrightarrow> f64_exponent w = 2047 \<and> f64_fraction w = 0"

definition f64_is_zero :: "u64 \<Rightarrow> bool" where
  "f64_is_zero w \<longleftrightarrow> uint w mod 2 ^ 63 = 0"

definition f64_bits :: "bool \<Rightarrow> int \<Rightarrow> u64" where
  "f64_bits s m = of_int (m + (if s then 2 ^ 63 else 0))"

definition f64_inf :: "bool \<Rightarrow> u64" where
  "f64_inf s = f64_bits s (2047 * 2 ^ 52)"

text \<open>A finite value is its significand times two to an exponent.\<close>

definition f64_significand :: "u64 \<Rightarrow> int" where
  "f64_significand w = (if f64_exponent w = 0 then f64_fraction w else f64_fraction w + 2 ^ 52)"

definition f64_scale :: "u64 \<Rightarrow> int" where
  "f64_scale w = (if f64_exponent w = 0 then -1074 else f64_exponent w - 1075)"

definition shift_pair :: "int \<Rightarrow> int \<Rightarrow> int \<Rightarrow> int \<times> int" where
  "shift_pair n d e = (if 0 \<le> e then (n * 2 ^ nat e, d) else (n, d * 2 ^ nat (- e)))"

text \<open>The representable value nearest to \<open>n / d\<close>, for \<open>0 < n\<close> and \<open>0 < d\<close>.\<close>

definition f64_round :: "bool \<Rightarrow> int \<Rightarrow> int \<Rightarrow> u64" where
  "f64_round s n d =
     (let e1 = int (bit_len n) - int (bit_len d) - 53;
          top = (case shift_pair n d (- e1) of (n', d') \<Rightarrow> d' * 2 ^ 53 \<le> n');
          e = max (if top then e1 + 1 else e1) (-1074);
          q = (case shift_pair n d (- e) of (n', d') \<Rightarrow>
                 (let q = n' div d'; r = n' mod d' in
                  if d' < 2 * r \<or> 2 * r = d' \<and> odd q then q + 1 else q));
          m = (e + 1074) * 2 ^ 52 + q in
      if 2047 * 2 ^ 52 \<le> m then f64_inf s else f64_bits s m)"

definition f64_neg :: "u64 \<Rightarrow> u64" where
  "f64_neg w = w XOR 0x8000000000000000"

definition signed :: "u64 \<Rightarrow> int" where
  "signed w = (if f64_sign w then - f64_significand w else f64_significand w)"

definition f64_add :: "u64 \<Rightarrow> u64 \<Rightarrow> u64" where
  "f64_add a b =
     (if f64_is_nan a \<or> f64_is_nan b then f64_nan
      else if f64_is_inf a then if f64_is_inf b \<and> f64_sign a \<noteq> f64_sign b then f64_nan else a
      else if f64_is_inf b then b
      else
        let e = min (f64_scale a) (f64_scale b);
            v = signed a * 2 ^ nat (f64_scale a - e) + signed b * 2 ^ nat (f64_scale b - e) in
        if v = 0 then f64_bits (f64_sign a \<and> f64_sign b) 0
        else case shift_pair \<bar>v\<bar> 1 e of (n, d) \<Rightarrow> f64_round (v < 0) n d)"

definition f64_sub :: "u64 \<Rightarrow> u64 \<Rightarrow> u64" where
  "f64_sub a b = f64_add a (f64_neg b)"

definition f64_mul :: "u64 \<Rightarrow> u64 \<Rightarrow> u64" where
  "f64_mul a b =
     (let s = (f64_sign a \<noteq> f64_sign b) in
      if f64_is_nan a \<or> f64_is_nan b then f64_nan
      else if f64_is_inf a \<or> f64_is_inf b then
        if f64_is_zero a \<or> f64_is_zero b then f64_nan else f64_inf s
      else
        let v = f64_significand a * f64_significand b in
        if v = 0 then f64_bits s 0
        else case shift_pair v 1 (f64_scale a + f64_scale b) of (n, d) \<Rightarrow> f64_round s n d)"

definition f64_div :: "u64 \<Rightarrow> u64 \<Rightarrow> u64" where
  "f64_div a b =
     (let s = (f64_sign a \<noteq> f64_sign b) in
      if f64_is_nan a \<or> f64_is_nan b \<or> f64_is_inf a \<and> f64_is_inf b \<or> f64_is_zero a \<and> f64_is_zero b then f64_nan
      else if f64_is_inf a \<or> f64_is_zero b then f64_inf s
      else if f64_is_inf b \<or> f64_is_zero a then f64_bits s 0
      else case shift_pair (f64_significand a) (f64_significand b) (f64_scale a - f64_scale b) of
        (n, d) \<Rightarrow> f64_round s n d)"

text \<open>The order of the values: sign and magnitude, the two zeros equal.\<close>

definition f64_key :: "u64 \<Rightarrow> int" where
  "f64_key w = (if f64_sign w then - (uint w mod 2 ^ 63) else uint w mod 2 ^ 63)"

datatype ordering = Less | Equal | Greater

definition cmp :: "'a::linorder \<Rightarrow> 'a \<Rightarrow> ordering" where
  "cmp a b = (if a < b then Less else if a = b then Equal else Greater)"

definition f64_partial_cmp :: "u64 \<Rightarrow> u64 \<Rightarrow> ordering option" where
  "f64_partial_cmp a b =
     (if f64_is_nan a \<or> f64_is_nan b then None else Some (cmp (f64_key a) (f64_key b)))"

lemma cmp_simps [simp]: "cmp a b = Less \<longleftrightarrow> a < b" "cmp a b = Equal \<longleftrightarrow> a = b" "cmp a b = Greater \<longleftrightarrow> b < a"
  by (auto simp: cmp_def)

end
