(* ===== verification/Expr_Eval.thy ===== *)
theory Expr_Eval
  imports Sql_Ast Float64
begin

text \<open>
  The row-at-a-time expression evaluator of \<^verbatim>\<open>engine/executor.rs\<close>: \<^verbatim>\<open>Scope\<close>, \<^verbatim>\<open>eval\<close> and the
  scalar operators it calls. \<^verbatim>\<open>unreachable!\<close> and a slice index out of range are panics. Both operands
  of a binary operator are evaluated, left first, before the operator looks at either.
\<close>

named_theorems eval_simps \<open>the scalar operators of the evaluator\<close>

section \<open>Scopes\<close>

record scoped_column =
  sc_table :: bytes
  sc_name :: bytes
  sc_ty :: type_tag

type_synonym scope = "scoped_column list"

definition scope_extend :: "scope \<Rightarrow> bytes \<Rightarrow> schema \<Rightarrow> scope" where
  "scope_extend sc q s =
     sc @ map (\<lambda>c. \<lparr>sc_table = q, sc_name = col_name c, sc_ty = col_ty c\<rparr>) (sch_columns s)"

definition scope_single :: "bytes \<Rightarrow> schema \<Rightarrow> scope" where
  "scope_single q s = scope_extend [] q s"

definition has_qualifier :: "scope \<Rightarrow> bytes \<Rightarrow> bool" where
  "has_qualifier sc q \<longleftrightarrow> (\<exists>c \<in> set sc. sc_table c = q)"

definition col_matches :: "column_ref \<Rightarrow> scoped_column \<Rightarrow> bool" where
  "col_matches r c \<longleftrightarrow>
     (case cr_table r of Some q \<Rightarrow> q = sc_table c | None \<Rightarrow> True) \<and> sc_name c = cr_name r"

fun resolve_from :: "nat \<Rightarrow> nat option \<Rightarrow> scope \<Rightarrow> column_ref \<Rightarrow> nat result" where
  "resolve_from i found [] r = (case found of Some k \<Rightarrow> Inr k | None \<Rightarrow> Inl (Fail Exec))"
| "resolve_from i found (c # cs) r =
     (if col_matches r c then
        if found \<noteq> None then Inl (Fail Exec) else resolve_from (Suc i) (Some i) cs r
      else resolve_from (Suc i) found cs r)"

definition resolve :: "scope \<Rightarrow> column_ref \<Rightarrow> nat result" where
  "resolve sc r = resolve_from 0 None sc r"

definition is_join :: "scope \<Rightarrow> bool" where
  "is_join sc \<longleftrightarrow> (\<exists>c \<in> set sc. sc_table c \<noteq> sc_table (hd sc))"

section \<open>Scalar operators\<close>

definition i64_fits :: "int \<Rightarrow> bool" where
  "i64_fits n \<longleftrightarrow> - (2 ^ 63) \<le> n \<and> n < 2 ^ 63"

definition checked :: "int \<Rightarrow> u64 option" where
  "checked n = (if i64_fits n then Some (of_int n) else None)"

definition checked_neg :: "u64 \<Rightarrow> u64 option" where
  "checked_neg a = checked (- sint a)"

definition checked_add :: "u64 \<Rightarrow> u64 \<Rightarrow> u64 option" where
  "checked_add a b = checked (sint a + sint b)"

definition checked_sub :: "u64 \<Rightarrow> u64 \<Rightarrow> u64 option" where
  "checked_sub a b = checked (sint a - sint b)"

definition checked_mul :: "u64 \<Rightarrow> u64 \<Rightarrow> u64 option" where
  "checked_mul a b = checked (sint a * sint b)"

text \<open>Division truncates toward zero; a zero divisor and \<^verbatim>\<open>i64::MIN / -1\<close> give \<open>None\<close>.\<close>

definition checked_div :: "u64 \<Rightarrow> u64 \<Rightarrow> u64 option" where
  "checked_div a b =
     (if b = 0 then None else checked (sgn (sint a) * sgn (sint b) * (\<bar>sint a\<bar> div \<bar>sint b\<bar>)))"

definition ok_or :: "'a option \<Rightarrow> error \<Rightarrow> 'a result" where
  "ok_or x e = (case x of Some y \<Rightarrow> Inr y | None \<Rightarrow> Inl (Fail e))"

lemma ok_or_simps [simp]: "ok_or (Some y) e = Inr y" "ok_or None e = Inl (Fail e)"
  by (simp_all add: ok_or_def)

fun is_number :: "sql_value \<Rightarrow> bool" where
  "is_number (VInt _) = True"
| "is_number (VReal _) = True"
| "is_number _ = False"

fun as_number :: "sql_value \<Rightarrow> u64 result" where
  "as_number (VInt n) = Inr (i64_as_f64 n)"
| "as_number (VReal r) = Inr r"
| "as_number _ = Inl (Fail Exec)"

fun as_bool :: "sql_value \<Rightarrow> bool option result" where
  "as_bool VNull = Inr None"
| "as_bool (VBool b) = Inr (Some b)"
| "as_bool _ = Inl (Fail Exec)"

fun eval_unary :: "unary_op \<Rightarrow> sql_value \<Rightarrow> sql_value result" where
  "eval_unary Neg VNull = Inr VNull"
| "eval_unary Neg (VInt n) = rbind (ok_or (checked_neg n) Exec) (\<lambda>m. Inr (VInt m))"
| "eval_unary Neg (VReal r) = Inr (VReal (f64_neg r))"
| "eval_unary Neg _ = Inl (Fail Exec)"
| "eval_unary Not VNull = Inr VNull"
| "eval_unary Not (VBool b) = Inr (VBool (\<not> b))"
| "eval_unary Not _ = Inl (Fail Exec)"

fun int_arith :: "binary_op \<Rightarrow> u64 \<Rightarrow> u64 \<Rightarrow> u64 result" where
  "int_arith Add a b = ok_or (checked_add a b) Exec"
| "int_arith Sub a b = ok_or (checked_sub a b) Exec"
| "int_arith Mul a b = ok_or (checked_mul a b) Exec"
| "int_arith Div a b = (if b = 0 then Inl (Fail Exec) else ok_or (checked_div a b) Exec)"
| "int_arith _ a b = Inl Panicked"

fun real_arith :: "binary_op \<Rightarrow> u64 \<Rightarrow> u64 \<Rightarrow> u64 result" where
  "real_arith Add a b = Inr (f64_add a b)"
| "real_arith Sub a b = Inr (f64_sub a b)"
| "real_arith Mul a b = Inr (f64_mul a b)"
| "real_arith Div a b = (if f64_is_zero b then Inl (Fail Exec) else Inr (f64_div a b))"
| "real_arith _ a b = Inl Panicked"

definition arithmetic :: "binary_op \<Rightarrow> sql_value \<Rightarrow> sql_value \<Rightarrow> sql_value result" where
  "arithmetic op l r =
     (if is_null l \<or> is_null r then Inr VNull
      else case (l, r) of
        (VInt a, VInt b) \<Rightarrow> rbind (int_arith op a b) (\<lambda>v. Inr (VInt v))
      | _ \<Rightarrow> rbind (as_number l) (\<lambda>a. rbind (as_number r) (\<lambda>b.
               rbind (real_arith op a b) (\<lambda>v. Inr (VReal v)))))"

fun compare :: "sql_value \<Rightarrow> sql_value \<Rightarrow> ordering result" where
  "compare (VInt a) (VInt b) = Inr (cmp (sint a) (sint b))"
| "compare (VText a) (VText b) = Inr (cmp a b)"
| "compare (VBool a) (VBool b) = Inr (cmp a b)"
| "compare a b =
     (if is_number a \<and> is_number b then
        rbind (as_number a) (\<lambda>x. rbind (as_number b) (\<lambda>y. ok_or (f64_partial_cmp x y) Exec))
      else Inl (Fail Exec))"

fun verdict :: "binary_op \<Rightarrow> ordering \<Rightarrow> bool result" where
  "verdict Eq c = Inr (c = Equal)"
| "verdict NotEq c = Inr (c \<noteq> Equal)"
| "verdict Lt c = Inr (c = Less)"
| "verdict LtEq c = Inr (c \<noteq> Greater)"
| "verdict Gt c = Inr (c = Greater)"
| "verdict GtEq c = Inr (c \<noteq> Less)"
| "verdict _ c = Inl Panicked"

definition compare_op :: "binary_op \<Rightarrow> sql_value \<Rightarrow> sql_value \<Rightarrow> sql_value result" where
  "compare_op op l r =
     (if is_null l \<or> is_null r then Inr VNull
      else rbind (compare l r) (\<lambda>c. rbind (verdict op c) (\<lambda>b. Inr (VBool b))))"

fun and3 :: "bool option \<Rightarrow> bool option \<Rightarrow> sql_value" where
  "and3 (Some False) _ = VBool False"
| "and3 _ (Some False) = VBool False"
| "and3 (Some True) (Some True) = VBool True"
| "and3 _ _ = VNull"

fun or3 :: "bool option \<Rightarrow> bool option \<Rightarrow> sql_value" where
  "or3 (Some True) _ = VBool True"
| "or3 _ (Some True) = VBool True"
| "or3 (Some False) (Some False) = VBool False"
| "or3 _ _ = VNull"

definition logic :: "binary_op \<Rightarrow> sql_value \<Rightarrow> sql_value \<Rightarrow> sql_value result" where
  "logic op l r = rbind (as_bool l) (\<lambda>a. rbind (as_bool r) (\<lambda>b.
     case op of And \<Rightarrow> Inr (and3 a b) | Or \<Rightarrow> Inr (or3 a b) | _ \<Rightarrow> Inl Panicked))"

fun eval_binary :: "binary_op \<Rightarrow> sql_value \<Rightarrow> sql_value \<Rightarrow> sql_value result" where
  "eval_binary op l r =
     (if op \<in> {Add, Sub, Mul, Div} then arithmetic op l r
      else if op \<in> {Eq, NotEq, Lt, LtEq, Gt, GtEq} then compare_op op l r
      else logic op l r)"

fun negate_bool :: "sql_value \<Rightarrow> sql_value result" where
  "negate_bool (VBool b) = Inr (VBool (\<not> b))"
| "negate_bool VNull = Inr VNull"
| "negate_bool _ = Inl Panicked"

section \<open>The evaluator\<close>

record row_context =
  rc_scope :: scope
  rc_values :: "sql_value list"

function (sequential) eval :: "expr \<Rightarrow> row_context option \<Rightarrow> sql_value result"
  and eval_in_list :: "sql_value \<Rightarrow> expr list \<Rightarrow> bool \<Rightarrow> sql_value result" where
  "eval ENull ctx = Inr VNull"
| "eval (EInteger n) ctx = Inr (VInt n)"
| "eval (EReal r) ctx = Inr (VReal r)"
| "eval (EStr s) ctx = Inr (VText s)"
| "eval (EBool b) ctx = Inr (VBool b)"
| "eval (EPlaceholder _) ctx = Inl Panicked"
| "eval (EColumn r) ctx =
     (case ctx of None \<Rightarrow> Inl (Fail Exec)
      | Some c \<Rightarrow> rbind (resolve (rc_scope c) r) (\<lambda>i. index (rc_values c) i))"
| "eval (EAggregate _) ctx = Inl (Fail Exec)"
| "eval (EUnary op e) ctx = rbind (eval e ctx) (eval_unary op)"
| "eval (EBinary op l r) ctx = rbind (eval l ctx) (\<lambda>a. rbind (eval r ctx) (\<lambda>b. eval_binary op a b))"
| "eval (EIsNull e negated) ctx = rbind (eval e ctx) (\<lambda>v. Inr (VBool (is_null v \<noteq> negated)))"
| "eval (EInList e vs has_null negated) ctx =
     rbind (eval e ctx) (\<lambda>probe. rbind (eval_in_list probe vs has_null) (\<lambda>v.
       if negated then negate_bool v else Inr v))"
| "eval (EInSubquery _ _ _) ctx = Inl (Fail Corruption)"
| "eval (EExists _) ctx = Inl (Fail Corruption)"
| "eval (EScalarSubquery _) ctx = Inl (Fail Corruption)"
| "eval (ECorrelatedExists _) ctx = Inl (Fail Corruption)"
| "eval (ECorrelatedScalarSubquery _) ctx = Inl (Fail Corruption)"
| "eval (ECorrelatedInSubquery _ _ _) ctx = Inl (Fail Corruption)"
| "eval_in_list probe [] has_null =
     (if is_null probe \<or> has_null then Inr VNull else Inr (VBool False))"
| "eval_in_list probe (e # es) has_null =
     (if is_null probe then Inr VNull
      else rbind (eval e None) (\<lambda>v. rbind (compare_op Eq probe v) (\<lambda>hit.
        if hit = VBool True then Inr (VBool True) else eval_in_list probe es has_null)))"
  by pat_completeness auto
termination by size_change

definition passes_filter :: "expr option \<Rightarrow> scope \<Rightarrow> sql_value list \<Rightarrow> bool result" where
  "passes_filter f sc row =
     (case f of None \<Rightarrow> Inr True
      | Some e \<Rightarrow> rbind (eval e (Some \<lparr>rc_scope = sc, rc_values = row\<rparr>)) (\<lambda>v. Inr (v = VBool True)))"

fun value_to_literal :: "sql_value \<Rightarrow> expr" where
  "value_to_literal VNull = ENull"
| "value_to_literal (VInt n) = EInteger n"
| "value_to_literal (VReal r) = EReal r"
| "value_to_literal (VText s) = EStr s"
| "value_to_literal (VBool b) = EBool b"

fun expr_contains_aggregate :: "expr \<Rightarrow> bool" where
  "expr_contains_aggregate (EAggregate _) = True"
| "expr_contains_aggregate (EUnary _ e) = expr_contains_aggregate e"
| "expr_contains_aggregate (EIsNull e _) = expr_contains_aggregate e"
| "expr_contains_aggregate (EBinary _ l r) = (expr_contains_aggregate l \<or> expr_contains_aggregate r)"
| "expr_contains_aggregate (EInSubquery e _ _) = expr_contains_aggregate e"
| "expr_contains_aggregate (ECorrelatedInSubquery e _ _) = expr_contains_aggregate e"
| "expr_contains_aggregate (EInList e _ _ _) = expr_contains_aggregate e"
| "expr_contains_aggregate _ = False"

end
