(* ===== verification/Column_Batch.thy ===== *)
theory Column_Batch
  imports Value_Schema
begin

text \<open>
  The columnar batches of \<^verbatim>\<open>engine/batch.rs\<close>: a null mask packed in 64-bit words, typed columns,
  and batches with an optional selection vector. Indexing past the end of a \<^verbatim>\<open>Vec\<close> is a panic.
  The type and length invariant \<open>batch_ok\<close> is established by \<^verbatim>\<open>with_types\<close> and kept by
  \<^verbatim>\<open>push_row\<close>, and the rows pushed are the rows read back.
\<close>

section \<open>Null masks\<close>

record null_mask =
  nm_bits :: "u64 list"
  nm_rows :: nat

definition nm_with_capacity :: "nat \<Rightarrow> null_mask" where
  "nm_with_capacity cap = \<lparr>nm_bits = [], nm_rows = 0\<rparr>"

definition all_valid :: "nat \<Rightarrow> null_mask" where
  "all_valid n =
     (let bits = replicate ((n + 63) div 64) (- 1 :: u64); trailing = n mod 64 in
      \<lparr>nm_bits = (if trailing \<noteq> 0 then bits[length bits - 1 := push_bit trailing 1 - 1] else bits),
       nm_rows = n\<rparr>)"

definition nm_push :: "bool \<Rightarrow> null_mask \<Rightarrow> null_mask" where
  "nm_push valid m =
     (let i = nm_rows m; w = i div 64;
          bits = (if length (nm_bits m) \<le> w then nm_bits m @ [0] else nm_bits m) in
      \<lparr>nm_bits = (if valid then bits[w := bits ! w OR push_bit (i mod 64) 1] else bits),
       nm_rows = i + 1\<rparr>)"

definition is_valid :: "null_mask \<Rightarrow> nat \<Rightarrow> bool result" where
  "is_valid m i = rbind (index (nm_bits m) (i div 64)) (\<lambda>w. Inr (drop_bit (i mod 64) w AND 1 = 1))"

text \<open>
  The fields are private: every mask is built by \<^verbatim>\<open>with_capacity\<close>, \<^verbatim>\<open>all_valid\<close> and \<^verbatim>\<open>push\<close> and
  so satisfies \<open>mask_ok\<close>, under which the word index of \<^verbatim>\<open>push\<close> is in range.
  The words are exactly as many as the rows need and the bits past the last row are clear:
  \<^verbatim>\<open>push\<close> of an invalid row relies on the latter, since it only appends.
\<close>

definition mask_ok :: "null_mask \<Rightarrow> bool" where
  "mask_ok m \<longleftrightarrow>
     length (nm_bits m) = (nm_rows m + 63) div 64 \<and>
     (\<forall>i. nm_rows m \<le> i \<longrightarrow> i < 64 * length (nm_bits m) \<longrightarrow> \<not> bit (nm_bits m ! (i div 64)) (i mod 64))"

definition validity :: "null_mask \<Rightarrow> nat \<Rightarrow> bool" where
  "validity m i \<longleftrightarrow> bit (nm_bits m ! (i div 64)) (i mod 64)"

section \<open>Columns\<close>

datatype batch_column =
    ColInt "u64 list" null_mask
  | ColReal "u64 list" null_mask
  | ColText "bytes list" null_mask
  | ColBool "bool list" null_mask

definition BATCH_SIZE :: nat where "BATCH_SIZE = 1024"

fun empty_column :: "type_tag \<Rightarrow> batch_column" where
  "empty_column TInt = ColInt [] (nm_with_capacity BATCH_SIZE)"
| "empty_column TReal = ColReal [] (nm_with_capacity BATCH_SIZE)"
| "empty_column TText = ColText [] (nm_with_capacity BATCH_SIZE)"
| "empty_column TBool = ColBool [] (nm_with_capacity BATCH_SIZE)"

fun col_nulls :: "batch_column \<Rightarrow> null_mask" where
  "col_nulls (ColInt _ m) = m"
| "col_nulls (ColReal _ m) = m"
| "col_nulls (ColText _ m) = m"
| "col_nulls (ColBool _ m) = m"

definition col_len :: "batch_column \<Rightarrow> nat" where
  "col_len c = nm_rows (col_nulls c)"

fun batch_col_ty :: "batch_column \<Rightarrow> type_tag" where
  "batch_col_ty (ColInt _ _) = TInt"
| "batch_col_ty (ColReal _ _) = TReal"
| "batch_col_ty (ColText _ _) = TText"
| "batch_col_ty (ColBool _ _) = TBool"

fun push_value :: "batch_column \<Rightarrow> sql_value \<Rightarrow> batch_column result" where
  "push_value (ColInt vs m) (VInt n) = Inr (ColInt (vs @ [n]) (nm_push True m))"
| "push_value (ColInt vs m) VNull = Inr (ColInt (vs @ [0]) (nm_push False m))"
| "push_value (ColReal vs m) (VReal r) = Inr (ColReal (vs @ [r]) (nm_push True m))"
| "push_value (ColReal vs m) (VInt n) = Inr (ColReal (vs @ [i64_as_f64 n]) (nm_push True m))"
| "push_value (ColReal vs m) VNull = Inr (ColReal (vs @ [0]) (nm_push False m))"
| "push_value (ColText vs m) (VText s) = Inr (ColText (vs @ [s]) (nm_push True m))"
| "push_value (ColText vs m) VNull = Inr (ColText (vs @ [[]]) (nm_push False m))"
| "push_value (ColBool vs m) (VBool b) = Inr (ColBool (vs @ [b]) (nm_push True m))"
| "push_value (ColBool vs m) VNull = Inr (ColBool (vs @ [False]) (nm_push False m))"
| "push_value _ _ = Inl (Fail Exec)"

definition cell :: "('a \<Rightarrow> sql_value) \<Rightarrow> 'a list \<Rightarrow> null_mask \<Rightarrow> nat \<Rightarrow> sql_value result" where
  "cell f vs m i = rbind (is_valid m i) (\<lambda>v. if v then rbind (index vs i) (\<lambda>x. Inr (f x)) else Inr VNull)"

fun value_at :: "batch_column \<Rightarrow> nat \<Rightarrow> sql_value result" where
  "value_at (ColInt vs m) i = cell VInt vs m i"
| "value_at (ColReal vs m) i = cell VReal vs m i"
| "value_at (ColText vs m) i = cell VText vs m i"
| "value_at (ColBool vs m) i = cell VBool vs m i"

section \<open>Batches\<close>

record column_batch =
  cb_columns :: "batch_column list"
  cb_rows :: nat
  cb_selection :: "u32 list option"

definition with_types :: "type_tag list \<Rightarrow> column_batch" where
  "with_types ts = \<lparr>cb_columns = map empty_column ts, cb_rows = 0, cb_selection = None\<rparr>"

text \<open>The loop of \<^verbatim>\<open>push_row\<close>; a column that refuses its value leaves the earlier ones longer.\<close>

fun push_values :: "batch_column list \<Rightarrow> sql_value list \<Rightarrow> unit result \<times> batch_column list" where
  "push_values (c # cs) (v # vs) =
     (case push_value c v of
        Inl e \<Rightarrow> (Inl e, c # cs)
      | Inr c' \<Rightarrow> (case push_values cs vs of (r, cs') \<Rightarrow> (r, c' # cs')))"
| "push_values cs vs = (Inr (), cs)"

definition push_row :: "sql_value list \<Rightarrow> (column_batch, unit) op" where
  "push_row row b =
     (if length row \<noteq> length (cb_columns b) then (Inl (Fail Corruption), b)
      else case push_values (cb_columns b) row of
        (Inl e, cs) \<Rightarrow> (Inl e, b\<lparr>cb_columns := cs\<rparr>)
      | (Inr _, cs) \<Rightarrow> (Inr (), b\<lparr>cb_columns := cs, cb_rows := cb_rows b + 1\<rparr>))"

definition physical_for :: "column_batch \<Rightarrow> nat \<Rightarrow> nat result" where
  "physical_for b i =
     (case cb_selection b of Some sel \<Rightarrow> rbind (index sel i) (\<lambda>p. Inr (unat p)) | None \<Rightarrow> Inr i)"

definition row_at :: "column_batch \<Rightarrow> nat \<Rightarrow> sql_value list result" where
  "row_at b i = rbind (physical_for b i) (\<lambda>p. rmap (\<lambda>c. value_at c p) (cb_columns b))"

section \<open>Masks as sequences of flags\<close>

lemma is_valid_validity: "mask_ok m \<Longrightarrow> i < nm_rows m \<Longrightarrow> is_valid m i = Inr (validity m i)"
  by (simp add: is_valid_def validity_def mask_ok_def bit_iff_odd_drop_bit and_one_eq odd_iff_mod_2_eq_one
      less_mult_imp_div_less)

lemma same_bit_position: "(i::nat) div 64 = n div 64 \<Longrightarrow> i mod 64 = n mod 64 \<longleftrightarrow> i = n"
  by (metis div_mult_mod_eq)

text \<open>What one \<^verbatim>\<open>push\<close> does to the words, seen as a sequence of flags.\<close>

lemma push_word:
  assumes "mask_ok m"
  shows "length (nm_bits (nm_push v m)) = nm_rows m div 64 + 1"
    and "i div 64 \<le> nm_rows m div 64 \<Longrightarrow>
      validity (nm_push v m) i = (if i = nm_rows m then v else i < nm_rows m \<and> validity m i)"
proof -
  define n where "n = nm_rows m"
  define bits where "bits = (if length (nm_bits m) \<le> n div 64 then nm_bits m @ [0] else nm_bits m)"
  have len: "length (nm_bits m) = (n + 63) div 64"
    and clear: "\<And>i. n \<le> i \<Longrightarrow> i < 64 * length (nm_bits m) \<Longrightarrow> \<not> bit (nm_bits m ! (i div 64)) (i mod 64)"
    using assms by (auto simp: mask_ok_def n_def)
  have lb: "length bits = n div 64 + 1"
    using len by (auto simp: bits_def)
  have old: "bit (bits ! (i div 64)) (i mod 64) \<longleftrightarrow> i < n \<and> validity m i" if "i div 64 < length bits" for i
  proof (cases "i div 64 < length (nm_bits m)")
    case True
    then have "i < 64 * length (nm_bits m)" by (simp add: div_less_iff_less_mult mult.commute)
    with True clear [of i] show ?thesis
      by (cases "i < n") (auto simp: bits_def validity_def nth_append)
  next
    case False
    then have "bits ! (i div 64) = 0" using that by (auto simp: bits_def nth_append split: if_splits)
    moreover have "\<not> i < n" using False len by auto
    ultimately show ?thesis by simp
  qed
  have push: "nm_bits (nm_push v m) =
      (if v then bits[n div 64 := bits ! (n div 64) OR push_bit (n mod 64) 1] else bits)"
    by (simp add: nm_push_def Let_def n_def bits_def)
  show "length (nm_bits (nm_push v m)) = nm_rows m div 64 + 1"
    using lb by (simp add: push flip: n_def)
  assume "i div 64 \<le> nm_rows m div 64"
  then have i: "i div 64 < length bits" using lb by (simp add: n_def)
  show "validity (nm_push v m) i = (if i = nm_rows m then v else i < nm_rows m \<and> validity m i)"
  proof (cases "v \<and> i div 64 = n div 64")
    case True
    then have "nm_bits (nm_push v m) ! (i div 64) = bits ! (i div 64) OR push_bit (n mod 64) 1"
      using lb push by simp
    then have "validity (nm_push v m) i \<longleftrightarrow> i < n \<and> validity m i \<or> i mod 64 = n mod 64"
      using old [OF i] by (auto simp: validity_def bit_or_iff bit_exp_iff)
    with True same_bit_position [of i n] show ?thesis by (auto simp: n_def)
  next
    case False
    then have "nm_bits (nm_push v m) ! (i div 64) = bits ! (i div 64)" by (auto simp: push)
    then have "validity (nm_push v m) i \<longleftrightarrow> i < n \<and> validity m i"
      using old [OF i] by (simp add: validity_def)
    with False show ?thesis by (auto simp: n_def)
  qed
qed

lemma nm_rows_push [simp]: "nm_rows (nm_push v m) = nm_rows m + 1"
  by (simp add: nm_push_def Let_def)

lemma mask_ok_push [simp]:
  assumes "mask_ok m"
  shows "mask_ok (nm_push v m)"
  unfolding mask_ok_def
proof (intro conjI allI impI)
  note len = push_word(1) [OF assms, of v]
  then show "length (nm_bits (nm_push v m)) = (nm_rows (nm_push v m) + 63) div 64"
    by simp
  fix i assume i: "nm_rows (nm_push v m) \<le> i" "i < 64 * length (nm_bits (nm_push v m))"
  then have "i div 64 \<le> nm_rows m div 64" using len by auto
  from push_word(2) [OF assms this, of v] i
  show "\<not> bit (nm_bits (nm_push v m) ! (i div 64)) (i mod 64)"
    by (auto simp: validity_def)
qed

lemma validity_push [simp]:
  "mask_ok m \<Longrightarrow> i \<le> nm_rows m \<Longrightarrow> validity (nm_push v m) i = (if i = nm_rows m then v else validity m i)"
  using push_word(2) [of m i v] by (auto simp: div_le_mono)

lemma mask_ok_capacity [simp]: "mask_ok (nm_with_capacity n)" "nm_rows (nm_with_capacity n) = 0"
  by (simp_all add: mask_ok_def nm_with_capacity_def)

lemma all_valid_bits:
  assumes "i div 64 < (n + 63) div 64"
  shows "validity (all_valid n) i \<longleftrightarrow> i < n"
proof (cases "n mod 64 = 0")
  case True
  then have "i div 64 < n div 64" using assms by auto
  moreover from this have "i < n" by (metis div_le_mono leD leI)
  ultimately show ?thesis using assms True
    by (simp add: validity_def all_valid_def bit_minus_1_iff)
next
  case False
  then have "(n mod 64 + 63) div 64 = 1" by (intro div_nat_eqI) auto
  then have w: "(n + 63) div 64 = n div 64 + 1" by (simp add: div_add1_eq [of n 63 64])
  have last: "bit (push_bit (n mod 64) 1 - 1 :: u64) j \<longleftrightarrow> j < n mod 64" for j
    using False by (auto simp: push_bit_eq_mult bit_mask_iff simp flip: mask_eq_exp_minus_1)
  consider "i div 64 = n div 64" | "i div 64 < n div 64" using assms w by linarith
  then show ?thesis
  proof cases
    case 1
    then have "i mod 64 < n mod 64 \<longleftrightarrow> i < n"
      by (metis div_mult_mod_eq nat_add_left_cancel_less)
    then show ?thesis using 1 w False 
      by (simp add: validity_def all_valid_def Let_def last [simplified] del: replicate_Suc)
  next
    case 2
    moreover from this have "i < n" by (metis div_le_mono leD leI)
    ultimately show ?thesis using w
      by (simp add: validity_def all_valid_def Let_def bit_minus_1_iff del: replicate_Suc)
  qed
qed

lemma all_valid_ok [simp]: "mask_ok (all_valid n)" "nm_rows (all_valid n) = n"
proof -
  have "length (nm_bits (all_valid n)) = (n + 63) div 64" by (simp add: all_valid_def Let_def)
  moreover have "\<not> bit (nm_bits (all_valid n) ! (i div 64)) (i mod 64)"
    if "n \<le> i" "i < 64 * ((n + 63) div 64)" for i
    using all_valid_bits [of i n] that by (auto simp: validity_def)
  ultimately show "mask_ok (all_valid n)"
    by (simp add: mask_ok_def all_valid_def Let_def)
qed (simp add: all_valid_def Let_def)

lemma validity_all_valid [simp]: "i < n \<Longrightarrow> validity (all_valid n) i"
  by (rule all_valid_bits [THEN iffD2]) auto

section \<open>Columns\<close>

text \<open>A column holds one typed slot per row of its mask.\<close>

fun col_ok :: "batch_column \<Rightarrow> bool" where
  "col_ok (ColInt vs m) \<longleftrightarrow> mask_ok m \<and> length vs = nm_rows m"
| "col_ok (ColReal vs m) \<longleftrightarrow> mask_ok m \<and> length vs = nm_rows m"
| "col_ok (ColText vs m) \<longleftrightarrow> mask_ok m \<and> length vs = nm_rows m"
| "col_ok (ColBool vs m) \<longleftrightarrow> mask_ok m \<and> length vs = nm_rows m"

text \<open>The values of a well-formed column, as a list.\<close>

definition slots :: "('a \<Rightarrow> sql_value) \<Rightarrow> 'a list \<Rightarrow> null_mask \<Rightarrow> sql_value list" where
  "slots f vs m = map (\<lambda>i. if validity m i then f (vs ! i) else VNull) [0..<length vs]"

fun col_values :: "batch_column \<Rightarrow> sql_value list" where
  "col_values (ColInt vs m) = slots VInt vs m"
| "col_values (ColReal vs m) = slots VReal vs m"
| "col_values (ColText vs m) = slots VText vs m"
| "col_values (ColBool vs m) = slots VBool vs m"

lemma length_slots [simp]: "length (slots f vs m) = length vs"
  by (simp add: slots_def)

lemma nth_slots [simp]:
  "i < length vs \<Longrightarrow> slots f vs m ! i = (if validity m i then f (vs ! i) else VNull)"
  by (simp add: slots_def)

lemma cell_slots: "mask_ok m \<Longrightarrow> length vs = nm_rows m \<Longrightarrow> i < length vs \<Longrightarrow> cell f vs m i = Inr (slots f vs m ! i)"
  by (simp add: cell_def is_valid_validity)

lemma length_col_values [simp]: "col_ok c \<Longrightarrow> length (col_values c) = col_len c"
  by (cases c) (auto simp: col_len_def)

lemma value_at_col [simp]: "col_ok c \<Longrightarrow> i < col_len c \<Longrightarrow> value_at c i = Inr (col_values c ! i)"
  by (cases c) (auto simp: col_len_def cell_slots)

text \<open>Appending to the slots: the widening of an integer in a real column is \<^verbatim>\<open>coerce\<close>'s.\<close>

lemma slots_push:
  "mask_ok m \<Longrightarrow> length vs = nm_rows m \<Longrightarrow>
   slots f (vs @ [x]) (nm_push v m) = slots f vs m @ [if v then f x else VNull]"
  by (auto simp: nth_append intro!: nth_equalityI)

lemma push_value_coerce:
  assumes "col_ok c"
  shows "case coerce v (batch_col_ty c) of
      Inl e \<Rightarrow> push_value c v = Inl (Fail Exec)
    | Inr v' \<Rightarrow> \<exists>c'. push_value c v = Inr c' \<and> col_ok c' \<and> batch_col_ty c' = batch_col_ty c \<and>
        col_values c' = col_values c @ [v']"
  using assms by (cases c; cases v) (auto simp: slots_push)

lemma col_values_typed: "v \<in> set (col_values c) \<Longrightarrow> has_type v (batch_col_ty c)"
  by (cases c) (auto simp: slots_def)

lemma empty_column_ok [simp]:
  "col_ok (empty_column t)" "col_values (empty_column t) = []" "batch_col_ty (empty_column t) = t"
  by (cases t; simp add: slots_def)+

section \<open>Batches\<close>

definition batch_ok :: "column_batch \<Rightarrow> bool" where
  "batch_ok b \<longleftrightarrow> list_all col_ok (cb_columns b) \<and>
     (case cb_selection b of
        None \<Rightarrow> list_all (\<lambda>c. col_len c = cb_rows b) (cb_columns b)
      | Some sel \<Rightarrow> cb_rows b = length sel \<and>
          list_all (\<lambda>c. list_all (\<lambda>p. unat p < col_len c) sel) (cb_columns b))"

definition phys :: "column_batch \<Rightarrow> nat \<Rightarrow> nat" where
  "phys b i = (case cb_selection b of None \<Rightarrow> i | Some sel \<Rightarrow> unat (sel ! i))"

text \<open>The rows a batch stands for, in logical order.\<close>

definition batch_row :: "column_batch \<Rightarrow> nat \<Rightarrow> sql_value list" where
  "batch_row b i = map (\<lambda>c. col_values c ! phys b i) (cb_columns b)"

definition batch_rows :: "column_batch \<Rightarrow> sql_value list list" where
  "batch_rows b = map (batch_row b) [0..<cb_rows b]"

definition batch_types :: "column_batch \<Rightarrow> type_tag list" where
  "batch_types b = map batch_col_ty (cb_columns b)"

lemma phys_less: "batch_ok b \<Longrightarrow> i < cb_rows b \<Longrightarrow> c \<in> set (cb_columns b) \<Longrightarrow> phys b i < col_len c"
  by (auto simp: batch_ok_def phys_def list_all_iff split: option.splits)

lemma physical_for_phys [simp]: "batch_ok b \<Longrightarrow> i < cb_rows b \<Longrightarrow> physical_for b i = Inr (phys b i)"
  by (auto simp: physical_for_def phys_def batch_ok_def split: option.splits)

lemma row_at_batch_row [simp]: "batch_ok b \<Longrightarrow> i < cb_rows b \<Longrightarrow> row_at b i = Inr (batch_row b i)"
  using phys_less [of b i]
  by (auto simp: row_at_def batch_row_def batch_ok_def list_all_iff intro!: rmap_Inr)

text \<open>\<^verbatim>\<open>push_row\<close> coerces each value to its column's type, as \<^verbatim>\<open>coerce\<close> does.\<close>

definition coerce_row :: "type_tag list \<Rightarrow> sql_value list \<Rightarrow> sql_value list result" where
  "coerce_row ts row = rmap (\<lambda>(v, t). coerce v t) (zip row ts)"

lemma push_values_coerce:
  assumes "length cs = length vs" "list_all col_ok cs" "coerce_row (map batch_col_ty cs) vs = Inr row"
  shows "\<exists>cs'. push_values cs vs = (Inr (), cs') \<and> list_all col_ok cs' \<and>
    map batch_col_ty cs' = map batch_col_ty cs \<and>
    length row = length cs \<and> map col_values cs' = map (\<lambda>(c, v). col_values c @ [v]) (zip cs row)"
  using assms
proof (induction cs vs arbitrary: row rule: list_induct2)
  case Nil
  then show ?case by (simp add: coerce_row_def)
next
  case (Cons c cs v vs)
  then obtain v' row' where r: "row = v' # row'" "coerce v (batch_col_ty c) = Inr v'"
    "coerce_row (map batch_col_ty cs) vs = Inr row'"
    by (auto simp: coerce_row_def rbind_Inr_iff)
  with Cons push_value_coerce [of c v] show ?case by fastforce
qed

lemma batch_row_typed:
  assumes "batch_ok b" "i < cb_rows b"
  shows "list_all2 has_type (batch_row b i) (batch_types b)"
proof -
  have "has_type (col_values c ! phys b i) (batch_col_ty c)" if "c \<in> set (cb_columns b)" for c
    using phys_less [OF assms that] that assms(1)
    by (intro col_values_typed nth_mem) (auto simp: batch_ok_def list_all_iff)
  then show ?thesis by (simp add: batch_row_def batch_types_def list_all2_conv_all_nth)
qed

lemma push_row_columns:
  assumes ok: "batch_ok b" and sel: "cb_selection b = None"
    and row: "length vs = length (cb_columns b)" "coerce_row (batch_types b) vs = Inr row"
  obtains b' where "push_row vs b = (Inr (), b')" "batch_ok b'" "cb_selection b' = None"
    "batch_types b' = batch_types b" "cb_rows b' = cb_rows b + 1" "length row = length (cb_columns b)"
    "map col_values (cb_columns b') = map (\<lambda>(c, v). col_values c @ [v]) (zip (cb_columns b) row)"
proof -
  let ?cs = "cb_columns b"
  have len: "\<And>c. c \<in> set ?cs \<Longrightarrow> col_ok c \<and> col_len c = cb_rows b"
    using ok sel by (auto simp: batch_ok_def list_all_iff)
  obtain cs' where cs': "push_values ?cs vs = (Inr (), cs')" "list_all col_ok cs'"
      "map batch_col_ty cs' = map batch_col_ty ?cs" "length row = length ?cs"
      "map col_values cs' = map (\<lambda>(c, v). col_values c @ [v]) (zip ?cs row)"
    using push_values_coerce [of ?cs vs row] row ok by (auto simp: batch_ok_def batch_types_def)
  have "col_len (cs' ! k) = cb_rows b + 1" if "k < length cs'" for k
  proof -
    have "length cs' = length ?cs" using cs'(3) by (metis length_map)
    with that have "col_values (cs' ! k) = col_values (?cs ! k) @ [row ! k]"
      using cs'(5) cs'(4) by (metis (no_types, lifting) case_prod_conv length_zip min.idem nth_map nth_zip)
    then show ?thesis using cs'(2) that len [of "?cs ! k"] \<open>length cs' = length ?cs\<close>
      by (metis length_append_singleton length_col_values list_all_length nth_mem Suc_eq_plus1)
  qed
  then have "list_all (\<lambda>c. col_len c = cb_rows b + 1) cs'"
    by (simp add: list_all_length)
  then show ?thesis
    using cs' row(1) sel by (intro that [of "b\<lparr>cb_columns := cs', cb_rows := cb_rows b + 1\<rparr>"])
      (auto simp: push_row_def batch_ok_def batch_types_def)
qed

section \<open>What a batch built row by row holds\<close>

lemma push_row_ok:
  assumes "batch_ok b" "cb_selection b = None"
    and "length vs = length (cb_columns b)" "coerce_row (batch_types b) vs = Inr row"
  shows "\<exists>b'. push_row vs b = (Inr (), b') \<and> batch_ok b' \<and> cb_selection b' = None \<and>
    cb_rows b' = cb_rows b + 1 \<and> batch_types b' = batch_types b \<and> batch_rows b' = batch_rows b @ [row]"
proof -
  obtain b' where b': "push_row vs b = (Inr (), b')" "batch_ok b'" "cb_selection b' = None"
    "batch_types b' = batch_types b" "cb_rows b' = cb_rows b + 1" "length row = length (cb_columns b)"
    "map col_values (cb_columns b') = map (\<lambda>(c, v). col_values c @ [v]) (zip (cb_columns b) row)"
    using push_row_columns [OF assms] .
  have len: "\<And>c. c \<in> set (cb_columns b) \<Longrightarrow> length (col_values c) = cb_rows b"
    using assms(1,2) by (auto simp: batch_ok_def list_all_iff)
  have at: "batch_row b' i = map (\<lambda>(c, v). (col_values c @ [v]) ! i) (zip (cb_columns b) row)" for i
    using arg_cong [OF b'(7), of "map (\<lambda>xs. xs ! i)"] b'(3)
    by (simp add: batch_row_def phys_def comp_def split_def)
  have "batch_row b' i = batch_row b i" if "i < cb_rows b" for i
    using that len b'(6) assms(2) unfolding at
    by (auto simp: batch_row_def phys_def nth_append set_zip intro!: nth_equalityI)
  moreover have "batch_row b' (cb_rows b) = row"
    using len b'(6) unfolding at by (auto simp: nth_append intro!: nth_equalityI)
  ultimately have "batch_rows b' = batch_rows b @ [row]"
    by (simp add: batch_rows_def b'(5))
  then show ?thesis using b' by auto
qed

text \<open>C31: Appending a row whose values fit the column types (NULL anywhere, an integer in a REAL
  column) to a materialised batch succeeds, keeps the batch well formed and its column types, and
  leaves the batch holding the old rows followed by the new one coerced to the column types; every
  row the batch holds is typed by its columns.\<close>

theorem push_row_appends:
  assumes "batch_ok b" "cb_selection b = None"
    and "length vs = length (cb_columns b)" "coerce_row (batch_types b) vs = Inr row"
  shows "\<exists>b'. push_row vs b = (Inr (), b') \<and> batch_ok b' \<and> batch_types b' = batch_types b \<and>
    batch_rows b' = batch_rows b @ [row] \<and>
    list_all (\<lambda>r. list_all2 has_type r (batch_types b)) (batch_rows b')"
proof -
  obtain b' where b': "push_row vs b = (Inr (), b')" "batch_ok b'" "batch_types b' = batch_types b"
      "batch_rows b' = batch_rows b @ [row]"
    using push_row_ok [OF assms] by blast
  have "list_all (\<lambda>r. list_all2 has_type r (batch_types b)) (batch_rows b')"
    using batch_row_typed [OF b'(2)] by (auto simp: list_all_iff batch_rows_def b'(3) [symmetric])
  with b' show ?thesis by blast
qed

theorem push_row_appends_witness:
  "\<exists>b'. push_row [VNull, VInt 3] (with_types [TText, TReal]) = (Inr (), b') \<and>
     batch_rows b' = [[VNull, VReal 0x4008000000000000]]"
proof -
  have "coerce_row [TText, TReal] [VNull, VInt 3] = Inr [VNull, VReal 0x4008000000000000]"
    by (simp add: coerce_row_def) code_simp
  then show ?thesis
    using push_row_appends [of "with_types [TText, TReal]" "[VNull, VInt 3]"]
    by (fastforce simp: with_types_def batch_ok_def batch_types_def col_len_def batch_rows_def)
qed

end
