(* ===== verification/Eval_Batch.thy ===== *)
theory Eval_Batch
  imports Expr_Eval Column_Batch
begin

text \<open>
  The columnwise evaluator of \<^verbatim>\<open>engine/executor.rs\<close> (\<^verbatim>\<open>eval_batch\<close> and the \<^verbatim>\<open>_columnar\<close>
  functions), and its equivalence with the row-at-a-time \<^verbatim>\<open>eval\<close>: whenever a whole column comes
  back, each of its cells is what \<^verbatim>\<open>eval\<close> returns on the row of that position. The two evaluators
  do not fail alike: \<^verbatim>\<open>broadcast_null\<close> gives a bare NULL the type BOOL, which the arithmetic of the
  columnwise evaluator refuses.
\<close>

section \<open>Broadcasting\<close>

definition broadcast_int :: "u64 \<Rightarrow> nat \<Rightarrow> batch_column" where
  "broadcast_int v n = ColInt (replicate n v) (all_valid n)"

definition broadcast_real :: "u64 \<Rightarrow> nat \<Rightarrow> batch_column" where
  "broadcast_real v n = ColReal (replicate n v) (all_valid n)"

definition broadcast_text :: "bytes \<Rightarrow> nat \<Rightarrow> batch_column" where
  "broadcast_text v n = ColText (replicate n v) (all_valid n)"

definition broadcast_bool :: "bool \<Rightarrow> nat \<Rightarrow> batch_column" where
  "broadcast_bool v n = ColBool (replicate n v) (all_valid n)"

text \<open>The flags pushed one after the other onto an empty mask.\<close>

definition mask_of :: "bool list \<Rightarrow> null_mask" where
  "mask_of vs = foldl (\<lambda>m v. nm_push v m) (nm_with_capacity (length vs)) vs"

definition broadcast_null :: "nat \<Rightarrow> batch_column" where
  "broadcast_null n = ColBool (replicate n False) (mask_of (replicate n False))"

section \<open>Columnwise operators\<close>

text \<open>
  The loops fill a value vector and a mask side by side; \<open>filled\<close> is the column they end with, from
  the (value, valid) pairs of the rows. \<^verbatim>\<open>?\<close> inside the loop leaves at the first failing row.
\<close>

definition filled :: "('a list \<Rightarrow> null_mask \<Rightarrow> batch_column) \<Rightarrow> (nat \<Rightarrow> ('a \<times> bool) result) \<Rightarrow> nat
    \<Rightarrow> batch_column result" where
  "filled con f n = rbind (rmap f [0..<n]) (\<lambda>ps. Inr (con (map fst ps) (mask_of (map snd ps))))"

definition neg_int_columnar :: "u64 list \<Rightarrow> null_mask \<Rightarrow> u64 list result" where
  "neg_int_columnar vs m = rmap (\<lambda>i. rbind (is_valid m i) (\<lambda>ok.
     if ok then ok_or (checked_neg (vs ! i)) Exec else Inr 0)) [0..<length vs]"

fun unary_columnar :: "unary_op \<Rightarrow> batch_column \<Rightarrow> batch_column result" where
  "unary_columnar Neg (ColInt vs m) = rbind (neg_int_columnar vs m) (\<lambda>out. Inr (ColInt out m))"
| "unary_columnar Neg (ColReal vs m) = Inr (ColReal (map f64_neg vs) m)"
| "unary_columnar Neg _ = Inl (Fail Exec)"
| "unary_columnar Not (ColBool vs m) = Inr (ColBool (map (\<lambda>b. \<not> b) vs) m)"
| "unary_columnar Not _ = Inl (Fail Exec)"

fun int_cell :: "binary_op \<Rightarrow> u64 \<Rightarrow> u64 \<Rightarrow> u64 result" where
  "int_cell Add a b = ok_or (checked_add a b) Exec"
| "int_cell Sub a b = ok_or (checked_sub a b) Exec"
| "int_cell Mul a b = ok_or (checked_mul a b) Exec"
| "int_cell Div a b = (if b = 0 then Inl (Fail Exec) else ok_or (checked_div a b) Exec)"
| "int_cell _ a b = Inl Panicked"

definition arith_int_int :: "binary_op \<Rightarrow> u64 list \<Rightarrow> null_mask \<Rightarrow> u64 list \<Rightarrow> null_mask \<Rightarrow> batch_column result"
  where
  "arith_int_int op lv ln rv rn = filled ColInt (\<lambda>i.
     rbind (is_valid ln i) (\<lambda>l. rbind (if l then is_valid rn i else Inr False) (\<lambda>both.
       if both then
         rbind (index lv i) (\<lambda>a. rbind (index rv i) (\<lambda>b. rbind (int_cell op a b) (\<lambda>v. Inr (v, True))))
       else Inr (0, False)))) (length lv)"

fun column_as_real :: "batch_column \<Rightarrow> nat \<Rightarrow> u64 option result" where
  "column_as_real (ColInt vs m) i =
     rbind (is_valid m i) (\<lambda>ok. if ok then rbind (index vs i) (\<lambda>n. Inr (Some (i64_as_f64 n))) else Inr None)"
| "column_as_real (ColReal vs m) i =
     rbind (is_valid m i) (\<lambda>ok. if ok then rbind (index vs i) (\<lambda>r. Inr (Some r)) else Inr None)"
| "column_as_real _ i = Inr None"

fun real_cell :: "binary_op \<Rightarrow> u64 \<Rightarrow> u64 \<Rightarrow> u64 result" where
  "real_cell Add a b = Inr (f64_add a b)"
| "real_cell Sub a b = Inr (f64_sub a b)"
| "real_cell Mul a b = Inr (f64_mul a b)"
| "real_cell Div a b = (if f64_is_zero b then Inl (Fail Exec) else Inr (f64_div a b))"
| "real_cell _ a b = Inl Panicked"

definition arith_real_real :: "binary_op \<Rightarrow> batch_column \<Rightarrow> batch_column \<Rightarrow> batch_column result" where
  "arith_real_real op l r = filled ColReal (\<lambda>i.
     rbind (column_as_real l i) (\<lambda>a. rbind (column_as_real r i) (\<lambda>b.
       case (a, b) of
         (Some x, Some y) \<Rightarrow> rbind (real_cell op x y) (\<lambda>v. Inr (v, True))
       | _ \<Rightarrow> Inr (0, False)))) (col_len l)"

fun arithmetic_columnar :: "binary_op \<Rightarrow> batch_column \<Rightarrow> batch_column \<Rightarrow> batch_column result" where
  "arithmetic_columnar op (ColInt lv ln) (ColInt rv rn) = arith_int_int op lv ln rv rn"
| "arithmetic_columnar op l r =
     (if batch_col_ty l \<in> {TInt, TReal} \<and> batch_col_ty r \<in> {TInt, TReal} then arith_real_real op l r
      else Inl (Fail Exec))"

fun bool_slot :: "sql_value \<Rightarrow> (bool \<times> bool) result" where
  "bool_slot (VBool b) = Inr (b, True)"
| "bool_slot VNull = Inr (False, False)"
| "bool_slot _ = Inl Panicked"

definition compare_columnar :: "binary_op \<Rightarrow> batch_column \<Rightarrow> batch_column \<Rightarrow> batch_column result" where
  "compare_columnar op l r = filled ColBool (\<lambda>i.
     rbind (value_at l i) (\<lambda>a. rbind (value_at r i) (\<lambda>b. rbind (compare_op op a b) bool_slot))) (col_len l)"

text \<open>The match of \<^verbatim>\<open>logic_columnar\<close> on the two validity flags, with its guarded arms.\<close>

definition logic_cell :: "binary_op \<Rightarrow> bool \<Rightarrow> bool \<Rightarrow> bool \<Rightarrow> bool \<Rightarrow> (bool \<times> bool) result" where
  "logic_cell op l_valid r_valid a b =
     (case op of
        And \<Rightarrow> Inr (if l_valid \<and> r_valid then (a \<and> b, True)
                    else if l_valid \<and> \<not> r_valid \<and> \<not> a then (False, True)
                    else if \<not> l_valid \<and> r_valid \<and> \<not> b then (False, True)
                    else (False, False))
      | Or \<Rightarrow> Inr (if l_valid \<and> r_valid then (a \<or> b, True)
                   else if l_valid \<and> \<not> r_valid \<and> a then (True, True)
                   else if \<not> l_valid \<and> r_valid \<and> b then (True, True)
                   else (False, False))
      | _ \<Rightarrow> Inl Panicked)"

fun logic_columnar :: "binary_op \<Rightarrow> batch_column \<Rightarrow> batch_column \<Rightarrow> batch_column result" where
  "logic_columnar op (ColBool lv ln) (ColBool rv rn) = filled ColBool (\<lambda>i.
     rbind (is_valid ln i) (\<lambda>l. rbind (is_valid rn i) (\<lambda>r.
       rbind (index lv i) (\<lambda>a. rbind (index rv i) (\<lambda>b. logic_cell op l r a b))))) (length lv)"
| "logic_columnar op _ _ = Inl (Fail Exec)"

fun binary_columnar :: "binary_op \<Rightarrow> batch_column \<Rightarrow> batch_column \<Rightarrow> batch_column result" where
  "binary_columnar op l r =
     (if op \<in> {Add, Sub, Mul, Div} then arithmetic_columnar op l r
      else if op \<in> {Eq, NotEq, Lt, LtEq, Gt, GtEq} then compare_columnar op l r
      else logic_columnar op l r)"

definition is_null_columnar :: "batch_column \<Rightarrow> bool \<Rightarrow> batch_column result" where
  "is_null_columnar c negated = filled ColBool (\<lambda>i.
     rbind (is_valid (col_nulls c) i) (\<lambda>ok. Inr ((\<not> ok) \<noteq> negated, True))) (nm_rows (col_nulls c))"

definition in_list_columnar :: "batch_column \<Rightarrow> expr list \<Rightarrow> bool \<Rightarrow> bool \<Rightarrow> batch_column result" where
  "in_list_columnar probes vs has_null negated = filled ColBool (\<lambda>i.
     rbind (value_at probes i) (\<lambda>probe. rbind (eval_in_list probe vs has_null) (\<lambda>v.
       rbind (if negated then negate_bool v else Inr v) bool_slot))) (col_len probes)"

section \<open>Selections\<close>

definition gather :: "('a list \<Rightarrow> null_mask \<Rightarrow> batch_column) \<Rightarrow> 'a list \<Rightarrow> null_mask \<Rightarrow> u32 list
    \<Rightarrow> batch_column result" where
  "gather con vs m sel = rbind (rmap (\<lambda>p.
     rbind (index vs (unat p)) (\<lambda>x. rbind (is_valid m (unat p)) (\<lambda>ok. Inr (x, ok)))) sel)
     (\<lambda>ps. Inr (con (map fst ps) (mask_of (map snd ps))))"

fun gather_column :: "batch_column \<Rightarrow> u32 list \<Rightarrow> batch_column result" where
  "gather_column (ColInt vs m) sel = gather ColInt vs m sel"
| "gather_column (ColReal vs m) sel = gather ColReal vs m sel"
| "gather_column (ColText vs m) sel = gather ColText vs m sel"
| "gather_column (ColBool vs m) sel = gather ColBool vs m sel"

definition materialise_column :: "batch_column \<Rightarrow> u32 list option \<Rightarrow> batch_column result" where
  "materialise_column c sel = (case sel of None \<Rightarrow> Inr c | Some s \<Rightarrow> gather_column c s)"

section \<open>The evaluator\<close>

fun eval_batch :: "expr \<Rightarrow> column_batch \<Rightarrow> scope \<Rightarrow> batch_column result" where
  "eval_batch ENull b sc = Inr (broadcast_null (cb_rows b))"
| "eval_batch (EInteger v) b sc = Inr (broadcast_int v (cb_rows b))"
| "eval_batch (EReal v) b sc = Inr (broadcast_real v (cb_rows b))"
| "eval_batch (EStr v) b sc = Inr (broadcast_text v (cb_rows b))"
| "eval_batch (EBool v) b sc = Inr (broadcast_bool v (cb_rows b))"
| "eval_batch (EPlaceholder _) b sc = Inl Panicked"
| "eval_batch (EColumn r) b sc = rbind (resolve sc r) (\<lambda>i. rbind (index (cb_columns b) i) (\<lambda>c.
     materialise_column c (cb_selection b)))"
| "eval_batch (EUnary op e) b sc = rbind (eval_batch e b sc) (unary_columnar op)"
| "eval_batch (EBinary op l r) b sc = rbind (eval_batch l b sc) (\<lambda>lc. rbind (eval_batch r b sc) (\<lambda>rc.
     binary_columnar op lc rc))"
| "eval_batch (EIsNull e negated) b sc = rbind (eval_batch e b sc) (\<lambda>c. is_null_columnar c negated)"
| "eval_batch (EInList e vs has_null negated) b sc =
     rbind (eval_batch e b sc) (\<lambda>c. in_list_columnar c vs has_null negated)"
| "eval_batch (EAggregate _) b sc = Inl (Fail Exec)"
| "eval_batch _ b sc = Inl (Fail Corruption)"

text \<open>The physical positions of the logical rows a mask keeps; only an exact TRUE does.\<close>

fun build_selection :: "column_batch \<Rightarrow> batch_column \<Rightarrow> u32 list result" where
  "build_selection b (ColBool vs m) =
     rbind (rmap (\<lambda>i. rbind (is_valid m i) (\<lambda>ok.
       if ok \<and> vs ! i then rbind (physical_for b i) (\<lambda>p. Inr [of_nat p]) else Inr []))
       [0..<min (length vs) (cb_rows b)]) (\<lambda>ps. Inr (concat ps))"
| "build_selection b _ = Inl (Fail Exec)"

section \<open>Columns filled row by row\<close>

lemma rmap_nth:
  "rmap f xs = Inr ys \<Longrightarrow> length ys = length xs \<and> (\<forall>i < length xs. f (xs ! i) = Inr (ys ! i))"
proof (induction xs arbitrary: ys)
  case (Cons x xs)
  then obtain y ys' where "f x = Inr y" "rmap f xs = Inr ys'" "ys = y # ys'"
    by (auto simp: rbind_Inr_iff)
  with Cons.IH show ?case by (auto simp: nth_Cons split: nat.splits)
qed simp

lemma mask_of_snoc: "mask_of (vs @ [v]) = nm_push v (mask_of vs)"
  by (simp add: mask_of_def nm_with_capacity_def)

lemma mask_of_ok [simp]: "mask_ok (mask_of vs)" "nm_rows (mask_of vs) = length vs"
  by (induction vs rule: rev_induct) (simp_all add: mask_of_snoc, simp_all add: mask_of_def)

lemma validity_mask_of [simp]: "i < length vs \<Longrightarrow> validity (mask_of vs) i = vs ! i"
  by (induction vs rule: rev_induct) (auto simp: mask_of_snoc nth_append less_Suc_eq)

text \<open>A column of \<open>n\<close> rows that holds, row by row, what \<open>g\<close> computes.\<close>

definition column_of :: "batch_column \<Rightarrow> nat \<Rightarrow> (nat \<Rightarrow> sql_value result) \<Rightarrow> bool" where
  "column_of c n g \<longleftrightarrow> col_ok c \<and> col_len c = n \<and> (\<forall>i < n. g i = Inr (col_values c ! i))"

lemma column_ofD:
  assumes "column_of c n g"
  shows "col_ok c" "col_len c = n" "i < n \<Longrightarrow> g i = Inr (col_values c ! i)"
  using assms by (auto simp: column_of_def)

text \<open>What the four column constructors have in common, and the loops over any one of them.\<close>

locale column_con =
  fixes con :: "'a list \<Rightarrow> null_mask \<Rightarrow> batch_column" and inj :: "'a \<Rightarrow> sql_value"
  assumes con_ok: "col_ok (con vs m) \<longleftrightarrow> mask_ok m \<and> length vs = nm_rows m"
    and con_values: "col_values (con vs m) = slots inj vs m"
    and con_nulls: "col_nulls (con vs m) = m"
begin

lemma con_column_of:
  assumes "mask_ok m" "length vs = n" "nm_rows m = n"
    and "\<And>i. i < n \<Longrightarrow> g i = Inr (if validity m i then inj (vs ! i) else VNull)"
  shows "column_of (con vs m) n g"
  using assms by (simp add: column_of_def con_ok con_values con_nulls col_len_def)

lemma broadcast_column_of: "(\<And>i. i < n \<Longrightarrow> g i = Inr (inj v)) \<Longrightarrow> column_of (con (replicate n v) (all_valid n)) n g"
  by (rule con_column_of) simp_all

lemma pairs_column_of:
  assumes "length ps = n" "\<And>i. i < n \<Longrightarrow> g i = Inr (if snd (ps ! i) then inj (fst (ps ! i)) else VNull)"
  shows "column_of (con (map fst ps) (mask_of (map snd ps))) n g"
  using assms by (intro con_column_of) simp_all

lemma filled_column_of:
  assumes "filled con f n = Inr c"
    and "\<And>i x ok. i < n \<Longrightarrow> f i = Inr (x, ok) \<Longrightarrow> g i = Inr (if ok then inj x else VNull)"
  shows "column_of c n g"
proof -
  obtain ps where ps: "rmap f [0..<n] = Inr ps" "c = con (map fst ps) (mask_of (map snd ps))"
    using assms(1) by (auto simp: filled_def rbind_Inr_iff)
  from rmap_nth [OF ps(1)] have "length ps = n" "\<And>i. i < n \<Longrightarrow> f i = Inr (ps ! i)" by auto
  then show ?thesis
    unfolding ps(2) using assms(2) by (intro pairs_column_of) (auto simp: prod_eq_iff intro: assms(2))
qed

lemma gather_column_of:
  assumes "col_ok (con vs m)" "list_all (\<lambda>p. unat p < nm_rows m) sel"
  shows "\<exists>c. gather con vs m sel = Inr c \<and>
    column_of c (length sel) (\<lambda>i. Inr (col_values (con vs m) ! unat (sel ! i)))"
proof -
  have "rmap (\<lambda>p. rbind (index vs (unat p)) (\<lambda>x. rbind (is_valid m (unat p)) (\<lambda>ok. Inr (x, ok)))) sel =
      Inr (map (\<lambda>p. (vs ! unat p, validity m (unat p))) sel)"
    using assms by (intro rmap_Inr) (auto simp: con_ok list_all_iff is_valid_validity)
  then show ?thesis
    using assms by (auto simp: gather_def con_ok con_values list_all_iff intro!: con_column_of)
qed

end

interpretation int_col: column_con ColInt VInt by unfold_locales simp_all
interpretation real_col: column_con ColReal VReal by unfold_locales simp_all
interpretation text_col: column_con ColText VText by unfold_locales simp_all
interpretation bool_col: column_con ColBool VBool by unfold_locales simp_all

lemma gather_column_column_of:
  assumes "col_ok c" "list_all (\<lambda>p. unat p < col_len c) sel"
  shows "\<exists>c'. gather_column c sel = Inr c' \<and> column_of c' (length sel) (\<lambda>i. Inr (col_values c ! unat (sel ! i)))"
  using assms int_col.gather_column_of real_col.gather_column_of text_col.gather_column_of
    bool_col.gather_column_of by (cases c) (auto simp: col_len_def)

lemma materialise_column_of:
  assumes "batch_ok b" "c \<in> set (cb_columns b)"
  shows "\<exists>c'. materialise_column c (cb_selection b) = Inr c' \<and>
    column_of c' (cb_rows b) (\<lambda>i. Inr (col_values c ! phys b i))"
  using assms gather_column_column_of [of c]
  by (auto simp: materialise_column_def batch_ok_def phys_def list_all_iff column_of_def
      split: option.splits)

section \<open>Each operator, cell by cell\<close>

lemma broadcast_null_column_of: "(\<And>i. i < n \<Longrightarrow> g i = Inr VNull) \<Longrightarrow> column_of (broadcast_null n) n g"
  unfolding broadcast_null_def by (rule bool_col.con_column_of) simp_all

lemma unary_column_of:
  assumes c: "column_of c n g" and u: "unary_columnar op c = Inr c'"
  shows "column_of c' n (\<lambda>i. rbind (g i) (eval_unary op))"
  using u
proof (cases "(op, c)" rule: unary_columnar.cases)
  case (1 vs m)
  then obtain out where out: "neg_int_columnar vs m = Inr out" "c' = ColInt out m"
    using u by (auto simp: rbind_Inr_iff)
  show ?thesis
    using c 1 out rmap_nth [OF out(1) [unfolded neg_int_columnar_def]]
    by (auto simp: column_of_def col_len_def is_valid_validity intro!: int_col.con_column_of)
qed (use c in \<open>auto simp: column_of_def col_len_def intro!: real_col.con_column_of bool_col.con_column_of\<close>)

lemma int_cell_arith: "int_cell op a b = int_arith op a b"
  by (cases op) auto

lemma real_cell_arith: "real_cell op a b = real_arith op a b"
  by (cases op) auto

lemma column_as_real_number:
  "col_ok c \<Longrightarrow> i < col_len c \<Longrightarrow> batch_col_ty c \<in> {TInt, TReal} \<Longrightarrow>
   column_as_real c i = (if is_null (col_values c ! i) then Inr None
     else rbind (as_number (col_values c ! i)) (\<lambda>x. Inr (Some x)))"
  by (cases c) (auto simp: col_len_def is_valid_validity is_null_def)

lemma arith_real_column_of:
  assumes l: "column_of l n g" and r: "column_of r n h"
    and ty: "batch_col_ty l \<in> {TInt, TReal}" "batch_col_ty r \<in> {TInt, TReal}"
      "batch_col_ty l \<noteq> TInt \<or> batch_col_ty r \<noteq> TInt"
    and out: "arith_real_real op l r = Inr c"
  shows "column_of c n (\<lambda>i. rbind (g i) (\<lambda>a. rbind (h i) (arithmetic op a)))"
proof (rule real_col.filled_column_of)
  note D = column_ofD [OF l] column_ofD [OF r]
  show "filled ColReal (\<lambda>i. rbind (column_as_real l i) (\<lambda>a. rbind (column_as_real r i) (\<lambda>b.
       case (a, b) of (Some x, Some y) \<Rightarrow> rbind (real_cell op x y) (\<lambda>v. Inr (v, True))
       | _ \<Rightarrow> Inr (0, False)))) n = Inr c"
    using out D(2) by (simp add: arith_real_real_def)
  fix i x ok assume i: "i < n" and f: "rbind (column_as_real l i) (\<lambda>a. rbind (column_as_real r i) (\<lambda>b.
       case (a, b) of (Some x, Some y) \<Rightarrow> rbind (real_cell op x y) (\<lambda>v. Inr (v, True))
       | _ \<Rightarrow> Inr (0, False))) = Inr (x, ok)"
  have "has_type (col_values l ! i) (batch_col_ty l)" "has_type (col_values r ! i) (batch_col_ty r)"
    using i D by (auto intro!: col_values_typed)
  then show "rbind (g i) (\<lambda>a. rbind (h i) (arithmetic op a)) = Inr (if ok then VReal x else VNull)"
    using f i ty D
    by (cases "col_values l ! i"; cases "col_values r ! i")
       (auto simp: column_as_real_number arithmetic_def is_null_def real_cell_arith rbind_Inr_iff)
qed

lemma arith_int_column_of:
  assumes l: "column_of (ColInt lv ln) n g" and r: "column_of (ColInt rv rn) n h"
    and out: "arith_int_int op lv ln rv rn = Inr c"
  shows "column_of c n (\<lambda>i. rbind (g i) (\<lambda>a. rbind (h i) (arithmetic op a)))"
  using assms
  by (auto simp: arith_int_int_def column_of_def [of "ColInt _ _"] col_len_def is_valid_validity
      arithmetic_def is_null_def int_cell_arith rbind_Inr_iff
      elim!: int_col.filled_column_of split: if_splits)

lemma arithmetic_column_of:
  assumes "column_of l n g" "column_of r n h" "arithmetic_columnar op l r = Inr c"
  shows "column_of c n (\<lambda>i. rbind (g i) (\<lambda>a. rbind (h i) (arithmetic op a)))"
  using assms arith_int_column_of arith_real_column_of
  by (cases "(op, l, r)" rule: arithmetic_columnar.cases) (auto split: if_splits)

lemma bool_slot_Inr [simp]:
  "bool_slot v = Inr (x, True) \<longleftrightarrow> v = VBool x" "bool_slot v = Inr (x, False) \<longleftrightarrow> v = VNull \<and> \<not> x"
  by (cases v; auto)+

lemma compare_column_of:
  assumes "column_of l n g" "column_of r n h" "compare_columnar op l r = Inr c"
  shows "column_of c n (\<lambda>i. rbind (g i) (\<lambda>a. rbind (h i) (compare_op op a)))"
  using assms(3) column_ofD [OF assms(1)] column_ofD [OF assms(2)] unfolding compare_columnar_def
  by (auto simp: rbind_Inr_iff elim!: bool_col.filled_column_of)

lemma logic_cell_logic:
  "logic_cell op lv rv a b = Inr (x, ok) \<Longrightarrow>
   logic op (if lv then VBool a else VNull) (if rv then VBool b else VNull) = Inr (if ok then VBool x else VNull)"
  by (cases op; cases lv; cases rv; cases a; cases b) (auto simp: logic_cell_def logic_def)

lemma logic_column_of:
  assumes "column_of l n g" "column_of r n h" "logic_columnar op l r = Inr c"
  shows "column_of c n (\<lambda>i. rbind (g i) (\<lambda>a. rbind (h i) (logic op a)))"
proof (cases "(op, l, r)" rule: logic_columnar.cases)
  case (1 op' lv ln rv rn)
  then show ?thesis
    using assms logic_cell_logic
    by (auto simp: column_of_def [of "ColBool _ _"] col_len_def is_valid_validity
        elim!: bool_col.filled_column_of)
qed (use assms in auto)

lemma eval_binary_op:
  "eval_binary op = (if op \<in> {Add, Sub, Mul, Div} then arithmetic op
     else if op \<in> {Eq, NotEq, Lt, LtEq, Gt, GtEq} then compare_op op else logic op)"
  by (intro ext) simp

lemma binary_column_of:
  assumes "column_of l n g" "column_of r n h" "binary_columnar op l r = Inr c"
  shows "column_of c n (\<lambda>i. rbind (g i) (\<lambda>a. rbind (h i) (eval_binary op a)))"
  using assms(3) arithmetic_column_of [OF assms(1,2)] compare_column_of [OF assms(1,2)]
    logic_column_of [OF assms(1,2)] unfolding eval_binary_op
  by (cases op) simp_all

lemma validity_not_null: "col_ok c \<Longrightarrow> i < col_len c \<Longrightarrow> validity (col_nulls c) i \<longleftrightarrow> \<not> is_null (col_values c ! i)"
  by (cases c) (auto simp: col_len_def is_null_def)

lemma col_ok_mask: "col_ok c \<Longrightarrow> mask_ok (col_nulls c)"
  by (cases c) auto

lemma is_null_column_of:
  assumes "column_of c n g" "is_null_columnar c negated = Inr c'"
  shows "column_of c' n (\<lambda>i. rbind (g i) (\<lambda>v. Inr (VBool (is_null v \<noteq> negated))))"
  using assms(2) column_ofD [OF assms(1)] unfolding is_null_columnar_def
  by (auto simp: col_len_def is_valid_validity col_ok_mask validity_not_null
      elim!: bool_col.filled_column_of)

lemma in_list_column_of:
  assumes "column_of c n g" "in_list_columnar c vs has_null negated = Inr c'"
  shows "column_of c' n (\<lambda>i. rbind (g i) (\<lambda>p. rbind (eval_in_list p vs has_null) (\<lambda>v.
    if negated then negate_bool v else Inr v)))"
  using assms(2) column_ofD [OF assms(1)] unfolding in_list_columnar_def
  by (cases negated) (auto simp: rbind_Inr_iff elim!: bool_col.filled_column_of)

section \<open>The two evaluators agree\<close>

definition row_ctx :: "scope \<Rightarrow> sql_value list \<Rightarrow> row_context option" where
  "row_ctx sc row = Some \<lparr>rc_scope = sc, rc_values = row\<rparr>"

lemma eval_batch_column_of:
  "batch_ok b \<Longrightarrow> eval_batch e b sc = Inr c \<Longrightarrow>
   column_of c (cb_rows b) (\<lambda>i. eval e (row_ctx sc (batch_row b i)))"
proof (induction e b sc arbitrary: c rule: eval_batch.induct)
  case (7 r b sc)
  then obtain k where k: "resolve sc r = Inr k" "k < length (cb_columns b)"
    "materialise_column (cb_columns b ! k) (cb_selection b) = Inr c"
    by (auto simp: rbind_Inr_iff index_def split: if_splits)
  then show ?case
    using materialise_column_of [OF 7(1), of "cb_columns b ! k"]
    by (auto simp: row_ctx_def batch_row_def)
next
  case (8 op e b sc)
  then show ?case by (auto simp: rbind_Inr_iff intro: unary_column_of)
next
  case (9 op l r b sc)
  then obtain lc rc where "eval_batch l b sc = Inr lc" "eval_batch r b sc = Inr rc"
    "binary_columnar op lc rc = Inr c"
    by (auto simp: rbind_Inr_iff simp del: binary_columnar.simps)
  with 9 binary_column_of [of lc "cb_rows b" _ rc _ op c] show ?case
    by (simp del: binary_columnar.simps eval_binary.simps)
next
  case (10 e negated b sc)
  then obtain c0 where "eval_batch e b sc = Inr c0" "is_null_columnar c0 negated = Inr c"
    by (auto simp: rbind_Inr_iff)
  with 10 is_null_column_of [of c0 "cb_rows b" _ negated c] show ?case by simp
next
  case (11 e vs has_null negated b sc)
  then show ?case by (auto simp: rbind_Inr_iff intro: in_list_column_of)
qed (auto simp: broadcast_int_def broadcast_real_def broadcast_text_def broadcast_bool_def
    intro!: int_col.broadcast_column_of real_col.broadcast_column_of text_col.broadcast_column_of
      bool_col.broadcast_column_of broadcast_null_column_of)

text \<open>C10: The vectorised evaluator agrees with the row evaluator: when \<^verbatim>\<open>eval_batch\<close> returns a column
  for a batch, with or without a selection vector, the column has one cell per logical row, and the
  cell of each row is the value that \<^verbatim>\<open>eval\<close> returns on the row \<^verbatim>\<open>row_at\<close> reads there.\<close>

theorem eval_batch_agrees:
  assumes "batch_ok b" "eval_batch e b sc = Inr c"
  shows "col_len c = cb_rows b \<and> (\<forall>i < cb_rows b. \<exists>row v. row_at b i = Inr row \<and> value_at c i = Inr v \<and>
      eval e (Some \<lparr>rc_scope = sc, rc_values = row\<rparr>) = Inr v)"
  using column_ofD [OF eval_batch_column_of [OF assms]] assms(1) by (auto simp: row_ctx_def)

section \<open>Filtering a batch\<close>

lemma build_selection_phys:
  assumes ok: "batch_ok b" and m: "column_of m (cb_rows b) g" and sel: "build_selection b m = Inr sel"
  shows "sel = map (\<lambda>i. of_nat (phys b i)) (filter (\<lambda>i. g i = Inr (VBool True)) [0..<cb_rows b])"
proof -
  let ?n = "cb_rows b"
  obtain vs nm where m': "m = ColBool vs nm" using sel by (cases m) auto
  with m have D: "mask_ok nm" "length vs = ?n" "nm_rows nm = ?n"
    "\<And>i. i < ?n \<Longrightarrow> g i = Inr (if validity nm i then VBool (vs ! i) else VNull)"
    by (auto simp: column_of_def col_len_def)
  define f where "f = (\<lambda>i. rbind (is_valid nm i) (\<lambda>ok.
      if ok \<and> vs ! i then rbind (physical_for b i) (\<lambda>p. Inr [of_nat p :: u32]) else Inr []))"
  have "f i = Inr (if g i = Inr (VBool True) then [of_nat (phys b i)] else [])" if "i < ?n" for i
    using ok that by (simp add: f_def D is_valid_validity)
  then have "rmap f [0..<?n] = Inr (map (\<lambda>i. if g i = Inr (VBool True) then [of_nat (phys b i)] else []) [0..<?n])"
    by (intro rmap_Inr) auto
  moreover have "rbind (rmap f [0..<?n]) (\<lambda>ps. Inr (concat ps)) = Inr sel"
    using sel by (simp add: m' D(2) f_def)
  ultimately have "sel = concat (map (\<lambda>i. if g i = Inr (VBool True) then [of_nat (phys b i)] else []) [0..<?n])"
    by simp
  also have "concat (map (\<lambda>i. if g i = Inr (VBool True) then [of_nat (phys b i)] else []) xs) =
      map (\<lambda>i. of_nat (phys b i)) (filter (\<lambda>i. g i = Inr (VBool True)) xs)" for xs
    by (induction xs) auto
  finally show ?thesis .
qed

text \<open>A batch's positions fit a \<^verbatim>\<open>u32\<close>: its columns have at most \<^verbatim>\<open>BATCH_SIZE\<close> rows.\<close>

definition batch_small :: "column_batch \<Rightarrow> bool" where
  "batch_small b \<longleftrightarrow> cb_rows b < 2 ^ 32"

lemma phys_u32:
  assumes "batch_ok b" "batch_small b" "i < cb_rows b"
  shows "unat (of_nat (phys b i) :: u32) = phys b i"
proof (cases "cb_selection b")
  case None
  then show ?thesis using assms by (simp add: phys_def batch_small_def unat_of_nat)
qed (simp add: phys_def)

lemma reselect_batch:
  assumes ok: "batch_ok b" "batch_small b" and xs: "\<And>i. i \<in> set xs \<Longrightarrow> i < cb_rows b"
    and b': "b' = b\<lparr>cb_rows := length xs, cb_selection := Some (map (\<lambda>i. of_nat (phys b i)) xs)\<rparr>"
  shows "batch_ok b'" "batch_rows b' = map (batch_row b) xs"
proof -
  have phys': "phys b' k = phys b (xs ! k)" if "k < length xs" for k
    using that xs phys_u32 [OF ok] by (simp add: b' phys_def [of "b\<lparr>cb_rows := _, cb_selection := _\<rparr>"])
  then show "batch_rows b' = map (batch_row b) xs"
    by (auto simp: batch_rows_def batch_row_def b' intro!: nth_equalityI)
  show "batch_ok b'"
    using ok(1) xs phys_less [OF ok(1)] phys_u32 [OF ok]
    by (auto simp: b' batch_ok_def [of "b\<lparr>cb_rows := _, cb_selection := _\<rparr>"] list_all_iff batch_ok_def [of b])
qed

lemma filter_batch:
  assumes ok: "batch_ok b" "batch_small b" and e: "eval_batch e b sc = Inr m"
    and sel: "build_selection b m = Inr sel"
    and b': "b' = \<lparr>cb_columns = cb_columns b, cb_rows = length sel, cb_selection = Some sel\<rparr>"
  shows "batch_ok b'" "\<forall>r \<in> set (batch_rows b). \<exists>k. passes_filter (Some e) sc r = Inr k"
    "batch_rows b' = filter (\<lambda>r. passes_filter (Some e) sc r = Inr True) (batch_rows b)"
proof -
  note m = eval_batch_column_of [OF ok(1) e]
  let ?g = "\<lambda>i. eval e (row_ctx sc (batch_row b i))"
  let ?xs = "filter (\<lambda>i. ?g i = Inr (VBool True)) [0..<cb_rows b]"
  have s: "sel = map (\<lambda>i. of_nat (phys b i)) ?xs"
    by (rule build_selection_phys [OF ok(1) m sel])
  have pf: "passes_filter (Some e) sc (batch_row b i) = Inr (?g i = Inr (VBool True))" if "i < cb_rows b" for i
    using column_ofD(3) [OF m that] by (simp add: passes_filter_def row_ctx_def)
  have b'': "b' = b\<lparr>cb_rows := length ?xs, cb_selection := Some (map (\<lambda>i. of_nat (phys b i)) ?xs)\<rparr>"
    by (simp add: b' s)
  show "batch_ok b'" by (rule reselect_batch(1) [OF ok _ b'']) auto
  show "\<forall>r \<in> set (batch_rows b). \<exists>k. passes_filter (Some e) sc r = Inr k"
    using pf by (auto simp: batch_rows_def)
  have "batch_rows b' = map (batch_row b) ?xs" by (rule reselect_batch(2) [OF ok _ b'']) auto
  also have "\<dots> = filter (\<lambda>r. passes_filter (Some e) sc r = Inr True) (batch_rows b)"
    using pf by (auto simp: batch_rows_def filter_map comp_def intro!: arg_cong [where f = "map (batch_row b)"] filter_cong)
  finally show "batch_rows b' = filter (\<lambda>r. passes_filter (Some e) sc r = Inr True) (batch_rows b)" .
qed

text \<open>Filtering a batch keeps exactly the rows the row-at-a-time filter keeps: when the
  predicate's mask and its selection are built, the predicate fails on no row, the batch with the
  new selection vector is well formed, and its rows are the input's rows for which
  \<^verbatim>\<open>passes_filter\<close> answers TRUE, in order.\<close>

theorem batch_filter_agrees:
  assumes "batch_ok b" "batch_small b" "eval_batch e b sc = Inr m" "build_selection b m = Inr sel"
  shows "batch_ok \<lparr>cb_columns = cb_columns b, cb_rows = length sel, cb_selection = Some sel\<rparr> \<and>
    (\<forall>r \<in> set (batch_rows b). \<exists>k. passes_filter (Some e) sc r = Inr k) \<and>
    batch_rows \<lparr>cb_columns = cb_columns b, cb_rows = length sel, cb_selection = Some sel\<rparr> =
      filter (\<lambda>r. passes_filter (Some e) sc r = Inr True) (batch_rows b)"
  using filter_batch [OF assms refl] by simp

section \<open>Where they part\<close>

text \<open>The two evaluators do not fail alike: over any batch with a row, \<open>1 + NULL\<close> and
  \<open>- NULL\<close> are NULL for the row evaluator and an execution error for the vectorised one, and a
  WHERE clause that is a number drops the row in one and is an error in the other.\<close>

theorem null_arithmetic_differs:
  "eval (EBinary Add (EInteger n) ENull) (row_ctx sc row) = Inr VNull \<and>
   eval_batch (EBinary Add (EInteger n) ENull) b sc = Inl (Fail Exec) \<and>
   eval (EUnary Neg ENull) (row_ctx sc row) = Inr VNull \<and>
   eval_batch (EUnary Neg ENull) b sc = Inl (Fail Exec) \<and>
   passes_filter (Some (EInteger n)) sc row = Inr False \<and>
   rbind (eval_batch (EInteger n) b sc) (build_selection b) = Inl (Fail Exec)"
  by (simp add: arithmetic_def is_null_def broadcast_int_def broadcast_null_def passes_filter_def)

section \<open>Witnesses\<close>

text \<open>A table of one INT column \<open>x\<close> holding 3 and NULL, and the predicate \<open>x > 2\<close>.\<close>

definition demo_scope :: scope where
  "demo_scope = [\<lparr>sc_table = [116], sc_name = [120], sc_ty = TInt\<rparr>]"

definition demo_batch :: column_batch where
  "demo_batch = \<lparr>cb_columns = [ColInt [3, 0] (mask_of [True, False])], cb_rows = 2, cb_selection = None\<rparr>"

definition demo_pred :: expr where
  "demo_pred = EBinary Gt (EColumn (bare [120])) (EInteger 2)"

lemma demo_batch_ok: "batch_ok demo_batch" "batch_small demo_batch"
  by (simp_all add: demo_batch_def batch_ok_def batch_small_def col_len_def)

lemma demo_mask: "eval_batch demo_pred demo_batch demo_scope = Inr (ColBool [True, False] (mask_of [True, False]))"
  by code_simp

theorem eval_batch_agrees_witness:
  "eval demo_pred (Some \<lparr>rc_scope = demo_scope, rc_values = [VInt 3]\<rparr>) = Inr (VBool True) \<and>
   value_at (ColBool [True, False] (mask_of [True, False])) 0 = Inr (VBool True)"
proof -
  have "row_at demo_batch 0 = Inr [VInt 3]" by code_simp
  moreover have "value_at (ColBool [True, False] (mask_of [True, False])) 0 = Inr (VBool True)" by code_simp
  ultimately show ?thesis
    using eval_batch_agrees [OF demo_batch_ok(1) demo_mask, THEN conjunct2, rule_format, of 0]
    by (simp add: demo_batch_def)
qed

theorem batch_filter_agrees_witness:
  "batch_rows \<lparr>cb_columns = cb_columns demo_batch, cb_rows = 1, cb_selection = Some [0]\<rparr> =
     filter (\<lambda>r. passes_filter (Some demo_pred) demo_scope r = Inr True) (batch_rows demo_batch)"
proof -
  have "build_selection demo_batch (ColBool [True, False] (mask_of [True, False])) = Inr [0]" by code_simp
  from batch_filter_agrees [OF demo_batch_ok demo_mask this] show ?thesis by simp
qed

end
