(* ===== verification/Row_Stream.thy ===== *)
theory Row_Stream
  imports Prelude
begin

text \<open>
  The pull protocol of \<^verbatim>\<open>engine/executor.rs\<close>: an operator is asked for the next item and answers with
  one, or with \<^verbatim>\<open>None\<close> at the end of its stream. An operator is an operation on a state that holds
  its own fields, its input's and the pager; a tree of operators is a function applied to its input's
  \<^verbatim>\<open>next\<close>. \<open>emits next s xs s'\<close> says that pulling from \<open>s\<close> until the first \<^verbatim>\<open>None\<close> yields
  the items \<open>xs\<close>. The loops that pull their input until something comes out take fuel; the lemmas
  show that more fuel than the input has items is always enough.
\<close>

inductive emits :: "('s, 'a option) op \<Rightarrow> 's \<Rightarrow> 'a list \<Rightarrow> 's \<Rightarrow> bool" for nx where
  emits_done: "nx s = (Inr None, s') \<Longrightarrow> emits nx s [] s'"
| emits_more: "nx s = (Inr (Some x), t) \<Longrightarrow> emits nx t xs s' \<Longrightarrow> emits nx s (x # xs) s'"

inductive_cases emits_NilE: "emits nx s [] s'"
inductive_cases emits_ConsE: "emits nx s (x # xs) s'"
inductive_simps emits_Nil_iff: "emits nx s [] s'"
inductive_simps emits_Cons_iff: "emits nx s (x # xs) s'"

text \<open>A stream is determined by its operator and its state.\<close>

lemma emits_unique:
  "emits nx s xs s' \<Longrightarrow> emits nx s ys s'' \<Longrightarrow> xs = ys \<and> s' = s''"
proof (induction arbitrary: ys s'' rule: emits.induct)
  case (emits_done s s')
  then show ?case by (cases ys) (auto simp: emits_Nil_iff emits_Cons_iff)
next
  case (emits_more s x t xs s')
  from emits_more.prems emits_more.hyps(1) obtain zs where "ys = x # zs" "emits nx t zs s''"
    by (auto elim: emits.cases)
  with emits_more.IH [of zs s''] show ?case by simp
qed

text \<open>Two states that answer the next pull alike emit alike.\<close>

lemma emits_same: "nx s = nx t \<Longrightarrow> emits nx t xs e \<Longrightarrow> emits nx s xs e"
  by (cases xs) (auto simp: emits_Nil_iff emits_Cons_iff)

text \<open>Two operators that agree on the states a stream passes through emit it alike.\<close>

lemma emits_cong:
  assumes "emits nx s xs e" "I s" "\<And>t r t'. I t \<Longrightarrow> nx t = (r, t') \<Longrightarrow> I t' \<and> nx' t = (r, t')"
  shows "emits nx' s xs e"
  using assms(1,2)
proof (induction rule: emits.induct)
  case (emits_done s s')
  then show ?case using assms(3) by (blast intro: emits.intros)
next
  case (emits_more s x t xs s')
  then show ?case using assms(3) by (blast intro: emits.intros)
qed

text \<open>\<^verbatim>\<open>drain\<close>: pull every remaining item.\<close>

fun drain :: "('s, 'a option) op \<Rightarrow> nat \<Rightarrow> ('s, 'a list) op" where
  "drain nx 0 s = (Inl OutOfFuel, s)"
| "drain nx (Suc f) s =
     (case nx s of
        (Inl e, t) \<Rightarrow> (Inl e, t)
      | (Inr None, t) \<Rightarrow> (Inr [], t)
      | (Inr (Some x), t) \<Rightarrow> (case drain nx f t of (Inl e, u) \<Rightarrow> (Inl e, u) | (Inr xs, u) \<Rightarrow> (Inr (x # xs), u)))"

lemma drain_emits: "emits nx s xs s' \<Longrightarrow> length xs < f \<Longrightarrow> drain nx f s = (Inr xs, s')"
proof (induction arbitrary: f rule: emits.induct)
  case (emits_done s s')
  then show ?case by (cases f) auto
next
  case (emits_more s x t xs s')
  then show ?case by (cases f) auto
qed

text \<open>
  The loop shared by the scans and the filters: pull an item, and either return what its body makes
  of it or go round again.
\<close>

fun pull_until :: "('s, 'a option) op \<Rightarrow> ('a \<Rightarrow> ('s, 'b option) op) \<Rightarrow> nat \<Rightarrow> ('s, 'b option) op" where
  "pull_until nx body 0 s = (Inl OutOfFuel, s)"
| "pull_until nx body (Suc f) s =
     (case nx s of
        (Inl e, t) \<Rightarrow> (Inl e, t)
      | (Inr None, t) \<Rightarrow> (Inr None, t)
      | (Inr (Some x), t) \<Rightarrow>
          (case body x t of
             (Inl e, u) \<Rightarrow> (Inl e, u)
           | (Inr (Some y), u) \<Rightarrow> (Inr (Some y), u)
           | (Inr None, u) \<Rightarrow> pull_until nx body f u))"

lemma pull_until_cases:
  "nx s = (Inr None, t) \<Longrightarrow> pull_until nx body (Suc f) s = (Inr None, t)"
  "nx s = (Inr (Some x), t) \<Longrightarrow> body x t = (Inr (Some y), u) \<Longrightarrow> pull_until nx body (Suc f) s = (Inr (Some y), u)"
  "nx s = (Inr (Some x), t) \<Longrightarrow> body x t = (Inr None, u) \<Longrightarrow> pull_until nx body (Suc f) s = pull_until nx body f u"
  by simp_all

lemma pull_until_fuel:
  assumes "emits nx s xs s'" "\<And>x t. x \<in> set xs \<Longrightarrow> body x t = (Inr (g x), t)"
    and "length xs < f" "length xs < f'"
  shows "pull_until nx body f s = pull_until nx body f' s"
  using assms
proof (induction arbitrary: f f' rule: emits.induct)
  case (emits_done s s')
  then show ?case by (cases f; cases f') auto
next
  case (emits_more s x t xs s')
  obtain k k' where k: "f = Suc k" "f' = Suc k'" "length xs < k" "length xs < k'"
    using emits_more.prems by (cases f; cases f') auto
  have "body x t = (Inr (g x), t)" using emits_more.prems by simp
  moreover have "pull_until nx body k t = pull_until nx body k' t"
    using emits_more.prems(1) k by (intro emits_more.IH) auto
  ultimately show ?case using emits_more.hyps(1) by (simp add: k split: option.split)
qed

lemma pull_until_emits:
  assumes "emits nx s xs s'" "\<And>x t. x \<in> set xs \<Longrightarrow> body x t = (Inr (g x), t)" "length xs < f"
  shows "emits (pull_until nx body f) s (List.map_filter g xs) s'"
  using assms
proof (induction rule: emits.induct)
  case (emits_done s s')
  then show ?case by (cases f) (auto simp: List.map_filter_simps emits_Nil_iff)
next
  case (emits_more s x t xs s')
  then have IH: "emits (pull_until nx body f) t (List.map_filter g xs) s'" and b: "body x t = (Inr (g x), t)"
    by auto
  from emits_more.prems(2) obtain f' where f: "f = Suc f'" "length xs < f'" by (cases f) auto
  show ?case
  proof (cases "g x")
    case None
    have "pull_until nx body f s = pull_until nx body f' t"
      using emits_more.hyps(1) b None by (simp add: f)
    also have "\<dots> = pull_until nx body f t"
      using emits_more.prems(1) f by (intro pull_until_fuel [OF emits_more.hyps(2), of body g]) auto
    finally show ?thesis using IH None by (auto simp: List.map_filter_simps intro: emits_same)
  next
    case (Some y)
    then have "pull_until nx body f s = (Inr (Some y), t)"
      using emits_more.hyps(1) b by (simp add: f)
    then show ?thesis using IH Some by (simp add: List.map_filter_simps emits.intros(2))
  qed
qed

text \<open>Conversely, what a loop with a body free of effects emitted tells what its input emitted.\<close>

lemma pull_until_result:
  assumes "\<And>x t. body x t = (h x, t)" "pull_until nx body f s = (Inr r, t)"
  shows "case r of
      None \<Rightarrow> \<exists>xs. emits nx s xs t \<and> list_all (\<lambda>x. h x = Inr None) xs
    | Some y \<Rightarrow> \<exists>xs x. (\<forall>ys e. emits nx t ys e \<longrightarrow> emits nx s (xs @ x # ys) e) \<and>
        list_all (\<lambda>x. h x = Inr None) xs \<and> h x = Inr (Some y)"
  using assms(2)
proof (induction f arbitrary: s)
  case (Suc f)
  obtain p u where p: "nx s = (p, u)" by fastforce
  show ?case
  proof (cases "p = Inr None \<or> (\<exists>e. p = Inl e)")
    case True
    with Suc.prems p have "r = None" "emits nx s [] t" by (auto simp: emits_Nil_iff)
    then show ?thesis by auto
  next
    case False
    then obtain x where x: "nx s = (Inr (Some x), u)" using p by (cases p) auto
    show ?thesis
    proof (cases "h x = Inr None")
      case True
      then have "pull_until nx body f u = (Inr r, t)" using Suc.prems x assms(1) [of x u] by simp
      from Suc.IH [OF this] show ?thesis
      proof (cases r)
        case None
        with \<open>pull_until nx body f u = (Inr r, t)\<close> Suc.IH [of u] obtain xs
          where "emits nx u xs t" "list_all (\<lambda>x. h x = Inr None) xs" by auto
        then have "emits nx s (x # xs) t" "list_all (\<lambda>x. h x = Inr None) (x # xs)"
          using x True by (auto intro: emits.intros)
        then show ?thesis unfolding None option.case by blast
      next
        case (Some y)
        with \<open>pull_until nx body f u = (Inr r, t)\<close> Suc.IH [of u] obtain xs z
          where "\<forall>ys e. emits nx t ys e \<longrightarrow> emits nx u (xs @ z # ys) e"
            "list_all (\<lambda>x. h x = Inr None) xs" "h z = Inr (Some y)" by auto
        then have "\<forall>ys e. emits nx t ys e \<longrightarrow> emits nx s ((x # xs) @ z # ys) e"
            "list_all (\<lambda>x. h x = Inr None) (x # xs)" "h z = Inr (Some y)"
          using x True by (auto intro: emits.intros)
        then show ?thesis unfolding Some option.case by blast
      qed
    next
      case False
      with Suc.prems x obtain y where y: "h x = Inr (Some y)" "r = Some y" "t = u"
        using assms(1) [of x u] by (auto split: sum.splits option.splits)
      then have "\<forall>ys e. emits nx t ys e \<longrightarrow> emits nx s ([] @ x # ys) e" using x by (auto intro: emits.intros)
      then show ?thesis unfolding y(2) option.case using y(1) by (intro exI [of _ "[]"] exI [of _ x]) simp
    qed
  qed
qed simp

lemma map_filter_append [simp]: "List.map_filter g (xs @ ys) = List.map_filter g xs @ List.map_filter g ys"
  by (induction xs) (auto simp: List.map_filter_simps split: option.splits)

lemma map_filter_nones: "list_all (\<lambda>x. g x = None) xs \<Longrightarrow> List.map_filter g xs = []"
  by (induction xs) (auto simp: List.map_filter_simps)

lemma pull_until_emits_inv:
  assumes "\<And>x t. body x t = (h x, t)" "emits (pull_until nx body f) s ys e"
  shows "\<exists>xs. emits nx s xs e \<and> list_all (\<lambda>x. isl (h x) = False) xs \<and> ys = List.map_filter (\<lambda>x. projr (h x)) xs"
  using assms(2)
proof (induction rule: emits.induct)
  case (emits_done s s')
  from pull_until_result [OF assms(1) this] obtain xs
    where xs: "emits nx s xs s'" "list_all (\<lambda>x. h x = Inr None) xs" by auto
  then have "List.map_filter (\<lambda>x. projr (h x)) xs = []" by (intro map_filter_nones) (auto simp: list_all_iff)
  with xs show ?case by (auto simp: list_all_iff)
next
  case (emits_more s y t ys s')
  from pull_until_result [OF assms(1) emits_more.hyps(1)] obtain xs x
    where xs: "\<forall>ys e. emits nx t ys e \<longrightarrow> emits nx s (xs @ x # ys) e"
      "list_all (\<lambda>x. h x = Inr None) xs" "h x = Inr (Some y)" by auto
  from emits_more.IH obtain zs where zs: "emits nx t zs s'" "list_all (\<lambda>x. isl (h x) = False) zs"
    "ys = List.map_filter (\<lambda>x. projr (h x)) zs" by auto
  have "List.map_filter (\<lambda>x. projr (h x)) xs = []" using xs(2) by (intro map_filter_nones) (auto simp: list_all_iff)
  then have "y # ys = List.map_filter (\<lambda>x. projr (h x)) (xs @ x # zs)"
    using xs(3) zs(3) by (simp add: List.map_filter_simps)
  moreover have "emits nx s (xs @ x # zs) s'" using xs(1) zs(1) by blast
  moreover have "list_all (\<lambda>x. isl (h x) = False) (xs @ x # zs)" using xs(2,3) zs(2) by (auto simp: list_all_iff)
  ultimately show ?case by blast
qed

end
