(* ===== verification/Row_Operators.thy ===== *)
theory Row_Operators
  imports Row_Stream Expr_Eval Codec Transaction "HOL-Library.Multiset" "HOL-Library.Product_Lexorder"
begin

text \<open>
  The row-at-a-time operators of \<^verbatim>\<open>engine/executor.rs\<close>: \<^verbatim>\<open>TableScan\<close>, \<^verbatim>\<open>Filter\<close>, \<^verbatim>\<open>Sort\<close>,
  \<^verbatim>\<open>Project\<close>, \<^verbatim>\<open>Limit\<close> and the \<^verbatim>\<open>Counting\<close> wrapper. The state of an operator is its input's
  state paired with its own mutable fields. \<^verbatim>\<open>resolve_correlated\<close>, which runs the subqueries of a
  correlated expression through the whole executor, is an argument of \<^verbatim>\<open>Filter\<close> and \<^verbatim>\<open>Project\<close>,
  consulted only where \<^verbatim>\<open>has_correlated\<close> is set.
\<close>

type_synonym row = "sql_value list"

section \<open>Scanning a table\<close>

record scan_state =
  relation_read_recorded :: bool
  scan_ssi :: ssi_map

definition table_scan_body :: "'c clog_scheme \<Rightarrow> snapshot \<Rightarrow> nat \<Rightarrow> bytes \<times> bytes \<Rightarrow> ('s, row option) op" where
  "table_scan_body c snap column_count kv s =
     (case decode_row (snd kv) column_count of
        Inl e \<Rightarrow> (Inl e, s)
      | Inr r \<Rightarrow> (Inr (if visible c snap (tx_min r) (tx_max r) then Some (row_values r) else None), s))"

definition table_scan_next :: "('s, (bytes \<times> bytes) option) op \<Rightarrow> 'c clog_scheme \<Rightarrow> snapshot \<Rightarrow> nat \<Rightarrow> u32
    \<Rightarrow> nat \<Rightarrow> ('s \<times> scan_state, row option) op" where
  "table_scan_next cur c snap column_count table_root fuel st =
     (let s = fst st;
          own = (if relation_read_recorded (snd st) then snd st
                 else \<lparr>relation_read_recorded = True,
                       scan_ssi = record_relation_read snap table_root (scan_ssi (snd st))\<rparr>) in
      case pull_until cur (table_scan_body c snap column_count) fuel s of (r, s') \<Rightarrow> (r, (s', own)))"

section \<open>Filter, project, limit\<close>

definition filter_body :: "(expr \<Rightarrow> scope \<Rightarrow> row \<Rightarrow> ('s, expr) op) \<Rightarrow> expr \<Rightarrow> scope \<Rightarrow> bool \<Rightarrow> row \<Rightarrow> ('s, row option) op" where
  "filter_body resolve_correlated predicate sc has_correlated row =
     sbind (if has_correlated then resolve_correlated predicate sc row else sret predicate) (\<lambda>p.
     sbind (slift (passes_filter (Some p) sc row)) (\<lambda>keep. sret (if keep then Some row else None)))"

definition filter_next :: "('s, row option) op \<Rightarrow> (expr \<Rightarrow> scope \<Rightarrow> row \<Rightarrow> ('s, expr) op) \<Rightarrow> expr \<Rightarrow> scope \<Rightarrow> bool
    \<Rightarrow> nat \<Rightarrow> ('s, row option) op" where
  "filter_next inp resolve_correlated predicate sc has_correlated fuel =
     pull_until inp (filter_body resolve_correlated predicate sc has_correlated) fuel"

datatype plain_item = PColumn nat | PExpr expr

fun project_items :: "(expr \<Rightarrow> scope \<Rightarrow> row \<Rightarrow> ('s, expr) op) \<Rightarrow> plain_item list \<Rightarrow> scope option \<Rightarrow> bool \<Rightarrow> row
    \<Rightarrow> ('s, row) op" where
  "project_items rc [] sc hc row = sret []"
| "project_items rc (PColumn i # items) sc hc row =
     sbind (slift (index row i)) (\<lambda>v. sbind (project_items rc items sc hc row) (\<lambda>vs. sret (v # vs)))"
| "project_items rc (PExpr e # items) sc hc row =
     (case sc of
        None \<Rightarrow> slift (Inl Panicked)
      | Some scope \<Rightarrow>
          sbind (if hc then rc e scope row else sret e) (\<lambda>e'.
          sbind (slift (eval e' (Some \<lparr>rc_scope = scope, rc_values = row\<rparr>))) (\<lambda>v.
          sbind (project_items rc items sc hc row) (\<lambda>vs. sret (v # vs)))))"

definition project_next :: "('s, row option) op \<Rightarrow> (expr \<Rightarrow> scope \<Rightarrow> row \<Rightarrow> ('s, expr) op) \<Rightarrow> plain_item list
    \<Rightarrow> scope option \<Rightarrow> bool \<Rightarrow> ('s, row option) op" where
  "project_next inp rc items sc hc = sbind inp (\<lambda>r.
     case r of None \<Rightarrow> sret None
     | Some row \<Rightarrow> sbind (project_items rc items sc hc row) (\<lambda>out. sret (Some out)))"

record limit_state =
  lim_offset :: nat
  lim_remaining :: nat

text \<open>The loop that skips the offset; \<open>False\<close> when the inp ended first.\<close>

fun limit_skip :: "('s, 'a option) op \<Rightarrow> nat \<Rightarrow> nat \<Rightarrow> 's \<Rightarrow> bool result \<times> 's \<times> limit_state" where
  "limit_skip inp 0 remaining s = (Inr True, s, \<lparr>lim_offset = 0, lim_remaining = remaining\<rparr>)"
| "limit_skip inp (Suc k) remaining s =
     (case inp s of
        (Inl e, t) \<Rightarrow> (Inl e, t, \<lparr>lim_offset = Suc k, lim_remaining = remaining\<rparr>)
      | (Inr None, t) \<Rightarrow> (Inr False, t, \<lparr>lim_offset = 0, lim_remaining = 0\<rparr>)
      | (Inr (Some _), t) \<Rightarrow> limit_skip inp k remaining t)"

definition limit_next :: "('s, 'a option) op \<Rightarrow> ('s \<times> limit_state, 'a option) op" where
  "limit_next inp st =
     (case limit_skip inp (lim_offset (snd st)) (lim_remaining (snd st)) (fst st) of
        (Inl e, t, l) \<Rightarrow> (Inl e, (t, l))
      | (Inr False, t, l) \<Rightarrow> (Inr None, (t, l))
      | (Inr True, t, l) \<Rightarrow>
          if lim_remaining l = 0 then (Inr None, (t, l))
          else (case inp t of
                  (Inl e, u) \<Rightarrow> (Inl e, (u, l))
                | (Inr None, u) \<Rightarrow> (Inr None, (u, l))
                | (Inr (Some x), u) \<Rightarrow> (Inr (Some x), (u, l\<lparr>lim_remaining := lim_remaining l - 1\<rparr>))))"

definition counting_next :: "('s, 'a option) op \<Rightarrow> ('s \<times> nat, 'a option) op" where
  "counting_next inner st =
     (case inner (fst st) of
        (Inl e, t) \<Rightarrow> (Inl e, (t, snd st))
      | (Inr None, t) \<Rightarrow> (Inr None, (t, snd st))
      | (Inr (Some x), t) \<Rightarrow> (Inr (Some x), (t, snd st + 1)))"

section \<open>Sorting\<close>

definition reverse :: "ordering \<Rightarrow> ordering" where
  "reverse c = (case c of Less \<Rightarrow> Greater | Equal \<Rightarrow> Equal | Greater \<Rightarrow> Less)"

text \<open>\<^verbatim>\<open>f64::total_cmp\<close>: the bits as a signed integer, with the magnitude bits of a negative flipped.\<close>

definition total_key :: "u64 \<Rightarrow> int" where
  "total_key w = (if f64_sign w then - (uint w mod 2 ^ 63) - 1 else uint w)"

definition total_cmp :: "u64 \<Rightarrow> u64 \<Rightarrow> ordering" where
  "total_cmp a b = cmp (total_key a) (total_key b)"

fun value_rank :: "sql_value \<Rightarrow> nat" where
  "value_rank VNull = 0"
| "value_rank (VBool _) = 1"
| "value_rank (VInt _) = 2"
| "value_rank (VReal _) = 2"
| "value_rank (VText _) = 3"

fun order_values :: "sql_value \<Rightarrow> sql_value \<Rightarrow> ordering" where
  "order_values VNull VNull = Equal"
| "order_values VNull _ = Less"
| "order_values _ VNull = Greater"
| "order_values (VInt x) (VInt y) = cmp (sint x) (sint y)"
| "order_values (VReal x) (VReal y) = total_cmp x y"
| "order_values (VInt x) (VReal y) = total_cmp (i64_as_f64 x) y"
| "order_values (VReal x) (VInt y) = total_cmp x (i64_as_f64 y)"
| "order_values (VText x) (VText y) = cmp x y"
| "order_values (VBool x) (VBool y) = cmp x y"
| "order_values a b = cmp (value_rank a) (value_rank b)"

fun compare_rows :: "(nat \<times> bool) list \<Rightarrow> row \<Rightarrow> row \<Rightarrow> ordering" where
  "compare_rows [] a b = Equal"
| "compare_rows ((column, descending) # keys) a b =
     (let c = order_values (a ! column) (b ! column);
          c' = (if descending then reverse c else c) in
      if c' \<noteq> Equal then c' else compare_rows keys a b)"

text \<open>
  \<^verbatim>\<open>slice::sort_by\<close> is a stable sort: each row goes before the rows it does not exceed.
  The key columns come from \<^verbatim>\<open>Scope::resolve\<close>, so the comparator's indices are in range of every row.
\<close>

fun insert_row :: "(nat \<times> bool) list \<Rightarrow> row \<Rightarrow> row list \<Rightarrow> row list" where
  "insert_row keys x [] = [x]"
| "insert_row keys x (y # ys) = (if compare_rows keys x y \<noteq> Greater then x # y # ys else y # insert_row keys x ys)"

definition sort_rows :: "row list \<Rightarrow> (nat \<times> bool) list \<Rightarrow> row list" where
  "sort_rows rows keys = foldr (insert_row keys) rows []"

record sort_state =
  buffered :: "row list option"

definition sort_next :: "('s, row option) op \<Rightarrow> (nat \<times> bool) list \<Rightarrow> nat \<Rightarrow> ('s \<times> sort_state, row option) op" where
  "sort_next inp keys fuel st =
     (let hand_out = (\<lambda>s rows. (case rows of
            [] \<Rightarrow> (Inr None, (s, \<lparr>buffered = Some []\<rparr>))
          | r # rs \<Rightarrow> (Inr (Some r), (s, \<lparr>buffered = Some rs\<rparr>)))) in
      case buffered (snd st) of
        Some rows \<Rightarrow> hand_out (fst st) rows
      | None \<Rightarrow>
          (case drain inp fuel (fst st) of
             (Inl e, t) \<Rightarrow> (Inl e, (t, snd st))
           | (Inr rows, t) \<Rightarrow> hand_out t (sort_rows rows keys)))"

definition resolve_order_keys :: "scope \<Rightarrow> order_key list \<Rightarrow> (nat \<times> bool) list result" where
  "resolve_order_keys sc ks = rmap (\<lambda>k. rbind (resolve sc (ord_column k)) (\<lambda>i. Inr (i, ord_descending k))) ks"

section \<open>What the operators emit\<close>

lemma map_filter_if: "List.map_filter (\<lambda>x. if P x then Some (f x) else None) xs = map f (filter P xs)"
  by (induction xs) (auto simp: List.map_filter_simps)

text \<open>The rows of a table a snapshot sees, from the entries of its tree.\<close>

definition visible_rows :: "'c clog_scheme \<Rightarrow> snapshot \<Rightarrow> row_record list \<Rightarrow> row list" where
  "visible_rows c snap rs = map row_values (filter (\<lambda>r. visible c snap (tx_min r) (tx_max r)) rs)"

definition decoded :: "nat \<Rightarrow> bytes \<times> bytes \<Rightarrow> row_record" where
  "decoded n kv = projr (decode_row (snd kv) n)"

lemma emits_pair:
  "emits nx s xs e \<Longrightarrow> (\<And>t r t'. nx t = (r, t') \<Longrightarrow> nx' (t, k) = (r, (t', k))) \<Longrightarrow> emits nx' (s, k) xs (e, k)"
  by (induction rule: emits.induct) (auto intro: emits.intros)

lemma table_scan_emits:
  assumes "emits cur s kvs e" "\<And>kv. kv \<in> set kvs \<Longrightarrow> decode_row (snd kv) n = Inr (decoded n kv)"
    and "length kvs < fuel"
  shows "\<exists>own. emits (table_scan_next cur c snap n root fuel) (s, st0)
    (visible_rows c snap (map (decoded n) kvs)) (e, own)"
proof -
  let ?body = "table_scan_body c snap n"
  let ?g = "\<lambda>kv. if visible c snap (tx_min (decoded n kv)) (tx_max (decoded n kv))
    then Some (row_values (decoded n kv)) else None"
  let ?nx = "table_scan_next cur c snap n root fuel"
  let ?own = "if relation_read_recorded st0 then st0
    else \<lparr>relation_read_recorded = True, scan_ssi = record_relation_read snap root (scan_ssi st0)\<rparr>"
  have "emits (pull_until cur ?body fuel) s (List.map_filter ?g kvs) e"
    using assms(3) by (intro pull_until_emits [OF assms(1)]) (simp_all add: table_scan_body_def assms(2))
  then have "emits ?nx (s, ?own) (List.map_filter ?g kvs) (e, ?own)"
    by (rule emits_pair) (auto simp: table_scan_next_def Let_def)
  moreover have "?nx (s, st0) = ?nx (s, ?own)"
    by (simp add: table_scan_next_def Let_def)
  ultimately have "emits ?nx (s, st0) (List.map_filter ?g kvs) (e, ?own)"
    by (rule emits_same [rotated])
  then show ?thesis
    by (auto simp: map_filter_if visible_rows_def filter_map comp_def)
qed

lemma filter_emits:
  assumes "emits inp s rows e" "\<And>r. r \<in> set rows \<Longrightarrow> passes_filter (Some p) sc r = Inr (P r)" "length rows < fuel"
  shows "emits (filter_next inp rc p sc False fuel) s (filter P rows) e"
  using pull_until_emits [OF assms(1) _ assms(3), of "filter_body rc p sc False" "\<lambda>r. if P r then Some r else None"]
    assms(2) by (simp add: filter_next_def filter_body_def map_filter_if)

text \<open>The row a projection makes of a row.\<close>

fun project_row :: "plain_item list \<Rightarrow> scope option \<Rightarrow> row \<Rightarrow> row result" where
  "project_row [] sc row = Inr []"
| "project_row (PColumn i # items) sc row =
     rbind (index row i) (\<lambda>v. rbind (project_row items sc row) (\<lambda>vs. Inr (v # vs)))"
| "project_row (PExpr e # items) sc row =
     (case sc of None \<Rightarrow> Inl Panicked
      | Some scope \<Rightarrow> rbind (eval e (Some \<lparr>rc_scope = scope, rc_values = row\<rparr>)) (\<lambda>v.
          rbind (project_row items sc row) (\<lambda>vs. Inr (v # vs))))"

lemma sbind_slift: "sbind (slift r) f s = (case r of Inl e \<Rightarrow> (Inl e, s) | Inr x \<Rightarrow> f x s)"
  by (cases r) auto

lemma project_items_row: "project_items rc items sc False row s = (project_row items sc row, s)"
proof (induction items)
  case (Cons i items)
  then show ?case
    by (cases i) (auto simp: sbind_slift sbind_def rbind_def split: option.splits sum.splits)
qed simp

lemma project_emits:
  assumes "emits inp s rows e" "\<And>r. r \<in> set rows \<Longrightarrow> project_row items sc r = Inr (g r)"
  shows "emits (project_next inp rc items sc False) s (map g rows) e"
  using assms
proof (induction rule: emits.induct)
  case (emits_done s s')
  then show ?case by (auto simp: project_next_def sbind_def emits_Nil_iff)
next
  case (emits_more s x t xs s')
  then have "project_next inp rc items sc False s = (Inr (Some (g x)), t)"
    by (simp add: project_next_def sbind_def project_items_row)
  with emits_more show ?case by (simp add: emits.intros(2))
qed

lemma counting_emits: "emits inner s xs e \<Longrightarrow> emits (counting_next inner) (s, n) xs (e, n + length xs)"
proof (induction arbitrary: n rule: emits.induct)
  case (emits_more s x t xs s')
  from emits_more.IH [of "n + 1"] emits_more.hyps(1) show ?case
    by (simp add: counting_next_def emits.intros(2))
qed (simp add: counting_next_def emits_Nil_iff)

section \<open>Limit\<close>

lemma limit_skip_emits:
  assumes "emits inp s xs e"
  shows "case limit_skip inp k m s of
      (Inl err, _, _) \<Rightarrow> False
    | (Inr False, t, l) \<Rightarrow> t = e \<and> length xs < k \<and> l = \<lparr>lim_offset = 0, lim_remaining = 0\<rparr>
    | (Inr True, t, l) \<Rightarrow> emits inp t (drop k xs) e \<and> l = \<lparr>lim_offset = 0, lim_remaining = m\<rparr> \<and> k \<le> length xs"
  using assms
proof (induction k arbitrary: s xs)
  case (Suc k)
  show ?case
  proof (cases xs)
    case Nil
    then show ?thesis using Suc.prems by (auto simp: emits_Nil_iff)
  next
    case (Cons y ys)
    then obtain t where t: "inp s = (Inr (Some y), t)" "emits inp t ys e"
      using Suc.prems by (auto simp: emits_Cons_iff)
    from Suc.IH [OF t(2)] show ?thesis
      by (simp add: t(1) Cons split: prod.splits sum.splits bool.splits)
  qed
qed simp

lemma limit_no_offset_emits:
  assumes "emits inp s xs e"
  shows "\<exists>st. emits (limit_next inp) (s, \<lparr>lim_offset = 0, lim_remaining = m\<rparr>) (take m xs) st"
  using assms
proof (induction arbitrary: m rule: emits.induct)
  case (emits_done s s')
  then show ?case by (cases m) (auto simp: limit_next_def emits_Nil_iff)
next
  case (emits_more s x t xs s')
  then show ?case by (cases m) (auto simp: limit_next_def emits_Nil_iff emits_Cons_iff)
qed

lemma limit_emits:
  assumes "emits inp s xs e"
  shows "\<exists>st. emits (limit_next inp) (s, \<lparr>lim_offset = k, lim_remaining = m\<rparr>) (take m (drop k xs)) st"
proof -
  obtain r t l where sk: "limit_skip inp k m s = (r, t, l)" by (metis prod_cases3)
  note L = limit_skip_emits [OF assms, of k m, unfolded sk]
  show ?thesis
  proof (cases "r = Inr True")
    case True
    then have t: "emits inp t (drop k xs) e" "l = \<lparr>lim_offset = 0, lim_remaining = m\<rparr>" using L by auto
    have "limit_next inp (s, \<lparr>lim_offset = k, lim_remaining = m\<rparr>) = limit_next inp (t, l)"
      using True t(2) by (simp add: limit_next_def sk)
    with limit_no_offset_emits [OF t(1), of m] t(2) show ?thesis by (metis emits_same)
  next
    case False
    then have "r = Inr False" "length xs < k" using L by (auto split: sum.splits bool.splits)
    then show ?thesis by (auto simp: limit_next_def sk emits_Nil_iff)
  qed
qed

section \<open>Sort\<close>

text \<open>
  \<^verbatim>\<open>order_values\<close> is a total order on the values of one type with NULL first; \<open>order_pos\<close> is the
  position it compares.
\<close>

fun order_pos :: "sql_value \<Rightarrow> nat \<times> int \<times> bytes" where
  "order_pos VNull = (0, 0, [])"
| "order_pos (VInt n) = (1, sint n, [])"
| "order_pos (VReal r) = (1, total_key r, [])"
| "order_pos (VBool b) = (1, of_bool b, [])"
| "order_pos (VText s) = (1, 0, s)"

lemma order_values_pos: "has_type a t \<Longrightarrow> has_type b t \<Longrightarrow> order_values a b = cmp (order_pos a) (order_pos b)"
  by (cases a; cases b) (auto simp: cmp_def total_cmp_def less_prod_def')

text \<open>The rows an ORDER BY compares: every key column is in range and of one type throughout.\<close>

definition sortable :: "(nat \<times> bool) list \<Rightarrow> type_tag list \<Rightarrow> row \<Rightarrow> bool" where
  "sortable keys ts r \<longleftrightarrow> list_all2 has_type r ts \<and> list_all (\<lambda>(k, _). k < length ts) keys"

definition row_le :: "(nat \<times> bool) list \<Rightarrow> row \<Rightarrow> row \<Rightarrow> bool" where
  "row_le keys a b \<longleftrightarrow> compare_rows keys a b \<noteq> Greater"

lemma row_le_Nil [simp]: "row_le [] a b"
  by (simp add: row_le_def)

lemma row_le_Cons:
  assumes "sortable ((k, d) # keys) ts a" "sortable ((k, d) # keys) ts b"
  shows "row_le ((k, d) # keys) a b \<longleftrightarrow>
    (let p = order_pos (a ! k); q = order_pos (b ! k) in (if d then q < p else p < q) \<or> p = q \<and> row_le keys a b)"
proof -
  have "has_type (a ! k) (ts ! k)" "has_type (b ! k) (ts ! k)"
    using assms by (auto simp: sortable_def list_all2_conv_all_nth)
  then show ?thesis
    by (auto simp: row_le_def Let_def order_values_pos reverse_def cmp_def)
qed

lemma sortable_Cons: "sortable (x # keys) ts a \<Longrightarrow> sortable keys ts a"
  by (auto simp: sortable_def)

lemma row_le_total: "sortable keys ts a \<Longrightarrow> sortable keys ts b \<Longrightarrow> row_le keys a b \<or> row_le keys b a"
proof (induction keys)
  case (Cons x keys)
  then show ?case using sortable_Cons by (cases x) (auto simp: row_le_Cons Let_def)
qed simp

lemma row_le_trans:
  "sortable keys ts a \<Longrightarrow> sortable keys ts b \<Longrightarrow> sortable keys ts c \<Longrightarrow>
   row_le keys a b \<Longrightarrow> row_le keys b c \<Longrightarrow> row_le keys a c"
proof (induction keys)
  case (Cons x keys)
  then show ?case
    using sortable_Cons by (cases x) (auto simp: row_le_Cons Let_def split: if_splits)
qed simp

lemma insert_row_le: "insert_row keys x ys =
    (case ys of [] \<Rightarrow> [x] | y # zs \<Rightarrow> if row_le keys x y then x # y # zs else y # insert_row keys x zs)"
  by (cases ys) (auto simp: row_le_def)

lemma mset_insert_row [simp]: "mset (insert_row keys x ys) = add_mset x (mset ys)"
  by (induction ys) auto

lemma mset_sort_rows [simp]: "mset (sort_rows rows keys) = mset rows"
  by (induction rows) (auto simp: sort_rows_def)

lemma set_insert_row [simp]: "set (insert_row keys x ys) = insert x (set ys)"
  by (induction ys) auto

lemma sorted_insert_row:
  "\<forall>r \<in> set (x # ys). sortable keys ts r \<Longrightarrow> sorted_wrt (row_le keys) ys \<Longrightarrow>
   sorted_wrt (row_le keys) (insert_row keys x ys)"
proof (induction ys)
  case (Cons y ys)
  show ?case
  proof (cases "row_le keys x y")
    case True
    then show ?thesis using Cons.prems row_le_trans [of keys ts x y]
      by (auto simp: row_le_def [symmetric])
  next
    case False
    then have "row_le keys y x" using row_le_total [of keys ts x y] Cons.prems(1) by auto
    with False Cons show ?thesis by (auto simp: row_le_def [symmetric])
  qed
qed simp

lemma set_sort_rows [simp]: "set (sort_rows rows keys) = set rows"
  by (metis mset_sort_rows set_mset_mset)

lemma sorted_sort_rows:
  "\<forall>r \<in> set rows. sortable keys ts r \<Longrightarrow> sorted_wrt (row_le keys) (sort_rows rows keys)"
proof (induction rows)
  case (Cons x rows)
  then have "sorted_wrt (row_le keys) (insert_row keys x (sort_rows rows keys))"
    by (intro sorted_insert_row [where ts = ts]) auto
  then show ?case by (simp add: sort_rows_def)
qed (simp add: sort_rows_def)

definition row_ties :: "(nat \<times> bool) list \<Rightarrow> row \<Rightarrow> row \<Rightarrow> bool" where
  "row_ties keys a b \<longleftrightarrow> row_le keys a b \<and> row_le keys b a"

lemma filter_insert_row:
  "\<forall>r \<in> set (z # x # ys). sortable keys ts r \<Longrightarrow>
   filter (row_ties keys z) (insert_row keys x ys) = filter (row_ties keys z) (x # ys)"
proof (induction ys)
  case (Cons y ys)
  have "\<not> (row_ties keys z x \<and> row_ties keys z y)" if "\<not> row_le keys x y"
    using that row_le_trans [of keys ts x z y] Cons.prems by (auto simp: row_ties_def)
  then show ?case using Cons by (auto simp: row_le_def [symmetric])
qed simp

lemma stable_sort_rows:
  "\<forall>r \<in> set (z # rows). sortable keys ts r \<Longrightarrow>
   filter (row_ties keys z) (sort_rows rows keys) = filter (row_ties keys z) rows"
proof (induction rows)
  case (Cons x rows)
  then have "filter (row_ties keys z) (insert_row keys x (sort_rows rows keys)) =
      filter (row_ties keys z) (x # sort_rows rows keys)"
    by (intro filter_insert_row [where ts = ts]) auto
  with Cons show ?case by (simp add: sort_rows_def)
qed (simp add: sort_rows_def)

lemma sort_handing_out:
  "emits (sort_next inp keys fuel) (s, \<lparr>buffered = Some rows\<rparr>) rows (s, \<lparr>buffered = Some []\<rparr>)"
  by (induction rows) (auto simp: sort_next_def emits_Nil_iff emits_Cons_iff)

lemma sort_emits:
  assumes "emits inp s rows e" "length rows < fuel"
  shows "emits (sort_next inp keys fuel) (s, \<lparr>buffered = None\<rparr>) (sort_rows rows keys) (e, \<lparr>buffered = Some []\<rparr>)"
proof (rule emits_same [OF _ sort_handing_out])
  show "sort_next inp keys fuel (s, \<lparr>buffered = None\<rparr>) =
      sort_next inp keys fuel (e, \<lparr>buffered = Some (sort_rows rows keys)\<rparr>)"
    by (simp add: sort_next_def drain_emits [OF assms])
qed

section \<open>Queries\<close>

text \<open>An ORDER BY hands out its input's rows, all of them and no others, sorted by the keys with
  NULL first (last where descending), and rows that tie on every key keep their input order.\<close>

theorem order_by_sorts:
  assumes "emits inp s rows e" "length rows < fuel" "\<forall>r \<in> set rows. sortable keys ts r"
  shows "\<exists>out st. emits (sort_next inp keys fuel) (s, \<lparr>buffered = None\<rparr>) out st \<and>
    mset out = mset rows \<and> sorted_wrt (\<lambda>a b. compare_rows keys a b \<noteq> Greater) out \<and>
    (\<forall>z \<in> set rows. filter (row_ties keys z) out = filter (row_ties keys z) rows)"
proof (intro exI conjI)
  show "emits (sort_next inp keys fuel) (s, \<lparr>buffered = None\<rparr>) (sort_rows rows keys) (e, \<lparr>buffered = Some []\<rparr>)"
    by (rule sort_emits [OF assms(1,2)])
  show "sorted_wrt (\<lambda>a b. compare_rows keys a b \<noteq> Greater) (sort_rows rows keys)"
    using sorted_sort_rows [OF assms(3)] by (simp add: row_le_def [abs_def])
  show "\<forall>z \<in> set rows. filter (row_ties keys z) (sort_rows rows keys) = filter (row_ties keys z) rows"
    using assms(3) by (intro ballI stable_sort_rows [where ts = ts]) auto
qed simp

text \<open>C16: A SELECT over one table: the tree scan, filter, sort, project and limit, run to the end,
  returns the window \<open>[offset, offset + limit)\<close> of the projected, sorted rows that the snapshot sees
  and the WHERE clause accepts, provided every stored row decodes and no expression fails on it.\<close>

theorem select_pipeline_rows:
  assumes "emits cur s kvs e" "length kvs < fuel"
    and "\<forall>kv \<in> set kvs. decode_row (snd kv) n = Inr (decoded n kv)"
    and "\<forall>r \<in> set (visible_rows c snap (map (decoded n) kvs)).
      passes_filter (Some p) sc r = Inr (P r) \<and> project_row items (Some sc) r = Inr (g r)"
  shows "\<exists>st. emits
      (limit_next (project_next (sort_next (filter_next (table_scan_next cur c snap n root fuel)
         rc p sc False fuel) keys fuel) rc' items (Some sc) False))
      (((s, st0), \<lparr>buffered = None\<rparr>), \<lparr>lim_offset = k, lim_remaining = m\<rparr>)
      (take m (drop k (map g (sort_rows (filter P (visible_rows c snap (map (decoded n) kvs))) keys)))) st"
proof -
  let ?rows = "visible_rows c snap (map (decoded n) kvs)"
  have len: "length ?rows < fuel" "length (filter P ?rows) < fuel"
    using assms(2) by (auto simp: visible_rows_def intro: le_less_trans [OF length_filter_le] le_less_trans)
  obtain own where "emits (table_scan_next cur c snap n root fuel) (s, st0) ?rows (e, own)"
    using table_scan_emits [OF assms(1) _ assms(2)] assms(3) by blast
  from filter_emits [OF this _ len(1)] have
    "emits (filter_next (table_scan_next cur c snap n root fuel) rc p sc False fuel) (s, st0) (filter P ?rows) (e, own)"
    using assms(4) by blast
  from sort_emits [OF this len(2)] have
    "emits (sort_next (filter_next (table_scan_next cur c snap n root fuel) rc p sc False fuel) keys fuel)
       ((s, st0), \<lparr>buffered = None\<rparr>) (sort_rows (filter P ?rows) keys) ((e, own), \<lparr>buffered = Some []\<rparr>)" .
  from project_emits [OF this, of items "Some sc" g rc'] assms(4)
  show ?thesis by (intro limit_emits) auto
qed

section \<open>Witnesses\<close>

text \<open>A cursor over a list of entries.\<close>

fun list_cursor :: "('a list, 'a option) op" where
  "list_cursor [] = (Inr None, [])"
| "list_cursor (x # xs) = (Inr (Some x), xs)"

lemma list_cursor_emits: "emits list_cursor xs xs []"
  by (induction xs) (auto simp: emits_Nil_iff emits_Cons_iff)

theorem order_by_sorts_witness:
  "\<exists>out st. emits (sort_next list_cursor [(0, True)] 4)
     ([[VInt 1, VInt 0], [VNull, VInt 1], [VInt 5, VInt 2]], \<lparr>buffered = None\<rparr>) out st \<and>
   mset out = mset [[VInt 1, VInt 0], [VNull, VInt 1], [VInt 5, VInt 2]] \<and>
   sorted_wrt (\<lambda>a b. compare_rows [(0, True)] a b \<noteq> Greater) out"
  using order_by_sorts [OF list_cursor_emits [of "[[VInt 1, VInt 0], [VNull, VInt 1], [VInt 5, VInt 2]]"],
      of 4 "[(0, True)]" "[TInt, TInt]"]
  by (fastforce simp: sortable_def)

definition one_row :: "(bytes \<times> bytes) list" where
  "one_row = [(u64_be 1, encode_row 0 0 [VInt 5])]"

lemma one_row_decodes:
  "decode_row (encode_row 0 0 [VInt 5]) 1 = Inr \<lparr>tx_min = 0, tx_max = 0, row_values = [VInt 5]\<rparr>"
  using decode_encode_row [of "[VInt 5]" 0 0] by simp

theorem select_pipeline_rows_witness:
  "\<exists>st. emits
      (limit_next (project_next (sort_next (filter_next
         (table_scan_next list_cursor (tx_clog start_state) (take_snapshot None start_state) 1 7 2)
         (\<lambda>e _ _. sret e) (EBool True) [] False 2) [(0, False)] 2) (\<lambda>e _ _. sret e) [PColumn 0] (Some []) False))
      (((one_row, \<lparr>relation_read_recorded = False, scan_ssi = []\<rparr>), \<lparr>buffered = None\<rparr>),
       \<lparr>lim_offset = 0, lim_remaining = 10\<rparr>)
      [[VInt 5]] st"
proof -
  let ?c = "tx_clog start_state" and ?snap = "take_snapshot None start_state"
  have d: "decoded 1 (u64_be 1, encode_row 0 0 [VInt 5]) = \<lparr>tx_min = 0, tx_max = 0, row_values = [VInt 5]\<rparr>"
    using one_row_decodes by (simp add: decoded_def)
  have v: "visible_rows ?c ?snap (map (decoded 1) one_row) = [[VInt 5]]"
    by (simp add: one_row_def d [simplified] visible_rows_def visible_def)
  show ?thesis
    using select_pipeline_rows [OF list_cursor_emits [of one_row], of 2 1 ?c ?snap "EBool True" "[]" "\<lambda>_. True"
        "[PColumn 0]" "\<lambda>r. r" 7 "\<lambda>e _ _. sret e" "[(0, False)]" "\<lambda>e _ _. sret e"
        "\<lparr>relation_read_recorded = False, scan_ssi = []\<rparr>" 0 10]
    unfolding v by (simp add: one_row_def d [simplified] one_row_decodes [simplified] passes_filter_def sort_rows_def)
qed

end
