(* ===== verification/Batch_Operators.thy ===== *)
theory Batch_Operators
  imports Eval_Batch Row_Operators
begin

text \<open>
  The vectorised operators of \<^verbatim>\<open>engine/executor.rs\<close>: \<^verbatim>\<open>BatchScan\<close>, \<^verbatim>\<open>BatchFilter\<close>,
  \<^verbatim>\<open>BatchProject\<close>, \<^verbatim>\<open>BatchLimit\<close> and the \<^verbatim>\<open>BatchToRow\<close> adapter, and the theorem that a query
  returns the same rows whether it runs on them or on the row-at-a-time operators. The lookup of a
  row in the table's tree, which an index scan makes for every entry, is an argument of the scan.
\<close>

section \<open>Scan\<close>

record batch_scan_state =
  bs_recorded :: bool
  bs_ssi :: ssi_map
  seen_rowids :: "bytes set"

record scan_config =
  cfg_types :: "type_tag list"
  cfg_columns :: nat
  cfg_root :: u32
  cfg_snap :: snapshot

text \<open>One entry of the cursor, pushed onto the batch or skipped.\<close>

definition batch_scan_entry :: "(bytes \<Rightarrow> ('s, bytes option) op) option \<Rightarrow> 'c clog_scheme \<Rightarrow> scan_config
    \<Rightarrow> bytes \<times> bytes \<Rightarrow> column_batch \<Rightarrow> ('s \<times> batch_scan_state, column_batch) op" where
  "batch_scan_entry table_for_index c cfg kv b st =
     (case table_for_index of
        None \<Rightarrow>
          (case decode_row (snd kv) (cfg_columns cfg) of
             Inl e \<Rightarrow> (Inl e, st)
           | Inr r \<Rightarrow>
               if visible c (cfg_snap cfg) (tx_min r) (tx_max r)
               then (case push_row (row_values r) b of (Inl e, _) \<Rightarrow> (Inl e, st) | (Inr _, b') \<Rightarrow> (Inr b', st))
               else (Inr b, st))
      | Some search \<Rightarrow>
          if length (fst kv) < 8 then (Inl (Fail Corruption), st)
          else
            let rowid_key = drop (length (fst kv) - 8) (fst kv) in
            if rowid_key \<in> seen_rowids (snd st) then (Inr b, st)
            else
              let own = (snd st)\<lparr>seen_rowids := insert rowid_key (seen_rowids (snd st))\<rparr> in
              case search rowid_key (fst st) of
                (Inl e, s) \<Rightarrow> (Inl e, (s, own))
              | (Inr None, s) \<Rightarrow> (Inl (Fail Corruption), (s, own))
              | (Inr (Some row_bytes), s) \<Rightarrow>
                  (case decode_row row_bytes (cfg_columns cfg) of
                     Inl e \<Rightarrow> (Inl e, (s, own))
                   | Inr r \<Rightarrow>
                       if visible c (cfg_snap cfg) (tx_min r) (tx_max r) then
                         let own = own\<lparr>bs_ssi := record_read (cfg_snap cfg) (cfg_root cfg) rowid_key
                               (if tx_max r \<noteq> 0 then Some (tx_max r) else None) (bs_ssi own)\<rparr> in
                         (case push_row (row_values r) b of (Inl e, _) \<Rightarrow> (Inl e, (s, own)) | (Inr _, b') \<Rightarrow> (Inr b', (s, own)))
                       else (Inr b, (s, own))))"

fun batch_scan_loop :: "('s, (bytes \<times> bytes) option) op \<Rightarrow> (bytes \<Rightarrow> ('s, bytes option) op) option \<Rightarrow> 'c clog_scheme
    \<Rightarrow> scan_config \<Rightarrow> nat \<Rightarrow> column_batch \<Rightarrow> ('s \<times> batch_scan_state, column_batch) op" where
  "batch_scan_loop cur tbl c cfg 0 b st = (Inl OutOfFuel, st)"
| "batch_scan_loop cur tbl c cfg (Suc f) b st =
     (if BATCH_SIZE \<le> cb_rows b then (Inr b, st)
      else case cur (fst st) of
        (Inl e, s) \<Rightarrow> (Inl e, (s, snd st))
      | (Inr None, s) \<Rightarrow> (Inr b, (s, snd st))
      | (Inr (Some kv), s) \<Rightarrow>
          (case batch_scan_entry tbl c cfg kv b (s, snd st) of
             (Inl e, t) \<Rightarrow> (Inl e, t)
           | (Inr b', t) \<Rightarrow> batch_scan_loop cur tbl c cfg f b' t))"

definition batch_scan_next :: "('s, (bytes \<times> bytes) option) op \<Rightarrow> (bytes \<Rightarrow> ('s, bytes option) op) option
    \<Rightarrow> 'c clog_scheme \<Rightarrow> scan_config \<Rightarrow> nat \<Rightarrow> ('s \<times> batch_scan_state, column_batch option) op" where
  "batch_scan_next cur tbl c cfg fuel st =
     (let own = (if tbl = None \<and> \<not> bs_recorded (snd st)
                 then (snd st)\<lparr>bs_recorded := True,
                               bs_ssi := record_relation_read (cfg_snap cfg) (cfg_root cfg) (bs_ssi (snd st))\<rparr>
                 else snd st) in
      case batch_scan_loop cur tbl c cfg fuel (with_types (cfg_types cfg)) (fst st, own) of
        (Inl e, t) \<Rightarrow> (Inl e, t)
      | (Inr b, t) \<Rightarrow> (Inr (if cb_rows b = 0 then None else Some b), t))"

section \<open>Filter and project\<close>

definition batch_filter_body :: "expr \<Rightarrow> scope \<Rightarrow> column_batch \<Rightarrow> ('s, column_batch option) op" where
  "batch_filter_body predicate sc b = slift
     (rbind (eval_batch predicate b sc) (\<lambda>mask. rbind (build_selection b mask) (\<lambda>sel.
        Inr (if sel \<noteq> []
             then Some \<lparr>cb_columns = cb_columns b, cb_rows = length sel, cb_selection = Some sel\<rparr>
             else None))))"

definition batch_filter_next :: "('s, column_batch option) op \<Rightarrow> expr \<Rightarrow> scope \<Rightarrow> nat \<Rightarrow> ('s, column_batch option) op" where
  "batch_filter_next inp predicate sc fuel = pull_until inp (batch_filter_body predicate sc) fuel"

fun project_columns :: "plain_item list \<Rightarrow> scope option \<Rightarrow> column_batch \<Rightarrow> batch_column list result" where
  "project_columns [] sc b = Inr []"
| "project_columns (PColumn i # items) sc b =
     rbind (index (cb_columns b) i) (\<lambda>c. rbind (materialise_column c (cb_selection b)) (\<lambda>c'.
       rbind (project_columns items sc b) (\<lambda>cs. Inr (c' # cs))))"
| "project_columns (PExpr e # items) sc b =
     (case sc of None \<Rightarrow> Inl Panicked
      | Some scope \<Rightarrow> rbind (eval_batch e b scope) (\<lambda>c. rbind (project_columns items sc b) (\<lambda>cs. Inr (c # cs))))"

definition batch_project_next :: "('s, column_batch option) op \<Rightarrow> plain_item list \<Rightarrow> scope option
    \<Rightarrow> ('s, column_batch option) op" where
  "batch_project_next inp items sc = sbind inp (\<lambda>r. case r of
       None \<Rightarrow> sret None
     | Some b \<Rightarrow> sbind (slift (project_columns items sc b)) (\<lambda>cs.
         sret (Some \<lparr>cb_columns = cs, cb_rows = cb_rows b, cb_selection = None\<rparr>)))"

section \<open>Limit\<close>

text \<open>The two calls pass \<^verbatim>\<open>skip..\<close> and \<^verbatim>\<open>..take\<close>: a start and an end within the batch.\<close>

definition slice_logical_rows :: "column_batch \<Rightarrow> nat \<Rightarrow> nat \<Rightarrow> column_batch result" where
  "slice_logical_rows b start end_row =
     (if end_row < start then Inl Panicked
      else rbind (case cb_selection b of
          Some sel \<Rightarrow> slice sel start end_row
        | None \<Rightarrow> Inr (map of_nat [start..<end_row])) (\<lambda>sel.
        Inr \<lparr>cb_columns = cb_columns b, cb_rows = end_row - start, cb_selection = Some sel\<rparr>))"

definition apply_remaining :: "column_batch \<Rightarrow> nat \<Rightarrow> (column_batch \<times> nat) result" where
  "apply_remaining b remaining =
     (if cb_rows b \<le> remaining then Inr (b, remaining - cb_rows b)
      else rbind (slice_logical_rows b 0 remaining) (\<lambda>b'. Inr (b', 0)))"

definition limit_batch :: "column_batch \<Rightarrow> nat \<Rightarrow> ('s \<times> limit_state, column_batch option) op" where
  "limit_batch b offset st =
     (case apply_remaining b (lim_remaining (snd st)) of
        Inl e \<Rightarrow> (Inl e, st)
      | Inr (b', m) \<Rightarrow> (Inr (Some b'), (fst st, \<lparr>lim_offset = offset, lim_remaining = m\<rparr>)))"

fun batch_limit_next :: "('s, column_batch option) op \<Rightarrow> nat \<Rightarrow> ('s \<times> limit_state, column_batch option) op" where
  "batch_limit_next inp 0 st = (Inl OutOfFuel, st)"
| "batch_limit_next inp (Suc f) st =
     (let k = lim_offset (snd st); m = lim_remaining (snd st) in
      if 0 < k then
        (case inp (fst st) of
           (Inl e, s) \<Rightarrow> (Inl e, (s, snd st))
         | (Inr None, s) \<Rightarrow> (Inr None, (s, snd st))
         | (Inr (Some b), s) \<Rightarrow>
             if cb_rows b \<le> k then batch_limit_next inp f (s, \<lparr>lim_offset = k - cb_rows b, lim_remaining = m\<rparr>)
             else (case slice_logical_rows b k (cb_rows b) of
                     Inl e \<Rightarrow> (Inl e, (s, \<lparr>lim_offset = 0, lim_remaining = m\<rparr>))
                   | Inr kept \<Rightarrow> limit_batch kept 0 (s, \<lparr>lim_offset = 0, lim_remaining = m\<rparr>)))
      else if m = 0 then (Inr None, st)
      else (case inp (fst st) of
              (Inl e, s) \<Rightarrow> (Inl e, (s, snd st))
            | (Inr None, s) \<Rightarrow> (Inr None, (s, snd st))
            | (Inr (Some b), s) \<Rightarrow> limit_batch b 0 (s, snd st)))"

section \<open>Back to rows\<close>

record to_row_state =
  tr_current :: "column_batch option"
  tr_cursor :: nat

fun batch_to_row_next :: "('s, column_batch option) op \<Rightarrow> nat \<Rightarrow> ('s \<times> to_row_state, row option) op" where
  "batch_to_row_next inp 0 st = (Inl OutOfFuel, st)"
| "batch_to_row_next inp (Suc f) st =
     (let pull = (case inp (fst st) of
            (Inl e, s) \<Rightarrow> (Inl e, (s, snd st))
          | (Inr None, s) \<Rightarrow> (Inr None, (s, \<lparr>tr_current = None, tr_cursor = 0\<rparr>))
          | (Inr (Some b), s) \<Rightarrow> batch_to_row_next inp f (s, \<lparr>tr_current = Some b, tr_cursor = 0\<rparr>)) in
      case tr_current (snd st) of
        None \<Rightarrow> pull
      | Some b \<Rightarrow>
          if tr_cursor (snd st) < cb_rows b then
            (case row_at b (tr_cursor (snd st)) of
               Inl e \<Rightarrow> (Inl e, st)
             | Inr r \<Rightarrow> (Inr (Some r), (fst st, (snd st)\<lparr>tr_cursor := tr_cursor (snd st) + 1\<rparr>)))
          else pull)"

fun drain_batches_to_rows :: "('s, column_batch option) op \<Rightarrow> nat \<Rightarrow> ('s, row list) op" where
  "drain_batches_to_rows inp 0 s = (Inl OutOfFuel, s)"
| "drain_batches_to_rows inp (Suc f) s =
     (case inp s of
        (Inl e, t) \<Rightarrow> (Inl e, t)
      | (Inr None, t) \<Rightarrow> (Inr [], t)
      | (Inr (Some b), t) \<Rightarrow>
          (case rmap (row_at b) [0..<cb_rows b] of
             Inl e \<Rightarrow> (Inl e, t)
           | Inr rows \<Rightarrow>
               (case drain_batches_to_rows inp f t of
                  (Inl e, u) \<Rightarrow> (Inl e, u)
                | (Inr rest, u) \<Rightarrow> (Inr (rows @ rest), u))))"

section \<open>Streams of batches\<close>

definition rows_of :: "column_batch list \<Rightarrow> row list" where
  "rows_of bs = concat (map batch_rows bs)"

definition good_batch :: "column_batch \<Rightarrow> bool" where
  "good_batch b \<longleftrightarrow> batch_ok b \<and> batch_small b"

lemma rows_of_simps [simp]: "rows_of [] = []" "rows_of (b # bs) = batch_rows b @ rows_of bs"
  by (simp_all add: rows_of_def)

lemma length_batch_rows [simp]: "length (batch_rows b) = cb_rows b"
  by (simp add: batch_rows_def)

lemma nth_batch_rows [simp]: "i < cb_rows b \<Longrightarrow> batch_rows b ! i = batch_row b i"
  by (simp add: batch_rows_def)

lemma drain_batches_emits:
  assumes "emits inp s bs e" "list_all batch_ok bs" "length bs < f"
  shows "drain_batches_to_rows inp f s = (Inr (rows_of bs), e)"
  using assms
proof (induction arbitrary: f rule: emits.induct)
  case (emits_done s s')
  then show ?case by (cases f) auto
next
  case (emits_more s b t bs s')
  then obtain f' where f: "f = Suc f'" "drain_batches_to_rows inp f' t = (Inr (rows_of bs), s')"
    by (cases f) auto
  have "rmap (row_at b) [0..<cb_rows b] = Inr (batch_rows b)"
    using emits_more.prems by (auto simp: batch_rows_def intro!: rmap_Inr)
  then show ?case using emits_more.hyps(1) by (simp add: f)
qed

section \<open>The adapter\<close>

declare batch_to_row_next.simps(2) [simp del] batch_limit_next.simps(2) [simp del]

definition spent :: "to_row_state \<Rightarrow> bool" where
  "spent st \<longleftrightarrow> (case tr_current st of None \<Rightarrow> True | Some b \<Rightarrow> cb_rows b \<le> tr_cursor st)"

lemma batch_to_row_steps:
  "spent st \<Longrightarrow> inp s = (Inr None, t) \<Longrightarrow>
   batch_to_row_next inp (Suc f) (s, st) = (Inr None, (t, \<lparr>tr_current = None, tr_cursor = 0\<rparr>))"
  "spent st \<Longrightarrow> inp s = (Inr (Some b), t) \<Longrightarrow>
   batch_to_row_next inp (Suc f) (s, st) = batch_to_row_next inp f (t, \<lparr>tr_current = Some b, tr_cursor = 0\<rparr>)"
  "\<not> spent st \<Longrightarrow> batch_to_row_next inp (Suc f) (s, st) =
     (case row_at (the (tr_current st)) (tr_cursor st) of
        Inl e \<Rightarrow> (Inl e, (s, st))
      | Inr r \<Rightarrow> (Inr (Some r), (s, st\<lparr>tr_cursor := tr_cursor st + 1\<rparr>)))"
  by (auto simp: batch_to_row_next.simps(2) spent_def split: option.splits sum.splits)

lemma batch_to_row_fuel:
  assumes "emits inp s bs e" "length bs < f" "length bs < g"
  shows "batch_to_row_next inp f (s, st) = batch_to_row_next inp g (s, st)"
  using assms
proof (induction arbitrary: f g st rule: emits.induct)
  case (emits_done s s')
  then obtain f' g' where f: "f = Suc f'" "g = Suc g'" by (cases f; cases g) auto
  show ?case
    by (cases "spent st") (simp_all add: f batch_to_row_steps(1) [where inp = inp, OF _ emits_done(1)] batch_to_row_steps(3))
next
  case (emits_more s b t bs s')
  obtain f' g' where f: "f = Suc f'" "length bs < f'" "g = Suc g'" "length bs < g'"
    using emits_more.prems by (cases f; cases g) auto
  from emits_more.IH [OF f(2,4)] show ?case
    by (cases "spent st")
       (simp_all add: f(1,3) batch_to_row_steps(2) [where inp = inp, OF _ emits_more.hyps(1)] batch_to_row_steps(3))
qed

lemma batch_to_row_rows:
  assumes b: "batch_ok b" and rest: "emits (batch_to_row_next inp (Suc f)) (s, \<lparr>tr_current = Some b, tr_cursor = cb_rows b\<rparr>) rs e"
    and "i \<le> cb_rows b"
  shows "emits (batch_to_row_next inp (Suc f)) (s, \<lparr>tr_current = Some b, tr_cursor = i\<rparr>) (drop i (batch_rows b) @ rs) e"
  using assms(3)
proof (induction i rule: inc_induct)
  case (step i)
  have "batch_to_row_next inp (Suc f) (s, \<lparr>tr_current = Some b, tr_cursor = i\<rparr>) =
      (Inr (Some (batch_row b i)), (s, \<lparr>tr_current = Some b, tr_cursor = Suc i\<rparr>))"
    using step.hyps b by (simp add: batch_to_row_steps(3) spent_def)
  moreover have "drop i (batch_rows b) = batch_row b i # drop (Suc i) (batch_rows b)"
    using step.hyps by (simp add: Cons_nth_drop_Suc [symmetric])
  ultimately show ?case using step.IH by (simp only: append_Cons emits.intros(2))
qed (use rest in simp)

lemma batch_to_row_emits:
  assumes "emits inp s bs e" "list_all batch_ok bs" "length bs < f" "spent st0"
  shows "\<exists>st. emits (batch_to_row_next inp f) (s, st0) (rows_of bs) st"
  using assms
proof (induction arbitrary: st0 rule: emits.induct)
  case (emits_done s s')
  then obtain f' where "f = Suc f'" by (cases f) auto
  with emits_done show ?case by (auto simp: emits_Nil_iff batch_to_row_steps(1) [where inp = inp, OF _ emits_done(1)])
next
  case (emits_more s b t bs s')
  let ?nx = "batch_to_row_next inp f"
  obtain f' where f: "f = Suc f'" "length bs < f'" using emits_more.prems by (cases f) auto
  obtain st where "emits ?nx (t, \<lparr>tr_current = Some b, tr_cursor = cb_rows b\<rparr>) (rows_of bs) st"
    using emits_more.IH [of "\<lparr>tr_current = Some b, tr_cursor = cb_rows b\<rparr>"] emits_more.prems
    by (auto simp: spent_def)
  then have "emits ?nx (t, \<lparr>tr_current = Some b, tr_cursor = 0\<rparr>) (rows_of (b # bs)) st"
    using batch_to_row_rows [of b inp f' t "rows_of bs" st 0] emits_more.prems by (simp add: f)
  moreover have "?nx (s, st0) = batch_to_row_next inp f' (t, \<lparr>tr_current = Some b, tr_cursor = 0\<rparr>)"
    unfolding f(1) by (rule batch_to_row_steps(2) [where inp = inp, OF emits_more.prems(3) emits_more.hyps(1)])
  moreover have "batch_to_row_next inp f' (t, \<lparr>tr_current = Some b, tr_cursor = 0\<rparr>) =
      ?nx (t, \<lparr>tr_current = Some b, tr_cursor = 0\<rparr>)"
    using f by (intro batch_to_row_fuel [OF emits_more.hyps(2)]) auto
  ultimately show ?case using emits_same [of ?nx] by metis
qed

section \<open>Limit\<close>

lemma slice_logical_rows_ok:
  assumes "good_batch b" "i \<le> j" "j \<le> cb_rows b"
  shows "\<exists>b'. slice_logical_rows b i j = Inr b' \<and> good_batch b' \<and> cb_rows b' = j - i \<and>
    batch_rows b' = take (j - i) (drop i (batch_rows b))"
proof -
  have ok: "batch_ok b" "batch_small b" using assms by (auto simp: good_batch_def)
  let ?sel = "map (\<lambda>i. of_nat (phys b i) :: u32) [i..<j]"
  let ?b = "b\<lparr>cb_rows := length [i..<j], cb_selection := Some ?sel\<rparr>"
  have "(case cb_selection b of Some sel \<Rightarrow> slice sel i j | None \<Rightarrow> Inr (map of_nat [i..<j])) = Inr ?sel"
    using assms(2,3) ok(1)
    by (auto simp: batch_ok_def phys_def slice_def split: option.splits intro!: nth_equalityI)
  then have "slice_logical_rows b i j = Inr ?b"
    using assms(2) by (simp add: slice_logical_rows_def)
  moreover have "batch_ok ?b" "batch_rows ?b = map (batch_row b) [i..<j]"
    using reselect_batch [OF ok _ refl, of "[i..<j]"] assms by auto
  moreover have "map (batch_row b) [i..<j] = take (j - i) (drop i (batch_rows b))"
    using assms by (intro nth_equalityI) auto
  moreover have "batch_small ?b" using ok(2) assms by (simp add: batch_small_def)
  ultimately show ?thesis by (auto simp: good_batch_def)
qed

lemma limit_batch_ok:
  assumes "good_batch b"
  shows "\<exists>b'. limit_batch b 0 (s, \<lparr>lim_offset = k, lim_remaining = m\<rparr>) =
      (Inr (Some b'), (s, \<lparr>lim_offset = 0, lim_remaining = m - cb_rows b\<rparr>)) \<and>
    good_batch b' \<and> batch_rows b' = take m (batch_rows b)"
  using assms slice_logical_rows_ok [OF assms, of 0 m]
  by (cases "cb_rows b \<le> m") (auto simp: limit_batch_def apply_remaining_def)

lemma batch_limit_fuel:
  assumes "emits inp s bs e" "length bs < f" "length bs < g"
  shows "batch_limit_next inp f (s, l) = batch_limit_next inp g (s, l)"
  using assms
proof (induction arbitrary: f g l rule: emits.induct)
  case (emits_done s s')
  then show ?case by (cases f; cases g) (auto simp: batch_limit_next.simps(2) Let_def)
next
  case (emits_more s b t bs s')
  obtain f' g' where f: "f = Suc f'" "length bs < f'" "g = Suc g'" "length bs < g'"
    using emits_more.prems by (cases f; cases g) auto
  have eq: "batch_limit_next inp f' (t, l) = batch_limit_next inp g' (t, l)" for l
    using f by (intro emits_more.IH) auto
  show ?case
    by (simp only: f(1,3) batch_limit_next.simps(2) Let_def fst_conv snd_conv emits_more.hyps(1)
        prod.case sum.case option.case eq)
qed

lemma batch_limit_emits:
  assumes "emits inp s bs e" "list_all good_batch bs" "length bs < f"
  shows "\<exists>out st. emits (batch_limit_next inp f) (s, \<lparr>lim_offset = k, lim_remaining = m\<rparr>) out st \<and>
    length out \<le> length bs \<and> list_all good_batch out \<and> rows_of out = take m (drop k (rows_of bs))"
  using assms
proof (induction arbitrary: k m rule: emits.induct)
  case (emits_done s s')
  then have "batch_limit_next inp f (s, \<lparr>lim_offset = k, lim_remaining = m\<rparr>) =
      (Inr None, (if k = 0 \<and> m = 0 then s else s', \<lparr>lim_offset = k, lim_remaining = m\<rparr>))"
    by (cases f) (auto simp: batch_limit_next.simps(2) Let_def)
  then show ?case by (auto simp: emits_Nil_iff intro!: exI [of _ "[]"])
next
  case (emits_more s b t bs s')
  let ?nx = "batch_limit_next inp f" and ?st = "(s, \<lparr>lim_offset = k, lim_remaining = m\<rparr>)"
  obtain f' where f: "f = Suc f'" "length bs < f'" using emits_more.prems by (cases f) auto
  have good: "good_batch b" "list_all good_batch bs" using emits_more.prems by auto
  have IH: "\<exists>out st. emits ?nx (t, \<lparr>lim_offset = k', lim_remaining = m'\<rparr>) out st \<and> length out \<le> length bs \<and>
      list_all good_batch out \<and> rows_of out = take m' (drop k' (rows_of bs))" for k' m'
    using emits_more.IH good f by simp
  have kept: "\<exists>out st. emits ?nx ?st out st \<and> length out \<le> length (b # bs) \<and> list_all good_batch out \<and>
      rows_of out = take m (batch_rows b0 @ rows_of bs)"
    if b0: "good_batch b0" and eq: "?nx ?st = limit_batch b0 0 (t, \<lparr>lim_offset = 0, lim_remaining = m\<rparr>)" for b0
  proof -
    obtain b' where b': "?nx ?st = (Inr (Some b'), (t, \<lparr>lim_offset = 0, lim_remaining = m - cb_rows b0\<rparr>))"
        "good_batch b'" "batch_rows b' = take m (batch_rows b0)"
      using limit_batch_ok [OF b0, of t 0 m] eq by auto
    obtain out st where out: "emits ?nx (t, \<lparr>lim_offset = 0, lim_remaining = m - cb_rows b0\<rparr>) out st"
        "length out \<le> length bs" "list_all good_batch out" "rows_of out = take (m - cb_rows b0) (rows_of bs)"
      using IH [of 0 "m - cb_rows b0"] by auto
    from emits.intros(2) [OF b'(1) out(1)] show ?thesis
      using b'(2,3) out(2-4) by (intro exI [of _ "b' # out"] exI [of _ st]) simp
  qed
  consider "0 < k" "cb_rows b \<le> k" | "0 < k" "k < cb_rows b" | "k = 0" "m = 0" | "k = 0" "0 < m" by linarith
  then show ?case
  proof cases
    case 1
    then have "?nx ?st = batch_limit_next inp f' (t, \<lparr>lim_offset = k - cb_rows b, lim_remaining = m\<rparr>)"
      using emits_more.hyps(1) by (simp add: f batch_limit_next.simps(2) Let_def)
    also have "\<dots> = ?nx (t, \<lparr>lim_offset = k - cb_rows b, lim_remaining = m\<rparr>)"
      using f by (intro batch_limit_fuel [OF emits_more.hyps(2)]) auto
    finally show ?thesis using IH [of "k - cb_rows b" m] 1 emits_same [of ?nx ?st] by fastforce
  next
    case 2
    then obtain b0 where b0: "slice_logical_rows b k (cb_rows b) = Inr b0" "good_batch b0"
        "batch_rows b0 = drop k (batch_rows b)"
      using slice_logical_rows_ok [OF good(1), of k "cb_rows b"] by auto
    have "?nx ?st = limit_batch b0 0 (t, \<lparr>lim_offset = 0, lim_remaining = m\<rparr>)"
      using 2 b0 emits_more.hyps(1) by (simp add: f batch_limit_next.simps(2) Let_def)
    from kept [OF b0(2) this] 2 b0(3) show ?thesis by simp
  next
    case 3
    then have "?nx ?st = (Inr None, ?st)" by (simp add: f batch_limit_next.simps(2) Let_def)
    with 3 show ?thesis by (auto simp: emits_Nil_iff intro!: exI [of _ "[]"])
  next
    case 4
    then have "?nx ?st = limit_batch b 0 (t, \<lparr>lim_offset = 0, lim_remaining = m\<rparr>)"
      using emits_more.hyps(1) by (simp add: f batch_limit_next.simps(2) Let_def)
    from kept [OF good(1) this] 4 show ?thesis by simp
  qed
qed

section \<open>Scan\<close>

lemma coerce_typed: "has_type v t \<Longrightarrow> coerce v t = Inr v"
  by (cases v; cases t) auto

lemma coerce_row_typed: "list_all2 has_type row ts \<Longrightarrow> coerce_row ts row = Inr row"
  by (induction rule: list_all2_induct) (auto simp: coerce_row_def coerce_typed)

text \<open>What a full scan needs of an entry: it decodes, and a visible row has the columns' types.\<close>

definition entry_ok :: "'c clog_scheme \<Rightarrow> scan_config \<Rightarrow> bytes \<times> bytes \<Rightarrow> bool" where
  "entry_ok c cfg kv \<longleftrightarrow> decode_row (snd kv) (cfg_columns cfg) = Inr (decoded (cfg_columns cfg) kv) \<and>
     (\<forall>row \<in> set (visible_rows c (cfg_snap cfg) [decoded (cfg_columns cfg) kv]). list_all2 has_type row (cfg_types cfg))"

definition filling :: "scan_config \<Rightarrow> column_batch \<Rightarrow> bool" where
  "filling cfg b \<longleftrightarrow> batch_ok b \<and> cb_selection b = None \<and> batch_types b = cfg_types cfg \<and> cb_rows b \<le> BATCH_SIZE"

lemma batch_scan_entry_ok:
  assumes b: "filling cfg b" "cb_rows b < BATCH_SIZE" and kv: "entry_ok c cfg kv"
  shows "\<exists>b'. batch_scan_entry None c cfg kv b st = (Inr b', st) \<and> filling cfg b' \<and>
    batch_rows b' = batch_rows b @ visible_rows c (cfg_snap cfg) [decoded (cfg_columns cfg) kv]"
proof (cases "visible c (cfg_snap cfg) (tx_min (decoded (cfg_columns cfg) kv)) (tx_max (decoded (cfg_columns cfg) kv))")
  case True
  let ?row = "row_values (decoded (cfg_columns cfg) kv)"
  have ty: "list_all2 has_type ?row (batch_types b)"
    using kv True b(1) by (simp add: entry_ok_def visible_rows_def filling_def)
  then have len: "length ?row = length (cb_columns b)"
    by (simp add: batch_types_def list_all2_lengthD)
  obtain b' where "push_row ?row b = (Inr (), b')" "batch_ok b'" "cb_selection b' = None"
      "cb_rows b' = cb_rows b + 1" "batch_types b' = batch_types b" "batch_rows b' = batch_rows b @ [?row]"
    using push_row_ok [OF _ _ len coerce_row_typed [OF ty]] b(1) by (auto simp: filling_def)
  then show ?thesis
    using b kv True by (auto simp: batch_scan_entry_def entry_ok_def filling_def visible_rows_def)
next
  case False
  then show ?thesis using b(1) kv by (simp add: batch_scan_entry_def entry_ok_def visible_rows_def)
qed

lemma batch_scan_loop_ok:
  assumes "emits cur s kvs e" "cur e = (Inr None, e)" "\<forall>kv \<in> set kvs. entry_ok c cfg kv"
    and "filling cfg b" "length kvs < f"
  shows "\<exists>b' s' pre post. kvs = pre @ post \<and> batch_scan_loop cur None c cfg f b (s, own) = (Inr b', (s', own)) \<and>
    filling cfg b' \<and> batch_rows b' = batch_rows b @ visible_rows c (cfg_snap cfg) (map (decoded (cfg_columns cfg)) pre) \<and>
    emits cur s' post e \<and> (cb_rows b' < BATCH_SIZE \<longrightarrow> post = [] \<and> s' = e)"
  using assms
proof (induction arbitrary: b f rule: emits.induct)
  case (emits_done s s')
  then obtain f' where f: "f = Suc f'" by (cases f) auto
  show ?case
  proof (cases "BATCH_SIZE \<le> cb_rows b")
    case True
    with emits_done f show ?thesis
      by (intro exI [of _ b] exI [of _ s] exI [of _ "[]"]) (auto simp: visible_rows_def emits_Nil_iff)
  next
    case False
    with emits_done f show ?thesis
      by (intro exI [of _ b] exI [of _ s'] exI [of _ "[]"]) (auto simp: visible_rows_def emits_Nil_iff)
  qed
next
  case (emits_more s kv t kvs s')
  obtain f' where f: "f = Suc f'" "length kvs < f'" using emits_more.prems(4) by (cases f) auto
  show ?case
  proof (cases "BATCH_SIZE \<le> cb_rows b")
    case True
    have "emits cur s (kv # kvs) s'" by (rule emits.intros(2) [OF emits_more.hyps(1,2)])
    with True emits_more.prems(3) f show ?thesis
      by (intro exI [of _ b] exI [of _ s] exI [of _ "[]"] exI [of _ "kv # kvs"]) (auto simp: visible_rows_def)
  next
    case False
    obtain b1 where b1: "batch_scan_entry None c cfg kv b (t, own) = (Inr b1, (t, own))" "filling cfg b1"
        "batch_rows b1 = batch_rows b @ visible_rows c (cfg_snap cfg) [decoded (cfg_columns cfg) kv]"
      using batch_scan_entry_ok [OF emits_more.prems(3), of c kv "(t, own)"] False emits_more.prems(2) by auto
    obtain b' u pre post where R: "kvs = pre @ post"
        "batch_scan_loop cur None c cfg f' b1 (t, own) = (Inr b', (u, own))" "filling cfg b'"
        "batch_rows b' = batch_rows b1 @ visible_rows c (cfg_snap cfg) (map (decoded (cfg_columns cfg)) pre)"
        "emits cur u post s'" "cb_rows b' < BATCH_SIZE \<longrightarrow> post = [] \<and> u = s'"
      using emits_more.IH [OF emits_more.prems(1) _ b1(2) f(2)] emits_more.prems(2) by auto
    have "batch_scan_loop cur None c cfg f b (s, own) = (Inr b', (u, own))"
      using False emits_more.hyps(1) b1(1) R(2) by (simp add: f(1))
    moreover have "batch_rows b' = batch_rows b @
        visible_rows c (cfg_snap cfg) (map (decoded (cfg_columns cfg)) (kv # pre))"
      using R(4) b1(3) by (simp add: visible_rows_def)
    ultimately show ?thesis
      using R(1,3,5,6) by (intro exI [of _ b'] exI [of _ u] exI [of _ "kv # pre"] exI [of _ post]) simp
  qed
qed

lemma filling_empty: "filling cfg (with_types (cfg_types cfg))" "batch_rows (with_types ts) = []"
  by (simp_all add: filling_def with_types_def batch_ok_def batch_types_def comp_def list_all_iff
      col_len_def batch_rows_def) (metis empty_column_ok length_0_conv length_col_values col_len_def)

lemma batch_scan_recorded_emits:
  assumes "cur e = (Inr None, e)" "bs_recorded own"
  shows "emits cur s kvs e \<Longrightarrow> \<forall>kv \<in> set kvs. entry_ok c cfg kv \<Longrightarrow> length kvs < f \<Longrightarrow>
    \<exists>bs u. emits (batch_scan_next cur None c cfg f) (s, own) bs (u, own) \<and> length bs \<le> length kvs \<and>
      list_all good_batch bs \<and> rows_of bs = visible_rows c (cfg_snap cfg) (map (decoded (cfg_columns cfg)) kvs)"
proof (induction "length kvs" arbitrary: kvs s rule: less_induct)
  case less
  let ?nx = "batch_scan_next cur None c cfg f"
  obtain b u pre post where R: "kvs = pre @ post"
      "batch_scan_loop cur None c cfg f (with_types (cfg_types cfg)) (s, own) = (Inr b, (u, own))" "filling cfg b"
      "batch_rows b = visible_rows c (cfg_snap cfg) (map (decoded (cfg_columns cfg)) pre)"
      "emits cur u post e" "cb_rows b < BATCH_SIZE \<longrightarrow> post = [] \<and> u = e"
    using batch_scan_loop_ok [OF less.prems(1) assms(1) less.prems(2) filling_empty(1) less.prems(3), where own = own]
    unfolding filling_empty append_Nil by blast
  have nx: "?nx (s, own) = (Inr (if cb_rows b = 0 then None else Some b), (u, own))"
    using assms(2) R(2) by (simp add: batch_scan_next_def)
  show ?case
  proof (cases "cb_rows b = 0")
    case True
    then have "visible_rows c (cfg_snap cfg) (map (decoded (cfg_columns cfg)) kvs) = []"
      using R(1,4,6) by (simp add: BATCH_SIZE_def batch_rows_def)
    with nx True show ?thesis
      by (intro exI [of _ "[]"] exI [of _ u]) (simp add: emits_Nil_iff)
  next
    case False
    then have "pre \<noteq> []" using R(4) by (auto simp: batch_rows_def visible_rows_def)
    then have "length post < length kvs" "length post < f" using R(1) less.prems(3) by auto
    with less.hyps [of post u] R(1,5) less.prems(2) obtain bs v where
      IH: "emits ?nx (u, own) bs (v, own)" "length bs \<le> length post" "list_all good_batch bs"
        "rows_of bs = visible_rows c (cfg_snap cfg) (map (decoded (cfg_columns cfg)) post)" by auto
    have "emits ?nx (s, own) (b # bs) (v, own)" using nx False IH(1) by (intro emits.intros(2)) simp_all
    moreover have "good_batch b" using R(3) by (simp add: filling_def good_batch_def batch_small_def BATCH_SIZE_def)
    ultimately show ?thesis
      using IH(2-4) R(1,4) \<open>pre \<noteq> []\<close>
      by (intro exI [of _ "b # bs"] exI [of _ v]) (cases pre; simp add: visible_rows_def)
  qed
qed

lemma batch_scan_emits:
  assumes "emits cur s kvs e" "cur e = (Inr None, e)" "\<forall>kv \<in> set kvs. entry_ok c cfg kv" "length kvs < f"
  shows "\<exists>bs st. emits (batch_scan_next cur None c cfg f) (s, st0) bs st \<and> length bs \<le> length kvs \<and>
    list_all good_batch bs \<and> rows_of bs = visible_rows c (cfg_snap cfg) (map (decoded (cfg_columns cfg)) kvs)"
proof -
  let ?own = "if bs_recorded st0 then st0 else st0\<lparr>bs_recorded := True,
    bs_ssi := record_relation_read (cfg_snap cfg) (cfg_root cfg) (bs_ssi st0)\<rparr>"
  let ?nx = "batch_scan_next cur None c cfg f"
  have same: "?nx (s, st0) = ?nx (s, ?own)"
    by (simp add: batch_scan_next_def)
  have "bs_recorded ?own" by simp
  from batch_scan_recorded_emits [OF assms(2) this assms(1,3,4)] obtain bs u where
    "emits ?nx (s, ?own) bs (u, ?own)" and rest: "length bs \<le> length kvs" "list_all good_batch bs"
      "rows_of bs = visible_rows c (cfg_snap cfg) (map (decoded (cfg_columns cfg)) kvs)" by blast
  from emits_same [OF same this(1)] rest show ?thesis by blast
qed

section \<open>Filter and project\<close>

lemma rows_of_map_filter:
  "rows_of (List.map_filter g bs) = concat (map (\<lambda>b. case g b of None \<Rightarrow> [] | Some b' \<Rightarrow> batch_rows b') bs)"
  by (induction bs) (auto simp: List.map_filter_simps split: option.splits)

definition accepted :: "expr \<Rightarrow> scope \<Rightarrow> row \<Rightarrow> bool" where
  "accepted p sc r \<longleftrightarrow> passes_filter (Some p) sc r = Inr True"

definition evaluates :: "expr \<Rightarrow> scope \<Rightarrow> row \<Rightarrow> bool" where
  "evaluates p sc r \<longleftrightarrow> passes_filter (Some p) sc r = Inr (accepted p sc r)"

lemma batch_filter_body_ok:
  assumes "good_batch b" "fst (batch_filter_body p sc b ()) = Inr r"
  shows "list_all (evaluates p sc) (batch_rows b)"
    and "(case r of None \<Rightarrow> [] | Some b' \<Rightarrow> batch_rows b') = filter (accepted p sc) (batch_rows b)"
    and "r = Some b' \<Longrightarrow> good_batch b'"
proof -
  obtain m sel where m: "eval_batch p b sc = Inr m" "build_selection b m = Inr sel"
    and r: "r = (if sel \<noteq> [] then Some \<lparr>cb_columns = cb_columns b, cb_rows = length sel, cb_selection = Some sel\<rparr> else None)"
    using assms(2) by (auto simp: batch_filter_body_def rbind_Inr_iff)
  have ok: "batch_ok b" "batch_small b" using assms(1) by (auto simp: good_batch_def)
  note F = filter_batch [OF ok m refl]
  from F(2) show "list_all (evaluates p sc) (batch_rows b)"
    by (auto simp: list_all_iff evaluates_def accepted_def)
  show rows: "(case r of None \<Rightarrow> [] | Some b' \<Rightarrow> batch_rows b') = filter (accepted p sc) (batch_rows b)"
    using F(3) by (cases "sel = []") (auto simp: r accepted_def [abs_def] batch_rows_def)
  have "length sel \<le> cb_rows b"
    using arg_cong [OF F(3), of length] length_filter_le [of _ "batch_rows b"] by simp
  then show "r = Some b' \<Longrightarrow> good_batch b'"
    using r F(1) ok(2) by (auto simp: good_batch_def batch_small_def split: if_splits)
qed

lemma batch_filter_emitted:
  assumes "emits (batch_filter_next inp p sc f) s out e"
  shows "\<exists>bs. emits inp s bs e \<and> length out \<le> length bs \<and> (list_all good_batch bs \<longrightarrow>
    list_all good_batch out \<and> list_all (evaluates p sc) (rows_of bs) \<and> rows_of out = filter (accepted p sc) (rows_of bs))"
proof -
  let ?h = "\<lambda>b. fst (batch_filter_body p sc b ())"
  have "batch_filter_body p sc b t = (?h b, t)" for b and t :: 's
    by (simp add: batch_filter_body_def)
  from pull_until_emits_inv [OF this assms [unfolded batch_filter_next_def]] obtain bs where
    bs: "emits inp s bs e" "list_all (\<lambda>b. isl (?h b) = False) bs" "out = List.map_filter (\<lambda>b. projr (?h b)) bs" by blast
  have "length out \<le> length bs" by (simp add: bs(3) List.map_filter_def length_filter_le)
  moreover have "list_all good_batch out \<and> list_all (evaluates p sc) (rows_of bs) \<and>
      rows_of out = filter (accepted p sc) (rows_of bs)" if "list_all good_batch bs"
    using bs(2) that unfolding bs(3)
  proof (induction bs)
    case (Cons b bs)
    then obtain r where r: "?h b = Inr r" by (cases "?h b") auto
    note B = batch_filter_body_ok [OF _ r]
    from Cons B(1,2) B(3) [of "the r"] r show ?case
      by (cases r) (auto simp: List.map_filter_simps)
  qed (simp add: List.map_filter_simps)
  ultimately show ?thesis using bs(1) by blast
qed

lemma project_columns_ok:
  assumes "batch_ok b"
  shows "project_columns items sc b = Inr cs \<Longrightarrow> list_all (\<lambda>c. col_ok c \<and> col_len c = cb_rows b) cs \<and>
    (\<forall>i < cb_rows b. project_row items sc (batch_row b i) = Inr (map (\<lambda>c. col_values c ! i) cs))"
proof (induction items arbitrary: cs)
  case (Cons item items)
  show ?case
  proof (cases item)
    case (PColumn k)
    then obtain c cs' where c: "k < length (cb_columns b)"
        "materialise_column (cb_columns b ! k) (cb_selection b) = Inr c"
        "project_columns items sc b = Inr cs'" "cs = c # cs'"
      using Cons.prems by (auto simp: rbind_Inr_iff index_def split: if_splits)
    with materialise_column_of [OF assms, of "cb_columns b ! k"]
    have "column_of c (cb_rows b) (\<lambda>i. Inr (col_values (cb_columns b ! k) ! phys b i))" by auto
    with Cons.IH [OF c(3)] c PColumn show ?thesis by (auto simp: column_of_def batch_row_def)
  next
    case (PExpr e)
    then obtain scope c cs' where c: "sc = Some scope" "eval_batch e b scope = Inr c"
        "project_columns items sc b = Inr cs'" "cs = c # cs'"
      using Cons.prems by (auto simp: rbind_Inr_iff split: option.splits)
    from eval_batch_column_of [OF assms c(2)] Cons.IH [OF c(3)] c PExpr show ?thesis
      by (auto simp: column_of_def row_ctx_def)
  qed
qed simp

definition projected :: "plain_item list \<Rightarrow> scope option \<Rightarrow> row \<Rightarrow> row" where
  "projected items sc r = projr (project_row items sc r)"

lemma batch_project_emitted:
  assumes "emits (batch_project_next inp items sc) s out e"
  shows "\<exists>bs. emits inp s bs e \<and> length out = length bs \<and> (list_all good_batch bs \<longrightarrow>
    list_all good_batch out \<and> rows_of out = map (projected items sc) (rows_of bs) \<and>
    list_all (\<lambda>r. project_row items sc r = Inr (projected items sc r)) (rows_of bs))"
  using assms
proof (induction rule: emits.induct)
  case (emits_done s s')
  then have "inp s = (Inr None, s')"
    by (auto simp: batch_project_next_def sbind_def split: prod.splits sum.splits option.splits)
  then show ?case by (intro exI [of _ "[]"]) (simp add: emits_Nil_iff)
next
  case (emits_more s b' t out s')
  then obtain b cs where b: "inp s = (Inr (Some b), t)" "project_columns items sc b = Inr cs"
      "b' = \<lparr>cb_columns = cs, cb_rows = cb_rows b, cb_selection = None\<rparr>"
    by (auto simp: batch_project_next_def sbind_def split: prod.splits sum.splits option.splits)
  obtain bs where bs: "emits inp t bs s'" "length out = length bs"
      "list_all good_batch bs \<Longrightarrow> list_all good_batch out \<and> rows_of out = map (projected items sc) (rows_of bs) \<and>
        list_all (\<lambda>r. project_row items sc r = Inr (projected items sc r)) (rows_of bs)"
    using emits_more.IH by blast
  have "good_batch b' \<and> batch_rows b' = map (projected items sc) (batch_rows b) \<and>
      list_all (\<lambda>r. project_row items sc r = Inr (projected items sc r)) (batch_rows b)" if "good_batch b"
    using project_columns_ok [OF _ b(2)] that
    by (auto simp: good_batch_def batch_ok_def [of "\<lparr>cb_columns = cs, cb_rows = cb_rows b, cb_selection = None\<rparr>"] batch_small_def b(3) list_all_iff projected_def
        batch_rows_def batch_row_def [of "\<lparr>cb_columns = cs, cb_rows = cb_rows b, cb_selection = None\<rparr>"] phys_def)
  with bs b(1) show ?case by (intro exI [of _ "b # bs"]) (simp add: emits.intros(2))
qed

section \<open>The two pipelines agree\<close>

text \<open>C9: A query returns the same rows vectorised and row at a time: over one cursor, whenever the
  vectorised scan, filter and projection run through without an error, the rows that
  \<^verbatim>\<open>BatchToRow\<close> hands out above \<^verbatim>\<open>BatchLimit\<close> are the rows the row operators return for the same WHERE clause,
  projection, limit and offset; neither pipeline fails.\<close>

theorem vectorised_select_agrees:
  assumes "emits cur s kvs e" "cur e = (Inr None, e)" "length kvs < fuel" "\<forall>kv \<in> set kvs. entry_ok c cfg kv"
    and "emits (batch_project_next (batch_filter_next (batch_scan_next cur None c cfg fuel) p sc fuel) items (Some sc))
      (s, st0) out ste"
  shows "\<exists>rows st st'.
    emits (batch_to_row_next (batch_limit_next (batch_project_next (batch_filter_next
        (batch_scan_next cur None c cfg fuel) p sc fuel) items (Some sc)) fuel) fuel)
      (((s, st0), \<lparr>lim_offset = k, lim_remaining = m\<rparr>), \<lparr>tr_current = None, tr_cursor = 0\<rparr>) rows st \<and>
    emits (limit_next (project_next (filter_next
        (table_scan_next cur c (cfg_snap cfg) (cfg_columns cfg) (cfg_root cfg) fuel) rc p sc False fuel) rc' items (Some sc) False))
      ((s, st1), \<lparr>lim_offset = k, lim_remaining = m\<rparr>) rows st'"
proof -
  let ?vis = "visible_rows c (cfg_snap cfg) (map (decoded (cfg_columns cfg)) kvs)"
  let ?scan = "batch_scan_next cur None c cfg fuel"
  let ?proj = "batch_project_next (batch_filter_next ?scan p sc fuel) items (Some sc)"
  obtain fs where fs: "emits (batch_filter_next ?scan p sc fuel) (s, st0) fs ste" "length out = length fs"
      "list_all good_batch fs \<Longrightarrow> list_all good_batch out \<and> rows_of out = map (projected items (Some sc)) (rows_of fs) \<and>
        list_all (\<lambda>r. project_row items (Some sc) r = Inr (projected items (Some sc) r)) (rows_of fs)"
    using batch_project_emitted [OF assms(5)] by blast
  obtain bs where bs: "emits ?scan (s, st0) bs ste" "length fs \<le> length bs"
      "list_all good_batch bs \<Longrightarrow> list_all good_batch fs \<and> list_all (evaluates p sc) (rows_of bs) \<and>
        rows_of fs = filter (accepted p sc) (rows_of bs)"
    using batch_filter_emitted [OF fs(1)] by blast
  obtain bs' st' where "emits ?scan (s, st0) bs' st'" "length bs' \<le> length kvs" "list_all good_batch bs'" "rows_of bs' = ?vis"
    using batch_scan_emits [OF assms(1,2,4,3)] by blast
  with emits_unique [OF bs(1)] have scan: "length bs \<le> length kvs" "list_all good_batch bs" "rows_of bs = ?vis" by auto
  let ?rows = "map (projected items (Some sc)) (filter (accepted p sc) ?vis)"
  have good: "list_all good_batch out" "rows_of out = ?rows" "length out < fuel"
    using fs bs scan assms(3) by auto
  obtain lim st where lim: "emits (batch_limit_next ?proj fuel) ((s, st0), \<lparr>lim_offset = k, lim_remaining = m\<rparr>) lim st"
      "length lim \<le> length out" "list_all good_batch lim" "rows_of lim = take m (drop k ?rows)"
    using batch_limit_emits [OF assms(5) good(1,3), of k m] unfolding good(2) by blast
  have "\<exists>st. emits (batch_to_row_next (batch_limit_next ?proj fuel) fuel)
      (((s, st0), \<lparr>lim_offset = k, lim_remaining = m\<rparr>), \<lparr>tr_current = None, tr_cursor = 0\<rparr>) (rows_of lim) st"
    using lim good(3) by (intro batch_to_row_emits [OF lim(1)]) (auto simp: list_all_iff good_batch_def spent_def)
  moreover obtain own where scan': "emits (table_scan_next cur c (cfg_snap cfg) (cfg_columns cfg) (cfg_root cfg) fuel)
      (s, st1) ?vis (e, own)"
    using table_scan_emits [OF assms(1) _ assms(3)] assms(4) by (metis entry_ok_def)
  have "emits (filter_next (table_scan_next cur c (cfg_snap cfg) (cfg_columns cfg) (cfg_root cfg) fuel) rc p sc False fuel)
      (s, st1) (filter (accepted p sc) ?vis) (e, own)"
    using bs(3) scan assms(3)
    by (intro filter_emits [OF scan']) (auto simp: list_all_iff evaluates_def visible_rows_def intro: le_less_trans [OF length_filter_le])
  from project_emits [OF this, of items "Some sc" "projected items (Some sc)" rc'] fs(3) bs(3) scan
  have "emits (project_next (filter_next (table_scan_next cur c (cfg_snap cfg) (cfg_columns cfg) (cfg_root cfg) fuel)
      rc p sc False fuel) rc' items (Some sc) False) (s, st1) ?rows (e, own)"
    by (auto simp: list_all_iff)
  from limit_emits [OF this, of k m] lim(4) show ?thesis using calculation by metis
qed

section \<open>Witness\<close>

definition one_cfg :: scan_config where
  "one_cfg = \<lparr>cfg_types = [TInt], cfg_columns = 1, cfg_root = 7, cfg_snap = take_snapshot None start_state\<rparr>"

definition one_batch :: column_batch where
  "one_batch = snd (push_row [VInt 5] (with_types [TInt]))"

definition fresh_scan :: batch_scan_state where
  "fresh_scan = \<lparr>bs_recorded = True, bs_ssi = [], seen_rowids = {}\<rparr>"

lemma one_batch_facts:
  "push_row [VInt 5] (with_types [TInt]) = (Inr (), one_batch)" "cb_rows one_batch = 1" "cb_rows (with_types [TInt]) = 0"
  "batch_filter_body (EBool True) [] one_batch s = (Inr (Some (one_batch\<lparr>cb_rows := 1, cb_selection := Some [0]\<rparr>)), s)"
  "project_columns [PColumn 0] (Some []) (one_batch\<lparr>cb_rows := 1, cb_selection := Some [0]\<rparr>) =
    Inr [ColInt [5] (mask_of [True])]"
proof -
  show "push_row [VInt 5] (with_types [TInt]) = (Inr (), one_batch)" by code_simp
  show "cb_rows one_batch = 1" by code_simp
  show "cb_rows (with_types [TInt]) = 0" by code_simp
  have "rbind (eval_batch (EBool True) one_batch []) (\<lambda>mask. rbind (build_selection one_batch mask) (\<lambda>sel.
      Inr (if sel \<noteq> [] then Some \<lparr>cb_columns = cb_columns one_batch, cb_rows = length sel, cb_selection = Some sel\<rparr>
           else None))) = Inr (Some (one_batch\<lparr>cb_rows := 1, cb_selection := Some [0]\<rparr>))" by code_simp
  then show "batch_filter_body (EBool True) [] one_batch s = (Inr (Some (one_batch\<lparr>cb_rows := 1, cb_selection := Some [0]\<rparr>)), s)"
    by (simp add: batch_filter_body_def)
  show "project_columns [PColumn 0] (Some []) (one_batch\<lparr>cb_rows := 1, cb_selection := Some [0]\<rparr>) =
      Inr [ColInt [5] (mask_of [True])]" by code_simp
qed

lemma one_row_decoded: "decoded 1 (u64_be 1, encode_row 0 0 [VInt 5]) = \<lparr>tx_min = 0, tx_max = 0, row_values = [VInt 5]\<rparr>"
  using one_row_decodes by (simp add: decoded_def)

lemma one_scan:
  "batch_scan_next list_cursor None (tx_clog start_state) one_cfg 2 (one_row, fresh_scan) = (Inr (Some one_batch), ([], fresh_scan))"
  "batch_scan_next list_cursor None (tx_clog start_state) one_cfg 2 ([], fresh_scan) = (Inr None, ([], fresh_scan))"
  using one_batch_facts(1-3) one_row_decodes
  by (simp_all add: batch_scan_next_def one_row_def fresh_scan_def one_cfg_def BATCH_SIZE_def
      batch_scan_entry_def visible_def numeral_2_eq_2)

theorem vectorised_select_agrees_witness:
  "\<exists>rows st st'.
    emits (batch_to_row_next (batch_limit_next (batch_project_next (batch_filter_next
        (batch_scan_next list_cursor None (tx_clog start_state) one_cfg 2) (EBool True) [] 2) [PColumn 0] (Some [])) 2) 2)
      (((one_row, fresh_scan), \<lparr>lim_offset = 0, lim_remaining = 9\<rparr>), \<lparr>tr_current = None, tr_cursor = 0\<rparr>) rows st \<and>
    emits (limit_next (project_next (filter_next
        (table_scan_next list_cursor (tx_clog start_state) (cfg_snap one_cfg) (cfg_columns one_cfg) (cfg_root one_cfg) 2)
        (\<lambda>e _ _. sret e) (EBool True) [] False 2) (\<lambda>e _ _. sret e) [PColumn 0] (Some []) False))
      ((one_row, \<lparr>relation_read_recorded = False, scan_ssi = []\<rparr>), \<lparr>lim_offset = 0, lim_remaining = 9\<rparr>) rows st'"
proof (rule vectorised_select_agrees [OF list_cursor_emits])
  show "list_cursor [] = (Inr None, [])" "length one_row < 2" by (simp_all add: one_row_def)
  show "\<forall>kv \<in> set one_row. entry_ok (tx_clog start_state) one_cfg kv"
    using one_row_decodes one_row_decoded
    by (simp add: one_row_def entry_ok_def one_cfg_def visible_rows_def)
  let ?out = "\<lparr>cb_columns = [ColInt [5] (mask_of [True])], cb_rows = 1, cb_selection = None\<rparr>"
  let ?f = "batch_filter_next (batch_scan_next list_cursor None (tx_clog start_state) one_cfg 2) (EBool True) [] 2"
  have "?f (one_row, fresh_scan) = (Inr (Some (one_batch\<lparr>cb_rows := 1, cb_selection := Some [0]\<rparr>)), ([], fresh_scan))"
    by (simp add: batch_filter_next_def numeral_2_eq_2 one_scan [unfolded numeral_2_eq_2] one_batch_facts)
  moreover have "?f ([], fresh_scan) = (Inr None, ([], fresh_scan))"
    by (simp add: batch_filter_next_def numeral_2_eq_2 one_scan [unfolded numeral_2_eq_2])
  ultimately show "emits (batch_project_next ?f [PColumn 0] (Some [])) (one_row, fresh_scan) [?out] ([], fresh_scan)"
    by (auto simp: emits_Cons_iff emits_Nil_iff batch_project_next_def sbind_def one_batch_facts(5) [unfolded One_nat_def] simp del: project_columns.simps)
qed

end
