(* ===== verification/Join_Operators.thy ===== *)
theory Join_Operators
  imports Row_Operators Index_Key
begin

text \<open>
  The joins of \<^verbatim>\<open>engine/executor.rs\<close>: the nested-loop join with its five kinds, the hash join, and
  the recognition of equi-joins that chooses between them. The locale \<open>expanding_join\<close> is the loop
  they share: for every left row, emit what it expands to and go on to the next. The hash join
  returns the rows of the nested-loop join, in the same order, as long as no join column holds the
  negative zero.
\<close>

section \<open>The nested-loop join\<close>

record join_cfg =
  jc_on :: "expr option"
  jc_kind :: join_kind
  jc_scope :: scope
  jc_width :: nat

record nlj_state =
  right_taken :: bool
  right_rows :: "row list option"
  current_left :: "row option"
  right_pos :: nat
  matched_current :: bool

text \<open>Pair a left row with the right rows from a position on, up to the first that matches.\<close>

fun scan_right :: "expr option \<Rightarrow> scope \<Rightarrow> row \<Rightarrow> row list \<Rightarrow> nat \<Rightarrow> row option result \<times> nat" where
  "scan_right on sc l [] pos = (Inr None, pos)"
| "scan_right on sc l (r # rs) pos =
     (case passes_filter on sc (l @ r) of
        Inl e \<Rightarrow> (Inl e, Suc pos)
      | Inr keep \<Rightarrow> if keep then (Inr (Some (l @ r)), Suc pos) else scan_right on sc l rs (Suc pos))"

text \<open>The body of the loop below the pull of the left row; \<open>None\<close> goes round again.\<close>

definition nlj_pair :: "join_cfg \<Rightarrow> row list \<Rightarrow> row \<Rightarrow> nlj_state \<Rightarrow> row option result option \<times> nlj_state" where
  "nlj_pair cfg rows l st =
     (case scan_right (jc_on cfg) (jc_scope cfg) l (drop (right_pos st) rows) (right_pos st) of
        (Inl e, p) \<Rightarrow> (Some (Inl e), st\<lparr>right_pos := p\<rparr>)
      | (Inr (Some combined), p) \<Rightarrow>
          (let st' = st\<lparr>right_pos := p, matched_current := True\<rparr> in
           case jc_kind cfg of
             Semi \<Rightarrow> (Some (Inr (Some l)), st'\<lparr>current_left := None\<rparr>)
           | Anti \<Rightarrow> (None, st'\<lparr>right_pos := length rows, current_left := None\<rparr>)
           | _ \<Rightarrow> (Some (Inr (Some combined)), st'))
      | (Inr None, p) \<Rightarrow>
          (let st' = st\<lparr>right_pos := p, current_left := None\<rparr> in
           if jc_kind cfg = LeftJoin \<and> \<not> matched_current st
           then (Some (Inr (Some (l @ replicate (jc_width cfg) VNull))), st')
           else if jc_kind cfg = Anti \<and> \<not> matched_current st then (Some (Inr (Some l)), st')
           else (None, st')))"

fun nlj_loop :: "('s, row option) op \<Rightarrow> join_cfg \<Rightarrow> row list \<Rightarrow> nat \<Rightarrow> ('s \<times> nlj_state, row option) op" where
  "nlj_loop left cfg rows 0 x = (Inl OutOfFuel, x)"
| "nlj_loop left cfg rows (Suc f) x =
     (let go = (\<lambda>l s st. case nlj_pair cfg rows l st of
          (Some r, st') \<Rightarrow> (r, (s, st'))
        | (None, st') \<Rightarrow> nlj_loop left cfg rows f (s, st')) in
      case current_left (snd x) of
        Some l \<Rightarrow> go l (fst x) (snd x)
      | None \<Rightarrow>
          (case left (fst x) of
             (Inl e, t) \<Rightarrow> (Inl e, (t, snd x))
           | (Inr None, t) \<Rightarrow> (Inr None, (t, snd x))
           | (Inr (Some l), t) \<Rightarrow>
               go l t ((snd x)\<lparr>current_left := Some l, right_pos := 0, matched_current := False\<rparr>)))"

definition nlj_next :: "('s, row option) op \<Rightarrow> ('s, row option) op \<Rightarrow> join_cfg \<Rightarrow> nat \<Rightarrow> ('s \<times> nlj_state, row option) op" where
  "nlj_next left right cfg fuel x =
     (case right_rows (snd x) of
        Some rows \<Rightarrow> nlj_loop left cfg rows fuel x
      | None \<Rightarrow>
          if right_taken (snd x) then (Inl Panicked, x)
          else (case drain right fuel (fst x) of
                  (Inl e, t) \<Rightarrow> (Inl e, (t, (snd x)\<lparr>right_taken := True\<rparr>))
                | (Inr rows, t) \<Rightarrow>
                    nlj_loop left cfg rows fuel (t, (snd x)\<lparr>right_taken := True, right_rows := Some rows\<rparr>)))"

section \<open>The hash join\<close>

record hash_cfg =
  hc_on :: expr
  hc_kind :: join_kind
  hc_scope :: scope
  hc_width :: nat
  probe_col :: nat
  build_col :: nat

record hash_state =
  hj_taken :: bool
  hj_table :: "(bytes \<Rightarrow> row list option) option"
  hj_left :: "row option"
  probe_key :: "bytes option"
  match_pos :: nat
  hj_matched :: bool

fun hash_build :: "nat \<Rightarrow> row list \<Rightarrow> (bytes \<Rightarrow> row list option) \<Rightarrow> (bytes \<Rightarrow> row list option) result" where
  "hash_build col [] table = Inr table"
| "hash_build col (r # rs) table =
     rbind (index r col) (\<lambda>v.
       if is_null v then hash_build col rs table
       else (let k = encode_index_value v in
             hash_build col rs (table(k \<mapsto> (case table k of None \<Rightarrow> [] | Some b \<Rightarrow> b) @ [r]))))"

definition bucket :: "(bytes \<Rightarrow> row list option) \<Rightarrow> bytes option \<Rightarrow> row list" where
  "bucket table key = (case key of None \<Rightarrow> [] | Some k \<Rightarrow> (case table k of None \<Rightarrow> [] | Some rows \<Rightarrow> rows))"

definition hash_pair :: "hash_cfg \<Rightarrow> (bytes \<Rightarrow> row list option) \<Rightarrow> row \<Rightarrow> hash_state \<Rightarrow> row option result option \<times> hash_state" where
  "hash_pair cfg table l st =
     (case scan_right (Some (hc_on cfg)) (hc_scope cfg) l (drop (match_pos st) (bucket table (probe_key st))) (match_pos st) of
        (Inl e, p) \<Rightarrow> (Some (Inl e), st\<lparr>match_pos := p\<rparr>)
      | (Inr (Some combined), p) \<Rightarrow> (Some (Inr (Some combined)), st\<lparr>match_pos := p, hj_matched := True\<rparr>)
      | (Inr None, p) \<Rightarrow>
          (let st' = st\<lparr>match_pos := p, hj_left := None\<rparr> in
           if hc_kind cfg = LeftJoin \<and> \<not> hj_matched st
           then (Some (Inr (Some (l @ replicate (hc_width cfg) VNull))), st')
           else (None, st')))"

fun hash_loop :: "('s, row option) op \<Rightarrow> hash_cfg \<Rightarrow> (bytes \<Rightarrow> row list option) \<Rightarrow> nat \<Rightarrow> ('s \<times> hash_state, row option) op" where
  "hash_loop left cfg table 0 x = (Inl OutOfFuel, x)"
| "hash_loop left cfg table (Suc f) x =
     (let go = (\<lambda>l s st. case hash_pair cfg table l st of
          (Some r, st') \<Rightarrow> (r, (s, st'))
        | (None, st') \<Rightarrow> hash_loop left cfg table f (s, st')) in
      case hj_left (snd x) of
        Some l \<Rightarrow> go l (fst x) (snd x)
      | None \<Rightarrow>
          (case left (fst x) of
             (Inl e, t) \<Rightarrow> (Inl e, (t, snd x))
           | (Inr None, t) \<Rightarrow> (Inr None, (t, snd x))
           | (Inr (Some l), t) \<Rightarrow>
               (case index l (probe_col cfg) of
                  Inl e \<Rightarrow> (Inl e, (t, snd x))
                | Inr v \<Rightarrow>
                    go l t ((snd x)\<lparr>probe_key := (if is_null v then None else Some (encode_index_value v)),
                                   match_pos := 0, hj_matched := False, hj_left := Some l\<rparr>))))"

definition hash_next :: "('s, row option) op \<Rightarrow> ('s, row option) op \<Rightarrow> hash_cfg \<Rightarrow> nat \<Rightarrow> ('s \<times> hash_state, row option) op" where
  "hash_next left right cfg fuel x =
     (case hj_table (snd x) of
        Some table \<Rightarrow> hash_loop left cfg table fuel x
      | None \<Rightarrow>
          if hj_taken (snd x) then (Inl Panicked, x)
          else (case drain right fuel (fst x) of
                  (Inl e, t) \<Rightarrow> (Inl e, (t, (snd x)\<lparr>hj_taken := True\<rparr>))
                | (Inr rows, t) \<Rightarrow>
                    (case hash_build (build_col cfg) rows Map.empty of
                       Inl e \<Rightarrow> (Inl e, (t, (snd x)\<lparr>hj_taken := True\<rparr>))
                     | Inr table \<Rightarrow> hash_loop left cfg table fuel (t, (snd x)\<lparr>hj_taken := True, hj_table := Some table\<rparr>))))"

section \<open>Recognising an equi-join\<close>

definition equi_join_columns :: "expr \<Rightarrow> expr \<Rightarrow> nat \<Rightarrow> scope \<Rightarrow> (nat \<times> nat) option" where
  "equi_join_columns l r left_len sc =
     (case (l, r) of
        (EColumn lc, EColumn rc) \<Rightarrow>
          (case (resolve sc lc, resolve sc rc) of
             (Inr i, Inr j) \<Rightarrow>
               (let ends = (if i < left_len \<and> left_len \<le> j then Some (i, j)
                            else if j < left_len \<and> left_len \<le> i then Some (j, i) else None) in
                case ends of
                  None \<Rightarrow> None
                | Some (outer_at, inner_at) \<Rightarrow>
                    if sc_ty (sc ! outer_at) \<noteq> sc_ty (sc ! inner_at) then None
                    else Some (outer_at, inner_at - left_len))
           | _ \<Rightarrow> None)
      | _ \<Rightarrow> None)"

fun find_equi_join :: "expr \<Rightarrow> nat \<Rightarrow> scope \<Rightarrow> (nat \<times> nat) option" where
  "find_equi_join (EBinary And l r) n sc =
     (case find_equi_join l n sc of Some x \<Rightarrow> Some x | None \<Rightarrow> find_equi_join r n sc)"
| "find_equi_join (EBinary Eq l r) n sc = equi_join_columns l r n sc"
| "find_equi_join _ n sc = None"

section \<open>The shared loop\<close>

text \<open>
  A join's loop, seen from outside: an idle state holds no left row; a state with output pending
  hands it out one row at a time and then turns idle; pulling a left row makes its expansion pending
  within the same iteration. \<open>fit l\<close> says that no predicate fails on the pairs of a left row.
\<close>

locale expanding_join =
  fixes loop :: "nat \<Rightarrow> ('s \<times> 'st, row option) op"
    and left :: "('s, row option) op"
    and idle :: "'st \<Rightarrow> bool"
    and pending :: "'st \<Rightarrow> row list \<Rightarrow> bool"
    and expand :: "row \<Rightarrow> row list"
    and fit :: "row \<Rightarrow> bool"
  assumes end_law: "idle st \<Longrightarrow> left s = (Inr None, t) \<Longrightarrow> loop (Suc f) (s, st) = (Inr None, (t, st))"
    and pull_law: "idle st \<Longrightarrow> left s = (Inr (Some l), t) \<Longrightarrow> fit l \<Longrightarrow>
      \<exists>st'. pending st' (expand l) \<and> (\<forall>f. loop (Suc f) (s, st) = loop (Suc f) (t, st'))"
    and emit_law: "pending st (y # ys) \<Longrightarrow>
      \<exists>st'. (pending st' ys \<or> ys = [] \<and> idle st') \<and> (\<forall>f s. loop (Suc f) (s, st) = (Inr (Some y), (s, st')))"
    and turn_law: "pending st [] \<Longrightarrow> \<exists>st'. idle st' \<and> (\<forall>f s. loop (Suc f) (s, st) = loop f (s, st'))"
begin

lemma pending_fuel:
  assumes "\<And>st. idle st \<Longrightarrow> loop f (s, st) = loop g (s, st)" "pending st ys"
  shows "loop (Suc f) (s, st) = loop (Suc g) (s, st)"
  using assms emit_law turn_law by (cases ys) metis+

lemma idle_fuel:
  "emits left s ls e \<Longrightarrow> list_all fit ls \<Longrightarrow> idle st \<Longrightarrow> length ls < f \<Longrightarrow> length ls < g \<Longrightarrow>
   loop f (s, st) = loop g (s, st)"
proof (induction arbitrary: st f g rule: emits.induct)
  case (emits_done s s')
  then obtain f' g' where "f = Suc f'" "g = Suc g'" by (cases f; cases g) auto
  with emits_done end_law show ?case by simp
next
  case (emits_more s l t ls s')
  obtain f' g' where f: "f = Suc f'" "length ls < f'" "g = Suc g'" "length ls < g'"
    using emits_more.prems(3,4) by (cases f; cases g) auto
  obtain st' where st': "pending st' (expand l)" "\<And>f. loop (Suc f) (s, st) = loop (Suc f) (t, st')"
    using pull_law [OF emits_more.prems(2) emits_more.hyps(1)] emits_more.prems(1) by auto
  have "loop f' (t, st0) = loop g' (t, st0)" if "idle st0" for st0
    using emits_more.prems(1) f that by (intro emits_more.IH) auto
  from pending_fuel [OF this st'(1)] show ?case by (simp add: f st'(2))
qed

lemma pending_emits:
  assumes "\<And>st. idle st \<Longrightarrow> \<exists>e. emits (loop (Suc f)) (s, st) zs e"
    and "\<And>st. idle st \<Longrightarrow> loop f (s, st) = loop (Suc f) (s, st)"
  shows "pending st ys \<Longrightarrow> \<exists>e. emits (loop (Suc f)) (s, st) (ys @ zs) e"
proof (induction ys arbitrary: st)
  case Nil
  then obtain st' where "idle st'" "loop (Suc f) (s, st) = loop f (s, st')" using turn_law by blast
  with assms(1) [of st'] assms(2) [of st'] show ?case by (auto intro: emits_same)
next
  case (Cons y ys)
  then obtain st' where st': "pending st' ys \<or> ys = [] \<and> idle st'" "loop (Suc f) (s, st) = (Inr (Some y), (s, st'))"
    using emit_law by blast
  then have "\<exists>e. emits (loop (Suc f)) (s, st') (ys @ zs) e" using Cons.IH assms(1) by auto
  with st'(2) show ?case by (auto intro: emits.intros(2))
qed

lemma expands:
  "emits left s ls e \<Longrightarrow> list_all fit ls \<Longrightarrow> idle st \<Longrightarrow> length ls < f \<Longrightarrow>
   \<exists>e'. emits (loop f) (s, st) (concat (map expand ls)) e'"
proof (induction arbitrary: st rule: emits.induct)
  case (emits_done s s')
  then obtain f' where "f = Suc f'" by (cases f) auto
  with emits_done end_law show ?case by (auto simp: emits_Nil_iff)
next
  case (emits_more s l t ls s')
  obtain f' where f: "f = Suc f'" "length ls < f'" using emits_more.prems(3) by (cases f) auto
  obtain st' where st': "pending st' (expand l)" "\<And>f. loop (Suc f) (s, st) = loop (Suc f) (t, st')"
    using pull_law [OF emits_more.prems(2) emits_more.hyps(1)] emits_more.prems(1) by auto
  have "\<exists>e. emits (loop (Suc f')) (t, st0) (concat (map expand ls)) e" if "idle st0" for st0
    using emits_more.IH [OF _ that] emits_more.prems(1) f by simp
  moreover have "loop f' (t, st0) = loop (Suc f') (t, st0)" if "idle st0" for st0
    using idle_fuel [OF emits_more.hyps(2) _ that, of f' "Suc f'"] emits_more.prems(1) f by simp
  ultimately obtain e where "emits (loop f) (t, st') (expand l @ concat (map expand ls)) e"
    using pending_emits [OF _ _ st'(1), of f' t] f(1) by blast
  then have "emits (loop f) (s, st) (expand l @ concat (map expand ls)) e"
    by (rule emits_same [rotated]) (simp add: f(1) st'(2))
  then show ?case unfolding list.map concat.simps by blast
qed

end

section \<open>What one left row contributes\<close>

definition pair_ok :: "expr option \<Rightarrow> scope \<Rightarrow> row \<Rightarrow> row \<Rightarrow> bool" where
  "pair_ok on sc l r \<longleftrightarrow> passes_filter on sc (l @ r) = Inr True"

definition pairs_evaluate :: "expr option \<Rightarrow> scope \<Rightarrow> row list \<Rightarrow> row \<Rightarrow> bool" where
  "pairs_evaluate on sc rows l \<longleftrightarrow> list_all (\<lambda>r. \<not> isl (passes_filter on sc (l @ r))) rows"

text \<open>The output still owed for a left row, given the right rows that still match it.\<close>

definition owed :: "join_kind \<Rightarrow> nat \<Rightarrow> row \<Rightarrow> bool \<Rightarrow> row list \<Rightarrow> row list" where
  "owed kind width l matched ms =
     (case kind of
        Semi \<Rightarrow> if ms = [] then [] else [l]
      | Anti \<Rightarrow> if ms = [] \<and> \<not> matched then [l] else []
      | LeftJoin \<Rightarrow> if ms = [] \<and> \<not> matched then [l @ replicate width VNull] else map (\<lambda>r. l @ r) ms
      | _ \<Rightarrow> map (\<lambda>r. l @ r) ms)"

lemma scan_right_none:
  "pairs_evaluate on sc rs l \<Longrightarrow> filter (pair_ok on sc l) rs = [] \<Longrightarrow> scan_right on sc l rs pos = (Inr None, pos + length rs)"
  by (induction rs arbitrary: pos)
    (auto simp: pairs_evaluate_def pair_ok_def split: sum.splits if_splits)

lemma scan_right_some:
  "pairs_evaluate on sc rs l \<Longrightarrow> filter (pair_ok on sc l) rs = r # ms \<Longrightarrow>
   \<exists>k \<le> length rs. scan_right on sc l rs pos = (Inr (Some (l @ r)), pos + k) \<and> filter (pair_ok on sc l) (drop k rs) = ms"
proof (induction rs arbitrary: pos)
  case (Cons x rs)
  show ?case
  proof (cases "pair_ok on sc l x")
    case True
    with Cons.prems show ?thesis by (intro exI [of _ 1]) (simp add: pair_ok_def)
  next
    case False
    with Cons.prems(1) have "passes_filter on sc (l @ x) = Inr False"
      by (cases "passes_filter on sc (l @ x)") (auto simp: pairs_evaluate_def pair_ok_def)
    moreover obtain k where "k \<le> length rs" "scan_right on sc l rs (Suc pos) = (Inr (Some (l @ r)), Suc pos + k)"
      "filter (pair_ok on sc l) (drop k rs) = ms"
      using Cons.IH [of "Suc pos"] Cons.prems False by (auto simp: pairs_evaluate_def)
    ultimately show ?thesis by (intro exI [of _ "Suc k"]) simp
  qed
qed simp

lemma pairs_evaluate_drop: "pairs_evaluate on sc rows l \<Longrightarrow> pairs_evaluate on sc (drop k rows) l"
  by (auto simp: pairs_evaluate_def list_all_iff dest: in_set_dropD)

section \<open>The nested-loop join expands\<close>

definition nlj_idle :: "nlj_state \<Rightarrow> bool" where
  "nlj_idle st \<longleftrightarrow> current_left st = None"

definition nlj_pending :: "join_cfg \<Rightarrow> row list \<Rightarrow> nlj_state \<Rightarrow> row list \<Rightarrow> bool" where
  "nlj_pending cfg rows st ys \<longleftrightarrow> (\<exists>l. current_left st = Some l \<and> pairs_evaluate (jc_on cfg) (jc_scope cfg) rows l \<and>
     right_pos st \<le> length rows \<and>
     ys = owed (jc_kind cfg) (jc_width cfg) l (matched_current st)
       (filter (pair_ok (jc_on cfg) (jc_scope cfg) l) (drop (right_pos st) rows)))"

definition nlj_expand :: "join_cfg \<Rightarrow> row list \<Rightarrow> row \<Rightarrow> row list" where
  "nlj_expand cfg rows l = owed (jc_kind cfg) (jc_width cfg) l False (filter (pair_ok (jc_on cfg) (jc_scope cfg) l) rows)"

text \<open>One turn over a pending left row: a row comes out, or the join turns idle.\<close>

lemma nlj_pair_step:
  assumes "nlj_pending cfg rows st ys" "current_left st = Some l"
  shows "case ys of
      [] \<Rightarrow> \<exists>st'. nlj_idle st' \<and> nlj_pair cfg rows l st = (None, st')
    | y # zs \<Rightarrow> \<exists>st'. (nlj_pending cfg rows st' zs \<or> zs = [] \<and> nlj_idle st') \<and> nlj_pair cfg rows l st = (Some (Inr (Some y)), st')"
proof -
  let ?on = "jc_on cfg" and ?sc = "jc_scope cfg" and ?rs = "drop (right_pos st) rows"
  let ?ms = "filter (pair_ok ?on ?sc l) ?rs"
  have ev: "pairs_evaluate ?on ?sc rows l" "pairs_evaluate ?on ?sc ?rs l" and pos: "right_pos st \<le> length rows"
    and ys: "ys = owed (jc_kind cfg) (jc_width cfg) l (matched_current st) ?ms"
    using assms pairs_evaluate_drop by (auto simp: nlj_pending_def)
  show ?thesis
  proof (cases ?ms)
    case Nil
    then show ?thesis using scan_right_none [OF ev(2) Nil]
      by (cases "jc_kind cfg") (auto simp: ys owed_def nlj_pair_def nlj_idle_def Let_def)
  next
    case (Cons r ms)
    from scan_right_some [OF ev(2) Cons, of "right_pos st"] obtain k where k: "k \<le> length ?rs"
      "scan_right ?on ?sc l ?rs (right_pos st) = (Inr (Some (l @ r)), right_pos st + k)"
      "filter (pair_ok ?on ?sc l) (drop k ?rs) = ms" by auto
    have pend: "nlj_pending cfg rows (st\<lparr>right_pos := right_pos st + k, matched_current := True\<rparr>)
        (owed (jc_kind cfg) (jc_width cfg) l True ms)"
      using assms(2) ev(1) k(1,3) pos by (auto simp: nlj_pending_def add.commute)
    show ?thesis using pend k(2)
      by (cases "jc_kind cfg") (auto simp: ys Cons owed_def nlj_pair_def nlj_idle_def Let_def)
  qed
qed

interpretation nlj: expanding_join "nlj_loop left cfg rows" left nlj_idle "nlj_pending cfg rows" "nlj_expand cfg rows"
  "pairs_evaluate (jc_on cfg) (jc_scope cfg) rows" for left cfg rows
proof unfold_locales
  fix st :: nlj_state and s t l
  assume "nlj_idle st" "left s = (Inr (Some l), t)" "pairs_evaluate (jc_on cfg) (jc_scope cfg) rows l"
  then show "\<exists>st'. nlj_pending cfg rows st' (nlj_expand cfg rows l) \<and>
      (\<forall>f. nlj_loop left cfg rows (Suc f) (s, st) = nlj_loop left cfg rows (Suc f) (t, st'))"
    by (intro exI [of _ "st\<lparr>current_left := Some l, right_pos := 0, matched_current := False\<rparr>"])
      (simp add: nlj_idle_def nlj_pending_def nlj_expand_def)
next
  fix st :: nlj_state and y ys
  assume p: "nlj_pending cfg rows st (y # ys)"
  then obtain l where l: "current_left st = Some l" by (auto simp: nlj_pending_def)
  from nlj_pair_step [OF p l] show "\<exists>st'. (nlj_pending cfg rows st' ys \<or> ys = [] \<and> nlj_idle st') \<and>
      (\<forall>f s. nlj_loop left cfg rows (Suc f) (s, st) = (Inr (Some y), s, st'))"
    by (auto simp: l)
next
  fix st :: nlj_state
  assume p: "nlj_pending cfg rows st []"
  then obtain l where l: "current_left st = Some l" by (auto simp: nlj_pending_def)
  from nlj_pair_step [OF p l] show "\<exists>st'. nlj_idle st' \<and>
      (\<forall>f s. nlj_loop left cfg rows (Suc f) (s, st) = nlj_loop left cfg rows f (s, st'))"
    by (auto simp: l)
qed (simp add: nlj_idle_def)

lemma nlj_loop_keeps: "right_rows (snd (snd (nlj_loop left cfg rows f x))) = right_rows (snd x)"
proof (induction f arbitrary: x)
  case (Suc f)
  have "right_rows (snd (nlj_pair cfg rows l st)) = right_rows st" for l st
    by (auto simp: nlj_pair_def Let_def split: prod.splits sum.splits option.splits join_kind.splits)
  then have "right_rows (snd (snd (case nlj_pair cfg rows l st of (Some r, st') \<Rightarrow> (r, (s, st'))
      | (None, st') \<Rightarrow> nlj_loop left cfg rows f (s, st')))) = right_rows st" for l s st
    using Suc by (auto split: prod.split option.split) (metis snd_conv)+
  then show ?case by (simp add: Let_def split: option.split sum.split prod.split)
qed simp

lemma nlj_next_loop:
  assumes "right_rows (snd x) = Some rows" "nlj_loop left cfg rows fuel x = (r, x')"
  shows "right_rows (snd x') = Some rows \<and> nlj_next left right cfg fuel x = (r, x')"
  using assms nlj_loop_keeps [of left cfg rows fuel x] by (simp add: nlj_next_def)

definition nlj_start :: nlj_state where
  "nlj_start = \<lparr>right_taken = False, right_rows = None, current_left = None, right_pos = 0, matched_current = False\<rparr>"

text \<open>The nested-loop join hands out, left row by left row, what each contributes.\<close>

lemma nlj_emits:
  assumes "emits right s rows t" "emits left t ls e" "length rows < fuel" "length ls < fuel"
    and "list_all (pairs_evaluate (jc_on cfg) (jc_scope cfg) rows) ls"
  shows "\<exists>e'. emits (nlj_next left right cfg fuel) (s, nlj_start) (concat (map (nlj_expand cfg rows) ls)) e'"
proof -
  let ?st = "nlj_start\<lparr>right_taken := True, right_rows := Some rows\<rparr>"
  obtain e' where "emits (nlj_loop left cfg rows fuel) (t, ?st) (concat (map (nlj_expand cfg rows) ls)) e'"
    using nlj.expands [OF assms(2,5) _ assms(4), of ?st] by (auto simp: nlj_idle_def nlj_start_def)
  then have "emits (nlj_next left right cfg fuel) (t, ?st) (concat (map (nlj_expand cfg rows) ls)) e'"
    by (rule emits_cong [where I = "\<lambda>x. right_rows (snd x) = Some rows"]) (simp, rule nlj_next_loop)
  then have "emits (nlj_next left right cfg fuel) (s, nlj_start) (concat (map (nlj_expand cfg rows) ls)) e'"
    by (rule emits_same [rotated]) (simp add: nlj_next_def nlj_start_def drain_emits [OF assms(1,3)])
  then show ?thesis by blast
qed

section \<open>The hash join expands\<close>

definition hash_idle :: "hash_state \<Rightarrow> bool" where
  "hash_idle st \<longleftrightarrow> hj_left st = None"

definition hash_pending :: "hash_cfg \<Rightarrow> (bytes \<Rightarrow> row list option) \<Rightarrow> hash_state \<Rightarrow> row list \<Rightarrow> bool" where
  "hash_pending cfg table st ys \<longleftrightarrow> (\<exists>l. hj_left st = Some l \<and>
     pairs_evaluate (Some (hc_on cfg)) (hc_scope cfg) (bucket table (probe_key st)) l \<and>
     match_pos st \<le> length (bucket table (probe_key st)) \<and>
     ys = owed (if hc_kind cfg = LeftJoin then LeftJoin else Inner) (hc_width cfg) l (hj_matched st)
       (filter (pair_ok (Some (hc_on cfg)) (hc_scope cfg) l) (drop (match_pos st) (bucket table (probe_key st)))))"

definition key_of :: "sql_value \<Rightarrow> bytes option" where
  "key_of v = (if is_null v then None else Some (encode_index_value v))"

definition hash_expand :: "hash_cfg \<Rightarrow> (bytes \<Rightarrow> row list option) \<Rightarrow> row \<Rightarrow> row list" where
  "hash_expand cfg table l = owed (if hc_kind cfg = LeftJoin then LeftJoin else Inner) (hc_width cfg) l False
     (filter (pair_ok (Some (hc_on cfg)) (hc_scope cfg) l) (bucket table (key_of (l ! probe_col cfg))))"

definition hash_fit :: "hash_cfg \<Rightarrow> (bytes \<Rightarrow> row list option) \<Rightarrow> row \<Rightarrow> bool" where
  "hash_fit cfg table l \<longleftrightarrow> probe_col cfg < length l \<and>
     pairs_evaluate (Some (hc_on cfg)) (hc_scope cfg) (bucket table (key_of (l ! probe_col cfg))) l"

lemma hash_pair_step:
  assumes "hash_pending cfg table st ys" "hj_left st = Some l"
  shows "case ys of
      [] \<Rightarrow> \<exists>st'. hash_idle st' \<and> hash_pair cfg table l st = (None, st')
    | y # zs \<Rightarrow> \<exists>st'. (hash_pending cfg table st' zs \<or> zs = [] \<and> hash_idle st') \<and> hash_pair cfg table l st = (Some (Inr (Some y)), st')"
proof -
  let ?on = "Some (hc_on cfg)" and ?sc = "hc_scope cfg" and ?b = "bucket table (probe_key st)"
  let ?rs = "drop (match_pos st) ?b" and ?kind = "if hc_kind cfg = LeftJoin then LeftJoin else Inner"
  let ?ms = "filter (pair_ok ?on ?sc l) ?rs"
  have ev: "pairs_evaluate ?on ?sc ?b l" "pairs_evaluate ?on ?sc ?rs l" and pos: "match_pos st \<le> length ?b"
    and ys: "ys = owed ?kind (hc_width cfg) l (hj_matched st) ?ms"
    using assms pairs_evaluate_drop by (auto simp: hash_pending_def)
  show ?thesis
  proof (cases ?ms)
    case Nil
    then show ?thesis using scan_right_none [OF ev(2) Nil]
      by (auto simp: ys owed_def hash_pair_def hash_idle_def Let_def)
  next
    case (Cons r ms)
    from scan_right_some [OF ev(2) Cons, of "match_pos st"] obtain k where k: "k \<le> length ?rs"
      "scan_right ?on ?sc l ?rs (match_pos st) = (Inr (Some (l @ r)), match_pos st + k)"
      "filter (pair_ok ?on ?sc l) (drop k ?rs) = ms" by auto
    have "hash_pending cfg table (st\<lparr>match_pos := match_pos st + k, hj_matched := True\<rparr>)
        (owed ?kind (hc_width cfg) l True ms)"
      using assms(2) ev(1) k(1,3) pos by (auto simp: hash_pending_def add.commute)
    then show ?thesis using k(2)
      by (cases "hc_kind cfg = LeftJoin") (auto simp: ys Cons owed_def hash_pair_def hash_idle_def)
  qed
qed

interpretation hj: expanding_join "hash_loop left cfg table" left hash_idle "hash_pending cfg table" "hash_expand cfg table"
  "hash_fit cfg table" for left cfg table
proof unfold_locales
  fix st :: hash_state and s t l
  assume "hash_idle st" "left s = (Inr (Some l), t)" "hash_fit cfg table l"
  then show "\<exists>st'. hash_pending cfg table st' (hash_expand cfg table l) \<and>
      (\<forall>f. hash_loop left cfg table (Suc f) (s, st) = hash_loop left cfg table (Suc f) (t, st'))"
    by (intro exI [of _ "st\<lparr>probe_key := key_of (l ! probe_col cfg), match_pos := 0, hj_matched := False, hj_left := Some l\<rparr>"])
      (simp add: hash_idle_def hash_pending_def hash_expand_def hash_fit_def key_of_def index_def)
next
  fix st :: hash_state and y ys
  assume p: "hash_pending cfg table st (y # ys)"
  then obtain l where l: "hj_left st = Some l" by (auto simp: hash_pending_def)
  from hash_pair_step [OF p l] show "\<exists>st'. (hash_pending cfg table st' ys \<or> ys = [] \<and> hash_idle st') \<and>
      (\<forall>f s. hash_loop left cfg table (Suc f) (s, st) = (Inr (Some y), s, st'))"
    by (auto simp: l)
next
  fix st :: hash_state
  assume p: "hash_pending cfg table st []"
  then obtain l where l: "hj_left st = Some l" by (auto simp: hash_pending_def)
  from hash_pair_step [OF p l] show "\<exists>st'. hash_idle st' \<and>
      (\<forall>f s. hash_loop left cfg table (Suc f) (s, st) = hash_loop left cfg table f (s, st'))"
    by (auto simp: l)
qed (simp add: hash_idle_def)

lemma hash_loop_keeps: "hj_table (snd (snd (hash_loop left cfg table f x))) = hj_table (snd x)"
proof (induction f arbitrary: x)
  case (Suc f)
  have "hj_table (snd (hash_pair cfg table l st)) = hj_table st" for l st
    by (auto simp: hash_pair_def Let_def split: prod.splits sum.splits option.splits)
  then have "hj_table (snd (snd (case hash_pair cfg table l st of (Some r, st') \<Rightarrow> (r, (s, st'))
      | (None, st') \<Rightarrow> hash_loop left cfg table f (s, st')))) = hj_table st" for l s st
    using Suc by (auto split: prod.split option.split) (metis snd_conv)+
  then show ?case by (simp add: Let_def split: option.split sum.split prod.split)
qed simp

lemma hash_next_loop:
  assumes "hj_table (snd x) = Some table" "hash_loop left cfg table fuel x = (r, x')"
  shows "hj_table (snd x') = Some table \<and> hash_next left right cfg fuel x = (r, x')"
  using assms hash_loop_keeps [of left cfg table fuel x] by (simp add: hash_next_def)

text \<open>The bucket of a key holds the rows with that key, in their input order.\<close>

lemma hash_build_buckets:
  "list_all (\<lambda>r. col < length r) rows \<Longrightarrow>
   \<exists>table'. hash_build col rows table = Inr table' \<and>
     (\<forall>k. bucket table' (Some k) = bucket table (Some k) @ filter (\<lambda>r. key_of (r ! col) = Some k) rows)"
proof (induction rows arbitrary: table)
  case (Cons r rows)
  then have col: "col < length r" "list_all (\<lambda>r. col < length r) rows" by auto
  let ?t = "if is_null (r ! col) then table else table(encode_index_value (r ! col) \<mapsto>
    (case table (encode_index_value (r ! col)) of None \<Rightarrow> [] | Some b \<Rightarrow> b) @ [r])"
  have "bucket ?t (Some k) = bucket table (Some k) @ (if key_of (r ! col) = Some k then [r] else [])" for k
    by (auto simp: bucket_def key_of_def)
  moreover have "hash_build col (r # rows) table = hash_build col rows ?t"
    using col(1) by (simp add: index_def Let_def)
  moreover obtain table' where "hash_build col rows ?t = Inr table'"
    "\<forall>k. bucket table' (Some k) = bucket ?t (Some k) @ filter (\<lambda>r. key_of (r ! col) = Some k) rows"
    using Cons.IH [OF col(2), of ?t] by blast
  ultimately show ?case by (intro exI [of _ table'] conjI allI) (simp_all only:, simp)
qed simp

definition hash_start :: hash_state where
  "hash_start = \<lparr>hj_taken = False, hj_table = None, hj_left = None, probe_key = None, match_pos = 0, hj_matched = False\<rparr>"

lemma hash_emits:
  assumes "emits right s rows t" "emits left t ls e" "length rows < fuel" "length ls < fuel"
    and "hash_build (build_col cfg) rows Map.empty = Inr table" "list_all (hash_fit cfg table) ls"
  shows "\<exists>e'. emits (hash_next left right cfg fuel) (s, hash_start) (concat (map (hash_expand cfg table) ls)) e'"
proof -
  let ?st = "hash_start\<lparr>hj_taken := True, hj_table := Some table\<rparr>"
  obtain e' where "emits (hash_loop left cfg table fuel) (t, ?st) (concat (map (hash_expand cfg table) ls)) e'"
    using hj.expands [OF assms(2,6) _ assms(4), of ?st] by (auto simp: hash_idle_def hash_start_def)
  then have "emits (hash_next left right cfg fuel) (t, ?st) (concat (map (hash_expand cfg table) ls)) e'"
    by (rule emits_cong [where I = "\<lambda>x. hj_table (snd x) = Some table"]) (simp, rule hash_next_loop)
  then have "emits (hash_next left right cfg fuel) (s, hash_start) (concat (map (hash_expand cfg table) ls)) e'"
    by (rule emits_same [rotated]) (simp add: hash_next_def hash_start_def drain_emits [OF assms(1,3)] assms(5))
  then show ?thesis by blast
qed

section \<open>The hash join returns the rows of the nested loop\<close>

definition minus_zero :: u64 where
  "minus_zero = 0x8000000000000000"

lemma f64_key_cases: "f64_key a = (if uint a < 2 ^ 63 then uint a else 2 ^ 63 - uint a)"
proof -
  have "uint a < 2 ^ 64" using uint_lt2p [of a] by simp
  then have "uint a mod 2 ^ 63 = uint a - 2 ^ 63" if "\<not> uint a < 2 ^ 63"
    using that minus_mod_self2 [of "uint a" "2 ^ 63"] mod_pos_pos_trivial [of "uint a - 2 ^ 63" "2 ^ 63"] by simp
  moreover have "uint a mod 2 ^ 63 = uint a" if "uint a < 2 ^ 63"
    using that by (simp add: mod_pos_pos_trivial)
  ultimately show ?thesis by (auto simp: f64_key_def f64_sign_def)
qed

lemma f64_key_inj:
  assumes "f64_key a = f64_key b" "a \<noteq> minus_zero" "b \<noteq> minus_zero"
  shows "a = b"
proof -
  have "uint a \<noteq> uint minus_zero" "uint b \<noteq> uint minus_zero" using assms(2,3) unsigned_word_eqI by blast+
  then have "uint a \<noteq> 2 ^ 63" "uint b \<noteq> 2 ^ 63" by (simp_all add: minus_zero_def)
  moreover have "0 \<le> uint a" "0 \<le> uint b" by simp_all
  ultimately have "uint a = uint b"
    using assms(1) unfolding f64_key_cases
    by (cases "uint a < 2 ^ 63"; cases "uint b < 2 ^ 63"; simp only: if_True if_False; linarith)
  then show ?thesis by (rule unsigned_word_eqI)
qed

lemma equal_same_key:
  assumes "has_type v t" "has_type w t" "compare_op Eq v w = Inr (VBool True)"
    and "v \<noteq> VReal minus_zero" "w \<noteq> VReal minus_zero"
  shows "key_of v = key_of w \<and> key_of v \<noteq> None"
  using assms
  by (cases v; cases w)
    (auto simp: compare_op_def key_of_def f64_partial_cmp_def rbind_def
      dest: f64_key_inj signed_word_eqI split: if_splits)

text \<open>Where the predicate is TRUE, so is the equality it was recognised by.\<close>

lemma equi_join_columns_true:
  assumes "equi_join_columns l r n sc = Some (p, b)" "length lrow = n"
    and "eval (EBinary Eq l r) (Some \<lparr>rc_scope = sc, rc_values = lrow @ rrow\<rparr>) = Inr (VBool True)"
  shows "p < length lrow \<and> b < length rrow \<and> sc_ty (sc ! p) = sc_ty (sc ! (n + b)) \<and>
    (compare_op Eq (lrow ! p) (rrow ! b) = Inr (VBool True) \<or> compare_op Eq (rrow ! b) (lrow ! p) = Inr (VBool True))"
  using assms(1,3)
  by (auto simp: equi_join_columns_def rbind_def index_def Let_def nth_append assms(2)
      split: expr.splits sum.splits if_splits)

lemma logic_and_true: "logic And a b = Inr (VBool True) \<Longrightarrow> a = VBool True \<and> b = VBool True"
  by (cases a; cases b) (auto simp: logic_def rbind_def elim: and3.elims)

lemma find_equi_join_true:
  assumes "find_equi_join on n sc = Some (p, b)" "length lrow = n"
    and "eval on (Some \<lparr>rc_scope = sc, rc_values = lrow @ rrow\<rparr>) = Inr (VBool True)"
  shows "p < length lrow \<and> b < length rrow \<and> sc_ty (sc ! p) = sc_ty (sc ! (n + b)) \<and>
    (compare_op Eq (lrow ! p) (rrow ! b) = Inr (VBool True) \<or> compare_op Eq (rrow ! b) (lrow ! p) = Inr (VBool True))"
  using assms
proof (induction on n sc rule: find_equi_join.induct)
  case (1 l r n sc)
  then show ?case
    by (auto simp: rbind_def dest!: logic_and_true split: sum.splits option.splits)
next
  case (2 l r n sc)
  then show ?case using equi_join_columns_true [of l r n sc p b lrow rrow] by simp
qed auto

text \<open>The rows of the bucket that pass are the rows of the inner side that pass.\<close>

definition joinable :: "hash_cfg \<Rightarrow> row list \<Rightarrow> row \<Rightarrow> bool" where
  "joinable cfg rows l \<longleftrightarrow>
     find_equi_join (hc_on cfg) (length l) (hc_scope cfg) = Some (probe_col cfg, build_col cfg) \<and>
     pairs_evaluate (Some (hc_on cfg)) (hc_scope cfg) rows l \<and> l ! probe_col cfg \<noteq> VReal minus_zero \<and>
     list_all (\<lambda>r. list_all2 has_type (l @ r) (map sc_ty (hc_scope cfg)) \<and> r ! build_col cfg \<noteq> VReal minus_zero) rows"

lemma pair_ok_same_key:
  assumes "joinable cfg rows l" "r \<in> set rows" "pair_ok (Some (hc_on cfg)) (hc_scope cfg) l r"
  shows "key_of (r ! build_col cfg) = key_of (l ! probe_col cfg) \<and> key_of (l ! probe_col cfg) \<noteq> None"
proof -
  let ?sc = "hc_scope cfg" and ?p = "probe_col cfg" and ?b = "build_col cfg"
  have ty: "list_all2 has_type (l @ r) (map sc_ty ?sc)"
    and z: "l ! ?p \<noteq> VReal minus_zero" "r ! ?b \<noteq> VReal minus_zero"
    using assms(1,2) by (auto simp: joinable_def list_all_iff)
  have "eval (hc_on cfg) (Some \<lparr>rc_scope = ?sc, rc_values = l @ r\<rparr>) = Inr (VBool True)"
    using assms(3) by (auto simp: pair_ok_def passes_filter_def rbind_def split: sum.splits)
  from find_equi_join_true [OF _ _ this] have eq: "?p < length l" "?b < length r"
    "sc_ty (?sc ! ?p) = sc_ty (?sc ! (length l + ?b))"
    "compare_op Eq (l ! ?p) (r ! ?b) = Inr (VBool True) \<or> compare_op Eq (r ! ?b) (l ! ?p) = Inr (VBool True)"
    using assms(1) by (auto simp: joinable_def)
  have "has_type ((l @ r) ! i) (sc_ty (?sc ! i))" if "i < length (l @ r)" for i
    using list_all2_nthD [OF ty that] list_all2_lengthD [OF ty] that by simp
  from this [of ?p] this [of "length l + ?b"] eq(1-3)
  have "has_type (l ! ?p) (sc_ty (?sc ! ?p))" "has_type (r ! ?b) (sc_ty (?sc ! ?p))"
    by (simp_all add: nth_append)
  then show ?thesis using eq(4) z equal_same_key by metis
qed

lemma bucket_matches:
  assumes "joinable cfg rows l" "\<And>k. bucket table (Some k) = filter (\<lambda>r. key_of (r ! build_col cfg) = Some k) rows"
  shows "filter (pair_ok (Some (hc_on cfg)) (hc_scope cfg) l) (bucket table (key_of (l ! probe_col cfg))) =
    filter (pair_ok (Some (hc_on cfg)) (hc_scope cfg) l) rows"
proof (cases "key_of (l ! probe_col cfg)")
  case None
  then have "filter (pair_ok (Some (hc_on cfg)) (hc_scope cfg) l) rows = []"
    using pair_ok_same_key [OF assms(1)] by (auto simp: filter_empty_conv)
  with None show ?thesis by (simp add: bucket_def)
next
  case (Some k)
  have "filter (pair_ok (Some (hc_on cfg)) (hc_scope cfg) l) (filter (\<lambda>r. key_of (r ! build_col cfg) = Some k) rows) =
      filter (pair_ok (Some (hc_on cfg)) (hc_scope cfg) l) rows"
    unfolding filter_filter using pair_ok_same_key [OF assms(1)] Some by (intro filter_cong) auto
  then show ?thesis by (simp add: Some assms(2))
qed

lemma hash_expand_nlj:
  assumes "joinable cfg rows l" "\<And>k. bucket table (Some k) = filter (\<lambda>r. key_of (r ! build_col cfg) = Some k) rows"
    and "hc_kind cfg \<in> {Inner, LeftJoin}"
  shows "hash_expand cfg table l =
    nlj_expand \<lparr>jc_on = Some (hc_on cfg), jc_kind = hc_kind cfg, jc_scope = hc_scope cfg, jc_width = hc_width cfg\<rparr> rows l"
  using assms(3) bucket_matches [OF assms(1,2)] by (auto simp: hash_expand_def nlj_expand_def)

lemma find_equi_join_left: "find_equi_join on n sc = Some (p, b) \<Longrightarrow> p < n"
  by (induction on n sc rule: find_equi_join.induct)
    (auto simp: equi_join_columns_def Let_def split: option.splits expr.splits sum.splits if_splits)

lemma joinable_fit:
  assumes "joinable cfg rows l" "\<And>k. bucket table (Some k) = filter (\<lambda>r. key_of (r ! build_col cfg) = Some k) rows"
  shows "hash_fit cfg table l"
proof -
  have "set (bucket table key) \<subseteq> set rows" for key
    by (cases key) (auto simp: assms(2), simp add: bucket_def)
  from this [of "key_of (l ! probe_col cfg)"] show ?thesis using assms(1) find_equi_join_left
    by (fastforce simp: hash_fit_def joinable_def pairs_evaluate_def list_all_iff)
qed

text \<open>C11: A hash join hands out exactly the rows of the nested-loop join of the same inputs, in the
  same order, for an inner or a left join: every pair that satisfies the ON predicate, left row by left
  row, and for a left join the unmatched left rows padded with NULLs. It holds when the join columns
  were recognised in the predicate, the rows have the types of the scope, the predicate evaluates on
  every pair and no join column holds the negative zero.\<close>

theorem hash_join_agrees:
  assumes "emits right s rows t" "emits left t ls e" "length rows < fuel" "length ls < fuel"
    and "hc_kind cfg \<in> {Inner, LeftJoin}"
    and "list_all (joinable cfg rows) ls" "list_all (\<lambda>r. build_col cfg < length r) rows"
  shows "\<exists>out e1 e2. emits (hash_next left right cfg fuel) (s, hash_start) out e1 \<and>
    emits (nlj_next left right \<lparr>jc_on = Some (hc_on cfg), jc_kind = hc_kind cfg, jc_scope = hc_scope cfg,
       jc_width = hc_width cfg\<rparr> fuel) (s, nlj_start) out e2 \<and>
    out = concat (map (\<lambda>l. let ms = filter (\<lambda>r. passes_filter (Some (hc_on cfg)) (hc_scope cfg) (l @ r) = Inr True) rows in
      if ms = [] \<and> hc_kind cfg = LeftJoin then [l @ replicate (hc_width cfg) VNull] else map (\<lambda>r. l @ r) ms) ls)"
proof -
  let ?j = "\<lparr>jc_on = Some (hc_on cfg), jc_kind = hc_kind cfg, jc_scope = hc_scope cfg, jc_width = hc_width cfg\<rparr>"
  obtain table where tb: "hash_build (build_col cfg) rows Map.empty = Inr table"
    "\<And>k. bucket table (Some k) = filter (\<lambda>r. key_of (r ! build_col cfg) = Some k) rows"
    using hash_build_buckets [OF assms(7), of Map.empty] by (auto simp: bucket_def)
  have fit: "list_all (hash_fit cfg table) ls" using assms(6) joinable_fit [OF _ tb(2)] by (auto simp: list_all_iff)
  have ev: "list_all (pairs_evaluate (jc_on ?j) (jc_scope ?j) rows) ls"
    using assms(6) by (auto simp: list_all_iff joinable_def)
  have "concat (map (hash_expand cfg table) ls) = concat (map (nlj_expand ?j rows) ls)"
    using assms(6) hash_expand_nlj [OF _ tb(2) assms(5)] by (auto simp: list_all_iff intro!: arg_cong [of _ _ concat])
  with hash_emits [OF assms(1-4) tb(1) fit] obtain e1 where
    "emits (hash_next left right cfg fuel) (s, hash_start) (concat (map (nlj_expand ?j rows) ls)) e1" by metis
  moreover obtain e2 where "emits (nlj_next left right ?j fuel) (s, nlj_start) (concat (map (nlj_expand ?j rows) ls)) e2"
    using nlj_emits [OF assms(1-4) ev] by blast
  moreover have "nlj_expand ?j rows = (\<lambda>l. let ms = filter (\<lambda>r. passes_filter (Some (hc_on cfg)) (hc_scope cfg) (l @ r) = Inr True) rows in
      if ms = [] \<and> hc_kind cfg = LeftJoin then [l @ replicate (hc_width cfg) VNull] else map (\<lambda>r. l @ r) ms)"
    using assms(5) by (intro ext) (auto simp: nlj_expand_def owed_def pair_ok_def [abs_def] Let_def)
  ultimately show ?thesis by (intro exI conjI) (assumption, assumption, simp only:)
qed

section \<open>Two zeros\<close>

text \<open>The join of two single REAL columns on equality, its inputs lists.\<close>

definition real_join :: "join_kind \<Rightarrow> hash_cfg" where
  "real_join kind =
     \<lparr>hc_on = EBinary Eq (EColumn (bare [97])) (EColumn (bare [98])), hc_kind = kind,
      hc_scope = [\<lparr>sc_table = [116], sc_name = [97], sc_ty = TReal\<rparr>, \<lparr>sc_table = [117], sc_name = [98], sc_ty = TReal\<rparr>],
      hc_width = 1, probe_col = 0, build_col = 0\<rparr>"

definition left_list :: "(row list \<times> row list, row option) op" where
  "left_list x = (case list_cursor (fst x) of (r, l) \<Rightarrow> (r, (l, snd x)))"

definition right_list :: "(row list \<times> row list, row option) op" where
  "right_list x = (case list_cursor (snd x) of (r, l) \<Rightarrow> (r, (fst x, l)))"

lemma left_list_emits: "emits left_list (xs, ys) xs ([], ys)"
  by (induction xs) (auto simp: left_list_def emits_Nil_iff emits_Cons_iff)

lemma right_list_emits: "emits right_list (xs, ys) ys (xs, [])"
  by (induction ys) (auto simp: right_list_def emits_Nil_iff emits_Cons_iff)

text \<open>The two zeros of \<^verbatim>\<open>f64\<close> compare equal, and \<^verbatim>\<open>find_equi_join\<close> recognises the predicate, but their index
  encodings differ: joining \<open>0.0\<close> with \<open>-0.0\<close>, the nested loop returns the pair and the hash join
  returns nothing.\<close>

theorem hash_join_loses_signed_zero:
  "find_equi_join (hc_on (real_join Inner)) 1 (hc_scope (real_join Inner)) = Some (0, 0) \<and>
   fst (drain (hash_next left_list right_list (real_join Inner) 3) 3 (([[VReal 0]], [[VReal minus_zero]]), hash_start)) = Inr [] \<and>
   fst (drain (nlj_next left_list right_list \<lparr>jc_on = Some (hc_on (real_join Inner)), jc_kind = Inner,
      jc_scope = hc_scope (real_join Inner), jc_width = 1\<rparr> 3) 3 (([[VReal 0]], [[VReal minus_zero]]), nlj_start)) =
     Inr [[VReal 0, VReal minus_zero]]"
proof (intro conjI)
  show "find_equi_join (hc_on (real_join Inner)) 1 (hc_scope (real_join Inner)) = Some (0, 0)" by code_simp
  have "VReal minus_zero < VReal 0" by (simp add: less_sql_value_def real_order_def minus_zero_def)
  from encode_index_value_less [OF this, of "[]" "[]"]
  have enc: "encode_index_value (VReal 0) \<noteq> encode_index_value (VReal minus_zero)" by auto
  have pf: "passes_filter (Some (hc_on (real_join Inner))) (hc_scope (real_join Inner)) [VReal 0, VReal minus_zero] = Inr True"
    by code_simp
  show "fst (drain (hash_next left_list right_list (real_join Inner) 3) 3 (([[VReal 0]], [[VReal minus_zero]]), hash_start)) = Inr []"
    by (simp add: eval_nat_numeral hash_next_def hash_start_def right_list_def left_list_def enc real_join_def index_def
        hash_pair_def bucket_def Let_def del: encode_index_value.simps)
  show "fst (drain (nlj_next left_list right_list \<lparr>jc_on = Some (hc_on (real_join Inner)), jc_kind = Inner,
      jc_scope = hc_scope (real_join Inner), jc_width = 1\<rparr> 3) 3 (([[VReal 0]], [[VReal minus_zero]]), nlj_start)) =
     Inr [[VReal 0, VReal minus_zero]]"
    by (simp add: eval_nat_numeral nlj_next_def nlj_start_def right_list_def left_list_def pf nlj_pair_def Let_def)
qed

theorem hash_join_agrees_witness:
  "\<exists>out e1 e2. emits (hash_next left_list right_list (real_join LeftJoin) 3) (([[VReal 0], [VNull]], [[VReal 0]]), hash_start) out e1 \<and>
    emits (nlj_next left_list right_list \<lparr>jc_on = Some (hc_on (real_join LeftJoin)), jc_kind = LeftJoin,
      jc_scope = hc_scope (real_join LeftJoin), jc_width = 1\<rparr> 3) (([[VReal 0], [VNull]], [[VReal 0]]), nlj_start) out e2 \<and>
    out = [[VReal 0, VReal 0], [VNull, VNull]]"
proof -
  have "list_all (joinable (real_join LeftJoin) [[VReal 0]]) [[VReal 0], [VNull]]" by code_simp
  moreover have "list_all (\<lambda>r. build_col (real_join LeftJoin) < length r) [[VReal 0]]" by code_simp
  moreover have "concat (map (\<lambda>l. let ms = filter (\<lambda>r. passes_filter (Some (hc_on (real_join LeftJoin)))
      (hc_scope (real_join LeftJoin)) (l @ r) = Inr True) [[VReal 0]] in
      if ms = [] \<and> hc_kind (real_join LeftJoin) = LeftJoin then [l @ replicate (hc_width (real_join LeftJoin)) VNull]
      else map (\<lambda>r. l @ r) ms) [[VReal 0], [VNull]]) = [[VReal 0, VReal 0], [VNull, VNull]]" by code_simp
  ultimately show ?thesis
    using hash_join_agrees [OF right_list_emits [of "[[VReal 0], [VNull]]" "[[VReal 0]]"] left_list_emits,
        of 3 "real_join LeftJoin"]
    by (simp add: real_join_def)
qed

end
