(* ===== verification/Catalog.thy ===== *)
theory Catalog
  imports Btree_Map Codec
begin

text \<open>
  The catalog of \<^verbatim>\<open>engine/catalog.rs\<close>: a B+tree of encoded schemas keyed by table name, whose root is
  kept in the database header. The write lock only excludes other threads and carries no data.
  \<open>catalog_holds\<close> reads the tree as a finite map from names to schemas; the operations refine
  the operations of that map.
\<close>

section \<open>Operations\<close>

text \<open>The handle is the root of the tree.\<close>

definition catalog_open :: "(pager, u32) op" where
  "catalog_open s =
     (let root = catalog_root (meta s) in
      if root = 0 then
        (case bt_create pager_ops s of
           (Inl e, t) \<Rightarrow> (Inl e, t)
         | (Inr root, t) \<Rightarrow> (Inr root, set_catalog_root root t))
      else (Inr root, s))"

definition catalog_get :: "nat \<Rightarrow> 's store_ops \<Rightarrow> u32 \<Rightarrow> bytes \<Rightarrow> ('s, schema option) op" where
  "catalog_get fuel st root table =
     sbind (bt_search fuel st root table) (\<lambda>r.
       case r of
         Some bytes \<Rightarrow> sbind (slift (decode_schema bytes)) (\<lambda>s. sret (Some s))
       | None \<Rightarrow> sret None)"

definition catalog_put :: "nat \<Rightarrow> 's store_ops \<Rightarrow> u32 \<Rightarrow> schema \<Rightarrow> ('s, unit) op" where
  "catalog_put fuel st root s = bt_insert fuel st root (sch_name s) (encode_schema s)"

definition catalog_remove :: "nat \<Rightarrow> 's store_ops \<Rightarrow> u32 \<Rightarrow> bytes \<Rightarrow> ('s, bool) op" where
  "catalog_remove fuel st root table = bt_delete fuel st root table"

definition table_names :: "nat \<Rightarrow> 's store_ops \<Rightarrow> u32 \<Rightarrow> ('s, bytes list) op" where
  "table_names fuel st root =
     sbind (bt_scan fuel st root) (\<lambda>es.
       slift (rmap (\<lambda>e. if utf8_valid (fst e) then Inr (fst e) else Inl (Fail Corruption)) es))"

definition index_position :: "bytes \<Rightarrow> schema \<Rightarrow> nat option" where
  "index_position name s =
     find (\<lambda>i. idx_name (sch_indexes s ! i) = name) [0..<length (sch_indexes s)]"

fun first_with_index :: "bytes \<Rightarrow> (bytes \<times> bytes) list \<Rightarrow> (schema \<times> nat) option result" where
  "first_with_index name [] = Inr None"
| "first_with_index name ((_, encoded) # es) =
     rbind (decode_schema encoded) (\<lambda>s.
       case index_position name s of
         Some pos \<Rightarrow> Inr (Some (s, pos))
       | None \<Rightarrow> first_with_index name es)"

definition table_with_index :: "nat \<Rightarrow> 's store_ops \<Rightarrow> u32 \<Rightarrow> bytes \<Rightarrow> ('s, (schema \<times> nat) option) op" where
  "table_with_index fuel st root name = sbind (bt_scan fuel st root) (\<lambda>es. slift (first_with_index name es))"

section \<open>The catalog as a map of schemas\<close>

definition catalog_holds :: "page_map \<Rightarrow> u32 \<Rightarrow> nat \<Rightarrow> bt \<Rightarrow> (bytes \<Rightarrow> schema option) \<Rightarrow> bool" where
  "catalog_holds V root h t cat \<longleftrightarrow> tree_at V root h t \<and>
     (\<forall>name. map_of (entries h t) name = map_option encode_schema (cat name)) \<and>
     (\<forall>name s. cat name = Some s \<longrightarrow> ok_schema s \<and> sch_name s = name)"

lemma decode_schema_holds:
  "catalog_holds V root h t cat \<Longrightarrow> cat name = Some s \<Longrightarrow> decode_schema (encode_schema s) = Inr s"
  using decode_encode_schema [of s "[]"] by (simp add: catalog_holds_def)

lemma catalog_get_holds:
  assumes "represents s V r" "catalog_holds V root h t cat" "cost h t < fuel"
  shows "\<exists>s'. catalog_get fuel pager_ops root name s = (Inr (cat name), s') \<and> represents s' V r"
proof -
  obtain s' where s': "bt_search fuel pager_ops root name s = (Inr (map_of (entries h t) name), s')" "represents s' V r"
    using pager_store.search_from_spec [OF assms(1), of h None None 0 t fuel fuel name] assms(2) cost_bounds [OF assms(3)]
    by (auto simp: bt_search_def tree_at_def catalog_holds_def)
  have "map_of (entries h t) name = map_option encode_schema (cat name)" using assms(2) by (simp add: catalog_holds_def)
  with s' decode_schema_holds [OF assms(2), of name] show ?thesis
    by (cases "cat name") (auto simp: catalog_get_def sbind_def)
qed

lemma catalog_put_holds:
  assumes "represents s V (r + Suc (Suc h) + length (chunks (encode_schema sch)))" "catalog_holds V root h t cat"
    and "cost h t < fuel" "ok_schema sch" "key_fits (sch_name sch)"
  shows "\<exists>s' V' h' t'. catalog_put fuel pager_ops root sch s = (Inr (), s') \<and> represents s' V' r \<and>
    catalog_holds V' root h' t' (cat(sch_name sch \<mapsto> sch))"
proof -
  have t: "tree_at V root h t" using assms(2) by (simp add: catalog_holds_def)
  obtain s' V' h' t' where "catalog_put fuel pager_ops root sch s = (Inr (), s')" "represents s' V' r" "tree_at V' root h' t'"
    "entries h' t' = set_key (sch_name sch) (encode_schema sch) (entries h t)"
    using pager_store.bt_insert_spec [OF assms(1) t assms(3,5)] by (auto simp: catalog_put_def)
  moreover from this(4) have "map_of (entries h' t') = (map_of (entries h t))(sch_name sch \<mapsto> encode_schema sch)"
    by (simp add: map_of_set_key)
  ultimately show ?thesis using assms(2,4)
    by (intro exI [of _ s'] exI [of _ V'] exI [of _ h'] exI [of _ t']) (simp add: catalog_holds_def)
qed

lemma catalog_remove_holds:
  assumes "represents s V r" "catalog_holds V root h t cat" "cost h t < fuel"
  shows "\<exists>s' V' h' t'. catalog_remove fuel pager_ops root name s = (Inr (cat name \<noteq> None), s') \<and> represents s' V' r \<and>
    catalog_holds V' root h' t' (cat(name := None))"
proof -
  have t: "tree_at V root h t" and m: "map_of (entries h t) name = map_option encode_schema (cat name)"
    using assms(2) by (simp_all add: catalog_holds_def)
  obtain s' V' h' t' where "catalog_remove fuel pager_ops root name s = (Inr (map_of (entries h t) name \<noteq> None), s')"
    "represents s' V' r" "tree_at V' root h' t'" "entries h' t' = drop_key name (entries h t)"
    using pager_store.bt_delete_spec [OF assms(1) t assms(3)] unfolding catalog_remove_def by blast
  moreover from this(4) have "map_of (entries h' t') = (map_of (entries h t))(name := None)"
    by (simp add: map_of_drop_key)
  ultimately show ?thesis using assms(2) m
    by (intro exI [of _ s'] exI [of _ V'] exI [of _ h'] exI [of _ t']) (simp add: catalog_holds_def)
qed

lemma catalog_scan:
  assumes "represents s V r" "catalog_holds V root h t cat" "cost h t < fuel"
  shows "\<exists>s'. bt_scan fuel pager_ops root s = (Inr (entries h t), s') \<and> represents s' V r"
  using pager_store.scan_spec [OF assms(1), of h t fuel None None] assms(2,3) cost_bounds [OF assms(3)]
  by (auto simp: bt_scan_def catalog_holds_def tree_at_def cost_def above_def below_def)

lemma index_position_Some:
  "index_position name s = Some pos \<longleftrightarrow> pos < length (sch_indexes s) \<and> idx_name (sch_indexes s ! pos) = name \<and>
     (\<forall>j < pos. idx_name (sch_indexes s ! j) \<noteq> name)"
  by (auto simp: index_position_def find_Some_iff)

lemma first_with_index_spec:
  assumes "\<forall>e \<in> set es. \<exists>s. decode_schema (snd e) = Inr s"
  shows "first_with_index name es =
    Inr (case filter (\<lambda>s. index_position name s \<noteq> None) (map (\<lambda>e. projr (decode_schema (snd e))) es) of
      [] \<Rightarrow> None | s # _ \<Rightarrow> Some (s, the (index_position name s)))"
  using assms
proof (induction es)
  case (Cons e es)
  then show ?case by (cases e) (auto split: option.split)
qed simp

lemma entries_decode:
  assumes "catalog_holds V root h t cat" "e \<in> set (entries h t)"
  shows "\<exists>s. decode_schema (snd e) = Inr s \<and> cat (sch_name s) = Some s \<and> fst e = sch_name s"
proof -
  have wf: "bt_wf V h None None 0 t" using assms(1) by (simp add: catalog_holds_def tree_at_def)
  have "distinct (map fst (entries h t))" using wf_sorted [OF wf] strict_sorted_iff by blast
  then have "map_of (entries h t) (fst e) = Some (snd e)" using assms(2) by (simp add: map_of_eq_Some_iff)
  then obtain s where "cat (fst e) = Some s" "snd e = encode_schema s" using assms(1) by (auto simp: catalog_holds_def)
  then show ?thesis using decode_schema_holds [OF assms(1)] assms(1) by (auto simp: catalog_holds_def)
qed

lemma catalog_entry:
  assumes "catalog_holds V root h t cat" "cat name = Some s"
  shows "(name, encode_schema s) \<in> set (entries h t)"
  using assms map_of_SomeD [of "entries h t" name] by (simp add: catalog_holds_def)

section \<open>Properties\<close>


text \<open>Looking an index up by name scans every table: it returns a table that owns an index of that name with the
  position of the first such index in it, and returns none only when no table has one.\<close>

theorem table_with_index_finds:
  assumes "represents s V r" "catalog_holds V root h t cat" "cost h t < fuel"
  shows "\<exists>found s'. table_with_index fuel pager_ops root name s = (Inr found, s') \<and> represents s' V r \<and>
    (case found of
       None \<Rightarrow> \<forall>table sch. cat table = Some sch \<longrightarrow> name \<notin> idx_name ` set (sch_indexes sch)
     | Some (sch, pos) \<Rightarrow> cat (sch_name sch) = Some sch \<and> pos < length (sch_indexes sch) \<and>
         idx_name (sch_indexes sch ! pos) = name)"
proof -
  let ?ss = "map (\<lambda>e. projr (decode_schema (snd e))) (entries h t)"
  let ?found = "case filter (\<lambda>s. index_position name s \<noteq> None) ?ss of [] \<Rightarrow> None | s # _ \<Rightarrow> Some (s, the (index_position name s))"
  obtain s' where s': "bt_scan fuel pager_ops root s = (Inr (entries h t), s')" "represents s' V r"
    using catalog_scan [OF assms] by blast
  have dec: "\<forall>e \<in> set (entries h t). \<exists>s. decode_schema (snd e) = Inr s" using entries_decode [OF assms(2)] by blast
  have "table_with_index fuel pager_ops root name s = (Inr ?found, s')"
    by (simp add: table_with_index_def sbind_def s'(1) first_with_index_spec [OF dec])
  moreover have "case ?found of
       None \<Rightarrow> \<forall>table sch. cat table = Some sch \<longrightarrow> name \<notin> idx_name ` set (sch_indexes sch)
     | Some (sch, pos) \<Rightarrow> cat (sch_name sch) = Some sch \<and> pos < length (sch_indexes sch) \<and>
         idx_name (sch_indexes sch ! pos) = name"
  proof (cases "filter (\<lambda>s. index_position name s \<noteq> None) ?ss")
    case Nil
    have "index_position name sch = None" if "cat table = Some sch" for table sch
      using Nil catalog_entry [OF assms(2) that] decode_schema_holds [OF assms(2) that]
      by (force simp: filter_empty_conv)
    then show ?thesis unfolding Nil by (fastforce simp: index_position_def find_None_iff in_set_conv_nth)
  next
    case (Cons sch rest)
    then have "sch \<in> set (filter (\<lambda>s. index_position name s \<noteq> None) ?ss)" by simp
    then have "sch \<in> set ?ss" "index_position name sch \<noteq> None" by auto
    then show ?thesis unfolding Cons using entries_decode [OF assms(2)] index_position_Some [of name sch] by fastforce
  qed
  ultimately show ?thesis using s'(2) by blast
qed

section \<open>Witnesses\<close>

definition small_schema :: schema where
  "small_schema = \<lparr>sch_name = [116], sch_columns = [], sch_root = 4, next_rowid = 1, row_count = 0,
     sch_indexes = [], primary_key_column = None, mutations_since_analyze = 0\<rparr>"

lemma small_schema_ok: "ok_schema small_schema" "key_fits (sch_name small_schema)" "length (chunks (encode_schema small_schema)) = 1"
proof -
  show "ok_schema small_schema" by (simp add: small_schema_def ok_schema_def ok_name_def)
  show "key_fits (sch_name small_schema)" by (simp add: small_schema_def key_fits_def page_consts)
  have "length (encode_schema small_schema) < 100" "length (encode_schema small_schema) \<noteq> 0"
    by (simp_all add: small_schema_def encode_schema_def write_str_def)
  then show "length (chunks (encode_schema small_schema)) = 1"
    by (subst chunks.simps, subst chunks.simps) (auto simp: chunk_capacity_def OVERFLOW_HEADER_def PAGE_SIZE_def)
qed


theorem table_with_index_finds_witness:
  "\<exists>root s s'. bt_create pager_ops sample_pager = (Inr root, s) \<and> table_with_index 2 pager_ops root [105] s = (Inr None, s')"
proof -
  obtain root s p where r: "bt_create pager_ops sample_pager = (Inr root, s)" "represents s ([1 \<mapsto> page_at [] 1, root \<mapsto> p]) 8"
    "tree_at [1 \<mapsto> page_at [] 1, root \<mapsto> p] root 0 (BLeaf root [] 0)" using sample_tree by blast
  have "catalog_holds [1 \<mapsto> page_at [] 1, root \<mapsto> p] root 0 (BLeaf root [] 0) Map.empty"
    using r(3) by (simp add: catalog_holds_def)
  from table_with_index_finds [OF r(2) this sample_cost, of "[105]"] r(1) show ?thesis
    by (fastforce split: option.splits)
qed

end
