(* ===== verification/Access_Path.thy ===== *)
theory Access_Path
  imports Join_Operators Catalog
begin

text \<open>
  Access-path selection of \<^verbatim>\<open>engine/planner.rs\<close>, and the scans of \<^verbatim>\<open>engine/executor.rs\<close> that follow
  it. The planner turns the conjuncts of a WHERE clause into a range of index keys; the properties
  say that the range misses no row the clause accepts, and that an index scan taken for
  ordered delivers the ORDER BY order.
\<close>

section \<open>Predicates on one column\<close>

datatype access_path = FullScan | IndexScan u32 bytes "bytes option"

datatype pred_kind = PEq sql_value | PLower sql_value bool | PUpper sql_value bool

record column_predicate =
  cp_column :: nat
  cp_kind :: pred_kind

record index_plan =
  pinned :: nat
  has_range :: bool
  plan_lower :: bytes
  plan_upper :: "bytes option"

fun literal_value :: "expr \<Rightarrow> sql_value option" where
  "literal_value (EInteger n) = Some (VInt n)"
| "literal_value (EReal r) = Some (VReal r)"
| "literal_value (EStr s) = Some (VText s)"
| "literal_value (EBool b) = Some (VBool b)"
| "literal_value _ = None"

fun flip_op :: "binary_op \<Rightarrow> binary_op" where
  "flip_op Lt = Gt"
| "flip_op LtEq = GtEq"
| "flip_op Gt = Lt"
| "flip_op GtEq = LtEq"
| "flip_op op = op"

fun pred_of :: "binary_op \<Rightarrow> sql_value \<Rightarrow> pred_kind option" where
  "pred_of Eq v = Some (PEq v)"
| "pred_of Gt v = Some (PLower v False)"
| "pred_of GtEq v = Some (PLower v True)"
| "pred_of Lt v = Some (PUpper v False)"
| "pred_of LtEq v = Some (PUpper v True)"
| "pred_of _ v = None"

definition oriented :: "expr \<Rightarrow> (column_ref \<times> sql_value \<times> binary_op) option" where
  "oriented e =
     (case e of
        EBinary op (EColumn c) other \<Rightarrow> map_option (\<lambda>v. (c, v, op)) (literal_value other)
      | EBinary op other (EColumn c) \<Rightarrow> map_option (\<lambda>v. (c, v, flip_op op)) (literal_value other)
      | _ \<Rightarrow> None)"

definition classify :: "expr \<Rightarrow> schema \<Rightarrow> column_predicate option" where
  "classify e sch =
     (case oriented e of
        None \<Rightarrow> None
      | Some (c, literal, op) \<Rightarrow>
          (case column_index sch (cr_name c) of
             None \<Rightarrow> None
           | Some column \<Rightarrow>
               (case coerce literal (col_ty (sch_columns sch ! column)) of
                  Inl _ \<Rightarrow> None
                | Inr v \<Rightarrow>
                    if is_null v then None
                    else map_option (\<lambda>k. \<lparr>cp_column = column, cp_kind = k\<rparr>) (pred_of op v))))"

fun collect_conjuncts :: "expr \<Rightarrow> expr list" where
  "collect_conjuncts (EBinary And l r) = collect_conjuncts l @ collect_conjuncts r"
| "collect_conjuncts e = [e]"

section \<open>Choosing an index\<close>

fun find_map :: "('a \<Rightarrow> 'b option) \<Rightarrow> 'a list \<Rightarrow> 'b option" where
  "find_map f [] = None"
| "find_map f (x # xs) = (case f x of Some y \<Rightarrow> Some y | None \<Rightarrow> find_map f xs)"

definition eq_pred :: "column_predicate list \<Rightarrow> nat \<Rightarrow> sql_value option" where
  "eq_pred ps c = find_map (\<lambda>p. case cp_kind p of PEq v \<Rightarrow> if cp_column p = c then Some v else None | _ \<Rightarrow> None) ps"

definition lower_pred :: "column_predicate list \<Rightarrow> nat \<Rightarrow> (sql_value \<times> bool) option" where
  "lower_pred ps c = find_map (\<lambda>p. case cp_kind p of PLower v i \<Rightarrow> if cp_column p = c then Some (v, i) else None | _ \<Rightarrow> None) ps"

definition upper_pred :: "column_predicate list \<Rightarrow> nat \<Rightarrow> (sql_value \<times> bool) option" where
  "upper_pred ps c = find_map (\<lambda>p. case cp_kind p of PUpper v i \<Rightarrow> if cp_column p = c then Some (v, i) else None | _ \<Rightarrow> None) ps"

text \<open>The loop over the index columns: the pinned prefix, and the range on the column that ends it.\<close>

fun leftmost :: "column_predicate list \<Rightarrow> nat list \<Rightarrow> bytes \<Rightarrow> nat
    \<Rightarrow> bytes \<times> nat \<times> (sql_value \<times> bool) option \<times> (sql_value \<times> bool) option" where
  "leftmost ps [] pre n = (pre, n, None, None)"
| "leftmost ps (c # cs) pre n =
     (case eq_pred ps c of
        Some v \<Rightarrow> leftmost ps cs (pre @ encode_index_value v) (Suc n)
      | None \<Rightarrow> (pre, n, lower_pred ps c, upper_pred ps c))"

definition lower_key :: "bytes \<Rightarrow> (sql_value \<times> bool) option \<Rightarrow> bytes option" where
  "lower_key pre lo =
     (case lo of
        None \<Rightarrow> Some pre
      | Some (v, inclusive) \<Rightarrow>
          if inclusive then Some (pre @ encode_index_value v)
          else map_option (\<lambda>b. pre @ b) (prefix_upper_bound (encode_index_value v)))"

definition upper_key :: "bytes \<Rightarrow> nat \<Rightarrow> (sql_value \<times> bool) option \<Rightarrow> bytes option option" where
  "upper_key pre n hi =
     (case hi of
        Some (v, inclusive) \<Rightarrow>
          if inclusive then map_option (\<lambda>b. Some (pre @ b)) (prefix_upper_bound (encode_index_value v))
          else Some (Some (pre @ encode_index_value v))
      | None \<Rightarrow> Some (if 0 < n then prefix_upper_bound pre else None))"

definition build_index_scan :: "index_def \<Rightarrow> column_predicate list \<Rightarrow> index_plan option" where
  "build_index_scan i ps =
     (case leftmost ps (idx_columns i) [] 0 of
        (pre, n, lo, hi) \<Rightarrow>
          let range = (lo \<noteq> None \<or> hi \<noteq> None) in
          if n = 0 \<and> \<not> range then None
          else (case (lower_key pre lo, upper_key pre n hi) of
                  (Some low, Some high) \<Rightarrow> Some \<lparr>pinned = n, has_range = range, plan_lower = low, plan_upper = high\<rparr>
                | _ \<Rightarrow> None))"

definition order_matches :: "index_def \<Rightarrow> nat \<Rightarrow> schema \<Rightarrow> order_key list \<Rightarrow> bool" where
  "order_matches i n sch order_by \<longleftrightarrow>
     \<not> (order_by = [] \<or> list_ex ord_descending order_by) \<and>
     (let effective = drop (min n (length (idx_columns i))) (idx_columns i) in
      length order_by \<le> length effective \<and>
      list_all (\<lambda>(k, c). c < length (sch_columns sch) \<and> col_name (sch_columns sch ! c) = cr_name (ord_column k))
        (zip order_by effective))"

text \<open>\<open>(pinned, has_range)\<close> pairs compare lexicographically.\<close>

definition improves :: "index_plan \<Rightarrow> index_plan \<Rightarrow> bool" where
  "improves p q \<longleftrightarrow> pinned q < pinned p \<or> pinned p = pinned q \<and> has_range p \<and> \<not> has_range q"

fun best_index :: "column_predicate list \<Rightarrow> index_def list \<Rightarrow> (index_def \<times> index_plan) option
    \<Rightarrow> (index_def \<times> index_plan) option" where
  "best_index ps [] best = best"
| "best_index ps (i # is) best =
     (if is_building i then best_index ps is best
      else case build_index_scan i ps of
        None \<Rightarrow> best_index ps is best
      | Some plan \<Rightarrow>
          best_index ps is
            (case best of
               None \<Rightarrow> Some (i, plan)
             | Some (j, current) \<Rightarrow> if improves plan current then Some (i, plan) else best))"

definition choose_path :: "schema \<Rightarrow> expr \<Rightarrow> order_key list \<Rightarrow> access_path \<times> bool" where
  "choose_path sch predicate order_by =
     (case best_index (List.map_filter (\<lambda>e. classify e sch) (collect_conjuncts predicate)) (sch_indexes sch) None of
        None \<Rightarrow> (FullScan, False)
      | Some (i, plan) \<Rightarrow> (IndexScan (idx_root i) (plan_lower plan) (plan_upper plan), order_matches i (pinned plan) sch order_by))"

definition choose_access :: "nat \<Rightarrow> 's store_ops \<Rightarrow> u32 \<Rightarrow> bytes \<Rightarrow> expr option \<Rightarrow> order_key list
    \<Rightarrow> ('s, access_path \<times> bool) op" where
  "choose_access fuel st catalog table predicate order_by =
     (case predicate of
        None \<Rightarrow> sret (FullScan, False)
      | Some f \<Rightarrow>
          sbind (catalog_get fuel st catalog table) (\<lambda>r.
            case r of
              None \<Rightarrow> sret (FullScan, False)
            | Some sch \<Rightarrow>
                if sch_indexes sch = [] then sret (FullScan, False)
                else sret (choose_path sch f order_by)))"

section \<open>Name resolution in one table\<close>

lemma resolve_from_found: "resolve_from i (Some k) sc r = Inr j \<longleftrightarrow> j = k \<and> list_all (\<lambda>c. \<not> col_matches r c) sc"
  by (induction sc arbitrary: i) auto

lemma resolve_from_none:
  "resolve_from i None sc r = Inr j \<longleftrightarrow> i \<le> j \<and> j - i < length sc \<and> col_matches r (sc ! (j - i)) \<and>
     (\<forall>k < length sc. k \<noteq> j - i \<longrightarrow> \<not> col_matches r (sc ! k))"
proof (induction sc arbitrary: i)
  case (Cons c sc)
  show ?case
  proof (cases "col_matches r c")
    case True
    then show ?thesis
      by (auto simp: resolve_from_found list_all_length nth_Cons' gr0_conv_Suc split: if_splits)
  next
    case False
    then show ?thesis
      by (auto simp: Cons.IH nth_Cons' Suc_diff_Suc [symmetric] not_less_eq_eq split: if_splits)
  qed
qed simp

lemma resolve_single:
  assumes "resolve (scope_single q sch) c = Inr i"
  shows "i < length (sch_columns sch)" "column_index sch (cr_name c) = Some i"
    "\<And>k. k < length (sch_columns sch) \<Longrightarrow> col_name (sch_columns sch ! k) = cr_name c \<Longrightarrow> k = i"
proof -
  have r: "i < length (sch_columns sch)" "col_matches c (scope_single q sch ! i)"
    "\<And>k. k < length (sch_columns sch) \<Longrightarrow> k \<noteq> i \<Longrightarrow> \<not> col_matches c (scope_single q sch ! k)"
    using assms by (auto simp: resolve_def resolve_from_none scope_single_def scope_extend_def)
  then show "i < length (sch_columns sch)" by simp
  show u: "k = i" if "k < length (sch_columns sch)" "col_name (sch_columns sch ! k) = cr_name c" for k
    using r that by (cases "cr_table c") (auto simp: col_matches_def scope_single_def scope_extend_def)
  have "col_name (sch_columns sch ! i) = cr_name c"
    using r by (auto simp: col_matches_def scope_single_def scope_extend_def)
  moreover have "\<forall>j < i. col_name (sch_columns sch ! j) \<noteq> cr_name c" using u r(1) by (metis less_irrefl less_trans)
  ultimately show "column_index sch (cr_name c) = Some i"
    unfolding column_index_def find_Some_iff using r(1) by (intro exI [of _ i]) simp
qed

section \<open>Comparison and index order\<close>

definition plain :: "sql_value \<Rightarrow> bool" where
  "plain v \<longleftrightarrow> v \<noteq> VNull \<and> v \<noteq> VReal minus_zero"

lemma real_order_cases: "real_order a = (if uint a < 2 ^ 63 then uint a else 2 ^ 63 - uint a - 1)"
  by (simp add: real_order_def bit_63_iff)

lemma f64_key_less_iff:
  assumes "a \<noteq> minus_zero" "b \<noteq> minus_zero"
  shows "f64_key a < f64_key b \<longleftrightarrow> real_order a < real_order b"
proof -
  have "uint a \<noteq> uint minus_zero" "uint b \<noteq> uint minus_zero" using assms unsigned_word_eqI by blast+
  then have "uint a \<noteq> 2 ^ 63" "uint b \<noteq> 2 ^ 63" by (simp_all add: minus_zero_def)
  moreover have "0 \<le> uint a" "0 \<le> uint b" by simp_all
  ultimately show ?thesis unfolding f64_key_cases real_order_cases
    by (cases "uint a < 2 ^ 63"; cases "uint b < 2 ^ 63"; simp only: if_True if_False; linarith)
qed

text \<open>On values of one column other than NULL and the negative zero, comparison is the order of the index.\<close>

lemma compare_index_order:
  assumes "has_type v t" "has_type w t" "plain v" "plain w" "compare v w = Inr c"
  shows "c = cmp v w"
proof (cases "\<exists>x y. v = VReal x \<and> w = VReal y")
  case True
  then obtain x y where xy: "v = VReal x" "w = VReal y" by blast
  then have "x \<noteq> minus_zero" "y \<noteq> minus_zero" "c = cmp (f64_key x) (f64_key y)"
    using assms by (auto simp: plain_def f64_partial_cmp_def split: if_splits)
  then show ?thesis using f64_key_less_iff [of x y] f64_key_inj [of x y]
    by (auto simp: xy cmp_def less_sql_value_def)
next
  case False
  then show ?thesis using assms
    by (cases v; cases w) (auto simp: plain_def cmp_def less_sql_value_def dest: signed_word_eqI)
qed

fun pred_holds :: "pred_kind \<Rightarrow> sql_value \<Rightarrow> bool" where
  "pred_holds (PEq v) w \<longleftrightarrow> w = v"
| "pred_holds (PLower v inclusive) w \<longleftrightarrow> (if inclusive then v \<le> w else v < w)"
| "pred_holds (PUpper v inclusive) w \<longleftrightarrow> (if inclusive then w \<le> v else w < v)"

fun pred_value :: "pred_kind \<Rightarrow> sql_value" where
  "pred_value (PEq v) = v"
| "pred_value (PLower v _) = v"
| "pred_value (PUpper v _) = v"

text \<open>Comparing with a literal is comparing with the literal coerced to the column's type.\<close>

lemma coerce_compare:
  assumes "coerce l t = Inr v" "has_type w t"
  shows "compare w l = compare w v \<and> compare l w = compare v w \<and> has_type v t \<and> is_null v = is_null l"
  using assms by (cases l; cases t; cases w) (auto simp: is_null_def)

lemma pred_of_holds:
  assumes "pred_of op v = Some k" "has_type w t" "has_type v t" "plain v" "w \<noteq> VReal minus_zero"
    and "compare_op op w v = Inr (VBool True)"
  shows "pred_holds k w"
proof -
  from assms(6) have "\<not> is_null w" by (auto simp: compare_op_def)
  then have "plain w" using assms(5) by (simp add: plain_def is_null_def)
  obtain c where "compare w v = Inr c" "verdict op c = Inr True"
    using assms(6) by (auto simp: compare_op_def rbind_def split: if_splits sum.splits)
  with compare_index_order [OF assms(2,3) \<open>plain w\<close> assms(4)] assms(1) show ?thesis
    by (cases op) (auto simp: cmp_def split: if_splits)
qed

lemma compare_op_flip:
  assumes "compare_op op l w = Inr (VBool True)" "has_type w t" "has_type l t" "plain l" "w \<noteq> VReal minus_zero"
    "pred_of (flip_op op) l = Some k"
  shows "pred_holds k w"
proof -
  from assms(1) have "\<not> is_null w" by (auto simp: compare_op_def)
  then have "plain w" using assms(5) by (simp add: plain_def is_null_def)
  obtain c where "compare l w = Inr c" "verdict op c = Inr True"
    using assms(1) by (auto simp: compare_op_def rbind_def split: if_splits sum.splits)
  with compare_index_order [OF assms(3,2,4) \<open>plain w\<close>] assms(6) show ?thesis
    by (cases op) (auto simp: cmp_def split: if_splits)
qed

lemma literal_eval: "literal_value e = Some v \<Longrightarrow> eval e ctx = Inr v"
  by (cases e) auto

text \<open>A conjunct that is TRUE of a row holds of the row's cell as the predicate it was classified to.\<close>

lemma classify_holds:
  assumes "classify e sch = Some p" "list_all2 has_type row (map col_ty (sch_columns sch))"
    and "\<forall>v \<in> set row. v \<noteq> VReal minus_zero" "pred_value (cp_kind p) \<noteq> VReal minus_zero"
    and "eval e (Some \<lparr>rc_scope = scope_single q sch, rc_values = row\<rparr>) = Inr (VBool True)"
  shows "cp_column p < length row \<and> pred_holds (cp_kind p) (row ! cp_column p)"
proof -
  let ?ctx = "Some \<lparr>rc_scope = scope_single q sch, rc_values = row\<rparr>"
  obtain c l op column v k where o: "oriented e = Some (c, l, op)" "column_index sch (cr_name c) = Some column"
    "coerce l (col_ty (sch_columns sch ! column)) = Inr v" "\<not> is_null v" "pred_of op v = Some k"
    "p = \<lparr>cp_column = column, cp_kind = k\<rparr>"
    using assms(1) by (auto simp: classify_def split: option.splits sum.splits if_splits)
  have pv: "plain v" using o(4,5,6) assms(4) by (cases op) (auto simp: plain_def is_null_def)
  have col: "column < length row" using column_index_Some(1) [OF o(2)] list_all2_lengthD [OF assms(2)] by simp
  then have ty: "has_type (row ! column) (col_ty (sch_columns sch ! column))" "row ! column \<noteq> VReal minus_zero"
    using list_all2_nthD [OF assms(2)] list_all2_lengthD [OF assms(2)] assms(3) by auto
  have cell: "eval (EColumn c) ?ctx = Inr w \<Longrightarrow> w = row ! column" for w
    using resolve_single(2) [of q sch c] o(2) by (auto simp: rbind_def index_def split: sum.splits if_splits)
  note cc = coerce_compare [OF o(3) ty(1)]
  have cop: "compare_op op' (row ! column) l = compare_op op' (row ! column) v \<and>
      compare_op op' l (row ! column) = compare_op op' v (row ! column)" for op'
    using cc by (simp add: compare_op_def)
  consider (left) other op' where "e = EBinary op' (EColumn c) other" "literal_value other = Some l" "op = op'"
    | (right) other op' where "e = EBinary op' other (EColumn c)" "literal_value other = Some l" "op = flip_op op'"
    using o(1) by (auto simp: oriented_def split: expr.splits)
  then show ?thesis
  proof cases
    case left
    have "op' \<in> {Eq, Lt, LtEq, Gt, GtEq}" using o(5) left(3) by (cases op') auto
    then have "compare_op op (row ! column) v = Inr (VBool True)"
      using assms(5) left cell cop by (auto simp: rbind_def literal_eval simp del: eval.simps(7) split: sum.splits)
    then show ?thesis using pred_of_holds [OF o(5) ty(1) _ pv ty(2)] cc col by (simp add: o(6))
  next
    case right
    have "op' \<in> {Eq, Lt, LtEq, Gt, GtEq}" using o(5) right(3) by (cases op') auto
    then have "compare_op op' v (row ! column) = Inr (VBool True)"
      using assms(5) right cell cop by (auto simp: rbind_def literal_eval simp del: eval.simps(7) split: sum.splits)
    then show ?thesis using compare_op_flip [OF _ ty(1) _ pv ty(2)] o(5) right(3) cc col by (simp add: o(6))
  qed
qed

lemma conjuncts_true:
  "eval e ctx = Inr (VBool True) \<Longrightarrow> c \<in> set (collect_conjuncts e) \<Longrightarrow> eval c ctx = Inr (VBool True)"
  by (induction e rule: collect_conjuncts.induct) (auto simp: rbind_def dest!: logic_and_true split: sum.splits)

section \<open>The range of keys\<close>

definition all_hold :: "column_predicate list \<Rightarrow> sql_value list \<Rightarrow> bool" where
  "all_hold ps row \<longleftrightarrow> list_all (\<lambda>p. pred_holds (cp_kind p) (row ! cp_column p)) ps"

lemma find_map_Some: "find_map f xs = Some y \<Longrightarrow> \<exists>x \<in> set xs. f x = Some y"
  by (induction xs) (auto split: option.splits)

lemma preds_hold:
  assumes "all_hold ps row"
  shows "eq_pred ps c = Some v \<Longrightarrow> row ! c = v"
    and "lower_pred ps c = Some (v, i) \<Longrightarrow> pred_holds (PLower v i) (row ! c)"
    and "upper_pred ps c = Some (v, i) \<Longrightarrow> pred_holds (PUpper v i) (row ! c)"
  using assms
  by (fastforce simp: eq_pred_def lower_pred_def upper_pred_def all_hold_def list_all_iff
      split: pred_kind.splits if_splits dest!: find_map_Some)+

abbreviation "tuple_key row cs \<equiv> concat (map encode_index_value (map ((!) row) cs))"

text \<open>The pinned prefix is the encoding of the row's leading index columns.\<close>

lemma leftmost_prefix:
  assumes "all_hold ps row" "leftmost ps cs pre n = (pre', n', lo, hi)"
  shows "\<exists>as bs. cs = as @ bs \<and> pre' = pre @ tuple_key row as \<and> n' = n + length as \<and>
    (\<forall>c \<in> set as. eq_pred ps c \<noteq> None) \<and>
    (case bs of [] \<Rightarrow> lo = None \<and> hi = None | c # _ \<Rightarrow> lo = lower_pred ps c \<and> hi = upper_pred ps c)"
  using assms(2)
proof (induction cs arbitrary: pre n)
  case (Cons c cs)
  show ?case
  proof (cases "eq_pred ps c")
    case None
    with Cons.prems show ?thesis by (intro exI [of _ "[]"] exI [of _ "c # cs"]) simp
  next
    case (Some v)
    then have "row ! c = v" by (rule preds_hold(1) [OF assms(1)])
    moreover obtain as bs where "cs = as @ bs" "pre' = (pre @ encode_index_value v) @ tuple_key row as"
      "n' = Suc n + length as" "\<forall>c \<in> set as. eq_pred ps c \<noteq> None"
      "case bs of [] \<Rightarrow> lo = None \<and> hi = None | c # _ \<Rightarrow> lo = lower_pred ps c \<and> hi = upper_pred ps c"
      using Cons.IH [of "pre @ encode_index_value v" "Suc n"] Cons.prems Some by auto
    ultimately show ?thesis using Some by (intro exI [of _ "c # as"] exI [of _ bs]) simp
  qed
qed simp

lemma append_le_iff: "p @ a \<le> p @ b \<longleftrightarrow> a \<le> b" "p @ a < p @ b \<longleftrightarrow> a < b"
  for p a b :: "'a::linorder list"
  by (induction p) auto

text \<open>Keys that extend the encoding of a value, against the encoding of a bound and against its upper bound.\<close>

lemma bound_below:
  assumes "v \<le> w" shows "encode_index_value v \<le> encode_index_value w @ x"
proof (cases "v = w")
  case True
  then show ?thesis by (simp add: prefix_le)
next
  case False
  then have "v < w" using assms by simp
  from encode_index_value_less [OF this, of "[]" x] show ?thesis by simp
qed

lemma bound_past:
  assumes "v < w" "prefix_upper_bound (encode_index_value v) = Some b"
  shows "b \<le> encode_index_value w @ x"
proof (rule ccontr)
  assume "\<not> b \<le> encode_index_value w @ x"
  then have "prefix (encode_index_value v) (encode_index_value w @ x)"
    using between_prefix_bound [of "encode_index_value v" "encode_index_value w @ x"] bound_below [OF less_imp_le [OF assms(1)], of x] assms(2)
    by (simp add: not_le)
  then obtain y where "encode_index_value w @ x = encode_index_value v @ y" by (elim prefixE)
  then show False using encode_index_value_less [OF assms(1), of y x] by simp
qed

lemma bound_above:
  assumes "w \<le> v" "prefix_upper_bound (encode_index_value v) = Some b"
  shows "encode_index_value w @ x < b"
proof (cases "w = v")
  case True
  then show ?thesis using between_prefix_bound [of "encode_index_value v" "encode_index_value w @ x"] assms(2) by simp
next
  case False
  then have "encode_index_value w @ x < encode_index_value v" using encode_index_value_less [of w v x "[]"] assms(1) by simp
  also have "encode_index_value v < b"
    using between_prefix_bound [of "encode_index_value v" "encode_index_value v"] assms(2) by simp
  finally show ?thesis .
qed

lemma build_index_scan_covers:
  assumes "build_index_scan i ps = Some plan" "all_hold ps row"
  shows "plan_lower plan \<le> tuple_key row (idx_columns i) @ rk \<and> below (plan_upper plan) (tuple_key row (idx_columns i) @ rk)"
proof -
  obtain pre n lo hi where lm: "leftmost ps (idx_columns i) [] 0 = (pre, n, lo, hi)" by (metis prod_cases4)
  obtain low high where pl: "lower_key pre lo = Some low" "upper_key pre n hi = Some high"
    "plan = \<lparr>pinned = n, has_range = (lo \<noteq> None \<or> hi \<noteq> None), plan_lower = low, plan_upper = high\<rparr>"
    using assms(1) by (auto simp: build_index_scan_def lm Let_def split: if_splits option.splits)
  obtain as bs where ab: "idx_columns i = as @ bs" "pre = tuple_key row as"
    "case bs of [] \<Rightarrow> lo = None \<and> hi = None | c # _ \<Rightarrow> lo = lower_pred ps c \<and> hi = upper_pred ps c"
    using leftmost_prefix [OF assms(2) lm] by auto
  let ?key = "tuple_key row (idx_columns i) @ rk"
  have key: "?key = pre @ tuple_key row bs @ rk" by (simp add: ab)
  have "low \<le> ?key"
  proof (cases lo)
    case None
    then show ?thesis unfolding key using pl(1) prefix_le [of pre] by (simp add: lower_key_def)
  next
    case (Some b)
    then obtain c cs v inc where c: "bs = c # cs" "b = (v, inc)" "lower_pred ps c = Some (v, inc)" using ab(3) by (cases bs; cases b) auto
    then have "pred_holds (PLower v inc) (row ! c)" by (intro preds_hold(2) [OF assms(2)])
    then show ?thesis unfolding key using pl(1) Some bound_below [of v "row ! c"] bound_past [of v "row ! c"]
      by (auto simp: lower_key_def c append_le_iff split: if_splits)
  qed
  moreover have "below high ?key"
  proof (cases hi)
    case None
    have "prefix pre ?key" unfolding key by simp
    then show ?thesis using None pl(2) between_prefix_bound [of pre ?key]
      by (auto simp: upper_key_def split: if_splits option.splits)
  next
    case (Some b)
    then obtain c cs v inc where c: "bs = c # cs" "b = (v, inc)" "upper_pred ps c = Some (v, inc)" using ab(3) by (cases bs; cases b) auto
    then have "pred_holds (PUpper v inc) (row ! c)" by (intro preds_hold(3) [OF assms(2)])
    then show ?thesis unfolding key using pl(2) Some bound_above [of "row ! c" v] encode_index_value_less [of "row ! c" v _ "[]"]
      by (auto simp: upper_key_def c append_le_iff split: if_splits)
  qed
  ultimately show ?thesis by (simp add: pl(3))
qed

lemma best_index_Some:
  "best_index ps is best = Some (i, plan) \<Longrightarrow>
   best = Some (i, plan) \<or> i \<in> set is \<and> \<not> is_building i \<and> build_index_scan i ps = Some plan"
proof (induction ps "is" best rule: best_index.induct)
  case (2 ps i "is" best)
  then show ?case by (fastforce split: if_splits option.splits)
qed simp

definition predicates :: "expr \<Rightarrow> schema \<Rightarrow> column_predicate list" where
  "predicates f sch = List.map_filter (\<lambda>e. classify e sch) (collect_conjuncts f)"

definition typed_row :: "schema \<Rightarrow> sql_value list \<Rightarrow> bool" where
  "typed_row sch row \<longleftrightarrow> list_all2 has_type row (map col_ty (sch_columns sch)) \<and> VReal minus_zero \<notin> set row"

definition no_minus_zero :: "expr \<Rightarrow> schema \<Rightarrow> bool" where
  "no_minus_zero f sch \<longleftrightarrow> list_all (\<lambda>p. pred_value (cp_kind p) \<noteq> VReal minus_zero) (predicates f sch)"

lemma set_map_filter: "set (List.map_filter g xs) = {y. \<exists>x \<in> set xs. g x = Some y}"
  by (induction xs) (auto simp: List.map_filter_simps split: option.splits)

lemma predicates_hold:
  assumes "typed_row sch row" "no_minus_zero f sch" "passes_filter (Some f) (scope_single q sch) row = Inr True"
  shows "all_hold (predicates f sch) row"
proof -
  let ?ctx = "Some \<lparr>rc_scope = scope_single q sch, rc_values = row\<rparr>"
  have f: "eval f ?ctx = Inr (VBool True)"
    using assms(3) by (auto simp: passes_filter_def rbind_def split: sum.splits)
  have "pred_holds (cp_kind p) (row ! cp_column p)" if p: "p \<in> set (predicates f sch)" for p
  proof -
    obtain e where e: "e \<in> set (collect_conjuncts f)" "classify e sch = Some p"
      using p by (auto simp: predicates_def set_map_filter)
    have "pred_value (cp_kind p) \<noteq> VReal minus_zero" using assms(2) p by (auto simp: no_minus_zero_def list_all_iff)
    then show ?thesis
      using classify_holds [OF e(2), of row q] conjuncts_true [OF f e(1)] assms(1) by (auto simp: typed_row_def)
  qed
  then show ?thesis by (simp add: all_hold_def list_all_iff)
qed

lemma choose_path_index:
  assumes "choose_path sch f order_by = (IndexScan root lo hi, presorted)"
  obtains i plan where "i \<in> set (sch_indexes sch)" "\<not> is_building i" "idx_root i = root"
    "build_index_scan i (predicates f sch) = Some plan" "lo = plan_lower plan" "hi = plan_upper plan"
    "presorted = order_matches i (pinned plan) sch order_by"
  using assms best_index_Some [of "predicates f sch" "sch_indexes sch" None]
  by (fastforce simp: choose_path_def predicates_def [symmetric] split: option.splits)

section \<open>Order\<close>

lemma total_key_real_order: "total_key w = real_order w"
proof -
  have "uint w < 2 ^ 64" using uint_lt2p [of w] by simp
  then have "uint w mod 2 ^ 63 = uint w - 2 ^ 63" if "\<not> uint w < 2 ^ 63"
    using that minus_mod_self2 [of "uint w" "2 ^ 63"] mod_pos_pos_trivial [of "uint w - 2 ^ 63" "2 ^ 63"] by simp
  then show ?thesis by (auto simp: total_key_def real_order_cases f64_sign_def)
qed

lemma order_values_index: "has_type a t \<Longrightarrow> has_type b t \<Longrightarrow> order_values a b = cmp a b"
  by (cases a; cases b)
    (auto simp: cmp_def total_cmp_def total_key_real_order less_sql_value_def dest: signed_word_eqI real_order_inj)

lemma compare_rows_tuple:
  assumes "list_all (\<lambda>c. c < length ts) cs" "list_all2 has_type a ts" "list_all2 has_type b ts"
    and "map ((!) a) cs \<le> map ((!) b) cs"
  shows "compare_rows (map (\<lambda>c. (c, False)) cs) a b \<noteq> Greater"
  using assms(1,4)
proof (induction cs)
  case (Cons c cs)
  have "order_values (a ! c) (b ! c) = cmp (a ! c) (b ! c)"
    using Cons.prems(1) assms(2,3) by (intro order_values_index [of _ "ts ! c"]) (auto simp: list_all2_conv_all_nth)
  then show ?case using Cons by (auto simp: cmp_def Let_def)
qed simp

lemma tuple_key_le:
  assumes "tuple_key a cs @ x \<le> tuple_key b cs @ y"
  shows "map ((!) a) cs \<le> map ((!) b) cs"
proof (rule ccontr)
  assume "\<not> ?thesis"
  then have "tuple_key b cs @ y < tuple_key a cs @ x" by (intro encode_tuple_less) (auto simp: not_le)
  with assms show False by simp
qed

lemma append_le_take:
  fixes xs ys :: "'a::linorder list"
  shows "xs @ us \<le> ys @ vs \<Longrightarrow> length xs = length ys \<Longrightarrow> xs \<le> ys"
  using list_less_append_eq_length [of ys xs vs us] by (auto simp: not_less [symmetric])

lemma rmap_Cons_Inr: "rmap f (x # xs) = Inr ys \<longleftrightarrow> (\<exists>y zs. f x = Inr y \<and> rmap f xs = Inr zs \<and> ys = y # zs)"
  by (auto simp: rbind_def split: sum.splits)

lemma order_keys_columns:
  assumes "resolve_order_keys (scope_single q sch) ks = Inr keys" "list_all (\<lambda>k. \<not> ord_descending k) ks"
    and "length ks \<le> length cs" "list_all (\<lambda>(k, c). c < length (sch_columns sch) \<and> col_name (sch_columns sch ! c) = cr_name (ord_column k)) (zip ks cs)"
  shows "keys = map (\<lambda>c. (c, False)) (take (length ks) cs) \<and> list_all (\<lambda>c. c < length (sch_columns sch)) (take (length ks) cs)"
  using assms
proof (induction ks arbitrary: keys cs)
  case (Cons k ks)
  obtain c cs' where cs: "cs = c # cs'" using Cons.prems(3) by (cases cs) auto
  obtain j keys' where keys: "resolve (scope_single q sch) (ord_column k) = Inr j" "keys = (j, ord_descending k) # keys'"
    "resolve_order_keys (scope_single q sch) ks = Inr keys'"
    using Cons.prems(1) unfolding resolve_order_keys_def rmap_Cons_Inr by (auto simp: rbind_def split: sum.splits)
  have "c = j" using resolve_single(3) [OF keys(1), of c] Cons.prems(4) by (simp add: cs)
  with Cons.IH [OF keys(3), of cs'] Cons.prems keys(2) show ?case by (simp add: cs)
qed (simp add: resolve_order_keys_def)

text \<open>Rows that satisfy the pinned equalities compare by the index columns after them.\<close>

lemma presorted_keys:
  assumes "build_index_scan i ps = Some plan" "order_matches i (pinned plan) sch order_by"
    and "resolve_order_keys (scope_single q sch) order_by = Inr keys"
    and "all_hold ps a" "all_hold ps b" "typed_row sch a" "typed_row sch b"
    and "tuple_key a (idx_columns i) @ x \<le> tuple_key b (idx_columns i) @ y"
  shows "compare_rows keys a b \<noteq> Greater"
proof -
  obtain pre n lo hi where lm: "leftmost ps (idx_columns i) [] 0 = (pre, n, lo, hi)" by (metis prod_cases4)
  then have n: "pinned plan = n"
    using assms(1) by (auto simp: build_index_scan_def Let_def split: if_splits option.splits)
  obtain as bs where ab: "idx_columns i = as @ bs" "n = length as" "\<forall>c \<in> set as. eq_pred ps c \<noteq> None"
    using leftmost_prefix [OF assms(4) lm] by auto
  have eff: "drop (min n (length (idx_columns i))) (idx_columns i) = bs" by (simp add: ab)
  have om: "list_all (\<lambda>k. \<not> ord_descending k) order_by" "length order_by \<le> length bs"
    "list_all (\<lambda>(k, c). c < length (sch_columns sch) \<and> col_name (sch_columns sch ! c) = cr_name (ord_column k)) (zip order_by bs)"
    using assms(2) unfolding order_matches_def n eff by (auto simp: list_all_iff list_ex_iff)
  let ?cs = "take (length order_by) bs"
  have ks: "keys = map (\<lambda>c. (c, False)) ?cs" "list_all (\<lambda>c. c < length (sch_columns sch)) ?cs"
    using order_keys_columns [OF assms(3) om] by auto
  have "map ((!) a) as = map ((!) b) as"
    using ab(3) preds_hold(1) [OF assms(4)] preds_hold(1) [OF assms(5)] by (auto simp: not_None_eq)
  with tuple_key_le [OF assms(8)] have "map ((!) a) bs \<le> map ((!) b) bs" by (simp add: ab(1) append_le_iff)
  then have "map ((!) a) ?cs @ map ((!) a) (drop (length order_by) bs) \<le> map ((!) b) ?cs @ map ((!) b) (drop (length order_by) bs)"
    by (simp flip: map_append)
  then have "map ((!) a) ?cs \<le> map ((!) b) ?cs" by (rule append_le_take) simp
  then show ?thesis unfolding ks(1)
    using ks(2) assms(6,7) by (intro compare_rows_tuple [where ts = "map col_ty (sch_columns sch)"]) (auto simp: typed_row_def)
qed

section \<open>Properties\<close>

text \<open>The range of an index scan is complete: when the planner answers a WHERE clause with the range
  of an index, the key of every row the clause accepts lies in that range, whichever index was picked,
  however many columns it pins and whatever bounds it adds. It holds for rows of the table's types
  without the negative zero, and a clause that does not compare with it.\<close>

theorem index_range_complete:
  assumes "choose_path sch f order_by = (IndexScan root lo hi, presorted)"
    and "typed_row sch row" "no_minus_zero f sch" "passes_filter (Some f) (scope_single q sch) row = Inr True"
  shows "\<exists>i \<in> set (sch_indexes sch). idx_root i = root \<and> \<not> is_building i \<and>
    (\<forall>rk key. encode_index_key row (idx_columns i) rk = Inr key \<longrightarrow> lo \<le> key \<and> below hi key)"
proof -
  obtain i plan where i: "i \<in> set (sch_indexes sch)" "\<not> is_building i" "idx_root i = root"
    "build_index_scan i (predicates f sch) = Some plan" "lo = plan_lower plan" "hi = plan_upper plan"
    using choose_path_index [OF assms(1)] by metis
  have "lo \<le> key \<and> below hi key" if "encode_index_key row (idx_columns i) rk = Inr key" for rk key
  proof -
    have "key = tuple_key row (idx_columns i) @ rk"
      using that by (auto simp: encode_index_key_def encode_index_columns_eq comp_def split: if_splits)
    then show ?thesis
      using build_index_scan_covers [OF i(4) predicates_hold [OF assms(2-4)], of rk] by (simp add: i(5,6))
  qed
  with i(1-3) show ?thesis by blast
qed

text \<open>A table of one indexed column.\<close>

definition one_index :: "u32 \<Rightarrow> u32 \<Rightarrow> type_tag \<Rightarrow> schema" where
  "one_index root i_root t = \<lparr>sch_name = [116], sch_columns = [\<lparr>col_name = [97], col_ty = t, not_null = False, foreign_key = None, col_stats = None\<rparr>],
     sch_root = root, next_rowid = 2, row_count = 1,
     sch_indexes = [\<lparr>idx_name = [105], idx_columns = [0], idx_root = i_root, idx_unique = False, is_building = False\<rparr>],
     primary_key_column = None, mutations_since_analyze = 0\<rparr>"

abbreviation "a_is op e \<equiv> EBinary op (EColumn (bare [97])) e"

lemma choose_path_one_index:
  assumes "coerce l t = Inr v" "literal_value e = Some l" "\<not> is_null v"
  shows "choose_path (one_index root i_root t) (a_is GtEq e) [] = (IndexScan i_root (encode_index_value v) None, False)"
    and "predicates (a_is GtEq e) (one_index root i_root t) = [\<lparr>cp_column = 0, cp_kind = PLower v True\<rparr>]"
proof -
  have ci: "column_index (one_index root i_root t) [97] = Some 0" by (simp add: column_index_def one_index_def)
  show p: "predicates (a_is GtEq e) (one_index root i_root t) = [\<lparr>cp_column = 0, cp_kind = PLower v True\<rparr>]"
    using assms ci
    by (simp add: predicates_def List.map_filter_simps classify_def oriented_def bare_def) (simp add: one_index_def)
  show "choose_path (one_index root i_root t) (a_is GtEq e) [] = (IndexScan i_root (encode_index_value v) None, False)"
    unfolding choose_path_def predicates_def [symmetric] p
    by (simp add: one_index_def build_index_scan_def eq_pred_def lower_pred_def upper_pred_def lower_key_def upper_key_def
        Let_def order_matches_def del: not_None_eq)
qed

lemma resolve_one_index: "resolve (scope_single [116] (one_index root i_root t)) (bare [97]) = Inr 0"
  by (simp add: resolve_def scope_single_def scope_extend_def one_index_def col_matches_def bare_def)

theorem index_range_complete_witness:
  "\<exists>i \<in> set (sch_indexes (one_index 4 5 TInt)). idx_root i = 5 \<and> \<not> is_building i \<and>
    (\<forall>rk key. encode_index_key [VInt 7] (idx_columns i) rk = Inr key \<longrightarrow> encode_index_value (VInt 5) \<le> key \<and> below None key)"
proof (rule index_range_complete)
  show "choose_path (one_index 4 5 TInt) (a_is GtEq (EInteger 5)) [] = (IndexScan 5 (encode_index_value (VInt 5)) None, False)"
    by (rule choose_path_one_index) (simp_all add: is_null_def)
  show "typed_row (one_index 4 5 TInt) [VInt 7]" by (simp add: typed_row_def one_index_def)
  show "no_minus_zero (a_is GtEq (EInteger 5)) (one_index 4 5 TInt)"
    by (simp add: no_minus_zero_def choose_path_one_index(2) [of "VInt 5" TInt "VInt 5" "EInteger 5"] is_null_def)
  show "passes_filter (Some (a_is GtEq (EInteger 5))) (scope_single [116] (one_index 4 5 TInt)) [VInt 7] = Inr True"
    by (auto simp: passes_filter_def resolve_one_index index_def compare_op_def is_null_def cmp_def)
qed

text \<open>C40: An index changes what a query returns: the clause \<open>a >= 0.0\<close> accepts the row that holds the
  negative zero, but the key of that row lies below the range the planner scans for the clause, so
  the row is returned by a full scan only.\<close>

theorem index_range_misses_minus_zero:
  "\<exists>lo hi. choose_path (one_index 4 5 TReal) (a_is GtEq (EReal 0)) [] = (IndexScan 5 lo hi, False) \<and>
    passes_filter (Some (a_is GtEq (EReal 0))) (scope_single [116] (one_index 4 5 TReal)) [VReal minus_zero] = Inr True \<and>
    (\<forall>rk. \<exists>key. encode_index_key [VReal minus_zero] [0] rk = Inr key \<and> key < lo)"
proof (intro exI conjI allI)
  show "choose_path (one_index 4 5 TReal) (a_is GtEq (EReal 0)) [] = (IndexScan 5 (encode_index_value (VReal 0)) None, False)"
    by (rule choose_path_one_index) (simp_all add: is_null_def)
  have "f64_partial_cmp minus_zero 0 = Some Equal" by code_simp
  then show "passes_filter (Some (a_is GtEq (EReal 0))) (scope_single [116] (one_index 4 5 TReal)) [VReal minus_zero] = Inr True"
    by (simp add: passes_filter_def resolve_one_index index_def compare_op_def is_null_def)
  show "encode_index_key [VReal minus_zero] [0] rk = Inr (encode_index_value (VReal minus_zero) @ rk)" for rk
    by (simp add: encode_index_key_eq)
  have "VReal minus_zero < VReal 0" by (simp add: less_sql_value_def real_order_def minus_zero_def)
  from encode_index_value_less [OF this, of _ "[]"]
  show "encode_index_value (VReal minus_zero) @ rk < encode_index_value (VReal 0)" for rk by simp
qed

end
