(* ===== verification/Index_Scan.thy ===== *)
theory Index_Scan
  imports Access_Path
begin

text \<open>
  The scans of \<^verbatim>\<open>engine/executor.rs\<close> over stored tables: \<^verbatim>\<open>IndexScan\<close>, which follows index entries back
  to their rows, and \<^verbatim>\<open>scan_operator\<close>, which opens the scan the planner chose. The locale
  \<open>lookup_stream\<close> is what an index scan relies on: a cursor and a search that do not disturb each
  other. The B+tree provides it. The last section composes the pager, the B+trees, the codec, the planner
  and the operators: a query through an index returns the rows of the full scan.
\<close>

section \<open>The index scan\<close>

record index_scan_state =
  is_seen :: "bytes set"
  is_ssi :: ssi_map

definition rowid_of :: "bytes \<Rightarrow> bytes" where
  "rowid_of key = drop (length key - 8) key"

definition index_scan_body :: "(bytes \<Rightarrow> ('s, bytes option) op) \<Rightarrow> 'c clog_scheme \<Rightarrow> snapshot \<Rightarrow> nat \<Rightarrow> u32
    \<Rightarrow> bytes \<times> bytes \<Rightarrow> ('s \<times> index_scan_state, row option) op" where
  "index_scan_body search c snap column_count table_root kv st =
     (if length (fst kv) < 8 then (Inl (Fail Corruption), st)
      else
        let rowid_key = rowid_of (fst kv) in
        if rowid_key \<in> is_seen (snd st) then (Inr None, st)
        else
          let own = (snd st)\<lparr>is_seen := insert rowid_key (is_seen (snd st))\<rparr> in
          case search rowid_key (fst st) of
            (Inl e, s) \<Rightarrow> (Inl e, (s, own))
          | (Inr None, s) \<Rightarrow> (Inl (Fail Corruption), (s, own))
          | (Inr (Some encoded), s) \<Rightarrow>
              (case decode_row encoded column_count of
                 Inl e \<Rightarrow> (Inl e, (s, own))
               | Inr r \<Rightarrow>
                   if visible c snap (tx_min r) (tx_max r) then
                     (Inr (Some (row_values r)),
                      (s, own\<lparr>is_ssi := record_read snap table_root rowid_key
                            (if tx_max r \<noteq> 0 then Some (tx_max r) else None) (is_ssi own)\<rparr>))
                   else (Inr None, (s, own))))"

definition index_scan_next :: "('s, (bytes \<times> bytes) option) op \<Rightarrow> (bytes \<Rightarrow> ('s, bytes option) op) \<Rightarrow> 'c clog_scheme
    \<Rightarrow> snapshot \<Rightarrow> nat \<Rightarrow> u32 \<Rightarrow> nat \<Rightarrow> ('s \<times> index_scan_state, row option) op" where
  "index_scan_next cur search c snap column_count table_root fuel =
     pull_until (\<lambda>st. case cur (fst st) of (r, s) \<Rightarrow> (r, (s, snd st)))
       (index_scan_body search c snap column_count table_root) fuel"

text \<open>The rows an index scan owes for the entries to come.\<close>

fun index_rows :: "(bytes \<Rightarrow> bytes option) \<Rightarrow> 'c clog_scheme \<Rightarrow> snapshot \<Rightarrow> nat \<Rightarrow> bytes set \<Rightarrow> (bytes \<times> bytes) list \<Rightarrow> row list" where
  "index_rows look c snap n done_ids [] = []"
| "index_rows look c snap n done_ids (kv # es) =
     (let rk = rowid_of (fst kv); r = projr (decode_row (the (look rk)) n) in
      if rk \<in> done_ids then index_rows look c snap n done_ids es
      else (if visible c snap (tx_min r) (tx_max r) then [row_values r] else [])
        @ index_rows look c snap n (insert rk done_ids) es)"

definition resolves :: "(bytes \<Rightarrow> bytes option) \<Rightarrow> nat \<Rightarrow> bytes \<times> bytes \<Rightarrow> bool" where
  "resolves look n kv \<longleftrightarrow> 8 \<le> length (fst kv) \<and> (\<exists>encoded r. look (rowid_of (fst kv)) = Some encoded \<and> decode_row encoded n = Inr r)"

locale lookup_stream =
  fixes cur :: "('s, (bytes \<times> bytes) option) op"
    and search :: "bytes \<Rightarrow> ('s, bytes option) op"
    and look :: "bytes \<Rightarrow> bytes option"
    and stream :: "'s \<Rightarrow> (bytes \<times> bytes) list \<Rightarrow> bool"
  assumes end_law: "stream s [] \<Longrightarrow> \<exists>t. cur s = (Inr None, t)"
    and next_law: "stream s (x # xs) \<Longrightarrow> \<exists>t. cur s = (Inr (Some x), t) \<and> stream t xs"
    and search_law: "stream s xs \<Longrightarrow> \<exists>t. search k s = (Inr (look k), t) \<and> stream t xs"
begin

lemma stream_emits: "stream s xs \<Longrightarrow> \<exists>e. emits cur s xs e"
proof (induction xs arbitrary: s)
  case Nil
  then show ?case using end_law by (auto simp: emits_Nil_iff)
next
  case (Cons x xs)
  then show ?case using next_law by (fastforce simp: emits_Cons_iff)
qed

text \<open>One pull: the first row owed, and a state that owes the rest.\<close>

lemma index_scan_pull:
  assumes "stream s es" "list_all (resolves look n) es" "length es < fuel"
  shows "case index_rows look c snap n (is_seen own) es of
      [] \<Rightarrow> \<exists>t. index_scan_next cur search c snap n root fuel (s, own) = (Inr None, t)
    | r # rs \<Rightarrow> \<exists>t own' es'. index_scan_next cur search c snap n root fuel (s, own) = (Inr (Some r), (t, own')) \<and>
        stream t es' \<and> list_all (resolves look n) es' \<and> length es' < length es \<and> index_rows look c snap n (is_seen own') es' = rs"
  using assms
proof (induction es arbitrary: s own fuel)
  case Nil
  then obtain f where "fuel = Suc f" by (cases fuel) auto
  with Nil end_law [of s] show ?case by (auto simp: index_scan_next_def)
next
  case (Cons kv es)
  obtain f where f: "fuel = Suc f" "length es < f" using Cons.prems(3) by (cases fuel) auto
  obtain t where t: "cur s = (Inr (Some kv), t)" "stream t es" using next_law [OF Cons.prems(1)] by blast
  let ?rk = "rowid_of (fst kv)" and ?nx = "\<lambda>fuel. index_scan_next cur search c snap n root fuel"
  let ?body = "index_scan_body search c snap n root kv"
  have es: "list_all (resolves look n) es" and "resolves look n kv" using Cons.prems(2) by simp_all
  then have long: "8 \<le> length (fst kv)" by (simp add: resolves_def)
  obtain encoded r where r: "look ?rk = Some encoded" "decode_row encoded n = Inr r"
    using Cons.prems(2) by (auto simp: resolves_def)
  have skip: "?nx fuel (s, own) = ?nx f u" if "?body (t, own) = (Inr None, u)" for u
    using that by (simp add: index_scan_next_def f t(1))
  show ?case
  proof (cases "?rk \<in> is_seen own")
    case True
    then have "?body (t, own) = (Inr None, (t, own))" using long by (simp add: index_scan_body_def Let_def)
    with Cons.IH [OF t(2) es f(2), of own] True skip show ?thesis
      by (auto simp: Let_def split: list.splits) (metis less_SucI)
  next
    case False
    obtain u where u: "search ?rk t = (Inr (Some encoded), u)" "stream u es" using search_law [OF t(2), of ?rk] r(1) by auto
    let ?own = "own\<lparr>is_seen := insert ?rk (is_seen own)\<rparr>"
    show ?thesis
    proof (cases "visible c snap (tx_min r) (tx_max r)")
      case True
      then show ?thesis using False long u es r f
        by (auto simp: index_scan_next_def t(1) index_scan_body_def Let_def)
    next
      case invisible: False
      then have "?body (t, own) = (Inr None, (u, ?own))" using False long u(1) r(2) by (simp add: index_scan_body_def Let_def)
      with Cons.IH [OF u(2) es f(2), of ?own] False invisible skip r show ?thesis
        by (auto simp: Let_def split: list.splits) (metis less_SucI)
    qed
  qed
qed

lemma index_scan_emits:
  "stream s es \<Longrightarrow> list_all (resolves look n) es \<Longrightarrow> length es < fuel \<Longrightarrow>
   \<exists>e. emits (index_scan_next cur search c snap n root fuel) (s, own) (index_rows look c snap n (is_seen own) es) e"
proof (induction es arbitrary: s own rule: length_induct)
  case (1 es)
  show ?case
  proof (cases "index_rows look c snap n (is_seen own) es")
    case Nil
    with index_scan_pull [OF "1.prems", where c = c and snap = snap and own = own and root = root] show ?thesis by (auto simp: emits_Nil_iff)
  next
    case (Cons r rs)
    with index_scan_pull [OF "1.prems", where c = c and snap = snap and own = own and root = root] obtain t own' es' where
      t: "index_scan_next cur search c snap n root fuel (s, own) = (Inr (Some r), (t, own'))" "stream t es'"
      "list_all (resolves look n) es'" "length es' < length es" "index_rows look c snap n (is_seen own') es' = rs" by auto
    have "\<exists>e. emits (index_scan_next cur search c snap n root fuel) (t, own') rs e"
      using "1.IH" [rule_format, OF t(4,2,3), of own'] t(4,5) "1.prems"(3) by auto
    with t(1) Cons show ?thesis by (auto simp: emits_Cons_iff)
  qed
qed

end

section \<open>Cursors and searches on stored trees\<close>

text \<open>The state of a scan is the pager with the cursor.\<close>

definition tree_next :: "nat \<Rightarrow> (pager \<times> bt_cursor, (bytes \<times> bytes) option) op" where
  "tree_next fuel st =
     (case cursor_next fuel fuel pager_ops (snd st) (fst st) of
        (Inl e, p) \<Rightarrow> (Inl e, (p, snd st))
      | (Inr (r, c), p) \<Rightarrow> (Inr r, (p, c)))"

definition tree_search :: "nat \<Rightarrow> u32 \<Rightarrow> bytes \<Rightarrow> (pager \<times> bt_cursor, bytes option) op" where
  "tree_search fuel root key st = (case bt_search fuel pager_ops root key (fst st) of (r, p) \<Rightarrow> (r, (p, snd st)))"

text \<open>What a cursor will hand out, while the table it is joined with stays in place.\<close>

definition tree_stream :: "page_map \<Rightarrow> nat \<Rightarrow> u32 \<Rightarrow> nat \<Rightarrow> bt \<Rightarrow> nat \<Rightarrow> pager \<times> bt_cursor \<Rightarrow> (bytes \<times> bytes) list \<Rightarrow> bool" where
  "tree_stream V r root h t fuel st xs \<longleftrightarrow>
     represents (fst st) V r \<and> tree_at V root h t \<and> cost h t < fuel \<and>
     (\<exists>es ls. cursor_on V es ls (snd st) \<and> length ls < fuel \<and> cursor_pages es ls < fuel \<and>
        xs = takeWhile (\<lambda>e. below (upper (snd st)) (fst e)) (cursor_entries es ls))"

lemma tree_next_step:
  assumes "tree_stream V r root h t fuel st xs"
  shows "case xs of [] \<Rightarrow> \<exists>st'. tree_next fuel st = (Inr None, st')
    | x # ys \<Rightarrow> \<exists>st'. tree_next fuel st = (Inr (Some x), st') \<and> tree_stream V r root h t fuel st' ys"
proof -
  obtain es ls where c: "represents (fst st) V r" "cursor_on V es ls (snd st)" "length ls < fuel" "cursor_pages es ls < fuel"
    "xs = takeWhile (\<lambda>e. below (upper (snd st)) (fst e)) (cursor_entries es ls)" "tree_at V root h t" "cost h t < fuel"
    using assms by (auto simp: tree_stream_def)
  obtain p' c' es' ls' where n: "cursor_next fuel fuel pager_ops (snd st) (fst st)
      = (Inr (case cursor_entries es ls of [] \<Rightarrow> (None, c')
         | e # _ \<Rightarrow> if below (upper (snd st)) (fst e) then (Some e, c') else (None, c')), p')" "represents p' V r"
    "cursor_entries es ls \<noteq> [] \<Longrightarrow> below (upper (snd st)) (fst (hd (cursor_entries es ls))) \<Longrightarrow>
       cursor_on V es' ls' c' \<and> cursor_entries es' ls' = tl (cursor_entries es ls) \<and> upper c' = upper (snd st)
       \<and> length ls' \<le> length ls \<and> cursor_pages es' ls' \<le> cursor_pages es ls"
    using pager_store.cursor_next_spec [OF c(1-4)] by blast
  show ?thesis
  proof (cases "cursor_entries es ls \<noteq> [] \<and> below (upper (snd st)) (fst (hd (cursor_entries es ls)))")
    case True
    then obtain e rest where e: "cursor_entries es ls = e # rest" "below (upper (snd st)) (fst e)" by (cases "cursor_entries es ls") auto
    with n(3) have "tree_stream V r root h t fuel (p', c') (takeWhile (\<lambda>e. below (upper (snd st)) (fst e)) rest)"
      unfolding tree_stream_def using n(2) c(3,4,6,7) by (auto intro!: exI [of _ es'] exI [of _ ls'])
    with n(1) e c(5) show ?thesis by (simp add: tree_next_def)
  next
    case False
    then have "xs = []" by (auto simp: c(5)) (cases "cursor_entries es ls"; simp)
    with False n(1) show ?thesis by (cases "cursor_entries es ls") (auto simp: tree_next_def)
  qed
qed

interpretation tree: lookup_stream "tree_next fuel" "tree_search fuel root" "map_of (entries h t)" "tree_stream V r root h t fuel"
  for V r root h t fuel
proof unfold_locales
  fix s xs k
  assume st: "tree_stream V r root h t fuel s xs"
  then have "represents (fst s) V r" "tree_at V root h t" "cost h t < fuel" by (auto simp: tree_stream_def)
  then obtain p where "bt_search fuel pager_ops root k (fst s) = (Inr (map_of (entries h t) k), p)" "represents p V r"
    using pager_store.search_from_spec [of "fst s" V r h None None 0 t fuel fuel k] cost_bounds [of h t fuel]
    by (auto simp: bt_search_def tree_at_def)
  then show "\<exists>u. tree_search fuel root k s = (Inr (map_of (entries h t) k), u) \<and> tree_stream V r root h t fuel u xs"
    using st by (auto simp: tree_search_def tree_stream_def)
qed (use tree_next_step in fastforce)+

section \<open>Opening a scan\<close>

definition scan_operator :: "nat \<Rightarrow> schema \<Rightarrow> access_path \<Rightarrow> snapshot \<Rightarrow> ssi_map \<Rightarrow> (pager, bt_cursor \<times> ssi_map) op" where
  "scan_operator fuel sch access snap locks =
     (case access of
        FullScan \<Rightarrow> sbind (cursor_at fuel pager_ops (sch_root sch) None None) (\<lambda>c. sret (c, locks))
      | IndexScan root lo hi \<Rightarrow>
          (let locks = record_index_range_read snap root lo hi locks in
           sbind (cursor_at fuel pager_ops root (Some lo) hi) (\<lambda>c. sret (c, locks))))"

lemma scan_opens:
  assumes "represents p V r" "tree_at V root h t" "cost h t < fuel" "tree_at V i_root ih it" "cost ih it < fuel"
  shows "\<exists>c p'. cursor_at fuel pager_ops i_root start stop p = (Inr c, p') \<and>
    tree_stream V r root h t fuel (p', c) (filter (\<lambda>e. above start (fst e) \<and> below stop (fst e)) (entries ih it))"
proof -
  have "bt_wf V ih None None 0 it" "root_no it = i_root" "length (tree_pages ih it) + length (entries ih it) < fuel" "ih < fuel"
    using assms(4,5) by (auto simp: tree_at_def cost_def)
  from pager_store.cursor_opens [OF assms(1) this(1,3,4), of start stop] this(2) obtain p' c es ls where
    "cursor_at fuel pager_ops i_root start stop p = (Inr c, p')" "represents p' V r" "upper c = stop" "cursor_on V es ls c"
    "length ls < fuel" "cursor_pages es ls < fuel"
    "takeWhile (\<lambda>e. below stop (fst e)) (cursor_entries es ls) = filter (\<lambda>e. above start (fst e) \<and> below stop (fst e)) (entries ih it)"
    by blast
  then show ?thesis using assms(2,3) unfolding tree_stream_def
    by (intro exI [of _ c] exI [of _ p'] conjI exI [of _ es] exI [of _ ls]) simp_all
qed

section \<open>An index covers its table\<close>

text \<open>
  The invariant every writer keeps: the entries of an index are the keys of the table's row versions,
  one for each. A row version is stored under its eight-byte rowid.
\<close>

definition indexes :: "nat \<Rightarrow> nat list \<Rightarrow> (bytes \<times> bytes) list \<Rightarrow> (bytes \<times> bytes) list \<Rightarrow> bool" where
  "indexes n cols table index_entries \<longleftrightarrow>
     (\<forall>(rk, encoded) \<in> set table. length rk = 8 \<and> (\<exists>r. decode_row encoded n = Inr r \<and> list_all (\<lambda>c. c < length (row_values r)) cols)) \<and>
     fst ` set index_entries = (\<lambda>(rk, encoded). tuple_key (row_values (projr (decode_row encoded n))) cols @ rk) ` set table"

definition record_at :: "nat \<Rightarrow> (bytes \<times> bytes) list \<Rightarrow> bytes \<Rightarrow> row_record" where
  "record_at n table rk = projr (decode_row (the (map_of table rk)) n)"

lemma index_entry_row:
  assumes "indexes n cols table es" "distinct (map fst table)" "key \<in> fst ` set es"
  shows "\<exists>rk. rk \<in> fst ` set table \<and> rowid_of key = rk \<and> 8 \<le> length key \<and> key = tuple_key (row_values (record_at n table rk)) cols @ rk"
proof -
  obtain rk encoded where e: "(rk, encoded) \<in> set table" "key = tuple_key (row_values (projr (decode_row encoded n))) cols @ rk"
    using assms(1,3) by (auto simp: indexes_def)
  moreover have "length rk = 8" using assms(1) e(1) by (auto simp: indexes_def)
  moreover have "map_of table rk = Some encoded" using e(1) assms(2) by simp
  ultimately show ?thesis by (intro exI [of _ rk]) (force simp: record_at_def rowid_of_def)
qed

lemma rowids_distinct:
  assumes "indexes n cols table es" "distinct (map fst table)" "distinct (map fst es')" "set es' \<subseteq> set es"
  shows "distinct (map (\<lambda>kv. rowid_of (fst kv)) es')"
proof -
  have "inj_on rowid_of (fst ` set es')"
  proof (rule inj_onI)
    fix k l assume "k \<in> fst ` set es'" "l \<in> fst ` set es'" "rowid_of k = rowid_of l"
    with index_entry_row [OF assms(1,2)] assms(4) show "k = l" by (metis image_mono subsetD)
  qed
  then have "distinct (map rowid_of (map fst es'))" using assms(3) by (simp only: distinct_map) simp
  then show ?thesis by (simp add: comp_def)
qed

lemma index_rows_distinct:
  assumes "distinct (map (\<lambda>kv. rowid_of (fst kv)) es)" "\<forall>kv \<in> set es. rowid_of (fst kv) \<notin> ids"
  shows "index_rows (map_of table) c snap n ids es = visible_rows c snap (map (\<lambda>kv. record_at n table (rowid_of (fst kv))) es)"
  using assms
proof (induction es arbitrary: ids)
  case (Cons kv es)
  have "\<forall>x \<in> set es. rowid_of (fst x) \<notin> insert (rowid_of (fst kv)) ids"
    using Cons.prems by (fastforce simp: image_iff)
  from Cons.IH [OF _ this] Cons.prems show ?case by (simp add: visible_rows_def record_at_def Let_def)
qed (simp add: visible_rows_def)

lemma indexes_resolves:
  assumes "indexes n cols table es" "distinct (map fst table)" "set es' \<subseteq> set es"
  shows "list_all (resolves (map_of table) n) es'"
proof -
  have "resolves (map_of table) n kv" if "kv \<in> set es'" for kv
  proof -
    have "fst kv \<in> fst ` set es" using that assms(3) by auto
    from index_entry_row [OF assms(1,2) this] obtain rk where rk: "rk \<in> fst ` set table" "rowid_of (fst kv) = rk" "8 \<le> length (fst kv)"
      by blast
    then obtain encoded where "map_of table rk = Some encoded" "(rk, encoded) \<in> set table" using assms(2) by auto
    moreover from this(2) obtain r where "decode_row encoded n = Inr r" using assms(1) by (auto simp: indexes_def)
    ultimately show ?thesis using rk by (auto simp: resolves_def)
  qed
  then show ?thesis by (simp add: list_all_iff)
qed

lemma table_decodes:
  assumes "indexes n cols table es" "distinct (map fst table)" "kv \<in> set table"
  shows "decode_row (snd kv) n = Inr (decoded n kv)" "decoded n kv = record_at n table (fst kv)"
    "list_all (\<lambda>c. c < length (row_values (decoded n kv))) cols"
proof -
  obtain r where "decode_row (snd kv) n = Inr r" "list_all (\<lambda>c. c < length (row_values r)) cols"
    using assms(1,3) by (cases kv) (auto simp: indexes_def)
  moreover have "map_of table (fst kv) = Some (snd kv)" using assms(2,3) by simp
  ultimately show "decode_row (snd kv) n = Inr (decoded n kv)" "decoded n kv = record_at n table (fst kv)"
    "list_all (\<lambda>c. c < length (row_values (decoded n kv))) cols" by (simp_all add: decoded_def record_at_def)
qed

lemma index_rows_source:
  "length (index_rows look c snap n ids es) \<le> length es"
  "row \<in> set (index_rows look c snap n ids es) \<Longrightarrow> \<exists>kv \<in> set es. row = row_values (projr (decode_row (the (look (rowid_of (fst kv)))) n))"
  by (induction es arbitrary: ids) (auto simp: Let_def le_SucI split: if_splits)

lemma index_rows_stored:
  assumes "indexes n cols table es" "distinct (map fst table)" "set es' \<subseteq> set es" "row \<in> set (index_rows (map_of table) c snap n ids es')"
  shows "\<exists>x \<in> set table. row = row_values (decoded n x)"
proof -
  obtain kv where kv: "kv \<in> set es'" "row = row_values (record_at n table (rowid_of (fst kv)))"
    using index_rows_source(2) [OF assms(4)] by (auto simp: record_at_def)
  then have "fst kv \<in> fst ` set es" using assms(3) by auto
  from index_entry_row [OF assms(1,2) this] obtain x where "x \<in> set table" "rowid_of (fst kv) = fst x" by blast
  with table_decodes(2) [OF assms(1,2)] kv(2) show ?thesis by auto
qed

section \<open>Queries through an index\<close>

lemma filter_visible_rows:
  "filter P (visible_rows c snap (map g xs)) =
   map (\<lambda>x. row_values (g x)) (filter (\<lambda>x. visible c snap (tx_min (g x)) (tx_max (g x)) \<and> P (row_values (g x))) xs)"
  by (induction xs) (auto simp: visible_rows_def)

lemma sorted_wrt_filter_map:
  assumes "sorted_wrt R xs" "\<And>x y. x \<in> set xs \<Longrightarrow> y \<in> set xs \<Longrightarrow> Q x \<Longrightarrow> Q y \<Longrightarrow> R x y \<Longrightarrow> S (f x) (f y)"
  shows "sorted_wrt S (map f (filter Q xs))"
  using assms by (induction xs) auto

text \<open>What a query needs of the stored table and the index it is planned on.\<close>

definition query_ok :: "schema \<Rightarrow> bytes \<Rightarrow> expr \<Rightarrow> (row \<Rightarrow> bool) \<Rightarrow> u32 \<Rightarrow> (bytes \<times> bytes) list \<Rightarrow> (bytes \<times> bytes) list \<Rightarrow> bool" where
  "query_ok sch q f P root table es \<longleftrightarrow>
     (\<forall>i \<in> set (sch_indexes sch). idx_root i = root \<longrightarrow> indexes (length (sch_columns sch)) (idx_columns i) table es) \<and>
     no_minus_zero f sch \<and>
     (\<forall>kv \<in> set table. let row = row_values (decoded (length (sch_columns sch)) kv) in
        typed_row sch row \<and> passes_filter (Some f) (scope_single q sch) row = Inr (P row))"

lemma index_range_rowids:
  assumes "choose_path sch f order_by = (IndexScan root lo hi, presorted)" "query_ok sch q f P root table es"
    and "distinct (map fst table)" "sorted_wrt (<) (map fst es)"
  defines "n \<equiv> length (sch_columns sch)" and "es' \<equiv> filter (\<lambda>e. above (Some lo) (fst e) \<and> below hi (fst e)) es"
  shows "filter P (index_rows (map_of table) c snap n {} es') =
      map (\<lambda>rk. row_values (record_at n table rk))
        (filter (\<lambda>rk. visible c snap (tx_min (record_at n table rk)) (tx_max (record_at n table rk)) \<and> P (row_values (record_at n table rk)))
          (map (\<lambda>kv. rowid_of (fst kv)) es')) \<and>
    distinct (map (\<lambda>kv. rowid_of (fst kv)) es') \<and>
    (\<forall>kv \<in> set table. P (row_values (decoded n kv)) \<longrightarrow> fst kv \<in> rowid_of ` fst ` set es') \<and>
    rowid_of ` fst ` set es' \<subseteq> fst ` set table"
proof -
  obtain i plan where i: "i \<in> set (sch_indexes sch)" "idx_root i = root" "build_index_scan i (predicates f sch) = Some plan"
    "lo = plan_lower plan" "hi = plan_upper plan" using choose_path_index [OF assms(1)] by metis
  have ix: "indexes n (idx_columns i) table es" and nz: "no_minus_zero f sch" using assms(2) i(1,2) by (auto simp: query_ok_def n_def)
  have sub: "set es' \<subseteq> set es" by (auto simp: es'_def)
  have "sorted_wrt (<) (map fst es')" using assms(4) by (auto simp: es'_def sorted_wrt_map sorted_wrt_filter)
  then have d: "distinct (map fst es')" using strict_sorted_iff by blast
  have dr: "distinct (map (\<lambda>kv. rowid_of (fst kv)) es')" by (rule rowids_distinct [OF ix assms(3) d sub])
  have "index_rows (map_of table) c snap n {} es' = visible_rows c snap (map (record_at n table) (map (\<lambda>kv. rowid_of (fst kv)) es'))"
    by (simp add: index_rows_distinct [OF dr] comp_def)
  note rows = arg_cong [OF this, of "filter P", unfolded filter_visible_rows]
  have "fst kv \<in> rowid_of ` fst ` set es'" if kv: "kv \<in> set table" "P (row_values (decoded n kv))" for kv
  proof -
    let ?row = "row_values (decoded n kv)" and ?key = "tuple_key (row_values (decoded n kv)) (idx_columns i) @ fst kv"
    have "typed_row sch ?row" "passes_filter (Some f) (scope_single q sch) ?row = Inr True"
      using assms(2) kv by (auto simp: query_ok_def n_def Let_def)
    from build_index_scan_covers [OF i(3) predicates_hold [OF this(1) nz this(2)], of "fst kv"]
    have "lo \<le> ?key" "below hi ?key" by (simp_all add: i(4,5))
    moreover have "?key \<in> fst ` set es" using ix kv(1) by (force simp: indexes_def decoded_def)
    ultimately have "?key \<in> fst ` set es'" by (auto simp: es'_def)
    moreover have "length (fst kv) = 8" using ix kv(1) by (auto simp: indexes_def)
    then have "rowid_of ?key = fst kv" by (simp add: rowid_of_def)
    ultimately show ?thesis by (metis imageI)
  qed
  moreover have "rowid_of ` fst ` set es' \<subseteq> fst ` set table"
  proof (rule image_subsetI)
    fix key assume "key \<in> fst ` set es'"
    then have "key \<in> fst ` set es" using sub by blast
    from index_entry_row [OF ix assms(3) this] show "rowid_of key \<in> fst ` set table" by blast
  qed
  ultimately show ?thesis using dr rows by blast
qed

text \<open>The rows a full scan of the table accepts, over the same rowids.\<close>

lemma full_scan_rowids:
  assumes "indexes n cols table es" "distinct (map fst table)"
  shows "filter P (visible_rows c snap (map (decoded n) table)) =
    map (\<lambda>rk. row_values (record_at n table rk))
      (filter (\<lambda>rk. visible c snap (tx_min (record_at n table rk)) (tx_max (record_at n table rk)) \<and> P (row_values (record_at n table rk)))
        (map fst table))"
proof -
  have "map (decoded n) table = map (record_at n table) (map fst table)"
    using table_decodes(2) [OF assms] by simp
  from arg_cong [OF this, of "\<lambda>rs. filter P (visible_rows c snap rs)", unfolded filter_visible_rows]
  show ?thesis by (simp only: filter_visible_rows)
qed

lemma mset_index_rows:
  assumes "choose_path sch f order_by = (IndexScan root lo hi, presorted)" "query_ok sch q f P root table es"
    and "distinct (map fst table)" "sorted_wrt (<) (map fst es)"
  defines "n \<equiv> length (sch_columns sch)"
  shows "mset (filter P (index_rows (map_of table) c snap n {} (filter (\<lambda>e. above (Some lo) (fst e) \<and> below hi (fst e)) es))) =
    mset (filter P (visible_rows c snap (map (decoded n) table)))"
proof -
  let ?es = "filter (\<lambda>e. above (Some lo) (fst e) \<and> below hi (fst e)) es"
  let ?Q = "\<lambda>rk. visible c snap (tx_min (record_at n table rk)) (tx_max (record_at n table rk)) \<and> P (row_values (record_at n table rk))"
  note R = index_range_rowids [OF assms(1-4), folded n_def, of c snap]
  obtain i where i: "i \<in> set (sch_indexes sch)" "idx_root i = root" using choose_path_index [OF assms(1)] by metis
  then have ix: "indexes n (idx_columns i) table es" using assms(2) by (auto simp: query_ok_def n_def)
  have "rk \<in> rowid_of ` fst ` set ?es" if rk: "rk \<in> fst ` set table" "?Q rk" for rk
  proof -
    obtain kv where kv: "kv \<in> set table" "rk = fst kv" using rk(1) by blast
    then have "P (row_values (decoded n kv))" using rk(2) table_decodes(2) [OF ix assms(3) kv(1)] by simp
    with R kv show ?thesis by blast
  qed
  then have "{rk \<in> rowid_of ` fst ` set ?es. ?Q rk} = {rk \<in> fst ` set table. ?Q rk}" using R by blast
  then have "set (filter ?Q (map (\<lambda>kv. rowid_of (fst kv)) ?es)) = set (filter ?Q (map fst table))"
    by (simp only: set_filter set_map image_image)
  moreover have "distinct (filter ?Q (map (\<lambda>kv. rowid_of (fst kv)) ?es))" "distinct (filter ?Q (map fst table))"
    using R assms(3) by (simp_all add: distinct_filter)
  ultimately have "mset (filter ?Q (map (\<lambda>kv. rowid_of (fst kv)) ?es)) = mset (filter ?Q (map fst table))"
    using set_eq_iff_mset_eq_distinct by blast
  then show ?thesis unfolding conjunct1 [OF R] full_scan_rowids [OF ix assms(3)] mset_map by (rule arg_cong)
qed

lemma sorted_index_rows:
  assumes "choose_path sch f order_by = (IndexScan root lo hi, True)" "query_ok sch q f P root table es"
    and "distinct (map fst table)" "sorted_wrt (<) (map fst es)" "resolve_order_keys (scope_single q sch) order_by = Inr keys"
  defines "n \<equiv> length (sch_columns sch)"
  shows "sorted_wrt (\<lambda>a b. compare_rows keys a b \<noteq> Greater)
    (filter P (index_rows (map_of table) c snap n {} (filter (\<lambda>e. above (Some lo) (fst e) \<and> below hi (fst e)) es)))"
proof -
  let ?es = "filter (\<lambda>e. above (Some lo) (fst e) \<and> below hi (fst e)) es"
  let ?Q = "\<lambda>rk. visible c snap (tx_min (record_at n table rk)) (tx_max (record_at n table rk)) \<and> P (row_values (record_at n table rk))"
  let ?row = "\<lambda>kv. row_values (record_at n table (rowid_of (fst kv)))"
  note R = index_range_rowids [OF assms(1-4), folded n_def, of c snap]
  obtain i plan where i: "i \<in> set (sch_indexes sch)" "idx_root i = root" "build_index_scan i (predicates f sch) = Some plan"
    "order_matches i (pinned plan) sch order_by" using choose_path_index [OF assms(1)] by metis
  have ix: "indexes n (idx_columns i) table es" and nz: "no_minus_zero f sch" using assms(2) i(1,2) by (auto simp: query_ok_def n_def)
  have row: "typed_row sch (?row kv) \<and> all_hold (predicates f sch) (?row kv) \<and> fst kv = tuple_key (?row kv) (idx_columns i) @ rowid_of (fst kv)"
    if "kv \<in> set ?es" "?Q (rowid_of (fst kv))" for kv
  proof -
    have "fst kv \<in> fst ` set es" using that(1) by auto
    from index_entry_row [OF ix assms(3) this] obtain x where x: "x \<in> set table" "rowid_of (fst kv) = fst x"
      "fst kv = tuple_key (?row kv) (idx_columns i) @ rowid_of (fst kv)" by auto
    then have "typed_row sch (?row kv)" "passes_filter (Some f) (scope_single q sch) (?row kv) = Inr True"
      using assms(2) that(2) table_decodes(2) [OF ix assms(3) x(1)] by (auto simp: query_ok_def n_def Let_def)
    with predicates_hold [OF _ nz] x(3) show ?thesis by blast
  qed
  have "sorted_wrt (\<lambda>x y. fst x < fst y) ?es" using assms(4) by (simp add: sorted_wrt_map sorted_wrt_filter)
  then have "sorted_wrt (\<lambda>a b. compare_rows keys a b \<noteq> Greater) (map ?row (filter (\<lambda>kv. ?Q (rowid_of (fst kv))) ?es))"
  proof (rule sorted_wrt_filter_map)
    fix x y assume xy: "x \<in> set ?es" "y \<in> set ?es" "?Q (rowid_of (fst x))" "?Q (rowid_of (fst y))" "fst x < fst y"
    note rx = row [OF xy(1,3)] and ry = row [OF xy(2,4)]
    have "tuple_key (?row x) (idx_columns i) @ rowid_of (fst x) \<le> tuple_key (?row y) (idx_columns i) @ rowid_of (fst y)"
      using rx ry xy(5) by (metis less_imp_le)
    from presorted_keys [OF i(3,4) assms(5) _ _ _ _ this] rx ry
    show "compare_rows keys (?row x) (?row y) \<noteq> Greater" by blast
  qed
  moreover have "map ?row (filter (\<lambda>kv. ?Q (rowid_of (fst kv))) ?es) =
      map (\<lambda>rk. row_values (record_at n table rk)) (filter ?Q (map (\<lambda>kv. rowid_of (fst kv)) ?es))"
    by (simp add: filter_map comp_def)
  ultimately show ?thesis unfolding conjunct1 [OF R] by (simp only:)
qed

lemma entries_distinct: "tree_at V root h t \<Longrightarrow> sorted_wrt (<) (map fst (entries h t)) \<and> distinct (map fst (entries h t))"
  using wf_sorted [of V h None None 0 t] strict_sorted_iff by (auto simp: tree_at_def)


section \<open>Witness\<close>

text \<open>A table with its index, both just created.\<close>

lemma sample_table_and_index:
  "\<exists>p V root i_root r. represents p V r \<and> tree_at V root 0 (BLeaf root [] 0) \<and> tree_at V i_root 0 (BLeaf i_root [] 0)"
proof -
  obtain root s q where r: "represents s [1 \<mapsto> page_at [] 1, root \<mapsto> q] (Suc 7)"
    "tree_at [1 \<mapsto> page_at [] 1, root \<mapsto> q] root 0 (BLeaf root [] 0)" using sample_tree by auto
  let ?V = "[1 \<mapsto> page_at [] 1, root \<mapsto> q]"
  obtain i_root s' q' where i: "?V i_root = None" "represents s' (?V(i_root \<mapsto> q')) 7"
    "tree_at (?V(i_root \<mapsto> q')) i_root 0 (BLeaf i_root [] 0)" using pager_store.bt_create_spec [OF r(1)] by blast
  have "same_on (?V(i_root \<mapsto> q')) ?V (set (tree_pages 0 (BLeaf root [] 0)))"
    using i(1) by (auto simp: same_on_def split: if_splits)
  then have "tree_at (?V(i_root \<mapsto> q')) root 0 (BLeaf root [] 0)"
    using r(2) wf_cong [of ?V 0 None None 0 "BLeaf root [] 0"] by (auto simp: tree_at_def)
  with i show ?thesis by blast
qed


end
