(* ===== verification/Table_Write.thy ===== *)
theory Table_Write
  imports Index_Scan
begin

text \<open>
  The statements that write rows, \<^verbatim>\<open>insert\<close>, \<^verbatim>\<open>update\<close> and \<^verbatim>\<open>delete\<close> of \<^verbatim>\<open>engine/executor.rs\<close>, with the
  constraint checks and the maintenance of the indexes. A write never removes anything: an update or
  a delete stamps the old version of a row, and a new version gets a new rowid and new index entries.
  \<^verbatim>\<open>prepare_subqueries\<close> and the cascading statements of \<^verbatim>\<open>apply_parent_delete_actions\<close> run through the
  whole executor again and are arguments of the statements.
\<close>

section \<open>State\<close>

record write_state =
  ws_pager :: pager
  ws_tx :: tx_state

definition on_pager :: "(pager, 'a) op \<Rightarrow> (write_state, 'a) op" where
  "on_pager f st = (case f (ws_pager st) of (r, p) \<Rightarrow> (r, st\<lparr>ws_pager := p\<rparr>))"

definition on_ssi :: "(ssi_map \<Rightarrow> ssi_map) \<Rightarrow> (write_state, unit) op" where
  "on_ssi f st = (Inr (), st\<lparr>ws_tx := (ws_tx st)\<lparr>ssi := f (ssi (ws_tx st))\<rparr>\<rparr>)"

definition reserve :: "bytes \<Rightarrow> u64 \<Rightarrow> (write_state, u64) op" where
  "reserve table n st = (case reserve_rowid table n (ws_tx st) of (n', t) \<Rightarrow> (Inr n', st\<lparr>ws_tx := t\<rparr>))"

definition next_rowid_now :: "bytes \<Rightarrow> u64 \<Rightarrow> (write_state, u64) op" where
  "next_rowid_now table n st = (case current_next_rowid table n (ws_tx st) of (n', t) \<Rightarrow> (Inr n', st\<lparr>ws_tx := t\<rparr>))"

section \<open>Constraints\<close>

definition require_table :: "nat \<Rightarrow> u32 \<Rightarrow> bytes \<Rightarrow> (pager, schema) op" where
  "require_table fuel catalog name = sbind (catalog_get fuel pager_ops catalog name) (\<lambda>r.
     case r of Some s \<Rightarrow> sret s | None \<Rightarrow> slift (Inl (Fail Exec)))"

definition column_no :: "schema \<Rightarrow> bytes \<Rightarrow> nat result" where
  "column_no sch name = ok_or (column_index sch name) Exec"

text \<open>Whether some entry of an index starts with a key prefix; only the first entry of the range is read.\<close>

definition index_has_value :: "nat \<Rightarrow> u32 \<Rightarrow> bytes \<Rightarrow> (pager, bool) op" where
  "index_has_value fuel index_root value_prefix =
     sbind (cursor_at fuel pager_ops index_root (Some value_prefix) (prefix_upper_bound value_prefix)) (\<lambda>c.
     sbind (cursor_next fuel fuel pager_ops c) (\<lambda>r. sret (fst r \<noteq> None)))"

definition not_null_ok :: "schema \<Rightarrow> row \<Rightarrow> bool" where
  "not_null_ok sch values \<longleftrightarrow> list_all (\<lambda>(c, v). \<not> (not_null c \<and> v = VNull)) (zip (sch_columns sch) values)"

definition unique_index_on :: "schema \<Rightarrow> nat \<Rightarrow> u32 option" where
  "unique_index_on sch c = map_option idx_root (find (\<lambda>i. idx_unique i \<and> idx_columns i = [c]) (sch_indexes sch))"

text \<open>The parent of one foreign-key value must be in the parent's unique index.\<close>

definition check_foreign_key :: "nat \<Rightarrow> u32 \<Rightarrow> column \<times> sql_value \<Rightarrow> (pager, unit) op" where
  "check_foreign_key fuel catalog cv =
     (case foreign_key (fst cv) of
        None \<Rightarrow> sret ()
      | Some fk \<Rightarrow>
          if snd cv = VNull then sret ()
          else
            sbind (catalog_get fuel pager_ops catalog (fk_table fk)) (\<lambda>parent.
            sbind (slift (ok_or parent Corruption)) (\<lambda>parent.
            sbind (slift (ok_or (column_index parent (fk_column fk)) Corruption)) (\<lambda>pc.
            sbind (slift (ok_or (unique_index_on parent pc) Corruption)) (\<lambda>root.
            sbind (index_has_value fuel root (encode_index_value (snd cv))) (\<lambda>found.
            if found then sret () else slift (Inl (Fail Exec))))))))"

definition check_foreign_keys :: "nat \<Rightarrow> u32 \<Rightarrow> schema \<Rightarrow> row \<Rightarrow> (pager, unit) op" where
  "check_foreign_keys fuel catalog sch values = sfor (check_foreign_key fuel catalog) (zip (sch_columns sch) values)"

text \<open>\<^verbatim>\<open>==\<close> on values: the zeros are equal, a NaN equals nothing.\<close>

fun value_same :: "sql_value \<Rightarrow> sql_value \<Rightarrow> bool" where
  "value_same (VReal a) (VReal b) = (f64_partial_cmp a b = Some Equal)"
| "value_same a b = (a = b)"

section \<open>Index maintenance\<close>

definition encode_index_value_prefix :: "row \<Rightarrow> nat list \<Rightarrow> bytes result" where
  "encode_index_value_prefix values columns = encode_index_columns values columns"

definition unchanged :: "row \<Rightarrow> row option \<Rightarrow> nat list \<Rightarrow> bool" where
  "unchanged values old columns =
     (case old of None \<Rightarrow> False | Some o' \<Rightarrow> list_all (\<lambda>c. value_same (values ! c) (o' ! c)) columns)"

definition unique_check :: "nat \<Rightarrow> row \<Rightarrow> row option \<Rightarrow> index_def \<Rightarrow> (write_state, unit) op" where
  "unique_check fuel values old i =
     (if idx_unique i \<and> \<not> list_ex (\<lambda>c. values ! c = VNull) (idx_columns i) \<and> \<not> unchanged values old (idx_columns i) then
        sbind (slift (encode_index_value_prefix values (idx_columns i))) (\<lambda>value_prefix.
        sbind (on_pager (index_has_value fuel (idx_root i) value_prefix)) (\<lambda>found.
        if found then slift (Inl (Fail Exec)) else sret ()))
      else sret ())"

definition index_insert_one :: "nat \<Rightarrow> bytes \<Rightarrow> row \<Rightarrow> row option \<Rightarrow> snapshot \<Rightarrow> index_def \<Rightarrow> (write_state, unit) op" where
  "index_insert_one fuel rk values old snap i =
     sbind (unique_check fuel values old i) (\<lambda>_.
     sbind (slift (encode_index_key values (idx_columns i) rk)) (\<lambda>key.
     sbind (on_pager (bt_insert fuel pager_ops (idx_root i) key [])) (\<lambda>_.
     on_ssi (record_index_write snap (idx_root i) key))))"

definition index_insert_row_with_old :: "nat \<Rightarrow> schema \<Rightarrow> bytes \<Rightarrow> row \<Rightarrow> row option \<Rightarrow> snapshot \<Rightarrow> (write_state, unit) op" where
  "index_insert_row_with_old fuel sch rk values old snap =
     sfor (index_insert_one fuel rk values old snap) (sch_indexes sch)"

definition index_insert_row :: "nat \<Rightarrow> schema \<Rightarrow> bytes \<Rightarrow> row \<Rightarrow> snapshot \<Rightarrow> (write_state, unit) op" where
  "index_insert_row fuel sch rk values snap = index_insert_row_with_old fuel sch rk values None snap"

section \<open>INSERT\<close>

definition set_value :: "row \<Rightarrow> nat \<Rightarrow> sql_value \<Rightarrow> row result" where
  "set_value values c v = (if c < length values then Inr (values[c := v]) else Inl Panicked)"

fun fill_values :: "schema \<Rightarrow> nat list \<Rightarrow> expr list \<Rightarrow> nat \<Rightarrow> row \<Rightarrow> row result" where
  "fill_values sch targets [] pos values = Inr values"
| "fill_values sch targets (e # es) pos values =
     rbind (index targets pos) (\<lambda>c.
     rbind (eval e None) (\<lambda>v.
     rbind (index (sch_columns sch) c) (\<lambda>col.
     rbind (coerce v (col_ty col)) (\<lambda>v.
     rbind (set_value values c v) (fill_values sch targets es (Suc pos))))))"

text \<open>Store a new version of a row and its index entries.\<close>

definition store_version :: "nat \<Rightarrow> schema \<Rightarrow> bytes \<Rightarrow> u64 \<Rightarrow> row \<Rightarrow> row option \<Rightarrow> snapshot \<Rightarrow> (write_state, unit) op" where
  "store_version fuel sch table tx values old snap =
     sbind (reserve table (next_rowid sch)) (\<lambda>rowid.
     sbind (on_pager (bt_insert fuel pager_ops (sch_root sch) (rowid_key rowid) (encode_row tx 0 values))) (\<lambda>_.
     index_insert_row_with_old fuel sch (rowid_key rowid) values old snap))"

definition insert_one :: "nat \<Rightarrow> u32 \<Rightarrow> schema \<Rightarrow> bytes \<Rightarrow> bool \<Rightarrow> nat list \<Rightarrow> u64 \<Rightarrow> snapshot \<Rightarrow> expr list \<Rightarrow> (write_state, unit) op" where
  "insert_one fuel catalog sch table positional targets tx snap es =
     (if positional \<and> length es \<noteq> length (sch_columns sch) then slift (Inl (Fail Exec))
      else
        sbind (slift (fill_values sch targets es 0 (replicate (length (sch_columns sch)) VNull))) (\<lambda>values.
        if \<not> not_null_ok sch values then slift (Inl (Fail Exec))
        else
          sbind (on_pager (check_foreign_keys fuel catalog sch values)) (\<lambda>_.
          sbind (store_version fuel sch table tx values None snap) (\<lambda>_.
          on_ssi (record_insert snap (sch_root sch))))))"

definition saturating_add :: "u64 \<Rightarrow> nat \<Rightarrow> u64" where
  "saturating_add a n = (if unat a + n < 2 ^ 64 then a + of_nat n else -1)"

definition insert_rows :: "nat \<Rightarrow> u32 \<Rightarrow> bytes \<Rightarrow> bytes list option \<Rightarrow> expr list list \<Rightarrow> snapshot \<Rightarrow> (write_state, nat) op" where
  "insert_rows fuel catalog table columns rows snap =
     sbind (on_pager (require_table fuel catalog table)) (\<lambda>sch.
     sbind (slift (ok_or (own_tx snap) Corruption)) (\<lambda>tx.
     sbind (slift (case columns of Some names \<Rightarrow> rmap (column_no sch) names | None \<Rightarrow> Inr [0..<length (sch_columns sch)])) (\<lambda>targets.
     sbind (sfor (insert_one fuel catalog sch table (columns = None) targets tx snap) rows) (\<lambda>_.
     sbind (next_rowid_now table (next_rowid sch)) (\<lambda>n.
     sbind (on_pager (catalog_put fuel pager_ops catalog (sch\<lparr>next_rowid := n, row_count := row_count sch + of_nat (length rows),
        mutations_since_analyze := saturating_add (mutations_since_analyze sch) (length rows)\<rparr>))) (\<lambda>_.
     sret (length rows)))))))"

section \<open>Finding the rows to write\<close>

text \<open>A visible row joins the candidates; over an index, its read is recorded.\<close>

definition admit_version :: "bool \<Rightarrow> snapshot \<Rightarrow> u32 \<Rightarrow> bytes \<Rightarrow> row_record \<Rightarrow> (write_state, (bytes \<times> row_record) list) op" where
  "admit_version is_full_scan snap table_root rk r st =
     (if \<not> visible (tx_clog (ws_tx st)) snap (tx_min r) (tx_max r) then (Inr [], st)
      else sbind (if is_full_scan then sret ()
                  else on_ssi (record_read snap table_root rk (if tx_max r \<noteq> 0 then Some (tx_max r) else None)))
             (\<lambda>_. sret [(rk, r)]) st)"

fun admit_all :: "nat \<Rightarrow> snapshot \<Rightarrow> u32 \<Rightarrow> (bytes \<times> bytes) list \<Rightarrow> (write_state, (bytes \<times> row_record) list) op" where
  "admit_all n snap table_root [] = sret []"
| "admit_all n snap table_root (kv # kvs) =
     sbind (slift (decode_row (snd kv) n)) (\<lambda>r.
     sbind (admit_version True snap table_root (fst kv) r) (\<lambda>out.
     sbind (admit_all n snap table_root kvs) (\<lambda>rest. sret (out @ rest))))"

fun admit_index :: "nat \<Rightarrow> nat \<Rightarrow> snapshot \<Rightarrow> u32 \<Rightarrow> bytes set \<Rightarrow> (bytes \<times> bytes) list \<Rightarrow> (write_state, (bytes \<times> row_record) list) op" where
  "admit_index fuel n snap table_root ids [] = sret []"
| "admit_index fuel n snap table_root ids (kv # kvs) =
     (if length (fst kv) < 8 then slift (Inl (Fail Corruption))
      else
        let rk = rowid_of (fst kv) in
        if rk \<in> ids then admit_index fuel n snap table_root ids kvs
        else
          sbind (on_pager (bt_search fuel pager_ops table_root rk)) (\<lambda>found.
          sbind (slift (ok_or found Corruption)) (\<lambda>encoded.
          sbind (slift (decode_row encoded n)) (\<lambda>r.
          sbind (admit_version False snap table_root rk r) (\<lambda>out.
          sbind (admit_index fuel n snap table_root (insert rk ids) kvs) (\<lambda>rest. sret (out @ rest)))))))"

definition collect_candidates :: "nat \<Rightarrow> schema \<Rightarrow> access_path \<Rightarrow> snapshot \<Rightarrow> (write_state, (bytes \<times> row_record) list) op" where
  "collect_candidates fuel sch access snap =
     (case access of
        FullScan \<Rightarrow>
          sbind (on_ssi (record_relation_read snap (sch_root sch))) (\<lambda>_.
          sbind (on_pager (bt_scan fuel pager_ops (sch_root sch))) (\<lambda>kvs.
          admit_all (length (sch_columns sch)) snap (sch_root sch) kvs))
      | IndexScan root lo hi \<Rightarrow>
          sbind (on_ssi (record_index_range_read snap root lo hi)) (\<lambda>_.
          sbind (on_pager (scan_range fuel pager_ops root lo hi)) (\<lambda>kvs.
          admit_index fuel (length (sch_columns sch)) snap (sch_root sch) {} kvs)))"

text \<open>First updater wins: a row that another transaction in flight has stamped is a conflict.\<close>

definition check_write_write_conflict :: "row_record \<Rightarrow> snapshot \<Rightarrow> 'c clog_scheme \<Rightarrow> unit result" where
  "check_write_write_conflict r snap c =
     (if tx_max r = 0 \<or> Some (tx_max r) = own_tx snap then Inr ()
      else case tx_status c (tx_max r) of
        Some _ \<Rightarrow> Inr ()
      | None \<Rightarrow> Inl (Fail Conflict))"

section \<open>Referencing tables\<close>

fun children_columns :: "schema \<Rightarrow> bytes \<Rightarrow> schema \<Rightarrow> (nat \<times> column) list \<Rightarrow> (bytes \<times> schema \<times> nat \<times> column \<times> nat) list" where
  "children_columns parent child_name child [] = []"
| "children_columns parent child_name child ((i, c) # cs) =
     (case foreign_key c of
        None \<Rightarrow> []
      | Some fk \<Rightarrow>
          if fk_table fk \<noteq> sch_name parent then []
          else (case column_index parent (fk_column fk) of
                  None \<Rightarrow> []
                | Some pc \<Rightarrow> [(child_name, child, i, c, pc)]))
     @ children_columns parent child_name child cs"

fun children_of :: "nat \<Rightarrow> u32 \<Rightarrow> schema \<Rightarrow> bytes list \<Rightarrow> (pager, (bytes \<times> schema \<times> nat \<times> column \<times> nat) list) op" where
  "children_of fuel catalog parent [] = sret []"
| "children_of fuel catalog parent (name # names) =
     (if name = sch_name parent then children_of fuel catalog parent names
      else
        sbind (catalog_get fuel pager_ops catalog name) (\<lambda>child.
        sbind (children_of fuel catalog parent names) (\<lambda>rest.
        sret ((case child of None \<Rightarrow> [] | Some s \<Rightarrow> children_columns parent name s (enumerate 0 (sch_columns s))) @ rest))))"

definition children_referencing :: "nat \<Rightarrow> u32 \<Rightarrow> schema \<Rightarrow> (pager, (bytes \<times> schema \<times> nat \<times> column \<times> nat) list) op" where
  "children_referencing fuel catalog parent = sbind (table_names fuel pager_ops catalog) (children_of fuel catalog parent)"

fun any_row_has :: "nat \<Rightarrow> nat \<Rightarrow> sql_value \<Rightarrow> (bytes \<times> bytes) list \<Rightarrow> bool result" where
  "any_row_has n c v [] = Inr False"
| "any_row_has n c v (kv # kvs) =
     rbind (decode_row (snd kv) n) (\<lambda>r. rbind (index (row_values r) c) (\<lambda>w.
       if value_same w v then Inr True else any_row_has n c v kvs))"

definition scan_child_for_fk_value :: "nat \<Rightarrow> schema \<Rightarrow> nat \<Rightarrow> bytes \<Rightarrow> sql_value \<Rightarrow> (pager, bool) op" where
  "scan_child_for_fk_value fuel child c key v =
     (case find (\<lambda>i. idx_columns i = [c]) (sch_indexes child) of
        Some i \<Rightarrow> index_has_value fuel (idx_root i) key
      | None \<Rightarrow> sbind (bt_scan fuel pager_ops (sch_root child)) (\<lambda>kvs. slift (any_row_has (length (sch_columns child)) c v kvs)))"

definition check_no_child_references :: "nat \<Rightarrow> u32 \<Rightarrow> schema \<Rightarrow> row \<Rightarrow> (pager, unit) op" where
  "check_no_child_references fuel catalog parent values =
     sbind (children_referencing fuel catalog parent) (sfor (\<lambda>(_, child, ci, _, pc).
       sbind (slift (index values pc)) (\<lambda>v.
       sbind (scan_child_for_fk_value fuel child ci (encode_index_value v) v) (\<lambda>found.
       if found then slift (Inl (Fail Exec)) else sret ()))))"

text \<open>
  What deleting a parent row does to the rows that reference it. The cascading DELETE and the UPDATE
  to NULL are SQL statements run through the parser, the planner and the executor: \<open>run\<close>.
\<close>

definition apply_parent_delete_actions :: "(fk_action \<Rightarrow> bytes \<Rightarrow> bytes \<Rightarrow> sql_value \<Rightarrow> (write_state, unit) op) \<Rightarrow> nat \<Rightarrow> u32
    \<Rightarrow> schema \<Rightarrow> row \<Rightarrow> (write_state, unit) op" where
  "apply_parent_delete_actions run fuel catalog parent values =
     sbind (on_pager (children_referencing fuel catalog parent)) (sfor (\<lambda>(child_name, child, ci, col, pc).
       sbind (slift (index values pc)) (\<lambda>v.
       let refuse = sbind (on_pager (scan_child_for_fk_value fuel child ci (encode_index_value v) v)) (\<lambda>found.
             if found then slift (Inl (Fail Exec)) else sret ()) in
       case foreign_key col of
         None \<Rightarrow> slift (Inl Panicked)
       | Some fk \<Rightarrow>
           (case on_delete fk of
              Restrict \<Rightarrow> refuse
            | Cascade \<Rightarrow> run Cascade child_name (col_name col) v
            | SetNull \<Rightarrow> if not_null col then refuse else run SetNull child_name (col_name col) v))))"

section \<open>UPDATE and DELETE\<close>

text \<open>Stamp the stored version of a row with the writer's transaction.\<close>

definition tombstone :: "nat \<Rightarrow> schema \<Rightarrow> bytes \<Rightarrow> row_record \<Rightarrow> u64 \<Rightarrow> snapshot \<Rightarrow> (write_state, unit) op" where
  "tombstone fuel sch rk r tx snap =
     sbind (on_pager (bt_insert fuel pager_ops (sch_root sch) rk (encode_row (tx_min r) tx (row_values r)))) (\<lambda>_.
     on_ssi (record_write snap (sch_root sch) rk))"

fun assign :: "schema \<Rightarrow> scope \<Rightarrow> row \<Rightarrow> (nat \<times> expr) list \<Rightarrow> row \<Rightarrow> row result" where
  "assign sch sc old [] new = Inr new"
| "assign sch sc old ((c, e) # es) new =
     rbind (eval e (Some \<lparr>rc_scope = sc, rc_values = old\<rparr>)) (\<lambda>v.
     rbind (index (sch_columns sch) c) (\<lambda>col.
     rbind (coerce v (col_ty col)) (\<lambda>v.
     rbind (set_value new c v) (assign sch sc old es))))"

definition parent_changed :: "schema \<Rightarrow> row \<Rightarrow> row \<Rightarrow> bool" where
  "parent_changed sch old new \<longleftrightarrow>
     list_ex (\<lambda>i. idx_unique i \<and> length (idx_columns i) = 1 \<and> \<not> value_same (old ! hd (idx_columns i)) (new ! hd (idx_columns i)))
       (sch_indexes sch)"

definition update_one :: "nat \<Rightarrow> u32 \<Rightarrow> schema \<Rightarrow> bytes \<Rightarrow> (nat \<times> expr) list \<Rightarrow> expr option \<Rightarrow> u64 \<Rightarrow> snapshot
    \<Rightarrow> bytes \<times> row_record \<Rightarrow> (write_state, nat) op" where
  "update_one fuel catalog sch table resolved predicate tx snap cand =
     (let rk = fst cand; r = snd cand; sc = scope_single table sch; old = row_values r in
      sbind (slift (passes_filter predicate sc old)) (\<lambda>keep.
      if \<not> keep then sret 0
      else
        sbind (\<lambda>st. (check_write_write_conflict r snap (tx_clog (ws_tx st)), st)) (\<lambda>_.
        sbind (slift (assign sch sc old resolved old)) (\<lambda>new.
        if \<not> not_null_ok sch new then slift (Inl (Fail Exec))
        else
          sbind (on_pager (check_foreign_keys fuel catalog sch new)) (\<lambda>_.
          sbind (if parent_changed sch old new then on_pager (check_no_child_references fuel catalog sch old) else sret ()) (\<lambda>_.
          sbind (tombstone fuel sch rk r tx snap) (\<lambda>_.
          sbind (store_version fuel sch table tx new (Some old) snap) (\<lambda>_. sret 1))))))))"

fun write_each :: "('a \<Rightarrow> (write_state, nat) op) \<Rightarrow> 'a list \<Rightarrow> (write_state, nat) op" where
  "write_each f [] = sret 0"
| "write_each f (x # xs) = sbind (f x) (\<lambda>n. sbind (write_each f xs) (\<lambda>m. sret (n + m)))"

fun prepare_all :: "(expr \<Rightarrow> (write_state, expr) op) \<Rightarrow> (bytes \<times> expr) list \<Rightarrow> (write_state, (bytes \<times> expr) list) op" where
  "prepare_all prepare [] = sret []"
| "prepare_all prepare ((n, e) # es) =
     sbind (prepare e) (\<lambda>e'. sbind (prepare_all prepare es) (\<lambda>rest. sret ((n, e') # rest)))"

definition prepare_option :: "(expr \<Rightarrow> (write_state, expr) op) \<Rightarrow> expr option \<Rightarrow> (write_state, expr option) op" where
  "prepare_option prepare e = (case e of None \<Rightarrow> sret None | Some e \<Rightarrow> sbind (prepare e) (\<lambda>e'. sret (Some e')))"

definition update_rows :: "(expr \<Rightarrow> (write_state, expr) op) \<Rightarrow> nat \<Rightarrow> u32 \<Rightarrow> bytes \<Rightarrow> (bytes \<times> expr) list \<Rightarrow> expr option
    \<Rightarrow> access_path \<Rightarrow> snapshot \<Rightarrow> (write_state, nat) op" where
  "update_rows prepare fuel catalog table assignments predicate access snap =
     sbind (on_pager (require_table fuel catalog table)) (\<lambda>sch.
     sbind (slift (ok_or (own_tx snap) Corruption)) (\<lambda>tx.
     sbind (prepare_all prepare assignments) (\<lambda>assignments.
     sbind (prepare_option prepare predicate) (\<lambda>predicate.
     sbind (slift (rmap (\<lambda>(n, e). rbind (column_no sch n) (\<lambda>c. Inr (c, e))) assignments)) (\<lambda>resolved.
     sbind (collect_candidates fuel sch access snap) (\<lambda>cands.
     sbind (write_each (update_one fuel catalog sch table resolved predicate tx snap) cands) (\<lambda>updated.
     sbind (next_rowid_now table (next_rowid sch)) (\<lambda>n.
     sbind (on_pager (catalog_put fuel pager_ops catalog (sch\<lparr>next_rowid := n,
        mutations_since_analyze := saturating_add (mutations_since_analyze sch) updated\<rparr>))) (\<lambda>_.
     sret updated)))))))))"

definition delete_one :: "(schema \<Rightarrow> row \<Rightarrow> (write_state, unit) op) \<Rightarrow> nat \<Rightarrow> schema \<Rightarrow> bytes \<Rightarrow> expr option \<Rightarrow> u64 \<Rightarrow> snapshot
    \<Rightarrow> bytes \<times> row_record \<Rightarrow> (write_state, nat) op" where
  "delete_one parent_actions fuel sch table predicate tx snap cand =
     (let rk = fst cand; r = snd cand in
      sbind (slift (passes_filter predicate (scope_single table sch) (row_values r))) (\<lambda>keep.
      if \<not> keep then sret 0
      else
        sbind (\<lambda>st. (check_write_write_conflict r snap (tx_clog (ws_tx st)), st)) (\<lambda>_.
        sbind (parent_actions sch (row_values r)) (\<lambda>_.
        sbind (tombstone fuel sch rk r tx snap) (\<lambda>_. sret 1)))))"

definition saturating_sub :: "u64 \<Rightarrow> nat \<Rightarrow> u64" where
  "saturating_sub a n = (if n \<le> unat a then a - of_nat n else 0)"

definition delete_rows :: "(expr \<Rightarrow> (write_state, expr) op) \<Rightarrow> (schema \<Rightarrow> row \<Rightarrow> (write_state, unit) op) \<Rightarrow> nat \<Rightarrow> u32 \<Rightarrow> bytes
    \<Rightarrow> expr option \<Rightarrow> access_path \<Rightarrow> snapshot \<Rightarrow> (write_state, nat) op" where
  "delete_rows prepare parent_actions fuel catalog table predicate access snap =
     sbind (on_pager (require_table fuel catalog table)) (\<lambda>sch.
     sbind (slift (ok_or (own_tx snap) Corruption)) (\<lambda>tx.
     sbind (prepare_option prepare predicate) (\<lambda>predicate.
     sbind (collect_candidates fuel sch access snap) (\<lambda>cands.
     sbind (write_each (delete_one parent_actions fuel sch table predicate tx snap) cands) (\<lambda>deleted.
     if deleted = 0 then sret 0
     else
       sbind (on_pager (catalog_put fuel pager_ops catalog (sch\<lparr>row_count := saturating_sub (row_count sch) deleted,
          mutations_since_analyze := saturating_add (mutations_since_analyze sch) deleted\<rparr>))) (\<lambda>_.
       sret deleted))))))"

section \<open>The trees of a database\<close>

text \<open>Several trees side by side in one store, none sharing a page with another.\<close>

definition trees :: "page_map \<Rightarrow> (u32 \<Rightarrow> (nat \<times> bt) option) \<Rightarrow> bool" where
  "trees V T \<longleftrightarrow> (\<forall>root h t. T root = Some (h, t) \<longrightarrow> tree_at V root h t) \<and>
     (\<forall>a b h t h' t'. a \<noteq> b \<longrightarrow> T a = Some (h, t) \<longrightarrow> T b = Some (h', t') \<longrightarrow> set (tree_pages h t) \<inter> set (tree_pages h' t') = {})"

definition entries_of :: "(u32 \<Rightarrow> (nat \<times> bt) option) \<Rightarrow> u32 \<Rightarrow> (bytes \<times> bytes) list" where
  "entries_of T root = (case T root of None \<Rightarrow> [] | Some (h, t) \<Rightarrow> entries h t)"

definition fuel_ok :: "nat \<Rightarrow> (u32 \<Rightarrow> (nat \<times> bt) option) \<Rightarrow> u32 \<Rightarrow> bool" where
  "fuel_ok fuel T root \<longleftrightarrow> (case T root of None \<Rightarrow> False | Some (h, t) \<Rightarrow> cost h t < fuel)"

definition room :: "(u32 \<Rightarrow> (nat \<times> bt) option) \<Rightarrow> u32 \<Rightarrow> nat" where
  "room T root = (case T root of None \<Rightarrow> 0 | Some (h, _) \<Rightarrow> Suc (Suc h))"

lemma trees_moves:
  assumes "trees V T" "T root = Some (h, t)" "moves V V' (set (tree_pages h t)) (set (tree_pages h' t'))" "tree_at V' root h' t'"
  shows "trees V' (T(root \<mapsto> (h', t')))"
proof -
  have other: "set (tree_pages k u) \<inter> set (tree_pages h' t') = {} \<and> tree_at V' a k u"
    if "a \<noteq> root" "T a = Some (k, u)" for a k u
  proof -
    have u: "tree_at V a k u" "set (tree_pages k u) \<inter> set (tree_pages h t) = {}" using assms(1,2) that unfolding trees_def by blast+
    then have "V no \<noteq> None" if "no \<in> set (tree_pages k u)" for no using wf_live [of V k None None 0 u no] that by (simp add: tree_at_def)
    from moves_other [OF assms(3) u(2) this] u(1) wf_cong [of V k None None 0 u V'] show ?thesis by (simp add: tree_at_def)
  qed
  moreover have "set (tree_pages k u) \<inter> set (tree_pages k' u') = {}" if "a \<noteq> b" "T a = Some (k, u)" "T b = Some (k', u')" for a b k u k' u'
    using assms(1) that unfolding trees_def by blast
  ultimately show ?thesis unfolding trees_def using assms(4) by (simp add: Int_commute) (metis Int_commute)
qed

lemma trees_insert:
  assumes "represents p V (r + room T root + length (chunks v))" "trees V T" "fuel_ok fuel T root" "key_fits key"
  shows "\<exists>p' V' x. bt_insert fuel pager_ops root key v p = (Inr (), p') \<and> represents p' V' r \<and> trees V' (T(root \<mapsto> x)) \<and>
    entries_of (T(root \<mapsto> x)) root = set_key key v (entries_of T root) \<and> room (T(root \<mapsto> x)) root \<le> Suc (room T root)"
proof -
  obtain h t where T: "T root = Some (h, t)" "cost h t < fuel" using assms(3) by (auto simp: fuel_ok_def split: option.splits)
  have t: "tree_at V root h t" using assms(2) T(1) by (simp add: trees_def)
  have "represents p V (r + Suc (Suc h) + length (chunks v))" using assms(1) T(1) by (simp add: room_def)
  from pager_store.bt_insert_spec [OF this t T(2) assms(4)] obtain p' V' h' t' where
    "bt_insert fuel pager_ops root key v p = (Inr (), p')" "represents p' V' r" "tree_at V' root h' t'"
    "entries h' t' = set_key key v (entries h t)" "moves V V' (set (tree_pages h t)) (set (tree_pages h' t'))" "h' \<le> Suc h" by blast
  with trees_moves [OF assms(2) T(1)] T(1) show ?thesis
    by (intro exI [of _ p'] exI [of _ V'] exI [of _ "(h', t')"]) (simp add: entries_of_def room_def)
qed

lemma below_bound_iff: "pre \<le> k \<and> below (prefix_upper_bound pre) k \<longleftrightarrow> prefix pre k"
  using between_prefix_bound [of pre k] by (auto simp: below_def split: option.splits)

text \<open>The probe of an index sees every entry, whatever became of the row behind it.\<close>

lemma index_has_value_iff:
  assumes "represents p V r" "trees V T" "fuel_ok fuel T root"
  shows "\<exists>p'. index_has_value fuel root pre p = (Inr (\<exists>e \<in> set (entries_of T root). prefix pre (fst e)), p') \<and> represents p' V r"
proof -
  obtain h t where T: "T root = Some (h, t)" "cost h t < fuel" using assms(3) by (auto simp: fuel_ok_def split: option.splits)
  then have t: "bt_wf V h None None 0 t" "root_no t = root" "length (tree_pages h t) + length (entries h t) < fuel" "h < fuel"
    using assms(2) by (auto simp: trees_def tree_at_def cost_def)
  let ?stop = "prefix_upper_bound pre"
  obtain p1 c es ls where c: "cursor_at fuel pager_ops root (Some pre) ?stop p = (Inr c, p1)" "represents p1 V r" "upper c = ?stop"
    "cursor_on V es ls c" "length ls < fuel" "cursor_pages es ls < fuel"
    "takeWhile (\<lambda>e. below ?stop (fst e)) (cursor_entries es ls) = filter (\<lambda>e. above (Some pre) (fst e) \<and> below ?stop (fst e)) (entries h t)"
    using pager_store.cursor_opens [OF assms(1) t(1,3,4), of "Some pre" ?stop] t(2) by blast
  obtain p2 c' where n: "cursor_next fuel fuel pager_ops c p1 = (Inr (case cursor_entries es ls of [] \<Rightarrow> (None, c')
      | e # _ \<Rightarrow> if below ?stop (fst e) then (Some e, c') else (None, c')), p2)" "represents p2 V r"
    using pager_store.cursor_next_spec [OF c(2,4-6), unfolded c(3)] by blast
  have "(takeWhile (\<lambda>e. below ?stop (fst e)) (cursor_entries es ls) \<noteq> []) = (\<exists>e \<in> set (entries h t). prefix pre (fst e))"
    unfolding c(7) using below_bound_iff by (auto simp: filter_empty_conv)
  then have "(fst (case cursor_entries es ls of [] \<Rightarrow> (None, c') | e # _ \<Rightarrow> if below ?stop (fst e) then (Some e, c') else (None, c')) \<noteq> None)
      = (\<exists>e \<in> set (entries_of T root). prefix pre (fst e))"
    using T(1) by (auto simp: entries_of_def split: list.splits if_splits)
  with c(1) n show ?thesis by (simp add: index_has_value_def sbind_def)
qed

section \<open>Writes keep the indexes\<close>

abbreviation "index_key values i rk \<equiv> tuple_key values (idx_columns i) @ rk"

text \<open>What lets a new version into an index: it can be stored, and a UNIQUE index has no entry with its values.\<close>

definition admits :: "row \<Rightarrow> row option \<Rightarrow> bytes \<Rightarrow> nat \<Rightarrow> (u32 \<Rightarrow> (nat \<times> bt) option) \<Rightarrow> index_def \<Rightarrow> bool" where
  "admits values old rk fuel T i \<longleftrightarrow> list_all (\<lambda>c. c < length values) (idx_columns i) \<and> key_fits (index_key values i rk) \<and>
     fuel_ok fuel T (idx_root i) \<and>
     (idx_unique i \<longrightarrow> \<not> list_ex (\<lambda>c. values ! c = VNull) (idx_columns i) \<longrightarrow> \<not> unchanged values old (idx_columns i) \<longrightarrow>
       \<not> (\<exists>e \<in> set (entries_of T (idx_root i)). prefix (tuple_key values (idx_columns i)) (fst e)))"

lemma chunks_Nil [simp]: "chunks [] = []"
  by (subst chunks.simps) simp

lemma on_pager_bind: "f (ws_pager st) = (Inr x, p) \<Longrightarrow> sbind (on_pager f) g st = g x (st\<lparr>ws_pager := p\<rparr>)"
  by (simp add: on_pager_def sbind_def)

lemma unique_check_spec:
  assumes "represents (ws_pager st) V r" "trees V T" "fuel_ok fuel T (idx_root i)" "list_all (\<lambda>c. c < length values) (idx_columns i)"
  shows "\<exists>p. represents p V r \<and> unique_check fuel values old i st =
    (if idx_unique i \<and> \<not> list_ex (\<lambda>c. values ! c = VNull) (idx_columns i) \<and> \<not> unchanged values old (idx_columns i) \<and>
       (\<exists>e \<in> set (entries_of T (idx_root i)). prefix (tuple_key values (idx_columns i)) (fst e))
     then Inl (Fail Exec) else Inr (), st\<lparr>ws_pager := p\<rparr>)"
proof (cases "idx_unique i \<and> \<not> list_ex (\<lambda>c. values ! c = VNull) (idx_columns i) \<and> \<not> unchanged values old (idx_columns i)")
  case True
  let ?pre = "tuple_key values (idx_columns i)"
  have pre: "encode_index_value_prefix values (idx_columns i) = Inr ?pre"
    using assms(4) by (simp add: encode_index_value_prefix_def encode_index_columns_eq list_all_iff comp_def)
  obtain p where p: "index_has_value fuel (idx_root i) ?pre (ws_pager st)
      = (Inr (\<exists>e \<in> set (entries_of T (idx_root i)). prefix ?pre (fst e)), p)" "represents p V r"
    using index_has_value_iff [OF assms(1-3)] by blast
  have "unique_check fuel values old i st = (if \<exists>e \<in> set (entries_of T (idx_root i)). prefix ?pre (fst e)
      then slift (Inl (Fail Exec)) else sret ()) (st\<lparr>ws_pager := p\<rparr>)"
    unfolding unique_check_def if_P [OF True] pre sbind_slift sum.case
      on_pager_bind [where f = "index_has_value fuel (idx_root i) ?pre", OF p(1)] ..
  with True p(2) show ?thesis by (intro exI [of _ p]) (simp del: map_map)
next
  case False
  then show ?thesis using assms(1) by (intro exI [of _ "ws_pager st"]) (auto simp: unique_check_def)
qed

lemma index_insert_one_admitted:
  assumes "represents (ws_pager st) V (r + room T (idx_root i))" "trees V T" "admits values old rk fuel T i"
  shows "\<exists>st' V' x. index_insert_one fuel rk values old snap i st = (Inr (), st') \<and>
    rowid_counters (ws_tx st') = rowid_counters (ws_tx st) \<and> represents (ws_pager st') V' r \<and>
    trees V' (T(idx_root i \<mapsto> x)) \<and>
    entries_of (T(idx_root i \<mapsto> x)) (idx_root i) = set_key (index_key values i rk) [] (entries_of T (idx_root i))"
proof -
  have cols: "list_all (\<lambda>c. c < length values) (idx_columns i)" and f: "fuel_ok fuel T (idx_root i)" and k: "key_fits (index_key values i rk)"
    using assms(3) by (simp_all add: admits_def)
  have no: "\<not> (idx_unique i \<and> \<not> list_ex (\<lambda>c. values ! c = VNull) (idx_columns i) \<and> \<not> unchanged values old (idx_columns i) \<and>
       (\<exists>e \<in> set (entries_of T (idx_root i)). prefix (tuple_key values (idx_columns i)) (fst e)))"
    using assms(3) unfolding admits_def by blast
  obtain p where p: "represents p V (r + room T (idx_root i))" "unique_check fuel values old i st = (Inr (), st\<lparr>ws_pager := p\<rparr>)"
    using unique_check_spec [OF assms(1,2) f cols, of old, unfolded if_not_P [OF no]] by blast
  have "represents p V (r + room T (idx_root i) + length (chunks []))" using p(1) by simp
  from trees_insert [OF this assms(2) f k] obtain p' V' x where
    ins: "bt_insert fuel pager_ops (idx_root i) (index_key values i rk) [] p = (Inr (), p')" "represents p' V' r"
    "trees V' (T(idx_root i \<mapsto> x))"
    "entries_of (T(idx_root i \<mapsto> x)) (idx_root i) = set_key (index_key values i rk) [] (entries_of T (idx_root i))" by blast
  have "bt_insert fuel pager_ops (idx_root i) (index_key values i rk) [] (ws_pager (st\<lparr>ws_pager := p\<rparr>)) = (Inr (), p')"
    using ins(1) by simp
  note step = on_pager_bind [where f = "bt_insert fuel pager_ops (idx_root i) (index_key values i rk) []", OF this]
  have "index_insert_one fuel rk values old snap i st =
      on_ssi (record_index_write snap (idx_root i) (index_key values i rk)) (st\<lparr>ws_pager := p, ws_pager := p'\<rparr>)"
    unfolding index_insert_one_def sbind_Inr [where m = "unique_check fuel values old i", OF p(2)] encode_index_key_eq [OF cols]
      sbind_slift sum.case step ..
  with ins(2-4) show ?thesis
    by (intro exI [of _ "snd (on_ssi (record_index_write snap (idx_root i) (index_key values i rk)) (st\<lparr>ws_pager := p'\<rparr>))"]
        exI [of _ V'] exI [of _ x]) (simp add: on_ssi_def)
qed

lemma tree_local:
  assumes "T' root = T root"
  shows "room T' root = room T root" "entries_of T' root = entries_of T root" "fuel_ok fuel T' root = fuel_ok fuel T root"
  using assms by (simp_all add: room_def entries_of_def fuel_ok_def)

lemma admits_local: "T' (idx_root i) = T (idx_root i) \<Longrightarrow> admits values old rk fuel T' i = admits values old rk fuel T i"
  using tree_local [of T' "idx_root i" T] by (simp add: admits_def)

definition index_room :: "(u32 \<Rightarrow> (nat \<times> bt) option) \<Rightarrow> index_def list \<Rightarrow> nat" where
  "index_room T ixs = sum_list (map (\<lambda>i. room T (idx_root i)) ixs)"

lemma others_local:
  assumes "\<forall>i \<in> set ixs. T' (idx_root i) = T (idx_root i)"
  shows "index_room T' ixs = index_room T ixs"
    and "list_all (admits values old rk fuel T') ixs = list_all (admits values old rk fuel T) ixs"
proof -
  show "index_room T' ixs = index_room T ixs"
    unfolding index_room_def using assms by (intro arg_cong [of _ _ sum_list] map_cong refl tree_local(1)) blast
  show "list_all (admits values old rk fuel T') ixs = list_all (admits values old rk fuel T) ixs"
    unfolding list_all_iff using assms by (intro ball_cong refl admits_local) blast
qed

lemma index_insert_all_admitted:
  assumes "represents (ws_pager st) V (r + index_room T ixs)" "trees V T"
    and "list_all (admits values old rk fuel T) ixs" "distinct (map idx_root ixs)"
  shows "\<exists>st' V' T'. sfor (index_insert_one fuel rk values old snap) ixs st = (Inr (), st') \<and>
    rowid_counters (ws_tx st') = rowid_counters (ws_tx st) \<and> represents (ws_pager st') V' r \<and> trees V' T' \<and>
    (\<forall>root. root \<notin> idx_root ` set ixs \<longrightarrow> T' root = T root) \<and>
    (\<forall>i \<in> set ixs. entries_of T' (idx_root i) = set_key (index_key values i rk) [] (entries_of T (idx_root i)))"
  using assms
proof (induction ixs arbitrary: st V T)
  case Nil
  then show ?case by (auto simp: index_room_def)
next
  case (Cons i ixs)
  let ?rest = "index_room T ixs"
  have "represents (ws_pager st) V ((r + ?rest) + room T (idx_root i))" using Cons.prems(1) by (simp add: ac_simps index_room_def)
  from index_insert_one_admitted [OF this Cons.prems(2), of "values" old rk fuel snap] Cons.prems(3) obtain st1 V1 x where
    one: "index_insert_one fuel rk values old snap i st = (Inr (), st1)" "represents (ws_pager st1) V1 (r + ?rest)"
    "trees V1 (T(idx_root i \<mapsto> x))"
    "entries_of (T(idx_root i \<mapsto> x)) (idx_root i) = set_key (index_key values i rk) [] (entries_of T (idx_root i))"
    "rowid_counters (ws_tx st1) = rowid_counters (ws_tx st)" by auto
  let ?T = "T(idx_root i \<mapsto> x)"
  have same: "\<forall>j \<in> set ixs. ?T (idx_root j) = T (idx_root j)" using Cons.prems(4) by (auto simp: image_iff)
  note loc = others_local [of ixs ?T T, OF same]
  have "represents (ws_pager st1) V1 (r + index_room ?T ixs)" using one(2) by (simp only: loc(1))
  moreover have "list_all (admits values old rk fuel ?T) ixs" unfolding loc(2) using Cons.prems(3) by simp
  moreover have "distinct (map idx_root ixs)" using Cons.prems(4) by simp
  ultimately obtain st' V' T' where two: "sfor (index_insert_one fuel rk values old snap) ixs st1 = (Inr (), st')"
    "represents (ws_pager st') V' r" "trees V' T'" "\<forall>root. root \<notin> idx_root ` set ixs \<longrightarrow> T' root = ?T root"
    "\<forall>i \<in> set ixs. entries_of T' (idx_root i) = set_key (index_key values i rk) [] (entries_of ?T (idx_root i))"
    "rowid_counters (ws_tx st') = rowid_counters (ws_tx st1)"
    using Cons.IH [of st1 V1 ?T] one(3) by blast
  have "idx_root i \<notin> idx_root ` set ixs" using Cons.prems(4) by simp
  then have "T' (idx_root i) = ?T (idx_root i)" using two(4) by blast
  from tree_local(2) [of T' "idx_root i" ?T, OF this] one(4) have
    "entries_of T' (idx_root i) = set_key (index_key values i rk) [] (entries_of T (idx_root i))" by simp
  moreover have "entries_of T' (idx_root j) = set_key (index_key values j rk) [] (entries_of T (idx_root j))" if "j \<in> set ixs" for j
    using two(5) that tree_local(2) [of ?T "idx_root j" T, OF same [rule_format, OF that]] by simp
  moreover have "T' root = T root" if "root \<notin> idx_root ` set (i # ixs)" for root using two(4) that by auto
  ultimately show ?case using one(1,5) two(1-3,6) by (intro exI [of _ st'] exI [of _ V'] exI [of _ T']) (auto simp: sbind_Inr)
qed

lemma set_set_key: "set (set_key k v xs) = insert (k, v) {x \<in> set xs. fst x \<noteq> k}"
  for k :: bytes
  by (auto simp: set_key_def)

lemma keys_set_key: "fst ` set (set_key k v xs) = insert k (fst ` set xs)"
  for k :: bytes
  by (auto simp: set_set_key)

text \<open>A new version with its own rowid and a new entry extends the index by exactly that row.\<close>

lemma indexes_insert:
  assumes "indexes n cols table es" "rk \<notin> fst ` set table" "length rk = 8" "list_all ok_value values" "length values = n"
    and "list_all (\<lambda>c. c < n) cols"
  shows "indexes n cols (set_key rk (encode_row a b values) table) (set_key (tuple_key values cols @ rk) [] es)"
proof -
  have d: "decode_row (encode_row a b values) n = Inr \<lparr>tx_min = a, tx_max = b, row_values = values\<rparr>"
    using decode_encode_row [OF assms(4), of a b] assms(5) by simp
  have "set (set_key rk (encode_row a b values) table) = insert (rk, encode_row a b values) (set table)"
    using assms(2) by (auto simp: set_set_key)
  then show ?thesis using assms(1,3,5,6) d unfolding indexes_def keys_set_key by simp
qed

text \<open>Stamping a version leaves the values, and so the index, as they were.\<close>

lemma indexes_stamp:
  assumes "indexes n cols table es" "distinct (map fst table)" "(rk, encoded) \<in> set table" "decode_row encoded n = Inr r"
    and "list_all ok_value (row_values r)" "length (row_values r) = n"
  shows "indexes n cols (set_key rk (encode_row a b (row_values r)) table) es"
proof -
  let ?new = "encode_row a b (row_values r)" and ?key = "\<lambda>x. tuple_key (row_values (projr (decode_row (snd x) n))) cols @ fst x"
  have d: "decode_row ?new n = Inr \<lparr>tx_min = a, tx_max = b, row_values = row_values r\<rparr>"
    using decode_encode_row [OF assms(5), of a b] assms(6) by simp
  have one: "x = (rk, encoded)" if "x \<in> set table" "fst x = rk" for x
    using that assms(2,3) by (metis eq_key_imp_eq_value prod.collapse)
  then have t: "set table = insert (rk, encoded) {x \<in> set table. fst x \<noteq> rk}" using assms(3) by blast
  have "?key ` set table = insert (?key (rk, encoded)) (?key ` {x \<in> set table. fst x \<noteq> rk})" by (subst t) (rule image_insert)
  also have "?key (rk, encoded) = ?key (rk, ?new)" using assms(4) d by simp
  also have "insert \<dots> (?key ` {x \<in> set table. fst x \<noteq> rk}) = ?key ` set (set_key rk ?new table)"
    unfolding set_set_key by (rule image_insert [symmetric])
  finally have keys: "?key ` set table = ?key ` set (set_key rk ?new table)" .
  have "length rk = 8" "list_all (\<lambda>c. c < length (row_values r)) cols" using assms(1,3,4) by (fastforce simp: indexes_def)+
  then have "\<forall>x \<in> set (set_key rk ?new table). length (fst x) = 8 \<and>
      (\<exists>r. decode_row (snd x) n = Inr r \<and> list_all (\<lambda>c. c < length (row_values r)) cols)"
    using assms(1) d unfolding set_set_key indexes_def by fastforce
  with keys assms(1) show ?thesis unfolding indexes_def by (simp add: case_prod_beta)
qed

text \<open>
  The state of a table between statements: every index is complete and exact, and every stored rowid
  is below the one the coordinator hands out next.
\<close>

definition consistent :: "schema \<Rightarrow> bytes \<Rightarrow> (u32 \<Rightarrow> (nat \<times> bt) option) \<Rightarrow> tx_state \<Rightarrow> bool" where
  "consistent sch table T tx \<longleftrightarrow>
     distinct (sch_root sch # map idx_root (sch_indexes sch)) \<and>
     (\<forall>k \<in> fst ` set (entries_of T (sch_root sch)). k < rowid_key (fst (reserve_rowid table (next_rowid sch) tx))) \<and>
     (\<forall>i \<in> set (sch_indexes sch).
        indexes (length (sch_columns sch)) (idx_columns i) (entries_of T (sch_root sch)) (entries_of T (idx_root i)))"

lemma consistent_counters: "rowid_counters tx' = rowid_counters tx \<Longrightarrow> consistent sch table T tx' = consistent sch table T tx"
  by (simp add: consistent_def reserve_rowid_def Let_def)

lemma reserve_next:
  assumes "reserve_rowid table n tx = (rowid, tx')" "rowid \<noteq> -1"
  shows "fst (reserve_rowid table n tx') = rowid + 1"
proof -
  have "rowid < rowid + 1" using less_next [OF assms(2)] by blast
  then show ?thesis using assms(1) by (auto simp: reserve_rowid_def Let_def max_def split: option.splits if_splits)
qed

lemma rowid_key_less: "rowid_key a < rowid_key b \<longleftrightarrow> a < b"
  by (simp add: rowid_key_def u64_be_less)

lemma consistent_insert:
  assumes "consistent sch table T tx" "reserve_rowid table (next_rowid sch) tx = (rowid, tx')" "rowid \<noteq> -1"
    and "list_all ok_value values" "length values = length (sch_columns sch)"
    and "entries_of T' (sch_root sch) = set_key (rowid_key rowid) (encode_row a b values) (entries_of T (sch_root sch))"
    and "\<forall>i \<in> set (sch_indexes sch). list_all (\<lambda>c. c < length values) (idx_columns i) \<and>
      entries_of T' (idx_root i) = set_key (index_key values i (rowid_key rowid)) [] (entries_of T (idx_root i))"
  shows "consistent sch table T' tx'"
proof -
  have below: "k < rowid_key rowid" if "k \<in> fst ` set (entries_of T (sch_root sch))" for k
    using assms(1,2) that by (auto simp: consistent_def)
  have "rowid_key rowid < rowid_key (rowid + 1)" unfolding rowid_key_less using less_next [OF assms(3)] by blast
  then have "k < rowid_key (rowid + 1)" if "k \<in> fst ` set (entries_of T' (sch_root sch))" for k
    using that below unfolding assms(6) keys_set_key by (auto intro: less_trans)
  moreover have "indexes (length (sch_columns sch)) (idx_columns i) (entries_of T' (sch_root sch)) (entries_of T' (idx_root i))"
    if i: "i \<in> set (sch_indexes sch)" for i
  proof -
    have "rowid_key rowid \<notin> fst ` set (entries_of T (sch_root sch))" using below by blast
    moreover have "length (rowid_key rowid) = 8" by (simp add: rowid_key_def)
    ultimately show ?thesis using assms(1,4-7) i indexes_insert by (simp add: consistent_def)
  qed
  ultimately show ?thesis using assms(1) by (simp add: consistent_def reserve_next [OF assms(2,3)])
qed

lemma key_fits_rowid: "key_fits (rowid_key rowid)"
  by (simp add: key_fits_def rowid_key_def LEAF_CELL_OVERHEAD_def page_consts)

text \<open>A version that every index admits is stored, with its entries, and the table stays consistent.\<close>

lemma store_version_spec:
  assumes "represents (ws_pager st) V (r + index_room T (sch_indexes sch) + room T (sch_root sch) + length (chunks (encode_row tx 0 values)))"
    and "trees V T" "consistent sch table T (ws_tx st)" "fuel_ok fuel T (sch_root sch)"
    and "list_all ok_value values" "length values = length (sch_columns sch)"
    and "reserve_rowid table (next_rowid sch) (ws_tx st) = (rowid, tx')" "rowid \<noteq> -1"
    and "list_all (admits values old (rowid_key rowid) fuel T) (sch_indexes sch)"
  shows "\<exists>st' V' T'. store_version fuel sch table tx values old snap st = (Inr (), st') \<and> represents (ws_pager st') V' r \<and> trees V' T' \<and>
    consistent sch table T' (ws_tx st') \<and>
    entries_of T' (sch_root sch) = set_key (rowid_key rowid) (encode_row tx 0 values) (entries_of T (sch_root sch))"
proof -
  let ?enc = "encode_row tx 0 values" and ?root = "sch_root sch" and ?st = "st\<lparr>ws_tx := tx'\<rparr>"
  from trees_insert [OF assms(1,2,4) key_fits_rowid] obtain p1 V1 x where
    ins: "bt_insert fuel pager_ops ?root (rowid_key rowid) ?enc (ws_pager st) = (Inr (), p1)"
    "represents p1 V1 (r + index_room T (sch_indexes sch))" "trees V1 (T(?root \<mapsto> x))"
    "entries_of (T(?root \<mapsto> x)) ?root = set_key (rowid_key rowid) ?enc (entries_of T ?root)" by blast
  let ?T = "T(?root \<mapsto> x)" and ?st1 = "?st\<lparr>ws_pager := p1\<rparr>"
  have d: "?root \<notin> idx_root ` set (sch_indexes sch)" "distinct (map idx_root (sch_indexes sch))"
    using assms(3) by (auto simp: consistent_def)
  then have same: "\<forall>i \<in> set (sch_indexes sch). ?T (idx_root i) = T (idx_root i)" by (auto simp: image_iff)
  note loc = others_local [of "sch_indexes sch" ?T T, OF same]
  have "represents (ws_pager ?st1) V1 (r + index_room ?T (sch_indexes sch))" using ins(2) by (simp add: loc(1))
  moreover have "list_all (admits values old (rowid_key rowid) fuel ?T) (sch_indexes sch)" by (rule loc(2) [THEN iffD2, OF assms(9)])
  ultimately obtain st' V' T' where all: "sfor (index_insert_one fuel (rowid_key rowid) values old snap) (sch_indexes sch) ?st1 = (Inr (), st')"
    "represents (ws_pager st') V' r" "trees V' T'" "\<forall>root. root \<notin> idx_root ` set (sch_indexes sch) \<longrightarrow> T' root = ?T root"
    "\<forall>i \<in> set (sch_indexes sch). entries_of T' (idx_root i) = set_key (index_key values i (rowid_key rowid)) [] (entries_of ?T (idx_root i))"
    "rowid_counters (ws_tx st') = rowid_counters (ws_tx ?st1)"
    using index_insert_all_admitted [OF _ ins(3) _ d(2), of ?st1] by blast
  have "entries_of T' ?root = set_key (rowid_key rowid) ?enc (entries_of T ?root)"
    using all(4) d(1) ins(4) tree_local(2) [of T' ?root ?T] by simp
  moreover have "\<forall>i \<in> set (sch_indexes sch). list_all (\<lambda>c. c < length values) (idx_columns i) \<and>
      entries_of T' (idx_root i) = set_key (index_key values i (rowid_key rowid)) [] (entries_of T (idx_root i))"
    using all(5) assms(9) tree_local(2) [of ?T _ T] same by (simp add: admits_def list_all_iff)
  ultimately have "consistent sch table T' tx'" "entries_of T' ?root = set_key (rowid_key rowid) ?enc (entries_of T ?root)"
    using consistent_insert [OF assms(3,7,8,5,6)] by blast+
  moreover have "store_version fuel sch table tx values old snap st = (Inr (), st')"
  proof -
    have "reserve table (next_rowid sch) st = (Inr rowid, ?st)" using assms(7) by (simp add: reserve_def)
    moreover have "on_pager (bt_insert fuel pager_ops ?root (rowid_key rowid) ?enc) ?st = (Inr (), ?st1)"
      using ins(1) by (simp add: on_pager_def)
    ultimately show ?thesis using all(1) by (simp add: store_version_def sbind_Inr index_insert_row_with_old_def)
  qed
  moreover have "consistent sch table T' (ws_tx st') = consistent sch table T' tx'" using all(6) by (intro consistent_counters) simp
  ultimately show ?thesis using all(2,3) by blast
qed

lemma fill_values_length: "fill_values sch targets es pos vs = Inr ws \<Longrightarrow> length ws = length vs"
  by (induction es arbitrary: pos vs) (auto simp: set_value_def rbind_Inr_iff split: if_splits)

lemma no_foreign_keys:
  assumes "list_all (\<lambda>c. foreign_key c = None) (sch_columns sch)"
  shows "check_foreign_keys fuel catalog sch values = sret ()"
proof -
  have "sfor (check_foreign_key fuel catalog) xs = sret ()" if "list_all (\<lambda>x. foreign_key (fst x) = None) xs" for xs
    using that by (induction xs) (auto simp: check_foreign_key_def)
  moreover have "list_all (\<lambda>x. foreign_key (fst x) = None) (zip (sch_columns sch) values)"
    using assms by (auto simp: list_all_iff dest: set_zip_leftD)
  ultimately show ?thesis by (simp add: check_foreign_keys_def)
qed

lemma on_pager_sret [simp]: "on_pager (sret x) = sret x"
  by (simp add: fun_eq_iff on_pager_def sret_def)

text \<open>C5: A row that an INSERT accepts is stored under the rowid it reserved, every index of the table
  gets its entry, and afterwards the table is consistent again: each index holds exactly the keys of
  the stored rows, and the next rowid is above every stored one. The table has no foreign keys, the
  store has room for the splits, and every UNIQUE index admits the row.\<close>

theorem insert_keeps_indexes:
  assumes "represents (ws_pager st) V (r + index_room T (sch_indexes sch) + room T (sch_root sch) + length (chunks (encode_row tx 0 values)))"
    and "trees V T" "consistent sch table T (ws_tx st)" "fuel_ok fuel T (sch_root sch)"
    and "positional \<longrightarrow> length es = length (sch_columns sch)" "not_null_ok sch values"
    and "fill_values sch targets es 0 (replicate (length (sch_columns sch)) VNull) = Inr values"
    and "list_all (\<lambda>c. foreign_key c = None) (sch_columns sch)" "list_all ok_value values"
    and "reserve_rowid table (next_rowid sch) (ws_tx st) = (rowid, tx')" "rowid \<noteq> -1"
    and "list_all (admits values None (rowid_key rowid) fuel T) (sch_indexes sch)"
  shows "\<exists>st' V' T'. insert_one fuel catalog sch table positional targets tx snap es st = (Inr (), st') \<and>
    represents (ws_pager st') V' r \<and> trees V' T' \<and> consistent sch table T' (ws_tx st') \<and>
    entries_of T' (sch_root sch) = set_key (rowid_key rowid) (encode_row tx 0 values) (entries_of T (sch_root sch))"
proof -
  have "length values = length (sch_columns sch)" using fill_values_length [OF assms(7)] by simp
  from store_version_spec [OF assms(1-4,9) this assms(10-12)] obtain st1 V' T' where
    s: "store_version fuel sch table tx values None snap st = (Inr (), st1)" "represents (ws_pager st1) V' r" "trees V' T'"
    "consistent sch table T' (ws_tx st1)"
    "entries_of T' (sch_root sch) = set_key (rowid_key rowid) (encode_row tx 0 values) (entries_of T (sch_root sch))" by blast
  let ?st' = "snd (on_ssi (record_insert snap (sch_root sch)) st1)"
  have "insert_one fuel catalog sch table positional targets tx snap es st = (Inr (), ?st')"
    using assms(5-7) no_foreign_keys [OF assms(8), of fuel catalog "values"] s(1)
    by (simp add: insert_one_def sbind_Inr on_pager_sret) (simp add: on_ssi_def)
  moreover have "represents (ws_pager ?st') V' r" "consistent sch table T' (ws_tx ?st')"
    using s(2,4) consistent_counters [of "ws_tx ?st'" "ws_tx st1"] by (simp_all add: on_ssi_def)
  ultimately show ?thesis using s(3,5) by blast
qed

lemma tree_keys_distinct:
  assumes "trees V T"
  shows "distinct (map fst (entries_of T root))"
proof (cases "T root")
  case (Some x)
  then have "tree_at V root (fst x) (snd x)" using assms by (cases x) (simp add: trees_def)
  then have "sorted_wrt (<) (map fst (entries (fst x) (snd x)))" using wf_sorted by (auto simp: tree_at_def)
  then have "distinct (map fst (entries (fst x) (snd x)))" using strict_sorted_iff by blast
  then show ?thesis using Some by (cases x) (simp add: entries_of_def)
qed (simp add: entries_of_def)

text \<open>The stored version that a write found.\<close>

definition stored_row :: "schema \<Rightarrow> (u32 \<Rightarrow> (nat \<times> bt) option) \<Rightarrow> bytes \<Rightarrow> row_record \<Rightarrow> bool" where
  "stored_row sch T rk r \<longleftrightarrow> (\<exists>encoded. (rk, encoded) \<in> set (entries_of T (sch_root sch)) \<and> decode_row encoded (length (sch_columns sch)) = Inr r) \<and>
     list_all ok_value (row_values r) \<and> length (row_values r) = length (sch_columns sch) \<and> length rk = 8"

lemma tombstone_spec:
  assumes "represents (ws_pager st) V (r + room T (sch_root sch) + length (chunks (encode_row (tx_min row) tx (row_values row))))"
    and "trees V T" "consistent sch table T (ws_tx st)" "fuel_ok fuel T (sch_root sch)" "stored_row sch T rk row"
  shows "\<exists>st' V' x. tombstone fuel sch rk row tx snap st = (Inr (), st') \<and> represents (ws_pager st') V' r \<and>
    trees V' (T(sch_root sch \<mapsto> x)) \<and> consistent sch table (T(sch_root sch \<mapsto> x)) (ws_tx st') \<and>
    rowid_counters (ws_tx st') = rowid_counters (ws_tx st) \<and>
    entries_of (T(sch_root sch \<mapsto> x)) (sch_root sch) = set_key rk (encode_row (tx_min row) tx (row_values row)) (entries_of T (sch_root sch))"
proof -
  let ?root = "sch_root sch" and ?new = "encode_row (tx_min row) tx (row_values row)"
  obtain encoded where e: "(rk, encoded) \<in> set (entries_of T ?root)" "decode_row encoded (length (sch_columns sch)) = Inr row"
    "list_all ok_value (row_values row)" "length (row_values row) = length (sch_columns sch)" "length rk = 8"
    using assms(5) by (auto simp: stored_row_def)
  have "key_fits rk" using key_fits_rowid e(5) by (simp add: key_fits_def rowid_key_def)
  from trees_insert [OF assms(1,2,4) this] obtain p' V' x where
    ins: "bt_insert fuel pager_ops ?root rk ?new (ws_pager st) = (Inr (), p')" "represents p' V' r" "trees V' (T(?root \<mapsto> x))"
    "entries_of (T(?root \<mapsto> x)) ?root = set_key rk ?new (entries_of T ?root)" by blast
  let ?T = "T(?root \<mapsto> x)" and ?st' = "snd (on_ssi (record_write snap ?root rk) (st\<lparr>ws_pager := p'\<rparr>))"
  have "indexes (length (sch_columns sch)) (idx_columns i) (entries_of ?T ?root) (entries_of ?T (idx_root i))"
    if i: "i \<in> set (sch_indexes sch)" for i
  proof -
    have "?T (idx_root i) = T (idx_root i)" using assms(3) i by (auto simp: consistent_def image_iff)
    then have "entries_of ?T (idx_root i) = entries_of T (idx_root i)" by (rule tree_local(2))
    moreover have "indexes (length (sch_columns sch)) (idx_columns i) (entries_of T ?root) (entries_of T (idx_root i))"
      using assms(3) i by (simp add: consistent_def)
    ultimately show ?thesis using indexes_stamp [OF _ tree_keys_distinct [OF assms(2)] e(1-4)] ins(4) by simp
  qed
  moreover have "fst ` set (entries_of ?T ?root) = fst ` set (entries_of T ?root)"
    using e(1) unfolding ins(4) keys_set_key by force
  ultimately have "consistent sch table ?T (ws_tx st)" using assms(3) unfolding consistent_def by (simp only:) blast
  then have "consistent sch table ?T (ws_tx ?st')" using consistent_counters [of "ws_tx ?st'" "ws_tx st"] by (simp add: on_ssi_def)
  moreover have "tombstone fuel sch rk row tx snap st = (Inr (), ?st')"
    using ins(1) by (simp add: tombstone_def on_pager_bind) (simp add: on_ssi_def)
  moreover have "represents (ws_pager ?st') V' r" "rowid_counters (ws_tx ?st') = rowid_counters (ws_tx st)"
    using ins(2) by (simp_all add: on_ssi_def)
  ultimately show ?thesis using ins(3,4) by blast
qed

text \<open>The first index refuses a row whose values it already has an entry for, after the row itself was stored.\<close>

lemma insert_refused:
  assumes "represents (ws_pager st) V (r + room T (sch_root sch) + length (chunks (encode_row tx 0 values)))"
    and "trees V T" "fuel_ok fuel T (sch_root sch)" "sch_indexes sch = i # ixs" "idx_root i \<noteq> sch_root sch"
    and "idx_unique i" "\<not> list_ex (\<lambda>c. values ! c = VNull) (idx_columns i)" "list_all (\<lambda>c. c < length values) (idx_columns i)"
    and "fuel_ok fuel T (idx_root i)" "\<exists>e \<in> set (entries_of T (idx_root i)). prefix (tuple_key values (idx_columns i)) (fst e)"
  shows "fst (store_version fuel sch table tx values None snap st) = Inl (Fail Exec)"
proof -
  obtain rowid tx' where res: "reserve_rowid table (next_rowid sch) (ws_tx st) = (rowid, tx')" by (metis surj_pair)
  let ?enc = "encode_row tx 0 values" and ?root = "sch_root sch" and ?st = "st\<lparr>ws_tx := tx'\<rparr>"
  from trees_insert [OF assms(1-3) key_fits_rowid] obtain p1 V1 x where
    ins: "bt_insert fuel pager_ops ?root (rowid_key rowid) ?enc (ws_pager st) = (Inr (), p1)"
    "represents p1 V1 r" "trees V1 (T(?root \<mapsto> x))" by blast
  let ?T = "T(?root \<mapsto> x)" and ?st1 = "?st\<lparr>ws_pager := p1\<rparr>"
  have same: "?T (idx_root i) = T (idx_root i)" using assms(5) by simp
  have rep: "represents (ws_pager ?st1) V1 r" using ins(2) by simp
  have "fuel_ok fuel ?T (idx_root i)" using assms(9) tree_local(3) [of ?T "idx_root i" T, OF same] by simp
  from unique_check_spec [OF rep ins(3) this assms(8), of None] assms(6,7,10) tree_local(2) [of ?T "idx_root i" T, OF same]
  obtain p2 where u: "unique_check fuel values None i ?st1 = (Inl (Fail Exec), ?st1\<lparr>ws_pager := p2\<rparr>)"
    by (auto simp: unchanged_def simp del: map_map)
  have "reserve table (next_rowid sch) st = (Inr rowid, ?st)" using res by (simp add: reserve_def)
  moreover have "on_pager (bt_insert fuel pager_ops ?root (rowid_key rowid) ?enc) ?st = (Inr (), ?st1)"
    using ins(1) by (simp add: on_pager_def)
  ultimately show ?thesis using u
    by (simp add: store_version_def sbind_Inr index_insert_row_with_old_def assms(4) index_insert_one_def sbind_Inl)
qed

lemma index_entry_prefix: "k @ rk \<in> fst ` set es \<Longrightarrow> \<exists>e \<in> set es. prefix k (fst e)"
  by (metis imageE prefixI)

lemma delete_one_spec:
  assumes "represents (ws_pager st) V (r + room T (sch_root sch) + length (chunks (encode_row (tx_min row) tx (row_values row))))"
    and "trees V T" "consistent sch table T (ws_tx st)" "fuel_ok fuel T (sch_root sch)" "stored_row sch T rk row"
    and "passes_filter predicate (scope_single table sch) (row_values row) = Inr True"
    and "check_write_write_conflict row snap (tx_clog (ws_tx st)) = Inr ()" "parent_actions sch (row_values row) st = (Inr (), st)"
  shows "\<exists>st' V' x. delete_one parent_actions fuel sch table predicate tx snap (rk, row) st = (Inr 1, st') \<and> represents (ws_pager st') V' r \<and>
    trees V' (T(sch_root sch \<mapsto> x)) \<and> consistent sch table (T(sch_root sch \<mapsto> x)) (ws_tx st') \<and>
    entries_of (T(sch_root sch \<mapsto> x)) (sch_root sch) = set_key rk (encode_row (tx_min row) tx (row_values row)) (entries_of T (sch_root sch))"
proof -
  obtain st' V' x where t: "tombstone fuel sch rk row tx snap st = (Inr (), st')" "represents (ws_pager st') V' r"
    "trees V' (T(sch_root sch \<mapsto> x))" "consistent sch table (T(sch_root sch \<mapsto> x)) (ws_tx st')"
    "entries_of (T(sch_root sch \<mapsto> x)) (sch_root sch) = set_key rk (encode_row (tx_min row) tx (row_values row)) (entries_of T (sch_root sch))"
    using tombstone_spec [OF assms(1-5)] by blast
  have "delete_one parent_actions fuel sch table predicate tx snap (rk, row) st = (Inr 1, st')"
    using assms(6-8) t(1) by (simp add: delete_one_def sbind_Inr)
  with t(2-5) show ?thesis by blast
qed

text \<open>A DELETE stamps the stored version with the deleting transaction and keeps every index complete;
  but a UNIQUE index then still refuses the deleted values. Whatever happens to the transactions
  afterwards, an INSERT of the same values fails while the pages are what the DELETE left (that is,
  until the row is reclaimed), although no snapshot sees the row any more.\<close>

theorem deleted_key_is_refused:
  assumes "represents (ws_pager st) V (r + room T (sch_root sch) + length (chunks (encode_row (tx_min row) tx (row_values row))))"
    and "trees V T" "consistent sch table T (ws_tx st)" "fuel_ok fuel T (sch_root sch)" "stored_row sch T rk row"
    and "passes_filter predicate (scope_single table sch) (row_values row) = Inr True"
    and "check_write_write_conflict row snap (tx_clog (ws_tx st)) = Inr ()" "parent_actions sch (row_values row) st = (Inr (), st)"
    and "sch_indexes sch = i # ixs" "idx_unique i" "fuel_ok fuel T (idx_root i)"
    and "\<not> list_ex (\<lambda>c. row_values row ! c = VNull) (idx_columns i)" "not_null_ok sch (row_values row)"
    and "list_all (\<lambda>c. foreign_key c = None) (sch_columns sch)" "positional \<longrightarrow> length es = length (sch_columns sch)"
    and "fill_values sch targets es 0 (replicate (length (sch_columns sch)) VNull) = Inr (row_values row)"
  shows "\<exists>st' V' T'. delete_one parent_actions fuel sch table predicate tx snap (rk, row) st = (Inr 1, st') \<and>
    represents (ws_pager st') V' r \<and> trees V' T' \<and> consistent sch table T' (ws_tx st') \<and>
    (\<forall>later r' tx' snap'. represents (ws_pager later) V' (r' + room T' (sch_root sch) + length (chunks (encode_row tx' 0 (row_values row)))) \<longrightarrow>
       fuel_ok fuel T' (sch_root sch) \<longrightarrow>
       fst (insert_one fuel catalog sch table positional targets tx' snap' es later) = Inl (Fail Exec))"
proof -
  obtain st' V' x where d: "delete_one parent_actions fuel sch table predicate tx snap (rk, row) st = (Inr 1, st')"
    "represents (ws_pager st') V' r" "trees V' (T(sch_root sch \<mapsto> x))" "consistent sch table (T(sch_root sch \<mapsto> x)) (ws_tx st')"
    using delete_one_spec [where parent_actions = parent_actions, OF assms(1-8)] by blast
  let ?T = "T(sch_root sch \<mapsto> x)" and ?row = "row_values row"
  have neq: "idx_root i \<noteq> sch_root sch" using assms(3,9) by (auto simp: consistent_def)
  then have same: "?T (idx_root i) = T (idx_root i)" by simp
  obtain encoded where e: "(rk, encoded) \<in> set (entries_of T (sch_root sch))" "decode_row encoded (length (sch_columns sch)) = Inr row"
    using assms(5) by (auto simp: stored_row_def)
  have ix: "indexes (length (sch_columns sch)) (idx_columns i) (entries_of T (sch_root sch)) (entries_of T (idx_root i))"
    using assms(3,9) by (simp add: consistent_def)
  then have cols: "list_all (\<lambda>c. c < length ?row) (idx_columns i)" using e by (fastforce simp: indexes_def)
  have "tuple_key ?row (idx_columns i) @ rk \<in> fst ` set (entries_of T (idx_root i))"
    using ix e unfolding indexes_def by (auto simp: image_iff simp del: map_map intro!: bexI [of _ "(rk, encoded)"])
  then have hit: "\<exists>e \<in> set (entries_of ?T (idx_root i)). prefix (tuple_key ?row (idx_columns i)) (fst e)"
    unfolding tree_local(2) [of ?T "idx_root i" T, OF same] by (rule index_entry_prefix)
  have "fst (insert_one fuel catalog sch table positional targets tx' snap' es later) = Inl (Fail Exec)"
    if "represents (ws_pager later) V' (r' + room ?T (sch_root sch) + length (chunks (encode_row tx' 0 ?row)))"
      "fuel_ok fuel ?T (sch_root sch)" for later r' tx' snap'
  proof -
    have "fuel_ok fuel ?T (idx_root i)" using assms(11) tree_local(3) [of ?T "idx_root i" T, OF same] by simp
    from insert_refused [OF that(1) d(3) that(2) assms(9) neq assms(10,12) cols this hit]
    have "fst (store_version fuel sch table tx' ?row None snap' later) = Inl (Fail Exec)" .
    then show ?thesis using assms(13,15,16) no_foreign_keys [OF assms(14), of fuel catalog ?row]
      by (cases "store_version fuel sch table tx' ?row None snap' later") (simp add: insert_one_def sbind_Inl)
  qed
  with d show ?thesis by blast
qed

section \<open>Witnesses\<close>

text \<open>A new leaf with given inline cells, and a table beside its index.\<close>

lemma leaf_with_cells:
  assumes "represents p V (Suc r)" "sum_list (leaf_sizes (stored_entries es)) \<le> USABLE" "sorted_wrt (<) (map fst es)"
    and "list_all (\<lambda>e. (\<exists>v. snd e = Inline v) \<and> key_fits (fst e) \<and> LEAF_CELL_OVERHEAD + length (fst e) + length (stored_of (snd e)) \<le> MAX_CELL) es"
  shows "\<exists>p' root q. V root = None \<and> represents p' (V(root \<mapsto> q)) r \<and> tree_at (V(root \<mapsto> q)) root 0 (BLeaf root es 0)"
proof -
  obtain root p1 where a: "V root = None" "represents p1 (V(root \<mapsto> zero_page)) r"
    using pager_store.alloc_law [OF assms(1)] by blast
  obtain q where q: "leaf_page q (stored_entries es) 0" "length q = PAGE_SIZE"
    using build_leaf_ok [of "stored_entries es" 0] assms(2) by (auto simp: leaf_sizes_def leaf_page_def split_def)
  obtain p2 where "represents p2 (V(root \<mapsto> q)) r" using pager_store.write_law [OF a(2) _ q(2), of root] by auto
  moreover have "leaf_ok (V(root \<mapsto> q)) None None 0 (BLeaf root es 0)"
    by (rule leaf_okI [of _ _ q]) (use q(1) assms(2-4) in \<open>auto simp: cell_ok_def list_all_iff\<close>)
  moreover have "cells_pages es = []" using assms(4) by (induction es) auto
  ultimately show ?thesis using a(1) by (auto simp: tree_at_def)
qed

lemma one_chunk: "v \<noteq> [] \<Longrightarrow> length v \<le> 100 \<Longrightarrow> length (chunks v) = 1"
  by (subst chunks.simps) (simp add: chunk_capacity_def OVERFLOW_HEADER_def page_consts)

definition keyed :: "u32 \<Rightarrow> u32 \<Rightarrow> schema" where
  "keyed root i_root = (one_index root i_root TInt)\<lparr>sch_indexes :=
     [\<lparr>idx_name = [105], idx_columns = [0], idx_root = i_root, idx_unique = True, is_building = False\<rparr>]\<rparr>"

definition beside :: "u32 \<Rightarrow> u32 \<Rightarrow> (bytes \<times> cell) list \<Rightarrow> (bytes \<times> cell) list \<Rightarrow> u32 \<Rightarrow> (nat \<times> bt) option" where
  "beside root i_root es ies = [root \<mapsto> (0, BLeaf root es 0), i_root \<mapsto> (0, BLeaf i_root ies 0)]"

abbreviation "small_cell e \<equiv> (\<exists>v. snd e = Inline v) \<and> length (fst e) + length (stored_of (snd e)) \<le> 100"

lemma sample_trees_at:
  assumes "length es \<le> 1" "\<And>root. length (ixs root) \<le> 1" "\<And>root. list_all (\<lambda>e. small_cell e) (es @ ixs root)"
  shows "\<exists>p V root i_root. root \<noteq> i_root \<and> represents p V 7 \<and> trees V (beside root i_root es (ixs root))"
proof -
  have ok: "sum_list (leaf_sizes (stored_entries xs)) \<le> USABLE \<and> sorted_wrt (<) (map fst xs) \<and> cells_pages xs = [] \<and>
      list_all (\<lambda>e. (\<exists>v. snd e = Inline v) \<and> key_fits (fst e) \<and> LEAF_CELL_OVERHEAD + length (fst e) + length (stored_of (snd e)) \<le> MAX_CELL) xs"
    if "length xs \<le> 1" "list_all (\<lambda>e. small_cell e) xs" for xs
    using that by (cases xs) (auto simp: leaf_sizes_def leaf_footprint_def page_consts key_fits_def LEAF_CELL_OVERHEAD_def)
  obtain p1 root q where one: "represents p1 ([1 \<mapsto> page_at [] 1](root \<mapsto> q)) (Suc 7)"
    "tree_at ([1 \<mapsto> page_at [] 1](root \<mapsto> q)) root 0 (BLeaf root es 0)"
    using leaf_with_cells [of sample_pager "[1 \<mapsto> page_at [] 1]" 8 es] sample_room ok [OF assms(1)] assms(3) by (auto simp: eval_nat_numeral)
  let ?V = "[1 \<mapsto> page_at [] 1](root \<mapsto> q)"
  obtain p2 i_root q' where two: "?V i_root = None" "represents p2 (?V(i_root \<mapsto> q')) 7"
    "tree_at (?V(i_root \<mapsto> q')) i_root 0 (BLeaf i_root (ixs root) 0)"
    using leaf_with_cells [OF one(1), of "ixs root"] ok [OF assms(2)] assms(3) by auto
  have neq: "root \<noteq> i_root" using two(1) by auto
  have pages: "tree_pages 0 (BLeaf root es 0) = [root]" "tree_pages 0 (BLeaf i_root (ixs root) 0) = [i_root]"
    using ok [OF assms(1)] ok [OF assms(2)] assms(3) by simp_all
  have "same_on (?V(i_root \<mapsto> q')) ?V (set (tree_pages 0 (BLeaf root es 0)))"
    unfolding pages using neq by (simp add: same_on_def)
  then have "tree_at (?V(i_root \<mapsto> q')) root 0 (BLeaf root es 0)"
    using one(2) wf_cong [of ?V 0 None None 0 "BLeaf root es 0"] by (auto simp: tree_at_def)
  with two(2,3) neq pages show ?thesis
    by (intro exI [of _ p2] exI [of _ "?V(i_root \<mapsto> q')"] exI [of _ root] exI [of _ i_root])
      (auto simp: trees_def beside_def split: if_splits)
qed

lemma sample_trees:
  assumes "length es \<le> 1" "length ies \<le> 1" "list_all (\<lambda>e. small_cell e) (es @ ies)"
  shows "\<exists>p V root i_root. root \<noteq> i_root \<and> represents p V 7 \<and> trees V (beside root i_root es ies)"
  using sample_trees_at [of es "\<lambda>_. ies"] assms by blast

theorem insert_keeps_indexes_witness:
  "\<exists>p root i_root st'. insert_one 3 1 (keyed root i_root) [116] True [0] 1 (take_snapshot (Some 1) start_state) [EInteger 5]
     \<lparr>ws_pager = p, ws_tx = start_state\<rparr> = (Inr (), st')"
proof -
  obtain p V root i_root where p: "root \<noteq> i_root" "represents p V 7" "trees V (beside root i_root [] [])"
    using sample_trees [of "[]" "[]"] by auto
  let ?sch = "keyed root i_root" and ?st = "\<lparr>ws_pager = p, ws_tx = start_state\<rparr>" and ?T = "beside root i_root [] []"
  have T: "entries_of ?T root = []" "entries_of ?T i_root = []" "room ?T root = 2" "room ?T i_root = 2" "fuel_ok 3 ?T root" "fuel_ok 3 ?T i_root"
    using p(1) by (simp_all add: beside_def entries_of_def room_def fuel_ok_def cost_def)
  have "length (chunks (encode_row 1 0 [VInt 5])) = 1" by (rule one_chunk) (simp_all add: encode_row_def)
  then have "represents (ws_pager ?st) V (2 + index_room ?T (sch_indexes ?sch) + room ?T (sch_root ?sch) + length (chunks (encode_row 1 0 [VInt 5])))"
    using p(2) T by (simp add: keyed_def one_index_def index_room_def)
  moreover have "consistent ?sch [116] ?T (ws_tx ?st)"
    using p(1) T by (simp add: consistent_def keyed_def one_index_def indexes_def)
  moreover have "fill_values ?sch [0] [EInteger 5] 0 (replicate (length (sch_columns ?sch)) VNull) = Inr [VInt 5]"
    by (simp add: keyed_def one_index_def index_def set_value_def coerce.simps)
  moreover have "list_all (admits [VInt 5] None (rowid_key 2) 3 ?T) (sch_indexes ?sch)"
    using T by (simp add: keyed_def admits_def key_fits_def rowid_key_def page_consts LEAF_CELL_OVERHEAD_def)
  moreover have "reserve_rowid [116] (next_rowid ?sch) (ws_tx ?st) = (2, snd (reserve_rowid [116] (next_rowid ?sch) (ws_tx ?st)))"
    by (simp add: keyed_def one_index_def start_state_def tx_state_new_def reserve_rowid_def)
  ultimately show ?thesis
    using insert_keeps_indexes [of ?st V 2 ?T ?sch 1 "[VInt 5]" "[116]" 3 True "[EInteger 5]" "[0]" 2] p(3) T
    by (fastforce simp: keyed_def one_index_def not_null_ok_def)
qed

theorem deleted_key_is_refused_witness:
  "\<exists>p root i_root st' V' T'.
    delete_one (\<lambda>_ _. sret ()) 4 (keyed root i_root) [116] None 3 (take_snapshot (Some 3) start_state)
      (rowid_key 1, \<lparr>tx_min = 0, tx_max = 0, row_values = [VInt 5]\<rparr>) \<lparr>ws_pager = p, ws_tx = start_state\<rparr> = (Inr 1, st') \<and>
    (\<forall>later r'. represents (ws_pager later) V' (r' + room T' root + length (chunks (encode_row 4 0 [VInt 5]))) \<longrightarrow> fuel_ok 4 T' root \<longrightarrow>
       fst (insert_one 4 1 (keyed root i_root) [116] True [0] 4 (take_snapshot (Some 4) start_state) [EInteger 5] later) = Inl (Fail Exec))"
proof -
  let ?row = "\<lparr>tx_min = 0, tx_max = 0, row_values = [VInt 5]\<rparr>" and ?es = "[(rowid_key 1, Inline (encode_row 0 0 [VInt 5]))]"
  let ?ies = "[(encode_index_value (VInt 5) @ rowid_key 1, Inline [])]"
  obtain p V root i_root where p: "root \<noteq> i_root" "represents p V 7" "trees V (beside root i_root ?es ?ies)"
    using sample_trees [of ?es ?ies] by (auto simp: rowid_key_def encode_row_def)
  let ?sch = "keyed root i_root" and ?st = "\<lparr>ws_pager = p, ws_tx = start_state\<rparr>" and ?T = "beside root i_root ?es ?ies"
  have sch: "sch_root ?sch = root" "length (sch_columns ?sch) = 1" "next_rowid ?sch = 2"
    "sch_indexes ?sch = [\<lparr>idx_name = [105], idx_columns = [0], idx_root = i_root, idx_unique = True, is_building = False\<rparr>]"
    by (simp_all add: keyed_def one_index_def)
  have T: "entries_of ?T root = [(rowid_key 1, encode_row 0 0 [VInt 5])]" "entries_of ?T i_root = [(encode_index_value (VInt 5) @ rowid_key 1, [])]"
    "room ?T root = 2" "fuel_ok 4 ?T root" "fuel_ok 4 ?T i_root"
    using p(1) by (simp_all add: beside_def entries_of_def room_def fuel_ok_def cost_def)
  have d: "decode_row (encode_row 0 0 [VInt 5]) 1 = Inr ?row" using decode_encode_row [of "[VInt 5]" 0 0] by simp
  have "length (chunks (encode_row 0 3 [VInt 5])) = 1" by (rule one_chunk) (simp_all add: encode_row_def)
  then have "represents (ws_pager ?st) V (4 + room ?T (sch_root ?sch) + length (chunks (encode_row (tx_min ?row) 3 (row_values ?row))))"
    using p(2) T(3) by (simp add: sch)
  moreover have "consistent ?sch [116] ?T (ws_tx ?st)"
    using p(1) T(1,2) d by (simp add: consistent_def sch indexes_def start_state_def tx_state_new_def reserve_rowid_def u64_be_less rowid_key_def)
  moreover have "stored_row ?sch ?T (rowid_key 1) ?row" using T(1) d by (simp add: stored_row_def sch rowid_key_def)
  moreover have "fill_values ?sch [0] [EInteger 5] 0 (replicate (length (sch_columns ?sch)) VNull) = Inr (row_values ?row)"
    by (simp add: keyed_def one_index_def index_def set_value_def coerce.simps)
  moreover have "passes_filter None (scope_single [116] ?sch) (row_values ?row) = Inr True" by (simp add: passes_filter_def)
  moreover have "check_write_write_conflict ?row (take_snapshot (Some 3) start_state) (tx_clog (ws_tx ?st)) = Inr ()"
    by (simp add: check_write_write_conflict_def)
  moreover have "list_all (\<lambda>c. foreign_key c = None) (sch_columns ?sch)" "not_null_ok ?sch (row_values ?row)"
    by (simp_all add: keyed_def one_index_def not_null_ok_def)
  ultimately have "\<exists>st' V' T'. delete_one (\<lambda>_ _. sret ()) 4 ?sch [116] None 3 (take_snapshot (Some 3) start_state) (rowid_key 1, ?row) ?st = (Inr 1, st') \<and>
      represents (ws_pager st') V' 4 \<and> trees V' T' \<and> consistent ?sch [116] T' (ws_tx st') \<and>
      (\<forall>later r' tx' snap'. represents (ws_pager later) V' (r' + room T' (sch_root ?sch) + length (chunks (encode_row tx' 0 (row_values ?row)))) \<longrightarrow>
         fuel_ok 4 T' (sch_root ?sch) \<longrightarrow> fst (insert_one 4 1 ?sch [116] True [0] tx' snap' [EInteger 5] later) = Inl (Fail Exec))"
    using T p(3) by (intro deleted_key_is_refused [where st = ?st and V = V and T = ?T and ixs = "[]" and
          i = "\<lparr>idx_name = [105], idx_columns = [0], idx_root = i_root, idx_unique = True, is_building = False\<rparr>"])
      (simp_all add: sch sret_def)
  then show ?thesis unfolding sch row_record.select_convs by blast
qed

end
