(* ===== verification/Maintenance.thy ===== *)
theory Maintenance
  imports Table_Write
begin

text \<open>
  The maintenance passes of \<^verbatim>\<open>engine/database.rs\<close>: \<^verbatim>\<open>reclaim_dead_rows\<close>, which deletes the row versions no
  snapshot can see, and \<^verbatim>\<open>truncate_clog\<close>, which forgets the outcomes below the watermark. The table locks only
  exclude other threads; a pass is one step here. The properties say what a pass removes, and what becomes of
  the transactions whose outcome is forgotten.
\<close>

section \<open>A bound for all trees\<close>

text \<open>Page numbers have 32 bits and a page holds fewer than 4096 cells, so that one amount of fuel is enough for every tree.\<close>

lemma leaf_length:
  assumes "leaf_ok V lo hi nxt t"
  shows "length (leaf_cells t) \<le> 4096"
proof -
  obtain no es where es: "t = BLeaf no es nxt" "sum_list (leaf_sizes (stored_entries es)) \<le> USABLE"
    using assms by (auto simp: leaf_ok_def)
  have "length xs \<le> sum_list (leaf_sizes xs)" for xs
    by (induction xs) (auto simp: leaf_sizes_def leaf_footprint_def LEAF_CELL_OVERHEAD_def)
  from this [of "stored_entries es"] es show ?thesis by (simp add: stored_entries_def page_consts)
qed

lemma wf_size:
  "bt_wf V h lo hi nxt t \<Longrightarrow> h < length (tree_pages h t) \<and> length (entries h t) \<le> 4096 * length (tree_pages h t)"
proof (induction h arbitrary: lo hi nxt t)
  case 0
  then have "length (leaf_cells t) \<le> 4096" using leaf_length by simp
  then show ?case by (simp add: cells_entries_def)
next
  case (Suc h)
  have c: "forest_ok V h lo hi nxt (kids t)" using Suc.prems by simp
  have k: "h < length (tree_pages h (snd c)) \<and> length (entries h (snd c)) \<le> 4096 * length (tree_pages h (snd c))" if "c \<in> set (kids t)" for c
    using chain_ok_member [OF c that] Suc.IH by blast
  have "length (concat (map (\<lambda>c. entries h (snd c)) cs)) \<le> 4096 * length (forest_pages h cs)" if "set cs \<subseteq> set (kids t)" for cs
    using that by (induction cs) (use k in \<open>fastforce+\<close>)
  moreover obtain d cs where "kids t = d # cs" using chain_ok_nonempty [OF c] by (cases "kids t") auto
  moreover from this have "h < length (tree_pages h (snd d))" using k by simp
  moreover from calculation(1) [of "kids t"] have "length (concat (map (\<lambda>c. entries h (snd c)) (kids t))) \<le> 4096 * length (forest_pages h (kids t))"
    by simp
  ultimately show ?case by simp
qed

definition ANY_TREE :: nat where "ANY_TREE = 2 ^ 45"

lemma cost_below: "tree_at V root h t \<Longrightarrow> cost h t < ANY_TREE"
proof -
  assume t: "tree_at V root h t"
  then have d: "distinct (tree_pages h t)" and w: "bt_wf V h None None 0 t" by (simp_all add: tree_at_def)
  have "length (tree_pages h t) = card (set (tree_pages h t))" using d distinct_card by metis
  also have "\<dots> \<le> card (UNIV :: u32 set)" by (intro card_mono) simp_all
  finally have "length (tree_pages h t) \<le> 2 ^ 32" by (simp add: card_word)
  with wf_size [OF w] show ?thesis by (simp add: cost_def ANY_TREE_def)
qed

section \<open>Reclaiming dead rows\<close>

definition committed_tombstone :: "u64 \<Rightarrow> 'c clog_scheme \<Rightarrow> row_record \<Rightarrow> bool" where
  "committed_tombstone oldest_active c r \<longleftrightarrow> tx_max r \<noteq> 0 \<and> tx_max r < oldest_active \<and> is_committed c (tx_max r)"

definition rolled_back_insert :: "u64 \<Rightarrow> 'c clog_scheme \<Rightarrow> row_record \<Rightarrow> bool" where
  "rolled_back_insert oldest_active c r \<longleftrightarrow> tx_min r \<noteq> 0 \<and> tx_min r < oldest_active \<and> is_rolled_back c (tx_min r)"

fun find_dead :: "u64 \<Rightarrow> 'c clog_scheme \<Rightarrow> nat \<Rightarrow> (bytes \<times> bytes) list \<Rightarrow> (bytes \<times> row \<times> bool) list result" where
  "find_dead oldest_active c n [] = Inr []"
| "find_dead oldest_active c n ((rk, encoded) # es) =
     rbind (decode_row encoded n) (\<lambda>r.
     rbind (find_dead oldest_active c n es) (\<lambda>ds.
       Inr (if committed_tombstone oldest_active c r \<or> rolled_back_insert oldest_active c r
            then (rk, row_values r, committed_tombstone oldest_active c r) # ds else ds)))"

definition reclaim_index_entry :: "nat \<Rightarrow> row \<Rightarrow> bytes \<Rightarrow> index_def \<Rightarrow> (pager, unit) op" where
  "reclaim_index_entry fuel vs rk i =
     sbind (slift (encode_index_key vs (idx_columns i) rk)) (\<lambda>key. sbind (bt_delete fuel pager_ops (idx_root i) key) (\<lambda>_. sret ()))"

definition reclaim_row :: "nat \<Rightarrow> schema \<Rightarrow> bytes \<times> row \<times> bool \<Rightarrow> (pager, unit) op" where
  "reclaim_row fuel sch d =
     (case d of (rk, vs, _) \<Rightarrow>
        sbind (sfor (reclaim_index_entry fuel vs rk) (sch_indexes sch)) (\<lambda>_.
        sbind (bt_delete fuel pager_ops (sch_root sch) rk) (\<lambda>_. sret ())))"

definition reclaim_table :: "u64 \<Rightarrow> nat \<Rightarrow> u32 \<Rightarrow> bytes \<Rightarrow> (write_state, nat) op" where
  "reclaim_table oldest_active fuel catalog name =
     sbind (on_pager (catalog_get fuel pager_ops catalog name)) (\<lambda>s. case s of
       None \<Rightarrow> sret 0
     | Some sch \<Rightarrow>
         sbind (on_pager (bt_scan fuel pager_ops (sch_root sch))) (\<lambda>es.
         sbind (\<lambda>st. (find_dead oldest_active (tx_clog (ws_tx st)) (length (sch_columns sch)) es, st)) (\<lambda>dead.
         if dead = [] then sret 0
         else
           sbind (on_pager (sfor (reclaim_row fuel sch) dead)) (\<lambda>_.
           let rolled_back = length (filter (\<lambda>(_, _, was_tombstone). \<not> was_tombstone) dead) in
           sbind (if 0 < rolled_back
                  then on_pager (catalog_put fuel pager_ops catalog (sch\<lparr>row_count := saturating_sub (row_count sch) rolled_back\<rparr>))
                  else sret ()) (\<lambda>_.
           sbind (on_pager commit) (\<lambda>_. sret (length dead)))))))"

definition reclaim_dead_rows :: "nat \<Rightarrow> u32 \<Rightarrow> (write_state, nat) op" where
  "reclaim_dead_rows fuel catalog st =
     sbind (on_pager (table_names fuel pager_ops catalog)) (write_each (reclaim_table (oldest_active_tx_id (ws_tx st)) fuel catalog)) st"

definition on_clog :: "(clog, 'a) op \<Rightarrow> (write_state, 'a) op" where
  "on_clog f st = (case f (tx_clog (ws_tx st)) of (r, c) \<Rightarrow> (r, st\<lparr>ws_tx := (ws_tx st)\<lparr>tx_clog := c\<rparr>\<rparr>))"

definition truncate_clog :: "map_iter \<Rightarrow> nat \<Rightarrow> u32 \<Rightarrow> (write_state, u64) op" where
  "truncate_clog iter fuel catalog st =
     (let floor = oldest_active_tx_id (ws_tx st) in
      if floor = 0 then (Inr 0, st)
      else sbind (reclaim_dead_rows fuel catalog) (\<lambda>_. sbind (on_clog (truncate_below iter floor)) (\<lambda>_. sret floor)) st)"

section \<open>Deletion in one of several trees\<close>

lemma trees_delete:
  assumes "represents p V r" "trees V T" "fuel_ok fuel T root"
  shows "\<exists>p' V' x. bt_delete fuel pager_ops root key p = (Inr (map_of (entries_of T root) key \<noteq> None), p') \<and> represents p' V' r \<and>
    trees V' (T(root \<mapsto> x)) \<and> entries_of (T(root \<mapsto> x)) root = drop_key key (entries_of T root)"
proof -
  obtain h t where T: "T root = Some (h, t)" "cost h t < fuel" using assms(3) by (auto simp: fuel_ok_def split: option.splits)
  have t: "tree_at V root h t" using assms(2) T(1) by (simp add: trees_def)
  from pager_store.bt_delete_spec [OF assms(1) t T(2), of key] obtain p' V' h' t' where
    "bt_delete fuel pager_ops root key p = (Inr (map_of (entries h t) key \<noteq> None), p')" "represents p' V' r" "tree_at V' root h' t'"
    "entries h' t' = drop_key key (entries h t)" "moves V V' (set (tree_pages h t)) (set (tree_pages h' t'))" by blast
  with trees_moves [OF assms(2) T(1)] T(1) show ?thesis
    by (intro exI [of _ p'] exI [of _ V'] exI [of _ "(h', t')"]) (simp add: entries_of_def)
qed

lemma fuel_any: "trees V T \<Longrightarrow> T root \<noteq> None \<Longrightarrow> ANY_TREE \<le> fuel \<Longrightarrow> fuel_ok fuel T root"
  unfolding trees_def fuel_ok_def using cost_below [of V root] by (fastforce split: option.splits)

lemma set_drop_key: "set (drop_key k xs) = {x \<in> set xs. fst x \<noteq> k}"
  for k :: bytes
  by (auto simp: drop_key_def)

lemma delete_entries:
  assumes "represents p V r" "trees V T" "distinct (map idx_root ixs)" "ANY_TREE \<le> fuel"
    and "\<forall>i \<in> set ixs. T (idx_root i) \<noteq> None \<and> list_all (\<lambda>c. c < length vs) (idx_columns i)"
  shows "\<exists>p' V' T'. sfor (reclaim_index_entry fuel vs rk) ixs p = (Inr (), p') \<and> represents p' V' r \<and> trees V' T' \<and>
    (\<forall>root. root \<notin> idx_root ` set ixs \<longrightarrow> T' root = T root) \<and>
    (\<forall>i \<in> set ixs. T' (idx_root i) \<noteq> None \<and> entries_of T' (idx_root i) = drop_key (index_key vs i rk) (entries_of T (idx_root i)))"
  using assms
proof (induction ixs arbitrary: p V T)
  case Nil
  then show ?case by auto
next
  case (Cons i ixs)
  have "fuel_ok fuel T (idx_root i)" using fuel_any [OF Cons.prems(2) _ Cons.prems(4)] Cons.prems(5) by simp
  from trees_delete [OF Cons.prems(1,2) this] obtain p1 V1 x where
    d: "bt_delete fuel pager_ops (idx_root i) (index_key vs i rk) p = (Inr (map_of (entries_of T (idx_root i)) (index_key vs i rk) \<noteq> None), p1)"
    "represents p1 V1 r" "trees V1 (T(idx_root i \<mapsto> x))"
    "entries_of (T(idx_root i \<mapsto> x)) (idx_root i) = drop_key (index_key vs i rk) (entries_of T (idx_root i))" by blast
  let ?T = "T(idx_root i \<mapsto> x)"
  have same: "?T (idx_root j) = T (idx_root j)" if "j \<in> set ixs" for j using Cons.prems(3) that by (auto simp: image_iff)
  have "\<forall>j \<in> set ixs. ?T (idx_root j) \<noteq> None \<and> list_all (\<lambda>c. c < length vs) (idx_columns j)" using Cons.prems(5) by simp
  moreover have "distinct (map idx_root ixs)" using Cons.prems(3) by simp
  ultimately obtain p' V' T' where r: "sfor (reclaim_index_entry fuel vs rk) ixs p1 = (Inr (), p')" "represents p' V' r" "trees V' T'"
    "\<forall>root. root \<notin> idx_root ` set ixs \<longrightarrow> T' root = ?T root"
    "\<forall>i \<in> set ixs. T' (idx_root i) \<noteq> None \<and> entries_of T' (idx_root i) = drop_key (index_key vs i rk) (entries_of ?T (idx_root i))"
    using Cons.IH [OF d(2,3) _ Cons.prems(4)] by blast
  have "idx_root i \<notin> idx_root ` set ixs" using Cons.prems(3) by simp
  then have "T' (idx_root i) = ?T (idx_root i)" using r(4) by blast
  moreover from tree_local(2) [of T' "idx_root i" ?T, OF this] d(4) have "entries_of T' (idx_root i) = drop_key (index_key vs i rk) (entries_of T (idx_root i))" by simp
  moreover have "entries_of T' (idx_root j) = drop_key (index_key vs j rk) (entries_of T (idx_root j))" if "j \<in> set ixs" for j
    using r(5) that tree_local(2) [of ?T "idx_root j" T, OF same [OF that]] by simp
  moreover have "T' root = T root" if "root \<notin> idx_root ` set (i # ixs)" for root using r(4) that by auto
  moreover have "list_all (\<lambda>c. c < length vs) (idx_columns i)" using Cons.prems(5) by simp
  from encode_index_key_eq [OF this, of rk] d(1) have "reclaim_index_entry fuel vs rk i p = (Inr (), p1)"
    unfolding reclaim_index_entry_def by (simp only: sbind_slift sum.case sbind_Inr sret_apply)
  then have "sfor (reclaim_index_entry fuel vs rk) (i # ixs) p = (Inr (), p')" using r(1) by (simp add: sbind_Inr)
  ultimately show ?case using r(2,3,5)
    by (intro exI [of _ p'] exI [of _ V'] exI [of _ T']) (simp del: map_map)
qed

lemma indexes_drop:
  assumes "indexes n cols table es" "(rk, encoded) \<in> set table" "distinct (map fst table)" "decode_row encoded n = Inr r"
  shows "indexes n cols (drop_key rk table) (drop_key (tuple_key (row_values r) cols @ rk) es)"
proof -
  let ?key = "\<lambda>x. tuple_key (row_values (projr (decode_row (snd x) n))) cols @ fst x"
  have l: "length (fst x) = 8" if "x \<in> set table" for x using assms(1) that by (force simp: indexes_def)
  have k: "?key (rk, encoded) = tuple_key (row_values r) cols @ rk" using assms(4) by simp
  have inj: "fst x = rk" if "x \<in> set table" "?key x = ?key (rk, encoded)" for x
    using that l [OF that(1)] l [OF assms(2)] by (auto simp: append_eq_append_conv)
  have one: "x = (rk, encoded)" if "x \<in> set table" "fst x = rk" for x
    using that assms(2,3) by (metis eq_key_imp_eq_value prod.collapse)
  have "fst ` set es = ?key ` set table" using assms(1) by (simp add: indexes_def case_prod_beta)
  moreover have "fst ` set (drop_key (?key (rk, encoded)) es) = fst ` set es - {?key (rk, encoded)}" by (auto simp: set_drop_key)
  moreover have "?key ` set (drop_key rk table) = ?key ` set table - {?key (rk, encoded)}"
  proof (rule set_eqI)
    fix k
    show "k \<in> ?key ` set (drop_key rk table) \<longleftrightarrow> k \<in> ?key ` set table - {?key (rk, encoded)}"
      using inj one unfolding set_drop_key by (smt (verit) Diff_iff imageE imageI mem_Collect_eq singletonD singletonI)
  qed
  ultimately show ?thesis using assms(1) unfolding indexes_def k set_drop_key by (auto simp: case_prod_beta set_drop_key)
qed

text \<open>A table and its indexes: the trees are there, and each index holds exactly the keys of the stored rows.\<close>

definition indexed :: "schema \<Rightarrow> (u32 \<Rightarrow> (nat \<times> bt) option) \<Rightarrow> bool" where
  "indexed sch T \<longleftrightarrow> distinct (sch_root sch # map idx_root (sch_indexes sch)) \<and> T (sch_root sch) \<noteq> None \<and>
     (\<forall>i \<in> set (sch_indexes sch). T (idx_root i) \<noteq> None \<and>
        indexes (length (sch_columns sch)) (idx_columns i) (entries_of T (sch_root sch)) (entries_of T (idx_root i)))"

lemma reclaim_row_spec:
  assumes "represents p V r" "trees V T" "indexed sch T" "ANY_TREE \<le> fuel"
    and "(rk, encoded) \<in> set (entries_of T (sch_root sch))" "decode_row encoded (length (sch_columns sch)) = Inr rec"
  shows "\<exists>p' V' T'. reclaim_row fuel sch (rk, row_values rec, b) p = (Inr (), p') \<and> represents p' V' r \<and> trees V' T' \<and> indexed sch T' \<and>
    entries_of T' (sch_root sch) = drop_key rk (entries_of T (sch_root sch)) \<and>
    (\<forall>root. root \<notin> set (sch_root sch # map idx_root (sch_indexes sch)) \<longrightarrow> T' root = T root)"
proof -
  let ?root = "sch_root sch" and ?ixs = "sch_indexes sch" and ?n = "length (sch_columns sch)" and ?vs = "row_values rec"
  have d: "distinct (map idx_root ?ixs)" "?root \<notin> idx_root ` set ?ixs" using assms(3) by (auto simp: indexed_def)
  have ix: "T (idx_root i) \<noteq> None" "indexes ?n (idx_columns i) (entries_of T ?root) (entries_of T (idx_root i))" if "i \<in> set ?ixs" for i
    using assms(3) that by (simp_all add: indexed_def)
  have cols: "list_all (\<lambda>c. c < length ?vs) (idx_columns i)" if "i \<in> set ?ixs" for i
    using ix(2) [OF that] assms(5,6) by (fastforce simp: indexes_def)
  then obtain p1 V1 T1 where del: "sfor (reclaim_index_entry fuel ?vs rk) ?ixs p = (Inr (), p1)" "represents p1 V1 r" "trees V1 T1"
    "\<forall>root. root \<notin> idx_root ` set ?ixs \<longrightarrow> T1 root = T root"
    "\<forall>i \<in> set ?ixs. T1 (idx_root i) \<noteq> None \<and> entries_of T1 (idx_root i) = drop_key (index_key ?vs i rk) (entries_of T (idx_root i))"
    using delete_entries [OF assms(1,2) d(1) assms(4), of ?vs rk] ix(1) by blast
  have root: "T1 ?root = T ?root" "T ?root \<noteq> None" using del(4) d(2) assms(3) by (simp_all add: indexed_def)
  then have "fuel_ok fuel T1 ?root" using fuel_any [OF del(3) _ assms(4)] by simp
  from trees_delete [OF del(2,3) this, of rk] obtain p' V' x where
    t: "bt_delete fuel pager_ops ?root rk p1 = (Inr (map_of (entries_of T1 ?root) rk \<noteq> None), p')" "represents p' V' r"
    "trees V' (T1(?root \<mapsto> x))" "entries_of (T1(?root \<mapsto> x)) ?root = drop_key rk (entries_of T1 ?root)" by blast
  let ?T = "T1(?root \<mapsto> x)"
  have e: "entries_of ?T ?root = drop_key rk (entries_of T ?root)" using t(4) tree_local(2) [of T1 ?root T, OF root(1)] by simp
  have "?T (idx_root i) = T1 (idx_root i)" if "i \<in> set ?ixs" for i using d(2) that by (auto simp: image_iff)
  from tree_local(2) [of ?T _ T1, OF this] have "entries_of ?T (idx_root i) = drop_key (index_key ?vs i rk) (entries_of T (idx_root i))"
    if "i \<in> set ?ixs" for i using del(5) that by metis
  then have "indexes ?n (idx_columns i) (entries_of ?T ?root) (entries_of ?T (idx_root i))" if "i \<in> set ?ixs" for i
    using indexes_drop [OF ix(2) [OF that] assms(5) tree_keys_distinct [OF assms(2)] assms(6)] that unfolding e by simp
  then have "indexed sch ?T" using assms(3) del(5) unfolding indexed_def by simp
  moreover have "reclaim_row fuel sch (rk, ?vs, b) p = (Inr (), p')" using del(1) t(1) by (simp add: reclaim_row_def sbind_Inr)
  moreover have "?T root = T root" if "root \<notin> set (?root # map idx_root ?ixs)" for root using del(4) that by simp
  ultimately show ?thesis using t(2,3) e by (intro exI [of _ p'] exI [of _ V'] exI [of _ ?T]) simp
qed

lemma drop_key_filter: "sorted_wrt (<) (map fst xs) \<Longrightarrow> drop_key k xs = filter (\<lambda>e. fst e \<noteq> k) xs"
  for k :: bytes
proof (induction xs)
  case (Cons x xs)
  then have s: "sorted_wrt (<) (map fst xs)" "\<forall>y \<in> set xs. fst x < fst y" by auto
  consider "fst x < k" | "fst x = k" | "k < fst x" by fastforce
  then show ?case
  proof cases
    case 2
    then have "filter (\<lambda>e. fst e < k) xs = []" "filter (\<lambda>e. k < fst e) xs = xs" "filter (\<lambda>e. fst e \<noteq> k) xs = xs"
      using s(2) by (auto simp: filter_empty_conv filter_id_conv)
    then show ?thesis using 2 by (simp add: drop_key_def)
  next
    case 3
    then have "filter (\<lambda>e. fst e < k) xs = []" using s(2) by (fastforce simp: filter_empty_conv)
    then show ?thesis using 3 Cons.IH [OF s(1)] by (auto simp: drop_key_def)
  qed (use Cons.IH [OF s(1)] in \<open>auto simp: drop_key_def\<close>)
qed (simp add: drop_key_def)

lemma tree_keys_sorted:
  assumes "trees V T"
  shows "sorted_wrt (<) (map fst (entries_of T root))"
proof (cases "T root")
  case (Some x)
  then have "tree_at V root (fst x) (snd x)" using assms by (cases x) (simp add: trees_def)
  then show ?thesis using Some wf_sorted [of V "fst x" None None 0 "snd x"] by (simp add: tree_at_def entries_of_def case_prod_beta)
qed (simp add: entries_of_def)

definition dead :: "u64 \<Rightarrow> 'c clog_scheme \<Rightarrow> nat \<Rightarrow> bytes \<times> bytes \<Rightarrow> bool" where
  "dead oldest_active c n e \<longleftrightarrow> (let r = projr (decode_row (snd e) n) in
     committed_tombstone oldest_active c r \<or> rolled_back_insert oldest_active c r)"

definition dead_item :: "u64 \<Rightarrow> 'c clog_scheme \<Rightarrow> nat \<Rightarrow> bytes \<times> bytes \<Rightarrow> bytes \<times> row \<times> bool" where
  "dead_item oldest_active c n e = (let r = projr (decode_row (snd e) n) in
     (fst e, row_values r, committed_tombstone oldest_active c r))"

lemma find_dead_eq:
  "(\<forall>e \<in> set es. \<exists>r. decode_row (snd e) n = Inr r) \<Longrightarrow>
   find_dead oldest_active c n es = Inr (map (dead_item oldest_active c n) (filter (dead oldest_active c n) es))"
proof (induction es)
  case (Cons e es)
  then show ?case by (cases e) (auto simp: dead_def dead_item_def Let_def)
qed simp

lemma reclaim_rows_spec:
  assumes "represents p V r" "trees V T" "indexed sch T" "ANY_TREE \<le> fuel"
    and "distinct (map fst es)" "set es \<subseteq> set (entries_of T (sch_root sch))"
    and "\<forall>e \<in> set es. \<exists>r. decode_row (snd e) (length (sch_columns sch)) = Inr r"
  shows "\<exists>p' V' T'. sfor (reclaim_row fuel sch) (map (dead_item oldest_active c (length (sch_columns sch))) es) p = (Inr (), p') \<and>
    represents p' V' r \<and> trees V' T' \<and> indexed sch T' \<and>
    entries_of T' (sch_root sch) = filter (\<lambda>e. fst e \<notin> fst ` set es) (entries_of T (sch_root sch)) \<and>
    (\<forall>root. root \<notin> set (sch_root sch # map idx_root (sch_indexes sch)) \<longrightarrow> T' root = T root)"
  using assms
proof (induction es arbitrary: p V T)
  case Nil
  then show ?case by auto
next
  case (Cons e es)
  let ?root = "sch_root sch" and ?n = "length (sch_columns sch)"
  obtain rk encoded rec where e: "e = (rk, encoded)" "decode_row encoded ?n = Inr rec" using Cons.prems(7) by (cases e) auto
  then have m: "(rk, encoded) \<in> set (entries_of T ?root)" using Cons.prems(6) by simp
  from reclaim_row_spec [OF Cons.prems(1-4) m e(2), of "committed_tombstone oldest_active c rec"] obtain p1 V1 T1 where
    one: "reclaim_row fuel sch (dead_item oldest_active c ?n e) p = (Inr (), p1)" "represents p1 V1 r" "trees V1 T1" "indexed sch T1"
    "entries_of T1 ?root = drop_key rk (entries_of T ?root)"
    "\<forall>root. root \<notin> set (?root # map idx_root (sch_indexes sch)) \<longrightarrow> T1 root = T root"
    using e by (auto simp: dead_item_def)
  have f: "entries_of T1 ?root = filter (\<lambda>e. fst e \<noteq> rk) (entries_of T ?root)"
    using one(5) drop_key_filter [OF tree_keys_sorted [OF Cons.prems(2)]] by simp
  have "set es \<subseteq> set (entries_of T1 ?root)" using Cons.prems(5,6) e(1) unfolding f by (auto simp: image_iff)
  moreover have "distinct (map fst es)" "\<forall>e \<in> set es. \<exists>r. decode_row (snd e) ?n = Inr r" using Cons.prems(5,7) by simp_all
  ultimately obtain p' V' T' where "sfor (reclaim_row fuel sch) (map (dead_item oldest_active c ?n) es) p1 = (Inr (), p')"
    "represents p' V' r" "trees V' T'" "indexed sch T'"
    "entries_of T' ?root = filter (\<lambda>e. fst e \<notin> fst ` set es) (entries_of T1 ?root)"
    "\<forall>root. root \<notin> set (?root # map idx_root (sch_indexes sch)) \<longrightarrow> T' root = T1 root"
    using Cons.IH [OF one(2-4) Cons.prems(4)] by blast
  then show ?case using one(1,6) e(1) unfolding f
    by (intro exI [of _ p'] exI [of _ V'] exI [of _ T']) (auto simp: sbind_Inr filter_filter conj_commute)
qed

section \<open>Properties\<close>

text \<open>C17: One pass of the reclaimer over a table removes exactly the dead versions (deleted by a committed
  transaction, or inserted by a rolled-back one, below the watermark), together with their index entries:
  every other version stays as it is stored, each index holds exactly the keys of the versions that are left,
  and no other tree changes. One amount of fuel is enough for every tree the page numbers allow.\<close>

theorem reclaim_removes_dead_rows:
  assumes "represents p V r" "trees V T" "indexed sch T" "ANY_TREE \<le> fuel"
    and "\<forall>e \<in> set (entries_of T (sch_root sch)). \<exists>r. decode_row (snd e) (length (sch_columns sch)) = Inr r"
  shows "\<exists>ds p' V' T'. find_dead oldest_active c (length (sch_columns sch)) (entries_of T (sch_root sch)) = Inr ds \<and>
    sfor (reclaim_row fuel sch) ds p = (Inr (), p') \<and> represents p' V' r \<and> trees V' T' \<and> indexed sch T' \<and>
    entries_of T' (sch_root sch) = filter (\<lambda>e. \<not> dead oldest_active c (length (sch_columns sch)) e) (entries_of T (sch_root sch)) \<and>
    (\<forall>root. root \<notin> set (sch_root sch # map idx_root (sch_indexes sch)) \<longrightarrow> T' root = T root)"
proof -
  let ?n = "length (sch_columns sch)" and ?es = "entries_of T (sch_root sch)"
  let ?dead = "filter (dead oldest_active c ?n) ?es"
  have d: "distinct (map fst ?es)" by (rule tree_keys_distinct [OF assms(2)])
  then have "distinct (map fst ?dead)" by (simp add: distinct_map_filter)
  moreover have "\<forall>e \<in> set ?dead. \<exists>r. decode_row (snd e) ?n = Inr r" using assms(5) by simp
  ultimately obtain p' V' T' where "sfor (reclaim_row fuel sch) (map (dead_item oldest_active c ?n) ?dead) p = (Inr (), p')"
    "represents p' V' r" "trees V' T'" "indexed sch T'"
    "entries_of T' (sch_root sch) = filter (\<lambda>e. fst e \<notin> fst ` set ?dead) ?es"
    "\<forall>root. root \<notin> set (sch_root sch # map idx_root (sch_indexes sch)) \<longrightarrow> T' root = T root"
    using reclaim_rows_spec [OF assms(1-4), of ?dead oldest_active c] by auto
  moreover have "y = e" if "e \<in> set ?es" "y \<in> set ?es" "fst y = fst e" for e y
    using that d by (metis eq_key_imp_eq_value prod.collapse)
  then have "fst e \<in> fst ` set ?dead \<longleftrightarrow> dead oldest_active c ?n e" if "e \<in> set ?es" for e
    using that imageI [of e "set ?dead" fst] unfolding image_iff set_filter by blast
  then have "filter (\<lambda>e. fst e \<notin> fst ` set ?dead) ?es = filter (\<lambda>e. \<not> dead oldest_active c ?n e) ?es"
    by (intro filter_cong) simp_all
  ultimately show ?thesis using find_dead_eq [OF assms(5)] by auto
qed

section \<open>Truncation of the commit log\<close>

lemma truncate_below_ok:
  assumes "clog_faults c = []" "\<not> flushing c" "min_tx_id c < floor"
  shows "\<exists>c'. truncate_below iter floor c = (Inr (), c') \<and> min_tx_id c' = floor"
proof -
  have "0 < floor" using assms(3) by (metis word_gt_0 word_not_simps(1))
  moreover have "\<not> floor \<le> min_tx_id c" using assms(3) by simp
  ultimately show ?thesis using assms(1,2)
    by (simp add: truncate_below_def write_tmp_def swap_files_def clog_io_ok sbind_Inr Let_def word_gt_0)
qed

text \<open>Tables whose rows can all be decoded and of which none is dead.\<close>

definition nothing_dead :: "page_map \<Rightarrow> (bytes \<Rightarrow> schema option) \<Rightarrow> u64 \<Rightarrow> 'c clog_scheme \<Rightarrow> bool" where
  "nothing_dead V cat oldest_active c \<longleftrightarrow> (\<forall>name sch. cat name = Some sch \<longrightarrow> (\<exists>h t. tree_at V (sch_root sch) h t \<and>
     (\<forall>e \<in> set (entries h t). (\<exists>r. decode_row (snd e) (length (sch_columns sch)) = Inr r) \<and>
        \<not> dead oldest_active c (length (sch_columns sch)) e)))"

lemma reclaim_table_idle:
  assumes "represents (ws_pager st) V r" "catalog_holds V catalog hc tc cat" "ANY_TREE \<le> fuel"
    and "nothing_dead V cat oldest_active (tx_clog (ws_tx st))" "cat name = Some sch"
  shows "\<exists>p. reclaim_table oldest_active fuel catalog name st = (Inr 0, st\<lparr>ws_pager := p\<rparr>) \<and> represents p V r"
proof -
  let ?n = "length (sch_columns sch)"
  obtain h t where t: "tree_at V (sch_root sch) h t" "\<forall>e \<in> set (entries h t). (\<exists>r. decode_row (snd e) ?n = Inr r) \<and>
        \<not> dead oldest_active (tx_clog (ws_tx st)) ?n e" using assms(4,5) unfolding nothing_dead_def by blast
  have f: "cost hc tc < fuel" "cost h t < fuel"
    using cost_below [of V catalog hc tc] cost_below [OF t(1)] assms(2,3) by (auto simp: catalog_holds_def)
  obtain p1 where p1: "catalog_get fuel pager_ops catalog name (ws_pager st) = (Inr (Some sch), p1)" "represents p1 V r"
    using catalog_get_holds [OF assms(1,2) f(1), of name] assms(5) by auto
  obtain p2 where p2: "bt_scan fuel pager_ops (sch_root sch) p1 = (Inr (entries h t), p2)" "represents p2 V r"
    using pager_store.scan_spec [OF p1(2), of h t fuel None None] t(1) cost_bounds [OF f(2)] f(2)
    by (auto simp: bt_scan_def tree_at_def cost_def above_def below_def)
  have d: "find_dead oldest_active (tx_clog (ws_tx st)) ?n (entries h t) = Inr []"
    using find_dead_eq [of "entries h t" ?n oldest_active "tx_clog (ws_tx st)"] t(2) by (simp add: filter_empty_conv)
  have "bt_scan fuel pager_ops (sch_root sch) (ws_pager (st\<lparr>ws_pager := p1\<rparr>)) = (Inr (entries h t), p2)" using p2(1) by simp
  note step = on_pager_bind [where f = "catalog_get fuel pager_ops catalog name", OF p1(1)]
    on_pager_bind [where f = "bt_scan fuel pager_ops (sch_root sch)", OF this]
  show ?thesis unfolding reclaim_table_def step(1) option.case step(2)
    using p2(2) d by (intro exI [of _ p2]) (simp add: sbind_def)
qed

lemma write_each_idle:
  assumes "\<And>x st. x \<in> set xs \<Longrightarrow> P st \<Longrightarrow> \<exists>p. f x st = (Inr 0, st\<lparr>ws_pager := p\<rparr>) \<and> P (st\<lparr>ws_pager := p\<rparr>)" "P st"
  shows "\<exists>p. write_each f xs st = (Inr 0, st\<lparr>ws_pager := p\<rparr>) \<and> P (st\<lparr>ws_pager := p\<rparr>)"
  using assms
proof (induction xs arbitrary: st)
  case Nil
  then show ?case by (intro exI [of _ "ws_pager st"]) simp
next
  case (Cons x xs)
  then obtain p where p: "f x st = (Inr 0, st\<lparr>ws_pager := p\<rparr>)" "P (st\<lparr>ws_pager := p\<rparr>)" by (metis list.set_intros(1))
  then obtain q where "write_each f xs (st\<lparr>ws_pager := p\<rparr>) = (Inr 0, st\<lparr>ws_pager := q\<rparr>)" "P (st\<lparr>ws_pager := q\<rparr>)"
    using Cons.IH [of "st\<lparr>ws_pager := p\<rparr>"] Cons.prems(1) by auto
  with p(1) show ?case by (intro exI [of _ q]) (simp add: sbind_def)
qed

lemma table_names_holds:
  assumes "represents p V r" "catalog_holds V catalog hc tc cat" "cost hc tc < fuel"
  shows "\<exists>p' names. table_names fuel pager_ops catalog p = (Inr names, p') \<and> represents p' V r \<and> (\<forall>name \<in> set names. cat name \<noteq> None)"
proof -
  obtain p' where p': "bt_scan fuel pager_ops catalog p = (Inr (entries hc tc), p')" "represents p' V r"
    using catalog_scan [OF assms] by blast
  have e: "cat (fst e) \<noteq> None \<and> utf8_valid (fst e)" if m: "e \<in> set (entries hc tc)" for e
  proof -
    obtain s where "cat (sch_name s) = Some s" "fst e = sch_name s" using entries_decode [OF assms(2) m] by blast
    moreover from this assms(2) have "ok_schema s" unfolding catalog_holds_def by blast
    ultimately show ?thesis by (simp add: ok_schema_def ok_name_def)
  qed
  then have "rmap (\<lambda>e. if utf8_valid (fst e) then Inr (fst e) else Inl (Fail Corruption)) (entries hc tc) = Inr (map fst (entries hc tc))"
    by (intro rmap_Inr) simp
  then show ?thesis using p' e by (intro exI [of _ p'] exI [of _ "map fst (entries hc tc)"]) (auto simp: table_names_def sbind_def)
qed

lemma reclaim_idle:
  assumes "represents (ws_pager st) V r" "catalog_holds V catalog hc tc cat" "ANY_TREE \<le> fuel"
    and "nothing_dead V cat (oldest_active_tx_id (ws_tx st)) (tx_clog (ws_tx st))"
  shows "\<exists>p. reclaim_dead_rows fuel catalog st = (Inr 0, st\<lparr>ws_pager := p\<rparr>) \<and> represents p V r"
proof -
  let ?o = "oldest_active_tx_id (ws_tx st)"
  have "cost hc tc < fuel" using cost_below [of V catalog hc tc] assms(2,3) by (auto simp: catalog_holds_def)
  then obtain p names where n: "table_names fuel pager_ops catalog (ws_pager st) = (Inr names, p)" "represents p V r"
    "\<forall>name \<in> set names. cat name \<noteq> None" using table_names_holds [OF assms(1,2)] by blast
  have "\<exists>q. reclaim_table ?o fuel catalog name st' = (Inr 0, st'\<lparr>ws_pager := q\<rparr>) \<and>
      represents (ws_pager (st'\<lparr>ws_pager := q\<rparr>)) V r \<and> ws_tx (st'\<lparr>ws_pager := q\<rparr>) = ws_tx st"
    if "name \<in> set names" "represents (ws_pager st') V r \<and> ws_tx st' = ws_tx st" for name st'
    using reclaim_table_idle [of st' V r catalog hc tc cat fuel ?o name] assms(2-4) n(3) that by auto
  from write_each_idle [of names "\<lambda>st'. represents (ws_pager st') V r \<and> ws_tx st' = ws_tx st" "reclaim_table ?o fuel catalog" "st\<lparr>ws_pager := p\<rparr>", OF this] n(2)
  obtain q where "write_each (reclaim_table ?o fuel catalog) names (st\<lparr>ws_pager := p\<rparr>) = (Inr 0, st\<lparr>ws_pager := q\<rparr>)" "represents q V r"
    by auto
  then show ?thesis unfolding reclaim_dead_rows_def on_pager_bind [where f = "table_names fuel pager_ops catalog", OF n(1)] by blast
qed

section \<open>What truncation does to transactions that did not commit\<close>

lemma below_watermark:
  assumes "x < oldest_active_tx_id s" "tx_inv s"
  shows "x < tx_state.next_tx_id s" "x \<notin> in_flight s"
  using below_watermark_over [OF assms(2,1)] by (simp_all add: over_def)

text \<open>C37: The truncation of the commit log makes transactions that rolled back count as committed. It runs a
  full pass of the reclaimer first, which removes the rows a rolled-back transaction inserted; but a row that a
  rolled-back transaction deleted is live, stays, and keeps the id of that transaction as its tombstone. After the
  truncation this id counts as committed: every new snapshot has lost the row. In the same way a row written by
  a transaction that a crash left without a record, invisible so far, becomes visible.\<close>

theorem truncation_rewrites_history:
  assumes "represents (ws_pager st) V r" "catalog_holds V catalog hc tc cat" "ANY_TREE \<le> fuel"
    and "nothing_dead V cat (oldest_active_tx_id (ws_tx st)) (tx_clog (ws_tx st))"
    and "tx_inv (ws_tx st)" "clog_faults (tx_clog (ws_tx st)) = []"
    and "min_tx_id (tx_clog (ws_tx st)) < oldest_active_tx_id (ws_tx st)"
  shows "\<exists>st'. truncate_clog iter fuel catalog st = (Inr (oldest_active_tx_id (ws_tx st)), st') \<and> represents (ws_pager st') V r \<and>
    (\<forall>a b. visible (tx_clog (ws_tx st)) (take_snapshot None (ws_tx st)) a 0 \<longrightarrow>
       b \<noteq> 0 \<longrightarrow> b < oldest_active_tx_id (ws_tx st) \<longrightarrow> is_rolled_back (tx_clog (ws_tx st)) b \<longrightarrow>
       visible (tx_clog (ws_tx st)) (take_snapshot None (ws_tx st)) a b \<and>
       \<not> visible (tx_clog (ws_tx st')) (take_snapshot None (ws_tx st')) a b) \<and>
    (\<forall>a. a \<noteq> 0 \<longrightarrow> a < oldest_active_tx_id (ws_tx st) \<longrightarrow> tx_status (tx_clog (ws_tx st)) a = None \<longrightarrow>
       \<not> visible (tx_clog (ws_tx st)) (take_snapshot None (ws_tx st)) a 0 \<and>
       visible (tx_clog (ws_tx st')) (take_snapshot None (ws_tx st')) a 0)"
proof -
  let ?t = "ws_tx st" and ?o = "oldest_active_tx_id (ws_tx st)"
  obtain p where p: "reclaim_dead_rows fuel catalog st = (Inr 0, st\<lparr>ws_pager := p\<rparr>)" "represents p V r"
    using reclaim_idle [OF assms(1-4)] by blast
  have "\<not> flushing (tx_clog ?t)" using assms(5) by (simp add: tx_inv_def quiet_def)
  from truncate_below_ok [OF assms(6) this assms(7)] obtain c where
    c: "truncate_below iter ?o (tx_clog ?t) = (Inr (), c)" "min_tx_id c = ?o" by blast
  let ?st = "st\<lparr>ws_pager := p, ws_tx := ?t\<lparr>tx_clog := c\<rparr>\<rparr>"
  have "?o \<noteq> 0" using assms(7) by auto
  then have run: "truncate_clog iter fuel catalog st = (Inr ?o, ?st)"
    using p(1) c(1) by (simp add: truncate_clog_def Let_def sbind_Inr on_clog_def)
  have late: "is_committed c x \<and> x < tx_state.next_tx_id ?t \<and> x \<notin> in_flight ?t" if "x < ?o" for x
    using that c(2) below_watermark [OF that assms(5)] by (simp add: is_committed_def tx_status_def)
  have "visible (tx_clog ?t) (take_snapshot None ?t) a b \<and> \<not> visible c (take_snapshot None ?t) a b"
    if "visible (tx_clog ?t) (take_snapshot None ?t) a 0" "b \<noteq> 0" "b < ?o" "is_rolled_back (tx_clog ?t) b" for a b
    using that late [OF that(3)] by (auto simp: visible_iff seen_def take_snapshot_def is_committed_def is_rolled_back_def)
  moreover have "\<not> visible (tx_clog ?t) (take_snapshot None ?t) a 0 \<and> visible c (take_snapshot None ?t) a 0"
    if "a \<noteq> 0" "a < ?o" "tx_status (tx_clog ?t) a = None" for a
    using that late [OF that(2)] by (auto simp: visible_iff seen_def take_snapshot_def is_committed_def)
  moreover have "take_snapshot None (ws_tx ?st) = take_snapshot None ?t" by (simp add: take_snapshot_def)
  ultimately show ?thesis using run p(2) by (intro exI [of _ ?st]) simp
qed

section \<open>Witnesses\<close>

definition committed_one :: clog where
  "committed_one = (fresh_clog [])\<lparr>outcomes := [1 \<mapsto> Committed]\<rparr>"

theorem reclaim_removes_dead_rows_witness:
  "\<exists>p root i_root p'. find_dead 2 committed_one 1 [(rowid_key 1, encode_row 0 1 [VInt 5])] = Inr [(rowid_key 1, [VInt 5], True)] \<and>
     sfor (reclaim_row ANY_TREE (keyed root i_root)) [(rowid_key 1, [VInt 5], True)] p = (Inr (), p')"
proof -
  let ?es = "[(rowid_key 1, Inline (encode_row 0 1 [VInt 5]))]" and ?ies = "[(encode_index_value (VInt 5) @ rowid_key 1, Inline [])]"
  obtain p V root i_root where p: "root \<noteq> i_root" "represents p V 7" "trees V (beside root i_root ?es ?ies)"
    using sample_trees [of ?es ?ies] by (auto simp: rowid_key_def encode_row_def)
  let ?T = "beside root i_root ?es ?ies" and ?sch = "keyed root i_root"
  have T: "entries_of ?T root = [(rowid_key 1, encode_row 0 1 [VInt 5])]" "entries_of ?T i_root = [(encode_index_value (VInt 5) @ rowid_key 1, [])]"
    "?T root \<noteq> None" "?T i_root \<noteq> None"
    using p(1) by (simp_all add: beside_def entries_of_def)
  have sch: "sch_root ?sch = root" "length (sch_columns ?sch) = 1"
    "sch_indexes ?sch = [\<lparr>idx_name = [105], idx_columns = [0], idx_root = i_root, idx_unique = True, is_building = False\<rparr>]"
    by (simp_all add: keyed_def one_index_def)
  have d: "decode_row (encode_row 0 1 [VInt 5]) 1 = Inr \<lparr>tx_min = 0, tx_max = 1, row_values = [VInt 5]\<rparr>"
    using decode_encode_row [of "[VInt 5]" 0 1] by simp
  have "indexed ?sch ?T" using p(1) T d by (simp add: indexed_def sch indexes_def rowid_key_def)
  moreover have "\<forall>e \<in> set (entries_of ?T (sch_root ?sch)). \<exists>r. decode_row (snd e) (length (sch_columns ?sch)) = Inr r"
    unfolding sch T(1) using d by simp
  ultimately obtain ds p' where ds: "find_dead 2 committed_one (length (sch_columns ?sch)) (entries_of ?T (sch_root ?sch)) = Inr ds"
    "sfor (reclaim_row ANY_TREE ?sch) ds p = (Inr (), p')"
    using reclaim_removes_dead_rows [OF p(2,3), of ?sch ANY_TREE 2 committed_one] by auto
  have "is_committed committed_one 1" by (simp add: committed_one_def fresh_clog_def is_committed_def tx_status_def)
  then have f: "find_dead 2 committed_one 1 [(rowid_key 1, encode_row 0 1 [VInt 5])] = Inr [(rowid_key 1, [VInt 5], True)]"
    using d by (simp add: committed_tombstone_def)
  then have "ds = [(rowid_key 1, [VInt 5], True)]" using ds(1) unfolding sch T(1) by simp
  with ds(2) f show ?thesis by blast
qed

text \<open>A table with one row, whose deletion by transaction 1 was rolled back.\<close>

definition one_table :: "u32 \<Rightarrow> schema" where
  "one_table root = (one_index root 0 TInt)\<lparr>sch_indexes := []\<rparr>"

definition rolled_back_one :: tx_state where
  "rolled_back_one = tx_state_new 3 ((fresh_clog [])\<lparr>outcomes := [1 \<mapsto> RolledBack]\<rparr>)"

lemma rolled_back_one: "tx_inv rolled_back_one" "oldest_active_tx_id rolled_back_one = 3" "min_tx_id (tx_clog rolled_back_one) = 0"
  "clog_faults (tx_clog rolled_back_one) = []" "is_rolled_back (tx_clog rolled_back_one) 1" "\<not> is_committed (tx_clog rolled_back_one) 1"
proof -
  have "max (3 :: u64) 1 = 3" "\<not> (3 :: u64) \<le> 1" by (simp_all add: max_def word_le_nat_alt)
  then show "tx_inv rolled_back_one" unfolding rolled_back_one_def by (intro tx_inv_new) (auto simp: fresh_clog_def quiet_def)
qed (simp_all add: rolled_back_one_def tx_state_new_def oldest_active_tx_id_def fresh_clog_def is_rolled_back_def is_committed_def tx_status_def)

lemma one_table_ok: "ok_schema (one_table root)" "length (encode_schema (one_table root)) \<le> 80"
  by (simp_all add: one_table_def one_index_def ok_schema_def ok_name_def ok_column_def encode_schema_def write_str_def encode_column_def
      encode_fk_def encode_stats_def u16_le_def)

theorem truncation_rewrites_history_witness:
  "\<exists>p V catalog root h t st'. represents p V 7 \<and> tree_at V root h t \<and> entries h t = [(rowid_key 1, encode_row 0 1 [VInt 5])] \<and>
     truncate_clog key_order ANY_TREE catalog \<lparr>ws_pager = p, ws_tx = rolled_back_one\<rparr> = (Inr 3, st') \<and> represents (ws_pager st') V 7 \<and>
     visible (tx_clog rolled_back_one) (take_snapshot None rolled_back_one) 0 1 \<and>
     \<not> visible (tx_clog (ws_tx st')) (take_snapshot None (ws_tx st')) 0 1"
proof -
  let ?es = "[(rowid_key 1, Inline (encode_row 0 1 [VInt 5]))]" and ?cs = "\<lambda>root. [([116], Inline (encode_schema (one_table root)))]"
  have "small_cell ([116], Inline (encode_schema (one_table root)))" for root using one_table_ok(2) [of root] by simp
  then obtain p V root catalog where p: "root \<noteq> catalog" "represents p V 7" "trees V (beside root catalog ?es (?cs root))"
    using sample_trees_at [of ?es ?cs] by (auto simp: rowid_key_def encode_row_def)
  let ?st = "\<lparr>ws_pager = p, ws_tx = rolled_back_one\<rparr>" and ?t = "BLeaf root ?es 0" and ?ct = "BLeaf catalog (?cs root) 0"
  let ?cat = "[[116] \<mapsto> one_table root]"
  have t: "tree_at V root 0 ?t" "tree_at V catalog 0 ?ct" using p(1,3) by (auto simp: trees_def beside_def)
  have n: "sch_name (one_table root) = [116]" "sch_root (one_table root) = root" "length (sch_columns (one_table root)) = 1"
    by (simp_all add: one_table_def one_index_def)
  have e: "entries 0 ?t = [(rowid_key 1, encode_row 0 1 [VInt 5])]" by (simp add: cells_entries_def)
  have c: "catalog_holds V catalog 0 ?ct ?cat"
    using t(2) one_table_ok(1) n(1) by (auto simp: catalog_holds_def cells_entries_def)
  have d: "decode_row (encode_row 0 1 [VInt 5]) 1 = Inr \<lparr>tx_min = 0, tx_max = 1, row_values = [VInt 5]\<rparr>"
    using decode_encode_row [of "[VInt 5]" 0 1] by simp
  have "nothing_dead V ?cat (oldest_active_tx_id (ws_tx ?st)) (tx_clog (ws_tx ?st))"
    unfolding nothing_dead_def using t(1) e d n rolled_back_one(6)
    by (auto simp: dead_def committed_tombstone_def rolled_back_insert_def intro!: exI [of _ 0] exI [of _ ?t])
  from truncation_rewrites_history [OF _ c order_refl this, of 7 key_order] p(2) rolled_back_one obtain st' where
    "truncate_clog key_order ANY_TREE catalog ?st = (Inr 3, st')" "represents (ws_pager st') V 7"
    "visible (tx_clog rolled_back_one) (take_snapshot None rolled_back_one) 0 0 \<longrightarrow>
       visible (tx_clog rolled_back_one) (take_snapshot None rolled_back_one) 0 1 \<and>
       \<not> visible (tx_clog (ws_tx st')) (take_snapshot None (ws_tx st')) 0 1" by auto
  moreover have "visible (tx_clog rolled_back_one) (take_snapshot None rolled_back_one) 0 0" by (simp add: visible_iff)
  ultimately show ?thesis using p(2) t(1) e by blast
qed

end
