(* ===== verification/Lexer.thy ===== *)
theory Lexer
  imports Sql_Ast Float64
begin

text \<open>
  The lexer of \<^verbatim>\<open>sql/lexer.rs\<close> and the tokens of \<^verbatim>\<open>sql/token.rs\<close>. A \<^verbatim>\<open>char\<close> is its code point, the
  text is the list of its characters and the index \<^verbatim>\<open>i\<close> of the code is the suffix that starts there.
  Which characters above ASCII are letters or digits is a table of the Unicode standard, an argument;
  the white space is written out.
\<close>

section \<open>Tokens\<close>

datatype (plugins only: code size) keyword = KwSelect | KwFrom | KwWhere | KwInsert | KwInto | KwValues | KwCreate | KwTable | KwDrop | KwUpdate
  | KwSet | KwDelete | KwIndex | KwOn | KwJoin | KwInner | KwLeft | KwCross | KwAs | KwOrder | KwBy | KwAsc | KwDesc
  | KwGroup | KwHaving | KwVacuum | KwExplain | KwAnalyze | KwPrimary | KwKey | KwUnique | KwReferences | KwCascade
  | KwNo | KwAction | KwRestrict | KwBegin | KwCommit | KwRollback | KwLimit | KwOffset | KwAnd | KwOr | KwNot | KwIs
  | KwIn | KwExists | KwNull | KwTrue | KwFalse | KwInt | KwInteger | KwText | KwReal | KwFloat | KwBool | KwBoolean

datatype token = TkInteger u64 | TkReal u64 | TkStr bytes | TkIdent bytes | TkKeyword keyword
  | TkComma | TkDot | TkSemicolon | TkLParen | TkRParen | TkStar | TkPlus | TkMinus | TkSlash
  | TkEq | TkNotEq | TkLt | TkLtEq | TkGt | TkGtEq | TkQuestion

definition ascii :: "string \<Rightarrow> bytes" where
  "ascii s = map of_char s"

definition to_ascii_uppercase :: "bytes \<Rightarrow> bytes" where
  "to_ascii_uppercase w = map (\<lambda>b. if 97 \<le> b \<and> b \<le> 122 then b - 32 else b) w"

definition keyword_table :: "(string \<times> keyword) list" where
  "keyword_table =
    [(''SELECT'', KwSelect), (''FROM'', KwFrom), (''WHERE'', KwWhere), (''INSERT'', KwInsert), (''INTO'', KwInto),
     (''VALUES'', KwValues), (''CREATE'', KwCreate), (''TABLE'', KwTable), (''DROP'', KwDrop), (''UPDATE'', KwUpdate),
     (''SET'', KwSet), (''DELETE'', KwDelete), (''INDEX'', KwIndex), (''ON'', KwOn), (''JOIN'', KwJoin),
     (''INNER'', KwInner), (''LEFT'', KwLeft), (''CROSS'', KwCross), (''AS'', KwAs), (''ORDER'', KwOrder),
     (''BY'', KwBy), (''ASC'', KwAsc), (''DESC'', KwDesc), (''GROUP'', KwGroup), (''HAVING'', KwHaving),
     (''VACUUM'', KwVacuum), (''EXPLAIN'', KwExplain), (''ANALYZE'', KwAnalyze), (''PRIMARY'', KwPrimary), (''KEY'', KwKey),
     (''UNIQUE'', KwUnique), (''REFERENCES'', KwReferences), (''CASCADE'', KwCascade), (''NO'', KwNo), (''ACTION'', KwAction),
     (''RESTRICT'', KwRestrict), (''BEGIN'', KwBegin), (''COMMIT'', KwCommit), (''ROLLBACK'', KwRollback), (''LIMIT'', KwLimit),
     (''OFFSET'', KwOffset), (''AND'', KwAnd), (''OR'', KwOr), (''NOT'', KwNot), (''IS'', KwIs), (''IN'', KwIn),
     (''EXISTS'', KwExists), (''NULL'', KwNull), (''TRUE'', KwTrue), (''FALSE'', KwFalse), (''INT'', KwInt),
     (''INTEGER'', KwInteger), (''TEXT'', KwText), (''REAL'', KwReal), (''FLOAT'', KwFloat), (''BOOL'', KwBool),
     (''BOOLEAN'', KwBoolean)]"

definition from_word :: "bytes \<Rightarrow> keyword option" where
  "from_word w = map_of (map (\<lambda>(s, k). (ascii s, k)) keyword_table) (to_ascii_uppercase w)"

section \<open>Characters\<close>

type_synonym uchar = nat

record unicode =
  uc_alphabetic :: "uchar \<Rightarrow> bool"
  uc_numeric :: "uchar \<Rightarrow> bool"

definition is_ascii_digit :: "uchar \<Rightarrow> bool" where
  "is_ascii_digit c \<longleftrightarrow> 48 \<le> c \<and> c \<le> 57"

definition is_whitespace :: "uchar \<Rightarrow> bool" where
  "is_whitespace c \<longleftrightarrow> 9 \<le> c \<and> c \<le> 13 \<or> c = 32 \<or> c = 0x85 \<or> c = 0xA0 \<or> c = 0x1680 \<or> 0x2000 \<le> c \<and> c \<le> 0x200A
     \<or> c = 0x2028 \<or> c = 0x2029 \<or> c = 0x202F \<or> c = 0x205F \<or> c = 0x3000"

definition is_alphabetic :: "unicode \<Rightarrow> uchar \<Rightarrow> bool" where
  "is_alphabetic uc c \<longleftrightarrow> (if c < 128 then 65 \<le> c \<and> c \<le> 90 \<or> 97 \<le> c \<and> c \<le> 122 else uc_alphabetic uc c)"

definition is_alphanumeric :: "unicode \<Rightarrow> uchar \<Rightarrow> bool" where
  "is_alphanumeric uc c \<longleftrightarrow> is_alphabetic uc c \<or> (if c < 128 then is_ascii_digit c else uc_numeric uc c)"

text \<open>The bytes of a character, and of a text collected into a \<^verbatim>\<open>String\<close>.\<close>

definition utf8_char :: "uchar \<Rightarrow> bytes" where
  "utf8_char c =
     (if c < 0x80 then [of_nat c]
      else if c < 0x800 then [of_nat (0xC0 + c div 64), of_nat (0x80 + c mod 64)]
      else if c < 0x10000 then [of_nat (0xE0 + c div 4096), of_nat (0x80 + c div 64 mod 64), of_nat (0x80 + c mod 64)]
      else [of_nat (0xF0 + c div 262144), of_nat (0x80 + c div 4096 mod 64), of_nat (0x80 + c div 64 mod 64), of_nat (0x80 + c mod 64)])"

definition utf8_string :: "uchar list \<Rightarrow> bytes" where
  "utf8_string cs = concat (map utf8_char cs)"

section \<open>Literals\<close>

text \<open>The characters after the opening quote; a doubled quote is one quote.\<close>

fun lex_string :: "uchar list \<Rightarrow> (bytes \<times> uchar list) result" where
  "lex_string [] = Inl (Fail Parse)"
| "lex_string (c # cs) =
     (if c = 39 then
        (case cs of
           [] \<Rightarrow> Inr ([], [])
         | d # ds \<Rightarrow>
             if d = 39 then rbind (lex_string ds) (\<lambda>(s, rest). Inr (utf8_char 39 @ s, rest)) else Inr ([], cs))
      else rbind (lex_string cs) (\<lambda>(s, rest). Inr (utf8_char c @ s, rest)))"

definition decimal :: "uchar list \<Rightarrow> nat" where
  "decimal ds = foldl (\<lambda>n d. 10 * n + (d - 48)) 0 ds"

definition parse_i64 :: "uchar list \<Rightarrow> u64 result" where
  "parse_i64 ds = (if decimal ds < 2 ^ 63 then Inr (of_nat (decimal ds)) else Inl (Fail Parse))"

definition parse_f64 :: "uchar list \<Rightarrow> uchar list \<Rightarrow> u64" where
  "parse_f64 whole frac =
     (let n = decimal (whole @ frac) in if n = 0 then 0 else f64_round False (int n) (10 ^ length frac))"

definition lex_number :: "uchar list \<Rightarrow> (token \<times> uchar list) result" where
  "lex_number cs =
     (let whole = takeWhile is_ascii_digit cs; rest = dropWhile is_ascii_digit cs in
      case rest of
        p # d # ds \<Rightarrow>
          if p = 46 \<and> is_ascii_digit d then
            let frac = takeWhile is_ascii_digit (d # ds) in
            Inr (TkReal (parse_f64 whole frac), dropWhile is_ascii_digit (d # ds))
          else rbind (parse_i64 whole) (\<lambda>n. Inr (TkInteger n, rest))
      | _ \<Rightarrow> rbind (parse_i64 whole) (\<lambda>n. Inr (TkInteger n, rest)))"

section \<open>The scanner\<close>

definition peek_eq :: "uchar list \<Rightarrow> uchar \<Rightarrow> bool" where
  "peek_eq cs want = (case cs of [] \<Rightarrow> False | c # _ \<Rightarrow> c = want)"

abbreviation "word_char uc c \<equiv> is_alphanumeric uc c \<or> c = 95"

definition word_token :: "uchar list \<Rightarrow> token" where
  "word_token w = (case from_word (utf8_string w) of Some kw \<Rightarrow> TkKeyword kw | None \<Rightarrow> TkIdent (utf8_string w))"

text \<open>One round of the loop at the character \<open>c\<close>: a token or none, and what is left.\<close>

definition lex_one :: "unicode \<Rightarrow> uchar \<Rightarrow> uchar list \<Rightarrow> (token option \<times> uchar list) result" where
  "lex_one uc c cs =
     (let one = (\<lambda>t. Inr (Some t, cs)); two = (\<lambda>t. Inr (Some t, tl cs)) in
      if is_whitespace c then Inr (None, cs)
      else if c = 45 \<and> peek_eq cs 45 then Inr (None, dropWhile (\<lambda>d. d \<noteq> 10) cs)
      else if c = 44 then one TkComma
      else if c = 46 then one TkDot
      else if c = 59 then one TkSemicolon
      else if c = 40 then one TkLParen
      else if c = 41 then one TkRParen
      else if c = 42 then one TkStar
      else if c = 43 then one TkPlus
      else if c = 45 then one TkMinus
      else if c = 47 then one TkSlash
      else if c = 61 then one TkEq
      else if c = 63 then one TkQuestion
      else if c = 60 then if peek_eq cs 61 then two TkLtEq else if peek_eq cs 62 then two TkNotEq else one TkLt
      else if c = 62 then if peek_eq cs 61 then two TkGtEq else one TkGt
      else if c = 33 then if peek_eq cs 61 then two TkNotEq else Inl (Fail Parse)
      else if c = 39 then rbind (lex_string cs) (\<lambda>(s, rest). Inr (Some (TkStr s), rest))
      else if is_ascii_digit c then rbind (lex_number (c # cs)) (\<lambda>(t, rest). Inr (Some t, rest))
      else if is_alphabetic uc c \<or> c = 95 then
        Inr (Some (word_token (takeWhile (word_char uc) (c # cs))), dropWhile (word_char uc) (c # cs))
      else Inl (Fail Parse))"

lemma lex_string_rest: "lex_string cs = Inr (s, rest) \<Longrightarrow> length rest < length cs"
  by (induction cs arbitrary: s rest rule: lex_string.induct)
    (auto simp: rbind_Inr_iff split: if_splits list.splits, fastforce+)

lemma lex_number_rest:
  assumes "is_ascii_digit c" "lex_number (c # cs) = Inr (t, rest)"
  shows "length rest \<le> length cs"
proof -
  let ?rest = "dropWhile is_ascii_digit (c # cs)"
  have len: "length ?rest \<le> length cs" using assms(1) by (simp add: length_dropWhile_le)
  have "rest = ?rest \<or> (\<exists>p ds. ?rest = p # ds \<and> rest = dropWhile is_ascii_digit ds)"
    using assms(2) unfolding lex_number_def Let_def
    by (cases ?rest rule: remdups_adj.cases) (auto simp: rbind_Inr_iff split: if_splits)
  then show ?thesis
  proof (elim disjE exE conjE)
    fix p ds assume "?rest = p # ds" "rest = dropWhile is_ascii_digit ds"
    then show ?thesis using len length_dropWhile_le [of is_ascii_digit ds] by (metis Suc_leD le_trans length_Cons)
  qed (use len in simp)
qed

lemma lex_one_rest: "lex_one uc c cs = Inr (t, rest) \<Longrightarrow> length rest \<le> length cs"
  using lex_number_rest [of c cs] lex_string_rest [of cs]
  by (auto simp: lex_one_def Let_def rbind_Inr_iff is_alphanumeric_def split: if_splits intro: less_imp_le le_trans [OF length_dropWhile_le])

function tokenize :: "unicode \<Rightarrow> uchar list \<Rightarrow> token list result" where
  "tokenize uc [] = Inr []"
| "tokenize uc (c # cs) =
     rbind (lex_one uc c cs) (\<lambda>(t, rest).
     rbind (tokenize uc rest) (\<lambda>ts. Inr (case t of None \<Rightarrow> ts | Some t \<Rightarrow> t # ts)))"
  by pat_completeness auto
termination
  by (relation "measure (\<lambda>(_, cs). length cs)") (auto dest: lex_one_rest)

declare tokenize.simps(2) [simp del]

end
