(* ===== verification/Ddl.thy ===== *)
theory Ddl
  imports Maintenance Lexer
begin

text \<open>
  The statements of \<^verbatim>\<open>engine/executor.rs\<close> that change the catalog: CREATE and DROP TABLE, the three phases of
  CREATE INDEX (\<^verbatim>\<open>create_index_online\<close> of \<^verbatim>\<open>engine/database.rs\<close> runs and commits them one by one), DROP INDEX
  and ANALYZE, and the sweep of half-built indexes when a database is opened. The locks around the phases only
  exclude other threads. \<^verbatim>\<open>sort_by\<close> is the stable sort of the standard library.
\<close>

section \<open>Tables\<close>

definition bump :: "(pager, unit) op" where
  "bump p = (Inr (), snd (bump_schema_version p))"

definition unique_index :: "bytes \<Rightarrow> nat \<Rightarrow> u32 \<Rightarrow> index_def" where
  "unique_index name column root = \<lparr>idx_name = name, idx_columns = [column], idx_root = root, idx_unique = True, is_building = False\<rparr>"

definition create_pk_index :: "bytes \<Rightarrow> nat option \<Rightarrow> (pager, index_def list) op" where
  "create_pk_index name pk =
     (case pk of
        None \<Rightarrow> sret []
      | Some c \<Rightarrow> sbind (bt_create pager_ops) (\<lambda>root. sret [unique_index (ascii ''_pk_'' @ name) c root]))"

fun create_uq_indexes :: "bytes \<Rightarrow> column list \<Rightarrow> nat list \<Rightarrow> (pager, index_def list) op" where
  "create_uq_indexes name columns [] = sret []"
| "create_uq_indexes name columns (c # cs) =
     sbind (slift (index columns c)) (\<lambda>col.
     sbind (bt_create pager_ops) (\<lambda>root.
     sbind (create_uq_indexes name columns cs) (\<lambda>is.
     sret (unique_index (ascii ''_uq_'' @ name @ ascii ''_'' @ col_name col) c root # is))))"

definition exec_create_table :: "nat \<Rightarrow> u32 \<Rightarrow> bytes \<Rightarrow> column list \<Rightarrow> nat option \<Rightarrow> nat list \<Rightarrow> (pager, unit) op" where
  "exec_create_table fuel catalog name columns pk unique_columns =
     sbind (catalog_get fuel pager_ops catalog name) (\<lambda>old.
     if old \<noteq> None then slift (Inl (Fail Exec))
     else
       sbind (bt_create pager_ops) (\<lambda>root.
       sbind (create_pk_index name pk) (\<lambda>pks.
       sbind (create_uq_indexes name columns unique_columns) (\<lambda>uqs.
       sbind (catalog_put fuel pager_ops catalog
         \<lparr>sch_name = name, sch_columns = columns, sch_root = root, next_rowid = 1, row_count = 0,
          sch_indexes = pks @ uqs, primary_key_column = pk, mutations_since_analyze = 0\<rparr>) (\<lambda>_. bump)))))"

fun referencing_column :: "bytes \<Rightarrow> column list \<Rightarrow> bytes option" where
  "referencing_column parent [] = None"
| "referencing_column parent (c # cs) =
     (case foreign_key c of
        Some fk \<Rightarrow> if fk_table fk = parent then Some (col_name c) else referencing_column parent cs
      | None \<Rightarrow> referencing_column parent cs)"

fun child_of :: "nat \<Rightarrow> u32 \<Rightarrow> bytes \<Rightarrow> bytes list \<Rightarrow> (pager, (bytes \<times> bytes) option) op" where
  "child_of fuel catalog parent [] = sret None"
| "child_of fuel catalog parent (child # names) =
     (if child = parent then child_of fuel catalog parent names
      else
        sbind (catalog_get fuel pager_ops catalog child) (\<lambda>s. case s of
          None \<Rightarrow> child_of fuel catalog parent names
        | Some sch \<Rightarrow>
            (case referencing_column parent (sch_columns sch) of
               Some col \<Rightarrow> sret (Some (child, col))
             | None \<Rightarrow> child_of fuel catalog parent names)))"

definition child_referencing :: "nat \<Rightarrow> u32 \<Rightarrow> bytes \<Rightarrow> (pager, (bytes \<times> bytes) option) op" where
  "child_referencing fuel catalog parent = sbind (table_names fuel pager_ops catalog) (child_of fuel catalog parent)"

definition exec_drop_table :: "nat \<Rightarrow> u32 \<Rightarrow> bytes \<Rightarrow> (pager, unit) op" where
  "exec_drop_table fuel catalog name =
     sbind (require_table fuel catalog name) (\<lambda>sch.
     sbind (child_referencing fuel catalog name) (\<lambda>child.
     if child \<noteq> None then slift (Inl (Fail Exec))
     else
       sbind (free_all fuel pager_ops (sch_root sch)) (\<lambda>_.
       sbind (sfor (\<lambda>i. free_all fuel pager_ops (idx_root i)) (sch_indexes sch)) (\<lambda>_.
       sbind (catalog_remove fuel pager_ops catalog name) (\<lambda>_. bump)))))"

section \<open>Indexes\<close>

fun index_positions :: "schema \<Rightarrow> bytes list \<Rightarrow> nat list \<Rightarrow> nat list result" where
  "index_positions sch [] done = Inr done"
| "index_positions sch (name # names) done =
     rbind (column_no sch name) (\<lambda>c. if c \<in> set done then Inl (Fail Exec) else index_positions sch names (done @ [c]))"

definition create_index_phase1 :: "nat \<Rightarrow> u32 \<Rightarrow> bytes \<Rightarrow> bytes \<Rightarrow> bytes list \<Rightarrow> (pager, nat list \<times> u32) op" where
  "create_index_phase1 fuel catalog index_name table names =
     sbind (require_table fuel catalog table) (\<lambda>sch.
     sbind (slift (index_positions sch names [])) (\<lambda>columns.
     sbind (table_with_index fuel pager_ops catalog index_name) (\<lambda>other.
     if other \<noteq> None then slift (Inl (Fail Exec))
     else
       sbind (bt_create pager_ops) (\<lambda>root.
       sbind (catalog_put fuel pager_ops catalog (sch\<lparr>sch_indexes := sch_indexes sch @
         [\<lparr>idx_name = index_name, idx_columns = columns, idx_root = root, idx_unique = False, is_building = True\<rparr>]\<rparr>)) (\<lambda>_.
       sbind bump (\<lambda>_. sret (columns, root)))))))"

definition populate_one :: "nat \<Rightarrow> nat \<Rightarrow> nat list \<Rightarrow> u32 \<Rightarrow> bytes \<times> bytes \<Rightarrow> (pager, unit) op" where
  "populate_one fuel column_count columns index_root e =
     sbind (slift (decode_row (snd e) column_count)) (\<lambda>r.
     sbind (slift (encode_index_key (row_values r) columns (fst e))) (\<lambda>key.
     sbind (insert_if_absent fuel pager_ops index_root key []) (\<lambda>_. sret ())))"

definition create_index_phase2_populate :: "nat \<Rightarrow> u32 \<Rightarrow> nat \<Rightarrow> nat list \<Rightarrow> u32 \<Rightarrow> (pager, unit) op" where
  "create_index_phase2_populate fuel table_root column_count columns index_root =
     sbind (bt_scan fuel pager_ops table_root) (sfor (populate_one fuel column_count columns index_root))"

definition create_index_phase3_finalize :: "nat \<Rightarrow> u32 \<Rightarrow> bytes \<Rightarrow> bytes \<Rightarrow> (pager, unit) op" where
  "create_index_phase3_finalize fuel catalog index_name table =
     sbind (require_table fuel catalog table) (\<lambda>sch.
     sbind (slift (ok_or (index_position index_name sch) Exec)) (\<lambda>position.
     sbind (catalog_put fuel pager_ops catalog
       (sch\<lparr>sch_indexes := (sch_indexes sch)[position := (sch_indexes sch ! position)\<lparr>is_building := False\<rparr>]\<rparr>)) (\<lambda>_. bump)))"

definition create_index_online :: "nat \<Rightarrow> bytes \<Rightarrow> bytes \<Rightarrow> bytes list \<Rightarrow> (pager, unit) op" where
  "create_index_online fuel name table names =
     sbind catalog_open (\<lambda>catalog.
     sbind (create_index_phase1 fuel catalog name table names) (\<lambda>(columns, index_root).
     sbind commit (\<lambda>_.
     sbind (catalog_get fuel pager_ops catalog table) (\<lambda>sch.
     sbind (slift (ok_or sch Corruption)) (\<lambda>sch.
     sbind (create_index_phase2_populate fuel (sch_root sch) (length (sch_columns sch)) columns index_root) (\<lambda>_.
     sbind commit (\<lambda>_.
     sbind catalog_open (\<lambda>catalog.
     sbind (create_index_phase3_finalize fuel catalog name table) (\<lambda>_. commit)))))))))"

definition exec_drop_index :: "nat \<Rightarrow> u32 \<Rightarrow> bytes \<Rightarrow> (pager, unit) op" where
  "exec_drop_index fuel catalog index_name =
     sbind (table_with_index fuel pager_ops catalog index_name) (\<lambda>found.
     sbind (slift (ok_or found Exec)) (\<lambda>(sch, position).
     sbind (free_all fuel pager_ops (idx_root (sch_indexes sch ! position))) (\<lambda>_.
     sbind (catalog_put fuel pager_ops catalog (sch\<lparr>sch_indexes := remove_at position (sch_indexes sch)\<rparr>)) (\<lambda>_. bump))))"

text \<open>\<^verbatim>\<open>sweep_partial_indexes\<close>, at the opening of a database.\<close>

fun sweep_tables :: "nat \<Rightarrow> u32 \<Rightarrow> bytes list \<Rightarrow> (pager, bool) op" where
  "sweep_tables fuel catalog [] = sret False"
| "sweep_tables fuel catalog (name # names) =
     sbind (catalog_get fuel pager_ops catalog name) (\<lambda>s. case s of
       None \<Rightarrow> sweep_tables fuel catalog names
     | Some sch \<Rightarrow>
         sbind (sfor (\<lambda>i. free_all fuel pager_ops (idx_root i)) (filter is_building (sch_indexes sch))) (\<lambda>_.
         let kept = filter (\<lambda>i. \<not> is_building i) (sch_indexes sch) in
         if length kept \<noteq> length (sch_indexes sch) then
           sbind (catalog_put fuel pager_ops catalog (sch\<lparr>sch_indexes := kept\<rparr>)) (\<lambda>_.
           sbind (sweep_tables fuel catalog names) (\<lambda>_. sret True))
         else sweep_tables fuel catalog names))"

definition sweep_partial_indexes :: "nat \<Rightarrow> u32 \<Rightarrow> (pager, unit) op" where
  "sweep_partial_indexes fuel catalog =
     sbind (table_names fuel pager_ops catalog) (\<lambda>names.
     sbind (sweep_tables fuel catalog names) (\<lambda>swept. if swept then commit else sret ()))"

section \<open>ANALYZE\<close>

definition BUCKETS :: nat where "BUCKETS = 16"

fun count_distinct :: "sql_value list \<Rightarrow> u64" where
  "count_distinct [] = 0"
| "count_distinct [v] = 1"
| "count_distinct (v # w # vs) = (if value_same v w then 0 else 1) + count_distinct (w # vs)"

function equi_depth_from :: "nat \<Rightarrow> sql_value list \<Rightarrow> histogram_bucket list" where
  "equi_depth_from per_bucket vs =
     (if vs = [] \<or> per_bucket = 0 then []
      else
        let b = take per_bucket vs in
        \<lparr>bucket_lower = hd b, bucket_upper = last b, bucket_count = of_nat (length b)\<rparr> # equi_depth_from per_bucket (drop per_bucket vs))"
  by pat_completeness auto
termination
  by (relation "measure (\<lambda>(n, vs). length vs)") auto

declare equi_depth_from.simps [simp del]

definition build_equi_depth :: "sql_value list \<Rightarrow> nat \<Rightarrow> histogram_bucket list" where
  "build_equi_depth vs buckets =
     (if vs = [] then [] else equi_depth_from ((length vs + buckets - 1) div buckets) vs)"

definition column_statistics :: "nat \<Rightarrow> sql_value list \<Rightarrow> column_stats" where
  "column_statistics n vs =
     (let non_null = sort_key encode_index_value (filter (\<lambda>v. v \<noteq> VNull) vs) in
      \<lparr>n_distinct = count_distinct non_null, null_count = of_nat (length (filter (\<lambda>v. v = VNull) vs)),
       total_rows = of_nat n, histogram = build_equi_depth non_null BUCKETS\<rparr>)"

definition analyze_table :: "nat \<Rightarrow> u32 \<Rightarrow> bytes \<Rightarrow> (pager, unit) op" where
  "analyze_table fuel catalog table =
     sbind (require_table fuel catalog table) (\<lambda>sch.
     sbind (bt_scan fuel pager_ops (sch_root sch)) (\<lambda>es.
     sbind (slift (rmap (\<lambda>e. decode_row (snd e) (length (sch_columns sch))) es)) (\<lambda>rs.
     let columns = map (\<lambda>i. (sch_columns sch ! i)\<lparr>col_stats := Some (column_statistics (length rs) (map (\<lambda>r. row_values r ! i) rs))\<rparr>)
           [0..<length (sch_columns sch)] in
     sbind (catalog_put fuel pager_ops catalog (sch\<lparr>sch_columns := columns, mutations_since_analyze := 0\<rparr>)) (\<lambda>_. bump))))"

section \<open>The populated index\<close>

lemma trees_insert_absent:
  assumes "represents p V (r + room T root)" "trees V T" "T root \<noteq> None" "ANY_TREE \<le> fuel" "key_fits key"
  shows "\<exists>b p' V' x. insert_if_absent fuel pager_ops root key [] p = (Inr b, p') \<and> represents p' V' r \<and> trees V' (T(root \<mapsto> x)) \<and>
    fst ` set (entries_of (T(root \<mapsto> x)) root) = insert key (fst ` set (entries_of T root)) \<and> room (T(root \<mapsto> x)) root \<le> Suc (room T root)"
proof -
  have f: "fuel_ok fuel T root" by (rule fuel_any [OF assms(2-4)])
  obtain h t where T: "T root = Some (h, t)" "cost h t < fuel" using f by (auto simp: fuel_ok_def split: option.splits)
  have t: "bt_wf V h None None 0 t" "root_no t = root" using assms(2) T(1) by (auto simp: trees_def tree_at_def)
  obtain p1 where p1: "bt_search fuel pager_ops root key p = (Inr (map_of (entries_of T root) key), p1)" "represents p1 V (r + room T root)"
    using pager_store.search_from_spec [OF assms(1) t(1), of fuel fuel key] cost_bounds [OF T(2)] t(2) T(1)
    by (auto simp: bt_search_def entries_of_def)
  show ?thesis
  proof (cases "map_of (entries_of T root) key")
    case None
    have "represents p1 V (r + room T root + length (chunks []))" using p1(2) by simp
    from trees_insert [OF this assms(2) f assms(5)] obtain p' V' x where
      "bt_insert fuel pager_ops root key [] p1 = (Inr (), p')" "represents p' V' r" "trees V' (T(root \<mapsto> x))"
      "entries_of (T(root \<mapsto> x)) root = set_key key [] (entries_of T root)" "room (T(root \<mapsto> x)) root \<le> Suc (room T root)" by blast
    then show ?thesis using p1(1) None keys_set_key [of key "[]" "entries_of T root"]
      by (intro exI [of _ True] exI [of _ p'] exI [of _ V'] exI [of _ x]) (simp add: insert_if_absent_def sbind_def)
  next
    case (Some v)
    then have "key \<in> fst ` set (entries_of T root)" by (metis map_of_SomeD fst_conv imageI)
    moreover have "T(root \<mapsto> (h, t)) = T" using T(1) by auto
    ultimately show ?thesis using p1 Some assms(2) pager_store.room_law [OF p1(2), of r]
      by (intro exI [of _ False] exI [of _ p1] exI [of _ V] exI [of _ "(h, t)"]) (simp add: insert_if_absent_def sbind_def insert_absorb)
  qed
qed

definition row_key :: "nat \<Rightarrow> nat list \<Rightarrow> bytes \<times> bytes \<Rightarrow> bytes" where
  "row_key n cols e = tuple_key (row_values (projr (decode_row (snd e) n))) cols @ fst e"

definition indexable :: "nat \<Rightarrow> nat list \<Rightarrow> bytes \<times> bytes \<Rightarrow> bool" where
  "indexable n cols e \<longleftrightarrow> length (fst e) = 8 \<and> (\<exists>r. decode_row (snd e) n = Inr r \<and> list_all (\<lambda>c. c < length (row_values r)) cols) \<and>
     key_fits (row_key n cols e)"

lemma populate_one_spec:
  assumes "represents p V (r + room T root)" "trees V T" "T root \<noteq> None" "ANY_TREE \<le> fuel" "indexable n cols e"
  shows "\<exists>p' V' x. populate_one fuel n cols root e p = (Inr (), p') \<and> represents p' V' r \<and> trees V' (T(root \<mapsto> x)) \<and>
    fst ` set (entries_of (T(root \<mapsto> x)) root) = insert (row_key n cols e) (fst ` set (entries_of T root)) \<and>
    room (T(root \<mapsto> x)) root \<le> Suc (room T root)"
proof -
  obtain rec where rec: "decode_row (snd e) n = Inr rec" "list_all (\<lambda>c. c < length (row_values rec)) cols" "key_fits (row_key n cols e)"
    using assms(5) by (auto simp: indexable_def)
  have k: "encode_index_key (row_values rec) cols (fst e) = Inr (row_key n cols e)"
    using encode_index_key_eq [OF rec(2)] rec(1) by (simp add: row_key_def)
  from trees_insert_absent [OF assms(1-4) rec(3)] obtain b p' V' x where
    i: "insert_if_absent fuel pager_ops root (row_key n cols e) [] p = (Inr b, p')" "represents p' V' r" "trees V' (T(root \<mapsto> x))"
    "fst ` set (entries_of (T(root \<mapsto> x)) root) = insert (row_key n cols e) (fst ` set (entries_of T root))"
    "room (T(root \<mapsto> x)) root \<le> Suc (room T root)" by blast
  have "populate_one fuel n cols root e p = (Inr (), p')" using rec(1) k i(1) by (simp add: populate_one_def sbind_Inr)
  with i(2-5) show ?thesis by blast
qed

lemma populate_spec:
  assumes "represents p V (r + length es * (k + length es))" "room T root \<le> k" "trees V T" "T root \<noteq> None" "ANY_TREE \<le> fuel"
    and "\<forall>e \<in> set es. indexable n cols e"
  shows "\<exists>p' V' x. sfor (populate_one fuel n cols root) es p = (Inr (), p') \<and> represents p' V' r \<and> trees V' (T(root \<mapsto> x)) \<and>
    fst ` set (entries_of (T(root \<mapsto> x)) root) = row_key n cols ` set es \<union> fst ` set (entries_of T root)"
  using assms
proof (induction es arbitrary: p V T k)
  case Nil
  then obtain x where "T root = Some x" by blast
  then have "T(root \<mapsto> x) = T" by auto
  with Nil show ?case by (intro exI [of _ p] exI [of _ V] exI [of _ x]) simp
next
  case (Cons e es)
  let ?m = "length es" and ?r = "r + length es * (Suc k + length es)"
  have "?r + room T root \<le> r + length (e # es) * (k + length (e # es))" using Cons.prems(2) by (simp add: add_mult_distrib)
  then have "represents p V (?r + room T root)" using pager_store.room_law [OF Cons.prems(1)] by blast
  moreover have "indexable n cols e" using Cons.prems(6) by simp
  ultimately obtain p1 V1 x where one: "populate_one fuel n cols root e p = (Inr (), p1)" "represents p1 V1 ?r" "trees V1 (T(root \<mapsto> x))"
    "fst ` set (entries_of (T(root \<mapsto> x)) root) = insert (row_key n cols e) (fst ` set (entries_of T root))"
    "room (T(root \<mapsto> x)) root \<le> Suc (room T root)"
    using populate_one_spec [OF _ Cons.prems(3-5)] by blast
  have "room (T(root \<mapsto> x)) root \<le> Suc k" using one(5) Cons.prems(2) by simp
  moreover have "(T(root \<mapsto> x)) root \<noteq> None" "\<forall>e \<in> set es. indexable n cols e" using Cons.prems(6) by simp_all
  ultimately obtain p' V' y where "sfor (populate_one fuel n cols root) es p1 = (Inr (), p')" "represents p' V' r"
    "trees V' (T(root \<mapsto> x, root \<mapsto> y))" "fst ` set (entries_of (T(root \<mapsto> x, root \<mapsto> y)) root)
      = row_key n cols ` set es \<union> fst ` set (entries_of (T(root \<mapsto> x)) root)"
    using Cons.IH [OF one(2) _ one(3) _ Cons.prems(5)] by blast
  with one(1,4) show ?case by (intro exI [of _ p'] exI [of _ V'] exI [of _ y]) (simp add: sbind_Inr del: fun_upd_apply)
qed

section \<open>Histograms\<close>

lemma equi_depth_step:
  "vs \<noteq> [] \<Longrightarrow> 0 < per \<Longrightarrow> equi_depth_from per vs =
    \<lparr>bucket_lower = hd (take per vs), bucket_upper = last (take per vs), bucket_count = of_nat (length (take per vs))\<rparr>
      # equi_depth_from per (drop per vs)"
  "equi_depth_from per [] = []"
  by (simp_all add: equi_depth_from.simps [of per] Let_def)

lemma ends_bound:
  fixes f :: "'a \<Rightarrow> bytes"
  assumes "sorted (map f vs)" "v \<in> set vs"
  shows "f (hd vs) \<le> f v \<and> f v \<le> f (last vs)"
proof -
  obtain i where i: "i < length vs" "vs ! i = v" using assms(2) by (auto simp: in_set_conv_nth)
  then have "vs \<noteq> []" by auto
  with i show ?thesis
    using sorted_nth_mono [OF assms(1), of 0 i] sorted_nth_mono [OF assms(1), of i "length vs - 1"]
    by (simp add: hd_conv_nth last_conv_nth)
qed

definition covers :: "sql_value list \<Rightarrow> histogram_bucket list \<Rightarrow> bool" where
  "covers vs hs \<longleftrightarrow> sum_list (map (\<lambda>b. unat (bucket_count b)) hs) = length vs \<and>
     (\<forall>b \<in> set hs. bucket_lower b \<in> set vs \<and> bucket_upper b \<in> set vs) \<and>
     (\<forall>v \<in> set vs. \<exists>b \<in> set hs. encode_index_value (bucket_lower b) \<le> encode_index_value v \<and> encode_index_value v \<le> encode_index_value (bucket_upper b))"

lemma equi_depth_covers:
  assumes "0 < per" "sorted (map encode_index_value vs)" "length vs < 2 ^ 64"
  shows "covers vs (equi_depth_from per vs) \<and> length (equi_depth_from per vs) * per < length vs + per"
  using assms
proof (induction "length vs" arbitrary: vs rule: less_induct)
  case less
  show ?case
  proof (cases "vs = []")
    case True
    then show ?thesis using less.prems(1) by (simp add: equi_depth_step(2) covers_def)
  next
    case False
    let ?b = "take per vs" and ?rest = "drop per vs"
    have l: "length ?rest < length vs" using False less.prems(1) by (cases vs) auto
    have split: "map encode_index_value vs = map encode_index_value ?b @ map encode_index_value ?rest" by (simp flip: map_append)
    then have "sorted (map encode_index_value ?b)" "sorted (map encode_index_value ?rest)"
      using less.prems(2) sorted_append by metis+
    moreover have "length ?rest < 2 ^ 64" using l less.prems(3) by linarith
    ultimately have ih: "covers ?rest (equi_depth_from per ?rest)" "length (equi_depth_from per ?rest) * per < length ?rest + per"
      and b: "sorted (map encode_index_value ?b)" using less.hyps [OF l less.prems(1)] by blast+
    have ne: "?b \<noteq> []" using False less.prems(1) by simp
    have n: "unat (of_nat (length ?b) :: u64) = length ?b" using less.prems(3) by (simp add: unat_of_nat)
    have set: "set vs = set ?b \<union> set ?rest" by (metis append_take_drop_id set_append)
    have "covers vs (equi_depth_from per vs)"
      unfolding equi_depth_step(1) [OF False less.prems(1)] covers_def
    proof (intro conjI)
      show "sum_list (map (\<lambda>b. unat (bucket_count b)) (\<lparr>bucket_lower = hd ?b, bucket_upper = last ?b, bucket_count = of_nat (length ?b)\<rparr>
          # equi_depth_from per ?rest)) = length vs"
        using ih(1) n by (simp add: covers_def)
      show "\<forall>v \<in> set vs. \<exists>b \<in> set (\<lparr>bucket_lower = hd ?b, bucket_upper = last ?b, bucket_count = of_nat (length ?b)\<rparr> # equi_depth_from per ?rest).
          encode_index_value (bucket_lower b) \<le> encode_index_value v \<and> encode_index_value v \<le> encode_index_value (bucket_upper b)"
        using ih(1) ends_bound [OF b] unfolding set covers_def by auto
      show "\<forall>c \<in> set (\<lparr>bucket_lower = hd ?b, bucket_upper = last ?b, bucket_count = of_nat (length ?b)\<rparr> # equi_depth_from per ?rest).
          bucket_lower c \<in> set vs \<and> bucket_upper c \<in> set vs"
        using ih(1) ne hd_in_set [OF ne] last_in_set [OF ne] unfolding set covers_def by auto
    qed
    moreover have "length (equi_depth_from per vs) * per < length vs + per"
      using ih(2) less.prems(1) False l unfolding equi_depth_step(1) [OF False less.prems(1)]
      by (cases "length vs \<le> per") (auto simp: equi_depth_step(2) Suc_le_eq)
    ultimately show ?thesis by blast
  qed
qed

lemma build_equi_depth_covers:
  assumes "sorted (map encode_index_value vs)" "length vs < 2 ^ 64" "0 < buckets"
  shows "covers vs (build_equi_depth vs buckets) \<and> length (build_equi_depth vs buckets) \<le> buckets"
proof (cases "vs = []")
  case False
  let ?per = "(length vs + buckets - 1) div buckets"
  have "buckets \<le> length vs + buckets - 1" using False by (cases vs) auto
  then have pos: "0 < ?per" using assms(3) by (simp add: div_greater_zero_iff)
  have "length vs \<le> ?per * buckets"
    using assms(3) div_mult_mod_eq [of "length vs + buckets - 1" buckets] mod_less_divisor [OF assms(3), of "length vs + buckets - 1"] by linarith
  moreover have "length (equi_depth_from ?per vs) * ?per < length vs + ?per" using equi_depth_covers [OF pos assms(1,2)] by blast
  ultimately have "length (equi_depth_from ?per vs) * ?per < Suc buckets * ?per" by (simp add: mult.commute)
  then have "length (equi_depth_from ?per vs) \<le> buckets" unfolding mult_less_cancel2 by simp
  then show ?thesis using equi_depth_covers [OF pos assms(1,2)] False by (simp add: build_equi_depth_def)
qed (simp add: build_equi_depth_def covers_def)

section \<open>Distinct values\<close>

lemma encode_index_value_lt: "encode_index_value a < encode_index_value b \<longleftrightarrow> a < b"
proof -
  have "a < b \<Longrightarrow> encode_index_value a < encode_index_value b" for a b
    using encode_index_value_less [of a b "[]" "[]"] by simp
  then show ?thesis by (cases a b rule: linorder_cases) (auto dest: order.strict_trans)
qed

lemma encode_index_value_le: "encode_index_value a \<le> encode_index_value b \<longleftrightarrow> a \<le> b"
  by (simp add: encode_index_value_lt flip: not_less)

lemma sorted_by_key: "sorted (map encode_index_value vs) \<longleftrightarrow> sorted vs"
  by (simp add: sorted_wrt_map sorted_map encode_index_value_le)

lemma count_distinct_sorted:
  assumes "\<forall>r. VReal r \<notin> set vs" "sorted vs" "length vs < 2 ^ 64"
  shows "unat (count_distinct vs) = card (set vs)"
  using assms
proof (induction vs rule: count_distinct.induct)
  case (3 v w vs)
  have s: "value_same v w \<longleftrightarrow> v = w" using "3.prems"(1) by (cases v; cases w) auto
  have ih: "unat (count_distinct (w # vs)) = card (set (w # vs))" using 3 by simp
  show ?case
  proof (cases "v = w")
    case True
    then show ?thesis using ih s by simp
  next
    case False
    then have "v \<notin> set (w # vs)" using "3.prems"(2) by fastforce
    moreover have "card (set (w # vs)) \<le> length (w # vs)" by (rule card_length)
    then have "card (set (w # vs)) + 1 < 2 ^ 64" using "3.prems"(3) by simp
    then have "unat (1 + count_distinct (w # vs)) = Suc (card (set (w # vs)))"
      using ih by (simp add: unat_word_ariths)
    ultimately show ?thesis using s False by simp
  qed
qed simp_all

section \<open>Properties\<close>

lemma scan_trees:
  assumes "represents p V r" "trees V T" "T root \<noteq> None" "ANY_TREE \<le> fuel"
  shows "\<exists>p'. bt_scan fuel pager_ops root p = (Inr (entries_of T root), p') \<and> represents p' V r"
proof -
  have f: "fuel_ok fuel T root" by (rule fuel_any [OF assms(2-4)])
  obtain h t where T: "T root = Some (h, t)" "cost h t < fuel" using f by (auto simp: fuel_ok_def split: option.splits)
  then have "tree_at V root h t" using assms(2) by (auto simp: trees_def)
  then show ?thesis using pager_store.scan_spec [OF assms(1), of h t fuel None None] T cost_bounds [OF T(2)]
    by (auto simp: bt_scan_def tree_at_def cost_def above_def below_def entries_of_def)
qed

text \<open>C19: The populate phase of CREATE INDEX builds a complete index. It reads every version of the table, dead
  ones included, and when it ends the index holds exactly one key per stored version, also when writers have
  put some of those keys there before it got to them. No other tree changes. From here on the index satisfies
  the invariant that index scans and writes rely on.\<close>

theorem built_index_is_complete:
  assumes "represents p V (r + length (entries_of T table_root) * (room T index_root + length (entries_of T table_root)))"
    and "trees V T" "T table_root \<noteq> None" "T index_root \<noteq> None" "table_root \<noteq> index_root" "ANY_TREE \<le> fuel"
    and "\<forall>e \<in> set (entries_of T table_root). indexable n cols e"
    and "fst ` set (entries_of T index_root) \<subseteq> row_key n cols ` set (entries_of T table_root)"
  shows "\<exists>p' V' T'. create_index_phase2_populate fuel table_root n cols index_root p = (Inr (), p') \<and> represents p' V' r \<and> trees V' T' \<and>
    indexes n cols (entries_of T' table_root) (entries_of T' index_root) \<and> (\<forall>root. root \<noteq> index_root \<longrightarrow> T' root = T root)"
proof -
  let ?es = "entries_of T table_root"
  obtain p1 where p1: "bt_scan fuel pager_ops table_root p = (Inr ?es, p1)"
    "represents p1 V (r + length ?es * (room T index_root + length ?es))"
    using scan_trees [OF assms(1-3,6)] by blast
  obtain p' V' x where built: "sfor (populate_one fuel n cols index_root) ?es p1 = (Inr (), p')" "represents p' V' r"
    "trees V' (T(index_root \<mapsto> x))"
    "fst ` set (entries_of (T(index_root \<mapsto> x)) index_root) = row_key n cols ` set ?es \<union> fst ` set (entries_of T index_root)"
    using populate_spec [OF p1(2) order_refl assms(2,4,6,7)] by blast
  have table: "entries_of (T(index_root \<mapsto> x)) table_root = ?es" using assms(5) by (simp add: entries_of_def)
  have "fst ` set (entries_of (T(index_root \<mapsto> x)) index_root) = row_key n cols ` set ?es" using built(4) assms(8) by blast
  then have "indexes n cols (entries_of (T(index_root \<mapsto> x)) table_root) (entries_of (T(index_root \<mapsto> x)) index_root)"
    using assms(7) unfolding table indexes_def by (auto simp: indexable_def row_key_def image_iff split_beta)
  then show ?thesis using built p1(1)
    by (intro exI [of _ p'] exI [of _ V'] exI [of _ "T(index_root \<mapsto> x)"]) (simp add: create_index_phase2_populate_def sbind_Inr)
qed

text \<open>C35: ANALYZE counts exactly. For a column without REAL values, the distinct count is the number of
  different non-NULL values and the NULL count the number of NULLs; the histogram has at most sixteen buckets,
  their counts add up to the number of non-NULL values, their ends are values of the column, and every value
  of the column lies between the ends of a bucket.\<close>

theorem statistics_exact:
  assumes "\<forall>r. VReal r \<notin> set vs" "length vs < 2 ^ 64"
  shows "let s = column_statistics (length vs) vs; present = filter (\<lambda>v. v \<noteq> VNull) vs in
    unat (n_distinct s) = card (set present) \<and> unat (null_count s) + length present = length vs \<and> unat (total_rows s) = length vs \<and>
    length (histogram s) \<le> BUCKETS \<and> sum_list (map (\<lambda>b. unat (bucket_count b)) (histogram s)) = length present \<and>
    (\<forall>b \<in> set (histogram s). bucket_lower b \<in> set present \<and> bucket_upper b \<in> set present) \<and>
    (\<forall>v \<in> set present. \<exists>b \<in> set (histogram s). bucket_lower b \<le> v \<and> v \<le> bucket_upper b)"
proof -
  let ?present = "filter (\<lambda>v. v \<noteq> VNull) vs" let ?s = "sort_key encode_index_value ?present"
  have sorted: "sorted (map encode_index_value ?s)" by simp
  have len: "length (filter P vs) < 2 ^ 64" for P using assms(2) length_filter_le [of P vs] by linarith
  then have covers: "covers ?s (build_equi_depth ?s BUCKETS)" "length (build_equi_depth ?s BUCKETS) \<le> BUCKETS"
    using build_equi_depth_covers [OF sorted, of BUCKETS] by (simp_all add: BUCKETS_def)
  have "unat (count_distinct ?s) = card (set ?present)"
    using count_distinct_sorted [of ?s] assms(1) sorted len unfolding sorted_by_key by simp
  moreover have "length (filter (\<lambda>v. v = VNull) vs) + length ?present = length vs"
    using sum_length_filter_compl [of "\<lambda>v. v = VNull" vs] by simp
  ultimately show ?thesis using covers len assms(2)
    by (simp add: column_statistics_def covers_def unat_of_nat encode_index_value_le Let_def)
qed

theorem statistics_exact_witness:
  "unat (n_distinct (column_statistics 4 [VInt 7, VNull, VInt 3, VInt 7])) = 2 \<and>
   unat (null_count (column_statistics 4 [VInt 7, VNull, VInt 3, VInt 7])) = 1 \<and>
   (\<exists>b \<in> set (histogram (column_statistics 4 [VInt 7, VNull, VInt 3, VInt 7])). bucket_lower b \<le> VInt 3 \<and> VInt 3 \<le> bucket_upper b)"
proof -
  have n: "length [VInt 7, VNull, VInt 3, VInt 7] = 4" "card {VInt 7, VInt 3, VInt 7} = 2" by (simp_all add: card_insert_if)
  have "\<forall>r. VReal r \<notin> set [VInt 7, VNull, VInt 3, VInt 7]" "length [VInt 7, VNull, VInt 3, VInt 7] < 2 ^ 64" by simp_all
  from statistics_exact [OF this, unfolded n(1)] n(2) show ?thesis by (simp add: Let_def)
qed

theorem built_index_is_complete_witness:
  "\<exists>p root i_root p' T'. create_index_phase2_populate ANY_TREE root 1 [0] i_root p = (Inr (), p') \<and> T' root \<noteq> None \<and>
     indexes 1 [0] (entries_of T' root) (entries_of T' i_root) \<and> entries_of T' root = [(rowid_key 1, encode_row 0 0 [VInt 5])]"
proof -
  let ?es = "[(rowid_key 1, Inline (encode_row 0 0 [VInt 5]))]"
  obtain p V root i_root where p: "root \<noteq> i_root" "represents p V 7" "trees V (beside root i_root ?es [])"
    using sample_trees [of ?es "[]"] by (auto simp: rowid_key_def encode_row_def)
  let ?T = "beside root i_root ?es []"
  have T: "entries_of ?T root = [(rowid_key 1, encode_row 0 0 [VInt 5])]" "entries_of ?T i_root = []"
    "?T root \<noteq> None" "?T i_root \<noteq> None" "room ?T i_root = 2"
    using p(1) by (simp_all add: beside_def entries_of_def room_def)
  have d: "decode_row (encode_row 0 0 [VInt 5]) 1 = Inr \<lparr>tx_min = 0, tx_max = 0, row_values = [VInt 5]\<rparr>"
    using decode_encode_row [of "[VInt 5]" 0 0] by simp
  have "indexable 1 [0] (rowid_key 1, encode_row 0 0 [VInt 5])"
    using d by (simp add: indexable_def row_key_def rowid_key_def key_fits_def page_consts LEAF_CELL_OVERHEAD_def)
  then have all: "\<forall>e \<in> set (entries_of ?T root). indexable 1 [0] e" unfolding T(1) by simp
  have room: "represents p V (4 + length (entries_of ?T root) * (room ?T i_root + length (entries_of ?T root)))"
    using p(2) unfolding T(1,5) by simp
  have "fst ` set (entries_of ?T i_root) \<subseteq> row_key 1 [0] ` set (entries_of ?T root)" unfolding T(2) by simp
  from built_index_is_complete [OF room p(3) T(3,4) p(1) order_refl all this]
  obtain p' T' where r: "create_index_phase2_populate ANY_TREE root 1 [0] i_root p = (Inr (), p')"
    "indexes 1 [0] (entries_of T' root) (entries_of T' i_root)" "\<forall>x. x \<noteq> i_root \<longrightarrow> T' x = ?T x"
    by blast
  have e: "T' root = ?T root" using r(3) p(1) by blast
  then have "entries_of T' root = entries_of ?T root" by (simp add: entries_of_def)
  then show ?thesis using r T(1,3) e by (intro exI [of _ p] exI [of _ root] exI [of _ i_root] exI [of _ p'] exI [of _ T']) simp
qed

end
