(* ===== verification/Vacuum.thy ===== *)
theory Vacuum
  imports Ddl
begin

text \<open>
  \<^verbatim>\<open>vacuum\<close> of \<^verbatim>\<open>engine/database.rs\<close>: every table is copied, without its dead versions, into a second database
  file, whose image then replaces the first in one commit. The state is the pair of the two pagers, the source
  and the copy. The properties say what the copy holds, and what becomes of versions an open snapshot shows.
\<close>

section \<open>The copy\<close>

definition at_source :: "('s, 'a) op \<Rightarrow> ('s \<times> 't, 'a) op" where
  "at_source f st = (case f (fst st) of (r, s) \<Rightarrow> (r, (s, snd st)))"

definition at_copy :: "('t, 'a) op \<Rightarrow> ('s \<times> 't, 'a) op" where
  "at_copy f st = (case f (snd st) of (r, d) \<Rightarrow> (r, (fst st, d)))"

definition vacuum_keeps :: "'c clog_scheme \<Rightarrow> row_record \<Rightarrow> bool" where
  "vacuum_keeps c r \<longleftrightarrow>
     \<not> (tx_min r \<noteq> 0 \<and> tx_status c (tx_min r) = Some RolledBack) \<and> \<not> (tx_max r \<noteq> 0 \<and> tx_status c (tx_max r) = Some Committed)"

text \<open>The rows of a table; the result is the rowid keys of the rows that were kept.\<close>

fun copy_rows :: "nat \<Rightarrow> 'c clog_scheme \<Rightarrow> nat \<Rightarrow> u32 \<Rightarrow> (bytes \<times> bytes) list \<Rightarrow> (pager, bytes list) op" where
  "copy_rows fuel c n root [] = sret []"
| "copy_rows fuel c n root ((key, encoded) # es) =
     sbind (slift (decode_row encoded n)) (\<lambda>r.
     if vacuum_keeps c r then
       sbind (bt_insert fuel pager_ops root key encoded) (\<lambda>_. sbind (copy_rows fuel c n root es) (\<lambda>kept. sret (key # kept)))
     else copy_rows fuel c n root es)"

fun copy_index :: "nat \<Rightarrow> bytes list \<Rightarrow> u32 \<Rightarrow> (bytes \<times> bytes) list \<Rightarrow> (pager, unit) op" where
  "copy_index fuel kept root [] = sret ()"
| "copy_index fuel kept root ((key, _) # es) =
     (if length key < 8 then copy_index fuel kept root es
      else if drop (length key - 8) key \<in> set kept then
        sbind (bt_insert fuel pager_ops root key []) (\<lambda>_. copy_index fuel kept root es)
      else copy_index fuel kept root es)"

fun rebuild_indexes :: "nat \<Rightarrow> bytes list \<Rightarrow> index_def list \<Rightarrow> (pager \<times> pager, index_def list) op" where
  "rebuild_indexes fuel kept [] = sret []"
| "rebuild_indexes fuel kept (i # is) =
     sbind (at_copy (bt_create pager_ops)) (\<lambda>root.
     sbind (at_source (bt_scan fuel pager_ops (idx_root i))) (\<lambda>es.
     sbind (at_copy (copy_index fuel kept root es)) (\<lambda>_.
     sbind (rebuild_indexes fuel kept is) (\<lambda>rebuilt.
     sret (i\<lparr>idx_root := root, is_building := False\<rparr> # rebuilt)))))"

definition vacuum_table :: "nat \<Rightarrow> 'c clog_scheme \<Rightarrow> u32 \<Rightarrow> u32 \<Rightarrow> bytes \<Rightarrow> (pager \<times> pager, unit) op" where
  "vacuum_table fuel c catalog dest_catalog name =
     sbind (at_source (catalog_get fuel pager_ops catalog name)) (\<lambda>sch.
     sbind (slift (ok_or sch Corruption)) (\<lambda>sch.
     sbind (at_copy (bt_create pager_ops)) (\<lambda>root.
     sbind (at_source (bt_scan fuel pager_ops (sch_root sch))) (\<lambda>es.
     sbind (at_copy (copy_rows fuel c (length (sch_columns sch)) root es)) (\<lambda>kept.
     sbind (rebuild_indexes fuel kept (sch_indexes sch)) (\<lambda>is.
     at_copy (catalog_put fuel pager_ops dest_catalog (sch\<lparr>sch_root := root, sch_indexes := is\<rparr>))))))))"

definition build_copy :: "nat \<Rightarrow> 'c clog_scheme \<Rightarrow> u32 \<Rightarrow> (pager \<times> pager, unit) op" where
  "build_copy fuel c catalog =
     sbind (at_copy catalog_open) (\<lambda>dest_catalog.
     sbind (at_source (table_names fuel pager_ops catalog)) (\<lambda>names.
     sbind (sfor (vacuum_table fuel c catalog dest_catalog) names) (\<lambda>_. at_copy commit)))"

text \<open>The scratch file starts empty; \<open>fs\<close> is what becomes of the I/O on it. The result is the new catalog root.\<close>

definition vacuum :: "nat \<Rightarrow> io_outcome list \<Rightarrow> u32 \<Rightarrow> (write_state, u32) op" where
  "vacuum fuel fs catalog st =
     (case open_with_pool [] [] fs sp_new of
        Inl e \<Rightarrow> (Inl e, st)
      | Inr dest \<Rightarrow>
          (case build_copy fuel (tx_clog (ws_tx st)) catalog (ws_pager st, dest) of
             (Inl e, (p, _)) \<Rightarrow> (Inl e, st\<lparr>ws_pager := p\<rparr>)
           | (Inr _, (p, dest)) \<Rightarrow>
               on_pager (sbind (replace_with (db_file dest)) (\<lambda>_. sbind catalog_open (\<lambda>root. sbind bump (\<lambda>_. sret root))))
                 (st\<lparr>ws_pager := p\<rparr>)))"

section \<open>Rows\<close>

definition kept_rows :: "'c clog_scheme \<Rightarrow> nat \<Rightarrow> (bytes \<times> bytes) list \<Rightarrow> (bytes \<times> bytes) list" where
  "kept_rows c n es = filter (\<lambda>e. vacuum_keeps c (projr (decode_row (snd e) n))) es"

definition needed :: "(bytes \<times> bytes) list \<Rightarrow> nat" where
  "needed es = sum_list (map (\<lambda>e. length (chunks (snd e))) es)"

lemma copy_rows_spec:
  assumes "represents p V (r + needed es + length es * (k + length es))" "room T root \<le> k" "trees V T" "T root \<noteq> None" "ANY_TREE \<le> fuel"
    and "\<forall>e \<in> set es. key_fits (fst e) \<and> (\<exists>r. decode_row (snd e) n = Inr r)"
    and "distinct (map fst es)" "fst ` set es \<inter> fst ` set (entries_of T root) = {}"
  shows "\<exists>p' V' x. copy_rows fuel c n root es p = (Inr (map fst (kept_rows c n es)), p') \<and> represents p' V' r \<and> trees V' (T(root \<mapsto> x)) \<and>
    set (entries_of (T(root \<mapsto> x)) root) = set (kept_rows c n es) \<union> set (entries_of T root) \<and> room (T(root \<mapsto> x)) root \<le> k + length es"
  using assms
proof (induction es arbitrary: p V T k)
  case Nil
  then obtain x where "T root = Some x" by blast
  then have "T(root \<mapsto> x) = T" by auto
  with Nil show ?case by (intro exI [of _ p] exI [of _ V] exI [of _ x]) (simp add: kept_rows_def needed_def)
next
  case (Cons e es)
  obtain key encoded where e: "e = (key, encoded)" by (cases e)
  let ?m = "length es" and ?r = "r + needed es + length es * (Suc k + length es)"
  obtain rec where rec: "decode_row encoded n = Inr rec" using Cons.prems(6) e by auto
  have rest: "\<forall>e \<in> set es. key_fits (fst e) \<and> (\<exists>r. decode_row (snd e) n = Inr r)" "distinct (map fst es)" using Cons.prems(6,7) by simp_all
  show ?case
  proof (cases "vacuum_keeps c rec")
    case False
    have "r + needed es + length es * (k + length es) \<le> r + needed (e # es) + length (e # es) * (k + length (e # es))"
      by (simp add: needed_def add_mult_distrib)
    then have "represents p V (r + needed es + length es * (k + length es))" using pager_store.room_law [OF Cons.prems(1)] by blast
    moreover have "fst ` set es \<inter> fst ` set (entries_of T root) = {}" using Cons.prems(8) by auto
    ultimately obtain p' V' x where
      "copy_rows fuel c n root es p = (Inr (map fst (kept_rows c n es)), p')" "represents p' V' r" "trees V' (T(root \<mapsto> x))"
      "set (entries_of (T(root \<mapsto> x)) root) = set (kept_rows c n es) \<union> set (entries_of T root)" "room (T(root \<mapsto> x)) root \<le> k + length es"
      using Cons.IH [OF _ Cons.prems(2-5) rest] by blast
    then show ?thesis using rec False e by (intro exI [of _ p'] exI [of _ V'] exI [of _ x]) (simp add: kept_rows_def del: fun_upd_apply)
  next
    case True
    have "?r + room T root + length (chunks encoded) \<le> r + needed (e # es) + length (e # es) * (k + length (e # es))"
      using Cons.prems(2) e by (simp add: needed_def add_mult_distrib)
    then have "represents p V (?r + room T root + length (chunks encoded))" using pager_store.room_law [OF Cons.prems(1)] by blast
    moreover have "key_fits key" using Cons.prems(6) e by simp
    ultimately obtain p1 V1 x where one: "bt_insert fuel pager_ops root key encoded p = (Inr (), p1)" "represents p1 V1 ?r" "trees V1 (T(root \<mapsto> x))"
      "entries_of (T(root \<mapsto> x)) root = set_key key encoded (entries_of T root)" "room (T(root \<mapsto> x)) root \<le> Suc (room T root)"
      using trees_insert [OF _ Cons.prems(3) fuel_any [OF Cons.prems(3-5)]] by blast
    have new: "key \<notin> fst ` set (entries_of T root)" "key \<notin> fst ` set es" using Cons.prems(7,8) e by auto
    have s: "set (entries_of (T(root \<mapsto> x)) root) = insert (key, encoded) (set (entries_of T root))"
      unfolding one(4) set_set_key using new(1) by (auto simp: image_iff)
    then have d: "fst ` set es \<inter> fst ` set (entries_of (T(root \<mapsto> x)) root) = {}" using Cons.prems(8) new(2) e by auto
    have k: "room (T(root \<mapsto> x)) root \<le> Suc k" "(T(root \<mapsto> x)) root \<noteq> None" using one(5) Cons.prems(2) by simp_all
    obtain p' V' y where "copy_rows fuel c n root es p1 = (Inr (map fst (kept_rows c n es)), p')" "represents p' V' r"
      "trees V' (T(root \<mapsto> x, root \<mapsto> y))"
      "set (entries_of (T(root \<mapsto> x, root \<mapsto> y)) root) = set (kept_rows c n es) \<union> set (entries_of (T(root \<mapsto> x)) root)"
      "room (T(root \<mapsto> x, root \<mapsto> y)) root \<le> Suc k + length es"
      using Cons.IH [OF one(2) k(1) one(3) k(2) Cons.prems(5) rest d] by blast
    moreover have "kept_rows c n (e # es) = e # kept_rows c n es" using rec True e by (simp add: kept_rows_def)
    ultimately show ?thesis using one(1) rec True e s
      by (intro exI [of _ p'] exI [of _ V'] exI [of _ y]) (simp add: sbind_Inr insert_commute del: fun_upd_apply)
  qed
qed

section \<open>Index entries\<close>

definition kept_entry :: "bytes list \<Rightarrow> bytes \<Rightarrow> bool" where
  "kept_entry kept key \<longleftrightarrow> 8 \<le> length key \<and> drop (length key - 8) key \<in> set kept"

lemma copy_index_Cons:
  "copy_index fuel kept root ((key, v) # es) =
     (if kept_entry kept key then sbind (bt_insert fuel pager_ops root key []) (\<lambda>_. copy_index fuel kept root es) else copy_index fuel kept root es)"
  by (auto simp: kept_entry_def)

lemma copy_index_spec:
  assumes "represents p V (r + length es * (k + length es))" "room T root \<le> k" "trees V T" "T root \<noteq> None" "ANY_TREE \<le> fuel"
    and "\<forall>e \<in> set es. key_fits (fst e)"
  shows "\<exists>p' V' x. copy_index fuel kept root es p = (Inr (), p') \<and> represents p' V' r \<and> trees V' (T(root \<mapsto> x)) \<and>
    fst ` set (entries_of (T(root \<mapsto> x)) root) = {key \<in> fst ` set es. kept_entry kept key} \<union> fst ` set (entries_of T root)"
  using assms
proof (induction es arbitrary: p V T k)
  case Nil
  then obtain x where "T root = Some x" by blast
  then have "T(root \<mapsto> x) = T" by auto
  with Nil show ?case by (intro exI [of _ p] exI [of _ V] exI [of _ x]) simp
next
  case (Cons e es)
  obtain key v where e: "e = (key, v)" by (cases e)
  have rest: "\<forall>e \<in> set es. key_fits (fst e)" using Cons.prems(6) by simp
  show ?case
  proof (cases "kept_entry kept key")
    case False
    have "r + length es * (k + length es) \<le> r + length (e # es) * (k + length (e # es))" by (simp add: add_mult_distrib)
    then have "represents p V (r + length es * (k + length es))" using pager_store.room_law [OF Cons.prems(1)] by blast
    then obtain p' V' x where "copy_index fuel kept root es p = (Inr (), p')" "represents p' V' r" "trees V' (T(root \<mapsto> x))"
      "fst ` set (entries_of (T(root \<mapsto> x)) root) = {key \<in> fst ` set es. kept_entry kept key} \<union> fst ` set (entries_of T root)"
      using Cons.IH [OF _ Cons.prems(2-5) rest] by blast
    moreover have "{k \<in> fst ` set (e # es). kept_entry kept k} = {k \<in> fst ` set es. kept_entry kept k}" using False e by auto
    ultimately show ?thesis using False unfolding e copy_index_Cons
      by (intro exI [of _ p'] exI [of _ V'] exI [of _ x]) (simp del: fun_upd_apply)
  next
    case True
    let ?r = "r + length es * (Suc k + length es)"
    have "?r + room T root \<le> r + length (e # es) * (k + length (e # es))" using Cons.prems(2) by (simp add: add_mult_distrib)
    then have "represents p V (?r + room T root + length (chunks []))" using pager_store.room_law [OF Cons.prems(1)] by simp
    moreover have "key_fits key" using Cons.prems(6) e by simp
    ultimately obtain p1 V1 x where one: "bt_insert fuel pager_ops root key [] p = (Inr (), p1)" "represents p1 V1 ?r" "trees V1 (T(root \<mapsto> x))"
      "entries_of (T(root \<mapsto> x)) root = set_key key [] (entries_of T root)" "room (T(root \<mapsto> x)) root \<le> Suc (room T root)"
      using trees_insert [OF _ Cons.prems(3) fuel_any [OF Cons.prems(3-5)]] by blast
    have k: "room (T(root \<mapsto> x)) root \<le> Suc k" "(T(root \<mapsto> x)) root \<noteq> None" using one(5) Cons.prems(2) by simp_all
    obtain p' V' y where "copy_index fuel kept root es p1 = (Inr (), p')" "represents p' V' r" "trees V' (T(root \<mapsto> x, root \<mapsto> y))"
      "fst ` set (entries_of (T(root \<mapsto> x, root \<mapsto> y)) root) = {key \<in> fst ` set es. kept_entry kept key} \<union> fst ` set (entries_of (T(root \<mapsto> x)) root)"
      using Cons.IH [OF one(2) k(1) one(3) k(2) Cons.prems(5) rest] by blast
    moreover have "{k \<in> fst ` set (e # es). kept_entry kept k} = insert key {k \<in> fst ` set es. kept_entry kept k}" using True e by auto
    ultimately show ?thesis using one(1,4) True keys_set_key [of key "[]" "entries_of T root"] unfolding e copy_index_Cons
      by (intro exI [of _ p'] exI [of _ V'] exI [of _ y]) (simp add: sbind_Inr insert_commute del: fun_upd_apply)
  qed
qed

definition row_readable :: "nat \<Rightarrow> nat list \<Rightarrow> bytes \<times> bytes \<Rightarrow> bool" where
  "row_readable n cols e \<longleftrightarrow> length (fst e) = 8 \<and> (\<exists>r. decode_row (snd e) n = Inr r \<and> list_all (\<lambda>c. c < length (row_values r)) cols)"

lemma indexes_iff:
  "indexes n cols es ies \<longleftrightarrow> (\<forall>e \<in> set es. row_readable n cols e) \<and> fst ` set ies = row_key n cols ` set es"
  unfolding indexes_def row_key_def row_readable_def by (simp only: case_prod_unfold)

lemma kept_entries:
  assumes "indexes n cols es ies"
  shows "{key \<in> fst ` set ies. kept_entry (map fst (kept_rows c n es)) key} \<supseteq> row_key n cols ` set (kept_rows c n es)"
    and "distinct (map fst es) \<Longrightarrow>
      {key \<in> fst ` set ies. kept_entry (map fst (kept_rows c n es)) key} \<subseteq> row_key n cols ` set (kept_rows c n es)"
proof -
  have keys: "fst ` set ies = row_key n cols ` set es" and len: "\<forall>e \<in> set es. length (fst e) = 8"
    using assms unfolding indexes_iff row_readable_def by blast+
  have suffix: "8 \<le> length (row_key n cols e) \<and> drop (length (row_key n cols e) - 8) (row_key n cols e) = fst e" if "e \<in> set es" for e
    using len that by (simp add: row_key_def del: map_map)
  have sub: "set (kept_rows c n es) \<subseteq> set es" by (auto simp: kept_rows_def)
  show "row_key n cols ` set (kept_rows c n es) \<subseteq> {key \<in> fst ` set ies. kept_entry (map fst (kept_rows c n es)) key}"
  proof
    fix key
    assume "key \<in> row_key n cols ` set (kept_rows c n es)"
    then obtain e where e: "e \<in> set (kept_rows c n es)" "key = row_key n cols e" by blast
    then have "fst e \<in> set (map fst (kept_rows c n es))" "e \<in> set es" using sub by auto
    then have "kept_entry (map fst (kept_rows c n es)) key" using suffix [of e] e(2) by (simp only: kept_entry_def)
    with e sub show "key \<in> {key \<in> fst ` set ies. kept_entry (map fst (kept_rows c n es)) key}" unfolding keys by blast
  qed
  show "{key \<in> fst ` set ies. kept_entry (map fst (kept_rows c n es)) key} \<subseteq> row_key n cols ` set (kept_rows c n es)"
    if "distinct (map fst es)"
  proof
    fix key
    assume "key \<in> {key \<in> fst ` set ies. kept_entry (map fst (kept_rows c n es)) key}"
    then have k: "key \<in> row_key n cols ` set es" "drop (length key - 8) key \<in> fst ` set (kept_rows c n es)"
      unfolding keys kept_entry_def by simp_all
    then obtain e where e: "e \<in> set es" "key = row_key n cols e" by blast
    then have "fst e \<in> fst ` set (kept_rows c n es)" using k(2) suffix by simp
    then obtain d where d: "d \<in> set (kept_rows c n es)" "fst d = fst e" by auto
    have "inj_on fst (set es)" "d \<in> set es" using that d(1) sub by (auto simp: distinct_map)
    then have "d = e" using inj_onD [of fst "set es" d e] d(2) e(1) by blast
    with e d show "key \<in> row_key n cols ` set (kept_rows c n es)" by blast
  qed
qed

section \<open>Properties\<close>

text \<open>C18: VACUUM copies a table and its indexes. The copied table holds exactly the versions it means to keep, as
  they are stored; the rebuilt index holds exactly one entry for each of them, so that the copy satisfies the
  invariant of index scans and writes whenever the source did.\<close>

theorem vacuum_copies_live_rows:
  assumes "represents p V (r + length ies * (room T i_root + length ies) + needed es + length es * (room T root + length es))"
    and "trees V T" "T root \<noteq> None" "T i_root \<noteq> None" "root \<noteq> i_root" "entries_of T root = []" "entries_of T i_root = []" "ANY_TREE \<le> fuel"
    and "indexes n cols es ies" "distinct (map fst es)" "\<forall>e \<in> set es. key_fits (fst e)" "\<forall>e \<in> set ies. key_fits (fst e)"
  shows "\<exists>p1 p' V' T'. copy_rows fuel c n root es p = (Inr (map fst (kept_rows c n es)), p1) \<and>
    copy_index fuel (map fst (kept_rows c n es)) i_root ies p1 = (Inr (), p') \<and> represents p' V' r \<and> trees V' T' \<and>
    set (entries_of T' root) = set (kept_rows c n es) \<and> indexes n cols (entries_of T' root) (entries_of T' i_root)"
proof -
  have ok: "\<forall>e \<in> set es. key_fits (fst e) \<and> (\<exists>r. decode_row (snd e) n = Inr r)" using assms(9,11) unfolding indexes_iff row_readable_def by blast
  have none: "fst ` set es \<inter> fst ` set (entries_of T root) = {}" using assms(6) by simp
  obtain p1 V1 x where rows: "copy_rows fuel c n root es p = (Inr (map fst (kept_rows c n es)), p1)"
    "represents p1 V1 (r + length ies * (room T i_root + length ies))" "trees V1 (T(root \<mapsto> x))"
    "set (entries_of (T(root \<mapsto> x)) root) = set (kept_rows c n es)"
    using copy_rows_spec [OF assms(1) order_refl assms(2,3,8) ok assms(10) none] assms(6) by (simp del: fun_upd_apply) blast
  let ?T = "T(root \<mapsto> x)"
  have i: "room ?T i_root = room T i_root" "?T i_root \<noteq> None" "entries_of ?T i_root = []"
    using assms(4,5,7) by (simp_all add: room_def entries_of_def)
  have "represents p1 V1 (r + length ies * (room ?T i_root + length ies))" using rows(2) i(1) by simp
  from copy_index_spec [OF this order_refl rows(3) i(2) assms(8,12), of "map fst (kept_rows c n es)"] i(3)
  obtain p' V' y where idx: "copy_index fuel (map fst (kept_rows c n es)) i_root ies p1 = (Inr (), p')" "represents p' V' r"
    "trees V' (?T(i_root \<mapsto> y))"
    "fst ` set (entries_of (?T(i_root \<mapsto> y)) i_root) = {key \<in> fst ` set ies. kept_entry (map fst (kept_rows c n es)) key}"
    by (simp del: fun_upd_apply) blast
  have table: "set (entries_of (?T(i_root \<mapsto> y)) root) = set (kept_rows c n es)" using rows(4) assms(5) by (simp add: entries_of_def)
  have "fst ` set (entries_of (?T(i_root \<mapsto> y)) i_root) = row_key n cols ` set (entries_of (?T(i_root \<mapsto> y)) root)"
    unfolding idx(4) table using kept_entries [OF assms(9), of c] assms(10) by blast
  moreover have "set (kept_rows c n es) \<subseteq> set es" by (auto simp: kept_rows_def)
  ultimately have "indexes n cols (entries_of (?T(i_root \<mapsto> y)) root) (entries_of (?T(i_root \<mapsto> y)) i_root)"
    using assms(9) unfolding indexes_iff table by blast
  with rows(1) idx table show ?thesis by blast
qed

text \<open>VACUUM does not look at snapshots. A version whose deletion has committed is left out of the copy
  even while an open transaction's snapshot shows it, although the reclaimer, which goes by the watermark,
  keeps the same version.\<close>

theorem vacuum_drops_visible_version:
  assumes "tx_inv s" "tx_steps s s'" "visible (tx_clog s) (take_snapshot own s) (tx_min v) (tx_max v)"
    and "tx_max v \<noteq> 0" "is_committed (tx_clog s') (tx_max v)" "x \<in> in_flight s'" "x \<le> tx_max v"
  shows "visible (tx_clog s') (take_snapshot own s) (tx_min v) (tx_max v) \<and> \<not> vacuum_keeps (tx_clog s') v \<and>
    \<not> committed_tombstone (oldest_active_tx_id s') (tx_clog s') v"
proof -
  have "oldest_active_tx_id s' \<le> x" using assms(6) by (auto simp: oldest_active_tx_id_def)
  then have "\<not> tx_max v < oldest_active_tx_id s'" using assms(7) by simp
  moreover have "seen (tx_clog s') (take_snapshot own s) z = seen (tx_clog s) (take_snapshot own s) z" for z
    using seen_stable [OF assms(2,1)] .
  then have "visible (tx_clog s') (take_snapshot own s) (tx_min v) (tx_max v)" using assms(3) by (simp add: visible_iff)
  ultimately show ?thesis using assms(4,5) by (simp add: vacuum_keeps_def is_committed_def committed_tombstone_def)
qed

theorem vacuum_copies_live_rows_witness:
  "\<exists>p p1 p' root i_root T'. copy_rows ANY_TREE (fresh_clog []) 1 root [(rowid_key 1, encode_row 0 0 [VInt 5])] p = (Inr [rowid_key 1], p1) \<and>
     copy_index ANY_TREE [rowid_key 1] i_root [(encode_index_value (VInt 5) @ rowid_key 1, [])] p1 = (Inr (), p') \<and>
     set (entries_of T' root) = {(rowid_key 1, encode_row 0 0 [VInt 5])} \<and> indexes 1 [0] (entries_of T' root) (entries_of T' i_root)"
proof -
  obtain p V root i_root where p: "root \<noteq> i_root" "represents p V 7" "trees V (beside root i_root [] [])"
    using sample_trees [of "[]" "[]"] by auto
  let ?T = "beside root i_root [] []" and ?es = "[(rowid_key 1, encode_row 0 0 [VInt 5])]"
    and ?ies = "[(encode_index_value (VInt 5) @ rowid_key 1, [] :: bytes)]"
  have T: "?T root \<noteq> None" "?T i_root \<noteq> None" "entries_of ?T root = []" "entries_of ?T i_root = []" "room ?T root = 2" "room ?T i_root = 2"
    using p(1) by (simp_all add: beside_def entries_of_def room_def)
  have d: "decode_row (encode_row 0 0 [VInt 5]) 1 = Inr \<lparr>tx_min = 0, tx_max = 0, row_values = [VInt 5]\<rparr>"
    using decode_encode_row [of "[VInt 5]" 0 0] by simp
  have k: "kept_rows (fresh_clog []) 1 ?es = ?es" using d by (simp add: kept_rows_def vacuum_keeps_def)
  have "length (chunks (encode_row 0 0 [VInt 5])) = 1" by (rule one_chunk) (simp_all add: encode_row_def)
  then have room: "represents p V (0 + length ?ies * (room ?T i_root + length ?ies) + needed ?es + length ?es * (room ?T root + length ?es))"
    using p(2) T by (simp add: needed_def)
  have i: "indexes 1 [0] ?es ?ies" using d by (simp add: indexes_def rowid_key_def)
  have f: "\<forall>e \<in> set ?es. key_fits (fst e)" "\<forall>e \<in> set ?ies. key_fits (fst e)" "distinct (map fst ?es)"
    by (simp_all add: key_fits_def rowid_key_def page_consts LEAF_CELL_OVERHEAD_def)
  from vacuum_copies_live_rows [OF room p(3) T(1,2) p(1) T(3,4) order_refl i f(3,1,2), of "fresh_clog []"]
  obtain p1 p' T' where "copy_rows ANY_TREE (fresh_clog []) 1 root ?es p = (Inr [rowid_key 1], p1)"
    "copy_index ANY_TREE [rowid_key 1] i_root ?ies p1 = (Inr (), p')" "set (entries_of T' root) = set ?es"
    "indexes 1 [0] (entries_of T' root) (entries_of T' i_root)" unfolding k list.map fst_conv by blast
  then show ?thesis by (simp only: list.set) blast
qed

definition second_begun :: tx_state where
  "second_begun = snd (begin_write after_begin)"

theorem vacuum_drops_visible_version_witness:
  "\<exists>s' :: tx_state. visible (tx_clog s') (take_snapshot (Some 1) after_begin) 0 2 \<and> 1 \<in> in_flight s' \<and>
     \<not> vacuum_keeps (tx_clog s') \<lparr>tx_min = 0, tx_max = 2, row_values = []\<rparr>"
proof -
  obtain c where c: "clog_append 2 Committed (tx_clog second_begun) = (Inr (), c)"
    using clog_append_ok [of "tx_clog second_begun" 2 Committed]
    by (auto simp: second_begun_def after_begin_def start_state_def tx_state_new_def begin_write_def fresh_clog_def quiet_def)
  have b: "begin_write after_begin = (2, second_begun)" "tx_state.next_tx_id after_begin \<noteq> - 1"
    by (simp_all add: second_begun_def after_begin_def start_state_def tx_state_new_def begin_write_def)
  have i: "2 \<in> in_flight second_begun" "1 \<in> in_flight second_begun" "tx_status (tx_clog second_begun) 2 = None"
    by (simp_all add: second_begun_def after_begin_def start_state_def tx_state_new_def begin_write_def fresh_clog_def tx_status_def)
  have l: "log_outcome Committed 2 second_begun = (Inr (), second_begun\<lparr>tx_clog := c\<rparr>)" using c by (simp add: log_outcome_def)
  have t: "tx_status c 2 = Some Committed"
    using clog_log.record_decides [OF _ _ c]
    by (simp add: second_begun_def after_begin_def start_state_def tx_state_new_def begin_write_def fresh_clog_def quiet_def)
  let ?s = "end_tx 2 (second_begun\<lparr>tx_clog := c\<rparr>)" and ?v = "\<lparr>tx_min = 0, tx_max = 2, row_values = []\<rparr> :: row_record"
  have "tx_steps after_begin ?s" using ts_end [OF ts_log [OF ts_begin [OF ts_init b(2,1)] i(1,3) l], of 2] i(1) t by simp
  moreover have "visible (tx_clog after_begin) (take_snapshot (Some 1) after_begin) (tx_min ?v) (tx_max ?v)"
    by (simp add: visible_iff seen_def take_snapshot_def after_begin_def start_state_def tx_state_new_def begin_write_def)
  moreover have "is_committed (tx_clog ?s) (tx_max ?v)" using t by (simp add: is_committed_def end_tx_def)
  moreover have "1 \<in> in_flight ?s" using i(2) by (simp add: end_tx_def)
  ultimately show ?thesis
    using vacuum_drops_visible_version [OF tx_steps_inv [OF after_begin_steps start_state_inv], of ?s "Some 1" ?v 1]
    by (intro exI [of _ ?s]) simp
qed

end
