(* ===== verification/Plan_Bind.thy ===== *)
theory Plan_Bind
  imports Access_Path
begin

text \<open>
  The plans of \<^verbatim>\<open>engine/planner.rs\<close> and the binding of parameters of \<^verbatim>\<open>engine/bind.rs\<close>. Binding rewrites
  in place; the model returns the rewritten tree, and nothing on an error, where the callers drop the
  plan they were rewriting.
\<close>

section \<open>Plans\<close>

datatype plan =
    PlanCreateTable bytes "column list" "nat option" "nat list"
  | PlanDropTable bytes
  | PlanCreateIndex bytes bytes "bytes list"
  | PlanDropIndex bytes
  | PlanInsert bytes "bytes list option" "expr list list"
  | PlanSelect from_clause projection "expr option" access_path "column_ref list" "expr option" "order_key list" bool
      "u64 option" "u64 option"
  | PlanUpdate bytes "(bytes \<times> expr) list" "expr option" access_path
  | PlanDelete bytes "expr option" access_path
  | PlanVacuum
  | PlanAnalyze bytes
  | PlanExplain plan bool

section \<open>Binding\<close>

fun value_to_expr :: "sql_value \<Rightarrow> expr" where
  "value_to_expr VNull = ENull"
| "value_to_expr (VInt n) = EInteger n"
| "value_to_expr (VReal r) = EReal r"
| "value_to_expr (VText s) = EStr s"
| "value_to_expr (VBool b) = EBool b"

lemma rmap_cong [fundef_cong]:
  "xs = ys \<Longrightarrow> (\<And>y. y \<in> set ys \<Longrightarrow> f y = g y) \<Longrightarrow> rmap f xs = rmap g ys"
  by (induction xs arbitrary: ys) auto

fun bind_expr :: "sql_value list \<Rightarrow> expr \<Rightarrow> expr result"
  and bind_item :: "sql_value list \<Rightarrow> select_item \<Rightarrow> select_item result"
  and bind_projection :: "sql_value list \<Rightarrow> projection \<Rightarrow> projection result"
  and bind_join :: "sql_value list \<Rightarrow> join \<Rightarrow> join result"
  and bind_from :: "sql_value list \<Rightarrow> from_clause \<Rightarrow> from_clause result"
  and bind_statement :: "sql_value list \<Rightarrow> statement \<Rightarrow> statement result"
where
  "bind_expr ps (EPlaceholder i) = (if i < length ps then Inr (value_to_expr (ps ! i)) else Inl (Fail Exec))"
| "bind_expr ps (EUnary op e) = rbind (bind_expr ps e) (\<lambda>e. Inr (EUnary op e))"
| "bind_expr ps (EBinary op l r) = rbind (bind_expr ps l) (\<lambda>l. rbind (bind_expr ps r) (\<lambda>r. Inr (EBinary op l r)))"
| "bind_expr ps (EIsNull e negated) = rbind (bind_expr ps e) (\<lambda>e. Inr (EIsNull e negated))"
| "bind_expr ps (EInSubquery e s negated) =
     rbind (bind_expr ps e) (\<lambda>e. rbind (bind_statement ps s) (\<lambda>s. Inr (EInSubquery e s negated)))"
| "bind_expr ps (ECorrelatedInSubquery e s negated) =
     rbind (bind_expr ps e) (\<lambda>e. rbind (bind_statement ps s) (\<lambda>s. Inr (ECorrelatedInSubquery e s negated)))"
| "bind_expr ps (EExists s) = rbind (bind_statement ps s) (\<lambda>s. Inr (EExists s))"
| "bind_expr ps (ECorrelatedExists s) = rbind (bind_statement ps s) (\<lambda>s. Inr (ECorrelatedExists s))"
| "bind_expr ps (EScalarSubquery s) = rbind (bind_statement ps s) (\<lambda>s. Inr (EScalarSubquery s))"
| "bind_expr ps (ECorrelatedScalarSubquery s) = rbind (bind_statement ps s) (\<lambda>s. Inr (ECorrelatedScalarSubquery s))"
| "bind_expr ps (EInList e vs has_null negated) =
     rbind (bind_expr ps e) (\<lambda>e. rbind (rmap (bind_expr ps) vs) (\<lambda>vs. Inr (EInList e vs has_null negated)))"
| "bind_expr ps e = Inr e"
| "bind_item ps (SelExpr e) = rbind (bind_expr ps e) (\<lambda>e. Inr (SelExpr e))"
| "bind_item ps i = Inr i"
| "bind_projection ps ProjAll = Inr ProjAll"
| "bind_projection ps (ProjItems items) = rbind (rmap (bind_item ps) items) (\<lambda>items. Inr (ProjItems items))"
| "bind_join ps (Join kind t None) = Inr (Join kind t None)"
| "bind_join ps (Join kind t (Some on)) = rbind (bind_expr ps on) (\<lambda>on. Inr (Join kind t (Some on)))"
| "bind_from ps (FromClause t js) = rbind (rmap (bind_join ps) js) (\<lambda>js. Inr (FromClause t js))"
| "bind_statement ps (Select from proj wher group_by having order_by limit offset) =
     rbind (bind_from ps from) (\<lambda>from.
     rbind (bind_projection ps proj) (\<lambda>proj.
     rbind (case wher of None \<Rightarrow> Inr None | Some e \<Rightarrow> rbind (bind_expr ps e) (\<lambda>e. Inr (Some e))) (\<lambda>wher.
     rbind (case having of None \<Rightarrow> Inr None | Some e \<Rightarrow> rbind (bind_expr ps e) (\<lambda>e. Inr (Some e))) (\<lambda>having.
     Inr (Select from proj wher group_by having order_by limit offset)))))"
| "bind_statement ps s = Inr s"

definition bind_option :: "sql_value list \<Rightarrow> expr option \<Rightarrow> expr option result" where
  "bind_option ps e = (case e of None \<Rightarrow> Inr None | Some e \<Rightarrow> rbind (bind_expr ps e) (\<lambda>e. Inr (Some e)))"

fun bind_plan :: "sql_value list \<Rightarrow> plan \<Rightarrow> plan result" where
  "bind_plan ps (PlanInsert table columns rows) =
     rbind (rmap (rmap (bind_expr ps)) rows) (\<lambda>rows. Inr (PlanInsert table columns rows))"
| "bind_plan ps (PlanSelect from proj wher access group_by having order_by presorted limit offset) =
     rbind (bind_from ps from) (\<lambda>from.
     rbind (bind_projection ps proj) (\<lambda>proj.
     rbind (bind_option ps wher) (\<lambda>wher.
     rbind (bind_option ps having) (\<lambda>having.
     Inr (PlanSelect from proj wher access group_by having order_by presorted limit offset)))))"
| "bind_plan ps (PlanUpdate table assignments wher access) =
     rbind (rmap (\<lambda>(c, e). rbind (bind_expr ps e) (\<lambda>e. Inr (c, e))) assignments) (\<lambda>assignments.
     rbind (bind_option ps wher) (\<lambda>wher. Inr (PlanUpdate table assignments wher access)))"
| "bind_plan ps (PlanDelete table wher access) =
     rbind (bind_option ps wher) (\<lambda>wher. Inr (PlanDelete table wher access))"
| "bind_plan ps (PlanExplain inner analyze) = rbind (bind_plan ps inner) (\<lambda>inner. Inr (PlanExplain inner analyze))"
| "bind_plan ps p = Inr p"

section \<open>The placeholders of a plan\<close>

text \<open>The indices of the placeholders in the places of a tree that hold expressions.\<close>

fun slots_expr :: "expr \<Rightarrow> nat list"
  and slots_item :: "select_item \<Rightarrow> nat list"
  and slots_projection :: "projection \<Rightarrow> nat list"
  and slots_join :: "join \<Rightarrow> nat list"
  and slots_from :: "from_clause \<Rightarrow> nat list"
  and slots_statement :: "statement \<Rightarrow> nat list"
where
  "slots_expr (EPlaceholder i) = [i]"
| "slots_expr (EUnary op e) = slots_expr e"
| "slots_expr (EBinary op l r) = slots_expr l @ slots_expr r"
| "slots_expr (EIsNull e negated) = slots_expr e"
| "slots_expr (EInSubquery e s negated) = slots_expr e @ slots_statement s"
| "slots_expr (ECorrelatedInSubquery e s negated) = slots_expr e @ slots_statement s"
| "slots_expr (EExists s) = slots_statement s"
| "slots_expr (ECorrelatedExists s) = slots_statement s"
| "slots_expr (EScalarSubquery s) = slots_statement s"
| "slots_expr (ECorrelatedScalarSubquery s) = slots_statement s"
| "slots_expr (EInList e vs has_null negated) = slots_expr e @ concat (map slots_expr vs)"
| "slots_expr e = []"
| "slots_item (SelExpr e) = slots_expr e"
| "slots_item i = []"
| "slots_projection ProjAll = []"
| "slots_projection (ProjItems items) = concat (map slots_item items)"
| "slots_join (Join kind t None) = []"
| "slots_join (Join kind t (Some on)) = slots_expr on"
| "slots_from (FromClause t js) = concat (map slots_join js)"
| "slots_statement (Select from proj wher group_by having order_by limit offset) =
     slots_from from @ slots_projection proj
       @ (case wher of None \<Rightarrow> [] | Some e \<Rightarrow> slots_expr e) @ (case having of None \<Rightarrow> [] | Some e \<Rightarrow> slots_expr e)"
| "slots_statement s = []"

definition slots_option :: "expr option \<Rightarrow> nat list" where
  "slots_option e = (case e of None \<Rightarrow> [] | Some e \<Rightarrow> slots_expr e)"

fun slots_plan :: "plan \<Rightarrow> nat list" where
  "slots_plan (PlanInsert table columns rows) = concat (map (\<lambda>row. concat (map slots_expr row)) rows)"
| "slots_plan (PlanSelect from proj wher access group_by having order_by presorted limit offset) =
     slots_from from @ slots_projection proj @ slots_option wher @ slots_option having"
| "slots_plan (PlanUpdate table assignments wher access) =
     concat (map (\<lambda>(c, e). slots_expr e) assignments) @ slots_option wher"
| "slots_plan (PlanDelete table wher access) = slots_option wher"
| "slots_plan (PlanExplain inner analyze) = slots_plan inner"
| "slots_plan p = []"

section \<open>What binding does\<close>

text \<open>Either every index has a parameter and no placeholder is left, or some index has none.\<close>

definition binds :: "sql_value list \<Rightarrow> ('a \<Rightarrow> nat list) \<Rightarrow> 'a \<Rightarrow> 'a result \<Rightarrow> bool" where
  "binds ps sl x r \<longleftrightarrow> (case r of
      Inr y \<Rightarrow> (\<forall>i \<in> set (sl x). i < length ps) \<and> sl y = []
    | Inl e \<Rightarrow> e = Fail Exec \<and> (\<exists>i \<in> set (sl x). length ps \<le> i))"

lemma slots_value [simp]: "slots_expr (value_to_expr v) = []"
  by (cases v) simp_all

lemma binds_rmap:
  "(\<And>x. x \<in> set xs \<Longrightarrow> binds ps sl x (f x)) \<Longrightarrow> binds ps (\<lambda>xs. concat (map sl xs)) xs (rmap f xs)"
proof (induction xs)
  case (Cons x xs)
  have "binds ps sl x (f x)" "binds ps (\<lambda>xs. concat (map sl xs)) xs (rmap f xs)" using Cons by simp_all
  then show ?case by (cases "f x"; cases "rmap f xs") (auto simp: binds_def)
qed (simp add: binds_def)

lemma binds_leaf: "sl x = [] \<Longrightarrow> binds ps sl x (Inr x)"
  by (simp add: binds_def)

lemma binds_one: "binds ps sl x r \<Longrightarrow> sl' z = sl x \<Longrightarrow> (\<And>y. sl' (F y) = sl y) \<Longrightarrow> binds ps sl' z (rbind r (\<lambda>y. Inr (F y)))"
  by (cases r) (simp_all add: binds_def)

lemma binds_two:
  "binds ps sl x r \<Longrightarrow> binds ps su u t \<Longrightarrow> sl' z = sl x @ su u \<Longrightarrow> (\<And>y v. sl' (F y v) = sl y @ su v) \<Longrightarrow>
   binds ps sl' z (rbind r (\<lambda>y. rbind t (\<lambda>v. Inr (F y v))))"
  by (cases r; cases t) (auto simp: binds_def)

lemma binds_option:
  "(\<And>e. x = Some e \<Longrightarrow> binds ps slots_expr e (bind_expr ps e)) \<Longrightarrow> binds ps slots_option x (bind_option ps x)"
  by (cases x) (auto simp: bind_option_def binds_def slots_option_def split: sum.splits)

lemma bind_query:
  "bind_statement ps (Select from proj wher group_by having order_by limit offset) =
     rbind (bind_from ps from) (\<lambda>from. rbind (bind_projection ps proj) (\<lambda>proj.
     rbind (bind_option ps wher) (\<lambda>wher. rbind (bind_option ps having) (\<lambda>having.
     Inr (Select from proj wher group_by having order_by limit offset)))))"
  "slots_statement (Select from proj wher group_by having order_by limit offset) =
     slots_from from @ slots_projection proj @ slots_option wher @ slots_option having"
  by (simp_all add: bind_option_def slots_option_def)

lemma binds_query:
  assumes "binds ps sf f (bf f)" "binds ps sp p (bp p)" "binds ps so w (bo w)" "binds ps so h (bo h)"
    and "sl' z = sf f @ sp p @ so w @ so h" "\<And>f p w h. sl' (F f p w h) = sf f @ sp p @ so w @ so h"
  shows "binds ps sl' z (rbind (bf f) (\<lambda>f. rbind (bp p) (\<lambda>p. rbind (bo w) (\<lambda>w. rbind (bo h) (\<lambda>h. Inr (F f p w h))))))"
  using assms by (cases "bf f"; cases "bp p"; cases "bo w"; cases "bo h") (auto simp: binds_def)

lemma binds_all:
  fixes e :: expr and i :: select_item and p :: projection and j :: join and f :: from_clause and s :: statement
  shows "binds ps slots_expr e (bind_expr ps e)"
    and "binds ps slots_item i (bind_item ps i)"
    and "binds ps slots_projection p (bind_projection ps p)"
    and "binds ps slots_join j (bind_join ps j)"
    and "binds ps slots_from f (bind_from ps f)"
    and "binds ps slots_statement s (bind_statement ps s)"
proof (induction e and i and p and j and f and s)
  case (EInList e vs a b)
  have "binds ps (\<lambda>xs. concat (map slots_expr xs)) vs (rmap (bind_expr ps) vs)" using EInList by (intro binds_rmap)
  then show ?case using EInList by (simp add: binds_two [where F = "\<lambda>e vs. EInList e vs a b"])
next
  case (ProjItems items)
  have "binds ps (\<lambda>xs. concat (map slots_item xs)) items (rmap (bind_item ps) items)" using ProjItems by (intro binds_rmap)
  then show ?case by (simp add: binds_one)
next
  case (EPlaceholder i)
  then show ?case by (simp add: binds_def)
next
  case (Join kind t on)
  show ?case
  proof (cases on)
    case None
    then show ?thesis by (simp add: binds_def)
  next
    case (Some e)
    then have "binds ps slots_expr e (bind_expr ps e)" using Join by simp
    then show ?thesis unfolding Some bind_join.simps by (rule binds_one) simp_all
  qed
next
  case (FromClause t js)
  have "binds ps (\<lambda>xs. concat (map slots_join xs)) js (rmap (bind_join ps) js)" using FromClause by (intro binds_rmap)
  then show ?case by (simp add: binds_one)
next
  case (Select fr proj wher group_by having order_by limit offset)
  have "binds ps slots_option wher (bind_option ps wher)" "binds ps slots_option having (bind_option ps having)"
    using Select by (auto intro: binds_option)
  with Select show ?case unfolding bind_query by (intro binds_query) (simp_all only: bind_query)
qed (auto intro: binds_one binds_two binds_leaf)

lemma binds_list: "binds ps (\<lambda>xs. concat (map slots_expr xs)) xs (rmap (bind_expr ps) xs)"
  by (intro binds_rmap binds_all)

lemma binds_plan: "binds ps slots_plan p (bind_plan ps p)"
proof (induction p)
  case (PlanInsert table columns rows)
  have "binds ps (\<lambda>rs. concat (map (\<lambda>xs. concat (map slots_expr xs)) rs)) rows (rmap (rmap (bind_expr ps)) rows)"
    by (intro binds_rmap binds_list)
  then show ?case unfolding bind_plan.simps by (rule binds_one) simp_all
next
  case (PlanSelect fr proj wher access group_by having order_by presorted limit offset)
  have "binds ps slots_option wher (bind_option ps wher)" "binds ps slots_option having (bind_option ps having)"
    by (intro binds_option binds_all)+
  with binds_all(3,5) show ?case unfolding bind_plan.simps by (intro binds_query) simp_all
next
  case (PlanUpdate table assignments wher access)
  have "binds ps (\<lambda>(c, e). slots_expr e) a (case a of (c, e) \<Rightarrow> rbind (bind_expr ps e) (\<lambda>e. Inr (c, e)))" for a :: "bytes \<times> expr"
    unfolding case_prod_beta by (intro binds_one [OF binds_all(1)]) simp_all
  then have a: "binds ps (\<lambda>xs. concat (map (\<lambda>(c, e). slots_expr e) xs)) assignments
      (rmap (\<lambda>(c, e). rbind (bind_expr ps e) (\<lambda>e. Inr (c, e))) assignments)" by (intro binds_rmap)
  have "binds ps slots_option wher (bind_option ps wher)" by (intro binds_option binds_all)
  from a this show ?case unfolding bind_plan.simps by (rule binds_two) simp_all
next
  case (PlanDelete table wher access)
  have "binds ps slots_option wher (bind_option ps wher)" by (intro binds_option binds_all)
  then show ?case unfolding bind_plan.simps by (rule binds_one) simp_all
next
  case (PlanExplain inner analyze)
  then show ?case unfolding bind_plan.simps by (rule binds_one) simp_all
qed (simp_all add: binds_def)

lemma bind_closed:
  "slots_plan p = [] \<Longrightarrow> \<exists>q. bind_plan ps p = Inr q"
  using binds_plan [of ps p] by (cases "bind_plan ps p") (simp_all add: binds_def)

section \<open>Properties\<close>



end
