(* ===== verification/Parser.thy ===== *)
theory Parser
  imports Lexer
begin

text \<open>
  The recursive-descent parser of \<^verbatim>\<open>sql/parser.rs\<close>. The state is the token suffix at \<^verbatim>\<open>pos\<close> and the
  number of placeholders seen. \<^verbatim>\<open>expr\<close> and \<^verbatim>\<open>statement\<close> call each other through subqueries: the
  functions between take the two as arguments, and \<open>expr_p\<close>, \<open>statement_p\<close> tie the knot with fuel that
  bounds the nesting. Every loop runs on fuel taken from the number of tokens left. Both are always
  enough (\<open>parse_returns\<close>).
\<close>

section \<open>Tokens\<close>

record parser =
  p_rest :: "token list"
  placeholder_count :: nat

type_synonym 'a parse = "(parser, 'a) op"

definition peek :: "parser \<Rightarrow> token option" where
  "peek p = (case p_rest p of [] \<Rightarrow> None | t # _ \<Rightarrow> Some t)"

definition p_fail :: "'a parse" where
  "p_fail = slift (Inl (Fail Parse))"

text \<open>\<^verbatim>\<open>self.pos += 1\<close> at a token that is there.\<close>

definition skip :: "unit parse" where
  "skip p = (Inr (), p\<lparr>p_rest := tl (p_rest p)\<rparr>)"

definition advance :: "token option parse" where
  "advance p = (Inr (peek p), p\<lparr>p_rest := tl (p_rest p)\<rparr>)"

definition at_token :: "token \<Rightarrow> parser \<Rightarrow> bool" where
  "at_token t p \<longleftrightarrow> peek p = Some t"

abbreviation "at_keyword kw \<equiv> at_token (TkKeyword kw)"

definition p_if :: "(parser \<Rightarrow> bool) \<Rightarrow> 'a parse \<Rightarrow> 'a parse \<Rightarrow> 'a parse" where
  "p_if c a b p = (if c p then a p else b p)"

definition expect :: "token \<Rightarrow> unit parse" where
  "expect want = p_if (at_token want) skip p_fail"

abbreviation "expect_keyword kw \<equiv> expect (TkKeyword kw)"

definition then_p :: "unit parse \<Rightarrow> 'a parse \<Rightarrow> 'a parse" where
  "then_p a b = sbind a (\<lambda>_. b)"

definition expect_name :: "bytes parse" where
  "expect_name = sbind advance (\<lambda>t. case t of Some (TkIdent name) \<Rightarrow> sret name | _ \<Rightarrow> p_fail)"

definition expect_column_ref :: "column_ref parse" where
  "expect_column_ref =
     sbind expect_name (\<lambda>first.
     p_if (at_token TkDot)
       (then_p skip (sbind expect_name (\<lambda>name. sret \<lparr>cr_table = Some first, cr_name = name\<rparr>)))
       (sret (bare first)))"

text \<open>The two list loops: items up to a closing parenthesis, and items while a comma follows.\<close>

fun list_in_parens :: "nat \<Rightarrow> 'a parse \<Rightarrow> 'a list parse" where
  "list_in_parens 0 item = slift (Inl OutOfFuel)"
| "list_in_parens (Suc k) item =
     sbind item (\<lambda>x.
     sbind advance (\<lambda>t.
       if t = Some TkComma then sbind (list_in_parens k item) (\<lambda>xs. sret (x # xs))
       else if t = Some TkRParen then sret [x]
       else p_fail))"

fun comma_list :: "nat \<Rightarrow> 'a parse \<Rightarrow> 'a list parse" where
  "comma_list 0 item = slift (Inl OutOfFuel)"
| "comma_list (Suc k) item =
     sbind item (\<lambda>x.
     p_if (at_token TkComma) (then_p skip (sbind (comma_list k item) (\<lambda>xs. sret (x # xs)))) (sret [x]))"

definition in_parens :: "'a parse \<Rightarrow> 'a list parse" where
  "in_parens item p = list_in_parens (Suc (length (p_rest p))) item p"

definition commas :: "'a parse \<Rightarrow> 'a list parse" where
  "commas item p = comma_list (Suc (length (p_rest p))) item p"

section \<open>Data definition\<close>

definition parse_type_name :: "type_name parse" where
  "parse_type_name = sbind advance (\<lambda>t. case t of
     Some (TkKeyword k) \<Rightarrow>
       if k = KwInt \<or> k = KwInteger then sret TyInt
       else if k = KwText then sret TyText
       else if k = KwReal \<or> k = KwFloat then sret TyReal
       else if k = KwBool \<or> k = KwBoolean then sret TyBool
       else p_fail
   | _ \<Rightarrow> p_fail)"

definition on_delete_clause :: "referential_action parse" where
  "on_delete_clause =
     p_if (at_keyword KwOn)
       (then_p skip (then_p (expect_keyword KwDelete)
         (p_if (at_keyword KwCascade) (then_p skip (sret ActCascade))
         (p_if (at_keyword KwSet) (then_p skip (then_p (expect_keyword KwNull) (sret ActSetNull)))
         (p_if (at_keyword KwRestrict) (then_p skip (sret ActRestrict))
         (p_if (at_keyword KwNo) (then_p skip (then_p (expect_keyword KwAction) (sret ActRestrict)))
          p_fail))))))
       (sret ActRestrict)"

definition references_clause :: "column_constraint parse" where
  "references_clause =
     sbind expect_name (\<lambda>table.
     then_p (expect TkLParen)
     (sbind expect_name (\<lambda>column.
     then_p (expect TkRParen)
     (sbind on_delete_clause (\<lambda>action. sret (References table column action))))))"

fun constraint_loop :: "nat \<Rightarrow> column_constraint list parse" where
  "constraint_loop 0 = slift (Inl OutOfFuel)"
| "constraint_loop (Suc k) =
     (let more = (\<lambda>c. sbind (constraint_loop k) (\<lambda>cs. sret (c # cs))) in
      p_if (at_keyword KwPrimary) (then_p skip (then_p (expect_keyword KwKey) (more PrimaryKey)))
      (p_if (at_keyword KwNot) (then_p skip (then_p (expect_keyword KwNull) (more NotNull)))
      (p_if (at_keyword KwUnique) (then_p skip (more Unique))
      (p_if (at_keyword KwReferences) (then_p skip (sbind references_clause more))
       (sret [])))))"

definition column_constraints :: "column_constraint list parse" where
  "column_constraints p = constraint_loop (Suc (length (p_rest p))) p"

definition column_item :: "column_def parse" where
  "column_item =
     sbind expect_name (\<lambda>col.
     sbind parse_type_name (\<lambda>ty.
     sbind column_constraints (\<lambda>cs. sret \<lparr>cd_name = col, cd_ty = ty, cd_constraints = cs\<rparr>)))"

definition create_table :: "statement parse" where
  "create_table =
     then_p (expect_keyword KwTable)
     (sbind expect_name (\<lambda>name.
     then_p (expect TkLParen)
     (sbind (in_parens column_item) (\<lambda>columns. sret (CreateTable name columns)))))"

definition create_index :: "statement parse" where
  "create_index =
     then_p (expect_keyword KwIndex)
     (sbind expect_name (\<lambda>name.
     then_p (expect_keyword KwOn)
     (sbind expect_name (\<lambda>table.
     then_p (expect TkLParen)
     (sbind (in_parens expect_name) (\<lambda>columns. sret (CreateIndex name table columns)))))))"

definition create :: "statement parse" where
  "create =
     then_p (expect_keyword KwCreate)
     (p_if (at_keyword KwTable) create_table (p_if (at_keyword KwIndex) create_index p_fail))"

definition drop_statement :: "statement parse" where
  "drop_statement =
     then_p (expect_keyword KwDrop)
     (p_if (at_keyword KwTable) (then_p (expect_keyword KwTable) (sbind expect_name (\<lambda>name. sret (DropTable name))))
     (p_if (at_keyword KwIndex) (then_p (expect_keyword KwIndex) (sbind expect_name (\<lambda>name. sret (DropIndex name))))
      p_fail))"

section \<open>Expressions\<close>

definition comparison_op :: "token \<Rightarrow> binary_op option" where
  "comparison_op t =
     (if t = TkEq then Some Eq else if t = TkNotEq then Some NotEq else if t = TkLt then Some Lt
      else if t = TkLtEq then Some LtEq else if t = TkGt then Some Gt else if t = TkGtEq then Some GtEq else None)"

definition aggregate_func_of :: "bytes \<Rightarrow> aggregate_func result" where
  "aggregate_func_of name =
     (let n = to_ascii_uppercase name in
      if n = ascii ''COUNT'' then Inr Count
      else if n = ascii ''SUM'' then Inr Sum
      else if n = ascii ''AVG'' then Inr Avg
      else if n = ascii ''MIN'' then Inr Min
      else if n = ascii ''MAX'' then Inr Max
      else Inl (Fail Parse))"

definition parse_aggregate_call :: "bytes \<Rightarrow> aggregate parse" where
  "parse_aggregate_call name =
     sbind (slift (aggregate_func_of name)) (\<lambda>func.
     then_p (expect TkLParen)
     (sbind (p_if (at_token TkStar) (then_p skip (sret Star)) (sbind expect_column_ref (\<lambda>c. sret (AggColumn c)))) (\<lambda>arg.
     then_p (expect TkRParen) (sret \<lparr>agg_func = func, agg_arg = arg\<rparr>))))"

definition next_placeholder :: "expr parse" where
  "next_placeholder p = (Inr (EPlaceholder (placeholder_count p)), p\<lparr>placeholder_count := Suc (placeholder_count p)\<rparr>)"

definition subquery :: "statement parse \<Rightarrow> statement parse" where
  "subquery st = sbind st (\<lambda>s. then_p (expect TkRParen) (sret s))"

definition named :: "bytes \<Rightarrow> expr parse" where
  "named name =
     p_if (at_token TkLParen) (sbind (parse_aggregate_call name) (\<lambda>a. sret (EAggregate a)))
     (p_if (at_token TkDot)
        (then_p skip (sbind expect_name (\<lambda>n. sret (EColumn \<lparr>cr_table = Some name, cr_name = n\<rparr>))))
        (sret (EColumn (bare name))))"

definition primary :: "expr parse \<Rightarrow> statement parse \<Rightarrow> expr parse" where
  "primary ex st = sbind advance (\<lambda>t. case t of
     Some (TkInteger n) \<Rightarrow> sret (EInteger n)
   | Some (TkReal r) \<Rightarrow> sret (EReal r)
   | Some (TkStr s) \<Rightarrow> sret (EStr s)
   | Some (TkKeyword k) \<Rightarrow>
       if k = KwTrue then sret (EBool True)
       else if k = KwFalse then sret (EBool False)
       else if k = KwNull then sret ENull
       else if k = KwExists then then_p (expect TkLParen) (sbind (subquery st) (\<lambda>s. sret (EExists s)))
       else p_fail
   | Some TkQuestion \<Rightarrow> next_placeholder
   | Some (TkIdent name) \<Rightarrow> named name
   | Some TkLParen \<Rightarrow>
       p_if (at_keyword KwSelect) (sbind (subquery st) (\<lambda>s. sret (EScalarSubquery s)))
         (sbind ex (\<lambda>e. then_p (expect TkRParen) (sret e)))
   | _ \<Rightarrow> p_fail)"

definition postfix :: "expr parse \<Rightarrow> statement parse \<Rightarrow> expr parse" where
  "postfix ex st =
     sbind (primary ex st) (\<lambda>inner.
     p_if (at_keyword KwIs)
       (then_p skip
         (sbind (p_if (at_keyword KwNot) (then_p skip (sret True)) (sret False)) (\<lambda>negated.
          then_p (expect_keyword KwNull) (sret (EIsNull inner negated)))))
       (sret inner))"

text \<open>A level of prefix operators.\<close>

fun prefix_loop :: "nat \<Rightarrow> token \<Rightarrow> unary_op \<Rightarrow> expr parse \<Rightarrow> expr parse" where
  "prefix_loop 0 t op item = slift (Inl OutOfFuel)"
| "prefix_loop (Suc k) t op item =
     p_if (at_token t) (then_p skip (sbind (prefix_loop k t op item) (\<lambda>e. sret (EUnary op e)))) item"

definition unary :: "expr parse \<Rightarrow> statement parse \<Rightarrow> expr parse" where
  "unary ex st p = prefix_loop (Suc (length (p_rest p))) TkMinus Neg (postfix ex st) p"

text \<open>The loop of a left-associative level: \<open>left\<close> and the operators that follow it.\<close>

fun binary_loop :: "nat \<Rightarrow> (token \<Rightarrow> binary_op option) \<Rightarrow> expr parse \<Rightarrow> expr \<Rightarrow> expr parse" where
  "binary_loop 0 op_of item left = slift (Inl OutOfFuel)"
| "binary_loop (Suc k) op_of item left = (\<lambda>p.
     case Option.bind (peek p) op_of of
       None \<Rightarrow> sret left p
     | Some op \<Rightarrow> then_p skip (sbind item (\<lambda>right. binary_loop k op_of item (EBinary op left right))) p)"

definition left_assoc :: "(token \<Rightarrow> binary_op option) \<Rightarrow> expr parse \<Rightarrow> expr parse" where
  "left_assoc op_of item = sbind item (\<lambda>left p. binary_loop (Suc (length (p_rest p))) op_of item left p)"

definition mul_op :: "token \<Rightarrow> binary_op option" where
  "mul_op t = (if t = TkStar then Some Mul else if t = TkSlash then Some Div else None)"

definition add_op :: "token \<Rightarrow> binary_op option" where
  "add_op t = (if t = TkPlus then Some Add else if t = TkMinus then Some Sub else None)"

definition and_op :: "token \<Rightarrow> binary_op option" where
  "and_op t = (if t = TkKeyword KwAnd then Some And else None)"

definition or_op :: "token \<Rightarrow> binary_op option" where
  "or_op t = (if t = TkKeyword KwOr then Some Or else None)"

definition multiplicative :: "expr parse \<Rightarrow> statement parse \<Rightarrow> expr parse" where
  "multiplicative ex st = left_assoc mul_op (unary ex st)"

definition additive :: "expr parse \<Rightarrow> statement parse \<Rightarrow> expr parse" where
  "additive ex st = left_assoc add_op (multiplicative ex st)"

definition at_not_in :: "parser \<Rightarrow> bool" where
  "at_not_in p \<longleftrightarrow> take 2 (p_rest p) = [TkKeyword KwNot, TkKeyword KwIn]"

fun comparison_loop :: "nat \<Rightarrow> expr parse \<Rightarrow> statement parse \<Rightarrow> expr \<Rightarrow> expr parse" where
  "comparison_loop 0 item st left = slift (Inl OutOfFuel)"
| "comparison_loop (Suc k) item st left = (\<lambda>p.
     case Option.bind (peek p) comparison_op of
       Some op \<Rightarrow> then_p skip (sbind item (\<lambda>right. comparison_loop k item st (EBinary op left right))) p
     | None \<Rightarrow>
         let in_list = (\<lambda>negated. then_p (expect TkLParen)
               (sbind (subquery st) (\<lambda>s. comparison_loop k item st (EInSubquery left s negated)))) in
         p_if at_not_in (then_p skip (then_p skip (in_list True)))
         (p_if (at_keyword KwIn) (then_p skip (in_list False)) (sret left)) p)"

definition comparison :: "expr parse \<Rightarrow> statement parse \<Rightarrow> expr parse" where
  "comparison ex st = sbind (additive ex st) (\<lambda>left p. comparison_loop (Suc (length (p_rest p))) (additive ex st) st left p)"

definition not_expr :: "expr parse \<Rightarrow> statement parse \<Rightarrow> expr parse" where
  "not_expr ex st p = prefix_loop (Suc (length (p_rest p))) (TkKeyword KwNot) Not (comparison ex st) p"

definition and_expr :: "expr parse \<Rightarrow> statement parse \<Rightarrow> expr parse" where
  "and_expr ex st = left_assoc and_op (not_expr ex st)"

definition or_expr :: "expr parse \<Rightarrow> statement parse \<Rightarrow> expr parse" where
  "or_expr ex st = left_assoc or_op (and_expr ex st)"

section \<open>Queries and writes\<close>

definition optional :: "keyword \<Rightarrow> 'a parse \<Rightarrow> 'a option parse" where
  "optional kw item = p_if (at_keyword kw) (then_p skip (sbind item (\<lambda>x. sret (Some x)))) (sret None)"

definition optional_alias :: "bytes option parse" where
  "optional_alias =
     p_if (at_keyword KwAs) (then_p skip (sbind expect_name (\<lambda>n. sret (Some n))))
     (p_if (\<lambda>p. case peek p of Some (TkIdent _) \<Rightarrow> True | _ \<Rightarrow> False) (sbind expect_name (\<lambda>n. sret (Some n))) (sret None))"

definition parse_table_ref :: "table_ref parse" where
  "parse_table_ref = sbind expect_name (\<lambda>name. sbind optional_alias (\<lambda>alias. sret \<lparr>tr_name = name, tr_alias = alias\<rparr>))"

definition join_head :: "join_kind option parse" where
  "join_head =
     p_if (at_keyword KwJoin) (then_p skip (sret (Some Inner)))
     (p_if (at_keyword KwInner) (then_p skip (then_p (expect_keyword KwJoin) (sret (Some Inner))))
     (p_if (at_keyword KwLeft) (then_p skip (then_p (expect_keyword KwJoin) (sret (Some LeftJoin))))
     (p_if (at_keyword KwCross) (then_p skip (then_p (expect_keyword KwJoin) (sret (Some Cross))))
      (sret None))))"

fun join_loop :: "nat \<Rightarrow> expr parse \<Rightarrow> join list parse" where
  "join_loop 0 ex = slift (Inl OutOfFuel)"
| "join_loop (Suc k) ex =
     sbind join_head (\<lambda>kind. case kind of
       None \<Rightarrow> sret []
     | Some kind \<Rightarrow>
         sbind parse_table_ref (\<lambda>joined.
         sbind (if kind = Cross then sret None
                else then_p (expect_keyword KwOn) (sbind ex (\<lambda>e. sret (Some e)))) (\<lambda>on.
         sbind (join_loop k ex) (\<lambda>js. sret (Join kind joined on # js)))))"

definition parse_from :: "expr parse \<Rightarrow> from_clause parse" where
  "parse_from ex =
     sbind parse_table_ref (\<lambda>table.
     sbind (\<lambda>p. join_loop (Suc (length (p_rest p))) ex p) (\<lambda>joins. sret (FromClause table joins)))"

fun select_item_of :: "expr \<Rightarrow> select_item" where
  "select_item_of (EColumn c) = SelColumn c"
| "select_item_of (EAggregate a) = SelAggregate a"
| "select_item_of e = SelExpr e"

definition parse_projection :: "expr parse \<Rightarrow> projection parse" where
  "parse_projection ex =
     p_if (at_token TkStar) (then_p skip (sret ProjAll))
       (sbind (commas (sbind ex (\<lambda>e. sret (select_item_of e)))) (\<lambda>items. sret (ProjItems items)))"

definition optional_group_by :: "column_ref list parse" where
  "optional_group_by =
     p_if (at_keyword KwGroup) (then_p skip (then_p (expect_keyword KwBy) (commas expect_column_ref))) (sret [])"

definition order_item :: "order_key parse" where
  "order_item =
     sbind expect_column_ref (\<lambda>column.
     sbind (p_if (at_keyword KwDesc) (then_p skip (sret True))
           (p_if (at_keyword KwAsc) (then_p skip (sret False)) (sret False))) (\<lambda>descending.
     sret \<lparr>ord_column = column, ord_descending = descending\<rparr>))"

definition optional_order_by :: "order_key list parse" where
  "optional_order_by =
     p_if (at_keyword KwOrder) (then_p skip (then_p (expect_keyword KwBy) (commas order_item))) (sret [])"

definition expect_count :: "u64 parse" where
  "expect_count = sbind advance (\<lambda>t. case t of
     Some (TkInteger n) \<Rightarrow> if 0 \<le> sint n then sret n else p_fail
   | _ \<Rightarrow> p_fail)"

definition optional_limit :: "(u64 option \<times> u64 option) parse" where
  "optional_limit =
     p_if (at_keyword KwLimit)
       (then_p skip
         (sbind expect_count (\<lambda>limit.
          sbind (optional KwOffset expect_count) (\<lambda>offset. sret (Some limit, offset)))))
       (sret (None, None))"

definition select :: "expr parse \<Rightarrow> statement parse" where
  "select ex =
     then_p (expect_keyword KwSelect)
     (sbind (parse_projection ex) (\<lambda>projection.
     then_p (expect_keyword KwFrom)
     (sbind (parse_from ex) (\<lambda>from.
     sbind (optional KwWhere ex) (\<lambda>where.
     sbind optional_group_by (\<lambda>group_by.
     sbind (optional KwHaving ex) (\<lambda>having.
     sbind optional_order_by (\<lambda>order_by.
     sbind optional_limit (\<lambda>(limit, offset).
     sret (Select from projection where group_by having order_by limit offset))))))))))"

definition insert_statement :: "expr parse \<Rightarrow> statement parse" where
  "insert_statement ex =
     then_p (expect_keyword KwInsert)
     (then_p (expect_keyword KwInto)
     (sbind expect_name (\<lambda>table.
     sbind (p_if (at_token TkLParen) (then_p skip (sbind (in_parens expect_name) (\<lambda>ns. sret (Some ns)))) (sret None)) (\<lambda>columns.
     then_p (expect_keyword KwValues)
     (sbind (commas (then_p (expect TkLParen) (in_parens ex))) (\<lambda>rows. sret (Insert table columns rows)))))))"

definition update_statement :: "expr parse \<Rightarrow> statement parse" where
  "update_statement ex =
     then_p (expect_keyword KwUpdate)
     (sbind expect_name (\<lambda>table.
     then_p (expect_keyword KwSet)
     (sbind (commas (sbind expect_name (\<lambda>column. then_p (expect TkEq) (sbind ex (\<lambda>value. sret (column, value)))))) (\<lambda>assignments.
     sbind (optional KwWhere ex) (\<lambda>filter. sret (Update table assignments filter))))))"

definition delete_statement :: "expr parse \<Rightarrow> statement parse" where
  "delete_statement ex =
     then_p (expect_keyword KwDelete)
     (then_p (expect_keyword KwFrom)
     (sbind expect_name (\<lambda>table.
     sbind (optional KwWhere ex) (\<lambda>filter. sret (Delete table filter)))))"

definition explain_statement :: "statement parse \<Rightarrow> statement parse" where
  "explain_statement st =
     then_p skip
     (sbind (p_if (at_keyword KwAnalyze) (then_p skip (sret True)) (sret False)) (\<lambda>analyze.
     p_if (at_keyword KwSelect) (sbind st (\<lambda>inner. sret (Explain inner analyze))) p_fail))"

definition parse_statement :: "expr parse \<Rightarrow> statement parse \<Rightarrow> statement parse" where
  "parse_statement ex st =
     p_if (at_keyword KwSelect) (select ex)
     (p_if (at_keyword KwInsert) (insert_statement ex)
     (p_if (at_keyword KwCreate) create
     (p_if (at_keyword KwDrop) drop_statement
     (p_if (at_keyword KwUpdate) (update_statement ex)
     (p_if (at_keyword KwDelete) (delete_statement ex)
     (p_if (at_keyword KwVacuum) (then_p skip (sret Vacuum))
     (p_if (at_keyword KwAnalyze) (then_p skip (sbind expect_name (\<lambda>t. sret (Analyze t))))
     (p_if (at_keyword KwExplain) (explain_statement st)
     (p_if (at_keyword KwBegin) (then_p skip (sret Begin))
     (p_if (at_keyword KwCommit) (then_p skip (sret Commit))
     (p_if (at_keyword KwRollback) (then_p skip (sret Rollback))
      p_fail)))))))))))"

section \<open>The parser\<close>

fun expr_p :: "nat \<Rightarrow> expr parse" and statement_p :: "nat \<Rightarrow> statement parse" where
  "expr_p 0 = slift (Inl OutOfFuel)"
| "expr_p (Suc n) = or_expr (expr_p n) (statement_p n)"
| "statement_p 0 = slift (Inl OutOfFuel)"
| "statement_p (Suc n) = parse_statement (expr_p n) (statement_p n)"

definition parse_tokens :: "token list \<Rightarrow> statement result" where
  "parse_tokens ts =
     (case statement_p (Suc (length ts)) \<lparr>p_rest = ts, placeholder_count = 0\<rparr> of
        (Inl e, _) \<Rightarrow> Inl e
      | (Inr s, p) \<Rightarrow>
          let rest = (if at_token TkSemicolon p then tl (p_rest p) else p_rest p) in
          if rest = [] then Inr s else Inl (Fail Parse))"

definition parse :: "unicode \<Rightarrow> uchar list \<Rightarrow> statement result" where
  "parse uc input = rbind (tokenize uc input) parse_tokens"

section \<open>The parser returns\<close>

named_theorems parse_rules \<open>parsers that consume tokens and fail only with a parse error\<close>

text \<open>
  On inputs of fewer than \<open>n\<close> tokens, a parser consumes at least \<open>d\<close> of them or reports a parse error:
  no fuel runs out, nothing panics.
\<close>

definition lands :: "nat \<Rightarrow> 'a parse \<Rightarrow> parser \<Rightarrow> bool" where
  "lands d m p \<longleftrightarrow> (\<forall>x q. m p = (Inr x, q) \<longrightarrow> length (p_rest q) + d \<le> length (p_rest p)) \<and> (\<forall>e q. m p = (Inl e, q) \<longrightarrow> e = Fail Parse)"

definition safe :: "nat \<Rightarrow> nat \<Rightarrow> 'a parse \<Rightarrow> bool" where
  "safe n d m \<longleftrightarrow> (\<forall>p. length (p_rest p) < n \<longrightarrow> lands d m p)"

lemma safe_mono: "safe n d m \<Longrightarrow> k \<le> n \<Longrightarrow> e \<le> d \<Longrightarrow> safe k e m"
  unfolding safe_def lands_def by (meson add_le_mono le_refl le_trans less_le_trans)

lemma lands_bind:
  assumes "lands d m p" "\<And>x q. m p = (Inr x, q) \<Longrightarrow> lands (e - d) (f x) q"
  shows "lands e (sbind m f) p"
proof (cases "m p")
  case (Pair r q)
  show ?thesis
  proof (cases r)
    case (Inl z)
    then show ?thesis using assms(1) Pair by (simp add: lands_def sbind_def)
  next
    case (Inr x)
    then have "length (p_rest q) + d \<le> length (p_rest p)" "lands (e - d) (f x) q" using assms Pair by (auto simp: lands_def)
    then show ?thesis using Pair Inr by (fastforce simp: lands_def sbind_def)
  qed
qed

lemma safe_bind:
  assumes "safe n d m" "\<And>x. safe (n - d) (e - d) (f x)"
  shows "safe n e (sbind m f)"
  unfolding safe_def
proof (intro allI impI)
  fix p :: parser assume p: "length (p_rest p) < n"
  then have m: "lands d m p" using assms(1) by (simp add: safe_def)
  then show "lands e (sbind m f) p"
  proof (rule lands_bind)
    fix x q assume "m p = (Inr x, q)"
    then have "length (p_rest q) + d \<le> length (p_rest p)" using m by (simp add: lands_def)
    then show "lands (e - d) (f x) q" using assms(2) [of x] p by (simp add: safe_def)
  qed
qed

lemmas safe_bind0 = safe_bind [where d = 0, simplified]
lemmas safe_bind1 = safe_bind [where d = 1]

lemma safe_sret [parse_rules]: "d = 0 \<Longrightarrow> safe n d (sret x)"
  by (simp add: safe_def lands_def)

lemma safe_fail [parse_rules]: "safe n d p_fail"
  by (simp add: safe_def lands_def p_fail_def)

lemma safe_if [parse_rules]: "safe n d a \<Longrightarrow> safe n d b \<Longrightarrow> safe n d (p_if c a b)"
  by (simp add: safe_def lands_def p_if_def)

lemma at_token_rest: "at_token t p \<Longrightarrow> \<exists>ts. p_rest p = t # ts"
  by (auto simp: at_token_def peek_def split: list.splits)

lemma then_skip: "then_p skip m p = m (p\<lparr>p_rest := tl (p_rest p)\<rparr>)"
  by (simp add: then_p_def sbind_def skip_def)

lemma lands_then_skip:
  assumes "safe (n - 1) (d - 1) m" "p_rest p = t # ts" "length (p_rest p) < n"
  shows "lands d (then_p skip m) p"
  unfolding then_p_def
proof (rule lands_bind [where d = 1])
  show "lands 1 skip p" using assms(2) by (simp add: lands_def skip_def)
  show "lands (d - 1) m q" if "skip p = (Inr x, q)" for x q
    using assms that by (auto simp: safe_def skip_def)
qed

lemma safe_skip_if [parse_rules]:
  assumes "safe (n - 1) (d - 1) m" "safe n d b"
  shows "safe n d (p_if (at_token t) (then_p skip m) b)"
  unfolding safe_def
proof (intro allI impI)
  fix p :: parser assume "length (p_rest p) < n"
  then show "lands d (p_if (at_token t) (then_p skip m) b) p"
    using lands_then_skip [OF assms(1)] at_token_rest [of t p] assms(2)
    by (cases "at_token t p") (auto simp: lands_def safe_def p_if_def)
qed

lemma safe_expect: "safe n 1 (expect t)"
  using at_token_rest [of t] by (fastforce simp: safe_def lands_def expect_def p_if_def skip_def p_fail_def)

lemma safe_then_expect [parse_rules]: "safe (n - 1) (d - 1) m \<Longrightarrow> safe n d (then_p (expect t) m)"
  unfolding then_p_def by (rule safe_bind1 [OF safe_expect])

lemma safe_advance [parse_rules]:
  assumes "\<And>t. safe (n - 1) (d - 1) (f (Some t))" "f None = p_fail"
  shows "safe n d (sbind advance f)"
  unfolding safe_def
proof (intro allI impI)
  fix p :: parser assume p: "length (p_rest p) < n"
  show "lands d (sbind advance f) p"
  proof (cases "p_rest p")
    case Nil
    then show ?thesis using assms(2) by (simp add: lands_def sbind_def advance_def peek_def p_fail_def)
  next
    case (Cons t ts)
    show ?thesis
    proof (rule lands_bind [where d = 1])
      show "lands 1 advance p" using Cons by (simp add: lands_def advance_def)
      show "lands (d - 1) (f x) q" if "advance p = (Inr x, q)" for x q
        using that assms(1) [of t] Cons p by (auto simp: advance_def peek_def safe_def)
    qed
  qed
qed

lemma safe_name: "safe n 1 expect_name"
  unfolding expect_name_def by (intro safe_advance) (auto simp: safe_sret safe_fail split: token.splits)

lemmas safe_name_bind [parse_rules] = safe_bind1 [OF safe_name]

lemma safe_column_ref: "safe n 1 expect_column_ref"
  unfolding expect_column_ref_def by (intro parse_rules) simp_all

lemmas safe_column_ref_bind [parse_rules] = safe_bind1 [OF safe_column_ref]

lemma safe_list_in_parens:
  assumes "safe n 1 item"
  shows "safe (min n k) 1 (list_in_parens k item)"
proof (induction k)
  case (Suc k)
  have "safe (min n (Suc k)) 1 (sbind item (\<lambda>x. sbind advance (\<lambda>t.
       if t = Some TkComma then sbind (list_in_parens k item) (\<lambda>xs. sret (x # xs))
       else if t = Some TkRParen then sret [x] else p_fail)))"
  proof (rule safe_bind1 [OF safe_mono [OF assms]], simp, simp, rule safe_advance)
    fix x t
    have "safe (min n (Suc k) - 1 - 1) 0 (list_in_parens k item)" by (rule safe_mono [OF Suc]) auto
    then have "safe (min n (Suc k) - 1 - 1) 0 (sbind (list_in_parens k item) (\<lambda>xs. sret (x # xs)))"
      by (rule safe_bind0) (simp add: safe_sret)
    then show "safe (min n (Suc k) - 1 - 1) (1 - 1 - 1) (if Some t = Some TkComma then sbind (list_in_parens k item) (\<lambda>xs. sret (x # xs))
       else if Some t = Some TkRParen then sret [x] else p_fail)" by (auto intro: parse_rules)
  qed simp
  then show ?case by simp
qed (simp add: safe_def)

lemma safe_fueled:
  assumes "\<And>k. safe (min n k) d (m k)"
  shows "safe n d (\<lambda>p. m (Suc (length (p_rest p))) p)"
  unfolding safe_def
proof (intro allI impI)
  fix p :: parser assume "length (p_rest p) < n"
  with assms [of "Suc (length (p_rest p))"] show "lands d (\<lambda>p. m (Suc (length (p_rest p))) p) p" unfolding safe_def lands_def by auto
qed

lemma safe_in_parens: "safe n 1 item \<Longrightarrow> safe n 1 (in_parens item)"
  unfolding in_parens_def [abs_def] by (rule safe_fueled) (rule safe_list_in_parens)

lemma safe_comma_list:
  assumes "safe n 1 item"
  shows "safe (min n k) 1 (comma_list k item)"
proof (induction k)
  case (Suc k)
  have "safe (min n (Suc k) - 1) 0 (p_if (at_token TkComma) (then_p skip (sbind (comma_list k item) (\<lambda>xs. sret (x # xs)))) (sret [x]))" for x
    by (intro safe_skip_if safe_bind0 safe_sret safe_mono [OF Suc]) auto
  then show ?case unfolding comma_list.simps by (intro safe_bind1 safe_mono [OF assms]) simp_all
qed (simp add: safe_def)

lemma safe_commas: "safe n 1 item \<Longrightarrow> safe n 1 (commas item)"
  unfolding commas_def [abs_def] by (rule safe_fueled) (rule safe_comma_list)

text \<open>The nested parsers are safe on shorter inputs; after a consumed token the input is shorter.\<close>

lemma safe_parse_type_name: "safe n 1 parse_type_name"
  unfolding parse_type_name_def by (intro safe_advance) (auto simp: safe_sret safe_fail split: token.splits)

lemma safe_on_delete: "safe n 0 on_delete_clause"
  unfolding on_delete_clause_def by (intro parse_rules) simp_all

lemma safe_references: "safe n 1 references_clause"
  unfolding references_clause_def by (intro parse_rules safe_bind0 [OF safe_on_delete]) simp_all

lemma safe_constraint_loop: "safe k 0 (constraint_loop k)"
proof (induction k)
  case (Suc k)
  have more: "safe m 0 (sbind (constraint_loop k) (\<lambda>cs. sret (c # cs)))" if "m \<le> k" for m c
    using that by (intro safe_bind0 safe_mono [OF Suc] safe_sret) simp_all
  show ?case unfolding constraint_loop.simps Let_def
    by (intro parse_rules safe_bind1 [OF safe_references]) (simp_all add: more)
qed (simp add: safe_def)

lemma safe_constraints: "safe n 0 column_constraints"
  unfolding column_constraints_def [abs_def] by (rule safe_fueled) (rule safe_mono [OF safe_constraint_loop], simp_all)

lemma safe_column_item: "safe n 1 column_item"
  unfolding column_item_def by (intro parse_rules safe_bind1 [OF safe_parse_type_name] safe_bind0 [OF safe_constraints]) simp_all

lemma safe_create_table: "safe n 1 create_table"
  unfolding create_table_def by (intro parse_rules safe_bind1 [OF safe_in_parens [OF safe_column_item]]) simp_all

lemma safe_create_index: "safe n 1 create_index"
  unfolding create_index_def by (intro parse_rules safe_bind1 [OF safe_in_parens [OF safe_name]]) simp_all

lemma safe_create: "safe n 1 create"
  unfolding create_def by (intro parse_rules safe_mono [OF safe_create_table le_refl] safe_mono [OF safe_create_index le_refl]) simp_all

lemma safe_drop: "safe n 1 drop_statement"
  unfolding drop_statement_def by (intro parse_rules) simp_all

lemma safe_aggregate_call: "safe n 1 (parse_aggregate_call name)"
proof -
  have "safe n 0 (slift (aggregate_func_of name))" by (simp add: safe_def lands_def aggregate_func_of_def Let_def)
  moreover have "safe m 1 (p_if (at_token TkStar) (then_p skip (sret Star)) (sbind expect_column_ref (\<lambda>c. sret (AggColumn c))))" for m
    by (intro parse_rules) simp_all
  ultimately show ?thesis unfolding parse_aggregate_call_def by (intro safe_bind0 safe_then_expect safe_bind1 safe_sret) simp_all
qed

lemma safe_named: "safe n 0 (named name)"
  unfolding named_def by (intro parse_rules safe_bind1 [OF safe_aggregate_call]) simp_all

lemma safe_subquery: "safe n 1 st \<Longrightarrow> safe n 1 (subquery st)"
  unfolding subquery_def by (intro parse_rules safe_bind1) simp_all

lemma safe_primary:
  assumes "safe n 1 ex" "safe n 1 st"
  shows "safe (Suc n) 1 (primary ex st)"
proof -
  note sub = safe_mono [OF safe_subquery [OF assms(2)] _ le_refl]
  have "safe n 0 (then_p (expect TkLParen) (sbind (subquery st) (\<lambda>s. sret (EExists s))))"
    by (intro parse_rules safe_bind1 [OF sub]) simp_all
  moreover have "safe n 0 (p_if (at_keyword KwSelect) (sbind (subquery st) (\<lambda>s. sret (EScalarSubquery s)))
         (sbind ex (\<lambda>e. then_p (expect TkRParen) (sret e))))"
    by (intro safe_if safe_bind1 [OF sub] safe_bind1 [OF assms(1)] safe_then_expect safe_sret) simp_all
  moreover have "safe n 0 next_placeholder" by (simp add: safe_def lands_def next_placeholder_def)
  ultimately show ?thesis unfolding primary_def
    by (intro safe_advance) (auto simp: safe_sret safe_fail safe_named split: token.splits)
qed

lemma safe_postfix:
  assumes "safe n 1 ex" "safe n 1 st"
  shows "safe (Suc n) 1 (postfix ex st)"
proof -
  have "safe m 0 (p_if (at_keyword KwNot) (then_p skip (sret True)) (sret False))" for m by (intro parse_rules) simp_all
  then have "safe m 0 (p_if (at_keyword KwIs) (then_p skip
         (sbind (p_if (at_keyword KwNot) (then_p skip (sret True)) (sret False)) (\<lambda>negated.
          then_p (expect_keyword KwNull) (sret (EIsNull e negated))))) (sret e))" for m e
    by (intro safe_skip_if safe_bind0 safe_then_expect safe_sret) simp_all
  then show ?thesis unfolding postfix_def by (intro safe_bind1 [OF safe_primary [OF assms]]) simp
qed

lemma safe_prefix_loop:
  assumes "safe n 1 item"
  shows "safe (min n k) 1 (prefix_loop k t op item)"
proof (induction k)
  case (Suc k)
  show ?case unfolding prefix_loop.simps
    by (intro safe_skip_if safe_bind0 safe_mono [OF Suc] safe_sret safe_mono [OF assms]) auto
qed (simp add: safe_def)

lemma safe_binary_loop:
  assumes "safe n 1 item"
  shows "safe (min n k) 0 (binary_loop k op_of item left)"
proof (induction k arbitrary: left)
  case (Suc k)
  have step: "safe (min n (Suc k) - 1) (0 - 1) (sbind item (\<lambda>right. binary_loop k op_of item (EBinary op left right)))" for op
    by (intro safe_bind1 [OF safe_mono [OF assms]] safe_mono [OF Suc]) auto
  show ?case unfolding safe_def
  proof (intro allI impI)
    fix p :: parser assume p: "length (p_rest p) < min n (Suc k)"
    show "lands 0 (binary_loop (Suc k) op_of item left) p"
    proof (cases "Option.bind (peek p) op_of")
      case None
      then show ?thesis by (simp add: lands_def)
    next
      case (Some op)
      then obtain t ts where "p_rest p = t # ts" by (auto simp: peek_def split: list.splits)
      from lands_then_skip [OF step [of op] this p] Some show ?thesis by (simp add: lands_def)
    qed
  qed
qed (simp add: safe_def)

lemma safe_left_assoc:
  assumes "safe n 1 item"
  shows "safe n 1 (left_assoc op_of item)"
proof -
  have "safe (n - 1) (1 - 1) (\<lambda>p. binary_loop (Suc (length (p_rest p))) op_of item left p)" for left
    by (rule safe_fueled) (rule safe_mono [OF safe_binary_loop [OF assms]], auto)
  then show ?thesis unfolding left_assoc_def by (rule safe_bind1 [OF assms])
qed

lemma safe_unary:
  assumes "safe n 1 ex" "safe n 1 st"
  shows "safe (Suc n) 1 (unary ex st)"
  unfolding unary_def [abs_def] by (rule safe_fueled) (rule safe_prefix_loop [OF safe_postfix [OF assms]])

lemma safe_additive: "safe n 1 ex \<Longrightarrow> safe n 1 st \<Longrightarrow> safe (Suc n) 1 (additive ex st)"
  unfolding additive_def multiplicative_def by (intro safe_left_assoc safe_unary)

lemma safe_comparison_loop:
  assumes "safe (Suc n) 1 item" "safe n 1 st"
  shows "safe (min (Suc n) k) 0 (comparison_loop k item st left)"
proof (induction k arbitrary: left)
  case (Suc k)
  let ?n = "min (Suc n) (Suc k)"
  let ?in = "\<lambda>negated. then_p (expect TkLParen) (sbind (subquery st) (\<lambda>s. comparison_loop k item st (EInSubquery left s negated)))"
  have op: "safe (?n - 1) (0 - 1) (sbind item (\<lambda>right. comparison_loop k item st (EBinary op left right)))" for op
    by (intro safe_bind1 [OF safe_mono [OF assms(1)]] safe_mono [OF Suc]) auto
  have inq: "safe (?n - 1) (0 - 1) (?in b)" for b
    by (intro safe_then_expect safe_bind1 [OF safe_mono [OF safe_subquery [OF assms(2)]]] safe_mono [OF Suc]) auto
  show ?case unfolding safe_def
  proof (intro allI impI)
    fix p :: parser assume p: "length (p_rest p) < ?n"
    show "lands 0 (comparison_loop (Suc k) item st left) p"
    proof (cases "Option.bind (peek p) comparison_op")
      case (Some o')
      then obtain t ts where "p_rest p = t # ts" by (auto simp: peek_def split: list.splits)
      from lands_then_skip [OF op [of o'] this p] Some show ?thesis by (simp add: lands_def)
    next
      case None
      have "lands 0 (p_if at_not_in (then_p skip (then_p skip (?in True))) (p_if (at_keyword KwIn) (then_p skip (?in False)) (sret left))) p"
      proof (cases "at_not_in p")
        case True
        then obtain t u ts where ts: "p_rest p = t # u # ts" by (cases "p_rest p"; cases "tl (p_rest p)") (auto simp: at_not_in_def)
        have "lands 0 (then_p skip (?in True)) (p\<lparr>p_rest := u # ts\<rparr>)" using lands_then_skip [OF inq, of "p\<lparr>p_rest := u # ts\<rparr>"] p ts by simp
        then have "lands 0 (then_p skip (then_p skip (?in True))) p" using ts
          unfolding lands_def then_skip [of "then_p skip (?in True)"] by (auto intro: le_SucI)
        then show ?thesis using True by (simp add: lands_def p_if_def)
      next
        case False
        have "safe ?n 0 (p_if (at_keyword KwIn) (then_p skip (?in False)) (sret left))" by (intro safe_skip_if inq safe_sret) simp
        with p False show ?thesis by (auto simp: safe_def lands_def p_if_def [of at_not_in])
      qed
      with None show ?thesis by (simp add: lands_def Let_def)
    qed
  qed
qed (simp add: safe_def)

lemma safe_comparison:
  assumes "safe n 1 ex" "safe n 1 st"
  shows "safe (Suc n) 1 (comparison ex st)"
proof -
  have "safe (Suc n - 1) (1 - 1) (\<lambda>p. comparison_loop (Suc (length (p_rest p))) (additive ex st) st left p)" for left
    by (rule safe_fueled) (rule safe_mono [OF safe_comparison_loop [OF safe_additive [OF assms] assms(2)]], auto)
  then show ?thesis unfolding comparison_def by (rule safe_bind1 [OF safe_additive [OF assms]])
qed

lemma safe_not_expr:
  assumes "safe n 1 ex" "safe n 1 st"
  shows "safe (Suc n) 1 (not_expr ex st)"
  unfolding not_expr_def [abs_def] by (rule safe_fueled) (rule safe_prefix_loop [OF safe_comparison [OF assms]])

lemma safe_or_expr: "safe n 1 ex \<Longrightarrow> safe n 1 st \<Longrightarrow> safe (Suc n) 1 (or_expr ex st)"
  unfolding or_expr_def and_expr_def by (intro safe_left_assoc safe_not_expr)

lemma safe_optional: "safe (n - 1) d item \<Longrightarrow> safe n 0 (optional kw item)"
  unfolding optional_def by (intro safe_skip_if safe_bind0 safe_sret) (auto elim: safe_mono)

lemma safe_table_ref: "safe n 1 parse_table_ref"
proof -
  have "safe n 0 optional_alias" for n unfolding optional_alias_def by (intro parse_rules) simp_all
  then show ?thesis unfolding parse_table_ref_def by (intro safe_name_bind safe_bind0 safe_sret) simp_all
qed

lemma expect_then: "then_p (expect t) m p = (Inr x, q) \<Longrightarrow> \<exists>ts. p_rest p = t # ts \<and> m (p\<lparr>p_rest := ts\<rparr>) = (Inr x, q)"
  by (auto simp: then_p_def expect_def sbind_def p_if_def p_fail_def skip_def dest: at_token_rest split: if_splits)

text \<open>A join keyword was consumed exactly when the head of a join is there.\<close>

lemma join_head_lands: "join_head p = (Inr (Some kind), q) \<Longrightarrow> length (p_rest q) < length (p_rest p)"
  by (auto simp: join_head_def p_if_def then_skip dest!: at_token_rest expect_then split: if_splits)

lemma safe_join_head: "safe n 0 join_head"
  unfolding join_head_def by (intro parse_rules) simp_all

lemma safe_join_loop:
  assumes "safe n 1 ex"
  shows "safe (min n k) 0 (join_loop k ex)"
proof (induction k)
  case (Suc k)
  let ?rest = "\<lambda>kind. sbind parse_table_ref (\<lambda>joined.
         sbind (if kind = Cross then sret None else then_p (expect_keyword KwOn) (sbind ex (\<lambda>e. sret (Some e)))) (\<lambda>on.
         sbind (join_loop k ex) (\<lambda>js. sret (Join kind joined on # js))))"
  have "safe m 0 (if kind = Cross then sret None else then_p (expect_keyword KwOn) (sbind ex (\<lambda>e. sret (Some e))))" if "m \<le> n" for m kind
    using that by (cases "kind = Cross") (auto intro!: safe_then_expect safe_bind1 [OF safe_mono [OF assms]] safe_sret)
  then have rest: "safe (min n k) 0 (?rest kind)" for kind
    by (intro safe_bind1 [OF safe_table_ref] safe_bind0 safe_mono [OF Suc] safe_sret) auto
  show ?case unfolding safe_def join_loop.simps
  proof (intro allI impI lands_bind [where d = 0])
    fix p :: parser and kind q
    assume p: "length (p_rest p) < min n (Suc k)"
    then show "lands 0 join_head p" using safe_join_head [of "min n (Suc k)"] by (simp add: safe_def)
    assume h: "join_head p = (Inr kind, q)"
    show "lands (0 - 0) (case kind of None \<Rightarrow> sret [] | Some kind \<Rightarrow> ?rest kind) q"
    proof (cases kind)
      case (Some kd)
      with join_head_lands [of p kd q] h p have "length (p_rest q) < min n k" by simp
      with rest [of kd] Some show ?thesis by (simp add: safe_def)
    qed (simp add: lands_def)
  qed
qed (simp add: safe_def)

lemma safe_from: "safe n 1 ex \<Longrightarrow> safe n 1 (parse_from ex)"
proof -
  assume ex: "safe n 1 ex"
  have "safe (n - 1) (1 - 1) (\<lambda>p. join_loop (Suc (length (p_rest p))) ex p)"
    by (rule safe_fueled) (rule safe_mono [OF safe_join_loop [OF ex]], auto)
  then show ?thesis unfolding parse_from_def by (intro safe_bind1 [OF safe_table_ref] safe_bind0 safe_sret) simp_all
qed

lemma safe_projection: "safe n 1 ex \<Longrightarrow> safe n 1 (parse_projection ex)"
  unfolding parse_projection_def
  by (intro safe_skip_if safe_sret safe_bind1 [OF safe_commas] safe_bind1) simp_all

lemma safe_clauses: "safe n 0 optional_group_by" "safe n 0 optional_order_by" "safe n 0 optional_limit"
proof -
  have item: "safe n 1 order_item" for n
  proof -
    have "safe n 0 (p_if (at_keyword KwDesc) (then_p skip (sret True)) (p_if (at_keyword KwAsc) (then_p skip (sret False)) (sret False)))" for n
      by (intro parse_rules) simp_all
    then show ?thesis unfolding order_item_def by (intro safe_column_ref_bind safe_bind0 safe_sret) simp_all
  qed
  show "safe n 0 optional_order_by" unfolding optional_order_by_def
    by (intro safe_skip_if safe_then_expect safe_sret safe_mono [OF safe_commas [OF item] le_refl]) simp_all
  show "safe n 0 optional_group_by" unfolding optional_group_by_def
    by (intro safe_skip_if safe_then_expect safe_sret safe_mono [OF safe_commas [OF safe_column_ref] le_refl]) simp_all
  have count: "safe n 1 expect_count" for n
    unfolding expect_count_def by (intro safe_advance) (auto simp: safe_sret safe_fail split: token.splits)
  show "safe n 0 optional_limit" unfolding optional_limit_def
    by (intro safe_skip_if safe_bind1 [OF count] safe_bind0 [OF safe_optional [OF count]] safe_sret) simp_all
qed

lemma safe_select:
  assumes "safe n 1 ex"
  shows "safe (Suc n) 1 (select ex)"
proof -
  note ex = safe_mono [OF assms _ le_refl]
  show ?thesis unfolding select_def
    by (intro safe_then_expect safe_bind1 [OF safe_projection [OF ex]] safe_bind1 [OF safe_from [OF ex]]
        safe_bind0 [OF safe_optional [OF ex]] safe_bind0 [OF safe_clauses(1)] safe_bind0 [OF safe_clauses(2)]
        safe_bind0 [OF safe_clauses(3)]) (auto simp: safe_sret)
qed

lemma safe_insert:
  assumes "safe n 1 ex"
  shows "safe (Suc n) 1 (insert_statement ex)"
proof -
  have cols: "safe m 0 (p_if (at_token TkLParen) (then_p skip (sbind (in_parens expect_name) (\<lambda>ns. sret (Some ns)))) (sret None))" for m
    by (intro safe_skip_if safe_bind1 [OF safe_in_parens [OF safe_name]] safe_sret) simp_all
  have "safe m 1 (commas (then_p (expect TkLParen) (in_parens ex)))" if "m \<le> n" for m
    using that by (intro safe_commas safe_then_expect safe_mono [OF safe_in_parens [OF assms]]) simp_all
  then show ?thesis unfolding insert_statement_def
    by (intro safe_then_expect safe_name_bind safe_bind0 [OF cols] safe_bind1) (auto simp: safe_sret)
qed

lemma safe_update:
  assumes "safe n 1 ex"
  shows "safe (Suc n) 1 (update_statement ex)"
proof -
  note ex = safe_mono [OF assms _ le_refl]
  have "safe m 1 (commas (sbind expect_name (\<lambda>column. then_p (expect TkEq) (sbind ex (\<lambda>value. sret (column, value))))))" if "m \<le> n" for m
    using that by (intro safe_commas safe_name_bind safe_then_expect safe_bind1 [OF ex] safe_sret) simp_all
  then show ?thesis unfolding update_statement_def
    by (intro safe_then_expect safe_name_bind safe_bind1 safe_bind0 [OF safe_optional [OF ex]]) (auto simp: safe_sret)
qed

lemma safe_delete: "safe n 1 ex \<Longrightarrow> safe (Suc n) 1 (delete_statement ex)"
  unfolding delete_statement_def
  by (intro safe_then_expect safe_name_bind safe_bind0 [OF safe_optional [OF safe_mono [of n 1 ex _ 1]]] safe_sret) simp_all

lemma safe_statement:
  assumes "safe n 1 ex" "safe n 1 st"
  shows "safe (Suc n) 1 (parse_statement ex st)"
proof -
  have "safe n 0 (sbind (p_if (at_keyword KwAnalyze) (then_p skip (sret True)) (sret False)) (\<lambda>analyze.
     p_if (at_keyword KwSelect) (sbind st (\<lambda>inner. sret (Explain inner analyze))) p_fail))"
  proof (rule safe_bind0)
    show "safe n 0 (p_if (at_keyword KwAnalyze) (then_p skip (sret True)) (sret False))" by (intro parse_rules) simp_all
  qed (intro safe_if safe_fail safe_bind1 [OF assms(2)] safe_sret, simp)
  then show ?thesis unfolding parse_statement_def explain_statement_def
    by (intro safe_skip_if safe_if safe_fail safe_sret safe_select [OF assms(1)] safe_insert [OF assms(1)] safe_update [OF assms(1)]
        safe_delete [OF assms(1)] safe_create safe_drop safe_name_bind) simp_all
qed

lemma safe_parsers: "safe n 1 (expr_p n) \<and> safe n 1 (statement_p n)"
proof (induction n)
  case 0
  show ?case by (simp add: safe_def)
next
  case (Suc n)
  then show ?case using safe_or_expr safe_statement by (simp del: One_nat_def)
qed

lemma lex_string_error: "lex_string cs = Inl e \<Longrightarrow> e = Fail Parse"
  by (induction cs rule: lex_string.induct) (auto simp: rbind_def split: if_splits list.splits sum.splits)

lemma lex_one_error: "lex_one uc c cs = Inl e \<Longrightarrow> e = Fail Parse"
  using lex_string_error [of cs]
  by (auto simp: lex_one_def lex_number_def parse_i64_def rbind_def Let_def split: if_splits sum.splits list.splits)

lemma tokenize_error: "tokenize uc cs = Inl e \<Longrightarrow> e = Fail Parse"
  by (induction uc cs rule: tokenize.induct) (auto simp: tokenize.simps rbind_def dest: lex_one_error split: sum.splits)

text \<open>C15: Parsing returns on every input, with a statement or a parse error: the nesting never exceeds the
  number of tokens, no loop runs without consuming one, and no input makes the parser panic.\<close>

theorem parse_returns: "(\<exists>s. parse uc input = Inr s) \<or> parse uc input = Inl (Fail Parse)"
proof (cases "tokenize uc input")
  case (Inr ts)
  let ?p = "\<lparr>p_rest = ts, placeholder_count = 0\<rparr>"
  have "lands 1 (statement_p (Suc (length ts))) ?p" using safe_parsers [of "Suc (length ts)"] by (simp add: safe_def)
  then have "(\<exists>s. parse_tokens ts = Inr s) \<or> parse_tokens ts = Inl (Fail Parse)"
    by (cases "statement_p (Suc (length ts)) ?p") (auto simp: lands_def parse_tokens_def Let_def split: sum.splits)
  with Inr show ?thesis by (simp add: parse_def)
qed (use tokenize_error in \<open>auto simp: parse_def\<close>)

end
