(* ===== verification/Lexer_Spec.thy ===== *)
theory Lexer_Spec
  imports Lexer
begin

text \<open>
  The lexical grammar of the SQL dialect as an inductive relation between texts and token lists, and
  the proof that the scanner of \<^verbatim>\<open>sql/lexer.rs\<close> decides it: it accepts exactly the texts of the grammar
  and returns their tokens.
\<close>

section \<open>The spelling of a token\<close>

definition digits :: "uchar list \<Rightarrow> bool" where
  "digits cs \<longleftrightarrow> cs \<noteq> [] \<and> list_all is_ascii_digit cs"

definition quoted :: "uchar list \<Rightarrow> uchar list" where
  "quoted cs = concat (map (\<lambda>c. if c = 39 then [39, 39] else [c]) cs)"

definition word :: "unicode \<Rightarrow> uchar list \<Rightarrow> bool" where
  "word uc cs \<longleftrightarrow> (case cs of [] \<Rightarrow> False | c # _ \<Rightarrow> \<not> is_whitespace c \<and> (is_alphabetic uc c \<or> c = 95)) \<and> list_all (word_char uc) cs"

fun spells :: "unicode \<Rightarrow> token \<Rightarrow> uchar list \<Rightarrow> bool" where
  "spells uc (TkInteger n) cs \<longleftrightarrow> digits cs \<and> parse_i64 cs = Inr n"
| "spells uc (TkReal r) cs \<longleftrightarrow> (\<exists>whole frac. cs = whole @ 46 # frac \<and> digits whole \<and> digits frac \<and> r = parse_f64 whole frac)"
| "spells uc (TkStr s) cs \<longleftrightarrow> (\<exists>t. cs = 39 # quoted t @ [39] \<and> s = utf8_string t)"
| "spells uc (TkIdent w) cs \<longleftrightarrow> word uc cs \<and> from_word (utf8_string cs) = None \<and> w = utf8_string cs"
| "spells uc (TkKeyword k) cs \<longleftrightarrow> word uc cs \<and> from_word (utf8_string cs) = Some k"
| "spells uc TkComma cs \<longleftrightarrow> cs = [44]"
| "spells uc TkDot cs \<longleftrightarrow> cs = [46]"
| "spells uc TkSemicolon cs \<longleftrightarrow> cs = [59]"
| "spells uc TkLParen cs \<longleftrightarrow> cs = [40]"
| "spells uc TkRParen cs \<longleftrightarrow> cs = [41]"
| "spells uc TkStar cs \<longleftrightarrow> cs = [42]"
| "spells uc TkPlus cs \<longleftrightarrow> cs = [43]"
| "spells uc TkMinus cs \<longleftrightarrow> cs = [45]"
| "spells uc TkSlash cs \<longleftrightarrow> cs = [47]"
| "spells uc TkEq cs \<longleftrightarrow> cs = [61]"
| "spells uc TkNotEq cs \<longleftrightarrow> cs = [60, 62] \<or> cs = [33, 61]"
| "spells uc TkLt cs \<longleftrightarrow> cs = [60]"
| "spells uc TkLtEq cs \<longleftrightarrow> cs = [60, 61]"
| "spells uc TkGt cs \<longleftrightarrow> cs = [62]"
| "spells uc TkGtEq cs \<longleftrightarrow> cs = [62, 61]"
| "spells uc TkQuestion cs \<longleftrightarrow> cs = [63]"

text \<open>What may follow a token so that it is not a longer one: the scanner takes the longest match.\<close>

abbreviation "starts P cs \<equiv> (case cs of [] \<Rightarrow> False | c # _ \<Rightarrow> P c)"

fun ends :: "unicode \<Rightarrow> token \<Rightarrow> uchar list \<Rightarrow> bool" where
  "ends uc (TkInteger n) rest \<longleftrightarrow> \<not> starts is_ascii_digit rest \<and> \<not> (peek_eq rest 46 \<and> starts is_ascii_digit (tl rest))"
| "ends uc (TkReal r) rest \<longleftrightarrow> \<not> starts is_ascii_digit rest"
| "ends uc (TkStr s) rest \<longleftrightarrow> \<not> peek_eq rest 39"
| "ends uc (TkIdent w) rest \<longleftrightarrow> \<not> starts (word_char uc) rest"
| "ends uc (TkKeyword k) rest \<longleftrightarrow> \<not> starts (word_char uc) rest"
| "ends uc TkMinus rest \<longleftrightarrow> \<not> peek_eq rest 45"
| "ends uc TkLt rest \<longleftrightarrow> \<not> peek_eq rest 61 \<and> \<not> peek_eq rest 62"
| "ends uc TkGt rest \<longleftrightarrow> \<not> peek_eq rest 61"
| "ends uc t rest \<longleftrightarrow> True"

inductive spelled :: "unicode \<Rightarrow> token list \<Rightarrow> uchar list \<Rightarrow> bool" for uc where
  end_of_text: "spelled uc [] []"
| space: "is_whitespace c \<Longrightarrow> spelled uc ts text \<Longrightarrow> spelled uc ts (c # text)"
| comment: "list_all (\<lambda>c. c \<noteq> 10) cm \<Longrightarrow> text = [] \<or> peek_eq text 10 \<Longrightarrow> spelled uc ts text \<Longrightarrow> spelled uc ts (45 # 45 # cm @ text)"
| tok: "spells uc t cs \<Longrightarrow> ends uc t text \<Longrightarrow> spelled uc ts text \<Longrightarrow> spelled uc (t # ts) (cs @ text)"

section \<open>The scanner accepts the grammar\<close>

lemma utf8_simps [simp]: "utf8_string [] = []" "utf8_string (c # cs) = utf8_char c @ utf8_string cs"
  by (simp_all add: utf8_string_def)

lemma quoted_simps [simp]: "quoted [] = []" "quoted (c # cs) = (if c = 39 then [39, 39] else [c]) @ quoted cs"
  by (simp_all add: quoted_def)

lemma lex_string_quoted: "\<not> peek_eq rest 39 \<Longrightarrow> lex_string (quoted t @ 39 # rest) = Inr (utf8_string t, rest)"
  by (induction t) (auto simp: peek_eq_def split: list.splits)

lemma span_all: "list_all P cs \<Longrightarrow> \<not> starts P rest \<Longrightarrow> takeWhile P (cs @ rest) = cs \<and> dropWhile P (cs @ rest) = rest"
  by (induction cs) (auto split: list.splits)

lemma lex_number_integer:
  assumes "digits cs" "parse_i64 cs = Inr n" "ends uc (TkInteger n) rest"
  shows "lex_number (cs @ rest) = Inr (TkInteger n, rest)"
proof -
  have "takeWhile is_ascii_digit (cs @ rest) = cs" "dropWhile is_ascii_digit (cs @ rest) = rest"
    using span_all [of is_ascii_digit cs rest] assms(1,3) by (auto simp: digits_def)
  then show ?thesis using assms(2,3) by (auto simp: lex_number_def peek_eq_def split: list.splits)
qed

lemma lex_number_real:
  assumes "digits whole" "digits frac" "\<not> starts is_ascii_digit rest"
  shows "lex_number (whole @ 46 # frac @ rest) = Inr (TkReal (parse_f64 whole frac), rest)"
proof -
  have "\<not> starts is_ascii_digit (46 # frac @ rest)" by (simp add: is_ascii_digit_def)
  then have w: "takeWhile is_ascii_digit (whole @ 46 # frac @ rest) = whole" "dropWhile is_ascii_digit (whole @ 46 # frac @ rest) = 46 # frac @ rest"
    using span_all [of is_ascii_digit whole "46 # frac @ rest"] assms(1) by (auto simp: digits_def)
  obtain d ds where f: "frac = d # ds" "is_ascii_digit d" using assms(2) by (cases frac) (auto simp: digits_def)
  have "takeWhile is_ascii_digit (frac @ rest) = frac" "dropWhile is_ascii_digit (frac @ rest) = rest"
    using span_all [of is_ascii_digit frac rest] assms(2,3) by (auto simp: digits_def)
  then show ?thesis unfolding lex_number_def w Let_def using f by simp
qed

lemma digit_char: "is_ascii_digit c \<Longrightarrow> \<not> is_whitespace c \<and> c \<notin> {45, 44, 46, 59, 40, 41, 42, 43, 47, 61, 63, 60, 62, 33, 39}"
  by (auto simp: is_ascii_digit_def is_whitespace_def)

lemma letter_char: "is_alphabetic uc c \<or> c = 95 \<Longrightarrow> c \<notin> {45, 44, 46, 59, 40, 41, 42, 43, 47, 61, 63, 60, 62, 33, 39} \<and> \<not> is_ascii_digit c"
  by (auto simp: is_ascii_digit_def is_alphabetic_def split: if_splits)

lemma lex_one_digit:
  "is_ascii_digit c \<Longrightarrow> lex_one uc c cs = rbind (lex_number (c # cs)) (\<lambda>(t, rest). Inr (Some t, rest))"
  using digit_char [of c] by (simp add: lex_one_def)

lemma lex_one_quote: "lex_one uc 39 cs = rbind (lex_string cs) (\<lambda>(s, rest). Inr (Some (TkStr s), rest))"
  by (simp add: lex_one_def is_whitespace_def)

lemma lex_one_word:
  assumes "word uc (c # cs)" "\<not> starts (word_char uc) rest"
  shows "lex_one uc c (cs @ rest) = Inr (Some (word_token (c # cs)), rest)"
proof -
  have "takeWhile (word_char uc) ((c # cs) @ rest) = c # cs" "dropWhile (word_char uc) ((c # cs) @ rest) = rest"
    using span_all [of "word_char uc" "c # cs" rest] assms by (auto simp: word_def)
  moreover have "\<not> is_whitespace c" "is_alphabetic uc c \<or> c = 95" using assms(1) by (auto simp: word_def)
  ultimately show ?thesis using letter_char [of uc c] by (simp add: lex_one_def)
qed

lemma peek_eq_Cons [simp]: "peek_eq (c # cs) d = (c = d)"
  by (simp add: peek_eq_def)

lemma spells_lex_one:
  assumes "spells uc t cs" "ends uc t rest"
  shows "\<exists>c ds. cs = c # ds \<and> lex_one uc c (ds @ rest) = Inr (Some t, rest)"
proof (cases t)
  case (TkInteger n)
  then obtain c ds where c: "cs = c # ds" "is_ascii_digit c" using assms(1) by (cases cs) (auto simp: digits_def)
  then show ?thesis using lex_number_integer [of cs n uc rest] assms TkInteger by (simp add: lex_one_digit)
next
  case (TkReal r)
  then obtain whole frac where f: "cs = whole @ 46 # frac" "digits whole" "digits frac" "r = parse_f64 whole frac" using assms(1) by auto
  then obtain c ds where c: "whole = c # ds" "is_ascii_digit c" by (cases whole) (auto simp: digits_def)
  then show ?thesis using lex_number_real [OF f(2,3), of rest] assms(2) TkReal f by (simp add: lex_one_digit)
next
  case (TkStr s)
  then obtain t' where "cs = 39 # quoted t' @ [39]" "s = utf8_string t'" using assms(1) by auto
  then show ?thesis using assms(2) TkStr lex_string_quoted [of rest t'] by (simp add: lex_one_quote)
next
  case (TkIdent w)
  then obtain c ds where "cs = c # ds" using assms(1) by (cases cs) (auto simp: word_def)
  then show ?thesis using lex_one_word [of uc c ds rest] assms TkIdent by (simp add: word_token_def)
next
  case (TkKeyword w)
  then obtain c ds where "cs = c # ds" using assms(1) by (cases cs) (auto simp: word_def)
  then show ?thesis using lex_one_word [of uc c ds rest] assms TkKeyword by (simp add: word_token_def)
next
  case TkNotEq
  then have "cs = [60, 62] \<or> cs = [33, 61]" using assms(1) by simp
  then show ?thesis using TkNotEq by (elim disjE) (simp_all add: lex_one_def is_whitespace_def)
qed (use assms in \<open>simp_all add: lex_one_def is_whitespace_def\<close>)

lemma tokenize_spells:
  "spells uc t cs \<Longrightarrow> ends uc t rest \<Longrightarrow> tokenize uc (cs @ rest) = rbind (tokenize uc rest) (\<lambda>ts. Inr (t # ts))"
  using spells_lex_one [of uc t cs rest] by (auto simp: tokenize.simps)

lemma tokenize_space: "is_whitespace c \<Longrightarrow> tokenize uc (c # cs) = tokenize uc cs"
  by (cases "tokenize uc cs") (simp_all add: tokenize.simps lex_one_def)

lemma tokenize_comment:
  assumes "list_all (\<lambda>c. c \<noteq> 10) cm" "text = [] \<or> peek_eq text 10"
  shows "tokenize uc (45 # 45 # cm @ text) = tokenize uc text"
proof -
  have "dropWhile (\<lambda>d. d \<noteq> 10) (cm @ text) = text"
    using span_all [of "\<lambda>d. d \<noteq> 10" cm "text"] assms by (auto simp: peek_eq_def split: list.splits)
  then show ?thesis by (cases "tokenize uc text") (simp_all add: tokenize.simps lex_one_def is_whitespace_def)
qed

lemma spelled_tokenize: "spelled uc ts text \<Longrightarrow> tokenize uc text = Inr ts"
  by (induction rule: spelled.induct) (simp_all add: tokenize_space tokenize_comment tokenize_spells)

section \<open>The scanner accepts nothing else\<close>

lemma lex_string_inverse:
  "lex_string cs = Inr (s, rest) \<Longrightarrow> \<exists>t. cs = quoted t @ 39 # rest \<and> s = utf8_string t \<and> \<not> peek_eq rest 39"
proof (induction cs arbitrary: s rest rule: lex_string.induct)
  case (2 c cs)
  show ?case
  proof (cases "c = 39")
    case False
    then obtain s' where s: "lex_string cs = Inr (s', rest)" "s = utf8_char c @ s'" using "2.prems" by (auto simp: rbind_Inr_iff)
    from "2.IH"(2) [OF False s(1)] obtain t where "cs = quoted t @ 39 # rest" "s' = utf8_string t" "\<not> peek_eq rest 39" by blast
    then show ?thesis using s(2) False by (intro exI [of _ "c # t"]) simp
  next
    case True
    show ?thesis
    proof (cases "peek_eq cs 39")
      case quote: True
      then obtain ds where ds: "cs = 39 # ds" by (auto simp: peek_eq_def split: list.splits)
      then obtain s' where s: "lex_string ds = Inr (s', rest)" "s = utf8_char 39 @ s'" using "2.prems" True by (auto simp: rbind_Inr_iff)
      from "2.IH"(1) [OF True ds refl s(1)] obtain t where "ds = quoted t @ 39 # rest" "s' = utf8_string t" "\<not> peek_eq rest 39" by blast
      then show ?thesis using s(2) True ds by (intro exI [of _ "39 # t"]) simp
    next
      case False
      then show ?thesis using "2.prems" True by (intro exI [of _ "[]"]) (auto simp: peek_eq_def split: list.splits)
    qed
  qed
qed simp

lemma span_inverse: "takeWhile P cs @ dropWhile P cs = cs" "list_all P (takeWhile P cs)" "\<not> starts P (dropWhile P cs)"
  by (induction cs) auto

lemma no_fraction:
  assumes "\<not> (peek_eq rest 46 \<and> starts is_ascii_digit (tl rest))"
  shows "(case rest of [] \<Rightarrow> x | [p] \<Rightarrow> x | p # d # ds \<Rightarrow> if p = 46 \<and> is_ascii_digit d then f d ds else x) = x"
  using assms by (auto simp: peek_eq_def split: list.splits)

lemma lex_number_inverse:
  assumes "is_ascii_digit c" "lex_number (c # cs) = Inr (t, rest)"
  shows "\<exists>ds. c # cs = ds @ rest \<and> spells uc t ds \<and> ends uc t rest"
proof -
  let ?whole = "takeWhile is_ascii_digit (c # cs)" and ?rest = "dropWhile is_ascii_digit (c # cs)"
  have w: "digits ?whole" "c # cs = ?whole @ ?rest" "\<not> starts is_ascii_digit ?rest"
    using span_inverse [of is_ascii_digit "c # cs"] assms(1) by (simp_all add: digits_def)
  show ?thesis
  proof (cases "peek_eq ?rest 46 \<and> starts is_ascii_digit (tl ?rest)")
    case True
    then obtain d ds where r: "?rest = 46 # d # ds" "is_ascii_digit d" by (auto simp: peek_eq_def split: list.splits)
    let ?frac = "takeWhile is_ascii_digit (d # ds)"
    have f: "digits ?frac" "d # ds = ?frac @ dropWhile is_ascii_digit (d # ds)" "\<not> starts is_ascii_digit (dropWhile is_ascii_digit (d # ds))"
      using span_inverse [of is_ascii_digit "d # ds"] r(2) by (simp_all add: digits_def)
    have t: "t = TkReal (parse_f64 ?whole ?frac)" "rest = dropWhile is_ascii_digit (d # ds)"
      using assms(2) unfolding lex_number_def Let_def r(1) using r(2) by simp_all
    have "c # cs = ?whole @ 46 # d # ds" using w(2) r(1) by (simp only:)
    then have "c # cs = (?whole @ 46 # ?frac) @ rest" using f(2) t(2) by (metis append.assoc append_Cons)
    moreover have "spells uc t (?whole @ 46 # ?frac)" unfolding t(1) spells.simps using w(1) f(1) by blast
    moreover have "ends uc t rest" unfolding t(1) ends.simps t(2) by (rule f(3))
    ultimately show ?thesis by blast
  next
    case False
    have "rbind (parse_i64 ?whole) (\<lambda>n. Inr (TkInteger n, ?rest)) = Inr (t, rest)"
      using assms(2) unfolding lex_number_def Let_def no_fraction [OF False] .
    then obtain n where "parse_i64 ?whole = Inr n" "t = TkInteger n" "rest = ?rest" by (auto simp: rbind_Inr_iff)
    with w False show ?thesis by (intro exI [of _ ?whole]) auto
  qed
qed

lemma peek_eq_hd: "peek_eq cs d \<Longrightarrow> cs = d # tl cs"
  by (auto simp: peek_eq_def split: list.splits)

lemma lex_one_token:
  assumes "lex_one uc c cs = Inr (Some t, rest)"
  shows "\<exists>ds. c # cs = ds @ rest \<and> spells uc t ds \<and> ends uc t rest"
proof -
  consider (digit) "is_ascii_digit c" | (quote) "c = 39" | (letter) "\<not> is_whitespace c" "is_alphabetic uc c \<or> c = 95"
    | (other) "\<not> is_ascii_digit c" "c \<noteq> 39" "\<not> (is_alphabetic uc c \<or> c = 95)" "\<not> is_whitespace c"
    using assms by (auto simp: lex_one_def split: if_splits)
  then show ?thesis
  proof cases
    case digit
    then show ?thesis using assms lex_number_inverse [OF digit] by (auto simp: lex_one_digit rbind_Inr_iff)
  next
    case quote
    then obtain s where s: "lex_string cs = Inr (s, rest)" "t = TkStr s" using assms by (auto simp: lex_one_quote rbind_Inr_iff)
    from lex_string_inverse [OF s(1)] obtain u where "cs = quoted u @ 39 # rest" "s = utf8_string u" "\<not> peek_eq rest 39" by blast
    then show ?thesis using quote s(2) by (intro exI [of _ "39 # quoted u @ [39]"]) auto
  next
    case letter
    let ?w = "takeWhile (word_char uc) (c # cs)"
    have t: "t = word_token ?w" "rest = dropWhile (word_char uc) (c # cs)"
      using assms letter letter_char [of uc c] by (simp_all add: lex_one_def)
    have w: "word uc ?w" using letter span_inverse(2) [of "word_char uc" "c # cs"] by (auto simp: word_def is_alphanumeric_def)
    have "spells uc t ?w \<and> ends uc t rest"
      using w span_inverse(3) [of "word_char uc" "c # cs"] unfolding t(1) word_token_def t(2) by (auto split: option.splits)
    then show ?thesis using span_inverse(1) [of "word_char uc" "c # cs"] t(2) by metis
  next
    case other
    have "\<exists>ds. (ds = [] \<or> ds = [hd cs] \<and> cs \<noteq> []) \<and> cs = ds @ rest \<and> spells uc t (c # ds) \<and> ends uc t rest"
      using assms other peek_eq_hd [of cs] unfolding lex_one_def Let_def
      by (simp split: if_splits) (force simp: peek_eq_def split: list.splits)+
    then show ?thesis by (metis append_Cons)
  qed
qed

lemma tokenize_spelled: "tokenize uc text = Inr ts \<Longrightarrow> spelled uc ts text"
proof (induction uc "text" arbitrary: ts rule: tokenize.induct)
  case (2 uc c cs)
  obtain t rest us where l: "lex_one uc c cs = Inr (t, rest)" "tokenize uc rest = Inr us"
    "ts = (case t of None \<Rightarrow> us | Some t \<Rightarrow> t # us)" using "2.prems" by (auto simp: tokenize.simps rbind_Inr_iff)
  have us: "spelled uc us rest" by (rule "2.IH" [OF l(1) refl l(2)])
  show ?case
  proof (cases t)
    case (Some tk)
    from lex_one_token [OF l(1) [unfolded Some]] obtain ds where "c # cs = ds @ rest" "spells uc tk ds" "ends uc tk rest" by blast
    then show ?thesis using spelled.tok [of uc tk ds rest us] us l(3) Some by simp
  next
    case None
    show ?thesis
    proof (cases "is_whitespace c")
      case True
      then show ?thesis using l None us by (auto simp: lex_one_def intro: spelled.space)
    next
      case False
      then have c: "c = 45" "peek_eq cs 45" "rest = dropWhile (\<lambda>d. d \<noteq> 10) cs"
        using l(1) None by (auto simp: lex_one_def Let_def rbind_Inr_iff split: if_splits)
      then obtain ds where ds: "cs = 45 # ds" "rest = dropWhile (\<lambda>d. d \<noteq> 10) ds" by (auto dest: peek_eq_hd)
      have "rest = [] \<or> peek_eq rest 10" using span_inverse(3) [of "\<lambda>d. d \<noteq> 10" ds] ds(2) by (auto simp: peek_eq_def split: list.splits)
      from spelled.comment [OF span_inverse(2) [of "\<lambda>d. d \<noteq> 10" ds] this us] c(1) ds l(3) None show ?thesis by simp
    qed
  qed
qed (auto intro: spelled.end_of_text)

text \<open>C14: The scanner decides the lexical grammar: a text yields a list of tokens exactly when it is a
  spelling of them, with white space and comments between, every token the longest that fits.\<close>

theorem tokenize_exact: "tokenize uc text = Inr ts \<longleftrightarrow> spelled uc ts text"
  using spelled_tokenize tokenize_spelled by blast

end
