(* ===== verification/Sql_Print.thy ===== *)
theory Sql_Print
  imports Parser Lexer_Spec
begin

text \<open>
  Printing expressions with the fewest parentheses the grammar of \<^verbatim>\<open>sql/parser.rs\<close> allows, and the proof
  that the parser reads them back: the precedence and associativity of every operator.
\<close>

section \<open>Printing\<close>

fun op_level :: "binary_op \<Rightarrow> nat" where
  "op_level Or = 0"
| "op_level And = 1"
| "op_level Add = 4"
| "op_level Sub = 4"
| "op_level Mul = 5"
| "op_level Div = 5"
| "op_level _ = 3"

fun op_token :: "binary_op \<Rightarrow> token" where
  "op_token Add = TkPlus"
| "op_token Sub = TkMinus"
| "op_token Mul = TkStar"
| "op_token Div = TkSlash"
| "op_token Eq = TkEq"
| "op_token NotEq = TkNotEq"
| "op_token Lt = TkLt"
| "op_token LtEq = TkLtEq"
| "op_token Gt = TkGt"
| "op_token GtEq = TkGtEq"
| "op_token And = TkKeyword KwAnd"
| "op_token Or = TkKeyword KwOr"

fun level :: "expr \<Rightarrow> nat" where
  "level (EBinary op _ _) = op_level op"
| "level (EUnary Not _) = 2"
| "level (EUnary Neg _) = 6"
| "level (EIsNull _ _) = 7"
| "level _ = 8"

definition func_name :: "aggregate_func \<Rightarrow> bytes" where
  "func_name f = ascii (case f of Count \<Rightarrow> ''COUNT'' | Sum \<Rightarrow> ''SUM'' | Avg \<Rightarrow> ''AVG'' | Min \<Rightarrow> ''MIN'' | Max \<Rightarrow> ''MAX'')"

definition print_column :: "column_ref \<Rightarrow> token list" where
  "print_column c = (case cr_table c of None \<Rightarrow> [TkIdent (cr_name c)] | Some t \<Rightarrow> [TkIdent t, TkDot, TkIdent (cr_name c)])"

definition parens :: "bool \<Rightarrow> token list \<Rightarrow> token list" where
  "parens b ts = (if b then TkLParen # ts @ [TkRParen] else ts)"

fun print_expr :: "nat \<Rightarrow> expr \<Rightarrow> token list" where
  "print_expr l (EBinary op a b) = parens (op_level op < l) (print_expr (op_level op) a @ op_token op # print_expr (Suc (op_level op)) b)"
| "print_expr l (EUnary Not a) = parens (2 < l) (TkKeyword KwNot # print_expr 2 a)"
| "print_expr l (EUnary Neg a) = parens (6 < l) (TkMinus # print_expr 6 a)"
| "print_expr l (EIsNull a n) = parens (7 < l) (print_expr 8 a @ TkKeyword KwIs # (if n then [TkKeyword KwNot] else []) @ [TkKeyword KwNull])"
| "print_expr l (EInteger n) = [TkInteger n]"
| "print_expr l (EReal r) = [TkReal r]"
| "print_expr l (EStr s) = [TkStr s]"
| "print_expr l (EBool b) = [TkKeyword (if b then KwTrue else KwFalse)]"
| "print_expr l (EColumn c) = print_column c"
| "print_expr l (EAggregate a) =
     TkIdent (func_name (agg_func a)) # TkLParen # (case agg_arg a of Star \<Rightarrow> [TkStar] | AggColumn c \<Rightarrow> print_column c) @ [TkRParen]"
| "print_expr l e = [TkKeyword KwNull]"

text \<open>Expressions without subqueries and placeholders.\<close>

fun plain_expr :: "expr \<Rightarrow> bool" where
  "plain_expr (EBinary op a b) = (plain_expr a \<and> plain_expr b)"
| "plain_expr (EUnary op a) = plain_expr a"
| "plain_expr (EIsNull a n) = plain_expr a"
| "plain_expr e = (e = ENull \<or> (\<exists>n. e = EInteger n) \<or> (\<exists>r. e = EReal r) \<or> (\<exists>s. e = EStr s) \<or> (\<exists>b. e = EBool b)
     \<or> (\<exists>c. e = EColumn c) \<or> (\<exists>a. e = EAggregate a))"

section \<open>What ends an expression\<close>

text \<open>The level at which a token would continue an expression.\<close>

definition continues :: "token \<Rightarrow> nat option" where
  "continues t =
     (if t = TkLParen \<or> t = TkDot then Some 8
      else if t = TkKeyword KwIs then Some 7
      else if t = TkStar \<or> t = TkSlash then Some 5
      else if t = TkPlus \<or> t = TkMinus then Some 4
      else if t \<in> {TkEq, TkNotEq, TkLt, TkLtEq, TkGt, TkGtEq, TkKeyword KwNot, TkKeyword KwIn} then Some 3
      else if t = TkKeyword KwAnd then Some 1
      else if t = TkKeyword KwOr then Some 0
      else None)"

definition stops :: "nat \<Rightarrow> token list \<Rightarrow> bool" where
  "stops l ts \<longleftrightarrow> (case ts of [] \<Rightarrow> True | t # _ \<Rightarrow> (case continues t of None \<Rightarrow> True | Some k \<Rightarrow> k < l))"

lemma stops_mono: "stops l ts \<Longrightarrow> l \<le> k \<Longrightarrow> stops k ts"
  by (auto simp: stops_def split: list.splits option.splits)

lemma stops_op: "stops (Suc (op_level op)) (op_token op # ts)"
  by (cases op) (simp_all add: stops_def continues_def)

section \<open>Running the levels\<close>

abbreviation "at_tokens ts c \<equiv> \<lparr>p_rest = ts, placeholder_count = c\<rparr>"

definition reads :: "'a parse \<Rightarrow> token list \<Rightarrow> 'a \<Rightarrow> token list \<Rightarrow> bool" where
  "reads m ts x rest \<longleftrightarrow> (\<forall>c. m (at_tokens ts c) = (Inr x, at_tokens rest c))"

lemma reads_bind: "reads m ts x rest \<Longrightarrow> reads (f x) rest y rest' \<Longrightarrow> reads (sbind m f) ts y rest'"
  by (simp add: reads_def sbind_def)

lemma reads_sret: "reads (sret x) ts x ts"
  by (simp add: reads_def)

lemma reads_then_skip: "reads m ts x rest \<Longrightarrow> reads (then_p skip m) (t # ts) x rest"
  by (simp add: reads_def then_skip)

lemma reads_expect: "reads m ts x rest \<Longrightarrow> reads (then_p (expect t) m) (t # ts) x rest"
  by (simp add: reads_def then_p_def expect_def p_if_def at_token_def peek_def skip_def sbind_def)

lemma reads_if: "reads (p_if (at_token t) a b) (u # ts) x rest = (if u = t then reads a (u # ts) x rest else reads b (u # ts) x rest)"
  "reads (p_if (at_token t) a b) [] x rest = reads b [] x rest"
  by (auto simp: reads_def p_if_def at_token_def peek_def)

lemma reads_advance: "reads (f (Some t)) ts x rest \<Longrightarrow> reads (sbind advance f) (t # ts) x rest"
  by (simp add: reads_def sbind_def advance_def peek_def)

lemma reads_name: "reads expect_name (TkIdent n # ts) n ts"
  unfolding expect_name_def by (rule reads_advance) (simp add: reads_sret)

text \<open>More fuel does not change a loop that has enough.\<close>

lemma binary_loop_fuel:
  assumes "safe n 1 item" "length (p_rest p) < n" "length (p_rest p) < k" "k \<le> k'"
  shows "binary_loop k' op_of item left p = binary_loop k op_of item left p"
  using assms(2-)
proof (induction k arbitrary: k' p left)
  case (Suc k)
  obtain j where k': "k' = Suc j" using Suc.prems(3) by (cases k') auto
  show ?case
  proof (cases "Option.bind (peek p) op_of")
    case (Some op)
    then obtain t ts where p: "p_rest p = t # ts" by (auto simp: peek_def split: list.splits)
    let ?q = "p\<lparr>p_rest := ts\<rparr>"
    have "lands 1 item ?q" using assms(1) Suc.prems(1) p by (simp add: safe_def)
    then have "binary_loop j op_of item (EBinary op left x) q = binary_loop k op_of item (EBinary op left x) q"
      if "item ?q = (Inr x, q)" for x q
      using that Suc.prems p k' by (intro Suc.IH) (auto simp: lands_def)
    then show ?thesis using Some p k' by (auto simp: then_skip sbind_def split: prod.splits sum.splits)
  qed (simp add: k')
qed simp

definition loop_from :: "(token \<Rightarrow> binary_op option) \<Rightarrow> expr parse \<Rightarrow> expr \<Rightarrow> expr parse" where
  "loop_from op_of item left p = binary_loop (Suc (length (p_rest p))) op_of item left p"

lemma left_assoc_loop: "left_assoc op_of item = sbind item (loop_from op_of item)"
  by (simp add: left_assoc_def loop_from_def [abs_def])

lemma loop_from_step:
  assumes "safe n 1 item" "length ts < n" "op_of t = Some op" "reads item ts x rest" "length rest < length ts"
  shows "loop_from op_of item left (at_tokens (t # ts) c) = loop_from op_of item (EBinary op left x) (at_tokens rest c)"
proof -
  have "binary_loop (Suc (length ts)) op_of item (EBinary op left x) (at_tokens rest c)
      = binary_loop (Suc (length rest)) op_of item (EBinary op left x) (at_tokens rest c)"
    using assms(2,5) by (intro binary_loop_fuel [OF assms(1)]) simp_all
  then show ?thesis using assms(3,4) by (simp add: loop_from_def peek_def then_skip sbind_def reads_def)
qed

lemma loop_from_stop: "Option.bind (peek p) op_of = None \<Longrightarrow> loop_from op_of item left p = (Inr left, p)"
  by (simp add: loop_from_def)

text \<open>The same for the comparison level, whose loop also takes subqueries.\<close>

lemma sbind_same:
  assumes "\<And>x q. m p = (Inr x, q) \<Longrightarrow> f x q = g x q"
  shows "sbind m f p = sbind m g p"
  using assms by (auto simp: sbind_def split: prod.splits sum.splits)

lemma comparison_loop_fuel:
  assumes "safe (Suc n) 1 item" "safe n 1 st" "length (p_rest p) \<le> n" "length (p_rest p) < k" "k \<le> k'"
  shows "comparison_loop k' item st left p = comparison_loop k item st left p"
  using assms(3-)
proof (induction k arbitrary: k' p left)
  case (Suc k)
  obtain j where k': "k' = Suc j" using Suc.prems(3) by (cases k') auto
  have same: "comparison_loop j item st l' q = comparison_loop k item st l' q" if "length (p_rest q) < length (p_rest p)" for l' q
    using that Suc.prems k' by (intro Suc.IH) auto
  have inq: "then_p (expect TkLParen) (sbind (subquery st) (\<lambda>s. comparison_loop j item st (EInSubquery left s b))) q
      = then_p (expect TkLParen) (sbind (subquery st) (\<lambda>s. comparison_loop k item st (EInSubquery left s b))) q"
    if q: "length (p_rest q) < length (p_rest p)" for b q
    unfolding then_p_def
  proof (intro sbind_same same)
    fix u r s t assume e: "expect TkLParen q = (Inr u, r)" "subquery st r = (Inr s, t)"
    have "lands 1 (expect TkLParen) q" using safe_expect [of "Suc (length (p_rest q))"] by (simp add: safe_def)
    then have r: "length (p_rest r) < length (p_rest q)" using e(1) by (simp add: lands_def)
    then have "lands 1 (subquery st) r" using safe_subquery [OF assms(2)] q Suc.prems(1) by (simp add: safe_def)
    then have "length (p_rest t) < length (p_rest r)" using e(2) by (simp add: lands_def)
    then show "length (p_rest t) < length (p_rest p)" using q r by simp
  qed
  show ?case
  proof (cases "Option.bind (peek p) comparison_op")
    case (Some op)
    then obtain t ts where p: "p_rest p = t # ts" by (auto simp: peek_def split: list.splits)
    let ?q = "p\<lparr>p_rest := ts\<rparr>"
    have "lands 1 item ?q" using assms(1) Suc.prems(1) p by (simp add: safe_def)
    then have "sbind item (\<lambda>x. comparison_loop j item st (EBinary op left x)) ?q = sbind item (\<lambda>x. comparison_loop k item st (EBinary op left x)) ?q"
      using p by (intro sbind_same same) (auto simp: lands_def)
    then show ?thesis using Some p k' by (simp add: then_skip)
  next
    case None
    have "comparison_loop k' item st left p = comparison_loop (Suc k) item st left p" if ni: "at_not_in p"
    proof -
      obtain t u ts where ts: "p_rest p = t # u # ts" using ni by (cases "p_rest p"; cases "tl (p_rest p)") (auto simp: at_not_in_def)
      then show ?thesis using ni None k' inq [of "p\<lparr>p_rest := ts\<rparr>" True] by (simp add: p_if_def then_skip)
    qed
    moreover have "comparison_loop k' item st left p = comparison_loop (Suc k) item st left p" if "\<not> at_not_in p"
    proof (cases "at_keyword KwIn p")
      case True
      then obtain ts where "p_rest p = TkKeyword KwIn # ts" using at_token_rest by blast
      then show ?thesis using that True None k' inq [of "p\<lparr>p_rest := ts\<rparr>" False] by (simp add: p_if_def then_skip)
    qed (use that None k' in \<open>simp add: p_if_def\<close>)
    ultimately show ?thesis by blast
  qed
qed simp

definition comparison_from :: "expr parse \<Rightarrow> statement parse \<Rightarrow> expr \<Rightarrow> expr parse" where
  "comparison_from item st left p = comparison_loop (Suc (length (p_rest p))) item st left p"

lemma comparison_loop_eq: "comparison ex st = sbind (additive ex st) (comparison_from (additive ex st) st)"
  by (simp add: comparison_def comparison_from_def [abs_def])

lemma comparison_from_step:
  assumes "safe (Suc n) 1 item" "safe n 1 st" "length ts \<le> n" "comparison_op t = Some op" "reads item ts x rest" "length rest < length ts"
  shows "comparison_from item st left (at_tokens (t # ts) c) = comparison_from item st (EBinary op left x) (at_tokens rest c)"
proof -
  have "comparison_loop (Suc (length ts)) item st (EBinary op left x) (at_tokens rest c)
      = comparison_loop (Suc (length rest)) item st (EBinary op left x) (at_tokens rest c)"
    using assms(3,6) by (intro comparison_loop_fuel [OF assms(1,2)]) simp_all
  then show ?thesis using assms(4,5) by (simp add: comparison_from_def peek_def then_skip sbind_def reads_def)
qed

section \<open>Reading what was printed\<close>

definition level_parser :: "nat \<Rightarrow> expr parse \<Rightarrow> statement parse \<Rightarrow> expr parse" where
  "level_parser l =
     (if l = 0 then or_expr else if l = 1 then and_expr else if l = 2 then not_expr else if l = 3 then comparison
      else if l = 4 then additive else if l = 5 then multiplicative else if l = 6 then unary else if l = 7 then postfix else primary)"

definition level_ops :: "nat \<Rightarrow> token \<Rightarrow> binary_op option" where
  "level_ops l = (if l = 0 then or_op else if l = 1 then and_op else if l = 4 then add_op else mul_op)"

definition chained :: "nat \<Rightarrow> bool" where
  "chained l \<longleftrightarrow> l \<in> {0, 1, 3, 4, 5}"

text \<open>The loop of a chained level from a left operand on.\<close>

definition chain_from :: "nat \<Rightarrow> nat \<Rightarrow> expr \<Rightarrow> expr parse" where
  "chain_from l n =
     (if l = 3 then comparison_from (level_parser 4 (expr_p n) (statement_p n)) (statement_p n)
      else loop_from (level_ops l) (level_parser (Suc l) (expr_p n) (statement_p n)))"

definition parses_at :: "nat \<Rightarrow> expr \<Rightarrow> bool" where
  "parses_at l e \<longleftrightarrow> (\<forall>n rest. stops l rest \<longrightarrow> length (print_expr l e @ rest) \<le> n \<longrightarrow>
     reads (level_parser l (expr_p n) (statement_p n)) (print_expr l e @ rest) e rest)"

definition chains_at :: "nat \<Rightarrow> expr \<Rightarrow> bool" where
  "chains_at l e \<longleftrightarrow> (\<forall>n rest c. stops (Suc l) rest \<longrightarrow> length (print_expr l e @ rest) \<le> n \<longrightarrow>
     level_parser l (expr_p n) (statement_p n) (at_tokens (print_expr l e @ rest) c) = chain_from l n e (at_tokens rest c))"

lemma level_parser_chain:
  "chained l \<Longrightarrow> level_parser l (expr_p n) (statement_p n) = sbind (level_parser (Suc l) (expr_p n) (statement_p n)) (chain_from l n)"
  by (auto simp: chained_def level_parser_def chain_from_def level_ops_def or_expr_def and_expr_def additive_def multiplicative_def
      comparison_loop_eq left_assoc_loop)

lemma safe_level: "l \<le> 7 \<Longrightarrow> safe (Suc n) 1 (level_parser (Suc l) (expr_p n) (statement_p n))"
  using safe_parsers [of n] safe_left_assoc safe_primary safe_postfix safe_unary safe_additive safe_comparison safe_not_expr
  unfolding level_parser_def and_expr_def multiplicative_def by auto

lemma chain_from_step:
  assumes "chained l" "length ts \<le> n" "op_level op = l" "reads (level_parser (Suc l) (expr_p n) (statement_p n)) ts x rest" "length rest < length ts"
  shows "chain_from l n left (at_tokens (op_token op # ts) c) = chain_from l n (EBinary op left x) (at_tokens rest c)"
proof (cases "l = 3")
  case True
  then have "comparison_op (op_token op) = Some op" using assms(3) by (cases op) (simp_all add: comparison_op_def)
  moreover have "safe n 1 (statement_p n)" "safe (Suc n) 1 (level_parser 4 (expr_p n) (statement_p n))"
    using safe_parsers [of n] safe_level [of 3 n] by (simp_all add: numeral_eq_Suc)
  ultimately show ?thesis using comparison_from_step [OF _ _ assms(2) _ assms(4) [unfolded True] assms(5)] True
    by (simp add: chain_from_def numeral_eq_Suc)
next
  case False
  then have "level_ops l (op_token op) = Some op"
    using assms(1,3) by (cases op) (auto simp: chained_def level_ops_def or_op_def and_op_def add_op_def mul_op_def)
  then show ?thesis using loop_from_step [OF safe_level [of l n] _ _ assms(4,5)] False assms(1,2)
    by (auto simp: chain_from_def chained_def)
qed

lemma chain_from_stop:
  assumes "chained l" "stops l rest"
  shows "chain_from l n e (at_tokens rest c) = (Inr e, at_tokens rest c)"
proof (cases rest)
  case Nil
  then show ?thesis
    by (simp add: chain_from_def comparison_from_def loop_from_def peek_def p_if_def at_not_in_def at_token_def)
next
  case (Cons t ts)
  then show ?thesis using assms
    by (auto simp: chain_from_def chained_def comparison_from_def loop_from_def peek_def p_if_def at_not_in_def at_token_def
        stops_def continues_def comparison_op_def level_ops_def or_op_def and_op_def add_op_def mul_op_def split: if_splits)
qed

lemma chain_parses: "chained l \<Longrightarrow> chains_at l e \<Longrightarrow> parses_at l e"
  using stops_mono [of l _ "Suc l"] by (auto simp: parses_at_def chains_at_def reads_def chain_from_stop)

lemma print_other: "level e \<noteq> l \<Longrightarrow> print_expr (Suc l) e = print_expr l e"
  by (cases "(l, e)" rule: print_expr.cases) (auto simp: parens_def)

lemma chain_base:
  assumes "chained l" "level e \<noteq> l" "parses_at (Suc l) e"
  shows "chains_at l e"
  using assms(3) unfolding chains_at_def parses_at_def level_parser_chain [OF assms(1)] print_other [OF assms(2)]
  by (auto simp: sbind_def reads_def)

lemma chain_binary:
  assumes "chained l" "op_level op = l" "chains_at l a" "parses_at (Suc l) b"
  shows "chains_at l (EBinary op a b)"
  unfolding chains_at_def
proof (intro allI impI)
  fix n rest c
  let ?ts = "print_expr (Suc l) b @ rest"
  assume s: "stops (Suc l) rest" and n: "length (print_expr l (EBinary op a b) @ rest) \<le> n"
  have p: "print_expr l (EBinary op a b) @ rest = print_expr l a @ op_token op # ?ts" using assms(2) by (simp add: parens_def)
  have "print_expr (Suc l) b \<noteq> []" by (cases "(Suc l, b)" rule: print_expr.cases) (auto simp: parens_def print_column_def split: option.splits)
  then have "chain_from l n a (at_tokens (op_token op # ?ts) c) = chain_from l n (EBinary op a b) (at_tokens rest c)"
    using assms(4) s n unfolding p by (intro chain_from_step [OF assms(1) _ assms(2)]) (auto simp: parses_at_def)
  moreover have "level_parser l (expr_p n) (statement_p n) (at_tokens (print_expr l a @ op_token op # ?ts) c)
      = chain_from l n a (at_tokens (op_token op # ?ts) c)"
    using assms(3) stops_op [of op ?ts] n unfolding chains_at_def p assms(2) by blast
  ultimately show "level_parser l (expr_p n) (statement_p n) (at_tokens (print_expr l (EBinary op a b) @ rest) c)
      = chain_from l n (EBinary op a b) (at_tokens rest c)" unfolding p by simp
qed

text \<open>The first token of a printed expression.\<close>

lemma print_first:
  "\<exists>t ts. print_expr l e = t # ts \<and> t \<noteq> TkKeyword KwSelect \<and> (2 < l \<longrightarrow> t \<noteq> TkKeyword KwNot) \<and> (6 < l \<longrightarrow> t \<noteq> TkMinus)"
proof (induction l e rule: print_expr.induct)
  case (1 l op a b)
  then obtain t ts where t: "print_expr (op_level op) a = t # ts" "t \<noteq> TkKeyword KwSelect"
    "2 < op_level op \<longrightarrow> t \<noteq> TkKeyword KwNot" "6 < op_level op \<longrightarrow> t \<noteq> TkMinus" by blast
  then show ?case by (cases "op_level op < l") (auto simp: parens_def)
next
  case (4 l a n)
  then show ?case by (cases "7 < l") (auto simp: parens_def)
qed (auto simp: parens_def print_column_def split: option.splits)

text \<open>Levels 2 and 6: prefix operators.\<close>

definition prefix_op :: "nat \<Rightarrow> token \<times> unary_op" where
  "prefix_op l = (if l = 2 then (TkKeyword KwNot, Not) else (TkMinus, Neg))"

lemma level_parser_prefix:
  "l = 2 \<or> l = 6 \<Longrightarrow> level_parser l ex st p = prefix_loop (Suc (length (p_rest p))) (fst (prefix_op l)) (snd (prefix_op l)) (level_parser (Suc l) ex st) p"
  by (auto simp: level_parser_def prefix_op_def not_expr_def unary_def)

lemma prefix_reads:
  assumes "l = 2 \<or> l = 6" "reads (level_parser l ex st) ts e rest"
  shows "reads (level_parser l ex st) (fst (prefix_op l) # ts) (EUnary (snd (prefix_op l)) e) rest"
  using assms(2) by (simp add: reads_def level_parser_prefix [OF assms(1)] p_if_def at_token_def peek_def then_skip sbind_def)

lemma prefix_base:
  assumes "l = 2 \<or> l = 6" "reads (level_parser (Suc l) ex st) (t # ts) e rest" "t \<noteq> fst (prefix_op l)"
  shows "reads (level_parser l ex st) (t # ts) e rest"
  using assms(2,3) by (simp add: reads_def level_parser_prefix [OF assms(1)] p_if_def at_token_def peek_def)

lemma prefix_parses:
  assumes "l = 2 \<or> l = 6" "parses_at l a"
  shows "parses_at l (EUnary (snd (prefix_op l)) a)"
proof -
  have "print_expr l (EUnary (snd (prefix_op l)) a) = fst (prefix_op l) # print_expr l a"
    using assms(1) by (auto simp: prefix_op_def parens_def)
  then show ?thesis using assms(2) prefix_reads [OF assms(1)] by (auto simp: parses_at_def)
qed

lemma prefix_down:
  assumes "l = 2 \<or> l = 6" "level e \<noteq> l" "parses_at (Suc l) e"
  shows "parses_at l e"
  unfolding parses_at_def
proof (intro allI impI)
  fix n rest assume s: "stops l rest" "length (print_expr l e @ rest) \<le> n"
  obtain t ts where t: "print_expr (Suc l) e = t # ts" "2 < Suc l \<longrightarrow> t \<noteq> TkKeyword KwNot" "6 < Suc l \<longrightarrow> t \<noteq> TkMinus"
    using print_first [of "Suc l" e] by blast
  then have "t \<noteq> fst (prefix_op l)" using assms(1) by (auto simp: prefix_op_def)
  moreover have "reads (level_parser (Suc l) (expr_p n) (statement_p n)) (t # ts @ rest) e rest"
    using assms(3) s stops_mono [OF s(1), of "Suc l"] t(1) unfolding parses_at_def print_other [OF assms(2)] by auto
  ultimately have "reads (level_parser l (expr_p n) (statement_p n)) (t # ts @ rest) e rest" by (intro prefix_base [OF assms(1)])
  then show "reads (level_parser l (expr_p n) (statement_p n)) (print_expr l e @ rest) e rest"
    using t(1) print_other [OF assms(2)] by simp
qed

text \<open>Level 7: \<^verbatim>\<open>IS [NOT] NULL\<close>.\<close>

lemma level_7_8: "level_parser 7 = postfix" "level_parser 8 = primary"
  by (simp_all add: level_parser_def)

lemma postfix_parses:
  assumes "parses_at 8 a"
  shows "parses_at 7 (EIsNull a neg)"
  unfolding parses_at_def level_7_8
proof (intro allI impI)
  fix n rest
  let ?tail = "TkKeyword KwIs # (if neg then [TkKeyword KwNot] else []) @ TkKeyword KwNull # rest"
  assume "length (print_expr 7 (EIsNull a neg) @ rest) \<le> n"
  then have "length (print_expr 8 a @ ?tail) \<le> n" by (simp add: parens_def)
  moreover have "stops 8 ?tail" by (simp add: stops_def continues_def)
  ultimately have "reads (primary (expr_p n) (statement_p n)) (print_expr 8 a @ ?tail) a ?tail"
    using assms unfolding parses_at_def level_7_8 by blast
  then have "reads (postfix (expr_p n) (statement_p n)) (print_expr 8 a @ ?tail) (EIsNull a neg) rest"
    unfolding postfix_def
    by (rule reads_bind) (cases neg; simp add: reads_if reads_def p_if_def at_token_def peek_def then_skip then_p_def skip_def expect_def sbind_def)
  then show "reads (postfix (expr_p n) (statement_p n)) (print_expr 7 (EIsNull a neg) @ rest) (EIsNull a neg) rest"
    by (simp add: parens_def)
qed

lemma postfix_down:
  assumes "level e \<noteq> 7" "parses_at 8 e"
  shows "parses_at 7 e"
  unfolding parses_at_def level_7_8
proof (intro allI impI)
  fix n rest assume s: "stops 7 rest" "length (print_expr 7 e @ rest) \<le> n"
  have p: "print_expr 8 e = print_expr 7 e" using print_other [OF assms(1)] by (simp add: numeral_eq_Suc)
  have "reads (primary (expr_p n) (statement_p n)) (print_expr 7 e @ rest) e rest"
    using assms(2) s stops_mono [OF s(1), of 8] unfolding parses_at_def level_7_8 p by simp
  then show "reads (postfix (expr_p n) (statement_p n)) (print_expr 7 e @ rest) e rest"
    unfolding postfix_def
    by (rule reads_bind) (use s(1) in \<open>cases rest; auto simp: reads_if reads_sret stops_def continues_def split: if_splits\<close>)
qed

text \<open>Level 8: literals, names and parentheses.\<close>

lemma primary_parens:
  assumes "level e < 8" "parses_at 0 e"
  shows "parses_at 8 e"
  unfolding parses_at_def level_7_8
proof (intro allI impI)
  fix n rest assume n: "length (print_expr 8 e @ rest) \<le> n"
  have p: "print_expr 8 e = TkLParen # print_expr 0 e @ [TkRParen]"
    using assms(1) by (cases "(8::nat, e)" rule: print_expr.cases) (auto simp: parens_def)
  then obtain m where m: "n = Suc m" using n by (cases n) auto
  obtain t ts where t: "print_expr 0 e = t # ts" "t \<noteq> TkKeyword KwSelect" using print_first [of 0 e] by blast
  have "stops 0 (TkRParen # rest)" by (simp add: stops_def continues_def)
  then have "reads (expr_p n) (print_expr 0 e @ TkRParen # rest) e (TkRParen # rest)"
    using assms(2) n p unfolding parses_at_def m by (simp add: level_parser_def)
  then have "reads (sbind (expr_p n) (\<lambda>e. then_p (expect TkRParen) (sret e))) (print_expr 0 e @ TkRParen # rest) e rest"
    by (rule reads_bind) (rule reads_expect [OF reads_sret])
  then show "reads (primary (expr_p n) (statement_p n)) (print_expr 8 e @ rest) e rest"
    unfolding primary_def p using t by (auto intro!: reads_advance simp: reads_if)
qed

lemma stops_names:
  "stops l rest \<Longrightarrow> l \<le> 8 \<Longrightarrow> \<not> at_token TkLParen (at_tokens rest c) \<and> \<not> at_token TkDot (at_tokens rest c)"
  by (cases rest) (auto simp: stops_def continues_def at_token_def peek_def split: if_splits)

lemma reads_column_ref:
  assumes "stops 8 rest"
  shows "reads expect_column_ref (print_column c @ rest) c rest"
  using stops_names [OF assms] unfolding print_column_def expect_column_ref_def
  by (cases c) (auto split: option.splits simp: bare_def reads_def p_if_def at_token_def peek_def then_skip sbind_def expect_name_def advance_def)

lemma func_name_back: "aggregate_func_of (func_name f) = Inr f"
  by (cases f) (simp_all add: aggregate_func_of_def func_name_def ascii_def to_ascii_uppercase_def)

lemma named_column:
  assumes "stops 8 rest"
  shows "reads (sbind advance (\<lambda>t. case t of Some (TkIdent n) \<Rightarrow> named n | _ \<Rightarrow> p_fail)) (print_column c @ rest) (EColumn c) rest"
  using stops_names [OF assms] unfolding print_column_def named_def
  by (cases c) (auto split: option.splits simp: bare_def reads_def p_if_def at_token_def peek_def then_skip sbind_def expect_name_def advance_def)

lemma primary_atom:
  assumes "level e = 8" "plain_expr e"
  shows "parses_at 8 e"
  unfolding parses_at_def level_7_8
proof (intro allI impI)
  fix n rest assume s: "stops 8 rest"
  show "reads (primary (expr_p n) (statement_p n)) (print_expr 8 e @ rest) e rest"
  proof (cases e)
    case (EColumn c)
    then show ?thesis using named_column [OF s, of c]
      by (cases "cr_table c") (auto simp: primary_def print_column_def reads_def sbind_def advance_def peek_def)
  next
    case (EAggregate a)
    have "reads (p_if (at_token TkStar) (then_p skip (sret Star)) (sbind expect_column_ref (\<lambda>c. sret (AggColumn c))))
        ((case agg_arg a of Star \<Rightarrow> [TkStar] | AggColumn c \<Rightarrow> print_column c) @ TkRParen # rest) (agg_arg a) (TkRParen # rest)"
    proof (cases "agg_arg a")
      case (AggColumn c)
      have "reads expect_column_ref (print_column c @ TkRParen # rest) c (TkRParen # rest)"
        by (rule reads_column_ref) (simp add: stops_def continues_def)
      then have "reads (sbind expect_column_ref (\<lambda>c. sret (AggColumn c))) (print_column c @ TkRParen # rest) (AggColumn c) (TkRParen # rest)"
        by (rule reads_bind) (rule reads_sret)
      then show ?thesis using AggColumn by (cases "cr_table c") (simp_all add: print_column_def reads_if)
    qed (simp add: reads_if reads_then_skip reads_sret)
    then have "reads (parse_aggregate_call (func_name (agg_func a)))
        (TkLParen # (case agg_arg a of Star \<Rightarrow> [TkStar] | AggColumn c \<Rightarrow> print_column c) @ TkRParen # rest) a rest"
      unfolding parse_aggregate_call_def func_name_back
      by (intro reads_bind [of "slift (Inr _)"] reads_expect reads_bind [of "p_if _ _ _"]) (auto simp: reads_def then_p_def expect_def p_if_def at_token_def peek_def skip_def sbind_def)
    then show ?thesis using EAggregate
      by (auto intro!: reads_advance simp: primary_def named_def reads_if elim!: reads_bind simp: reads_sret)
  next
    case (EUnary op a)
    then show ?thesis using assms(1) by (cases op) simp_all
  next
    case (EBinary op a b)
    then show ?thesis using assms(1) by (cases op) simp_all
  qed (use assms in \<open>auto intro!: reads_advance simp: primary_def reads_sret\<close>)
qed

text \<open>Every level reads what is printed for it.\<close>

lemma parses_down:
  assumes "l < 8" "level e \<noteq> l" "parses_at (Suc l) e"
  shows "parses_at l e \<and> (chained l \<longrightarrow> chains_at l e)"
proof -
  consider "chained l" | "l = 2 \<or> l = 6" | "l = 7" using assms(1) by (auto simp: chained_def numeral_eq_Suc less_Suc_eq)
  then show ?thesis
  proof cases
    case 1
    then show ?thesis using chain_base [OF 1 assms(2,3)] chain_parses by blast
  next
    case 2
    then show ?thesis using prefix_down [OF 2 assms(2,3)] by (auto simp: chained_def)
  next
    case 3
    then show ?thesis using postfix_down assms by (simp add: chained_def numeral_eq_Suc)
  qed
qed

lemma parses_below:
  assumes "parses_at k e" "k \<le> 8" "\<forall>j. l \<le> j \<longrightarrow> j < k \<longrightarrow> level e \<noteq> j" "l \<le> k"
  shows "parses_at l e \<and> (l < k \<longrightarrow> chained l \<longrightarrow> chains_at l e)"
  using assms(4,3)
proof (induction l rule: inc_induct)
  case (step m)
  then have "parses_at (Suc m) e" by simp
  with step.hyps step.prems assms(2) parses_down [of m e] show ?case by auto
qed (use assms(1) in simp)

lemma parses_all:
  assumes "parses_at (level e) e" "chained (level e) \<longrightarrow> chains_at (level e) e" "level e \<le> 8" "l \<le> 8"
  shows "parses_at l e \<and> (chained l \<longrightarrow> chains_at l e)"
proof -
  have low: "parses_at j e \<and> (chained j \<longrightarrow> chains_at j e)" if "j \<le> level e" for j
    using parses_below [OF assms(1,3) _ that] assms(2) that by (cases "j = level e") auto
  have "parses_at 8 e" using primary_parens [of e] low [of 0] low [of 8] assms(3) by (cases "level e = 8") auto
  then have "parses_at l e \<and> (l < 8 \<longrightarrow> chained l \<longrightarrow> chains_at l e)" if "level e < l"
    using parses_below [of 8 e l] that assms(4) by auto
  moreover have "\<not> chained 8" by (simp add: chained_def)
  ultimately show ?thesis using low [of l] assms(4) by (cases "l = 8"; cases "l \<le> level e") auto
qed

lemma level_le: "level e \<le> 8"
  by (cases e rule: level.cases) (auto, case_tac op, auto)

lemma parses_atom: "level e = 8 \<Longrightarrow> plain_expr e \<Longrightarrow> l \<le> 8 \<Longrightarrow> parses_at l e \<and> (chained l \<longrightarrow> chains_at l e)"
  using primary_atom [of e] by (intro parses_all) (auto simp: chained_def)

lemma parses_plain: "plain_expr e \<Longrightarrow> l \<le> 8 \<Longrightarrow> parses_at l e \<and> (chained l \<longrightarrow> chains_at l e)"
proof (induction e arbitrary: l rule: plain_expr.induct)
  case (1 op a b)
  have ch: "chained (op_level op)" "op_level op \<le> 5" by (cases op; simp add: chained_def)+
  have "chains_at (op_level op) (EBinary op a b)"
    using 1 ch by (intro chain_binary) auto
  then show ?case using chain_parses [OF ch(1)] by (intro parses_all) (use ch 1 in auto)
next
  case (2 op a)
  have "parses_at (level (EUnary op a)) (EUnary op a)"
    using prefix_parses [of 2 a] prefix_parses [of 6 a] 2 by (cases op) (auto simp: prefix_op_def)
  then show ?case by (intro parses_all) (use 2 in \<open>cases op; auto simp: chained_def\<close>)+
next
  case (3 a neg)
  then show ?case using postfix_parses [of a neg] by (intro parses_all) (auto simp: chained_def)
qed (rule parses_atom; simp)+



end
