(* ===== verification/Cascade_Text.thy ===== *)
theory Cascade_Text
  imports Sql_Print Expr_Eval
begin

text \<open>
  The SQL text that \<^verbatim>\<open>apply_parent_delete_actions\<close> of \<^verbatim>\<open>engine/executor.rs\<close> builds for a referencing table
  (\<^verbatim>\<open>sql_literal\<close> and the two \<^verbatim>\<open>format!\<close> calls), and what the scanner and the parser make of it. How an
  \<^verbatim>\<open>f64\<close> is displayed is an argument.
\<close>

section \<open>Text\<close>

definition chars :: "string \<Rightarrow> uchar list" where
  "chars s = map of_char s"

text \<open>\<^verbatim>\<open>str::chars\<close> on the bytes of a valid string.\<close>

fun utf8_chars :: "bytes \<Rightarrow> uchar list" where
  "utf8_chars [] = []"
| "utf8_chars (a # bs) =
     (let n = unat a in
      if n < 0x80 then n # utf8_chars bs
      else case bs of
        [] \<Rightarrow> []
      | b # cs \<Rightarrow>
          if n < 0xE0 then ((n - 0xC0) * 64 + (unat b - 0x80)) # utf8_chars cs
          else (case cs of
             [] \<Rightarrow> []
           | c # ds \<Rightarrow>
               if n < 0xF0 then ((n - 0xE0) * 4096 + (unat b - 0x80) * 64 + (unat c - 0x80)) # utf8_chars ds
               else (case ds of
                  [] \<Rightarrow> []
                | d # es \<Rightarrow>
                    ((n - 0xF0) * 262144 + (unat b - 0x80) * 4096 + (unat c - 0x80) * 64 + (unat d - 0x80)) # utf8_chars es)))"

fun nat_digits :: "nat \<Rightarrow> uchar list" where
  "nat_digits n = (if n < 10 then [48 + n] else nat_digits (n div 10) @ [48 + n mod 10])"

declare nat_digits.simps [simp del]

definition i64_to_string :: "u64 \<Rightarrow> uchar list" where
  "i64_to_string w = (if sint w < 0 then 45 # nat_digits (nat (- sint w)) else nat_digits (nat (sint w)))"

fun sql_literal :: "(u64 \<Rightarrow> uchar list) \<Rightarrow> sql_value \<Rightarrow> uchar list" where
  "sql_literal show_f64 (VInt n) = i64_to_string n"
| "sql_literal show_f64 (VReal r) = show_f64 r"
| "sql_literal show_f64 (VText s) = 39 # quoted (utf8_chars s) @ [39]"
| "sql_literal show_f64 (VBool b) = chars (if b then ''TRUE'' else ''FALSE'')"
| "sql_literal show_f64 VNull = chars ''NULL''"

definition cascade_sql :: "(u64 \<Rightarrow> uchar list) \<Rightarrow> bytes \<Rightarrow> bytes \<Rightarrow> sql_value \<Rightarrow> uchar list" where
  "cascade_sql show_f64 child_name col v =
     chars ''DELETE FROM '' @ utf8_chars child_name @ chars '' WHERE '' @ utf8_chars col @ chars '' = '' @ sql_literal show_f64 v"

definition set_null_sql :: "(u64 \<Rightarrow> uchar list) \<Rightarrow> bytes \<Rightarrow> bytes \<Rightarrow> sql_value \<Rightarrow> uchar list" where
  "set_null_sql show_f64 child_name col v =
     chars ''UPDATE '' @ utf8_chars child_name @ chars '' SET '' @ utf8_chars col @ chars '' = NULL WHERE ''
       @ utf8_chars col @ chars '' = '' @ sql_literal show_f64 v"

section \<open>Decoding and decimals\<close>

lemma utf8_chars_bytes:
  "unat a < 0x80 \<Longrightarrow> utf8_chars (a # bs) = unat a # utf8_chars bs"
  "unat a = 0xC0 + x \<Longrightarrow> unat b = 0x80 + y \<Longrightarrow> x < 32 \<Longrightarrow> utf8_chars (a # b # bs) = (x * 64 + y) # utf8_chars bs"
  "unat a = 0xE0 + x \<Longrightarrow> unat b = 0x80 + y \<Longrightarrow> unat c = 0x80 + z \<Longrightarrow> x < 16 \<Longrightarrow>
     utf8_chars (a # b # c # bs) = (x * 4096 + y * 64 + z) # utf8_chars bs"
  "unat a = 0xF0 + x \<Longrightarrow> unat b = 0x80 + y \<Longrightarrow> unat c = 0x80 + z \<Longrightarrow> unat d = 0x80 + u \<Longrightarrow>
     utf8_chars (a # b # c # d # bs) = (x * 262144 + y * 4096 + z * 64 + u) # utf8_chars bs"
  by (simp_all add: Let_def)

lemma utf8_chars_char:
  assumes "c < 0x110000"
  shows "utf8_chars (utf8_char c @ bs) = c # utf8_chars bs"
proof -
  have w: "unat (of_nat n :: byte) = n" if "n < 256" for n using that by (simp add: unat_of_nat)
  have m: "unat (of_nat (0x80 + n mod 64) :: byte) = 0x80 + n mod 64" for n
  proof (rule w)
    have "n mod 64 < 64" by simp
    then show "0x80 + n mod 64 < 256" by linarith
  qed
  have d: "c div 64 = c div 4096 * 64 + c div 64 mod 64" "c div 4096 = c div 262144 * 64 + c div 4096 mod 64"
    using div_mult_mod_eq [of "c div 64" 64] div_mult_mod_eq [of "c div 4096" 64] by (simp_all flip: div_mult2_eq)
  have e2: "c div 64 * 64 + c mod 64 = c" by simp
  have e3: "c div 4096 * 4096 + c div 64 mod 64 * 64 + c mod 64 = c" using d(1) e2 by linarith
  have e4: "c div 262144 * 262144 + c div 4096 mod 64 * 4096 + c div 64 mod 64 * 64 + c mod 64 = c" using d(2) e3 by linarith
  consider (one) "c < 0x80" | (two) "0x80 \<le> c" "c < 0x800" | (three) "0x800 \<le> c" "c < 0x10000" | (four) "0x10000 \<le> c" by linarith
  then show ?thesis
  proof cases
    case one
    then have "unat (of_nat c :: byte) = c" by (intro w) simp
    then show ?thesis using one utf8_chars_bytes(1) [of "of_nat c" bs] by (simp add: utf8_char_def)
  next
    case two
    then have x: "c div 64 < 32" by (simp add: less_mult_imp_div_less)
    have "unat (of_nat (0xC0 + c div 64) :: byte) = 0xC0 + c div 64" using x by (intro w) simp
    from utf8_chars_bytes(2) [OF this m x, of c bs, unfolded e2] show ?thesis using two by (simp only: utf8_char_def) simp
  next
    case three
    then have x: "c div 4096 < 16" by (simp add: less_mult_imp_div_less)
    have "unat (of_nat (0xE0 + c div 4096) :: byte) = 0xE0 + c div 4096" using x by (intro w) simp
    from utf8_chars_bytes(3) [OF this m m x, of "c div 64" c bs, unfolded e3] show ?thesis using three by (simp only: utf8_char_def) simp
  next
    case four
    have x: "c div 262144 < 16" using assms by (simp add: less_mult_imp_div_less)
    have "unat (of_nat (0xF0 + c div 262144) :: byte) = 0xF0 + c div 262144" using x by (intro w) simp
    from utf8_chars_bytes(4) [OF this m m m, of "c div 4096" "c div 64" c bs, unfolded e4] show ?thesis using four
      by (simp only: utf8_char_def) simp
  qed
qed

lemma utf8_chars_utf8: "list_all (\<lambda>c. c < 0x110000) cs \<Longrightarrow> utf8_chars (utf8_string cs) = cs"
  by (induction cs) (simp_all add: utf8_chars_char)

lemma decimal_append: "decimal (ds @ [d]) = 10 * decimal ds + (d - 48)"
  by (simp add: decimal_def)

lemma nat_digits_spec: "digits (nat_digits n) \<and> decimal (nat_digits n) = n"
proof (induction n rule: nat_digits.induct)
  case (1 n)
  show ?case
  proof (cases "n < 10")
    case True
    then show ?thesis by (subst (1 2) nat_digits.simps) (simp add: digits_def is_ascii_digit_def decimal_def)
  next
    case False
    then have "digits (nat_digits (n div 10))" "decimal (nat_digits (n div 10)) = n div 10" using 1 by simp_all
    then show ?thesis using False
      by (subst (1 2) nat_digits.simps) (simp add: digits_def is_ascii_digit_def decimal_append)
  qed
qed

section \<open>The tokens of the text\<close>

definition sql_name :: "unicode \<Rightarrow> bytes \<Rightarrow> bool" where
  "sql_name uc name \<longleftrightarrow> (\<exists>cs. list_all (\<lambda>c. c < 0x110000) cs \<and> name = utf8_string cs \<and> word uc cs \<and> from_word name = None)"

text \<open>The expression a literal stands for.\<close>

fun literal_expr :: "sql_value \<Rightarrow> expr" where
  "literal_expr (VInt n) = (if sint n < 0 then EUnary Neg (EInteger (- n)) else EInteger n)"
| "literal_expr (VReal r) = EReal r"
| "literal_expr (VText s) = EStr s"
| "literal_expr (VBool b) = EBool b"
| "literal_expr VNull = ENull"

fun writable :: "sql_value \<Rightarrow> bool" where
  "writable (VInt n) = (sint n \<noteq> - (2 ^ 63))"
| "writable (VReal r) = False"
| "writable (VText s) = (\<exists>cs. list_all (\<lambda>c. c < 0x110000) cs \<and> s = utf8_string cs)"
| "writable v = True"

lemma spelled_word:
  "word uc w \<Longrightarrow> \<not> starts (word_char uc) rest \<Longrightarrow> spelled uc ts rest \<Longrightarrow> spelled uc (word_token w # ts) (w @ rest)"
  by (intro spelled.tok) (auto simp: word_token_def split: option.splits)

lemma space_ends: "\<not> word_char uc 32" "is_whitespace 32"
  by (simp_all add: is_alphanumeric_def is_alphabetic_def is_ascii_digit_def is_whitespace_def)

lemma spelled_word_space: "word uc w \<Longrightarrow> spelled uc ts rest \<Longrightarrow> spelled uc (word_token w # ts) (w @ 32 # rest)"
  using space_ends by (intro spelled_word spelled.space) auto

lemma keyword_words:
  "word uc (chars ''DELETE'')" "word uc (chars ''FROM'')" "word uc (chars ''WHERE'')" "word uc (chars ''UPDATE'')"
  "word uc (chars ''SET'')" "word uc (chars ''NULL'')" "word uc (chars ''TRUE'')" "word uc (chars ''FALSE'')"
  by (simp_all add: word_def chars_def is_whitespace_def is_alphabetic_def is_alphanumeric_def)

lemma keyword_tokens:
  "word_token (chars ''DELETE'') = TkKeyword KwDelete" "word_token (chars ''FROM'') = TkKeyword KwFrom"
  "word_token (chars ''WHERE'') = TkKeyword KwWhere" "word_token (chars ''UPDATE'') = TkKeyword KwUpdate"
  "word_token (chars ''SET'') = TkKeyword KwSet" "word_token (chars ''NULL'') = TkKeyword KwNull"
  "word_token (chars ''TRUE'') = TkKeyword KwTrue" "word_token (chars ''FALSE'') = TkKeyword KwFalse"
  by (simp_all add: word_token_def from_word_def chars_def utf8_char_def to_ascii_uppercase_def ascii_def keyword_table_def)

lemma name_token:
  "sql_name uc name \<Longrightarrow> word uc (utf8_chars name) \<and> word_token (utf8_chars name) = TkIdent name"
  by (auto simp: sql_name_def utf8_chars_utf8 word_token_def)

lemma i64_digits:
  assumes "0 \<le> sint n"
  shows "spells uc (TkInteger n) (nat_digits (nat (sint n)))"
proof -
  have "nat (sint n) < 2 ^ 63" using sint_lt [of n] by simp
  moreover have "of_nat (nat (sint n)) = n" using assms by (simp add: of_nat_nat)
  ultimately show ?thesis using nat_digits_spec [of "nat (sint n)"] by (simp add: parse_i64_def)
qed

lemma sint_neg: "sint n \<noteq> - (2 ^ 63) \<Longrightarrow> sint (- n) = - sint n" for n :: u64
proof -
  assume "sint n \<noteq> - (2 ^ 63)"
  then have "signed_take_bit 63 (- sint n) = - sint n"
    using sint_lt [of n] sint_ge [of n] by (intro signed_take_bit_int_eq_self) auto
  moreover have "sint (of_int (- sint n) :: u64) = signed_take_bit 63 (- sint n)" by (simp only: sint_sbintrunc') simp
  ultimately show ?thesis by simp
qed

lemma literal_spelled:
  assumes "writable v"
  shows "spelled uc (print_expr 4 (literal_expr v)) (sql_literal show_f64 v)"
proof (cases v)
  case (VInt n)
  show ?thesis
  proof (cases "sint n < 0")
    case True
    then have "0 \<le> sint (- n)" "nat (- sint n) = nat (sint (- n))" using sint_neg [of n] assms VInt by simp_all
    then have d: "spells uc (TkInteger (- n)) (nat_digits (nat (- sint n)))" using i64_digits [of "- n" uc] by simp
    then have "\<not> peek_eq (nat_digits (nat (- sint n))) 45"
      by (cases "nat_digits (nat (- sint n))") (auto simp: digits_def is_ascii_digit_def)
    with d have "spelled uc ([TkMinus, TkInteger (- n)]) ([45] @ nat_digits (nat (- sint n)) @ [])"
      by (intro spelled.tok spelled.end_of_text) (auto simp: peek_eq_def)
    then show ?thesis using VInt True by (simp add: i64_to_string_def parens_def)
  next
    case False
    then have "spelled uc [TkInteger n] (nat_digits (nat (sint n)) @ [])"
      using i64_digits [of n uc] by (intro spelled.tok spelled.end_of_text) (auto simp: peek_eq_def)
    then show ?thesis using VInt False by (simp add: i64_to_string_def)
  qed
next
  case (VText s)
  then obtain cs where "list_all (\<lambda>c. c < 0x110000) cs" "s = utf8_string cs" using assms by auto
  moreover have "spelled uc [TkStr (utf8_string cs)] ((39 # quoted cs @ [39]) @ [])"
    by (intro spelled.tok spelled.end_of_text) (auto simp: peek_eq_def)
  ultimately show ?thesis using VText by (simp add: utf8_chars_utf8)
next
  case VNull
  then show ?thesis using spelled_word [OF keyword_words(6) _ spelled.end_of_text, of uc] by (simp add: keyword_tokens)
next
  case (VBool b)
  then show ?thesis using spelled_word [OF keyword_words(7) _ spelled.end_of_text, of uc] spelled_word [OF keyword_words(8) _ spelled.end_of_text, of uc]
    by (simp add: keyword_tokens)
qed (use assms in simp)

lemma spelled_eq_literal:
  assumes "sql_name uc col" "writable v"
  shows "spelled uc (print_expr 0 (EBinary Eq (EColumn (bare col)) (literal_expr v))) (utf8_chars col @ chars '' = '' @ sql_literal show_f64 v)"
proof -
  have "spelled uc (TkEq # print_expr 4 (literal_expr v)) ([61] @ 32 # sql_literal show_f64 v)"
    using literal_spelled [OF assms(2)] space_ends by (intro spelled.tok spelled.space) simp_all
  then show ?thesis using spelled_word_space [of uc "utf8_chars col"] name_token [OF assms(1)]
    by (simp add: chars_def parens_def print_column_def bare_def)
qed

lemma cascade_tokens:
  assumes "sql_name uc child" "sql_name uc col" "writable v"
  shows "tokenize uc (cascade_sql show_f64 child col v) =
    Inr (TkKeyword KwDelete # TkKeyword KwFrom # TkIdent child # TkKeyword KwWhere # print_expr 0 (EBinary Eq (EColumn (bare col)) (literal_expr v)))"
proof -
  note w = spelled_word_space [OF keyword_words(1)] spelled_word_space [OF keyword_words(2)] spelled_word_space [OF keyword_words(3)]
  have sql: "cascade_sql show_f64 child col v = chars ''DELETE'' @ 32 # chars ''FROM'' @ 32 # utf8_chars child @ 32 # chars ''WHERE'' @ 32 #
      utf8_chars col @ chars '' = '' @ sql_literal show_f64 v" by (simp add: cascade_sql_def chars_def)
  have "spelled uc (word_token (chars ''DELETE'') # word_token (chars ''FROM'') # word_token (utf8_chars child) # word_token (chars ''WHERE'')
      # print_expr 0 (EBinary Eq (EColumn (bare col)) (literal_expr v))) (cascade_sql show_f64 child col v)"
    unfolding sql using name_token [OF assms(1)] by (intro w spelled_word_space spelled_eq_literal [OF assms(2,3)]) simp
  then show ?thesis using spelled_tokenize name_token [OF assms(1)] unfolding keyword_tokens by metis
qed

lemma set_null_tokens:
  assumes "sql_name uc child" "sql_name uc col" "writable v"
  shows "tokenize uc (set_null_sql show_f64 child col v) =
    Inr (TkKeyword KwUpdate # TkIdent child # TkKeyword KwSet # TkIdent col # TkEq # TkKeyword KwNull # TkKeyword KwWhere
      # print_expr 0 (EBinary Eq (EColumn (bare col)) (literal_expr v)))"
proof -
  let ?cond = "print_expr 0 (EBinary Eq (EColumn (bare col)) (literal_expr v))"
  have sql: "set_null_sql show_f64 child col v = chars ''UPDATE'' @ 32 # utf8_chars child @ 32 # chars ''SET'' @ 32 # utf8_chars col @ 32 #
      [61] @ 32 # chars ''NULL'' @ 32 # chars ''WHERE'' @ 32 # utf8_chars col @ chars '' = '' @ sql_literal show_f64 v"
    by (simp add: set_null_sql_def chars_def)
  have "spelled uc (word_token (chars ''NULL'') # word_token (chars ''WHERE'') # ?cond) (chars ''NULL'' @ 32 # chars ''WHERE'' @ 32 #
      utf8_chars col @ chars '' = '' @ sql_literal show_f64 v)"
    by (intro spelled_word_space keyword_words spelled_eq_literal [OF assms(2,3)])
  then have eq: "spelled uc (TkEq # word_token (chars ''NULL'') # word_token (chars ''WHERE'') # ?cond) ([61] @ 32 # chars ''NULL'' @ 32 #
      chars ''WHERE'' @ 32 # utf8_chars col @ chars '' = '' @ sql_literal show_f64 v)"
    by (intro spelled.tok [where t = TkEq] spelled.space [OF space_ends(2)]) simp_all
  have "spelled uc (word_token (chars ''UPDATE'') # word_token (utf8_chars child) # word_token (chars ''SET'') # word_token (utf8_chars col)
      # TkEq # word_token (chars ''NULL'') # word_token (chars ''WHERE'') # ?cond) (set_null_sql show_f64 child col v)"
    unfolding sql using name_token [OF assms(1)] name_token [OF assms(2)]
    by (intro spelled_word_space [where w = "chars ''UPDATE''"] spelled_word_space [where w = "utf8_chars child"]
        spelled_word_space [where w = "chars ''SET''"] spelled_word_space [where w = "utf8_chars col"] keyword_words eq) simp_all
  then show ?thesis using spelled_tokenize name_token [OF assms(1)] name_token [OF assms(2)] unfolding keyword_tokens by metis
qed

section \<open>The statements of the text\<close>

lemma plain_literal: "writable v \<Longrightarrow> plain_expr (literal_expr v)"
  by (cases v) simp_all

lemma reads_printed:
  assumes "plain_expr e" "stops 0 rest" "length (print_expr 0 e @ rest) < n"
  shows "reads (expr_p n) (print_expr 0 e @ rest) e rest"
proof (cases n)
  case (Suc m)
  have "parses_at 0 e" using parses_plain [OF assms(1), of 0] by simp
  with assms(2,3) Suc show ?thesis by (simp add: parses_at_def level_parser_def)
qed (use assms(3) in simp)

lemma reads_where:
  assumes "plain_expr e" "length (print_expr 0 e) < n"
  shows "reads (optional KwWhere (expr_p n)) (TkKeyword KwWhere # print_expr 0 e) (Some e) []"
proof -
  have "reads (expr_p n) (print_expr 0 e @ []) e []" by (rule reads_printed [OF assms(1)]) (simp_all add: stops_def assms(2))
  then have "reads (sbind (expr_p n) (\<lambda>x. sret (Some x))) (print_expr 0 e) (Some e) []"
    unfolding append_Nil2 by (rule reads_bind) (rule reads_sret)
  then show ?thesis by (simp add: optional_def reads_if reads_then_skip)
qed

lemma parse_tokens_reads: "reads (statement_p (Suc (length ts))) ts s [] \<Longrightarrow> parse_tokens ts = Inr s"
  by (simp add: parse_tokens_def reads_def at_token_def peek_def)

lemma parse_delete:
  assumes "plain_expr e"
  shows "parse_tokens (TkKeyword KwDelete # TkKeyword KwFrom # TkIdent child # TkKeyword KwWhere # print_expr 0 e) = Inr (Delete child (Some e))"
  (is "parse_tokens ?ts = _")
proof (rule parse_tokens_reads)
  have "reads (delete_statement (expr_p (length ?ts))) ?ts (Delete child (Some e)) []"
    unfolding delete_statement_def by (intro reads_expect reads_bind [OF reads_name] reads_bind [OF reads_where [OF assms]] reads_sret) simp
  then show "reads (statement_p (Suc (length ?ts))) ?ts (Delete child (Some e)) []"
    unfolding statement_p.simps(2) parse_statement_def by (simp add: reads_if)
qed

lemma parse_update:
  assumes "plain_expr e"
  shows "parse_tokens (TkKeyword KwUpdate # TkIdent child # TkKeyword KwSet # TkIdent col # TkEq # TkKeyword KwNull # TkKeyword KwWhere # print_expr 0 e)
    = Inr (Update child [(col, ENull)] (Some e))" (is "parse_tokens ?ts = _")
proof (rule parse_tokens_reads)
  let ?rest = "TkKeyword KwWhere # print_expr 0 e" and ?n = "length ?ts"
  have "reads (expr_p ?n) (print_expr 0 ENull @ ?rest) ENull ?rest" 
    by (rule reads_printed) (simp_all add: stops_def continues_def)
  then have "reads (sbind (expr_p ?n) (\<lambda>value. sret (col, value))) (TkKeyword KwNull # ?rest) (col, ENull) ?rest"
    by (intro reads_bind [where x = ENull and rest = ?rest] reads_sret) simp
  then have "reads (sbind expect_name (\<lambda>column. then_p (expect TkEq) (sbind (expr_p ?n) (\<lambda>value. sret (column, value)))))
      (TkIdent col # TkEq # TkKeyword KwNull # ?rest) (col, ENull) ?rest"
    by (intro reads_bind [OF reads_name] reads_expect)
  then have "reads (comma_list (Suc k) (sbind expect_name (\<lambda>column. then_p (expect TkEq) (sbind (expr_p ?n) (\<lambda>value. sret (column, value))))))
      (TkIdent col # TkEq # TkKeyword KwNull # ?rest) [(col, ENull)] ?rest" for k
    unfolding comma_list.simps by (rule reads_bind) (simp add: reads_if reads_sret)
  then have "reads (commas (sbind expect_name (\<lambda>column. then_p (expect TkEq) (sbind (expr_p ?n) (\<lambda>value. sret (column, value))))))
      (TkIdent col # TkEq # TkKeyword KwNull # ?rest) [(col, ENull)] ?rest"
    by (simp add: reads_def commas_def del: comma_list.simps)
  note assigns = reads_bind [OF this]
  have "reads (update_statement (expr_p ?n)) ?ts (Update child [(col, ENull)] (Some e)) []"
    unfolding update_statement_def
    by (intro reads_expect reads_bind [OF reads_name] assigns reads_bind [OF reads_where [OF assms]] reads_sret) simp
  then show "reads (statement_p (Suc ?n)) ?ts (Update child [(col, ENull)] (Some e)) []"
    unfolding statement_p.simps(2) parse_statement_def by (simp add: reads_if)
qed

lemma eval_literal: "writable v \<Longrightarrow> eval (literal_expr v) None = Inr v"
proof (cases v)
  case (VInt n)
  assume "writable v"
  then have "sint n < 0 \<Longrightarrow> i64_fits (- sint (- n))" using sint_neg [of n] sint_ge [of n] VInt by (auto simp: i64_fits_def)
  then show ?thesis using VInt by (simp add: checked_neg_def checked_def)
qed simp_all

text \<open>C13: The text of a referential action says what it means: whatever the referenced value contains, quotes,
  comment marks and SQL included, the scanner and the parser read the built text back as one DELETE
  (or one UPDATE to NULL) of the referencing table, whose filter compares the referencing column with
  a literal that evaluates to that value. Names are identifiers, the value is no REAL and not the
  least integer.\<close>

theorem referential_action_text:
  assumes "sql_name uc child" "sql_name uc col" "writable v"
  shows "\<exists>e. eval e None = Inr v \<and>
    parse uc (cascade_sql show_f64 child col v) = Inr (Delete child (Some (EBinary Eq (EColumn (bare col)) e))) \<and>
    parse uc (set_null_sql show_f64 child col v) = Inr (Update child [(col, ENull)] (Some (EBinary Eq (EColumn (bare col)) e)))"
  using cascade_tokens [OF assms] set_null_tokens [OF assms] parse_delete parse_update plain_literal [OF assms(3)] eval_literal [OF assms(3)]
  by (intro exI [of _ "literal_expr v"]) (simp add: parse_def del: print_expr.simps)

lemma too_large:
  assumes "digits ds" "2 ^ 63 \<le> decimal ds"
  shows "tokenize uc ds = Inl (Fail Parse)"
proof -
  obtain d es where d: "ds = d # es" "is_ascii_digit d" using assms(1) by (cases ds) (auto simp: digits_def)
  have span: "takeWhile is_ascii_digit ds = ds" "dropWhile is_ascii_digit ds = []"
    using assms(1) by (auto simp: digits_def list_all_iff takeWhile_eq_all_conv dropWhile_eq_Nil_conv)
  have "lex_number ds = Inl (Fail Parse)" unfolding lex_number_def Let_def span using assms(2) by (simp add: parse_i64_def)
  then show ?thesis using d by (simp add: tokenize.simps lex_one_digit)
qed

lemma word_error: "word uc w \<Longrightarrow> tokenize uc rest = Inl (Fail Parse) \<Longrightarrow> tokenize uc (w @ 32 # rest) = Inl (Fail Parse)"
  using space_ends tokenize_space [OF space_ends(2)]
  by (subst tokenize_spells [where t = "word_token w"]) (auto simp: word_token_def split: option.splits)

text \<open>The least integer has no literal: its digits are one more than the largest \<^verbatim>\<open>i64\<close>, so the text for
  it is a parse error, and a row whose key is that integer cannot be deleted under ON DELETE CASCADE
  or SET NULL.\<close>

theorem least_integer_text_fails:
  assumes "sql_name uc child" "sql_name uc col"
  shows "parse uc (cascade_sql show_f64 child col (VInt 0x8000000000000000)) = Inl (Fail Parse)"
proof -
  let ?ds = "nat_digits 0x8000000000000000"
  have "tokenize uc ?ds = Inl (Fail Parse)" using nat_digits_spec [of "0x8000000000000000"] by (intro too_large) simp_all
  moreover have "\<not> peek_eq ?ds 45"
    using nat_digits_spec [of "0x8000000000000000"] by (cases ?ds) (auto simp: digits_def is_ascii_digit_def)
  ultimately have "tokenize uc ([45] @ ?ds) = Inl (Fail Parse)" by (subst tokenize_spells [where t = TkMinus]) simp_all
  then have lit: "tokenize uc (32 # 45 # ?ds) = Inl (Fail Parse)" by (simp add: tokenize_space [OF space_ends(2)])
  have "tokenize uc ([61] @ 32 # 45 # ?ds) = Inl (Fail Parse)" by (subst tokenize_spells [where t = TkEq]) (simp_all add: lit)
  moreover have "cascade_sql show_f64 child col (VInt 0x8000000000000000) = chars ''DELETE'' @ 32 # chars ''FROM'' @ 32 # utf8_chars child
      @ 32 # chars ''WHERE'' @ 32 # utf8_chars col @ 32 # [61] @ 32 # 45 # ?ds"
    by (simp add: cascade_sql_def chars_def i64_to_string_def)
  ultimately have "tokenize uc (cascade_sql show_f64 child col (VInt 0x8000000000000000)) = Inl (Fail Parse)"
    using name_token [OF assms(1)] name_token [OF assms(2)] keyword_words word_error by metis
  then show ?thesis by (simp add: parse_def)
qed

definition plain_ascii :: unicode where
  "plain_ascii = \<lparr>uc_alphabetic = (\<lambda>_. False), uc_numeric = (\<lambda>_. False)\<rparr>"

theorem referential_action_text_witness:
  "\<exists>e. eval e None = Inr (VText (utf8_string (chars ''x'' @ [39] @ chars '' OR 1=1 --''))) \<and>
    parse plain_ascii (cascade_sql (\<lambda>_. []) (ascii ''child'') (ascii ''pid'') (VText (utf8_string (chars ''x'' @ [39] @ chars '' OR 1=1 --''))))
      = Inr (Delete (ascii ''child'') (Some (EBinary Eq (EColumn (bare (ascii ''pid''))) e)))"
proof -
  have "ascii ''child'' = utf8_string (chars ''child'')" "ascii ''pid'' = utf8_string (chars ''pid'')"
    by (simp_all add: ascii_def chars_def utf8_char_def)
  moreover have "word plain_ascii (chars ''child'')" "word plain_ascii (chars ''pid'')"
    by (simp_all add: word_def chars_def is_whitespace_def is_alphabetic_def is_alphanumeric_def)
  moreover have "from_word (ascii ''child'') = None" "from_word (ascii ''pid'') = None"
    by (simp_all add: from_word_def to_ascii_uppercase_def ascii_def keyword_table_def)
  moreover have "list_all (\<lambda>c. c < 0x110000) (chars ''child'')" "list_all (\<lambda>c. c < 0x110000) (chars ''pid'')"
    by (simp_all add: chars_def)
  ultimately have n: "sql_name plain_ascii (ascii ''child'')" "sql_name plain_ascii (ascii ''pid'')"
    unfolding sql_name_def by metis+
  have "writable (VText (utf8_string (chars ''x'' @ [39] @ chars '' OR 1=1 --'')))"
    by (simp, intro exI [of _ "chars ''x'' @ [39] @ chars '' OR 1=1 --''"]) (simp add: chars_def)
  from referential_action_text [OF n this, of "\<lambda>_. []"] show ?thesis by blast
qed

theorem least_integer_text_fails_witness:
  "\<exists>name. sql_name plain_ascii name \<and> parse plain_ascii (cascade_sql (\<lambda>_. []) name name (VInt 0x8000000000000000)) = Inl (Fail Parse)"
proof -
  have "sql_name plain_ascii (utf8_string [120])"
    unfolding sql_name_def
    by (intro exI [of _ "[120]"]) (simp add: word_def is_whitespace_def is_alphabetic_def is_alphanumeric_def utf8_char_def
        from_word_def to_ascii_uppercase_def ascii_def keyword_table_def)
  with least_integer_text_fails [OF this this] show ?thesis by blast
qed

end
