(* ===== verification/Session.thy ===== *)
theory Session
  imports Vacuum Plan_Bind Cascade_Text
begin

text \<open>
  The state machine of \<^verbatim>\<open>engine/database.rs\<close>: autocommit, explicit transactions, prepared statements and
  streaming, with the dispatch of \<^verbatim>\<open>engine/executor.rs\<close> to the statements. The planner, the query pipeline
  (\<^verbatim>\<open>select\<close> and \<^verbatim>\<open>explain\<close>) and the statements a query or a cascade runs inside another are the fields of an
  \<open>engine\<close>, an argument of the operations. The pager and the coordinator are those of all sessions on the file.
\<close>

section \<open>State\<close>

datatype txn_state = TxNone | TxOpen | TxAborted

record cached_plan =
  cp_schema_version :: u64
  cp_plan :: plan

record session =
  db :: write_state
  catalog_at :: u32
  txn :: txn_state
  current_tx :: "u64 option"
  transaction_snapshot :: "snapshot option"
  prepared_statements :: "u64 \<rightharpoonup> cached_plan"
  next_handle :: u64

datatype query_result = Ack | Rows "bytes list" "row list"

datatype 'q execution = Done | Stream 'q

record 'q engine =
  plan_of :: "statement \<Rightarrow> u32 \<Rightarrow> (pager, plan) op"
  query :: "plan \<Rightarrow> u32 \<Rightarrow> snapshot \<Rightarrow> (write_state, 'q) op"
  stream_columns :: "'q \<Rightarrow> bytes list"
  stream_step :: "('q \<times> write_state, row option) op"
  prepare_expr :: "u32 \<Rightarrow> snapshot \<Rightarrow> expr \<Rightarrow> (write_state, expr) op"
  cascade :: "u32 \<Rightarrow> snapshot \<Rightarrow> fk_action \<Rightarrow> bytes \<Rightarrow> bytes \<Rightarrow> sql_value \<Rightarrow> (write_state, unit) op"

definition on_db :: "(write_state, 'a) op \<Rightarrow> (session, 'a) op" where
  "on_db f s = (case f (db s) of (r, d) \<Rightarrow> (r, s\<lparr>db := d\<rparr>))"

definition on_tx :: "(tx_state, 'a) op \<Rightarrow> (write_state, 'a) op" where
  "on_tx f st = (case f (ws_tx st) of (r, t) \<Rightarrow> (r, st\<lparr>ws_tx := t\<rparr>))"

section \<open>The dispatch of the executor\<close>

definition acknowledge :: "(write_state, 'a) op \<Rightarrow> (write_state, 'q execution) op" where
  "acknowledge f = sbind f (\<lambda>_. sret Done)"

fun execute_streaming :: "'q engine \<Rightarrow> nat \<Rightarrow> u32 \<Rightarrow> snapshot \<Rightarrow> plan \<Rightarrow> (write_state, 'q execution) op" where
  "execute_streaming eng fuel catalog snap (PlanCreateTable name columns pk uqs) =
     acknowledge (on_pager (exec_create_table fuel catalog name columns pk uqs))"
| "execute_streaming eng fuel catalog snap (PlanDropTable name) = acknowledge (on_pager (exec_drop_table fuel catalog name))"
| "execute_streaming eng fuel catalog snap (PlanCreateIndex name table columns) = slift (Inl Panicked)"
| "execute_streaming eng fuel catalog snap (PlanDropIndex name) = acknowledge (on_pager (exec_drop_index fuel catalog name))"
| "execute_streaming eng fuel catalog snap (PlanInsert table columns rows) = acknowledge (insert_rows fuel catalog table columns rows snap)"
| "execute_streaming eng fuel catalog snap (PlanSelect from proj wher access group_by having order_by presorted limit offset) =
     sbind (query eng (PlanSelect from proj wher access group_by having order_by presorted limit offset) catalog snap) (\<lambda>q. sret (Stream q))"
| "execute_streaming eng fuel catalog snap (PlanUpdate table assignments wher access) =
     acknowledge (update_rows (prepare_expr eng catalog snap) fuel catalog table assignments wher access snap)"
| "execute_streaming eng fuel catalog snap (PlanDelete table wher access) =
     acknowledge (delete_rows (prepare_expr eng catalog snap) (apply_parent_delete_actions (cascade eng catalog snap) fuel catalog)
       fuel catalog table wher access snap)"
| "execute_streaming eng fuel catalog snap PlanVacuum = slift (Inl Panicked)"
| "execute_streaming eng fuel catalog snap (PlanAnalyze table) = acknowledge (on_pager (analyze_table fuel catalog table))"
| "execute_streaming eng fuel catalog snap (PlanExplain inner analyze) =
     sbind (query eng (PlanExplain inner analyze) catalog snap) (\<lambda>q. sret (Stream q))"

definition collect_result :: "'q engine \<Rightarrow> nat \<Rightarrow> 'q execution \<Rightarrow> (write_state, query_result) op" where
  "collect_result eng fuel e d =
     (case e of
        Done \<Rightarrow> (Inr Ack, d)
      | Stream q \<Rightarrow>
          (case drain (stream_step eng) fuel (q, d) of
             (Inl err, (_, d)) \<Rightarrow> (Inl err, d)
           | (Inr rows, (_, d)) \<Rightarrow> (Inr (Rows (stream_columns eng q) rows), d)))"

definition execute_plan :: "'q engine \<Rightarrow> nat \<Rightarrow> u32 \<Rightarrow> snapshot \<Rightarrow> plan \<Rightarrow> (write_state, query_result) op" where
  "execute_plan eng fuel catalog snap plan =
     sbind (execute_streaming eng fuel catalog snap plan) (collect_result eng fuel)"

section \<open>Running a plan\<close>

fun plan_writes :: "plan \<Rightarrow> bool" where
  "plan_writes (PlanSelect from proj wher access group_by having order_by presorted limit offset) = False"
| "plan_writes plan = True"

text \<open>Reserve a transaction id, and note in the header that it is used.\<close>

definition reserve_tx :: "session \<Rightarrow> u64 \<times> session" where
  "reserve_tx s =
     (case begin_write (ws_tx (db s)) of (tx, t) \<Rightarrow>
        (tx, s\<lparr>db := \<lparr>ws_pager = bump_next_tx_id_to (tx + 1) (ws_pager (db s)), ws_tx = t\<rparr>, current_tx := Some tx\<rparr>))"

definition ensure_write_tx :: "session \<Rightarrow> session" where
  "ensure_write_tx s = (if current_tx s = None then snd (reserve_tx s) else s)"

definition snapshot_for_statement :: "session \<Rightarrow> snapshot" where
  "snapshot_for_statement s =
     (case transaction_snapshot s of
        Some base \<Rightarrow> base\<lparr>own_tx := current_tx s\<rparr>
      | None \<Rightarrow> take_snapshot (current_tx s) (ws_tx (db s)))"

text \<open>The SSI check and the outcome record of a transaction.\<close>

definition finish_tx :: "u64 \<Rightarrow> (session, unit) op" where
  "finish_tx tx s =
     (case ssi_check_commit tx (ssi (ws_tx (db s))) of
        Inl e \<Rightarrow> (Inl e, snd (on_db (on_tx (rollback_write tx)) s))
      | Inr _ \<Rightarrow> on_db (on_tx (commit_write tx)) s)"

text \<open>What follows a statement that succeeded.\<close>

definition autocommit :: "bool \<Rightarrow> (session, unit) op" where
  "autocommit writes =
     sbind (if writes then on_db (on_pager commit) else sret ()) (\<lambda>_ s.
       if txn s = TxNone \<and> writes then
         (case current_tx s of
            None \<Rightarrow> (Inl Panicked, s)
          | Some tx \<Rightarrow> finish_tx tx (s\<lparr>current_tx := None\<rparr>))
       else (Inr (), s))"

definition roll_back_pager :: "session \<Rightarrow> session" where
  "roll_back_pager s = s\<lparr>db := (db s)\<lparr>ws_pager := rollback (ws_pager (db s))\<rparr>\<rparr>"

definition abort_open :: "session \<Rightarrow> session" where
  "abort_open s = (if txn s = TxOpen then s\<lparr>txn := TxAborted\<rparr> else s)"

definition release_tx :: "session \<Rightarrow> session" where
  "release_tx s =
     (case current_tx s of
        None \<Rightarrow> s
      | Some tx \<Rightarrow> snd (on_db (on_tx (rollback_write tx)) (s\<lparr>current_tx := None\<rparr>)))"

text \<open>What follows a statement that failed.\<close>

definition statement_failed :: "session \<Rightarrow> session" where
  "statement_failed s = (let s = abort_open (roll_back_pager s) in if txn s \<noteq> TxOpen then release_tx s else s)"

definition run_plan :: "'q engine \<Rightarrow> nat \<Rightarrow> plan \<Rightarrow> (session, query_result) op" where
  "run_plan eng fuel plan s =
     (let s = (if plan_writes plan then ensure_write_tx s else s) in
      case on_db (execute_plan eng fuel (catalog_at s) (snapshot_for_statement s) plan) s of
        (Inr result, s) \<Rightarrow> sbind (autocommit (plan_writes plan)) (\<lambda>_. sret result) s
      | (Inl e, s) \<Rightarrow> (Inl e, statement_failed s))"

definition run_plan_streaming :: "'q engine \<Rightarrow> nat \<Rightarrow> plan \<Rightarrow> (session, 'q execution) op" where
  "run_plan_streaming eng fuel plan s =
     (let s = (if plan_writes plan then ensure_write_tx s else s) in
      case on_db (execute_streaming eng fuel (catalog_at s) (snapshot_for_statement s) plan) s of
        (Inr Done, s) \<Rightarrow> sbind (autocommit (plan_writes plan)) (\<lambda>_. sret Done) s
      | (Inr (Stream q), s) \<Rightarrow> (Inr (Stream q), s)
      | (Inl e, s) \<Rightarrow> (Inl e, statement_failed s))"

definition stream_next :: "'q engine \<Rightarrow> 'q \<Rightarrow> (session, row option \<times> 'q) op" where
  "stream_next eng q s =
     (case stream_step eng (q, db s) of
        (Inr row, (q, d)) \<Rightarrow> (Inr (row, q), s\<lparr>db := d\<rparr>)
      | (Inl e, (q, d)) \<Rightarrow> (Inl e, abort_open (roll_back_pager (s\<lparr>db := d\<rparr>))))"

section \<open>Transactions\<close>

definition begin_transaction :: "(session, unit) op" where
  "begin_transaction s =
     (if txn s \<noteq> TxNone then (Inl (Fail Exec), s)
      else case reserve_tx s of (tx, s) \<Rightarrow>
        (Inr (), s\<lparr>transaction_snapshot := Some (take_snapshot (Some tx) (ws_tx (db s))), txn := TxOpen\<rparr>))"

definition commit_transaction :: "(session, unit) op" where
  "commit_transaction s =
     (let t = s\<lparr>transaction_snapshot := None, txn := TxNone, current_tx := None\<rparr> in
      case txn s of
        TxNone \<Rightarrow> (Inl (Fail Exec), s)
      | TxOpen \<Rightarrow> (case current_tx s of None \<Rightarrow> (Inr (), t) | Some tx \<Rightarrow> finish_tx tx t)
      | TxAborted \<Rightarrow> (case current_tx s of None \<Rightarrow> (Inr (), t) | Some tx \<Rightarrow> on_db (on_tx (rollback_write tx)) t))"

definition rollback_transaction :: "(session, unit) op" where
  "rollback_transaction s =
     (if txn s = TxNone then (Inl (Fail Exec), s)
      else
        let t = (roll_back_pager s)\<lparr>transaction_snapshot := None, txn := TxNone, current_tx := None\<rparr> in
        case current_tx s of None \<Rightarrow> (Inr (), t) | Some tx \<Rightarrow> on_db (on_tx (rollback_write tx)) t)"

definition in_transaction :: "session \<Rightarrow> bool" where
  "in_transaction s \<longleftrightarrow> txn s \<noteq> TxNone"

definition abort_transaction :: "session \<Rightarrow> session" where
  "abort_transaction s =
     (if txn s \<noteq> TxNone then release_tx ((roll_back_pager s)\<lparr>transaction_snapshot := None, txn := TxNone\<rparr>) else s)"

section \<open>Statements\<close>

definition reload_for_write :: "(session, unit) op" where
  "reload_for_write s = sbind (on_db (on_pager catalog_open)) (\<lambda>root s. (Inr (), s\<lparr>catalog_at := root\<rparr>)) s"

text \<open>
  The session's part of CREATE INDEX. The phases open the catalog themselves; its root, once set in the header,
  stays, so that reopening it once is enough for the session.
\<close>

definition session_create_index :: "nat \<Rightarrow> bytes \<Rightarrow> bytes \<Rightarrow> bytes list \<Rightarrow> (session, unit) op" where
  "session_create_index fuel name table columns =
     sbind reload_for_write (\<lambda>_. on_db (on_pager (create_index_online fuel name table columns)))"

definition session_vacuum :: "nat \<Rightarrow> io_outcome list \<Rightarrow> (session, unit) op" where
  "session_vacuum fuel fs s = sbind (on_db (vacuum fuel fs (catalog_at s))) (\<lambda>root s. (Inr (), s\<lparr>catalog_at := root\<rparr>)) s"

text \<open>
  One statement, after parsing. \<open>fs\<close> is what becomes of the I/O on the scratch file of VACUUM, and \<open>run\<close> is \<open>run_plan\<close> or its streaming
  form; \<open>bind\<close> replaces the placeholders (the streaming form has none to replace).
\<close>

definition dispatch :: "io_outcome list \<Rightarrow> nat \<Rightarrow> 'r \<Rightarrow> (plan \<Rightarrow> (session, 'r) op) \<Rightarrow> plan \<Rightarrow> (session, 'r) op" where
  "dispatch fs fuel ack run plan s =
     (case plan of
        PlanVacuum \<Rightarrow> if txn s = TxOpen then (Inl (Fail Exec), s) else sbind (session_vacuum fuel fs) (\<lambda>_. sret ack) s
      | PlanCreateIndex name table columns \<Rightarrow>
          if txn s = TxOpen then (Inl (Fail Exec), s)
          else sbind (session_create_index fuel name table columns) (\<lambda>_. sret ack) s
      | _ \<Rightarrow> run plan s)"

definition run_statement :: "'q engine \<Rightarrow> io_outcome list \<Rightarrow> nat \<Rightarrow> 'r \<Rightarrow> (plan \<Rightarrow> plan result) \<Rightarrow> (plan \<Rightarrow> (session, 'r) op)
    \<Rightarrow> statement \<Rightarrow> (session, 'r) op" where
  "run_statement eng fs fuel ack bind run st s =
     (case st of
        Begin \<Rightarrow> sbind begin_transaction (\<lambda>_. sret ack) s
      | Commit \<Rightarrow> sbind commit_transaction (\<lambda>_. sret ack) s
      | Rollback \<Rightarrow> sbind rollback_transaction (\<lambda>_. sret ack) s
      | _ \<Rightarrow>
          if txn s = TxAborted then (Inl (Fail Exec), s)
          else
            sbind (on_db (on_pager (plan_of eng st (catalog_at s)))) (\<lambda>plan.
            sbind (slift (bind plan)) (\<lambda>plan. dispatch fs fuel ack run plan)) s)"

definition execute_with_params :: "unicode \<Rightarrow> 'q engine \<Rightarrow> io_outcome list \<Rightarrow> nat \<Rightarrow> uchar list \<Rightarrow> sql_value list
    \<Rightarrow> (session, query_result) op" where
  "execute_with_params uc eng fs fuel sql params =
     sbind (slift (parse uc sql)) (run_statement eng fs fuel Ack (bind_plan params) (run_plan eng fuel))"

definition execute_sql :: "unicode \<Rightarrow> 'q engine \<Rightarrow> io_outcome list \<Rightarrow> nat \<Rightarrow> uchar list \<Rightarrow> (session, query_result) op" where
  "execute_sql uc eng fs fuel sql = execute_with_params uc eng fs fuel sql []"

definition session_streaming :: "unicode \<Rightarrow> 'q engine \<Rightarrow> io_outcome list \<Rightarrow> nat \<Rightarrow> uchar list \<Rightarrow> (session, 'q execution) op" where
  "session_streaming uc eng fs fuel sql =
     sbind (slift (parse uc sql)) (run_statement eng fs fuel Done Inr (run_plan_streaming eng fuel))"

section \<open>Prepared statements\<close>

definition plannable :: "statement \<Rightarrow> bool" where
  "plannable st \<longleftrightarrow> st \<notin> {Begin, Commit, Rollback}"

definition preparable :: "plan \<Rightarrow> bool" where
  "preparable plan \<longleftrightarrow> (case plan of PlanVacuum \<Rightarrow> False | PlanCreateIndex _ _ _ \<Rightarrow> False | _ \<Rightarrow> True)"

definition keep_plan :: "plan \<Rightarrow> (session, u64) op" where
  "keep_plan plan s =
     (let h = next_handle s in
      if h = - 1 then (Inl (Fail Exec), s)
      else
        (Inr h, s\<lparr>next_handle := h + 1, prepared_statements := (prepared_statements s)(h \<mapsto>
           \<lparr>cp_schema_version = schema_version (ws_pager (db s)), cp_plan = plan\<rparr>)\<rparr>))"

definition prepare_sql :: "unicode \<Rightarrow> 'q engine \<Rightarrow> uchar list \<Rightarrow> (session, u64) op" where
  "prepare_sql uc eng sql =
     sbind (slift (parse uc sql)) (\<lambda>st s.
       if \<not> plannable st then (Inl (Fail Exec), s)
       else
         sbind (on_db (on_pager (plan_of eng st (catalog_at s)))) (\<lambda>plan.
         if \<not> preparable plan then slift (Inl (Fail Exec)) else keep_plan plan) s)"

definition take_fresh_prepared_plan :: "u64 \<Rightarrow> (session, plan) op" where
  "take_fresh_prepared_plan h s =
     (case prepared_statements s h of
        None \<Rightarrow> (Inl (Fail Exec), s)
      | Some c \<Rightarrow>
          if cp_schema_version c \<noteq> schema_version (ws_pager (db s))
          then (Inl (Fail Exec), s\<lparr>prepared_statements := (prepared_statements s)(h := None)\<rparr>)
          else (Inr (cp_plan c), s))"

definition execute_prepared :: "'q engine \<Rightarrow> nat \<Rightarrow> u64 \<Rightarrow> sql_value list \<Rightarrow> (session, query_result) op" where
  "execute_prepared eng fuel h params s =
     (if txn s = TxAborted then (Inl (Fail Exec), s)
      else
        sbind (take_fresh_prepared_plan h) (\<lambda>plan.
        sbind (slift (bind_plan params plan)) (run_plan eng fuel)) s)"

definition execute_prepared_streaming :: "'q engine \<Rightarrow> nat \<Rightarrow> u64 \<Rightarrow> sql_value list \<Rightarrow> (session, 'q execution) op" where
  "execute_prepared_streaming eng fuel h params s =
     (if txn s = TxAborted then (Inl (Fail Exec), s)
      else
        sbind (take_fresh_prepared_plan h) (\<lambda>plan.
        sbind (slift (bind_plan params plan)) (\<lambda>plan.
        if plan = PlanVacuum then slift (Inl (Fail Exec)) else run_plan_streaming eng fuel plan)) s)"

definition deallocate_prepared :: "u64 \<Rightarrow> session \<Rightarrow> bool \<times> session" where
  "deallocate_prepared h s =
     (prepared_statements s h \<noteq> None, s\<lparr>prepared_statements := (prepared_statements s)(h := None)\<rparr>)"

section \<open>Locks the server takes\<close>

datatype table_access = Shared | Exclusive

datatype write_scope = ScopeTable bytes table_access | ScopeTableOnline bytes | ScopeCatalog | ScopeNone | ScopeUnknown

fun statement_scope :: "statement \<Rightarrow> write_scope" where
  "statement_scope (Insert table columns rows) = ScopeTable table Shared"
| "statement_scope (Update table assignments wher) = ScopeTable table Shared"
| "statement_scope (Delete table wher) = ScopeTable table Shared"
| "statement_scope (CreateIndex name table columns) = ScopeTableOnline table"
| "statement_scope (DropIndex name) = ScopeCatalog"
| "statement_scope (CreateTable name columns) = ScopeCatalog"
| "statement_scope (DropTable name) = ScopeCatalog"
| "statement_scope Vacuum = ScopeCatalog"
| "statement_scope (Analyze table) = ScopeCatalog"
| "statement_scope _ = ScopeNone"

definition write_scope :: "unicode \<Rightarrow> uchar list \<Rightarrow> write_scope" where
  "write_scope uc sql = (case parse uc sql of Inr st \<Rightarrow> statement_scope st | Inl _ \<Rightarrow> ScopeUnknown)"

definition is_read_only_sql :: "unicode \<Rightarrow> uchar list \<Rightarrow> bool" where
  "is_read_only_sql uc sql = (case parse uc sql of Inr (Select _ _ _ _ _ _ _ _) \<Rightarrow> True | _ \<Rightarrow> False)"

fun plan_write_scope :: "plan \<Rightarrow> write_scope" where
  "plan_write_scope (PlanInsert table columns rows) = ScopeTable table Shared"
| "plan_write_scope (PlanUpdate table assignments wher access) = ScopeTable table Shared"
| "plan_write_scope (PlanDelete table wher access) = ScopeTable table Shared"
| "plan_write_scope (PlanCreateIndex name table columns) = ScopeTableOnline table"
| "plan_write_scope (PlanSelect from proj wher access group_by having order_by presorted limit offset) = ScopeNone"
| "plan_write_scope (PlanExplain inner analyze) = ScopeNone"
| "plan_write_scope _ = ScopeCatalog"

definition prepared_write_scope :: "u64 \<Rightarrow> session \<Rightarrow> write_scope result" where
  "prepared_write_scope h s =
     rbind (ok_or (prepared_statements s h) Exec) (\<lambda>c. Inr (plan_write_scope (cp_plan c)))"

section \<open>Opening\<close>

definition new_session :: "write_state \<Rightarrow> u32 \<Rightarrow> session" where
  "new_session d root = \<lparr>db = d, catalog_at = root, txn = TxNone, current_tx = None, transaction_snapshot = None,
     prepared_statements = Map.empty, next_handle = 1\<rparr>"

text \<open>The first session on a file, with the leftover logs \<open>logs\<close> and the commit log \<open>c\<close> already read.\<close>

definition open_database :: "nat \<Rightarrow> bytes \<Rightarrow> bytes list \<Rightarrow> io_outcome list \<Rightarrow> shared_pool \<Rightarrow> clog \<Rightarrow> session result" where
  "open_database fuel file logs fs p c =
     rbind (open_with_pool file logs fs p) (\<lambda>s.
       let tx = tx_state_new (meta.next_tx_id (meta s)) c in
       fst (sbind catalog_open (\<lambda>root. sbind commit (\<lambda>_. sbind (sweep_partial_indexes fuel root) (\<lambda>_ s.
         (Inr (new_session \<lparr>ws_pager = s, ws_tx = tx\<rparr> root), s)))) s))"

definition open_peer :: "write_state \<Rightarrow> session result" where
  "open_peer d =
     fst (sbind catalog_open (\<lambda>root. sbind commit (\<lambda>_ s. (Inr (new_session (d\<lparr>ws_pager := s\<rparr>) root), s)))
       (open_shared (ws_pager d)))"

end
