(* ===== verification/Session_Spec.thy ===== *)
theory Session_Spec
  imports Session
begin

text \<open>
  What a session of \<open>Session\<close> promises: the invariant every call keeps, that its calls move the shared
  coordinator only by the steps of \<open>Transaction\<close> and never touch the transactions of other sessions, the
  snapshot a transaction reads from, the undoing of failed statements, and prepared statements. Assumed of
  the engine is only that planning and queries leave the coordinator's ids and outcomes alone.
\<close>

section \<open>Operations that leave the coordinator alone\<close>

definition core :: "write_state \<Rightarrow> u64 \<times> u64 set \<times> clog" where
  "core st = (tx_state.next_tx_id (ws_tx st), in_flight (ws_tx st), tx_clog (ws_tx st))"

lemma core_steps: "core st' = core st \<Longrightarrow> tx_steps (ws_tx st) (ws_tx st')"
proof -
  assume c: "core st' = core st"
  have "ws_tx st' = (ws_tx st)\<lparr>ssi := ssi (ws_tx st')\<rparr>\<lparr>rowid_counters := rowid_counters (ws_tx st')\<rparr>"
    using c by (cases "ws_tx st"; cases "ws_tx st'") (simp add: core_def)
  then show ?thesis using ts_rowid [OF ts_ssi [OF ts_init]] by metis
qed

named_theorems leaves \<open>operations that leave the coordinator alone\<close>

lemma leaves_basic [leaves]:
  "keeps core (sret x)" "keeps core (slift r)" "keeps core (on_pager f)" "keeps core (on_ssi g)" "keeps core (reserve table n)"
  "keeps core (next_rowid_now table n)" "keeps core (\<lambda>st. (h st, st))"
  by (auto simp: keeps_def core_def on_pager_def on_ssi_def reserve_def next_rowid_now_def reserve_rowid_def current_next_rowid_def Let_def
      split: prod.splits)

lemma leaves_bind [leaves]: "keeps core m \<Longrightarrow> (\<And>x. keeps core (f x)) \<Longrightarrow> keeps core (sbind m f)"
  by (rule keeps_sbind)

lemma leaves_if [leaves]: "(b \<Longrightarrow> keeps core f) \<Longrightarrow> (\<not> b \<Longrightarrow> keeps core g) \<Longrightarrow> keeps core (if b then f else g)"
  by simp

lemma leaves_option [leaves]: "(keeps core f) \<Longrightarrow> (\<And>x. keeps core (g x)) \<Longrightarrow> keeps core (case r of None \<Rightarrow> f | Some x \<Rightarrow> g x)"
  by (cases r) simp_all

lemma leaves_sfor [leaves]: "(\<And>x. keeps core (f x)) \<Longrightarrow> keeps core (sfor f xs)"
  by (induction xs) (auto intro: leaves)

lemma leaves_write_each [leaves]: "(\<And>x. keeps core (f x)) \<Longrightarrow> keeps core (write_each f xs)"
  by (induction xs) (auto intro: leaves)

lemma leaves_store [leaves]: "keeps core (store_version fuel sch table tx values old snap)"
  unfolding store_version_def index_insert_row_with_old_def index_insert_one_def unique_check_def by (intro leaves)

lemma leaves_insert [leaves]: "keeps core (insert_rows fuel catalog table columns rows snap)"
  unfolding insert_rows_def insert_one_def by (intro leaves)

lemma leaves_admit [leaves]: "keeps core (admit_version full snap root rk r)"
  by (auto simp: admit_version_def keeps_def core_def on_ssi_def sbind_def split: if_splits)

lemma leaves_admit_all [leaves]: "keeps core (admit_all n snap root kvs)"
  by (induction kvs) (auto intro: leaves)

lemma leaves_admit_index [leaves]: "keeps core (admit_index fuel n snap root ids kvs)"
  by (induction kvs arbitrary: ids) (auto intro!: leaves simp: Let_def)

lemma leaves_candidates [leaves]: "keeps core (collect_candidates fuel sch access snap)"
  unfolding collect_candidates_def by (cases access) (auto intro: leaves)

lemma leaves_tombstone [leaves]: "keeps core (tombstone fuel sch rk r tx snap)"
  unfolding tombstone_def by (intro leaves)

lemma leaves_prepare:
  assumes "\<And>e. keeps core (prepare e)"
  shows "keeps core (prepare_all prepare es)" "keeps core (prepare_option prepare e)"
  using assms by (induction prepare es rule: prepare_all.induct) (auto simp: prepare_option_def intro!: leaves)

lemma leaves_update:
  assumes "\<And>e. keeps core (prepare e)"
  shows "keeps core (update_rows prepare fuel catalog table assignments predicate access snap)"
  unfolding update_rows_def update_one_def Let_def by (intro leaves leaves_prepare assms)

lemma leaves_parent_actions:
  assumes "\<And>a n c v. keeps core (run a n c v)"
  shows "keeps core (apply_parent_delete_actions run fuel catalog parent values)"
  unfolding apply_parent_delete_actions_def Let_def case_prod_unfold
  by (intro leaves) (auto intro!: leaves assms split: option.splits fk_action.splits)

lemma leaves_delete:
  assumes "\<And>e. keeps core (prepare e)" "\<And>s r. keeps core (actions s r)"
  shows "keeps core (delete_rows prepare actions fuel catalog table predicate access snap)"
  unfolding delete_rows_def delete_one_def Let_def by (intro leaves leaves_prepare assms)

definition engine_ok :: "'q engine \<Rightarrow> bool" where
  "engine_ok eng \<longleftrightarrow> (\<forall>plan c snap. keeps core (query eng plan c snap)) \<and> keeps (\<lambda>(q, d). core d) (stream_step eng) \<and>
     (\<forall>c snap e. keeps core (prepare_expr eng c snap e)) \<and> (\<forall>c snap a n col v. keeps core (cascade eng c snap a n col v))"

lemma execute_streaming_leaves:
  assumes "engine_ok eng"
  shows "keeps core (execute_streaming eng fuel catalog snap plan)"
  using assms unfolding engine_ok_def
  by (cases plan) (auto simp: acknowledge_def intro!: leaves leaves_update leaves_delete leaves_parent_actions)

lemma drain_keeps: "keeps g nx \<Longrightarrow> keeps g (drain nx n)"
proof (induction n)
  case (Suc n)
  show ?case unfolding keeps_def
  proof
    fix s
    show "g (snd (drain nx (Suc n) s)) = g s"
      using keepsD [OF Suc.prems, of s] keepsD [OF Suc.IH [OF Suc.prems]]
      by (auto split: prod.splits sum.splits option.splits)
  qed
qed (simp add: keeps_def)

lemma execute_plan_leaves:
  assumes "engine_ok eng"
  shows "keeps core (execute_plan eng fuel catalog snap plan)"
proof -
  have d: "keeps (\<lambda>(q, d). core d) (drain (stream_step eng) fuel)" using assms drain_keeps by (auto simp: engine_ok_def)
  have "keeps core (collect_result eng fuel e)" for e
    unfolding keeps_def collect_result_def using keepsD [OF d] by (auto split: execution.splits prod.splits sum.splits)
  then show ?thesis unfolding execute_plan_def by (intro leaves execute_streaming_leaves [OF assms])
qed

lemma vacuum_leaves [leaves]: "keeps core (vacuum fuel fs catalog)"
  by (auto simp: keeps_def vacuum_def core_def on_pager_def split: prod.splits sum.splits)

section \<open>The invariant of a session\<close>

definition running :: "tx_state \<Rightarrow> u64 \<Rightarrow> bool" where
  "running t x \<longleftrightarrow> x \<in> in_flight t \<and> tx_status (tx_clog t) x = None"

definition pinned :: "snapshot \<Rightarrow> tx_state \<Rightarrow> bool" where
  "pinned base t \<longleftrightarrow> (\<exists>t0 own. tx_inv t0 \<and> tx_steps t0 t \<and> base = take_snapshot own t0)"

definition session_ok :: "session \<Rightarrow> bool" where
  "session_ok s \<longleftrightarrow> tx_inv (ws_tx (db s)) \<and> (\<forall>x. current_tx s = Some x \<longrightarrow> running (ws_tx (db s)) x) \<and>
     (txn s = TxNone \<longleftrightarrow> transaction_snapshot s = None) \<and> (txn s = TxOpen \<longrightarrow> current_tx s \<noteq> None) \<and>
     (\<forall>base. transaction_snapshot s = Some base \<longrightarrow> pinned base (ws_tx (db s))) \<and>
     (\<forall>h. prepared_statements s h \<noteq> None \<longrightarrow> h < next_handle s)"

text \<open>Handles are given out once: an old handle keeps its plan or loses it.\<close>

definition handles_kept :: "session \<Rightarrow> session \<Rightarrow> bool" where
  "handles_kept s s' \<longleftrightarrow> next_handle s \<le> next_handle s' \<and>
     (\<forall>h. h < next_handle s \<longrightarrow> prepared_statements s' h = None \<or> prepared_statements s' h = prepared_statements s h)"

lemma handles_kept_trans: "handles_kept a b \<Longrightarrow> handles_kept b c \<Longrightarrow> handles_kept a c"
  unfolding handles_kept_def by (metis order.strict_trans2 order.trans)

lemma handles_kept_same: "prepared_statements s' = prepared_statements s \<Longrightarrow> next_handle s' = next_handle s \<Longrightarrow> handles_kept s s'"
  by (simp add: handles_kept_def)

text \<open>
  What a session does to the world: the coordinator moves by its steps, the transactions of other sessions go
  on running, and a transaction id that is new to the session is new altogether.
\<close>

definition own_step :: "session \<Rightarrow> session \<Rightarrow> bool" where
  "own_step s s' \<longleftrightarrow> handles_kept s s' \<and> tx_steps (ws_tx (db s)) (ws_tx (db s')) \<and>
     (\<forall>x. running (ws_tx (db s)) x \<longrightarrow> current_tx s \<noteq> Some x \<longrightarrow> running (ws_tx (db s')) x) \<and>
     (\<forall>x. current_tx s' = Some x \<longrightarrow> current_tx s = Some x \<or> tx_state.next_tx_id (ws_tx (db s)) \<le> x) \<and>
     (txn s = TxOpen \<longrightarrow> txn s' = TxOpen \<longrightarrow> current_tx s' = current_tx s \<and> transaction_snapshot s' = transaction_snapshot s)"

text \<open>A step that opens no transaction.\<close>

definition inner_step :: "session \<Rightarrow> session \<Rightarrow> bool" where
  "inner_step s s' \<longleftrightarrow> own_step s s' \<and> session_ok s' \<and> (txn s' = TxOpen \<longrightarrow> txn s = TxOpen)"

lemma tx_steps_trans: "tx_steps b c \<Longrightarrow> tx_steps a b \<Longrightarrow> tx_steps a c"
  by (induction rule: tx_steps.induct) (auto intro: tx_steps.intros)

lemma next_mono: "tx_steps s t \<Longrightarrow> tx_state.next_tx_id s \<le> tx_state.next_tx_id t"
proof (induction rule: tx_steps.induct)
  case (ts_begin s tx s')
  have "tx_state.next_tx_id s < tx_state.next_tx_id s + 1" using less_next [OF ts_begin.hyps(2)] by simp
  with ts_begin show ?case by (auto simp: begin_write_def Let_def)
qed (auto simp: end_tx_def dest!: log_outcome_clog)

lemma running_below_next: "tx_inv t \<Longrightarrow> running t x \<Longrightarrow> x < tx_state.next_tx_id t"
  by (auto simp: tx_inv_def running_def)

lemma own_step_trans:
  assumes "own_step a b" "own_step b c" "session_ok a" "txn c = TxOpen \<Longrightarrow> txn b = TxOpen"
  shows "own_step a c"
proof -
  have steps: "tx_steps (ws_tx (db a)) (ws_tx (db b))" "tx_steps (ws_tx (db b)) (ws_tx (db c))" using assms(1,2) by (simp_all add: own_step_def)
  have r: "running (ws_tx (db c)) x" if "running (ws_tx (db a)) x" "current_tx a \<noteq> Some x" for x
  proof -
    have "x < tx_state.next_tx_id (ws_tx (db a))" using running_below_next that(1) assms(3) by (auto simp: session_ok_def)
    then have "current_tx b \<noteq> Some x" using assms(1) that(2) by (auto simp: own_step_def)
    with that assms(1,2) show ?thesis by (auto simp: own_step_def)
  qed
  have "current_tx a = Some x \<or> tx_state.next_tx_id (ws_tx (db a)) \<le> x" if "current_tx c = Some x" for x
    using assms(1,2) that next_mono [OF steps(1)] unfolding own_step_def by (meson order.trans)
  moreover have "handles_kept a c" using assms(1,2) handles_kept_trans by (auto simp: own_step_def)
  ultimately show ?thesis using r tx_steps_trans [OF steps(2,1)] assms(1,2,4) by (auto simp: own_step_def)
qed

lemma inner_trans: "inner_step a b \<Longrightarrow> inner_step b c \<Longrightarrow> session_ok a \<Longrightarrow> inner_step a c"
  unfolding inner_step_def using own_step_trans by blast

lemma pinned_steps: "pinned base t \<Longrightarrow> tx_steps t t' \<Longrightarrow> pinned base t'"
  unfolding pinned_def using tx_steps_trans by blast

text \<open>The cases of a step: what becomes of the current transaction and of the explicit transaction.\<close>

lemma inner_stepI:
  assumes "session_ok s" "tx_steps (ws_tx (db s)) (ws_tx (db s'))"
    and "\<And>x. running (ws_tx (db s)) x \<Longrightarrow> current_tx s \<noteq> Some x \<Longrightarrow> running (ws_tx (db s')) x"
    and "\<And>x. current_tx s' = Some x \<Longrightarrow> running (ws_tx (db s')) x \<and> (current_tx s = Some x \<or> tx_state.next_tx_id (ws_tx (db s)) \<le> x)"
    and "transaction_snapshot s' = transaction_snapshot s \<and> (txn s' = TxNone \<longleftrightarrow> txn s = TxNone) \<or> transaction_snapshot s' = None \<and> txn s' = TxNone"
    and "txn s' = TxOpen \<Longrightarrow> txn s = TxOpen \<and> current_tx s' = current_tx s"
    and "\<And>h. prepared_statements s' h \<noteq> None \<Longrightarrow> h < next_handle s'" "handles_kept s s'"
  shows "inner_step s s'"
proof -
  have "tx_inv (ws_tx (db s'))" using tx_steps_inv [OF assms(2)] assms(1) by (simp add: session_ok_def)
  moreover have "pinned base (ws_tx (db s'))" if "transaction_snapshot s' = Some base" for base
    using assms(1,5) that pinned_steps [OF _ assms(2)] by (auto simp: session_ok_def)
  ultimately show ?thesis using assms unfolding inner_step_def own_step_def session_ok_def by auto
qed

lemma inner_refl: "session_ok s \<Longrightarrow> inner_step s s"
  by (rule inner_stepI) (auto simp: session_ok_def handles_kept_def intro: ts_init)

lemma inner_core:
  assumes "session_ok s" "core (db s') = core (db s)" "current_tx s' = current_tx s" "transaction_snapshot s' = transaction_snapshot s"
    "txn s' = txn s \<or> txn s = TxOpen \<and> txn s' = TxAborted" "\<And>h. prepared_statements s' h \<noteq> None \<Longrightarrow> h < next_handle s'" "handles_kept s s'"
  shows "inner_step s s'"
proof (rule inner_stepI)
  have r: "running (ws_tx (db s')) x = running (ws_tx (db s)) x" for x using assms(2) by (simp add: core_def running_def)
  show "running (ws_tx (db s')) x \<and> (current_tx s = Some x \<or> tx_state.next_tx_id (ws_tx (db s)) \<le> x)" if "current_tx s' = Some x" for x
    using that assms(1,3) r by (simp add: session_ok_def)
qed (use assms core_steps in \<open>auto simp: core_def running_def\<close>)

lemma inner_db:
  assumes "session_ok s" "keeps core f" "on_db f s = (r, s')"
  shows "inner_step s s'"
proof -
  obtain d where d: "f (db s) = (r, d)" "s' = s\<lparr>db := d\<rparr>" using assms(3) by (auto simp: on_db_def split: prod.splits)
  have "core d = core (db s)" by (rule keepsD [OF assms(2) d(1)])
  then show ?thesis using assms(1) d(2) by (intro inner_core) (auto simp: session_ok_def handles_kept_def)
qed

section \<open>Transaction ids\<close>

lemma inner_reserve:
  assumes "session_ok s" "txn s \<noteq> TxOpen" "tx_state.next_tx_id (ws_tx (db s)) \<noteq> - 1" "reserve_tx s = (x, s')"
  shows "inner_step s s' \<and> current_tx s' = Some x \<and> txn s' = txn s \<and> transaction_snapshot s' = transaction_snapshot s"
proof -
  let ?t = "ws_tx (db s)"
  have inv: "tx_inv ?t" using assms(1) by (simp add: session_ok_def)
  have x: "x = tx_state.next_tx_id ?t" "ws_tx (db s') = snd (begin_write ?t)" "current_tx s' = Some x" "txn s' = txn s"
    "transaction_snapshot s' = transaction_snapshot s" "prepared_statements s' = prepared_statements s" "next_handle s' = next_handle s"
    using assms(4) by (auto simp: reserve_tx_def begin_write_def Let_def)
  have "tx_steps ?t (ws_tx (db s'))"
    unfolding x(2) by (rule ts_begin [OF ts_init assms(3), where tx = "fst (begin_write ?t)"]) simp
  moreover have "tx_status (tx_clog ?t) x = None"
  proof -
    have "min_tx_id (tx_clog ?t) \<le> x" "outcomes (tx_clog ?t) x = None" using inv x(1) by (simp_all add: tx_inv_def)
    then show ?thesis using outcomes_status by metis
  qed
  ultimately have "inner_step s s'" using assms(1,2) x
    by (intro inner_stepI) (auto simp: session_ok_def running_def begin_write_def Let_def handles_kept_def)
  with x show ?thesis by simp
qed

lemma inner_ensure:
  assumes "session_ok s" "tx_state.next_tx_id (ws_tx (db s)) \<noteq> - 1"
  shows "inner_step s (ensure_write_tx s) \<and> current_tx (ensure_write_tx s) \<noteq> None \<and> txn (ensure_write_tx s) = txn s"
proof (cases "current_tx s")
  case None
  obtain x s' where r: "reserve_tx s = (x, s')" by (cases "reserve_tx s")
  have "txn s \<noteq> TxOpen" using assms(1) None by (auto simp: session_ok_def)
  from inner_reserve [OF assms(1) this assms(2) r] None r show ?thesis by (simp add: ensure_write_tx_def)
qed (simp add: ensure_write_tx_def inner_refl [OF assms(1)])

definition close_tx :: "status \<Rightarrow> u64 \<Rightarrow> (tx_state, unit) op" where
  "close_tx st x = sbind (log_outcome st x) (\<lambda>_ s. (Inr (), end_tx x s))"

lemma close_tx_eq: "commit_write = close_tx Committed" "rollback_write = close_tx RolledBack"
  by (simp_all add: fun_eq_iff close_tx_def commit_write_def rollback_write_def)

lemma close_tx_steps:
  assumes "tx_inv t" "running t x" "close_tx st x t = (r, t')"
  shows "tx_steps t t' \<and> (\<forall>y. running t y \<longrightarrow> y \<noteq> x \<longrightarrow> running t' y) \<and>
    (r = Inr () \<longrightarrow> x \<notin> in_flight t' \<and> tx_status (tx_clog t') x = Some st)"
proof -
  obtain l t1 where l: "log_outcome st x t = (l, t1)" by (cases "log_outcome st x t")
  have x: "x \<in> in_flight t" "tx_status (tx_clog t) x = None" using assms(2) by (simp_all add: running_def)
  have one: "tx_steps t t1" by (rule ts_log [OF ts_init x l])
  obtain c where c: "clog_append x st (tx_clog t) = (l, c)" "t1 = t\<lparr>tx_clog := c\<rparr>" using log_outcome_clog [OF l] by blast
  have q: "quiet (tx_clog t)" "min_tx_id (tx_clog t) \<le> x" using assms(1) x(1) by (auto simp: tx_inv_def)
  have other: "running t1 y" if "running t y" "y \<noteq> x" for y
    using tx_inv_log [OF assms(1) x(1) l] that c(2) by (simp add: running_def)
  show ?thesis
  proof (cases l)
    case (Inl e)
    then show ?thesis using assms(3) l one other by (auto simp: close_tx_def sbind_def)
  next
    case (Inr u)
    then have t': "t' = end_tx x t1" "r = Inr ()" using assms(3) l by (simp_all add: close_tx_def sbind_def)
    have "tx_status c x = Some st" using clog_log.record_decides [OF q] c(1) Inr by simp
    then have "tx_steps t t'" unfolding t'(1) using x(1) c(2) by (intro ts_end [OF one]) simp_all
    then show ?thesis using other t' c(2) \<open>tx_status c x = Some st\<close> by (simp add: running_def end_tx_def)
  qed
qed

text \<open>Ending the current transaction, with or without the explicit one.\<close>

lemma inner_close:
  assumes "session_ok s" "current_tx s = Some x" "on_db (on_tx (close_tx st x)) t = (r, s')" "db t = db s" "current_tx t = None"
    and "transaction_snapshot t = transaction_snapshot s \<and> txn t = txn s \<and> txn s \<noteq> TxOpen \<or> transaction_snapshot t = None \<and> txn t = TxNone"
    and "prepared_statements t = prepared_statements s" "next_handle t = next_handle s"
  shows "inner_step s s' \<and> current_tx s' = None \<and> txn s' = txn t \<and>
    (r = Inr () \<longrightarrow> x \<notin> in_flight (ws_tx (db s')) \<and> tx_status (tx_clog (ws_tx (db s'))) x = Some st)"
proof -
  obtain t' where t': "close_tx st x (ws_tx (db s)) = (r, t')" by (cases "close_tx st x (ws_tx (db s))") (use assms(3,4) in \<open>auto simp: on_db_def on_tx_def\<close>)
  then have s': "s' = t\<lparr>db := (db s)\<lparr>ws_tx := t'\<rparr>\<rparr>" using assms(3,4) by (simp add: on_db_def on_tx_def)
  have "tx_inv (ws_tx (db s))" "running (ws_tx (db s)) x" using assms(1,2) by (simp_all add: session_ok_def)
  note c = close_tx_steps [OF this t']
  have "inner_step s s'" using c assms(1,2,5-8) s' by (intro inner_stepI) (auto simp: session_ok_def handles_kept_def)
  with c s' assms(5) show ?thesis by simp
qed

section \<open>The parts of a call\<close>

lemma inner_finish:
  assumes "session_ok s" "current_tx s = Some x" "finish_tx x t = (r, s')" "db t = db s" "current_tx t = None"
    and "transaction_snapshot t = transaction_snapshot s \<and> txn t = txn s \<and> txn s \<noteq> TxOpen \<or> transaction_snapshot t = None \<and> txn t = TxNone"
    and "prepared_statements t = prepared_statements s" "next_handle t = next_handle s"
  shows "inner_step s s' \<and> current_tx s' = None \<and> txn s' = txn t"
proof (cases "ssi_check_commit x (ssi (ws_tx (db t)))")
  case (Inl e)
  then obtain q where "on_db (on_tx (close_tx RolledBack x)) t = (q, s')"
    using assms(3) by (cases "on_db (on_tx (close_tx RolledBack x)) t") (auto simp: finish_tx_def close_tx_eq)
  from inner_close [OF assms(1,2) this assms(4-8)] show ?thesis by blast
next
  case (Inr u)
  then have "on_db (on_tx (close_tx Committed x)) t = (r, s')" using assms(3) by (simp add: finish_tx_def close_tx_eq)
  from inner_close [OF assms(1,2) this assms(4-8)] show ?thesis by blast
qed

lemma inner_autocommit:
  assumes "session_ok s" "autocommit w s = (r, s')"
  shows "inner_step s s'"
proof -
  obtain l s1 where one: "(if w then on_db (on_pager commit) else sret ()) s = (l, s1)" by (metis surj_pair)
  have k: "inner_step s s1"
    using one inner_db [OF assms(1) leaves_basic(3), of commit l s1] inner_refl [OF assms(1)] by (auto split: if_splits)
  then have ok: "session_ok s1" by (simp add: inner_step_def)
  show ?thesis
  proof (cases l)
    case (Inl e)
    then show ?thesis using assms(2) one k by (simp add: autocommit_def sbind_def)
  next
    case (Inr u)
    then have rest: "(if txn s1 = TxNone \<and> w then case current_tx s1 of None \<Rightarrow> (Inl Panicked, s1) | Some x \<Rightarrow> finish_tx x (s1\<lparr>current_tx := None\<rparr>)
        else (Inr (), s1)) = (r, s')" using assms(2) one by (simp add: autocommit_def sbind_def)
    show ?thesis
    proof (cases "txn s1 = TxNone \<and> w \<and> current_tx s1 \<noteq> None")
      case True
      then obtain x where x: "current_tx s1 = Some x" "finish_tx x (s1\<lparr>current_tx := None\<rparr>) = (r, s')" using rest by auto
      from inner_finish [OF ok x] True have "inner_step s1 s'" by simp
      then show ?thesis by (rule inner_trans [OF k _ assms(1)])
    qed (use rest k in \<open>auto split: if_splits\<close>)
  qed
qed

lemma inner_rolled_back:
  assumes "session_ok s"
  shows "inner_step s (abort_open (roll_back_pager s))"
  using assms by (intro inner_core) (auto simp: abort_open_def roll_back_pager_def core_def session_ok_def handles_kept_def split: if_splits)

lemma inner_release:
  assumes "session_ok s" "txn s \<noteq> TxOpen"
  shows "inner_step s (release_tx s) \<and> current_tx (release_tx s) = None \<and> txn (release_tx s) = txn s"
proof (cases "current_tx s")
  case (Some x)
  obtain q s' where c: "on_db (on_tx (close_tx RolledBack x)) (s\<lparr>current_tx := None\<rparr>) = (q, s')" by (metis surj_pair)
  from inner_close [OF assms(1) Some c] assms(2) Some c show ?thesis by (simp add: release_tx_def close_tx_eq)
qed (simp add: release_tx_def inner_refl [OF assms(1)])

lemma abort_open_not_open: "txn (abort_open s) \<noteq> TxOpen" "txn (abort_open s) = TxNone \<longleftrightarrow> txn s = TxNone"
  by (auto simp: abort_open_def)

lemma inner_failed:
  assumes "session_ok s"
  shows "inner_step s (statement_failed s) \<and> current_tx (statement_failed s) = None \<and>
    (txn s = TxNone \<longrightarrow> txn (statement_failed s) = TxNone) \<and> (txn s = TxOpen \<longrightarrow> txn (statement_failed s) = TxAborted)"
proof -
  let ?t = "abort_open (roll_back_pager s)"
  have i: "inner_step s ?t" by (rule inner_rolled_back [OF assms])
  then have "session_ok ?t" by (simp add: inner_step_def)
  from inner_release [OF this abort_open_not_open(1)] inner_trans [OF i _ assms]
  have "inner_step s (release_tx ?t) \<and> current_tx (release_tx ?t) = None \<and> txn (release_tx ?t) = txn ?t" by blast
  then show ?thesis using abort_open_not_open(1) [of "roll_back_pager s"]
    by (auto simp: statement_failed_def Let_def) (simp_all add: abort_open_def roll_back_pager_def)
qed

text \<open>A reservation when the plan writes, then the plan, then what follows it.\<close>

lemma inner_plan:
  assumes "session_ok s" "tx_state.next_tx_id (ws_tx (db s)) \<noteq> - 1" "keeps core f"
    and "on_db f (if w then ensure_write_tx s else s) = (r, s1)"
  shows "inner_step s s1" "session_ok s1"
proof -
  let ?t = "if w then ensure_write_tx s else s"
  have i: "inner_step s ?t" using inner_ensure [OF assms(1,2)] inner_refl [OF assms(1)] by simp
  then have "session_ok ?t" by (simp add: inner_step_def)
  from inner_db [OF this assms(3,4)] show "inner_step s s1" by (rule inner_trans [OF i _ assms(1)])
  then show "session_ok s1" by (simp add: inner_step_def)
qed

lemma inner_run_plan:
  assumes "engine_ok eng" "session_ok s" "tx_state.next_tx_id (ws_tx (db s)) \<noteq> - 1" "run_plan eng fuel plan s = (r, s')"
  shows "inner_step s s'"
proof -
  let ?t = "if plan_writes plan then ensure_write_tx s else s"
  let ?f = "execute_plan eng fuel (catalog_at ?t) (snapshot_for_statement ?t) plan"
  obtain l s1 where one: "on_db ?f ?t = (l, s1)" by (metis surj_pair)
  note i = inner_plan [OF assms(2,3) execute_plan_leaves [OF assms(1)] one]
  show ?thesis
  proof (cases l)
    case (Inl e)
    then have "s' = statement_failed s1" using assms(4) one by (simp add: run_plan_def Let_def)
    then show ?thesis using inner_trans [OF i(1) _ assms(2)] inner_failed [OF i(2)] by simp
  next
    case (Inr res)
    then have "sbind (autocommit (plan_writes plan)) (\<lambda>_. sret res) s1 = (r, s')" using assms(4) one by (simp add: run_plan_def Let_def)
    then obtain q where "autocommit (plan_writes plan) s1 = (q, s')" by (auto simp: sbind_def split: prod.splits sum.splits)
    from inner_autocommit [OF i(2) this] show ?thesis by (rule inner_trans [OF i(1) _ assms(2)])
  qed
qed

lemma inner_run_streaming:
  assumes "engine_ok eng" "session_ok s" "tx_state.next_tx_id (ws_tx (db s)) \<noteq> - 1" "run_plan_streaming eng fuel plan s = (r, s')"
  shows "inner_step s s'"
proof -
  let ?t = "if plan_writes plan then ensure_write_tx s else s"
  let ?f = "execute_streaming eng fuel (catalog_at ?t) (snapshot_for_statement ?t) plan"
  obtain l s1 where one: "on_db ?f ?t = (l, s1)" by (metis surj_pair)
  note i = inner_plan [OF assms(2,3) execute_streaming_leaves [OF assms(1)] one]
  consider (failed) e where "l = Inl e" | (streams) q where "l = Inr (Stream q)" | (finished) "l = Inr Done"
    by (cases l; cases "projr l") auto
  then show ?thesis
  proof cases
    case failed
    then have "s' = statement_failed s1" using assms(4) one by (simp add: run_plan_streaming_def Let_def)
    then show ?thesis using inner_trans [OF i(1) _ assms(2)] inner_failed [OF i(2)] by simp
  next
    case streams
    then show ?thesis using assms(4) one i(1) by (simp add: run_plan_streaming_def Let_def)
  next
    case finished
    then have "sbind (autocommit (plan_writes plan)) (\<lambda>_. sret Done) s1 = (r, s')"
      using assms(4) one by (simp add: run_plan_streaming_def Let_def)
    then obtain q where "autocommit (plan_writes plan) s1 = (q, s')" by (auto simp: sbind_def split: prod.splits sum.splits)
    from inner_autocommit [OF i(2) this] show ?thesis by (rule inner_trans [OF i(1) _ assms(2)])
  qed
qed

lemma inner_stream_next:
  assumes "engine_ok eng" "session_ok s" "stream_next eng q s = (r, s')"
  shows "inner_step s s'"
proof -
  obtain l q' d where one: "stream_step eng (q, db s) = (l, (q', d))" by (metis surj_pair)
  have "(\<lambda>(q, d). core d) (snd (stream_step eng (q, db s))) = core (db s)"
    using assms(1) unfolding engine_ok_def keeps_def by simp
  then have "core d = core (db s)" using one by simp
  then have i: "inner_step s (s\<lparr>db := d\<rparr>)" using assms(2) by (intro inner_core) (auto simp: session_ok_def handles_kept_def)
  then have "session_ok (s\<lparr>db := d\<rparr>)" by (simp add: inner_step_def)
  from inner_trans [OF i inner_rolled_back [OF this] assms(2)] i show ?thesis
    using assms(3) one by (auto simp: stream_next_def split: sum.splits)
qed

lemma inner_commit:
  assumes "session_ok s" "commit_transaction s = (r, s')"
  shows "inner_step s s'"
proof (cases "txn s")
  case TxNone
  then show ?thesis using assms inner_refl by (simp add: commit_transaction_def)
next
  case TxOpen
  let ?t = "s\<lparr>transaction_snapshot := None, txn := TxNone, current_tx := None\<rparr>"
  obtain x where x: "current_tx s = Some x" using assms(1) TxOpen by (auto simp: session_ok_def)
  then have "finish_tx x ?t = (r, s')" using assms(2) TxOpen by (simp add: commit_transaction_def)
  from inner_finish [OF assms(1) x this] show ?thesis by simp
next
  case TxAborted
  let ?t = "s\<lparr>transaction_snapshot := None, txn := TxNone, current_tx := None\<rparr>"
  show ?thesis
  proof (cases "current_tx s")
    case None
    then have "s' = ?t" using assms(2) TxAborted by (simp add: commit_transaction_def)
    then show ?thesis using assms(1) by (intro inner_stepI) (auto simp: session_ok_def handles_kept_def intro: ts_init)
  next
    case (Some x)
    then have "on_db (on_tx (close_tx RolledBack x)) ?t = (r, s')" using assms(2) TxAborted by (simp add: commit_transaction_def close_tx_eq)
    from inner_close [OF assms(1) Some this] show ?thesis by simp
  qed
qed

lemma inner_quit:
  assumes "session_ok s"
  shows "inner_step s ((roll_back_pager s)\<lparr>transaction_snapshot := None, txn := TxNone\<rparr>)"
  using assms by (intro inner_stepI) (auto simp: session_ok_def roll_back_pager_def running_def handles_kept_def intro: ts_init)

lemma same_current: "current_tx s = v \<Longrightarrow> s\<lparr>current_tx := v\<rparr> = s" for s :: session
  by (cases s) simp

lemma inner_rollback:
  assumes "session_ok s" "rollback_transaction s = (r, s')"
  shows "inner_step s s'"
proof (cases "txn s = TxNone")
  case True
  then show ?thesis using assms inner_refl by (simp add: rollback_transaction_def)
next
  case False
  let ?q = "(roll_back_pager s)\<lparr>transaction_snapshot := None, txn := TxNone\<rparr>"
  have i: "inner_step s ?q" by (rule inner_quit [OF assms(1)])
  then have ok: "session_ok ?q" by (simp add: inner_step_def)
  have cq: "current_tx ?q = current_tx s" by (simp add: roll_back_pager_def)
  show ?thesis
  proof (cases "current_tx s")
    case None
    then have "s' = ?q\<lparr>current_tx := None\<rparr>" using assms(2) False by (simp add: rollback_transaction_def Let_def)
    then have "s' = ?q" using same_current [of ?q None] cq None by simp
    then show ?thesis using i by simp
  next
    case (Some x)
    then have "on_db (on_tx (close_tx RolledBack x)) (?q\<lparr>current_tx := None\<rparr>) = (r, s')"
      using assms(2) False by (simp add: rollback_transaction_def close_tx_eq Let_def)
    from inner_close [OF ok _ this] Some cq have "inner_step ?q s'" by simp
    then show ?thesis by (rule inner_trans [OF i _ assms(1)])
  qed
qed

lemma inner_abort:
  assumes "session_ok s"
  shows "inner_step s (abort_transaction s)"
proof (cases "txn s = TxNone")
  case False
  let ?q = "(roll_back_pager s)\<lparr>transaction_snapshot := None, txn := TxNone\<rparr>"
  have i: "inner_step s ?q" by (rule inner_quit [OF assms])
  then have "session_ok ?q" by (simp add: inner_step_def)
  from inner_release [OF this] have "inner_step ?q (release_tx ?q)" by simp
  then show ?thesis using False inner_trans [OF i _ assms] by (simp add: abort_transaction_def)
qed (simp add: abort_transaction_def inner_refl [OF assms])

section \<open>Calls\<close>

text \<open>An operation of a session all of whose runs are inner steps.\<close>

definition inner :: "(session, 'a) op \<Rightarrow> bool" where
  "inner f \<longleftrightarrow> (\<forall>s r s'. session_ok s \<longrightarrow> f s = (r, s') \<longrightarrow> inner_step s s')"

lemma innerI: "(\<And>s r s'. session_ok s \<Longrightarrow> f s = (r, s') \<Longrightarrow> inner_step s s') \<Longrightarrow> inner f"
  by (simp add: inner_def)

lemma innerD: "inner f \<Longrightarrow> session_ok s \<Longrightarrow> f s = (r, s') \<Longrightarrow> inner_step s s'"
  unfolding inner_def by blast

lemma inner_pure: "inner (sret x)" "inner (slift r)"
  by (auto intro!: innerI inner_refl)

lemma inner_sbind:
  assumes "inner m" "\<And>x. inner (f x)"
  shows "inner (sbind m f)"
proof (rule innerI)
  fix s r s'
  assume s: "session_ok s" "sbind m f s = (r, s')"
  obtain l t where l: "m s = (l, t)" by (cases "m s")
  have i: "inner_step s t" by (rule innerD [OF assms(1) s(1) l])
  then have ok: "session_ok t" by (simp add: inner_step_def)
  show "inner_step s s'"
  proof (cases l)
    case (Inl e)
    then show ?thesis using s(2) l i by (simp add: sbind_def)
  next
    case (Inr x)
    then have "f x t = (r, s')" using s(2) l by (simp add: sbind_def)
    from innerD [OF assms(2) ok this] show ?thesis by (rule inner_trans [OF i _ s(1)])
  qed
qed

lemma inner_on_db: "keeps core f \<Longrightarrow> inner (on_db f)"
  using inner_db by (blast intro: innerI)

lemma inner_catalog: "inner (\<lambda>s. (Inr (), s\<lparr>catalog_at := root\<rparr>))"
  by (rule innerI) (auto intro!: inner_core simp: session_ok_def handles_kept_def)

lemma inner_reload: "inner reload_for_write"
proof (rule innerI)
  fix s r s'
  assume "session_ok s" "reload_for_write s = (r, s')"
  then show "inner_step s s'"
    unfolding reload_for_write_def by (intro innerD [OF inner_sbind [OF inner_on_db [OF leaves_basic(3)] inner_catalog]])
qed

lemma inner_create_index: "inner (session_create_index fuel name table columns)"
  unfolding session_create_index_def by (intro inner_sbind inner_reload inner_on_db leaves_basic(3))

lemma inner_vacuum: "inner (session_vacuum fuel fs)"
proof (rule innerI)
  fix s r s'
  assume "session_ok s" "session_vacuum fuel fs s = (r, s')"
  then show "inner_step s s'"
    unfolding session_vacuum_def by (intro innerD [OF inner_sbind [OF inner_on_db [OF vacuum_leaves] inner_catalog]])
qed

text \<open>A run of a plan may reserve an id, for which there must be one left.\<close>

definition ids_left :: "session \<Rightarrow> bool" where
  "ids_left s \<longleftrightarrow> tx_state.next_tx_id (ws_tx (db s)) \<noteq> - 1"

definition runs :: "(plan \<Rightarrow> (session, 'r) op) \<Rightarrow> bool" where
  "runs run \<longleftrightarrow> (\<forall>plan s r s'. session_ok s \<longrightarrow> ids_left s \<longrightarrow> run plan s = (r, s') \<longrightarrow> inner_step s s')"

lemma runs_plan: "engine_ok eng \<Longrightarrow> runs (run_plan eng fuel)" "engine_ok eng \<Longrightarrow> runs (run_plan_streaming eng fuel)"
  unfolding runs_def ids_left_def using inner_run_plan inner_run_streaming by blast+

lemma inner_ack: "inner m \<Longrightarrow> session_ok s \<Longrightarrow> sbind m (\<lambda>_. sret ack) s = (r, s') \<Longrightarrow> inner_step s s'"
  by (rule innerD [OF inner_sbind [OF _ inner_pure(1)]])

lemma inner_dispatch:
  assumes "runs run" "session_ok s" "ids_left s" "dispatch fs fuel ack run plan s = (r, s')"
  shows "inner_step s s'"
proof -
  have r: "inner_step s s'" if "run plan s = (r, s')" using assms(1-3) that unfolding runs_def by blast
  show ?thesis
    using assms(4) r inner_ack [OF inner_vacuum assms(2)] inner_ack [OF inner_create_index assms(2)] inner_refl [OF assms(2)]
    by (cases plan) (auto simp: dispatch_def split: if_splits)
qed

lemma ids_left_db: "on_db (on_pager f) s = (r, s') \<Longrightarrow> ids_left s' = ids_left s"
  by (auto simp: on_db_def on_pager_def ids_left_def split: prod.splits)

lemma inner_planned:
  assumes "runs run" "session_ok s" "ids_left s"
    and "sbind (on_db (on_pager f)) (\<lambda>plan. sbind (slift (bind plan)) (\<lambda>plan. dispatch fs fuel ack run plan)) s = (r, s')"
  shows "inner_step s s'"
proof -
  obtain l t where l: "on_db (on_pager f) s = (l, t)" by (cases "on_db (on_pager f) s")
  have i: "inner_step s t" by (rule inner_db [OF assms(2) leaves_basic(3) l])
  then have ok: "session_ok t" by (simp add: inner_step_def)
  have "inner_step t s'"
  proof (cases l)
    case (Inl e)
    then show ?thesis using assms(4) l inner_refl [OF ok] by (simp add: sbind_def)
  next
    case (Inr p)
    then have b: "sbind (slift (bind p)) (dispatch fs fuel ack run) t = (r, s')" using assms(4) l by (simp add: sbind_def)
    show ?thesis
      using b inner_refl [OF ok] inner_dispatch [OF assms(1) ok, of fs fuel ack _ r s'] ids_left_db [OF l] assms(3)
      by (cases "bind p") auto
  qed
  then show ?thesis by (rule inner_trans [OF i _ assms(2)])
qed

text \<open>What a whole call does: BEGIN opens a transaction, everything else is an inner step.\<close>

definition call_step :: "session \<Rightarrow> session \<Rightarrow> bool" where
  "call_step s s' \<longleftrightarrow> own_step s s' \<and> session_ok s'"

lemma inner_call: "inner_step s s' \<Longrightarrow> call_step s s'"
  by (simp add: inner_step_def call_step_def)

lemma call_begin:
  assumes "session_ok s" "ids_left s" "begin_transaction s = (r, s')"
  shows "call_step s s'"
proof (cases "txn s = TxNone")
  case False
  then show ?thesis using assms(1,3) inner_call [OF inner_refl] by (simp add: begin_transaction_def)
next
  case True
  obtain x t where x: "reserve_tx s = (x, t)" by (cases "reserve_tx s")
  then have i: "inner_step s t" "current_tx t = Some x"
    using inner_reserve [OF assms(1)] True assms(2) by (simp_all add: ids_left_def)
  have s': "s' = t\<lparr>transaction_snapshot := Some (take_snapshot (Some x) (ws_tx (db t))), txn := TxOpen\<rparr>"
    using assms(3) True x by (simp add: begin_transaction_def)
  have "tx_inv (ws_tx (db t))" using i(1) by (simp add: inner_step_def session_ok_def)
  then have "pinned (take_snapshot (Some x) (ws_tx (db t))) (ws_tx (db t))" unfolding pinned_def using ts_init by blast
  then show ?thesis using i True s' by (auto simp: call_step_def own_step_def inner_step_def session_ok_def handles_kept_def)
qed

lemma call_statement:
  assumes "runs run" "session_ok s" "ids_left s" "run_statement eng fs fuel ack bind run st s = (r, s')"
  shows "call_step s s'"
proof -
  have planned: "call_step s s'"
    if "(if txn s = TxAborted then (Inl (Fail Exec), s)
         else sbind (on_db (on_pager (plan_of eng st (catalog_at s)))) (\<lambda>plan.
           sbind (slift (bind plan)) (\<lambda>plan. dispatch fs fuel ack run plan)) s) = (r, s')"
    using that inner_call [OF inner_refl [OF assms(2)]] inner_call [OF inner_planned [OF assms(1-3)]] by (auto split: if_splits)
  have begun: "call_step s s'" if "sbind begin_transaction (\<lambda>_. sret ack) s = (r, s')"
  proof -
    obtain l t where l: "begin_transaction s = (l, t)" by (cases "begin_transaction s")
    then have "t = s'" using that by (cases l) (auto simp: sbind_def)
    then show ?thesis using call_begin [OF assms(2,3) l] by simp
  qed
  have ended: "inner commit_transaction" "inner rollback_transaction"
    using inner_commit inner_rollback by (auto intro: innerI)
  have closed: "call_step s s'" if "sbind commit_transaction (\<lambda>_. sret ack) s = (r, s') \<or> sbind rollback_transaction (\<lambda>_. sret ack) s = (r, s')"
    using that inner_call [OF inner_ack [OF ended(1) assms(2), of ack]] inner_call [OF inner_ack [OF ended(2) assms(2), of ack]] by blast
  show ?thesis
  proof (cases "st \<in> {Begin, Commit, Rollback}")
    case True
    then show ?thesis using assms(4) begun closed by (auto simp: run_statement_def)
  next
    case False
    then show ?thesis using assms(4) by (intro planned) (cases st; auto simp: run_statement_def split: if_splits)
  qed
qed

lemma call_parsed:
  assumes "session_ok s" "sbind (slift (parse uc sql)) f s = (r, s')" "\<And>st. f st s = (r, s') \<Longrightarrow> call_step s s'"
  shows "call_step s s'"
  using assms(2,3) inner_call [OF inner_refl [OF assms(1)]] by (cases "parse uc sql") auto

lemma inner_keep_plan: "inner (keep_plan plan)"
proof (rule innerI)
  fix s r s'
  assume s: "session_ok s" "keep_plan plan s = (r, s')"
  show "inner_step s s'"
  proof (cases "next_handle s = - 1")
    case True
    then show ?thesis using s inner_refl by (simp add: keep_plan_def Let_def)
  next
    case False
    note lt = less_next [OF False]
    have "next_handle s \<le> next_handle s + 1" using lt by (meson order.refl order_less_imp_le)
    moreover have "h < next_handle s + 1" if "prepared_statements s' h \<noteq> None" for h
      using that s False lt [of h] by (auto simp: keep_plan_def Let_def session_ok_def less_imp_le split: if_splits)
    ultimately show ?thesis using s False
      by (intro inner_core) (auto simp: keep_plan_def Let_def handles_kept_def)
  qed
qed

lemma inner_prepare: "inner (prepare_sql uc eng sql)"
proof -
  have "inner (\<lambda>s. if \<not> plannable st then (Inl (Fail Exec), s)
      else sbind (on_db (on_pager (plan_of eng st (catalog_at s)))) (\<lambda>plan.
        if \<not> preparable plan then slift (Inl (Fail Exec)) else keep_plan plan) s)" for st
  proof (rule innerI)
    fix s r s'
    assume s: "session_ok s" and run: "(if \<not> plannable st then (Inl (Fail Exec), s)
      else sbind (on_db (on_pager (plan_of eng st (catalog_at s)))) (\<lambda>plan.
        if \<not> preparable plan then slift (Inl (Fail Exec)) else keep_plan plan) s) = (r, s')"
    have "inner (sbind (on_db (on_pager (plan_of eng st (catalog_at s)))) (\<lambda>plan.
        if \<not> preparable plan then slift (Inl (Fail Exec)) else keep_plan plan))"
      by (intro inner_sbind inner_on_db leaves_basic(3)) (simp add: inner_pure inner_keep_plan)
    from innerD [OF this s] run inner_refl [OF s] show "inner_step s s'" by (auto split: if_splits)
  qed
  then show ?thesis unfolding prepare_sql_def by (intro inner_sbind inner_pure)
qed

lemma inner_forget: "session_ok s \<Longrightarrow> inner_step s (s\<lparr>prepared_statements := (prepared_statements s)(h := None)\<rparr>)"
  by (rule inner_core) (auto simp: session_ok_def handles_kept_def split: if_splits)

lemma inner_take: "inner (take_fresh_prepared_plan h)"
  by (rule innerI) (auto simp: take_fresh_prepared_plan_def inner_refl inner_forget split: option.splits if_splits)

lemma ids_left_take: "take_fresh_prepared_plan h s = (r, s') \<Longrightarrow> ids_left s' = ids_left s"
  by (auto simp: take_fresh_prepared_plan_def ids_left_def split: option.splits if_splits)

lemma inner_prepared:
  assumes "runs run" "session_ok s" "ids_left s"
    and "sbind (take_fresh_prepared_plan h) (\<lambda>plan. sbind (slift (bind_plan params plan)) run) s = (r, s')"
  shows "inner_step s s'"
proof -
  obtain l t where l: "take_fresh_prepared_plan h s = (l, t)" by (cases "take_fresh_prepared_plan h s")
  have i: "inner_step s t" by (rule innerD [OF inner_take assms(2) l])
  then have ok: "session_ok t" by (simp add: inner_step_def)
  have left: "ids_left t" using ids_left_take [OF l] assms(3) by simp
  have "inner_step t s'"
    using assms(1,4) l ok left inner_refl [OF ok]
    by (cases l; cases "bind_plan params (projr l)") (auto simp: sbind_def runs_def)
  then show ?thesis by (rule inner_trans [OF i _ assms(2)])
qed

text \<open>The calls of a client.\<close>

datatype 'q call = CallExecute "uchar list" "sql_value list" | CallStreaming "uchar list" | CallNext 'q | CallPrepare "uchar list"
  | CallPrepared u64 "sql_value list" | CallPreparedStreaming u64 "sql_value list" | CallDeallocate u64 | CallReload | CallDisconnect

fun after_call :: "unicode \<Rightarrow> 'q engine \<Rightarrow> io_outcome list \<Rightarrow> nat \<Rightarrow> 'q call \<Rightarrow> session \<Rightarrow> session" where
  "after_call uc eng fs fuel (CallExecute sql params) s = snd (execute_with_params uc eng fs fuel sql params s)"
| "after_call uc eng fs fuel (CallStreaming sql) s = snd (session_streaming uc eng fs fuel sql s)"
| "after_call uc eng fs fuel (CallNext q) s = snd (stream_next eng q s)"
| "after_call uc eng fs fuel (CallPrepare sql) s = snd (prepare_sql uc eng sql s)"
| "after_call uc eng fs fuel (CallPrepared h params) s = snd (execute_prepared eng fuel h params s)"
| "after_call uc eng fs fuel (CallPreparedStreaming h params) s = snd (execute_prepared_streaming eng fuel h params s)"
| "after_call uc eng fs fuel (CallDeallocate h) s = snd (deallocate_prepared h s)"
| "after_call uc eng fs fuel CallReload s = snd (reload_for_write s)"
| "after_call uc eng fs fuel CallDisconnect s = abort_transaction s"

lemma call_is_step:
  assumes "engine_ok eng" "session_ok s" "ids_left s"
  shows "call_step s (after_call uc eng fs fuel c s)"
proof -
  note runs = runs_plan [OF assms(1), of fuel]
  have refl: "call_step s s" by (rule inner_call [OF inner_refl [OF assms(2)]])
  show ?thesis
  proof (cases c)
    case (CallExecute sql params)
    obtain r s' where e: "execute_with_params uc eng fs fuel sql params s = (r, s')" by (metis surj_pair)
    then have "call_step s s'" unfolding execute_with_params_def
      by (rule call_parsed [OF assms(2)]) (rule call_statement [OF runs(1) assms(2,3)])
    with CallExecute e show ?thesis by simp
  next
    case (CallStreaming sql)
    obtain r s' where e: "session_streaming uc eng fs fuel sql s = (r, s')" by (metis surj_pair)
    then have "call_step s s'" unfolding session_streaming_def
      by (rule call_parsed [OF assms(2)]) (rule call_statement [OF runs(2) assms(2,3)])
    with CallStreaming e show ?thesis by simp
  next
    case (CallNext q)
    obtain r s' where e: "stream_next eng q s = (r, s')" by (metis surj_pair)
    with CallNext inner_call [OF inner_stream_next [OF assms(1,2) e]] show ?thesis by simp
  next
    case (CallPrepare sql)
    obtain r s' where e: "prepare_sql uc eng sql s = (r, s')" by (metis surj_pair)
    with CallPrepare inner_call [OF innerD [OF inner_prepare assms(2) e]] show ?thesis by simp
  next
    case (CallPrepared h params)
    obtain r s' where e: "execute_prepared eng fuel h params s = (r, s')" by (metis surj_pair)
    then have "call_step s s'"
      using refl inner_call [OF inner_prepared [OF runs(1) assms(2,3)]] by (auto simp: execute_prepared_def split: if_splits)
    with CallPrepared e show ?thesis by simp
  next
    case (CallPreparedStreaming h params)
    let ?run = "\<lambda>plan. if plan = PlanVacuum then slift (Inl (Fail Exec)) else run_plan_streaming eng fuel plan"
    have run: "runs ?run" using runs(2) inner_refl by (auto simp: runs_def split: if_splits)
    obtain r s' where e: "execute_prepared_streaming eng fuel h params s = (r, s')" by (metis surj_pair)
    then have "call_step s s'"
      using refl inner_call [OF inner_prepared [OF run assms(2,3)]] by (auto simp: execute_prepared_streaming_def split: if_splits)
    with CallPreparedStreaming e show ?thesis by simp
  next
    case (CallDeallocate h)
    with inner_call [OF inner_forget [OF assms(2)]] show ?thesis by (simp add: deallocate_prepared_def)
  next
    case CallReload
    obtain r s' where e: "reload_for_write s = (r, s')" by (metis surj_pair)
    with CallReload inner_call [OF innerD [OF inner_reload assms(2) e]] show ?thesis by simp
  next
    case CallDisconnect
    with inner_call [OF inner_abort [OF assms(2)]] show ?thesis by simp
  qed
qed

section \<open>One transaction among others\<close>

text \<open>A stretch of calls during which the transaction stays open, with the steps of other sessions in between.\<close>

inductive open_run :: "unicode \<Rightarrow> 'q engine \<Rightarrow> session \<Rightarrow> session \<Rightarrow> bool" for uc eng s0 where
  or_start: "open_run uc eng s0 s0"
| or_call: "open_run uc eng s0 s \<Longrightarrow> ids_left s \<Longrightarrow> txn (after_call uc eng fs fuel c s) = TxOpen \<Longrightarrow>
    open_run uc eng s0 (after_call uc eng fs fuel c s)"
| or_peer: "open_run uc eng s0 s \<Longrightarrow> tx_steps (ws_tx (db s)) (ws_tx d) \<Longrightarrow> \<forall>x. current_tx s = Some x \<longrightarrow> running (ws_tx d) x \<Longrightarrow>
    open_run uc eng s0 (s\<lparr>db := d\<rparr>)"

lemma peer_keeps_ok:
  assumes "session_ok s" "tx_steps (ws_tx (db s)) (ws_tx d)" "\<forall>x. current_tx s = Some x \<longrightarrow> running (ws_tx d) x"
  shows "session_ok (s\<lparr>db := d\<rparr>)"
  using assms tx_steps_inv [OF assms(2)] pinned_steps [OF _ assms(2)] by (auto simp: session_ok_def)

lemma open_run_keeps:
  assumes "open_run uc eng s0 s" "engine_ok eng" "session_ok s0" "txn s0 = TxOpen"
  shows "session_ok s \<and> txn s = TxOpen \<and> current_tx s = current_tx s0 \<and> transaction_snapshot s = transaction_snapshot s0 \<and>
    tx_steps (ws_tx (db s0)) (ws_tx (db s))"
  using assms(1)
proof (induction rule: open_run.induct)
  case or_start
  then show ?case using assms(3,4) ts_init by blast
next
  case (or_call s fs fuel c)
  then have "call_step s (after_call uc eng fs fuel c s)" using call_is_step [OF assms(2)] by blast
  with or_call show ?case unfolding call_step_def own_step_def using tx_steps_trans by auto
next
  case (or_peer s d)
  then show ?case using peer_keeps_ok [of s d] tx_steps_trans [of "ws_tx (db s)" "ws_tx d"] by simp
qed

text \<open>Calls alone, whatever becomes of the transaction.\<close>

inductive session_run :: "unicode \<Rightarrow> 'q engine \<Rightarrow> session \<Rightarrow> session \<Rightarrow> bool" for uc eng s0 where
  sr_start: "session_run uc eng s0 s0"
| sr_call: "session_run uc eng s0 s \<Longrightarrow> ids_left s \<Longrightarrow> session_run uc eng s0 (after_call uc eng fs fuel c s)"

lemma session_run_keeps:
  assumes "session_run uc eng s0 s" "engine_ok eng" "session_ok s0"
  shows "session_ok s \<and> handles_kept s0 s \<and> tx_steps (ws_tx (db s0)) (ws_tx (db s)) \<and>
    (\<forall>x. running (ws_tx (db s0)) x \<longrightarrow> current_tx s0 \<noteq> Some x \<longrightarrow> running (ws_tx (db s)) x \<and> current_tx s \<noteq> Some x)"
  using assms(1)
proof (induction rule: session_run.induct)
  case sr_start
  then show ?case using assms(3) ts_init by (auto simp: handles_kept_def)
next
  case (sr_call s fs fuel c)
  let ?s' = "after_call uc eng fs fuel c s"
  have c: "call_step s ?s'" using call_is_step [OF assms(2)] sr_call by blast
  have "current_tx ?s' \<noteq> Some x" if "running (ws_tx (db s)) x" "current_tx s \<noteq> Some x" for x
  proof -
    have "x < tx_state.next_tx_id (ws_tx (db s))" using running_below_next that(1) sr_call.IH by (auto simp: session_ok_def)
    then show ?thesis using c that(2) by (auto simp: call_step_def own_step_def)
  qed
  with c sr_call.IH show ?case unfolding call_step_def own_step_def using tx_steps_trans handles_kept_trans by blast
qed

section \<open>Properties\<close>

text \<open>C6: Every call keeps the invariant of the session, and minds its own transactions. Executing, streaming,
  pulling rows, preparing, executing prepared statements, reopening the catalog and disconnecting lead from a
  consistent session to a consistent one, whether they succeed or fail; the shared coordinator moves only by its
  own steps; and a transaction of another session that is running goes on running.\<close>

theorem session_keeps_invariant:
  assumes "engine_ok eng" "session_ok s" "ids_left s"
  shows "session_ok (after_call uc eng fs fuel c s) \<and> tx_steps (ws_tx (db s)) (ws_tx (db (after_call uc eng fs fuel c s))) \<and>
    (\<forall>x. running (ws_tx (db s)) x \<and> current_tx s \<noteq> Some x \<longrightarrow> running (ws_tx (db (after_call uc eng fs fuel c s))) x)"
  using call_is_step [OF assms] by (simp add: call_step_def own_step_def)

text \<open>C7: A transaction sees one state of the database. However many calls it makes while it stays open, and
  whatever other sessions begin, commit and roll back in between, its statements run under the snapshot of its
  BEGIN, and the set of row versions that snapshot shows does not change.\<close>

theorem transaction_sees_one_snapshot:
  assumes "engine_ok eng" "session_ok s0" "txn s0 = TxOpen" "open_run uc eng s0 s"
  shows "snapshot_for_statement s = snapshot_for_statement s0 \<and>
    visible (tx_clog (ws_tx (db s))) (snapshot_for_statement s) a b = visible (tx_clog (ws_tx (db s0))) (snapshot_for_statement s0) a b"
proof -
  note k = open_run_keeps [OF assms(4,1-3)]
  obtain base t0 own where base: "transaction_snapshot s0 = Some base" "tx_inv t0" "tx_steps t0 (ws_tx (db s0))" "base = take_snapshot own t0"
    using assms(2,3) by (cases "transaction_snapshot s0") (auto simp: session_ok_def pinned_def)
  have "snapshot_for_statement s = snapshot_for_statement s0" using k base(1) by (simp add: snapshot_for_statement_def)
  moreover have snap: "snapshot_for_statement s0 = take_snapshot (current_tx s0) t0"
    using base(1,4) by (simp add: snapshot_for_statement_def take_snapshot_def)
  moreover have "tx_steps t0 (ws_tx (db s))" using k tx_steps_trans base(3) by blast
  ultimately show ?thesis using seen_stable [OF _ base(2)] base(3) by (simp add: visible_iff)
qed

text \<open>C8: COMMIT and ROLLBACK decide all at once. After a COMMIT that reports success, a new snapshot shows every
  row version the transaction inserted and none it deleted; after a ROLLBACK that reports success it shows none
  it inserted, and what it deleted is shown as if it had not been there.\<close>

theorem transaction_is_atomic:
  assumes "session_ok s" "txn s = TxOpen" "current_tx s = Some x"
  shows "(commit_transaction s = (Inr (), s') \<longrightarrow>
      visible (tx_clog (ws_tx (db s'))) (take_snapshot None (ws_tx (db s'))) x 0 \<and>
      \<not> visible (tx_clog (ws_tx (db s'))) (take_snapshot None (ws_tx (db s'))) a x) \<and>
    (rollback_transaction s = (Inr (), s') \<longrightarrow>
      \<not> visible (tx_clog (ws_tx (db s'))) (take_snapshot None (ws_tx (db s'))) x b \<and>
      visible (tx_clog (ws_tx (db s'))) (take_snapshot None (ws_tx (db s'))) a x =
        visible (tx_clog (ws_tx (db s'))) (take_snapshot None (ws_tx (db s'))) a 0)"
proof -
  have run: "running (ws_tx (db s)) x" "tx_inv (ws_tx (db s))" using assms by (simp_all add: session_ok_def)
  then have x0: "x \<noteq> 0" "x < tx_state.next_tx_id (ws_tx (db s))" by (auto simp: running_def tx_inv_def)
  have decided: "x \<notin> in_flight (ws_tx (db s')) \<and> tx_status (tx_clog (ws_tx (db s'))) x = Some st \<and> x < tx_state.next_tx_id (ws_tx (db s'))"
    if close: "on_db (on_tx (close_tx st x)) t = (Inr (), s')" "ws_tx (db t) = ws_tx (db s)" for st t
  proof -
    obtain t' where t': "close_tx st x (ws_tx (db s)) = (Inr (), t')" "ws_tx (db s') = t'"
      using close by (cases "close_tx st x (ws_tx (db s))") (auto simp: on_db_def on_tx_def)
    from close_tx_steps [OF run(2,1) t'(1)] t'(2) next_mono [of "ws_tx (db s)" t'] x0(2) show ?thesis by auto
  qed
  have committed: "on_db (on_tx (close_tx Committed x)) (s\<lparr>transaction_snapshot := None, txn := TxNone, current_tx := None\<rparr>) = (Inr (), s')"
    if "commit_transaction s = (Inr (), s')"
    using that assms(2,3) by (auto simp: commit_transaction_def Let_def finish_tx_def close_tx_eq split: sum.splits)
  have undone: "on_db (on_tx (close_tx RolledBack x)) ((roll_back_pager s)\<lparr>transaction_snapshot := None, txn := TxNone, current_tx := None\<rparr>) = (Inr (), s')"
    if "rollback_transaction s = (Inr (), s')"
    using that assms(2,3) by (simp add: rollback_transaction_def Let_def close_tx_eq)
  show ?thesis
  proof (intro conjI impI)
    assume c: "commit_transaction s = (Inr (), s')"
    from decided [OF committed [OF c]] x0(1)
    show "visible (tx_clog (ws_tx (db s'))) (take_snapshot None (ws_tx (db s'))) x 0"
      "\<not> visible (tx_clog (ws_tx (db s'))) (take_snapshot None (ws_tx (db s'))) a x"
      by (auto simp: visible_iff seen_def take_snapshot_def is_committed_def)
  next
    assume r: "rollback_transaction s = (Inr (), s')"
    from decided [OF undone [OF r]] x0(1)
    show "\<not> visible (tx_clog (ws_tx (db s'))) (take_snapshot None (ws_tx (db s'))) x b"
      "visible (tx_clog (ws_tx (db s'))) (take_snapshot None (ws_tx (db s'))) a x =
        visible (tx_clog (ws_tx (db s'))) (take_snapshot None (ws_tx (db s'))) a 0"
      by (auto simp: visible_iff seen_def take_snapshot_def is_committed_def roll_back_pager_def)
  qed
qed


text \<open>C38: EXPLAIN, streamed outside a transaction, leaves its transaction id running for good. The statement
  counts as a write and reserves an id, but it answers with rows, and the branch that commits the id runs for
  acknowledgements only. Disconnecting does not release it, and once a BEGIN has taken its place no call of the
  session ever does: the reclaim watermark never passes it.\<close>

theorem streamed_explain_never_ends:
  assumes "engine_ok eng" "session_ok s" "txn s = TxNone" "current_tx s = None" "ids_left s"
    and "run_plan_streaming eng fuel (PlanExplain plan analyze) s = (Inr (Stream q), s1)"
    and "ids_left s1" "begin_transaction s1 = (r, s2)" "session_run uc eng s2 s3"
  shows "\<exists>x. current_tx s1 = Some x \<and> abort_transaction s1 = s1 \<and> running (ws_tx (db s3)) x \<and> oldest_active_tx_id (ws_tx (db s3)) \<le> x"
proof -
  let ?t = "ensure_write_tx s"
  have e: "inner_step s ?t \<and> current_tx ?t \<noteq> None \<and> txn ?t = txn s" using inner_ensure [OF assms(2)] assms(5) by (simp add: ids_left_def)
  obtain l u where one: "on_db (execute_streaming eng fuel (catalog_at ?t) (snapshot_for_statement ?t) (PlanExplain plan analyze)) ?t = (l, u)"
    by (metis surj_pair)
  have s1: "s1 = u"
  proof (cases l)
    case (Inl e)
    then show ?thesis using assms(6) one by (simp add: run_plan_streaming_def Let_def)
  next
    case (Inr ex)
    have "ex \<noteq> Done"
    proof
      assume "ex = Done"
      then show False using assms(6) one Inr by (auto simp: run_plan_streaming_def Let_def sbind_def split: sum.splits prod.splits)
    qed
    then show ?thesis using assms(6) one Inr by (cases ex) (auto simp: run_plan_streaming_def Let_def)
  qed
  have ok: "session_ok s1" using inner_run_streaming [OF assms(1,2) _ assms(6)] assms(5) by (simp add: ids_left_def inner_step_def)
  have u: "current_tx u = current_tx ?t" "txn u = txn ?t" using one by (auto simp: on_db_def split: prod.splits)
  then obtain x where x: "current_tx s1 = Some x" "txn s1 = TxNone" using e s1 assms(3) by auto
  then have run: "running (ws_tx (db s1)) x" using ok by (simp add: session_ok_def)
  have below: "x < tx_state.next_tx_id (ws_tx (db s1))" using running_below_next run ok by (simp add: session_ok_def)
  obtain y t where y: "reserve_tx s1 = (y, t)" by (cases "reserve_tx s1")
  have s2: "current_tx s2 = Some y" "db s2 = db t" using assms(8) x(2) y inner_reserve [OF ok _ _ y] assms(7)
    by (auto simp: begin_transaction_def ids_left_def)
  have "y = tx_state.next_tx_id (ws_tx (db s1))" using y by (auto simp: reserve_tx_def begin_write_def Let_def)
  then have "current_tx s2 \<noteq> Some x" using s2(1) below by auto
  moreover have "running (ws_tx (db s2)) x" using s2(2) y run by (auto simp: reserve_tx_def begin_write_def Let_def running_def)
  moreover have "session_ok s2" using call_begin [OF ok assms(7,8)] by (simp add: call_step_def)
  ultimately have "running (ws_tx (db s3)) x" using session_run_keeps [OF assms(9,1)] by blast
  moreover from this have "oldest_active_tx_id (ws_tx (db s3)) \<le> x" by (auto simp: oldest_active_tx_id_def running_def)
  moreover have "abort_transaction s1 = s1" using x(2) by (simp add: abort_transaction_def)
  ultimately show ?thesis using x(1) by blast
qed

text \<open>C21: A prepared statement runs the plan it was prepared with, or nothing. Preparing gives out a handle that was
  never in use; after any later calls the handle, as long as it is known, runs exactly that plan with the
  parameters in the place of its placeholders while the schema version is the one of the preparation, and fails
  and is forgotten once DDL or ANALYZE has moved the version.\<close>

theorem prepared_statement_runs_its_plan:
  assumes "engine_ok eng" "session_ok s" "prepare_sql uc eng sql s = (Inr h, s1)" "session_run uc eng s1 s2"
    and "prepared_statements s2 h \<noteq> None" "txn s2 \<noteq> TxAborted"
  shows "prepared_statements s h = None \<and> (\<exists>st plan. parse uc sql = Inr st \<and>
    fst (plan_of eng st (catalog_at s) (ws_pager (db s))) = Inr plan \<and>
    execute_prepared eng fuel h params s2 =
      (if schema_version (ws_pager (db s2)) = schema_version (ws_pager (db s1))
       then (case bind_plan params plan of Inl e \<Rightarrow> (Inl e, s2) | Inr p \<Rightarrow> run_plan eng fuel p s2)
       else (Inl (Fail Exec), s2\<lparr>prepared_statements := (prepared_statements s2)(h := None)\<rparr>)))"
proof -
  obtain st where st: "parse uc sql = Inr st" using assms(3) by (cases "parse uc sql") (auto simp: prepare_sql_def)
  have "plannable st" using assms(3) st by (auto simp: prepare_sql_def split: if_splits)
  then have step: "sbind (on_db (on_pager (plan_of eng st (catalog_at s)))) (\<lambda>plan.
      if \<not> preparable plan then slift (Inl (Fail Exec)) else keep_plan plan) s = (Inr h, s1)"
    using assms(3) st by (simp add: prepare_sql_def)
  obtain plan t where t: "on_db (on_pager (plan_of eng st (catalog_at s))) s = (Inr plan, t)" "keep_plan plan t = (Inr h, s1)"
    using step by (rule sbind_InrE) (auto split: if_splits)
  have pl: "fst (plan_of eng st (catalog_at s) (ws_pager (db s))) = Inr plan" "next_handle t = next_handle s"
    using t(1) by (auto simp: on_db_def on_pager_def split: prod.splits)
  have h: "h = next_handle s" "next_handle s \<noteq> - 1" "next_handle s1 = next_handle s + 1"
    "prepared_statements s1 h = Some \<lparr>cp_schema_version = schema_version (ws_pager (db s1)), cp_plan = plan\<rparr>"
    using t(2) pl(2) by (auto simp: keep_plan_def Let_def split: if_splits)
  have new: "prepared_statements s h = None"
  proof (rule ccontr)
    assume "prepared_statements s h \<noteq> None"
    then have "h < next_handle s" using assms(2) by (simp add: session_ok_def)
    then show False using h(1) by simp
  qed
  have "session_ok s1" using innerD [OF inner_prepare assms(2,3)] by (simp add: inner_step_def)
  then have "handles_kept s1 s2" using session_run_keeps [OF assms(4,1)] by blast
  moreover have "h < next_handle s1" unfolding h(1,3) using less_next [OF h(2)] by simp
  ultimately have "prepared_statements s2 h = prepared_statements s1 h" using assms(5) by (auto simp: handles_kept_def)
  then have "execute_prepared eng fuel h params s2 =
      (if schema_version (ws_pager (db s2)) = schema_version (ws_pager (db s1))
       then (case bind_plan params plan of Inl e \<Rightarrow> (Inl e, s2) | Inr p \<Rightarrow> run_plan eng fuel p s2)
       else (Inl (Fail Exec), s2\<lparr>prepared_statements := (prepared_statements s2)(h := None)\<rparr>))"
    using assms(6) h(4) by (auto simp: execute_prepared_def take_fresh_prepared_plan_def sbind_def split: sum.splits)
  with new st pl(1) show ?thesis by blast
qed

section \<open>Witnesses\<close>

text \<open>An engine that answers every query with no rows, and one whose queries fail.\<close>

definition empty_engine :: "unit engine" where
  "empty_engine = \<lparr>plan_of = (\<lambda>_ _. sret (PlanExplain PlanVacuum False)), query = (\<lambda>_ _ _. sret ()), stream_columns = (\<lambda>_. []),
     stream_step = (\<lambda>s. (Inr None, s)), prepare_expr = (\<lambda>_ _. sret), cascade = (\<lambda>_ _ _ _ _ _. sret ())\<rparr>"

definition failing_engine :: "unit engine" where
  "failing_engine = empty_engine\<lparr>query := (\<lambda>_ _ _. slift (Inl (Fail Exec)))\<rparr>"

lemma engines_ok: "engine_ok empty_engine" "engine_ok failing_engine"
  by (simp_all add: engine_ok_def empty_engine_def failing_engine_def keeps_def)

definition sample_session :: session where
  "sample_session = new_session \<lparr>ws_pager = sample_pager, ws_tx = start_state\<rparr> 1"

lemma sample_session: "session_ok sample_session" "ids_left sample_session"
  using start_state_inv by (simp_all add: sample_session_def new_session_def session_ok_def ids_left_def start_state_def tx_state_new_def)

definition begun_session :: session where
  "begun_session = snd (begin_transaction sample_session)"

lemma begun_session: "session_ok begun_session" "txn begun_session = TxOpen" "current_tx begun_session = Some 1"
    "ws_tx (db begun_session) = after_begin" "transaction_snapshot begun_session = Some (take_snapshot (Some 1) after_begin)"
proof -
  obtain r s' where b: "begin_transaction sample_session = (r, s')" by (metis surj_pair)
  from call_begin [OF sample_session b] show "session_ok begun_session" using b by (simp add: call_step_def begun_session_def)
qed (simp_all add: begun_session_def begin_transaction_def sample_session_def new_session_def reserve_tx_def begin_write_def after_begin_def
    start_state_def tx_state_new_def)

theorem session_keeps_invariant_witness:
  "session_ok (after_call plain_ascii empty_engine [] 9 (CallExecute (chars ''BEGIN'') []) sample_session)"
  using session_keeps_invariant [OF engines_ok(1) sample_session] by blast

theorem transaction_sees_one_snapshot_witness:
  "\<exists>s. open_run plain_ascii empty_engine begun_session s \<and> 2 \<in> in_flight (ws_tx (db s)) \<and>
     snapshot_for_statement s = snapshot_for_statement begun_session \<and>
     \<not> visible (tx_clog (ws_tx (db s))) (snapshot_for_statement s) 2 0"
proof -
  let ?d = "(db begun_session)\<lparr>ws_tx := second_begun\<rparr>" let ?s = "begun_session\<lparr>db := ?d\<rparr>"
  have b: "begin_write after_begin = (2, second_begun)" "tx_state.next_tx_id after_begin \<noteq> - 1"
    by (simp_all add: second_begun_def after_begin_def start_state_def tx_state_new_def begin_write_def)
  have i: "2 \<in> in_flight second_begun" "running second_begun 1"
    by (simp_all add: second_begun_def after_begin_def start_state_def tx_state_new_def begin_write_def fresh_clog_def tx_status_def running_def)
  have "tx_steps after_begin second_begun" by (rule ts_begin [OF ts_init b(2,1)])
  then have run: "open_run plain_ascii empty_engine begun_session ?s"
    using or_peer [OF or_start, of begun_session ?d] begun_session(3,4) i(2) by simp
  note same = transaction_sees_one_snapshot [OF engines_ok(1) begun_session(1,2) run, of 2 0]
  have "\<not> visible (tx_clog (ws_tx (db begun_session))) (snapshot_for_statement begun_session) 2 0"
    by (simp add: snapshot_for_statement_def begun_session(3-5) visible_iff seen_def is_committed_def take_snapshot_def after_begin_def
        start_state_def tx_state_new_def begin_write_def fresh_clog_def tx_status_def)
  then show ?thesis using same run i(1) by (intro exI [of _ ?s]) auto
qed

theorem transaction_is_atomic_witness:
  "\<exists>s'. commit_transaction begun_session = (Inr (), s') \<and> visible (tx_clog (ws_tx (db s'))) (take_snapshot None (ws_tx (db s'))) 1 0"
proof -
  obtain c where c: "clog_append 1 Committed (tx_clog after_begin) = (Inr (), c)"
    using clog_append_ok [of "tx_clog after_begin" 1 Committed]
    by (auto simp: after_begin_def start_state_def tx_state_new_def begin_write_def fresh_clog_def quiet_def)
  have "map_of (ssi after_begin) 1 = Some fresh_ssi" by (simp add: after_begin_def start_state_def tx_state_new_def begin_write_def)
  then have "ssi_check_commit 1 (ssi after_begin) = Inr ()" by (simp add: ssi_check_commit_def fresh_ssi_def)
  then obtain s' where "commit_transaction begun_session = (Inr (), s')"
    using begun_session(2-4) c
    by (simp add: commit_transaction_def finish_tx_def on_db_def on_tx_def commit_write_def log_outcome_def sbind_def)
  with transaction_is_atomic [OF begun_session(1-3), of s' 0 0] show ?thesis by blast
qed

lemma sample_reserved:
  "ensure_write_tx sample_session = sample_session\<lparr>db := \<lparr>ws_pager = bump_next_tx_id_to 2 sample_pager, ws_tx = after_begin\<rparr>, current_tx := Some 1\<rparr>"
  by (simp add: ensure_write_tx_def sample_session_def new_session_def reserve_tx_def begin_write_def after_begin_def start_state_def tx_state_new_def)


theorem streamed_explain_never_ends_witness:
  "\<exists>s1 s2. run_plan_streaming empty_engine 1 (PlanExplain PlanVacuum False) sample_session = (Inr (Stream ()), s1) \<and>
     begin_transaction s1 = (Inr (), s2) \<and> running (ws_tx (db s2)) 1"
proof -
  let ?s1 = "ensure_write_tx sample_session"
  have one: "run_plan_streaming empty_engine 1 (PlanExplain PlanVacuum False) sample_session = (Inr (Stream ()), ?s1)"
    by (simp add: run_plan_streaming_def Let_def sbind_def empty_engine_def on_db_def)
  have left: "ids_left ?s1" by (simp add: sample_reserved ids_left_def after_begin_def start_state_def tx_state_new_def begin_write_def)
  have none: "txn ?s1 = TxNone" "txn sample_session = TxNone" "current_tx sample_session = None" "current_tx ?s1 = Some 1"
    by (simp_all add: sample_reserved) (simp_all add: sample_session_def new_session_def)
  obtain s2 where two: "begin_transaction ?s1 = (Inr (), s2)" using none(1) by (cases "reserve_tx ?s1") (simp add: begin_transaction_def)
  from streamed_explain_never_ends [OF engines_ok(1) sample_session(1) none(2,3) sample_session(2) one left two sr_start] none(4)
  have "running (ws_tx (db s2)) 1" by simp
  with one two show ?thesis by blast
qed

lemma parse_vacuum: "parse plain_ascii (chars ''VACUUM'') = Inr Vacuum"
  by code_simp

theorem prepared_statement_runs_its_plan_witness:
  "\<exists>s1. prepare_sql plain_ascii empty_engine (chars ''VACUUM'') sample_session = (Inr 1, s1) \<and>
     execute_prepared empty_engine 1 1 [] s1 = run_plan empty_engine 1 (PlanExplain PlanVacuum False) s1"
proof -
  obtain s1 where s1: "prepare_sql plain_ascii empty_engine (chars ''VACUUM'') sample_session = (Inr 1, s1)" "prepared_statements s1 1 \<noteq> None"
    "txn s1 \<noteq> TxAborted"
    by (simp add: prepare_sql_def parse_vacuum plannable_def on_db_def on_pager_def sbind_def empty_engine_def preparable_def keep_plan_def
        sample_session_def new_session_def)
  from prepared_statement_runs_its_plan [OF engines_ok(1) sample_session(1) s1(1) sr_start s1(2,3), of 1 "[]"] s1(1) show ?thesis
    by (auto simp: parse_vacuum empty_engine_def)
qed

end
