(* ===== verification/Spec2Isabelle.thy ===== *)
theory Spec2Isabelle
  imports Index_Key Pager_Crash Transaction Btree_Map Wire_Protocol Eval_Batch Row_Operators Batch_Operators Join_Operators Session_Spec
begin

text \<open>
  PrehniteDB is an embedded SQL database in Rust with a server and a client. A statement travels
  from the wire protocol through the lexer, the parser, the binder and the planner to the executor;
  the executor reads and writes B+trees of encoded rows under snapshot isolation; the trees live in
  pages that a pager caches, logs ahead and commits. The development follows that stack from the
  bottom up, one theory per component.

  \<^bold>\<open>Conventions.\<close> \<open>Prelude\<close> holds the error type of \<^verbatim>\<open>error.rs\<close>, results (a Rust panic and a
  model's fuel running out are failures apart from the program's errors), state passing, byte
  strings, integer encodings and bounds-checked slices. An \<^verbatim>\<open>&mut self\<close> method is an operation
  on its state that returns the state on the error path too. A \<^verbatim>\<open>Result\<close> is a sum; error messages
  are left out. Machine integers are words where their width matters.

  \<^bold>\<open>Storage.\<close>
  \<^item> \<open>Page_Layout\<close> (\<^verbatim>\<open>storage/page.rs\<close>): slotted pages at byte level; building and reading are
    inverse, the searches find what they should.
  \<^item> \<open>Wal_Log\<close> (\<^verbatim>\<open>storage/wal.rs\<close>): the log as bytes; a crash leaves the last sealed batch or the
    new one, recovery may be restarted, corruption is detected.
  \<^item> \<open>Buffer_Pool\<close>, \<open>Pager\<close>, \<open>Pager_Spec\<close>, \<open>Pager_Crash\<close> (\<^verbatim>\<open>storage/pager.rs\<close>): the sharded
    CLOCK cache (interface \<open>page_cache\<close>), every pager operation over files whose I/O may fail at any
    call, the contract \<open>page_store\<close> that the B+tree relies on, durability, rollback and crashes.
  \<^item> \<open>Btree\<close>, \<open>Btree_Spec\<close>, \<open>Btree_Update\<close>, \<open>Btree_Insert\<close>, \<open>Btree_Delete\<close>, \<open>Btree_Map\<close>
    (\<^verbatim>\<open>storage/btree.rs\<close>): insertion, deletion, search and scans over any \<open>page_store\<close>, shown to
    refine a finite map; overflow chains, splits and merges included.

  \<^bold>\<open>Engine.\<close>
  \<^item> \<open>Value_Schema\<close>, \<open>Codec\<close>, \<open>Index_Key\<close> (\<^verbatim>\<open>engine/value.rs\<close>, \<^verbatim>\<open>schema.rs\<close>, \<^verbatim>\<open>codec.rs\<close>): values,
    schemas, their encodings (interface \<open>wire_codec\<close>) and the order-preserving index keys.
  \<^item> \<open>Clog\<close>, \<open>Transaction\<close> (\<^verbatim>\<open>engine/clog.rs\<close>, \<^verbatim>\<open>transaction.rs\<close>): the commit log with group
    commit by several threads (interface \<open>commit_log\<close>), snapshots, visibility, conflict tracking.
  \<^item> \<open>Sql_Ast\<close> (\<^verbatim>\<open>sql/ast.rs\<close>), \<open>Float64\<close> (the \<^verbatim>\<open>f64\<close> operations, on bit patterns),
    \<open>Expr_Eval\<close> and \<open>Eval_Batch\<close> (\<^verbatim>\<open>engine/executor.rs\<close>): the scalar and the columnwise
    evaluator and their agreement; \<open>Column_Batch\<close> (\<^verbatim>\<open>engine/batch.rs\<close>): null masks, columns and
    batches.
  \<^item> \<open>Row_Stream\<close>, \<open>Row_Operators\<close>, \<open>Batch_Operators\<close>, \<open>Join_Operators\<close> (\<^verbatim>\<open>engine/executor.rs\<close>):
    pull-based operators row by row and batch by batch, their agreement, and the joins against a nested loop.
  \<^item> \<open>Catalog\<close> (\<^verbatim>\<open>engine/catalog.rs\<close>): a map of schemas in a B+tree. \<open>Access_Path\<close> (\<^verbatim>\<open>engine/planner.rs\<close>) and
    \<open>Index_Scan\<close> (\<^verbatim>\<open>engine/executor.rs\<close>): which index a query uses, and that it returns what a full scan returns.
  \<^item> \<open>Table_Write\<close> (\<^verbatim>\<open>engine/executor.rs\<close>): INSERT, UPDATE, DELETE, the constraints and the upkeep of the
    indexes. \<open>Ddl\<close>: CREATE and DROP TABLE, the phases of CREATE INDEX, DROP INDEX, ANALYZE; a built index is
    complete and statistics are exact.
  \<^item> \<open>Maintenance\<close>, \<open>Vacuum\<close> (\<^verbatim>\<open>engine/database.rs\<close>): reclaiming dead versions, truncation of the commit log,
    the compact copy; what each pass removes, and where it removes too much.
  \<^item> \<open>Plan_Bind\<close> (\<^verbatim>\<open>engine/bind.rs\<close>): parameters in place of placeholders.
  \<^item> \<open>Session\<close>, \<open>Session_Spec\<close> (\<^verbatim>\<open>engine/database.rs\<close>, \<^verbatim>\<open>lib.rs\<close>): the state machine of a connection, composed of
    the parts above. A call keeps the invariant of its session, moves the coordinator only by the steps of
    \<open>Transaction\<close> and leaves the transactions of others running; transactions see one snapshot and end at once.

  \<^bold>\<open>SQL.\<close> \<open>Lexer\<close>, \<open>Lexer_Spec\<close> (\<^verbatim>\<open>sql/lexer.rs\<close>, \<^verbatim>\<open>sql/token.rs\<close>), \<open>Parser\<close>, \<open>Sql_Print\<close> (\<^verbatim>\<open>sql/parser.rs\<close>): the
  scanner against a declarative tokenization, the parser with its termination, expressions printed and parsed
  again. \<open>Cascade_Text\<close> (\<^verbatim>\<open>engine/executor.rs\<close>): the statements that referential actions write as text.

  \<^bold>\<open>Interface.\<close> \<open>Wire_Protocol\<close> (\<^verbatim>\<open>protocol.rs\<close>): frames and messages over a socket whose reads may
  be short or interrupted (interface \<open>message_codec\<close>); what is sent arrives.

  \<^bold>\<open>Arguments.\<close> The alphabetic and numeric characters above ASCII, the text of an \<^verbatim>\<open>f64\<close>, the iteration order of a
  hash map, and the outcomes of I/O are arguments. So are, for the session, the planner and the query pipeline
  (the fields of \<open>engine\<close>): its theorems hold for every engine that leaves the coordinator's ids and outcomes alone.

  \<^bold>\<open>Fuel.\<close> Tree descents and operator loops take fuel. The tree's fuel is bounded by its height, and \<open>ANY_TREE\<close>
  is enough for every tree that 32-bit page numbers allow; the operators' is bounded by the number of items
  their input emits, the parser's by the number of tokens. The theorems say how much is enough and that the
  result is then returned.

  \<^bold>\<open>Not modelled.\<close> Threads appear where the code hands data between them (group commit, interleaved
  transactions, sessions side by side); mutexes and latches carry no data and are left out. The rewriting and
  costing part of the planner, EXPLAIN's rendering, grouped aggregation, the spilling joins, the pass that
  runs ANALYZE in the background, the server and the command line are not modelled.
\<close>

end
